(* ===== verification/Prelude.thy ===== *)
theory Prelude
  imports Main "HOL-Library.Word"
begin

text \<open>
  What every component of the development shares: the machine integers of the i386 target,
  the result type of kernel code that can panic, halt on an assertion, spin for ever on a
  lock or touch memory it does not own, and the generic facts on lists, words and results
  the component proofs rest on.

  Kernel code is modelled by functions into \<open>kerr + 'a\<close>: \<open>Inr\<close> carries the value (and the
  state the code leaves), \<open>Inl\<close> says which way the kernel stopped.
\<close>

section \<open>Machine integers\<close>

type_synonym u8 = "8 word"
type_synonym u16 = "16 word"
type_synonym u32 = "32 word"

unbundle bit_operations_syntax

named_theorems kres_simps \<open>rewriting of results of kernel code\<close>
named_theorems ring_simps \<open>arithmetic of ring indices\<close>
named_theorems byte_simps \<open>reading and writing little endian integers in byte arrays\<close>

section \<open>Results of kernel code\<close>

text \<open>
  \<open>Panic\<close>: a call of \<open>panic\<close> (the kernel halts with a message). \<open>Assertion\<close>: a failed
  \<open>KASSERT\<close> or \<open>assert\<close>. \<open>Deadlock\<close>: \<open>spin_lock\<close> on a lock that is already taken, which
  never returns on the single processor this kernel runs on when the holder is the caller.
  \<open>Fault\<close>: an access outside an object, a null dereference or a division by zero.
\<close>

datatype kerr = Panic string | Assertion string | Deadlock | Fault

type_synonym 'a kres = "kerr + 'a"

definition bnd :: "'a kres \<Rightarrow> ('a \<Rightarrow> 'b kres) \<Rightarrow> 'b kres" where
  "bnd m f = (case m of Inl e \<Rightarrow> Inl e | Inr x \<Rightarrow> f x)"

lemma bnd_Inr [simp, kres_simps]: "bnd (Inr x) f = f x"
  by (simp add: bnd_def)

lemma bnd_Inl [simp, kres_simps]: "bnd (Inl e) f = Inl e"
  by (simp add: bnd_def)

lemma bnd_eq_Inr [kres_simps]: "bnd m f = Inr y \<longleftrightarrow> (\<exists>x. m = Inr x \<and> f x = Inr y)"
  by (cases m) auto

lemma bnd_split: "P (bnd m f) \<longleftrightarrow> (\<forall>e. m = Inl e \<longrightarrow> P (Inl e)) \<and> (\<forall>x. m = Inr x \<longrightarrow> P (f x))"
  by (cases m) auto

lemma bnd_cong [fundef_cong]:
  "m = m' \<Longrightarrow> (\<And>x. m' = Inr x \<Longrightarrow> f x = f' x) \<Longrightarrow> bnd m f = bnd m' f'"
  by (cases m') auto

lemma bnd_assoc: "bnd (bnd m f) g = bnd m (\<lambda>x. bnd (f x) g)"
  by (cases m) auto

text \<open>\<open>KASSERT(c)\<close> and \<open>assert(c)\<close> in front of the rest of a function.\<close>

definition kassert :: "bool \<Rightarrow> string \<Rightarrow> 'a kres \<Rightarrow> 'a kres" where
  "kassert c msg k = (if c then k else Inl (Assertion msg))"

lemma kassert_True [simp]: "kassert True msg k = k"
  by (simp add: kassert_def)

lemma kassert_eq_Inr [kres_simps]: "kassert c msg k = Inr y \<longleftrightarrow> c \<and> k = Inr y"
  by (simp add: kassert_def)

text \<open>Array accesses of the C code, with the accesses out of range written out.\<close>

definition aget :: "'a list \<Rightarrow> nat \<Rightarrow> 'a kres" where
  "aget xs i = (if i < length xs then Inr (xs ! i) else Inl Fault)"

definition aset :: "'a list \<Rightarrow> nat \<Rightarrow> 'a \<Rightarrow> 'a list kres" where
  "aset xs i x = (if i < length xs then Inr (xs[i := x]) else Inl Fault)"

lemma aget_ok [simp]: "i < length xs \<Longrightarrow> aget xs i = Inr (xs ! i)"
  by (simp add: aget_def)

lemma aset_ok [simp]: "i < length xs \<Longrightarrow> aset xs i x = Inr (xs[i := x])"
  by (simp add: aset_def)

lemma aget_eq_Inr [kres_simps]: "aget xs i = Inr y \<longleftrightarrow> i < length xs \<and> y = xs ! i"
  by (auto simp: aget_def)

lemma aset_eq_Inr [kres_simps]: "aset xs i x = Inr ys \<longleftrightarrow> i < length xs \<and> ys = xs[i := x]"
  by (auto simp: aset_def)

section \<open>Words\<close>

lemma unat_add_of_nat_mod:
  fixes w :: "'n::len word"
  assumes "n dvd 2 ^ LENGTH('n)"
  shows "unat (w + of_nat i) mod n = (unat w + i) mod n"
proof -
  have "unat (w + of_nat i) = (unat w + i) mod 2 ^ LENGTH('n)"
    by (simp add: unat_word_ariths unat_of_nat mod_simps)
  then show ?thesis
    using assms by (simp add: mod_mod_cancel)
qed

lemma unat_add_mod_dvd:
  fixes w v :: "'n::len word"
  assumes "n dvd 2 ^ LENGTH('n)"
  shows "unat (w + v) mod n = (unat w + unat v) mod n"
  using unat_add_of_nat_mod [OF assms, of w "unat v"] by simp

lemma unat_add_small:
  fixes w :: "'n::len word"
  assumes "unat w + k < 2 ^ LENGTH('n)"
  shows "unat (w + of_nat k) = unat w + k"
proof -
  have "unat (w + of_nat k) = (unat w + k) mod 2 ^ LENGTH('n)"
    by (simp add: unat_word_ariths unat_of_nat mod_simps)
  with assms show ?thesis by simp
qed

lemma mod_add_inj:
  fixes a i j n :: nat
  assumes "(a + i) mod n = (a + j) mod n" and "i < n" and "j < n"
  shows "i = j"
proof -
  have "i \<le> j \<Longrightarrow> j < n \<Longrightarrow> (a + i) mod n = (a + j) mod n \<Longrightarrow> i = j" for i j
    using mod_eq_nat1E [of "a + j" n "a + i"]
    by (metis add_less_cancel_left add_le_cancel_left le_add_diff_inverse less_imp_diff_less
        mod_eq_dvd_iff_nat dvd_imp_le diff_add_inverse add_diff_cancel_left diff_is_0_eq
        linorder_not_less nat_dvd_not_less zero_less_diff order_le_less)
  with assms show ?thesis
    by (metis nat_le_linear)
qed

lemma div_mod_add_small:
  fixes p i n :: nat
  assumes "p mod n + i < n"
  shows "(p + i) div n = p div n" and "(p + i) mod n = p mod n + i"
proof -
  have e: "p + i = (p mod n + i) + n * (p div n)" and n: "n \<noteq> 0" using assms by auto
  have "(p + i) div n = p div n + (p mod n + i) div n"
    by (subst (1) e) (rule div_mult_self2 [OF n])
  with assms show "(p + i) div n = p div n" by simp
  have "(p + i) mod n = (p mod n + i) mod n"
    by (subst (1) e) (rule mod_mult_self2)
  with assms show "(p + i) mod n = p mod n + i" by simp
qed

end
