(* ===== verification/Ring_Buf.thy ===== *)
theory Ring_Buf
  imports Prelude
begin

text \<open>
  The character ring buffer of \<open>ring_buf.c\<close>, used by the terminals (\<open>tty.c\<close>) for their input
  and output queues. \<open>head\<close> and \<open>tail\<close> are free running 32 bit counters that wrap around; a
  slot is the counter modulo the size of the buffer. The interface the clients rely on is
  the locale \<open>bounded_fifo\<close>, interpreted here on the ring buffer and in \<open>Pipe\<close> on the pipe.
\<close>

section \<open>Contents of a ring addressed by free running counters\<close>

definition ring_items :: "'a list \<Rightarrow> u32 \<Rightarrow> u32 \<Rightarrow> u32 \<Rightarrow> 'a list" where
  "ring_items buf sz tail head =
     map (\<lambda>i. buf ! (unat (tail + of_nat i) mod unat sz)) [0..<unat (head - tail)]"

definition ring_ok :: "'a list \<Rightarrow> u32 \<Rightarrow> u32 \<Rightarrow> u32 \<Rightarrow> bool" where
  "ring_ok buf sz tail head \<longleftrightarrow>
     sz \<noteq> 0 \<and> length buf = unat sz \<and> unat sz dvd 2 ^ 32 \<and> head - tail \<le> sz"

lemma ring_ok_pos: "ring_ok buf sz tail head \<Longrightarrow> 0 < unat sz"
  by (simp add: ring_ok_def unat_gt_0)

lemma ring_ok_nonzero: "ring_ok buf sz tail head \<Longrightarrow> sz \<noteq> 0"
  by (simp add: ring_ok_def)

lemma ring_slot_less: "ring_ok buf sz tail head \<Longrightarrow> unat w mod unat sz < length buf"
  by (metis ring_ok_def ring_ok_pos mod_less_divisor)

lemma ring_items_length [simp]: "length (ring_items buf sz tail head) = unat (head - tail)"
  by (simp add: ring_items_def)

lemma ring_items_nth:
  "ring_ok buf sz tail head \<Longrightarrow> i < unat (head - tail) \<Longrightarrow>
   ring_items buf sz tail head ! i = buf ! ((unat tail + i) mod unat sz)"
  by (simp add: ring_items_def ring_ok_def unat_add_of_nat_mod)

lemma ring_count_suc:
  fixes head tail sz :: u32
  assumes "head - tail < sz"
  shows "unat (head + 1 - tail) = Suc (unat (head - tail))"
proof -
  have "head - tail + 1 \<noteq> 0"
  proof
    assume "head - tail + 1 = 0"
    then have "head - tail = - 1" by (simp only: eq_neg_iff_add_eq_0)
    with assms show False by (simp add: word_order.not_eq_extremum)
  qed
  then have "unat (head - tail + 1) = Suc (unat (head - tail))"
    using unatSuc [of "head - tail"] by (simp add: add.commute)
  then show ?thesis by (simp add: algebra_simps)
qed

lemma ring_count_pred:
  fixes head tail :: u32
  assumes "head \<noteq> tail"
  shows "unat (head - tail) = Suc (unat (head - (tail + 1)))"
proof -
  have "head - tail \<noteq> 0" using assms by simp
  then have "unat (head - tail - 1) = unat (head - tail) - 1" and "0 < unat (head - tail)"
    by (simp_all add: unat_minus_one unat_gt_0)
  moreover have "head - (tail + 1) = head - tail - 1" by simp
  ultimately show ?thesis by (simp only:)
qed

text \<open>Storing at the head appends; advancing the tail drops the first element.\<close>

lemma ring_items_put:
  assumes ok: "ring_ok buf sz tail head" and room: "head - tail < sz"
  shows "ring_items (buf[unat head mod unat sz := c]) sz tail (head + 1) =
         ring_items buf sz tail head @ [c]"
proof (rule nth_equalityI)
  let ?n = "unat (head - tail)"
  have cnt: "unat (head + 1 - tail) = Suc ?n" using room by (rule ring_count_suc)
  have slot: "unat head mod unat sz = (unat tail + ?n) mod unat sz"
    using ok unat_add_mod_dvd [of "unat sz" tail "head - tail"] by (simp add: ring_ok_def)
  have ok': "ring_ok (buf[unat head mod unat sz := c]) sz tail (head + 1)"
    using ok cnt room by (simp add: ring_ok_def word_le_nat_alt word_less_nat_alt)
  have n: "?n < unat sz" using room by (simp add: word_less_nat_alt)
  show "length (ring_items (buf[unat head mod unat sz := c]) sz tail (head + 1)) =
        length (ring_items buf sz tail head @ [c])"
    by (simp add: cnt)
  fix i assume "i < length (ring_items (buf[unat head mod unat sz := c]) sz tail (head + 1))"
  then have i: "i < Suc ?n" by (simp add: cnt)
  show "ring_items (buf[unat head mod unat sz := c]) sz tail (head + 1) ! i =
        (ring_items buf sz tail head @ [c]) ! i"
  proof (cases "i = ?n")
    case True
    have "ring_items (buf[unat head mod unat sz := c]) sz tail (head + 1) ! ?n =
          buf[unat head mod unat sz := c] ! ((unat tail + ?n) mod unat sz)"
      by (rule ring_items_nth [OF ok']) (simp add: cnt)
    also have "\<dots> = c"
      using ring_slot_less [OF ok, of head] by (simp add: slot [symmetric])
    finally show ?thesis by (simp add: True nth_append)
  next
    case False
    then have "i < ?n" using i by simp
    moreover from this have "(unat tail + i) mod unat sz \<noteq> unat head mod unat sz"
      using n slot by (metis mod_add_inj less_imp_neq less_trans)
    ultimately show ?thesis
      by (simp add: ring_items_nth [OF ok'] ring_items_nth [OF ok] cnt nth_append)
  qed
qed

lemma ring_ok_put:
  assumes "ring_ok buf sz tail head" and "head - tail < sz"
  shows "ring_ok (buf[k := c]) sz tail (head + 1)"
  using assms ring_count_suc [OF assms(2)]
  by (simp add: ring_ok_def word_le_nat_alt word_less_nat_alt)

lemma ring_items_get:
  assumes ok: "ring_ok buf sz tail head" and ne: "head \<noteq> tail"
  shows "ring_items buf sz tail head =
         buf ! (unat tail mod unat sz) # ring_items buf sz (tail + 1) head"
proof (rule nth_equalityI)
  have cnt: "unat (head - tail) = Suc (unat (head - (tail + 1)))"
    using ne by (rule ring_count_pred)
  have ok': "ring_ok buf sz (tail + 1) head"
    using ok cnt by (simp add: ring_ok_def word_le_nat_alt)
  show "length (ring_items buf sz tail head) =
        length (buf ! (unat tail mod unat sz) # ring_items buf sz (tail + 1) head)"
    using cnt by simp
  fix i assume "i < length (ring_items buf sz tail head)"
  then have i: "i < Suc (unat (head - (tail + 1)))" by (simp add: cnt)
  show "ring_items buf sz tail head ! i =
        (buf ! (unat tail mod unat sz) # ring_items buf sz (tail + 1) head) ! i"
  proof (cases i)
    case 0
    then show ?thesis using i ok cnt by (simp add: ring_items_nth [OF ok])
  next
    case (Suc k)
    have "(unat (tail + 1) + k) mod unat sz = (unat tail + Suc k) mod unat sz"
      using ok unat_add_of_nat_mod [of "unat sz" tail 1]
      by (simp add: ring_ok_def) (metis mod_add_left_eq add_Suc)
    then show ?thesis
      using Suc i cnt by (simp add: ring_items_nth [OF ok] ring_items_nth [OF ok'])
  qed
qed

lemma ring_ok_get:
  assumes "ring_ok buf sz tail head" and "head \<noteq> tail"
  shows "ring_ok buf sz (tail + 1) head"
  using assms ring_count_pred [OF assms(2)] by (simp add: ring_ok_def word_le_nat_alt)

section \<open>The interface: a bounded first in first out queue\<close>

text \<open>Storing a list of elements one by one, and taking a number of them out again.\<close>

primrec feed :: "('q \<Rightarrow> 'a \<Rightarrow> 'q kres) \<Rightarrow> 'q \<Rightarrow> 'a list \<Rightarrow> 'q kres" where
  "feed put q [] = Inr q"
| "feed put q (x # xs) = bnd (put q x) (\<lambda>q. feed put q xs)"

primrec drain :: "('q \<Rightarrow> ('a \<times> 'q) kres) \<Rightarrow> 'q \<Rightarrow> nat \<Rightarrow> ('a list \<times> 'q) kres" where
  "drain get q 0 = Inr ([], q)"
| "drain get q (Suc n) =
     bnd (get q) (\<lambda>(x, q). bnd (drain get q n) (\<lambda>(xs, q). Inr (x # xs, q)))"

locale bounded_fifo =
  fixes put :: "'q \<Rightarrow> 'a \<Rightarrow> 'q kres"
    and get :: "'q \<Rightarrow> ('a \<times> 'q) kres"
    and is_empty :: "'q \<Rightarrow> bool"
    and is_full :: "'q \<Rightarrow> bool"
    and items :: "'q \<Rightarrow> 'a list"
    and cap :: "'q \<Rightarrow> nat"
    and invar :: "'q \<Rightarrow> bool"
  assumes put_spec: "invar q \<Longrightarrow> length (items q) < cap q \<Longrightarrow>
      \<exists>q'. put q x = Inr q' \<and> invar q' \<and> items q' = items q @ [x] \<and> cap q' = cap q"
    and get_spec: "invar q \<Longrightarrow> items q = x # xs \<Longrightarrow>
      \<exists>q'. get q = Inr (x, q') \<and> invar q' \<and> items q' = xs \<and> cap q' = cap q"
    and is_empty_spec: "invar q \<Longrightarrow> is_empty q \<longleftrightarrow> items q = []"
    and is_full_spec: "invar q \<Longrightarrow> is_full q \<longleftrightarrow> length (items q) = cap q"
    and items_cap: "invar q \<Longrightarrow> length (items q) \<le> cap q"
begin

lemma feed_ok:
  "invar q \<Longrightarrow> length (items q) + length xs \<le> cap q \<Longrightarrow>
   \<exists>q'. feed put q xs = Inr q' \<and> invar q' \<and> items q' = items q @ xs \<and> cap q' = cap q"
proof (induction xs arbitrary: q)
  case Nil
  then show ?case by simp
next
  case (Cons x xs)
  then obtain q' where "put q x = Inr q'" "invar q'" "items q' = items q @ [x]" "cap q' = cap q"
    using put_spec [of q x] by auto
  with Cons.IH [of q'] Cons.prems show ?case by auto
qed

lemma drain_ok:
  "invar q \<Longrightarrow> n \<le> length (items q) \<Longrightarrow>
   \<exists>q'. drain get q n = Inr (take n (items q), q') \<and> invar q' \<and> items q' = drop n (items q)
     \<and> cap q' = cap q"
proof (induction n arbitrary: q)
  case 0
  then show ?case by simp
next
  case (Suc n)
  then obtain x xs where xs: "items q = x # xs" by (cases "items q") auto
  with Suc.prems obtain q' where "get q = Inr (x, q')" "invar q'" "items q' = xs" "cap q' = cap q"
    using get_spec by blast
  with Suc.IH [of q'] Suc.prems xs show ?case by auto
qed

lemma feed_drain:
  assumes "invar q" and "length (items q) + length xs \<le> cap q"
  shows "\<exists>q' q''. feed put q xs = Inr q' \<and>
           drain get q' (length (items q) + length xs) = Inr (items q @ xs, q'') \<and> is_empty q''"
proof -
  from feed_ok [OF assms] obtain q' where
    q': "feed put q xs = Inr q'" "invar q'" "items q' = items q @ xs" by blast
  from drain_ok [OF q'(2), of "length (items q) + length xs"] q'(3) obtain q'' where
    "drain get q' (length (items q) + length xs) = Inr (items q @ xs, q'')" "invar q''" "items q'' = []"
    by auto
  with q' is_empty_spec show ?thesis by auto
qed

end

section \<open>The ring buffer of ring\_buf.c\<close>

record ring_buf =
  rb_buf :: "u8 list"
  rb_head :: u32
  rb_tail :: u32
  rb_size :: u32

text \<open>
  \<open>rb_new\<close>: the two allocations are arguments, \<open>rbmem\<close> whether \<open>malloc(sizeof( *rb))\<close> gave
  memory and \<open>bufmem\<close> the bytes \<open>malloc(size)\<close> gave, whatever they hold.
\<close>

definition rb_new :: "bool \<Rightarrow> u8 list option \<Rightarrow> u32 \<Rightarrow> ring_buf option" where
  "rb_new rbmem bufmem sz =
     (if \<not> rbmem then None
      else case bufmem of
        None \<Rightarrow> None
      | Some mem \<Rightarrow> Some \<lparr>rb_buf = mem, rb_head = 0, rb_tail = 0, rb_size = sz\<rparr>)"

definition rb_is_empty :: "ring_buf \<Rightarrow> bool" where
  "rb_is_empty rb \<longleftrightarrow> rb_head rb = rb_tail rb"

definition rb_is_full :: "ring_buf \<Rightarrow> bool" where
  "rb_is_full rb \<longleftrightarrow> rb_head rb - rb_tail rb \<ge> rb_size rb"

definition rb_putc :: "ring_buf \<Rightarrow> u8 \<Rightarrow> ring_buf kres" where
  "rb_putc rb c =
     (if rb_size rb = 0 then Inl Fault
      else bnd (aset (rb_buf rb) (unat (rb_head rb mod rb_size rb)) c)
             (\<lambda>buf. Inr (rb\<lparr>rb_buf := buf, rb_head := rb_head rb + 1\<rparr>)))"

definition rb_getc :: "ring_buf \<Rightarrow> (u8 \<times> ring_buf) kres" where
  "rb_getc rb =
     (if rb_size rb = 0 then Inl Fault
      else bnd (aget (rb_buf rb) (unat (rb_tail rb mod rb_size rb)))
             (\<lambda>c. Inr (c, rb\<lparr>rb_tail := rb_tail rb + 1\<rparr>)))"

definition rb_reset :: "ring_buf \<Rightarrow> ring_buf" where
  "rb_reset rb = rb\<lparr>rb_tail := 0, rb_head := 0\<rparr>"

definition rb_num_chars :: "ring_buf \<Rightarrow> u32" where
  "rb_num_chars rb = rb_head rb - rb_tail rb"

subsection \<open>Abstraction, invariant and refinement\<close>

definition rb_items :: "ring_buf \<Rightarrow> u8 list" where
  "rb_items rb = ring_items (rb_buf rb) (rb_size rb) (rb_tail rb) (rb_head rb)"

definition rb_ok :: "ring_buf \<Rightarrow> bool" where
  "rb_ok rb \<longleftrightarrow> ring_ok (rb_buf rb) (rb_size rb) (rb_tail rb) (rb_head rb)"

lemma rb_num_chars_items: "unat (rb_num_chars rb) = length (rb_items rb)"
  by (simp add: rb_num_chars_def rb_items_def)

lemma rb_new_ok:
  "rb_new True (Some mem) sz = Some rb \<Longrightarrow> length mem = unat sz \<Longrightarrow> sz \<noteq> 0 \<Longrightarrow>
   unat sz dvd 2 ^ 32 \<Longrightarrow> rb_ok rb \<and> rb_items rb = []"
  by (auto simp: rb_new_def rb_ok_def ring_ok_def rb_items_def ring_items_def)

lemma rb_reset_ok: "rb_ok rb \<Longrightarrow> rb_ok (rb_reset rb) \<and> rb_items (rb_reset rb) = []"
  by (auto simp: rb_reset_def rb_ok_def ring_ok_def rb_items_def ring_items_def)

lemma rb_putc_spec:
  assumes ok: "rb_ok rb" and room: "length (rb_items rb) < unat (rb_size rb)"
  shows "\<exists>rb'. rb_putc rb c = Inr rb' \<and> rb_ok rb' \<and> rb_items rb' = rb_items rb @ [c]
           \<and> rb_size rb' = rb_size rb"
proof -
  from ok have r: "ring_ok (rb_buf rb) (rb_size rb) (rb_tail rb) (rb_head rb)"
    by (simp add: rb_ok_def)
  from room have lt: "rb_head rb - rb_tail rb < rb_size rb"
    by (simp add: rb_items_def word_less_nat_alt)
  show ?thesis
    using ring_ok_nonzero [OF r] ring_slot_less [OF r, of "rb_head rb"]
    by (simp add: rb_putc_def rb_ok_def rb_items_def unat_mod ring_items_put [OF r lt]
        ring_ok_put [OF r lt])
qed

lemma rb_getc_spec:
  assumes ok: "rb_ok rb" and ne: "rb_items rb = c # cs"
  shows "\<exists>rb'. rb_getc rb = Inr (c, rb') \<and> rb_ok rb' \<and> rb_items rb' = cs
           \<and> rb_size rb' = rb_size rb"
proof -
  from ok have r: "ring_ok (rb_buf rb) (rb_size rb) (rb_tail rb) (rb_head rb)"
    by (simp add: rb_ok_def)
  from ne have "length (rb_items rb) \<noteq> 0" by simp
  then have hd: "rb_head rb \<noteq> rb_tail rb" by (auto simp: rb_items_def)
  show ?thesis
    using ring_items_get [OF r hd] ring_ok_nonzero [OF r] ring_slot_less [OF r, of "rb_tail rb"] ne
    by (simp add: rb_getc_def rb_ok_def rb_items_def unat_mod ring_ok_get [OF r hd])
qed

interpretation rbq: bounded_fifo rb_putc rb_getc rb_is_empty rb_is_full rb_items
  "\<lambda>rb. unat (rb_size rb)" rb_ok
proof unfold_locales
  fix q x xs
  assume ok: "rb_ok q"
  show "length (rb_items q) < unat (rb_size q) \<Longrightarrow>
      \<exists>q'. rb_putc q x = Inr q' \<and> rb_ok q' \<and> rb_items q' = rb_items q @ [x]
        \<and> unat (rb_size q') = unat (rb_size q)"
    using rb_putc_spec [OF ok] by fastforce
  show "rb_items q = x # xs \<Longrightarrow>
      \<exists>q'. rb_getc q = Inr (x, q') \<and> rb_ok q' \<and> rb_items q' = xs
        \<and> unat (rb_size q') = unat (rb_size q)"
    using rb_getc_spec [OF ok] by fastforce
  show "rb_is_empty q \<longleftrightarrow> rb_items q = []"
    by (metis rb_is_empty_def rb_items_def ring_items_length length_0_conv unat_0_iff right_minus_eq)
  show "length (rb_items q) \<le> unat (rb_size q)"
    using ok by (simp add: rb_ok_def ring_ok_def rb_items_def word_le_nat_alt)
  then show "rb_is_full q \<longleftrightarrow> length (rb_items q) = unat (rb_size q)"
    by (auto simp: rb_is_full_def rb_items_def word_le_nat_alt)
qed

subsection \<open>Properties\<close>

text \<open>
  C5. The ring buffer is a first in first out queue at every position of its 32 bit
  counters, wrap-around included: after any characters \<open>xs\<close> that fit are put, exactly the
  characters that were in the buffer and then \<open>xs\<close> come out, in order, and the buffer is
  empty afterwards. The size must divide 2^32 (the terminals use 128).
\<close>

theorem rb_fifo:
  assumes "rb_ok rb" and "length (rb_items rb) + length xs \<le> unat (rb_size rb)"
  shows "\<exists>rb' rb''. feed rb_putc rb xs = Inr rb' \<and>
           drain rb_getc rb' (length (rb_items rb) + length xs) = Inr (rb_items rb @ xs, rb'') \<and>
           rb_is_empty rb''"
  using assms by (rule rbq.feed_drain)

theorem rb_fifo_witness:
  "\<exists>rb' rb''. feed rb_putc
       \<lparr>rb_buf = [0, 0, 0, 7], rb_head = 0, rb_tail = 4294967295, rb_size = 4\<rparr> [8, 9] = Inr rb' \<and>
     drain rb_getc rb' 3 = Inr ([7, 8, 9], rb'') \<and> rb_is_empty rb''"
proof -
  let ?rb = "\<lparr>rb_buf = [0, 0, 0, 7 :: u8], rb_head = 0, rb_tail = 4294967295, rb_size = 4\<rparr>"
  have items: "rb_items ?rb = [7]" by (simp add: rb_items_def ring_items_def)
  have ok: "rb_ok ?rb" by (simp add: rb_ok_def ring_ok_def)
  have "length (rb_items ?rb) + length [8, 9 :: u8] \<le> unat (rb_size ?rb)"
    by (simp add: items)
  from rb_fifo [OF ok this] show ?thesis
    by (simp add: items numeral_3_eq_3 del: feed.simps drain.simps)
qed

end
