(* ===== verification/Cstring.thy ===== *)
theory Cstring
  imports Prelude
begin

text \<open>
  The string and byte functions of the C library the kernel and its programs share
  (\<open>lib/str*.c\<close>, \<open>lib/mem*.c\<close>, \<open>lib/atoi.c\<close>, \<open>lib/is*.c\<close>, \<open>lib/swap*.c\<close>, \<open>lib/types.c\<close>). An
  object in memory is a list of bytes, a pointer into it an offset; reading or writing past
  its end is a \<open>Fault\<close>. \<open>char\<close> is signed on this target, so differences of characters are
  differences of \<open>sint\<close>.
\<close>

section \<open>Strings\<close>

text \<open>\<open>cstr s buf\<close>: the object \<open>buf\<close> holds the string \<open>s\<close>, which ends at the first zero byte.\<close>

definition cstr :: "u8 list \<Rightarrow> u8 list \<Rightarrow> bool" where
  "cstr s buf \<longleftrightarrow> 0 \<notin> set s \<and> (\<exists>rest. buf = s @ 0 # rest)"

lemma cstr_Cons: "cstr s (c # buf) \<longleftrightarrow> (if c = 0 then s = [] else \<exists>s'. s = c # s' \<and> cstr s' buf)"
  by (cases s) (auto simp: cstr_def)

lemma cstr_Nil [simp]: "\<not> cstr s []"
  by (simp add: cstr_def)

lemma cstr_literal [simp]: "0 \<notin> set s \<Longrightarrow> cstr s (s @ [0])"
  by (simp add: cstr_def)

fun strlen_body :: "u8 list \<Rightarrow> nat kres" where
  "strlen_body [] = Inl Fault"
| "strlen_body (c # s) = (if c \<noteq> 0 then bnd (strlen_body s) (\<lambda>i. Inr (Suc i)) else Inr 0)"

definition strlen :: "u8 list option \<Rightarrow> nat kres" where
  "strlen s = (case s of None \<Rightarrow> Inr 0 | Some buf \<Rightarrow> strlen_body buf)"

fun strcmp :: "u8 list \<Rightarrow> u8 list \<Rightarrow> int kres" where
  "strcmp (x # s) (y # t) =
     (if x = y then (if x = 0 then Inr 0 else strcmp s t) else Inr (sint x - sint y))"
| "strcmp s t = Inl Fault"

fun strncmp :: "u8 list \<Rightarrow> u8 list \<Rightarrow> nat \<Rightarrow> int kres" where
  "strncmp s1 s2 0 = Inr 0"
| "strncmp (x # s1) (y # s2) (Suc n) =
     (if x \<noteq> 0 \<and> x = y then strncmp s1 s2 n else Inr (sint x - sint y))"
| "strncmp s1 s2 (Suc n) = Inl Fault"

text \<open>\<open>strchr\<close> returns a pointer into the string: the offset of the character, if any.\<close>

fun strchr :: "u8 list \<Rightarrow> u8 \<Rightarrow> nat option kres" where
  "strchr [] c = Inl Fault"
| "strchr (x # s) c =
     (if x \<noteq> 0 \<and> x \<noteq> c then bnd (strchr s c) (\<lambda>r. Inr (map_option Suc r))
      else if c = 0 \<or> x \<noteq> 0 then Inr (Some 0) else Inr None)"

text \<open>\<open>strcpy\<close>, \<open>strncpy\<close>: the bytes written over the start of \<open>dest\<close>.\<close>

fun strcpy :: "u8 list \<Rightarrow> u8 list \<Rightarrow> u8 list kres" where
  "strcpy (d # dest) (c # src) =
     (if c \<noteq> 0 then bnd (strcpy dest src) (\<lambda>r. Inr (c # r)) else Inr (0 # dest))"
| "strcpy dest src = Inl Fault"

fun strncpy_pad :: "u8 list \<Rightarrow> nat \<Rightarrow> u8 list kres" where
  "strncpy_pad dest 0 = Inr dest"
| "strncpy_pad [] (Suc n) = Inl Fault"
| "strncpy_pad (d # dest) (Suc n) = bnd (strncpy_pad dest n) (\<lambda>r. Inr (0 # r))"

fun strncpy :: "u8 list \<Rightarrow> u8 list \<Rightarrow> nat \<Rightarrow> u8 list kres" where
  "strncpy dest src 0 = Inr dest"
| "strncpy (d # dest) (c # src) (Suc n) =
     (if c \<noteq> 0 then bnd (strncpy dest src n) (\<lambda>r. Inr (c # r))
      else strncpy_pad (d # dest) (Suc n))"
| "strncpy dest src (Suc n) = Inl Fault"

definition strcat :: "u8 list \<Rightarrow> u8 list \<Rightarrow> u8 list kres" where
  "strcat dest src =
     bnd (strlen (Some dest)) (\<lambda>dlen.
     bnd (strcpy (drop dlen dest) src) (\<lambda>r. Inr (take dlen dest @ r)))"

fun strncat_copy :: "u8 list \<Rightarrow> u8 list \<Rightarrow> nat \<Rightarrow> u8 list kres" where
  "strncat_copy [] src n = Inl Fault"
| "strncat_copy (d # dest) src 0 = Inr (0 # dest)"
| "strncat_copy (d # dest) [] (Suc n) = Inl Fault"
| "strncat_copy (d # dest) (c # src) (Suc n) =
     (if c \<noteq> 0 then bnd (strncat_copy dest src n) (\<lambda>r. Inr (c # r)) else Inr (0 # dest))"

definition strncat :: "u8 list \<Rightarrow> u8 list \<Rightarrow> nat \<Rightarrow> u8 list kres" where
  "strncat dest src n =
     bnd (strlen (Some dest)) (\<lambda>dlen.
     bnd (strncat_copy (drop dlen dest) src n) (\<lambda>r. Inr (take dlen dest @ r)))"

text \<open>
  \<open>strdup\<close>: \<open>mem\<close> is what \<open>malloc(len + 1)\<close> returned; the code does not test it for NULL.
\<close>

definition strdup :: "(nat \<Rightarrow> u8 list option) \<Rightarrow> u8 list \<Rightarrow> u8 list kres" where
  "strdup mem src =
     bnd (strlen (Some src)) (\<lambda>len.
     case mem (len + 1) of
       None \<Rightarrow> Inl Fault
     | Some ret \<Rightarrow> bnd (strcpy ret src) (\<lambda>ret. aset ret len 0))"

text \<open>
  \<open>strstr\<close>: the loop looks for the first character of the pattern and compares there. The
  result is an offset from the start of \<open>str\<close>; \<open>off\<close> is how far \<open>p\<close> has moved.
\<close>

function strstr_loop :: "u8 list \<Rightarrow> u8 list \<Rightarrow> nat \<Rightarrow> nat \<Rightarrow> nat option kres" where
  "strstr_loop p substr len off =
     bnd (aget substr 0) (\<lambda>c.
     bnd (strchr p c) (\<lambda>r.
     case r of
       None \<Rightarrow> Inr None
     | Some k \<Rightarrow>
         bnd (strncmp (drop k p) substr len) (\<lambda>d.
         if d = 0 then Inr (Some (off + k))
         else if k < length p then strstr_loop (drop (Suc k) p) substr len (off + Suc k)
         else Inl Fault)))"
  by pat_completeness auto
termination
  by (relation "measure (\<lambda>(p, substr, len, off). length p)") auto

declare strstr_loop.simps [simp del]

definition strstr :: "u8 list \<Rightarrow> u8 list \<Rightarrow> nat option kres" where
  "strstr str substr = bnd (strlen (Some substr)) (\<lambda>len. strstr_loop str substr len 0)"

text \<open>
  \<open>atoi\<close>: \<open>n\<close> is the value of the digits read so far. A sum beyond the range of \<open>int\<close> is
  undefined in C and a \<open>Fault\<close> here.
\<close>

fun atoi_loop :: "u8 list \<Rightarrow> int \<Rightarrow> int kres" where
  "atoi_loop [] n = Inl Fault"
| "atoi_loop (c # s) n =
     (if 48 \<le> sint c \<and> sint c \<le> 57
      then if n * 10 + sint c \<le> 2147483647 then atoi_loop s (n * 10 + sint c - 48) else Inl Fault
      else Inr n)"

definition atoi :: "u8 list \<Rightarrow> int kres" where
  "atoi s = atoi_loop s 0"

section \<open>Memory blocks\<close>

fun memcmp :: "u8 list \<Rightarrow> u8 list \<Rightarrow> nat \<Rightarrow> int kres" where
  "memcmp s1 s2 0 = Inr 0"
| "memcmp (x # s1) (y # s2) (Suc n) =
     (if x \<noteq> y then Inr (sint x - sint y) else memcmp s1 s2 n)"
| "memcmp s1 s2 (Suc n) = Inl Fault"

text \<open>
  \<open>memcpy\<close>, \<open>memmove\<close> and \<open>memset\<close> on one object \<open>mem\<close>, the pointers being offsets into it: this
  is where source and destination may overlap.
\<close>

fun memcpy_up :: "'a list \<Rightarrow> nat \<Rightarrow> nat \<Rightarrow> nat \<Rightarrow> 'a list kres" where
  "memcpy_up mem d s 0 = Inr mem"
| "memcpy_up mem d s (Suc n) =
     bnd (aget mem s) (\<lambda>c. bnd (aset mem d c) (\<lambda>mem. memcpy_up mem (Suc d) (Suc s) n))"

fun memmove_down :: "'a list \<Rightarrow> nat \<Rightarrow> nat \<Rightarrow> nat \<Rightarrow> 'a list kres" where
  "memmove_down mem d s 0 = Inr mem"
| "memmove_down mem d s (Suc n) =
     bnd (aget mem (s + n)) (\<lambda>c. bnd (aset mem (d + n) c) (\<lambda>mem. memmove_down mem d s n))"

definition memcpy :: "'a list \<Rightarrow> nat \<Rightarrow> nat \<Rightarrow> nat \<Rightarrow> 'a list kres" where
  "memcpy mem dest src n = memcpy_up mem dest src n"

text \<open>\<open>memmove\<close> takes the count as an \<open>int\<close>; a count that is not positive copies nothing.\<close>

definition memmove :: "'a list \<Rightarrow> nat \<Rightarrow> nat \<Rightarrow> int \<Rightarrow> 'a list kres" where
  "memmove mem dst src n =
     (if dst < src then memcpy_up mem dst src (nat n) else memmove_down mem dst src (nat n))"

fun memset :: "u8 list \<Rightarrow> nat \<Rightarrow> u8 \<Rightarrow> nat \<Rightarrow> u8 list kres" where
  "memset mem p c 0 = Inr mem"
| "memset mem p c (Suc n) = bnd (aset mem p c) (\<lambda>mem. memset mem (Suc p) c n)"

section \<open>Character classes, byte order and device numbers\<close>

definition isdigit :: "int \<Rightarrow> bool" where
  "isdigit c \<longleftrightarrow> c - 48 < 10"

definition isprint :: "int \<Rightarrow> bool" where
  "isprint c \<longleftrightarrow> c \<ge> 32 \<and> c \<le> 126"

definition isspace :: "u8 \<Rightarrow> bool" where
  "isspace c \<longleftrightarrow> (case strchr [32, 12, 10, 13, 9, 11, 0] c of Inr (Some _) \<Rightarrow> True | _ \<Rightarrow> False)"

definition swap16 :: "u16 \<Rightarrow> u16" where
  "swap16 num = push_bit 8 (num AND 0xFF) OR (drop_bit 8 num AND 0xFF)"

text \<open>\<open>_swap32\<close> copies the number to four bytes (little endian) and shifts them back.\<close>

definition byte_of :: "u32 \<Rightarrow> nat \<Rightarrow> u8" where
  "byte_of num k = ucast (drop_bit (8 * k) num)"

definition swap32 :: "u32 \<Rightarrow> u32" where
  "swap32 num =
     (let data = map (byte_of num) [0..<4]
      in ucast (data ! 3) OR push_bit 8 (ucast (data ! 2)) OR
         push_bit 16 (ucast (data ! 1)) OR push_bit 24 (ucast (data ! 0)))"

definition htons :: "u16 \<Rightarrow> u16" where
  "htons hostshort = swap16 hostshort"

definition ntohs :: "u16 \<Rightarrow> u16" where
  "ntohs netlong = swap16 netlong"

definition htonl :: "u32 \<Rightarrow> u32" where
  "htonl hostlong = swap32 hostlong"

definition ntohl :: "u32 \<Rightarrow> u32" where
  "ntohl netlong = swap32 netlong"

definition major :: "u16 \<Rightarrow> u32" where
  "major dev = ucast (drop_bit 8 (dev AND 0xFF00))"

definition minor :: "u16 \<Rightarrow> u32" where
  "minor dev = ucast (dev AND 0xFF)"

definition makedev :: "u32 \<Rightarrow> u32 \<Rightarrow> u16" where
  "makedev maj mnr = ucast (push_bit 8 (maj AND 0xFF) OR (mnr AND 0xFF))"

section \<open>Strings: behaviour\<close>

named_theorems cstr_specs \<open>what the string functions compute on well-formed strings\<close>

lemma strlen_body_cstr: "cstr s buf \<Longrightarrow> strlen_body buf = Inr (length s)"
  by (induction buf arbitrary: s rule: strlen_body.induct) (auto simp: cstr_Cons split: if_splits)

lemma strlen_cstr [cstr_specs]: "cstr s buf \<Longrightarrow> strlen (Some buf) = Inr (length s)"
  by (simp add: strlen_def strlen_body_cstr)

lemma sint_inj: "sint x = sint y \<longleftrightarrow> x = y"
  by (auto intro: signed_word_eqI)

lemma sint_zero: "sint x = 0 \<longleftrightarrow> x = 0"
  using sint_inj [of x 0] by simp

lemma strcmp_cstr [cstr_specs]:
  "cstr s a \<Longrightarrow> cstr t b \<Longrightarrow> \<exists>d. strcmp a b = Inr d \<and> (d = 0 \<longleftrightarrow> s = t)"
  by (induction a b arbitrary: s t rule: strcmp.induct)
    (auto simp: cstr_Cons sint_inj sint_zero split: if_splits)

lemma strncmp_cstr [cstr_specs]:
  "cstr s a \<Longrightarrow> cstr t b \<Longrightarrow> n \<le> length t \<Longrightarrow>
   \<exists>d. strncmp a b n = Inr d \<and> (d = 0 \<longleftrightarrow> take n s = take n t)"
  by (induction a b n arbitrary: s t rule: strncmp.induct)
    (auto simp: cstr_Cons sint_inj sint_zero split: if_splits)

lemma strchr_cstr [cstr_specs]:
  "cstr s p \<Longrightarrow> c \<noteq> 0 \<Longrightarrow>
   strchr p c = Inr (if c \<in> set s then Some (length (takeWhile (\<lambda>x. x \<noteq> c) s)) else None)"
  by (induction p c arbitrary: s rule: strchr.induct) (auto simp: cstr_Cons split: if_splits)

lemma strchr_cstr_zero: "cstr s p \<Longrightarrow> strchr p 0 = Inr (Some (length s))"
  by (induction p "0 :: u8" arbitrary: s rule: strchr.induct) (auto simp: cstr_Cons split: if_splits)

lemma strcpy_cstr [cstr_specs]:
  "cstr s src \<Longrightarrow> length s < length dest \<Longrightarrow>
   strcpy dest src = Inr (s @ 0 # drop (Suc (length s)) dest)"
  by (induction dest src arbitrary: s rule: strcpy.induct) (auto simp: cstr_Cons split: if_splits)

lemma strncpy_pad_eq: "n \<le> length dest \<Longrightarrow> strncpy_pad dest n = Inr (replicate n 0 @ drop n dest)"
  by (induction dest n rule: strncpy_pad.induct) auto

lemma strncpy_cstr [cstr_specs]:
  "cstr s src \<Longrightarrow> n \<le> length dest \<Longrightarrow>
   strncpy dest src n = Inr (take n s @ replicate (n - length s) 0 @ drop n dest)"
  by (induction dest src n arbitrary: s rule: strncpy.induct)
    (auto simp: cstr_Cons strncpy_pad_eq split: if_splits)

lemma strcat_cstr [cstr_specs]:
  assumes "cstr s dest" and "cstr t src" and "length s + length t < length dest"
  shows "strcat dest src = Inr (s @ t @ 0 # drop (Suc (length s + length t)) dest)"
proof -
  from assms(1) have "take (length s) dest = s" by (auto simp: cstr_def)
  with assms show ?thesis
    by (simp add: strcat_def strlen_cstr strcpy_cstr [OF assms(2)] add.commute)
qed

lemma strncat_copy_cstr:
  "cstr t src \<Longrightarrow> min n (length t) < length dest \<Longrightarrow>
   strncat_copy dest src n = Inr (take n t @ 0 # drop (Suc (min n (length t))) dest)"
  by (induction dest src n arbitrary: t rule: strncat_copy.induct)
    (auto simp: cstr_Cons split: if_splits)

lemma strncat_cstr [cstr_specs]:
  assumes "cstr s dest" and "cstr t src" and "length s + min n (length t) < length dest"
  shows "strncat dest src n = Inr (s @ take n t @ 0 # drop (Suc (length s + min n (length t))) dest)"
proof -
  from assms(1) have "take (length s) dest = s" by (auto simp: cstr_def)
  with assms show ?thesis
    by (simp add: strncat_def strlen_cstr strncat_copy_cstr [OF assms(2)] add.commute)
qed

lemma strdup_cstr:
  assumes "cstr s src" and "mem (length s + 1) = Some ret" and "length ret = length s + 1"
  shows "strdup mem src = Inr (s @ [0])"
  using assms by (simp add: strdup_def strlen_cstr strcpy_cstr list_update_append)

subsection \<open>strstr\<close>

definition occurs_at :: "'a list \<Rightarrow> 'a list \<Rightarrow> nat \<Rightarrow> bool" where
  "occurs_at t s k \<longleftrightarrow> take (length t) (drop k s) = t"

lemma occurs_at_char:
  assumes "occurs_at t s k" and "t \<noteq> []"
  shows "k < length s \<and> s ! k = hd t"
proof -
  from assms obtain u where u: "drop k s = hd t # u"
    by (cases "drop k s"; cases t) (auto simp: occurs_at_def)
  then show ?thesis
    by (metis drop_all list.distinct(1) not_less nth_via_drop)
qed

lemma occurs_at_takeWhile:
  assumes "occurs_at t s j" and "t \<noteq> []"
  shows "length (takeWhile (\<lambda>x. x \<noteq> hd t) s) \<le> j"
proof (rule ccontr)
  assume "\<not> ?thesis"
  then have j: "j < length (takeWhile (\<lambda>x. x \<noteq> hd t) s)" by simp
  from set_takeWhileD [OF nth_mem [OF j]] have "takeWhile (\<lambda>x. x \<noteq> hd t) s ! j \<noteq> hd t" by blast
  with takeWhile_nth [OF j] occurs_at_char [OF assms] show False by simp
qed

lemma takeWhile_found: "c \<in> set s \<Longrightarrow> length (takeWhile (\<lambda>x. x \<noteq> c) s) < length s"
  by (induction s) auto

lemma cstr_drop: "cstr s p \<Longrightarrow> k \<le> length s \<Longrightarrow> cstr (drop k s) (drop k p)"
  by (auto simp: cstr_def dest: in_set_dropD)

text \<open>What the loop returns is the least position where the pattern occurs.\<close>

definition first_occ :: "'a list \<Rightarrow> 'a list \<Rightarrow> nat option \<Rightarrow> bool" where
  "first_occ t s r = (case r of
      None \<Rightarrow> \<forall>j. \<not> occurs_at t s j
    | Some k \<Rightarrow> occurs_at t s k \<and> (\<forall>j<k. \<not> occurs_at t s j))"

lemma first_occ_shift:
  assumes r: "first_occ t (drop m s) r" and before: "\<forall>j<m. \<not> occurs_at t s j"
  shows "first_occ t s (map_option ((+) m) r)"
proof -
  have shift: "occurs_at t (drop m s) (j - m) = occurs_at t s j" if "m \<le> j" for j
    using that by (simp add: occurs_at_def add.commute)
  have later: "\<not> occurs_at t s j" if "m \<le> j \<Longrightarrow> \<not> occurs_at t (drop m s) (j - m)" for j
    using that before shift by (cases "m \<le> j") auto
  show ?thesis
  proof (cases r)
    case None
    with r later show ?thesis by (simp add: first_occ_def)
  next
    case (Some k)
    with r have "occurs_at t (drop m s) k" "\<forall>j<k. \<not> occurs_at t (drop m s) j"
      by (simp_all add: first_occ_def)
    then have "occurs_at t s (m + k)" "\<forall>j<m + k. \<not> occurs_at t s j"
      using shift [of "m + k"] later by auto
    with Some show ?thesis by (simp add: first_occ_def)
  qed
qed

lemma strstr_loop_ok:
  assumes t: "cstr t sub" "t \<noteq> []"
  shows "cstr s p \<Longrightarrow>
    \<exists>r. strstr_loop p sub (length t) off = Inr (map_option ((+) off) r) \<and> first_occ t s r"
proof (induction "length p" arbitrary: p s off rule: less_induct)
  case less
  let ?c = "hd t" and ?k = "length (takeWhile (\<lambda>x. x \<noteq> hd t) s)"
  have sub0: "aget sub 0 = Inr ?c" and c0: "?c \<noteq> 0"
    using t by (cases t; auto simp: cstr_def aget_def)+
  show ?case
  proof (cases "?c \<in> set s")
    case False
    then have "\<not> occurs_at t s j" for j
      using occurs_at_char [of t s j] t(2) by (metis nth_mem)
    with False show ?thesis
      using strchr_cstr [OF less.prems c0] sub0
      by (intro exI [of _ None]) (simp add: first_occ_def strstr_loop.simps [of p])
  next
    case True
    then have k: "?k < length s" by (rule takeWhile_found)
    have found: "strchr p ?c = Inr (Some ?k)"
      using strchr_cstr [OF less.prems c0] True by simp
    have none_before: "\<forall>j<?k. \<not> occurs_at t s j"
      using occurs_at_takeWhile t(2) by (metis not_less)
    from strncmp_cstr [OF cstr_drop [OF less.prems less_imp_le [OF k]] t(1), of "length t"]
    obtain d where d: "strncmp (drop ?k p) sub (length t) = Inr d" "d = 0 \<longleftrightarrow> occurs_at t s ?k"
      by (auto simp: occurs_at_def)
    show ?thesis
    proof (cases "d = 0")
      case True
      with found sub0 d none_before show ?thesis
        by (intro exI [of _ "Some ?k"]) (simp add: first_occ_def strstr_loop.simps [of p])
    next
      case False
      have p: "?k < length p" using less.prems k by (auto simp: cstr_def)
      then have shorter: "length (drop (Suc ?k) p) < length p" by simp
      from less.hyps [OF shorter cstr_drop [OF less.prems Suc_leI [OF k]], of "off + Suc ?k"]
      obtain r where r: "strstr_loop (drop (Suc ?k) p) sub (length t) (off + Suc ?k) =
          Inr (map_option ((+) (off + Suc ?k)) r)" "first_occ t (drop (Suc ?k) s) r"
        by auto
      have "\<forall>j<Suc ?k. \<not> occurs_at t s j"
        using none_before d False by (metis less_Suc_eq)
      with r(2) have "first_occ t s (map_option ((+) (Suc ?k)) r)" by (rule first_occ_shift)
      then show ?thesis
        using found sub0 d False r(1) p
        by (intro exI [of _ "map_option ((+) (Suc ?k)) r"]) (cases r; simp add: add.assoc strstr_loop.simps [of p])
    qed
  qed
qed

section \<open>Memory blocks: behaviour\<close>

definition moved :: "'a list \<Rightarrow> nat \<Rightarrow> nat \<Rightarrow> nat \<Rightarrow> 'a list" where
  "moved mem d s n = take d mem @ take n (drop s mem) @ drop (d + n) mem"

lemma moved_length [simp]:
  "d + n \<le> length mem \<Longrightarrow> s + n \<le> length mem \<Longrightarrow> length (moved mem d s n) = length mem"
  by (simp add: moved_def)

lemma moved_nth:
  "d + n \<le> length mem \<Longrightarrow> s + n \<le> length mem \<Longrightarrow> i < length mem \<Longrightarrow>
   moved mem d s n ! i = (if d \<le> i \<and> i < d + n then mem ! (s + (i - d)) else mem ! i)"
  by (auto simp: moved_def nth_append min_absorb2)

lemma memcpy_up_ok:
  assumes "d + n \<le> length mem" "s + n \<le> length mem" "d \<le> s \<or> s + n \<le> d"
  shows "memcpy_up mem d s n = Inr (moved mem d s n)"
  using assms
proof (induction n arbitrary: mem d s)
  case 0
  then show ?case by (simp add: moved_def)
next
  case (Suc n)
  let ?m = "mem[d := mem ! s]"
  have "memcpy_up ?m (Suc d) (Suc s) n = Inr (moved ?m (Suc d) (Suc s) n)"
    using Suc.prems by (intro Suc.IH) auto
  moreover have "moved ?m (Suc d) (Suc s) n = moved mem d s (Suc n)"
    using Suc.prems by (intro nth_equalityI) (auto simp: moved_nth nth_list_update Suc_diff_Suc)
  ultimately show ?case using Suc.prems by simp
qed

lemma memmove_down_ok:
  assumes "d + n \<le> length mem" "s + n \<le> length mem" "s \<le> d"
  shows "memmove_down mem d s n = Inr (moved mem d s n)"
  using assms
proof (induction n arbitrary: mem)
  case 0
  then show ?case by (simp add: moved_def)
next
  case (Suc n)
  let ?m = "mem[d + n := mem ! (s + n)]"
  have "memmove_down ?m d s n = Inr (moved ?m d s n)"
    using Suc.prems by (intro Suc.IH) auto
  moreover have "moved ?m d s n = moved mem d s (Suc n)"
    using Suc.prems by (intro nth_equalityI) (auto simp: moved_nth nth_list_update less_Suc_eq)
  ultimately show ?case using Suc.prems by simp
qed

lemma memset_ok:
  "p + n \<le> length mem \<Longrightarrow> memset mem p c n = Inr (take p mem @ replicate n c @ drop (p + n) mem)"
proof (induction n arbitrary: mem p)
  case 0
  then show ?case by simp
next
  case (Suc n)
  then show ?case
    using Suc.IH [of "Suc p" "mem[p := c]"]
    by (simp add: take_Suc_conv_app_nth)
qed

section \<open>Byte order\<close>

lemma mask8_16: "(0xFF :: u16) = mask 8"
  by (simp add: mask_eq_exp_minus_1)

lemma swap16_swap16: "swap16 (swap16 num) = num"
  unfolding swap16_def mask8_16 by (rule bit_word_eqI) (auto simp: bit_simps)

lemma bit_byte_of: "bit (byte_of num k) n \<longleftrightarrow> n < 8 \<and> bit num (8 * k + n)"
  by (auto simp: byte_of_def bit_simps add.commute)

lemma upt4: "[0..<4] = [0, 1, 2, 3]"
  by (simp add: upt_rec)

lemma swap32_bytes:
  "swap32 num = ucast (byte_of num 3) OR push_bit 8 (ucast (byte_of num 2)) OR
     push_bit 16 (ucast (byte_of num 1)) OR push_bit 24 (ucast (byte_of num 0))"
  by (simp add: swap32_def Let_def upt4)

lemma bit_swap32:
  "bit (swap32 num) n \<longleftrightarrow>
     (if n < 8 then bit num (24 + n) else if n < 16 then bit num (16 + (n - 8))
      else if n < 24 then bit num (8 + (n - 16)) else n < 32 \<and> bit num (n - 24))"
  unfolding swap32_bytes by (auto simp: bit_or_iff bit_push_bit_iff bit_unsigned_iff bit_byte_of)

lemma byte_swap32: "k \<in> {0, 1, 2, 3} \<Longrightarrow> byte_of (swap32 num) k = byte_of num (3 - k)"
  by (rule bit_word_eqI) (auto simp: bit_byte_of bit_swap32)

lemma swap32_swap32: "swap32 (swap32 num) = num"
  by (rule bit_word_eqI) (auto simp: bit_swap32)

section \<open>Properties\<close>

text \<open>
  \<open>memmove\<close> (\<open>lib/memmove.c\<close>) moves \<open>n\<close> bytes as if through a temporary copy, whichever
  way source and destination overlap: the destination holds the old source bytes and every
  other byte is unchanged.
\<close>

theorem memmove_overlap:
  assumes "dst + nat n \<le> length mem" and "src + nat n \<le> length mem"
  shows "memmove mem dst src n = Inr (take dst mem @ take (nat n) (drop src mem) @ drop (dst + nat n) mem)"
  using assms memcpy_up_ok [of dst "nat n" mem src] memmove_down_ok [of dst "nat n" mem src]
  by (auto simp: memmove_def moved_def)

lemma memmove_overlap_witness:
  "memmove [1, 2, 3, 4, 5 :: u8] 1 0 3 = Inr [1, 1, 2, 3, 5]"
  using memmove_overlap [of 1 3 "[1, 2, 3, 4, 5 :: u8]" 0] by simp

text \<open>
  \<open>strstr\<close> (\<open>lib/strstr.c\<close>) returns the first place where a non-empty pattern occurs in
  the string, and no place only if the pattern does not occur at all; it reads neither object
  past its terminator.
\<close>

theorem strstr_first_occurrence:
  assumes "cstr s str" and "cstr t sub" and "t \<noteq> []"
  shows "\<exists>r. strstr str sub = Inr r \<and> (case r of
      None \<Rightarrow> \<forall>j. \<not> occurs_at t s j
    | Some k \<Rightarrow> occurs_at t s k \<and> (\<forall>j<k. \<not> occurs_at t s j))"
proof -
  from strstr_loop_ok [OF assms(2,3,1), of 0]
  obtain r where "strstr_loop str sub (length t) 0 = Inr r" "first_occ t s r"
    by (auto simp: option.map_ident_strong)
  then show ?thesis
    by (auto simp: strstr_def strlen_cstr [OF assms(2)] first_occ_def)
qed

lemma strstr_first_occurrence_witness:
  "\<exists>r. strstr [97, 97, 98, 97, 98, 0] [97, 98, 0] = Inr r \<and> (case r of
      None \<Rightarrow> \<forall>j. \<not> occurs_at [97, 98] [97, 97, 98, 97, 98 :: u8] j
    | Some k \<Rightarrow> occurs_at [97, 98] [97, 97, 98, 97, 98 :: u8] k \<and>
        (\<forall>j<k. \<not> occurs_at [97, 98] [97, 97, 98, 97, 98 :: u8] j))"
  by (rule strstr_first_occurrence) (simp_all add: cstr_def)

text \<open>
  \<open>strcmp\<close> (\<open>lib/strcmp.c\<close>) returns zero exactly on equal strings.
\<close>

theorem strcmp_zero_iff:
  assumes "cstr s a" and "cstr t b"
  shows "strcmp a b = Inr 0 \<longleftrightarrow> s = t"
  using strcmp_cstr [OF assms] by auto

lemma strcmp_zero_iff_witness: "strcmp [97, 98, 0, 1] [97, 98, 0, 2] = Inr 0 \<longleftrightarrow> [97, 98 :: u8] = [97, 98]"
  by (rule strcmp_zero_iff) (simp_all add: cstr_def)

text \<open>
  Host and network byte order (\<open>lib/swap16.c\<close>, \<open>lib/swap32.c\<close>): converting a 16 or 32 bit
  number to network order and back gives the number, and network order of a 32 bit number is
  its bytes reversed.
\<close>

theorem byte_order_round_trip:
  "ntohs (htons h) = h \<and> ntohl (htonl l) = l \<and>
   map (byte_of (htonl l)) [0..<4] = rev (map (byte_of l) [0..<4])"
proof -
  have "map (byte_of (swap32 l)) [0..<4] = rev (map (byte_of l) [0..<4])" for l
    by (simp add: upt4 byte_swap32)
  then show ?thesis
    by (simp add: ntohs_def htons_def ntohl_def htonl_def swap16_swap16 swap32_swap32)
qed

end
