(* ===== verification/Path.thy ===== *)
theory Path
  imports Cstring
begin

text \<open>
  Path names of the kernel (\<open>canonize.c\<close>, \<open>bname.c\<close>): \<open>clean_path\<close> rewrites a path in place, with
  a read index \<open>i\<close> and a write index \<open>j\<close> into the same buffer, \<open>canonize_path\<close> puts the working
  directory in front of a relative path, \<open>bname\<close> splits a path at its last slash.
\<close>

abbreviation slash :: u8 where
  "slash \<equiv> 47"

abbreviation dot :: u8 where
  "dot \<equiv> 46"

section \<open>clean_path\<close>

text \<open>The inner loops: \<open>while (i < len && path[i] == '/') i++\<close> and the walk back over a component.\<close>

function skip_slashes :: "u8 list \<Rightarrow> nat \<Rightarrow> nat \<Rightarrow> nat kres" where
  "skip_slashes path len i =
     (if i < len then bnd (aget path i) (\<lambda>c. if c = slash then skip_slashes path len (Suc i) else Inr i)
      else Inr i)"
  by pat_completeness auto
termination
  by (relation "measure (\<lambda>(path, len, i). len - i)") auto

declare skip_slashes.simps [simp del]

fun walk_back :: "u8 list \<Rightarrow> nat \<Rightarrow> nat kres" where
  "walk_back path 0 = Inr 0"
| "walk_back path (Suc j) =
     (if Suc j > 1 then bnd (aget path j) (\<lambda>c. if c \<noteq> slash then walk_back path j else Inr (Suc j))
      else Inr (Suc j))"

text \<open>
  The tests for \<open>.\<close> and \<open>..\<close> after the slashes. \<open>Some (i, j)\<close>: the iteration ends here with
  \<open>continue\<close>. \<open>None\<close>: it goes on to copy.
\<close>

definition clean_up :: "u8 list \<Rightarrow> nat \<Rightarrow> nat \<Rightarrow> nat \<Rightarrow> (nat \<times> nat) kres" where
  "clean_up path len i j =
     bnd (if j > 1 then bnd (aget path j) (\<lambda>c. Inr (if c = slash then j - 1 else j)) else Inr j) (\<lambda>j.
     bnd (walk_back path j) (\<lambda>j.
     bnd (if i + 1 = len \<and> j > 1
          then bnd (aget path (j - 1)) (\<lambda>c. Inr (if c = slash then j - 1 else j)) else Inr j) (\<lambda>j.
     Inr (i, j))))"

definition clean_dots :: "u8 list \<Rightarrow> nat \<Rightarrow> nat \<Rightarrow> nat \<Rightarrow> (nat \<times> nat) option kres" where
  "clean_dots path len i j =
     (if i < len then bnd (aget path i) (\<lambda>c0.
        if c0 = dot then bnd (aget path (i + 1)) (\<lambda>c1.
          if i + 1 = len \<or> c1 = slash then Inr (Some (i, j))
          else if c1 = dot then bnd (aget path (i + 2)) (\<lambda>c2.
            if i + 2 = len \<or> c2 = slash
            then bnd (clean_up path len (i + 2) j) (\<lambda>r. Inr (Some r))
            else Inr None)
          else Inr None)
        else Inr None)
      else Inr None)"

text \<open>\<open>path[j++] = path[i]\<close> behind its assertion.\<close>

definition copy_char :: "u8 list \<Rightarrow> nat \<Rightarrow> nat \<Rightarrow> (u8 list \<times> nat \<times> nat \<times> bool) kres" where
  "copy_char path i j =
     kassert (j \<le> i) ''clean_path''
       (bnd (aget path i) (\<lambda>c. bnd (aset path j c) (\<lambda>path. Inr (path, i, j + 1, False))))"

text \<open>The body of the \<open>for\<close> loop; the last component of the result is true for \<open>break\<close>.\<close>

definition clean_body :: "u8 list \<Rightarrow> nat \<Rightarrow> nat \<Rightarrow> nat \<Rightarrow> (u8 list \<times> nat \<times> nat \<times> bool) kres" where
  "clean_body path len i j =
     bnd (aget path i) (\<lambda>c.
     if c = slash then
       bnd (skip_slashes path len i) (\<lambda>i.
       bnd (clean_dots path len i j) (\<lambda>r. case r of
         Some (i, j) \<Rightarrow> Inr (path, i, j, False)
       | None \<Rightarrow> kassert (j \<le> i) ''clean_path''
          (bnd (if i < len \<or> j = 0 then bnd (aset path j slash) (\<lambda>path. Inr (path, j + 1))
                else Inr (path, j)) (\<lambda>(path, j).
           if j = len then Inr (path, i, j, True) else copy_char path i j))))
     else copy_char path i j)"

lemma skip_slashes_ge: "skip_slashes path len i = Inr k \<Longrightarrow> i \<le> k"
  by (induction path len i rule: skip_slashes.induct)
    (subst (asm) (2) skip_slashes.simps, auto simp: kres_simps split: if_splits)

lemma clean_dots_ge: "clean_dots path len i j = Inr (Some (k, j')) \<Longrightarrow> i \<le> k"
  by (auto simp: clean_dots_def clean_up_def kres_simps split: if_splits)

lemma clean_body_ge: "clean_body path len i j = Inr (path', k, j', brk) \<Longrightarrow> i \<le> k"
  by (auto simp: clean_body_def copy_char_def kres_simps split: if_splits option.splits
      dest!: skip_slashes_ge clean_dots_ge)

function clean_loop :: "u8 list \<Rightarrow> nat \<Rightarrow> nat \<Rightarrow> nat \<Rightarrow> (u8 list \<times> nat) kres" where
  "clean_loop path len i j =
     (if i < len \<and> j < len then
        bnd (clean_body path len i j) (\<lambda>(path, i, j, brk).
          if brk then Inr (path, j) else clean_loop path len (Suc i) j)
      else Inr (path, j))"
  by pat_completeness auto
termination
  by (relation "measure (\<lambda>(path, len, i, j). len - i)") (auto dest!: clean_body_ge)

declare clean_loop.simps [simp del]

definition clean_path :: "u8 list \<Rightarrow> u8 list kres" where
  "clean_path path =
     bnd (strlen (Some path)) (\<lambda>len.
     bnd (clean_loop path len 0 0) (\<lambda>(path, j).
     let j = (if j = 0 then j + 1 else j) in
     bnd (aset path j 0) (\<lambda>path.
     bnd (if j > 1 then bnd (aget path (j - 1)) (\<lambda>c. Inr (if c = slash then j - 1 else j))
          else Inr j) (\<lambda>j.
     bnd (aset path j 0) (\<lambda>path.
     kassert (j \<le> len) ''clean_path'' (kassert (j > 0) ''clean_path'' (Inr path)))))))"

text \<open>
  \<open>canonize_path\<close>: \<open>mem n\<close> is what \<open>malloc(n)\<close> returns. \<open>None\<close> is the NULL it returns after the
  panic message, \<open>panic\<close> itself does not come back.
\<close>

definition canonize_path :: "(nat \<Rightarrow> u8 list option) \<Rightarrow> u8 list \<Rightarrow> u8 list \<Rightarrow> u8 list kres" where
  "canonize_path mem prefix path =
     bnd (aget path 0) (\<lambda>c.
     bnd (if c = slash then strdup mem path
          else bnd (aget prefix 0) (\<lambda>d.
            if d \<noteq> slash then Inl (Panic ''canonize_path: prefix should start with /'')
            else bnd (strlen (Some prefix)) (\<lambda>m. bnd (strlen (Some path)) (\<lambda>n.
              case mem (m + n + 2) of
                None \<Rightarrow> Inl Fault
              | Some p \<Rightarrow> bnd (strcpy p prefix) (\<lambda>p. bnd (strcat p [slash, 0]) (\<lambda>p. strcat p path))))))
     clean_path)"

section \<open>bname\<close>

definition MAX_PATH_LEN :: nat where
  "MAX_PATH_LEN = 512"

fun last_slash :: "u8 list \<Rightarrow> nat \<Rightarrow> nat kres" where
  "last_slash path 0 = Inr 0"
| "last_slash path (Suc p) =
     bnd (aget path (Suc p)) (\<lambda>c. if c = slash then Inr (Suc p) else last_slash path p)"

definition bname :: "u8 list \<Rightarrow> u8 list \<Rightarrow> u8 list \<Rightarrow> (u8 list \<times> u8 list) kres" where
  "bname path dirname basename =
     bnd (strlen (Some path)) (\<lambda>len.
     bnd (last_slash path len) (\<lambda>p.
     bnd (aget path p) (\<lambda>c.
     let pos = (if c = slash then p + 1 else p) in
     kassert (pos \<le> MAX_PATH_LEN) ''pos <= MAX_PATH_LEN''
      (bnd (strncpy dirname path pos) (\<lambda>dirname.
       bnd (aset dirname pos 0) (\<lambda>dirname.
       bnd (if pos > 1 then bnd (aget dirname (pos - 1)) (\<lambda>d.
              if d = slash then aset dirname (pos - 1) 0 else Inr dirname)
            else Inr dirname) (\<lambda>dirname.
       kassert (len - pos \<le> MAX_PATH_LEN) ''len - pos <= MAX_PATH_LEN''
        (bnd (strncpy basename (drop pos path) (len - pos)) (\<lambda>basename.
         bnd (aset basename (len - pos) 0) (\<lambda>basename.
         Inr (dirname, basename)))))))))))"

section \<open>Memory safety of the in-place rewriting\<close>

lemma skip_slashes_total:
  "i \<le> len \<Longrightarrow> len < length path \<Longrightarrow> \<exists>k. skip_slashes path len i = Inr k \<and> i \<le> k \<and> k \<le> len"
proof (induction path len i rule: skip_slashes.induct)
  case (1 path len i)
  show ?case
  proof (cases "i < len \<and> path ! i = slash")
    case True
    with 1 obtain k where "skip_slashes path len (Suc i) = Inr k" "Suc i \<le> k" "k \<le> len"
      by force
    with True 1 show ?thesis by (simp add: skip_slashes.simps [of path len i])
  next
    case False
    with 1 show ?thesis by (auto simp: skip_slashes.simps [of path len i])
  qed
qed

lemma skip_slashes_progress:
  "i < len \<Longrightarrow> len < length path \<Longrightarrow> path ! i = slash \<Longrightarrow>
   \<exists>k. skip_slashes path len i = Inr k \<and> i < k \<and> k \<le> len"
  using skip_slashes_total [of "Suc i" len path] by (force simp: skip_slashes.simps [of path len i])

lemma walk_back_total: "j < length path \<Longrightarrow> \<exists>k. walk_back path j = Inr k \<and> k \<le> j"
  by (induction path j rule: walk_back.induct) (force split: if_splits)+

lemma clean_up_total:
  assumes "j < length path"
  shows "\<exists>k. clean_up path len i j = Inr (i, k) \<and> k \<le> j"
proof -
  define m where "m = (if j > 1 \<and> path ! j = slash then j - 1 else j)"
  then have m: "m \<le> j"
    "(if j > 1 then bnd (aget path j) (\<lambda>c. Inr (if c = slash then j - 1 else j)) else Inr j) = Inr m"
    using assms by auto
  with walk_back_total [of m path] assms
  obtain k where k: "walk_back path m = Inr k" "k \<le> m" by auto
  with m assms show ?thesis by (auto simp: clean_up_def)
qed

lemma clean_dots_total:
  assumes "len < length path" "path ! len = 0" "i \<le> len" "j < length path"
  shows "clean_dots path len i j = Inr None \<or>
         (\<exists>k j'. clean_dots path len i j = Inr (Some (k, j')) \<and> i \<le> k \<and> j' \<le> j)"
proof (cases "i < len \<and> path ! i = dot \<and> i + 1 < len \<and> path ! (i + 1) = dot \<and>
    (i + 2 = len \<or> i + 2 < len \<and> path ! (i + 2) = slash)")
  case True
  with clean_up_total [OF assms(4), of len "i + 2"] assms show ?thesis
    by (auto simp: clean_dots_def)
next
  case False
  with assms show ?thesis
    by (cases "i + 1 = len"; cases "i + 2 = len") (auto simp: clean_dots_def not_less)
qed

lemma copy_char_ok:
  "j \<le> i \<Longrightarrow> i < length path \<Longrightarrow> copy_char path i j = Inr (path[j := path ! i], i, j + 1, False)"
  by (simp add: copy_char_def)

text \<open>What the loop keeps: the buffer keeps its size and terminator and \<open>j\<close> stays behind \<open>i\<close>.\<close>

definition clean_inv :: "u8 list \<Rightarrow> nat \<Rightarrow> nat \<Rightarrow> nat \<Rightarrow> bool" where
  "clean_inv path len i j \<longleftrightarrow> len < length path \<and> path ! len = 0 \<and> j \<le> i \<and> j \<le> len"

lemma clean_body_total:
  assumes inv: "clean_inv path len i j" and "i < len" "j < len"
  shows "\<exists>path' k j' brk. clean_body path len i j = Inr (path', k, j', brk) \<and>
    length path' = length path \<and> clean_inv path' len (Suc k) j'"
proof (cases "path ! i = slash")
  case False
  with assms show ?thesis
    by (intro exI [of _ "path[j := path ! i]"] exI [of _ i] exI [of _ "j + 1"] exI [of _ False])
      (auto simp: clean_body_def copy_char_ok clean_inv_def nth_list_update)
next
  case True
  with skip_slashes_progress [of i len path] assms
  obtain k where k: "skip_slashes path len i = Inr k" "i < k" "k \<le> len"
    by (auto simp: clean_inv_def)
  have jp: "j < length path" using assms by (simp add: clean_inv_def)
  consider (none) "clean_dots path len k j = Inr None"
    | (some) i' j' where "clean_dots path len k j = Inr (Some (i', j'))" "k \<le> i'" "j' \<le> j"
    using clean_dots_total [of len path k j] inv k jp by (auto simp: clean_inv_def)
  then show ?thesis
  proof cases
    case none
    with True k assms show ?thesis
      by (auto simp: clean_body_def copy_char_ok clean_inv_def nth_list_update)
  next
    case some
    with True k assms show ?thesis by (auto simp: clean_body_def clean_inv_def)
  qed
qed

lemma clean_loop_total:
  "clean_inv path len i j \<Longrightarrow>
   \<exists>path' j'. clean_loop path len i j = Inr (path', j') \<and> length path' = length path \<and>
     len < length path' \<and> j' \<le> len"
proof (induction path len i j rule: clean_loop.induct)
  case (1 path len i j)
  show ?case
  proof (cases "i < len \<and> j < len")
    case False
    with "1.prems" show ?thesis by (auto simp: clean_loop.simps [of path] clean_inv_def)
  next
    case True
    with clean_body_total [OF "1.prems"] obtain path' k j' brk where
      b: "clean_body path len i j = Inr (path', k, j', brk)" "length path' = length path"
        "clean_inv path' len (Suc k) j'" by blast
    show ?thesis
    proof (cases brk)
      case True
      with b \<open>i < len \<and> j < len\<close> show ?thesis
        by (auto simp: clean_loop.simps [of path] clean_inv_def)
    next
      case False
      with "1.IH" [OF \<open>i < len \<and> j < len\<close> b(1) refl refl refl False b(3)] b(1,2) True
      show ?thesis by (simp add: clean_loop.simps [of path len i j])
    qed
  qed
qed

lemma cstr_upto_zero:
  assumes "k < length p" "p ! k = 0"
  shows "\<exists>s. cstr s p \<and> length s \<le> k"
  using assms
proof (induction p arbitrary: k)
  case (Cons c p)
  show ?case
  proof (cases "c = 0")
    case True
    then show ?thesis by (intro exI [of _ "[]"]) (simp add: cstr_Cons)
  next
    case False
    with Cons.prems obtain m where m: "k = Suc m" "m < length p" "p ! m = 0" by (cases k) auto
    from Cons.IH [OF m(2,3)] obtain s where "cstr s p" "length s \<le> m" by auto
    with False m(1) show ?thesis by (intro exI [of _ "c # s"]) (simp add: cstr_Cons)
  qed
qed simp

text \<open>
  \<open>clean_path\<close> (\<open>canonize.c\<close>) is memory safe on every non-empty string, whatever dots and
  slashes it holds: it terminates, none of its assertions fails, it never reads or writes
  outside the buffer of the string, and it leaves a terminated string that is no longer than
  the one it was given.
\<close>

theorem clean_path_safe:
  assumes "cstr s path" and "s \<noteq> []"
  shows "\<exists>path' s'. clean_path path = Inr path' \<and> length path' = length path \<and>
    cstr s' path' \<and> length s' \<le> length s"
proof -
  let ?len = "length s"
  have "clean_inv path ?len 0 0" using assms(1) by (auto simp: clean_inv_def cstr_def)
  from clean_loop_total [OF this] obtain p j where
    l: "clean_loop path ?len 0 0 = Inr (p, j)" "length p = length path" "?len < length p" "j \<le> ?len"
    by auto
  define j1 where "j1 = (if j = 0 then j + 1 else j)"
  have j1: "0 < j1" "j1 \<le> ?len" using l(4) assms(2) by (auto simp: j1_def Suc_le_eq)
  define j2 where "j2 = (if j1 > 1 \<and> p[j1 := 0] ! (j1 - 1) = slash then j1 - 1 else j1)"
  have j2: "0 < j2" "j2 \<le> ?len" using j1 by (auto simp: j2_def)
  have "clean_path path = Inr (p[j1 := 0, j2 := 0])"
    using l j1 j2 by (auto simp: clean_path_def strlen_cstr [OF assms(1)] Let_def j1_def j2_def)
  moreover have "\<exists>s'. cstr s' (p[j1 := 0, j2 := 0]) \<and> length s' \<le> j2"
    using j2 l(3) by (intro cstr_upto_zero) auto
  ultimately show ?thesis using j2(2) l(2) by fastforce
qed

lemma clean_path_safe_witness:
  "\<exists>path' s'. clean_path ([slash, 97, slash, dot, dot, slash, dot, dot] @ [0]) = Inr path' \<and>
    length path' = length ([slash, 97, slash, dot, dot, slash, dot, dot] @ [0]) \<and>
    cstr s' path' \<and> length s' \<le> length [slash, 97, slash, dot, dot, slash, dot, dot]"
  by (rule clean_path_safe) (simp_all add: cstr_def)

section \<open>The canonical form\<close>

text \<open>The components of a path, and the path a list of components stands for.\<close>

fun split_slash :: "u8 list \<Rightarrow> u8 list list" where
  "split_slash [] = [[]]"
| "split_slash (c # s) =
     (if c = slash then [] # split_slash s else (c # hd (split_slash s)) # tl (split_slash s))"

definition names :: "u8 list list \<Rightarrow> u8 list list" where
  "names = filter (\<lambda>c. c \<noteq> [] \<and> c \<noteq> [dot])"

definition joined :: "u8 list list \<Rightarrow> u8 list" where
  "joined cs = concat (map ((#) slash) cs)"

definition canonical :: "u8 list \<Rightarrow> u8 list" where
  "canonical s = (let cs = names (split_slash s) in if cs = [] then [slash] else joined cs)"

lemma names_simps [simp]:
  "names [] = []" "names ([] # cs) = names cs" "names ([dot] # cs) = names cs"
  "c \<noteq> [] \<Longrightarrow> c \<noteq> [dot] \<Longrightarrow> names (c # cs) = c # names cs"
  by (auto simp: names_def)

lemma joined_simps [simp]: "joined [] = []" "joined (c # cs) = slash # c @ joined cs"
  by (auto simp: joined_def)

lemma split_slash_not_Nil [simp]: "split_slash s \<noteq> []"
  by (cases s) auto

lemma split_slash_cons: "hd (split_slash s) # tl (split_slash s) = split_slash s"
  by simp

lemma hd_split_slash_Nil: "hd (split_slash s) = [] \<longleftrightarrow> s = [] \<or> hd s = slash"
  by (cases s) auto

lemma split_slash_no_slash: "c \<in> set (split_slash s) \<Longrightarrow> slash \<notin> set c"
proof (induction s arbitrary: c)
  case (Cons x s)
  then show ?case
    using list.set_sel [of "split_slash s"] by (auto split: if_splits dest: list.set_sel)
qed auto

lemma names_skip: "names (split_slash (dropWhile (\<lambda>c. c = slash) s)) = names (split_slash s)"
  by (induction s) auto

lemma set_skip: "set (split_slash (dropWhile (\<lambda>c. c = slash) s)) \<subseteq> set (split_slash s)"
  by (induction s) auto

text \<open>What the loop does on a path without \<open>..\<close>, as a function of what it wrote and has to read.\<close>

function cleaned :: "u8 list \<Rightarrow> u8 list \<Rightarrow> u8 list" where
  "cleaned out [] = out"
| "cleaned out (c # r) =
     (if c \<noteq> slash then cleaned (out @ [c]) r
      else (case dropWhile (\<lambda>c. c = slash) r of
         [] \<Rightarrow> if out = [] then [slash] else out
       | d # r' \<Rightarrow> if d = dot \<and> (r' = [] \<or> hd r' = slash) then cleaned out r'
                  else cleaned (out @ [slash, d]) r'))"
  by pat_completeness auto
termination
proof (relation "measure (\<lambda>(out, r). length r)", goal_cases)
  case (3 out c r d r')
  then have "length (d # r') \<le> length r" by (metis length_dropWhile_le)
  then show ?case by simp
next
  case (4 out c r d r')
  then have "length (d # r') \<le> length r" by (metis length_dropWhile_le)
  then show ?case by simp
qed auto

declare cleaned.simps(2) [simp del]

lemma cleaned_spec:
  "(rest \<noteq> [] \<longrightarrow> hd rest = slash \<longrightarrow> (out \<noteq> [] \<or> names (split_slash rest) \<noteq> []) \<longrightarrow>
      cleaned out rest = out @ joined (names (split_slash rest))) \<and>
   (rest \<noteq> [] \<longrightarrow> hd rest = slash \<longrightarrow> out = [] \<longrightarrow> names (split_slash rest) = [] \<longrightarrow>
      cleaned out rest \<in> {[], [slash]}) \<and>
   (out \<noteq> [] \<longrightarrow>
      cleaned out rest = out @ hd (split_slash rest) @ joined (names (tl (split_slash rest))))"
proof (induction out rest rule: cleaned.induct)
  case (1 out)
  then show ?case by simp
next
  case (2 out c r)
  show ?case
  proof (cases "c = slash")
    case False
    with 2(1) show ?thesis by (simp add: cleaned.simps(2))
  next
    case c: True
    show ?thesis
    proof (cases "dropWhile (\<lambda>c. c = slash) r")
      case Nil
      with names_skip [of r] have "names (split_slash r) = []" by simp
      moreover have "cleaned out (c # r) = (if out = [] then [slash] else out)"
        using c Nil by (simp add: cleaned.simps(2) del: dropWhile_eq_Nil_conv)
      ultimately show ?thesis using c by (cases "out = []"; simp)
    next
      case (Cons d r')
      with names_skip [of r] have n: "names (split_slash r) = names (split_slash (d # r'))" by simp
      have d: "d \<noteq> slash" using Cons hd_dropWhile [of "\<lambda>c. c = slash" r] by auto
      show ?thesis
      proof (cases "d = dot \<and> (r' = [] \<or> hd r' = slash)")
        case True
        then have eq: "cleaned out (c # r) = cleaned out r'" using c Cons by (simp add: cleaned.simps(2))
        from True have "names (split_slash (d # r')) = names (split_slash r')"
          using split_slash_cons [of r'] hd_split_slash_Nil [of r'] by (metis d names_simps(2,3) split_slash.simps(2))
        with 2(2) [OF _ Cons] True c n eq show ?thesis by (cases r') auto
      next
        case False
        then have eq: "cleaned out (c # r) = cleaned (out @ [slash, d]) r'"
          using c Cons by (auto simp: cleaned.simps(2))
        from False have "names (split_slash (d # r')) =
            (d # hd (split_slash r')) # names (tl (split_slash r'))"
          using d hd_split_slash_Nil [of r'] by auto
        with 2(3) [OF _ Cons False] c n eq show ?thesis by simp
      qed
    qed
  qed
qed

text \<open>
  The loop and \<open>cleaned\<close>: \<open>out\<close> is what has been written, \<open>rest\<close> what has not been read; the
  write index never passes the read index, so what is read is still the original path.
\<close>

definition clean_at :: "u8 list \<Rightarrow> nat \<Rightarrow> nat \<Rightarrow> nat \<Rightarrow> u8 list \<Rightarrow> u8 list \<Rightarrow> u8 list \<Rightarrow> bool" where
  "clean_at path len i j out rest tail \<longleftrightarrow>
     take j path = out \<and> length out = j \<and> drop i path = rest @ 0 # tail \<and> j \<le> i \<and>
     i + length rest = len \<and> (out = [] \<longrightarrow> path ! 0 = slash \<and> (rest = [] \<or> hd rest = slash)) \<and>
     0 \<notin> set rest \<and> [dot, dot] \<notin> set (tl (split_slash rest))"

lemma drop_Cons_nth: "drop i path = c # r \<Longrightarrow> i < length path \<and> path ! i = c \<and> drop (Suc i) path = r"
  by (metis Cons_nth_drop_Suc drop_all list.distinct(1) list.inject not_le)

lemma skip_slashes_eq:
  "drop i path = rest @ 0 # tail \<Longrightarrow> len = i + length rest \<Longrightarrow>
   skip_slashes path len i = Inr (i + length (takeWhile (\<lambda>c. c = slash) rest))"
proof (induction rest arbitrary: i)
  case Nil
  then show ?case by (simp add: skip_slashes.simps)
next
  case (Cons c rest)
  then have c: "i < length path" "path ! i = c" and d: "drop (Suc i) path = rest @ 0 # tail"
    using drop_Cons_nth [of i path] by auto
  from Cons.IH [OF d] Cons.prems(2) c show ?case
    by (subst skip_slashes.simps) simp
qed

lemma clean_dots_eq:
  assumes d: "drop k path = rest @ 0 # tail" and len: "len = k + length rest"
    and rest: "hd (split_slash rest) \<noteq> [dot, dot]"
  shows "clean_dots path len k j =
    Inr (if rest \<noteq> [] \<and> hd rest = dot \<and> (tl rest = [] \<or> hd (tl rest) = slash) then Some (k, j) else None)"
proof (cases rest)
  case Nil
  with len show ?thesis by (simp add: clean_dots_def)
next
  case (Cons c r)
  with d have c: "k < length path" "path ! k = c" and d1: "drop (Suc k) path = r @ 0 # tail"
    using drop_Cons_nth [of k path] by auto
  show ?thesis
  proof (cases r)
    case Nil
    with d1 have "Suc k < length path" "path ! Suc k = 0"
      using drop_Cons_nth [of "Suc k" path] by auto
    with Cons Nil c len show ?thesis by (simp add: clean_dots_def)
  next
    case (Cons c1 r1)
    with d1 have c1: "Suc k < length path" "path ! Suc k = c1" and d2: "drop (k + 2) path = r1 @ 0 # tail"
      using drop_Cons_nth [of "Suc k" path] by auto
    have c2: "k + 2 < length path" "path ! (k + 2) = (if r1 = [] then 0 else hd r1)"
      using d2 drop_Cons_nth [of "k + 2" path] by (cases r1; auto)+
    have "c = dot \<and> c1 = dot \<Longrightarrow> r1 \<noteq> [] \<and> hd r1 \<noteq> slash"
      using rest \<open>rest = c # r\<close> Cons hd_split_slash_Nil [of r1] by auto
    with \<open>rest = c # r\<close> Cons c c1 c2 len show ?thesis by (auto simp: clean_dots_def)
  qed
qed

lemma clean_body_char:
  assumes "clean_at path len i j out (c # r) tail" and "c \<noteq> slash"
  shows "clean_body path len i j = Inr (path[j := c], i, Suc j, False)"
    and "clean_at (path[j := c]) len (Suc i) (Suc j) (out @ [c]) r tail"
proof -
  have c: "i < length path" "path ! i = c" "drop (Suc i) path = r @ 0 # tail"
    using assms drop_Cons_nth [of i path] by (auto simp: clean_at_def)
  with assms show "clean_body path len i j = Inr (path[j := c], i, Suc j, False)"
    by (simp add: clean_body_def copy_char_ok clean_at_def)
  from c assms show "clean_at (path[j := c]) len (Suc i) (Suc j) (out @ [c]) r tail"
    by (auto simp: clean_at_def take_Suc_conv_app_nth)
qed

lemma clean_body_slash:
  assumes at: "clean_at path len i j out (slash # r) tail"
    and m: "m = Suc i + length (takeWhile (\<lambda>c. c = slash) r)"
    and r': "r' = dropWhile (\<lambda>c. c = slash) r"
  shows "m \<le> len" "drop m path = r' @ 0 # tail" "m + length r' = len"
    "clean_body path len i j =
      (if r' \<noteq> [] \<and> hd r' = dot \<and> (tl r' = [] \<or> hd (tl r') = slash) then Inr (path, m, j, False)
       else if r' \<noteq> [] then Inr (path[j := slash, Suc j := hd r'], m, Suc (Suc j), False)
       else if j = 0 then if len = 1 then Inr (path[0 := slash], m, 1, True)
            else Inr (path[0 := slash, 1 := 0], m, 2, False)
       else Inr (path[j := 0], m, Suc j, False))"
proof -
  have c: "i < length path" "path ! i = slash" "drop (Suc i) path = r @ 0 # tail"
    using at drop_Cons_nth [of i path] by (auto simp: clean_at_def)
  have len: "len = Suc i + length r" and ji: "j \<le> i" using at by (auto simp: clean_at_def)
  have rr: "r = takeWhile (\<lambda>c. c = slash) r @ r'" by (simp add: r')
  show ml: "m \<le> len" using len m by (simp add: length_takeWhile_le)
  have "drop m path = drop (length (takeWhile (\<lambda>c. c = slash) r)) (drop (Suc i) path)"
    by (simp add: m add.commute)
  also have "\<dots> = drop (length (takeWhile (\<lambda>c. c = slash) r))
      (takeWhile (\<lambda>c. c = slash) r @ r' @ 0 # tail)"
    using c(3) rr by (metis append_assoc)
  also have "\<dots> = r' @ 0 # tail" by simp
  finally show d: "drop m path = r' @ 0 # tail" .
  show mr: "m + length r' = len" using len m arg_cong [OF rr, of length] by simp
  have "set (split_slash r') \<subseteq> set (split_slash r)" unfolding r' by (rule set_skip)
  then have "hd (split_slash r') \<noteq> [dot, dot]"
    using at by (auto simp: clean_at_def dest: subsetD [OF _ hd_in_set])
  from clean_dots_eq [OF d mr [symmetric] this, of j]
  have dots: "clean_dots path len m j = Inr (if r' \<noteq> [] \<and> hd r' = dot \<and>
      (tl r' = [] \<or> hd (tl r') = slash) then Some (m, j) else None)" .
  have skip: "skip_slashes path len i = Inr m"
    using skip_slashes_eq [of i path "slash # r" tail len] at m by (simp add: clean_at_def)
  have mp: "m < length path" "path ! m = (if r' = [] then 0 else hd r')"
    using d drop_Cons_nth [of m path] by (cases r'; auto)+
  show "clean_body path len i j =
      (if r' \<noteq> [] \<and> hd r' = dot \<and> (tl r' = [] \<or> hd (tl r') = slash) then Inr (path, m, j, False)
       else if r' \<noteq> [] then Inr (path[j := slash, Suc j := hd r'], m, Suc (Suc j), False)
       else if j = 0 then if len = 1 then Inr (path[0 := slash], m, 1, True)
            else Inr (path[0 := slash, 1 := 0], m, 2, False)
       else Inr (path[j := 0], m, Suc j, False))"
  proof -
    have f: "j < m" "j < length path" "0 < length path" "Suc j < length path" "m < length path"
      "path ! i = slash" "i < length path" "m \<le> len" "j \<noteq> len" "Suc 0 < length path" "0 < m"
      using c ji m mp mr by auto
    have g: "r' = [] \<longleftrightarrow> m = len" "r' \<noteq> [] \<longleftrightarrow> m < len" using mr by auto
    show ?thesis
    proof (cases "r' = []")
      case True
      with skip dots mp(2) f g show ?thesis
        by (auto simp: clean_body_def copy_char_ok nth_list_update numeral_2_eq_2)
    next
      case False
      with skip dots mp(2) f g show ?thesis
        by (auto simp: clean_body_def copy_char_ok nth_list_update)
    qed
  qed
qed

lemma take_Suc_update: "j < length xs \<Longrightarrow> take (Suc j) (xs[j := x]) = take j xs @ [x]"
  by (simp add: take_Suc_conv_app_nth)

lemma tl_split_slash_tl: "r \<noteq> [] \<Longrightarrow> hd r \<noteq> slash \<Longrightarrow> tl (split_slash (tl r)) = tl (split_slash r)"
  by (cases r) auto

lemma clean_at_length: "clean_at path len i j out rest tail \<Longrightarrow> len < length path"
  using length_drop [of i path] by (auto simp: clean_at_def)

lemma clean_at_skip:
  assumes at: "clean_at path len i j out (slash # r) tail"
    and m: "m = Suc i + length (takeWhile (\<lambda>c. c = slash) r)"
    and r': "r' = dropWhile (\<lambda>c. c = slash) r" "r' \<noteq> []"
  shows "hd r' = dot \<Longrightarrow> tl r' = [] \<or> hd (tl r') = slash \<Longrightarrow>
      clean_at path len (Suc m) j out (tl r') tail"
    and "clean_at (path[j := slash, Suc j := hd r']) len (Suc m) (Suc (Suc j))
      (out @ [slash, hd r']) (tl r') tail"
proof -
  note b = clean_body_slash(1-3) [OF at m r'(1)]
  have hd: "hd r' \<noteq> slash" using r' hd_dropWhile [of "\<lambda>c. c = slash" r] by simp
  have dd: "[dot, dot] \<notin> set (tl (split_slash (tl r')))"
  proof -
    have "set (tl (split_slash r')) \<subseteq> set (split_slash r')" by (cases "split_slash r'") auto
    then have "set (tl (split_slash r')) \<subseteq> set (split_slash r)" using set_skip [of r] r'(1) by blast
    with at hd r'(2) show ?thesis by (auto simp: clean_at_def tl_split_slash_tl)
  qed
  have "set (tl r') \<subseteq> set r" by (metis list.set_sel(2) r' set_dropWhileD subsetI)
  then have z: "0 \<notin> set (tl r')" using at by (auto simp: clean_at_def)
  have d: "drop (Suc m) path = tl r' @ 0 # tail"
    using b(2) r'(2) drop_Cons_nth [of m path] by (cases r') auto
  have l: "Suc m + length (tl r') = len" using b(3) r'(2) by (cases r') auto
  have j: "j < m" "Suc j < length path"
    using at m clean_at_length [OF at] by (auto simp: clean_at_def)
  show "hd r' = dot \<Longrightarrow> tl r' = [] \<or> hd (tl r') = slash \<Longrightarrow>
      clean_at path len (Suc m) j out (tl r') tail"
    using at d l z dd j by (auto simp: clean_at_def)
  have "take (Suc (Suc j)) (path[j := slash, Suc j := hd r']) = out @ [slash, hd r']"
    using j at by (simp add: take_Suc_update clean_at_def)
  with d l z dd j show "clean_at (path[j := slash, Suc j := hd r']) len (Suc m) (Suc (Suc j))
      (out @ [slash, hd r']) (tl r') tail"
    using at by (auto simp: clean_at_def)
qed

lemma clean_loop_at:
  assumes "clean_at path len i j out rest tail" and "0 < len"
  shows "\<exists>path' j' z. clean_loop path len i j = Inr (path', j') \<and> length path' = length path \<and>
    take j' path' = cleaned out rest @ replicate z 0 \<and> z \<le> min 1 (length (cleaned out rest)) \<and> j' \<le> len \<and>
    j' = length (cleaned out rest) + z \<and> (j' = 0 \<longrightarrow> path' ! 0 = slash)"
  using assms
proof (induction "length rest" arbitrary: path i j out rest rule: less_induct)
  case less
  note at = less.prems(1)
  show ?case
  proof (cases rest)
    case Nil
    with at show ?thesis
      by (intro exI [of _ path] exI [of _ j] exI [of _ 0]) (auto simp: clean_loop.simps [of path] clean_at_def)
  next
    case (Cons c r)
    with at have ij: "i < len" "j < len" by (auto simp: clean_at_def)
    show ?thesis
    proof (cases "c = slash")
      case False
      note b = clean_body_char [OF at [unfolded Cons] False]
      from less.hyps [OF _ b(2) less.prems(2)] b(1) ij Cons False show ?thesis
        by (auto simp: clean_loop.simps [of path len i j] cleaned.simps(2))
    next
      case c: True
      define r' where "r' = dropWhile (\<lambda>c. c = slash) r"
      define m where "m = Suc i + length (takeWhile (\<lambda>c. c = slash) r)"
      note at' = at [unfolded Cons c]
      note b = clean_body_slash [OF at' m_def r'_def]
      have shorter: "r' \<noteq> [] \<Longrightarrow> length (tl r') < length rest"
        using Cons length_dropWhile_le [of "\<lambda>c. c = slash" r] by (cases r') (auto simp: r'_def)
      have jp: "j < length path" "path \<noteq> []" "1 < len \<longrightarrow> 1 < length path"
        using clean_at_length [OF at] ij by auto
      consider (last) "r' = []"
        | (dot) "r' \<noteq> []" "hd r' = dot" "tl r' = [] \<or> hd (tl r') = slash"
        | (name) "r' \<noteq> []" "\<not> (hd r' = dot \<and> (tl r' = [] \<or> hd (tl r') = slash))"
        by blast
      then show ?thesis
      proof cases
        case dot
        have eq: "cleaned out rest = cleaned out (tl r')"
          using dot Cons c by (cases r') (auto simp: cleaned.simps(2) r'_def)
        from less.hyps [OF shorter [OF dot(1)] clean_at_skip(1) [OF at' m_def r'_def dot] less.prems(2)]
        show ?thesis unfolding eq using b(4) dot ij by (simp add: clean_loop.simps [of path len i j])
      next
        case name
        have eq: "cleaned out rest = cleaned (out @ [slash, hd r']) (tl r')"
          using name Cons c by (cases r') (auto simp: cleaned.simps(2) r'_def)
        from less.hyps [OF shorter [OF name(1)] clean_at_skip(2) [OF at' m_def r'_def name(1)] less.prems(2)]
        show ?thesis unfolding eq using b(4) name ij by (auto simp: clean_loop.simps [of path len i j])
      next
        case last
        have ml: "m = len" using b(3) last by simp
        have eq: "cleaned out rest = (if j = 0 then [slash] else out)"
          using last Cons c at
          by (auto simp: cleaned.simps(2) r'_def clean_at_def simp del: dropWhile_eq_Nil_conv)
        have out: "take j path = out" "length out = j" using at by (auto simp: clean_at_def)
        show ?thesis
        proof (cases "j = 0")
          case True
          with last ml eq ij jp b(4) show ?thesis
            by (auto simp: clean_loop.simps take_Suc_update numeral_2_eq_2 take_Suc_conv_app_nth
              intro!: exI [of _ 0] exI [of _ 1])
        next
          case False
          with last ml eq ij jp b(4) out show ?thesis
            by (intro exI [of _ "path[j := 0]"] exI [of _ "Suc j"] exI [of _ 1])
              (auto simp: clean_loop.simps take_Suc_update)
        qed
      qed
    qed
  qed
qed

lemma set_split_slash: "\<Union> (set ` set (split_slash s)) \<subseteq> set s"
proof (induction s)
  case (Cons x s)
  then show ?case
    by (cases "split_slash s") auto
qed simp

lemma set_joined_names: "set (joined (names (split_slash s))) \<subseteq> insert slash (set s)"
  using set_split_slash [of s] by (auto simp: joined_def names_def)

lemma last_joined: "cs \<noteq> [] \<Longrightarrow> last cs \<noteq> [] \<Longrightarrow> last (joined cs) = last (last cs)"
proof (induction cs)
  case (Cons c cs)
  then show ?case by (cases cs) (auto simp: last_append)
qed simp

lemma last_joined_names:
  assumes "names (split_slash s) \<noteq> []"
  shows "joined (names (split_slash s)) \<noteq> [] \<and> last (joined (names (split_slash s))) \<noteq> slash"
proof -
  let ?cs = "names (split_slash s)"
  have c: "c \<noteq> [] \<and> slash \<notin> set c" if "c \<in> set ?cs" for c
    using that split_slash_no_slash by (auto simp: names_def)
  have "last (joined ?cs) \<in> set (last ?cs)"
    using assms c [of "last ?cs"] by (simp add: last_joined)
  with assms c [of "last ?cs"] show ?thesis by (cases ?cs) auto
qed

text \<open>
  On an absolute path with no \<open>..\<close> component, \<open>clean_path\<close> leaves exactly the canonical
  path: a slash before each component that is neither empty nor \<open>.\<close>, in their order, and \<open>/\<close>
  when there is none.
\<close>

theorem clean_path_canonical:
  assumes "cstr (slash # s) path" and "[dot, dot] \<notin> set (split_slash s)"
  shows "\<exists>path'. clean_path path = Inr path' \<and> cstr (canonical (slash # s)) path'"
proof -
  let ?s = "slash # s" and ?len = "Suc (length s)"
  obtain tail where tail: "path = slash # s @ 0 # tail" and nz: "0 \<notin> set s"
    using assms(1) by (auto simp: cstr_def)
  have at: "clean_at path ?len 0 0 [] ?s tail" using assms(2) tail nz by (simp add: clean_at_def)
  from clean_loop_at [OF this] obtain p j z where
    l: "clean_loop path ?len 0 0 = Inr (p, j)" "length p = length path"
      "take j p = cleaned [] ?s @ replicate z 0" "z \<le> min 1 (length (cleaned [] ?s))" "j \<le> ?len"
      "j = length (cleaned [] ?s) + z" "j = 0 \<longrightarrow> p ! 0 = slash" by auto
  have lp: "?len < length p" using clean_at_length [OF at] l(2) by simp
  define j1 where "j1 = (if j = 0 then j + 1 else j)"
  have j1: "0 < j1" "j1 \<le> ?len" using l(5) by (auto simp: j1_def)
  have c: "canonical ?s = (if cleaned [] ?s = [] then [slash] else cleaned [] ?s)" (is "?c = _")
    using cleaned_spec [of ?s "[]"] last_joined_names [of s] by (auto simp: canonical_def Let_def)
  have t1: "take j1 p = ?c @ replicate z 0" and jz: "j1 = length ?c + z"
    using l(3,4,6,7) lp c by (cases p; auto simp: j1_def)+
  then have p1: "p[j1 := 0] = ?c @ replicate z 0 @ 0 # drop (Suc j1) p"
    using j1 lp by (simp add: upd_conv_take_nth_drop)
  have no_slash: "p[j1 := 0] ! (j1 - 1) \<noteq> slash" if "1 < j1"
  proof (cases "z = 0")
    case True
    with that jz have "1 < length ?c" by simp
    then have "last ?c \<noteq> slash"
      using last_joined_names [of s] by (auto simp: canonical_def Let_def split: if_splits)
    moreover have "?c \<noteq> []" using \<open>1 < length ?c\<close> by auto
    ultimately show ?thesis
      using True jz by (subst p1) (simp add: nth_append last_conv_nth)
  next
    case False
    with l(4) have "z = 1" by simp
    with jz show ?thesis by (subst p1) (simp add: nth_append)
  qed
  have "clean_path path = Inr (p[j1 := 0])"
    using l(1) lp j1 no_slash strlen_cstr [OF assms(1)]
    by (auto simp: clean_path_def Let_def j1_def)
  moreover have "0 \<notin> set ?c"
    using set_joined_names [of s] nz by (auto simp: canonical_def Let_def)
  then have "cstr ?c (p[j1 := 0])"
    unfolding p1 cstr_def using l(4) by (cases z) auto
  ultimately show ?thesis by blast
qed

lemma clean_path_canonical_witness:
  "\<exists>path'. clean_path (slash # [slash, 97, slash, dot, slash, 98, slash] @ [0]) = Inr path' \<and>
    cstr (canonical (slash # [slash, 97, slash, dot, slash, 98, slash])) path'"
  by (rule clean_path_canonical) (simp_all add: cstr_def)

text \<open>
  Where a path climbs, \<open>clean_path\<close> departs from its description: a second \<open>..\<close> right after
  a first is copied (\<open>/a/b/../../c\<close> becomes \<open>/a/../c\<close>), a \<open>..\<close> at the root loses the leading slash
  (\<open>/../a\<close> becomes \<open>a\<close>) and slashes after a \<open>..\<close> survive (\<open>/a/b/..//c\<close> becomes \<open>/a//c\<close>).
\<close>

theorem clean_path_dotdot_not_resolved:
  "bnd (clean_path [slash, 97, slash, 98, slash, dot, dot, slash, dot, dot, slash, 99, 0])
     (\<lambda>p. Inr (takeWhile (\<lambda>c. c \<noteq> 0) p)) = Inr [slash, 97, slash, dot, dot, slash, 99] \<and>
   bnd (clean_path [slash, dot, dot, slash, 97, 0]) (\<lambda>p. Inr (takeWhile (\<lambda>c. c \<noteq> 0) p)) = Inr [97] \<and>
   bnd (clean_path [slash, 97, slash, 98, slash, dot, dot, slash, slash, 99, 0])
     (\<lambda>p. Inr (takeWhile (\<lambda>c. c \<noteq> 0) p)) = Inr [slash, 97, slash, slash, 99]"
  by code_simp

section \<open>Splitting a path\<close>

lemma last_slash_split:
  assumes "p = pre @ slash # base @ 0 # r" and "slash \<notin> set base" and "n \<le> length base"
  shows "last_slash p (Suc (length pre) + n) = Inr (length pre)"
  using assms(3)
proof (induction n)
  case 0
  have "(base @ 0 # r) ! 0 \<noteq> slash" using assms(2) by (cases base) auto
  with assms(1) show ?case by (cases "length pre") (auto simp: nth_append)
next
  case (Suc n)
  have "Suc n < length base \<Longrightarrow> base ! Suc n \<noteq> slash"
    using assms(2) by (metis nth_mem)
  then have "(base @ 0 # r) ! Suc n \<noteq> slash"
    using Suc.prems by (auto simp: nth_append)
  with Suc assms(1) show ?case by (simp add: nth_append)
qed

text \<open>
  \<open>bname\<close> (\<open>bname.c\<close>) splits a path at its last slash: the base name is what follows it, the
  directory what precedes it (\<open>/\<close> itself when nothing does), and both buffers end up holding
  terminated strings.
\<close>

theorem bname_splits:
  assumes "cstr (pre @ slash # base) path" and "slash \<notin> set base"
    and "length pre < MAX_PATH_LEN" and "length base \<le> MAX_PATH_LEN"
    and "length pre + 1 < length dirname" and "length base < length basename"
  shows "\<exists>d b. bname path dirname basename = Inr (d, b) \<and>
    cstr (if pre = [] then [slash] else pre) d \<and> cstr base b"
proof -
  let ?n = "Suc (length pre)" and ?s = "pre @ slash # base"
  obtain r where p: "path = pre @ slash # base @ 0 # r" and nz: "0 \<notin> set pre" "0 \<notin> set base"
    using assms(1) by (auto simp: cstr_def)
  have len: "strlen (Some path) = Inr (?n + length base)"
    using strlen_cstr [OF assms(1)] by simp
  have ls: "last_slash path (?n + length base) = Inr (length pre)"
    by (rule last_slash_split [OF p assms(2)]) simp
  have d1: "strncpy dirname path ?n = Inr (pre @ slash # drop ?n dirname)"
    using strncpy_cstr [OF assms(1), of ?n dirname] assms(5) by simp
  have b1: "strncpy basename (drop ?n path) (length base) = Inr (base @ drop (length base) basename)"
    using strncpy_cstr [of base "drop ?n path" "length base" basename] assms(6) nz p
    by (simp add: cstr_def)
  obtain x ds where ds: "drop ?n dirname = x # ds"
    using assms(5) by (cases "drop ?n dirname") auto
  obtain y bs where bs: "drop (length base) basename = y # bs"
    using assms(6) by (cases "drop (length base) basename") auto
  let ?d = "if pre = [] then slash # 0 # ds else pre @ 0 # 0 # ds"
  have "bname path dirname basename = Inr (?d, base @ 0 # bs)"
    using len ls p d1 b1 ds bs assms(3,4)
    by (auto simp: bname_def Let_def list_update_append nth_append)
  then show ?thesis using nz by (auto simp: cstr_def)
qed

lemma bname_splits_witness:
  "\<exists>d b. bname ([slash, 97] @ slash # [98, 99] @ [0]) (replicate 512 7) (replicate 512 9) = Inr (d, b) \<and>
    cstr (if [slash, 97] = [] then [slash] else [slash, 97]) d \<and> cstr [98, 99] b"
  by (rule bname_splits) (simp_all add: cstr_def MAX_PATH_LEN_def)

end
