(* ===== verification/Bytes.thy ===== *)
theory Bytes
  imports Prelude
begin

text \<open>
  Little endian integers in byte arrays, the representation of the i386: what the disk structures
  (\<open>hd.c\<close>, \<open>cofs.c\<close>) and the headers of network packets (\<open>ip.c\<close>, \<open>arp.c\<close>, \<open>udp.c\<close>) are read from and
  written to.
\<close>

definition rd16 :: "u8 list \<Rightarrow> nat \<Rightarrow> u16" where
  "rd16 d i = ucast (d ! i) OR push_bit 8 (ucast (d ! (i + 1)))"

definition rd32 :: "u8 list \<Rightarrow> nat \<Rightarrow> u32" where
  "rd32 d i = ucast (d ! i) OR push_bit 8 (ucast (d ! (i + 1))) OR
     push_bit 16 (ucast (d ! (i + 2))) OR push_bit 24 (ucast (d ! (i + 3)))"

definition le16 :: "u16 \<Rightarrow> u8 list" where
  "le16 w = [ucast w, ucast (drop_bit 8 w)]"

definition le32 :: "u32 \<Rightarrow> u8 list" where
  "le32 w = [ucast w, ucast (drop_bit 8 w), ucast (drop_bit 16 w), ucast (drop_bit 24 w)]"

text \<open>\<open>splice d i bs\<close>: the bytes \<open>bs\<close> stored at offset \<open>i\<close> of \<open>d\<close>.\<close>

definition splice :: "'a list \<Rightarrow> nat \<Rightarrow> 'a list \<Rightarrow> 'a list" where
  "splice d i bs = take i d @ bs @ drop (i + length bs) d"

definition wr32 :: "u8 list \<Rightarrow> nat \<Rightarrow> u32 \<Rightarrow> u8 list" where
  "wr32 d i w = splice d i (le32 w)"

text \<open>\<open>need n b k\<close>: the code behind \<open>k\<close> touches the first \<open>n\<close> bytes of the buffer.\<close>

definition need :: "nat \<Rightarrow> u8 list \<Rightarrow> 'a kres \<Rightarrow> 'a kres" where
  "need n b k = (if n \<le> length b then k else Inl Fault)"

text \<open>The memory that \<open>malloc\<close> returns, when there is enough.\<close>

definition plenty :: "(nat \<Rightarrow> u8 list option) \<Rightarrow> bool" where
  "plenty alloc \<longleftrightarrow> (\<forall>n. \<exists>f. alloc n = Some f \<and> length f = n)"

lemma length_le [simp]: "length (le16 w) = 2" "length (le32 x) = 4"
  by (simp_all add: le16_def le32_def)

lemma length_splice [simp]: "i + length bs \<le> length d \<Longrightarrow> length (splice d i bs) = length d"
  by (simp add: splice_def)

lemma nth_splice:
  "i + length bs \<le> length d \<Longrightarrow> k < length d \<Longrightarrow>
   splice d i bs ! k = (if i \<le> k \<and> k < i + length bs then bs ! (k - i) else d ! k)"
  by (auto simp: splice_def nth_append min_absorb2)

lemma rd16_le16 [byte_simps]: "rd16 (le16 w @ r) 0 = w"
  unfolding rd16_def le16_def by (rule bit_word_eqI) (auto simp: bit_simps)

lemma rd32_le32 [byte_simps]: "rd32 (le32 w @ r) 0 = w"
proof (rule bit_word_eqI)
  fix n
  assume "n < LENGTH(32)"
  then consider "n < 8" | "8 \<le> n" "n < 16" | "16 \<le> n" "n < 24" | "24 \<le> n" "n < 32" by fastforce
  then show "bit (rd32 (le32 w @ r) 0) n = bit w n"
    unfolding rd32_def le32_def by cases (auto simp: bit_simps)
qed

lemma rd16_drop: "i + j + 1 < length d \<Longrightarrow> rd16 (drop i d) j = rd16 d (i + j)"
  by (simp add: rd16_def add.assoc)

lemma rd32_drop: "i + j + 3 < length d \<Longrightarrow> rd32 (drop i d) j = rd32 d (i + j)"
  by (simp add: rd32_def add.assoc)

lemma rd32_cong: "(\<And>k. i \<le> k \<Longrightarrow> k < i + 4 \<Longrightarrow> d ! k = e ! k) \<Longrightarrow> rd32 d i = rd32 e i"
  by (simp add: rd32_def)

lemma rd32_nths: "d ! i = e ! j \<Longrightarrow> d ! (i + 1) = e ! (j + 1) \<Longrightarrow> d ! (i + 2) = e ! (j + 2) \<Longrightarrow>
    d ! (i + 3) = e ! (j + 3) \<Longrightarrow> rd32 d i = rd32 e j"
  by (simp add: rd32_def)

lemma rd32_wr32_same [byte_simps]: "i + 4 \<le> length d \<Longrightarrow> rd32 (wr32 d i w) i = w"
proof -
  assume a: "i + 4 \<le> length d"
  have "rd32 (wr32 d i w) i = rd32 (le32 w @ []) 0"
    unfolding wr32_def using a by (intro rd32_nths) (auto simp: nth_splice eval_nat_numeral)
  then show ?thesis by (simp only: rd32_le32)
qed

lemma rd32_wr32_other [byte_simps]:
  "i + 4 \<le> length d \<Longrightarrow> j + 4 \<le> length d \<Longrightarrow> j + 4 \<le> i \<or> i + 4 \<le> j \<Longrightarrow>
   rd32 (wr32 d i w) j = rd32 d j"
  unfolding wr32_def by (intro rd32_cong) (auto simp: nth_splice)

lemma length_wr32 [simp]: "i + 4 \<le> length d \<Longrightarrow> length (wr32 d i w) = length d"
  by (simp add: wr32_def)

definition wr16 :: "u8 list \<Rightarrow> nat \<Rightarrow> u16 \<Rightarrow> u8 list" where
  "wr16 d i w = splice d i (le16 w)"

lemma length_wr16 [simp]: "i + 2 \<le> length d \<Longrightarrow> length (wr16 d i w) = length d"
  by (simp add: wr16_def)

lemma rd16_nths: "d ! i = e ! j \<Longrightarrow> d ! (i + 1) = e ! (j + 1) \<Longrightarrow> rd16 d i = rd16 e j"
  by (simp add: rd16_def)

lemma nth_wr16: "i + 2 \<le> length d \<Longrightarrow> k < length d \<Longrightarrow>
    wr16 d i w ! k = (if k = i then ucast w else if k = i + 1 then ucast (drop_bit 8 w) else d ! k)"
  by (auto simp: wr16_def nth_splice le16_def nth_Cons' less_Suc_eq)

lemma rd16_wr16_same [byte_simps]: "i + 2 \<le> length d \<Longrightarrow> rd16 (wr16 d i w) i = w"
  using rd16_le16 [of w "[]"] by (simp add: rd16_def nth_wr16 le16_def)

lemma rd16_wr16_other [byte_simps]:
  "i + 2 \<le> length d \<Longrightarrow> j + 2 \<le> length d \<Longrightarrow> j + 2 \<le> i \<or> i + 2 \<le> j \<Longrightarrow> rd16 (wr16 d i w) j = rd16 d j"
  by (auto simp: rd16_def nth_wr16)

lemma le16_rd16: "[ucast (rd16 d i), ucast (drop_bit 8 (rd16 d i))] = [d ! i, d ! (i + 1)]"
proof -
  have "\<not> bit (w :: u8) (8 + n)" for w n using bit_imp_le_length [of w "8 + n"] by auto
  then show ?thesis by (auto simp: rd16_def intro!: bit_word_eqI simp: bit_simps)
qed

lemma wr16_rd16 [byte_simps]: "i + 2 \<le> length d \<Longrightarrow> wr16 d i (rd16 d i) = d"
  using le16_rd16 [of d i] by (intro nth_equalityI) (auto simp: nth_wr16)

end
