(* ===== verification/Hd_Queue.thy ===== *)
theory Hd_Queue
  imports Bytes
begin

text \<open>
  The block cache between the file system and the disk (\<open>hd_queue.c\<close>) and the transfer of one
  block (\<open>hd_rw\<close> of \<open>hd.c\<close>).

  The queue is a list that only grows, so the position of a buffer in it stands for the pointer
  \<open>hd_buf_t *\<close>. The disk itself is outside the program: it is the map \<open>sectors\<close> from 28 bit
  addresses to their 512 bytes together with the flag \<open>ata_fault\<close>, the error bits of its status
  register. \<open>hd_mem\<close> is what \<open>malloc(sizeof(hd_buf_t))\<close> returns: nothing, or memory with
  arbitrary contents.
\<close>

section \<open>State\<close>

definition BLOCK_SIZE :: nat where
  "BLOCK_SIZE = 512"

definition MAX_HD_BUFS :: nat where
  "MAX_HD_BUFS = 200"

record hd_buf =
  block_no :: u32
  is_dirty :: bool
  ref_count :: int
  hb_lock :: bool
  hb_data :: "u8 list"

record buf_queue =
  bufs :: "hd_buf list"
  bq_lock :: bool
  hd_lock :: bool
  p_offs :: u32
  sectors :: "u32 \<Rightarrow> u8 list"
  ata_fault :: bool
  hd_mem :: "hd_buf option"

section \<open>Operations\<close>

definition hset :: "nat \<Rightarrow> (hd_buf \<Rightarrow> hd_buf) \<Rightarrow> buf_queue \<Rightarrow> buf_queue" where
  "hset h f q = q\<lparr>bufs := (bufs q)[h := f (bufs q ! h)]\<rparr>"

text \<open>The address the drive gets: the low 28 bits of the sector number.\<close>

definition lba :: "u32 \<Rightarrow> u32 \<Rightarrow> u32" where
  "lba offs b = (b + offs) AND 0x0FFFFFFF"

definition hd_rw :: "nat \<Rightarrow> buf_queue \<Rightarrow> buf_queue kres" where
  "hd_rw h q =
     kassert (hb_lock (bufs q ! h)) ''hdb->lock == 1''
      (if hd_lock q then Inl Deadlock
       else let sector = lba (p_offs q) (block_no (bufs q ! h)) in
         if is_dirty (bufs q ! h) then
           if ata_fault q then Inl (Panic ''hd_wait_ready, write'')
           else Inr (q\<lparr>sectors := (sectors q)(sector := hb_data (bufs q ! h))\<rparr>)
         else
           if ata_fault q then Inl (Panic ''hd_wait_ready, read'')
           else Inr (hset h (hb_data_update (\<lambda>_. sectors q sector)) q))"

definition new_hd_buf :: "hd_buf option \<Rightarrow> hd_buf kres" where
  "new_hd_buf mem = (case mem of
      None \<Rightarrow> Inl (Panic ''malloc'')
    | Some hdb \<Rightarrow> Inr (hdb\<lparr>block_no := 0, is_dirty := False, ref_count := 0\<rparr>))"

definition free_hd_buf :: "hd_buf \<Rightarrow> unit kres" where
  "free_hd_buf hdb = (if ref_count hdb \<noteq> 0 then Inl (Panic ''block still in use'') else Inr ())"

fun find_buf :: "hd_buf list \<Rightarrow> u32 \<Rightarrow> nat option" where
  "find_buf [] b = None"
| "find_buf (hdb # rest) b = (if block_no hdb = b then Some 0 else map_option Suc (find_buf rest b))"

text \<open>
  The search for a buffer to reuse: the loop variable \<open>hdb\<close> keeps the last element when no
  element satisfies the test, and is NULL only for an empty list.
\<close>

fun scan_free :: "hd_buf list \<Rightarrow> nat option" where
  "scan_free [] = None"
| "scan_free [hdb] = Some 0"
| "scan_free (hdb # rest) =
     (if ref_count hdb = 0 \<and> \<not> is_dirty hdb \<and> \<not> hb_lock hdb then Some 0
      else map_option Suc (scan_free rest))"

definition get_hd_buf :: "u32 \<Rightarrow> buf_queue \<Rightarrow> (nat \<times> buf_queue) kres" where
  "get_hd_buf b q =
     (if bq_lock q then Inl Deadlock
      else case find_buf (bufs q) b of
        Some h \<Rightarrow>
          let q = hset h (\<lambda>hdb. hdb\<lparr>ref_count := ref_count hdb + 1\<rparr>) q in
          if hb_lock (bufs q ! h) then Inl Deadlock
          else Inr (h, hset h (hb_lock_update (\<lambda>_. True)) q)
      | None \<Rightarrow>
          bnd (if length (bufs q) < MAX_HD_BUFS
               then bnd (new_hd_buf (hd_mem q)) (\<lambda>hdb.
                 Inr (length (bufs q), q\<lparr>bufs := bufs q @ [hdb]\<rparr>))
               else case scan_free (bufs q) of
                 None \<Rightarrow> Inl (Panic ''max_hd_bufs reached and cannot find any free buf!'')
               | Some h \<Rightarrow> Inr (h, q)) (\<lambda>(h, q).
          bnd (hd_rw h (hset h (\<lambda>hdb. hdb\<lparr>hb_lock := True, block_no := b, is_dirty := False,
                 ref_count := 1\<rparr>) q)) (\<lambda>q.
          Inr (h, q))))"

definition put_hd_buf :: "nat \<Rightarrow> buf_queue \<Rightarrow> buf_queue kres" where
  "put_hd_buf h q =
     (if bq_lock q then Inl Deadlock
      else if ref_count (bufs q ! h) \<le> 0 then Inl (Panic ''trying to close not opened block'')
      else
        let q = hset h (\<lambda>hdb. hdb\<lparr>ref_count := ref_count hdb - 1\<rparr>) q in
        bnd (if is_dirty (bufs q ! h) \<and> ref_count (bufs q ! h) = 0
             then bnd (hd_rw h q) (\<lambda>q. Inr (hset h (is_dirty_update (\<lambda>_. False)) q))
             else Inr q) (\<lambda>q.
        Inr (hset h (hb_lock_update (\<lambda>_. False)) q)))"

text \<open>\<open>hd_queue_init\<close>, after \<open>hd_init\<close> found the disk and the offset \<open>offs\<close> of the partition.\<close>

definition hd_queue_init :: "u32 \<Rightarrow> (u32 \<Rightarrow> u8 list) \<Rightarrow> hd_buf option \<Rightarrow> buf_queue" where
  "hd_queue_init offs dsk mem =
     \<lparr>bufs = [], bq_lock = False, hd_lock = False, p_offs = offs, sectors = dsk,
      ata_fault = False, hd_mem = mem\<rparr>"

text \<open>Between \<open>get_hd_buf\<close> and \<open>put_hd_buf\<close> the holder writes into the buffer and marks it dirty.\<close>

definition hwrite :: "nat \<Rightarrow> (u8 list \<Rightarrow> u8 list) \<Rightarrow> buf_queue \<Rightarrow> buf_queue" where
  "hwrite h f = hset h (\<lambda>hdb. hdb\<lparr>hb_data := f (hb_data hdb), is_dirty := True\<rparr>)"

section \<open>The partition table\<close>

definition u_ind :: "u8 list \<Rightarrow> nat \<Rightarrow> u32" where
  "u_ind d i = ucast (rd16 d i) + push_bit 16 (ucast (rd16 d (i + 2)))"

definition COFS_MAGIC :: u32 where
  "COFS_MAGIC = 0xC0517155"

text \<open>
  \<open>find_cofs_part\<close>: the primary partitions in order, the first one whose second sector starts
  with the magic number. Both buffers are on the stack and locked, \<open>p_offs\<close> is still 0.
\<close>

fun find_part_loop :: "(u32 \<Rightarrow> u8 list) \<Rightarrow> u8 list \<Rightarrow> nat list \<Rightarrow> u32 option" where
  "find_part_loop dsk mbr [] = None"
| "find_part_loop dsk mbr (i # is) =
     (let p = 446 + i * 16 + 8; p_start = u_ind mbr p; p_size = u_ind mbr (p + 4) in
      if p_size = 0 then find_part_loop dsk mbr is
      else if rd32 (dsk (lba 0 (p_start + 1))) 0 = COFS_MAGIC then Some p_start
      else find_part_loop dsk mbr is)"

definition find_cofs_part :: "(u32 \<Rightarrow> u8 list) \<Rightarrow> u32 option" where
  "find_cofs_part dsk = find_part_loop dsk (dsk (lba 0 0)) [0..<4]"

section \<open>The contract of the cache\<close>

text \<open>
  What a client of a block cache relies on. \<open>view q b\<close> is the current content of block \<open>b\<close>;
  \<open>ok q H\<close> says that the cache is consistent and the blocks in \<open>H\<close> are held (fetched and not
  yet released); at most \<open>cap\<close> blocks may be held at once.
\<close>

locale block_cache =
  fixes ok :: "'s \<Rightarrow> 'b set \<Rightarrow> bool"
    and valid :: "'s \<Rightarrow> 'b \<Rightarrow> bool"
    and view :: "'s \<Rightarrow> 'b \<Rightarrow> 'd"
    and good :: "'d \<Rightarrow> bool"
    and holds :: "'s \<Rightarrow> 'h \<Rightarrow> 'b \<Rightarrow> bool"
    and content :: "'s \<Rightarrow> 'h \<Rightarrow> 'd"
    and fetch :: "'b \<Rightarrow> 's \<Rightarrow> ('h \<times> 's) kres"
    and release :: "'h \<Rightarrow> 's \<Rightarrow> 's kres"
    and modify :: "'h \<Rightarrow> ('d \<Rightarrow> 'd) \<Rightarrow> 's \<Rightarrow> 's"
    and cap :: nat
  assumes fetch_law: "ok q H \<Longrightarrow> valid q b \<Longrightarrow> b \<notin> H \<Longrightarrow> card H < cap \<Longrightarrow>
      \<exists>h q'. fetch b q = Inr (h, q') \<and> ok q' (insert b H) \<and> holds q' h b \<and> view q' = view q \<and>
        valid q' = valid q \<and> (\<forall>h' b'. b' \<in> H \<longrightarrow> holds q h' b' \<longrightarrow> holds q' h' b')"
    and release_law: "ok q H \<Longrightarrow> b \<in> H \<Longrightarrow> holds q h b \<Longrightarrow>
      \<exists>q'. release h q = Inr q' \<and> ok q' (H - {b}) \<and> view q' = view q \<and> valid q' = valid q \<and>
        (\<forall>h' b'. b' \<in> H - {b} \<longrightarrow> holds q h' b' \<longrightarrow> holds q' h' b')"
    and content_law: "ok q H \<Longrightarrow> b \<in> H \<Longrightarrow> holds q h b \<Longrightarrow> content q h = view q b"
    and modify_law: "ok q H \<Longrightarrow> b \<in> H \<Longrightarrow> holds q h b \<Longrightarrow> good (f (view q b)) \<Longrightarrow>
      ok (modify h f q) H \<and> view (modify h f q) = (view q)(b := f (view q b)) \<and>
      valid (modify h f q) = valid q \<and>
      (\<forall>h' b'. b' \<in> H \<longrightarrow> holds q h' b' \<longrightarrow> holds (modify h f q) h' b')"
begin

lemma fetch_release:
  assumes "ok q H" "valid q b" "b \<notin> H" "card H < cap"
  shows "\<exists>h q1 q2. fetch b q = Inr (h, q1) \<and> content q1 h = view q b \<and> release h q1 = Inr q2 \<and>
    ok q2 H \<and> view q2 = view q \<and> valid q2 = valid q \<and>
    (\<forall>h' b'. b' \<in> H \<longrightarrow> holds q h' b' \<longrightarrow> holds q2 h' b')"
proof -
  from fetch_law [OF assms] obtain h q1 where q1: "fetch b q = Inr (h, q1)" "ok q1 (insert b H)"
    "holds q1 h b" "view q1 = view q" "valid q1 = valid q"
    "\<forall>h' b'. b' \<in> H \<longrightarrow> holds q h' b' \<longrightarrow> holds q1 h' b'" by blast
  from release_law [OF q1(2) insertI1 q1(3)] obtain q2 where q2: "release h q1 = Inr q2"
    "ok q2 (insert b H - {b})" "view q2 = view q1" "valid q2 = valid q1"
    "\<forall>h' b'. b' \<in> insert b H - {b} \<longrightarrow> holds q1 h' b' \<longrightarrow> holds q2 h' b'" by blast
  have "insert b H - {b} = H" using assms(3) by auto
  with q1 q2 content_law [OF q1(2) insertI1 q1(3)] show ?thesis by force
qed

lemma fetch_modify_release:
  assumes "ok q H" "valid q b" "b \<notin> H" "card H < cap" "good (f (view q b))"
  shows "\<exists>h q1 q2. fetch b q = Inr (h, q1) \<and> content q1 h = view q b \<and>
    release h (modify h f q1) = Inr q2 \<and> ok q2 H \<and> view q2 = (view q)(b := f (view q b)) \<and>
    valid q2 = valid q \<and> (\<forall>h' b'. b' \<in> H \<longrightarrow> holds q h' b' \<longrightarrow> holds q2 h' b')"
proof -
  from fetch_law [OF assms(1-4)] obtain h q1 where q1: "fetch b q = Inr (h, q1)"
    "ok q1 (insert b H)" "holds q1 h b" "view q1 = view q" "valid q1 = valid q"
    "\<forall>h' b'. b' \<in> H \<longrightarrow> holds q h' b' \<longrightarrow> holds q1 h' b'" by blast
  note m = modify_law [OF q1(2) insertI1 q1(3), of f, unfolded q1(4), OF assms(5)]
  from release_law [of "modify h f q1" "insert b H" b h] m q1(3) obtain q2 where
    q2: "release h (modify h f q1) = Inr q2" "ok q2 (insert b H - {b})"
    "view q2 = view (modify h f q1)" "valid q2 = valid (modify h f q1)"
    "\<forall>h' b'. b' \<in> insert b H - {b} \<longrightarrow> holds (modify h f q1) h' b' \<longrightarrow> holds q2 h' b'" by blast
  have "insert b H - {b} = H" using assms(3) by auto
  with q1 q2 m content_law [OF q1(2) insertI1 q1(3)] assms(3) show ?thesis by force
qed

end

section \<open>The queue keeps the contract\<close>

definition valid_blk :: "buf_queue \<Rightarrow> u32 \<Rightarrow> bool" where
  "valid_blk q b \<longleftrightarrow> unat b + unat (p_offs q) < 2 ^ 28"

definition view :: "buf_queue \<Rightarrow> u32 \<Rightarrow> u8 list" where
  "view q b =
     (if valid_blk q b then case find_buf (bufs q) b of
        Some h \<Rightarrow> hb_data (bufs q ! h) | None \<Rightarrow> sectors q (lba (p_offs q) b)
      else [])"

definition buf_ok :: "buf_queue \<Rightarrow> u32 set \<Rightarrow> hd_buf \<Rightarrow> bool" where
  "buf_ok q H hdb \<longleftrightarrow> valid_blk q (block_no hdb) \<and> length (hb_data hdb) = BLOCK_SIZE \<and>
     (if block_no hdb \<in> H then ref_count hdb = 1 \<and> hb_lock hdb
      else ref_count hdb = 0 \<and> \<not> hb_lock hdb \<and> \<not> is_dirty hdb) \<and>
     (\<not> is_dirty hdb \<longrightarrow> hb_data hdb = sectors q (lba (p_offs q) (block_no hdb)))"

definition hq_ok :: "buf_queue \<Rightarrow> u32 set \<Rightarrow> bool" where
  "hq_ok q H \<longleftrightarrow> \<not> bq_lock q \<and> \<not> hd_lock q \<and> \<not> ata_fault q \<and> hd_mem q \<noteq> None \<and>
     distinct (map block_no (bufs q)) \<and> length (bufs q) \<le> MAX_HD_BUFS \<and>
     (\<forall>hdb\<in>set (bufs q). buf_ok q H hdb) \<and> H \<subseteq> block_no ` set (bufs q) \<and>
     (\<forall>b. valid_blk q b \<longrightarrow> length (sectors q (lba (p_offs q) b)) = BLOCK_SIZE)"

definition holds :: "buf_queue \<Rightarrow> nat \<Rightarrow> u32 \<Rightarrow> bool" where
  "holds q h b \<longleftrightarrow> h < length (bufs q) \<and> block_no (bufs q ! h) = b"

lemma lba_small: "unat b + unat offs < 2 ^ 28 \<Longrightarrow> lba offs b = b + offs" "unat b + unat offs < 2 ^ 28 \<Longrightarrow> unat (b + offs) = unat b + unat offs"
proof -
  have m: "(0x0FFFFFFF :: u32) = mask 28" by (simp add: mask_eq_exp_minus_1)
  assume lim: "unat b + unat offs < 2 ^ 28"
  then show u: "unat (b + offs) = unat b + unat offs" by (subst unat_add_lem [symmetric]) simp
  with lim have "unat (take_bit 28 (b + offs)) = unat (b + offs)"
    by (simp add: unsigned_take_bit_eq take_bit_nat_eq_self)
  then show "lba offs b = b + offs" unfolding lba_def m take_bit_eq_mask [symmetric] by (simp only: word_unat_eq_iff)
qed

lemma lba_inj:
  assumes "unat b + unat offs < 2 ^ 28" "unat c + unat offs < 2 ^ 28" "lba offs b = lba offs c"
  shows "b = c"
  using assms by (simp add: lba_small)

lemma find_buf_SomeD: "find_buf xs b = Some h \<Longrightarrow> h < length xs \<and> block_no (xs ! h) = b"
  by (induction xs b arbitrary: h rule: find_buf.induct) (auto split: if_splits)

lemma find_buf_None: "find_buf xs b = None \<longleftrightarrow> b \<notin> block_no ` set xs"
  by (induction xs b rule: find_buf.induct) auto

lemma find_buf_at:
  assumes "distinct (map block_no xs)" "h < length xs"
  shows "find_buf xs (block_no (xs ! h)) = Some h"
proof (cases "find_buf xs (block_no (xs ! h))")
  case None
  with assms show ?thesis by (auto simp: find_buf_None)
next
  case (Some k)
  from find_buf_SomeD [OF this] assms nth_eq_iff_index_eq [OF assms(1), of k h] Some
  show ?thesis by simp
qed

lemma scan_free_free:
  "\<exists>hdb\<in>set xs. ref_count hdb = 0 \<and> \<not> is_dirty hdb \<and> \<not> hb_lock hdb \<Longrightarrow>
   \<exists>h. scan_free xs = Some h \<and> h < length xs \<and> ref_count (xs ! h) = 0 \<and> \<not> is_dirty (xs ! h) \<and>
     \<not> hb_lock (xs ! h)"
proof (induction xs rule: scan_free.induct)
  case (3 hdb v va)
  show ?case
  proof (cases "ref_count hdb = 0 \<and> \<not> is_dirty hdb \<and> \<not> hb_lock hdb")
    case False
    with 3 obtain h where "scan_free (v # va) = Some h" "h < length (v # va)"
      "ref_count ((v # va) ! h) = 0 \<and> \<not> is_dirty ((v # va) ! h) \<and> \<not> hb_lock ((v # va) ! h)"
      by fastforce
    with False show ?thesis by auto
  qed simp
qed auto

lemma bufs_hset [simp]: "bufs (hset h f q) = (bufs q)[h := f (bufs q ! h)]"
  and hset_frame [simp]: "p_offs (hset h f q) = p_offs q" "sectors (hset h f q) = sectors q"
    "bq_lock (hset h f q) = bq_lock q" "hd_lock (hset h f q) = hd_lock q"
    "ata_fault (hset h f q) = ata_fault q" "hd_mem (hset h f q) = hd_mem q"
  by (simp_all add: hset_def)

lemma valid_blk_hset [simp]: "valid_blk (hset h f q) = valid_blk q"
  by (simp add: valid_blk_def fun_eq_iff)

lemma hq_ok_bufD: "hq_ok q H \<Longrightarrow> h < length (bufs q) \<Longrightarrow> buf_ok q H (bufs q ! h)"
  by (simp add: hq_ok_def)

lemma view_cached:
  "hq_ok q H \<Longrightarrow> h < length (bufs q) \<Longrightarrow> view q (block_no (bufs q ! h)) = hb_data (bufs q ! h)"
  using hq_ok_bufD [of q H h] by (auto simp: view_def hq_ok_def find_buf_at buf_ok_def)

lemma view_uncached:
  "b \<notin> block_no ` set (bufs q) \<Longrightarrow> valid_blk q b \<Longrightarrow> view q b = sectors q (lba (p_offs q) b)"
  using find_buf_None [of "bufs q" b] by (simp add: view_def)

lemma find_buf_update:
  assumes "distinct (map block_no xs)" "h < length xs" "block_no x = block_no (xs ! h)"
  shows "find_buf (xs[h := x]) b = find_buf xs b"
proof -
  have m: "map block_no (xs[h := x]) = map block_no xs"
    using assms(2,3) by (simp add: map_update list_update_same_conv)
  have "find_buf ys b = find_buf zs b" if "map block_no ys = map block_no zs" for ys zs
    using that
  proof (induction ys arbitrary: zs)
    case (Cons y ys)
    then obtain z zs' where "zs = z # zs'" by (cases zs) auto
    with Cons show ?case by auto
  qed simp
  from this [OF m] show ?thesis .
qed

text \<open>Changing one buffer of a held block, but not its number, keeps the queue consistent.\<close>

lemma hq_ok_hset:
  assumes ok: "hq_ok q H" and h: "h < length (bufs q)" and H': "H' - {b} = H - {b}" "H' \<subseteq> insert b H"
    and b: "block_no (bufs q ! h) = b" "block_no (f (bufs q ! h)) = b"
    and f: "buf_ok q H' (f (bufs q ! h))"
  shows "hq_ok (hset h f q) H'"
    and "view (hset h f q) = (view q)(b := hb_data (f (bufs q ! h)))"
proof -
  let ?q = "hset h f q"
  have nos: "map block_no (bufs ?q) = map block_no (bufs q)"
    using h b by (simp add: map_update list_update_same_conv)
  then have img: "block_no ` set (bufs ?q) = block_no ` set (bufs q)"
    by (metis list.set_map)
  have other: "buf_ok ?q H' (bufs ?q ! i)" if i: "i < length (bufs q)" for i
  proof (cases "i = h")
    case True
    with f h show ?thesis by (simp add: buf_ok_def)
  next
    case False
    with ok i h have "block_no (bufs q ! i) \<noteq> b"
      using nth_eq_iff_index_eq [of "map block_no (bufs q)" i h] b(1) by (simp add: hq_ok_def)
    then have "block_no (bufs q ! i) \<in> H' \<longleftrightarrow> block_no (bufs q ! i) \<in> H" using H' by blast
    with False hq_ok_bufD [OF ok i] show ?thesis by (simp add: buf_ok_def)
  qed
  have "b \<in> block_no ` set (bufs q)" using b(1) h by auto
  then have "H' \<subseteq> block_no ` set (bufs q)" using ok H' by (auto simp: hq_ok_def)
  then show "hq_ok ?q H'"
    using ok nos img other unfolding hq_ok_def
    by (auto simp: all_set_conv_all_nth valid_blk_def)
  show "view ?q = (view q)(b := hb_data (f (bufs q ! h)))"
  proof
    fix c
    show "view ?q c = ((view q)(b := hb_data (f (bufs q ! h)))) c"
    proof (cases "c = b")
      case True
      with f b h ok show ?thesis
        using find_buf_at [of "bufs q" h]
        by (simp add: view_def find_buf_update hq_ok_def buf_ok_def)
    next
      case False
      have "find_buf (bufs ?q) c = find_buf (bufs q) c"
        using ok h b by (simp add: find_buf_update hq_ok_def)
      moreover have "x \<noteq> h" if "find_buf (bufs q) c = Some x" for x
        using find_buf_SomeD [OF that] b(1) False by auto
      ultimately show ?thesis
        using False by (auto simp: view_def split: option.split)
    qed
  qed
qed

text \<open>The four laws of the contract, one operation at a time.\<close>

lemma holds_other:
  "holds q h' b' \<Longrightarrow> h < length (bufs q) \<Longrightarrow> block_no (f (bufs q ! h)) = block_no (bufs q ! h) \<Longrightarrow>
   holds (hset h f q) h' b'"
  by (auto simp: holds_def nth_list_update)

lemma get_hd_buf_cached:
  assumes ok: "hq_ok q H" and b: "b \<notin> H" and h: "find_buf (bufs q) b = Some h"
  shows "\<exists>q'. get_hd_buf b q = Inr (h, q') \<and> hq_ok q' (insert b H) \<and> holds q' h b \<and>
    view q' = view q \<and> valid_blk q' = valid_blk q \<and> (\<forall>h' b'. holds q h' b' \<longrightarrow> holds q' h' b')"
proof -
  from find_buf_SomeD [OF h] have hb: "h < length (bufs q)" "block_no (bufs q ! h) = b" by auto
  note bok = hq_ok_bufD [OF ok hb(1)]
  let ?f = "\<lambda>hdb. hdb\<lparr>ref_count := ref_count hdb + 1, hb_lock := True\<rparr>"
  have fok: "buf_ok q (insert b H) (?f (bufs q ! h))"
    using bok hb b by (auto simp: buf_ok_def)
  have "get_hd_buf b q = Inr (h, hset h ?f q)"
    using ok h hb bok b by (auto simp: get_hd_buf_def hq_ok_def buf_ok_def Let_def hset_def)
  moreover note hq_ok_hset [where f = ?f, OF ok hb(1) _ _ hb(2) _ fok]
  moreover have "(view q)(b := hb_data (?f (bufs q ! h))) = view q"
    using view_cached [OF ok hb(1)] hb(2) by auto
  ultimately show ?thesis
    using hb by (auto simp: holds_def nth_list_update)
qed

lemma find_buf_append:
  "find_buf (xs @ [x]) c = (case find_buf xs c of Some k \<Rightarrow> Some k
     | None \<Rightarrow> if c = block_no x then Some (length xs) else None)"
  by (induction xs) (auto split: option.split)

lemma hq_ok_append:
  assumes ok: "hq_ok q H" and b: "b \<notin> block_no ` set (bufs q)" and v: "valid_blk q b"
    and len: "length (bufs q) < MAX_HD_BUFS"
    and x: "block_no x = b" "buf_ok q (insert b H) x" "\<not> is_dirty x"
  shows "hq_ok (q\<lparr>bufs := bufs q @ [x]\<rparr>) (insert b H)" "view (q\<lparr>bufs := bufs q @ [x]\<rparr>) = view q"
proof -
  let ?q = "q\<lparr>bufs := bufs q @ [x]\<rparr>"
  have v': "valid_blk ?q = valid_blk q" by (simp add: valid_blk_def fun_eq_iff)
  have "buf_ok ?q (insert b H) y" if "y \<in> set (bufs q)" for y
    using that ok b by (auto simp: hq_ok_def buf_ok_def v')
  moreover have "buf_ok ?q (insert b H) x" using x(2) by (simp add: buf_ok_def v')
  ultimately show "hq_ok ?q (insert b H)"
    using ok b len x(1) by (auto simp: hq_ok_def v')
  show "view ?q = view q"
  proof
    fix c
    show "view ?q c = view q c"
    proof (cases "find_buf (bufs q) c")
      case None
      with x show ?thesis by (simp add: view_def v' find_buf_append buf_ok_def)
    next
      case (Some k)
      with find_buf_SomeD [OF Some] show ?thesis by (simp add: view_def v' find_buf_append nth_append)
    qed
  qed
qed

lemma hq_ok_replace:
  assumes ok: "hq_ok q H" and b: "b \<notin> block_no ` set (bufs q)"
    and h: "h < length (bufs q)" "block_no (bufs q ! h) \<notin> H"
    and x: "block_no x = b" "buf_ok q (insert b H) x" "\<not> is_dirty x"
  shows "hq_ok (hset h (\<lambda>_. x) q) (insert b H)" "view (hset h (\<lambda>_. x) q) = view q"
proof -
  let ?q = "hset h (\<lambda>_. x) q" and ?c = "block_no (bufs q ! h)"
  note bok = hq_ok_bufD [OF ok h(1)]
  have dist: "distinct (map block_no (bufs q))" using ok by (simp add: hq_ok_def)
  have no: "block_no (bufs q ! i) \<noteq> b" if "i < length (bufs q)" for i
    using that b by auto
  have "distinct (map block_no (bufs ?q))"
    using dist b h(1) x(1) by (simp add: map_update distinct_list_update)
  moreover have "buf_ok ?q (insert b H) (bufs ?q ! i)" if i: "i < length (bufs q)" for i
    using hq_ok_bufD [OF ok i] no [OF i] x(2) h(1) i by (auto simp: buf_ok_def nth_list_update)
  moreover have "insert b H \<subseteq> block_no ` set (bufs ?q)"
  proof -
    have "c \<in> block_no ` set (bufs ?q)" if "c \<in> H" for c
    proof -
      from that ok obtain i where i: "i < length (bufs q)" "block_no (bufs q ! i) = c"
        by (force simp: hq_ok_def in_set_conv_nth)
      with that h(2) have "i \<noteq> h" by auto
      then have "bufs ?q ! i = bufs q ! i" by simp
      with i show ?thesis by (metis bufs_hset imageI length_list_update nth_mem)
    qed
    moreover have "b \<in> block_no ` set (bufs ?q)"
      using h(1) x(1) by (metis bufs_hset imageI length_list_update nth_list_update_eq nth_mem)
    ultimately show ?thesis by blast
  qed
  ultimately show "hq_ok ?q (insert b H)"
    using ok by (auto simp: hq_ok_def all_set_conv_all_nth)
  then have dist': "distinct (map block_no (bufs ?q))" by (simp add: hq_ok_def)
  show "view ?q = view q"
  proof
    fix c
    consider (b) "c = b" | (old) "c = ?c" "c \<noteq> b" | (cached) i where "i < length (bufs q)" "i \<noteq> h" "c = block_no (bufs q ! i)"
      | (none) "c \<notin> block_no ` set (bufs q)" "c \<noteq> b"
      by (metis (no_types, lifting) image_iff in_set_conv_nth)
    then show "view ?q c = view q c"
    proof cases
      case b
      then show ?thesis
        using find_buf_at [OF dist', of h] h(1) x view_uncached [of b q] \<open>b \<notin> _\<close>
        by (simp add: view_def buf_ok_def)
    next
      case old
      have "c \<notin> block_no ` set (bufs ?q)"
      proof
        assume "c \<in> block_no ` set (bufs ?q)"
        then obtain i where "i < length (bufs q)" "block_no (bufs ?q ! i) = c"
          by (metis bufs_hset image_iff in_set_conv_nth length_list_update)
        with old x(1) h(1) nth_eq_iff_index_eq [OF dist, of i h] show False
          by (auto simp: nth_list_update split: if_splits)
      qed
      with view_uncached [of c ?q] old bok h(2) view_cached [OF ok h(1)] show ?thesis
        by (auto simp: buf_ok_def view_def)
    next
      case cached
      with find_buf_at [OF dist', of i] find_buf_at [OF dist, of i] show ?thesis
        by (simp add: view_def)
    next
      case none
      then have "c \<notin> block_no ` set (bufs ?q)"
        using x(1) set_update_subset_insert [of "bufs q" h x] by auto
      with none show ?thesis
        using find_buf_None [of "bufs q" c] find_buf_None [of "bufs ?q" c] by (simp add: view_def)
    qed
  qed
qed

lemma get_hd_buf_uncached:
  assumes ok: "hq_ok q H" and v: "valid_blk q b" and b: "b \<notin> block_no ` set (bufs q)"
    and H: "card H < MAX_HD_BUFS"
  shows "\<exists>h q'. get_hd_buf b q = Inr (h, q') \<and> hq_ok q' (insert b H) \<and> holds q' h b \<and>
    view q' = view q \<and> valid_blk q' = valid_blk q \<and>
    (\<forall>h' b'. b' \<in> H \<longrightarrow> holds q h' b' \<longrightarrow> holds q' h' b')"
proof -
  let ?d = "sectors q (lba (p_offs q) b)"
  have none: "find_buf (bufs q) b = None" using b by (simp add: find_buf_None)
  have len: "length ?d = BLOCK_SIZE" using ok v by (simp add: hq_ok_def)
  show ?thesis
  proof (cases "length (bufs q) < MAX_HD_BUFS")
    case True
    obtain m where m: "hd_mem q = Some m" using ok by (auto simp: hq_ok_def)
    define x where "x = m\<lparr>block_no := b, is_dirty := False, ref_count := 1, hb_lock := True, hb_data := ?d\<rparr>"
    have x: "block_no x = b" "buf_ok q (insert b H) x" "\<not> is_dirty x"
      using v len by (auto simp: x_def buf_ok_def)
    have "get_hd_buf b q = Inr (length (bufs q), q\<lparr>bufs := bufs q @ [x]\<rparr>)"
      using ok none True m
      by (simp add: get_hd_buf_def hq_ok_def new_hd_buf_def hd_rw_def Let_def hset_def x_def)
    moreover have "holds (q\<lparr>bufs := bufs q @ [x]\<rparr>) h' b'" if "holds q h' b'" for h' b'
      using that by (auto simp: holds_def nth_append)
    moreover have "valid_blk (q\<lparr>bufs := bufs q @ [x]\<rparr>) = valid_blk q"
      by (simp add: valid_blk_def fun_eq_iff)
    moreover have "holds (q\<lparr>bufs := bufs q @ [x]\<rparr>) (length (bufs q)) b" by (simp add: holds_def x_def)
    ultimately show ?thesis using hq_ok_append [OF ok b v True x] by blast
  next
    case False
    have "distinct (map block_no (bufs q))" using ok by (simp add: hq_ok_def)
    from distinct_card [OF this] have "card (block_no ` set (bufs q)) = length (bufs q)" by simp
    then have "\<not> block_no ` set (bufs q) \<subseteq> H"
      using False H card_mono [of H "block_no ` set (bufs q)"] ok
      by (metis finite_imageI finite_set finite_subset hq_ok_def leD le_trans not_less)
    then obtain hdb where "hdb \<in> set (bufs q)" "block_no hdb \<notin> H" by auto
    then have "\<exists>hdb\<in>set (bufs q). ref_count hdb = 0 \<and> \<not> is_dirty hdb \<and> \<not> hb_lock hdb"
      using ok by (auto simp: hq_ok_def buf_ok_def intro!: bexI [of _ hdb])
    from scan_free_free [OF this] obtain h where h: "scan_free (bufs q) = Some h" "h < length (bufs q)"
      "ref_count (bufs q ! h) = 0" by auto
    have hH: "block_no (bufs q ! h) \<notin> H"
      using hq_ok_bufD [OF ok h(2)] h(3) by (auto simp: buf_ok_def)
    define x where "x = (bufs q ! h)\<lparr>hb_lock := True, block_no := b, is_dirty := False, ref_count := 1,
      hb_data := ?d\<rparr>"
    have x: "block_no x = b" "buf_ok q (insert b H) x" "\<not> is_dirty x"
      using v len by (auto simp: x_def buf_ok_def)
    have "get_hd_buf b q = Inr (h, hset h (\<lambda>_. x) q)"
      using ok none False h
      by (simp add: get_hd_buf_def hq_ok_def hd_rw_def Let_def hset_def x_def)
    moreover have "holds (hset h (\<lambda>_. x) q) h' b'" if "b' \<in> H" "holds q h' b'" for h' b'
      using that hH by (cases "h' = h") (auto simp: holds_def)
    moreover have "holds (hset h (\<lambda>_. x) q) h b" using h by (simp add: holds_def x_def)
    ultimately show ?thesis using hq_ok_replace [OF ok b h(2) hH x] by force
  qed
qed

lemma get_hd_buf_law:
  assumes "hq_ok q H" "valid_blk q b" "b \<notin> H" "card H < MAX_HD_BUFS"
  shows "\<exists>h q'. get_hd_buf b q = Inr (h, q') \<and> hq_ok q' (insert b H) \<and> holds q' h b \<and>
    view q' = view q \<and> valid_blk q' = valid_blk q \<and>
    (\<forall>h' b'. b' \<in> H \<longrightarrow> holds q h' b' \<longrightarrow> holds q' h' b')"
  using get_hd_buf_cached [OF assms(1,3)] get_hd_buf_uncached [OF assms(1,2) _ assms(4)]
  by (cases "find_buf (bufs q) b") (auto simp: find_buf_None)

lemma hq_ok_sectors:
  assumes ok: "hq_ok q H" and v: "valid_blk q b" and d: "length d = BLOCK_SIZE"
    and h: "h < length (bufs q)" "block_no (bufs q ! h) = b" "is_dirty (bufs q ! h)"
  shows "hq_ok (q\<lparr>sectors := (sectors q)(lba (p_offs q) b := d)\<rparr>) H"
    and "view (q\<lparr>sectors := (sectors q)(lba (p_offs q) b := d)\<rparr>) = view q"
proof -
  let ?q = "q\<lparr>sectors := (sectors q)(lba (p_offs q) b := d)\<rparr>"
  have v': "valid_blk ?q = valid_blk q" by (simp add: valid_blk_def fun_eq_iff)
  have ne: "lba (p_offs q) c \<noteq> lba (p_offs q) b" if "valid_blk q c" "c \<noteq> b" for c
    using that v lba_inj by (auto simp: valid_blk_def)
  have "buf_ok ?q H (bufs q ! i)" if i: "i < length (bufs q)" for i
  proof (cases "i = h")
    case True
    with hq_ok_bufD [OF ok i] h(3) show ?thesis by (auto simp: buf_ok_def v' split: if_splits)
  next
    case False
    with ok i h have "block_no (bufs q ! i) \<noteq> b"
      using nth_eq_iff_index_eq [of "map block_no (bufs q)" i h] by (simp add: hq_ok_def)
    with hq_ok_bufD [OF ok i] ne show ?thesis by (auto simp: buf_ok_def v')
  qed
  with ok d ne show "hq_ok ?q H"
    by (auto simp: hq_ok_def v' all_set_conv_all_nth)
  show "view ?q = view q"
  proof
    fix c
    show "view ?q c = view q c"
      using ne [of c] h find_buf_None [of "bufs q" c] nth_mem [OF h(1)]
      by (cases "c = b") (auto simp: view_def v' split: option.split)
  qed
qed

lemma clean_update:
  "\<not> is_dirty x \<Longrightarrow> x\<lparr>ref_count := r, is_dirty := False, hb_lock := l\<rparr> = x\<lparr>ref_count := r, hb_lock := l\<rparr>"
  by (cases x) simp

lemma put_hd_buf_law:
  assumes ok: "hq_ok q H" and bH: "b \<in> H" and hold: "holds q h b"
  shows "\<exists>q'. put_hd_buf h q = Inr q' \<and> hq_ok q' (H - {b}) \<and> view q' = view q \<and>
    valid_blk q' = valid_blk q \<and> (\<forall>h' b'. b' \<in> H - {b} \<longrightarrow> holds q h' b' \<longrightarrow> holds q' h' b')"
proof -
  have hb: "h < length (bufs q)" "block_no (bufs q ! h) = b" using hold by (auto simp: holds_def)
  note bok = hq_ok_bufD [OF ok hb(1)]
  have H': "H - {b} - {b} = H - {b}" "H - {b} \<subseteq> insert b H" by auto
  let ?d = "hb_data (bufs q ! h)"
  let ?f = "\<lambda>hdb. hdb\<lparr>ref_count := 0, is_dirty := False, hb_lock := False\<rparr>"
  define s where "s = (if is_dirty (bufs q ! h) then q\<lparr>sectors := (sectors q)(lba (p_offs q) b := ?d)\<rparr> else q)"
  have s: "hq_ok s H" "view s = view q" "bufs s = bufs q" "valid_blk s = valid_blk q" "p_offs s = p_offs q"
    "sectors s (lba (p_offs q) b) = ?d"
    using ok hq_ok_sectors [OF ok _ _ hb, of ?d] bok hb by (auto simp: s_def buf_ok_def valid_blk_def fun_eq_iff)
  have run: "put_hd_buf h q = Inr (hset h ?f s)"
    using ok bok hb bH
    by (auto simp: put_hd_buf_def hq_ok_def buf_ok_def hd_rw_def Let_def hset_def s_def clean_update)
  have "buf_ok s (H - {b}) (?f (bufs s ! h))"
    using bok hb s by (simp add: buf_ok_def)
  note r = hq_ok_hset [where f = ?f, OF s(1) _ H' _ _ this]
  have "(view q)(b := ?d) = view q" using view_cached [OF ok hb(1)] hb(2) by auto
  with r s hb run show ?thesis by (auto simp: holds_def nth_list_update)
qed

lemma hwrite_law:
  assumes ok: "hq_ok q H" and bH: "b \<in> H" and hold: "holds q h b"
    and f: "length (f (view q b)) = BLOCK_SIZE"
  shows "hq_ok (hwrite h f q) H \<and> view (hwrite h f q) = (view q)(b := f (view q b)) \<and>
    valid_blk (hwrite h f q) = valid_blk q \<and>
    (\<forall>h' b'. b' \<in> H \<longrightarrow> holds q h' b' \<longrightarrow> holds (hwrite h f q) h' b')"
proof -
  have hb: "h < length (bufs q)" "block_no (bufs q ! h) = b" using hold by (auto simp: holds_def)
  let ?f = "\<lambda>hdb. hdb\<lparr>hb_data := f (hb_data hdb), is_dirty := True\<rparr>"
  have d: "hb_data (bufs q ! h) = view q b" using view_cached [OF ok hb(1)] hb(2) by simp
  have "buf_ok q H (?f (bufs q ! h))"
    using hq_ok_bufD [OF ok hb(1)] f bH hb d by (simp add: buf_ok_def)
  note r = hq_ok_hset [where f = ?f, OF ok hb(1) _ _ hb(2) _ this]
  with hb d show ?thesis by (auto simp: hwrite_def holds_def nth_list_update)
qed

definition hcontent :: "buf_queue \<Rightarrow> nat \<Rightarrow> u8 list" where
  "hcontent q h = hb_data (bufs q ! h)"

interpretation hdc: block_cache hq_ok valid_blk view "\<lambda>d. length d = BLOCK_SIZE" holds hcontent
  get_hd_buf put_hd_buf hwrite MAX_HD_BUFS
proof
  show "\<exists>h q'. get_hd_buf b q = Inr (h, q') \<and> hq_ok q' (insert b H) \<and> holds q' h b \<and>
      view q' = view q \<and> valid_blk q' = valid_blk q \<and>
      (\<forall>h' b'. b' \<in> H \<longrightarrow> holds q h' b' \<longrightarrow> holds q' h' b')"
    if "hq_ok q H" "valid_blk q b" "b \<notin> H" "card H < MAX_HD_BUFS" for q H b
    using that by (rule get_hd_buf_law)
  show "\<exists>q'. put_hd_buf h q = Inr q' \<and> hq_ok q' (H - {b}) \<and> view q' = view q \<and>
      valid_blk q' = valid_blk q \<and> (\<forall>h' b'. b' \<in> H - {b} \<longrightarrow> holds q h' b' \<longrightarrow> holds q' h' b')"
    if "hq_ok q H" "b \<in> H" "holds q h b" for q H b h
    using that by (rule put_hd_buf_law)
  show "hcontent q h = view q b" if "hq_ok q H" "b \<in> H" "holds q h b" for q H b h
    using that view_cached [of q H h] by (simp add: holds_def hcontent_def)
  show "hq_ok (hwrite h f q) H \<and> view (hwrite h f q) = (view q)(b := f (view q b)) \<and>
      valid_blk (hwrite h f q) = valid_blk q \<and>
      (\<forall>h' b'. b' \<in> H \<longrightarrow> holds q h' b' \<longrightarrow> holds (hwrite h f q) h' b')"
    if "hq_ok q H" "b \<in> H" "holds q h b" "length (f (view q b)) = BLOCK_SIZE" for q H b h f
    using that by (rule hwrite_law)
qed

lemma hd_queue_init_ok:
  assumes "\<forall>b. unat b + unat offs < 2 ^ 28 \<longrightarrow> length (dsk (lba offs b)) = BLOCK_SIZE"
  shows "hq_ok (hd_queue_init offs dsk (Some m)) {}"
  using assms by (simp add: hq_ok_def hd_queue_init_def valid_blk_def)

section \<open>Properties\<close>

text \<open>
  C4. The block cache is coherent. Fetching a block that is not held returns a buffer with the
  current content of the block; after the holder changed the buffer and released it, that
  block has the new content, every other block its old one, the disk sector of the block has
  been written, and the queue is consistent again. This holds whether the block was cached,
  a new buffer was allocated or a free one was reused.
\<close>

theorem cache_coherent:
  assumes "hq_ok q H" and "valid_blk q b" and "b \<notin> H" and "card H < MAX_HD_BUFS"
    and "length (f (view q b)) = BLOCK_SIZE"
  shows "\<exists>h q1 q2. get_hd_buf b q = Inr (h, q1) \<and> hcontent q1 h = view q b \<and>
    put_hd_buf h (hwrite h f q1) = Inr q2 \<and> hq_ok q2 H \<and> view q2 = (view q)(b := f (view q b)) \<and>
    sectors q2 (lba (p_offs q2) b) = f (view q b)"
proof -
  from hdc.fetch_modify_release [where f = f, OF assms] obtain h q1 q2 where
    r: "get_hd_buf b q = Inr (h, q1)" "hcontent q1 h = view q b"
      "put_hd_buf h (hwrite h f q1) = Inr q2" "hq_ok q2 H" "view q2 = (view q)(b := f (view q b))"
      "valid_blk q2 = valid_blk q" by blast
  have "view q2 b = sectors q2 (lba (p_offs q2) b)"
  proof (cases "find_buf (bufs q2) b")
    case None
    with r(6) assms(2) show ?thesis by (simp add: view_def)
  next
    case (Some k)
    from find_buf_SomeD [OF Some] hq_ok_bufD [OF r(4), of k] view_cached [OF r(4), of k] assms(3)
    show ?thesis by (auto simp: buf_ok_def)
  qed
  with r show ?thesis by auto
qed

lemma cache_coherent_witness:
  "\<exists>h q1 q2. get_hd_buf 7 (hd_queue_init 63 (\<lambda>_. replicate 512 1)
        (Some \<lparr>block_no = 5, is_dirty = True, ref_count = 9, hb_lock = True, hb_data = []\<rparr>)) = Inr (h, q1) \<and>
    put_hd_buf h (hwrite h (map (\<lambda>x. x + 1)) q1) = Inr q2 \<and> sectors q2 (lba (p_offs q2) 7) = replicate 512 2"
proof -
  let ?q = "hd_queue_init 63 (\<lambda>_. replicate 512 1)
        (Some \<lparr>block_no = 5, is_dirty = True, ref_count = 9, hb_lock = True, hb_data = []\<rparr>)"
  have v: "valid_blk ?q 7" by (simp add: valid_blk_def hd_queue_init_def)
  have vw: "view ?q 7 = replicate 512 1" using v by (simp add: view_def hd_queue_init_def)
  have ok: "hq_ok ?q {}" by (rule hd_queue_init_ok) (simp add: BLOCK_SIZE_def)
  show ?thesis
    using cache_coherent [OF ok v, of "map (\<lambda>x. x + 1)"] vw by (auto simp: BLOCK_SIZE_def MAX_HD_BUFS_def)
qed

text \<open>
  When the queue is full and every buffer is in use, \<open>get_hd_buf\<close> does not stop with its
  \<open>max_hd_bufs\<close> panic: the search leaves the last buffer of the list in \<open>hdb\<close>, and the buffer of
  a block somebody holds is given to another block.
\<close>

theorem full_queue_steals_buffer:
  assumes "hq_ok q H" and "length (bufs q) = MAX_HD_BUFS" and "H = block_no ` set (bufs q)"
    and "valid_blk q b" and "b \<notin> H"
  shows "\<exists>h q'. get_hd_buf b q = Inr (h, q') \<and> block_no (bufs q ! h) \<in> H \<and>
    ref_count (bufs q ! h) = 1 \<and> block_no (bufs q' ! h) = b"
proof -
  have steal: "\<exists>h. scan_free xs = Some h \<and> h < length xs" if "xs \<noteq> []" for xs
    using that by (induction xs rule: scan_free.induct) (auto split: if_splits)
  then obtain h where h: "scan_free (bufs q) = Some h" "h < length (bufs q)"
    using assms(2) by (metis MAX_HD_BUFS_def list.size(3) zero_neq_numeral)
  have "find_buf (bufs q) b = None" using assms(3,5) by (simp add: find_buf_None)
  with assms h hq_ok_bufD [OF assms(1) h(2)] show ?thesis
    by (auto simp: get_hd_buf_def hq_ok_def buf_ok_def hd_rw_def Let_def split: if_splits)
qed

lemma full_queue_steals_buffer_witness:
  "\<exists>h q'. get_hd_buf 500 ((hd_queue_init 0 (\<lambda>_. replicate 512 0) (Some undefined))
      \<lparr>bufs := map (\<lambda>i. \<lparr>block_no = of_nat i, is_dirty = True, ref_count = 1, hb_lock = True,
         hb_data = replicate 512 0\<rparr>) [0..<200]\<rparr>) = Inr (h, q') \<and> block_no (bufs q' ! h) = 500"
proof -
  let ?q = "(hd_queue_init 0 (\<lambda>_. replicate 512 0) (Some undefined))
      \<lparr>bufs := map (\<lambda>i. \<lparr>block_no = of_nat i, is_dirty = True, ref_count = 1, hb_lock = True,
         hb_data = replicate 512 0\<rparr>) [0..<200]\<rparr>"
  have u: "unat (of_nat i :: u32) = i" if "i < 200" for i
    using that by (simp add: unat_of_nat)
  have inj: "inj_on (\<lambda>i. of_nat i :: u32) {0..<200}"
    by (rule inj_onI) (metis atLeastLessThan_iff u)
  have v: "valid_blk ?q (of_nat i)" if "i < 200" for i
    using u [OF that] that by (simp add: valid_blk_def hd_queue_init_def)
  have nos: "map block_no (bufs ?q) = map of_nat [0..<200]" by simp
  have "distinct (map block_no (bufs ?q))" unfolding nos using inj by (simp add: distinct_map)
  moreover have "buf_ok ?q (block_no ` set (bufs ?q)) x" if x: "x \<in> set (bufs ?q)" for x
  proof -
    from x obtain i where i: "i < 200" "block_no x = of_nat i" "is_dirty x" "ref_count x = 1"
        "hb_lock x" "hb_data x = replicate 512 0" by auto
    from v [OF i(1)] i(2) have "valid_blk ?q (block_no x)" by simp
    with i(3-6) imageI [OF x, of block_no] show ?thesis by (simp add: buf_ok_def BLOCK_SIZE_def)
  qed
  ultimately have ok: "hq_ok ?q (block_no ` set (bufs ?q))"
    by (simp add: hq_ok_def hd_queue_init_def MAX_HD_BUFS_def BLOCK_SIZE_def)
  have b: "500 \<notin> block_no ` set (bufs ?q)"
  proof
    assume "500 \<in> block_no ` set (bufs ?q)"
    then obtain i where "i < 200" "(500 :: u32) = of_nat i" by auto
    then have "unat (500 :: u32) = i" using u [of i] by metis
    with \<open>i < 200\<close> show False by simp
  qed
  have "length (bufs ?q) = MAX_HD_BUFS" by (simp add: MAX_HD_BUFS_def)
  moreover have "valid_blk ?q 500" by (simp add: valid_blk_def hd_queue_init_def)
  ultimately show ?thesis
    using full_queue_steals_buffer [OF ok _ refl _ b] by blast
qed

end
