(* ===== verification/Cofs_Disk.thy ===== *)
theory Cofs_Disk
  imports Hd_Queue Cstring
begin

text \<open>
  The layout of the COFS file system on disk (\<open>cofs.h\<close>, \<open>util/mkcofs.c\<close> writes the same
  structures): little endian integers in 512 byte blocks, the superblock, the bitmap of used
  blocks, inodes of 64 bytes, and the operations of \<open>cofs.c\<close> that work on blocks alone:
  \<open>get_superblock\<close>, \<open>block_zero\<close>, \<open>block_alloc\<close>, \<open>block_free\<close>, \<open>scan_block\<close>.
\<close>

section \<open>Superblock and inodes\<close>

record cofs_superblock =
  magic :: u32
  sb_size :: u32
  num_blocks :: u32
  num_inodes :: u32
  bitmap_start :: u32
  inode_start :: u32
  data_block :: u32

definition get_superblock :: "buf_queue \<Rightarrow> (cofs_superblock \<times> buf_queue) kres" where
  "get_superblock q =
     bnd (get_hd_buf 1 q) (\<lambda>(h, q).
     let d = hcontent q h;
       sb = \<lparr>magic = rd32 d 0, sb_size = rd32 d 4, num_blocks = rd32 d 8, num_inodes = rd32 d 12,
             bitmap_start = rd32 d 16, inode_start = rd32 d 20, data_block = rd32 d 24\<rparr>
     in bnd (put_hd_buf h q) (\<lambda>q. Inr (sb, q)))"

definition NUM_DIRECT :: nat where
  "NUM_DIRECT = 6"

definition NUM_SIND :: nat where
  "NUM_SIND = 128"

definition NUM_DIND :: nat where
  "NUM_DIND = NUM_SIND * NUM_SIND"

definition SIND_IDX :: nat where
  "SIND_IDX = NUM_DIRECT"

definition DIND_IDX :: nat where
  "DIND_IDX = NUM_DIRECT + 1"

definition NUM_INOPB :: nat where
  "NUM_INOPB = 8"

definition BITS_PER_BLOCK :: nat where
  "BITS_PER_BLOCK = BLOCK_SIZE * 8"

definition INO_BLK :: "u32 \<Rightarrow> cofs_superblock \<Rightarrow> u32" where
  "INO_BLK ino sb = of_nat (unat ino div NUM_INOPB) + inode_start sb"

definition BITMAP_BLOCK :: "u32 \<Rightarrow> cofs_superblock \<Rightarrow> u32" where
  "BITMAP_BLOCK block sb = of_nat (unat block div BITS_PER_BLOCK) + bitmap_start sb"

record cofs_inode =
  i_type :: u16
  i_major :: u16
  i_minor :: u16
  i_uid :: u16
  i_gid :: u16
  i_num_links :: u16
  i_atime :: u32
  i_mtime :: u32
  i_ctime :: u32
  i_size :: u32
  i_addrs :: "u32 list"

text \<open>The inode at the start of a byte list, and the 64 bytes of an inode.\<close>

definition read_inode :: "u8 list \<Rightarrow> cofs_inode" where
  "read_inode d =
     \<lparr>i_type = rd16 d 0, i_major = rd16 d 2, i_minor = rd16 d 4, i_uid = rd16 d 6,
      i_gid = rd16 d 8, i_num_links = rd16 d 10, i_atime = rd32 d 12, i_mtime = rd32 d 16,
      i_ctime = rd32 d 20, i_size = rd32 d 24, i_addrs = map (\<lambda>k. rd32 d (28 + 4 * k)) [0..<9]\<rparr>"

definition inode_bytes :: "cofs_inode \<Rightarrow> u8 list" where
  "inode_bytes ino = le16 (i_type ino) @ le16 (i_major ino) @ le16 (i_minor ino) @ le16 (i_uid ino) @
     le16 (i_gid ino) @ le16 (i_num_links ino) @ le32 (i_atime ino) @ le32 (i_mtime ino) @
     le32 (i_ctime ino) @ le32 (i_size ino) @ concat (map le32 (i_addrs ino))"

text \<open>\<open>(cofs_inode_t *) hdb->buf + ino_num % NUM_INOPB\<close>\<close>

definition inode_at :: "u32 \<Rightarrow> u8 list \<Rightarrow> cofs_inode" where
  "inode_at ino d = read_inode (drop (64 * (unat ino mod NUM_INOPB)) d)"

definition set_inode_at :: "u32 \<Rightarrow> cofs_inode \<Rightarrow> u8 list \<Rightarrow> u8 list" where
  "set_inode_at ino i d = splice d (64 * (unat ino mod NUM_INOPB)) (inode_bytes i)"

section \<open>Blocks\<close>

definition block_zero :: "u32 \<Rightarrow> buf_queue \<Rightarrow> buf_queue kres" where
  "block_zero block q =
     bnd (get_hd_buf block q) (\<lambda>(h, q). put_hd_buf h (hwrite h (\<lambda>_. replicate BLOCK_SIZE 0) q))"

definition bit_clear :: "u8 list \<Rightarrow> nat \<Rightarrow> bool" where
  "bit_clear d idx \<longleftrightarrow> (d ! (idx div 8)) AND push_bit (idx mod 8) 1 = 0"

definition mark_bit :: "nat \<Rightarrow> u8 list \<Rightarrow> u8 list" where
  "mark_bit idx d = d[idx div 8 := (d ! (idx div 8)) OR push_bit (idx mod 8) 1]"

definition clear_bit :: "nat \<Rightarrow> u8 list \<Rightarrow> u8 list" where
  "clear_bit idx d = d[idx div 8 := (d ! (idx div 8)) AND NOT (push_bit (idx mod 8) 1)]"

text \<open>The two inner loops of \<open>block_alloc\<close>: the first word that is not full, its first clear bit.\<close>

definition find_clear :: "u8 list \<Rightarrow> nat option" where
  "find_clear d = (case find (\<lambda>scan. rd32 d (4 * scan) \<noteq> 0xFFFFFFFF) [0..<BLOCK_SIZE div 4] of
      None \<Rightarrow> None
    | Some scan \<Rightarrow> find (bit_clear d) [scan * 32..<(scan + 1) * 32])"

text \<open>
  The outer loop, over the numbers \<open>block / BITS_PER_BLOCK\<close> of the bitmap blocks. The counter
  does not wrap: a drive has at most \<open>2 ^ 28\<close> blocks.
\<close>

fun alloc_scan :: "cofs_superblock \<Rightarrow> nat list \<Rightarrow> buf_queue \<Rightarrow> (u32 \<times> buf_queue) kres" where
  "alloc_scan sb [] q = Inl (Panic ''Cannot find any free block'')"
| "alloc_scan sb (k # ks) q =
     bnd (get_hd_buf (of_nat k + bitmap_start sb) q) (\<lambda>(h, q).
     case find_clear (hcontent q h) of
       Some idx \<Rightarrow>
         bnd (put_hd_buf h (hwrite h (mark_bit idx) q)) (\<lambda>q.
         bnd (block_zero (of_nat (k * BITS_PER_BLOCK + idx)) q) (\<lambda>q.
         Inr (of_nat (k * BITS_PER_BLOCK + idx), q)))
     | None \<Rightarrow> bnd (put_hd_buf h q) (\<lambda>q. alloc_scan sb ks q))"

definition block_alloc :: "cofs_superblock \<Rightarrow> buf_queue \<Rightarrow> (u32 \<times> buf_queue) kres" where
  "block_alloc sb q =
     alloc_scan sb [0..<(unat (sb_size sb) + BITS_PER_BLOCK - 1) div BITS_PER_BLOCK] q"

definition block_free :: "cofs_superblock \<Rightarrow> u32 \<Rightarrow> buf_queue \<Rightarrow> buf_queue kres" where
  "block_free sb block q =
     bnd (get_hd_buf (BITMAP_BLOCK block sb) q) (\<lambda>(h, q).
     let idx = unat block mod BITS_PER_BLOCK in
     if bit_clear (hcontent q h) idx then Inl (Panic ''Block allready free'')
     else put_hd_buf h (hwrite h (clear_bit idx) q))"

definition scan_block :: "u32 \<Rightarrow> buf_queue \<Rightarrow> (nat \<times> buf_queue) kres" where
  "scan_block blockno q =
     bnd (get_hd_buf blockno q) (\<lambda>(h, q).
     let i = length (filter (\<lambda>scan. rd32 (hcontent q h) (4 * scan) \<noteq> 0) [0..<BLOCK_SIZE div 4])
     in bnd (put_hd_buf h q) (\<lambda>q. Inr (i, q)))"

section \<open>Inodes survive the disk\<close>

lemma rd_shift:
  "rd16 (xs @ d) (length xs + j) = rd16 d j" "rd32 (xs @ d) (length xs + j) = rd32 d j"
  by (simp_all add: rd16_def rd32_def nth_append add.assoc)

lemma rd_skip [byte_simps]:
  "2 \<le> i \<Longrightarrow> rd16 (le16 w @ d) i = rd16 d (i - 2)" "2 \<le> i \<Longrightarrow> rd32 (le16 w @ d) i = rd32 d (i - 2)"
  "4 \<le> i \<Longrightarrow> rd32 (le32 x @ d) i = rd32 d (i - 4)"
  by (metis rd_shift(1) length_le(1) le_add_diff_inverse, metis rd_shift(2) length_le(1) le_add_diff_inverse,
    metis rd_shift(2) length_le(2) le_add_diff_inverse)

lemma length_concat_le32: "length (concat (map le32 ws)) = 4 * length ws"
  by (induction ws) auto

lemma rd32_concat_le32:
  "k < length ws \<Longrightarrow> rd32 (concat (map le32 ws) @ r) (4 * k) = ws ! k"
proof (induction ws arbitrary: k)
  case (Cons w ws)
  show ?case
  proof (cases k)
    case 0
    then show ?thesis using rd32_le32 [of w] by simp
  next
    case (Suc m)
    with Cons rd_shift(2) [of "le32 w" "concat (map le32 ws) @ r" "4 * m"] show ?thesis by simp
  qed
qed simp

lemma length_inode_bytes: "length (i_addrs ino) = 9 \<Longrightarrow> length (inode_bytes ino) = 64"
  by (simp add: inode_bytes_def length_concat_le32)

lemma read_inode_bytes:
  assumes "length (i_addrs ino) = 9"
  shows "read_inode (inode_bytes ino @ r) = ino"
proof -
  let ?t = "concat (map le32 (i_addrs ino))"
  have addrs: "map (\<lambda>k. rd32 (inode_bytes ino @ r) (28 + 4 * k)) [0..<9] = i_addrs ino"
  proof (rule nth_equalityI)
    fix k assume k: "k < length (map (\<lambda>k. rd32 (inode_bytes ino @ r) (28 + 4 * k)) [0..<9])"
    obtain p where p: "inode_bytes ino @ r = p @ ?t @ r" "length p = 28"
      by (rule that [of "take 28 (inode_bytes ino)"]) (simp_all add: inode_bytes_def)
    from rd_shift(2) [of p "?t @ r" "4 * k"] k assms rd32_concat_le32 [of k "i_addrs ino" r] p(2)
    show "map (\<lambda>k. rd32 (inode_bytes ino @ r) (28 + 4 * k)) [0..<9] ! k = i_addrs ino ! k"
      unfolding p(1) by simp
  qed (use assms in simp)
  show ?thesis
  proof (rule cofs_inode.equality)
    show "i_addrs (read_inode (inode_bytes ino @ r)) = i_addrs ino"
      using addrs by (simp add: read_inode_def)
  qed (simp_all add: read_inode_def inode_bytes_def byte_simps)
qed

lemma inode_slot: "64 * (unat ino mod NUM_INOPB) + 64 \<le> 512"
  by (simp add: NUM_INOPB_def)

lemma length_set_inode_at [simp]:
  "length (i_addrs i) = 9 \<Longrightarrow> length d = 512 \<Longrightarrow> length (set_inode_at ino i d) = 512"
  using inode_slot [of ino] by (simp add: set_inode_at_def length_inode_bytes)

lemma inode_at_same:
  assumes "length (i_addrs i) = 9" "length d = 512"
  shows "inode_at ino (set_inode_at ino i d) = i"
  using assms inode_slot [of ino] read_inode_bytes [of i]
  by (simp add: inode_at_def set_inode_at_def splice_def)

lemma read_inode_cong:
  "(\<And>k. k < 64 \<Longrightarrow> d ! k = e ! k) \<Longrightarrow> read_inode d = read_inode e"
  by (auto simp: read_inode_def rd16_def rd32_def)

lemma inode_at_other:
  assumes "length (i_addrs i) = 9" "length d = 512" "unat ino mod NUM_INOPB \<noteq> unat ino' mod NUM_INOPB"
  shows "inode_at ino' (set_inode_at ino i d) = inode_at ino' d"
  unfolding inode_at_def
proof (rule read_inode_cong)
  fix k :: nat assume "k < 64"
  with assms inode_slot [of ino] inode_slot [of ino']
  show "drop (64 * (unat ino' mod NUM_INOPB)) (set_inode_at ino i d) ! k =
      drop (64 * (unat ino' mod NUM_INOPB)) d ! k"
    by (auto simp: set_inode_at_def nth_splice length_inode_bytes)
qed

section \<open>The bitmap\<close>

lemma bit_clear_bit: "bit_clear d idx \<longleftrightarrow> \<not> bit (d ! (idx div 8)) (idx mod 8)"
  by (simp add: bit_clear_def push_bit_of_1 and_exp_eq_0_iff_not_bit)

lemma divmod8_eq: "i div 8 = j div 8 \<Longrightarrow> i mod 8 = j mod 8 \<Longrightarrow> i = (j :: nat)"
  by (metis div_mult_mod_eq)

lemma length_mark_bit [simp]: "length (mark_bit idx d) = length d"
  and length_clear_bit [simp]: "length (clear_bit idx d) = length d"
  by (simp_all add: mark_bit_def clear_bit_def)

lemma bit_clear_mark:
  "idx div 8 < length d \<Longrightarrow> bit_clear (mark_bit idx d) i \<longleftrightarrow> i \<noteq> idx \<and> bit_clear d i"
  using divmod8_eq [of i idx]
  by (cases "i div 8 = idx div 8") (auto simp: bit_clear_bit mark_bit_def bit_simps)

lemma bit_clear_clear:
  "idx div 8 < length d \<Longrightarrow> bit_clear (clear_bit idx d) i \<longleftrightarrow> i = idx \<or> bit_clear d i"
  using divmod8_eq [of i idx]
  by (cases "i div 8 = idx div 8") (auto simp: bit_clear_bit clear_bit_def bit_simps)

text \<open>A word of the bitmap is full exactly when its 32 bits are set.\<close>

lemma bit_rd32:
  "n < 32 \<Longrightarrow> bit (rd32 d i) n \<longleftrightarrow> bit (d ! (i + n div 8)) (n mod 8)"
proof -
  assume "n < 32"
  then consider "n < 8" | "8 \<le> n" "n < 16" | "16 \<le> n" "n < 24" | "24 \<le> n" "n < 32" by fastforce
  then show ?thesis
  proof cases
    case 1
    then show ?thesis by (simp add: rd32_def bit_simps)
  next
    case 2
    then have d: "n div 8 = 1" by (intro div_nat_eqI) auto
    with minus_div_mult_eq_mod [of n 8] have "n mod 8 = n - 8" by simp
    with 2 d show ?thesis by (auto simp: rd32_def bit_simps dest: bit_imp_le_length)
  next
    case 3
    then have d: "n div 8 = 2" by (intro div_nat_eqI) auto
    with minus_div_mult_eq_mod [of n 8] have "n mod 8 = n - 16" by simp
    with 3 d show ?thesis by (auto simp: rd32_def bit_simps dest: bit_imp_le_length)
  next
    case 4
    then have d: "n div 8 = 3" by (intro div_nat_eqI) auto
    with minus_div_mult_eq_mod [of n 8] have "n mod 8 = n - 24" by simp
    with 4 d show ?thesis by (auto simp: rd32_def bit_simps dest: bit_imp_le_length)
  qed
qed

lemma word_full: "rd32 d (4 * s) = 0xFFFFFFFF \<longleftrightarrow> (\<forall>i\<in>{s * 32..<(s + 1) * 32}. \<not> bit_clear d i)"
proof -
  have full: "(0xFFFFFFFF :: u32) = - 1" by simp
  have "rd32 d (4 * s) = - 1 \<longleftrightarrow> (\<forall>n<32. bit (rd32 d (4 * s)) n)"
    by (auto simp: bit_simps intro!: bit_word_eqI)
  also have "\<dots> \<longleftrightarrow> (\<forall>n<32. \<not> bit_clear d (s * 32 + n))"
  proof -
    have "bit (rd32 d (4 * s)) n \<longleftrightarrow> \<not> bit_clear d (s * 32 + n)" if "n < 32" for n
    proof -
      have e: "s * 32 + n = 4 * s * 8 + n" by simp
      have "(s * 32 + n) div 8 = 4 * s + n div 8" "(s * 32 + n) mod 8 = n mod 8" unfolding e using mod_mult_self3 [of "4 * s" 8 n] by (simp_all del: mod_mult_self3)
      with bit_rd32 [OF that, of d "4 * s"] show ?thesis by (simp add: bit_clear_bit)
    qed
    then show ?thesis by blast
  qed
  also have "\<dots> \<longleftrightarrow> (\<forall>i\<in>{s * 32..<(s + 1) * 32}. \<not> bit_clear d i)"
  proof safe
    fix i assume a: "\<forall>n<32. \<not> bit_clear d (s * 32 + n)" "i \<in> {s * 32..<(s + 1) * 32}" "bit_clear d i"
    then have "i - s * 32 < 32" "s * 32 + (i - s * 32) = i" by auto
    with a show False by metis
  qed simp
  finally show ?thesis unfolding full .
qed

lemma find_clear_Some:
  assumes "find_clear d = Some idx"
  shows "idx < BITS_PER_BLOCK \<and> bit_clear d idx"
proof -
  from assms obtain s where s: "find (\<lambda>scan. rd32 d (4 * scan) \<noteq> 0xFFFFFFFF) [0..<BLOCK_SIZE div 4] = Some s"
      "find (bit_clear d) [s * 32..<(s + 1) * 32] = Some idx"
    unfolding find_clear_def by (auto split: option.splits)
  have "s < BLOCK_SIZE div 4" using s(1) by (auto simp: find_Some_iff)
  moreover have "idx < (s + 1) * 32 \<and> bit_clear d idx" using s(2) by (auto simp: find_Some_iff)
  ultimately show ?thesis by (simp add: BITS_PER_BLOCK_def BLOCK_SIZE_def)
qed

lemma find_clear_None:
  assumes "find_clear d = None"
  shows "\<forall>i<BITS_PER_BLOCK. \<not> bit_clear d i"
proof (cases "find (\<lambda>scan. rd32 d (4 * scan) \<noteq> 0xFFFFFFFF) [0..<BLOCK_SIZE div 4]")
  case None
  show ?thesis
  proof safe
    fix i assume i: "i < BITS_PER_BLOCK" "bit_clear d i"
    then have "i div 32 < BLOCK_SIZE div 4" by (simp add: BITS_PER_BLOCK_def BLOCK_SIZE_def)
    with None have "rd32 d (4 * (i div 32)) = 0xFFFFFFFF" by (auto simp: find_None_iff)
    moreover have "i \<in> {i div 32 * 32..<(i div 32 + 1) * 32}" by auto
    ultimately show False using i word_full by blast
  qed
next
  case (Some s)
  with assms have "\<forall>i\<in>{s * 32..<(s + 1) * 32}. \<not> bit_clear d i"
    by (simp add: find_clear_def find_None_iff)
  moreover have "rd32 d (4 * s) \<noteq> 0xFFFFFFFF" using Some by (auto simp: find_Some_iff)
  ultimately show ?thesis using word_full [of d s] by blast
qed

section \<open>Allocating and freeing blocks\<close>

text \<open>
  \<open>blk_used v sb b\<close>: the bitmap marks block \<open>b\<close> as used. \<open>alloc_ok\<close>: what allocation needs of the
  disk: the bitmap blocks exist and are not held, and a block the bitmap calls free exists,
  is not held and is not part of the bitmap.
\<close>

definition bm_block :: "cofs_superblock \<Rightarrow> nat \<Rightarrow> u32" where
  "bm_block sb b = of_nat (b div BITS_PER_BLOCK) + bitmap_start sb"

definition bm_count :: "cofs_superblock \<Rightarrow> nat" where
  "bm_count sb = (unat (sb_size sb) + BITS_PER_BLOCK - 1) div BITS_PER_BLOCK"

definition blk_used :: "(u32 \<Rightarrow> u8 list) \<Rightarrow> cofs_superblock \<Rightarrow> nat \<Rightarrow> bool" where
  "blk_used v sb b \<longleftrightarrow> \<not> bit_clear (v (bm_block sb b)) (b mod BITS_PER_BLOCK)"

definition alloc_ok :: "cofs_superblock \<Rightarrow> buf_queue \<Rightarrow> u32 set \<Rightarrow> bool" where
  "alloc_ok sb q H \<longleftrightarrow> hq_ok q H \<and> card H < MAX_HD_BUFS \<and>
     (\<forall>b<bm_count sb * BITS_PER_BLOCK. valid_blk q (bm_block sb b) \<and> bm_block sb b \<notin> H \<and>
        (\<not> blk_used (view q) sb b \<longrightarrow> valid_blk q (of_nat b) \<and> of_nat b \<notin> H))"

lemma alloc_okD:
  assumes "alloc_ok sb q H" "b < bm_count sb * BITS_PER_BLOCK"
  shows "valid_blk q (bm_block sb b)" "bm_block sb b \<notin> H"
    "\<not> blk_used (view q) sb b \<Longrightarrow> valid_blk q (of_nat b)" "\<not> blk_used (view q) sb b \<Longrightarrow> of_nat b \<notin> H"
  using assms unfolding alloc_ok_def by blast+

lemma BITS_PER_BLOCK_pos [simp]: "0 < BITS_PER_BLOCK"
  by (simp add: BITS_PER_BLOCK_def BLOCK_SIZE_def)

lemma hq_ok_view_length: "hq_ok q H \<Longrightarrow> valid_blk q b \<Longrightarrow> length (view q b) = BLOCK_SIZE"
  using find_buf_SomeD [of "bufs q" b] hq_ok_bufD [of q H]
  by (auto simp: view_def hq_ok_def buf_ok_def split: option.split)

lemma block_zero_ok:
  assumes "hq_ok q H" "valid_blk q b" "b \<notin> H" "card H < MAX_HD_BUFS"
  shows "\<exists>q'. block_zero b q = Inr q' \<and> hq_ok q' H \<and> view q' = (view q)(b := replicate BLOCK_SIZE 0) \<and>
    valid_blk q' = valid_blk q \<and> (\<forall>h' b'. b' \<in> H \<longrightarrow> holds q h' b' \<longrightarrow> holds q' h' b')"
proof -
  from hdc.fetch_modify_release [where f = "\<lambda>_. replicate BLOCK_SIZE 0", OF assms]
  show ?thesis by (fastforce simp: block_zero_def)
qed

text \<open>What allocating block \<open>b\<close> does to the disk.\<close>

definition allocated :: "cofs_superblock \<Rightarrow> nat \<Rightarrow> (u32 \<Rightarrow> u8 list) \<Rightarrow> u32 \<Rightarrow> u8 list" where
  "allocated sb b v =
     (v(bm_block sb b := mark_bit (b mod BITS_PER_BLOCK) (v (bm_block sb b))))
       (of_nat b := replicate BLOCK_SIZE 0)"

lemma alloc_scan_ok:
  assumes "alloc_ok sb q H" and "\<exists>k\<in>set ks. \<exists>i<BITS_PER_BLOCK. \<not> blk_used (view q) sb (k * BITS_PER_BLOCK + i)"
    and "\<forall>k\<in>set ks. k < bm_count sb"
  shows "\<exists>b q'. b < bm_count sb * BITS_PER_BLOCK \<and> \<not> blk_used (view q) sb b \<and>
    alloc_scan sb ks q = Inr (of_nat b, q') \<and> hq_ok q' H \<and> view q' = allocated sb b (view q) \<and>
    valid_blk q' = valid_blk q \<and> (\<forall>h' b'. b' \<in> H \<longrightarrow> holds q h' b' \<longrightarrow> holds q' h' b')"
  using assms
proof (induction ks arbitrary: q)
  case (Cons k ks)
  have k: "k < bm_count sb" using Cons.prems by simp
  let ?bm = "of_nat k + bitmap_start sb"
  have bmk: "bm_block sb (k * BITS_PER_BLOCK + i) = ?bm" "(k * BITS_PER_BLOCK + i) mod BITS_PER_BLOCK = i"
      "k * BITS_PER_BLOCK + i < bm_count sb * BITS_PER_BLOCK" if "i < BITS_PER_BLOCK" for i
  proof -
    have "(k + 1) * BITS_PER_BLOCK \<le> bm_count sb * BITS_PER_BLOCK" using k by (intro mult_le_mono1) simp
    with that show "k * BITS_PER_BLOCK + i < bm_count sb * BITS_PER_BLOCK" by simp
  qed (use that in \<open>simp_all add: bm_block_def\<close>)
  have pre: "hq_ok q H" "valid_blk q ?bm" "?bm \<notin> H" "card H < MAX_HD_BUFS"
    using Cons.prems(1) alloc_okD(1,2) [OF Cons.prems(1) bmk(3), of 0] bmk(1) [of 0]
    by (simp_all add: alloc_ok_def)
  have len: "length (view q ?bm) = BLOCK_SIZE" using hq_ok_view_length [OF pre(1,2)] .
  show ?case
  proof (cases "find_clear (view q ?bm)")
    case None
    from find_clear_None [OF None] bmk have none: "\<forall>i<BITS_PER_BLOCK. blk_used (view q) sb (k * BITS_PER_BLOCK + i)"
      by (simp add: blk_used_def)
    from hdc.fetch_release [OF pre] obtain h q1 q2 where
      r: "get_hd_buf ?bm q = Inr (h, q1)" "hcontent q1 h = view q ?bm" "put_hd_buf h q1 = Inr q2"
        "hq_ok q2 H" "view q2 = view q" "valid_blk q2 = valid_blk q"
        "\<forall>h' b'. b' \<in> H \<longrightarrow> holds q h' b' \<longrightarrow> holds q2 h' b'" by blast
    have "alloc_ok sb q2 H" using Cons.prems(1) r by (simp add: alloc_ok_def)
    from Cons.IH [OF this] Cons.prems(2,3) none r obtain b q' where
      "b < bm_count sb * BITS_PER_BLOCK" "\<not> blk_used (view q) sb b"
      "alloc_scan sb ks q2 = Inr (of_nat b, q')" "hq_ok q' H" "view q' = allocated sb b (view q)"
      "valid_blk q' = valid_blk q" "\<forall>h' b'. b' \<in> H \<longrightarrow> holds q2 h' b' \<longrightarrow> holds q' h' b'" by auto
    with r None show ?thesis by auto
  next
    case (Some i)
    from find_clear_Some [OF Some] have i: "i < BITS_PER_BLOCK" "bit_clear (view q ?bm) i" by auto
    let ?b = "k * BITS_PER_BLOCK + i"
    note b = bmk [OF i(1)]
    have free: "\<not> blk_used (view q) sb ?b" using i b by (simp add: blk_used_def)
    from hdc.fetch_modify_release [where f = "mark_bit i", OF pre] len obtain h q1 q2 where
      r: "get_hd_buf ?bm q = Inr (h, q1)" "hcontent q1 h = view q ?bm"
        "put_hd_buf h (hwrite h (mark_bit i) q1) = Inr q2"
        "hq_ok q2 H" "view q2 = (view q)(?bm := mark_bit i (view q ?bm))" "valid_blk q2 = valid_blk q"
        "\<forall>h' b'. b' \<in> H \<longrightarrow> holds q h' b' \<longrightarrow> holds q2 h' b'" by auto
    have "valid_blk q2 (of_nat ?b)" "of_nat ?b \<notin> H"
      using alloc_okD(3,4) [OF Cons.prems(1) b(3) free] r(6) by simp_all
    from block_zero_ok [OF r(4) this pre(4)] obtain q3 where
      z: "block_zero (of_nat ?b) q2 = Inr q3" "hq_ok q3 H"
        "view q3 = (view q2)(of_nat ?b := replicate BLOCK_SIZE 0)" "valid_blk q3 = valid_blk q2"
        "\<forall>h' b'. b' \<in> H \<longrightarrow> holds q2 h' b' \<longrightarrow> holds q3 h' b'" by blast
    have "alloc_scan sb (k # ks) q = Inr (of_nat ?b, q3)" using r Some z(1) by simp
    moreover have "view q3 = allocated sb ?b (view q)"
      using z(3) r(5) b by (simp only: allocated_def)
    ultimately show ?thesis
      using b(3) free z r by (intro exI [of _ ?b] exI [of _ q3]) simp
  qed
qed simp

lemma block_alloc_ok:
  assumes "alloc_ok sb q H" and "\<exists>b<bm_count sb * BITS_PER_BLOCK. \<not> blk_used (view q) sb b"
  shows "\<exists>b q'. b < bm_count sb * BITS_PER_BLOCK \<and> \<not> blk_used (view q) sb b \<and>
    block_alloc sb q = Inr (of_nat b, q') \<and> hq_ok q' H \<and> view q' = allocated sb b (view q) \<and>
    valid_blk q' = valid_blk q \<and> (\<forall>h' b'. b' \<in> H \<longrightarrow> holds q h' b' \<longrightarrow> holds q' h' b')"
  unfolding block_alloc_def bm_count_def [symmetric]
proof (rule alloc_scan_ok [OF assms(1)])
  from assms(2) obtain b where b: "b < bm_count sb * BITS_PER_BLOCK" "\<not> blk_used (view q) sb b" by blast
  then have "b div BITS_PER_BLOCK < bm_count sb" by (simp add: less_mult_imp_div_less)
  with b show "\<exists>k\<in>set [0..<bm_count sb]. \<exists>i<BITS_PER_BLOCK. \<not> blk_used (view q) sb (k * BITS_PER_BLOCK + i)"
    by (intro bexI [of _ "b div BITS_PER_BLOCK"] exI [of _ "b mod BITS_PER_BLOCK"]) auto
qed simp

lemma block_free_ok:
  assumes ok: "hq_ok q H" and v: "valid_blk q (BITMAP_BLOCK block sb)" "BITMAP_BLOCK block sb \<notin> H"
    and H: "card H < MAX_HD_BUFS"
  defines "bm \<equiv> BITMAP_BLOCK block sb" and "idx \<equiv> unat block mod BITS_PER_BLOCK"
  shows "bit_clear (view q bm) idx \<Longrightarrow> block_free sb block q = Inl (Panic ''Block allready free'')"
    and "\<not> bit_clear (view q bm) idx \<Longrightarrow> \<exists>q'. block_free sb block q = Inr q' \<and> hq_ok q' H \<and>
      view q' = (view q)(bm := clear_bit idx (view q bm)) \<and> valid_blk q' = valid_blk q \<and>
      (\<forall>h' b'. b' \<in> H \<longrightarrow> holds q h' b' \<longrightarrow> holds q' h' b')"
proof -
  have len: "length (clear_bit idx (view q bm)) = BLOCK_SIZE"
    using hq_ok_view_length [OF ok v(1)] by (simp add: bm_def)
  from hdc.fetch_modify_release [where f = "clear_bit idx", OF ok v H len [unfolded bm_def]] obtain h q1 q2 where
    r: "get_hd_buf bm q = Inr (h, q1)" "hcontent q1 h = view q bm"
      "put_hd_buf h (hwrite h (clear_bit idx) q1) = Inr q2" "hq_ok q2 H"
      "view q2 = (view q)(bm := clear_bit idx (view q bm))" "valid_blk q2 = valid_blk q"
      "\<forall>h' b'. b' \<in> H \<longrightarrow> holds q h' b' \<longrightarrow> holds q2 h' b'" unfolding bm_def by blast
  show "bit_clear (view q bm) idx \<Longrightarrow> block_free sb block q = Inl (Panic ''Block allready free'')"
    using r(1,2) by (simp add: block_free_def Let_def bm_def idx_def)
  show "\<not> bit_clear (view q bm) idx \<Longrightarrow> \<exists>q'. block_free sb block q = Inr q' \<and> hq_ok q' H \<and>
      view q' = (view q)(bm := clear_bit idx (view q bm)) \<and> valid_blk q' = valid_blk q \<and>
      (\<forall>h' b'. b' \<in> H \<longrightarrow> holds q h' b' \<longrightarrow> holds q' h' b')"
    using r by (simp add: block_free_def Let_def bm_def idx_def)
qed

lemma mark_clear: "idx div 8 < length d \<Longrightarrow> bit_clear d idx \<Longrightarrow> clear_bit idx (mark_bit idx d) = d"
proof (rule nth_equalityI)
  fix i assume a: "bit_clear d idx" "i < length (clear_bit idx (mark_bit idx d))"
  show "clear_bit idx (mark_bit idx d) ! i = d ! i"
  proof (cases "i = idx div 8")
    case True
    have "(x OR m) AND NOT m = x" if "x AND m = 0" for x m :: u8
    proof (rule bit_word_eqI)
      fix n
      from arg_cong [OF that, of "\<lambda>w. bit w n"] have "\<not> (bit x n \<and> bit m n)" by (simp add: bit_simps)
      then show "bit ((x OR m) AND NOT m) n = bit x n" if "n < LENGTH(8)"
        using that by (auto simp: bit_simps)
    qed
    with a True show ?thesis by (simp add: clear_bit_def mark_bit_def bit_clear_def)
  qed (simp add: clear_bit_def mark_bit_def)
qed simp

section \<open>Properties\<close>

lemma bm_block_inj:
  assumes "unat (sb_size sb) \<le> 2 ^ 28" "b < bm_count sb * BITS_PER_BLOCK" "c < bm_count sb * BITS_PER_BLOCK"
    and "bm_block sb b = bm_block sb c"
  shows "b div BITS_PER_BLOCK = c div BITS_PER_BLOCK"
proof -
  have "bm_count sb < 4294967296"
    using assms(1) by (simp add: bm_count_def BITS_PER_BLOCK_def BLOCK_SIZE_def)
  then have le: "b div BITS_PER_BLOCK < 4294967296" "c div BITS_PER_BLOCK < 4294967296"
    using less_mult_imp_div_less [OF assms(2)] less_mult_imp_div_less [OF assms(3)] by linarith+
  have "unat (of_nat (b div BITS_PER_BLOCK) :: u32) = unat (of_nat (c div BITS_PER_BLOCK) :: u32)"
    using assms(4) by (simp add: bm_block_def)
  with le show ?thesis by (simp add: unat_of_nat)
qed

definition free_blks :: "cofs_superblock \<Rightarrow> (u32 \<Rightarrow> u8 list) \<Rightarrow> nat set" where
  "free_blks sb v = {b. b < bm_count sb * BITS_PER_BLOCK \<and> \<not> blk_used v sb b}"

text \<open>The effect of \<open>allocated\<close> on a disk whose bitmap marks its own blocks as used.\<close>

lemma blocks_small:
  assumes "unat (sb_size sb) \<le> 2 ^ 28" "b < bm_count sb * BITS_PER_BLOCK"
  shows "b < 2 ^ 28 + BITS_PER_BLOCK" "unat (of_nat b :: u32) = b"
proof -
  have "bm_count sb * BITS_PER_BLOCK \<le> 2 ^ 28 + BITS_PER_BLOCK - 1"
    using assms(1) div_times_less_eq_dividend [of "unat (sb_size sb) + BITS_PER_BLOCK - 1" BITS_PER_BLOCK]
    unfolding bm_count_def by linarith
  with assms(2) show b: "b < 2 ^ 28 + BITS_PER_BLOCK" by linarith
  then show "unat (of_nat b :: u32) = b" by (simp add: unat_of_nat BITS_PER_BLOCK_def BLOCK_SIZE_def)
qed

lemma allocated_used:
  assumes "unat (sb_size sb) \<le> 2 ^ 28" and "\<forall>c<bm_count sb * BITS_PER_BLOCK. blk_used v sb (unat (bm_block sb c))"
    and b: "b \<in> free_blks sb v" and len: "length (v (bm_block sb b)) = BLOCK_SIZE"
  shows "c < bm_count sb * BITS_PER_BLOCK \<Longrightarrow> of_nat b \<noteq> bm_block sb c"
    and "c < bm_count sb * BITS_PER_BLOCK \<Longrightarrow> blk_used (allocated sb b v) sb c \<longleftrightarrow> c = b \<or> blk_used v sb c"
proof -
  let ?lim = "bm_count sb * BITS_PER_BLOCK"
  have bl: "b < ?lim" "\<not> blk_used v sb b" using b by (simp_all add: free_blks_def)
  have nbm: "of_nat b \<noteq> bm_block sb c" if "c < ?lim" for c
    using assms(2) that bl(2) blocks_small(2) [OF assms(1) bl(1)] by metis
  then show "c < ?lim \<Longrightarrow> of_nat b \<noteq> bm_block sb c" .
  show "blk_used (allocated sb b v) sb c \<longleftrightarrow> c = b \<or> blk_used v sb c" if c: "c < ?lim"
  proof (cases "bm_block sb c = bm_block sb b")
    case True
    have "(b mod BITS_PER_BLOCK) div 8 < length (v (bm_block sb b))"
      using len by (simp add: BITS_PER_BLOCK_def BLOCK_SIZE_def less_mult_imp_div_less)
    moreover have "c = b \<longleftrightarrow> c mod BITS_PER_BLOCK = b mod BITS_PER_BLOCK"
      using bm_block_inj [OF assms(1) c bl(1) True] by (metis div_mult_mod_eq)
    ultimately show ?thesis
      using True nbm [OF bl(1)] by (auto simp: blk_used_def allocated_def bit_clear_mark)
  next
    case False
    then have "c \<noteq> b" by auto
    with False nbm [OF c] show ?thesis by (auto simp: blk_used_def allocated_def)
  qed
qed

lemma allocated_other:
  "x \<noteq> of_nat b \<Longrightarrow> x \<noteq> bm_block sb b \<Longrightarrow> allocated sb b v x = v x"
  "allocated sb b v (of_nat b) = replicate BLOCK_SIZE 0"
  by (simp_all add: allocated_def)

text \<open>
  C3. \<open>block_alloc\<close> (\<open>cofs.c\<close>) on a disk whose bitmap has a free block and marks its own blocks
  as used: it returns a block of the bitmap's range that was free, that block is used afterwards and reads as
  zeros, of all blocks in the range exactly that one has become used, and no block outside the bitmap other
  than it changed.
\<close>

theorem block_alloc_fresh:
  assumes "alloc_ok sb q H" and "unat (sb_size sb) \<le> 2 ^ 28"
    and "\<forall>c<bm_count sb * BITS_PER_BLOCK. blk_used (view q) sb (unat (bm_block sb c))"
    and "\<exists>b<bm_count sb * BITS_PER_BLOCK. \<not> blk_used (view q) sb b"
  shows "\<exists>b q'. block_alloc sb q = Inr (of_nat b, q') \<and> b < bm_count sb * BITS_PER_BLOCK \<and> hq_ok q' H \<and> \<not> blk_used (view q) sb b \<and>
    blk_used (view q') sb b \<and> view q' (of_nat b) = replicate BLOCK_SIZE 0 \<and>
    (\<forall>c<bm_count sb * BITS_PER_BLOCK. blk_used (view q') sb c \<longleftrightarrow> c = b \<or> blk_used (view q) sb c) \<and>
    (\<forall>x. x \<noteq> of_nat b \<longrightarrow> (\<forall>c<bm_count sb * BITS_PER_BLOCK. x \<noteq> bm_block sb c) \<longrightarrow> view q' x = view q x)"
proof -
  from block_alloc_ok [OF assms(1,4)] obtain b q' where
    b: "b < bm_count sb * BITS_PER_BLOCK" "\<not> blk_used (view q) sb b" "block_alloc sb q = Inr (of_nat b, q')" "hq_ok q' H"
      "view q' = allocated sb b (view q)" by blast
  have "b \<in> free_blks sb (view q)" using b(1,2) by (simp add: free_blks_def)
  moreover have "length (view q (bm_block sb b)) = BLOCK_SIZE"
    using hq_ok_view_length [OF _ alloc_okD(1) [OF assms(1) b(1)], of H] assms(1) by (simp add: alloc_ok_def)
  ultimately have "\<forall>c<bm_count sb * BITS_PER_BLOCK. blk_used (view q') sb c \<longleftrightarrow> c = b \<or> blk_used (view q) sb c"
    unfolding b(5) using allocated_used(2) [OF assms(2,3)] by blast
  with b show ?thesis by (intro exI [of _ b] exI [of _ q']) (simp add: allocated_other)
qed

text \<open>
  A disk of 4096 blocks with the bitmap in block 2: blocks 0, 1 and 2 are used, the others free.
\<close>

definition sample_sb :: cofs_superblock where
  "sample_sb = \<lparr>magic = COFS_MAGIC, sb_size = 4096, num_blocks = 4000, num_inodes = 64,
     bitmap_start = 2, inode_start = 3, data_block = 11\<rparr>"

definition sample_disk :: "u32 \<Rightarrow> u8 list" where
  "sample_disk b = (if b = 2 then 7 # replicate 511 0 else replicate 512 0)"

definition sample_hdq :: buf_queue where
  "sample_hdq = hd_queue_init 0 sample_disk
     (Some \<lparr>block_no = 0, is_dirty = False, ref_count = 0, hb_lock = False, hb_data = []\<rparr>)"

lemma sample_hq_ok: "hq_ok sample_hdq {}"
  unfolding sample_hdq_def by (rule hd_queue_init_ok) (simp add: sample_disk_def BLOCK_SIZE_def)

lemma sample_valid: "unat b < 2 ^ 28 \<Longrightarrow> valid_blk sample_hdq b"
  by (simp add: sample_hdq_def hd_queue_init_def valid_blk_def)

lemma init_view: "unat b < 2 ^ 28 \<Longrightarrow> view (hd_queue_init 0 dsk mem) b = dsk b"
  using lba_small(1) [of b 0] by (simp add: view_def valid_blk_def hd_queue_init_def)

lemma sample_view: "unat b < 2 ^ 28 \<Longrightarrow> view sample_hdq b = sample_disk b"
  unfolding sample_hdq_def by (rule init_view)

lemma sample_bm: "bm_count sample_sb = 1" "b < BITS_PER_BLOCK \<Longrightarrow> bm_block sample_sb b = 2"
  by (simp_all add: bm_count_def bm_block_def sample_sb_def BITS_PER_BLOCK_def BLOCK_SIZE_def)

lemma sample_used: "b < BITS_PER_BLOCK \<Longrightarrow> blk_used (view sample_hdq) sample_sb b \<longleftrightarrow> b < 3"
proof -
  assume b: "b < BITS_PER_BLOCK"
  have seven: "(7 :: u8) = mask 3" by (simp add: mask_eq_exp_minus_1)
  have "blk_used (view sample_hdq) sample_sb b \<longleftrightarrow> bit ((7 # replicate 511 0 :: u8 list) ! (b div 8)) (b mod 8)"
    using b by (simp add: blk_used_def sample_bm sample_view sample_disk_def bit_clear_bit)
  also have "\<dots> \<longleftrightarrow> b < 3"
  proof (cases "b < 8")
    case True
    then have "b div 8 = 0" "b mod 8 = b" by auto
    with True show ?thesis by (simp add: seven bit_mask_iff)
  next
    case False
    with b obtain m where "b div 8 = Suc m" "m < 511"
      by (cases "b div 8") (auto simp: BITS_PER_BLOCK_def BLOCK_SIZE_def)
    with False show ?thesis by simp
  qed
  finally show ?thesis .
qed

lemma sample_alloc_ok: "alloc_ok sample_sb sample_hdq {}"
proof -
  have "unat (of_nat b :: u32) < 2 ^ 28" if "b < BITS_PER_BLOCK" for b
    using that by (simp add: unat_of_nat BITS_PER_BLOCK_def BLOCK_SIZE_def)
  then show ?thesis
    using sample_hq_ok by (simp add: alloc_ok_def sample_bm sample_valid MAX_HD_BUFS_def)
qed

lemma block_alloc_fresh_witness:
  "\<exists>b q'. block_alloc sample_sb sample_hdq = Inr (of_nat b, q') \<and> \<not> blk_used (view sample_hdq) sample_sb b \<and>
    blk_used (view q') sample_sb b \<and> view q' (of_nat b) = replicate BLOCK_SIZE 0"
proof -
  have "unat (sb_size sample_sb) \<le> 2 ^ 28" by (simp add: sample_sb_def)
  moreover have "\<forall>c<bm_count sample_sb * BITS_PER_BLOCK. blk_used (view sample_hdq) sample_sb (unat (bm_block sample_sb c))"
    by (simp add: sample_bm sample_used BITS_PER_BLOCK_def BLOCK_SIZE_def)
  moreover have "\<exists>b<bm_count sample_sb * BITS_PER_BLOCK. \<not> blk_used (view sample_hdq) sample_sb b"
    by (rule exI [of _ 3]) (simp add: sample_bm sample_used BITS_PER_BLOCK_def BLOCK_SIZE_def)
  ultimately show ?thesis using block_alloc_fresh [OF sample_alloc_ok] by blast
qed

text \<open>
  \<open>block_free\<close> (\<open>cofs.c\<close>): freeing a block the bitmap marks as used clears its bit and touches
  nothing else, so freeing a block right after its bit was set gives back the old bitmap
  block; freeing a block that is already free stops the kernel.
\<close>

theorem block_free_inverse:
  assumes "hq_ok q H" and "valid_blk q (BITMAP_BLOCK block sb)" and "BITMAP_BLOCK block sb \<notin> H"
    and "card H < MAX_HD_BUFS"
  shows "if bit_clear (view q (BITMAP_BLOCK block sb)) (unat block mod BITS_PER_BLOCK)
    then block_free sb block q = Inl (Panic ''Block allready free'')
    else \<exists>q'. block_free sb block q = Inr q' \<and> hq_ok q' H \<and>
      bit_clear (view q' (BITMAP_BLOCK block sb)) (unat block mod BITS_PER_BLOCK) \<and>
      (\<forall>d. view q (BITMAP_BLOCK block sb) = mark_bit (unat block mod BITS_PER_BLOCK) d \<and>
         bit_clear d (unat block mod BITS_PER_BLOCK) \<longrightarrow> view q' = (view q)(BITMAP_BLOCK block sb := d))"
proof -
  have "(unat block mod BITS_PER_BLOCK) div 8 < length (view q (BITMAP_BLOCK block sb))"
    using hq_ok_view_length [OF assms(1,2)]
    by (simp add: BITS_PER_BLOCK_def BLOCK_SIZE_def less_mult_imp_div_less)
  then show ?thesis
    using block_free_ok [OF assms] by (auto simp: bit_clear_clear mark_clear)
qed

lemma block_free_inverse_witness:
  "\<exists>q'. block_free sample_sb 1 sample_hdq = Inr q' \<and> bit_clear (view q' 2) 1"
proof -
  have b: "BITMAP_BLOCK 1 sample_sb = 2" "unat (1 :: u32) mod BITS_PER_BLOCK = 1"
    by (simp_all add: BITMAP_BLOCK_def sample_sb_def BITS_PER_BLOCK_def BLOCK_SIZE_def)
  have "\<not> bit_clear (view sample_hdq 2) 1"
    using sample_used [of 1] sample_bm(2) [of 1]
    by (simp add: blk_used_def BITS_PER_BLOCK_def BLOCK_SIZE_def)
  then show ?thesis
    using block_free_inverse [OF sample_hq_ok, of 1 sample_sb, unfolded b] sample_valid [of 2]
    by (auto simp: MAX_HD_BUFS_def)
qed

end
