(* ===== verification/Fs_Node.thy ===== *)
theory Fs_Node
  imports Prelude
begin

text \<open>
  The in-memory node of the virtual file system (\<open>struct fs_node\<close> of \<open>vfs.h\<close>), shared by the file
  systems, the pipes and the system calls. The operations of a node are function pointers in
  the code; the field \<open>n_ops\<close> says whose functions they are.
\<close>

definition FS_DIRECTORY :: u16 where "FS_DIRECTORY = 0x4000"
definition FS_CHARDEVICE :: u16 where "FS_CHARDEVICE = 0x2000"
definition FS_BLOCKDEVICE :: u16 where "FS_BLOCKDEVICE = 0x6000"
definition FS_PIPE :: u16 where "FS_PIPE = 0x1000"
definition FS_FILE :: u16 where "FS_FILE = 0x8000"
definition FS_IFMT :: u16 where "FS_IFMT = 0xF000"

datatype fs_ops = No_ops | Cofs_ops | Pipe_ops | Dev_ops

record fs_node =
  n_name :: "u8 list"
  n_mask :: u32
  n_major :: u32
  n_minor :: u32
  n_uid :: u32
  n_gid :: u32
  n_type :: u16
  n_flags :: u16
  n_inode :: u32
  n_size :: u32
  n_ref_count :: int
  n_num_links :: u32
  n_atime :: u32
  n_ctime :: u32
  n_mtime :: u32
  n_addrs :: "u32 list option"
  n_lock :: bool
  n_ops :: fs_ops

text \<open>A node after \<open>memset(node, 0, sizeof(*node))\<close>.\<close>

definition zero_node :: fs_node where
  "zero_node = \<lparr>n_name = replicate 256 0, n_mask = 0, n_major = 0, n_minor = 0, n_uid = 0, n_gid = 0,
     n_type = 0, n_flags = 0, n_inode = 0, n_size = 0, n_ref_count = 0, n_num_links = 0,
     n_atime = 0, n_ctime = 0, n_mtime = 0, n_addrs = None, n_lock = False, n_ops = No_ops\<rparr>"

end
