(* ===== verification/Cofs.thy ===== *)
theory Cofs
  imports Cofs_Disk Fs_Node
begin

text \<open>
  The COFS file system in memory (\<open>cofs.c\<close>): the cache of inodes and the operations on them.

  The inode cache is a list that only grows; the position of a node in it stands for the pointer
  \<open>fs_node_t *\<close>, and a pointer that may be NULL is a \<open>nat option\<close>. The operations of a node are
  function pointers the code fills in with the functions of this file; the field \<open>n_ops\<close> records
  which file system they belong to. \<open>node_mem\<close> tells whether \<open>malloc\<close> and \<open>calloc\<close> of node memory
  succeed.
\<close>

section \<open>State\<close>

record cofs =
  hq :: buf_queue
  superb :: cofs_superblock
  cache :: "fs_node list"
  cache_lock :: bool
  node_mem :: bool

definition MAX_CACHED_NODES :: nat where
  "MAX_CACHED_NODES = 100"

definition COFS_ROOT_INUM :: u32 where
  "COFS_ROOT_INUM = 1"

definition nd :: "cofs \<Rightarrow> nat \<Rightarrow> fs_node" where
  "nd c n = cache c ! n"

definition nset :: "nat \<Rightarrow> (fs_node \<Rightarrow> fs_node) \<Rightarrow> cofs \<Rightarrow> cofs" where
  "nset n f c = c\<lparr>cache := (cache c)[n := f (cache c ! n)]\<rparr>"

text \<open>Operations on blocks alone, lifted to the state of the file system.\<close>

definition with_hq :: "(buf_queue \<Rightarrow> ('a \<times> buf_queue) kres) \<Rightarrow> cofs \<Rightarrow> ('a \<times> cofs) kres" where
  "with_hq f c = bnd (f (hq c)) (\<lambda>(r, q). Inr (r, c\<lparr>hq := q\<rparr>))"

definition on_hq :: "(buf_queue \<Rightarrow> buf_queue kres) \<Rightarrow> cofs \<Rightarrow> cofs kres" where
  "on_hq f c = bnd (f (hq c)) (\<lambda>q. Inr (c\<lparr>hq := q\<rparr>))"

section \<open>Nodes\<close>

fun find_node :: "fs_node list \<Rightarrow> u32 \<Rightarrow> nat option" where
  "find_node [] inum = None"
| "find_node (node # rest) inum =
     (if n_inode node = inum then Some 0 else map_option Suc (find_node rest inum))"

text \<open>The loop keeps the last unused node it has seen.\<close>

fun free_node :: "fs_node list \<Rightarrow> nat \<Rightarrow> nat option \<Rightarrow> nat option" where
  "free_node [] i acc = acc"
| "free_node (node # rest) i acc =
     free_node rest (Suc i) (if n_ref_count node = 0 then Some i else acc)"

definition cofs_get_node :: "u32 \<Rightarrow> cofs \<Rightarrow> (nat option \<times> cofs) kres" where
  "cofs_get_node inum c =
     (if cache_lock c then Inl Deadlock
      else case find_node (cache c) inum of
        Some n \<Rightarrow> Inr (Some n, nset n (\<lambda>node. node\<lparr>n_ref_count := n_ref_count node + 1\<rparr>) c)
      | None \<Rightarrow>
          let fresh = zero_node\<lparr>n_inode := inum, n_ref_count := 1, n_ops := Cofs_ops\<rparr> in
          (case free_node (cache c) 0 None of
             Some n \<Rightarrow> Inr (Some n, nset n (\<lambda>_. fresh) c)
           | None \<Rightarrow>
               if length (cache c) \<ge> MAX_CACHED_NODES then Inr (None, c\<lparr>cache_lock := True\<rparr>)
               else if \<not> node_mem c then Inl Fault
               else Inr (Some (length (cache c)), c\<lparr>cache := cache c @ [fresh]\<rparr>)))"

definition cofs_dup :: "nat \<Rightarrow> cofs \<Rightarrow> cofs kres" where
  "cofs_dup n c =
     (if cache_lock c then Inl Deadlock
      else Inr (nset n (\<lambda>node. node\<lparr>n_ref_count := n_ref_count node + 1\<rparr>) c))"

text \<open>The inode a node is written back as, and what a node gets from an inode.\<close>

definition node_inode :: "fs_node \<Rightarrow> u32 list \<Rightarrow> cofs_inode" where
  "node_inode node addrs =
     \<lparr>i_type = ucast ((ucast (n_type node) AND 0xF000) OR n_mask node), i_major = ucast (n_major node),
      i_minor = ucast (n_minor node), i_uid = ucast (n_uid node), i_gid = ucast (n_gid node),
      i_num_links = ucast (n_num_links node), i_atime = n_atime node, i_mtime = n_mtime node,
      i_ctime = n_ctime node, i_size = n_size node, i_addrs = addrs\<rparr>"

definition load_inode :: "cofs_inode \<Rightarrow> fs_node \<Rightarrow> fs_node" where
  "load_inode ino node =
     node\<lparr>n_type := i_type ino AND FS_IFMT, n_mask := ucast (i_type ino AND NOT FS_IFMT),
       n_major := ucast (i_major ino), n_minor := ucast (i_minor ino), n_uid := ucast (i_uid ino),
       n_gid := ucast (i_gid ino), n_num_links := ucast (i_num_links ino), n_atime := i_atime ino,
       n_ctime := i_ctime ino, n_mtime := i_mtime ino, n_size := i_size ino,
       n_addrs := Some (i_addrs ino)\<rparr>"

definition cofs_update_node :: "nat \<Rightarrow> cofs \<Rightarrow> cofs kres" where
  "cofs_update_node n c =
     (case n_addrs (nd c n) of
        None \<Rightarrow> Inl Fault
      | Some addrs \<Rightarrow>
          on_hq (\<lambda>q. bnd (get_hd_buf (INO_BLK (n_inode (nd c n)) (superb c)) q) (\<lambda>(h, q).
            put_hd_buf h (hwrite h (set_inode_at (n_inode (nd c n)) (node_inode (nd c n) addrs)) q))) c)"

definition cofs_lock :: "nat option \<Rightarrow> cofs \<Rightarrow> cofs kres" where
  "cofs_lock p c = (case p of
      None \<Rightarrow> Inl (Panic ''cofs_lock - no node'')
    | Some n \<Rightarrow>
        if n_ref_count (nd c n) \<le> 0 then Inl (Panic ''ref_count for node'')
        else if n_lock (nd c n) then Inl Deadlock
        else let c = nset n (n_lock_update (\<lambda>_. True)) c in
          if n_type (nd c n) = 0 then
            bnd (with_hq (get_hd_buf (INO_BLK (n_inode (nd c n)) (superb c))) c) (\<lambda>(h, c).
            if \<not> node_mem c then Inl Fault
            else let c = nset n (load_inode (inode_at (n_inode (nd c n)) (hcontent (hq c) h))) c in
              bnd (on_hq (put_hd_buf h) c) (\<lambda>c.
              if n_type (nd c n) = 0 then Inl (Panic ''cofs_lock - node type is 0'') else Inr c))
          else Inr c)"

definition cofs_unlock :: "nat option \<Rightarrow> cofs \<Rightarrow> cofs kres" where
  "cofs_unlock p c = (case p of
      None \<Rightarrow> Inl Fault
    | Some n \<Rightarrow>
        if \<not> n_lock (nd c n) \<or> n_ref_count (nd c n) < 0 then Inl (Panic '''')
        else Inr (nset n (n_lock_update (\<lambda>_. False)) c))"

text \<open>\<open>inode_alloc\<close>: the first inode of type 0.\<close>

definition new_inode :: "u16 \<Rightarrow> cofs_inode" where
  "new_inode ty =
     (let t = ty AND 0xF000;
          ino = \<lparr>i_type = t, i_major = 0, i_minor = 0, i_uid = 0, i_gid = 0, i_num_links = 0,
                 i_atime = 0, i_mtime = 0, i_ctime = 0, i_size = 0, i_addrs = replicate 9 0\<rparr>
      in if t AND FS_CHARDEVICE \<noteq> 0 \<or> t AND FS_BLOCKDEVICE \<noteq> 0
         then ino\<lparr>i_major := ucast (major ty), i_minor := ucast (minor ty)\<rparr> else ino)"

fun inode_scan :: "u16 \<Rightarrow> nat list \<Rightarrow> cofs \<Rightarrow> (nat option \<times> cofs) kres" where
  "inode_scan ty [] c = Inl (Panic ''No free inodes'')"
| "inode_scan ty (k # ks) c =
     (let ino = of_nat k in
      bnd (with_hq (get_hd_buf (INO_BLK ino (superb c))) c) (\<lambda>(h, c).
      if i_type (inode_at ino (hcontent (hq c) h)) = 0 then
        bnd (on_hq (\<lambda>q. put_hd_buf h (hwrite h (set_inode_at ino (new_inode ty)) q)) c) (\<lambda>c.
        cofs_get_node ino c)
      else bnd (on_hq (put_hd_buf h) c) (\<lambda>c. inode_scan ty ks c)))"

definition inode_alloc :: "u16 \<Rightarrow> cofs \<Rightarrow> (nat option \<times> cofs) kres" where
  "inode_alloc ty c = inode_scan ty [1..<unat (num_inodes (superb c))] c"

section \<open>File blocks\<close>

text \<open>
  \<open>map_entry q sb blk k\<close>: the entry \<open>k\<close> of the index block \<open>blk\<close>, allocated if it is 0. The index
  block stays held while \<open>block_alloc\<close> runs.
\<close>

definition map_entry :: "cofs_superblock \<Rightarrow> u32 \<Rightarrow> nat \<Rightarrow> buf_queue \<Rightarrow> (u32 \<times> buf_queue) kres" where
  "map_entry sb blk k q =
     bnd (get_hd_buf blk q) (\<lambda>(h, q).
     bnd (if rd32 (hcontent q h) (4 * k) = 0
          then bnd (block_alloc sb q) (\<lambda>(b, q). Inr (hwrite h (\<lambda>d. wr32 d (4 * k) b) q))
          else Inr q) (\<lambda>q.
     let addr = rd32 (hcontent q h) (4 * k) in
     bnd (put_hd_buf h q) (\<lambda>q. Inr (addr, q))))"

text \<open>\<open>if (node->addrs[k] == 0) node->addrs[k] = block_alloc();\<close>\<close>

definition map_direct :: "nat \<Rightarrow> nat \<Rightarrow> cofs \<Rightarrow> (u32 \<times> cofs) kres" where
  "map_direct n k c = (case n_addrs (nd c n) of
      None \<Rightarrow> Inl Fault
    | Some addrs \<Rightarrow>
        bnd (aget addrs k) (\<lambda>a.
        if a = 0 then
          bnd (with_hq (block_alloc (superb c)) c) (\<lambda>(b, c).
          Inr (b, nset n (n_addrs_update (\<lambda>_. Some (addrs[k := b]))) c))
        else Inr (a, c)))"

definition block_map :: "nat \<Rightarrow> nat \<Rightarrow> cofs \<Rightarrow> (u32 \<times> cofs) kres" where
  "block_map n fbn c =
     (if fbn < NUM_DIRECT then map_direct n fbn c
      else if fbn < NUM_DIRECT + NUM_SIND then
        bnd (map_direct n SIND_IDX c) (\<lambda>(blk, c).
        with_hq (map_entry (superb c) blk (fbn - NUM_DIRECT)) c)
      else if fbn < NUM_DIRECT + NUM_SIND + NUM_DIND then
        (let midx = (fbn - NUM_DIRECT - NUM_SIND) div NUM_SIND;
             sidx = (fbn - NUM_DIRECT - NUM_SIND) mod NUM_SIND in
         bnd (map_direct n DIND_IDX c) (\<lambda>(blk, c).
         bnd (with_hq (map_entry (superb c) blk midx) c) (\<lambda>(mblk, c).
         with_hq (map_entry (superb c) mblk sidx) c)))
      else Inl (Panic ''block_map out of range''))"

text \<open>
  One iteration of \<open>cofs_truncate\<close>. The entry of an index block is cleared and the block it named
  freed while the index block is held; an index block with no entry left is freed too.
\<close>

definition free_entry :: "cofs_superblock \<Rightarrow> u32 \<Rightarrow> nat \<Rightarrow> buf_queue \<Rightarrow> buf_queue kres" where
  "free_entry sb blk k q =
     bnd (get_hd_buf blk q) (\<lambda>(h, q).
     let addr = rd32 (hcontent q h) (4 * k) in
     bnd (block_free sb addr (hwrite h (\<lambda>d. wr32 d (4 * k) 0) q)) (\<lambda>q.
     put_hd_buf h q))"

definition set_addr :: "nat \<Rightarrow> nat \<Rightarrow> u32 \<Rightarrow> cofs \<Rightarrow> cofs" where
  "set_addr n k a c = nset n (n_addrs_update (map_option (\<lambda>addrs. addrs[k := a]))) c"

text \<open>\<open>if (scan_block(node->addrs[k]) == 0) { block_free(node->addrs[k]); node->addrs[k] = 0; }\<close>\<close>

definition free_index :: "nat \<Rightarrow> nat \<Rightarrow> u32 \<Rightarrow> cofs \<Rightarrow> cofs kres" where
  "free_index n k blk c =
     bnd (with_hq (scan_block blk) c) (\<lambda>(i, c).
     if i = 0 then bnd (on_hq (block_free (superb c) blk) c) (\<lambda>c. Inr (set_addr n k 0 c)) else Inr c)"

definition truncate_block :: "nat \<Rightarrow> nat \<Rightarrow> cofs \<Rightarrow> cofs kres" where
  "truncate_block n fbn c = (case n_addrs (nd c n) of
      None \<Rightarrow> Inl Fault
    | Some addrs \<Rightarrow>
        if fbn < NUM_DIRECT then
          bnd (aget addrs fbn) (\<lambda>a.
          if a \<noteq> 0 then bnd (on_hq (block_free (superb c) a) c) (\<lambda>c. Inr (set_addr n fbn 0 c))
          else Inr c)
        else if fbn < NUM_DIRECT + NUM_SIND then
          bnd (aget addrs SIND_IDX) (\<lambda>blk.
          bnd (on_hq (free_entry (superb c) blk (fbn - NUM_DIRECT)) c) (\<lambda>c.
          free_index n SIND_IDX blk c))
        else if fbn < NUM_DIRECT + NUM_SIND + NUM_DIND then
          (let midx = (fbn - NUM_DIRECT - NUM_SIND) div NUM_SIND;
               sidx = (fbn - NUM_DIRECT - NUM_SIND) mod NUM_SIND in
           bnd (aget addrs DIND_IDX) (\<lambda>blk.
           bnd (with_hq (\<lambda>q. bnd (get_hd_buf blk q) (\<lambda>(h, q).
             let mblk = rd32 (hcontent q h) (4 * midx) in
             bnd (put_hd_buf h q) (\<lambda>q. Inr (mblk, q)))) c) (\<lambda>(mblk, c).
           bnd (on_hq (free_entry (superb c) mblk sidx) c) (\<lambda>c.
           bnd (with_hq (scan_block mblk) c) (\<lambda>(x, c).
           bnd (if x = 0 then
                  bnd (on_hq (block_free (superb c) mblk) c) (\<lambda>c.
                  on_hq (\<lambda>q. bnd (get_hd_buf blk q) (\<lambda>(h, q).
                    put_hd_buf h (hwrite h (\<lambda>d. wr32 d (4 * midx) 0) q))) c)
                else Inr c) (\<lambda>c.
           free_index n DIND_IDX blk c))))))
        else Inr c)"

fun truncate_loop :: "nat \<Rightarrow> nat list \<Rightarrow> cofs \<Rightarrow> cofs kres" where
  "truncate_loop n [] c = Inr c"
| "truncate_loop n (fbn # fbns) c = bnd (truncate_block n fbn c) (\<lambda>c. truncate_loop n fbns c)"

definition cofs_truncate :: "nat \<Rightarrow> u32 \<Rightarrow> cofs \<Rightarrow> (u32 \<times> cofs) kres" where
  "cofs_truncate n len c =
     kassert (len \<le> n_size (nd c n)) ''length <= node->size''
     (kassert (unat len mod BLOCK_SIZE = 0) ''length % BLOCK_SIZE == 0''
      (bnd (truncate_loop n [unat len div BLOCK_SIZE..<unat (n_size (nd c n)) div BLOCK_SIZE + 1] c) (\<lambda>c.
       bnd (cofs_update_node n (nset n (n_size_update (\<lambda>_. len)) c)) (\<lambda>c.
       Inr (len, c)))))"

definition cofs_put_node :: "nat \<Rightarrow> cofs \<Rightarrow> cofs kres" where
  "cofs_put_node n c =
     (if cache_lock c then Inl Deadlock
      else if n_ref_count (nd c n) = 0 then Inl (Panic ''already put'')
      else
        bnd (if n_ref_count (nd c n) = 1 \<and> n_type (nd c n) > 0 \<and> n_num_links (nd c n) = 0
             then bnd (cofs_truncate n 0 c) (\<lambda>(_, c).
               cofs_update_node n (nset n (n_type_update (\<lambda>_. 0)) c))
             else Inr c) (\<lambda>c.
        Inr (if n_inode (nd c n) = 1 \<and> \<not> n_ref_count (nd c n) > 1 then c
             else nset n (\<lambda>node. node\<lparr>n_ref_count := n_ref_count node - 1\<rparr>) c)))"

section \<open>Reading and writing\<close>

text \<open>
  \<open>cofs_read\<close>: \<open>left\<close> is \<open>size - total\<close>, the result is what has been copied to the buffer. The
  offset is a 32 bit number and wraps as in the code.
\<close>

function read_loop :: "nat \<Rightarrow> u32 \<Rightarrow> nat \<Rightarrow> cofs \<Rightarrow> (u8 list \<times> cofs) kres" where
  "read_loop n offs left c =
     (if left > 0 then
        bnd (block_map n (unat offs div BLOCK_SIZE) c) (\<lambda>(b, c).
        bnd (with_hq (get_hd_buf b) c) (\<lambda>(h, c).
        let num_bytes = min left (BLOCK_SIZE - unat offs mod BLOCK_SIZE);
            bytes = take num_bytes (drop (unat offs mod BLOCK_SIZE) (hcontent (hq c) h)) in
        bnd (on_hq (put_hd_buf h) c) (\<lambda>c.
        bnd (read_loop n (offs + of_nat num_bytes) (left - num_bytes) c) (\<lambda>(rest, c).
        Inr (bytes @ rest, c)))))
      else Inr ([], c))"
  by pat_completeness auto
termination
  by (relation "measure (\<lambda>(n, offs, left, c). left)") (auto simp: BLOCK_SIZE_def)

declare read_loop.simps [simp del]

definition cofs_read :: "nat \<Rightarrow> u32 \<Rightarrow> u32 \<Rightarrow> cofs \<Rightarrow> (u8 list \<times> cofs) kres" where
  "cofs_read n offs sz c =
     (if offs > n_size (nd c n) then Inr ([], c)
      else read_loop n offs (unat (if offs + sz > n_size (nd c n) then n_size (nd c n) - offs else sz)) c)"

text \<open>
  \<open>cofs_write\<close>: the bound is the macro \<open>MAX_FILE_SIZE * BLOCK_SIZE\<close> as it expands, without
  parentheses: \<open>6 + 128 + 128 * 128 * 512\<close>.
\<close>

definition MAX_WRITE :: nat where
  "MAX_WRITE = NUM_DIRECT + NUM_SIND + NUM_DIND * BLOCK_SIZE"

function write_loop :: "nat \<Rightarrow> u32 \<Rightarrow> u8 list \<Rightarrow> cofs \<Rightarrow> (u32 \<times> cofs) kres" where
  "write_loop n offs buffer c =
     (if buffer \<noteq> [] then
        bnd (block_map n (unat offs div BLOCK_SIZE) c) (\<lambda>(b, c).
        bnd (with_hq (get_hd_buf b) c) (\<lambda>(h, c).
        let num_bytes = min (length buffer) (BLOCK_SIZE - unat offs mod BLOCK_SIZE) in
        bnd (on_hq (\<lambda>q. put_hd_buf h (hwrite h (\<lambda>d. splice d (unat offs mod BLOCK_SIZE) (take num_bytes buffer)) q)) c) (\<lambda>c.
        write_loop n (offs + of_nat num_bytes) (drop num_bytes buffer) c)))
      else Inr (offs, c))"
  by pat_completeness auto
termination
  by (relation "measure (\<lambda>(n, offs, buffer, c). length buffer)") (auto simp: BLOCK_SIZE_def)

declare write_loop.simps [simp del]

text \<open>\<open>buffer\<close> holds at least \<open>size\<close> bytes; the loop reads the first \<open>size\<close> of them.\<close>

definition cofs_write :: "nat \<Rightarrow> u32 \<Rightarrow> u32 \<Rightarrow> u8 list \<Rightarrow> cofs \<Rightarrow> (u32 \<times> cofs) kres" where
  "cofs_write n offs sz buffer c =
     (if offs > n_size (nd c n) then Inr (0, c)
      else if unat (offs + sz) > MAX_WRITE then Inr (0, c)
      else if length buffer < unat sz then Inl Fault
      else
        bnd (write_loop n offs (take (unat sz) buffer) c) (\<lambda>(offs, c).
        bnd (if sz > 0 \<and> offs > n_size (nd c n)
             then cofs_update_node n (nset n (n_size_update (\<lambda>_. offs)) c) else Inr c) (\<lambda>c.
        Inr (sz, c))))"

definition cofs_open :: "nat \<Rightarrow> u32 \<Rightarrow> cofs \<Rightarrow> cofs kres" where
  "cofs_open n flags c = cofs_lock (Some n) c"

definition cofs_close :: "nat \<Rightarrow> cofs \<Rightarrow> cofs kres" where
  "cofs_close n c =
     bnd (if n_lock (nd c n) then cofs_unlock (Some n) c else Inr c) (\<lambda>c. cofs_put_node n c)"

section \<open>The blocks of a file\<close>

text \<open>
  Where the bytes of a file are: \<open>index_path\<close> lists the index blocks that lead to file block
  \<open>fbn\<close>, \<open>file_addr\<close> is its disk block, \<open>file_byte\<close> the byte at a position of the file.
\<close>

definition ind_entry :: "(u32 \<Rightarrow> u8 list) \<Rightarrow> u32 \<Rightarrow> nat \<Rightarrow> u32" where
  "ind_entry v blk k = rd32 (v blk) (4 * k)"

definition mid_idx :: "nat \<Rightarrow> nat" where
  "mid_idx fbn = (fbn - NUM_DIRECT - NUM_SIND) div NUM_SIND"

definition sub_idx :: "nat \<Rightarrow> nat" where
  "sub_idx fbn = (fbn - NUM_DIRECT - NUM_SIND) mod NUM_SIND"

definition index_path :: "(u32 \<Rightarrow> u8 list) \<Rightarrow> u32 list \<Rightarrow> nat \<Rightarrow> u32 list" where
  "index_path v addrs fbn =
     (if fbn < NUM_DIRECT then []
      else if fbn < NUM_DIRECT + NUM_SIND then [addrs ! SIND_IDX]
      else [addrs ! DIND_IDX, ind_entry v (addrs ! DIND_IDX) (mid_idx fbn)])"

definition file_addr :: "(u32 \<Rightarrow> u8 list) \<Rightarrow> u32 list \<Rightarrow> nat \<Rightarrow> u32" where
  "file_addr v addrs fbn =
     (if fbn < NUM_DIRECT then addrs ! fbn
      else if fbn < NUM_DIRECT + NUM_SIND then ind_entry v (addrs ! SIND_IDX) (fbn - NUM_DIRECT)
      else ind_entry v (ind_entry v (addrs ! DIND_IDX) (mid_idx fbn)) (sub_idx fbn))"

definition file_byte :: "(u32 \<Rightarrow> u8 list) \<Rightarrow> u32 list \<Rightarrow> nat \<Rightarrow> u8" where
  "file_byte v addrs p = v (file_addr v addrs (p div BLOCK_SIZE)) ! (p mod BLOCK_SIZE)"

text \<open>\<open>mapped\<close>: every block on the way to \<open>fbn\<close> is allocated and exists on the disk.\<close>

definition mapped :: "buf_queue \<Rightarrow> u32 list \<Rightarrow> nat \<Rightarrow> bool" where
  "mapped q addrs fbn \<longleftrightarrow> fbn < NUM_DIRECT + NUM_SIND + NUM_DIND \<and>
     (\<forall>b\<in>set (file_addr (view q) addrs fbn # index_path (view q) addrs fbn). b \<noteq> 0 \<and> valid_blk q b)"

text \<open>\<open>same_disk q q'\<close>: the cache may have moved, what is on the disk has not.\<close>

definition same_disk :: "buf_queue \<Rightarrow> buf_queue \<Rightarrow> bool" where
  "same_disk q q' \<longleftrightarrow> hq_ok q' {} \<and> view q' = view q \<and> valid_blk q' = valid_blk q"

definition file_ok :: "cofs \<Rightarrow> nat \<Rightarrow> u32 list \<Rightarrow> bool" where
  "file_ok c n addrs \<longleftrightarrow> n < length (cache c) \<and> n_addrs (nd c n) = Some addrs \<and> length addrs = 9 \<and>
     hq_ok (hq c) {}"

lemmas idx_defs = NUM_DIRECT_def NUM_SIND_def NUM_DIND_def SIND_IDX_def DIND_IDX_def

lemma same_disk_trans: "same_disk q q1 \<Longrightarrow> same_disk q1 q2 \<Longrightarrow> same_disk q q2"
  by (simp add: same_disk_def)

lemma mapped_same_disk: "same_disk q q' \<Longrightarrow> mapped q' = mapped q"
  by (intro ext) (simp add: mapped_def same_disk_def)

lemma file_ok_hq: "file_ok c n addrs \<Longrightarrow> hq_ok q {} \<Longrightarrow> file_ok (c\<lparr>hq := q\<rparr>) n addrs"
  by (simp add: file_ok_def nd_def)

lemma fetch_release_empty:
  assumes "hq_ok q {}" "valid_blk q b"
  shows "\<exists>h q1 q2. get_hd_buf b q = Inr (h, q1) \<and> hcontent q1 h = view q b \<and> put_hd_buf h q1 = Inr q2 \<and>
    same_disk q q2"
  using hdc.fetch_release [OF assms, simplified] by (force simp: same_disk_def MAX_HD_BUFS_def)

lemma map_entry_mapped:
  assumes "hq_ok q {}" "valid_blk q blk" "ind_entry (view q) blk k \<noteq> 0"
  shows "\<exists>q'. map_entry sb blk k q = Inr (ind_entry (view q) blk k, q') \<and> same_disk q q'"
  using fetch_release_empty [OF assms(1,2)] assms(3)
  by (fastforce simp: map_entry_def ind_entry_def Let_def)

lemma block_map_mapped:
  assumes f: "file_ok c n addrs" and m: "mapped (hq c) addrs fbn"
  shows "\<exists>q'. block_map n fbn c = Inr (file_addr (view (hq c)) addrs fbn, c\<lparr>hq := q'\<rparr>) \<and>
    same_disk (hq c) q'"
proof -
  let ?v = "view (hq c)" and ?sb = "superb c"
  have dir: "map_direct n k c = Inr (addrs ! k, c)" if "k < 9" "addrs ! k \<noteq> 0" for k
    using f that by (simp add: map_direct_def file_ok_def)
  have ok: "hq_ok (hq c) {}" using f by (simp add: file_ok_def)
  have self: "c = c\<lparr>hq := hq c\<rparr>" by simp
  consider (d) "fbn < NUM_DIRECT" | (s) "NUM_DIRECT \<le> fbn" "fbn < NUM_DIRECT + NUM_SIND"
    | (dd) "NUM_DIRECT + NUM_SIND \<le> fbn" "fbn < NUM_DIRECT + NUM_SIND + NUM_DIND"
    using m by (fastforce simp: mapped_def)
  then show ?thesis
  proof cases
    case d
    with m have "addrs ! fbn \<noteq> 0" by (simp add: mapped_def file_addr_def)
    with dir [of fbn] d ok self show ?thesis
      by (auto simp: block_map_def file_addr_def NUM_DIRECT_def same_disk_def intro: exI [of _ "hq c"])
  next
    case s
    with m have a: "addrs ! SIND_IDX \<noteq> 0" "valid_blk (hq c) (addrs ! SIND_IDX)"
        "ind_entry ?v (addrs ! SIND_IDX) (fbn - NUM_DIRECT) \<noteq> 0"
      by (auto simp: mapped_def file_addr_def index_path_def)
    from map_entry_mapped [OF ok a(2,3), of ?sb] s dir [OF _ a(1)] show ?thesis
      by (auto simp: block_map_def with_hq_def file_addr_def idx_defs)
  next
    case dd
    let ?d = "addrs ! DIND_IDX" and ?e = "ind_entry ?v (addrs ! DIND_IDX) (mid_idx fbn)"
    from dd m have a: "?d \<noteq> 0" "valid_blk (hq c) ?d" "?e \<noteq> 0" "valid_blk (hq c) ?e"
        "ind_entry ?v ?e (sub_idx fbn) \<noteq> 0"
      by (auto simp: mapped_def file_addr_def index_path_def)
    from map_entry_mapped [OF ok a(2,3), of ?sb] obtain q1 where
      q1: "map_entry ?sb ?d (mid_idx fbn) (hq c) = Inr (?e, q1)" "same_disk (hq c) q1" by blast
    from map_entry_mapped [of q1 ?e "sub_idx fbn" ?sb] q1(2) a obtain q2 where
      q2: "map_entry ?sb ?e (sub_idx fbn) q1 = Inr (ind_entry ?v ?e (sub_idx fbn), q2)" "same_disk q1 q2"
      by (auto simp: same_disk_def)
    from q1 q2 dd dir [OF _ a(1)] same_disk_trans [OF q1(2) q2(2)] show ?thesis
      by (auto simp: block_map_def with_hq_def file_addr_def Let_def mid_idx_def sub_idx_def idx_defs)
  qed
qed

text \<open>Bytes of one block, as bytes of the file.\<close>

lemma file_bytes_block:
  assumes "length (v (file_addr v addrs (p div BLOCK_SIZE))) = BLOCK_SIZE" and "p mod BLOCK_SIZE + k \<le> BLOCK_SIZE"
  shows "take k (drop (p mod BLOCK_SIZE) (v (file_addr v addrs (p div BLOCK_SIZE)))) =
    map (file_byte v addrs) [p..<p + k]"
proof (rule nth_equalityI)
  fix i assume "i < length (take k (drop (p mod BLOCK_SIZE) (v (file_addr v addrs (p div BLOCK_SIZE)))))"
  then have i: "i < k" by simp
  then have "p mod BLOCK_SIZE + i < BLOCK_SIZE" using assms(2) by simp
  then have "(p + i) div BLOCK_SIZE = p div BLOCK_SIZE" "(p + i) mod BLOCK_SIZE = p mod BLOCK_SIZE + i"
    by (rule div_mod_add_small)+
  with i assms show "take k (drop (p mod BLOCK_SIZE) (v (file_addr v addrs (p div BLOCK_SIZE)))) ! i =
      map (file_byte v addrs) [p..<p + k] ! i"
    by (simp add: file_byte_def)
qed (use assms in simp)

lemma read_loop_mapped:
  assumes "file_ok c n addrs" and "unat offs + left < 2 ^ 32"
    and "\<forall>p. unat offs \<le> p \<and> p < unat offs + left \<longrightarrow> mapped (hq c) addrs (p div BLOCK_SIZE)"
  shows "\<exists>q'. read_loop n offs left c =
      Inr (map (file_byte (view (hq c)) addrs) [unat offs..<unat offs + left], c\<lparr>hq := q'\<rparr>) \<and>
    same_disk (hq c) q'"
  using assms
proof (induction left arbitrary: offs c rule: less_induct)
  case (less left)
  let ?v = "view (hq c)" and ?p = "unat offs"
  show ?case
  proof (cases "left > 0")
    case False
    with less.prems show ?thesis
      by (intro exI [of _ "hq c"]) (simp add: read_loop.simps same_disk_def file_ok_def)
  next
    case True
    let ?k = "min left (BLOCK_SIZE - ?p mod BLOCK_SIZE)" and ?b = "file_addr ?v addrs (?p div BLOCK_SIZE)"
    have m: "mapped (hq c) addrs (?p div BLOCK_SIZE)" using less.prems(3) True by simp
    have k: "0 < ?k" "?k \<le> left" "?p mod BLOCK_SIZE + ?k \<le> BLOCK_SIZE"
      using True by (auto simp: BLOCK_SIZE_def min_def)
    from block_map_mapped [OF less.prems(1) m] obtain q1 where
      q1: "block_map n (?p div BLOCK_SIZE) c = Inr (?b, c\<lparr>hq := q1\<rparr>)" "same_disk (hq c) q1" by blast
    have vb: "valid_blk (hq c) ?b" using m by (simp add: mapped_def)
    from fetch_release_empty [of q1 ?b] q1(2) vb obtain h q2 q3 where
      q3: "get_hd_buf ?b q1 = Inr (h, q2)" "hcontent q2 h = ?v ?b" "put_hd_buf h q2 = Inr q3" "same_disk q1 q3"
      by (auto simp: same_disk_def)
    have sd: "same_disk (hq c) q3" using same_disk_trans [OF q1(2) q3(4)] .
    have p': "unat (offs + of_nat ?k) = ?p + ?k"
      using less.prems(2) k by (simp add: unat_word_ariths unat_of_nat)
    have len: "length (?v ?b) = BLOCK_SIZE"
      using hq_ok_view_length [OF _ vb] less.prems(1) by (auto simp: file_ok_def)
    have file_ok3: "file_ok (c\<lparr>hq := q3\<rparr>) n addrs"
      using file_ok_hq [OF less.prems(1)] sd by (simp add: same_disk_def)
    have map3: "\<forall>p. unat (offs + of_nat ?k) \<le> p \<and> p < unat (offs + of_nat ?k) + (left - ?k) \<longrightarrow>
        mapped (hq (c\<lparr>hq := q3\<rparr>)) addrs (p div BLOCK_SIZE)"
      using less.prems(3) p' k mapped_same_disk [OF sd] by simp
    have IH: "\<exists>q'. read_loop n (offs + of_nat ?k) (left - ?k) (c\<lparr>hq := q3\<rparr>) =
        Inr (map (file_byte ?v addrs) [?p + ?k..<?p + left], c\<lparr>hq := q'\<rparr>) \<and> same_disk q3 q'"
      using less.IH [OF _ file_ok3 _ map3] less.prems(2) k p' sd by (simp add: same_disk_def)
    then obtain q' where q': "read_loop n (offs + of_nat ?k) (left - ?k) (c\<lparr>hq := q3\<rparr>) =
        Inr (map (file_byte ?v addrs) [?p + ?k..<?p + left], c\<lparr>hq := q'\<rparr>)" "same_disk q3 q'" by blast
    have "take ?k (drop (?p mod BLOCK_SIZE) (?v ?b)) @ map (file_byte ?v addrs) [?p + ?k..<?p + left] =
        map (file_byte ?v addrs) [?p..<?p + left]"
      using file_bytes_block [of ?v addrs, OF len k(3)] k(2) upt_add_eq_append [of ?p "?p + ?k" "left - ?k"]
      by (simp flip: map_append)
    with q1 q3 q' True same_disk_trans [OF sd q'(2)] show ?thesis
      by (intro exI [of _ q']) (simp add: read_loop.simps [of n offs left c] with_hq_def on_hq_def Let_def)
  qed
qed

text \<open>
  \<open>fsep v addrs F\<close>: the file blocks \<open>F\<close> have different disk blocks, none of which is an index block
  of the file.
\<close>

definition fsep :: "(u32 \<Rightarrow> u8 list) \<Rightarrow> u32 list \<Rightarrow> nat set \<Rightarrow> bool" where
  "fsep v addrs F \<longleftrightarrow> inj_on (file_addr v addrs) F \<and>
     (\<forall>f\<in>F. \<forall>g\<in>F. file_addr v addrs f \<notin> set (index_path v addrs g))"

lemma path_upd:
  assumes "b \<notin> set (index_path v addrs g)"
  shows "file_addr (v(b := d)) addrs g = file_addr v addrs g"
    and "index_path (v(b := d)) addrs g = index_path v addrs g"
  using assms by (auto simp: file_addr_def index_path_def ind_entry_def split: if_splits)

lemma fsep_upd:
  fixes d :: "u8 list"
  assumes "fsep v addrs F" "f \<in> F"
  defines "v' \<equiv> v(file_addr v addrs f := d)"
  shows "g \<in> F \<Longrightarrow> file_addr v' addrs g = file_addr v addrs g"
    and "g \<in> F \<Longrightarrow> index_path v' addrs g = index_path v addrs g"
    and "fsep v' addrs F"
    and "p div BLOCK_SIZE \<in> F \<Longrightarrow> file_byte v' addrs p =
      (if p div BLOCK_SIZE = f then d ! (p mod BLOCK_SIZE) else file_byte v addrs p)"
proof -
  have u: "file_addr v' addrs g = file_addr v addrs g" "index_path v' addrs g = index_path v addrs g"
    if "g \<in> F" for g
    using that assms(1,2) path_upd [of "file_addr v addrs f" v addrs g d] by (auto simp: fsep_def v'_def)
  show "g \<in> F \<Longrightarrow> file_addr v' addrs g = file_addr v addrs g"
    "g \<in> F \<Longrightarrow> index_path v' addrs g = index_path v addrs g" by (rule u, assumption)+
  show "fsep v' addrs F" using assms(1) u by (simp add: fsep_def inj_on_def)
  show "p div BLOCK_SIZE \<in> F \<Longrightarrow> file_byte v' addrs p =
      (if p div BLOCK_SIZE = f then d ! (p mod BLOCK_SIZE) else file_byte v addrs p)"
    using u(1) [of "p div BLOCK_SIZE"] assms(1,2)
    by (auto simp: file_byte_def v'_def fsep_def dest: inj_onD)
qed

lemma fetch_modify_release_empty:
  assumes "hq_ok q {}" "valid_blk q b" "length (f (view q b)) = BLOCK_SIZE"
  shows "\<exists>h q1 q2. get_hd_buf b q = Inr (h, q1) \<and> hcontent q1 h = view q b \<and>
    put_hd_buf h (hwrite h f q1) = Inr q2 \<and> hq_ok q2 {} \<and> view q2 = (view q)(b := f (view q b)) \<and>
    valid_blk q2 = valid_blk q"
  using hdc.fetch_modify_release [where f = f, OF assms(1,2) _ _ assms(3)]
  by (force simp: MAX_HD_BUFS_def)

lemma block_neq:
  assumes "p div BLOCK_SIZE = q div BLOCK_SIZE" "q mod BLOCK_SIZE + k \<le> BLOCK_SIZE"
  shows "q mod BLOCK_SIZE \<le> p mod BLOCK_SIZE \<and> p mod BLOCK_SIZE < q mod BLOCK_SIZE + k \<longleftrightarrow> q \<le> p \<and> p < q + k"
    and "q \<le> p \<Longrightarrow> p mod BLOCK_SIZE - q mod BLOCK_SIZE = p - q"
proof -
  have "p = BLOCK_SIZE * (q div BLOCK_SIZE) + p mod BLOCK_SIZE" "q = BLOCK_SIZE * (q div BLOCK_SIZE) + q mod BLOCK_SIZE"
    using assms(1) by (metis mult_div_mod_eq)+
  then show "q mod BLOCK_SIZE \<le> p mod BLOCK_SIZE \<and> p mod BLOCK_SIZE < q mod BLOCK_SIZE + k \<longleftrightarrow> q \<le> p \<and> p < q + k"
    "q \<le> p \<Longrightarrow> p mod BLOCK_SIZE - q mod BLOCK_SIZE = p - q" by linarith+
qed

lemma write_loop_mapped:
  assumes "file_ok c n addrs" and "unat offs + length buf < 2 ^ 32"
    and "\<forall>f\<in>F. mapped (hq c) addrs f" and "fsep (view (hq c)) addrs F"
    and "\<forall>p. unat offs \<le> p \<and> p < unat offs + length buf \<longrightarrow> p div BLOCK_SIZE \<in> F"
  shows "\<exists>q'. write_loop n offs buf c = Inr (offs + of_nat (length buf), c\<lparr>hq := q'\<rparr>) \<and> hq_ok q' {} \<and>
    valid_blk q' = valid_blk (hq c) \<and> fsep (view q') addrs F \<and>
    (\<forall>f\<in>F. file_addr (view q') addrs f = file_addr (view (hq c)) addrs f \<and>
       index_path (view q') addrs f = index_path (view (hq c)) addrs f) \<and>
    (\<forall>b. b \<notin> file_addr (view (hq c)) addrs ` F \<longrightarrow> view q' b = view (hq c) b) \<and>
    (\<forall>p. p div BLOCK_SIZE \<in> F \<longrightarrow> file_byte (view q') addrs p =
      (if unat offs \<le> p \<and> p < unat offs + length buf then buf ! (p - unat offs)
       else file_byte (view (hq c)) addrs p))"
  using assms
proof (induction "length buf" arbitrary: offs buf c rule: less_induct)
  case less
  let ?v = "view (hq c)" and ?p = "unat offs"
  show ?case
  proof (cases "buf = []")
    case True
    with less.prems show ?thesis
      by (intro exI [of _ "hq c"]) (auto simp: write_loop.simps file_ok_def)
  next
    case False
    let ?k = "min (length buf) (BLOCK_SIZE - ?p mod BLOCK_SIZE)" and ?f = "?p div BLOCK_SIZE"
    let ?b = "file_addr ?v addrs ?f"
    let ?s = "\<lambda>d. splice d (?p mod BLOCK_SIZE) (take ?k buf)"
    have k: "0 < ?k" "?k \<le> length buf" "?p mod BLOCK_SIZE + ?k \<le> BLOCK_SIZE"
      using False by (auto simp: BLOCK_SIZE_def min_def)
    have fF: "?f \<in> F" using less.prems(5) False by simp
    have m: "mapped (hq c) addrs ?f" using less.prems(3) fF by blast
    from block_map_mapped [OF less.prems(1) m] obtain q1 where
      q1: "block_map n ?f c = Inr (?b, c\<lparr>hq := q1\<rparr>)" "same_disk (hq c) q1" by blast
    have vb: "valid_blk (hq c) ?b" using m by (simp add: mapped_def)
    have len: "length (?v ?b) = BLOCK_SIZE"
      using hq_ok_view_length [OF _ vb] less.prems(1) by (auto simp: file_ok_def)
    have ls: "length (?s (?v ?b)) = BLOCK_SIZE" using len k by simp
    from fetch_modify_release_empty [of q1 ?b ?s] q1(2) vb ls obtain h q2 q3 where
      q3: "get_hd_buf ?b q1 = Inr (h, q2)" "put_hd_buf h (hwrite h ?s q2) = Inr q3" "hq_ok q3 {}"
        "view q3 = ?v(?b := ?s (?v ?b))" "valid_blk q3 = valid_blk (hq c)"
      by (auto simp: same_disk_def)
    note up = fsep_upd [where d = "?s (?v ?b)", OF less.prems(4) fF, folded q3(4)]
    have p': "unat (offs + of_nat ?k) = ?p + ?k"
      using less.prems(2) k by (simp add: unat_word_ariths unat_of_nat)
    have bytes: "file_byte (view q3) addrs p =
        (if ?p \<le> p \<and> p < ?p + ?k then buf ! (p - ?p) else file_byte ?v addrs p)"
      if pF: "p div BLOCK_SIZE \<in> F" for p
    proof (cases "p div BLOCK_SIZE = ?f")
      case True
      have "p mod BLOCK_SIZE < BLOCK_SIZE" by (simp add: BLOCK_SIZE_def)
      moreover have "p < ?p + ?k \<Longrightarrow> ?p \<le> p \<Longrightarrow> take ?k buf ! (p - ?p) = buf ! (p - ?p)"
        by (intro nth_take) linarith
      ultimately show ?thesis
        using True up(4) [OF pF] block_neq [OF True k(3)] k len by (auto simp: nth_splice file_byte_def)
    next
      case False
      then have "\<not> (?p \<le> p \<and> p < ?p + ?k)" using k(3) div_mod_add_small(1) [of ?p BLOCK_SIZE "p - ?p"] by force
      with False up(4) [OF pF] show ?thesis by auto
    qed
    have st: "write_loop n offs buf c = write_loop n (offs + of_nat ?k) (drop ?k buf) (c\<lparr>hq := q3\<rparr>)"
      using False q1(1) q3(1,2) by (simp add: write_loop.simps [of n offs buf c] with_hq_def on_hq_def Let_def)
    have m3: "\<forall>f\<in>F. mapped (hq (c\<lparr>hq := q3\<rparr>)) addrs f"
      using less.prems(3) up(1,2) q3(5) by (simp add: mapped_def)
    have r3: "\<forall>p. unat (offs + of_nat ?k) \<le> p \<and> p < unat (offs + of_nat ?k) + length (drop ?k buf) \<longrightarrow>
        p div BLOCK_SIZE \<in> F" using less.prems(5) p' k by simp
    have shorter: "length (drop ?k buf) < length buf" and lim: "unat (offs + of_nat ?k) + length (drop ?k buf) < 2 ^ 32"
      using k less.prems(2) p' by simp_all
    have rec: "(c\<lparr>hq := q3\<rparr>)\<lparr>hq := q'\<rparr> = c\<lparr>hq := q'\<rparr>" "hq (c\<lparr>hq := q3\<rparr>) = q3" for q' by simp_all
    have tot: "?p + ?k + length (drop ?k buf) = ?p + length buf" using k by simp
    have s3: "fsep (view (hq (c\<lparr>hq := q3\<rparr>))) addrs F" using up(3) by (simp only: rec)
    note less.hyps [OF shorter file_ok_hq [OF less.prems(1) q3(3)] lim m3 s3 r3, unfolded rec p' tot]
    then obtain q' where q': "write_loop n offs buf c =
          Inr (offs + of_nat ?k + of_nat (length (drop ?k buf)), c\<lparr>hq := q'\<rparr>)"
        "hq_ok q' {}" "valid_blk q' = valid_blk q3" "fsep (view q') addrs F"
        "\<forall>f\<in>F. file_addr (view q') addrs f = file_addr (view q3) addrs f \<and>
         index_path (view q') addrs f = index_path (view q3) addrs f"
        "\<forall>b. b \<notin> file_addr (view q3) addrs ` F \<longrightarrow> view q' b = view q3 b"
        "\<forall>p. p div BLOCK_SIZE \<in> F \<longrightarrow> file_byte (view q') addrs p =
        (if ?p + ?k \<le> p \<and> p < ?p + length buf then drop ?k buf ! (p - (?p + ?k))
         else file_byte (view q3) addrs p)" unfolding st by blast
    have img: "file_addr (view q3) addrs ` F = file_addr ?v addrs ` F" using up(1) by force
    have "of_nat ?k + of_nat (length (drop ?k buf)) = (of_nat (length buf) :: u32)"
      using k(2) by (simp flip: of_nat_add)
    then have o: "offs + of_nat ?k + of_nat (length (drop ?k buf)) = offs + of_nat (length buf)"
      by (simp only: add.assoc)
    have b: "file_byte (view q') addrs p = (if ?p \<le> p \<and> p < ?p + length buf then buf ! (p - ?p)
        else file_byte ?v addrs p)" if pF: "p div BLOCK_SIZE \<in> F" for p
      using q'(7) [rule_format, OF pF] bytes [OF pF] k(2) by (cases "?p + ?k \<le> p") auto
    have v: "view q' b = ?v b" if "b \<notin> file_addr ?v addrs ` F" for b
    proof -
      have "b \<noteq> ?b" using that fF by blast
      with q'(6) that q3(4) show ?thesis unfolding img by simp
    qed
    show ?thesis
      using q'(1-5) o b v up(1,2) q3(5) by (intro exI [of _ q']) simp
  qed
qed

section \<open>Properties\<close>

text \<open>
  A file keeps what is written to it (\<open>cofs_write\<close>, \<open>cofs_read\<close> of \<open>cofs.c\<close>). Take a file
  whose blocks \<open>F\<close>, direct, indirect or doubly indirect, are allocated and separate, and a range
  inside it. Writing \<open>buf\<close> there succeeds, reading the range back gives \<open>buf\<close>, every other byte
  of the file is unchanged and so is every disk block that is not one of the file's.
\<close>

theorem cofs_write_read:
  assumes "file_ok c n addrs" and "\<forall>f\<in>F. mapped (hq c) addrs f" and "fsep (view (hq c)) addrs F"
    and "unat offs + length buf \<le> unat (n_size (nd c n))" and "unat offs + length buf \<le> MAX_WRITE"
    and "\<forall>p. unat offs \<le> p \<and> p < unat offs + length buf \<longrightarrow> p div BLOCK_SIZE \<in> F"
  shows "\<exists>c1 c2. cofs_write n offs (of_nat (length buf)) buf c = Inr (of_nat (length buf), c1) \<and>
    cofs_read n offs (of_nat (length buf)) c1 = Inr (buf, c2) \<and>
    (\<forall>p. p div BLOCK_SIZE \<in> F \<and> (p < unat offs \<or> unat offs + length buf \<le> p) \<longrightarrow>
       file_byte (view (hq c1)) addrs p = file_byte (view (hq c)) addrs p) \<and>
    (\<forall>b. b \<notin> file_addr (view (hq c)) addrs ` F \<longrightarrow> view (hq c1) b = view (hq c) b)"
proof -
  let ?len = "of_nat (length buf) :: u32" and ?p = "unat offs"
  have lim: "?p + length buf < 2 ^ 32"
    using assms(5) by (simp add: MAX_WRITE_def idx_defs BLOCK_SIZE_def)
  have ul: "unat ?len = length buf" using lim by (simp add: unat_of_nat)
  have us: "unat (offs + ?len) = ?p + length buf" using lim by (simp add: unat_word_ariths ul)
  have small: "\<not> n_size (nd c n) < offs" "\<not> n_size (nd c n) < offs + ?len"
    using assms(4) us by (simp_all add: word_less_nat_alt)
  from write_loop_mapped [OF assms(1) lim assms(2,3,6)] obtain q1 where
    w: "write_loop n offs buf c = Inr (offs + ?len, c\<lparr>hq := q1\<rparr>)" "hq_ok q1 {}"
      "valid_blk q1 = valid_blk (hq c)"
      "\<forall>f\<in>F. file_addr (view q1) addrs f = file_addr (view (hq c)) addrs f \<and>
         index_path (view q1) addrs f = index_path (view (hq c)) addrs f"
      "\<forall>b. b \<notin> file_addr (view (hq c)) addrs ` F \<longrightarrow> view q1 b = view (hq c) b"
      "\<forall>p. p div BLOCK_SIZE \<in> F \<longrightarrow> file_byte (view q1) addrs p =
        (if ?p \<le> p \<and> p < ?p + length buf then buf ! (p - ?p) else file_byte (view (hq c)) addrs p)"
    by blast
  let ?c1 = "c\<lparr>hq := q1\<rparr>"
  have nd1: "nd ?c1 n = nd c n" by (simp add: nd_def)
  have wr: "cofs_write n offs ?len buf c = Inr (?len, ?c1)"
    using small us assms(5) ul w(1) by (simp add: cofs_write_def nd1)
  have "\<forall>p. ?p \<le> p \<and> p < ?p + length buf \<longrightarrow> mapped (hq ?c1) addrs (p div BLOCK_SIZE)"
    using assms(2,6) w(3,4) by (auto simp: mapped_def)
  from read_loop_mapped [OF file_ok_hq [OF assms(1) w(2)] lim this] obtain q2 where
    r: "read_loop n offs (length buf) ?c1 =
      Inr (map (file_byte (view q1) addrs) [?p..<?p + length buf], ?c1\<lparr>hq := q2\<rparr>)" by auto
  have "map (file_byte (view q1) addrs) [?p..<?p + length buf] = buf"
    using w(6) assms(6) by (intro nth_equalityI) auto
  with r have "cofs_read n offs ?len ?c1 = Inr (buf, ?c1\<lparr>hq := q2\<rparr>)"
    using small ul by (simp add: cofs_read_def nd1)
  with wr w(5,6) show ?thesis
    by (intro exI [of _ ?c1] exI [of _ "?c1\<lparr>hq := q2\<rparr>"]) auto
qed

text \<open>A file of 600 bytes in blocks 20 and 21 of the sample disk.\<close>

definition sample_addrs :: "u32 list" where
  "sample_addrs = [20, 21, 0, 0, 0, 0, 0, 0, 0]"

definition sample_fs :: cofs where
  "sample_fs = \<lparr>hq = sample_hdq, superb = sample_sb,
     cache = [zero_node\<lparr>n_inode := 5, n_ref_count := 1, n_type := FS_FILE, n_num_links := 1, n_size := 600,
       n_addrs := Some sample_addrs\<rparr>], cache_lock = False, node_mem = True\<rparr>"

lemma sample_file_ok: "file_ok sample_fs 0 sample_addrs"
  using sample_hq_ok by (simp add: file_ok_def sample_fs_def nd_def sample_addrs_def)

lemma sample_file_addr:
  "file_addr v sample_addrs 0 = 20" "file_addr v sample_addrs (Suc 0) = 21"
  "index_path v sample_addrs 0 = []" "index_path v sample_addrs (Suc 0) = []"
  by (simp_all add: file_addr_def index_path_def NUM_DIRECT_def sample_addrs_def)

lemma sample_mapped: "\<forall>f\<in>{0, 1}. mapped (hq sample_fs) sample_addrs f"
  using sample_valid [of 20] sample_valid [of 21]
  by (simp add: mapped_def sample_file_addr idx_defs sample_fs_def)

lemma sample_fsep: "fsep v sample_addrs {0, 1}"
  by (simp add: fsep_def sample_file_addr inj_on_def)

lemma cofs_write_read_witness:
  "\<exists>c1 c2. cofs_write 0 510 (of_nat (length [1, 2, 3 :: u8])) [1, 2, 3] sample_fs =
      Inr (of_nat (length [1, 2, 3 :: u8]), c1) \<and>
    cofs_read 0 510 (of_nat (length [1, 2, 3 :: u8])) c1 = Inr ([1, 2, 3], c2)"
proof -
  have r: "\<forall>p. unat (510 :: u32) \<le> p \<and> p < unat (510 :: u32) + length [1, 2, 3 :: u8] \<longrightarrow>
      p div BLOCK_SIZE \<in> {0, 1}"
  proof (intro allI impI)
    fix p :: nat
    assume "unat (510 :: u32) \<le> p \<and> p < unat (510 :: u32) + length [1, 2, 3 :: u8]"
    then have "p div BLOCK_SIZE < 2" by (simp add: BLOCK_SIZE_def less_mult_imp_div_less)
    then show "p div BLOCK_SIZE \<in> {0, 1}" by (auto simp: less_2_cases_iff)
  qed
  have s: "unat (510 :: u32) + length [1, 2, 3 :: u8] \<le> unat (n_size (nd sample_fs 0))"
    by (simp add: sample_fs_def nd_def)
  have m: "unat (510 :: u32) + length [1, 2, 3 :: u8] \<le> MAX_WRITE"
    by (simp add: MAX_WRITE_def idx_defs BLOCK_SIZE_def)
  show ?thesis
    using cofs_write_read [OF sample_file_ok sample_mapped sample_fsep s m r] by blast
qed

text \<open>
  The largest write is smaller than the largest file. \<open>block_map\<close> reaches
  \<open>6 + 128 + 128 * 128\<close> blocks, but \<open>cofs_write\<close> compares with \<open>MAX_FILE_SIZE * BLOCK_SIZE\<close>, in which
  the macro expands without parentheses: a write that ends beyond byte 8388742 writes nothing
  and returns 0, although the file system has blocks for 8457216 bytes.
\<close>

theorem write_limit_below_max_file_size:
  assumes "n_size (nd c n) \<ge> offs" and "MAX_WRITE < unat (offs + sz)"
    and "unat (offs + sz) \<le> (NUM_DIRECT + NUM_SIND + NUM_DIND) * BLOCK_SIZE"
  shows "cofs_write n offs sz buf c = Inr (0, c) \<and> MAX_WRITE = 8388742 \<and>
    (NUM_DIRECT + NUM_SIND + NUM_DIND) * BLOCK_SIZE = 8457216"
  using assms by (simp add: cofs_write_def MAX_WRITE_def idx_defs BLOCK_SIZE_def)

lemma write_limit_below_max_file_size_witness:
  "cofs_write 0 0 8388743 [] sample_fs = Inr (0, sample_fs)"
  using write_limit_below_max_file_size [of 0 sample_fs 0 8388743 "[]"]
  by (simp add: MAX_WRITE_def idx_defs BLOCK_SIZE_def)

section \<open>Inodes on disk\<close>

lemma bits_above_12: "(w :: u32) < 0x1000 \<Longrightarrow> 12 \<le> k \<Longrightarrow> \<not> bit w k"
proof -
  assume "w < 0x1000" "12 \<le> k"
  then have "take_bit 12 w = w" by (simp add: take_bit_word_eq_self word_less_nat_alt take_bit_nat_eq_self word_unat_eq_iff unsigned_take_bit_eq)
  then have "bit w k \<longleftrightarrow> bit (take_bit 12 w) k" by simp
  with \<open>12 \<le> k\<close> show ?thesis by (simp add: bit_take_bit_iff)
qed

lemma fmt_mask: "(0xF000 :: u16) = push_bit 12 (mask 4)" "(0xF000 :: u32) = push_bit 12 (mask 4)"
  by (simp_all add: mask_eq_exp_minus_1)

lemma type_mask_roundtrip:
  fixes ty :: u16 and m :: u32
  assumes "ty AND 0xF000 = ty" and "m < 0x1000"
  defines "t \<equiv> (ucast ((ucast ty AND 0xF000) OR m) :: u16)"
  shows "t AND FS_IFMT = ty" and "ucast (t AND NOT FS_IFMT) = m"
proof -
  have low: "\<not> bit ty k" if "k < 12" for k
    using arg_cong [OF assms(1), of "\<lambda>w. bit w k"] that unfolding fmt_mask by (auto simp: bit_simps)
  have high: "\<not> bit m k" if "12 \<le> k" for k using bits_above_12 [OF assms(2) that] .
  show "t AND FS_IFMT = ty"
    unfolding t_def FS_IFMT_def fmt_mask
    by (rule bit_word_eqI) (use low high in \<open>auto simp: bit_simps not_le [symmetric]\<close>)
  show "ucast (t AND NOT FS_IFMT) = m"
    unfolding t_def FS_IFMT_def fmt_mask
    by (rule bit_word_eqI) (use low high in \<open>auto simp: bit_simps not_le [symmetric]\<close>)
qed

lemma ucast_fits: "w < 0x10000 \<Longrightarrow> ucast (ucast (w :: u32) :: u16) = w"
proof -
  assume "w < 0x10000"
  then have "unat w < 2 ^ 16" by (simp add: word_less_nat_alt)
  then have "unat (ucast (ucast w :: u16) :: u32) = unat w" by (simp add: unsigned_ucast_eq unsigned_take_bit_eq take_bit_nat_eq_self)
  then show ?thesis by (simp only: word_unat_eq_iff)
qed

text \<open>\<open>node_fits\<close>: the fields of a node fit the narrower fields of an inode.\<close>

definition node_fits :: "fs_node \<Rightarrow> bool" where
  "node_fits node \<longleftrightarrow> n_type node AND 0xF000 = n_type node \<and> n_mask node < 0x1000 \<and>
     n_major node < 0x10000 \<and> n_minor node < 0x10000 \<and> n_uid node < 0x10000 \<and>
     n_gid node < 0x10000 \<and> n_num_links node < 0x10000"

lemma load_node_inode:
  assumes "node_fits node" and "n_addrs node = Some addrs"
  shows "load_inode (node_inode node addrs)
      (zero_node\<lparr>n_inode := n_inode node, n_name := n_name node, n_flags := n_flags node,
        n_ref_count := n_ref_count node, n_lock := n_lock node, n_ops := n_ops node\<rparr>) = node"
  using assms type_mask_roundtrip [of "n_type node" "n_mask node"]
  by (cases node) (simp add: load_inode_def node_inode_def node_fits_def zero_node_def ucast_fits)

lemma update_node_ok:
  assumes "file_ok c n addrs" and "valid_blk (hq c) (INO_BLK (n_inode (nd c n)) (superb c))"
  shows "\<exists>q'. cofs_update_node n c = Inr (c\<lparr>hq := q'\<rparr>) \<and> hq_ok q' {} \<and> valid_blk q' = valid_blk (hq c) \<and>
    view q' = (view (hq c))(INO_BLK (n_inode (nd c n)) (superb c) :=
      set_inode_at (n_inode (nd c n)) (node_inode (nd c n) addrs) (view (hq c) (INO_BLK (n_inode (nd c n)) (superb c))))"
proof -
  have f: "n_addrs (nd c n) = Some addrs" "length addrs = 9" "hq_ok (hq c) {}" using assms(1) by (auto simp: file_ok_def)
  let ?i = "node_inode (nd c n) addrs" and ?blk = "INO_BLK (n_inode (nd c n)) (superb c)"
  have "length (i_addrs ?i) = 9" using f by (simp add: node_inode_def)
  moreover have "length (view (hq c) ?blk) = 512" using hq_ok_view_length [OF f(3) assms(2)] by (simp add: BLOCK_SIZE_def)
  ultimately obtain h q1 q2 where r: "get_hd_buf ?blk (hq c) = Inr (h, q1)"
      "put_hd_buf h (hwrite h (set_inode_at (n_inode (nd c n)) ?i) q1) = Inr q2" "hq_ok q2 {}" "valid_blk q2 = valid_blk (hq c)"
      "view q2 = (view (hq c))(?blk := set_inode_at (n_inode (nd c n)) ?i (view (hq c) ?blk))"
    using fetch_modify_release_empty [where f = "set_inode_at (n_inode (nd c n)) ?i", OF f(3) assms(2)] by (auto simp: BLOCK_SIZE_def)
  have "cofs_update_node n c = Inr (c\<lparr>hq := q2\<rparr>)" using f r(1,2) by (simp add: cofs_update_node_def on_hq_def)
  with r(3-5) show ?thesis by (intro exI [of _ q2]) simp
qed

text \<open>
  C6. Inodes survive the disk (\<open>cofs_update_node\<close>, \<open>cofs_lock\<close>): after \<open>cofs_update_node\<close> the disk
  holds an inode from which \<open>cofs_lock\<close> would load the same node back, no other inode of the
  block and no other block has changed. The node must fit the inode: the mode below the type
  bits, device numbers, owner and link count in 16 bits.
\<close>

theorem inode_persists:
  assumes "file_ok c n addrs" and "node_fits (nd c n)"
    and "valid_blk (hq c) (INO_BLK (n_inode (nd c n)) (superb c))"
  defines "ino \<equiv> n_inode (nd c n)" and "blk \<equiv> INO_BLK (n_inode (nd c n)) (superb c)"
  shows "\<exists>c'. cofs_update_node n c = Inr c' \<and> cache c' = cache c \<and> hq_ok (hq c') {} \<and>
    load_inode (inode_at ino (view (hq c') blk))
      (zero_node\<lparr>n_inode := ino, n_name := n_name (nd c n), n_flags := n_flags (nd c n),
        n_ref_count := n_ref_count (nd c n), n_lock := n_lock (nd c n), n_ops := n_ops (nd c n)\<rparr>) = nd c n \<and>
    (\<forall>k. unat k mod NUM_INOPB \<noteq> unat ino mod NUM_INOPB \<longrightarrow>
       inode_at k (view (hq c') blk) = inode_at k (view (hq c) blk)) \<and>
    (\<forall>b. b \<noteq> blk \<longrightarrow> view (hq c') b = view (hq c) b)"
proof -
  have f: "n_addrs (nd c n) = Some addrs" "length addrs = 9" "hq_ok (hq c) {}"
    using assms(1) by (auto simp: file_ok_def)
  have l9: "length (i_addrs (node_inode (nd c n) addrs)) = 9" using f by (simp add: node_inode_def)
  have len: "length (view (hq c) blk) = 512"
    using hq_ok_view_length [OF f(3) assms(3)] by (simp add: blk_def BLOCK_SIZE_def)
  from update_node_ok [OF assms(1,3)] obtain q2 where r: "cofs_update_node n c = Inr (c\<lparr>hq := q2\<rparr>)" "hq_ok q2 {}"
      "view q2 = (view (hq c))(blk := set_inode_at ino (node_inode (nd c n) addrs) (view (hq c) blk))"
    unfolding ino_def blk_def by blast
  with l9 len load_node_inode [OF assms(2) f(1)] show ?thesis
    by (intro exI [of _ "c\<lparr>hq := q2\<rparr>"]) (auto simp: inode_at_same inode_at_other ino_def)
qed

lemma inode_persists_witness:
  "\<exists>c'. cofs_update_node 0 sample_fs = Inr c' \<and>
    n_size (load_inode (inode_at 5 (view (hq c') 3)) zero_node) = 600"
proof -
  have n: "n_inode (nd sample_fs 0) = 5" "INO_BLK 5 (superb sample_fs) = 3"
    by (simp_all add: sample_fs_def nd_def INO_BLK_def sample_sb_def NUM_INOPB_def)
  have "node_fits (nd sample_fs 0)"
    by (simp add: node_fits_def sample_fs_def nd_def zero_node_def FS_FILE_def)
  then obtain c' where c': "cofs_update_node 0 sample_fs = Inr c'"
    "load_inode (inode_at 5 (view (hq c') 3)) (zero_node\<lparr>n_inode := 5, n_name := n_name (nd sample_fs 0),
        n_flags := n_flags (nd sample_fs 0), n_ref_count := n_ref_count (nd sample_fs 0),
        n_lock := n_lock (nd sample_fs 0), n_ops := n_ops (nd sample_fs 0)\<rparr>) = nd sample_fs 0"
    using inode_persists [OF sample_file_ok, unfolded n] sample_valid [of 3]
    by (auto simp: sample_fs_def)
  have "n_size (load_inode i x) = n_size (load_inode i y)" for i x y by (simp add: load_inode_def)
  with c' have "n_size (load_inode (inode_at 5 (view (hq c') 3)) zero_node) = n_size (nd sample_fs 0)" by metis
  with c'(1) show ?thesis by (simp add: sample_fs_def nd_def)
qed

section \<open>The inode cache\<close>

lemma find_node_None: "find_node xs i = None \<longleftrightarrow> i \<notin> n_inode ` set xs"
  by (induction xs) auto

lemma find_node_SomeD: "find_node xs i = Some n \<Longrightarrow> n < length xs \<and> n_inode (xs ! n) = i"
  by (induction xs arbitrary: n) (auto split: if_splits)

lemma free_node_spec:
  "free_node xs i acc = Some n \<Longrightarrow> acc = Some n \<or> i \<le> n \<and> n < i + length xs \<and> n_ref_count (xs ! (n - i)) = 0"
proof (induction xs arbitrary: i acc)
  case (Cons x xs)
  from Cons.IH [OF Cons.prems [unfolded free_node.simps]] consider
      (here) "n_ref_count x = 0" "i = n" | (acc) "acc = Some n"
    | (later) "Suc i \<le> n" "n < Suc i + length xs" "n_ref_count (xs ! (n - Suc i)) = 0"
    by (auto split: if_splits)
  then show ?case
  proof cases
    case later
    then have "(x # xs) ! (n - i) = xs ! (n - Suc i)" by (simp add: nth_Cons' Suc_diff_le)
    with later show ?thesis by simp
  qed auto
qed simp

lemma free_node_None:
  "free_node xs i acc = None \<longleftrightarrow> acc = None \<and> (\<forall>x\<in>set xs. n_ref_count x \<noteq> 0)"
  by (induction xs arbitrary: i acc) auto

definition cache_ok :: "cofs \<Rightarrow> bool" where
  "cache_ok c \<longleftrightarrow> distinct (map n_inode (cache c)) \<and> length (cache c) \<le> MAX_CACHED_NODES \<and>
     (\<forall>node\<in>set (cache c). n_ref_count node \<ge> 0)"

text \<open>
  C7. The inode cache never holds two nodes for one inode (\<open>cofs_get_node\<close>): from a consistent
  cache with its lock free, asking for an inode gives the one node that stands for it, with
  one more reference; nodes in use stay as they are, and only a node nobody references is
  recycled.
\<close>

theorem cofs_get_node_unique:
  assumes "cache_ok c" and "\<not> cache_lock c" and "cofs_get_node inum c = Inr (Some n, c')"
  shows "cache_ok c' \<and> n < length (cache c') \<and> n_inode (nd c' n) = inum \<and> n_ref_count (nd c' n) > 0 \<and>
    \<not> cache_lock c' \<and>
    (\<forall>m<length (cache c). m \<noteq> n \<longrightarrow> nd c' m = nd c m) \<and>
    (n < length (cache c) \<and> n_ref_count (nd c n) > 0 \<longrightarrow>
       nd c' n = (nd c n)\<lparr>n_ref_count := n_ref_count (nd c n) + 1\<rparr>)"
proof (cases "find_node (cache c) inum")
  case (Some k)
  from find_node_SomeD [OF Some] have k: "k < length (cache c)" "n_inode (cache c ! k) = inum" by auto
  let ?f = "\<lambda>node. node\<lparr>n_ref_count := n_ref_count node + 1\<rparr>"
  have r: "n = k" "c' = nset k ?f c" using assms(2,3) Some by (auto simp: cofs_get_node_def)
  have "map n_inode (cache c') = map n_inode (cache c)"
    using k r by (simp add: nset_def map_update list_update_same_conv)
  moreover have "n_ref_count (cache c ! k) \<ge> 0" using assms(1) k by (simp add: cache_ok_def)
  moreover from this have "\<forall>node\<in>set (cache c'). n_ref_count node \<ge> 0"
    using assms(1) k r set_update_subset_insert [of "cache c" k "?f (cache c ! k)"]
    by (auto simp: cache_ok_def nset_def)
  ultimately show ?thesis
    using assms k r by (auto simp: cache_ok_def nset_def nd_def)
next
  case None
  then have fresh: "inum \<notin> n_inode ` set (cache c)" by (simp add: find_node_None)
  let ?x = "zero_node\<lparr>n_inode := inum, n_ref_count := 1, n_ops := Cofs_ops\<rparr>"
  show ?thesis
  proof (cases "free_node (cache c) 0 None")
    case (Some k)
    from free_node_spec [OF Some] have k: "k < length (cache c)" "n_ref_count (cache c ! k) = 0" by auto
    have r: "n = k" "c' = nset k (\<lambda>_. ?x) c"
      using assms(2,3) None Some by (auto simp: cofs_get_node_def Let_def)
    have "distinct (map n_inode (cache c'))"
      using assms(1) k fresh r by (auto simp: cache_ok_def nset_def map_update intro!: distinct_list_update)
    moreover have "\<forall>node\<in>set (cache c'). n_ref_count node \<ge> 0"
      using assms(1) r set_update_subset_insert [of "cache c" k ?x] by (auto simp: cache_ok_def nset_def)
    ultimately show ?thesis
      using assms k r by (auto simp: cache_ok_def nset_def nd_def)
  next
    case free: None
    with assms(2,3) None have "length (cache c) < MAX_CACHED_NODES" "n = length (cache c)"
      "c' = c\<lparr>cache := cache c @ [?x]\<rparr>"
      by (auto simp: cofs_get_node_def Let_def split: if_splits)
    with assms fresh show ?thesis by (auto simp: cache_ok_def nd_def nth_append)
  qed
qed

lemma cofs_get_node_unique_witness:
  "\<exists>n c'. cofs_get_node 5 sample_fs = Inr (Some n, c') \<and> n_inode (nd c' n) = 5 \<and> n_ref_count (nd c' n) > 0"
proof -
  have ok: "cache_ok sample_fs" "\<not> cache_lock sample_fs"
    by (simp_all add: cache_ok_def sample_fs_def MAX_CACHED_NODES_def)
  obtain c' where r: "cofs_get_node 5 sample_fs = Inr (Some 0, c')"
    by (simp add: cofs_get_node_def sample_fs_def)
  show ?thesis using cofs_get_node_unique [OF ok r] r by blast
qed

text \<open>
  When all the nodes of a full cache are in use, \<open>cofs_get_node\<close> gives up and returns NULL
  without releasing the lock of the cache: every later \<open>cofs_get_node\<close>, \<open>cofs_dup\<close> or
  \<open>cofs_put_node\<close> spins for ever.
\<close>

theorem full_node_cache_deadlocks:
  assumes "\<not> cache_lock c" and "length (cache c) \<ge> MAX_CACHED_NODES"
    and "\<forall>node\<in>set (cache c). n_ref_count node \<noteq> 0 \<and> n_inode node \<noteq> inum"
  shows "\<exists>c'. cofs_get_node inum c = Inr (None, c') \<and> cofs_get_node i c' = Inl Deadlock \<and>
    cofs_dup n c' = Inl Deadlock \<and> cofs_put_node n c' = Inl Deadlock"
proof -
  have "find_node (cache c) inum = None" "free_node (cache c) 0 None = None"
    using assms(3) by (auto simp: find_node_None free_node_None)
  with assms(1,2) show ?thesis
    by (auto simp: cofs_get_node_def cofs_dup_def cofs_put_node_def Let_def)
qed

lemma full_node_cache_deadlocks_witness:
  "\<exists>c'. cofs_get_node 7 (sample_fs\<lparr>cache := replicate 100 (zero_node\<lparr>n_ref_count := 1\<rparr>)\<rparr>) = Inr (None, c') \<and>
    cofs_get_node 1 c' = Inl Deadlock"
  using full_node_cache_deadlocks [of "sample_fs\<lparr>cache := replicate 100 (zero_node\<lparr>n_ref_count := 1\<rparr>)\<rparr>" 7 1]
  by (auto simp: sample_fs_def MAX_CACHED_NODES_def zero_node_def)

end
