(* ===== verification/Cofs_Dir.thy ===== *)
theory Cofs_Dir
  imports Cofs
begin

text \<open>
  Directories of COFS (\<open>cofs.c\<close>): a directory is a file of 32 byte entries, an inode number and a
  name of at most 28 bytes. Searching, linking, unlinking and creating entries, and \<open>cofs_init\<close>.

  A directory entry in memory is the 32 bytes the code reads into its local \<open>cofs_dirent_t\<close>; a
  short read at the end of a directory leaves the rest of the bytes of the last entry in place.
\<close>

section \<open>Directory entries\<close>

definition DIRSIZE :: nat where
  "DIRSIZE = 28"

definition DIRENT_SIZE :: nat where
  "DIRENT_SIZE = 4 + DIRSIZE"

definition d_inode :: "u8 list \<Rightarrow> u32" where
  "d_inode dir = rd32 dir 0"

definition d_name :: "u8 list \<Rightarrow> u8 list" where
  "d_name dir = drop 4 dir"

text \<open>A successful read proves that the offset is inside the largest file.\<close>

lemma block_map_range:
  "block_map n fbn c = Inr r \<Longrightarrow> fbn < NUM_DIRECT + NUM_SIND + NUM_DIND"
  by (auto simp: block_map_def split: if_splits)

lemma min_left: "min left (BLOCK_SIZE - k mod BLOCK_SIZE) = 0 \<longleftrightarrow> left = 0"
  using mod_less_divisor [of BLOCK_SIZE k] by (auto simp: BLOCK_SIZE_def min_def)

lemma read_loop_length: "read_loop n offs left c = Inr (bs, c') \<Longrightarrow> length bs \<le> left"
proof (induction left arbitrary: offs c bs c' rule: less_induct)
  case (less left)
  show ?case
  proof (cases "left = 0")
    case True
    with less.prems show ?thesis by (simp add: read_loop.simps)
  next
    case False
    let ?k = "min left (BLOCK_SIZE - unat offs mod BLOCK_SIZE)"
    note run = less.prems [unfolded read_loop.simps [of n offs left c]]
    from run False obtain h q c1 rest where
      r: "read_loop n (offs + of_nat ?k) (left - ?k) c1 = Inr (rest, c')"
        "bs = take ?k (drop (unat offs mod BLOCK_SIZE) (hcontent q h)) @ rest"
      by (clarsimp simp: bnd_eq_Inr Let_def with_hq_def split_def)
    have "left - ?k < left" using False min_left [of left] by (metis diff_less neq0_conv)
    from less.IH [OF this r(1)] r(2) show ?thesis by (auto simp: min_def)
  qed
qed

lemma cofs_read_bounds:
  assumes "cofs_read n offs sz c = Inr (bs, c')" and "bs \<noteq> []"
  shows "unat offs < (NUM_DIRECT + NUM_SIND + NUM_DIND) * BLOCK_SIZE"
proof -
  obtain left where left: "read_loop n offs left c = Inr (bs, c')"
    using assms by (auto simp: cofs_read_def split: if_splits)
  with assms(2) have "0 < left" by (cases left) (auto simp: read_loop.simps)
  with left [unfolded read_loop.simps [of n offs left c]]
  obtain r where "block_map n (unat offs div BLOCK_SIZE) c = Inr r"
    by (auto simp: bnd_eq_Inr)
  from block_map_range [OF this] show ?thesis
    by (simp add: BLOCK_SIZE_def div_less_iff_less_mult)
qed

lemma cofs_read_length:
  "cofs_read n offs sz c = Inr (bs, c') \<Longrightarrow> unat offs + unat sz < 2 ^ 32 \<Longrightarrow> length bs \<le> unat sz"
proof -
  assume r: "cofs_read n offs sz c = Inr (bs, c')" and s: "unat offs + unat sz < 2 ^ 32"
  have sum: "unat (offs + sz) = unat offs + unat sz" using s by (simp add: unat_word_ariths)
  have sub: "offs \<le> n_size (nd c n) \<Longrightarrow> unat (n_size (nd c n) - offs) = unat (n_size (nd c n)) - unat offs"
    by (rule unat_sub)
  show ?thesis
  proof (cases "offs > n_size (nd c n)")
    case False
    with r have "length bs \<le> unat (if offs + sz > n_size (nd c n) then n_size (nd c n) - offs else sz)"
      by (auto simp: cofs_read_def dest: read_loop_length)
    with False sum sub show ?thesis by (auto simp: word_less_nat_alt word_le_nat_alt split: if_splits)
  qed (use r in \<open>simp add: cofs_read_def\<close>)
qed

section \<open>Searching a directory\<close>

text \<open>
  The loop \<open>while ((n = cofs_read(node, offs, sizeof(dir), &dir)) > 0)\<close> of \<open>cofs_finddir\<close>,
  \<open>cofs_dirlink\<close> and \<open>cofs_unlink\<close>: it stops at the first entry that satisfies the test. The result
  is whether one did, the offset reached and the bytes of the last entry read. It ends, because a read
  beyond the largest file is a panic.
\<close>

function dir_scan :: "nat \<Rightarrow> (u8 list \<Rightarrow> bool kres) \<Rightarrow> u32 \<Rightarrow> u8 list \<Rightarrow> cofs \<Rightarrow>
    ((bool \<times> u32 \<times> u8 list) \<times> cofs) kres" where
  "dir_scan n test offs dir c =
     bnd (cofs_read n offs (of_nat DIRENT_SIZE) c) (\<lambda>(bs, c).
     if bs = [] then Inr ((False, offs, dir), c)
     else let dir = bs @ drop (length bs) dir in
       bnd (test dir) (\<lambda>stop.
       if stop then Inr ((True, offs, dir), c)
       else dir_scan n test (offs + of_nat (length bs)) dir c))"
  by pat_completeness auto
termination
proof (relation "measure (\<lambda>(n, test, offs, dir, c). (NUM_DIRECT + NUM_SIND + NUM_DIND) * BLOCK_SIZE + DIRENT_SIZE - unat offs)",
    goal_cases)
  case (2 n test offs dir c x bs c' dir' stop)
  then have r: "cofs_read n offs (of_nat DIRENT_SIZE) c = Inr (bs, c')" "bs \<noteq> []" by auto
  have lim: "unat offs < (NUM_DIRECT + NUM_SIND + NUM_DIND) * BLOCK_SIZE"
    using cofs_read_bounds [OF r] .
  have len: "length bs \<le> DIRENT_SIZE"
    using cofs_read_length [OF r(1)] lim
    by (simp add: DIRENT_SIZE_def DIRSIZE_def idx_defs BLOCK_SIZE_def)
  with lim have "unat (offs + of_nat (length bs)) = unat offs + length bs"
    by (simp add: unat_word_ariths unat_of_nat DIRENT_SIZE_def DIRSIZE_def idx_defs BLOCK_SIZE_def)
  with lim r(2) show ?case by (cases bs) auto
qed simp

declare dir_scan.simps [simp del]

definition name_is :: "u8 list \<Rightarrow> u8 list \<Rightarrow> bool kres" where
  "name_is name dir = bnd (strcmp (d_name dir) name) (\<lambda>r. Inr (r = 0))"

text \<open>\<open>strncpy(node->name, name, sizeof(node->name) - 1)\<close>\<close>

definition set_name :: "nat \<Rightarrow> u8 list \<Rightarrow> cofs \<Rightarrow> cofs kres" where
  "set_name n name c =
     bnd (strncpy (n_name (nd c n)) name 255) (\<lambda>nm. Inr (nset n (n_name_update (\<lambda>_. nm)) c))"

text \<open>\<open>dir\<close> starts out uninitialised in \<open>cofs_finddir\<close>: \<open>junk\<close> is what is on the stack.\<close>

definition cofs_finddir :: "u8 list \<Rightarrow> nat \<Rightarrow> u8 list \<Rightarrow> cofs \<Rightarrow> (nat option \<times> cofs) kres" where
  "cofs_finddir junk n name c =
     (if n_type (nd c n) AND FS_DIRECTORY = 0 then Inl (Panic ''cofs_finddir() is not a directory'')
      else
        bnd (dir_scan n (name_is name) 0 junk c) (\<lambda>((found, offs, dir), c).
        let inum = (if found then d_inode dir else 0) in
        if inum = 0 then Inr (None, c)
        else
          bnd (cofs_get_node inum c) (\<lambda>(p, c).
          bnd (cofs_lock p c) (\<lambda>c. case p of
            None \<Rightarrow> Inl Fault
          | Some m \<Rightarrow>
              bnd (if n_inode (nd c m) \<noteq> 1 then set_name m name c else Inr c) (\<lambda>c.
              bnd (cofs_unlock p c) (\<lambda>c. Inr (p, c)))))))"

text \<open>\<open>cofs_readdir\<close> fills the global \<open>dirent\<close>: the inode number and 28 bytes of name.\<close>

definition cofs_readdir :: "u8 list \<Rightarrow> nat \<Rightarrow> u32 \<Rightarrow> cofs \<Rightarrow> ((u32 \<times> u8 list) option \<times> cofs) kres" where
  "cofs_readdir junk n index c =
     kassert (\<not> n_lock (nd c n)) ''node->lock == 0''
      (bnd (cofs_lock (Some n) c) (\<lambda>c.
       bnd (cofs_read n (index * of_nat DIRENT_SIZE) (of_nat DIRENT_SIZE) c) (\<lambda>(bs, c).
       let dir = bs @ drop (length bs) junk in
       if bs \<noteq> [] then
         if d_inode dir = 0 then
           bnd (cofs_unlock (Some n) c) (\<lambda>c. Inr (Some (0, replicate DIRSIZE 0), c))
         else
           bnd (strncpy (replicate DIRSIZE 0) (d_name dir) (DIRSIZE - 1)) (\<lambda>nm.
           bnd (cofs_unlock (Some n) c) (\<lambda>c. Inr (Some (d_inode dir, nm), c)))
       else bnd (cofs_unlock (Some n) c) (\<lambda>c. Inr (None, c)))))"

section \<open>Changing a directory\<close>

text \<open>The result is the \<open>int\<close> the code returns: 0, or -1 when the name exists.\<close>

definition cofs_dirlink :: "u8 list \<Rightarrow> nat \<Rightarrow> u8 list \<Rightarrow> u32 \<Rightarrow> cofs \<Rightarrow> (int \<times> cofs) kres" where
  "cofs_dirlink junk n name inum c =
     bnd (cofs_finddir junk n name c) (\<lambda>(p, c). case p of
       Some m \<Rightarrow> bnd (cofs_put_node m c) (\<lambda>c. Inr (- 1, c))
     | None \<Rightarrow>
         bnd (dir_scan n (\<lambda>dir. Inr (d_inode dir = 0)) 0 (replicate DIRENT_SIZE 0) c) (\<lambda>((found, offs, dir), c).
         bnd (strncpy (d_name dir) name DIRSIZE) (\<lambda>nm.
         bnd (cofs_write n offs (of_nat DIRENT_SIZE) (le32 inum @ nm) c) (\<lambda>(w, c).
         if w \<noteq> of_nat DIRENT_SIZE then Inl (Panic ''cofs_dirlink'') else Inr (0, c)))))"

definition cofs_link :: "u8 list \<Rightarrow> nat \<Rightarrow> nat \<Rightarrow> u8 list \<Rightarrow> cofs \<Rightarrow> (int \<times> cofs) kres" where
  "cofs_link junk parent n name c =
     bnd (cofs_lock (Some n) c) (\<lambda>c.
     bnd (cofs_update_node n (nset n (\<lambda>node. node\<lparr>n_num_links := n_num_links node + 1\<rparr>) c)) (\<lambda>c.
     bnd (cofs_lock (Some parent) c) (\<lambda>c.
     bnd (cofs_dirlink junk parent name (n_inode (nd c n)) c) (\<lambda>(ret, c).
     bnd (cofs_unlock (Some parent) c) (\<lambda>c.
     bnd (cofs_unlock (Some n) c) (\<lambda>c.
     Inr (ret, c)))))))"

text \<open>
  \<open>make_node\<close>: the part \<open>cofs_mkdir\<close>, \<open>cofs_mknod\<close> and \<open>cofs_creat\<close> share: fail if the name exists,
  else allocate an inode and lock it. The outer option is the NULL they return for an existing
  name.
\<close>

definition make_node :: "u8 list \<Rightarrow> nat \<Rightarrow> u8 list \<Rightarrow> u16 \<Rightarrow> cofs \<Rightarrow> (nat option \<times> cofs) kres" where
  "make_node junk n name ty c =
     bnd (cofs_finddir junk n name c) (\<lambda>(p, c). case p of
       Some m \<Rightarrow> bnd (cofs_put_node m c) (\<lambda>c. Inr (None, c))
     | None \<Rightarrow>
         bnd (inode_alloc ty c) (\<lambda>(p, c).
         bnd (cofs_lock p c) (\<lambda>c. case p of
           None \<Rightarrow> Inl Fault
         | Some m \<Rightarrow> bnd (set_name m name c) (\<lambda>c. Inr (Some m, c)))))"

text \<open>\<open>link_in\<close>: lock the parent, enter the new node, unlock; the result of \<open>cofs_dirlink\<close> is dropped.\<close>

definition link_in :: "u8 list \<Rightarrow> nat \<Rightarrow> u8 list \<Rightarrow> nat \<Rightarrow> cofs \<Rightarrow> (nat option \<times> cofs) kres" where
  "link_in junk n name m c =
     bnd (cofs_lock (Some n) c) (\<lambda>c.
     bnd (cofs_dirlink junk n name (n_inode (nd c m)) c) (\<lambda>(_, c).
     bnd (cofs_unlock (Some n) c) (\<lambda>c. Inr (Some m, c))))"

definition cofs_mkdir :: "u8 list \<Rightarrow> nat \<Rightarrow> u8 list \<Rightarrow> u32 \<Rightarrow> cofs \<Rightarrow> (nat option \<times> cofs) kres" where
  "cofs_mkdir junk n name mode c =
     bnd (make_node junk n name FS_DIRECTORY c) (\<lambda>(p, c). case p of
       None \<Rightarrow> Inr (None, c)
     | Some m \<Rightarrow>
         bnd (cofs_dirlink junk m [46, 0] (n_inode (nd c m))
               (nset m (\<lambda>node. node\<lparr>n_mask := mode, n_num_links := 1\<rparr>) c)) (\<lambda>(_, c).
         bnd (cofs_dirlink junk m [46, 46, 0] (n_inode (nd c n)) c) (\<lambda>(_, c).
         bnd (cofs_update_node m c) (\<lambda>c.
         bnd (cofs_unlock (Some m) c) (\<lambda>c.
         link_in junk n name m c)))))"

definition cofs_mknod :: "u8 list \<Rightarrow> nat \<Rightarrow> u8 list \<Rightarrow> u32 \<Rightarrow> u32 \<Rightarrow> cofs \<Rightarrow> (nat option \<times> cofs) kres" where
  "cofs_mknod junk n name mode dev c =
     bnd (make_node junk n name (ucast ((dev AND ucast FS_IFMT) OR (mode AND 0xFF))) c) (\<lambda>(p, c). case p of
       None \<Rightarrow> Inr (None, c)
     | Some m \<Rightarrow>
         let dev = dev AND NOT (ucast FS_IFMT) in
         bnd (cofs_update_node m (nset m (\<lambda>node. node\<lparr>n_major := major (ucast dev), n_minor := minor (ucast dev),
               n_mask := mode, n_num_links := 1\<rparr>) c)) (\<lambda>c.
         bnd (cofs_unlock (Some m) c) (\<lambda>c.
         link_in junk n name m c)))"

definition cofs_creat :: "u8 list \<Rightarrow> nat \<Rightarrow> u8 list \<Rightarrow> u32 \<Rightarrow> cofs \<Rightarrow> (nat option \<times> cofs) kres" where
  "cofs_creat junk n name mode c =
     kassert (n_type (nd c n) AND FS_DIRECTORY \<noteq> 0) ''node->type & FS_DIRECTORY''
      (bnd (make_node junk n name FS_FILE c) (\<lambda>(p, c). case p of
        None \<Rightarrow> Inr (None, c)
      | Some m \<Rightarrow>
          bnd (cofs_update_node m (nset m (\<lambda>node. node\<lparr>n_mask := mode, n_num_links := 1\<rparr>) c)) (\<lambda>c.
          bnd (cofs_unlock (Some m) c) (\<lambda>c.
          link_in junk n name m c))))"

definition cofs_unlink :: "u8 list \<Rightarrow> nat \<Rightarrow> u8 list \<Rightarrow> cofs \<Rightarrow> (int \<times> cofs) kres" where
  "cofs_unlink junk parent name c =
     bnd (cofs_finddir junk parent name c) (\<lambda>(p, c). case p of
       None \<Rightarrow> Inr (- 1, c)
     | Some m \<Rightarrow>
         bnd (cofs_lock (Some m) c) (\<lambda>c.
         bnd (cofs_lock (Some parent) c) (\<lambda>c.
         bnd (dir_scan parent (name_is (n_name (nd c m))) 0 junk c) (\<lambda>((found, offs, dir), c).
         kassert found ''found''
         (bnd (cofs_write parent offs (of_nat DIRENT_SIZE) (le32 0 @ replicate DIRSIZE 0) c) (\<lambda>(w, c).
          if w \<noteq> of_nat DIRENT_SIZE then Inl (Panic ''cofs_unlink'')
          else
            bnd (cofs_update_node parent c) (\<lambda>c.
            bnd (cofs_unlock (Some parent) c) (\<lambda>c.
            bnd (cofs_update_node m (nset m (\<lambda>node. node\<lparr>n_num_links := n_num_links node - 1\<rparr>) c)) (\<lambda>c.
            bnd (cofs_unlock (Some m) c) (\<lambda>c.
            bnd (cofs_put_node m c) (\<lambda>c.
            bnd (cofs_put_node parent c) (\<lambda>c.
            Inr (0, c)))))))))))))"

section \<open>Mounting\<close>

text \<open>\<open>cofs_init\<close>, on a fresh block cache \<open>q\<close>; \<open>mem\<close>: memory for nodes is available.\<close>

definition cofs_init :: "bool \<Rightarrow> buf_queue \<Rightarrow> (nat \<times> cofs) kres" where
  "cofs_init mem q =
     bnd (get_superblock q) (\<lambda>(sb, q).
     if magic sb \<noteq> COFS_MAGIC then Inl (Panic ''Invalid file system, cannot find COFS_MAGIC'')
     else
       bnd (cofs_get_node COFS_ROOT_INUM
             \<lparr>hq = q, superb = sb, cache = [], cache_lock = False, node_mem = mem\<rparr>) (\<lambda>(p, c).
       bnd (cofs_lock p c) (\<lambda>c. case p of
         None \<Rightarrow> Inl Fault
       | Some n \<Rightarrow>
           if n_type (nd c n) \<noteq> FS_DIRECTORY then Inl (Panic ''root is not a directory'')
           else
             bnd (strcpy (n_name (nd c n)) [47, 0]) (\<lambda>nm.
             bnd (cofs_unlock p (nset n (n_name_update (\<lambda>_. nm)) c)) (\<lambda>c.
             Inr (n, c))))))"

section \<open>What a search finds\<close>

text \<open>
  A directory of \<open>m\<close> entries whose blocks are allocated; \<open>dir_entry\<close> is its entry \<open>k\<close>.
\<close>

definition dir_entry :: "(u32 \<Rightarrow> u8 list) \<Rightarrow> u32 list \<Rightarrow> nat \<Rightarrow> u8 list" where
  "dir_entry v addrs k = map (file_byte v addrs) [DIRENT_SIZE * k..<DIRENT_SIZE * k + DIRENT_SIZE]"

definition dir_ok :: "cofs \<Rightarrow> nat \<Rightarrow> u32 list \<Rightarrow> nat \<Rightarrow> bool" where
  "dir_ok c n addrs m \<longleftrightarrow> file_ok c n addrs \<and> unat (n_size (nd c n)) = DIRENT_SIZE * m \<and> DIRENT_SIZE * m < 2 ^ 31 \<and>
     (\<forall>p<DIRENT_SIZE * m. mapped (hq c) addrs (p div BLOCK_SIZE))"

text \<open>\<open>dir_part\<close>: the first \<open>m\<close> entries of the directory are in place, whatever there is behind them.\<close>

definition dir_part :: "cofs \<Rightarrow> nat \<Rightarrow> u32 list \<Rightarrow> nat \<Rightarrow> bool" where
  "dir_part c n addrs m \<longleftrightarrow> file_ok c n addrs \<and> DIRENT_SIZE * m \<le> unat (n_size (nd c n)) \<and> DIRENT_SIZE * m < 2 ^ 31 \<and>
     (\<forall>p<DIRENT_SIZE * m. mapped (hq c) addrs (p div BLOCK_SIZE))"

lemma dir_ok_part: "dir_ok c n addrs m \<Longrightarrow> dir_part c n addrs m"
  by (simp add: dir_ok_def dir_part_def)

lemma dir_ok_same_disk:
  "dir_ok c n addrs m \<Longrightarrow> same_disk (hq c) q \<Longrightarrow> dir_ok (c\<lparr>hq := q\<rparr>) n addrs m"
  by (simp add: dir_ok_def mapped_same_disk file_ok_hq) (simp add: same_disk_def nd_def file_ok_hq)

lemma dir_part_same_disk:
  "dir_part c n addrs m \<Longrightarrow> same_disk (hq c) q \<Longrightarrow> dir_part (c\<lparr>hq := q\<rparr>) n addrs m"
  by (simp add: dir_part_def mapped_same_disk file_ok_hq) (simp add: same_disk_def nd_def file_ok_hq)

lemma DIRENT_SIZE_eq: "DIRENT_SIZE = 32"
  by (simp add: DIRENT_SIZE_def DIRSIZE_def)

lemma dirent_offset: "32 * k < 2 ^ 31 \<Longrightarrow> unat (of_nat (DIRENT_SIZE * k) :: u32) = 32 * k"
  by (simp add: DIRENT_SIZE_eq unat_of_nat del: of_nat_mult)

lemma read_entry:
  assumes "dir_part c n addrs m" and "k < m"
  shows "\<exists>q'. cofs_read n (of_nat (DIRENT_SIZE * k)) (of_nat DIRENT_SIZE) c =
    Inr (dir_entry (view (hq c)) addrs k, c\<lparr>hq := q'\<rparr>) \<and> same_disk (hq c) q'"
proof -
  define o' where "o' = (of_nat (DIRENT_SIZE * k) :: u32)"
  have size: "32 * m \<le> unat (n_size (nd c n))" "32 * m < 2 ^ 31"
    using assms(1) by (simp_all add: dir_part_def DIRENT_SIZE_eq)
  have o: "unat o' = 32 * k" unfolding o'_def using size(2) assms(2) by (intro dirent_offset) simp
  have s: "unat (o' + of_nat DIRENT_SIZE) = 32 * k + 32"
    using size(2) assms(2) o by (simp add: unat_word_ariths DIRENT_SIZE_eq)
  have le: "\<not> n_size (nd c n) < o'" "\<not> n_size (nd c n) < o' + of_nat DIRENT_SIZE"
    using assms(2) size o s by (simp_all add: word_less_nat_alt)
  have m: "\<forall>p. unat o' \<le> p \<and> p < unat o' + 32 \<longrightarrow> mapped (hq c) addrs (p div BLOCK_SIZE)"
    using assms o by (auto simp: dir_part_def DIRENT_SIZE_eq)
  have f: "file_ok c n addrs" using assms(1) by (simp add: dir_part_def)
  have "unat o' + 32 < 2 ^ 32" using o size(2) assms(2) by simp
  from read_loop_mapped [OF f this m] le o show ?thesis
    unfolding o'_def [symmetric] by (simp add: cofs_read_def dir_entry_def DIRENT_SIZE_eq)
qed

lemma read_end:
  assumes "dir_ok c n addrs m"
  shows "cofs_read n (of_nat (DIRENT_SIZE * m)) (of_nat DIRENT_SIZE) c = Inr ([], c)"
proof -
  define o' where "o' = (of_nat (DIRENT_SIZE * m) :: u32)"
  have size: "unat (n_size (nd c n)) = 32 * m" "32 * m < 2 ^ 31"
    using assms by (simp_all add: dir_ok_def DIRENT_SIZE_eq)
  have o: "unat o' = 32 * m" unfolding o'_def using size(2) by (rule dirent_offset)
  have eq: "n_size (nd c n) = o'" using o size(1) by (metis word_unat_eq_iff)
  have s: "unat (o' + of_nat DIRENT_SIZE) = 32 * m + 32"
    using size(2) o by (simp add: unat_word_ariths DIRENT_SIZE_eq)
  have "o' < o' + of_nat DIRENT_SIZE" using o s by (simp add: word_less_nat_alt)
  with eq show ?thesis unfolding o'_def [symmetric] by (simp add: cofs_read_def read_loop.simps)
qed

lemma length_dir_entry [simp]: "length (dir_entry v addrs k) = DIRENT_SIZE"
  by (simp add: dir_entry_def)

text \<open>One round of the scan.\<close>

lemma dir_scan_step:
  assumes "dir_part c n addrs m" and "k < m" and "length dir = DIRENT_SIZE"
    and "test (dir_entry (view (hq c)) addrs k) = Inr stop"
  shows "\<exists>q'. same_disk (hq c) q' \<and> dir_scan n test (of_nat (DIRENT_SIZE * k)) dir c =
    (if stop then Inr ((True, of_nat (DIRENT_SIZE * k), dir_entry (view (hq c)) addrs k), c\<lparr>hq := q'\<rparr>)
     else dir_scan n test (of_nat (DIRENT_SIZE * Suc k)) (dir_entry (view (hq c)) addrs k) (c\<lparr>hq := q'\<rparr>))"
proof -
  let ?e = "dir_entry (view (hq c)) addrs k"
  from read_entry [OF assms(1,2)] obtain q1 where
    q1: "cofs_read n (of_nat (DIRENT_SIZE * k)) (of_nat DIRENT_SIZE) c = Inr (?e, c\<lparr>hq := q1\<rparr>)" "same_disk (hq c) q1" by blast
  have ne: "?e \<noteq> []" by (metis length_dir_entry DIRENT_SIZE_eq list.size(3) zero_neq_numeral)
  have cat: "?e @ drop (length ?e) dir = ?e" using assms(3) by simp
  have offs: "of_nat (DIRENT_SIZE * k) + of_nat (length ?e) = (of_nat (DIRENT_SIZE * Suc k) :: u32)" by (simp add: algebra_simps)
  show ?thesis
    using q1 ne assms(4) unfolding dir_scan.simps [of n test "of_nat (DIRENT_SIZE * k)" dir c]
    by (intro exI [of _ q1]) (simp add: cat offs Let_def del: of_nat_mult length_dir_entry)
qed

text \<open>The scan stops at the first entry that satisfies the test, or at the end.\<close>

lemma dir_scan_hit:
  assumes "dir_part c n addrs m" and "k \<le> j" and "j < m" and "length dir = DIRENT_SIZE"
    and "\<And>i. k \<le> i \<Longrightarrow> i < j \<Longrightarrow> test (dir_entry (view (hq c)) addrs i) = Inr False"
    and "test (dir_entry (view (hq c)) addrs j) = Inr True"
  shows "\<exists>q'. dir_scan n test (of_nat (DIRENT_SIZE * k)) dir c =
    Inr ((True, of_nat (DIRENT_SIZE * j), dir_entry (view (hq c)) addrs j), c\<lparr>hq := q'\<rparr>) \<and> same_disk (hq c) q'"
  using assms
proof (induction "j - k" arbitrary: k dir c)
  case 0
  then have "k = j" by simp
  with dir_scan_step [OF 0(2,4,5), of test True] 0 show ?case by auto
next
  case (Suc d)
  then have k: "k < m" "test (dir_entry (view (hq c)) addrs k) = Inr False" by simp_all
  from dir_scan_step [where test = test, OF Suc.prems(1) k(1) Suc.prems(4) k(2)] obtain q1 where
    q1: "same_disk (hq c) q1" "dir_scan n test (of_nat (DIRENT_SIZE * k)) dir c =
      dir_scan n test (of_nat (DIRENT_SIZE * Suc k)) (dir_entry (view (hq c)) addrs k) (c\<lparr>hq := q1\<rparr>)" by auto
  have v1: "view q1 = view (hq c)" using q1(1) by (simp add: same_disk_def)
  have "\<exists>q'. dir_scan n test (of_nat (DIRENT_SIZE * Suc k)) (dir_entry (view (hq c)) addrs k) (c\<lparr>hq := q1\<rparr>) =
      Inr ((True, of_nat (DIRENT_SIZE * j), dir_entry (view (hq (c\<lparr>hq := q1\<rparr>))) addrs j), c\<lparr>hq := q1\<rparr>\<lparr>hq := q'\<rparr>) \<and>
      same_disk (hq (c\<lparr>hq := q1\<rparr>)) q'"
    by (rule Suc.hyps(1)) (use Suc.hyps(2) Suc.prems dir_part_same_disk [OF Suc.prems(1) q1(1)] v1 in simp_all)
  with q1 v1 same_disk_trans [OF q1(1)] show ?case by auto
qed

lemma dir_scan_first:
  assumes "dir_ok c n addrs m" and "k \<le> m" and "length dir = DIRENT_SIZE"
    and "\<And>j. k \<le> j \<Longrightarrow> j < m \<Longrightarrow> test (dir_entry (view (hq c)) addrs j) = Inr (P j)"
  shows "\<exists>q' r. dir_scan n test (of_nat (DIRENT_SIZE * k)) dir c = Inr (r, c\<lparr>hq := q'\<rparr>) \<and> same_disk (hq c) q' \<and>
    (case find P [k..<m] of
       Some j \<Rightarrow> r = (True, of_nat (DIRENT_SIZE * j), dir_entry (view (hq c)) addrs j)
     | None \<Rightarrow> fst r = False \<and> fst (snd r) = of_nat (DIRENT_SIZE * m) \<and> length (snd (snd r)) = DIRENT_SIZE)"
  using assms
proof (induction "m - k" arbitrary: k dir c)
  case 0
  then have "k = m" by simp
  with 0 read_end [OF 0(2)] show ?case
    by (intro exI [of _ "hq c"]) (auto simp: dir_scan.simps [of n test _ dir c] same_disk_def dir_ok_def file_ok_def)
next
  case (Suc d)
  then have k: "k < m" and upt: "[k..<m] = k # [Suc k..<m]" by (simp_all add: upt_rec)
  let ?e = "dir_entry (view (hq c)) addrs k"
  have "test ?e = Inr (P k)" using Suc.prems(4) k by simp
  from dir_scan_step [where test = test, OF dir_ok_part [OF Suc.prems(1)] k Suc.prems(3) this] obtain q1 where
    q1: "same_disk (hq c) q1" "dir_scan n test (of_nat (DIRENT_SIZE * k)) dir c =
      (if P k then Inr ((True, of_nat (DIRENT_SIZE * k), ?e), c\<lparr>hq := q1\<rparr>)
       else dir_scan n test (of_nat (DIRENT_SIZE * Suc k)) ?e (c\<lparr>hq := q1\<rparr>))" by blast
  show ?case
  proof (cases "P k")
    case True
    with q1 show ?thesis by (intro exI [of _ q1]) (simp add: upt)
  next
    case False
    have v1: "view (hq (c\<lparr>hq := q1\<rparr>)) = view (hq c)" using q1(1) by (simp add: same_disk_def)
    have rec: "(c\<lparr>hq := q1\<rparr>)\<lparr>hq := q'\<rparr> = c\<lparr>hq := q'\<rparr>" "hq (c\<lparr>hq := q1\<rparr>) = q1" for q' by simp_all
    have d: "d = m - Suc k" and le: "Suc k \<le> m" using Suc.hyps(2) k by simp_all
    have tests: "test (dir_entry (view (hq (c\<lparr>hq := q1\<rparr>))) addrs j) = Inr (P j)" if "Suc k \<le> j" "j < m" for j
      using Suc.prems(4) that unfolding v1 by simp
    from Suc.hyps(1) [OF d dir_ok_same_disk [OF Suc.prems(1) q1(1)] le length_dir_entry tests, unfolded v1, unfolded rec]
    obtain q2 r where q2: "dir_scan n test (of_nat (DIRENT_SIZE * Suc k)) ?e (c\<lparr>hq := q1\<rparr>) = Inr (r, c\<lparr>hq := q2\<rparr>)" "same_disk q1 q2"
      "case find P [Suc k..<m] of
         Some j \<Rightarrow> r = (True, of_nat (DIRENT_SIZE * j), dir_entry (view (hq c)) addrs j)
       | None \<Rightarrow> fst r = False \<and> fst (snd r) = of_nat (DIRENT_SIZE * m) \<and> length (snd (snd r)) = DIRENT_SIZE" by blast
    with False q1(2) same_disk_trans [OF q1(1) q2(2)] show ?thesis
      by (intro exI [of _ q2] exI [of _ r]) (simp add: upt del: of_nat_mult)
  qed
qed

section \<open>Properties\<close>

lemma name_is_eq: "cstr t (d_name e) \<Longrightarrow> cstr s name \<Longrightarrow> name_is name e = Inr (t = s)"
  using strcmp_cstr [of t "d_name e" s name] by (auto simp: name_is_def)

lemma finddir_scan:
  assumes "dir_ok c n addrs m" and "length junk = DIRENT_SIZE" and "cstr s name"
    and "\<forall>j<m. cstr (nm j) (d_name (dir_entry (view (hq c)) addrs j))"
  shows "\<exists>q' r. dir_scan n (name_is name) 0 junk c = Inr (r, c\<lparr>hq := q'\<rparr>) \<and> same_disk (hq c) q' \<and>
    (case find (\<lambda>j. nm j = s) [0..<m] of
       Some j \<Rightarrow> r = (True, of_nat (DIRENT_SIZE * j), dir_entry (view (hq c)) addrs j)
     | None \<Rightarrow> fst r = False \<and> fst (snd r) = of_nat (DIRENT_SIZE * m) \<and> length (snd (snd r)) = DIRENT_SIZE)"
  using dir_scan_first [OF assms(1) _ assms(2), of 0 "name_is name" "\<lambda>j. nm j = s"] assms(3,4)
  by (simp add: name_is_eq)

text \<open>
  \<open>cofs_finddir\<close> (\<open>cofs.c\<close>) on a directory that does not have the name returns NULL; it
  terminates and changes nothing on the disk or in the inode cache.
\<close>

theorem finddir_absent:
  assumes "dir_ok c n addrs m" and "n_type (nd c n) AND FS_DIRECTORY \<noteq> 0"
    and "length junk = DIRENT_SIZE" and "cstr s name"
    and "\<forall>j<m. cstr (nm j) (d_name (dir_entry (view (hq c)) addrs j)) \<and> nm j \<noteq> s"
  shows "\<exists>q'. cofs_finddir junk n name c = Inr (None, c\<lparr>hq := q'\<rparr>) \<and> view q' = view (hq c)"
proof -
  have none: "find (\<lambda>j. nm j = s) [0..<m] = None" using assms(5) by (simp add: find_None_iff)
  obtain q' r where "dir_scan n (name_is name) 0 junk c = Inr (r, c\<lparr>hq := q'\<rparr>)" "same_disk (hq c) q'" "fst r = False"
    using finddir_scan [OF assms(1,3,4), of nm] assms(5) unfolding none by auto
  with assms(2) show ?thesis by (cases r) (auto simp: cofs_finddir_def same_disk_def)
qed

lemma finddir_hit:
  assumes "dir_ok c n addrs m" and "n_type (nd c n) AND FS_DIRECTORY \<noteq> 0"
    and "length junk = DIRENT_SIZE" and "cstr s name"
    and "\<forall>j<m. cstr (nm j) (d_name (dir_entry (view (hq c)) addrs j))"
    and "j < m" and "nm j = s" and "\<forall>i<j. nm i \<noteq> s"
    and "d_inode (dir_entry (view (hq c)) addrs j) = inum" and "inum \<noteq> 0" and "inum \<noteq> 1"
    and "\<not> cache_lock c" and "find_node (cache c) inum = Some k" and "n_type (nd c k) \<noteq> 0"
    and "\<not> n_lock (nd c k)" and "n_ref_count (nd c k) \<ge> 0" and "length (n_name (nd c k)) = 256"
  shows "\<exists>q'. cofs_finddir junk n name c = Inr (Some k,
      nset k (\<lambda>node. node\<lparr>n_ref_count := n_ref_count node + 1,
        n_name := take 255 s @ replicate (255 - length s) 0 @ drop 255 (n_name node),
        n_lock := False\<rparr>) (c\<lparr>hq := q'\<rparr>)) \<and>
    same_disk (hq c) q'"
proof -
  have first: "find (\<lambda>j. nm j = s) [0..<m] = Some j"
    using assms(6-8) by (auto simp: find_Some_iff intro!: exI [of _ j])
  obtain q' where q': "dir_scan n (name_is name) 0 junk c =
      Inr ((True, of_nat (DIRENT_SIZE * j), dir_entry (view (hq c)) addrs j), c\<lparr>hq := q'\<rparr>)" "same_disk (hq c) q'"
    using finddir_scan [OF assms(1,3,4,5)] unfolding first by auto
  have k: "k < length (cache c)" "n_inode (nd c k) = inum"
    using find_node_SomeD [OF assms(13)] by (simp_all add: nd_def)
  have sn: "strncpy (n_name (nd c k)) name 255 =
      Inr (take 255 s @ replicate (255 - length s) 0 @ drop 255 (n_name (nd c k)))"
    using strncpy_cstr [OF assms(4), of 255 "n_name (nd c k)"] assms(17) by simp
  have "cofs_finddir junk n name c = Inr (Some k,
      nset k (\<lambda>node. node\<lparr>n_ref_count := n_ref_count node + 1,
        n_name := take 255 s @ replicate (255 - length s) 0 @ drop 255 (n_name node),
        n_lock := False\<rparr>) (c\<lparr>hq := q'\<rparr>))"
    using q'(1) assms(2,9-16) k sn
    by (simp add: cofs_finddir_def cofs_get_node_def cofs_lock_def cofs_unlock_def set_name_def nset_def nd_def Let_def)
  with q'(2) show ?thesis by blast
qed

text \<open>
  \<open>cofs_finddir\<close> on a directory that has the name returns the node of the first entry with
  that name: for an inode that is in the cache with its data loaded, it takes one more
  reference on that node, gives it the name and leaves it unlocked.
\<close>

theorem finddir_present:
  assumes "dir_ok c n addrs m" and "n_type (nd c n) AND FS_DIRECTORY \<noteq> 0"
    and "length junk = DIRENT_SIZE" and "cstr s name"
    and "\<forall>j<m. cstr (nm j) (d_name (dir_entry (view (hq c)) addrs j))"
    and "j < m" and "nm j = s" and "\<forall>i<j. nm i \<noteq> s"
    and "d_inode (dir_entry (view (hq c)) addrs j) = inum" and "inum \<noteq> 0" and "inum \<noteq> 1"
    and "\<not> cache_lock c" and "find_node (cache c) inum = Some k" and "n_type (nd c k) \<noteq> 0"
    and "\<not> n_lock (nd c k)" and "n_ref_count (nd c k) \<ge> 0" and "length (n_name (nd c k)) = 256"
  shows "\<exists>q'. cofs_finddir junk n name c = Inr (Some k,
      nset k (\<lambda>node. node\<lparr>n_ref_count := n_ref_count node + 1,
        n_name := take 255 s @ replicate (255 - length s) 0 @ drop 255 (n_name node),
        n_lock := False\<rparr>) (c\<lparr>hq := q'\<rparr>)) \<and>
    view q' = view (hq c)"
  using finddir_hit [OF assms] by (auto simp: same_disk_def)

text \<open>A root directory in block 20 with one entry, the file \<open>a\<close> with inode 7, which is cached.\<close>

definition dir_disk :: "u32 \<Rightarrow> u8 list" where
  "dir_disk b = (if b = 20 then [7, 0, 0, 0, 97] @ replicate 507 0 else replicate 512 0)"

definition dir_fs :: cofs where
  "dir_fs = \<lparr>hq = hd_queue_init 0 dir_disk
       (Some \<lparr>block_no = 0, is_dirty = False, ref_count = 0, hb_lock = False, hb_data = []\<rparr>),
     superb = sample_sb,
     cache = [zero_node\<lparr>n_inode := 1, n_ref_count := 1, n_type := FS_DIRECTORY, n_num_links := 1, n_size := 32,
         n_addrs := Some sample_addrs\<rparr>,
       zero_node\<lparr>n_inode := 7, n_ref_count := 0, n_type := FS_FILE, n_num_links := 1,
         n_addrs := Some (replicate 9 0)\<rparr>],
     cache_lock = False, node_mem = True\<rparr>"

lemma dir_fs_ok: "dir_ok dir_fs 0 sample_addrs 1"
proof -
  have ok: "hq_ok (hq dir_fs) {}"
    unfolding dir_fs_def by (simp, rule hd_queue_init_ok) (simp add: dir_disk_def BLOCK_SIZE_def)
  have v: "valid_blk (hq dir_fs) 20" by (simp add: dir_fs_def hd_queue_init_def valid_blk_def)
  have "mapped (hq dir_fs) sample_addrs (p div BLOCK_SIZE)" if "p < 32" for p
    using that v by (simp add: mapped_def sample_file_addr idx_defs BLOCK_SIZE_def)
  with ok show ?thesis
    by (simp add: dir_ok_def file_ok_def DIRENT_SIZE_eq) (simp add: dir_fs_def nd_def sample_addrs_def)
qed

lemma map_upt_take: "(\<And>p. p < n \<Longrightarrow> f p = xs ! p) \<Longrightarrow> n \<le> length xs \<Longrightarrow> map f [0..<n] = take n xs"
  by (intro nth_equalityI) auto

lemma dir_fs_entry: "dir_entry (view (hq dir_fs)) sample_addrs 0 = [7, 0, 0, 0, 97] @ replicate 27 0"
proof -
  have "file_byte (view (hq dir_fs)) sample_addrs p = ([7, 0, 0, 0, 97] @ replicate 507 0) ! p" if "p < 32" for p
    using that init_view [of 20 dir_disk]
    by (simp add: file_byte_def sample_file_addr BLOCK_SIZE_def) (simp add: dir_fs_def dir_disk_def)
  then have "dir_entry (view (hq dir_fs)) sample_addrs 0 = take 32 ([7, 0, 0, 0, 97] @ replicate 507 0)"
    unfolding dir_entry_def DIRENT_SIZE_eq
    using map_upt_take [of 32 "file_byte (view (hq dir_fs)) sample_addrs" "[7, 0, 0, 0, 97] @ replicate 507 0"]
    by simp
  then show ?thesis by simp
qed

lemma dir_fs_name: "cstr [97] (d_name (dir_entry (view (hq dir_fs)) sample_addrs 0))"
  by (simp add: dir_fs_entry d_name_def cstr_def) (metis replicate_Suc numeral_eq_Suc)

lemma finddir_absent_witness:
  "\<exists>q'. cofs_finddir (replicate DIRENT_SIZE 0) 0 [98, 0] dir_fs = Inr (None, dir_fs\<lparr>hq := q'\<rparr>) \<and>
    view q' = view (hq dir_fs)"
proof -
  have "n_type (nd dir_fs 0) AND FS_DIRECTORY \<noteq> 0" by (simp add: dir_fs_def nd_def FS_DIRECTORY_def)
  moreover have "cstr [98] [98, 0]" by (simp add: cstr_def)
  moreover have "\<forall>j<1. cstr [97] (d_name (dir_entry (view (hq dir_fs)) sample_addrs j)) \<and> [97 :: u8] \<noteq> [98]"
    using dir_fs_name by simp
  ultimately show ?thesis
    using finddir_absent [OF dir_fs_ok, of "replicate DIRENT_SIZE 0" "[98]" "[98, 0]" "\<lambda>_. [97]"] by simp
qed

lemma finddir_present_witness:
  "\<exists>c'. cofs_finddir (replicate DIRENT_SIZE 0) 0 [97, 0] dir_fs = Inr (Some 1, c') \<and> n_ref_count (nd c' 1) = 1"
proof -
  have "n_type (nd dir_fs 0) AND FS_DIRECTORY \<noteq> 0" by (simp add: dir_fs_def nd_def FS_DIRECTORY_def)
  moreover have "cstr [97] [97, 0]" by (simp add: cstr_def)
  moreover have "\<forall>j<1. cstr [97] (d_name (dir_entry (view (hq dir_fs)) sample_addrs j))"
    using dir_fs_name by simp
  moreover have "d_inode (dir_entry (view (hq dir_fs)) sample_addrs 0) = 7"
    by (simp add: dir_fs_entry d_inode_def rd32_def)
  moreover have "\<not> cache_lock dir_fs" "find_node (cache dir_fs) 7 = Some 1" "n_type (nd dir_fs 1) \<noteq> 0"
      "\<not> n_lock (nd dir_fs 1)" "n_ref_count (nd dir_fs 1) = 0" "length (n_name (nd dir_fs 1)) = 256"
    by (simp_all add: dir_fs_def nd_def FS_FILE_def zero_node_def)
  ultimately show ?thesis
    using finddir_present [OF dir_fs_ok, of "replicate DIRENT_SIZE 0" "[97]" "[97, 0]" "\<lambda>_. [97]" 0 7 1]
    by (auto simp: nset_def nd_def dir_fs_def)
qed

end
