(* ===== verification/Pipe.thy ===== *)
theory Pipe
  imports Ring_Buf Fs_Node
begin

text \<open>
  Pipes (\<open>pipe.c\<close>): a buffer of 1024 bytes with free running read and write positions, a count of
  readers and writers, and operations that sleep. While a process holds the lock of the pipe it
  runs without interruption from the other side; it gives the lock up only to sleep. So an
  operation is a function from the pipe to the pipe it leaves and either its result or the fact
  that the process has unlocked the pipe to go to sleep, with what it still has to do when it is woken. The calls
  of \<open>wakeup\<close> are recorded in the order they are made; what they and \<open>sleep_on\<close> do to the two processes is the
  subject of the last sections, which keep the moment between \<open>spin_unlock\<close> and \<open>sleep_on\<close> as a step of its own.
\<close>

section \<open>State\<close>

definition PIPE_BUFFER_SIZE :: nat where
  "PIPE_BUFFER_SIZE = 1024"

definition O_RDONLY :: u16 where "O_RDONLY = 0"
definition O_WRONLY :: u16 where "O_WRONLY = 1"

text \<open>The addresses processes sleep on, \<open>&pipe->read_pos\<close> and \<open>&pipe->write_pos\<close>; \<open>p_wakes\<close> records the calls of \<open>wakeup\<close>.\<close>

datatype wait_pos = Read_pos | Write_pos

record vfs_pipe =
  p_buffer :: "u8 list"
  p_size :: u32
  p_readers :: u32
  p_writers :: u32
  p_read_pos :: u32
  p_write_pos :: u32
  p_lock :: bool
  p_wakes :: "wait_pos list"

definition pipe_wakeup :: "wait_pos \<Rightarrow> vfs_pipe \<Rightarrow> vfs_pipe" where
  "pipe_wakeup a p = p\<lparr>p_wakes := p_wakes p @ [a]\<rparr>"

datatype ('r, 'w) outcome = Returned 'r | Sleeping 'w

section \<open>Operations\<close>

text \<open>
  \<open>pipe_new\<close>: \<open>mem\<close> is the memory \<open>malloc(PIPE_BUFFER_SIZE)\<close> returned. The nodes for the two ends
  start with no reference.
\<close>

definition pipe_new :: "u8 list \<Rightarrow> vfs_pipe \<times> fs_node \<times> fs_node" where
  "pipe_new mem =
     (\<lparr>p_buffer = mem, p_size = of_nat PIPE_BUFFER_SIZE, p_readers = 0, p_writers = 0,
       p_read_pos = 0, p_write_pos = 0, p_lock = False, p_wakes = []\<rparr>,
      zero_node\<lparr>n_type := FS_PIPE, n_flags := O_RDONLY, n_ops := Pipe_ops\<rparr>,
      zero_node\<lparr>n_type := FS_PIPE, n_flags := O_WRONLY, n_ops := Pipe_ops\<rparr>)"

definition pipe_open :: "fs_node \<Rightarrow> u16 \<Rightarrow> vfs_pipe \<Rightarrow> (fs_node \<times> vfs_pipe) kres" where
  "pipe_open node flags p =
     (if p_lock p then Inl Deadlock
      else if flags = O_RDONLY then
        if n_flags node \<noteq> O_RDONLY then Inl (Panic ''read only side of pipe'')
        else Inr (node\<lparr>n_ref_count := n_ref_count node + 1\<rparr>, p\<lparr>p_readers := p_readers p + 1\<rparr>)
      else if flags = O_WRONLY then
        if n_flags node \<noteq> O_WRONLY then Inl (Panic ''write only side of pipe'')
        else Inr (node\<lparr>n_ref_count := n_ref_count node + 1\<rparr>, p\<lparr>p_writers := p_writers p + 1\<rparr>)
      else Inl (Panic ''pipe: unknown open mode''))"

text \<open>
  \<open>pipe_close\<close>: the result is the node, unless its last reference is dropped and it is freed, the pipe
  as it is at the end, and whether it is freed because there is neither reader nor writer left. The counters are
  unsigned, so the test \<open>pipe->readers <= 0\<close> is a test for 0.
\<close>

definition pipe_close :: "fs_node \<Rightarrow> vfs_pipe \<Rightarrow> (fs_node option \<times> vfs_pipe \<times> bool) kres" where
  "pipe_close node p =
     (if p_lock p then Inl Deadlock
      else
        bnd (if n_flags node = O_RDONLY then Inr (p\<lparr>p_readers := p_readers p - 1\<rparr>)
             else if n_flags node = O_WRONLY then Inr (p\<lparr>p_writers := p_writers p - 1\<rparr>)
             else Inl (Panic ''pipe: unknown open mode'')) (\<lambda>p.
        let p = pipe_wakeup (if n_flags node = O_RDONLY then Write_pos else Read_pos) p;
            node = node\<lparr>n_ref_count := n_ref_count node - 1\<rparr> in
        Inr (if n_ref_count node = 0 then None else Some node, p, p_readers p = 0 \<and> p_writers p = 0)))"

definition pipe_empty :: "vfs_pipe \<Rightarrow> bool" where
  "pipe_empty p \<longleftrightarrow> p_read_pos p = p_write_pos p"

definition pipe_full :: "vfs_pipe \<Rightarrow> bool" where
  "pipe_full p \<longleftrightarrow> p_write_pos p = p_read_pos p + p_size p"

definition pipe_getc :: "vfs_pipe \<Rightarrow> (u8 \<times> vfs_pipe) kres" where
  "pipe_getc p =
     (if p_size p = 0 then Inl Fault
      else bnd (aget (p_buffer p) (unat (p_read_pos p mod p_size p))) (\<lambda>c.
        Inr (c, p\<lparr>p_read_pos := p_read_pos p + 1\<rparr>)))"

definition pipe_putc :: "vfs_pipe \<Rightarrow> u8 \<Rightarrow> vfs_pipe kres" where
  "pipe_putc p c =
     (if p_size p = 0 then Inl Fault
      else bnd (aset (p_buffer p) (unat (p_write_pos p mod p_size p)) c) (\<lambda>buf.
        Inr (p\<lparr>p_buffer := buf, p_write_pos := p_write_pos p + 1\<rparr>)))"

text \<open>The \<open>for\<close> loop of \<open>pipe_read\<close>.\<close>

fun pipe_read_loop :: "vfs_pipe \<Rightarrow> nat \<Rightarrow> (u8 list \<times> vfs_pipe) kres" where
  "pipe_read_loop p 0 = Inr ([], p)"
| "pipe_read_loop p (Suc n) =
     (if pipe_empty p then Inr ([], p)
      else bnd (pipe_getc p) (\<lambda>(c, p).
        bnd (pipe_read_loop p n) (\<lambda>(cs, p). Inr (c # cs, p))))"

definition pipe_read :: "fs_node \<Rightarrow> nat \<Rightarrow> vfs_pipe \<Rightarrow> ((u8 list, nat) outcome \<times> vfs_pipe) kres" where
  "pipe_read node sz p =
     (if n_flags node \<noteq> O_RDONLY then Inl (Panic ''pipe side not opened read only'')
      else if p_lock p then Inl Deadlock
      else if pipe_empty p \<and> p_writers p > 0 then Inr (Sleeping sz, p)
      else bnd (pipe_read_loop p sz) (\<lambda>(cs, p). Inr (Returned cs, pipe_wakeup Write_pos p)))"

text \<open>
  The \<open>for\<close> loop of \<open>pipe_write\<close> over the bytes that are left. \<open>Returned False\<close> is the return of 0
  when nobody reads, \<open>Returned True\<close> the end of the loop. Readers are woken before the writer sleeps and at the end.
\<close>

fun pipe_write_loop :: "vfs_pipe \<Rightarrow> u8 list \<Rightarrow> ((bool, u8 list) outcome \<times> vfs_pipe) kres" where
  "pipe_write_loop p [] = Inr (Returned True, pipe_wakeup Read_pos p)"
| "pipe_write_loop p (c # cs) =
     (if pipe_full p then
        if p_readers p = 0 then Inr (Returned False, p) else Inr (Sleeping (c # cs), pipe_wakeup Read_pos p)
      else bnd (pipe_putc p c) (\<lambda>p. pipe_write_loop p cs))"

definition pipe_write :: "fs_node \<Rightarrow> u8 list \<Rightarrow> vfs_pipe \<Rightarrow> ((bool, u8 list) outcome \<times> vfs_pipe) kres" where
  "pipe_write node buffer p =
     (if p_lock p then Inl Deadlock
      else if n_flags node \<noteq> O_WRONLY then Inl (Panic ''pipe side not opened write only'')
      else pipe_write_loop p buffer)"

section \<open>The pipe is a bounded queue\<close>

definition pipe_items :: "vfs_pipe \<Rightarrow> u8 list" where
  "pipe_items p = ring_items (p_buffer p) (p_size p) (p_read_pos p) (p_write_pos p)"

definition pipe_ok :: "vfs_pipe \<Rightarrow> bool" where
  "pipe_ok p \<longleftrightarrow> ring_ok (p_buffer p) (p_size p) (p_read_pos p) (p_write_pos p) \<and> \<not> p_lock p"

lemma pipe_ok_lock: "pipe_ok p \<Longrightarrow> \<not> p_lock p"
  by (simp add: pipe_ok_def)

lemma pipe_wakeup_simps [simp]:
  "pipe_ok (pipe_wakeup a p) = pipe_ok p" "pipe_items (pipe_wakeup a p) = pipe_items p" "p_size (pipe_wakeup a p) = p_size p"
  "p_readers (pipe_wakeup a p) = p_readers p" "p_writers (pipe_wakeup a p) = p_writers p" "p_wakes (pipe_wakeup a p) = p_wakes p @ [a]"
  by (simp_all add: pipe_wakeup_def pipe_ok_def pipe_items_def)

lemma pipe_putc_spec:
  assumes ok: "pipe_ok p" and room: "length (pipe_items p) < unat (p_size p)"
  shows "\<exists>p'. pipe_putc p c = Inr p' \<and> pipe_ok p' \<and> pipe_items p' = pipe_items p @ [c] \<and>
    p_size p' = p_size p \<and> p_readers p' = p_readers p \<and> p_writers p' = p_writers p \<and> p_wakes p' = p_wakes p"
proof -
  from ok have r: "ring_ok (p_buffer p) (p_size p) (p_read_pos p) (p_write_pos p)" by (simp add: pipe_ok_def)
  from room have lt: "p_write_pos p - p_read_pos p < p_size p"
    by (simp add: pipe_items_def word_less_nat_alt)
  show ?thesis
    using ring_ok_nonzero [OF r] ring_slot_less [OF r, of "p_write_pos p"] ok
    by (simp add: pipe_putc_def pipe_ok_def pipe_items_def unat_mod ring_items_put [OF r lt] ring_ok_put [OF r lt])
qed

lemma pipe_getc_spec:
  assumes ok: "pipe_ok p" and ne: "pipe_items p = c # cs"
  shows "\<exists>p'. pipe_getc p = Inr (c, p') \<and> pipe_ok p' \<and> pipe_items p' = cs \<and>
    p_size p' = p_size p \<and> p_readers p' = p_readers p \<and> p_writers p' = p_writers p \<and> p_wakes p' = p_wakes p"
proof -
  from ok have r: "ring_ok (p_buffer p) (p_size p) (p_read_pos p) (p_write_pos p)" by (simp add: pipe_ok_def)
  from ne have "length (pipe_items p) \<noteq> 0" by simp
  then have hd: "p_write_pos p \<noteq> p_read_pos p" by (auto simp: pipe_items_def)
  show ?thesis
    using ring_items_get [OF r hd] ring_ok_nonzero [OF r] ring_slot_less [OF r, of "p_read_pos p"] ne ok
    by (simp add: pipe_getc_def pipe_ok_def pipe_items_def unat_mod ring_ok_get [OF r hd])
qed

lemma pipe_full_eq: "pipe_full p \<longleftrightarrow> p_write_pos p - p_read_pos p = p_size p"
  by (auto simp: pipe_full_def algebra_simps)

interpretation pipeq: bounded_fifo pipe_putc pipe_getc pipe_empty pipe_full pipe_items
  "\<lambda>p. unat (p_size p)" pipe_ok
proof unfold_locales
  fix q x xs
  assume ok: "pipe_ok q"
  show "length (pipe_items q) < unat (p_size q) \<Longrightarrow>
      \<exists>q'. pipe_putc q x = Inr q' \<and> pipe_ok q' \<and> pipe_items q' = pipe_items q @ [x]
        \<and> unat (p_size q') = unat (p_size q)"
    using pipe_putc_spec [OF ok] by fastforce
  show "pipe_items q = x # xs \<Longrightarrow>
      \<exists>q'. pipe_getc q = Inr (x, q') \<and> pipe_ok q' \<and> pipe_items q' = xs
        \<and> unat (p_size q') = unat (p_size q)"
    using pipe_getc_spec [OF ok] by fastforce
  show "pipe_empty q \<longleftrightarrow> pipe_items q = []"
    by (metis pipe_empty_def pipe_items_def ring_items_length length_0_conv unat_0_iff right_minus_eq)
  show "length (pipe_items q) \<le> unat (p_size q)"
    using ok by (simp add: pipe_ok_def ring_ok_def pipe_items_def word_le_nat_alt)
  show "pipe_full q \<longleftrightarrow> length (pipe_items q) = unat (p_size q)"
    by (simp add: pipe_full_eq pipe_items_def word_unat_eq_iff)
qed

section \<open>What one call does\<close>

lemma pipe_read_loop_ok:
  "pipe_ok p \<Longrightarrow> \<exists>p'. pipe_read_loop p n = Inr (take n (pipe_items p), p') \<and> pipe_ok p' \<and>
     pipe_items p' = drop n (pipe_items p) \<and> p_size p' = p_size p \<and> p_readers p' = p_readers p \<and>
     p_writers p' = p_writers p \<and> p_wakes p' = p_wakes p"
proof (induction n arbitrary: p)
  case (Suc n)
  show ?case
  proof (cases "pipe_items p")
    case Nil
    with Suc.prems pipeq.is_empty_spec show ?thesis by simp
  next
    case (Cons c cs)
    from pipe_getc_spec [OF Suc.prems Cons] obtain p1 where
      p1: "pipe_getc p = Inr (c, p1)" "pipe_ok p1" "pipe_items p1 = cs" "p_size p1 = p_size p"
        "p_readers p1 = p_readers p" "p_writers p1 = p_writers p" "p_wakes p1 = p_wakes p" by blast
    from Suc.IH [OF p1(2)] p1 Cons Suc.prems pipeq.is_empty_spec show ?thesis by auto
  qed
qed simp

lemma pipe_write_loop_ok:
  "pipe_ok p \<Longrightarrow> \<exists>p' k. pipe_write_loop p cs =
      Inr (if k = length cs then Returned True else if p_readers p = 0 then Returned False
           else Sleeping (drop k cs), p') \<and> pipe_ok p' \<and>
     pipe_items p' = pipe_items p @ take k cs \<and> k = min (length cs) (unat (p_size p) - length (pipe_items p)) \<and>
     p_size p' = p_size p \<and> p_readers p' = p_readers p \<and> p_writers p' = p_writers p \<and>
     p_wakes p' = p_wakes p @ (if k = length cs \<or> p_readers p \<noteq> 0 then [Read_pos] else [])"
proof (induction cs arbitrary: p)
  case (Cons c cs)
  show ?case
  proof (cases "pipe_full p")
    case True
    with Cons.prems pipeq.is_full_spec show ?thesis
      by (intro exI [of _ "if p_readers p = 0 then p else pipe_wakeup Read_pos p"] exI [of _ 0]) auto
  next
    case False
    with Cons.prems have room: "length (pipe_items p) < unat (p_size p)"
      using pipeq.is_full_spec pipeq.items_cap by (metis le_neq_implies_less)
    from pipe_putc_spec [OF Cons.prems room] obtain p1 where
      p1: "pipe_putc p c = Inr p1" "pipe_ok p1" "pipe_items p1 = pipe_items p @ [c]" "p_size p1 = p_size p"
        "p_readers p1 = p_readers p" "p_writers p1 = p_writers p" "p_wakes p1 = p_wakes p" by blast
    from Cons.IH [OF p1(2)] obtain p' k where
      k: "pipe_write_loop p1 cs = Inr (if k = length cs then Returned True else if p_readers p1 = 0
            then Returned False else Sleeping (drop k cs), p')" "pipe_ok p'"
        "pipe_items p' = pipe_items p1 @ take k cs" "k = min (length cs) (unat (p_size p1) - length (pipe_items p1))"
        "p_size p' = p_size p1" "p_readers p' = p_readers p1" "p_writers p' = p_writers p1"
        "p_wakes p' = p_wakes p1 @ (if k = length cs \<or> p_readers p1 \<noteq> 0 then [Read_pos] else [])" by blast
    show ?thesis
      using False p1 k room by (intro exI [of _ p'] exI [of _ "Suc k"]) (auto simp: min_def)
  qed
qed simp

section \<open>A writer and a reader\<close>

text \<open>
  The two ends of a pipe as a transition system: the pipe, the bytes the writer still has to
  write, the bytes the reader has got. A writer that is woken goes on with what is left; a
  reader asks again for any number of bytes.
\<close>

inductive pipe_step :: "fs_node \<Rightarrow> fs_node \<Rightarrow> vfs_pipe \<times> u8 list \<times> u8 list \<Rightarrow> vfs_pipe \<times> u8 list \<times> u8 list \<Rightarrow> bool"
  for rn wn where
  writer: "pipe_write wn todo p = Inr (r, p') \<Longrightarrow>
     todo' = (case r of Returned _ \<Rightarrow> [] | Sleeping rest \<Rightarrow> rest) \<Longrightarrow>
     pipe_step rn wn (p, todo, got) (p', todo', got)"
| reader: "pipe_read rn n p = Inr (r, p') \<Longrightarrow>
     got' = (case r of Returned cs \<Rightarrow> got @ cs | Sleeping _ \<Rightarrow> got) \<Longrightarrow>
     pipe_step rn wn (p, todo, got) (p', todo, got')"

inductive_cases pipe_stepE: "pipe_step rn wn (p, todo, got) s'"

definition pipe_ends :: "fs_node \<Rightarrow> fs_node \<Rightarrow> bool" where
  "pipe_ends rn wn \<longleftrightarrow> n_flags rn = O_RDONLY \<and> n_flags wn = O_WRONLY"

definition stream_inv :: "u8 list \<Rightarrow> vfs_pipe \<times> u8 list \<times> u8 list \<Rightarrow> bool" where
  "stream_inv msg s = (case s of (p, todo, got) \<Rightarrow>
     pipe_ok p \<and> p_readers p > 0 \<and> got @ pipe_items p @ todo = msg)"

lemma stream_inv_step:
  assumes "pipe_step rn wn s s'" and "pipe_ends rn wn" and "stream_inv msg s"
  shows "stream_inv msg s'"
  using assms(1)
proof cases
  case (writer todo p r p' todo' got)
  with assms(3) have p: "pipe_ok p" "p_readers p > 0" "got @ pipe_items p @ todo = msg"
    by (auto simp: stream_inv_def)
  from pipe_write_loop_ok [OF p(1), of todo] writer(3) assms(2) p
  show ?thesis unfolding writer(1,2,4)
    by (auto simp: stream_inv_def pipe_write_def pipe_ends_def pipe_ok_lock split: if_splits)
next
  case (reader n p r p' got' got todo)
  with assms(3) have p: "pipe_ok p" "p_readers p > 0" "got @ pipe_items p @ todo = msg"
    by (auto simp: stream_inv_def)
  from pipe_read_loop_ok [OF p(1), of n] reader(3) assms(2) p
  show ?thesis unfolding reader(1,2,4)
    by (auto simp: stream_inv_def pipe_read_def pipe_ends_def pipe_ok_lock bnd_eq_Inr split: if_splits)
qed

section \<open>Properties\<close>

text \<open>
  C8. A pipe is a reliable byte stream: whatever the interleaving of the writer and the reader,
  however often each of them sleeps, what has been read, then what is in the buffer, then what
  is still to be written is always the message, so what the reader has is a prefix of it.
\<close>

theorem pipe_stream:
  assumes "(pipe_step rn wn)\<^sup>*\<^sup>* (p, msg, []) (p', todo, got)"
    and "pipe_ends rn wn" and "pipe_ok p" and "pipe_items p = []" and "p_readers p > 0"
  shows "got @ pipe_items p' @ todo = msg"
proof -
  have "stream_inv msg (p, msg, [])" using assms by (simp add: stream_inv_def)
  with assms(1) have "stream_inv msg (p', todo, got)"
    by (induction rule: rtranclp_induct) (auto intro: stream_inv_step [OF _ assms(2)])
  then show ?thesis by (simp add: stream_inv_def)
qed

definition sample_pipe :: vfs_pipe where
  "sample_pipe = \<lparr>p_buffer = [0, 0], p_size = 2, p_readers = 1, p_writers = 1, p_read_pos = 0,
     p_write_pos = 0, p_lock = False, p_wakes = []\<rparr>"

lemma sample_pipe_ok:
  "pipe_ok sample_pipe" "pipe_items sample_pipe = []" "p_readers sample_pipe > 0"
  by (simp_all add: pipe_ok_def ring_ok_def sample_pipe_def pipe_items_def ring_items_def)

lemma sample_ends: "pipe_ends (zero_node\<lparr>n_flags := O_RDONLY\<rparr>) (zero_node\<lparr>n_flags := O_WRONLY\<rparr>)"
  by (simp add: pipe_ends_def)

lemma pipe_stream_witness:
  "\<exists>p'. (pipe_step (zero_node\<lparr>n_flags := O_RDONLY\<rparr>) (zero_node\<lparr>n_flags := O_WRONLY\<rparr>))\<^sup>*\<^sup>* (sample_pipe, [1, 2, 3], []) (p', [3], []) \<and>
    [] @ pipe_items p' @ [3] = [1, 2, 3]"
proof -
  let ?rn = "zero_node\<lparr>n_flags := O_RDONLY\<rparr>" and ?wn = "zero_node\<lparr>n_flags := O_WRONLY\<rparr>"
  obtain p' where "pipe_write ?wn [1, 2, 3] sample_pipe = Inr (Sleeping [3], p')"
    by (simp add: pipe_write_def sample_pipe_def O_WRONLY_def pipe_full_def pipe_putc_def)
  then have "pipe_step ?rn ?wn (sample_pipe, [1, 2, 3], []) (p', [3], [])" by (auto intro: pipe_step.writer)
  then have r: "(pipe_step ?rn ?wn)\<^sup>*\<^sup>* (sample_pipe, [1, 2, 3], []) (p', [3], [])" by blast
  from pipe_stream [OF r sample_ends sample_pipe_ok] r show ?thesis by blast
qed

section \<open>Sleeping and waking\<close>

text \<open>
  A writer that writes a message and closes its end, and a reader that reads until it gets nothing. \<open>Dozing\<close>: the
  process has unlocked the pipe and not yet called \<open>sleep_on\<close>, so that a \<open>wakeup\<close> does not find it; \<open>Asleep\<close>: only a
  \<open>wakeup\<close> of its address makes it run again; \<open>Gone\<close>: it is finished.
\<close>

datatype pmode = Ready | Dozing | Asleep | Gone

record pipe_sys =
  ps_pipe :: vfs_pipe
  ps_todo :: "u8 list"
  ps_got :: "u8 list"
  ps_reader :: pmode
  ps_writer :: pmode

definition pipe_start :: "vfs_pipe \<Rightarrow> u8 list \<Rightarrow> pipe_sys" where
  "pipe_start p msg = \<lparr>ps_pipe = p, ps_todo = msg, ps_got = [], ps_reader = Ready, ps_writer = Ready\<rparr>"

text \<open>What the recorded calls of \<open>wakeup\<close> do to a process that sleeps on \<open>a\<close>.\<close>

definition woken :: "wait_pos \<Rightarrow> vfs_pipe \<Rightarrow> pmode \<Rightarrow> pmode" where
  "woken a p m = (if m = Asleep \<and> a \<in> set (p_wakes p) then Ready else m)"

abbreviation unlogged :: "pipe_sys \<Rightarrow> vfs_pipe" where
  "unlogged s \<equiv> (ps_pipe s)\<lparr>p_wakes := []\<rparr>"

inductive pipe_run :: "fs_node \<Rightarrow> fs_node \<Rightarrow> pipe_sys \<Rightarrow> pipe_sys \<Rightarrow> bool" for rn wn where
  write_call: "ps_writer s = Ready \<Longrightarrow> ps_todo s \<noteq> [] \<Longrightarrow> pipe_write wn (ps_todo s) (unlogged s) = Inr (r, p) \<Longrightarrow>
    pipe_run rn wn s (s\<lparr>ps_pipe := p, ps_todo := (case r of Returned _ \<Rightarrow> [] | Sleeping rest \<Rightarrow> rest),
      ps_reader := woken Read_pos p (ps_reader s), ps_writer := (case r of Returned _ \<Rightarrow> Ready | Sleeping _ \<Rightarrow> Dozing)\<rparr>)"
| close_call: "ps_writer s = Ready \<Longrightarrow> ps_todo s = [] \<Longrightarrow> pipe_close wn (unlogged s) = Inr (node, p, False) \<Longrightarrow>
    pipe_run rn wn s (s\<lparr>ps_pipe := p, ps_reader := woken Read_pos p (ps_reader s), ps_writer := Gone\<rparr>)"
| read_call: "ps_reader s = Ready \<Longrightarrow> 0 < n \<Longrightarrow> pipe_read rn n (unlogged s) = Inr (r, p) \<Longrightarrow>
    pipe_run rn wn s (s\<lparr>ps_pipe := p, ps_got := ps_got s @ (case r of Returned cs \<Rightarrow> cs | Sleeping _ \<Rightarrow> []),
      ps_reader := (case r of Returned cs \<Rightarrow> if cs = [] then Gone else Ready | Sleeping _ \<Rightarrow> Dozing),
      ps_writer := woken Write_pos p (ps_writer s)\<rparr>)"
| write_sleeps: "ps_writer s = Dozing \<Longrightarrow> pipe_run rn wn s (s\<lparr>ps_writer := Asleep\<rparr>)"
| read_sleeps: "ps_reader s = Dozing \<Longrightarrow> pipe_run rn wn s (s\<lparr>ps_reader := Asleep\<rparr>)"

text \<open>\<open>calm_run\<close>: a process that has unlocked the pipe to sleep is not interrupted before it does.\<close>

definition calm_run :: "fs_node \<Rightarrow> fs_node \<Rightarrow> pipe_sys \<Rightarrow> pipe_sys \<Rightarrow> bool" where
  "calm_run rn wn s s' \<longleftrightarrow> pipe_run rn wn s s' \<and> (ps_reader s = Dozing \<longrightarrow> ps_reader s' = Asleep) \<and>
     (ps_writer s = Dozing \<longrightarrow> ps_writer s' = Asleep)"

text \<open>The three calls on a pipe that is in order.\<close>

lemma write_done:
  assumes "pipe_ok p" "n_flags wn = O_WRONLY" "p_readers p > 0" "todo \<noteq> []"
  shows "\<exists>p' k. pipe_write wn todo p = Inr (if k = length todo then Returned True else Sleeping (drop k todo), p') \<and> pipe_ok p' \<and>
    pipe_items p' = pipe_items p @ take k todo \<and> k = min (length todo) (unat (p_size p) - length (pipe_items p)) \<and> p_size p' = p_size p \<and>
    p_readers p' = p_readers p \<and> p_writers p' = p_writers p \<and> Read_pos \<in> set (p_wakes p')"
proof -
  have "p_readers p \<noteq> 0" using assms(3) by auto
  with pipe_write_loop_ok [OF assms(1), of todo] assms(1,2) show ?thesis by (auto simp: pipe_write_def pipe_ok_lock)
qed

lemma read_done:
  assumes "pipe_ok p" "n_flags rn = O_RDONLY"
  shows "if pipe_items p = [] \<and> p_writers p > 0 then pipe_read rn n p = Inr (Sleeping n, p)
    else \<exists>p'. pipe_read rn n p = Inr (Returned (take n (pipe_items p)), p') \<and> pipe_ok p' \<and> pipe_items p' = drop n (pipe_items p) \<and>
      p_size p' = p_size p \<and> p_readers p' = p_readers p \<and> p_writers p' = p_writers p \<and> Write_pos \<in> set (p_wakes p')"
  using pipe_read_loop_ok [OF assms(1), of n] assms pipeq.is_empty_spec [OF assms(1)] by (auto simp: pipe_read_def pipe_ok_lock)

lemma close_done:
  assumes "pipe_ok p" "n_flags wn = O_WRONLY" "p_readers p > 0"
  shows "\<exists>node p'. pipe_close wn p = Inr (node, p', False) \<and> pipe_ok p' \<and> pipe_items p' = pipe_items p \<and> p_size p' = p_size p \<and>
    p_readers p' = p_readers p \<and> p_writers p' = p_writers p - 1 \<and> Read_pos \<in> set (p_wakes p')"
proof -
  have "p_readers p \<noteq> 0" using assms(3) by auto
  with assms(1,2) show ?thesis by (auto simp: pipe_close_def pipe_ok_def pipe_items_def pipe_wakeup_def Let_def O_RDONLY_def O_WRONLY_def)
qed

text \<open>
  The invariant: what a process waits for is the case while it dozes or sleeps. The measure: two for every byte to
  write, one for every byte in the pipe, and the modes.
\<close>

definition sys_inv :: "u8 list \<Rightarrow> pipe_sys \<Rightarrow> bool" where
  "sys_inv msg s \<longleftrightarrow> pipe_ok (ps_pipe s) \<and> p_readers (ps_pipe s) > 0 \<and> ps_got s @ pipe_items (ps_pipe s) @ ps_todo s = msg \<and>
     p_writers (ps_pipe s) = (if ps_writer s = Gone then 0 else 1) \<and> (ps_writer s = Gone \<longrightarrow> ps_todo s = []) \<and>
     (ps_writer s = Dozing \<or> ps_writer s = Asleep \<longrightarrow> length (pipe_items (ps_pipe s)) = unat (p_size (ps_pipe s)) \<and> ps_todo s \<noteq> []) \<and>
     (ps_reader s = Dozing \<or> ps_reader s = Asleep \<longrightarrow> pipe_items (ps_pipe s) = [] \<and> ps_writer s \<noteq> Gone) \<and>
     (ps_reader s = Gone \<longrightarrow> pipe_items (ps_pipe s) = [] \<and> ps_writer s = Gone)"

fun rank :: "pmode \<Rightarrow> nat" where
  "rank Ready = 3"
| "rank Dozing = 2"
| "rank Asleep = 1"
| "rank Gone = 0"

definition sys_left :: "pipe_sys \<Rightarrow> nat" where
  "sys_left s = 5 * (2 * length (ps_todo s) + length (pipe_items (ps_pipe s))) + rank (ps_reader s) + rank (ps_writer s)"

lemma woken_in: "a \<in> set (p_wakes p) \<Longrightarrow> woken a p m = (if m = Asleep then Ready else m)"
  by (simp add: woken_def)

lemma unlogged_simps [simp]:
  "pipe_ok (p\<lparr>p_wakes := w\<rparr>) = pipe_ok p" "pipe_items (p\<lparr>p_wakes := w\<rparr>) = pipe_items p"
  by (simp_all add: pipe_ok_def pipe_items_def)

lemma size_pos: "pipe_ok p \<Longrightarrow> 0 < unat (p_size p)"
  using ring_ok_pos by (auto simp: pipe_ok_def)

lemma calm_step:
  assumes st: "calm_run rn wn s s'" and e: "pipe_ends rn wn" and inv: "sys_inv msg s"
  shows "sys_inv msg s' \<and> sys_left s' < sys_left s"
proof -
  let ?p = "ps_pipe s"
  have f: "n_flags rn = O_RDONLY" "n_flags wn = O_WRONLY" using e by (simp_all add: pipe_ends_def)
  have ok: "pipe_ok (unlogged s)" "p_readers (unlogged s) > 0" and ok': "pipe_ok ?p" using inv by (simp_all add: sys_inv_def)
  note pos = size_pos [OF ok'] and cap = pipeq.items_cap [OF ok']
  from st have run: "pipe_run rn wn s s'" and cr: "ps_reader s = Dozing \<longrightarrow> ps_reader s' = Asleep" and cw: "ps_writer s = Dozing \<longrightarrow> ps_writer s' = Asleep"
    by (simp_all add: calm_run_def)
  from run show ?thesis
  proof cases
    case (write_call r p)
    from write_done [OF ok(1) f(2) ok(2) write_call(3)] obtain p' k where
      w: "pipe_write wn (ps_todo s) (unlogged s) = Inr (if k = length (ps_todo s) then Returned True else Sleeping (drop k (ps_todo s)), p')" "pipe_ok p'"
        "pipe_items p' = pipe_items ?p @ take k (ps_todo s)" "k = min (length (ps_todo s)) (unat (p_size ?p) - length (pipe_items ?p))" "p_size p' = p_size ?p"
        "p_readers p' = p_readers ?p" "p_writers p' = p_writers ?p" "Read_pos \<in> set (p_wakes p')" by auto
    have nd: "ps_reader s \<noteq> Dozing" using cr write_call(1) by (auto simp: woken_def)
    have eq: "s' = s\<lparr>ps_pipe := p', ps_todo := drop k (ps_todo s), ps_reader := woken Read_pos p' (ps_reader s),
        ps_writer := (if k = length (ps_todo s) then Ready else Dozing)\<rparr>"
      using write_call(1,4) w(1) by auto
    note wake = woken_in [OF w(8)]
    have rg: "ps_reader s \<noteq> Gone" using inv write_call(2) by (auto simp: sys_inv_def)
    have k: "k \<le> length (ps_todo s)" "ps_reader s = Asleep \<Longrightarrow> 0 < k" "k < length (ps_todo s) \<Longrightarrow> length (pipe_items ?p) + k = unat (p_size ?p)"
      using w(4) write_call(3) inv pos cap by (auto simp: sys_inv_def)
    have "sys_inv msg s'" using inv w nd k write_call(2) unfolding eq by (auto simp: sys_inv_def wake)
    moreover have "sys_left s' < sys_left s"
      using w(3) nd rg k write_call(2,3) unfolding eq sys_left_def by (cases "ps_reader s") (auto simp: wake)
    ultimately show ?thesis ..
  next
    case (close_call node p)
    from close_done [OF ok(1) f(2) ok(2)] close_call(4) have
      c: "pipe_ok p" "pipe_items p = pipe_items ?p" "p_size p = p_size ?p" "p_readers p = p_readers ?p" "p_writers p = p_writers ?p - 1" "Read_pos \<in> set (p_wakes p)"
      by auto
    have nd: "ps_reader s \<noteq> Dozing" using cr close_call(1) by (auto simp: woken_def)
    note wake = woken_in [OF c(6)]
    have "sys_inv msg s'" using inv c nd close_call(2,3) unfolding close_call(1) by (auto simp: sys_inv_def wake)
    moreover have "sys_left s' < sys_left s" using c(2) nd close_call(2) unfolding close_call(1) sys_left_def by (cases "ps_reader s") (auto simp: wake)
    ultimately show ?thesis ..
  next
    case (read_call n r p)
    show ?thesis
    proof (cases "pipe_items ?p = [] \<and> p_writers ?p > 0")
      case True
      with read_done [OF ok(1) f(1), of n] read_call(4) have "r = Sleeping n" "p = unlogged s" by auto
      then have "s' = s\<lparr>ps_pipe := unlogged s, ps_reader := Dozing\<rparr>" using read_call(1) by (simp add: woken_def)
      with True inv read_call(2) show ?thesis by (auto simp: sys_inv_def sys_left_def split: if_splits)
    next
      case False
      with read_done [OF ok(1) f(1), of n] read_call(4) have
        r: "r = Returned (take n (pipe_items ?p))" "pipe_ok p" "pipe_items p = drop n (pipe_items ?p)" "p_size p = p_size ?p" "p_readers p = p_readers ?p"
          "p_writers p = p_writers ?p" "Write_pos \<in> set (p_wakes p)" by (auto split: if_splits)
      have nd: "ps_writer s \<noteq> Dozing" using cw read_call(1) by (auto simp: woken_def)
      have eq: "s' = s\<lparr>ps_pipe := p, ps_got := ps_got s @ take n (pipe_items ?p), ps_reader := (if pipe_items ?p = [] then Gone else Ready),
          ps_writer := (if ps_writer s = Asleep then Ready else ps_writer s)\<rparr>"
        using read_call(1,3) r(1) woken_in [OF r(7)] by auto
      have "sys_inv msg s'" using inv r nd False unfolding eq by (auto simp: sys_inv_def split: if_splits)
      moreover have "sys_left s' < sys_left s"
        using r(3) nd False read_call(2,3) inv unfolding eq sys_left_def
        by (cases "ps_writer s"; cases "pipe_items ?p") (auto simp: sys_inv_def)
      ultimately show ?thesis ..
    qed
  next
    case write_sleeps
    then show ?thesis using inv by (auto simp: sys_inv_def sys_left_def)
  next
    case read_sleeps
    then show ?thesis using inv by (auto simp: sys_inv_def sys_left_def)
  qed
qed

lemma calm_moves:
  assumes e: "pipe_ends rn wn" and inv: "sys_inv msg s" and stuck: "\<nexists>s'. calm_run rn wn s s'"
  shows "ps_got s = msg \<and> ps_reader s = Gone \<and> ps_writer s = Gone"
proof -
  let ?p = "ps_pipe s"
  have f: "n_flags rn = O_RDONLY" "n_flags wn = O_WRONLY" using e by (simp_all add: pipe_ends_def)
  have ok: "pipe_ok (unlogged s)" "p_readers (unlogged s) > 0" and ok': "pipe_ok ?p" using inv by (simp_all add: sys_inv_def)
  note pos = size_pos [OF ok']
  have both: "\<not> (ps_reader s = Dozing \<and> ps_writer s = Dozing)" using inv pos by (auto simp: sys_inv_def)
  have rd: "ps_reader s \<noteq> Dozing" using both stuck pipe_run.read_sleeps [of s rn wn] by (auto simp: calm_run_def)
  have wd: "ps_writer s \<noteq> Dozing" using rd stuck pipe_run.write_sleeps [of s rn wn] by (auto simp: calm_run_def)
  have no: "\<not> pipe_run rn wn s s'" for s' using stuck rd wd by (auto simp: calm_run_def)
  have wr: "ps_writer s \<noteq> Ready"
  proof
    assume w: "ps_writer s = Ready"
    show False
    proof (cases "ps_todo s = []")
      case True
      with close_done [OF ok(1) f(2) ok(2)] pipe_run.close_call [OF w True] no show False by blast
    next
      case False
      from write_done [OF ok(1) f(2) ok(2) False] pipe_run.write_call [OF w False] no show False by blast
    qed
  qed
  have rr: "ps_reader s \<noteq> Ready"
  proof
    assume r: "ps_reader s = Ready"
    have "\<exists>x p. pipe_read rn 1 (unlogged s) = Inr (x, p)" using read_done [OF ok(1) f(1), of 1] by (auto split: if_splits)
    with pipe_run.read_call [OF r, of 1] no show False by (metis zero_less_one)
  qed
  have "ps_writer s = Asleep \<or> ps_writer s = Gone" "ps_reader s = Asleep \<or> ps_reader s = Gone"
    using wr wd rr rd by (cases "ps_writer s"; cases "ps_reader s"; simp)+
  with inv pos show ?thesis by (auto simp: sys_inv_def)
qed

text \<open>
  C9. A message sent through a pipe arrives (\<open>pipe_write\<close>, \<open>pipe_read\<close>, \<open>pipe_close\<close> with their calls of \<open>sleep_on\<close> and \<open>wakeup\<close>).
  One process writes the message and closes its end, the other reads, any number of bytes at a time, until it gets
  nothing. Whatever the order of their steps, provided no process is interrupted between unlocking the pipe and
  falling asleep: there is no infinite run, and a state in which nothing can go on is one in which both are
  finished and the reader has the whole message. So neither sleeps for ever, however small the pipe.
\<close>

theorem pipe_delivers:
  assumes "pipe_ends rn wn" and "pipe_ok p" and "pipe_items p = []" and "p_readers p > 0" and "p_writers p = 1"
  shows "(\<forall>s. (calm_run rn wn)\<^sup>*\<^sup>* (pipe_start p msg) s \<and> (\<nexists>s'. calm_run rn wn s s') \<longrightarrow>
      ps_got s = msg \<and> ps_reader s = Gone \<and> ps_writer s = Gone) \<and>
    \<not> (\<exists>f. f 0 = pipe_start p msg \<and> (\<forall>i. calm_run rn wn (f i) (f (Suc i))))"
proof (intro conjI allI impI notI)
  have start: "sys_inv msg (pipe_start p msg)" using assms by (simp add: sys_inv_def pipe_start_def)
  {
    fix s assume s: "(calm_run rn wn)\<^sup>*\<^sup>* (pipe_start p msg) s \<and> (\<nexists>s'. calm_run rn wn s s')"
    then have "(calm_run rn wn)\<^sup>*\<^sup>* (pipe_start p msg) s" ..
    then have "sys_inv msg s" using start by (induction rule: rtranclp_induct) (use calm_step [OF _ assms(1)] in blast)+
    with s show "ps_got s = msg" "ps_reader s = Gone" "ps_writer s = Gone" using calm_moves [OF assms(1)] by blast+
  }
  assume "\<exists>f. f 0 = pipe_start p msg \<and> (\<forall>i. calm_run rn wn (f i) (f (Suc i)))"
  then obtain f where f: "f 0 = pipe_start p msg" "\<And>i. calm_run rn wn (f i) (f (Suc i))" by blast
  have inv: "sys_inv msg (f i)" for i by (induction i) (use f start calm_step [OF _ assms(1)] in auto)
  have "sys_left (f i) + i \<le> sys_left (f 0)" for i
  proof (induction i)
    case (Suc i)
    with calm_step [OF f(2) assms(1) inv, of i] show ?case by simp
  qed simp
  from this [of "Suc (sys_left (f 0))"] show False by simp
qed

lemma ends_somewhere:
  assumes "\<nexists>f. f 0 = s0 \<and> (\<forall>i. R (f i) (f (Suc i)))"
  shows "\<exists>s. R\<^sup>*\<^sup>* s0 s \<and> (\<nexists>s'. R s s')"
proof (rule ccontr)
  assume none: "\<nexists>s. R\<^sup>*\<^sup>* s0 s \<and> (\<nexists>s'. R s s')"
  have "\<exists>f. \<forall>n :: nat. (R\<^sup>*\<^sup>* s0 (f n) \<and> (n = 0 \<longrightarrow> f n = s0)) \<and> R (f n) (f (Suc n))"
    by (rule dependent_nat_choice) (use none in \<open>auto intro: rtranclp.rtrancl_into_rtrancl\<close>)
  with assms show False by auto
qed

text \<open>Three bytes through a pipe of two: a run ends, with the message read.\<close>

lemma pipe_delivers_witness:
  "\<exists>s. (calm_run (zero_node\<lparr>n_flags := O_RDONLY\<rparr>) (zero_node\<lparr>n_flags := O_WRONLY\<rparr>))\<^sup>*\<^sup>* (pipe_start sample_pipe [1, 2, 3]) s \<and>
     (\<nexists>s'. calm_run (zero_node\<lparr>n_flags := O_RDONLY\<rparr>) (zero_node\<lparr>n_flags := O_WRONLY\<rparr>) s s') \<and> ps_got s = [1, 2, 3]"
proof -
  have w: "p_writers sample_pipe = 1" by (simp add: sample_pipe_def)
  note d = pipe_delivers [OF sample_ends sample_pipe_ok w, of "[1, 2, 3]"]
  obtain s where s: "(calm_run (zero_node\<lparr>n_flags := O_RDONLY\<rparr>) (zero_node\<lparr>n_flags := O_WRONLY\<rparr>))\<^sup>*\<^sup>* (pipe_start sample_pipe [1, 2, 3]) s"
    "\<nexists>s'. calm_run (zero_node\<lparr>n_flags := O_RDONLY\<rparr>) (zero_node\<lparr>n_flags := O_WRONLY\<rparr>) s s'"
    using ends_somewhere [OF conjunct2 [OF d]] by blast
  with conjunct1 [OF d] show ?thesis by blast
qed

text \<open>
  Without the proviso a \<open>wakeup\<close> can be lost (\<open>pipe.c\<close>, between \<open>spin_unlock\<close> and \<open>sleep_on\<close> of \<open>pipe_read\<close>; system calls run with
  interrupts on): the writer writes and closes while the reader is about to sleep. The reader then sleeps
  for ever, with the message in the pipe.
\<close>

lemma pipe_lost_wakeup:
  defines "rn \<equiv> zero_node\<lparr>n_flags := O_RDONLY\<rparr>" and "wn \<equiv> zero_node\<lparr>n_flags := O_WRONLY\<rparr>"
  shows "\<exists>s. (pipe_run rn wn)\<^sup>*\<^sup>* (pipe_start sample_pipe [1]) s \<and> (\<nexists>s'. pipe_run rn wn s s') \<and> ps_got s = [] \<and>
    pipe_items (ps_pipe s) = [1] \<and> ps_reader s = Asleep"
proof -
  have f: "n_flags rn = O_RDONLY" "n_flags wn = O_WRONLY" by (simp_all add: rn_def wn_def)
  let ?p0 = sample_pipe
  let ?p1 = "\<lparr>p_buffer = [1, 0], p_size = 2, p_readers = 1, p_writers = 1, p_read_pos = 0, p_write_pos = 1, p_lock = False, p_wakes = [Read_pos]\<rparr>"
  let ?p2 = "?p1\<lparr>p_writers := 0\<rparr>"
  let ?s0 = "pipe_start ?p0 [1]"
  let ?s1 = "?s0\<lparr>ps_reader := Dozing\<rparr>"
  let ?s2 = "?s1\<lparr>ps_pipe := ?p1, ps_todo := []\<rparr>"
  let ?s3 = "?s2\<lparr>ps_pipe := ?p2, ps_writer := Gone\<rparr>"
  let ?s4 = "?s3\<lparr>ps_reader := Asleep\<rparr>"
  have "pipe_read rn 1 (unlogged ?s0) = Inr (Sleeping 1, ?p0)"
    using f by (simp add: pipe_read_def pipe_start_def sample_pipe_def pipe_empty_def)
  then have 1: "pipe_run rn wn ?s0 ?s1"
    using pipe_run.read_call [of ?s0 1 rn "Sleeping 1" ?p0 wn] by (simp add: pipe_start_def woken_def)
  have "pipe_write wn [1] (unlogged ?s1) = Inr (Returned True, ?p1)"
    using f by (simp add: pipe_write_def pipe_start_def sample_pipe_def pipe_full_def pipe_putc_def pipe_wakeup_def)
  then have 2: "pipe_run rn wn ?s1 ?s2"
    using pipe_run.write_call [of ?s1 wn "Returned True" ?p1 rn] by (simp add: pipe_start_def woken_def)
  have "pipe_close wn (unlogged ?s2) = Inr (Some (wn\<lparr>n_ref_count := n_ref_count wn - 1\<rparr>), ?p2, False)"
    using f by (simp add: pipe_close_def pipe_start_def pipe_wakeup_def O_RDONLY_def O_WRONLY_def wn_def zero_node_def)
  then have 3: "pipe_run rn wn ?s2 ?s3"
    using pipe_run.close_call [of ?s2 wn _ ?p2 rn] by (simp add: pipe_start_def woken_def)
  have 4: "pipe_run rn wn ?s3 ?s4"
    using pipe_run.read_sleeps [of ?s3 rn wn] by (simp add: pipe_start_def)
  have "(pipe_run rn wn)\<^sup>*\<^sup>* ?s0 ?s4" using 1 2 3 4 by (meson converse_rtranclp_into_rtranclp rtranclp.rtrancl_refl)
  moreover have "\<not> pipe_run rn wn ?s4 s'" for s' by (auto simp: pipe_start_def elim!: pipe_run.cases)
  moreover have "pipe_items ?p2 = [1]" by (simp add: pipe_items_def ring_items_def)
  ultimately show ?thesis by (intro exI [of _ ?s4]) (simp add: pipe_start_def)
qed

text \<open>
  \<open>sys_dup\<close> (\<open>sysfile.c\<close>) takes a reference on the node of a pipe but does not count a reader or writer, while \<open>pipe_close\<close> takes one off for every
  descriptor. After one \<open>dup\<close> of the reading end, with the writing end closed, closing the first of the two descriptors frees the
  pipe although the second is still open, and closing the second works on the freed pipe and makes the count of readers wrap.
\<close>

lemma dup_end_not_counted:
  assumes "\<not> p_lock p" and "n_flags node = O_RDONLY" and "p_readers p = 1" and "p_writers p = 0" and "n_ref_count node = 2"
  shows "\<exists>node' p' p''. pipe_close node p = Inr (Some node', p', True) \<and> n_ref_count node' = 1 \<and>
    pipe_close node' p' = Inr (None, p'', False) \<and> p_readers p'' = 0xFFFFFFFF"
  using assms by (simp add: pipe_close_def pipe_wakeup_def O_RDONLY_def O_WRONLY_def)

end
