(* ===== verification/Vfs.thy ===== *)
theory Vfs
  imports Cofs_Dir Path
begin

text \<open>
  The virtual file system (\<open>vfs.c\<close>): dispatch to the operations of a node and the operations on
  path names, for the nodes of COFS, the only file system the kernel mounts. A function pointer
  that is NULL is a node whose \<open>n_ops\<close> is not \<open>Cofs_ops\<close>; reading and writing through the driver of a
  device or a pipe is not part of this model.

  \<open>k_mem n\<close> is what \<open>malloc(n)\<close> returns and \<open>k_junk\<close> the bytes of an uninitialised directory entry.
\<close>

record kstate =
  k_fs :: cofs
  k_root :: nat
  k_cwd :: "u8 list"
  k_mem :: "nat \<Rightarrow> u8 list option"
  k_junk :: "u8 list"

definition node :: "'a kstate_scheme \<Rightarrow> nat \<Rightarrow> fs_node" where
  "node k n = nd (k_fs k) n"

definition lift :: "(cofs \<Rightarrow> ('r \<times> cofs) kres) \<Rightarrow> 'a kstate_scheme \<Rightarrow> ('r \<times> 'a kstate_scheme) kres" where
  "lift f k = bnd (f (k_fs k)) (\<lambda>(r, c). Inr (r, k\<lparr>k_fs := c\<rparr>))"

definition lift0 :: "(cofs \<Rightarrow> cofs kres) \<Rightarrow> 'a kstate_scheme \<Rightarrow> 'a kstate_scheme kres" where
  "lift0 f k = bnd (f (k_fs k)) (\<lambda>c. Inr (k\<lparr>k_fs := c\<rparr>))"

definition is_dir :: "'a kstate_scheme \<Rightarrow> nat \<Rightarrow> bool" where
  "is_dir k n \<longleftrightarrow> n_type (node k n) AND FS_DIRECTORY \<noteq> 0"

definition has_ops :: "'a kstate_scheme \<Rightarrow> nat \<Rightarrow> bool" where
  "has_ops k n \<longleftrightarrow> n_ops (node k n) = Cofs_ops"

section \<open>Dispatch\<close>

definition fs_open :: "nat \<Rightarrow> u32 \<Rightarrow> 'a kstate_scheme \<Rightarrow> 'a kstate_scheme kres" where
  "fs_open n flags k = (if has_ops k n then lift0 (cofs_open n flags) k else Inr k)"

definition fs_close :: "nat option \<Rightarrow> 'a kstate_scheme \<Rightarrow> 'a kstate_scheme kres" where
  "fs_close p k = (case p of
      None \<Rightarrow> Inl (Panic ''fs_close'')
    | Some n \<Rightarrow> if has_ops k n then lift0 (cofs_close n) k else Inr k)"

definition fs_read :: "nat \<Rightarrow> u32 \<Rightarrow> u32 \<Rightarrow> 'a kstate_scheme \<Rightarrow> (u8 list \<times> 'a kstate_scheme) kres" where
  "fs_read n offs sz k = (if has_ops k n then lift (cofs_read n offs sz) k else Inr ([], k))"

definition fs_write :: "nat \<Rightarrow> u32 \<Rightarrow> u32 \<Rightarrow> u8 list \<Rightarrow> 'a kstate_scheme \<Rightarrow> (u32 \<times> 'a kstate_scheme) kres" where
  "fs_write n offs sz buffer k = (if has_ops k n then lift (cofs_write n offs sz buffer) k else Inr (0, k))"

definition fs_readdir :: "nat \<Rightarrow> u32 \<Rightarrow> 'a kstate_scheme \<Rightarrow> ((u32 \<times> u8 list) option \<times> 'a kstate_scheme) kres" where
  "fs_readdir n index k =
     (if is_dir k n \<and> has_ops k n then lift (cofs_readdir (k_junk k) n index) k else Inr (None, k))"

definition fs_finddir :: "nat \<Rightarrow> u8 list \<Rightarrow> 'a kstate_scheme \<Rightarrow> (nat option \<times> 'a kstate_scheme) kres" where
  "fs_finddir n name k =
     (if is_dir k n \<and> has_ops k n then lift (cofs_finddir (k_junk k) n name) k else Inr (None, k))"

definition fs_mkdir :: "nat \<Rightarrow> u8 list \<Rightarrow> u32 \<Rightarrow> 'a kstate_scheme \<Rightarrow> (nat option \<times> 'a kstate_scheme) kres" where
  "fs_mkdir n name mode k =
     (if \<not> is_dir k n then Inr (None, k)
      else bnd (fs_finddir n name k) (\<lambda>(p, k).
        if p \<noteq> None then Inr (None, k)
        else if \<not> has_ops k n then Inr (None, k)
        else lift (cofs_mkdir (k_junk k) n name mode) k))"

definition fs_dup :: "nat \<Rightarrow> 'a kstate_scheme \<Rightarrow> 'a kstate_scheme kres" where
  "fs_dup n k =
     (if n_lock (node k n) then Inl Deadlock
      else Inr (k\<lparr>k_fs := nset n (\<lambda>nd. nd\<lparr>n_ref_count := n_ref_count nd + 1\<rparr>) (k_fs k)\<rparr>))"

definition fs_mknod :: "nat \<Rightarrow> u8 list \<Rightarrow> u32 \<Rightarrow> u32 \<Rightarrow> 'a kstate_scheme \<Rightarrow> (nat option \<times> 'a kstate_scheme) kres" where
  "fs_mknod dir filename mode dev k =
     (if has_ops k dir then lift (cofs_mknod (k_junk k) dir filename mode dev) k else Inr (None, k))"

definition fs_truncate :: "nat option \<Rightarrow> u32 \<Rightarrow> 'a kstate_scheme \<Rightarrow> (int \<times> 'a kstate_scheme) kres" where
  "fs_truncate p len k = (case p of
      None \<Rightarrow> Inl (Assertion ''node'')
    | Some n \<Rightarrow>
        if \<not> has_ops k n then Inr (- 1, k)
        else bnd (lift (cofs_truncate n len) k) (\<lambda>(r, k). Inr (sint r, k)))"

definition fs_link :: "nat \<Rightarrow> nat \<Rightarrow> u8 list \<Rightarrow> 'a kstate_scheme \<Rightarrow> (int \<times> 'a kstate_scheme) kres" where
  "fs_link parent n name k =
     (if has_ops k parent then lift (cofs_link (k_junk k) parent n name) k else Inl Fault)"

definition fs_rename :: "u8 list \<Rightarrow> u8 list \<Rightarrow> int" where
  "fs_rename oldname newname = - 1"

section \<open>Names\<close>

text \<open>
  \<open>fs_namei\<close>: the path is copied, its slashes are overwritten with zeros, and the loop looks up
  one component after the other. A node on the way is given back by decrementing its count,
  except the root.
\<close>

definition put_back :: "nat option \<Rightarrow> 'a kstate_scheme \<Rightarrow> 'a kstate_scheme" where
  "put_back p k = (case p of
      None \<Rightarrow> k
    | Some n \<Rightarrow>
        if n_inode (node k n) \<noteq> 1
        then k\<lparr>k_fs := nset n (\<lambda>nd. nd\<lparr>n_ref_count := n_ref_count nd - 1\<rparr>) (k_fs k)\<rparr> else k)"

function namei_loop :: "u8 list \<Rightarrow> nat \<Rightarrow> nat option \<Rightarrow> 'a kstate_scheme \<Rightarrow> (nat option \<times> 'a kstate_scheme) kres" where
  "namei_loop p len cur k =
     (if len > 0 then
        bnd (aget p 0) (\<lambda>c.
        bnd (if c \<noteq> 0
             then fs_finddir (case cur of Some n \<Rightarrow> n | None \<Rightarrow> k_root k) p (put_back cur k)
             else Inr (cur, k)) (\<lambda>(cur, k).
        if c \<noteq> 0 \<and> cur = None then Inr (None, k)
        else bnd (strlen (Some p)) (\<lambda>curr_len.
          namei_loop (drop (curr_len + 1) p) (len - curr_len - 1) cur k)))
      else Inr (cur, k))"
  by pat_completeness auto
termination
  by (relation "measure (\<lambda>(p, len, cur, k). len)") auto

declare namei_loop.simps [simp del]

definition fs_namei :: "u8 list \<Rightarrow> 'a kstate_scheme \<Rightarrow> (nat option \<times> 'a kstate_scheme) kres" where
  "fs_namei path k =
     bnd (aget path 0) (\<lambda>c.
     kassert (c \<noteq> 0) ''*path''
      (if c \<noteq> slash then Inl (Panic ''Path is not full path'')
       else bnd (strlen (Some path)) (\<lambda>len.
         if len = 1 then Inr (Some (k_root k), k)
         else bnd (strdup (k_mem k) path) (\<lambda>str.
           namei_loop (map (\<lambda>c. if c = slash then 0 else c) str) len None k))))"

text \<open>\<open>fs_creat\<close> splits the path behind its last slash.\<close>

fun after_slash :: "u8 list \<Rightarrow> nat \<Rightarrow> nat kres" where
  "after_slash dirname 0 = Inr 0"
| "after_slash dirname (Suc p) =
     bnd (aget dirname p) (\<lambda>c. if c \<noteq> slash then after_slash dirname p else Inr (Suc p))"

definition fs_creat :: "u8 list \<Rightarrow> u32 \<Rightarrow> 'a kstate_scheme \<Rightarrow> (nat option \<times> 'a kstate_scheme) kres" where
  "fs_creat path mode k =
     bnd (aget path 0) (\<lambda>c.
     kassert (c = slash) ''path[0]==/''
      (bnd (strdup (k_mem k) path) (\<lambda>dirname.
       bnd (strlen (Some dirname)) (\<lambda>len.
       bnd (after_slash dirname len) (\<lambda>p.
       bnd (strdup (k_mem k) (drop p dirname)) (\<lambda>filename.
       bnd (aset dirname p 0) (\<lambda>dirname.
       bnd (fs_namei dirname k) (\<lambda>(parent, k). case parent of
         None \<Rightarrow> Inr (None, k)
       | Some n \<Rightarrow>
           if \<not> has_ops k n then Inr (None, k)
           else lift (cofs_creat (k_junk k) n filename mode) k)))))))) "

definition O_CREAT :: u32 where "O_CREAT = 0x40"
definition O_TRUNC :: u32 where "O_TRUNC = 0x200"
definition O_APPEND :: u32 where "O_APPEND = 0x400"

definition fs_open_namei :: "u8 list \<Rightarrow> u32 \<Rightarrow> u32 \<Rightarrow> 'a kstate_scheme \<Rightarrow> ((int \<times> nat option) \<times> 'a kstate_scheme) kres" where
  "fs_open_namei path flags mode k =
     bnd (canonize_path (k_mem k) (k_cwd k) path) (\<lambda>p.
     bnd (fs_namei p k) (\<lambda>(nod, k).
     bnd (if nod = None \<and> flags AND O_CREAT \<noteq> 0 then fs_creat p mode k else Inr (nod, k)) (\<lambda>(nod, k).
     bnd (if flags AND O_TRUNC \<noteq> 0 \<and> flags AND 3 \<noteq> 0
          then bnd (fs_truncate nod 0 k) (\<lambda>(r, k). Inr (r < 0, k)) else Inr (False, k)) (\<lambda>(failed, k).
     if failed then Inr ((- 1, nod), k)
     else Inr ((if nod \<noteq> None then 0 else - 1, nod), k)))))"

text \<open>
  The test for an empty directory in \<open>fs_unlink\<close>. The loop ends because \<open>cofs_readdir\<close> returns NULL
  behind the end of the directory; a file has at most \<open>(6 + 128 + 128 * 128) * 16\<close> entries, which
  bounds the iterations.
\<close>

definition MAX_DIR_ENTRIES :: nat where
  "MAX_DIR_ENTRIES = (NUM_DIRECT + NUM_SIND + NUM_DIND) * (BLOCK_SIZE div DIRENT_SIZE)"

fun dir_occupied :: "nat \<Rightarrow> nat \<Rightarrow> nat \<Rightarrow> 'a kstate_scheme \<Rightarrow> (bool \<times> 'a kstate_scheme) kres" where
  "dir_occupied 0 n idx k = Inl Fault"
| "dir_occupied (Suc fuel) n idx k =
     bnd (fs_readdir n (of_nat idx) k) (\<lambda>(d, k). case d of
       None \<Rightarrow> Inr (False, k)
     | Some (ino, name) \<Rightarrow>
         if ino > 0 then
           bnd (strcmp name [dot, 0]) (\<lambda>r. if r = 0 then dir_occupied fuel n (Suc idx) k
           else bnd (strcmp name [dot, dot, 0]) (\<lambda>r. if r = 0 then dir_occupied fuel n (Suc idx) k
             else Inr (True, k)))
         else dir_occupied fuel n (Suc idx) k)"

definition fs_unlink :: "u8 list \<Rightarrow> u8 list \<Rightarrow> u8 list \<Rightarrow> 'a kstate_scheme \<Rightarrow> (int \<times> 'a kstate_scheme) kres" where
  "fs_unlink dbuf fbuf path k =
     bnd (canonize_path (k_mem k) (k_cwd k) path) (\<lambda>p.
     bnd (bname p dbuf fbuf) (\<lambda>(dirname, filename).
     bnd (fs_namei dirname k) (\<lambda>(parent, k). case parent of
       None \<Rightarrow> Inl Fault
     | Some pn \<Rightarrow>
         bnd (fs_finddir pn filename k) (\<lambda>(nod, k).
         if n_type (node k pn) \<noteq> FS_DIRECTORY then Inr (- 1, k)
         else case nod of
           None \<Rightarrow> Inr (- 1, k)
         | Some n \<Rightarrow>
             bnd (if n_type (node k n) = FS_DIRECTORY
                  then dir_occupied (MAX_DIR_ENTRIES + 2) n 0 k else Inr (False, k)) (\<lambda>(occupied, k).
             if occupied then Inr (- 1, k)
             else bnd (fs_close nod k) (\<lambda>k.
               if \<not> has_ops k pn then Inr (- 1, k)
               else lift (cofs_unlink (k_junk k) pn filename) k))))))"

section \<open>Name lookup is a walk over components\<close>

text \<open>The string functions look at a name only up to its terminator.\<close>

lemma strcmp_tail: "0 \<notin> set s \<Longrightarrow> strcmp a (s @ 0 # r) = strcmp a (s @ [0])"
proof (induction s arbitrary: a)
  case Nil
  then show ?case by (cases a) auto
next
  case (Cons x s)
  then show ?case by (cases a) auto
qed

lemma strncpy_tail: "0 \<notin> set s \<Longrightarrow> strncpy d (s @ 0 # r) n = strncpy d (s @ [0]) n"
proof (induction s arbitrary: d n)
  case Nil
  then show ?case by (cases d; cases n) auto
next
  case (Cons x s)
  then show ?case by (cases d; cases n) auto
qed

lemma fs_finddir_tail:
  assumes "0 \<notin> set s"
  shows "fs_finddir n (s @ 0 # r) k = fs_finddir n (s @ [0]) k"
proof -
  have "name_is (s @ 0 # r) = name_is (s @ [0])"
    by (intro ext) (simp only: name_is_def strcmp_tail [OF assms, of _ r])
  moreover have "set_name m (s @ 0 # r) = set_name m (s @ [0])" for m
    by (intro ext) (simp only: set_name_def strncpy_tail [OF assms, of _ r])
  ultimately have "cofs_finddir (k_junk k) n (s @ 0 # r) = cofs_finddir (k_junk k) n (s @ [0])"
    by (intro ext) (simp only: cofs_finddir_def)
  then show ?thesis by (simp only: fs_finddir_def)
qed

fun walk :: "u8 list list \<Rightarrow> nat option \<Rightarrow> 'a kstate_scheme \<Rightarrow> (nat option \<times> 'a kstate_scheme) kres" where
  "walk [] cur k = Inr (cur, k)"
| "walk (c # cs) cur k =
     bnd (fs_finddir (case cur of Some n \<Rightarrow> n | None \<Rightarrow> k_root k) (c @ [0]) (put_back cur k)) (\<lambda>(r, k).
     if r = None then Inr (None, k) else walk cs r k)"

definition flat :: "u8 list list \<Rightarrow> u8 list" where
  "flat cs = concat (map (\<lambda>c. c @ [0]) cs)"

definition names_ok :: "u8 list list \<Rightarrow> bool" where
  "names_ok cs \<longleftrightarrow> (\<forall>c\<in>set cs. c \<noteq> [] \<and> 0 \<notin> set c \<and> slash \<notin> set c)"

lemma flat_simps [simp]: "flat [] = []" "flat (c # cs) = c @ 0 # flat cs"
  by (simp_all add: flat_def)

lemma namei_loop_walk: "names_ok cs \<Longrightarrow> namei_loop (flat cs) (length (flat cs) - 1) cur k = walk cs cur k"
proof (induction cs arbitrary: cur k)
  case Nil
  then show ?case by (simp add: namei_loop.simps)
next
  case (Cons c cs)
  from Cons.prems have c: "c \<noteq> []" "0 \<notin> set c" "names_ok cs" by (auto simp: names_ok_def)
  let ?p = "c @ 0 # flat cs"
  have hd: "aget ?p 0 = Inr (hd c)" "hd c \<noteq> 0" using c by (cases c; auto simp: aget_def)+
  have len: "strlen (Some ?p) = Inr (length c)"
    using strlen_cstr [of c ?p] c(2) by (simp add: cstr_def)
  have "namei_loop ?p (length c + length (flat cs)) cur k =
      bnd (fs_finddir (case cur of Some n \<Rightarrow> n | None \<Rightarrow> k_root k) ?p (put_back cur k)) (\<lambda>(cur, k).
        if cur = None then Inr (None, k) else namei_loop (flat cs) (length (flat cs) - 1) cur k)"
    using hd len c(1) by (subst namei_loop.simps) (simp cong: if_cong prod.case_cong)
  also have "\<dots> = walk (c # cs) cur k"
    by (simp only: fs_finddir_tail [OF c(2), of _ "flat cs"] Cons.IH [OF c(3)] walk.simps)
  finally show ?case by simp
qed

lemma map_slash_joined:
  "names_ok cs \<Longrightarrow> map (\<lambda>c. if c = slash then 0 else c) (joined cs @ [0]) = 0 # concat (map (\<lambda>c. c @ [0]) cs)"
proof (induction cs)
  case (Cons c cs)
  have "map (\<lambda>c. if c = slash then 0 else c) c = c"
    using Cons.prems by (auto simp: names_ok_def intro!: map_idI)
  with Cons show ?case by (simp add: names_ok_def)
qed simp

lemma names_ok_zero: "names_ok cs \<Longrightarrow> 0 \<notin> set (joined cs)"
  by (auto simp: names_ok_def joined_def)

lemma namei_walk:
  assumes "names_ok cs" and "cs \<noteq> []" and "path = joined cs @ 0 # r"
    and "k_mem k (length (joined cs) + 1) = Some mem" and "length mem = length (joined cs) + 1"
  shows "fs_namei path k = walk cs None k"
proof -
  let ?s = "joined cs"
  obtain c cs' where cs: "cs = c # cs'" "c \<noteq> []" using assms(1,2) by (cases cs) (auto simp: names_ok_def)
  have str: "cstr ?s path" using assms(3) names_ok_zero [OF assms(1)] by (simp add: cstr_def)
  have hd: "aget path 0 = Inr slash" using assms(3) cs by (simp add: aget_def)
  have len: "strlen (Some path) = Inr (length ?s)" "length ?s \<noteq> 1"
    using strlen_cstr [OF str] cs by simp_all
  have dup: "strdup (k_mem k) path = Inr (?s @ [0])"
    by (rule strdup_cstr [where mem = "k_mem k", OF str assms(4,5)])
  have start: "map (\<lambda>c. if c = slash then 0 else c) (?s @ [0]) = 0 # flat cs"
    using map_slash_joined [OF assms(1)] by (simp add: flat_def)
  have total: "length ?s = length (flat cs)"
    using arg_cong [OF start, of length] by simp
  have "namei_loop (0 # flat cs) (length ?s) None k = namei_loop (flat cs) (length (flat cs) - 1) None k"
    using cs total by (subst namei_loop.simps) (simp add: strlen_def)
  with hd len dup start namei_loop_walk [OF assms(1), of None k] show ?thesis
    by (simp add: fs_namei_def)
qed

text \<open>
  C10. \<open>fs_namei\<close> (\<open>vfs.c\<close>) on a path \<open>/c1/c2/.../cn\<close> is the walk from the root that looks up \<open>c1\<close>,
  then \<open>c2\<close> in what was found, and so on, gives every directory on the way back, and stops with
  NULL at the first name that is missing; it reads nothing outside its copy of the path.
\<close>

theorem namei_walks_components:
  assumes "names_ok cs" and "cs \<noteq> []" and "path = joined cs @ 0 # r"
    and "k_mem k (length (joined cs) + 1) = Some mem" and "length mem = length (joined cs) + 1"
  shows "fs_namei path k = walk cs None k"
  by (rule namei_walk [OF assms])

lemma namei_walks_components_witness:
  "\<exists>k :: kstate. fs_namei [slash, 97, 0] k = walk [[97]] None k"
proof -
  let ?k = "\<lparr>k_fs = dir_fs, k_root = 0, k_cwd = [slash, 0], k_mem = (\<lambda>n. Some (replicate n 0)), k_junk = replicate 32 0\<rparr>"
  have "fs_namei [slash, 97, 0] ?k = walk [[97]] None ?k"
    by (rule namei_walks_components [where r = "[]" and mem = "replicate 3 0"])
      (simp_all add: names_ok_def numeral_3_eq_3)
  then show ?thesis by blast
qed

end
