(* ===== verification/Sysfile.thy ===== *)
theory Sysfile
  imports Vfs Pipe
begin

text \<open>
  The system calls on files (\<open>sysfile.c\<close>): the table of open files of the current task and the
  calls that go through it. The table \<open>t_files\<close> is the array \<open>current_task->files\<close> of
  \<open>num_files\<close> pointers; a pointer is an index into \<open>t_heap\<close>, the \<open>struct file\<close> objects allocated so
  far, where \<open>None\<close> is an object that was freed.

  \<open>dev_open\<close> attaches a driver to the node of a device and is an argument of \<open>sys_open\<close>.
  \<open>sys_pipe\<close> and \<open>sys_ioctl\<close> work on the nodes of pipes and drivers and are not part of this theory. The first table and
  the copy of the table in a fork (\<open>task_init\<close>, \<open>fork_int\<close> of \<open>task.c\<close>) are.
\<close>

record open_file =
  f_mode :: u16
  f_flags :: u16
  f_offs :: u32
  f_node :: "nat option"
  f_dup_cnt :: int

record files = kstate +
  t_files :: "nat option list"
  t_heap :: "open_file option list"
  t_root_dir :: "nat option"

definition MAX_OPEN_FILES :: nat where
  "MAX_OPEN_FILES = 64"

definition O_RDWR :: u32 where "O_RDWR = 2"

definition SEEK_SET :: int where "SEEK_SET = 0"
definition SEEK_CUR :: int where "SEEK_CUR = 1"
definition SEEK_END :: int where "SEEK_END = 2"

section \<open>The table of open files\<close>

text \<open>\<open>calloc(1, sizeof(struct file))\<close>; the structure has 16 bytes.\<close>

definition file_alloc :: "'a files_scheme \<Rightarrow> nat option \<times> 'a files_scheme" where
  "file_alloc k = (case k_mem k 16 of
      None \<Rightarrow> (None, k)
    | Some _ \<Rightarrow> (Some (length (t_heap k)),
        k\<lparr>t_heap := t_heap k @ [Some \<lparr>f_mode = 0, f_flags = 0, f_offs = 0, f_node = None, f_dup_cnt = 0\<rparr>]\<rparr>))"

text \<open>Reading, writing and freeing a \<open>struct file\<close> through a pointer.\<close>

definition fget :: "nat option \<Rightarrow> 'a files_scheme \<Rightarrow> open_file kres" where
  "fget p k = (case p of None \<Rightarrow> Inl Fault
    | Some a \<Rightarrow> bnd (aget (t_heap k) a) (\<lambda>f. case f of None \<Rightarrow> Inl Fault | Some f \<Rightarrow> Inr f))"

definition fput :: "nat \<Rightarrow> open_file \<Rightarrow> 'a files_scheme \<Rightarrow> 'a files_scheme" where
  "fput a f k = k\<lparr>t_heap := (t_heap k)[a := Some f]\<rparr>"

definition ffree :: "nat \<Rightarrow> 'a files_scheme \<Rightarrow> 'a files_scheme" where
  "ffree a k = k\<lparr>t_heap := (t_heap k)[a := None]\<rparr>"

fun free_slot :: "nat option list \<Rightarrow> nat" where
  "free_slot [] = 0"
| "free_slot (p # ps) = (case p of None \<Rightarrow> 0 | Some _ \<Rightarrow> Suc (free_slot ps))"

definition fd_alloc :: "'a files_scheme \<Rightarrow> (int \<times> 'a files_scheme) kres" where
  "fd_alloc k =
     (let n = length (t_files k); fd = free_slot (t_files k) in
      if fd = n then
        if fd > MAX_OPEN_FILES then Inr (- 1, k)
        else
          let m = (if n * 2 \<ge> MAX_OPEN_FILES then MAX_OPEN_FILES else n * 2) in
          case k_mem k (4 * m) of
            None \<Rightarrow> Inl Fault
          | Some _ \<Rightarrow> Inr (int fd, k\<lparr>t_files := t_files k @ replicate (m - n) None\<rparr>)
      else Inr (int fd, k))"

text \<open>\<open>current_task->files[fd] = p\<close>\<close>

definition set_fd :: "int \<Rightarrow> nat option \<Rightarrow> 'a files_scheme \<Rightarrow> 'a files_scheme kres" where
  "set_fd fd p k =
     (if fd < 0 then Inl Fault else bnd (aset (t_files k) (nat fd) p) (\<lambda>fs. Inr (k\<lparr>t_files := fs\<rparr>)))"

definition get_fd :: "int \<Rightarrow> 'a files_scheme \<Rightarrow> nat option kres" where
  "get_fd fd k = (if fd < 0 then Inl Fault else aget (t_files k) (nat fd))"

definition fd_is_valid :: "int \<Rightarrow> 'a files_scheme \<Rightarrow> bool kres" where
  "fd_is_valid fd k =
     (if fd > int (length (t_files k)) then Inr False
      else if fd < 0 then Inr False
      else bnd (get_fd fd k) (\<lambda>p. Inr (p \<noteq> None)))"

text \<open>
  The prologue of the calls that take a descriptor:
  \<open>if (!fd_is_valid(fd)) return err; f = current_task->files[fd];\<close>
\<close>

definition with_fd :: "int \<Rightarrow> 'r \<Rightarrow> (nat \<Rightarrow> open_file \<Rightarrow> 'a files_scheme \<Rightarrow> ('r \<times> 'a files_scheme) kres) \<Rightarrow>
    'a files_scheme \<Rightarrow> ('r \<times> 'a files_scheme) kres" where
  "with_fd fd err body k =
     bnd (fd_is_valid fd k) (\<lambda>valid.
     if \<not> valid then Inr (err, k)
     else bnd (get_fd fd k) (\<lambda>p. bnd (fget p k) (\<lambda>f. body (the p) f k)))"

section \<open>Open, close, read, write\<close>

definition S_ISCHR :: "u16 \<Rightarrow> bool" where
  "S_ISCHR m \<longleftrightarrow> m AND FS_IFMT = FS_CHARDEVICE"

definition S_ISBLK :: "u16 \<Rightarrow> bool" where
  "S_ISBLK m \<longleftrightarrow> m AND FS_IFMT = FS_BLOCKDEVICE"

definition sys_open :: "(nat \<Rightarrow> u32 \<Rightarrow> 'a files_scheme \<Rightarrow> 'a files_scheme kres) \<Rightarrow>
    u8 list \<Rightarrow> u32 \<Rightarrow> u32 \<Rightarrow> 'a files_scheme \<Rightarrow> (int \<times> 'a files_scheme) kres" where
  "sys_open dev_open filename flags mode k =
     bnd (fd_alloc k) (\<lambda>(fd, k).
     if fd < 0 then Inr (- 1, k)
     else case file_alloc k of
       (None, k) \<Rightarrow> Inl Fault
     | (Some a, k) \<Rightarrow>
         bnd (fs_open_namei filename flags mode k) (\<lambda>((r, nod), k).
         if r < 0 \<or> nod = None then
           bnd (if nod \<noteq> None then fs_close nod k else Inr k) (\<lambda>k.
           bnd (set_fd fd None (ffree a k)) (\<lambda>k. Inr (- 1, k)))
         else
           let n = the nod;
               offs = (if flags AND O_APPEND \<noteq> 0 \<and> flags AND (ucast O_WRONLY OR O_RDWR) \<noteq> 0
                       then n_size (node k n) else 0) in
           bnd (set_fd fd (Some a) (fput a \<lparr>f_mode = ucast mode, f_flags = ucast flags, f_offs = offs,
              f_node = nod, f_dup_cnt = 0\<rparr> k)) (\<lambda>k.
           bnd (if S_ISCHR (n_type (node k n)) \<or> S_ISBLK (n_type (node k n)) then dev_open n flags k
                else Inr k) (\<lambda>k. Inr (fd, k)))))"

definition sys_close :: "int \<Rightarrow> 'a files_scheme \<Rightarrow> (int \<times> 'a files_scheme) kres" where
  "sys_close fd k =
     with_fd fd (- 1) (\<lambda>a f k.
       if f_dup_cnt f < 0 then Inr (- 1, k)
       else bnd (fs_close (f_node f) k) (\<lambda>k.
         bnd (set_fd fd None
           (if f_dup_cnt f = 0 then ffree a k else fput a (f\<lparr>f_dup_cnt := f_dup_cnt f - 1\<rparr>) k)) (\<lambda>k.
         Inr (0, k)))) k"

text \<open>\<open>f->fs_node->field\<close>: a NULL node faults.\<close>

definition fnode :: "open_file \<Rightarrow> (nat \<Rightarrow> 'b kres) \<Rightarrow> 'b kres" where
  "fnode f body = (case f_node f of None \<Rightarrow> Inl Fault | Some n \<Rightarrow> body n)"

definition sys_read :: "int \<Rightarrow> u32 \<Rightarrow> 'a files_scheme \<Rightarrow> ((int \<times> u8 list) \<times> 'a files_scheme) kres" where
  "sys_read fd count k =
     with_fd fd (- 1, []) (\<lambda>a f k. fnode f (\<lambda>n.
       if f_offs f \<ge> n_size (node k n) \<and> n_type (node k n) \<noteq> FS_CHARDEVICE \<and> n_type (node k n) \<noteq> FS_PIPE
       then Inr ((0, []), k)
       else bnd (fs_read n (f_offs f) count k) (\<lambda>(bs, k).
         let bytes = of_nat (length bs) :: u32 in
         Inr ((sint bytes, bs), fput a (f\<lparr>f_offs := f_offs f + bytes\<rparr>) k)))) k"

definition sys_write :: "int \<Rightarrow> u8 list \<Rightarrow> u32 \<Rightarrow> 'a files_scheme \<Rightarrow> (int \<times> 'a files_scheme) kres" where
  "sys_write fd buf count k =
     with_fd fd (- 1) (\<lambda>a f k. fnode f (\<lambda>n.
       bnd (fs_write n (f_offs f) count buf k) (\<lambda>(bytes, k).
       Inr (sint bytes, fput a (f\<lparr>f_offs := f_offs f + bytes\<rparr>) k)))) k"

definition sys_lseek :: "int \<Rightarrow> u32 \<Rightarrow> int \<Rightarrow> 'a files_scheme \<Rightarrow> (u32 \<times> 'a files_scheme) kres" where
  "sys_lseek fd offset whence k =
     with_fd fd (- 1) (\<lambda>a f k.
       if whence = SEEK_SET then fnode f (\<lambda>n.
         if offset > n_size (node k n) then Inr (- 1, k)
         else Inr (offset, fput a (f\<lparr>f_offs := offset\<rparr>) k))
       else if whence = SEEK_CUR then fnode f (\<lambda>n.
         if offset + f_offs f > n_size (node k n) then Inr (- 1, k)
         else Inr (f_offs f + offset, fput a (f\<lparr>f_offs := f_offs f + offset\<rparr>) k))
       else if whence = SEEK_END then Inr (offset, fput a (f\<lparr>f_offs := offset\<rparr>) k)
       else Inr (f_offs f, k)) k"

definition sys_ftruncate :: "int \<Rightarrow> u32 \<Rightarrow> 'a files_scheme \<Rightarrow> (int \<times> 'a files_scheme) kres" where
  "sys_ftruncate fd len k = with_fd fd (- 1) (\<lambda>a f k. fs_truncate (f_node f) len k) k"

text \<open>\<open>if (f->fs_node && FS_CHARDEVICE)\<close>: the second operand is a constant.\<close>

definition sys_isatty :: "int \<Rightarrow> 'a files_scheme \<Rightarrow> (int \<times> 'a files_scheme) kres" where
  "sys_isatty fd k =
     with_fd fd 0 (\<lambda>a f k. Inr (if f_node f \<noteq> None \<and> FS_CHARDEVICE \<noteq> 0 then 1 else 0, k)) k"

definition sys_dup :: "int \<Rightarrow> 'a files_scheme \<Rightarrow> (int \<times> 'a files_scheme) kres" where
  "sys_dup oldfd k =
     (if 0 \<le> oldfd \<and> oldfd < int (length (t_files k)) \<and> t_files k ! nat oldfd \<noteq> None then
        bnd (fd_alloc k) (\<lambda>(fd, k).
        if fd < 0 then Inr (- 1, k)
        else bnd (get_fd oldfd k) (\<lambda>p.
          bnd (set_fd fd p k) (\<lambda>k.
          bnd (fget p k) (\<lambda>f. fnode f (\<lambda>n.
          bnd (fs_dup n k) (\<lambda>k.
          Inr (fd, fput (the p) (f\<lparr>f_dup_cnt := f_dup_cnt f + 1\<rparr>) k)))))))
      else Inr (- 1, k))"

section \<open>Status of a file\<close>

record stat =
  st_dev :: u16
  st_ino :: u16
  st_mode :: u16
  st_nlink :: u8
  st_uid :: u16
  st_gid :: u8
  st_rdev :: u16
  st_size :: u32
  st_atime :: u32
  st_mtime :: u32
  st_ctime :: u32

text \<open>
  \<open>populate_stat_buf\<close> assigns \<open>st_mtime\<close> and \<open>st_ctime\<close> to themselves: they keep what the caller's
  buffer held.
\<close>

definition populate_stat_buf :: "fs_node \<Rightarrow> stat \<Rightarrow> stat" where
  "populate_stat_buf nod buf =
     buf\<lparr>st_dev := 0, st_ino := ucast (n_inode nod), st_size := n_size nod,
       st_mode := ucast ((ucast (n_type nod) :: u32) OR n_mask nod), st_nlink := ucast (n_num_links nod),
       st_uid := ucast (n_uid nod), st_gid := ucast (n_gid nod),
       st_rdev := makedev (n_major nod) (n_minor nod), st_atime := n_atime nod,
       st_mtime := st_mtime buf, st_ctime := st_ctime buf\<rparr>"

text \<open>
  The calls on a path open its node with \<open>fs_open_namei\<close>, return \<open>-1\<close> when that fails, and close the
  node in the end. \<open>with_path\<close> is that prologue.
\<close>

definition with_path :: "u8 list \<Rightarrow> u32 \<Rightarrow> u32 \<Rightarrow> 'r \<Rightarrow> (nat \<Rightarrow> 'a kstate_scheme \<Rightarrow> ('r \<times> 'a kstate_scheme) kres) \<Rightarrow>
    'a kstate_scheme \<Rightarrow> ('r \<times> 'a kstate_scheme) kres" where
  "with_path path flags mode err body k =
     bnd (fs_open_namei path flags mode k) (\<lambda>((r, nod), k).
     if r < 0 then Inr (err, k) else case nod of None \<Rightarrow> Inl Fault | Some n \<Rightarrow> body n k)"

definition upd_node :: "nat \<Rightarrow> (fs_node \<Rightarrow> fs_node) \<Rightarrow> 'a kstate_scheme \<Rightarrow> 'a kstate_scheme" where
  "upd_node n g k = k\<lparr>k_fs := nset n g (k_fs k)\<rparr>"

definition closing :: "'r \<Rightarrow> nat \<Rightarrow> 'a kstate_scheme \<Rightarrow> ('r \<times> 'a kstate_scheme) kres" where
  "closing r n k = bnd (fs_close (Some n) k) (\<lambda>k. Inr (r, k))"

definition sys_stat :: "u8 list \<Rightarrow> stat \<Rightarrow> 'a kstate_scheme \<Rightarrow> ((int \<times> stat) \<times> 'a kstate_scheme) kres" where
  "sys_stat path buf k =
     with_path path 0 493 (- 1, buf) (\<lambda>n k. closing (0, populate_stat_buf (node k n) buf) n k) k"

definition sys_lstat :: "u8 list \<Rightarrow> stat \<Rightarrow> 'a kstate_scheme \<Rightarrow> ((int \<times> stat) \<times> 'a kstate_scheme) kres" where
  "sys_lstat path buf k =
     with_path path 0 493 (- 1, buf) (\<lambda>n k. closing (0, populate_stat_buf (node k n) buf) n k) k"

definition sys_fstat :: "int \<Rightarrow> stat \<Rightarrow> 'a files_scheme \<Rightarrow> ((int \<times> stat) \<times> 'a files_scheme) kres" where
  "sys_fstat fd buf k =
     with_fd fd (- 1, buf) (\<lambda>a f k. fnode f (\<lambda>n. Inr ((0, populate_stat_buf (node k n) buf), k))) k"

definition sys_chown :: "u8 list \<Rightarrow> u32 \<Rightarrow> u32 \<Rightarrow> 'a kstate_scheme \<Rightarrow> (int \<times> 'a kstate_scheme) kres" where
  "sys_chown filename uid gid k =
     with_path filename 0 511 (- 1) (\<lambda>n k.
       closing 0 n (upd_node n (\<lambda>nod. nod\<lparr>n_uid := uid, n_gid := gid\<rparr>) k)) k"

definition sys_chmod :: "u8 list \<Rightarrow> u32 \<Rightarrow> 'a kstate_scheme \<Rightarrow> (int \<times> 'a kstate_scheme) kres" where
  "sys_chmod filename mode k =
     with_path filename 0 511 (- 1) (\<lambda>n k. closing 0 n (upd_node n (\<lambda>nod. nod\<lparr>n_mask := mode\<rparr>) k)) k"

section \<open>Directories and names\<close>

definition sys_chdir :: "u8 list \<Rightarrow> 'a kstate_scheme \<Rightarrow> (int \<times> 'a kstate_scheme) kres" where
  "sys_chdir path k =
     bnd (canonize_path (k_mem k) (k_cwd k) path) (\<lambda>p.
     with_path p 0 511 (- 1) (\<lambda>n k.
       if \<not> is_dir k n then closing (- 1) n k
       else closing 0 n (k\<lparr>k_cwd := p\<rparr>)) k)"

definition sys_chroot :: "u8 list \<Rightarrow> 'a files_scheme \<Rightarrow> (int \<times> 'a files_scheme) kres" where
  "sys_chroot path k =
     with_path path 0 511 (- 1) (\<lambda>n k.
       if \<not> is_dir k n then closing (- 1) n k else Inr (0, k\<lparr>t_root_dir := Some n\<rparr>)) k"

text \<open>
  \<open>sys_mkdir\<close>: \<open>strip_slashes tmp len\<close> is the loop that removes trailing slashes, where \<open>len\<close> is
  \<open>strlen(tmp)\<close>, one less after every store; at length 0 the code reads \<open>tmp[-1]\<close>.
\<close>

fun strip_slashes :: "u8 list \<Rightarrow> nat \<Rightarrow> u8 list kres" where
  "strip_slashes tmp 0 = Inl Fault"
| "strip_slashes tmp (Suc n) =
     bnd (aget tmp n) (\<lambda>c.
     if c = slash then bnd (aset tmp n 0) (\<lambda>tmp. strip_slashes tmp n) else Inr tmp)"

fun rfind_slash :: "u8 list \<Rightarrow> nat \<Rightarrow> nat kres" where
  "rfind_slash tmp 0 = Inr 0"
| "rfind_slash tmp (Suc i) =
     bnd (aget tmp (Suc i)) (\<lambda>c. if c = slash then Inr (Suc i) else rfind_slash tmp i)"

definition mkdir_at :: "u8 list \<Rightarrow> u8 list \<Rightarrow> u32 \<Rightarrow> 'a kstate_scheme \<Rightarrow> (int \<times> 'a kstate_scheme) kres" where
  "mkdir_at dirname basename mode k =
     with_path dirname 0 511 (- 1) (\<lambda>dir k.
       bnd (fs_finddir dir basename k) (\<lambda>(f, k). case f of
         Some m \<Rightarrow> bnd (fs_close (Some dir) k) (closing (- 1) m)
       | None \<Rightarrow>
           bnd (fs_mkdir dir basename mode k) (\<lambda>(f, k). case f of
             None \<Rightarrow> closing (- 1) dir k
           | Some m \<Rightarrow> bnd (fs_close (Some m) k) (closing 0 dir)))) k"

definition sys_mkdir :: "u8 list option \<Rightarrow> u32 \<Rightarrow> 'a kstate_scheme \<Rightarrow> (int \<times> 'a kstate_scheme) kres" where
  "sys_mkdir pathp mode k = (case pathp of
      None \<Rightarrow> Inr (- 1, k)
    | Some path \<Rightarrow>
        bnd (aget path 0) (\<lambda>c.
        bnd (if c \<noteq> slash then
               bnd (strlen (Some (k_cwd k))) (\<lambda>m. bnd (strlen (Some path)) (\<lambda>n.
               case k_mem k (m + n + 4) of
                 None \<Rightarrow> Inl Fault
               | Some _ \<Rightarrow>
                   bnd (strcat (replicate (m + n + 4) 0) (k_cwd k)) (\<lambda>tmp.
                   bnd (strcat tmp [slash, 0]) (\<lambda>tmp. strcat tmp path))))
             else strdup (k_mem k) path) (\<lambda>tmp.
        bnd (strlen (Some tmp)) (\<lambda>l0.
        bnd (strip_slashes tmp l0) (\<lambda>tmp.
        bnd (strlen (Some tmp)) (\<lambda>len.
        bnd (rfind_slash tmp len) (\<lambda>i.
        if i = len then Inr (- 1, k)
        else bnd (strdup (k_mem k) tmp) (\<lambda>dirname.
          bnd (aset dirname i 0) (\<lambda>dirname.
          bnd (strdup (k_mem k) tmp) (\<lambda>basename.
          bnd (memmove basename 0 (i + 1) (int len - int i)) (\<lambda>basename.
          bnd (aset basename (len - i) 0) (\<lambda>basename.
          mkdir_at dirname basename mode k))))))))))))"

text \<open>\<open>sys_opendir\<close> tests the descriptor with \<open>!fd\<close> and then indexes the table with it.\<close>

definition sys_opendir :: "(nat \<Rightarrow> u32 \<Rightarrow> 'a files_scheme \<Rightarrow> 'a files_scheme kres) \<Rightarrow>
    u8 list \<Rightarrow> 'a files_scheme \<Rightarrow> (nat option \<times> 'a files_scheme) kres" where
  "sys_opendir dev_open dirname k =
     bnd (sys_open dev_open dirname 0 0 k) (\<lambda>(fd, k).
     if fd = 0 then Inr (None, k)
     else bnd (get_fd fd k) (\<lambda>d. bnd (fget d k) (\<lambda>f. fnode f (\<lambda>n.
       if \<not> is_dir k n then bnd (sys_close fd k) (\<lambda>(_, k). Inr (None, k))
       else Inr (d, k)))))"

fun closedir_scan :: "nat \<Rightarrow> nat option list \<Rightarrow> nat \<Rightarrow> nat option" where
  "closedir_scan d [] fd = None"
| "closedir_scan d (p # ps) fd = (if p = Some d then Some fd else closedir_scan d ps (Suc fd))"

definition sys_closedir :: "nat \<Rightarrow> 'a files_scheme \<Rightarrow> (int \<times> 'a files_scheme) kres" where
  "sys_closedir d k = (case closedir_scan d (t_files k) 0 of
      None \<Rightarrow> Inr (- 1, k)
    | Some fd \<Rightarrow> bnd (sys_close (int fd) k) (\<lambda>(_, k). Inr (0, k)))"

text \<open>The result carries the entry that was copied to the user's buffer \<open>buf\<close> (28 bytes of name).\<close>

definition sys_readdir :: "nat \<Rightarrow> u32 \<times> u8 list \<Rightarrow> 'a files_scheme \<Rightarrow> ((int \<times> u32 \<times> u8 list) \<times> 'a files_scheme) kres" where
  "sys_readdir d buf k =
     bnd (fget (Some d) k) (\<lambda>f. fnode f (\<lambda>n.
     bnd (fs_readdir n (f_offs f) k) (\<lambda>(e, k). case e of
       None \<Rightarrow> Inr ((- 1, buf), k)
     | Some (ino, nm) \<Rightarrow>
         bnd (strncpy (snd buf) nm 27) (\<lambda>nm.
         Inr ((0, ino, nm), fput d (f\<lparr>f_offs := f_offs f + 1\<rparr>) k)))))"

definition sys_readlink :: "u8 list \<Rightarrow> u8 list \<Rightarrow> u32 \<Rightarrow> int" where
  "sys_readlink pathname buf bufsiz = - 1"

definition sys_getcwd :: "u8 list \<Rightarrow> u32 \<Rightarrow> 'a kstate_scheme \<Rightarrow> u8 list option kres" where
  "sys_getcwd buf sz k =
     bnd (strlen (Some (k_cwd k))) (\<lambda>len.
     if (of_nat len :: u32) + 1 > sz then Inr None
     else bnd (strncpy buf (k_cwd k) len) (\<lambda>buf. bnd (aset buf len 0) (\<lambda>buf. Inr (Some buf))))"

text \<open>\<open>dbuf\<close> and \<open>fbuf\<close> are the arrays on the stack of \<open>fs_unlink\<close>.\<close>

definition sys_unlink :: "u8 list \<Rightarrow> u8 list \<Rightarrow> u8 list \<Rightarrow> 'a kstate_scheme \<Rightarrow> (int \<times> 'a kstate_scheme) kres" where
  "sys_unlink dbuf fbuf path k =
     with_path path 0 0 (- 1) (\<lambda>n k. bnd (fs_close (Some n) k) (\<lambda>k. fs_unlink dbuf fbuf path k)) k"

text \<open>
  \<open>sys_link\<close>. The local \<open>parent\<close> is tested although it is assigned on one branch only, and
  \<open>file\<close> is read although \<open>bname\<close> fills it on the other: \<open>parent0\<close> and \<open>fbuf\<close> are what the stack
  holds (a pointer that is neither NULL nor a node faults).
\<close>

definition sys_link :: "nat option \<Rightarrow> u8 list \<Rightarrow> u8 list \<Rightarrow> u8 list \<Rightarrow> u8 list \<Rightarrow> 'a kstate_scheme \<Rightarrow>
    (int \<times> 'a kstate_scheme) kres" where
  "sys_link parent0 dbuf fbuf oldpath newpath k =
     bnd (canonize_path (k_mem k) (k_cwd k) oldpath) (\<lambda>old.
     bnd (canonize_path (k_mem k) (k_cwd k) newpath) (\<lambda>new.
     bnd (fs_open_namei new 0 0 k) (\<lambda>((r, nod), k).
     if r = 0 \<and> nod \<noteq> None \<and> \<not> is_dir k (the nod) then closing (- 1) (the nod) k
     else
       let parent = (if r = 0 then nod else parent0) in
       with_path old O_RDWR 0 (- 1) (\<lambda>n k.
         bnd (case parent of
             Some p \<Rightarrow> if p < length (cache (k_fs k)) then Inr ((Some p, fbuf), k) else Inl Fault
           | None \<Rightarrow>
               bnd (bname newpath dbuf fbuf) (\<lambda>(new_dir, f).
               bnd (fs_open_namei new_dir O_RDWR 0 k) (\<lambda>((r, p), k).
               if r < 0 then bnd (fs_close (Some n) k) (\<lambda>k. Inr ((None, f), k))
               else if \<not> is_dir k (the p)
               then bnd (fs_close p k) (\<lambda>k. bnd (fs_close (Some n) k) (\<lambda>k. Inr ((None, f), k)))
               else Inr ((p, f), k)))) (\<lambda>((par, f), k).
         case par of
           None \<Rightarrow> Inr (- 1, k)
         | Some p \<Rightarrow>
             bnd (aget f 0) (\<lambda>c.
             bnd (if c = 0 then bnd (bname oldpath dbuf f) (\<lambda>(_, f). Inr f) else Inr f) (\<lambda>f.
             bnd (fs_link p n f k) (\<lambda>(ret, k).
             bnd (fs_close (Some p) k) (closing ret n)))))) k)))"

definition sys_rename :: "u8 list \<Rightarrow> u8 list \<Rightarrow> u8 list \<Rightarrow> u8 list \<Rightarrow> 'a kstate_scheme \<Rightarrow> (int \<times> 'a kstate_scheme) kres" where
  "sys_rename dbuf fbuf oldpath newpath k =
     bnd (canonize_path (k_mem k) (k_cwd k) oldpath) (\<lambda>old.
     bnd (canonize_path (k_mem k) (k_cwd k) newpath) (\<lambda>new.
     bnd (strcmp old new) (\<lambda>d.
     if d = 0 then Inr (- 1, k)
     else
       bnd (bname new dbuf fbuf) (\<lambda>(dir, f).
       with_path old O_RDWR 0 (- 1) (\<lambda>n k.
         bnd (fs_open_namei dir O_RDWR 0 k) (\<lambda>((r, p), k).
         if r < 0 then closing (- 1) n k
         else
           bnd (fs_open_namei new O_RDWR 0 k) (\<lambda>((r, t), k).
           bnd (if r = 0 then bnd (fs_unlink dbuf fbuf new k) (\<lambda>(_, k). Inr k) else Inr k) (\<lambda>k.
           bnd (fs_link (the p) n f k) (\<lambda>(ret, k).
           if ret < 0 then (case t of
               None \<Rightarrow> Inl Fault
             | Some tn \<Rightarrow> bnd (fs_link (the p) tn (n_name (node k tn)) k) (\<lambda>(_, k). closing ret n k))
           else
             bnd (fs_unlink dbuf fbuf old k) (\<lambda>(_, k).
             bnd (if t \<noteq> None then fs_close t k else Inr k) (\<lambda>k.
             bnd (fs_close p k) (closing ret n)))))))) k))))"

section \<open>What the calls keep of the rest of the state\<close>

text \<open>The operations of the virtual file system change the file system only.\<close>

definition only_fs :: "'a kstate_scheme \<Rightarrow> 'a kstate_scheme \<Rightarrow> bool" where
  "only_fs k k' \<longleftrightarrow> (\<exists>c. k' = k\<lparr>k_fs := c\<rparr>)"

lemma only_fs_upd [simp, intro]: "only_fs k (k\<lparr>k_fs := c\<rparr>)"
  by (auto simp: only_fs_def)

lemma only_fs_refl [simp, intro]: "only_fs k k"
  using only_fs_upd [of k "k_fs k"] by simp

lemma only_fs_trans: "only_fs k k1 \<Longrightarrow> only_fs k1 k2 \<Longrightarrow> only_fs k k2"
  by (auto simp: only_fs_def)

lemma only_fs_files:
  fixes k k' :: "'a files_scheme"
  assumes "only_fs k k'"
  shows "t_files k' = t_files k" and "t_heap k' = t_heap k" and "k_mem k' = k_mem k"
  using assms by (auto simp: only_fs_def)

text \<open>\<open>keeps m k\<close>: if the computation returns, it has changed the file system only.\<close>

definition keeps :: "('r \<times> 'a kstate_scheme) kres \<Rightarrow> 'a kstate_scheme \<Rightarrow> bool" where
  "keeps m k \<longleftrightarrow> (\<forall>r k'. m = Inr (r, k') \<longrightarrow> only_fs k k')"

lemma keeps_Inl [simp]: "keeps (Inl e) k"
  by (simp add: keeps_def)

lemma keeps_Inr [simp]: "keeps (Inr (r, k')) k \<longleftrightarrow> only_fs k k'"
  by (simp add: keeps_def)

lemma keeps_lift [simp]: "keeps (lift f k) k"
  by (auto simp: keeps_def lift_def bnd_eq_Inr)

lemma keeps_bnd:
  assumes "keeps m k" and "\<And>r k'. only_fs k k' \<Longrightarrow> keeps (f (r, k')) k'"
  shows "keeps (bnd m f) k"
  using assms by (cases m) (auto simp: keeps_def intro: only_fs_trans)

lemma keeps_bnd_pure: "(\<And>x. keeps (f x) k) \<Longrightarrow> keeps (bnd m f) k"
  by (cases m) auto

lemma keeps_kassert: "keeps m k \<Longrightarrow> keeps (kassert c msg m) k"
  by (simp add: kassert_def)

lemma keeps_mono: "keeps m k1 \<Longrightarrow> only_fs k k1 \<Longrightarrow> keeps m k"
  by (auto simp: keeps_def intro: only_fs_trans)

lemma keeps_finddir [simp]: "keeps (fs_finddir n name k) k"
  by (simp add: fs_finddir_def)

lemma put_back_only [simp]: "only_fs k (put_back p k)"
  by (auto simp: put_back_def split: option.splits)

lemma keeps_namei_loop: "keeps (namei_loop p len cur k) k"
proof (induction len arbitrary: p cur k rule: less_induct)
  case (less len)
  have look: "keeps (if c \<noteq> 0 then fs_finddir n p (put_back cur k) else Inr (cur, k)) k" for c n
    by (auto intro: keeps_mono [OF keeps_finddir put_back_only])
  have rest: "keeps (bnd (strlen (Some p)) (\<lambda>l. namei_loop (drop (l + 1) p) (len - l - 1) cur' k')) k'"
    if "len > 0" for cur' and k' :: "'a kstate_scheme"
    using less.IH that by (intro keeps_bnd_pure) auto
  show ?case
  proof (cases "len > 0")
    case True
    show ?thesis
      unfolding namei_loop.simps [of p len cur k] if_P [OF True]
      by (rule keeps_bnd_pure, rule keeps_bnd [OF look]) (use rest [OF True] in auto)
  qed (simp add: namei_loop.simps)
qed

lemma keeps_namei: "keeps (fs_namei path k) k"
  unfolding fs_namei_def kassert_def by (auto intro!: keeps_bnd_pure keeps_namei_loop)

lemma keeps_creat: "keeps (fs_creat path mode k) k"
proof -
  have c: "keeps (bnd (fs_namei d k) (\<lambda>(parent, k). case parent of None \<Rightarrow> Inr (None, k)
    | Some n \<Rightarrow> if \<not> has_ops k n then Inr (None, k) else lift (cofs_creat (k_junk k) n f mode) k)) k" for d f
    by (rule keeps_bnd [OF keeps_namei]) (auto split: option.splits)
  show ?thesis
    unfolding fs_creat_def
    by (rule keeps_bnd_pure keeps_kassert c, rule keeps_kassert)
      (rule keeps_bnd_pure, rule keeps_bnd_pure, rule keeps_bnd_pure, rule keeps_bnd_pure,
       rule keeps_bnd_pure, rule c)
qed

lemma keeps_truncate: "keeps (fs_truncate p len k) k"
  unfolding fs_truncate_def by (auto intro!: keeps_bnd [OF keeps_lift] split: option.splits)

lemma keeps_open_namei: "keeps (fs_open_namei path flags mode k) k"
proof -
  have cr: "keeps (if C then fs_creat p mode k else Inr (nod, k)) k"
    and tr: "keeps (if C then bnd (fs_truncate nod 0 k) (\<lambda>(r, k). Inr (r < 0, k)) else Inr (False, k)) k"
    for C nod p and k :: "'a kstate_scheme"
    by (auto intro: keeps_creat keeps_bnd [OF keeps_truncate])
  show ?thesis
    unfolding fs_open_namei_def
    by (rule keeps_bnd_pure, rule keeps_bnd [OF keeps_namei], unfold prod.case,
        rule keeps_bnd [OF cr], unfold prod.case, rule keeps_bnd [OF tr]) auto
qed

lemma fs_close_only: "fs_close p k = Inr k' \<Longrightarrow> only_fs k k'"
  by (auto simp: fs_close_def lift0_def bnd_eq_Inr split: option.splits if_splits)

lemma fs_dup_only: "fs_dup n k = Inr k' \<Longrightarrow> only_fs k k'"
  by (auto simp: fs_dup_def split: if_splits)

section \<open>Descriptors\<close>

lemma free_slot_le: "free_slot ps \<le> length ps"
  by (induction ps) (auto split: option.splits)

lemma free_slot_lowest: "i < free_slot ps \<Longrightarrow> ps ! i \<noteq> None"
  by (induction ps arbitrary: i) (auto simp: nth_Cons split: option.splits nat.splits)

lemma free_slot_free: "free_slot ps < length ps \<Longrightarrow> ps ! free_slot ps = None"
  by (induction ps) (auto split: option.splits)

lemma count_list_update:
  "i < length xs \<Longrightarrow>
   count_list (xs[i := y]) z + (if xs ! i = z then 1 else 0) = count_list xs z + (if y = z then 1 else 0)"
proof (induction xs arbitrary: i)
  case (Cons x xs)
  show ?case
  proof (cases i)
    case (Suc m)
    with Cons.prems have "m < length xs" by simp
    from Cons.IH [OF this] Suc show ?thesis by (simp split: if_splits)
  qed simp
qed simp

lemma count_list_Nones [simp]: "count_list (xs @ replicate n None) (Some a) = count_list xs (Some a)"
  by (induction n) auto

text \<open>
  The table is consistent: every \<open>struct file\<close> that was not freed has at most \<open>dup_cnt + 1\<close> descriptors, the
  freed ones and those not allocated yet have none. With \<open>e\<close>, the number is exactly \<open>dup_cnt + 1\<close>.
\<close>

definition live :: "bool \<Rightarrow> open_file option list \<Rightarrow> nat option list \<Rightarrow> nat \<Rightarrow> bool" where
  "live e heap fs a \<longleftrightarrow> (case (if a < length heap then heap ! a else None) of
      None \<Rightarrow> count_list fs (Some a) = 0
    | Some f \<Rightarrow> 0 \<le> f_dup_cnt f \<and> int (count_list fs (Some a)) \<le> f_dup_cnt f + 1 \<and>
        (e \<longrightarrow> int (count_list fs (Some a)) = f_dup_cnt f + 1))"

definition ftab_ok :: "bool \<Rightarrow> 'a files_scheme \<Rightarrow> bool" where
  "ftab_ok e k \<longleftrightarrow> length (t_files k) \<le> MAX_OPEN_FILES \<and> (\<forall>a. live e (t_heap k) (t_files k) a)"

lemma ftab_ok_only: "only_fs k k' \<Longrightarrow> ftab_ok e k' = ftab_ok e (k :: 'a files_scheme)"
  by (simp add: ftab_ok_def only_fs_files)

lemma fd_alloc_spec:
  assumes "fd_alloc k = Inr (fd, k')" and "length (t_files k) \<le> MAX_OPEN_FILES"
  shows "fd = int (free_slot (t_files k))" and "t_heap k' = t_heap k" and "k_mem k' = k_mem k"
    and "\<exists>j. t_files k' = t_files k @ replicate j None" and "length (t_files k') \<le> MAX_OPEN_FILES"
  using assms by (auto simp: fd_alloc_def Let_def split: if_splits option.splits)

lemma fd_alloc_slot:
  assumes "fd_alloc k = Inr (fd, k')" and "length (t_files k) \<le> MAX_OPEN_FILES" and "nat fd < length (t_files k')"
  shows "t_files k' ! nat fd = None"
proof -
  obtain j where j: "t_files k' = t_files k @ replicate j None"
    using fd_alloc_spec(4) [OF assms(1,2)] by blast
  show ?thesis
    using free_slot_free [of "t_files k"] free_slot_le [of "t_files k"] assms(3)
    by (auto simp: j fd_alloc_spec(1) [OF assms(1,2)] nth_append)
qed

lemma live_Nones [simp]: "live e heap (fs @ replicate j None) a = live e heap fs a"
  by (simp add: live_def split: option.splits)

lemma ftab_ok_alloc: "ftab_ok e k \<Longrightarrow> fd_alloc k = Inr (fd, k') \<Longrightarrow> ftab_ok e k'"
  using fd_alloc_spec [of k fd k'] by (auto simp: ftab_ok_def)

text \<open>The three ways a call changes the table and the objects it points to.\<close>

lemma live_new:
  assumes "live e heap fs b" and "live e heap fs (length heap)" and "i < length fs" and "fs ! i = None" and "f_dup_cnt f = 0"
  shows "live e (heap @ [Some f]) (fs[i := Some (length heap)]) b"
  using assms count_list_update [OF assms(3), of "Some (length heap)" "Some b"]
  by (auto simp: live_def nth_append split: if_splits option.splits)

lemma live_freed:
  assumes "live e heap fs b" and "live e heap fs (length heap)"
  shows "live e (heap @ [None]) fs b"
  using assms by (auto simp: live_def nth_append split: if_splits option.splits)

lemma live_drop:
  assumes "live e heap fs b" and "i < length fs" and "fs ! i = Some a" and "a < length heap" and "heap ! a = Some f"
  shows "live e (heap[a := if f_dup_cnt f = 0 then None else Some (f\<lparr>f_dup_cnt := f_dup_cnt f - 1\<rparr>)]) (fs[i := None]) b"
  using assms count_list_update [OF assms(2), of None "Some b"]
  by (auto simp: live_def split: if_splits option.splits)

lemma live_dup:
  assumes "live e heap fs b" and "i < length fs" and "fs ! i = None" and "a < length heap" and "heap ! a = Some f"
  shows "live e (heap[a := Some (f\<lparr>f_dup_cnt := f_dup_cnt f + 1\<rparr>)]) (fs[i := Some a]) b"
  using assms count_list_update [OF assms(2), of "Some a" "Some b"]
  by (auto simp: live_def split: if_splits option.splits)

lemma live_same:
  assumes "live e heap fs b" and "a < length heap" and "heap ! a = Some f" and "f_dup_cnt f' = f_dup_cnt f"
  shows "live e (heap[a := Some f']) fs b"
  using assms by (auto simp: live_def nth_list_update split: if_splits option.splits)

lemma fget_Inr: "fget p k = Inr f \<longleftrightarrow> (\<exists>a. p = Some a \<and> a < length (t_heap k) \<and> t_heap k ! a = Some f)"
  by (auto simp: fget_def bnd_eq_Inr aget_eq_Inr split: option.splits)

lemma with_fd_Inr:
  assumes "with_fd fd err body k = Inr (r, k')"
  obtains "r = err" "k' = k"
  | a f where "0 \<le> fd" "nat fd < length (t_files k)" "t_files k ! nat fd = Some a"
      "a < length (t_heap k)" "t_heap k ! a = Some f" "body a f k = Inr (r, k')"
  using assms
  by (auto simp: with_fd_def bnd_eq_Inr fget_Inr get_fd_def aget_eq_Inr split: if_splits)

lemma set_fd_Inr: "set_fd fd p k = Inr k' \<longleftrightarrow> 0 \<le> fd \<and> nat fd < length (t_files k) \<and> k' = k\<lparr>t_files := (t_files k)[nat fd := p]\<rparr>"
  by (auto simp: set_fd_def bnd_eq_Inr aset_eq_Inr)

lemma ftab_close: "ftab_ok e k \<Longrightarrow> sys_close fd k = Inr (r, k') \<Longrightarrow> ftab_ok e k'"
  unfolding sys_close_def
proof (erule with_fd_Inr)
  fix a f
  assume ok: "ftab_ok e k" and fd: "0 \<le> fd" "nat fd < length (t_files k)" "t_files k ! nat fd = Some a"
    and a: "a < length (t_heap k)" "t_heap k ! a = Some f"
    and run: "(if f_dup_cnt f < 0 then Inr (- 1, k) else bnd (fs_close (f_node f) k) (\<lambda>k.
         bnd (set_fd fd None
           (if f_dup_cnt f = 0 then ffree a k else fput a (f\<lparr>f_dup_cnt := f_dup_cnt f - 1\<rparr>) k)) (\<lambda>k.
         Inr (0, k)))) = Inr (r, k')"
  show ?thesis
  proof (cases "f_dup_cnt f < 0")
    case False
    then obtain k1 where k1: "fs_close (f_node f) k = Inr k1"
      and k': "set_fd fd None (if f_dup_cnt f = 0 then ffree a k1 else fput a (f\<lparr>f_dup_cnt := f_dup_cnt f - 1\<rparr>) k1) = Inr k'"
      using run by (auto simp: bnd_eq_Inr)
    note same = only_fs_files [OF fs_close_only [OF k1]]
    have "t_heap k' = (t_heap k)[a := if f_dup_cnt f = 0 then None else Some (f\<lparr>f_dup_cnt := f_dup_cnt f - 1\<rparr>)]"
      and "t_files k' = (t_files k)[nat fd := None]"
      using k' same by (auto simp: set_fd_Inr ffree_def fput_def)
    then show ?thesis
      using ok live_drop [OF _ fd(2,3) a] by (simp add: ftab_ok_def)
  qed (use run ok in simp)
qed simp

lemma ftab_dup: "ftab_ok e k \<Longrightarrow> sys_dup oldfd k = Inr (r, k') \<Longrightarrow> ftab_ok e k'"
proof (cases "0 \<le> oldfd \<and> oldfd < int (length (t_files k)) \<and> t_files k ! nat oldfd \<noteq> None")
  case True
  assume ok: "ftab_ok e k" and run: "sys_dup oldfd k = Inr (r, k')"
  then have len: "length (t_files k) \<le> MAX_OPEN_FILES" by (simp add: ftab_ok_def)
  from run True obtain fd k1 where al: "fd_alloc k = Inr (fd, k1)"
    and rest: "(if fd < 0 then Inr (- 1, k1) else bnd (get_fd oldfd k1) (\<lambda>p.
          bnd (set_fd fd p k1) (\<lambda>k. bnd (fget p k) (\<lambda>f. fnode f (\<lambda>n. bnd (fs_dup n k) (\<lambda>k.
          Inr (fd, fput (the p) (f\<lparr>f_dup_cnt := f_dup_cnt f + 1\<rparr>) k))))))) = Inr (r, k')"
    by (auto simp: sys_dup_def bnd_eq_Inr)
  have fd0: "\<not> fd < 0" using fd_alloc_spec(1) [OF al len] by simp
  from rest fd0 obtain p k2 f n k3 where p: "set_fd fd p k1 = Inr k2" "fget p k2 = Inr f" "fs_dup n k2 = Inr k3"
    and k': "k' = fput (the p) (f\<lparr>f_dup_cnt := f_dup_cnt f + 1\<rparr>) k3"
    by (auto simp: bnd_eq_Inr fnode_def split: option.splits)
  obtain a where a: "p = Some a" "a < length (t_heap k2)" "t_heap k2 ! a = Some f"
    using p(2) by (auto simp: fget_Inr)
  have k2: "nat fd < length (t_files k1)" "k2 = k1\<lparr>t_files := (t_files k1)[nat fd := Some a]\<rparr>"
    using p(1) a(1) by (auto simp: set_fd_Inr)
  have slot: "t_files k1 ! nat fd = None" by (rule fd_alloc_slot [OF al len k2(1)])
  note ok1 = ftab_ok_alloc [OF ok al]
  have "t_files k' = (t_files k1)[nat fd := Some a]"
    "t_heap k' = (t_heap k1)[a := Some (f\<lparr>f_dup_cnt := f_dup_cnt f + 1\<rparr>)]"
    using only_fs_files [OF fs_dup_only [OF p(3)]] k2(2) a by (simp_all add: k' fput_def)
  then show ?thesis
    using ok1 live_dup [OF _ k2(1) slot, of e "t_heap k1"] a k2(2) by (simp add: ftab_ok_def)
qed (auto simp: sys_dup_def)

text \<open>A driver may change the file system, not the table.\<close>

definition driver_ok :: "(nat \<Rightarrow> u32 \<Rightarrow> 'a files_scheme \<Rightarrow> 'a files_scheme kres) \<Rightarrow> bool" where
  "driver_ok dev_open \<longleftrightarrow> (\<forall>n flags k k'. dev_open n flags k = Inr k' \<longrightarrow> only_fs k k')"

lemma ftab_open:
  assumes "driver_ok dev_open" and ok: "ftab_ok e k" and run: "sys_open dev_open filename flags mode k = Inr (r, k')"
  shows "ftab_ok e k'"
proof -
  have len: "length (t_files k) \<le> MAX_OPEN_FILES" using ok by (simp add: ftab_ok_def)
  obtain fd k1 where al: "fd_alloc k = Inr (fd, k1)"
    using run by (auto simp: sys_open_def bnd_eq_Inr)
  note ok1 = ftab_ok_alloc [OF ok al]
  have fd0: "\<not> fd < 0" using fd_alloc_spec(1) [OF al len] by simp
  let ?a = "length (t_heap k1)"
  let ?f0 = "\<lparr>f_mode = 0, f_flags = 0, f_offs = 0, f_node = None, f_dup_cnt = 0\<rparr>"
  let ?k2 = "k1\<lparr>t_heap := t_heap k1 @ [Some ?f0]\<rparr>"
  have mem: "k_mem k1 16 \<noteq> None"
    using run fd0 by (cases "k_mem k1 16") (auto simp: sys_open_def al file_alloc_def)
  obtain r0 nod k3 where op: "fs_open_namei filename flags mode ?k2 = Inr ((r0, nod), k3)"
    using run fd0 mem by (auto simp: sys_open_def al file_alloc_def bnd_eq_Inr)
  have k3: "only_fs ?k2 k3" using keeps_open_namei [of filename flags mode ?k2] op by (simp add: keeps_def)
  have end_state: "(\<exists>k4 k5. only_fs k3 k4 \<and> set_fd fd None (ffree ?a k4) = Inr k5 \<and> only_fs k5 k') \<or>
      (\<exists>f k5. f_dup_cnt f = 0 \<and> set_fd fd (Some ?a) (fput ?a f k3) = Inr k5 \<and> only_fs k5 k')"
  proof (cases "r0 < 0 \<or> nod = None")
    case True
    have "bnd (if nod \<noteq> None then fs_close nod k3 else Inr k3) (\<lambda>k. bnd (set_fd fd None (ffree ?a k)) (\<lambda>k. Inr (- 1, k)))
      = Inr (r, k')"
      using run fd0 mem op True by (auto simp: sys_open_def al file_alloc_def)
    then obtain k4 where "(if nod \<noteq> None then fs_close nod k3 else Inr k3) = Inr k4" and k4: "set_fd fd None (ffree ?a k4) = Inr k'"
      by (auto simp only: bnd_eq_Inr)
    moreover from this have "only_fs k3 k4"
      by (cases nod) (auto dest: fs_close_only)
    ultimately have "only_fs k3 k4" "set_fd fd None (ffree ?a k4) = Inr k'" by auto
    then show ?thesis by blast
  next
    case False
    define offs where "offs = (if flags AND O_APPEND \<noteq> 0 \<and> flags AND (ucast O_WRONLY OR O_RDWR) \<noteq> 0
                       then n_size (node k3 (the nod)) else 0)"
    define f where "f = \<lparr>f_mode = ucast mode, f_flags = ucast flags, f_offs = offs, f_node = nod, f_dup_cnt = 0\<rparr>"
    have "bnd (set_fd fd (Some ?a) (fput ?a f k3)) (\<lambda>k.
        bnd (if S_ISCHR (n_type (node k (the nod))) \<or> S_ISBLK (n_type (node k (the nod)))
        then dev_open (the nod) flags k else Inr k) (\<lambda>k. Inr (fd, k))) = Inr (r, k')"
      using run fd0 mem op False by (auto simp: sys_open_def al file_alloc_def Let_def f_def offs_def cong: if_cong)
    then obtain k5 where k5: "set_fd fd (Some ?a) (fput ?a f k3) = Inr k5"
      and "bnd (if S_ISCHR (n_type (node k5 (the nod))) \<or> S_ISBLK (n_type (node k5 (the nod)))
        then dev_open (the nod) flags k5 else Inr k5) (\<lambda>k. Inr (fd, k)) = Inr (r, k')"
      by (subst (asm) bnd_eq_Inr) blast
    then have "only_fs k5 k'" using assms(1) by (auto simp: driver_ok_def bnd_eq_Inr split: if_splits)
    moreover have "f_dup_cnt f = 0" by (simp add: f_def)
    ultimately show ?thesis using k5 by blast
  qed
  note same = only_fs_files [OF k3]
  show ?thesis
    using end_state
  proof (elim disjE exE conjE)
    fix k4 k5
    assume k4: "only_fs k3 k4" and k5: "set_fd fd None (ffree ?a k4) = Inr k5" and k': "only_fs k5 k'"
    have slot: "nat fd < length (t_files k1)" using k5 same only_fs_files [OF k4] by (simp add: set_fd_Inr ffree_def)
    have "t_files k5 = (t_files k1)[nat fd := None]" "t_heap k5 = t_heap k1 @ [None]"
      using k5 same only_fs_files [OF k4] by (auto simp: set_fd_Inr ffree_def)
    then have "ftab_ok e k5"
      using ok1 live_freed list_update_id [of "t_files k1" "nat fd"] fd_alloc_slot [OF al len slot]
      by (auto simp: ftab_ok_def)
    with k' show ?thesis by (simp add: ftab_ok_only)
  next
    fix f k5
    assume f: "f_dup_cnt f = 0" and k5: "set_fd fd (Some ?a) (fput ?a f k3) = Inr k5" and k': "only_fs k5 k'"
    have slot: "nat fd < length (t_files k1)" using k5 same by (simp add: set_fd_Inr fput_def)
    have "t_files k5 = (t_files k1)[nat fd := Some ?a]" "t_heap k5 = t_heap k1 @ [Some f]"
      using k5 same by (auto simp: set_fd_Inr fput_def)
    then have "ftab_ok e k5"
      using ok1 live_new [OF _ _ slot fd_alloc_slot [OF al len slot] f] by (auto simp: ftab_ok_def)
    with k' show ?thesis by (simp add: ftab_ok_only)
  qed
qed

lemma ftab_fput:
  assumes "ftab_ok e k" and "a < length (t_heap k)" and "t_heap k ! a = Some f" and "f_dup_cnt f' = f_dup_cnt f"
  shows "ftab_ok e (fput a f' k)"
  using assms live_same [of e "t_heap k"] by (auto simp: ftab_ok_def fput_def)

lemma ftab_fput_fs:
  assumes "ftab_ok e k" and "a < length (t_heap k)" and "t_heap k ! a = Some f" and "f_dup_cnt f' = f_dup_cnt f"
  shows "ftab_ok e (fput a f' (k\<lparr>k_fs := c\<rparr>))"
  using assms by (intro ftab_fput) (auto simp: ftab_ok_def)

lemma ftab_read: "ftab_ok e k \<Longrightarrow> sys_read fd count k = Inr (r, k') \<Longrightarrow> ftab_ok e k'"
  unfolding sys_read_def
proof (erule with_fd_Inr)
  fix a f
  assume ok: "ftab_ok e k" and a: "a < length (t_heap k)" "t_heap k ! a = Some f"
    and run: "fnode f (\<lambda>n. if f_offs f \<ge> n_size (node k n) \<and> n_type (node k n) \<noteq> FS_CHARDEVICE \<and> n_type (node k n) \<noteq> FS_PIPE
       then Inr ((0, []), k)
       else bnd (fs_read n (f_offs f) count k) (\<lambda>(bs, k).
         let bytes = of_nat (length bs) :: u32 in
         Inr ((sint bytes, bs), fput a (f\<lparr>f_offs := f_offs f + bytes\<rparr>) k))) = Inr (r, k')"
  with ok a show ?thesis
    by (auto simp: fnode_def bnd_eq_Inr Let_def fs_read_def lift_def ftab_fput ftab_fput_fs
        split: option.splits if_splits)
qed simp

lemma ftab_write: "ftab_ok e k \<Longrightarrow> sys_write fd buf count k = Inr (r, k') \<Longrightarrow> ftab_ok e k'"
  unfolding sys_write_def
proof (erule with_fd_Inr)
  fix a f
  assume ok: "ftab_ok e k" and a: "a < length (t_heap k)" "t_heap k ! a = Some f"
    and run: "fnode f (\<lambda>n. bnd (fs_write n (f_offs f) count buf k) (\<lambda>(bytes, k).
       Inr (sint bytes, fput a (f\<lparr>f_offs := f_offs f + bytes\<rparr>) k))) = Inr (r, k')"
  with ok a show ?thesis
    by (auto simp: fnode_def bnd_eq_Inr fs_write_def lift_def ftab_fput ftab_fput_fs
        split: option.splits if_splits)
qed simp

lemma ftab_lseek: "ftab_ok e k \<Longrightarrow> sys_lseek fd offset whence k = Inr (r, k') \<Longrightarrow> ftab_ok e k'"
  unfolding sys_lseek_def
  by (erule with_fd_Inr) (auto simp: fnode_def split: option.splits if_splits intro: ftab_fput)

section \<open>The calls of a process\<close>

text \<open>
  The calls that change the table or the offset of an open file, as steps of a process; everything else, other
  processes included, changes at most the file system.
\<close>

inductive file_step :: "(nat \<Rightarrow> u32 \<Rightarrow> 'a files_scheme \<Rightarrow> 'a files_scheme kres) \<Rightarrow>
    'a files_scheme \<Rightarrow> 'a files_scheme \<Rightarrow> bool" for dev_open where
  open_step: "sys_open dev_open filename flags mode k = Inr (r, k') \<Longrightarrow> file_step dev_open k k'"
| close_step: "sys_close fd k = Inr (r, k') \<Longrightarrow> file_step dev_open k k'"
| dup_step: "sys_dup fd k = Inr (r, k') \<Longrightarrow> file_step dev_open k k'"
| read_step: "sys_read fd count k = Inr (r, k') \<Longrightarrow> file_step dev_open k k'"
| write_step: "sys_write fd buf count k = Inr (r, k') \<Longrightarrow> file_step dev_open k k'"
| lseek_step: "sys_lseek fd offset whence k = Inr (r, k') \<Longrightarrow> file_step dev_open k k'"
| opendir_step: "sys_opendir dev_open dirname k = Inr (d, k') \<Longrightarrow> file_step dev_open k k'"
| closedir_step: "sys_closedir d k = Inr (r, k') \<Longrightarrow> file_step dev_open k k'"
| readdir_step: "sys_readdir d buf k = Inr (r, k') \<Longrightarrow> file_step dev_open k k'"
| other_step: "only_fs k k' \<Longrightarrow> file_step dev_open k k'"

lemma ftab_opendir:
  assumes "driver_ok dev_open" and "ftab_ok e k" and "sys_opendir dev_open dirname k = Inr (d, k')"
  shows "ftab_ok e k'"
proof -
  from assms(3) obtain fd k1 where o: "sys_open dev_open dirname 0 0 k = Inr (fd, k1)"
    and "k' = k1 \<or> (\<exists>r. sys_close fd k1 = Inr (r, k'))"
    by (fastforce simp: sys_opendir_def bnd_eq_Inr fnode_def split: if_splits option.split_asm)
  then show ?thesis using ftab_open [OF assms(1,2) o] ftab_close by blast
qed

lemma ftab_closedir: "ftab_ok e k \<Longrightarrow> sys_closedir d k = Inr (r, k') \<Longrightarrow> ftab_ok e k'"
  by (auto simp: sys_closedir_def bnd_eq_Inr split: option.splits dest: ftab_close)

lemma keeps_readdir: "keeps (fs_readdir n index k) k"
  by (simp add: fs_readdir_def)

lemma ftab_readdir: "ftab_ok e k \<Longrightarrow> sys_readdir d buf k = Inr (r, k') \<Longrightarrow> ftab_ok e k'"
proof -
  assume ok: "ftab_ok e k" and run: "sys_readdir d buf k = Inr (r, k')"
  then obtain f n ent k1 where f: "fget (Some d) k = Inr f" and rd: "fs_readdir n (f_offs f) k = Inr (ent, k1)"
    and k': "k' = k1 \<or> k' = fput d (f\<lparr>f_offs := f_offs f + 1\<rparr>) k1"
    by (auto simp: sys_readdir_def bnd_eq_Inr fnode_def split: option.splits)
  have "only_fs k k1" using keeps_readdir [of n "f_offs f" k] rd by (simp add: keeps_def)
  then have "ftab_ok e k1" "t_heap k1 = t_heap k" using ok by (simp_all add: ftab_ok_only only_fs_files)
  with k' f show ?thesis by (auto simp: fget_Inr intro: ftab_fput)
qed

lemma ftab_step: "file_step dev_open k k' \<Longrightarrow> driver_ok dev_open \<Longrightarrow> ftab_ok e k \<Longrightarrow> ftab_ok e k'"
  by (induction rule: file_step.induct)
    (blast intro: ftab_open ftab_close ftab_dup ftab_read ftab_write ftab_lseek ftab_opendir ftab_closedir ftab_readdir iffD2 [OF ftab_ok_only])+

section \<open>The table of the first process and of a child\<close>

text \<open>
  \<open>task_init\<close> (\<open>task.c\<close>) opens the first terminal three times. \<open>fork_loop\<close> is the loop of \<open>fork_int\<close> over the descriptors of the
  parent: every one gets a \<open>struct file\<close> of its own, with a copy of the content, \<open>dup_cnt\<close> included. Its result is the
  table and the objects of the child and the nodes of pipes whose count of readers or writers goes up.
\<close>

fun init_fds :: "(nat \<Rightarrow> u32 \<Rightarrow> 'a files_scheme \<Rightarrow> 'a files_scheme kres) \<Rightarrow> nat list \<Rightarrow> 'a files_scheme \<Rightarrow> 'a files_scheme kres" where
  "init_fds dev_open [] k = Inr k"
| "init_fds dev_open (i # is) k = (case file_alloc k of
      (None, k) \<Rightarrow> Inl Fault
    | (Some a, k) \<Rightarrow>
        bnd (fs_namei [47, 100, 101, 118, 47, 116, 116, 121, 48, 0] k) (\<lambda>(nod, k).
        let mode = (if i = 0 then O_RDONLY else O_WRONLY) in
        bnd (set_fd (int i) (Some a) (fput a \<lparr>f_mode = mode, f_flags = 0, f_offs = 0, f_node = nod, f_dup_cnt = 0\<rparr> k)) (\<lambda>k.
        case nod of None \<Rightarrow> Inl Fault | Some n \<Rightarrow> bnd (dev_open n (ucast mode) k) (init_fds dev_open is))))"

definition TASK_INITIAL_NUM_FILES :: nat where
  "TASK_INITIAL_NUM_FILES = 6"

definition task_init_files :: "(nat \<Rightarrow> u32 \<Rightarrow> 'a files_scheme \<Rightarrow> 'a files_scheme kres) \<Rightarrow> 'a files_scheme \<Rightarrow> 'a files_scheme kres" where
  "task_init_files dev_open k = (if k_mem k (4 * TASK_INITIAL_NUM_FILES) = None then Inl Fault else init_fds dev_open [0, 1, 2] (k\<lparr>t_files := replicate TASK_INITIAL_NUM_FILES None, t_heap := []\<rparr>))"

fun fork_loop :: "nat option list \<Rightarrow> nat option list \<Rightarrow> open_file option list \<Rightarrow> nat list \<Rightarrow> 'a files_scheme \<Rightarrow>
    ((nat option list \<times> open_file option list \<times> nat list) \<times> 'a files_scheme) kres" where
  "fork_loop [] fs heap pipes k = Inr ((fs, heap, pipes), k)"
| "fork_loop (None # ps) fs heap pipes k = fork_loop ps (fs @ [None]) heap pipes k"
| "fork_loop (Some a # ps) fs heap pipes k =
     bnd (fget (Some a) k) (\<lambda>f. case f_node f of
       None \<Rightarrow> Inl (Panic ''task fork: fs_node does not exists'')
     | Some n \<Rightarrow>
         if k_mem k 16 = None then Inl Fault
         else bnd (fs_dup n k) (\<lambda>k.
           fork_loop ps (fs @ [Some (length heap)]) (heap @ [Some f])
             (if n_type (node k n) AND FS_PIPE \<noteq> 0 then pipes @ [n] else pipes) k))"

definition fork_files :: "'a files_scheme \<Rightarrow> ((nat list \<times> 'a files_scheme) \<times> 'a files_scheme) kres" where
  "fork_files k =
     (if k_mem k (4 * length (t_files k)) = None \<and> list_ex (\<lambda>p. p \<noteq> None) (t_files k) then Inl Fault else
     bnd (fork_loop (t_files k) [] [] [] k) (\<lambda>((fs, heap, pipes), k). Inr ((pipes, k\<lparr>t_files := fs, t_heap := heap\<rparr>), k)))"

text \<open>
  \<open>process dev_open b k\<close>: \<open>k\<close> is a state of a process that descends from the first one. \<open>b\<close>: it is the first one, so
  that there is no fork in its ancestry; a fork is a step of the parent and the start of the child.
\<close>

inductive process :: "(nat \<Rightarrow> u32 \<Rightarrow> 'a files_scheme \<Rightarrow> 'a files_scheme kres) \<Rightarrow> bool \<Rightarrow> 'a files_scheme \<Rightarrow> bool" for dev_open where
  first_process: "task_init_files dev_open k0 = Inr k \<Longrightarrow> process dev_open True k"
| process_call: "process dev_open b k \<Longrightarrow> file_step dev_open k k' \<Longrightarrow> process dev_open b k'"
| fork_parent: "process dev_open b k \<Longrightarrow> fork_files k = Inr ((pipes, child), k') \<Longrightarrow> process dev_open b k'"
| fork_child: "process dev_open b k \<Longrightarrow> fork_files k = Inr ((pipes, child), k') \<Longrightarrow> process dev_open False child"

lemma fork_loop_files:
  assumes "fork_loop ps fs heap pipes k = Inr ((fs', heap', pipes'), k')" and "ftab_ok e k"
    and "\<forall>p\<in>set fs. \<forall>a. p = Some a \<longrightarrow> a < length heap" and "\<forall>a. live False heap fs a"
  shows "only_fs k k' \<and> length fs' = length fs + length ps \<and> (\<forall>a. live False heap' fs' a)"
  using assms
proof (induction ps fs heap pipes k rule: fork_loop.induct)
  case (2 ps fs heap pipes k)
  have "\<forall>a. live False heap (fs @ [None]) a" using 2(5) live_Nones [of False heap fs 1] by simp
  with 2 show ?case by auto
next
  case (3 a ps fs heap pipes k)
  from 3(2) obtain f n k1 where f: "fget (Some a) k = Inr f" "f_node f = Some n" "k_mem k 16 \<noteq> None" "fs_dup n k = Inr k1"
    and rest: "fork_loop ps (fs @ [Some (length heap)]) (heap @ [Some f]) (if n_type (node k1 n) AND FS_PIPE \<noteq> 0 then pipes @ [n] else pipes) k1 =
      Inr ((fs', heap', pipes'), k')"
    by (auto simp: bnd_eq_Inr split: option.splits if_splits)
  note o = fs_dup_only [OF f(4)]
  have "live e (t_heap k) (t_files k) a" using 3(3) by (simp add: ftab_ok_def)
  then have d: "0 \<le> f_dup_cnt f" using f(1) by (auto simp: live_def fget_Inr)
  have c: "count_list fs (Some (length heap)) = 0" using 3(4) by (auto simp: count_list_0_iff)
  have "live False (heap @ [Some f]) (fs @ [Some (length heap)]) b" for b
    using spec [OF 3(5), of b] c d by (auto simp: live_def nth_append split: option.splits if_splits)
  moreover have "\<forall>p\<in>set (fs @ [Some (length heap)]). \<forall>a. p = Some a \<longrightarrow> a < length (heap @ [Some f])" using 3(4) by auto
  ultimately have "only_fs k1 k' \<and> length fs' = length (fs @ [Some (length heap)]) + length ps \<and> (\<forall>a. live False heap' fs' a)"
    using 3(1) [OF f(1,2) f(3) f(4) rest] 3(3) ftab_ok_only [OF o] f(3) by blast
  with only_fs_trans [OF o] show ?case by auto
qed simp

lemma ftab_fork:
  assumes "ftab_ok e k" and "fork_files k = Inr ((pipes, child), k')"
  shows "ftab_ok e k'" "ftab_ok False child"
proof -
  obtain fs heap where l: "fork_loop (t_files k) [] [] [] k = Inr ((fs, heap, pipes), k')" and c: "child = k'\<lparr>t_files := fs, t_heap := heap\<rparr>"
    using assms(2) by (auto simp: fork_files_def bnd_eq_Inr split: if_splits)
  have "only_fs k k' \<and> length fs = length ([] :: nat option list) + length (t_files k) \<and> (\<forall>a. live False heap fs a)"
    by (rule fork_loop_files [OF l assms(1)]) (simp_all add: live_def)
  with assms(1) c show "ftab_ok e k'" "ftab_ok False child" by (auto simp: ftab_ok_only) (auto simp: ftab_ok_def)
qed

lemma ftab_init:
  assumes "driver_ok dev_open" and "ftab_ok True k" and "init_fds dev_open idxs k = Inr k'" and "\<forall>i\<in>set idxs. i < length (t_files k) \<and> t_files k ! i = None" and "distinct idxs"
  shows "ftab_ok True k'"
  using assms
proof (induction idxs arbitrary: k)
  case (Cons i idxs)
  let ?a = "length (t_heap k)"
  from Cons.prems(3) obtain k1 where k1: "file_alloc k = (Some ?a, k1)" "t_files k1 = t_files k" "\<exists>f0. t_heap k1 = t_heap k @ [f0]"
    by (auto simp: file_alloc_def split: option.splits)
  let ?mode = "if i = 0 then O_RDONLY else O_WRONLY"
  from Cons.prems(3) k1(1) obtain k2 n k3 k4 where
    k2: "fs_namei [47, 100, 101, 118, 47, 116, 116, 121, 48, 0] k1 = Inr (Some n, k2)"
    and k3: "set_fd (int i) (Some ?a) (fput ?a \<lparr>f_mode = ?mode, f_flags = 0, f_offs = 0, f_node = Some n, f_dup_cnt = 0\<rparr> k2) = Inr k3"
    and k4: "dev_open n (ucast ?mode) k3 = Inr k4" and rest: "init_fds dev_open idxs k4 = Inr k'"
    by (auto simp: bnd_eq_Inr Let_def split: option.split_asm)
  define f where "f = \<lparr>f_mode = ?mode, f_flags = 0, f_offs = 0, f_node = Some n, f_dup_cnt = 0\<rparr>"
  have f: "f_dup_cnt f = 0" by (simp add: f_def)
  have o2: "only_fs k1 k2" using keeps_namei [of _ k1] k2 unfolding keeps_def by blast
  have o4: "only_fs k3 k4" using Cons.prems(1) k4 by (auto simp: driver_ok_def)
  have i: "i < length (t_files k)" "t_files k ! i = None" using Cons.prems(4) by simp_all
  have t: "t_files k3 = (t_files k)[i := Some ?a]" "t_heap k3 = t_heap k @ [Some f]"
    using k3 k1 only_fs_files [OF o2] by (auto simp: set_fd_Inr fput_def f_def)
  then have "ftab_ok True k3" using Cons.prems(2) live_new [OF _ _ i f] by (auto simp: ftab_ok_def)
  then have "ftab_ok True k4" by (simp add: ftab_ok_only [OF o4])
  moreover have "\<forall>j\<in>set idxs. j < length (t_files k4) \<and> t_files k4 ! j = None"
    using Cons.prems(4,5) t(1) only_fs_files(1) [OF o4] by (auto simp: nth_list_update)
  ultimately show ?case using Cons.IH [OF Cons.prems(1) _ rest] Cons.prems(5) by simp
qed simp

lemma ftab_start:
  assumes "driver_ok dev_open" and "task_init_files dev_open k0 = Inr k"
  shows "ftab_ok True k"
proof -
  let ?k = "k0\<lparr>t_files := replicate TASK_INITIAL_NUM_FILES None, t_heap := []\<rparr>"
  have ok: "ftab_ok True ?k"
    by (simp add: ftab_ok_def live_def MAX_OPEN_FILES_def TASK_INITIAL_NUM_FILES_def count_list_0_iff)
  have run: "init_fds dev_open [0, 1, 2] ?k = Inr k" using assms(2) unfolding task_init_files_def by (auto simp del: init_fds.simps split: if_splits)
  have "\<forall>i\<in>set [0, 1, 2]. i < length (t_files ?k) \<and> t_files ?k ! i = None" by (simp add: TASK_INITIAL_NUM_FILES_def)
  from ftab_init [OF assms(1) ok run this] show ?thesis by simp
qed

lemma process_ok: "process dev_open b k \<Longrightarrow> driver_ok dev_open \<Longrightarrow> ftab_ok b k"
proof (induction rule: process.induct)
  case (first_process k0 k)
  from ftab_start [OF first_process(2,1)] show ?case .
next
  case (process_call b k k')
  from ftab_step [OF process_call(2,4) process_call(3) [OF process_call(4)]] show ?case .
next
  case (fork_parent b k pipes child k')
  from ftab_fork(1) [OF fork_parent(3) [OF fork_parent(4)] fork_parent(2)] show ?case .
next
  case (fork_child b k pipes child k')
  from ftab_fork(2) [OF fork_child(3) [OF fork_child(4)] fork_child(2)] show ?case .
qed

section \<open>Properties\<close>

lemma live_open:
  assumes "live e heap fs a" and "i < length fs" and "fs ! i = Some a"
  shows "\<exists>f. a < length heap \<and> heap ! a = Some f \<and> 0 \<le> f_dup_cnt f \<and> int (count_list fs (Some a)) \<le> f_dup_cnt f + 1 \<and>
    (e \<longrightarrow> int (count_list fs (Some a)) = f_dup_cnt f + 1)"
proof -
  have "Some a \<in> set fs" using assms(2,3) by (metis nth_mem)
  then have "count_list fs (Some a) \<noteq> 0" by (simp add: count_list_0_iff)
  with assms(1) show ?thesis by (auto simp: live_def split: option.splits if_splits)
qed

text \<open>
  C11. Descriptors of files do not dangle. Take the first process as \<open>task_init\<close> sets it up and its descendants by
  \<open>fork_int\<close>, and let them interleave \<open>sys_open\<close>, \<open>sys_close\<close>, \<open>sys_dup\<close>, \<open>sys_read\<close>, \<open>sys_write\<close>, \<open>sys_lseek\<close>, \<open>sys_opendir\<close>, \<open>sys_closedir\<close>,
  \<open>sys_readdir\<close> and forks in any way. Every descriptor in the table of such a process points to a \<open>struct file\<close> that was
  not freed; \<open>dup_cnt\<close> is not negative, so that the branch of \<open>sys_close\<close> for this is never taken, and it is at least the
  number of other descriptors of the same object, so that \<open>sys_close\<close> frees an object with its last descriptor at the
  earliest. In the first process it is exactly this number; in a child, which gets the counts with objects of its
  own, it may be more, and then the object is never freed. Not covered: the descriptors \<open>sys_pipe\<close> makes, and threads, which share the
  objects without counting.
\<close>

theorem descriptors_never_dangle:
  assumes "driver_ok dev_open" and "process dev_open b k" and "i < length (t_files k)" and "t_files k ! i = Some a"
  shows "\<exists>f. fget (Some a) k = Inr f \<and> 0 \<le> f_dup_cnt f \<and> int (count_list (t_files k) (Some a)) \<le> f_dup_cnt f + 1 \<and>
    (b \<longrightarrow> int (count_list (t_files k) (Some a)) = f_dup_cnt f + 1)"
proof -
  have "live b (t_heap k) (t_files k) a" using process_ok [OF assms(2,1)] by (simp add: ftab_ok_def)
  from live_open [OF this assms(3,4)] show ?thesis by (auto simp: fget_Inr)
qed

definition sample_files :: files where
  "sample_files = \<lparr>k_fs = dir_fs, k_root = 0, k_cwd = [slash, 0], k_mem = (\<lambda>n. Some (replicate n 0)),
     k_junk = replicate 32 0, t_files = [None], t_heap = [], t_root_dir = None\<rparr>"

definition root_file :: open_file where
  "root_file = \<lparr>f_mode = 0, f_flags = 0, f_offs = 0, f_node = Some 0, f_dup_cnt = 0\<rparr>"

lemma sample_node: "n_type (node (sample_files\<lparr>t_files := fs, t_heap := h\<rparr>) 0) = FS_DIRECTORY"
  by (simp add: node_def nd_def sample_files_def dir_fs_def)

lemma sample_namei:
  "fs_open_namei [slash, 0] 0 0 (sample_files\<lparr>t_files := fs, t_heap := h\<rparr>) =
     Inr ((0, Some 0), sample_files\<lparr>t_files := fs, t_heap := h\<rparr>)"
proof -
  have "canonize_path (k_mem sample_files) (k_cwd sample_files) [slash, 0] = Inr [slash, 0]"
    by (simp add: sample_files_def, code_simp)
  then show ?thesis
    by (simp add: fs_open_namei_def fs_namei_def strlen_def sample_files_def)
qed

lemma sample_open:
  "sys_open (\<lambda>n flags k. Inr k) [slash, 0] 0 0 sample_files =
     Inr (0, sample_files\<lparr>t_files := [Some 0], t_heap := [Some root_file]\<rparr>)"
proof -
  have al: "fd_alloc sample_files = Inr (0, sample_files\<lparr>t_files := [None], t_heap := []\<rparr>)"
    by (simp add: fd_alloc_def sample_files_def)
  have fa: "file_alloc (sample_files\<lparr>t_files := [None], t_heap := []\<rparr>) = (Some 0,
      sample_files\<lparr>t_files := [None], t_heap := [Some (root_file\<lparr>f_node := None\<rparr>)]\<rparr>)"
    by (simp add: file_alloc_def sample_files_def root_file_def)
  have ty: "\<not> S_ISCHR (n_type (node (sample_files\<lparr>t_files := fs, t_heap := h\<rparr>) 0))"
    "\<not> S_ISBLK (n_type (node (sample_files\<lparr>t_files := fs, t_heap := h\<rparr>) 0))" for fs h
    by (simp_all add: sample_node S_ISCHR_def S_ISBLK_def FS_DIRECTORY_def FS_IFMT_def FS_CHARDEVICE_def FS_BLOCKDEVICE_def)
  show ?thesis
    by (simp add: sys_open_def al fa sample_namei set_fd_def fput_def ty)
      (simp add: root_file_def)
qed

text \<open>A disk with the directory \<open>/dev\<close> in block 20 and in it \<open>tty0\<close>; the nodes are in the cache.\<close>

definition tty_disk :: "u32 \<Rightarrow> u8 list" where
  "tty_disk b = (if b = 20 then [7, 0, 0, 0, 100, 101, 118] @ replicate 505 0
     else if b = 21 then [8, 0, 0, 0, 116, 116, 121, 48] @ replicate 504 0 else replicate 512 0)"

definition tty_hq :: buf_queue where
  "tty_hq = hd_queue_init 0 tty_disk (Some \<lparr>block_no = 0, is_dirty = False, ref_count = 0, hb_lock = False, hb_data = []\<rparr>)"

definition tty_fs :: "buf_queue \<Rightarrow> int \<Rightarrow> u8 list \<Rightarrow> int \<Rightarrow> u8 list \<Rightarrow> cofs" where
  "tty_fs q r1 n1 r2 n2 = \<lparr>hq = q, superb = sample_sb,
     cache = [zero_node\<lparr>n_inode := 1, n_ref_count := 1, n_type := FS_DIRECTORY, n_size := 32, n_addrs := Some (20 # replicate 8 0), n_ops := Cofs_ops\<rparr>,
       zero_node\<lparr>n_inode := 7, n_ref_count := r1, n_name := n1, n_type := FS_DIRECTORY, n_size := 32, n_addrs := Some (21 # replicate 8 0), n_ops := Cofs_ops\<rparr>,
       zero_node\<lparr>n_inode := 8, n_ref_count := r2, n_name := n2, n_type := FS_CHARDEVICE, n_addrs := Some (replicate 9 0), n_ops := Cofs_ops\<rparr>],
     cache_lock = False, node_mem = True\<rparr>"

lemma tty_view: "view tty_hq b = (if unat b < 2 ^ 28 then tty_disk b else view tty_hq b)"
  using init_view [of b tty_disk] by (simp add: tty_hq_def)

lemma tty_addr [simp]: "file_addr v (b # replicate 8 0) 0 = b" "index_path v (b # replicate 8 0) 0 = []"
  by (simp_all add: file_addr_def index_path_def NUM_DIRECT_def)

lemma tty_entry:
  assumes "same_disk tty_hq q" and "tty_disk b = xs" and "unat b < 2 ^ 28" and "32 \<le> length xs"
  shows "dir_entry (view q) (b # replicate 8 0) 0 = take 32 xs"
proof -
  have "file_byte (view q) (b # replicate 8 0) p = xs ! p" if "p < 32" for p
    using that assms tty_view [of b] by (simp add: file_byte_def BLOCK_SIZE_def same_disk_def)
  then show ?thesis
    unfolding dir_entry_def DIRENT_SIZE_eq
    using map_upt_take [of 32 "file_byte (view q) (b # replicate 8 0)" xs] assms(4) by simp
qed

lemma tty_dir:
  assumes "same_disk tty_hq q"
  shows "dir_ok (tty_fs q r1 n1 r2 n2) 0 (20 # replicate 8 0) 1" "dir_ok (tty_fs q r1 n1 r2 n2) 1 (21 # replicate 8 0) 1"
proof -
  have "valid_blk q b" if "unat b < 2 ^ 28" for b
    using assms that by (simp add: same_disk_def tty_hq_def hd_queue_init_def valid_blk_def fun_eq_iff)
  moreover have "hq_ok q {}" using assms by (simp add: same_disk_def)
  ultimately show "dir_ok (tty_fs q r1 n1 r2 n2) 0 (20 # replicate 8 0) 1" "dir_ok (tty_fs q r1 n1 r2 n2) 1 (21 # replicate 8 0) 1"
    by (simp_all add: dir_ok_def file_ok_def DIRENT_SIZE_eq mapped_def idx_defs BLOCK_SIZE_def tty_fs_def nd_def)
qed

lemma tty_same: "same_disk tty_hq tty_hq"
  unfolding same_disk_def tty_hq_def by (simp, rule hd_queue_init_ok) (simp add: tty_disk_def BLOCK_SIZE_def)

text \<open>Looking up \<open>/dev/tty0\<close> finds the node 2 and takes a reference on it.\<close>

lemma tty_find:
  assumes "same_disk tty_hq q" and "length n1 = 256" and "length n2 = 256" and "0 \<le> r1" and "0 \<le> r2"
  shows "\<exists>q' n1'. cofs_finddir (replicate 32 0) 0 [100, 101, 118, 0] (tty_fs q r1 n1 r2 n2) = Inr (Some 1, tty_fs q' (r1 + 1) n1' r2 n2) \<and>
      same_disk tty_hq q' \<and> length n1' = 256"
    and "\<exists>q' n2'. cofs_finddir (replicate 32 0) 1 [116, 116, 121, 48, 0] (tty_fs q r1 n1 r2 n2) = Inr (Some 2, tty_fs q' r1 n1 (r2 + 1) n2') \<and>
      same_disk tty_hq q' \<and> length n2' = 256"
proof -
  let ?c = "tty_fs q r1 n1 r2 n2"
  have e: "dir_entry (view (hq ?c)) (20 # replicate 8 0) 0 = [7, 0, 0, 0, 100, 101, 118] @ replicate 25 0"
    "dir_entry (view (hq ?c)) (21 # replicate 8 0) 0 = [8, 0, 0, 0, 116, 116, 121, 48] @ replicate 24 0"
    using tty_entry [OF assms(1), of 20, OF refl] tty_entry [OF assms(1), of 21, OF refl]
    by (simp_all add: tty_disk_def tty_fs_def)
  have pad: "replicate 25 (0 :: u8) = 0 # replicate 24 0" "replicate 24 (0 :: u8) = 0 # replicate 23 0"
    using replicate_Suc [of 24 "0 :: u8"] replicate_Suc [of 23 "0 :: u8"] by simp_all
  have fs: "\<not> cache_lock ?c" "find_node (cache ?c) 7 = Some 1" "find_node (cache ?c) 8 = Some 2"
    "n_type (nd ?c 0) AND FS_DIRECTORY \<noteq> 0" "n_type (nd ?c 1) AND FS_DIRECTORY \<noteq> 0" "n_type (nd ?c 1) \<noteq> 0" "n_type (nd ?c 2) \<noteq> 0"
    "\<not> n_lock (nd ?c 1)" "\<not> n_lock (nd ?c 2)" "n_ref_count (nd ?c 1) \<ge> 0" "n_ref_count (nd ?c 2) \<ge> 0"
    "length (n_name (nd ?c 1)) = 256" "length (n_name (nd ?c 2)) = 256"
    using assms by (simp_all add: tty_fs_def nd_def zero_node_def FS_DIRECTORY_def FS_CHARDEVICE_def)
  have a: "\<exists>q'. cofs_finddir (replicate 32 0) 0 [100, 101, 118, 0] ?c = Inr (Some 1,
      nset 1 (\<lambda>node. node\<lparr>n_ref_count := n_ref_count node + 1,
        n_name := take 255 [100 :: u8, 101, 118] @ replicate (255 - length [100 :: u8, 101, 118]) 0 @ drop 255 (n_name node),
        n_lock := False\<rparr>) (?c\<lparr>hq := q'\<rparr>)) \<and> same_disk (hq ?c) q'"
    by (rule finddir_hit [OF tty_dir(1) [OF assms(1)], where nm = "\<lambda>_. [100, 101, 118]" and j = 0 and inum = 7])
      (use fs e pad in \<open>simp_all add: DIRENT_SIZE_eq cstr_def d_name_def d_inode_def rd32_def\<close>)
  have b: "\<exists>q'. cofs_finddir (replicate 32 0) 1 [116, 116, 121, 48, 0] ?c = Inr (Some 2,
      nset 2 (\<lambda>node. node\<lparr>n_ref_count := n_ref_count node + 1,
        n_name := take 255 [116 :: u8, 116, 121, 48] @ replicate (255 - length [116 :: u8, 116, 121, 48]) 0 @ drop 255 (n_name node),
        n_lock := False\<rparr>) (?c\<lparr>hq := q'\<rparr>)) \<and> same_disk (hq ?c) q'"
    by (rule finddir_hit [OF tty_dir(2) [OF assms(1)], where nm = "\<lambda>_. [116, 116, 121, 48]" and j = 0 and inum = 8])
      (use fs e pad in \<open>simp_all add: DIRENT_SIZE_eq cstr_def d_name_def d_inode_def rd32_def\<close>)
  have sd: "same_disk tty_hq q'" if "same_disk (hq ?c) q'" for q'
    using same_disk_trans [OF assms(1)] that by (simp add: tty_fs_def)
  show "\<exists>q' n1'. cofs_finddir (replicate 32 0) 0 [100, 101, 118, 0] (tty_fs q r1 n1 r2 n2) = Inr (Some 1, tty_fs q' (r1 + 1) n1' r2 n2) \<and>
      same_disk tty_hq q' \<and> length n1' = 256"
    using a sd assms(2) by (auto simp: tty_fs_def nset_def zero_node_def)
  show "\<exists>q' n2'. cofs_finddir (replicate 32 0) 1 [116, 116, 121, 48, 0] (tty_fs q r1 n1 r2 n2) = Inr (Some 2, tty_fs q' r1 n1 (r2 + 1) n2') \<and>
      same_disk tty_hq q' \<and> length n2' = 256"
    using b sd assms(3) by (auto simp: tty_fs_def nset_def zero_node_def)
qed

definition tty_state :: "buf_queue \<Rightarrow> int \<Rightarrow> u8 list \<Rightarrow> int \<Rightarrow> u8 list \<Rightarrow> nat option list \<Rightarrow> open_file option list \<Rightarrow> files" where
  "tty_state q r1 n1 r2 n2 fs heap = \<lparr>k_fs = tty_fs q r1 n1 r2 n2, k_root = 0, k_cwd = [slash, 0], k_mem = (\<lambda>n. Some (replicate n 0)),
     k_junk = replicate 32 0, t_files = fs, t_heap = heap, t_root_dir = None\<rparr>"

definition tty_file :: "u16 \<Rightarrow> open_file" where
  "tty_file mode = \<lparr>f_mode = mode, f_flags = 0, f_offs = 0, f_node = Some 2, f_dup_cnt = 0\<rparr>"

lemma tty_namei:
  assumes "same_disk tty_hq q" and "length n1 = 256" and "length n2 = 256" and "0 \<le> r"
  shows "\<exists>q' n1' n2'. fs_namei [47, 100, 101, 118, 47, 116, 116, 121, 48, 0] (tty_state q 0 n1 r n2 fs heap) =
      Inr (Some 2, tty_state q' 0 n1' (r + 1) n2' fs heap) \<and> same_disk tty_hq q' \<and> length n1' = 256 \<and> length n2' = 256"
proof -
  let ?k = "tty_state q 0 n1 r n2 fs heap"
  have w: "fs_namei [47, 100, 101, 118, 47, 116, 116, 121, 48, 0] ?k = walk [[100, 101, 118], [116, 116, 121, 48]] None ?k"
    by (rule namei_walk [where r = "[]" and mem = "replicate (length (joined [[100, 101, 118], [116, 116, 121, 48]]) + 1) 0"])
      (simp_all add: names_ok_def tty_state_def joined_def)
  obtain q1 n1' where f1: "cofs_finddir (replicate 32 0) 0 [100, 101, 118, 0] (tty_fs q 0 n1 r n2) = Inr (Some 1, tty_fs q1 1 n1' r n2)"
    "same_disk tty_hq q1" "length n1' = 256"
    using tty_find(1) [OF assms(1-3) order_refl assms(4)] by auto
  obtain q2 n2' where f2: "cofs_finddir (replicate 32 0) 1 [116, 116, 121, 48, 0] (tty_fs q1 0 n1' r n2) = Inr (Some 2, tty_fs q2 0 n1' (r + 1) n2')"
    "same_disk tty_hq q2" "length n2' = 256"
    using tty_find(2) [OF f1(2,3) assms(3) order_refl assms(4)] by auto
  have d: "fs_finddir 0 [100, 101, 118, 0] ?k = Inr (Some 1, tty_state q1 1 n1' r n2 fs heap)"
    "fs_finddir 1 [116, 116, 121, 48, 0] (tty_state q1 0 n1' r n2 fs heap) = Inr (Some 2, tty_state q2 0 n1' (r + 1) n2' fs heap)"
    using f1(1) f2(1) by (simp_all add: fs_finddir_def lift_def is_dir_def has_ops_def node_def nd_def tty_state_def)
      (simp_all add: tty_fs_def FS_DIRECTORY_def)
  have p: "put_back (Some 1) (tty_state q1 1 n1' r n2 fs heap) = tty_state q1 0 n1' r n2 fs heap"
    by (simp add: put_back_def node_def nd_def nset_def tty_state_def tty_fs_def)
  have root: "put_back None ?k = ?k" "k_root ?k = 0" by (simp_all add: put_back_def tty_state_def)
  have "walk [[100, 101, 118], [116, 116, 121, 48]] None ?k = Inr (Some 2, tty_state q2 0 n1' (r + 1) n2' fs heap)"
    using d p root by simp
  with w f1 f2 show ?thesis by auto
qed

lemma tty_init_fd:
  assumes "same_disk tty_hq q" and "length n1 = 256" and "length n2 = 256" and "0 \<le> r" and "i < length fs"
  shows "\<exists>q' n1' n2'. init_fds (\<lambda>n flags k. Inr k) (i # idxs) (tty_state q 0 n1 r n2 fs heap) =
      init_fds (\<lambda>n flags k. Inr k) idxs (tty_state q' 0 n1' (r + 1) n2' (fs[i := Some (length heap)])
        (heap @ [Some (tty_file (if i = 0 then O_RDONLY else O_WRONLY))])) \<and>
      same_disk tty_hq q' \<and> length n1' = 256 \<and> length n2' = 256"
proof -
  let ?h = "heap @ [Some \<lparr>f_mode = 0, f_flags = 0, f_offs = 0, f_node = None, f_dup_cnt = 0\<rparr>]"
  obtain q' n1' n2' where n: "fs_namei [47, 100, 101, 118, 47, 116, 116, 121, 48, 0] (tty_state q 0 n1 r n2 fs ?h) =
      Inr (Some 2, tty_state q' 0 n1' (r + 1) n2' fs ?h)" "same_disk tty_hq q'" "length n1' = 256" "length n2' = 256"
    using tty_namei [OF assms(1-4)] by blast
  have fa: "file_alloc (tty_state q 0 n1 r n2 fs heap) = (Some (length heap), tty_state q 0 n1 r n2 fs ?h)"
    by (simp add: file_alloc_def tty_state_def)
  have put: "set_fd (int i) (Some (length heap)) (fput (length heap) (tty_file m) (tty_state q' 0 n1' (r + 1) n2' fs ?h)) =
      Inr (tty_state q' 0 n1' (r + 1) n2' (fs[i := Some (length heap)]) (heap @ [Some (tty_file m)]))" for m
    using assms(5) by (simp add: set_fd_def aset_def fput_def tty_state_def)
  show ?thesis
    using n fa put by (auto simp: Let_def tty_file_def [symmetric])
qed

lemma tty_init:
  "\<exists>q n1 r n2. task_init_files (\<lambda>n flags k. Inr k) (tty_state tty_hq 0 (replicate 256 0) 0 (replicate 256 0) [] []) =
    Inr (tty_state q 0 n1 r n2 [Some 0, Some 1, Some 2, None, None, None] [Some (tty_file O_RDONLY), Some (tty_file O_WRONLY), Some (tty_file O_WRONLY)])"
proof -
  let ?d = "\<lambda>n flags k. Inr k"
  let ?none = "[None, None, None, None, None, None]"
  obtain q1 a1 b1 where s1: "init_fds ?d [0, 1, 2] (tty_state tty_hq 0 (replicate 256 0) 0 (replicate 256 0) ?none []) =
      init_fds ?d [1, 2] (tty_state q1 0 a1 1 b1 [Some 0, None, None, None, None, None] [Some (tty_file O_RDONLY)])"
      "same_disk tty_hq q1" "length a1 = 256" "length b1 = 256"
    using tty_init_fd [OF tty_same, of "replicate 256 0" "replicate 256 0" 0 0 ?none "[1, 2]" "[]"] by (auto simp del: init_fds.simps)
  obtain q2 a2 b2 where s2: "init_fds ?d [1, 2] (tty_state q1 0 a1 1 b1 [Some 0, None, None, None, None, None] [Some (tty_file O_RDONLY)]) =
      init_fds ?d [2] (tty_state q2 0 a2 2 b2 [Some 0, Some 1, None, None, None, None] [Some (tty_file O_RDONLY), Some (tty_file O_WRONLY)])"
      "same_disk tty_hq q2" "length a2 = 256" "length b2 = 256"
    using tty_init_fd [OF s1(2-4), of 1 1 "[Some 0, None, None, None, None, None]" "[2]" "[Some (tty_file O_RDONLY)]"] by (auto simp del: init_fds.simps)
  obtain q3 a3 b3 where s3: "init_fds ?d [2] (tty_state q2 0 a2 2 b2 [Some 0, Some 1, None, None, None, None] [Some (tty_file O_RDONLY), Some (tty_file O_WRONLY)]) =
      init_fds ?d [] (tty_state q3 0 a3 3 b3 [Some 0, Some 1, Some 2, None, None, None] [Some (tty_file O_RDONLY), Some (tty_file O_WRONLY), Some (tty_file O_WRONLY)])"
    using tty_init_fd [OF s2(2-4), of 2 2 "[Some 0, Some 1, None, None, None, None]" "[]" "[Some (tty_file O_RDONLY), Some (tty_file O_WRONLY)]"]
    by (auto simp: numeral_2_eq_2 simp del: init_fds.simps)
  have start: "(tty_state tty_hq 0 (replicate 256 0) 0 (replicate 256 0) [] [])\<lparr>t_files := replicate TASK_INITIAL_NUM_FILES None, t_heap := []\<rparr> =
      tty_state tty_hq 0 (replicate 256 0) 0 (replicate 256 0) ?none []"
    by (simp add: tty_state_def TASK_INITIAL_NUM_FILES_def numeral_eq_Suc)
  have "k_mem (tty_state tty_hq 0 (replicate 256 0) 0 (replicate 256 0) [] []) n \<noteq> None" for n by (simp add: tty_state_def)
  then show ?thesis
    unfolding task_init_files_def start s1(1) s2(1) s3 by auto
qed

lemma tty_dup:
  "\<exists>k'. sys_dup 0 (tty_state q 0 n1 r n2 [Some 0, Some 1, Some 2, None, None, None] [Some (tty_file O_RDONLY), Some f, Some g]) = Inr (3, k') \<and>
    t_files k' = [Some 0, Some 1, Some 2, Some 0, None, None]"
proof -
  let ?k = "tty_state q 0 n1 r n2 [Some 0, Some 1, Some 2, None, None, None] [Some (tty_file O_RDONLY), Some f, Some g]"
  have al: "fd_alloc ?k = Inr (3, ?k)" by (simp add: fd_alloc_def tty_state_def Let_def)
  show ?thesis
    unfolding sys_dup_def al
    by (simp add: get_fd_def set_fd_def fget_def fnode_def fs_dup_def fput_def tty_state_def node_def nd_def tty_fs_def
        zero_node_def tty_file_def)
qed

lemma descriptors_never_dangle_witness:
  "\<exists>k f. process (\<lambda>n flags k. Inr k) True k \<and> t_files (k :: files) = [Some 0, Some 1, Some 2, Some 0, None, None] \<and>
    fget (Some 0) k = Inr f \<and> 0 \<le> f_dup_cnt f \<and> int (count_list (t_files k) (Some 0)) = f_dup_cnt f + 1"
proof -
  let ?d = "\<lambda>n flags k. Inr k :: files kres"
  obtain q n1 r n2 where "task_init_files ?d (tty_state tty_hq 0 (replicate 256 0) 0 (replicate 256 0) [] []) =
      Inr (tty_state q 0 n1 r n2 [Some 0, Some 1, Some 2, None, None, None] [Some (tty_file O_RDONLY), Some (tty_file O_WRONLY), Some (tty_file O_WRONLY)])"
      (is "_ = Inr ?k")
    using tty_init by blast
  then have "process ?d True ?k" by (rule first_process)
  moreover obtain k' where k': "sys_dup 0 ?k = Inr (3, k')" "t_files k' = [Some 0, Some 1, Some 2, Some 0, None, None]"
    using tty_dup by blast
  ultimately have p: "process ?d True k'" by (blast intro: process_call dup_step)
  have "driver_ok ?d" by (simp add: driver_ok_def)
  from descriptors_never_dangle [OF this p, of 0 0] p k'(2) show ?thesis by auto
qed

text \<open>
  \<open>fd_alloc\<close> (\<open>sysfile.c\<close>) returns the lowest descriptor that is not open, growing the table by
  doubling it (up to \<open>MAX_OPEN_FILES\<close>) when none is free; the descriptors that are open keep their
  files, and as long as fewer than \<open>MAX_OPEN_FILES\<close> slots exist or one of them is free the result is
  a free slot of the table.
\<close>

theorem fd_alloc_lowest:
  assumes "length (t_files k) \<le> MAX_OPEN_FILES" and "0 < length (t_files k)"
    and "length (t_files k) < MAX_OPEN_FILES \<or> None \<in> set (t_files k)"
    and "\<And>n. k_mem k n \<noteq> None"
  shows "\<exists>fd k'. fd_alloc k = Inr (int fd, k') \<and> fd < length (t_files k') \<and> t_files k' ! fd = None \<and>
    (\<forall>i<fd. t_files k' ! i \<noteq> None) \<and> take (length (t_files k)) (t_files k') = t_files k \<and> t_heap k' = t_heap k"
proof -
  let ?fd = "free_slot (t_files k)"
  obtain fd k' where al: "fd_alloc k = Inr (fd, k')"
    using assms(1) assms(4) [of "4 * MAX_OPEN_FILES"] assms(4) [of "8 * length (t_files k)"]
    by (cases "fd_alloc k") (auto simp: fd_alloc_def Let_def split: option.splits if_splits)
  note spec = fd_alloc_spec [OF al assms(1)]
  obtain j where j: "t_files k' = t_files k @ replicate j None" using spec(4) by blast
  have "?fd < length (t_files k')"
  proof (cases "?fd < length (t_files k)")
    case False
    then have full: "?fd = length (t_files k)" using free_slot_le [of "t_files k"] by simp
    then have "None \<notin> set (t_files k)" using free_slot_lowest by (metis in_set_conv_nth)
    with al full assms show ?thesis
      by (auto simp: fd_alloc_def Let_def split: option.splits if_splits)
  qed (simp add: j)
  moreover have "i < ?fd \<Longrightarrow> t_files k' ! i \<noteq> None" for i
    using free_slot_lowest [of i] free_slot_le [of "t_files k"] by (simp add: j nth_append)
  moreover have "t_files k' ! ?fd = None" using fd_alloc_slot [OF al assms(1)] calculation(1) spec(1) by simp
  ultimately show ?thesis using al spec(1,2) j by auto
qed

lemma fd_alloc_lowest_witness:
  "\<exists>fd k'. fd_alloc (sample_files\<lparr>t_files := [Some 0], t_heap := [Some root_file]\<rparr>) = Inr (int fd, k') \<and>
    t_files k' ! fd = None \<and> (\<forall>i<fd. t_files k' ! i \<noteq> None)"
  using fd_alloc_lowest [of "sample_files\<lparr>t_files := [Some 0], t_heap := [Some root_file]\<rparr>"]
  by (auto simp: sample_files_def MAX_OPEN_FILES_def)

text \<open>
  The limit on open files is off by one: with \<open>MAX_OPEN_FILES\<close> descriptors open, \<open>fd_alloc\<close> does not
  return \<open>-1\<close> but the index one past the end of the table, and \<open>sys_dup\<close> stores a pointer there,
  outside the array.
\<close>

theorem fd_table_overflow:
  assumes "length (t_files k) = MAX_OPEN_FILES" and "None \<notin> set (t_files k)" and "k_mem k (4 * MAX_OPEN_FILES) \<noteq> None"
    and "0 \<le> fd" and "fd < int MAX_OPEN_FILES"
  shows "fd_alloc k = Inr (int MAX_OPEN_FILES, k) \<and> sys_dup fd k = Inl Fault"
proof -
  have "\<not> free_slot (t_files k) < length (t_files k)"
    using assms(2) free_slot_free by (metis nth_mem)
  then have full: "free_slot (t_files k) = length (t_files k)" using free_slot_le [of "t_files k"] by simp
  have al: "fd_alloc k = Inr (int MAX_OPEN_FILES, k)"
    using assms(1,3) by (auto simp: fd_alloc_def full)
  have "t_files k ! nat fd \<noteq> None" using assms by (metis nth_mem nat_less_iff)
  with al assms show ?thesis
    by (simp add: sys_dup_def get_fd_def set_fd_def aset_def)
qed

lemma fd_table_overflow_witness:
  "sys_dup 0 (sample_files\<lparr>t_files := replicate 64 (Some 0), t_heap := [Some root_file]\<rparr>) = Inl Fault"
  using fd_table_overflow [of "sample_files\<lparr>t_files := replicate 64 (Some 0), t_heap := [Some root_file]\<rparr>" 0]
  by (simp add: sample_files_def MAX_OPEN_FILES_def)

text \<open>
  \<open>sys_opendir\<close> compares the descriptor with 0 instead of testing for a negative one: when the
  directory does not exist, it reads \<open>current_task->files[-1]\<close> and follows that pointer.
\<close>

theorem opendir_missing_faults:
  assumes "fd_alloc k = Inr (fd, k1)" and "0 \<le> fd" and "nat fd < length (t_files k1)" and "file_alloc k1 = (Some a, k2)"
    and "fs_open_namei dirname 0 0 k2 = Inr ((- 1, None), k3)"
  shows "(\<exists>k'. sys_open dev_open dirname 0 0 k = Inr (- 1, k')) \<and> sys_opendir dev_open dirname k = Inl Fault"
proof -
  have "only_fs k2 k3" using keeps_open_namei [of dirname 0 0 k2] assms(5) by (simp add: keeps_def)
  moreover have "t_files k2 = t_files k1" using assms(4) by (auto simp: file_alloc_def split: option.splits)
  ultimately have "nat fd < length (t_files k3)" using assms(3) by (simp add: only_fs_files)
  then have "\<exists>k'. sys_open dev_open dirname 0 0 k = Inr (- 1, k')"
    using assms by (simp add: sys_open_def set_fd_def ffree_def)
  then show ?thesis by (auto simp: sys_opendir_def get_fd_def)
qed

lemma opendir_missing_faults_witness:
  "sys_opendir (\<lambda>n flags k. Inr k) [slash, 97, 0] (sample_files\<lparr>k_fs := dir_fs\<lparr>cache := [zero_node]\<rparr>\<rparr>) = Inl Fault"
proof -
  let ?k = "sample_files\<lparr>k_fs := dir_fs\<lparr>cache := [zero_node]\<rparr>\<rparr>"
  let ?k2 = "?k\<lparr>t_heap := [Some (root_file\<lparr>f_node := None\<rparr>)]\<rparr>"
  have al: "fd_alloc ?k = Inr (0, ?k)" by (simp add: fd_alloc_def sample_files_def)
  have fa: "file_alloc ?k = (Some 0, ?k2)" by (simp add: file_alloc_def sample_files_def root_file_def)
  have can: "canonize_path (k_mem sample_files) (k_cwd sample_files) [slash, 97, 0] = Inr [slash, 97, 0]"
    by (simp add: sample_files_def, code_simp)
  have dup: "strdup (k_mem ?k2) [slash, 97, 0] = Inr [slash, 97, 0]"
    by (simp add: sample_files_def, code_simp)
  have find: "fs_finddir 0 nm ?k2 = Inr (None, ?k2)" for nm
    by (simp add: fs_finddir_def is_dir_def node_def nd_def zero_node_def)
  have "fs_namei [slash, 97, 0] ?k2 = Inr (None, ?k2)"
    using find [of "[97, 0]"] dup
    by (simp add: fs_namei_def strlen_def namei_loop.simps put_back_def) (simp add: sample_files_def)
  then have op: "fs_open_namei [slash, 97, 0] 0 0 ?k2 = Inr ((- 1, None), ?k2)"
    using can by (simp add: fs_open_namei_def)
  have len: "nat 0 < length (t_files ?k)" by (simp add: sample_files_def)
  from opendir_missing_faults [OF al _ len fa op] show ?thesis by simp
qed

text \<open>\<open>canonize_path\<close> looks at its arguments only up to the terminator.\<close>

lemma strlen_tail: "strlen (Some (0 # r)) = Inr 0"
  by (simp add: strlen_def)

lemma strcpy_zero_tail: "strcpy d (0 # r) = strcpy d [0]"
  by (cases d) auto

lemma canonize_empty: "canonize_path mem prefix (0 # r) = canonize_path mem prefix [0]"
proof -
  have "strcat p (0 # r) = strcat p [0]" for p
    by (simp only: strcat_def strcpy_zero_tail [of _ r])
  then show ?thesis by (simp add: canonize_path_def strlen_tail cong: if_cong option.case_cong)
qed

lemma open_empty: "fs_open_namei (0 # r) flags mode k = fs_open_namei [0] flags mode k"
  by (simp only: fs_open_namei_def canonize_empty [of _ _ r])

lemma rfind_none: "(\<forall>j. 0 < j \<and> j \<le> i \<longrightarrow> j < length tmp \<and> tmp ! j \<noteq> slash) \<Longrightarrow> rfind_slash tmp i = Inr 0"
  by (induction i) auto

text \<open>
  \<open>sys_mkdir\<close> (\<open>sysfile.c\<close>) does not handle a name directly below the root: for \<open>/name\<close> it cuts the
  path at the first character, so the directory it opens is the empty path, which
  \<open>canonize_path\<close> resolves to the working directory. The new directory is made there and not in
  the root.
\<close>

theorem mkdir_below_root_uses_cwd:
  assumes "name \<noteq> []" and "0 \<notin> set name" and "slash \<notin> set name"
    and "k_mem k (length name + 2) = Some mem" and "length mem = length name + 2"
  shows "sys_mkdir (Some (slash # name @ [0])) mode k = mkdir_at [0] (name @ [0, 0]) mode k"
proof -
  let ?p = "slash # name @ [0]"
  have str: "cstr (slash # name) ?p" using assms(2) by (simp add: cstr_def)
  have dup: "strdup (k_mem k) ?p = Inr ?p"
    using strdup_cstr [OF str, where mem = "k_mem k" and ret = mem] assms(4,5) by simp
  have len: "strlen (Some ?p) = Inr (Suc (length name))" using strlen_cstr [OF str] by simp
  have "last name \<noteq> slash" using assms(1,3) last_in_set by metis
  then have "?p ! length name \<noteq> slash"
    using assms(1) by (cases "length name") (auto simp: nth_append last_conv_nth)
  then have strip: "strip_slashes ?p (Suc (length name)) = Inr ?p" by simp
  have "?p ! j \<noteq> slash" if "0 < j" "j < length ?p" for j
    using that assms(3) by (cases j) (auto simp: nth_append in_set_conv_nth less_Suc_eq)
  then have rf: "rfind_slash ?p (Suc (length name)) = Inr 0"
    by (intro rfind_none) simp
  have "moved ?p 0 1 (Suc (length name)) = name @ [0, 0]" by (simp add: moved_def)
  then have mv: "memmove ?p 0 1 (int (Suc (length name))) = Inr (name @ [0, 0])"
    using memcpy_up_ok [of 0 "Suc (length name)" ?p 1]
    by (simp add: memmove_def nat_int_add [of 1, simplified] del: memcpy_up.simps)
  have st: "aset (name @ [0, 0]) (Suc (length name)) (0 :: u8) = Inr (name @ [0, 0])"
    by (simp add: list_update_append)
  have "sys_mkdir (Some ?p) mode k = mkdir_at (0 # name @ [0]) (name @ [0, 0]) mode k"
    using dup len strip rf mv st by (simp add: sys_mkdir_def del: strip_slashes.simps rfind_slash.simps)
  then show ?thesis by (simp only: mkdir_at_def with_path_def open_empty [of "name @ [0]"])
qed

lemma mkdir_below_root_uses_cwd_witness:
  "sys_mkdir (Some [slash, 97, 0]) 0 sample_files = mkdir_at [0] [97, 0, 0] 0 sample_files"
  using mkdir_below_root_uses_cwd [of "[97]" sample_files "replicate 3 0" 0]
  by (simp add: sample_files_def numeral_3_eq_3)

end
