(* ===== verification/Klist.thy ===== *)
theory Klist
  imports Prelude
begin

text \<open>
  The kernel's doubly linked list (\<open>list.c\<close>), on an explicit store: \<open>l_mem\<close> maps the address of a
  node to its contents, and an address that is not in it is memory the list does not own (not
  allocated yet, or freed). An operation that allocates a node takes the address \<open>malloc\<close> returns
  as an argument. \<open>ff\<close> is \<open>list->free_function\<close>, called with the data of a node that goes away.

  The list is shown to implement a sequence: \<open>repr l ps\<close> says that the nodes at the addresses \<open>ps\<close> are
  chained in this order in both directions, and \<open>items l ps\<close> are the data they hold.
\<close>

record 'd lnode =
  prev :: "nat option"
  next_ptr :: "nat option"
  ldata :: 'd

record 'd klist =
  l_head :: "nat option"
  l_tail :: "nat option"
  num_items :: u32
  l_mem :: "nat \<Rightarrow> 'd lnode option"

section \<open>Operations\<close>

definition load :: "nat \<Rightarrow> 'd klist \<Rightarrow> 'd lnode kres" where
  "load p l = (case l_mem l p of None \<Rightarrow> Inl Fault | Some n \<Rightarrow> Inr n)"

definition store :: "nat \<Rightarrow> 'd lnode \<Rightarrow> 'd klist \<Rightarrow> 'd klist" where
  "store p n l = l\<lparr>l_mem := (l_mem l)(p := Some n)\<rparr>"

definition set_next :: "nat \<Rightarrow> nat option \<Rightarrow> 'd klist \<Rightarrow> 'd klist kres" where
  "set_next p v l = bnd (load p l) (\<lambda>n. Inr (store p (n\<lparr>next_ptr := v\<rparr>) l))"

definition set_prev :: "nat \<Rightarrow> nat option \<Rightarrow> 'd klist \<Rightarrow> 'd klist kres" where
  "set_prev p v l = bnd (load p l) (\<lambda>n. Inr (store p (n\<lparr>prev := v\<rparr>) l))"

definition list_open :: "'d klist" where
  "list_open = \<lparr>l_head = None, l_tail = None, num_items = 0, l_mem = (\<lambda>_. None)\<rparr>"

definition new_node :: "nat option \<Rightarrow> 'd \<Rightarrow> 'd klist \<Rightarrow> (nat \<times> 'd klist) kres" where
  "new_node a d l = (case a of None \<Rightarrow> Inl Fault
    | Some p \<Rightarrow> Inr (p, store p \<lparr>prev = None, next_ptr = None, ldata = d\<rparr> l))"

definition list_add_node :: "nat \<Rightarrow> 'd klist \<Rightarrow> 'd klist kres" where
  "list_add_node p l =
     bnd (case l_head l of
         None \<Rightarrow> Inr (l\<lparr>l_head := Some p, l_tail := Some p\<rparr>)
       | Some _ \<Rightarrow>
           bnd (set_prev p (l_tail l) l) (\<lambda>l.
           case l_tail l of None \<Rightarrow> Inl Fault
           | Some t \<Rightarrow> bnd (set_next t (Some p) l) (\<lambda>l. Inr (l\<lparr>l_tail := Some p\<rparr>)))) (\<lambda>l.
     Inr (l\<lparr>num_items := num_items l + 1\<rparr>))"

definition list_add :: "nat option \<Rightarrow> 'd \<Rightarrow> 'd klist \<Rightarrow> (nat \<times> 'd klist) kres" where
  "list_add a d l = bnd (new_node a d l) (\<lambda>(p, l). bnd (list_add_node p l) (\<lambda>l. Inr (p, l)))"

definition list_insert_before :: "nat option \<Rightarrow> nat option \<Rightarrow> 'd \<Rightarrow> 'd klist \<Rightarrow> (nat \<times> 'd klist) kres" where
  "list_insert_before a nod d l =
     bnd (new_node a d l) (\<lambda>(n, l). case nod of
       None \<Rightarrow> bnd (list_add_node n l) (\<lambda>l. Inr (n, l))
     | Some p \<Rightarrow>
         bnd (load p l) (\<lambda>c.
         bnd (case prev c of Some q \<Rightarrow> set_next q (Some n) l | None \<Rightarrow> Inr (l\<lparr>l_head := Some n\<rparr>)) (\<lambda>l.
         bnd (set_prev n (prev c) l) (\<lambda>l.
         bnd (set_next n (Some p) l) (\<lambda>l.
         bnd (set_prev p (Some n) l) (\<lambda>l.
         Inr (n, l\<lparr>num_items := num_items l + 1\<rparr>)))))))"

definition list_del :: "('d \<Rightarrow> unit kres) option \<Rightarrow> nat \<Rightarrow> 'd klist \<Rightarrow> 'd klist kres" where
  "list_del ff p l =
     bnd (load p l) (\<lambda>c.
     bnd (case prev c of Some q \<Rightarrow> set_next q (next_ptr c) l | None \<Rightarrow> Inr (l\<lparr>l_head := next_ptr c\<rparr>)) (\<lambda>l.
     bnd (case next_ptr c of Some q \<Rightarrow> set_prev q (prev c) l | None \<Rightarrow> Inr (l\<lparr>l_tail := prev c\<rparr>)) (\<lambda>l.
     bnd (case ff of Some f \<Rightarrow> f (ldata c) | None \<Rightarrow> Inr ()) (\<lambda>_.
     Inr (l\<lparr>l_mem := (l_mem l)(p := None), num_items := num_items l - 1\<rparr>)))))"

text \<open>
  \<open>list_close\<close> frees the node before it reads \<open>node->next\<close>. The loop frees one node in every round, so
  it needs at most as many rounds as there are nodes.
\<close>

fun list_close_loop :: "nat \<Rightarrow> ('d \<Rightarrow> unit kres) option \<Rightarrow> 'd klist \<Rightarrow> 'd klist kres" where
  "list_close_loop 0 ff l = (if l_head l = None then Inr l else Inl Fault)"
| "list_close_loop (Suc fuel) ff l = (case l_head l of
      None \<Rightarrow> Inr l
    | Some p \<Rightarrow>
        bnd (load p l) (\<lambda>c.
        bnd (case ff of Some f \<Rightarrow> f (ldata c) | None \<Rightarrow> Inr ()) (\<lambda>_.
        let l = l\<lparr>l_mem := (l_mem l)(p := None)\<rparr> in
        bnd (load p l) (\<lambda>c. list_close_loop fuel ff (l\<lparr>l_head := next_ptr c\<rparr>)))))"

definition list_close :: "('d \<Rightarrow> unit kres) option \<Rightarrow> 'd klist \<Rightarrow> 'd klist kres" where
  "list_close ff l = list_close_loop (unat (num_items l)) ff l"

text \<open>
  The traversals \<open>list_for_each\<close> (stops at the first node the iterator accepts), \<open>list_find\<close> (goes on
  and returns the last one) and the macro \<open>forEach\<close> with a \<open>break\<close>. The fuel is the number of nodes.
\<close>

fun for_each_loop :: "nat \<Rightarrow> ('d \<Rightarrow> bool) \<Rightarrow> nat option \<Rightarrow> 'd klist \<Rightarrow> nat option kres" where
  "for_each_loop fuel it None l = Inr None"
| "for_each_loop 0 it (Some p) l = Inl Fault"
| "for_each_loop (Suc fuel) it (Some p) l =
     bnd (load p l) (\<lambda>c. if it (ldata c) then Inr (Some p) else for_each_loop fuel it (next_ptr c) l)"

definition list_for_each :: "('d \<Rightarrow> bool) \<Rightarrow> 'd klist \<Rightarrow> nat option kres" where
  "list_for_each it l = for_each_loop (unat (num_items l)) it (l_head l) l"

fun find_loop :: "nat \<Rightarrow> ('d \<Rightarrow> 'w \<Rightarrow> bool) \<Rightarrow> 'w \<Rightarrow> nat option \<Rightarrow> nat option \<Rightarrow> 'd klist \<Rightarrow> nat option kres" where
  "find_loop fuel cmp what None last_node l = Inr last_node"
| "find_loop 0 cmp what (Some p) last_node l = Inl Fault"
| "find_loop (Suc fuel) cmp what (Some p) last_node l =
     bnd (load p l) (\<lambda>c.
     find_loop fuel cmp what (next_ptr c) (if cmp (ldata c) what then Some p else last_node) l)"

definition list_find :: "('d \<Rightarrow> 'w \<Rightarrow> bool) \<Rightarrow> 'w \<Rightarrow> 'd klist \<Rightarrow> nat option kres" where
  "list_find cmp what l = find_loop (unat (num_items l)) cmp what (l_head l) None l"

section \<open>The sequence a list represents\<close>

text \<open>\<open>seg l a ps z\<close>: the nodes \<open>ps\<close> are chained, the first one's \<open>prev\<close> is \<open>a\<close> and the last one's next is \<open>z\<close>.\<close>

fun seg :: "(nat \<Rightarrow> 'd lnode option) \<Rightarrow> nat option \<Rightarrow> nat list \<Rightarrow> nat option \<Rightarrow> bool" where
  "seg m a [] z \<longleftrightarrow> True"
| "seg m a (p # ps) z \<longleftrightarrow>
     (\<exists>d. m p = Some \<lparr>prev = a, next_ptr = (case ps of [] \<Rightarrow> z | q # _ \<Rightarrow> Some q), ldata = d\<rparr>) \<and> seg m (Some p) ps z"

definition first :: "nat list \<Rightarrow> nat option \<Rightarrow> nat option" where
  "first ps z = (case ps of [] \<Rightarrow> z | q # _ \<Rightarrow> Some q)"

definition final :: "nat option \<Rightarrow> nat list \<Rightarrow> nat option" where
  "final a ps = (if ps = [] then a else Some (last ps))"

definition repr :: "'d klist \<Rightarrow> nat list \<Rightarrow> bool" where
  "repr l ps \<longleftrightarrow> distinct ps \<and> seg (l_mem l) None ps None \<and> l_head l = first ps None \<and>
     l_tail l = final None ps \<and> num_items l = of_nat (length ps) \<and> length ps < 2 ^ 32"

definition items :: "'d klist \<Rightarrow> nat list \<Rightarrow> 'd list" where
  "items l ps = map (\<lambda>p. ldata (the (l_mem l p))) ps"

lemma first_simps [simp]: "first [] z = z" "first (p # ps) z = Some p" "first (ps @ qs) z = first ps (first qs z)"
  by (auto simp: first_def split: list.splits)

lemma final_simps [simp]: "final a [] = a" "final a (p # ps) = final (Some p) ps" "final a (ps @ qs) = final (final a ps) qs"
  by (auto simp: final_def)

lemma seg_append: "seg m a (ps @ qs) z \<longleftrightarrow> seg m a ps (first qs z) \<and> seg m (final a ps) qs z"
  by (induction ps arbitrary: a) (auto split: list.splits)

lemma seg_upd [simp]: "p \<notin> set ps \<Longrightarrow> seg (m(p := n)) a ps z = seg m a ps z"
  by (induction ps arbitrary: a) auto

lemma seg_Cons: "seg m a (p # ps) z \<longleftrightarrow>
    (\<exists>d. m p = Some \<lparr>prev = a, next_ptr = first ps z, ldata = d\<rparr>) \<and> seg m (Some p) ps z"
  by (simp add: first_def)

declare seg.simps(2) [simp del]

text \<open>Redirecting the end of a segment, in either direction.\<close>

lemma seg_snoc: "seg m a (ps @ [p]) z \<longleftrightarrow>
    seg m a ps (Some p) \<and> (\<exists>d. m p = Some \<lparr>prev = final a ps, next_ptr = z, ldata = d\<rparr>)"
  by (simp add: seg_append seg_Cons first_def)

lemma seg_new_end:
  assumes "seg m a (ps @ [p]) z" and "p \<notin> set ps" and "m p = Some c"
  shows "seg (m(p := Some (c\<lparr>next_ptr := z'\<rparr>))) a (ps @ [p]) z'"
  using assms by (auto simp: seg_snoc)

lemma seg_new_start:
  assumes "seg m a (p # ps) z" and "p \<notin> set ps" and "m p = Some c"
  shows "seg (m(p := Some (c\<lparr>prev := a'\<rparr>))) a' (p # ps) z"
  using assms by (auto simp: seg_Cons)

lemma seg_mapped: "seg m a ps z \<Longrightarrow> p \<in> set ps \<Longrightarrow> m p \<noteq> None"
  by (induction ps arbitrary: a) (auto simp: seg_Cons)

lemma load_Some [simp]: "l_mem l p = Some n \<Longrightarrow> load p l = Inr n"
  by (simp add: load_def)

lemma insert_middle:
  assumes "repr l (xs @ p # ys)" and "l_mem l a = None" and "length (xs @ p # ys) + 1 < 2 ^ 32"
  shows "\<exists>l'. list_insert_before (Some a) (Some p) d l = Inr (a, l') \<and> repr l' (xs @ a # p # ys) \<and>
    items l' (xs @ a # p # ys) = items l xs @ d # items l (p # ys)"
proof -
  let ?m = "l_mem l"
  have dist: "distinct (xs @ p # ys)" and sx: "seg ?m None xs (Some p)" and sp: "seg ?m (final None xs) (p # ys) None"
    and head: "l_head l = first (xs @ p # ys) None" and tail: "l_tail l = final None (p # ys)"
    and num: "num_items l = of_nat (length (xs @ p # ys))"
    using assms(1) by (auto simp: repr_def seg_append first_def final_def)
  have fresh: "a \<notin> set (xs @ p # ys)"
    using assms(1,2) seg_mapped [of ?m None "xs @ p # ys" None a] by (auto simp: repr_def)
  obtain dp where mp: "?m p = Some \<lparr>prev = final None xs, next_ptr = first ys None, ldata = dp\<rparr>"
    using sp by (auto simp: seg_Cons)
  let ?n = "\<lparr>prev = final None xs, next_ptr = Some p, ldata = d\<rparr>"
  let ?p = "\<lparr>prev = Some a, next_ptr = first ys None, ldata = dp\<rparr>"
  show ?thesis
  proof (cases xs rule: rev_cases)
    case Nil
    let ?l = "l\<lparr>l_head := Some a, num_items := num_items l + 1, l_mem := ?m(a := Some ?n, p := Some ?p)\<rparr>"
    have "list_insert_before (Some a) (Some p) d l = Inr (a, ?l)"
      using fresh mp Nil
      by (simp add: list_insert_before_def new_node_def store_def set_prev_def set_next_def final_def load_def)
    moreover have "repr ?l (xs @ a # p # ys)"
      using fresh dist sp tail num assms(3) Nil
      by (auto simp: repr_def seg_Cons first_def final_def mp)
    moreover have "items ?l (xs @ a # p # ys) = items l xs @ d # items l (p # ys)"
      using fresh dist Nil by (auto simp: items_def mp)
    ultimately show ?thesis by blast
  next
    case (snoc zs q)
    obtain dq where mq: "?m q = Some \<lparr>prev = final None zs, next_ptr = Some p, ldata = dq\<rparr>" and sz: "seg ?m None zs (Some q)"
      using sx snoc by (auto simp: seg_snoc)
    let ?q = "\<lparr>prev = final None zs, next_ptr = Some a, ldata = dq\<rparr>"
    let ?l = "l\<lparr>num_items := num_items l + 1, l_mem := ?m(a := Some ?n, q := Some ?q, p := Some ?p)\<rparr>"
    have ne: "a \<noteq> p" "a \<noteq> q" "p \<noteq> q" using fresh dist snoc by auto
    have "list_insert_before (Some a) (Some p) d l = Inr (a, ?l)"
      using ne mp mq snoc
      by (simp add: list_insert_before_def new_node_def store_def set_prev_def set_next_def final_def load_def
          fun_upd_twist)
    moreover have "repr ?l (xs @ a # p # ys)"
      using fresh dist sp sz tail num head assms(3) snoc ne
      by (auto simp: repr_def seg_append seg_Cons mp)
    moreover have "items ?l (xs @ a # p # ys) = items l xs @ d # items l (p # ys)"
      using fresh dist snoc ne by (auto simp: items_def mp mq)
    ultimately show ?thesis by blast
  qed
qed

lemma final_None: "final None ps = Some q \<Longrightarrow> \<exists>qs. ps = qs @ [q]"
  by (cases ps rule: rev_cases) (auto simp: final_def)

lemma insert_end:
  assumes "repr l ps" and "l_mem l a = None" and "length ps + 1 < 2 ^ 32"
  shows "\<exists>l'. list_add (Some a) d l = Inr (a, l') \<and> repr l' (ps @ [a]) \<and> items l' (ps @ [a]) = items l ps @ [d]"
proof -
  let ?m = "l_mem l"
  have dist: "distinct ps" and s: "seg ?m None ps None" and head: "l_head l = first ps None"
    and tail: "l_tail l = final None ps" and num: "num_items l = of_nat (length ps)"
    using assms(1) by (auto simp: repr_def)
  have fresh: "a \<notin> set ps" using s assms(2) seg_mapped by fastforce
  show ?thesis
  proof (cases ps rule: rev_cases)
    case Nil
    then show ?thesis
      using head tail num
      by (auto simp: list_add_def new_node_def list_add_node_def store_def repr_def items_def seg_Cons)
  next
    case (snoc zs q)
    obtain dq where mq: "?m q = Some \<lparr>prev = final None zs, next_ptr = None, ldata = dq\<rparr>" and sz: "seg ?m None zs (Some q)"
      using s snoc by (auto simp: seg_snoc)
    let ?l = "l\<lparr>l_tail := Some a, num_items := num_items l + 1, l_mem := ?m(a := Some \<lparr>prev = Some q, next_ptr = None, ldata = d\<rparr>,
      q := Some \<lparr>prev = final None zs, next_ptr = Some a, ldata = dq\<rparr>)\<rparr>"
    have ne: "a \<noteq> q" using fresh snoc by auto
    obtain h where h: "l_head l = Some h" using head snoc by (cases zs) auto
    have "list_add (Some a) d l = Inr (a, ?l)"
      using ne mq snoc tail h
      by (simp add: list_add_def new_node_def list_add_node_def store_def set_prev_def set_next_def load_def)
    moreover have "repr ?l (ps @ [a])"
      using fresh dist sz num head assms(3) snoc ne by (auto simp: repr_def seg_append seg_Cons)
    moreover have "items ?l (ps @ [a]) = items l ps @ [d]"
      using fresh dist snoc ne by (auto simp: items_def mq)
    ultimately show ?thesis by blast
  qed
qed

lemma delete_middle:
  assumes "repr l (xs @ p # ys)" and "ff = None \<or> (\<exists>f. ff = Some f \<and> f (ldata (the (l_mem l p))) = Inr ())"
  shows "\<exists>l'. list_del ff p l = Inr l' \<and> repr l' (xs @ ys) \<and> items l' (xs @ ys) = items l xs @ items l ys \<and> l_mem l' p = None"
proof -
  let ?m = "l_mem l"
  have dist: "distinct (xs @ p # ys)" and sx: "seg ?m None xs (Some p)" and sp: "seg ?m (Some p) ys None"
    and head: "l_head l = first xs (Some p)" and tail: "l_tail l = final (Some p) ys"
    and num: "num_items l = of_nat (length xs + length ys) + 1" and len: "length xs + length ys < 2 ^ 32"
    using assms(1) by (auto simp: repr_def seg_append seg_Cons)
  obtain dp where mp: "?m p = Some \<lparr>prev = final None xs, next_ptr = first ys None, ldata = dp\<rparr>"
    using assms(1) by (auto simp: repr_def seg_append seg_Cons)
  have cb: "(case ff of Some f \<Rightarrow> f (ldata \<lparr>prev = v, next_ptr = n, ldata = dp\<rparr>) | None \<Rightarrow> Inr ()) = Inr ()" for v n
    using assms(2) mp by auto
  show ?thesis
  proof (cases xs rule: rev_cases; cases ys)
    assume "xs = []" "ys = []"
    then show ?thesis using mp cb num by (simp add: list_del_def repr_def items_def)
  next
    fix y ys' assume c: "xs = []" "ys = y # ys'"
    obtain dy where my: "?m y = Some \<lparr>prev = Some p, next_ptr = first ys' None, ldata = dy\<rparr>" and s': "seg ?m (Some y) ys' None"
      using sp c by (auto simp: seg_Cons)
    have "y \<noteq> p" "p \<noteq> y" using dist c by auto
    then show ?thesis
      using mp my cb num c dist s' tail len
      by (auto simp: list_del_def set_prev_def load_def store_def repr_def items_def seg_Cons)
  next
    fix zs q assume c: "xs = zs @ [q]" "ys = []"
    obtain dq where mq: "?m q = Some \<lparr>prev = final None zs, next_ptr = Some p, ldata = dq\<rparr>" and sz: "seg ?m None zs (Some q)"
      using sx c by (auto simp: seg_snoc)
    have "q \<noteq> p" "p \<noteq> q" using dist c by auto
    then show ?thesis
      using mp mq cb num c dist sz head len
      by (auto simp: list_del_def set_next_def load_def store_def repr_def items_def seg_append seg_Cons)
  next
    fix zs q y ys' assume c: "xs = zs @ [q]" "ys = y # ys'"
    obtain dq where mq: "?m q = Some \<lparr>prev = final None zs, next_ptr = Some p, ldata = dq\<rparr>" and sz: "seg ?m None zs (Some q)"
      using sx c by (auto simp: seg_snoc)
    obtain dy where my: "?m y = Some \<lparr>prev = Some p, next_ptr = first ys' None, ldata = dy\<rparr>" and s': "seg ?m (Some y) ys' None"
      using sp c by (auto simp: seg_Cons)
    have "q \<noteq> p" "p \<noteq> q" "y \<noteq> p" "p \<noteq> y" "q \<noteq> y" "y \<noteq> q" using dist c by auto
    then show ?thesis
      using mp mq my cb num c dist sz s' head tail len
      by (auto simp: list_del_def set_next_def set_prev_def load_def store_def repr_def items_def seg_append seg_Cons)
  qed
qed

lemma items_append [simp]: "items l (xs @ ys) = items l xs @ items l ys"
  by (simp add: items_def)

lemma items_Cons: "items l (p # ps) = ldata (the (l_mem l p)) # items l ps"
  by (simp add: items_def)

lemma items_Nil [simp]: "items l [] = []"
  by (simp add: items_def)

lemma length_items [simp]: "length (items l ps) = length ps"
  by (simp add: items_def)

lemma list_del_callback:
  assumes "list_del None p l = Inr l'" and "\<And>d. f d = Inl e"
  shows "list_del (Some f) p l = Inl e"
  using assms by (auto simp: list_del_def bnd_eq_Inr)

text \<open>The traversals.\<close>

lemma for_each_seg:
  assumes "seg (l_mem l) a ps None" and "length ps \<le> fuel"
  shows "(for_each_loop fuel it (first ps None) l = Inr None \<and> (\<forall>d\<in>set (items l ps). \<not> it d)) \<or>
    (\<exists>xs p ys. ps = xs @ p # ys \<and> for_each_loop fuel it (first ps None) l = Inr (Some p) \<and>
      (\<forall>d\<in>set (items l xs). \<not> it d) \<and> it (ldata (the (l_mem l p))))"
  using assms
proof (induction ps arbitrary: a fuel)
  case (Cons p ps)
  then obtain d n where p: "l_mem l p = Some \<lparr>prev = a, next_ptr = first ps None, ldata = d\<rparr>"
    and s: "seg (l_mem l) (Some p) ps None" and n: "fuel = Suc n" "length ps \<le> n"
    by (cases fuel) (auto simp: seg_Cons)
  show ?case
  proof (cases "it d")
    case True
    with p n have "p # ps = [] @ p # ps \<and> for_each_loop fuel it (first (p # ps) None) l = Inr (Some p) \<and>
      (\<forall>d\<in>set (items l []). \<not> it d) \<and> it (ldata (the (l_mem l p)))" by simp
    then show ?thesis by blast
  next
    case False
    then have step: "for_each_loop fuel it (first (p # ps) None) l = for_each_loop n it (first ps None) l"
      using p n by simp
    from Cons.IH [OF s n(2)] show ?thesis
    proof (elim disjE exE conjE)
      fix xs q ys
      assume "ps = xs @ q # ys" "for_each_loop n it (first ps None) l = Inr (Some q)"
        "\<forall>d\<in>set (items l xs). \<not> it d" "it (ldata (the (l_mem l q)))"
      then have "p # ps = (p # xs) @ q # ys \<and> for_each_loop fuel it (first (p # ps) None) l = Inr (Some q) \<and>
        (\<forall>d\<in>set (items l (p # xs)). \<not> it d) \<and> it (ldata (the (l_mem l q)))"
        using step False p by (simp add: items_Cons)
      then show ?thesis by blast
    qed (use step False p in \<open>auto simp: items_Cons\<close>)
  qed
qed simp

lemma find_seg:
  assumes "seg (l_mem l) a ps None" and "length ps \<le> fuel"
  shows "find_loop fuel cmp what (first ps None) acc l =
    Inr (case filter (\<lambda>p. cmp (ldata (the (l_mem l p))) what) ps of [] \<Rightarrow> acc | q # qs \<Rightarrow> Some (last (q # qs)))"
  using assms
proof (induction ps arbitrary: a fuel acc)
  case (Cons p ps)
  then obtain d n where "l_mem l p = Some \<lparr>prev = a, next_ptr = first ps None, ldata = d\<rparr>"
    and "seg (l_mem l) (Some p) ps None" and "fuel = Suc n" "length ps \<le> n"
    by (cases fuel) (auto simp: seg_Cons)
  with Cons.IH [of "Some p" n] show ?case by (auto split: list.splits)
qed simp

lemma insert_before_None: "list_insert_before a None d l = list_add a d l"
  by (auto simp: list_insert_before_def list_add_def)

lemma insert_before_fresh:
  assumes "list_insert_before (Some a) nod d l = Inr (n, l')" and "l_mem l p = None" and "p \<noteq> a"
  shows "l_mem l' p = None"
  using assms
  by (auto simp: list_insert_before_def new_node_def list_add_node_def set_next_def set_prev_def load_def store_def kres_simps
      split: option.splits if_splits)

lemma find_first: "\<forall>x\<in>set xs. \<not> P x \<Longrightarrow> P d \<Longrightarrow> find P (xs @ d # ys) = Some d"
  by (induction xs) auto

section \<open>The interface the kernel uses\<close>

text \<open>
  A linked sequence: what the routing table, the sockets and the queues of packets rely on.
\<close>

locale linked_sequence =
  fixes rep :: "'l \<Rightarrow> nat list \<Rightarrow> bool"
    and its :: "'l \<Rightarrow> nat list \<Rightarrow> 'd list"
    and fresh :: "'l \<Rightarrow> nat \<Rightarrow> bool"
    and ins :: "nat option \<Rightarrow> nat option \<Rightarrow> 'd \<Rightarrow> 'l \<Rightarrow> (nat \<times> 'l) kres"
    and search :: "('d \<Rightarrow> bool) \<Rightarrow> 'l \<Rightarrow> nat option kres"
  assumes its_append: "its l (xs @ ys) = its l xs @ its l ys"
    and its_one: "\<exists>d. its l [p] = [d]"
    and ins_mid: "rep l (xs @ p # ys) \<Longrightarrow> fresh l a \<Longrightarrow> length (xs @ p # ys) + 1 < 2 ^ 32 \<Longrightarrow>
      \<exists>l'. ins (Some a) (Some p) d l = Inr (a, l') \<and> rep l' (xs @ a # p # ys) \<and>
        its l' (xs @ a # p # ys) = its l xs @ d # its l (p # ys)"
    and ins_end: "rep l ps \<Longrightarrow> fresh l a \<Longrightarrow> length ps + 1 < 2 ^ 32 \<Longrightarrow>
      \<exists>l'. ins (Some a) None d l = Inr (a, l') \<and> rep l' (ps @ [a]) \<and> its l' (ps @ [a]) = its l ps @ [d]"
    and search_first: "rep l ps \<Longrightarrow>
      search P l = Inr None \<and> (\<forall>d\<in>set (its l ps). \<not> P d) \<or>
      (\<exists>xs p ys d. ps = xs @ p # ys \<and> search P l = Inr (Some p) \<and> (\<forall>d\<in>set (its l xs). \<not> P d) \<and> its l [p] = [d] \<and> P d)"
begin

lemma search_found:
  assumes "rep l ps"
  shows "\<exists>r. search P l = Inr r \<and> (r = None \<longleftrightarrow> (\<forall>d\<in>set (its l ps). \<not> P d)) \<and>
    (\<forall>p. r = Some p \<longrightarrow> its l [p] = [the (find P (its l ps))])"
  using search_first [OF assms, of P]
proof (elim disjE exE conjE)
  fix xs p ys d
  assume a: "ps = xs @ p # ys" "search P l = Inr (Some p)" "\<forall>d\<in>set (its l xs). \<not> P d" "its l [p] = [d]" "P d"
  have e: "its l ps = its l xs @ d # its l ys"
    using its_append [of l xs "p # ys"] its_append [of l "[p]" ys] a by simp
  have "find P (its l xs @ d # its l ys) = Some d"
    by (rule find_first) (use a(3,5) in auto)
  then show ?thesis using a e by auto
qed simp

text \<open>Inserting in front of the first item that satisfies \<open>P\<close>, the way a sorted list is kept.\<close>

lemma ordered_insert:
  assumes "rep l ps" and "fresh l a" and "length ps + 1 < 2 ^ 32"
  shows "\<exists>r l' ps'. search P l = Inr r \<and> ins (Some a) r d l = Inr (a, l') \<and> rep l' ps' \<and>
    its l' ps' = takeWhile (\<lambda>x. \<not> P x) (its l ps) @ d # dropWhile (\<lambda>x. \<not> P x) (its l ps)"
  using search_first [OF assms(1), of P]
proof (elim disjE exE conjE)
  assume a: "search P l = Inr None" "\<forall>d\<in>set (its l ps). \<not> P d"
  then have "takeWhile (\<lambda>x. \<not> P x) (its l ps) = its l ps" "dropWhile (\<lambda>x. \<not> P x) (its l ps) = []"
    by (auto simp: takeWhile_eq_all_conv dropWhile_eq_Nil_conv)
  with ins_end [OF assms, of d] a(1) show ?thesis by metis
next
  fix xs p ys x
  assume a: "ps = xs @ p # ys" "search P l = Inr (Some p)" "\<forall>d\<in>set (its l xs). \<not> P d" "its l [p] = [x]" "P x"
  have e: "its l (p # ys) = x # its l ys" using its_append [of l "[p]" ys] a(4) by simp
  have "its l ps = its l xs @ x # its l ys" using its_append [of l xs "p # ys"] a(1) e by simp
  then have "takeWhile (\<lambda>x. \<not> P x) (its l ps) = its l xs" "dropWhile (\<lambda>x. \<not> P x) (its l ps) = x # its l ys"
    using a(3,5) by (auto simp: takeWhile_append dropWhile_append)
  with ins_mid [of l xs p ys a d] assms a e show ?thesis by metis
qed

end

lemma repr_fuel: "repr l ps \<Longrightarrow> unat (num_items l) = length ps"
  by (simp add: repr_def unat_of_nat)

interpretation kl: linked_sequence repr items "\<lambda>l a. l_mem l a = None" list_insert_before list_for_each
proof
  show "\<exists>d. items l [p] = [d]" for l :: "'d klist" and p by (simp add: items_def)
  show "\<exists>l'. list_insert_before (Some a) None d l = Inr (a, l') \<and> repr l' (ps @ [a]) \<and> items l' (ps @ [a]) = items l ps @ [d]"
    if "repr l ps" "l_mem l a = None" "length ps + 1 < 2 ^ 32" for l :: "'d klist" and ps a d
    using insert_end [OF that] by (simp add: insert_before_None)
  show "\<exists>l'. list_insert_before (Some a) (Some p) d l = Inr (a, l') \<and> repr l' (xs @ a # p # ys) \<and>
        items l' (xs @ a # p # ys) = items l xs @ d # items l (p # ys)"
    if "repr l (xs @ p # ys)" "l_mem l a = None" "length (xs @ p # ys) + 1 < 2 ^ 32" for l :: "'d klist" and xs p ys a d
    using insert_middle [OF that] .
  show "list_for_each P l = Inr None \<and> (\<forall>d\<in>set (items l ps). \<not> P d) \<or>
      (\<exists>xs p ys d. ps = xs @ p # ys \<and> list_for_each P l = Inr (Some p) \<and> (\<forall>d\<in>set (items l xs). \<not> P d) \<and>
        items l [p] = [d] \<and> P d)" if "repr l ps" for P and l :: "'d klist" and ps
    using for_each_seg [of l None ps "length ps" P] that repr_fuel [OF that]
    by (auto simp: list_for_each_def repr_def items_Cons)
qed (simp add: items_def)

section \<open>Properties\<close>

definition sample_list :: "u8 klist" where
  "sample_list = \<lparr>l_head = Some 1, l_tail = Some 2, num_items = 2,
     l_mem = [1 \<mapsto> \<lparr>prev = None, next_ptr = Some 2, ldata = 10\<rparr>, 2 \<mapsto> \<lparr>prev = Some 1, next_ptr = None, ldata = 20\<rparr>]\<rparr>"

lemma sample_repr: "repr sample_list [1, 2]"
  by (simp add: repr_def sample_list_def seg_Cons)

text \<open>
  C12. The doubly linked list (\<open>list.c\<close>) implements a sequence, the empty one to begin with. On any list, empty
  or not, adding appends, and so does inserting in front of NULL; inserting in front of a node puts the new item
  exactly there, also at the head; deleting a node, also the only one, removes exactly its item and frees
  it, with or without a function that frees the data. After each of them the chain is intact in both directions,
  \<open>head\<close>, \<open>tail\<close> and \<open>num_items\<close> included, and every other item is where it was.
\<close>

theorem list_implements_sequence:
  fixes l :: "'d klist"
  assumes "repr l ps" and "l_mem l a = None" and "length ps + 1 < 2 ^ 32"
    and "ff = None \<or> (\<exists>f. ff = Some f \<and> (\<forall>d. f d = Inr ()))"
  shows "repr (list_open :: 'd klist) [] \<and>
    (\<exists>l'. list_add (Some a) d l = Inr (a, l') \<and> repr l' (ps @ [a]) \<and> items l' (ps @ [a]) = items l ps @ [d]) \<and>
    (\<exists>l'. list_insert_before (Some a) None d l = Inr (a, l') \<and> repr l' (ps @ [a]) \<and> items l' (ps @ [a]) = items l ps @ [d]) \<and>
    (\<forall>xs p ys. ps = xs @ p # ys \<longrightarrow>
      (\<exists>l'. list_insert_before (Some a) (Some p) d l = Inr (a, l') \<and> repr l' (xs @ a # p # ys) \<and>
        items l' (xs @ a # p # ys) = items l xs @ d # items l (p # ys)) \<and>
      (\<exists>l'. list_del ff p l = Inr l' \<and> repr l' (xs @ ys) \<and> items l' (xs @ ys) = items l xs @ items l ys \<and> l_mem l' p = None))"
proof (intro conjI allI impI)
  show "repr (list_open :: 'd klist) []" by (simp add: repr_def list_open_def)
  show "\<exists>l'. list_add (Some a) d l = Inr (a, l') \<and> repr l' (ps @ [a]) \<and> items l' (ps @ [a]) = items l ps @ [d]"
    by (rule insert_end [OF assms(1-3)])
  show "\<exists>l'. list_insert_before (Some a) None d l = Inr (a, l') \<and> repr l' (ps @ [a]) \<and> items l' (ps @ [a]) = items l ps @ [d]"
    by (rule kl.ins_end [OF assms(1-3)])
next
  fix xs p ys assume ps: "ps = xs @ p # ys"
  show "\<exists>l'. list_insert_before (Some a) (Some p) d l = Inr (a, l') \<and> repr l' (xs @ a # p # ys) \<and>
      items l' (xs @ a # p # ys) = items l xs @ d # items l (p # ys)"
    using assms(1-3) unfolding ps by (rule kl.ins_mid)
  show "\<exists>l'. list_del ff p l = Inr l' \<and> repr l' (xs @ ys) \<and> items l' (xs @ ys) = items l xs @ items l ys \<and> l_mem l' p = None"
    using assms(1,4) unfolding ps by (intro delete_middle) auto
qed

lemma list_implements_sequence_witness:
  "(\<exists>l'. list_insert_before (Some 3) (Some 2) 15 sample_list = Inr (3, l') \<and> repr l' [1, 3, 2] \<and> items l' [1, 3, 2] = [10, 15, 20]) \<and>
   (\<exists>l'. list_del None 2 sample_list = Inr l' \<and> repr l' [1] \<and> items l' [1] = [10]) \<and>
   (\<exists>l' :: u8 klist. list_add (Some 5) 7 list_open = Inr (5, l') \<and> repr l' [5] \<and> items l' [5] = [7])"
proof -
  have "l_mem sample_list 3 = None" "items sample_list [1] = [10]" "items sample_list [2] = [20]"
    by (simp_all add: sample_list_def items_def)
  moreover have "repr (list_open :: u8 klist) []" "l_mem (list_open :: u8 klist) 5 = None" by (simp_all add: repr_def list_open_def)
  ultimately show ?thesis
    using list_implements_sequence [OF sample_repr, of 3 None 15] list_implements_sequence [of "list_open :: u8 klist" "[]" 5 None 7]
    by (auto simp: items_def dest!: spec [of _ "[1]"])
qed

text \<open>
  \<open>list_close\<close> (\<open>list.c\<close>) reads \<open>node->next\<close> after \<open>free(node)\<close>: on every list that is not empty it touches
  memory it has just given back.
\<close>

theorem list_close_reads_freed_node:
  assumes "repr l ps" and "ps \<noteq> []"
    and "ff = None \<or> (\<exists>f. ff = Some f \<and> (\<forall>d. f d = Inr ()))"
  shows "list_close ff l = Inl Fault"
proof -
  obtain p qs where ps: "ps = p # qs" using assms(2) by (cases ps) auto
  obtain d where "l_mem l p = Some \<lparr>prev = None, next_ptr = first qs None, ldata = d\<rparr>" and "l_head l = Some p"
    using assms(1) ps by (auto simp: repr_def seg_Cons)
  moreover obtain n where "unat (num_items l) = Suc n" using repr_fuel [OF assms(1)] ps by simp
  ultimately show ?thesis using assms(3) by (auto simp: list_close_def load_def)
qed

lemma list_close_reads_freed_node_witness: "list_close None sample_list = Inl Fault"
  by (rule list_close_reads_freed_node [OF sample_repr]) simp_all

text \<open>
  \<open>list_for_each\<close> returns the first node whose data the iterator accepts, \<open>list_find\<close> the last one
  that compares equal (it does not stop at a match), and both return NULL exactly when there is
  none; they end after one visit of every node.
\<close>

theorem list_searches:
  assumes "repr l ps"
  shows "(\<exists>r. list_for_each P l = Inr r \<and> (r = None \<longleftrightarrow> (\<forall>d\<in>set (items l ps). \<not> P d)) \<and>
      (\<forall>p. r = Some p \<longrightarrow> items l [p] = [the (find P (items l ps))])) \<and>
    list_find (\<lambda>d w. P d) w l =
      Inr (case filter (\<lambda>p. P (ldata (the (l_mem l p)))) ps of [] \<Rightarrow> None | q # qs \<Rightarrow> Some (last (q # qs)))"
  using kl.search_found [OF assms, of P] find_seg [of l None ps "length ps"] assms repr_fuel [OF assms]
  by (simp add: list_find_def repr_def)

lemma list_searches_witness: "list_find (\<lambda>d w. d < 30) (0 :: nat) sample_list = Inr (Some 2)"
proof -
  have "list_find (\<lambda>d w. d < 30) (0 :: nat) sample_list =
      Inr (case filter (\<lambda>p. ldata (the (l_mem sample_list p)) < 30) [1, 2] of [] \<Rightarrow> None | q # qs \<Rightarrow> Some (last (q # qs)))"
    using list_searches [OF sample_repr, of "\<lambda>d. d < 30" "0 :: nat"] by blast
  then show ?thesis by (simp add: sample_list_def)
qed

end
