(* ===== verification/Bmap.thy ===== *)
theory Bmap
  imports Prelude
begin

text \<open>
  The bitmap allocator (\<open>bmap.c\<close>) behind the allocation of ports: an array of 32-bit words, a set bit
  is a number in use. The search for a clear bit starts in the word of the bit used last and goes
  on from the beginning.
\<close>

record bmap =
  bm_size :: nat
  bm_last :: nat
  bm_lock :: bool
  bm_data :: "u32 list"

definition bmap_alloc :: "bool \<Rightarrow> nat \<Rightarrow> bmap option" where
  "bmap_alloc mem sz =
     (if \<not> mem then None
      else Some \<lparr>bm_size = sz, bm_last = 0, bm_lock = False, bm_data = replicate ((sz div 8) div 4) 0\<rparr>)"

text \<open>The loop over the bits of a word: the first one that is clear.\<close>

definition clear_in :: "u32 \<Rightarrow> nat option" where
  "clear_in w = find (\<lambda>j. drop_bit j w AND 1 = 0) [0..<32]"

fun scan_words :: "nat list \<Rightarrow> bmap \<Rightarrow> (nat option \<times> bmap) kres" where
  "scan_words [] bm = Inr (None, bm)"
| "scan_words (i # is) bm =
     bnd (aget (bm_data bm) i) (\<lambda>w.
     if w \<noteq> 0xFFFFFFFF then
       (case clear_in w of
          Some j \<Rightarrow>
            bnd (aset (bm_data bm) i (w OR push_bit j 1)) (\<lambda>ws.
            Inr (Some (i * 32 + j), bm\<lparr>bm_data := ws, bm_last := i * 32 + j\<rparr>))
        | None \<Rightarrow> scan_words is bm)
     else scan_words is bm)"

definition bmap_scan_range :: "bmap \<Rightarrow> nat \<Rightarrow> nat \<Rightarrow> (nat option \<times> bmap) kres" where
  "bmap_scan_range bm lo hi =
     kassert (bm_lock bm) ''bmap->lock'' (scan_words [lo div 32..<hi div 32] bm)"

definition bmap_get_free :: "bmap \<Rightarrow> (int \<times> bmap) kres" where
  "bmap_get_free bm =
     (if bm_lock bm then Inl Deadlock
      else
        bnd (bmap_scan_range (bm\<lparr>bm_lock := True\<rparr>) (bm_last bm) (bm_size bm)) (\<lambda>(r, bm). case r of
          Some b \<Rightarrow> Inr (int b, bm\<lparr>bm_lock := False\<rparr>)
        | None \<Rightarrow>
            bnd (bmap_scan_range bm 0 (bm_last bm)) (\<lambda>(r, bm). case r of
              Some b \<Rightarrow> Inr (int b, bm\<lparr>bm_lock := False\<rparr>)
            | None \<Rightarrow> Inr (- 1, bm\<lparr>bm_lock := False\<rparr>))))"

definition bmap_free :: "bmap \<Rightarrow> int \<Rightarrow> (int \<times> bmap) kres" where
  "bmap_free bm bi =
     (if bi \<ge> int (bm_size bm) then Inr (- 1, bm)
      else if bm_lock bm then Inl Deadlock
      else if bi < 0 then Inl Fault
      else
        let b = nat bi in
        bnd (aget (bm_data bm) (b div 32)) (\<lambda>w.
        bnd (aset (bm_data bm) (b div 32) (w AND NOT (push_bit (b mod 32) 1))) (\<lambda>ws.
        Inr (0, bm\<lparr>bm_data := ws, bm_last := b\<rparr>))))"

section \<open>The set of numbers in use\<close>

definition in_use :: "bmap \<Rightarrow> nat \<Rightarrow> bool" where
  "in_use bm b \<longleftrightarrow> bit (bm_data bm ! (b div 32)) (b mod 32)"

definition bmap_ok :: "bmap \<Rightarrow> bool" where
  "bmap_ok bm \<longleftrightarrow> \<not> bm_lock bm \<and> 32 dvd bm_size bm \<and> length (bm_data bm) = bm_size bm div 32 \<and> bm_last bm \<le> bm_size bm"

lemma drop_bit_and_1: "drop_bit j (w :: u32) AND 1 = 0 \<longleftrightarrow> \<not> bit w j"
  by (simp add: and_one_eq even_drop_bit_iff_not_bit) (metis even_drop_bit_iff_not_bit odd_iff_mod_2_eq_one even_iff_mod_2_eq_zero)

lemma clear_in_Some: "clear_in w = Some j \<Longrightarrow> j < 32 \<and> \<not> bit w j"
  by (auto simp: clear_in_def find_Some_iff drop_bit_and_1)

lemma clear_in_None: "clear_in w = None \<Longrightarrow> j < 32 \<Longrightarrow> bit w j"
  by (auto simp: clear_in_def find_None_iff drop_bit_and_1)

lemma all_ones: "j < 32 \<Longrightarrow> bit (0xFFFFFFFF :: u32) j"
proof -
  have m: "(0xFFFFFFFF :: u32) = mask 32" by (simp add: mask_eq_exp_minus_1)
  show "j < 32 \<Longrightarrow> ?thesis" by (subst m) (simp add: bit_simps)
qed

lemma scan_words_spec:
  assumes "\<forall>i\<in>set is. i < length (bm_data bm)"
  shows "(scan_words is bm = Inr (None, bm) \<and> (\<forall>i\<in>set is. \<forall>j<32. bit (bm_data bm ! i) j)) \<or>
    (\<exists>i j. i \<in> set is \<and> j < 32 \<and> \<not> bit (bm_data bm ! i) j \<and>
      scan_words is bm = Inr (Some (i * 32 + j),
        bm\<lparr>bm_data := (bm_data bm)[i := bm_data bm ! i OR push_bit j 1], bm_last := i * 32 + j\<rparr>))"
  using assms
proof (induction "is")
  case (Cons i "is")
  let ?w = "bm_data bm ! i"
  show ?case
  proof (cases "?w \<noteq> 0xFFFFFFFF \<and> clear_in ?w \<noteq> None")
    case True
    then obtain j where j: "clear_in ?w = Some j" by auto
    then have "i \<in> set (i # is) \<and> j < 32 \<and> \<not> bit ?w j \<and> scan_words (i # is) bm = Inr (Some (i * 32 + j),
        bm\<lparr>bm_data := (bm_data bm)[i := ?w OR push_bit j 1], bm_last := i * 32 + j\<rparr>)"
      using True Cons.prems clear_in_Some [OF j] by simp
    then show ?thesis by blast
  next
    case False
    then have full: "\<forall>j<32. bit ?w j" using all_ones clear_in_None by (metis option.exhaust)
    have "scan_words (i # is) bm = scan_words is bm" using False Cons.prems by auto
    with Cons.IH Cons.prems full show ?thesis by simp blast
  qed
qed simp

lemma set_bit_word: "j < 32 \<Longrightarrow> bit (w OR 2 ^ j :: u32) k \<longleftrightarrow> bit w k \<or> k = j"
  by (auto simp: bit_simps)

lemma clear_bit_word: "j < 32 \<Longrightarrow> k < 32 \<Longrightarrow> bit (w AND NOT (2 ^ j) :: u32) k \<longleftrightarrow> bit w k \<and> k \<noteq> j"
  by (auto simp: bit_simps)

lemma in_use_set:
  assumes "i < length (bm_data bm)" and "j < 32"
  shows "in_use (bm\<lparr>bm_data := (bm_data bm)[i := bm_data bm ! i OR push_bit j 1], bm_last := l, bm_lock := k\<rparr>) b \<longleftrightarrow>
    in_use bm b \<or> b = i * 32 + j"
proof (cases "b div 32 = i")
  case True
  have "b mod 32 = j \<longleftrightarrow> b = i * 32 + j" using True assms(2) by (metis div_mult_mod_eq mod_less mod_mult_self3)
  with True assms show ?thesis by (simp add: in_use_def set_bit_word)
next
  case False
  then have "b \<noteq> i * 32 + j" using assms(2) by auto
  with False show ?thesis by (simp add: in_use_def)
qed

lemma scan_range_covers:
  assumes "32 dvd n" and "l \<le> n" and "\<forall>i\<in>set [l div 32..<n div 32]. \<forall>j<32. bit (ws ! i) j"
    and "\<forall>i\<in>set [0..<l div 32]. \<forall>j<32. bit (ws ! i :: u32) j" and "b < n"
  shows "bit (ws ! (b div 32)) (b mod 32)"
proof -
  have "b div 32 < n div 32" using assms(1,5) by (auto elim!: dvdE simp: less_mult_imp_div_less mult.commute)
  then show ?thesis using assms(3,4) by (cases "b div 32 < l div 32") auto
qed

lemma get_free_cases:
  assumes "bmap_ok bm"
  shows "(bmap_get_free bm = Inr (- 1, bm) \<and> (\<forall>b<bm_size bm. in_use bm b)) \<or>
    (\<exists>i j. i < length (bm_data bm) \<and> j < 32 \<and> \<not> in_use bm (i * 32 + j) \<and> bmap_get_free bm = Inr (int (i * 32 + j),
        bm\<lparr>bm_data := (bm_data bm)[i := bm_data bm ! i OR push_bit j 1], bm_last := i * 32 + j, bm_lock := False\<rparr>))"
proof -
  have ok: "\<not> bm_lock bm" "32 dvd bm_size bm" "length (bm_data bm) = bm_size bm div 32" "bm_last bm \<le> bm_size bm"
    using assms by (auto simp: bmap_ok_def)
  have le: "bm_last bm div 32 \<le> bm_size bm div 32" using ok(4) by (rule div_le_mono)
  let ?L = "bm\<lparr>bm_lock := True\<rparr>"
  have same: "bm\<lparr>bm_lock := False\<rparr> = bm" using ok(1) by simp
  have hi: "\<forall>i\<in>set [bm_last bm div 32..<bm_size bm div 32]. i < length (bm_data ?L)"
    and lo: "\<forall>i\<in>set [0 div 32..<bm_last bm div 32]. i < length (bm_data ?L)" using ok(3) le by auto
  have idx: "(i * 32 + j) div 32 = i" "(i * 32 + j) mod 32 = j" if "j < 32" for i j :: nat using that by auto
  from scan_words_spec [OF hi] show ?thesis
  proof (elim disjE exE conjE)
    fix i j
    assume "i \<in> set [bm_last bm div 32..<bm_size bm div 32]" "j < 32" "\<not> bit (bm_data ?L ! i) j"
      "scan_words [bm_last bm div 32..<bm_size bm div 32] ?L = Inr (Some (i * 32 + j),
        ?L\<lparr>bm_data := (bm_data ?L)[i := bm_data ?L ! i OR push_bit j 1], bm_last := i * 32 + j\<rparr>)"
    then show ?thesis using ok idx
      by (intro disjI2 exI [of _ i] exI [of _ j]) (simp add: bmap_get_free_def bmap_scan_range_def in_use_def)
  next
    assume none: "scan_words [bm_last bm div 32..<bm_size bm div 32] ?L = Inr (None, ?L)"
      "\<forall>i\<in>set [bm_last bm div 32..<bm_size bm div 32]. \<forall>j<32. bit (bm_data ?L ! i) j"
    from scan_words_spec [OF lo] show ?thesis
    proof (elim disjE exE conjE)
      fix i j
      assume "i \<in> set [0 div 32..<bm_last bm div 32]" "j < 32" "\<not> bit (bm_data ?L ! i) j"
        "scan_words [0 div 32..<bm_last bm div 32] ?L = Inr (Some (i * 32 + j),
          ?L\<lparr>bm_data := (bm_data ?L)[i := bm_data ?L ! i OR push_bit j 1], bm_last := i * 32 + j\<rparr>)"
      then show ?thesis using ok idx none(1) le
        by (intro disjI2 exI [of _ i] exI [of _ j]) (simp add: bmap_get_free_def bmap_scan_range_def in_use_def)
    next
      assume none2: "scan_words [0 div 32..<bm_last bm div 32] ?L = Inr (None, ?L)"
        "\<forall>i\<in>set [0 div 32..<bm_last bm div 32]. \<forall>j<32. bit (bm_data ?L ! i) j"
      have "in_use bm b" if "b < bm_size bm" for b
        using scan_range_covers [OF ok(2,4), of "bm_data bm" b] none(2) none2(2) that by (simp add: in_use_def)
      then show ?thesis using none(1) none2(1) ok(1) same
        by (intro disjI1) (simp add: bmap_get_free_def bmap_scan_range_def)
    qed
  qed
qed

section \<open>Properties\<close>

text \<open>
  \<open>bmap_get_free\<close> (\<open>bmap.c\<close>) returns a number below the size that was not in use and marks exactly
  that number, or returns -1 and changes nothing when every number is in use, wherever the last
  search ended; \<open>bmap_free\<close> makes exactly the given number available again. So no number is given
  out twice before it is freed.
\<close>

theorem bmap_allocates_unused:
  assumes "bmap_ok bm"
  shows "\<exists>r bm'. bmap_get_free bm = Inr (r, bm') \<and> bmap_ok bm' \<and> bm_size bm' = bm_size bm \<and>
    (if \<forall>b<bm_size bm. in_use bm b then r = - 1 \<and> bm' = bm
     else \<exists>n<bm_size bm. r = int n \<and> \<not> in_use bm n \<and> (\<forall>b. in_use bm' b \<longleftrightarrow> in_use bm b \<or> b = n) \<and>
       (\<exists>bm2. bmap_free bm' r = Inr (0, bm2) \<and> bmap_ok bm2 \<and> (\<forall>b<bm_size bm. in_use bm2 b \<longleftrightarrow> in_use bm b)))"
proof -
  have ok: "\<not> bm_lock bm" "32 dvd bm_size bm" "length (bm_data bm) = bm_size bm div 32"
    using assms by (auto simp: bmap_ok_def)
  from get_free_cases [OF assms] show ?thesis
  proof (elim disjE exE conjE)
    fix i j :: nat
    let ?n = "i * 32 + j"
    let ?b = "bm\<lparr>bm_data := (bm_data bm)[i := bm_data bm ! i OR push_bit j 1], bm_last := ?n, bm_lock := False\<rparr>"
    assume i: "i < length (bm_data bm)" and j: "j < 32" and free: "\<not> in_use bm ?n" and run: "bmap_get_free bm = Inr (int ?n, ?b)"
    have n: "?n < bm_size bm" using i j ok(2,3) by (auto elim!: dvdE)
    have okb: "bmap_ok ?b" using ok n by (simp add: bmap_ok_def)
    have use: "in_use ?b b \<longleftrightarrow> in_use bm b \<or> b = ?n" for b by (rule in_use_set [OF i j])
    let ?w = "(bm_data bm ! i OR push_bit j 1) AND NOT (push_bit j 1)"
    let ?b2 = "?b\<lparr>bm_data := (bm_data bm)[i := ?w], bm_last := ?n\<rparr>"
    have idx: "?n div 32 = i" "?n mod 32 = j" using j by auto
    have fr: "bmap_free ?b (int ?n) = Inr (0, ?b2)"
      using n i j by (simp add: bmap_free_def idx Let_def del: of_nat_add of_nat_mult)
    have "in_use ?b2 b \<longleftrightarrow> in_use bm b" if "b < bm_size bm" for b
    proof (cases "b div 32 = i")
      case True
      have "b mod 32 = j \<longleftrightarrow> b = ?n" using True j by (metis div_mult_mod_eq idx(2))
      with True i j free idx show ?thesis
        by (simp add: in_use_def clear_bit_word set_bit_word) (metis idx in_use_def)
    qed (simp add: in_use_def)
    moreover have "bmap_ok ?b2" using okb by (simp add: bmap_ok_def)
    ultimately show ?thesis using run okb use fr free n by auto
  qed (use assms in auto)
qed

lemma bmap_allocates_unused_witness:
  "\<exists>r bm'. bmap_get_free \<lparr>bm_size = 64, bm_last = 40, bm_lock = False, bm_data = [0, 0xFFFFFFFF]\<rparr> = Inr (r, bm') \<and>
     bmap_ok bm' \<and> bm_size bm' = 64"
  using bmap_allocates_unused [of "\<lparr>bm_size = 64, bm_last = 40, bm_lock = False, bm_data = [0, 0xFFFFFFFF]\<rparr>"]
  by (auto simp: bmap_ok_def)

end
