(* ===== verification/Route.thy ===== *)
theory Route
  imports Klist
begin

text \<open>
  The routing table (\<open>route.c\<close>): a list of routes kept in descending order of their base address,
  with the longer mask first among equal bases, and a lock. The list is the one of \<open>Klist\<close>, used
  through the interface \<open>linked_sequence\<close>. The macro \<open>forEach\<close> with a \<open>break\<close> is \<open>list_for_each\<close>: both
  leave the loop at the first node that satisfies the condition.
\<close>

type_synonym ip_t = u32

record route =
  rt_base :: ip_t
  rt_mask :: ip_t
  rt_gateway :: ip_t
  rt_netif :: nat

record route_table =
  rt_routes :: "route klist"
  rt_lock :: bool

definition route_exists :: "ip_t \<Rightarrow> ip_t \<Rightarrow> route_table \<Rightarrow> int kres" where
  "route_exists base msk t =
     (if rt_lock t then Inl Deadlock
      else bnd (list_for_each (\<lambda>r. rt_base r = base \<and> rt_mask r = msk) (rt_routes t)) (\<lambda>nod.
        Inr (if nod \<noteq> None then 0 else - 1)))"

text \<open>\<open>mem\<close>: whether \<open>malloc\<close> finds memory for the route; \<open>a\<close>: what it returns for the node.\<close>

definition route_add :: "bool \<Rightarrow> nat option \<Rightarrow> ip_t \<Rightarrow> ip_t \<Rightarrow> ip_t \<Rightarrow> nat \<Rightarrow> route_table \<Rightarrow> (int \<times> route_table) kres" where
  "route_add mem a base msk gateway netif t =
     (let base = base AND msk in
      bnd (route_exists base msk t) (\<lambda>e.
      if e = 0 then Inr (- 1, t)
      else if \<not> mem then Inr (- 1, t)
      else
        let r = \<lparr>rt_base = base, rt_mask = msk, rt_gateway = gateway, rt_netif = netif\<rparr> in
        if rt_lock t then Inl Deadlock
        else
          bnd (list_for_each (\<lambda>rt. base > rt_base rt \<or> base = rt_base rt \<and> msk > rt_mask rt) (rt_routes t)) (\<lambda>nod.
          bnd (list_insert_before a nod r (rt_routes t)) (\<lambda>(_, l). Inr (0, t\<lparr>rt_routes := l\<rparr>)))))"

text \<open>
  \<open>route_del\<close> takes the lock and calls \<open>list_del\<close>, which calls the list's free function, and that is
  \<open>route_del\<close> again (\<open>route_init\<close> passes it to \<open>list_open\<close>). \<open>p\<close> is \<open>r->node\<close>. The first argument bounds
  the depth of that recursion.
\<close>

fun route_del :: "nat \<Rightarrow> nat \<Rightarrow> route_table \<Rightarrow> route_table kres" where
  "route_del 0 p t = Inl Fault"
| "route_del (Suc depth) p t =
     (if rt_lock t then Inl Deadlock
      else
        let t = t\<lparr>rt_lock := True\<rparr> in
        bnd (list_del (Some (\<lambda>d. bnd (route_del depth p t) (\<lambda>_. Inr ()))) p (rt_routes t)) (\<lambda>l.
        Inr (t\<lparr>rt_routes := l, rt_lock := False\<rparr>)))"

definition route_find :: "ip_t \<Rightarrow> route_table \<Rightarrow> route option kres" where
  "route_find ip t =
     (if rt_lock t then Inl Deadlock
      else bnd (list_for_each (\<lambda>r. ip AND rt_mask r = rt_base r) (rt_routes t)) (\<lambda>nod. case nod of
        None \<Rightarrow> Inr None
      | Some p \<Rightarrow> bnd (load p (rt_routes t)) (\<lambda>c. Inr (Some (ldata c)))))"

definition route_init :: "bool \<Rightarrow> route_table option" where
  "route_init mem = (if mem then Some \<lparr>rt_routes = list_open, rt_lock = False\<rparr> else None)"

section \<open>The order of the table\<close>

definition before :: "route \<Rightarrow> route \<Rightarrow> bool" where
  "before x y \<longleftrightarrow> rt_base x > rt_base y \<or> rt_base x = rt_base y \<and> rt_mask x > rt_mask y"

lemma before_trans: "before x y \<Longrightarrow> before y z \<Longrightarrow> before x z"
  by (auto simp: before_def)

lemma before_asym: "before x y \<Longrightarrow> \<not> before y x"
  by (auto simp: before_def)

definition table_ok :: "route_table \<Rightarrow> nat list \<Rightarrow> bool" where
  "table_ok t ps \<longleftrightarrow> \<not> rt_lock t \<and> repr (rt_routes t) ps \<and> sorted_wrt before (items (rt_routes t) ps)"

abbreviation routes :: "route_table \<Rightarrow> nat list \<Rightarrow> route list" where
  "routes t ps \<equiv> items (rt_routes t) ps"

lemma sorted_insert:
  assumes "sorted_wrt before xs" and "\<forall>x\<in>set xs. \<not> (rt_base x = rt_base r \<and> rt_mask x = rt_mask r)"
  shows "sorted_wrt before (takeWhile (\<lambda>x. \<not> before r x) xs @ r # dropWhile (\<lambda>x. \<not> before r x) xs)"
  using assms
proof (induction xs)
  case (Cons x xs)
  show ?case
  proof (cases "before r x")
    case True
    with Cons.prems show ?thesis by (auto intro: before_trans)
  next
    case False
    then have "before x r" using Cons.prems(2) by (auto simp: before_def)
    moreover have "before x y" if "y \<in> set xs" for y using Cons.prems(1) that by simp
    ultimately show ?thesis
      using Cons False by (auto dest: set_takeWhileD set_dropWhileD)
  qed
qed simp

lemma route_exists_spec:
  assumes "table_ok t ps"
  shows "route_exists base msk t = Inr (if \<exists>r\<in>set (routes t ps). rt_base r = base \<and> rt_mask r = msk then 0 else - 1)"
  using kl.search_found [of "rt_routes t" ps "\<lambda>r. rt_base r = base \<and> rt_mask r = msk"] assms
  by (auto simp: route_exists_def table_ok_def)

lemma route_add_spec:
  assumes "table_ok t ps" and "l_mem (rt_routes t) a = None" and "length ps + 1 < 2 ^ 32"
    and r: "r = \<lparr>rt_base = base AND msk, rt_mask = msk, rt_gateway = gw, rt_netif = nif\<rparr>"
    and new: "\<not> (\<exists>x\<in>set (routes t ps). rt_base x = base AND msk \<and> rt_mask x = msk)"
  shows "\<exists>t' ps'. route_add True (Some a) base msk gw nif t = Inr (0, t') \<and> table_ok t' ps' \<and>
    set (routes t' ps') = insert r (set (routes t ps))"
proof -
  let ?P = "\<lambda>x. before r x"
  have rep: "repr (rt_routes t) ps" and unl: "\<not> rt_lock t" using assms(1) by (auto simp: table_ok_def)
  have P: "(\<lambda>rt. base AND msk > rt_base rt \<or> base AND msk = rt_base rt \<and> msk > rt_mask rt) = ?P"
    by (simp add: before_def r)
  obtain p l' ps' where s: "list_for_each ?P (rt_routes t) = Inr p" "list_insert_before (Some a) p r (rt_routes t) = Inr (a, l')"
    and rep': "repr l' ps'"
    and it: "items l' ps' = takeWhile (\<lambda>x. \<not> ?P x) (routes t ps) @ r # dropWhile (\<lambda>x. \<not> ?P x) (routes t ps)"
    using kl.ordered_insert [OF rep assms(2,3), of ?P r] by blast
  have "route_add True (Some a) base msk gw nif t = Inr (0, t\<lparr>rt_routes := l'\<rparr>)"
    using s new unl by (simp add: route_add_def route_exists_spec [OF assms(1)] Let_def P flip: r)
  moreover have "sorted_wrt before (items l' ps')"
    unfolding it using assms(1) new by (intro sorted_insert) (auto simp: table_ok_def r)
  moreover have "set (items l' ps') = insert r (set (routes t ps))"
    unfolding it using takeWhile_dropWhile_id [of "\<lambda>x. \<not> ?P x" "routes t ps"]
    by (metis (no_types, lifting) insert_is_Un set_append list.simps(15) Un_insert_right)
  ultimately show ?thesis using rep' unl by (intro exI [of _ "t\<lparr>rt_routes := l'\<rparr>"] exI [of _ ps']) (simp add: table_ok_def)
qed

lemma route_add_fresh:
  assumes "route_add mem (Some a) base msk gw nif t = Inr (r, t')" and "l_mem (rt_routes t) p = None" and "p \<noteq> a"
  shows "l_mem (rt_routes t') p = None"
  using assms by (auto simp: route_add_def Let_def kres_simps split: if_splits dest: insert_before_fresh)

lemma table_ok_length:
  assumes "table_ok t ps" and "table_ok t' ps'" and "set (routes t' ps') = insert r (set (routes t ps))"
  shows "length ps' \<le> length ps + 1"
proof -
  have d: "distinct (routes t ps)" if "table_ok t ps" for t ps
    using that before_asym unfolding table_ok_def distinct_conv_nth sorted_wrt_iff_nth_less by (metis nat_neq_iff)
  have "length ps' = card (set (routes t' ps'))" using distinct_card [OF d [OF assms(2)]] by simp
  also have "\<dots> \<le> Suc (card (set (routes t ps)))" unfolding assms(3) by (simp add: card_insert_if)
  also have "\<dots> = length ps + 1" using distinct_card [OF d [OF assms(1)]] by simp
  finally show ?thesis .
qed

section \<open>Longest prefix match\<close>

definition prefix_mask :: "ip_t \<Rightarrow> bool" where
  "prefix_mask m \<longleftrightarrow> (\<exists>n\<le>32. m = NOT (mask n))"

lemma prefix_masks_nest:
  assumes "prefix_mask m" and "prefix_mask m'" and "m < m'"
  shows "m AND m' = m"
proof -
  obtain n n' where n: "m = NOT (mask n)" "m' = NOT (mask n')" using assms(1,2) by (auto simp: prefix_mask_def)
  have "\<not> n \<le> n'"
  proof
    assume "n \<le> n'"
    then have "m' AND m = m'" unfolding n by (intro bit_word_eqI) (auto simp: bit_simps)
    then have "m' \<le> m" by (metis word_and_le1)
    with assms(3) show False by simp
  qed
  then show ?thesis unfolding n by (intro bit_word_eqI) (auto simp: bit_simps)
qed

lemma longer_match_first:
  assumes "prefix_mask (rt_mask x)" and "prefix_mask (rt_mask y)" and "rt_mask x < rt_mask y"
    and "ip AND rt_mask x = rt_base x" and "ip AND rt_mask y = rt_base y"
  shows "before y x"
proof -
  have "rt_base x = rt_base y AND rt_mask x"
    using prefix_masks_nest [OF assms(1-3)] assms(4,5) by (metis and.assoc and.commute)
  then have "rt_base x \<le> rt_base y" by (metis word_and_le2)
  with assms(3) show ?thesis by (auto simp: before_def order.order_iff_strict)
qed

lemma find_sorted:
  assumes "sorted_wrt before xs" and "find P xs = Some r" and "y \<in> set xs" and "P y" and "y \<noteq> r"
  shows "before r y"
  using assms by (induction xs) (auto split: if_splits)

text \<open>
  C13. \<open>route_find\<close> (\<open>route.c\<close>) is a longest prefix match, although it stops at the first route that
  matches: keeping the table in descending order of base and mask makes the most specific
  matching route come first. It returns a route exactly when one matches, and no route of the
  table that matches the address has a longer mask.
\<close>

theorem route_find_longest_prefix:
  assumes "table_ok t ps" and "\<forall>r\<in>set (routes t ps). prefix_mask (rt_mask r)"
  shows "\<exists>res. route_find ip t = Inr res \<and>
    (res = None \<longleftrightarrow> (\<forall>r\<in>set (routes t ps). ip AND rt_mask r \<noteq> rt_base r)) \<and>
    (\<forall>r. res = Some r \<longrightarrow> r \<in> set (routes t ps) \<and> ip AND rt_mask r = rt_base r \<and>
      (\<forall>r'\<in>set (routes t ps). ip AND rt_mask r' = rt_base r' \<longrightarrow> rt_mask r' \<le> rt_mask r))"
proof -
  let ?P = "\<lambda>r. ip AND rt_mask r = rt_base r"
  have unl: "\<not> rt_lock t" and rep: "repr (rt_routes t) ps" and srt: "sorted_wrt before (routes t ps)"
    using assms(1) by (auto simp: table_ok_def)
  obtain w where w: "list_for_each ?P (rt_routes t) = Inr w" "w = None \<longleftrightarrow> (\<forall>d\<in>set (routes t ps). \<not> ?P d)"
    and hit: "\<And>p. w = Some p \<Longrightarrow> routes t [p] = [the (find ?P (routes t ps))]"
    using kl.search_found [OF rep, of ?P] by auto
  show ?thesis
  proof (cases w)
    case None
    then show ?thesis using w unl by (simp add: route_find_def)
  next
    case (Some p)
    have loaded: "\<exists>c. l_mem (rt_routes t) p = Some c"
      using kl.search_first [OF rep, of ?P] w(1) Some seg_mapped [of "l_mem (rt_routes t)" None ps None p] rep
      by (auto simp: repr_def)
    then obtain c where c: "l_mem (rt_routes t) p = Some c" by blast
    obtain r where r: "find ?P (routes t ps) = Some r"
      using w(2) Some by (cases "find ?P (routes t ps)") (auto simp: find_None_iff)
    have "ldata c = r" using hit [OF Some] c r by (simp add: items_def)
    then have run: "route_find ip t = Inr (Some r)" using w(1) Some unl c by (simp add: route_find_def)
    have rin: "r \<in> set (routes t ps)" "?P r" using r by (auto simp: find_Some_iff)
    have "rt_mask r' \<le> rt_mask r" if "r' \<in> set (routes t ps)" "?P r'" for r'
    proof (rule ccontr)
      assume "\<not> rt_mask r' \<le> rt_mask r"
      then have "before r' r" and "r' \<noteq> r" using longer_match_first [of r r'] assms(2) rin that by auto
      with find_sorted [OF srt r that(1,2)] show False using before_asym by blast
    qed
    with run rin w(2) Some show ?thesis by auto
  qed
qed

definition sample_table :: route_table where
  "sample_table = \<lparr>rt_routes = \<lparr>l_head = Some 1, l_tail = Some 2, num_items = 2,
     l_mem = [1 \<mapsto> \<lparr>prev = None, next_ptr = Some 2,
                ldata = \<lparr>rt_base = 0x0A000000, rt_mask = 0xFF000000, rt_gateway = 0, rt_netif = 0\<rparr>\<rparr>,
              2 \<mapsto> \<lparr>prev = Some 1, next_ptr = None,
                ldata = \<lparr>rt_base = 0, rt_mask = 0, rt_gateway = 0x0A000001, rt_netif = 0\<rparr>\<rparr>]\<rparr>, rt_lock = False\<rparr>"

lemma sample_table_ok: "table_ok sample_table [1, 2]"
  by (simp add: table_ok_def sample_table_def repr_def seg_Cons items_def before_def)

lemma prefix_mask_samples: "prefix_mask 0xFF000000" "prefix_mask 0"
proof -
  have "(0xFF000000 :: u32) = NOT (mask 24)" "(0 :: u32) = NOT (mask 32)" by (simp_all add: mask_eq_exp_minus_1)
  moreover have "(24 :: nat) \<le> 32" "(32 :: nat) \<le> 32" by simp_all
  ultimately show "prefix_mask 0xFF000000" "prefix_mask 0" unfolding prefix_mask_def by blast+
qed

lemma route_find_longest_prefix_witness:
  "\<exists>res. route_find 0x0A000203 sample_table = Inr res \<and>
    (res = None \<longleftrightarrow> (\<forall>r\<in>set (routes sample_table [1, 2]). 0x0A000203 AND rt_mask r \<noteq> rt_base r))"
proof -
  have m: "\<forall>r\<in>set (routes sample_table [1, 2]). prefix_mask (rt_mask r)"
    using prefix_mask_samples by (simp add: sample_table_def items_def)
  from route_find_longest_prefix [OF sample_table_ok m, of "0x0A000203"] show ?thesis by blast
qed

text \<open>
  \<open>route_add\<close> (\<open>route.c\<close>) keeps the table sorted: it refuses a destination and mask that are already
  there and changes nothing, and otherwise adds exactly the new route, with its base masked, and
  leaves a table that is again in strictly descending order.
\<close>

theorem route_add_keeps_order:
  assumes "table_ok t ps" and "l_mem (rt_routes t) a = None" and "length ps + 1 < 2 ^ 32"
  shows "if \<exists>x\<in>set (routes t ps). rt_base x = base AND msk \<and> rt_mask x = msk
    then route_add True (Some a) base msk gw nif t = Inr (- 1, t)
    else \<exists>t' ps'. route_add True (Some a) base msk gw nif t = Inr (0, t') \<and> table_ok t' ps' \<and>
      set (routes t' ps') =
        insert \<lparr>rt_base = base AND msk, rt_mask = msk, rt_gateway = gw, rt_netif = nif\<rparr> (set (routes t ps))"
proof (cases "\<exists>x\<in>set (routes t ps). rt_base x = base AND msk \<and> rt_mask x = msk")
  case True
  then show ?thesis using route_exists_spec [OF assms(1), of "base AND msk" msk] by (simp add: route_add_def)
next
  case False
  show ?thesis unfolding if_not_P [OF False] by (rule route_add_spec [OF assms refl False])
qed

lemma route_add_keeps_order_witness:
  "\<exists>t' ps'. route_add True (Some 3) 0x0A000203 0xFFFFFF00 0 0 sample_table = Inr (0, t') \<and> table_ok t' ps'"
proof -
  have "l_mem (rt_routes sample_table) 3 = None" "length [1, 2 :: nat] + 1 < 2 ^ 32"
    by (simp_all add: sample_table_def)
  moreover have new: "\<not> (\<exists>x\<in>set (routes sample_table [1, 2]). rt_base x = 0x0A000203 AND 0xFFFFFF00 \<and> rt_mask x = 0xFFFFFF00)"
    by (simp add: sample_table_def items_def)
  ultimately show ?thesis
    using route_add_keeps_order [OF sample_table_ok, of 3 "0x0A000203" "0xFFFFFF00" 0 0, unfolded if_not_P [OF new]] by blast
qed

text \<open>
  \<open>route_del\<close> (\<open>route.c\<close>) never returns for a route of the table: it holds the table's lock while
  \<open>list_del\<close> calls the list's free function, which is \<open>route_del\<close> itself and spins on that lock.
\<close>

theorem route_del_deadlocks:
  assumes "table_ok t (xs @ p # ys)"
  shows "route_del (Suc (Suc depth)) p t = Inl Deadlock"
proof -
  have unl: "\<not> rt_lock t" and rep: "repr (rt_routes t) (xs @ p # ys)" using assms by (auto simp: table_ok_def)
  obtain l' where "list_del None p (rt_routes t) = Inr l'" using delete_middle [OF rep, of None] by blast
  from list_del_callback [OF this] show ?thesis using unl by (simp add: Let_def)
qed

lemma route_del_deadlocks_witness: "route_del 2 1 sample_table = Inl Deadlock"
  using route_del_deadlocks [of sample_table "[]" 1 "[2]" 0] sample_table_ok by (simp add: numeral_2_eq_2)

end
