(* ===== verification/Task.thy ===== *)
theory Task
  imports Klist
begin

text \<open>
  Tasks and the scheduler (\<open>task.c\<close>). A task is an object in memory, named by its address, with a
  pointer to the next one; \<open>task_queue\<close> points to the first, \<open>current_task\<close> to the one that runs. The
  loops over the queue follow these pointers. Every task gets its own \<open>pid\<close> from the counter
  \<open>next_pid\<close>, so \<open>next_pid\<close> bounds their number and is the fuel of the loops; a loop that exceeds it
  (a queue that is not a chain) is a fault.

  A system call that sleeps ends, for the model, when another task has been chosen to run. What
  the register switch in assembler does, the page directories and the table of files of a task
  are not part of this theory; \<open>release\<close>, an argument of the operations that destroy a task, stands
  for giving these back and either returns or stops the kernel.
\<close>

datatype task_state = TASK_CREATING | TASK_RUNNING | TASK_AWAKEN | TASK_SLEEPING | TASK_EXITING

record task =
  t_pid :: int
  t_ppid :: int
  t_next :: "nat option"
  t_uid :: u32
  t_state :: task_state
  t_sleep_addr :: nat
  t_exit_status :: int
  t_wait_queue :: "nat klist"
  t_sig_handlers :: "u32 list"
  t_is_thread :: bool
  t_sid :: int
  t_pgrp :: int
  t_leads :: bool
  t_tty :: int
  t_sleep_end_tick :: u32

record signal_rec =
  s_signum :: u32
  s_pid :: int

record sched =
  tasks :: "nat \<Rightarrow> task option"
  task_queue :: "nat option"
  current_task :: nat
  sigs_queue :: "signal_rec klist"
  next_pid :: int
  switch_locked :: bool
  timer_ticks :: u32

definition NUM_SIGS :: nat where "NUM_SIGS = 32"
definition SIG_DFL :: u32 where "SIG_DFL = 0"
definition SIG_IGN :: u32 where "SIG_IGN = 1"
definition SIG_ERR :: u32 where "SIG_ERR = - 1"
definition SIGKILL :: int where "SIGKILL = 9"
definition SIGSTOP :: int where "SIGSTOP = 19"
definition MS_PER_TICK :: u32 where "MS_PER_TICK = 10"

definition tget :: "nat \<Rightarrow> sched \<Rightarrow> task kres" where
  "tget p s = (case tasks s p of None \<Rightarrow> Inl Fault | Some t \<Rightarrow> Inr t)"

definition tset :: "nat \<Rightarrow> task \<Rightarrow> sched \<Rightarrow> sched" where
  "tset p t s = s\<lparr>tasks := (tasks s)(p := Some t)\<rparr>"

definition qfuel :: "sched \<Rightarrow> nat" where
  "qfuel s = nat (next_pid s)"

section \<open>Creating and finding tasks\<close>

definition set_default_signals :: "u32 list" where
  "set_default_signals = replicate NUM_SIGS SIG_DFL"

text \<open>\<open>calloc\<close> returns a zeroed object at the address \<open>p\<close>; without memory the stores to it fault.\<close>

definition task_new :: "nat option \<Rightarrow> sched \<Rightarrow> (nat \<times> sched) kres" where
  "task_new a s = (case a of None \<Rightarrow> Inl Fault
    | Some p \<Rightarrow> Inr (p, (tset p \<lparr>t_pid = next_pid s, t_ppid = 0, t_next = None, t_uid = 0, t_state = TASK_CREATING,
        t_sleep_addr = 0, t_exit_status = 0, t_wait_queue = list_open, t_sig_handlers = set_default_signals,
        t_is_thread = False, t_sid = 0, t_pgrp = 0, t_leads = False, t_tty = 0, t_sleep_end_tick = 0\<rparr> s)
          \<lparr>next_pid := next_pid s + 1\<rparr>))"

definition getpid :: "sched \<Rightarrow> int kres" where
  "getpid s = bnd (tget (current_task s) s) (\<lambda>t. Inr (t_pid t))"

fun find_task :: "nat \<Rightarrow> (task \<Rightarrow> bool) \<Rightarrow> nat option \<Rightarrow> sched \<Rightarrow> nat option kres" where
  "find_task fuel P None s = Inr None"
| "find_task 0 P (Some p) s = Inl Fault"
| "find_task (Suc fuel) P (Some p) s =
     bnd (tget p s) (\<lambda>t. if P t then Inr (Some p) else find_task fuel P (t_next t) s)"

definition get_task_by_pid :: "int \<Rightarrow> sched \<Rightarrow> nat option kres" where
  "get_task_by_pid pid s = find_task (qfuel s) (\<lambda>t. t_pid t = pid) (task_queue s) s"

definition get_last_task :: "sched \<Rightarrow> (nat \<times> sched) kres" where
  "get_last_task s = (case task_queue s of None \<Rightarrow> Inl Fault
    | Some q \<Rightarrow> bnd (find_task (qfuel s) (\<lambda>t. t_next t = None) (Some q) s) (\<lambda>r.
        case r of None \<Rightarrow> Inl Fault | Some p \<Rightarrow> Inr (p, s\<lparr>switch_locked := False\<rparr>)))"

section \<open>The scheduler\<close>

definition wake_check :: "u32 \<Rightarrow> task \<Rightarrow> int \<times> task" where
  "wake_check ticks t =
     (if t_state t = TASK_SLEEPING \<and> t_sleep_end_tick t > 0 then
        if t_sleep_end_tick t < ticks then (0, t\<lparr>t_state := TASK_RUNNING, t_sleep_end_tick := 0\<rparr>) else (- 1, t)
      else (- 1, t))"

text \<open>One of the two loops: the first task from \<open>p\<close> on that can run.\<close>

fun pick :: "nat \<Rightarrow> nat option \<Rightarrow> sched \<Rightarrow> (nat option \<times> sched) kres" where
  "pick fuel None s = Inr (None, s)"
| "pick 0 (Some p) s = Inl Fault"
| "pick (Suc fuel) (Some p) s =
     bnd (tget p s) (\<lambda>t.
     let t = snd (wake_check (timer_ticks s) t); s = tset p t s in
     if t_state t = TASK_RUNNING \<or> t_state t = TASK_AWAKEN then Inr (Some p, s) else pick fuel (t_next t) s)"

definition task_switch_inner :: "sched \<Rightarrow> sched kres" where
  "task_switch_inner s =
     (if switch_locked s then Inr s
      else
        bnd (tget (current_task s) s) (\<lambda>c.
        bnd (pick (qfuel s) (t_next c) s) (\<lambda>(n, s).
        bnd (if n = None then pick (qfuel s) (task_queue s) s else Inr (n, s)) (\<lambda>(n, s).
        case n of
          None \<Rightarrow> Inl (Panic ''All threads sleeping, even idle'')
        | Some p \<Rightarrow> Inr (s\<lparr>current_task := p\<rparr>)))))"

definition sleep_on :: "nat \<Rightarrow> sched \<Rightarrow> sched kres" where
  "sleep_on addr s =
     bnd (tget (current_task s) s) (\<lambda>c.
     task_switch_inner ((tset (current_task s) (c\<lparr>t_state := TASK_SLEEPING, t_sleep_addr := addr\<rparr>) s)
       \<lparr>switch_locked := False\<rparr>))"

definition sleep_onms :: "nat \<Rightarrow> u32 \<Rightarrow> sched \<Rightarrow> sched kres" where
  "sleep_onms addr ms s =
     (let ticks = ms div MS_PER_TICK + (if ms mod MS_PER_TICK \<noteq> 0 then 1 else 0) in
      bnd (tget (current_task s) s) (\<lambda>c.
      sleep_on addr (tset (current_task s) (c\<lparr>t_sleep_end_tick := timer_ticks s + ticks\<rparr>) s)))"

fun wakeup_loop :: "nat \<Rightarrow> nat \<Rightarrow> nat option \<Rightarrow> int \<Rightarrow> sched \<Rightarrow> (int \<times> sched) kres" where
  "wakeup_loop fuel addr None cnt s = Inr (cnt, s)"
| "wakeup_loop 0 addr (Some p) cnt s = Inl Fault"
| "wakeup_loop (Suc fuel) addr (Some p) cnt s =
     bnd (tget p s) (\<lambda>t.
     if t_state t = TASK_SLEEPING \<and> t_sleep_addr t = addr
     then wakeup_loop fuel addr (t_next t) (cnt + 1)
       (tset p (t\<lparr>t_state := TASK_RUNNING, t_sleep_addr := 0, t_sleep_end_tick := 0\<rparr>) s)
     else wakeup_loop fuel addr (t_next t) cnt s)"

definition wakeup :: "nat \<Rightarrow> sched \<Rightarrow> (int \<times> sched) kres" where
  "wakeup addr s =
     bnd (wakeup_loop (qfuel s) addr (task_queue s) 0 s) (\<lambda>(cnt, s). Inr (cnt, s\<lparr>switch_locked := False\<rparr>))"

section \<open>Exit and wait\<close>

text \<open>The address of the member \<open>wait_queue\<close> of a task, on which its parent sleeps (\<open>&t->wait_queue\<close>).\<close>

definition wait_addr :: "nat \<Rightarrow> nat" where
  "wait_addr p = p + 56"

definition task_free :: "(task \<Rightarrow> unit kres) \<Rightarrow> nat option \<Rightarrow> sched \<Rightarrow> sched kres" where
  "task_free release a s =
     kassert (a \<noteq> None) ''task''
      (bnd (tget (the a) s) (\<lambda>t.
       kassert (t_state t = TASK_EXITING) ''task->state == TASK_EXITING''
       (kassert (num_items (t_wait_queue t) = 0) ''task->wait_queue->num_items == 0''
       (kassert (\<not> t_is_thread t) ''task->is_thread == 0''
        (bnd (list_close None (t_wait_queue t)) (\<lambda>_.
         bnd (release t) (\<lambda>_. Inr (s\<lparr>tasks := (tasks s)(the a := None), switch_locked := False\<rparr>))))))))"

definition thread_free :: "(task \<Rightarrow> unit kres) \<Rightarrow> nat \<Rightarrow> sched \<Rightarrow> sched kres" where
  "thread_free release p s =
     bnd (tget p s) (\<lambda>t.
     bnd (list_close None (t_wait_queue t)) (\<lambda>_.
     bnd (release t) (\<lambda>_. Inr (s\<lparr>tasks := (tasks s)(p := None), switch_locked := False\<rparr>))))"

definition free_child :: "(task \<Rightarrow> unit kres) \<Rightarrow> nat \<Rightarrow> sched \<Rightarrow> sched kres" where
  "free_child release p s =
     bnd (tget p s) (\<lambda>t. if t_is_thread t then thread_free release p s else task_free release (Some p) s)"

text \<open>
  \<open>task_wait\<close> returns at once or puts the caller to sleep; \<open>task_wait_end\<close> is its second half, which
  runs when there is something in the wait queue or after the sleep. The result is the pid and
  the exit status of the child (\<open>-1\<close>: no children, \<open>-2\<close>: woken up without one).
\<close>

datatype wait_result = Waited int "int option" | Sleeps

definition task_wait_end :: "(task \<Rightarrow> unit kres) \<Rightarrow> sched \<Rightarrow> (wait_result \<times> sched) kres" where
  "task_wait_end release s =
     bnd (tget (current_task s) s) (\<lambda>c.
     if num_items (t_wait_queue c) = 0 then Inr (Waited (- 2) None, s\<lparr>switch_locked := False\<rparr>)
     else case l_head (t_wait_queue c) of
       None \<Rightarrow> Inl Fault
     | Some n \<Rightarrow>
         bnd (load n (t_wait_queue c)) (\<lambda>nod.
         bnd (tget (ldata nod) s) (\<lambda>t.
         bnd (list_del None n (t_wait_queue c)) (\<lambda>wq.
         bnd (free_child release (ldata nod) (tset (current_task s) (c\<lparr>t_wait_queue := wq\<rparr>) s)) (\<lambda>s.
         Inr (Waited (t_pid t) (Some (t_exit_status t)), s\<lparr>switch_locked := False\<rparr>))))))"

definition task_wait :: "(task \<Rightarrow> unit kres) \<Rightarrow> sched \<Rightarrow> (wait_result \<times> sched) kres" where
  "task_wait release s =
     bnd (tget (current_task s) s) (\<lambda>c.
     if num_items (t_wait_queue c) = 0 then
       bnd (find_task (qfuel s) (\<lambda>t. t_ppid t = t_pid c) (task_queue s) s) (\<lambda>r.
       if r = None then Inr (Waited (- 1) None, s\<lparr>switch_locked := False\<rparr>)
       else bnd (sleep_on (wait_addr (current_task s)) s) (\<lambda>s. Inr (Sleeps, s)))
     else task_wait_end release s)"

text \<open>
  The first loop of \<open>task_exit\<close>: look for the parent, give the children to \<open>init\<close>, unlink the task from
  the queue. \<open>par\<close> is the local variable \<open>parent\<close>, which has no initial value in the code.
\<close>

fun exit_scan :: "nat \<Rightarrow> task \<Rightarrow> nat option \<Rightarrow> nat option \<Rightarrow> sched \<Rightarrow> (nat option \<times> sched) kres" where
  "exit_scan fuel c None par s = Inr (par, s)"
| "exit_scan 0 c (Some p) par s = Inl Fault"
| "exit_scan (Suc fuel) c (Some p) par s =
     bnd (tget p s) (\<lambda>t.
     let par = (if t_pid t = t_ppid c then Some p else par);
         t = (if t_pid c = t_ppid t then t\<lparr>t_ppid := 1\<rparr> else t);
         t = (if t_next t = Some (current_task s) then t\<lparr>t_next := t_next c\<rparr> else t) in
     exit_scan fuel c (t_next t) par (tset p t s))"

text \<open>
  The loops over the task's wait queue and over the signals: \<open>list_del\<close> frees the node, and the
  loop then reads its \<open>next\<close>.
\<close>

fun exit_children :: "nat \<Rightarrow> (task \<Rightarrow> unit kres) \<Rightarrow> nat option \<Rightarrow> sched \<Rightarrow> sched kres" where
  "exit_children fuel release None s = Inr s"
| "exit_children 0 release (Some n) s = Inl Fault"
| "exit_children (Suc fuel) release (Some n) s =
     bnd (tget (current_task s) s) (\<lambda>c.
     bnd (load n (t_wait_queue c)) (\<lambda>nod.
     bnd (free_child release (ldata nod) s) (\<lambda>s.
     bnd (list_del None n (t_wait_queue c)) (\<lambda>wq.
     bnd (load n wq) (\<lambda>nod. exit_children fuel release (next_ptr nod)
       (tset (current_task s) (c\<lparr>t_wait_queue := wq\<rparr>) s))))))"

fun exit_signals :: "nat \<Rightarrow> int \<Rightarrow> nat option \<Rightarrow> sched \<Rightarrow> sched kres" where
  "exit_signals fuel pid None s = Inr s"
| "exit_signals 0 pid (Some n) s = Inl Fault"
| "exit_signals (Suc fuel) pid (Some n) s =
     bnd (load n (sigs_queue s)) (\<lambda>nod.
     bnd (if s_pid (ldata nod) = pid
          then bnd (list_del None n (sigs_queue s)) (\<lambda>q. Inr (s\<lparr>sigs_queue := q\<rparr>)) else Inr s) (\<lambda>s.
     bnd (load n (sigs_queue s)) (\<lambda>nod. exit_signals fuel pid (next_ptr nod) s)))"

definition task_exit :: "(task \<Rightarrow> unit kres) \<Rightarrow> nat option \<Rightarrow> nat option \<Rightarrow> int \<Rightarrow> sched \<Rightarrow> sched kres" where
  "task_exit release parent0 a status s =
     bnd (tget (current_task s) s) (\<lambda>c.
     if t_pid c = 1 then Inr (s\<lparr>switch_locked := True\<rparr>)
     else
       bnd (exit_scan (qfuel s) c (task_queue s) parent0 (s\<lparr>switch_locked := True\<rparr>)) (\<lambda>(par, s).
       bnd (exit_children (unat (num_items (t_wait_queue c))) release (l_head (t_wait_queue c)) s) (\<lambda>s.
       bnd (exit_signals (unat (num_items (sigs_queue s))) (t_pid c) (l_head (sigs_queue s)) s) (\<lambda>s.
       bnd (if par = None then get_task_by_pid 1 s else Inr par) (\<lambda>par.
       case par of None \<Rightarrow> Inl Fault
       | Some pp \<Rightarrow>
           bnd (tget (current_task s) s) (\<lambda>c.
           let s = tset (current_task s) (c\<lparr>t_exit_status := status, t_state := TASK_EXITING\<rparr>) s in
           bnd (tget pp s) (\<lambda>pt.
           bnd (list_add a (current_task s) (t_wait_queue pt)) (\<lambda>(_, wq).
           let s = tset pp (pt\<lparr>t_wait_queue := wq\<rparr>) s in
           bnd (if \<not> t_is_thread c then wakeup (wait_addr pp) s else Inr (0, s)) (\<lambda>(_, s).
           task_switch_inner (s\<lparr>switch_locked := False\<rparr>)))))))))) "

section \<open>Signals\<close>

definition signal :: "int \<Rightarrow> u32 \<Rightarrow> sched \<Rightarrow> (u32 \<times> sched) kres" where
  "signal signum handler s =
     bnd (tget (current_task s) s) (\<lambda>c.
     if signum < int NUM_SIGS \<and> signum \<noteq> SIGKILL \<and> signum \<noteq> SIGSTOP then
       if signum < 0 then Inl Fault
       else
         bnd (aget (t_sig_handlers c) (nat signum)) (\<lambda>old.
         bnd (aset (t_sig_handlers c) (nat signum) handler) (\<lambda>hs.
         Inr (old, tset (current_task s) (c\<lparr>t_sig_handlers := hs\<rparr>) s)))
     else Inr (SIG_ERR, s))"

text \<open>\<open>mem\<close>: whether \<open>malloc\<close> finds memory for the signal; \<open>a\<close>: the node of the queue.\<close>

definition kill :: "bool \<Rightarrow> nat option \<Rightarrow> int \<Rightarrow> u32 \<Rightarrow> sched \<Rightarrow> (int \<times> sched) kres" where
  "kill mem a pid signum s =
     bnd (get_task_by_pid pid s) (\<lambda>t.
     if t = None then Inr (- 1, s)
     else if \<not> mem then Inr (- 1, s)
     else bnd (list_add a \<lparr>s_signum = signum, s_pid = pid\<rparr> (sigs_queue s)) (\<lambda>(_, q).
       Inr (0, s\<lparr>sigs_queue := q\<rparr>)))"

text \<open>
  The default actions, the array \<open>sig_default\<close> of function pointers: an entry without an initialiser
  is NULL. Terminating does not come back, the others only print.
\<close>

datatype sig_action = Terminate | Coredump | Stop | Continue

definition sig_default :: "nat \<Rightarrow> sig_action option" where
  "sig_default n = map_of [(1, Terminate), (2, Terminate), (3, Coredump), (4, Coredump), (6, Coredump),
     (8, Coredump), (9, Terminate), (11, Coredump), (15, Terminate), (18, Continue), (19, Stop), (20, Stop)] n"

text \<open>
  \<open>process_signals\<close> until it returns or leaves the loop for good: to end the current task with a
  status, or to enter the handler of the process in user mode.
\<close>

datatype sig_outcome = Done | Exits int | Enters u32 u32

fun process_loop :: "nat \<Rightarrow> nat option \<Rightarrow> sched \<Rightarrow> (sig_outcome \<times> sched) kres" where
  "process_loop fuel None s = Inr (Done, s)"
| "process_loop 0 (Some n) s = Inl Fault"
| "process_loop (Suc fuel) (Some n) s =
     bnd (load n (sigs_queue s)) (\<lambda>nod.
     bnd (tget (current_task s) s) (\<lambda>c.
     let sig = ldata nod in
     if t_pid c \<noteq> s_pid sig then
       bnd (get_task_by_pid (s_pid sig) s) (\<lambda>r. case r of
         None \<Rightarrow> Inl Fault
       | Some p \<Rightarrow>
           bnd (tget p s) (\<lambda>t.
           process_loop fuel (next_ptr nod)
             (if t_state t = TASK_SLEEPING then tset p (t\<lparr>t_state := TASK_AWAKEN\<rparr>) s else s)))
     else
       bnd (list_del None n (sigs_queue s)) (\<lambda>q.
       let s = s\<lparr>sigs_queue := q\<rparr> in
       bnd (aget (t_sig_handlers c) (unat (s_signum sig))) (\<lambda>handler.
       if handler = SIG_DFL then (case sig_default (unat (s_signum sig)) of
           None \<Rightarrow> Inl Fault
         | Some act \<Rightarrow>
             if act = Terminate \<or> act = Coredump then Inr (Exits (128 + int (unat (s_signum sig))), s)
             else bnd (load n q) (\<lambda>nod. process_loop fuel (next_ptr nod) s))
       else if handler \<noteq> SIG_IGN then Inr (Enters handler (s_signum sig), s)
       else bnd (load n q) (\<lambda>nod. process_loop fuel (next_ptr nod) s)))))"

definition process_signals :: "sched \<Rightarrow> (sig_outcome \<times> sched) kres" where
  "process_signals s = process_loop (unat (num_items (sigs_queue s))) (l_head (sigs_queue s)) s"

section \<open>Process system calls\<close>

definition sys_kill :: "bool \<Rightarrow> nat option \<Rightarrow> int \<Rightarrow> u32 \<Rightarrow> sched \<Rightarrow> (int \<times> sched) kres" where
  "sys_kill mem a pid signum s = kill mem a pid signum s"

definition sys_signal :: "int \<Rightarrow> u32 \<Rightarrow> sched \<Rightarrow> (u32 \<times> sched) kres" where
  "sys_signal signum handler s = signal signum handler s"

definition sys_setsid :: "sched \<Rightarrow> (int \<times> sched) kres" where
  "sys_setsid s =
     bnd (tget (current_task s) s) (\<lambda>c.
     if t_uid c \<noteq> 0 then Inr (- 1, s)
     else if t_leads c then Inr (- 1, s)
     else Inr (t_pid c,
       tset (current_task s) (c\<lparr>t_leads := True, t_sid := t_pid c, t_pgrp := t_pid c, t_tty := - 1\<rparr>) s))"

section \<open>The queue as a list\<close>

fun chain :: "sched \<Rightarrow> nat option \<Rightarrow> nat list \<Rightarrow> bool" where
  "chain s p [] \<longleftrightarrow> p = None"
| "chain s p (q # qs) \<longleftrightarrow> p = Some q \<and> (\<exists>t. tasks s q = Some t \<and> chain s (t_next t) qs)"

definition woken :: "sched \<Rightarrow> nat \<Rightarrow> task" where
  "woken s p = snd (wake_check (timer_ticks s) (the (tasks s p)))"

text \<open>A task can run if it is running or awake, or its sleep is over.\<close>

definition ready :: "sched \<Rightarrow> nat \<Rightarrow> bool" where
  "ready s p \<longleftrightarrow> t_state (woken s p) = TASK_RUNNING \<or> t_state (woken s p) = TASK_AWAKEN"

lemma tget_Some [simp]: "tasks s p = Some t \<Longrightarrow> tget p s = Inr t"
  by (simp add: tget_def)

lemma wake_next [simp]: "t_next (snd (wake_check n t)) = t_next t"
  by (simp add: wake_check_def)

lemma not_ready_same: "tasks s p = Some t \<Longrightarrow> \<not> ready s p \<Longrightarrow> snd (wake_check (timer_ticks s) t) = t"
  by (cases "t_state t = TASK_SLEEPING \<and> t_sleep_end_tick t > 0 \<and> t_sleep_end_tick t < timer_ticks s")
    (simp_all add: ready_def woken_def wake_check_def)

lemma tset_same: "tasks s p = Some t \<Longrightarrow> tset p t s = s"
  by (simp add: tset_def fun_upd_idem)

text \<open>
  A pass over the queue leaves every task alone except the one it picks: a sleeper whose time is
  over is running from then on.
\<close>

lemma pick_spec:
  assumes "chain s p ps" and "length ps \<le> fuel"
  shows "pick fuel p s = (case find (ready s) ps of None \<Rightarrow> Inr (None, s) | Some q \<Rightarrow> Inr (Some q, tset q (woken s q) s))"
  using assms
proof (induction ps arbitrary: p fuel)
  case (Cons q qs)
  then obtain t n where t: "p = Some q" "tasks s q = Some t" "chain s (t_next t) qs" and n: "fuel = Suc n" "length qs \<le> n"
    by (cases fuel) auto
  show ?case
  proof (cases "ready s q")
    case True
    then show ?thesis using t n by (simp add: ready_def woken_def)
  next
    case False
    then have "snd (wake_check (timer_ticks s) t) = t" using not_ready_same t(2) by blast
    moreover have "\<not> (t_state t = TASK_RUNNING \<or> t_state t = TASK_AWAKEN)"
      using False t(2) calculation by (simp add: ready_def woken_def)
    ultimately show ?thesis using False t n Cons.IH [OF t(3) n(2)] by (simp add: tset_same)
  qed
qed simp

lemma chain_tset:
  assumes "tasks s q = Some t" and "t_next t' = t_next t"
  shows "chain (tset q t' s) p ps = chain s p ps"
  using assms by (induction ps arbitrary: p) (auto simp: tset_def)

lemma chain_current [simp]: "chain (s\<lparr>current_task := c\<rparr>) p ps = chain s p ps"
  by (induction ps arbitrary: p) auto

lemma chain_mapped: "chain s p ps \<Longrightarrow> q \<in> set ps \<Longrightarrow> \<exists>t. tasks s q = Some t"
  by (induction ps arbitrary: p) auto

lemma find_append: "find P (xs @ ys) = (case find P xs of None \<Rightarrow> find P ys | Some x \<Rightarrow> Some x)"
  by (induction xs) auto

definition switched :: "nat \<Rightarrow> sched \<Rightarrow> sched" where
  "switched q s = (tset q (woken s q) s)\<lparr>current_task := q\<rparr>"

lemma switch_spec:
  assumes "\<not> switch_locked s" and "tasks s (current_task s) = Some c" and "chain s (t_next c) rest"
    and "chain s (task_queue s) ps" and "length rest \<le> qfuel s" and "length ps \<le> qfuel s"
  shows "task_switch_inner s = (case find (ready s) (rest @ ps) of
      None \<Rightarrow> Inl (Panic ''All threads sleeping, even idle'') | Some q \<Rightarrow> Inr (switched q s))"
proof -
  note p1 = pick_spec [OF assms(3,5)] and p2 = pick_spec [OF assms(4,6)]
  have run: "task_switch_inner s = bnd (pick (qfuel s) (t_next c) s) (\<lambda>(n, s).
        bnd (if n = None then pick (qfuel s) (task_queue s) s else Inr (n, s)) (\<lambda>(n, s). case n of
          None \<Rightarrow> Inl (Panic ''All threads sleeping, even idle'') | Some p \<Rightarrow> Inr (s\<lparr>current_task := p\<rparr>)))"
    unfolding task_switch_inner_def using assms(1,2) by simp
  show ?thesis
  proof (cases "find (ready s) rest")
    case None
    then show ?thesis
      unfolding run p1 find_append using p2 by (cases "find (ready s) ps") (simp_all add: switched_def)
  next
    case (Some q)
    then show ?thesis unfolding run p1 find_append by (simp add: switched_def)
  qed
qed

lemma woken_idem: "wake_check n (snd (wake_check n t)) = (- 1, snd (wake_check n t))"
  by (auto simp: wake_check_def)

lemma switched_simps [simp]:
  "current_task (switched q s) = q" "task_queue (switched q s) = task_queue s"
  "switch_locked (switched q s) = switch_locked s" "next_pid (switched q s) = next_pid s"
  "timer_ticks (switched q s) = timer_ticks s" "qfuel (switched q s) = qfuel s"
  by (simp_all add: switched_def tset_def qfuel_def)

lemma switched_tasks: "tasks (switched q s) r = (if r = q then Some (woken s q) else tasks s r)"
  by (simp add: switched_def tset_def)

lemma ready_switched [simp]: "ready (switched q s) r = ready s r"
  by (simp add: ready_def woken_def switched_tasks woken_idem)

lemma chain_switched: "tasks s q = Some t \<Longrightarrow> chain (switched q s) p ps = chain s p ps"
  by (simp add: switched_def chain_tset woken_def)

section \<open>Every task that can run does run\<close>

fun switches :: "nat \<Rightarrow> sched \<Rightarrow> sched kres" where
  "switches 0 s = Inr s"
| "switches (Suc n) s = bnd (task_switch_inner s) (switches n)"

definition queue_ok :: "sched \<Rightarrow> nat list \<Rightarrow> bool" where
  "queue_ok s ps \<longleftrightarrow> \<not> switch_locked s \<and> chain s (task_queue s) ps \<and> length ps \<le> qfuel s"

lemma chain_nth:
  "chain s p ps \<Longrightarrow> i < length ps \<Longrightarrow> \<exists>t. tasks s (ps ! i) = Some t \<and> chain s (t_next t) (drop (Suc i) ps)"
  by (induction ps arbitrary: p i) (auto simp: nth_Cons' dest: gr0_implies_Suc)

lemma find_before:
  assumes "j < length xs" and "P (xs ! j)"
  shows "\<exists>i\<le>j. find P xs = Some (xs ! i) \<and> P (xs ! i)"
proof -
  obtain x where x: "find P xs = Some x" using assms by (cases "find P xs") (auto simp: find_None_iff)
  then obtain i where "i < length xs" "P (xs ! i)" "x = xs ! i" "\<forall>k<i. \<not> P (xs ! k)" by (auto simp: find_Some_iff)
  with x assms show ?thesis by (metis not_le)
qed

text \<open>The distance from position \<open>i\<close> to position \<open>j\<close>, going round a queue of length \<open>n\<close>.\<close>

definition ahead :: "nat \<Rightarrow> nat \<Rightarrow> nat \<Rightarrow> nat" where
  "ahead n i j = (if i < j then j - i else n - i + j)"

lemma next_pick:
  assumes "i < length ps" and "j < length ps" and "P (ps ! j)"
  shows "\<exists>m<length ps. find P (drop (Suc i) ps @ ps) = Some (ps ! m) \<and> P (ps ! m) \<and>
    (m = j \<or> ahead (length ps) m j < ahead (length ps) i j)"
proof (cases "find P (drop (Suc i) ps)")
  case None
  have "\<not> i < j"
  proof
    assume "i < j"
    then have "drop (Suc i) ps ! (j - Suc i) = ps ! j" "j - Suc i < length (drop (Suc i) ps)" using assms(2) by auto
    with None assms(3) show False by (auto simp: find_None_iff set_conv_nth)
  qed
  moreover obtain m where "m \<le> j" "find P ps = Some (ps ! m)" "P (ps ! m)" using find_before [where P = P, OF assms(2,3)] by blast
  ultimately show ?thesis using None assms
    by (intro exI [of _ m]) (auto simp: find_append ahead_def)
next
  case (Some x)
  then obtain k where k: "k < length (drop (Suc i) ps)" "P (drop (Suc i) ps ! k)" "x = drop (Suc i) ps ! k"
    "\<forall>l<k. \<not> P (drop (Suc i) ps ! l)" by (auto simp: find_Some_iff)
  let ?m = "Suc i + k"
  have "\<not> (j < ?m \<and> i < j)"
  proof
    assume "j < ?m \<and> i < j"
    then have "j - Suc i < k" "drop (Suc i) ps ! (j - Suc i) = ps ! j" using assms(2) by (auto simp: nth_drop)
    with k(4) assms(3) show False by auto
  qed
  with k Some assms show ?thesis
    by (intro exI [of _ ?m]) (auto simp: find_append ahead_def)
qed

lemma switch_reaches:
  assumes "queue_ok s ps" and "i < length ps" and "current_task s = ps ! i" and "j < length ps" and "ready s (ps ! j)"
  shows "\<exists>k s'. k \<le> ahead (length ps) i j \<and> 0 < k \<and> switches k s = Inr s' \<and> current_task s' = ps ! j"
  using assms
proof (induction "ahead (length ps) i j" arbitrary: s i rule: less_induct)
  case less
  have q: "\<not> switch_locked s" "chain s (task_queue s) ps" "length ps \<le> qfuel s"
    using less.prems(1) by (auto simp: queue_ok_def)
  obtain c where c: "tasks s (ps ! i) = Some c" "chain s (t_next c) (drop (Suc i) ps)"
    using chain_nth [OF q(2) less.prems(2)] by blast
  obtain m where m: "m < length ps" "find (ready s) (drop (Suc i) ps @ ps) = Some (ps ! m)" "ready s (ps ! m)"
    and near: "m = j \<or> ahead (length ps) m j < ahead (length ps) i j"
    using next_pick [where P = "ready s", OF less.prems(2,4,5)] by blast
  let ?s = "switched (ps ! m) s"
  have step: "task_switch_inner s = Inr ?s"
    using switch_spec [OF q(1), of c "drop (Suc i) ps" ps] c q less.prems(3) m(2) by simp
  have pos: "0 < ahead (length ps) i j" using less.prems(2) by (auto simp: ahead_def)
  show ?case
  proof (cases "m = j")
    case True
    then have "Suc 0 \<le> ahead (length ps) i j \<and> 0 < Suc 0 \<and> switches (Suc 0) s = Inr ?s \<and> current_task ?s = ps ! j"
      using step pos by simp
    then show ?thesis by blast
  next
    case False
    then have closer: "ahead (length ps) m j < ahead (length ps) i j" using near by simp
    obtain tm where "tasks s (ps ! m) = Some tm" using chain_nth [OF q(2) m(1)] by blast
    then have ok: "queue_ok ?s ps" using q by (simp add: queue_ok_def chain_switched)
    have "ready ?s (ps ! j)" using less.prems(5) by simp
    from less.hyps [OF closer ok m(1) _ less.prems(4) this]
    obtain k s' where "k \<le> ahead (length ps) m j" "0 < k" "switches k ?s = Inr s'" "current_task s' = ps ! j" by auto
    with step closer have "Suc k \<le> ahead (length ps) i j \<and> 0 < Suc k \<and> switches (Suc k) s = Inr s' \<and> current_task s' = ps ! j"
      by simp
    then show ?thesis by blast
  qed
qed

section \<open>Properties\<close>

text \<open>
  C14. The scheduler (\<open>task_switch_inner\<close> in \<open>task.c\<close>) starves no task: while the states of the tasks
  do not change otherwise, a task of the queue that can run (it is running or awake, or the end
  of its sleep has passed) becomes the current task after at most as many switches as the queue
  has tasks, whichever task runs now.
\<close>

theorem scheduler_no_starvation:
  assumes "queue_ok s ps" and "current_task s \<in> set ps" and "p \<in> set ps" and "ready s p"
  shows "\<exists>k s'. 0 < k \<and> k \<le> length ps \<and> switches k s = Inr s' \<and> current_task s' = p"
proof -
  obtain i j where ij: "i < length ps" "current_task s = ps ! i" "j < length ps" "p = ps ! j"
    using assms(2,3) by (metis in_set_conv_nth)
  have "ahead (length ps) i j \<le> length ps" using ij by (auto simp: ahead_def)
  with switch_reaches [OF assms(1) ij(1,2,3)] assms(4) ij(4) show ?thesis by (meson order_trans)
qed

definition sample_task :: "int \<Rightarrow> task_state \<Rightarrow> nat option \<Rightarrow> task" where
  "sample_task pid st nxt = \<lparr>t_pid = pid, t_ppid = 0, t_next = nxt, t_uid = 0, t_state = st, t_sleep_addr = 0,
     t_exit_status = 0, t_wait_queue = list_open, t_sig_handlers = set_default_signals, t_is_thread = False,
     t_sid = 0, t_pgrp = 0, t_leads = False, t_tty = 0, t_sleep_end_tick = 0\<rparr>"

definition sample_sched :: sched where
  "sample_sched = \<lparr>tasks = [100 \<mapsto> sample_task 1 TASK_RUNNING (Some 200), 200 \<mapsto> sample_task 2 TASK_SLEEPING (Some 300),
       300 \<mapsto> sample_task 3 TASK_RUNNING None], task_queue = Some 100, current_task = 100, sigs_queue = list_open,
     next_pid = 4, switch_locked = False, timer_ticks = 0\<rparr>"

lemma sample_queue: "queue_ok sample_sched [100, 200, 300]"
  by (simp add: queue_ok_def sample_sched_def sample_task_def qfuel_def)

lemma sample_facts:
  "current_task sample_sched = 100" "task_queue sample_sched = Some 100" "ready sample_sched 300"
  by (simp_all add: sample_sched_def sample_task_def ready_def woken_def wake_check_def)

lemma scheduler_no_starvation_witness:
  "\<exists>k s'. 0 < k \<and> k \<le> 3 \<and> switches k sample_sched = Inr s' \<and> current_task s' = 300"
  using scheduler_no_starvation [OF sample_queue, of 300] sample_facts by (simp add: numeral_3_eq_3)

text \<open>
  The state of a task after \<open>wakeup(addr)\<close>.
\<close>

definition awoken :: "nat \<Rightarrow> task \<Rightarrow> task" where
  "awoken addr t = (if t_state t = TASK_SLEEPING \<and> t_sleep_addr t = addr
     then t\<lparr>t_state := TASK_RUNNING, t_sleep_addr := 0, t_sleep_end_tick := 0\<rparr> else t)"

lemma awoken_next [simp]: "t_next (awoken addr t) = t_next t"
  by (simp add: awoken_def)

definition all_awoken :: "nat \<Rightarrow> nat list \<Rightarrow> sched \<Rightarrow> sched" where
  "all_awoken addr ps s = s\<lparr>tasks := (\<lambda>p. if p \<in> set ps then map_option (awoken addr) (tasks s p) else tasks s p)\<rparr>"

definition sleeps_on :: "sched \<Rightarrow> nat \<Rightarrow> nat \<Rightarrow> bool" where
  "sleeps_on s addr p \<longleftrightarrow> t_state (the (tasks s p)) = TASK_SLEEPING \<and> t_sleep_addr (the (tasks s p)) = addr"

lemma chain_other: "q \<notin> set ps \<Longrightarrow> chain (tset q t s) p ps = chain s p ps"
  by (induction ps arbitrary: p) (auto simp: tset_def)

lemma wakeup_loop_spec:
  assumes "chain s p ps" and "length ps \<le> fuel" and "distinct ps"
  shows "wakeup_loop fuel addr p cnt s =
    Inr (cnt + int (length (filter (sleeps_on s addr) ps)), all_awoken addr ps s)"
  using assms
proof (induction ps arbitrary: p fuel cnt s)
  case (Cons q qs)
  then obtain t n where t: "p = Some q" "tasks s q = Some t" "chain s (t_next t) qs" and n: "fuel = Suc n" "length qs \<le> n"
    by (cases fuel) auto
  have q: "q \<notin> set qs" "distinct qs" using Cons.prems(3) by auto
  let ?s = "tset q (awoken addr t) s"
  have c: "chain ?s (t_next t) qs" using t(3) q(1) by (simp add: chain_other)
  have same: "filter (sleeps_on ?s addr) qs = filter (sleeps_on s addr) qs"
    by (rule filter_cong [OF refl]) (use q(1) in \<open>auto simp: sleeps_on_def tset_def\<close>)
  have all: "all_awoken addr qs ?s = all_awoken addr (q # qs) s"
    using q(1) t(2) by (auto simp: all_awoken_def tset_def fun_eq_iff)
  have "wakeup_loop fuel addr p cnt s = wakeup_loop n addr (t_next t) (if sleeps_on s addr q then cnt + 1 else cnt) ?s"
    using t n by (auto simp: awoken_def sleeps_on_def tset_same)
  with Cons.IH [OF c n(2) q(2)] same all show ?case by simp
qed (simp add: all_awoken_def)

text \<open>
  \<open>wakeup(addr)\<close> (\<open>task.c\<close>) wakes exactly the tasks of the queue that sleep on \<open>addr\<close>: each of
  them can run afterwards and has lost its address and its timeout, no other task changes, and
  the result is their number.
\<close>

theorem wakeup_wakes_sleepers:
  assumes "queue_ok s ps" and "distinct ps"
  shows "\<exists>s'. wakeup addr s = Inr (int (length (filter (sleeps_on s addr) ps)), s') \<and>
    (\<forall>p\<in>set ps. sleeps_on s addr p \<longrightarrow> ready s' p \<and> t_sleep_end_tick (the (tasks s' p)) = 0) \<and>
    (\<forall>p. \<not> (p \<in> set ps \<and> sleeps_on s addr p) \<longrightarrow> tasks s' p = tasks s p)"
proof -
  have q: "chain s (task_queue s) ps" "length ps \<le> qfuel s" using assms(1) by (auto simp: queue_ok_def)
  let ?s = "(all_awoken addr ps s)\<lparr>switch_locked := False\<rparr>"
  have "wakeup addr s = Inr (int (length (filter (sleeps_on s addr) ps)), ?s)"
    using wakeup_loop_spec [OF q assms(2)] by (simp add: wakeup_def)
  moreover have "ready ?s p \<and> t_sleep_end_tick (the (tasks ?s p)) = 0" if "p \<in> set ps" "sleeps_on s addr p" for p
    using that chain_mapped [OF q(1) that(1)]
    by (auto simp: all_awoken_def awoken_def sleeps_on_def ready_def woken_def wake_check_def)
  moreover have "tasks ?s p = tasks s p" if "\<not> (p \<in> set ps \<and> sleeps_on s addr p)" for p
  proof (cases "p \<in> set ps")
    case True
    obtain t where "tasks s p = Some t" using chain_mapped [OF q(1) True] by blast
    with that True show ?thesis by (auto simp: all_awoken_def awoken_def sleeps_on_def)
  qed (simp add: all_awoken_def)
  ultimately show ?thesis by blast
qed

lemma wakeup_wakes_sleepers_witness:
  "\<exists>s'. wakeup 0 sample_sched = Inr (int (length (filter (sleeps_on sample_sched 0) [100, 200, 300])), s')"
  using wakeup_wakes_sleepers [OF sample_queue, of 0] by auto

text \<open>
  \<open>signal\<close> (\<open>signal.c\<close>) never changes the handlers of \<open>SIGKILL\<close> and \<open>SIGSTOP\<close> and refuses numbers from
  \<open>NUM_SIGS\<close> on; for every other number from 0 it installs the handler and returns the old one. A
  negative number is not refused and indexes in front of the array.
\<close>

theorem signal_protects_kill_and_stop:
  assumes "tasks s (current_task s) = Some c" and "length (t_sig_handlers c) = NUM_SIGS"
  shows "(if signum < 0 then signal signum h s = Inl Fault
    else if signum = SIGKILL \<or> signum = SIGSTOP \<or> int NUM_SIGS \<le> signum then signal signum h s = Inr (SIG_ERR, s)
    else \<exists>s'. signal signum h s = Inr (t_sig_handlers c ! nat signum, s') \<and>
      t_sig_handlers (the (tasks s' (current_task s))) = (t_sig_handlers c)[nat signum := h])"
  using assms by (auto simp: signal_def SIGKILL_def SIGSTOP_def NUM_SIGS_def tset_def nat_less_iff)

lemma signal_protects_kill_and_stop_witness:
  "signal 9 4096 sample_sched = Inr (SIG_ERR, sample_sched) \<and> signal (- 1) 4096 sample_sched = Inl Fault"
proof -
  have "tasks sample_sched (current_task sample_sched) = Some (sample_task 1 TASK_RUNNING (Some 200))"
    "length (t_sig_handlers (sample_task 1 TASK_RUNNING (Some 200))) = NUM_SIGS"
    by (simp_all add: sample_sched_def sample_task_def set_default_signals_def)
  note t = signal_protects_kill_and_stop [OF this]
  show ?thesis using t [of 9 4096] t [of "- 1" 4096] by (simp add: SIGKILL_def)
qed

text \<open>
  A signal without a default action stops the kernel: \<open>kill\<close> does not check the number, and when
  the target runs next, \<open>process_signals\<close> calls a NULL entry of \<open>sig_default\<close> or, from \<open>NUM_SIGS\<close> on,
  reads past the array of handlers.
\<close>

theorem unknown_signal_faults:
  assumes "tasks s (current_task s) = Some c" and "t_sig_handlers c = set_default_signals"
    and "repr (sigs_queue s) (n # ns)" and "l_mem (sigs_queue s) n = Some nod"
    and "s_pid (ldata nod) = t_pid c" and "sig_default (unat (s_signum (ldata nod))) = None"
  shows "process_signals s = Inl Fault"
proof -
  obtain q where q: "list_del None n (sigs_queue s) = Inr q"
    using delete_middle [of "sigs_queue s" "[]" n ns None] assms(3) by auto
  obtain m where m: "unat (num_items (sigs_queue s)) = Suc m" using repr_fuel [OF assms(3)] by simp
  have h: "l_head (sigs_queue s) = Some n" using assms(3) by (simp add: repr_def)
  show ?thesis
    unfolding process_signals_def m h using assms q
    by (auto simp: set_default_signals_def aget_def Let_def)
qed

lemma unknown_signal_faults_witness:
  "process_signals (sample_sched\<lparr>sigs_queue := \<lparr>l_head = Some 1, l_tail = Some 1, num_items = 1,
     l_mem = [1 \<mapsto> \<lparr>prev = None, next_ptr = None, ldata = \<lparr>s_signum = 5, s_pid = 1\<rparr>\<rparr>]\<rparr>\<rparr>) = Inl Fault"
proof -
  let ?n = "\<lparr>prev = None, next_ptr = None, ldata = \<lparr>s_signum = 5, s_pid = 1\<rparr>\<rparr>"
  have "sig_default (unat (s_signum (ldata ?n))) = None" by (simp add: sig_default_def)
  then show ?thesis
    by (intro unknown_signal_faults [where n = 1 and ns = "[]" and nod = ?n and c = "sample_task 1 TASK_RUNNING (Some 200)"])
      (simp_all add: sample_sched_def sample_task_def repr_def seg_Cons)
qed

end
