(* ===== verification/Ip.thy ===== *)
theory Ip
  imports Bytes Cstring
begin

text \<open>
  IPv4 headers and checksums (\<open>ip.c\<close>) and the Ethernet header (\<open>net.c\<close>) on the bytes of a packet. The
  code overlays packed structures on the buffer and converts the fields between network and host
  order in place; here a field is a range of bytes at its offset in the frame, read and written
  little endian, which is the order of the i386 (\<open>is_bige\<close> is 0). Reading or writing past the end of
  the buffer is a fault.

  The bit fields of \<open>struct ipv4_hdr\<close> are laid out from the least significant bit: in host format
  the first byte has the version in its low half and the header length in its high half, and
  the fourth 16-bit word has the flags in its three low bits.
\<close>

section \<open>Packets\<close>

text \<open>\<open>nif_up\<close> says whether a driver has filled in \<open>send\<close> and \<open>priv\<close>.\<close>

record netif =
  nif_id :: nat
  nif_mac :: "u8 list"
  nif_ips :: "u32 list"
  nif_up :: bool

record net_buf =
  nb_nic :: nat
  nb_size :: u16
  nb_captured :: bool
  nb_udata :: nat
  nb_ulen :: u32
  nb_data :: "u8 list"

definition MAC_SIZE :: nat where "MAC_SIZE = 6"
definition IFACE_MAX_IPS :: nat where "IFACE_MAX_IPS = 4"
definition MAX_NET_IFACES :: nat where "MAX_NET_IFACES = 8"

text \<open>\<open>sizeof(eth_hdr_t)\<close> and \<open>sizeof(ipv4_hdr_t)\<close>.\<close>

definition ETH_SIZE :: nat where "ETH_SIZE = 14"
definition IP_SIZE :: nat where "IP_SIZE = 20"

text \<open>\<open>field = ntohs(field)\<close> and \<open>field = ntohl(field)\<close> for a field at offset \<open>i\<close>.\<close>

definition conv16 :: "nat \<Rightarrow> u8 list \<Rightarrow> u8 list" where
  "conv16 i b = wr16 b i (ntohs (rd16 b i))"

definition conv32 :: "nat \<Rightarrow> u8 list \<Rightarrow> u8 list" where
  "conv32 i b = wr32 b i (ntohl (rd32 b i))"

definition buf2eth :: "u8 list \<Rightarrow> u8 list kres" where
  "buf2eth b = need ETH_SIZE b (Inr (conv16 12 b))"

definition eth2buf :: "u8 list \<Rightarrow> u8 list kres" where
  "eth2buf b = need ETH_SIZE b (Inr (wr16 b 12 (htons (rd16 b 12))))"

text \<open>
  \<open>netif->send(netif, data, size)\<close>: the frames given to the driver of an interface, in order, are the
  output of the network code. Without a driver the function pointer is NULL.
\<close>

type_synonym frame = "nat \<times> u8 list"

definition netif_send :: "netif \<Rightarrow> u8 list \<Rightarrow> nat \<Rightarrow> frame kres" where
  "netif_send nif b n = (if nif_up nif \<and> n \<le> length b then Inr (nif_id nif, take n b) else Inl Fault)"

section \<open>The Internet checksum\<close>

fun sum16 :: "u32 \<Rightarrow> u8 list \<Rightarrow> nat \<Rightarrow> nat \<Rightarrow> u32" where
  "sum16 acc b i (Suc (Suc n)) = sum16 (acc + ucast (rd16 b i)) b (i + 2) n"
| "sum16 acc b i (Suc 0) = acc + ucast (b ! i)"
| "sum16 acc b i 0 = acc"

lemma u32_mod16: "unat ((s :: u32) AND 0xFFFF) = unat s mod 65536"
proof -
  have m: "(0xFFFF :: u32) = mask 16" by (simp add: mask_eq_exp_minus_1)
  have "unat (take_bit 16 s) = unat s mod 65536" by (simp add: unsigned_take_bit_eq take_bit_nat_def)
  then show ?thesis unfolding m take_bit_eq_mask .
qed

lemma u32_div16: "unat (drop_bit 16 (s :: u32)) = unat s div 65536"
proof -
  have "unat s < 2 ^ LENGTH(32)" by (rule unsigned_less)
  then show ?thesis by (simp add: unsigned_drop_bit_eq drop_bit_nat_def take_bit_nat_def)
qed

lemma unat_fold_step: "unat ((s AND 0xFFFF) + drop_bit 16 (s :: u32)) = unat s mod 65536 + unat s div 65536"
proof -
  have "unat s div 65536 < 65536" using unsigned_less [of s] by (simp add: div_less_iff_less_mult)
  moreover have "unat s mod 65536 < 65536" by simp
  ultimately have "unat s mod 65536 + unat s div 65536 < 2 ^ 32" by simp
  then show ?thesis by (simp add: unat_word_ariths u32_mod16 u32_div16)
qed

lemma high_part_nonzero: "drop_bit 16 (s :: u32) \<noteq> 0 \<longleftrightarrow> 65536 \<le> unat s"
  by (metis u32_div16 unat_eq_zero div_eq_0_iff linorder_not_less zero_neq_numeral)

text \<open>\<open>while (sum >> 16) sum = (sum & 0xFFFF) + (sum >> 16)\<close>.\<close>

function csum_fold :: "u32 \<Rightarrow> u32" where
  "csum_fold s = (if drop_bit 16 s \<noteq> 0 then csum_fold ((s AND 0xFFFF) + drop_bit 16 s) else s)"
  by pat_completeness auto
termination
proof (relation "measure unat")
  fix s :: u32
  assume "drop_bit 16 s \<noteq> 0"
  then have "65536 \<le> unat s" by (simp add: high_part_nonzero)
  then have "1 \<le> unat s div 65536" by (simp add: Suc_le_eq div_greater_zero_iff)
  moreover have "unat s = 65536 * (unat s div 65536) + unat s mod 65536" by simp
  ultimately have "unat s mod 65536 + unat s div 65536 < unat s" by linarith
  then show "((s AND 0xFFFF) + drop_bit 16 s, s) \<in> measure unat" by (simp add: unat_fold_step)
qed simp

declare csum_fold.simps [simp del]

text \<open>\<open>len\<close> is an \<open>int\<close>; a length that is not positive sums nothing.\<close>

definition ip_csum :: "u8 list \<Rightarrow> nat \<Rightarrow> int \<Rightarrow> u16 kres" where
  "ip_csum b i len = need (i + nat len) b (Inr (NOT (ucast (csum_fold (sum16 0 b i (nat len))))))"

section \<open>The IPv4 header\<close>

text \<open>
  The header starts at offset \<open>i\<close>. \<open>iphlen\<close> reads the network format; \<open>ip_version\<close> and \<open>ip_ihl\<close> are the
  bit fields \<open>iph->version\<close> and \<open>iph->ihl\<close> of the first byte.
\<close>

definition iphlen :: "u8 list \<Rightarrow> nat \<Rightarrow> int kres" where
  "iphlen b i = bnd (aget b i) (\<lambda>hlen. Inr (int (unat (push_bit 2 (ucast (hlen AND 0x07) :: u32)))))"

definition ip_version :: "u8 list \<Rightarrow> nat \<Rightarrow> u8" where
  "ip_version b i = b ! i AND 0xF"

definition ip_ihl :: "u8 list \<Rightarrow> nat \<Rightarrow> u8" where
  "ip_ihl b i = drop_bit 4 (b ! i)"

definition set_first :: "u8 list \<Rightarrow> nat \<Rightarrow> u8 \<Rightarrow> u8 \<Rightarrow> u8 list" where
  "set_first b i version ihl = b[i := (version AND 0xF) OR push_bit 4 ihl]"

definition buf2ipv4 :: "u8 list \<Rightarrow> nat \<Rightarrow> u8 list kres" where
  "buf2ipv4 b i = need (i + IP_SIZE) b
     (let b = set_first b i (ip_ihl b i) (ip_version b i);
          frg = ntohs (rd16 b (i + 6));
          b = wr16 b (i + 6) ((drop_bit 13 frg AND 0x7) OR push_bit 3 (frg AND 0x1FFF));
          b = conv16 (i + 2) b;
          b = conv16 (i + 4) b;
          b = conv16 (i + 10) b;
          b = conv32 (i + 12) b in
      Inr (conv32 (i + 16) b))"

definition ipv42buf :: "u8 list \<Rightarrow> nat \<Rightarrow> u8 list kres" where
  "ipv42buf b i = need (i + IP_SIZE) b
     (let b = set_first b i (ip_ihl b i) (ip_version b i);
          val = rd16 b (i + 6);
          b = wr16 b (i + 6) (htons (push_bit 13 (val AND 0x7) OR drop_bit 3 (val AND NOT 0x7)));
          b = conv16 (i + 2) b;
          b = conv16 (i + 4) b;
          b = conv16 (i + 10) b;
          b = conv32 (i + 12) b in
      Inr (conv32 (i + 16) b))"

definition ip_data :: "u8 list \<Rightarrow> nat \<Rightarrow> nat" where
  "ip_data b i = i + unat (ip_ihl b i) * 4"

section \<open>Fields as bytes\<close>

lemma wr16_update: "i + 2 \<le> length b \<Longrightarrow> wr16 b i w = b[i := ucast w, i + 1 := ucast (drop_bit 8 w)]"
  by (rule nth_equalityI) (auto simp: nth_wr16 nth_list_update)

lemma wr32_update: "i + 4 \<le> length b \<Longrightarrow>
    wr32 b i w = b[i := ucast w, i + 1 := ucast (drop_bit 8 w), i + 2 := ucast (drop_bit 16 w), i + 3 := ucast (drop_bit 24 w)]"
  by (rule nth_equalityI) (auto simp: wr32_def nth_splice le32_def nth_list_update nth_Cons' less_Suc_eq)

lemma length_conv [simp]:
  "i + 2 \<le> length b \<Longrightarrow> length (conv16 i b) = length b" "j + 4 \<le> length b \<Longrightarrow> length (conv32 j b) = length b"
  by (simp_all add: conv16_def conv32_def)

lemma swap16_bytes: "ucast (swap16 (rd16 b i)) = b ! (i + 1)" "ucast (drop_bit 8 (swap16 (rd16 b i))) = b ! i"
proof -
  have "\<not> bit (w :: u8) (8 + n)" for w n using bit_imp_le_length [of w "8 + n"] by auto
  then show "ucast (swap16 (rd16 b i)) = b ! (i + 1)" "ucast (drop_bit 8 (swap16 (rd16 b i))) = b ! i"
    unfolding swap16_def mask8_16 rd16_def
    by (auto intro!: bit_word_eqI simp: bit_simps)
qed

lemma conv16_swaps: "i + 2 \<le> length b \<Longrightarrow> conv16 i b = b[i := b ! (i + 1), i + 1 := b ! i]"
  by (simp add: conv16_def ntohs_def wr16_update swap16_bytes)

lemma conv16_conv16: "i + 2 \<le> length b \<Longrightarrow> conv16 i (conv16 i b) = b"
  by (rule nth_equalityI) (auto simp: conv16_swaps nth_list_update)

lemma byte_of_rd32:
  "byte_of (rd32 b i) 0 = b ! i" "byte_of (rd32 b i) 1 = b ! (i + 1)"
  "byte_of (rd32 b i) 2 = b ! (i + 2)" "byte_of (rd32 b i) 3 = b ! (i + 3)"
proof -
  have "\<not> bit (w :: u8) (8 + n)" "\<not> bit (w :: u8) (16 + n)" "\<not> bit (w :: u8) (24 + n)" for w n
    using bit_imp_le_length [of w "8 + n"] bit_imp_le_length [of w "16 + n"] bit_imp_le_length [of w "24 + n"] by auto
  then show "byte_of (rd32 b i) 0 = b ! i" "byte_of (rd32 b i) 1 = b ! (i + 1)"
    "byte_of (rd32 b i) 2 = b ! (i + 2)" "byte_of (rd32 b i) 3 = b ! (i + 3)"
    unfolding rd32_def by (auto intro!: bit_word_eqI simp: bit_byte_of bit_simps)
qed

lemma conv32_swaps:
  assumes "i + 4 \<le> length b"
  shows "conv32 i b = b[i := b ! (i + 3), i + 1 := b ! (i + 2), i + 2 := b ! (i + 1), i + 3 := b ! i]"
proof -
  have "ucast (drop_bit (8 * k) (ntohl (rd32 b i))) = byte_of (rd32 b i) (3 - k)" if "k \<in> {0, 1, 2, 3}" for k
    using byte_swap32 [OF that, of "rd32 b i"] by (simp add: byte_of_def ntohl_def)
  from this [of 0] this [of 1] this [of 2] this [of 3] show ?thesis
    using assms by (simp add: conv32_def wr32_update byte_of_rd32 byte_of_rd32(2) [unfolded One_nat_def])
qed

text \<open>
  A header in the middle of a frame: \<open>pre\<close> is what stands in front of it. On the bytes of the header
  themselves the conversions then compute.
\<close>

lemma conv_append [simp]:
  "k + 2 \<le> length r \<Longrightarrow> conv16 (length pre + k) (pre @ r) = pre @ conv16 k r"
  "j + 4 \<le> length r \<Longrightarrow> conv32 (length pre + j) (pre @ r) = pre @ conv32 j r"
  by (simp_all add: conv16_swaps conv32_swaps list_update_append nth_append add.assoc)

lemma wr16_append [simp]: "k + 2 \<le> length r \<Longrightarrow> wr16 (pre @ r) (length pre + k) w = pre @ wr16 r k w"
  by (simp add: wr16_update list_update_append add.assoc)

lemma rd16_append [simp]: "rd16 (pre @ r) (length pre + k) = rd16 r k"
  by (simp add: rd16_def nth_append add.assoc)

definition frag_host :: "u16 \<Rightarrow> u16" where
  "frag_host frg = (drop_bit 13 frg AND 0x7) OR push_bit 3 (frg AND 0x1FFF)"

definition frag_net :: "u16 \<Rightarrow> u16" where
  "frag_net val = push_bit 13 (val AND 0x7) OR drop_bit 3 (val AND NOT 0x7)"

lemma frag_masks: "(0x7 :: u16) = mask 3" "(0x1FFF :: u16) = mask 13"
  by (simp_all add: mask_eq_exp_minus_1)

lemma frag_net_host: "frag_net (frag_host w) = w"
  unfolding frag_net_def frag_host_def frag_masks
  by (rule bit_word_eqI) (auto simp: bit_simps)

lemma frag_host_net: "frag_host (frag_net w) = w"
  unfolding frag_net_def frag_host_def frag_masks
  by (rule bit_word_eqI) (auto simp: bit_simps, metis le_add_diff_inverse linorder_not_less)

definition swap_nibbles :: "u8 \<Rightarrow> u8" where
  "swap_nibbles x = (drop_bit 4 x AND 0xF) OR push_bit 4 (x AND 0xF)"

lemma mask4: "(0xF :: u8) = mask 4"
  by (simp add: mask_eq_exp_minus_1)

lemma swap_nibbles_swap_nibbles: "swap_nibbles (swap_nibbles x) = x"
  unfolding swap_nibbles_def mask4
  by (rule bit_word_eqI) (auto simp: bit_simps, metis le_add_diff_inverse linorder_not_less)

text \<open>What both conversions do, with the function on the word of the flags as a parameter.\<close>

definition convert :: "(u16 \<Rightarrow> u16) \<Rightarrow> u8 list \<Rightarrow> u8 list" where
  "convert f b = (let w = f (rd16 b 6) in
     [swap_nibbles (b ! 0), b ! 1, b ! 3, b ! 2, b ! 5, b ! 4, ucast w, ucast (drop_bit 8 w), b ! 8, b ! 9,
      b ! 11, b ! 10, b ! 15, b ! 14, b ! 13, b ! 12, b ! 19, b ! 18, b ! 17, b ! 16] @ drop 20 b)"

lemma list20:
  assumes "20 \<le> length b"
  obtains x0 x1 x2 x3 x4 x5 x6 x7 x8 x9 x10 x11 x12 x13 x14 x15 x16 x17 x18 x19 r
  where "b = x0 # x1 # x2 # x3 # x4 # x5 # x6 # x7 # x8 # x9 # x10 # x11 # x12 # x13 # x14 # x15 # x16 # x17 # x18 # x19 # r"
  using assms by (auto simp: eval_nat_numeral Suc_le_length_iff)

lemma set_first_swaps: "i < length b \<Longrightarrow> set_first b i (ip_ihl b i) (ip_version b i) = b[i := swap_nibbles (b ! i)]"
  by (simp add: set_first_def ip_ihl_def ip_version_def swap_nibbles_def)

lemma rd16_update_other: "j \<noteq> i \<Longrightarrow> j \<noteq> i + 1 \<Longrightarrow> rd16 (b[j := x]) i = rd16 b i"
  by (simp add: rd16_def)

lemma conv_Cons:
  "conv16 0 (x # y # r) = y # x # r"
  "Suc k < length r \<Longrightarrow> conv16 (Suc k) (x # r) = x # conv16 k r"
  "conv32 0 (x # y # z # u # r) = u # z # y # x # r"
  "Suc (Suc (Suc j)) < length r \<Longrightarrow> conv32 (Suc j) (x # r) = x # conv32 j r"
  by (simp_all add: conv16_swaps conv32_swaps eval_nat_numeral)

lemma wr16_Cons:
  "wr16 (x # y # r) 0 w = ucast w # ucast (drop_bit 8 w) # r"
  "Suc k < length r \<Longrightarrow> wr16 (x # r) (Suc k) w = x # wr16 r k w"
  by (simp_all add: wr16_update)

lemma rd16_Cons: "rd16 (x # r) (Suc k) = rd16 r k"
  by (simp add: rd16_def)

lemma set_first_append: "set_first (pre @ r) (length pre) v h = pre @ set_first r 0 v h"
  by (cases r) (simp_all add: set_first_def list_update_beyond)

lemma first_fields_append: "r \<noteq> [] \<Longrightarrow> ip_ihl (pre @ r) (length pre) = ip_ihl r 0"
  "r \<noteq> [] \<Longrightarrow> ip_version (pre @ r) (length pre) = ip_version r 0"
  by (simp_all add: ip_ihl_def ip_version_def nth_append)

lemma length_set_first [simp]: "length (set_first b i v h) = length b"
  by (simp add: set_first_def)

lemmas at_header = need_def IP_SIZE_def Let_def set_first_append first_fields_append
lemmas in_header = set_first_swaps conv_Cons wr16_Cons rd16_Cons eval_nat_numeral

lemma buf2ipv4_0: "20 \<le> length r \<Longrightarrow> buf2ipv4 r 0 = Inr (convert (frag_host \<circ> ntohs) r)"
  unfolding buf2ipv4_def frag_host_def [symmetric] by (erule list20) (simp add: at_header convert_def in_header)

lemma ipv42buf_0: "20 \<le> length r \<Longrightarrow> ipv42buf r 0 = Inr (convert (htons \<circ> frag_net) r)"
  unfolding ipv42buf_def frag_net_def [symmetric] by (erule list20) (simp add: at_header convert_def in_header)

lemma buf2ipv4_at:
  assumes "20 \<le> length r"
  shows "buf2ipv4 (pre @ r) (length pre) = Inr (pre @ convert (frag_host \<circ> ntohs) r)"
proof -
  have "r \<noteq> []" using assms by auto
  then have "buf2ipv4 (pre @ r) (length pre) = bnd (buf2ipv4 r 0) (\<lambda>r. Inr (pre @ r))"
    using assms by (simp add: buf2ipv4_def at_header del: add_2_eq_Suc add_2_eq_Suc')
  then show ?thesis using assms by (simp add: buf2ipv4_0)
qed

lemma ipv42buf_at:
  assumes "20 \<le> length r"
  shows "ipv42buf (pre @ r) (length pre) = Inr (pre @ convert (htons \<circ> frag_net) r)"
proof -
  have "r \<noteq> []" using assms by auto
  then have "ipv42buf (pre @ r) (length pre) = bnd (ipv42buf r 0) (\<lambda>r. Inr (pre @ r))"
    using assms by (simp add: ipv42buf_def at_header del: add_2_eq_Suc add_2_eq_Suc')
  then show ?thesis using assms by (simp add: ipv42buf_0)
qed

lemma rd16_split: "rd16 (x # y # r) 0 = ucast x OR push_bit 8 (ucast y)"
  by (simp add: rd16_def)

lemma convert_convert:
  "(\<And>w. g (f w) = w) \<Longrightarrow> 20 \<le> length r \<Longrightarrow> convert g (convert f r) = r"
proof -
  assume gf: "\<And>w. g (f w) = w" and "20 \<le> length r"
  then show ?thesis using le16_rd16 [of r 6] rd16_le16
    by (elim list20) (simp add: convert_def Let_def swap_nibbles_swap_nibbles rd16_def le16_def)
qed

lemma convert_nth:
  assumes "20 \<le> length r"
  shows "length (convert f r) = length r" and "\<And>k. 20 \<le> k \<Longrightarrow> convert f r ! k = r ! k"
    and "convert f r ! 0 = swap_nibbles (r ! 0)" and "rd16 (convert f r) 10 = swap16 (rd16 r 10)"
    and "rd32 (convert f r) 12 = swap32 (rd32 r 12)" and "rd32 (convert f r) 16 = swap32 (rd32 r 16)"
    and "rd16 (convert f r) 2 = swap16 (rd16 r 2)" and "convert f r ! 8 = r ! 8" and "convert f r ! 9 = r ! 9"
proof -
  have n: "convert f r ! k = (if k = 0 then swap_nibbles (r ! 0) else if k = 10 then r ! 11 else if k = 11 then r ! 10
    else if 12 \<le> k \<and> k < 16 then r ! (27 - k) else if 16 \<le> k \<and> k < 20 then r ! (35 - k) else r ! k)"
    if "k = 0 \<or> 10 \<le> k" for k
  proof (cases "k < 20")
    case True
    then have "k \<in> {0, 10, 11, 12, 13, 14, 15, 16, 17, 18, 19}" using that by simp arith
    then show ?thesis by (auto simp: convert_def Let_def)
  qed (use assms in \<open>simp add: convert_def Let_def nth_append\<close>)
  show "length (convert f r) = length r" using assms by (simp add: convert_def Let_def)
  show "convert f r ! 8 = r ! 8" "convert f r ! 9 = r ! 9" by (simp_all add: convert_def Let_def)
  have "convert f r ! 2 = r ! 3" "convert f r ! 3 = r ! 2" by (simp_all add: convert_def Let_def)
  then show "rd16 (convert f r) 2 = swap16 (rd16 r 2)"
    using swap16_bytes [of r 2] rd16_le16 [of "swap16 (rd16 r 2)" "[]"] by (simp add: rd16_def le16_def)
  show "convert f r ! k = r ! k" if "20 \<le> k" for k using n [of k] that by simp
  show "convert f r ! 0 = swap_nibbles (r ! 0)" by (simp add: n)
  show "rd16 (convert f r) 10 = swap16 (rd16 r 10)"
    using swap16_bytes [of r 10] rd16_le16 [of "swap16 (rd16 r 10)" "[]"] by (simp add: rd16_def n le16_def)
  have "byte_of x 0 = byte_of y 0 \<and> byte_of x 1 = byte_of y 1 \<and> byte_of x 2 = byte_of y 2 \<and> byte_of x 3 = byte_of y 3
    \<Longrightarrow> x = y" for x y
    by (metis swap32_bytes swap32_swap32)
  then show "rd32 (convert f r) 12 = swap32 (rd32 r 12)" "rd32 (convert f r) 16 = swap32 (rd32 r 16)"
    by (simp_all add: byte_of_rd32 byte_of_rd32(2) [unfolded One_nat_def] byte_swap32 byte_swap32 [of "Suc 0"] n)
qed

lemma convert_cong8:
  assumes "\<And>k. k < 8 \<Longrightarrow> r ! k = r' ! k" and "k < 8"
  shows "convert f r ! k = convert f r' ! k"
proof -
  have "k \<in> {0, 1, 2, 3, 4, 5, 6, 7}" using assms(2) by auto
  with assms(1) show ?thesis by (auto simp: convert_def Let_def rd16_def)
qed

lemma convert_back: "20 \<le> length r \<Longrightarrow> convert (htons \<circ> frag_net) (convert (frag_host \<circ> ntohs) r) = r"
  by (rule convert_convert) (simp add: htons_def ntohs_def frag_net_host swap16_swap16)

text \<open>A conversion changes the header only, and its fields are those of the other byte order.\<close>

definition converted :: "nat \<Rightarrow> u8 list \<Rightarrow> u8 list \<Rightarrow> bool" where
  "converted i b d \<longleftrightarrow> length d = length b \<and> (\<forall>k. k < i \<or> i + 20 \<le> k \<longrightarrow> d ! k = b ! k) \<and> d ! i = swap_nibbles (b ! i) \<and>
     rd16 d (i + 2) = swap16 (rd16 b (i + 2)) \<and> d ! (i + 8) = b ! (i + 8) \<and> d ! (i + 9) = b ! (i + 9) \<and>
     rd16 d (i + 10) = swap16 (rd16 b (i + 10)) \<and>
     rd32 d (i + 12) = swap32 (rd32 b (i + 12)) \<and> rd32 d (i + 16) = swap32 (rd32 b (i + 16))"

lemma rd32_append [simp]: "rd32 (pre @ r) (length pre + k) = rd32 r k"
  by (simp add: rd32_def nth_append add.assoc)

lemma converted_convert: "20 \<le> length r \<Longrightarrow> converted (length pre) (pre @ r) (pre @ convert f r)"
  using convert_nth [where f = f and r = r] rd16_append [of pre r 2] rd16_append [of pre "convert f r" 2]
  by (auto simp: converted_def nth_append)

lemma ipv42buf_converted:
  assumes "i + 20 \<le> length b"
  shows "\<exists>d. ipv42buf b i = Inr d \<and> converted i b d"
  using ipv42buf_at [of "drop i b" "take i b"] converted_convert [of "drop i b" "take i b" "htons \<circ> frag_net"] assms by auto

lemma buf2ipv4_converted:
  assumes "i + 20 \<le> length b"
  shows "\<exists>d. buf2ipv4 b i = Inr d \<and> converted i b d"
  using buf2ipv4_at [of "drop i b" "take i b"] converted_convert [of "drop i b" "take i b" "frag_host \<circ> ntohs"] assms by auto

lemma swap_nibbles_mod8: "unat (swap_nibbles x) mod 8 = unat (drop_bit 4 x) mod 8"
proof -
  have "take_bit 3 (swap_nibbles x) = take_bit 3 (drop_bit 4 x)"
    unfolding swap_nibbles_def mask4 by (rule bit_word_eqI) (auto simp: bit_simps)
  then have "unat (take_bit 3 (swap_nibbles x)) = unat (take_bit 3 (drop_bit 4 x))" by simp
  then show ?thesis by (simp add: unsigned_take_bit_eq take_bit_nat_def)
qed

section \<open>The sum of the words\<close>

lemma unat_ucast8: "unat (ucast (w :: u8) :: u32) = unat w"
proof -
  have "unat w < 2 ^ LENGTH(8)" by (rule unsigned_less)
  then show ?thesis by (simp add: unsigned_ucast_eq take_bit_nat_eq_self)
qed

text \<open>The sum without wrap-around, and the bound that keeps it below \<open>2 ^ 32\<close>.\<close>

fun wsum :: "u8 list \<Rightarrow> nat \<Rightarrow> nat \<Rightarrow> nat" where
  "wsum b i (Suc (Suc n)) = unat (rd16 b i) + wsum b (i + 2) n"
| "wsum b i (Suc 0) = unat (b ! i)"
| "wsum b i 0 = 0"

lemma unat16: "unat (w :: u16) \<le> 65535"
proof -
  have "unat w < 2 ^ LENGTH(16)" by (rule unsigned_less)
  then show ?thesis by simp
qed

lemma unat_ucast16: "unat (ucast (w :: u16) :: u32) = unat w"
  using unat16 [of w] by (simp add: unsigned_ucast_eq take_bit_nat_eq_self)

lemma wsum_bound: "wsum b i n \<le> 65535 * ((n + 1) div 2)"
proof (induction b i n rule: wsum.induct)
  case (1 b i n)
  then show ?case using unat16 [of "rd16 b i"] by simp
next
  case (2 b i)
  have "unat (b ! i) < 2 ^ LENGTH(8)" by (rule unsigned_less)
  then show ?case by simp
qed simp

lemma unat_sum16: "unat acc + wsum b i n < 2 ^ 32 \<Longrightarrow> unat (sum16 acc b i n) = unat acc + wsum b i n"
proof (induction acc b i n rule: sum16.induct)
  case (1 acc b i n)
  have "unat (acc + ucast (rd16 b i)) = unat acc + unat (rd16 b i)"
    using 1(2) by (simp add: unat_word_ariths unat_ucast16)
  with 1 show ?case by simp
next
  case (2 acc b i)
  then show ?case by (simp add: unat_word_ariths unat_ucast8)
qed simp

lemma wsum_lt: "n < 65536 \<Longrightarrow> wsum b i n < 2 ^ 31"
proof -
  assume "n < 65536"
  then have "(n + 1) div 2 \<le> 32768" by simp
  with wsum_bound [of b i n] show ?thesis by simp
qed

lemma csum_fold_spec:
  "unat (csum_fold s) < 65536 \<and> unat (csum_fold s) mod 65535 = unat s mod 65535 \<and> (csum_fold s = 0 \<longleftrightarrow> s = 0)"
proof (induction s rule: csum_fold.induct)
  case (1 s)
  show ?case
  proof (cases "drop_bit 16 s = 0")
    case True
    then show ?thesis using high_part_nonzero [of s] by (simp add: csum_fold.simps [of s])
  next
    case False
    have "unat s = 65535 * (unat s div 65536) + (unat s mod 65536 + unat s div 65536)"
      using div_mult_mod_eq [of "unat s" 65536] by linarith
    then have m: "(unat s mod 65536 + unat s div 65536) mod 65535 = unat s mod 65535"
      by (metis mod_mult_self4)
    have "unat s mod 65536 + unat s div 65536 \<noteq> 0"
      using False high_part_nonzero [of s] div_greater_zero_iff [of "unat s" 65536] by simp
    then have "(s AND 0xFFFF) + drop_bit 16 s \<noteq> 0" using unat_fold_step [of s] by (metis unsigned_0)
    then show ?thesis using 1 [OF False] m False
      by (auto simp: csum_fold.simps [of s] unat_fold_step)
  qed
qed

text \<open>
  The checksum of RFC 1071: the complement of the sum in one's complement arithmetic, where only
  the empty sum is 0.
\<close>

definition ones_sum :: "nat \<Rightarrow> nat" where
  "ones_sum n = (if n = 0 then 0 else (n - 1) mod 65535 + 1)"

lemma ones_sum_unique: "k < 65536 \<Longrightarrow> k mod 65535 = n mod 65535 \<Longrightarrow> (k = 0 \<longleftrightarrow> n = 0) \<Longrightarrow> k = ones_sum n"
proof -
  assume k: "k < 65536" "k mod 65535 = n mod 65535" "k = 0 \<longleftrightarrow> n = 0"
  show ?thesis
  proof (cases n)
    case (Suc m)
    define r where "r = m mod 65535"
    have n: "n mod 65535 = (if Suc r = 65535 then 0 else Suc r)" unfolding Suc r_def by (rule mod_Suc)
    have r: "r < 65535" by (simp add: r_def)
    have "k = Suc r"
    proof (cases "k = 65535")
      case False
      then have "k mod 65535 = k" "0 < k" using k Suc by auto
      with k(2) n show ?thesis by (auto split: if_splits)
    qed (use k(2) n in \<open>auto split: if_splits\<close>)
    then show ?thesis by (simp add: ones_sum_def Suc r_def)
  qed (use k in \<open>simp add: ones_sum_def\<close>)
qed

lemma unat_csum_fold: "n < 65536 \<Longrightarrow> unat (csum_fold (sum16 0 b i n)) = ones_sum (wsum b i n)"
  using csum_fold_spec [of "sum16 0 b i n"] unat_sum16 [of 0 b i n] wsum_lt [of n b i]
  by (intro ones_sum_unique) (auto simp: unsigned_eq_0_iff)

lemma ucast_csum_fold: "unat (ucast (csum_fold s) :: u16) = unat (csum_fold s)"
  using csum_fold_spec [of s] by (simp add: unsigned_ucast_eq take_bit_nat_eq_self)

lemma unat_not16: "unat (NOT w :: u16) = 65535 - unat w"
proof -
  have "NOT w = - 1 - w" by (simp add: not_eq_complement)
  then show ?thesis using unat16 [of w] by (simp add: unat_sub word_le_nat_alt unsigned_minus_1_eq_mask mask_eq_exp_minus_1)
qed

lemma ip_csum_ones:
  assumes "i + n \<le> length b" and "n < 65536"
  shows "\<exists>c. ip_csum b i (int n) = Inr c \<and> unat c = 65535 - ones_sum (wsum b i n)"
  using assms by (simp add: ip_csum_def need_def unat_not16 ucast_csum_fold unat_csum_fold)

lemma wsum_cong: "(\<And>k. i \<le> k \<Longrightarrow> k < i + n \<Longrightarrow> b ! k = d ! k) \<Longrightarrow> wsum b i n = wsum d i n"
  by (induction b i n rule: wsum.induct) (auto simp: rd16_def)

lemma wsum_wr16:
  "i + n \<le> length b \<Longrightarrow> 2 * k + 2 \<le> n \<Longrightarrow>
   wsum (wr16 b (i + 2 * k) w) i n + unat (rd16 b (i + 2 * k)) = wsum b i n + unat w"
proof (induction b i n arbitrary: k rule: wsum.induct)
  case (1 b i n)
  show ?case
  proof (cases k)
    case 0
    have "wsum (wr16 b i w) (i + 2) n = wsum b (i + 2) n"
      using 1(2) by (intro wsum_cong) (simp add: nth_wr16)
    with 0 1(2) show ?thesis by (simp add: rd16_wr16_same)
  next
    case (Suc m)
    have e: "i + 2 * k = i + 2 + 2 * m" using Suc by simp
    have "wsum (wr16 b (i + 2 + 2 * m) w) (i + 2) n + unat (rd16 b (i + 2 + 2 * m)) = wsum b (i + 2) n + unat w"
      using 1(2,3) Suc by (intro 1(1)) auto
    moreover have "rd16 (wr16 b (i + 2 + 2 * m) w) i = rd16 b i" using 1(2,3) Suc by (intro rd16_wr16_other) auto
    ultimately show ?thesis unfolding e by simp
  qed
qed auto

lemma ones_sum_le: "ones_sum s \<le> 65535"
  using mod_less_divisor [of 65535 "s - 1"] by (auto simp: ones_sum_def simp del: mod_less_divisor)

lemma ones_sum_complement: "0 < c + s \<Longrightarrow> c = 65535 - ones_sum s \<Longrightarrow> ones_sum (s + c) = 65535"
proof -
  assume c: "0 < c + s" "c = 65535 - ones_sum s"
  have le: "ones_sum s \<le> 65535" by (rule ones_sum_le)
  have "s mod 65535 = ones_sum s mod 65535" by (cases s) (simp_all add: ones_sum_def mod_simps)
  then have "(s + c) mod 65535 = (ones_sum s + c) mod 65535" by (metis mod_add_left_eq)
  also have "ones_sum s + c = 65535" using c le by simp
  finally have "(65535 :: nat) mod 65535 = (s + c) mod 65535" by simp
  with c show ?thesis by (intro ones_sum_unique [symmetric]) auto
qed

section \<open>Properties\<close>

text \<open>
  C15. The conversions of the IPv4 header between network and host format (\<open>buf2ipv4\<close> and \<open>ipv42buf\<close>
  in \<open>ip.c\<close>) are inverse to each other on every buffer that holds a header at the offset, whatever
  the fields: nothing of the header or of the bytes around it is lost in either direction.
\<close>

theorem ipv4_header_roundtrip:
  assumes "i + IP_SIZE \<le> length b"
  shows "bnd (buf2ipv4 b i) (\<lambda>b. ipv42buf b i) = Inr b \<and> bnd (ipv42buf b i) (\<lambda>b. buf2ipv4 b i) = Inr b"
proof -
  define pre r where "pre = take i b" and "r = drop i b"
  then have b: "b = pre @ r" and i: "length pre = i" and r: "20 \<le> length r" using assms by (auto simp: IP_SIZE_def)
  have inv: "(htons \<circ> frag_net) ((frag_host \<circ> ntohs) w) = w" "(frag_host \<circ> ntohs) ((htons \<circ> frag_net) w) = w" for w
    by (simp_all add: htons_def ntohs_def frag_net_host frag_host_net swap16_swap16)
  have l: "20 \<le> length (convert f r)" for f using r by (simp add: convert_def Let_def)
  have "bnd (buf2ipv4 (pre @ r) (length pre)) (\<lambda>b. ipv42buf b (length pre)) = Inr (pre @ r)"
    using r l inv(1) by (simp add: buf2ipv4_at ipv42buf_at convert_convert)
  moreover have "bnd (ipv42buf (pre @ r) (length pre)) (\<lambda>b. buf2ipv4 b (length pre)) = Inr (pre @ r)"
    using r l inv(2) by (simp add: buf2ipv4_at ipv42buf_at convert_convert)
  ultimately show ?thesis unfolding b i by simp
qed

lemma ipv4_header_roundtrip_witness:
  "bnd (buf2ipv4 [0x45, 0, 0, 84, 1, 2, 0x40, 0, 64, 1, 9, 9, 10, 0, 2, 2, 10, 0, 2, 3] 0) (\<lambda>b. ipv42buf b 0) =
     Inr [0x45, 0, 0, 84, 1, 2, 0x40, 0, 64, 1, 9, 9, 10, 0, 2, 2, 10, 0, 2, 3]"
  by (rule conjunct1 [OF ipv4_header_roundtrip]) (simp add: IP_SIZE_def)

lemma ip_csum_verifies:
  assumes "i + n \<le> length b" and "n < 65536" and "2 * k + 2 \<le> n" and "rd16 b (i + 2 * k) = 0"
  shows "\<exists>c. ip_csum b i (int n) = Inr c \<and> ip_csum (wr16 b (i + 2 * k) c) i (int n) = Inr 0"
proof -
  obtain c where c: "ip_csum b i (int n) = Inr c" "unat c = 65535 - ones_sum (wsum b i n)"
    using ip_csum_ones [OF assms(1,2)] by blast
  let ?b = "wr16 b (i + 2 * k) c"
  have len: "i + n \<le> length ?b" using assms by simp
  have sm: "wsum ?b i n = wsum b i n + unat c" using wsum_wr16 [OF assms(1,3), of c] assms(4) by simp
  obtain d where d: "ip_csum ?b i (int n) = Inr d" "unat d = 65535 - ones_sum (wsum ?b i n)"
    using ip_csum_ones [OF len assms(2)] by blast
  have "0 < unat c + wsum b i n" using c(2) by (cases "wsum b i n = 0") (simp_all add: ones_sum_def)
  then have "unat d = 0" using d(2) sm ones_sum_complement [of "unat c" "wsum b i n"] c(2) by simp
  with c d show ?thesis by (auto simp: unsigned_eq_0_iff)
qed

text \<open>
  C16. \<open>ip_csum\<close> (\<open>ip.c\<close>) computes the checksum of RFC 1071, the complement of the one's complement sum
  of the 16-bit words of a range of at most 65535 bytes, although it adds with wrap-around at 32
  bits and folds the carries at the end. And packets that carry it verify: when the checksum
  field (a word at an even distance from the start) was 0 and the result is stored there, \<open>ip_csum\<close>
  of the range is 0, the value every receiver tests for.
\<close>

theorem ip_csum_correct:
  assumes "i + n \<le> length b" and "n < 65536"
  shows "\<exists>c. ip_csum b i (int n) = Inr c \<and> unat c = 65535 - ones_sum (wsum b i n) \<and>
    (\<forall>k. 2 * k + 2 \<le> n \<and> rd16 b (i + 2 * k) = 0 \<longrightarrow> ip_csum (wr16 b (i + 2 * k) c) i (int n) = Inr 0)"
proof -
  obtain c where c: "ip_csum b i (int n) = Inr c" "unat c = 65535 - ones_sum (wsum b i n)"
    using ip_csum_ones [OF assms] by blast
  moreover have "ip_csum (wr16 b (i + 2 * k) c) i (int n) = Inr 0" if "2 * k + 2 \<le> n" "rd16 b (i + 2 * k) = 0" for k
    using ip_csum_verifies [OF assms that] c(1) by simp
  ultimately show ?thesis by blast
qed

lemma ip_csum_correct_witness:
  "\<exists>c. ip_csum [0x45, 0, 0, 84, 1, 2, 0, 0, 64, 1] 0 (int 10) = Inr c \<and>
     ip_csum (wr16 [0x45, 0, 0, 84, 1, 2, 0, 0, 64, 1] (0 + 2 * 3) c) 0 (int 10) = Inr 0"
proof -
  let ?b = "[0x45, 0, 0, 84, 1, 2, 0, 0, 64, 1] :: u8 list"
  obtain c where c: "ip_csum ?b 0 (int 10) = Inr c"
    "\<forall>k. 2 * k + 2 \<le> 10 \<and> rd16 ?b (0 + 2 * k) = 0 \<longrightarrow> ip_csum (wr16 ?b (0 + 2 * k) c) 0 (int 10) = Inr 0"
    using ip_csum_correct [of 0 10 ?b] by auto
  have "rd16 ?b (0 + 2 * 3) = 0" by (simp add: rd16_def)
  with c(2) have "ip_csum (wr16 ?b (0 + 2 * 3) c) 0 (int 10) = Inr 0" by (elim allE [of _ 3] impE) simp_all
  with c(1) show ?thesis by blast
qed

text \<open>
  \<open>iphlen\<close> keeps three of the four bits of the header length: from 32 bytes on it is too small by 32.
\<close>

lemma iphlen_spec:
  assumes "i < length b"
  shows "iphlen b i = Inr (4 * int (unat (b ! i) mod 8))"
proof -
  have m: "(0x07 :: u8) = mask 3" by (simp add: mask_eq_exp_minus_1)
  have u: "unat (b ! i AND 0x07) = unat (b ! i) mod 8"
    unfolding m take_bit_eq_mask [symmetric] by (simp add: unsigned_take_bit_eq take_bit_nat_def)
  have "unat (push_bit 2 (ucast w :: u32)) = 4 * unat w" if "unat w < 8" for w :: u8
    using that by (simp add: push_bit_eq_mult unat_word_ariths unat_ucast8)
  from this [of "b ! i AND 0x07"] u
  have "int (unat (push_bit 2 (ucast (b ! i AND 0x07) :: u32))) = 4 * int (unat (b ! i) mod 8)" by simp
  with assms show ?thesis unfolding iphlen_def by (simp only: aget_ok bnd_Inr)
qed

end
