(* ===== verification/Icmp.thy ===== *)
theory Icmp
  imports Ip
begin

text \<open>
  ICMP (\<open>icmp.c\<close>): the answer to an echo request, built in the buffer the request came in. The IP header
  is at offset \<open>ETH_SIZE\<close> of the frame and in host format when \<open>icmpv4_process\<close> is called; the ICMP
  header follows it after \<open>iph->ihl * 4\<close> bytes. The length of the message is taken from the header
  and never compared with the size of the buffer.
\<close>

definition ICMP_T_ECHO_REPLAY :: u8 where "ICMP_T_ECHO_REPLAY = 0"
definition ICMP_T_ECHO_REQUEST :: u8 where "ICMP_T_ECHO_REQUEST = 8"

definition buf2icmpv4 :: "u8 list \<Rightarrow> nat \<Rightarrow> u8 list kres" where
  "buf2icmpv4 b i = need (i + 4) b (Inr (conv16 (i + 2) b))"

definition icmpv42buf :: "u8 list \<Rightarrow> nat \<Rightarrow> u8 list kres" where
  "icmpv42buf b i = need (i + 4) b (Inr (wr16 b (i + 2) (htons (rd16 b (i + 2)))))"

definition buf2echo :: "u8 list \<Rightarrow> nat \<Rightarrow> u8 list kres" where
  "buf2echo b i = need (i + 4) b (Inr (conv16 (i + 2) (conv16 i b)))"

text \<open>\<open>iph->len - sizeof(*iph)\<close>, converted to the \<open>int\<close> that \<open>ip_csum\<close> takes.\<close>

definition icmp_len :: "u8 list \<Rightarrow> int" where
  "icmp_len b = int (unat (rd16 b (ETH_SIZE + 2))) - int IP_SIZE"

text \<open>The three parts of \<open>icmpv4_echo_reply\<close>: the ICMP header, the IP header, the Ethernet header.\<close>

definition reply_icmp :: "u8 list \<Rightarrow> u8 list kres" where
  "reply_icmp b =
     (let p = ip_data b ETH_SIZE in
      need (p + 4) b
       (let b = b[p := ICMP_T_ECHO_REPLAY];
            b = wr16 b (p + 2) 0;
            b = b[p + 1 := 0] in
        bnd (icmpv42buf b p) (\<lambda>b.
        bnd (ip_csum b p (icmp_len b)) (\<lambda>csum.
        Inr (wr16 b (p + 2) csum)))))"

definition reply_ip :: "u8 list \<Rightarrow> u8 list kres" where
  "reply_ip b = need (ETH_SIZE + IP_SIZE) b
     (let dip = rd32 b (ETH_SIZE + 16);
          b = wr32 b (ETH_SIZE + 16) (rd32 b (ETH_SIZE + 12));
          b = wr32 b (ETH_SIZE + 12) dip;
          b = b[ETH_SIZE + 8 := 64];
          b = wr16 b (ETH_SIZE + 10) 0 in
      bnd (ipv42buf b ETH_SIZE) (\<lambda>b.
      bnd (iphlen b ETH_SIZE) (\<lambda>n.
      bnd (ip_csum b ETH_SIZE n) (\<lambda>csum.
      Inr (wr16 b (ETH_SIZE + 10) csum)))))"

definition reply_eth :: "netif \<Rightarrow> u8 list \<Rightarrow> u8 list kres" where
  "reply_eth nif b =
     bnd (memcpy b 0 MAC_SIZE MAC_SIZE) (\<lambda>b.
     eth2buf (splice b MAC_SIZE (take MAC_SIZE (nif_mac nif))))"

definition icmpv4_echo_reply :: "netif list \<Rightarrow> net_buf \<Rightarrow> (int \<times> net_buf \<times> frame list) kres" where
  "icmpv4_echo_reply nifs buf =
     bnd (aget nifs (nb_nic buf)) (\<lambda>nif.
     bnd (reply_icmp (nb_data buf)) (\<lambda>b.
     bnd (reply_ip b) (\<lambda>b.
     bnd (reply_eth nif b) (\<lambda>b.
     bnd (netif_send nif b (unat (nb_size buf))) (\<lambda>f.
     Inr (0, buf\<lparr>nb_data := b\<rparr>, [f]))))))"

definition icmpv4_process :: "netif list \<Rightarrow> net_buf \<Rightarrow> (int \<times> net_buf \<times> frame list) kres" where
  "icmpv4_process nifs buf =
     (let b = nb_data buf; p = ip_data b ETH_SIZE in
      need (ETH_SIZE + IP_SIZE) b
       (bnd (ip_csum b p (icmp_len b)) (\<lambda>csum.
        if csum \<noteq> 0 then Inr (- 1, buf, [])
        else
          bnd (buf2icmpv4 b p) (\<lambda>b.
          let buf = buf\<lparr>nb_data := b\<rparr> in
          if b ! p = ICMP_T_ECHO_REQUEST then
            bnd (icmpv4_echo_reply nifs buf) (\<lambda>(_, buf, fs). Inr (0, buf, fs))
          else Inr (0, buf, [])))))"

section \<open>What each part keeps\<close>

lemma ip_csum_cong:
  assumes "length b = length d" and "\<And>k. i \<le> k \<Longrightarrow> k < i + nat n \<Longrightarrow> b ! k = d ! k"
  shows "ip_csum b i n = ip_csum d i n"
proof -
  have "sum16 acc b i m = sum16 acc d i m" if "\<And>k. i \<le> k \<Longrightarrow> k < i + m \<Longrightarrow> b ! k = d ! k" for acc i m
    using that by (induction acc b i m rule: sum16.induct) (auto simp: rd16_def)
  with assms show ?thesis by (simp add: ip_csum_def need_def)
qed

lemma reply_icmp_spec:
  assumes "ip_ihl b ETH_SIZE = 5" and "24 \<le> icmp_len b + 20" and "34 + nat (icmp_len b) \<le> length b"
  shows "\<exists>d. reply_icmp b = Inr d \<and> length d = length b \<and> (\<forall>k. k < 34 \<or> 38 \<le> k \<longrightarrow> d ! k = b ! k) \<and>
    d ! 34 = 0 \<and> d ! 35 = 0 \<and> ip_csum d 34 (icmp_len b) = Inr 0"
proof -
  have p: "ip_data b ETH_SIZE = 34" using assms(1) by (simp add: ip_data_def ETH_SIZE_def)
  have len: "38 \<le> length b" using assms(2,3) by simp
  define d where "d = (wr16 (b[34 := 0]) 36 0)[35 := 0]"
  have d: "length d = length b" "\<And>k. k < 34 \<or> 38 \<le> k \<Longrightarrow> d ! k = b ! k" "d ! 34 = 0" "d ! 35 = 0" "rd16 d 36 = 0"
    using len by (auto simp: d_def nth_list_update wr16_update rd16_def)
  have same: "icmp_len d = icmp_len b" using d(2) [of 16] d(2) [of 17] by (simp add: icmp_len_def ETH_SIZE_def rd16_def)
  have n: "int (nat (icmp_len b)) = icmp_len b" using assms(2) by simp
  have small: "nat (icmp_len b) < 65536" using unat16 [of "rd16 b (ETH_SIZE + 2)"] unfolding icmp_len_def by linarith
  obtain c where c: "ip_csum d 34 (icmp_len b) = Inr c" "ip_csum (wr16 d 36 c) 34 (icmp_len b) = Inr 0"
    using ip_csum_verifies [of 34 "nat (icmp_len b)" d 1] d small assms n by auto
  have "wr16 d 36 (htons 0) = d"
    using wr16_rd16 [of 36 d] d(1,5) len by (simp add: htons_def swap16_def)
  then have "reply_icmp b = Inr (wr16 d 36 c)"
    using c(1) len d(1,5) same
    by (simp add: reply_icmp_def p need_def ICMP_T_ECHO_REPLAY_def icmpv42buf_def d_def [symmetric])
  moreover have "length (wr16 d 36 c) = length b" using len d(1) by simp
  moreover have "wr16 d 36 c ! k = d ! k" if "k < 36 \<or> 38 \<le> k" for k
    using that len d(1) by (auto simp: wr16_update)
  ultimately show ?thesis using d c(2) by (intro exI [of _ "wr16 d 36 c"]) auto
qed

lemma reply_ip_spec:
  assumes "34 \<le> length b" and "ip_ihl b ETH_SIZE = 5"
  shows "\<exists>d. reply_ip b = Inr d \<and> length d = length b \<and> (\<forall>k. k < 14 \<or> 34 \<le> k \<longrightarrow> d ! k = b ! k) \<and>
    (\<forall>k<8. d ! (14 + k) = convert (htons \<circ> frag_net) (drop 14 b) ! k) \<and> d ! 22 = 64 \<and> d ! 23 = b ! 23 \<and>
    ip_csum d 14 20 = Inr 0 \<and> rd32 d 26 = htonl (rd32 b 30) \<and> rd32 d 30 = htonl (rd32 b 26)"
proof -
  define e where "e = wr16 ((wr32 (wr32 b 30 (rd32 b 26)) 26 (rd32 b 30))[22 := 64]) 24 0"
  have e: "length e = length b" "\<And>k. k < 22 \<or> 34 \<le> k \<Longrightarrow> e ! k = b ! k" "rd16 e 24 = 0"
    using assms(1) by (auto simp: e_def wr16_update wr32_update nth_list_update rd16_def)
  have swapped: "rd32 e 26 = rd32 b 30" "rd32 e 30 = rd32 b 26"
  proof -
    have "rd32 e i = rd32 (wr32 (wr32 b 30 (rd32 b 26)) 26 (rd32 b 30)) i" if "i \<in> {26, 30}" for i
      using that assms(1) by (auto simp: e_def wr16_update intro!: rd32_cong)
    then show "rd32 e 26 = rd32 b 30" "rd32 e 30 = rd32 b 26"
      using assms(1) by (simp_all add: rd32_wr32_same rd32_wr32_other)
  qed
  obtain g where g: "ipv42buf e 14 = Inr g" "converted 14 e g" using ipv42buf_converted [of 14 e] e(1) assms(1) by auto
  have "g = take 14 e @ convert (htons \<circ> frag_net) (drop 14 e)"
    using ipv42buf_at [of "drop 14 e" "take 14 e"] g(1) e(1) assms(1) by simp
  then have head: "g ! (14 + k) = convert (htons \<circ> frag_net) (drop 14 b) ! k" if "k < 8" for k
    using that e(1,2) assms(1) convert_cong8 [of "drop 14 e" "drop 14 b" k] by (simp add: nth_append)
  have ttl: "g ! 22 = 64" "g ! 23 = b ! 23"
    using g(2) assms(1) by (simp_all add: converted_def e_def wr16_update wr32_update)
  have gf: "length g = length b" "\<And>k. k < 14 \<or> 34 \<le> k \<Longrightarrow> g ! k = b ! k" "rd16 g (14 + 2 * 5) = 0"
    "rd32 g 26 = htonl (rd32 b 30)" "rd32 g 30 = htonl (rd32 b 26)" "g ! 14 = swap_nibbles (b ! 14)"
    using g(2) e swapped by (auto simp: converted_def htonl_def swap16_def)
  have "iphlen g 14 = Inr (int 20)"
    using iphlen_spec [of 14 g] gf(1,6) assms swap_nibbles_mod8 [of "b ! 14"] by (simp add: ip_ihl_def ETH_SIZE_def)
  moreover obtain c where c: "ip_csum g 14 (int 20) = Inr c" "ip_csum (wr16 g (14 + 2 * 5) c) 14 (int 20) = Inr 0"
    using ip_csum_verifies [of 14 20 g 5] gf assms(1) by auto
  ultimately have "reply_ip b = Inr (wr16 g 24 c)"
    using assms(1) g(1) by (simp add: reply_ip_def need_def ETH_SIZE_def IP_SIZE_def e_def [symmetric] Let_def)
  moreover have "length (wr16 g 24 c) = length b" using gf(1) assms(1) by simp
  moreover have same: "wr16 g 24 c ! k = g ! k" if "k < 24 \<or> 26 \<le> k" for k
    using that gf(1) assms(1) by (auto simp: wr16_update)
  moreover have "rd32 (wr16 g 24 c) i = rd32 g i" if "26 \<le> i" for i using that same by (intro rd32_cong) simp
  ultimately show ?thesis using gf c(2) head ttl same by (intro exI [of _ "wr16 g 24 c"]) auto
qed

lemma reply_eth_spec:
  assumes "14 \<le> length b" and "length (nif_mac nif) = MAC_SIZE"
  shows "\<exists>d. reply_eth nif b = Inr d \<and> length d = length b \<and> (\<forall>k\<ge>14. d ! k = b ! k) \<and>
    d ! 12 = b ! 13 \<and> d ! 13 = b ! 12 \<and> take 6 d = take 6 (drop 6 b) \<and> take 6 (drop 6 d) = nif_mac nif"
proof -
  have "memcpy b 0 6 6 = Inr (moved b 0 6 6)"
    using memcpy_up_ok [of 0 6 b 6] assms(1) by (simp add: memcpy_def)
  moreover have "moved b 0 6 6 = take 6 (drop 6 b) @ drop 6 b"
    using assms(1) by (simp add: moved_def)
  ultimately have m: "memcpy b 0 6 6 = Inr (take 6 (drop 6 b) @ drop 6 b)" by simp
  define d where "d = take 6 (drop 6 b) @ nif_mac nif @ drop 12 b"
  have d: "splice (take 6 (drop 6 b) @ drop 6 b) 6 (nif_mac nif) = d" "length d = length b"
    using assms by (simp_all add: splice_def d_def MAC_SIZE_def)
  let ?e = "wr16 d 12 (htons (rd16 d 12))"
  have "reply_eth nif b = Inr ?e"
    using m d assms by (simp add: reply_eth_def MAC_SIZE_def eth2buf_def need_def ETH_SIZE_def)
  moreover have "length ?e = length b" "\<forall>k\<ge>14. ?e ! k = b ! k"
    using d(2) assms by (auto simp: wr16_update d_def nth_append MAC_SIZE_def)
  moreover have "take 6 ?e = take 6 (drop 6 b)" "take 6 (drop 6 ?e) = nif_mac nif"
    using assms by (auto simp: wr16_update d_def MAC_SIZE_def list_update_append)
  moreover have "?e ! 12 = b ! 13" "?e ! 13 = b ! 12"
    using assms swap16_bytes [of d 12] d(2) by (simp_all add: htons_def wr16_update) (simp_all add: d_def nth_append MAC_SIZE_def)
  ultimately show ?thesis by blast
qed

section \<open>Properties\<close>

text \<open>
  An echo request that has passed \<open>ip_process\<close>: the IP header has no options and is in host format,
  and the frame holds the whole message.
\<close>

definition echo_request :: "u8 list \<Rightarrow> bool" where
  "echo_request b \<longleftrightarrow> ip_ihl b ETH_SIZE = 5 \<and> 4 \<le> icmp_len b \<and> 34 + nat (icmp_len b) \<le> length b \<and>
     b ! 34 = ICMP_T_ECHO_REQUEST \<and> ip_csum b 34 (icmp_len b) = Inr 0"

definition echo_answer :: "u8 list \<Rightarrow> u8 list \<Rightarrow> u8 list \<Rightarrow> bool" where
  "echo_answer mac b f \<longleftrightarrow> length f = length b \<and> take 6 f = take 6 (drop 6 b) \<and> take 6 (drop 6 f) = mac \<and>
     f ! 12 = b ! 13 \<and> f ! 13 = b ! 12 \<and> (\<forall>k<8. f ! (14 + k) = convert (htons \<circ> frag_net) (drop 14 b) ! k) \<and>
     f ! 22 = 64 \<and> f ! 23 = b ! 23 \<and>
     rd32 f 26 = htonl (rd32 b 30) \<and> rd32 f 30 = htonl (rd32 b 26) \<and> ip_csum f 14 20 = Inr 0 \<and>
     f ! 34 = ICMP_T_ECHO_REPLAY \<and> f ! 35 = 0 \<and> drop 38 f = drop 38 b \<and> ip_csum f 34 (icmp_len b) = Inr 0"

text \<open>
  An echo request is answered: exactly one frame goes out, on the interface the request came from,
  with the addresses exchanged and valid checksums.
\<close>

lemma echo_request_answered:
  assumes "echo_request (nb_data buf)" and "nb_nic buf < length nifs" and "nif = nifs ! nb_nic buf" and "nif_up nif"
    and "length (nif_mac nif) = MAC_SIZE" and "unat (nb_size buf) = length (nb_data buf)"
  shows "\<exists>buf' f. icmpv4_process nifs buf = Inr (0, buf', [(nif_id nif, f)]) \<and>
    echo_answer (nif_mac nif) (nb_data buf) f"
proof -
  let ?b = "nb_data buf"
  have r: "ip_ihl ?b 14 = 5" "4 \<le> icmp_len ?b" "34 + nat (icmp_len ?b) \<le> length ?b" "?b ! 34 = 8"
    "ip_csum ?b 34 (icmp_len ?b) = Inr 0"
    using assms(1) by (auto simp: echo_request_def ETH_SIZE_def ICMP_T_ECHO_REQUEST_def)
  have len: "38 \<le> length ?b" using r by simp
  have p: "ip_data ?b ETH_SIZE = 34" using r(1) by (simp add: ip_data_def ETH_SIZE_def)
  define b1 where "b1 = conv16 36 ?b"
  have b1: "length b1 = length ?b" "\<And>k. k < 36 \<or> 38 \<le> k \<Longrightarrow> b1 ! k = ?b ! k"
    using len by (auto simp: b1_def conv16_swaps)
  have l1: "icmp_len b1 = icmp_len ?b" using b1(2) [of 16] b1(2) [of 17] by (simp add: icmp_len_def ETH_SIZE_def rd16_def)
  have i1: "ip_ihl b1 ETH_SIZE = 5" using r(1) b1(2) [of 14] by (simp add: ip_ihl_def ETH_SIZE_def)
  obtain b2 where b2: "reply_icmp b1 = Inr b2" "length b2 = length ?b" "\<And>k. k < 34 \<or> 38 \<le> k \<Longrightarrow> b2 ! k = b1 ! k"
    "b2 ! 34 = 0" "b2 ! 35 = 0" "ip_csum b2 34 (icmp_len ?b) = Inr 0"
    using reply_icmp_spec [OF i1] r l1 b1(1) by auto
  have i2: "ip_ihl b2 ETH_SIZE = 5" using i1 b2(3) [of 14] by (simp add: ip_ihl_def ETH_SIZE_def)
  have addr: "rd32 b2 i = rd32 ?b i" if "i \<in> {26, 30}" for i
    using that b1(2) b2(3) by (intro rd32_cong) auto
  have h2: "k < 8 \<Longrightarrow> drop 14 b2 ! k = drop 14 ?b ! k" for k using b1(2) b2(2,3) len by simp
  obtain b3 where b3: "reply_ip b2 = Inr b3" "length b3 = length ?b" "\<And>k. k < 14 \<or> 34 \<le> k \<Longrightarrow> b3 ! k = b2 ! k"
    "ip_csum b3 14 20 = Inr 0" "rd32 b3 26 = htonl (rd32 ?b 30)" "rd32 b3 30 = htonl (rd32 ?b 26)"
    "\<And>k. k < 8 \<Longrightarrow> b3 ! (14 + k) = convert (htons \<circ> frag_net) (drop 14 b2) ! k" "b3 ! 22 = 64" "b3 ! 23 = b2 ! 23"
    using reply_ip_spec [OF _ i2] b2(2) len addr by auto
  obtain f where f: "reply_eth nif b3 = Inr f" "length f = length ?b" "\<And>k. 14 \<le> k \<Longrightarrow> f ! k = b3 ! k"
    "take 6 f = take 6 (drop 6 b3)" "take 6 (drop 6 f) = nif_mac nif" "f ! 12 = b3 ! 13" "f ! 13 = b3 ! 12"
    using reply_eth_spec [OF _ assms(5), of b3] b3(2) len by auto
  have sent: "netif_send nif f (unat (nb_size buf)) = Inr (nif_id nif, f)"
    using assms(4,6) f(2) by (simp add: netif_send_def)
  have "icmpv4_process nifs buf = Inr (0, buf\<lparr>nb_data := f\<rparr>, [(nif_id nif, f)])"
    using p r(4,5) len b1(2) [of 34] b2(1) b3(1) f(1) sent assms(2,3)
    by (simp add: icmpv4_process_def Let_def need_def ETH_SIZE_def IP_SIZE_def buf2icmpv4_def b1_def [symmetric]
        ICMP_T_ECHO_REQUEST_def icmpv4_echo_reply_def)
  moreover have "echo_answer (nif_mac nif) ?b f"
  proof -
    have "take 6 (drop 6 b3) = take 6 (drop 6 ?b)"
      using b1 b2(2,3) b3(2,3) len by (intro nth_equalityI) auto
    moreover have "drop 38 f = drop 38 ?b" using b1 b2(2,3) b3(2,3) f(2,3) by (intro nth_equalityI) auto
    moreover have "ip_csum f 14 20 = Inr 0" using ip_csum_cong [of f b3 14 20] f(2,3) b3(2,4) by simp
    moreover have "ip_csum f 34 (icmp_len ?b) = Inr 0"
      using ip_csum_cong [of f b2 34 "icmp_len ?b"] f(2,3) b3(3) b2(2,6) by simp
    moreover have "rd32 f i = rd32 b3 i" if "26 \<le> i" for i using that f(3) by (intro rd32_cong) simp
    moreover have "f ! 12 = ?b ! 13" "f ! 13 = ?b ! 12" "f ! 22 = 64" "f ! 23 = ?b ! 23"
      using f(3,6,7) b3(3,8,9) b2(3) b1(2) by simp_all
    moreover have "f ! (14 + k) = convert (htons \<circ> frag_net) (drop 14 ?b) ! k" if "k < 8" for k
      using f(3) [of "14 + k"] b3(7) [OF that] convert_cong8 [OF h2 that] by simp
    ultimately show ?thesis
      using f b3 b2(4,5) by (simp add: echo_answer_def ICMP_T_ECHO_REPLAY_def)
  qed
  ultimately show ?thesis by blast
qed

definition sample_request :: "u8 list" where
  "sample_request = [2, 2, 2, 2, 2, 2, 9, 9, 9, 9, 9, 9, 0, 8,
     0x54, 0, 28, 0, 7, 7, 0, 0, 64, 1, 1, 2, 3, 2, 0, 10, 4, 2, 0, 10, 8, 0, 0xF7, 0xFB, 0, 1, 0, 3]"

definition sample_nic :: netif where
  "sample_nic = \<lparr>nif_id = 0, nif_mac = [2, 2, 2, 2, 2, 2], nif_ips = [0x0A000204, 0, 0, 0], nif_up = True\<rparr>"

text \<open>
  The length in the IP header is trusted: an ICMP packet whose header announces more bytes than
  the frame holds makes \<open>icmpv4_process\<close> read past the end of the buffer.
\<close>

theorem long_icmp_overread:
  assumes "34 \<le> length (nb_data buf)" and "ip_ihl (nb_data buf) ETH_SIZE = 5"
    and "length (nb_data buf) < 34 + nat (icmp_len (nb_data buf))"
  shows "icmpv4_process nifs buf = Inl Fault"
  using assms by (simp add: icmpv4_process_def Let_def need_def ETH_SIZE_def IP_SIZE_def ip_data_def ip_csum_def)

lemma long_icmp_overread_witness:
  "icmpv4_process [sample_nic] \<lparr>nb_nic = 0, nb_size = 40, nb_captured = False, nb_udata = 0, nb_ulen = 0,
     nb_data = take 40 sample_request\<rparr> = Inl Fault"
  by (rule long_icmp_overread)
    (simp_all add: sample_request_def ip_ihl_def icmp_len_def ETH_SIZE_def IP_SIZE_def rd16_def)

end
