(* ===== verification/Arp.thy ===== *)
theory Arp
  imports Ip
begin

text \<open>
  The address resolution protocol (\<open>arp.c\<close>): the cache of hardware addresses, the answers to requests
  and the resolution of an address. The cache is an array of \<open>ARP_CACHE_SIZE\<close> entries; \<open>now\<close> is the
  result of \<open>get_time()\<close>, the seconds of the clock. \<open>arp_resolve\<close> sends a request and sleeps: it is modelled
  in two halves, before and after the sleep, between which the cache can change.

  The offsets of the fields: Ethernet header at 0, ARP header at 14, its IPv4 body at 22.
\<close>

datatype arpc_status = ARPC_FREE | ARPC_PENDING | ARPC_SOLVED

record arp_entry =
  ae_ip :: u32
  ae_mac :: "u8 list"
  ae_status :: arpc_status
  ae_expire_ts :: u32

record arp_state =
  arp_cache :: "arp_entry list"
  arp_cache_lock :: bool

definition ARPCE_TTL_PENDING :: u32 where "ARPCE_TTL_PENDING = 2"
definition ARPCE_TTL :: u32 where "ARPCE_TTL = 300"
definition ARP_CACHE_SIZE :: nat where "ARP_CACHE_SIZE = 32"
definition HTYPE_ETH :: u16 where "HTYPE_ETH = 0x01"
definition PTYPE_IPV4 :: u16 where "PTYPE_IPV4 = 0x800"
definition ETH_HLEN :: u8 where "ETH_HLEN = 6"
definition IPV4_PLEN :: u8 where "IPV4_PLEN = 4"
definition ARP_OP_REQ :: u16 where "ARP_OP_REQ = 1"
definition ARP_OP_REP :: u16 where "ARP_OP_REP = 2"
definition ETH_P_ARP :: u16 where "ETH_P_ARP = 0x0806"

text \<open>The size of an ARP packet for IPv4: \<open>sizeof(*eth) + sizeof(*arph) + sizeof(*arpd)\<close>.\<close>

definition ARP_SIZE :: nat where "ARP_SIZE = 42"

definition zero_mac :: "u8 list" where
  "zero_mac = replicate MAC_SIZE 0"

definition dead_entry :: arp_entry where
  "dead_entry = \<lparr>ae_ip = 0, ae_mac = zero_mac, ae_status = ARPC_FREE, ae_expire_ts = 0\<rparr>"

section \<open>Byte order\<close>

definition buf2arph :: "u8 list \<Rightarrow> nat \<Rightarrow> u8 list kres" where
  "buf2arph b i = need (i + 8) b (Inr (conv16 (i + 6) (conv16 (i + 2) (conv16 i b))))"

definition arph2buf :: "u8 list \<Rightarrow> nat \<Rightarrow> u8 list kres" where
  "arph2buf b i = need (i + 8) b (Inr (conv16 (i + 6) (conv16 (i + 2) (conv16 i b))))"

definition buf2arpd :: "u8 list \<Rightarrow> nat \<Rightarrow> u8 list kres" where
  "buf2arpd b i = need (i + 20) b (Inr (conv32 (i + 16) (conv32 (i + 6) b)))"

definition arpd2buf :: "u8 list \<Rightarrow> nat \<Rightarrow> u8 list kres" where
  "arpd2buf b i = need (i + 20) b (Inr (conv32 (i + 16) (conv32 (i + 6) b)))"

section \<open>The cache\<close>

definition arp_cache_check_expired :: "u32 \<Rightarrow> nat \<Rightarrow> arp_entry list \<Rightarrow> (int \<times> arp_entry list) kres" where
  "arp_cache_check_expired now idx c =
     bnd (aget c idx) (\<lambda>e. if ae_expire_ts e < now then Inr (0, c[idx := dead_entry]) else Inr (- 1, c))"

text \<open>
  The loop of \<open>arp_cache_get_mac\<close> and \<open>arp_cache_set_mac\<close> over the slots \<open>i, i + 1, \<dots>\<close>, of which \<open>n\<close> are
  left: free the slot if it has expired, leave the loop at the first that satisfies the condition.
\<close>

fun slot_loop :: "u32 \<Rightarrow> (arp_entry \<Rightarrow> bool) \<Rightarrow> nat \<Rightarrow> nat \<Rightarrow> arp_entry list \<Rightarrow> (nat option \<times> arp_entry list) kres" where
  "slot_loop now P i 0 c = Inr (None, c)"
| "slot_loop now P i (Suc n) c =
     bnd (arp_cache_check_expired now i c) (\<lambda>(_, c).
     if P (c ! i) then Inr (Some i, c) else slot_loop now P (Suc i) n c)"

definition arp_cache_get_mac :: "u32 \<Rightarrow> u32 \<Rightarrow> arp_state \<Rightarrow> (int \<times> u8 list option \<times> arp_state) kres" where
  "arp_cache_get_mac now ip s =
     (if arp_cache_lock s then Inl Deadlock
      else
        bnd (slot_loop now (\<lambda>e. ae_status e = ARPC_SOLVED \<and> ae_ip e = ip) 0 ARP_CACHE_SIZE (arp_cache s)) (\<lambda>(r, c).
        case r of
          Some i \<Rightarrow> Inr (int i, Some (ae_mac (c ! i)), s\<lparr>arp_cache := c\<rparr>)
        | None \<Rightarrow> Inr (- 1, None, s\<lparr>arp_cache := c\<rparr>)))"

definition arp_cache_set_mac :: "u32 \<Rightarrow> u32 \<Rightarrow> u8 list \<Rightarrow> arp_state \<Rightarrow> (int \<times> arp_state) kres" where
  "arp_cache_set_mac now ip mac s =
     (if arp_cache_lock s then Inl Deadlock
      else
        bnd (slot_loop now (\<lambda>e. ae_ip e = ip \<and> ae_status e = ARPC_PENDING) 0 ARP_CACHE_SIZE (arp_cache s)) (\<lambda>(r, c).
        case r of
          Some i \<Rightarrow> Inr (int i, s\<lparr>arp_cache :=
            c[i := (c ! i)\<lparr>ae_mac := mac, ae_status := ARPC_SOLVED, ae_expire_ts := now + ARPCE_TTL\<rparr>]\<rparr>)
        | None \<Rightarrow> Inr (- 1, s\<lparr>arp_cache := c\<rparr>)))"

text \<open>\<open>mid\<close> is the local variable that holds the oldest slot so far; it has no initial value.\<close>

fun set_pending_loop :: "u32 \<Rightarrow> u32 \<Rightarrow> nat option \<Rightarrow> nat \<Rightarrow> nat \<Rightarrow> arp_entry list \<Rightarrow>
    (nat option \<times> nat option \<times> arp_entry list) kres" where
  "set_pending_loop now mn mid i 0 c = Inr (None, mid, c)"
| "set_pending_loop now mn mid i (Suc n) c =
     bnd (arp_cache_check_expired now i c) (\<lambda>(_, c).
     if ae_status (c ! i) = ARPC_FREE then Inr (Some i, mid, c)
     else if mn > ae_expire_ts (c ! i) then set_pending_loop now (ae_expire_ts (c ! i)) (Some i) (Suc i) n c
     else set_pending_loop now mn mid (Suc i) n c)"

definition arp_cache_set_pending :: "u32 \<Rightarrow> u32 \<Rightarrow> arp_state \<Rightarrow> (nat \<times> arp_state) kres" where
  "arp_cache_set_pending now ip s =
     (if arp_cache_lock s then Inl Deadlock
      else
        bnd (set_pending_loop now (- 1) None 0 ARP_CACHE_SIZE (arp_cache s)) (\<lambda>(r, mid, c).
        case (if r = None then mid else r) of
          None \<Rightarrow> Inl Fault
        | Some i \<Rightarrow> Inr (i, s\<lparr>arp_cache := c[i := \<lparr>ae_ip = ip, ae_mac = zero_mac, ae_status = ARPC_PENDING,
            ae_expire_ts = now + ARPCE_TTL_PENDING\<rparr>]\<rparr>)))"

section \<open>Packets\<close>

text \<open>The reply to a request for the address in slot \<open>k\<close> of the interface, built in the buffer of the request.\<close>

definition arp_reply :: "netif \<Rightarrow> nat \<Rightarrow> u8 list \<Rightarrow> u8 list kres" where
  "arp_reply nif k b =
     bnd (memcpy b 0 6 MAC_SIZE) (\<lambda>b.
     let b = splice b 6 (take MAC_SIZE (nif_mac nif)) in
     bnd (eth2buf b) (\<lambda>b.
     let b = wr16 b 20 ARP_OP_REP in
     bnd (arph2buf b 14) (\<lambda>b.
     let b = wr32 b 38 (rd32 b 28) in
     bnd (memcpy b 32 22 MAC_SIZE) (\<lambda>b.
     let b = wr32 b 28 (nif_ips nif ! k);
         b = splice b 22 (take MAC_SIZE (nif_mac nif)) in
     arpd2buf b 22))))"

text \<open>
  The result: the return value, the buffer, the cache, the frames sent and the slot of the cache
  whose sleepers are woken.
\<close>

definition arp_process :: "u32 \<Rightarrow> netif list \<Rightarrow> net_buf \<Rightarrow> arp_state \<Rightarrow>
    (int \<times> net_buf \<times> arp_state \<times> frame list \<times> nat option) kres" where
  "arp_process now nifs buf s =
     bnd (buf2eth (nb_data buf)) (\<lambda>b.
     bnd (buf2arph b 14) (\<lambda>b.
     let fail = Inr (- 1, buf\<lparr>nb_data := b\<rparr>, s, [], None) in
     if rd16 b 14 \<noteq> HTYPE_ETH \<or> rd16 b 16 \<noteq> PTYPE_IPV4 then fail
     else if b ! 18 \<noteq> ETH_HLEN \<or> b ! 19 \<noteq> IPV4_PLEN then fail
     else if rd16 b 20 \<noteq> ARP_OP_REQ \<and> rd16 b 20 \<noteq> ARP_OP_REP then fail
     else if unat (nb_size buf) < ARP_SIZE then fail
     else
       bnd (buf2arpd b 22) (\<lambda>b.
       bnd (aget nifs (nb_nic buf)) (\<lambda>nif.
       let fail = Inr (- 1, buf\<lparr>nb_data := b\<rparr>, s, [], None) in
       if \<not> nif_up nif then fail
       else if rd16 b 20 = ARP_OP_REQ then
         (case find (\<lambda>k. nif_ips nif ! k = rd32 b 38) [0..<IFACE_MAX_IPS] of
            None \<Rightarrow> fail
          | Some k \<Rightarrow>
              bnd (arp_reply nif k b) (\<lambda>b.
              bnd (netif_send nif b ARP_SIZE) (\<lambda>f.
              Inr (0, buf\<lparr>nb_data := b\<rparr>, s, [f], None))))
       else
         bnd (arp_cache_set_mac now (rd32 b 28) (take MAC_SIZE (drop 22 b)) s) (\<lambda>(i, s).
         if i < 0 then Inr (- 1, buf\<lparr>nb_data := b\<rparr>, s, [], None)
         else Inr (0, buf\<lparr>nb_data := b\<rparr>, s, [], Some (nat i)))))))"

text \<open>The request that \<open>arp_resolve\<close> builds in a zeroed buffer of \<open>ARP_SIZE\<close> bytes.\<close>

definition arp_request :: "netif \<Rightarrow> u32 \<Rightarrow> u8 list kres" where
  "arp_request nif ip =
     (let b = replicate ARP_SIZE 0;
          b = splice b 0 (replicate MAC_SIZE 0xFF);
          b = splice b 6 (take MAC_SIZE (nif_mac nif));
          b = wr16 b 12 ETH_P_ARP in
      bnd (eth2buf b) (\<lambda>b.
      let b = wr16 b 14 HTYPE_ETH;
          b = wr16 b 16 PTYPE_IPV4;
          b = b[18 := ETH_HLEN, 19 := IPV4_PLEN];
          b = wr16 b 20 ARP_OP_REQ in
      bnd (arph2buf b 14) (\<lambda>b.
      let b = splice b 22 (take MAC_SIZE (nif_mac nif));
          b = wr32 b 28 (nif_ips nif ! 0);
          b = splice b 32 zero_mac;
          b = wr32 b 38 ip in
      arpd2buf b 22)))"

text \<open>
  \<open>arp_resolve\<close> up to the sleep: the answer is known (\<open>Resolved\<close>), there is none (\<open>Failed\<close>), or the
  request is on its way and the caller sleeps on a slot. \<open>mem\<close>: whether \<open>net_buf_alloc\<close> gives a buffer.
\<close>

datatype resolve = Resolved "u8 list" | Failed | Waits nat

definition arp_resolve :: "u32 \<Rightarrow> netif list \<Rightarrow> bool \<Rightarrow> u32 \<Rightarrow> arp_state \<Rightarrow> (resolve \<times> arp_state \<times> frame list) kres" where
  "arp_resolve now nifs mem ip s =
     (if ip = 0xFFFFFFFF then Inr (Resolved zero_mac, s, [])
      else
        bnd (arp_cache_get_mac now ip s) (\<lambda>(i, mac, s).
        if i > 0 then Inr (Resolved (the mac), s, [])
        else if \<not> mem then Inr (Failed, s, [])
        else
          bnd (aget nifs 0) (\<lambda>nif.
          if \<not> nif_up nif then Inr (Failed, s, [])
          else
            bnd (arp_request nif ip) (\<lambda>b.
            bnd (arp_cache_set_pending now ip s) (\<lambda>(i, s).
            bnd (netif_send nif b ARP_SIZE) (\<lambda>f. Inr (Waits i, s, [f])))))))"

definition arp_resolve_end :: "u32 \<Rightarrow> nat \<Rightarrow> arp_state \<Rightarrow> (resolve \<times> arp_state) kres" where
  "arp_resolve_end ip i s =
     (if arp_cache_lock s then Inl Deadlock
      else
        bnd (aget (arp_cache s) i) (\<lambda>e.
        if ae_ip e = ip \<and> ae_status e = ARPC_SOLVED then Inr (Resolved (ae_mac e), s)
        else Inr (Failed, s\<lparr>arp_cache := (arp_cache s)[i := dead_entry]\<rparr>)))"

definition arp_init :: "arp_entry list" where
  "arp_init = replicate ARP_CACHE_SIZE dead_entry"

section \<open>The loops over the cache\<close>

definition fresh :: "u32 \<Rightarrow> arp_entry \<Rightarrow> arp_entry" where
  "fresh now e = (if ae_expire_ts e < now then dead_entry else e)"

text \<open>What the loops may do to the cache: free slots that have expired.\<close>

definition ages :: "u32 \<Rightarrow> arp_entry list \<Rightarrow> arp_entry list \<Rightarrow> bool" where
  "ages now c d \<longleftrightarrow> length d = length c \<and> (\<forall>k<length c. d ! k = c ! k \<or> d ! k = fresh now (c ! k))"

lemma ages_refl [simp]: "ages now c c"
  by (simp add: ages_def)

lemma check_expired_eq: "i < length c \<Longrightarrow> \<exists>r. arp_cache_check_expired now i c = Inr (r, c[i := fresh now (c ! i)])"
  by (auto simp: arp_cache_check_expired_def fresh_def)

lemma fresh_fresh [simp]: "fresh now (fresh now e) = fresh now e"
  by (simp add: fresh_def)

lemma ages_step:
  assumes "ages now (c[i := fresh now (c ! i)]) d"
  shows "ages now c d"
proof -
  have "d ! k = c ! k \<or> d ! k = fresh now (c ! k)" if "k < length c" for k
    using assms that by (cases "k = i") (auto simp: ages_def)
  with assms show ?thesis by (simp add: ages_def)
qed

lemma slot_loop_spec:
  assumes "i + n \<le> length c"
  shows "\<exists>r d. slot_loop now P i n c = Inr (r, d) \<and> ages now c d \<and>
    (case r of None \<Rightarrow> \<forall>k. i \<le> k \<and> k < i + n \<longrightarrow> \<not> P (fresh now (c ! k))
     | Some k \<Rightarrow> i \<le> k \<and> k < i + n \<and> P (fresh now (c ! k)) \<and> d ! k = fresh now (c ! k))"
  using assms
proof (induction n arbitrary: i c)
  case (Suc n)
  let ?c = "c[i := fresh now (c ! i)]"
  obtain x where x: "arp_cache_check_expired now i c = Inr (x, ?c)" using check_expired_eq Suc.prems by force
  show ?case
  proof (cases "P (fresh now (c ! i))")
    case True
    then have "slot_loop now P i (Suc n) c = Inr (Some i, ?c)" using x Suc.prems by simp
    moreover have "ages now c ?c" by (rule ages_step [of _ _ i]) simp
    ultimately show ?thesis using True Suc.prems by (intro exI [of _ "Some i"] exI [of _ ?c]) simp
  next
    case False
    from Suc.IH [of "Suc i" ?c] Suc.prems obtain r d where r: "slot_loop now P (Suc i) n ?c = Inr (r, d)" "ages now ?c d"
      "case r of None \<Rightarrow> \<forall>k. Suc i \<le> k \<and> k < Suc i + n \<longrightarrow> \<not> P (fresh now (?c ! k))
       | Some k \<Rightarrow> Suc i \<le> k \<and> k < Suc i + n \<and> P (fresh now (?c ! k)) \<and> d ! k = fresh now (?c ! k)" by auto
    have "slot_loop now P i (Suc n) c = Inr (r, d)" using x r(1) False Suc.prems by simp
    moreover have "case r of None \<Rightarrow> \<forall>k. i \<le> k \<and> k < i + Suc n \<longrightarrow> \<not> P (fresh now (c ! k))
       | Some k \<Rightarrow> i \<le> k \<and> k < i + Suc n \<and> P (fresh now (c ! k)) \<and> d ! k = fresh now (c ! k)"
    proof (cases r)
      case None
      have "\<not> P (fresh now (c ! k))" if "i \<le> k" "k < i + Suc n" for k
        using r(3) None False that by (cases "k = i") (auto dest!: spec [of _ k])
      with None show ?thesis by simp
    qed (use r(3) in auto)
    ultimately show ?thesis using ages_step [OF r(2)] by blast
  qed
qed auto

lemma set_pending_loop_spec:
  assumes "i + n \<le> length c" and "\<And>k. k < length c \<Longrightarrow> ae_expire_ts (c ! k) < - 1"
    and "0 < i \<longrightarrow> mid \<noteq> None" and "i = 0 \<longrightarrow> mn = - 1 \<and> 0 < n" and "\<And>m. mid = Some m \<Longrightarrow> m < length c"
  shows "\<exists>r m d. set_pending_loop now mn mid i n c = Inr (r, m, d) \<and> ages now c d \<and>
    (\<exists>k<length c. (if r = None then m else r) = Some k)"
  using assms
proof (induction n arbitrary: i c mn mid)
  case 0
  then show ?case by auto
next
  case (Suc n)
  let ?c = "c[i := fresh now (c ! i)]"
  have il: "i < length c" using Suc.prems(1) by simp
  obtain x where x: "arp_cache_check_expired now i c = Inr (x, ?c)" using check_expired_eq il by blast
  have a: "ages now c ?c" by (rule ages_step [of _ _ i]) simp
  show ?case
  proof (cases "ae_status (fresh now (c ! i)) = ARPC_FREE")
    case True
    then have "set_pending_loop now mn mid i (Suc n) c = Inr (Some i, mid, ?c)" using x il by simp
    then show ?thesis using a il by auto
  next
    case False
    then have f: "fresh now (c ! i) = c ! i" by (auto simp: fresh_def dead_entry_def split: if_splits)
    then have cc: "?c = c" by simp
    obtain mn' m' where loop: "set_pending_loop now mn mid i (Suc n) c = set_pending_loop now mn' m' (Suc i) n c"
      and m': "m' \<noteq> None" "\<And>m. m' = Some m \<Longrightarrow> m < length c"
    proof (cases "mn > ae_expire_ts (c ! i)")
      case True
      with False x f cc il show ?thesis by (intro that [of "ae_expire_ts (c ! i)" "Some i"]) simp_all
    next
      case small: False
      then have "i \<noteq> 0" using Suc.prems(2) [OF il] Suc.prems(4) by auto
      then have "mid \<noteq> None" using Suc.prems(3) by simp
      with False small x f cc il Suc.prems(5) show ?thesis by (intro that [of mn mid]) simp_all
    qed
    from Suc.IH [of "Suc i" c m' mn'] Suc.prems(1,2) m' loop show ?thesis by auto
  qed
qed

section \<open>Life of an entry\<close>

text \<open>\<open>dead now ip e\<close>: the entry says nothing about \<open>ip\<close>, now or later.\<close>

definition dead :: "u32 \<Rightarrow> u32 \<Rightarrow> arp_entry \<Rightarrow> bool" where
  "dead now ip e \<longleftrightarrow> (ae_ip e = ip \<longrightarrow> ae_expire_ts e < now \<or> ae_status e = ARPC_FREE)"

definition arp_ok :: "arp_state \<Rightarrow> bool" where
  "arp_ok s \<longleftrightarrow> \<not> arp_cache_lock s \<and> length (arp_cache s) = ARP_CACHE_SIZE \<and> (\<forall>e\<in>set (arp_cache s). ae_expire_ts e < - 1)"

lemma dead_fresh: "dead now ip e \<Longrightarrow> now \<le> t \<Longrightarrow> \<not> (ae_ip (fresh t e) = ip \<and> ae_status (fresh t e) \<noteq> ARPC_FREE)"
  by (auto simp: dead_def fresh_def dead_entry_def)

lemma dead_ages:
  "ages now c d \<Longrightarrow> k < length c \<Longrightarrow> dead t ip (c ! k) \<Longrightarrow> dead t ip (d ! k)"
  by (auto simp: ages_def dead_def fresh_def dead_entry_def split: if_splits)

lemma dead_later: "dead now ip e \<Longrightarrow> now \<le> t \<Longrightarrow> dead t ip e"
  by (auto simp: dead_def)

text \<open>A loop that looks for a live entry of \<open>ip\<close> finds the only slot \<open>i\<close> that is not dead.\<close>

lemma slot_loop_finds:
  assumes "length c = ARP_CACHE_SIZE" and "i < ARP_CACHE_SIZE" and "\<And>k. k < ARP_CACHE_SIZE \<Longrightarrow> k \<noteq> i \<Longrightarrow> dead t ip (c ! k)"
    and "t \<le> now" and "\<not> ae_expire_ts (c ! i) < now" and "P (c ! i)"
    and "\<And>e. P e \<Longrightarrow> ae_ip e = ip \<and> ae_status e \<noteq> ARPC_FREE"
  shows "\<exists>d. slot_loop now P 0 ARP_CACHE_SIZE c = Inr (Some i, d) \<and> ages now c d \<and> d ! i = c ! i"
proof -
  have f: "fresh now (c ! i) = c ! i" using assms(5) by (simp add: fresh_def)
  obtain r d where r: "slot_loop now P 0 ARP_CACHE_SIZE c = Inr (r, d)" "ages now c d"
    "case r of None \<Rightarrow> \<forall>k. 0 \<le> k \<and> k < 0 + ARP_CACHE_SIZE \<longrightarrow> \<not> P (fresh now (c ! k))
     | Some k \<Rightarrow> 0 \<le> k \<and> k < 0 + ARP_CACHE_SIZE \<and> P (fresh now (c ! k)) \<and> d ! k = fresh now (c ! k)"
    using slot_loop_spec [of 0 ARP_CACHE_SIZE c now P] assms(1) by auto
  have "r \<noteq> None" using r(3) f assms(2,6) by (cases r) (auto dest: spec [of _ i])
  then obtain k where k: "r = Some k" "k < ARP_CACHE_SIZE" "P (fresh now (c ! k))" "d ! k = fresh now (c ! k)"
    using r(3) by auto
  have "k = i" using dead_fresh [OF assms(3) [OF k(2)] assms(4)] assms(7) [OF k(3)] by auto
  with r(1,2) k f show ?thesis by auto
qed

section \<open>Properties\<close>

text \<open>
  The cache learns what it asked for (\<open>arp_cache_set_pending\<close>, \<open>arp_cache_set_mac\<close>, \<open>arp_cache_get_mac\<close>
  in \<open>arp.c\<close>): when nothing valid is known about an address, marking it as pending, recording a
  reply for it within two seconds and looking it up within the following five minutes all work on
  the same slot, and the lookup returns the hardware address of the reply. A slot is found even
  when the cache is full.
\<close>

theorem arp_cache_learns:
  assumes "arp_ok s" and "\<forall>e\<in>set (arp_cache s). dead t0 ip e"
    and "t0 \<le> t1" and "t1 \<le> t0 + ARPCE_TTL_PENDING" and "t1 \<le> t2" and "t2 \<le> t1 + ARPCE_TTL"
  shows "\<exists>i s1 s2 s3. arp_cache_set_pending t0 ip s = Inr (i, s1) \<and> arp_cache_set_mac t1 ip mac s1 = Inr (int i, s2) \<and>
    arp_cache_get_mac t2 ip s2 = Inr (int i, Some mac, s3)"
proof -
  let ?c = "arp_cache s"
  have len: "length ?c = ARP_CACHE_SIZE" and nolock: "\<not> arp_cache_lock s" using assms(1) by (auto simp: arp_ok_def)
  have ex: "ae_expire_ts (?c ! k) < - 1" if "k < length ?c" for k using that assms(1) by (auto simp: arp_ok_def)
  obtain r m c1 i where l1: "set_pending_loop t0 (- 1) None 0 ARP_CACHE_SIZE ?c = Inr (r, m, c1)" "ages t0 ?c c1"
    "i < length ?c" "(if r = None then m else r) = Some i"
    using set_pending_loop_spec [of 0 ARP_CACHE_SIZE ?c None "- 1" t0] len ex by (auto simp: ARP_CACHE_SIZE_def)
  define p where "p = \<lparr>ae_ip = ip, ae_mac = zero_mac, ae_status = ARPC_PENDING, ae_expire_ts = t0 + ARPCE_TTL_PENDING\<rparr>"
  have s1: "arp_cache_set_pending t0 ip s = Inr (i, s\<lparr>arp_cache := c1[i := p]\<rparr>)"
    using l1 nolock by (simp add: arp_cache_set_pending_def p_def)
  have len1: "length c1 = ARP_CACHE_SIZE" using l1(2) len by (simp add: ages_def)
  have i: "i < ARP_CACHE_SIZE" using l1(3) len by simp
  have dead1: "dead t0 ip (c1 ! k)" if "k < ARP_CACHE_SIZE" for k
    using dead_ages [OF l1(2), of k] that len assms(2) by auto
  obtain c2 where l2: "slot_loop t1 (\<lambda>e. ae_ip e = ip \<and> ae_status e = ARPC_PENDING) 0 ARP_CACHE_SIZE (c1[i := p]) = Inr (Some i, c2)"
    "ages t1 (c1[i := p]) c2" "c2 ! i = c1[i := p] ! i"
    using slot_loop_finds [of "c1[i := p]" i t0 ip t1 "\<lambda>e. ae_ip e = ip \<and> ae_status e = ARPC_PENDING"] len1 i dead1 assms(3,4)
    by (auto simp: p_def not_less)
  define q where "q = p\<lparr>ae_mac := mac, ae_status := ARPC_SOLVED, ae_expire_ts := t1 + ARPCE_TTL\<rparr>"
  have len2: "length c2 = ARP_CACHE_SIZE" using l2(2) len1 by (simp add: ages_def)
  have s2: "arp_cache_set_mac t1 ip mac (s\<lparr>arp_cache := c1[i := p]\<rparr>) = Inr (int i, s\<lparr>arp_cache := c2[i := q]\<rparr>)"
    using l2 nolock len1 i by (simp add: arp_cache_set_mac_def q_def)
  have dead2: "dead t0 ip (c2 ! k)" if "k < ARP_CACHE_SIZE" "k \<noteq> i" for k
    using dead_ages [OF l2(2), of k t0 ip] dead1 [of k] that len1 by simp
  obtain c3 where l3: "slot_loop t2 (\<lambda>e. ae_status e = ARPC_SOLVED \<and> ae_ip e = ip) 0 ARP_CACHE_SIZE (c2[i := q]) = Inr (Some i, c3)"
    "c3 ! i = c2[i := q] ! i"
    using slot_loop_finds [of "c2[i := q]" i t0 ip t2 "\<lambda>e. ae_status e = ARPC_SOLVED \<and> ae_ip e = ip"] len2 i dead2
      order_trans [OF assms(3,5)] assms(6)
    by (auto simp: q_def p_def not_less)
  have "arp_cache_get_mac t2 ip (s\<lparr>arp_cache := c2[i := q]\<rparr>) = Inr (int i, Some mac, s\<lparr>arp_cache := c3\<rparr>)"
    using l3 nolock len2 i by (simp add: arp_cache_get_mac_def q_def)
  with s1 s2 show ?thesis by blast
qed

lemma arp_cache_learns_witness:
  "\<exists>i s1 s2 s3. arp_cache_set_pending 10 0x0A000202 \<lparr>arp_cache = arp_init, arp_cache_lock = False\<rparr> = Inr (i, s1) \<and>
    arp_cache_set_mac 11 0x0A000202 [1, 2, 3, 4, 5, 6] s1 = Inr (int i, s2) \<and>
    arp_cache_get_mac 200 0x0A000202 s2 = Inr (int i, Some [1, 2, 3, 4, 5, 6], s3)"
  by (rule arp_cache_learns)
    (simp_all add: arp_ok_def arp_init_def dead_def dead_entry_def ARPCE_TTL_PENDING_def ARPCE_TTL_def word_gt_0)

lemma set_mac_spec:
  assumes "arp_cache_set_mac now ip mac s = Inr (i, s')" and "length (arp_cache s) = ARP_CACHE_SIZE"
  shows "\<exists>d. ages now (arp_cache s) d \<and>
    (if i < 0 then arp_cache s' = d \<and> (\<forall>k<ARP_CACHE_SIZE. ae_status (arp_cache s ! k) = ARPC_PENDING \<and>
       ae_ip (arp_cache s ! k) = ip \<longrightarrow> ae_expire_ts (arp_cache s ! k) < now)
     else nat i < ARP_CACHE_SIZE \<and> ae_status (arp_cache s ! nat i) = ARPC_PENDING \<and> ae_ip (arp_cache s ! nat i) = ip \<and>
       \<not> ae_expire_ts (arp_cache s ! nat i) < now \<and> d ! nat i = arp_cache s ! nat i \<and>
       arp_cache s' = d[nat i := (d ! nat i)\<lparr>ae_mac := mac, ae_status := ARPC_SOLVED, ae_expire_ts := now + ARPCE_TTL\<rparr>])"
proof -
  have nolock: "\<not> arp_cache_lock s" using assms(1) by (auto simp: arp_cache_set_mac_def)
  let ?P = "\<lambda>e. ae_ip e = ip \<and> ae_status e = ARPC_PENDING"
  obtain r d where r: "slot_loop now ?P 0 ARP_CACHE_SIZE (arp_cache s) = Inr (r, d)" "ages now (arp_cache s) d"
    "case r of None \<Rightarrow> \<forall>k. 0 \<le> k \<and> k < 0 + ARP_CACHE_SIZE \<longrightarrow> \<not> ?P (fresh now (arp_cache s ! k))
     | Some k \<Rightarrow> 0 \<le> k \<and> k < 0 + ARP_CACHE_SIZE \<and> ?P (fresh now (arp_cache s ! k)) \<and> d ! k = fresh now (arp_cache s ! k)"
    using slot_loop_spec [of 0 ARP_CACHE_SIZE "arp_cache s" now ?P] assms(2) by auto
  show ?thesis
  proof (cases r)
    case None
    have "ae_expire_ts (arp_cache s ! k) < now"
      if "k < ARP_CACHE_SIZE" "ae_status (arp_cache s ! k) = ARPC_PENDING" "ae_ip (arp_cache s ! k) = ip" for k
      using r(3) None that by (auto simp: fresh_def split: if_splits)
    with None show ?thesis using assms(1) r(1,2) nolock by (auto simp: arp_cache_set_mac_def)
  next
    case (Some k)
    have live: "fresh now (arp_cache s ! k) = arp_cache s ! k" "\<not> ae_expire_ts (arp_cache s ! k) < now"
      using r(3) Some by (auto simp: fresh_def dead_entry_def split: if_splits)
    have "i = int k" "arp_cache s' = d[k := (d ! k)\<lparr>ae_mac := mac, ae_status := ARPC_SOLVED, ae_expire_ts := now + ARPCE_TTL\<rparr>]"
      using assms(1) r(1) Some nolock by (auto simp: arp_cache_set_mac_def)
    with r(2,3) Some live show ?thesis by (intro exI [of _ d]) auto
  qed
qed

text \<open>
  An ARP reply for IPv4 over Ethernet on the wire: the packet \<open>b\<close> says that \<open>ip\<close> has the hardware address \<open>mac\<close>. The four bytes
  of the address are in network order, most significant first.
\<close>

definition says :: "u8 list \<Rightarrow> u32 \<Rightarrow> u8 list \<Rightarrow> bool" where
  "says b ip mac \<longleftrightarrow> take 8 (drop 14 b) = [0, 1, 8, 0, 6, 4, 0, 2] \<and>
     mac = take 6 (drop 22 b) \<and> ip = rd32 (rev (take 4 (drop 28 b))) 0"

lemma take_drop_nth: "n + k \<le> length b \<Longrightarrow> take k (drop n b) = map (\<lambda>i. b ! (n + i)) [0..<k]"
  by (rule nth_equalityI) simp_all

lemma rd16_bytes: "rd16 b i = w \<longleftrightarrow> [b ! i, b ! (i + 1)] = le16 w"
proof
  assume "rd16 b i = w"
  then show "[b ! i, b ! (i + 1)] = le16 w" using le16_rd16 [of b i] by (simp add: le16_def)
next
  assume e: "[b ! i, b ! (i + 1)] = le16 w"
  have "rd16 b i = rd16 ([b ! i, b ! (i + 1)] @ []) 0" by (simp add: rd16_def)
  then show "rd16 b i = w" unfolding e by (simp only: rd16_le16)
qed

text \<open>What \<open>arp_process\<close> sees after the conversions.\<close>

lemma arp_header:
  assumes "22 \<le> length b"
  defines "h \<equiv> conv16 20 (conv16 16 (conv16 14 (conv16 12 b)))"
  shows "bnd (buf2eth b) (\<lambda>b. buf2arph b 14) = Inr h" and "length h = length b"
    and "rd16 h 14 = HTYPE_ETH \<and> rd16 h 16 = PTYPE_IPV4 \<and> h ! 18 = ETH_HLEN \<and> h ! 19 = IPV4_PLEN \<and> rd16 h 20 = ARP_OP_REP \<longleftrightarrow>
      take 8 (drop 14 b) = [0, 1, 8, 0, 6, 4, 0, 2]"
proof -
  have h: "h = b[12 := b ! 13, 13 := b ! 12, 14 := b ! 15, 15 := b ! 14, 16 := b ! 17, 17 := b ! 16, 20 := b ! 21, 21 := b ! 20]"
    using assms by (simp add: conv16_swaps)
  show "length h = length b" by (simp add: h)
  show "bnd (buf2eth b) (\<lambda>b. buf2arph b 14) = Inr h"
    using assms by (simp add: buf2eth_def buf2arph_def need_def ETH_SIZE_def h_def conv16_swaps)
  show "rd16 h 14 = HTYPE_ETH \<and> rd16 h 16 = PTYPE_IPV4 \<and> h ! 18 = ETH_HLEN \<and> h ! 19 = IPV4_PLEN \<and> rd16 h 20 = ARP_OP_REP \<longleftrightarrow>
      take 8 (drop 14 b) = [0, 1, 8, 0, 6, 4, 0, 2]"
    using assms(1) by (auto simp: take_drop_nth rd16_bytes h le16_def HTYPE_ETH_def PTYPE_IPV4_def ETH_HLEN_def IPV4_PLEN_def ARP_OP_REP_def upt_rec)
qed

lemma arp_body:
  assumes "42 \<le> length b"
  defines "h \<equiv> conv16 20 (conv16 16 (conv16 14 (conv16 12 b)))"
  shows "rd16 (conv32 38 (conv32 28 h)) 20 = rd16 h 20"
    and "take 6 (drop 22 (conv32 38 (conv32 28 h))) = take 6 (drop 22 b)"
    and "rd32 (conv32 38 (conv32 28 h)) 28 = rd32 (rev (take 4 (drop 28 b))) 0"
proof -
  have h: "h = b[12 := b ! 13, 13 := b ! 12, 14 := b ! 15, 15 := b ! 14, 16 := b ! 17, 17 := b ! 16, 20 := b ! 21, 21 := b ! 20]"
    using assms by (simp add: conv16_swaps)
  have l: "42 \<le> length h" using assms by (simp add: h)
  show "rd16 (conv32 38 (conv32 28 h)) 20 = rd16 h 20"
    using l by (simp add: conv32_swaps rd16_def)
  show "take 6 (drop 22 (conv32 38 (conv32 28 h))) = take 6 (drop 22 b)"
    using l assms(1) by (simp add: conv32_swaps take_drop_nth h upt_rec)
  show "rd32 (conv32 38 (conv32 28 h)) 28 = rd32 (rev (take 4 (drop 28 b))) 0"
    using l assms(1) by (simp add: conv32_swaps take_drop_nth h upt_rec rd32_def)
qed

lemma arp_process_cases:
  assumes "arp_process now nifs buf s = Inr (r, buf', s', fs, w)"
  obtains "s' = s" "w = None"
      "\<And>ip mac. says (nb_data buf) ip mac \<Longrightarrow> unat (nb_size buf) < ARP_SIZE \<or> \<not> nif_up (nifs ! nb_nic buf)"
  | ip mac i where "says (nb_data buf) ip mac" "arp_cache_set_mac now ip mac s = Inr (i, s')"
      "w = (if i < 0 then None else Some (nat i))"
proof -
  let ?b = "nb_data buf"
  obtain b1 h0 where "buf2eth ?b = Inr b1" "buf2arph b1 14 = Inr h0" using assms unfolding arp_process_def bnd_eq_Inr by blast
  then have len: "22 \<le> length ?b" by (auto simp: buf2eth_def buf2arph_def need_def ETH_SIZE_def conv16_swaps split: if_splits)
  define h where "h = conv16 20 (conv16 16 (conv16 14 (conv16 12 ?b)))"
  define g where "g = conv32 38 (conv32 28 h)"
  note c = arp_header [OF len, folded h_def]
  obtain b1 where b1: "buf2eth ?b = Inr b1" "buf2arph b1 14 = Inr h" using c(1) by (auto simp: bnd_eq_Inr)
  have d: "buf2arpd h 22 = (if 42 \<le> length ?b then Inr g else Inl Fault)" by (simp add: buf2arpd_def need_def c(2) g_def)
  show ?thesis
  proof (cases "take 8 (drop 14 ?b) = [0, 1, 8, 0, 6, 4, 0, 2] \<and> \<not> unat (nb_size buf) < ARP_SIZE \<and> nif_up (nifs ! nb_nic buf)")
    case reply: True
    then have hd: "rd16 h 14 = HTYPE_ETH" "rd16 h 16 = PTYPE_IPV4" "h ! 18 = ETH_HLEN" "h ! 19 = IPV4_PLEN" "rd16 h 20 = ARP_OP_REP"
      using c(3) by auto
    have l42: "42 \<le> length ?b"
      using assms reply b1 d hd by (auto simp: arp_process_def Let_def bnd_eq_Inr split: if_splits)
    note e = arp_body [OF l42, folded h_def, folded g_def]
    obtain i s1 where i: "arp_cache_set_mac now (rd32 g 28) (take MAC_SIZE (drop 22 g)) s = Inr (i, s1)"
      and w: "s' = s1" "w = (if i < 0 then None else Some (nat i))"
      using assms reply b1 d hd l42 e(1) by (auto simp: arp_process_def Let_def bnd_eq_Inr aget_eq_Inr ARP_OP_REP_def ARP_OP_REQ_def split: if_splits)
    have "says ?b (rd32 g 28) (take MAC_SIZE (drop 22 g))" using reply e(2,3) by (simp add: says_def MAC_SIZE_def)
    with i w that(2) show ?thesis by blast
  next
    case False
    have "rd16 g 20 = rd16 h 20" if "42 \<le> length ?b" using arp_body(1) [OF that] by (simp add: h_def g_def)
    then have "s' = s \<and> w = None"
      using assms False b1 d c(3)
      by (auto simp: arp_process_def Let_def bnd_eq_Inr aget_eq_Inr split: if_splits option.splits)
    with False that(1) show ?thesis by (auto simp: says_def)
  qed
qed

text \<open>
  C17. No packet makes the cache believe something it did not ask for (\<open>arp_process\<close> in \<open>arp.c\<close>): whatever arrives, afterwards
  every slot is as it was, or was freed because it had expired, or the packet is a reply on the wire that says
  \<open>ip\<close> is at \<open>mac\<close>, the slot was waiting for exactly this \<open>ip\<close>, still in time, it now holds exactly this \<open>mac\<close> as solved, and its
  sleepers are woken. So replies nobody asked for, and replies for addresses that are already known, change nothing. Conversely, when a slot
  waits for the address of a complete reply that comes in on an interface that is up, a slot waiting for it
  gets the hardware address and its sleepers are woken.
\<close>

theorem arp_only_asked_answers:
  assumes "arp_process now nifs buf s = Inr (r, buf', s', fs, w)" and "length (arp_cache s) = ARP_CACHE_SIZE"
    and "k < ARP_CACHE_SIZE"
  shows "(arp_cache s' ! k = arp_cache s ! k \<or>
      ae_expire_ts (arp_cache s ! k) < now \<and> arp_cache s' ! k = dead_entry \<or>
      (\<exists>mac. says (nb_data buf) (ae_ip (arp_cache s ! k)) mac \<and> w = Some k \<and>
        ae_status (arp_cache s ! k) = ARPC_PENDING \<and> \<not> ae_expire_ts (arp_cache s ! k) < now \<and>
        arp_cache s' ! k = (arp_cache s ! k)\<lparr>ae_mac := mac, ae_status := ARPC_SOLVED, ae_expire_ts := now + ARPCE_TTL\<rparr>)) \<and>
    (\<forall>mac. says (nb_data buf) (ae_ip (arp_cache s ! k)) mac \<and> ARP_SIZE \<le> unat (nb_size buf) \<and> nif_up (nifs ! nb_nic buf) \<and>
        ae_status (arp_cache s ! k) = ARPC_PENDING \<and> \<not> ae_expire_ts (arp_cache s ! k) < now \<longrightarrow>
      (\<exists>j<ARP_CACHE_SIZE. w = Some j \<and> arp_cache s' ! j =
        (arp_cache s ! j)\<lparr>ae_ip := ae_ip (arp_cache s ! k), ae_mac := mac, ae_status := ARPC_SOLVED, ae_expire_ts := now + ARPCE_TTL\<rparr>))"
  using assms(1)
proof (cases rule: arp_process_cases)
  case (2 ip mac i)
  obtain d where d: "ages now (arp_cache s) d" and c: "if i < 0 then arp_cache s' = d \<and> (\<forall>k<ARP_CACHE_SIZE.
      ae_status (arp_cache s ! k) = ARPC_PENDING \<and> ae_ip (arp_cache s ! k) = ip \<longrightarrow> ae_expire_ts (arp_cache s ! k) < now)
    else nat i < ARP_CACHE_SIZE \<and> ae_status (arp_cache s ! nat i) = ARPC_PENDING \<and> ae_ip (arp_cache s ! nat i) = ip \<and>
     \<not> ae_expire_ts (arp_cache s ! nat i) < now \<and> d ! nat i = arp_cache s ! nat i \<and>
     arp_cache s' = d[nat i := (d ! nat i)\<lparr>ae_mac := mac, ae_status := ARPC_SOLVED, ae_expire_ts := now + ARPCE_TTL\<rparr>]"
    using set_mac_spec [OF 2(2) assms(2)] by blast
  have dk: "d ! k = arp_cache s ! k \<or> ae_expire_ts (arp_cache s ! k) < now \<and> d ! k = dead_entry" "length d = ARP_CACHE_SIZE"
    using d assms(2,3) by (auto simp: ages_def fresh_def split: if_splits)
  have one: "ip' = ip \<and> mac' = mac" if "says (nb_data buf) ip' mac'" for ip' mac' using that 2(1) by (simp add: says_def)
  show ?thesis
  proof (cases "i < 0")
    case True
    then show ?thesis using c dk one assms(3) by auto
  next
    case False
    then have i: "nat i < ARP_CACHE_SIZE" "ae_ip (arp_cache s ! nat i) = ip" "w = Some (nat i)"
      "arp_cache s' ! nat i = (arp_cache s ! nat i)\<lparr>ae_mac := mac, ae_status := ARPC_SOLVED, ae_expire_ts := now + ARPCE_TTL\<rparr>"
      using c dk(2) 2(3) by auto
    have other: "arp_cache s' ! k = d ! k" if "k \<noteq> nat i" using that c False by simp
    have solved: "arp_cache s' ! nat i = (arp_cache s ! nat i)\<lparr>ae_ip := ip, ae_mac := mac, ae_status := ARPC_SOLVED, ae_expire_ts := now + ARPCE_TTL\<rparr>"
      using i(2,4) by simp
    have pend: "ae_status (arp_cache s ! nat i) = ARPC_PENDING" "\<not> ae_expire_ts (arp_cache s ! nat i) < now" using c False by simp_all
    show ?thesis
    proof (rule conjI)
      show "arp_cache s' ! k = arp_cache s ! k \<or>
          ae_expire_ts (arp_cache s ! k) < now \<and> arp_cache s' ! k = dead_entry \<or>
          (\<exists>mac. says (nb_data buf) (ae_ip (arp_cache s ! k)) mac \<and> w = Some k \<and>
            ae_status (arp_cache s ! k) = ARPC_PENDING \<and> \<not> ae_expire_ts (arp_cache s ! k) < now \<and>
            arp_cache s' ! k = (arp_cache s ! k)\<lparr>ae_mac := mac, ae_status := ARPC_SOLVED, ae_expire_ts := now + ARPCE_TTL\<rparr>)"
        using i(2-4) pend 2(1) other dk(1) by (cases "k = nat i") metis+
    qed (use solved one i(1,3) in blast)
  qed
next
  case 1
  then show ?thesis by (meson not_less)
qed

section \<open>Answering requests\<close>

text \<open>The bytes of an ARP packet for IPv4 on the wire; the addresses are in network order.\<close>

definition arp_frame :: "u8 list \<Rightarrow> u8 list \<Rightarrow> u8 \<Rightarrow> u8 list \<Rightarrow> u8 list \<Rightarrow> u8 list \<Rightarrow> u8 list \<Rightarrow> u8 list" where
  "arp_frame edst esrc opc smac sip dmac dip =
     edst @ esrc @ [8, 6, 0, 1, 8, 0, 6, 4, 0, opc] @ smac @ sip @ dmac @ dip"

lemma list6: "length xs = 6 \<Longrightarrow> \<exists>a b c d e f. xs = [a, b, c, d, e, f]"
  by (auto simp: eval_nat_numeral length_Suc_conv)

lemma list4: "length xs = 4 \<Longrightarrow> \<exists>a b c d. xs = [a, b, c, d]"
  by (auto simp: eval_nat_numeral length_Suc_conv)

text \<open>The frame in host format, as \<open>arp_process\<close> sees it after the conversions.\<close>

definition host_frame :: "u8 list \<Rightarrow> u8 list \<Rightarrow> u8 \<Rightarrow> u8 list \<Rightarrow> u8 list \<Rightarrow> u8 list \<Rightarrow> u8 list \<Rightarrow> u8 list" where
  "host_frame edst esrc opc smac sip dmac dip =
     edst @ esrc @ [6, 8, 1, 0, 0, 8, 6, 4, opc, 0] @ smac @ rev sip @ dmac @ rev dip"

lemma conv_at:
  "length pre = i \<Longrightarrow> conv16 i (pre @ x # y # r) = pre @ y # x # r"
  "length pre = i \<Longrightarrow> conv32 i (pre @ x # y # z # u # r) = pre @ u # z # y # x # r"
  using conv_append(1) [of 0 "x # y # r" pre] conv_append(2) [of 0 "x # y # z # u # r" pre] by (simp_all add: conv_Cons)

lemma to_host:
  assumes "length edst = 6" "length esrc = 6" "length smac = 6" "length sip = 4" "length dmac = 6" "length dip = 4"
  shows "bnd (buf2eth (arp_frame edst esrc opc smac sip dmac dip @ pad)) (\<lambda>b. bnd (buf2arph b 14) (\<lambda>b. buf2arpd b 22)) =
    Inr (host_frame edst esrc opc smac sip dmac dip @ pad)"
proof -
  obtain s0 s1 s2 s3 d0 d1 d2 d3 where ip: "sip = [s0, s1, s2, s3]" "dip = [d0, d1, d2, d3]" using list4 [OF assms(4)] list4 [OF assms(6)] by blast
  have "buf2eth (arp_frame edst esrc opc smac sip dmac dip @ pad) =
      Inr ((edst @ esrc) @ 6 # 8 # [0, 1, 8, 0, 6, 4, 0, opc] @ smac @ sip @ dmac @ dip @ pad)" (is "_ = Inr ?b1")
    using assms conv_at(1) [of "edst @ esrc" 12 8 6 "[0, 1, 8, 0, 6, 4, 0, opc] @ smac @ sip @ dmac @ dip @ pad"]
    by (simp add: buf2eth_def arp_frame_def need_def ETH_SIZE_def)
  moreover have "buf2arph ?b1 14 =
      Inr ((edst @ esrc @ [6, 8, 1, 0, 0, 8, 6, 4, opc, 0] @ smac) @ s0 # s1 # s2 # s3 # dmac @ dip @ pad)" (is "_ = Inr ?b2")
    using assms ip conv_at(1) [of "edst @ esrc @ [6, 8]" 14 0 1 "[8, 0, 6, 4, 0, opc] @ smac @ sip @ dmac @ dip @ pad"]
      conv_at(1) [of "edst @ esrc @ [6, 8, 1, 0]" 16 8 0 "[6, 4, 0, opc] @ smac @ sip @ dmac @ dip @ pad"]
      conv_at(1) [of "edst @ esrc @ [6, 8, 1, 0, 0, 8, 6, 4]" 20 0 opc "smac @ sip @ dmac @ dip @ pad"]
    by (simp add: buf2arph_def need_def)
  moreover have "buf2arpd ?b2 22 = Inr (host_frame edst esrc opc smac sip dmac dip @ pad)"
    using assms ip conv_at(2) [of "edst @ esrc @ [6, 8, 1, 0, 0, 8, 6, 4, opc, 0] @ smac" 28 s0 s1 s2 s3 "dmac @ dip @ pad"]
      conv_at(2) [of "edst @ esrc @ [6, 8, 1, 0, 0, 8, 6, 4, opc, 0] @ smac @ [s3, s2, s1, s0] @ dmac" 38 d0 d1 d2 d3 pad]
    by (simp add: buf2arpd_def need_def host_frame_def)
  ultimately show ?thesis by simp
qed

lemma splice_at: "length pre = i \<Longrightarrow> length mid = length new \<Longrightarrow> splice (pre @ mid @ r) i new = pre @ new @ r"
  by (simp add: splice_def)

lemma le32_rd32: "le32 (rd32 [a, b, c, d] 0) = [a, b, c, d]"
proof -
  have "le32 w = [byte_of w 0, byte_of w 1, byte_of w 2, byte_of w 3]" for w
    by (simp add: le32_def byte_of_def)
  then show ?thesis by (simp only: byte_of_rd32) simp
qed

lemma wr32_at: "length pre = i \<Longrightarrow> length mid = 4 \<Longrightarrow> wr32 (pre @ mid @ r) i w = pre @ le32 w @ r"
  by (simp add: wr32_def splice_at)

lemma rd32_at: "length pre = i \<Longrightarrow> rd32 (pre @ [a, b, c, d] @ r) i = rd32 [a, b, c, d] 0"
  using rd32_append [of pre "[a, b, c, d] @ r" 0] by (simp add: rd32_def)

lemma memcpy_at:
  assumes "length p1 = i" and "length old = n" and "j = i + n + length p2" and "length src = n"
  shows "memcpy (p1 @ old @ p2 @ src @ r) i j n = Inr (p1 @ src @ p2 @ src @ r)"
  using memcpy_up_ok [of i n "p1 @ old @ p2 @ src @ r" j] assms by (simp add: memcpy_def moved_def)

lemma memcpy_back_at:
  assumes "length p1 = j" and "length src = n" and "i = j + n + length p2" and "length old = n"
  shows "memcpy (p1 @ src @ p2 @ old @ r) i j n = Inr (p1 @ src @ p2 @ src @ r)"
  using memcpy_up_ok [of i n "p1 @ src @ p2 @ old @ r" j] assms by (simp add: memcpy_def moved_def)

lemma eth2buf_conv: "eth2buf b = need ETH_SIZE b (Inr (conv16 12 b))"
  by (simp add: eth2buf_def conv16_def htons_def ntohs_def)

lemma arp_reply_frame:
  assumes "length edst = 6" "length esrc = 6" "length smac = 6" "length sip = 4" "length dmac = 6" "length dip = 4"
    and "length (nif_mac nif) = 6" and "nif_ips nif ! k = rd32 (rev dip) 0"
  shows "arp_reply nif k (host_frame edst esrc 1 smac sip dmac dip @ pad) =
    Inr (arp_frame esrc (nif_mac nif) 2 (nif_mac nif) dip smac sip @ pad)"
proof -
  let ?m = "nif_mac nif" and ?h = "[6, 8, 1, 0, 0, 8, 6, 4] :: u8 list"
  obtain s0 s1 s2 s3 d0 d1 d2 d3 where ip: "sip = [s0, s1, s2, s3]" "dip = [d0, d1, d2, d3]"
    using list4 [OF assms(4)] list4 [OF assms(6)] by blast
  have 1: "memcpy (host_frame edst esrc 1 smac sip dmac dip @ pad) 0 6 MAC_SIZE =
      Inr (esrc @ esrc @ ?h @ [1, 0] @ smac @ rev sip @ dmac @ rev dip @ pad)"
    using memcpy_at [of "[]" 0 edst 6 6 "[]" esrc "?h @ [1, 0] @ smac @ rev sip @ dmac @ rev dip @ pad"] assms(1,2)
    by (simp add: host_frame_def MAC_SIZE_def)
  have 2: "splice (esrc @ esrc @ ?h @ [1, 0] @ smac @ rev sip @ dmac @ rev dip @ pad) 6 (take MAC_SIZE ?m) =
      esrc @ ?m @ ?h @ [1, 0] @ smac @ rev sip @ dmac @ rev dip @ pad"
    using splice_at [of esrc 6 esrc ?m] assms(2,7) by (simp add: MAC_SIZE_def)
  have 3: "eth2buf (esrc @ ?m @ ?h @ [1, 0] @ smac @ rev sip @ dmac @ rev dip @ pad) =
      Inr (esrc @ ?m @ [8, 6, 1, 0, 0, 8, 6, 4, 1, 0] @ smac @ rev sip @ dmac @ rev dip @ pad)"
    using conv_at(1) [of "esrc @ ?m" 12 6 8 "[1, 0, 0, 8, 6, 4, 1, 0] @ smac @ rev sip @ dmac @ rev dip @ pad"] assms(2,7)
    by (simp add: eth2buf_conv need_def ETH_SIZE_def)
  have 4: "wr16 (esrc @ ?m @ [8, 6, 1, 0, 0, 8, 6, 4, 1, 0] @ smac @ rev sip @ dmac @ rev dip @ pad) 20 ARP_OP_REP =
      esrc @ ?m @ [8, 6, 1, 0, 0, 8, 6, 4, 2, 0] @ smac @ rev sip @ dmac @ rev dip @ pad"
    using splice_at [of "esrc @ ?m @ [8, 6, 1, 0, 0, 8, 6, 4]" 20 "[1, 0]" "[2, 0]" "smac @ rev sip @ dmac @ rev dip @ pad"] assms(2,7)
    by (simp add: wr16_def le16_def ARP_OP_REP_def)
  have 5: "arph2buf (esrc @ ?m @ [8, 6, 1, 0, 0, 8, 6, 4, 2, 0] @ smac @ rev sip @ dmac @ rev dip @ pad) 14 =
      Inr (esrc @ ?m @ [8, 6, 0, 1, 8, 0, 6, 4, 0, 2] @ smac @ rev sip @ dmac @ rev dip @ pad)"
    using conv_at(1) [of "esrc @ ?m @ [8, 6]" 14 1 0 "[0, 8, 6, 4, 2, 0] @ smac @ rev sip @ dmac @ rev dip @ pad"]
      conv_at(1) [of "esrc @ ?m @ [8, 6, 0, 1]" 16 0 8 "[6, 4, 2, 0] @ smac @ rev sip @ dmac @ rev dip @ pad"]
      conv_at(1) [of "esrc @ ?m @ [8, 6, 0, 1, 8, 0, 6, 4]" 20 2 0 "smac @ rev sip @ dmac @ rev dip @ pad"] assms(2,3,7) ip
    by (simp add: arph2buf_def need_def)
  let ?p = "esrc @ ?m @ [8, 6, 0, 1, 8, 0, 6, 4, 0, 2]"
  have 6: "wr32 (?p @ smac @ rev sip @ dmac @ rev dip @ pad) 38 (rd32 (?p @ smac @ rev sip @ dmac @ rev dip @ pad) 28) =
      ?p @ smac @ rev sip @ dmac @ rev sip @ pad"
    using wr32_at [of "?p @ smac @ rev sip @ dmac" 38 "rev dip" pad] rd32_at [of "?p @ smac" 28 s3 s2 s1 s0] assms(2,3,5,7) ip
    by (simp add: le32_rd32)
  have 7: "memcpy (?p @ smac @ rev sip @ dmac @ rev sip @ pad) 32 22 MAC_SIZE = Inr (?p @ smac @ rev sip @ smac @ rev sip @ pad)"
    using memcpy_back_at [of ?p 22 smac 6 32 "rev sip" dmac "rev sip @ pad"] assms by (simp add: MAC_SIZE_def)
  have 8: "splice (wr32 (?p @ smac @ rev sip @ smac @ rev sip @ pad) 28 (nif_ips nif ! k)) 22 (take MAC_SIZE ?m) =
      ?p @ ?m @ rev dip @ smac @ rev sip @ pad"
    using wr32_at [of "?p @ smac" 28 "rev sip" "smac @ rev sip @ pad" "nif_ips nif ! k"] splice_at [of ?p 22 smac ?m] assms ip
    by (simp add: MAC_SIZE_def le32_rd32)
  have 9: "arpd2buf (?p @ ?m @ rev dip @ smac @ rev sip @ pad) 22 = Inr (?p @ ?m @ dip @ smac @ sip @ pad)"
    using conv_at(2) [of "?p @ ?m" 28 d3 d2 d1 d0 "smac @ rev sip @ pad"]
      conv_at(2) [of "?p @ ?m @ dip @ smac" 38 s3 s2 s1 s0 pad] assms(2,3,7) ip
    by (simp add: arpd2buf_def need_def)
  show ?thesis
    unfolding arp_reply_def 1 bnd_Inr Let_def 2 3 4 5
    using 6 7 8 9 by (simp add: arp_frame_def)
qed

lemma buf2arpd_keeps: "buf2arpd b i = Inr h \<Longrightarrow> k < i + 6 \<Longrightarrow> b ! k = h ! k"
  by (auto simp: buf2arpd_def need_def conv32_swaps split: if_splits)

text \<open>
  A request for one of the interface's addresses is answered (\<open>arp_process\<close> in \<open>arp.c\<close>): exactly one
  frame goes out, on the interface the request came from, and byte for byte it is the ARP reply
  that tells the sender the interface's hardware address. The cache does not change.
\<close>

theorem arp_request_answered:
  assumes "length edst = 6" "length esrc = 6" "length smac = 6" "length sip = 4" "length dmac = 6" "length dip = 4"
    and "nb_data buf = arp_frame edst esrc 1 smac sip dmac dip @ pad" and "ARP_SIZE \<le> unat (nb_size buf)"
    and "nb_nic buf < length nifs" and "nif = nifs ! nb_nic buf" and "nif_up nif" and "length (nif_mac nif) = 6"
    and "j < IFACE_MAX_IPS" and "nif_ips nif ! j = rd32 (rev dip) 0"
  shows "\<exists>buf'. arp_process now nifs buf s =
    Inr (0, buf', s, [(nif_id nif, arp_frame esrc (nif_mac nif) 2 (nif_mac nif) dip smac sip)], None)"
proof -
  define h where "h = host_frame edst esrc 1 smac sip dmac dip @ pad"
  obtain b1 b2 where b: "buf2eth (nb_data buf) = Inr b1" "buf2arph b1 14 = Inr b2" "buf2arpd b2 22 = Inr h"
    using to_host [OF assms(1-6), of 1 pad] unfolding assms(7) h_def by (auto simp: bnd_eq_Inr)
  obtain d0 d1 d2 d3 where dip: "dip = [d0, d1, d2, d3]" using list4 [OF assms(6)] by blast
  have bytes: "h ! 14 = 1" "h ! 15 = 0" "h ! 16 = 0" "h ! 17 = 8" "h ! 18 = 6" "h ! 19 = 4" "h ! 20 = 1" "h ! 21 = 0"
    using assms(1,2) by (simp_all add: h_def host_frame_def nth_append)
  have same: "b2 ! i = h ! i" if "i < 28" for i using buf2arpd_keeps [OF b(3)] that by simp
  have hdr: "rd16 b2 14 = HTYPE_ETH" "rd16 b2 16 = PTYPE_IPV4" "b2 ! 18 = ETH_HLEN" "b2 ! 19 = IPV4_PLEN" "rd16 b2 20 = ARP_OP_REQ"
    "rd16 h 20 = ARP_OP_REQ"
    by (simp_all add: rd16_def same bytes HTYPE_ETH_def PTYPE_IPV4_def ETH_HLEN_def IPV4_PLEN_def ARP_OP_REQ_def)
  have d: "rd32 h 38 = rd32 (rev dip) 0"
    using rd32_at [of "edst @ esrc @ [6, 8, 1, 0, 0, 8, 6, 4, 1, 0] @ smac @ rev sip @ dmac" 38 d3 d2 d1 d0 pad] assms(1-5) dip
    by (simp add: h_def host_frame_def)
  obtain k where k: "find (\<lambda>k. nif_ips nif ! k = rd32 h 38) [0..<IFACE_MAX_IPS] = Some k"
    using assms(13,14) d by (cases "find (\<lambda>k. nif_ips nif ! k = rd32 h 38) [0..<IFACE_MAX_IPS]") (auto simp: find_None_iff)
  then have "nif_ips nif ! k = rd32 (rev dip) 0" using d by (auto simp: find_Some_iff)
  then have reply: "arp_reply nif k h = Inr (arp_frame esrc (nif_mac nif) 2 (nif_mac nif) dip smac sip @ pad)"
    using arp_reply_frame [OF assms(1-6,12)] by (simp add: h_def)
  have "length (arp_frame esrc (nif_mac nif) 2 (nif_mac nif) dip smac sip) = ARP_SIZE"
    using assms by (simp add: arp_frame_def ARP_SIZE_def)
  then have sent: "netif_send nif (arp_frame esrc (nif_mac nif) 2 (nif_mac nif) dip smac sip @ pad) ARP_SIZE =
      Inr (nif_id nif, arp_frame esrc (nif_mac nif) 2 (nif_mac nif) dip smac sip)"
    using assms(11) by (simp add: netif_send_def)
  show ?thesis
    using b hdr k reply sent assms(8-11) by (simp add: arp_process_def Let_def)
qed

definition sample_nif :: netif where
  "sample_nif = \<lparr>nif_id = 0, nif_mac = replicate 6 2, nif_ips = [0x0A000203, 0x0A000204, 0, 0], nif_up = True\<rparr>"

definition arp_buf :: "u8 list \<Rightarrow> net_buf" where
  "arp_buf b = \<lparr>nb_nic = 0, nb_size = 42, nb_captured = False, nb_udata = 0, nb_ulen = 0, nb_data = b\<rparr>"

lemma arp_request_answered_witness:
  "\<exists>buf'. arp_process 5 [sample_nif] (arp_buf (arp_frame (replicate 6 255) (replicate 6 9) 1 (replicate 6 9) [10, 0, 2, 2]
       (replicate 6 0) [10, 0, 2, 4])) \<lparr>arp_cache = arp_init, arp_cache_lock = False\<rparr> =
     Inr (0, buf', \<lparr>arp_cache = arp_init, arp_cache_lock = False\<rparr>,
       [(0, arp_frame (replicate 6 9) (replicate 6 2) 2 (replicate 6 2) [10, 0, 2, 4] (replicate 6 9) [10, 0, 2, 2])], None)"
proof -
  let ?b = "arp_buf (arp_frame (replicate 6 255) (replicate 6 9) 1 (replicate 6 9) [10, 0, 2, 2] (replicate 6 0) [10, 0, 2, 4])"
  show ?thesis
    using arp_request_answered [of "replicate 6 255" "replicate 6 9" "replicate 6 9" "[10, 0, 2, 2]" "replicate 6 0" "[10, 0, 2, 4]"
        ?b "[]" "[sample_nif]" sample_nif 1 5 "\<lparr>arp_cache = arp_init, arp_cache_lock = False\<rparr>"]
    by (simp add: arp_buf_def sample_nif_def ARP_SIZE_def IFACE_MAX_IPS_def rd32_def)
qed

definition waiting_cache :: arp_state where
  "waiting_cache = \<lparr>arp_cache = arp_init[0 := \<lparr>ae_ip = 0x0A000202, ae_mac = zero_mac, ae_status = ARPC_PENDING, ae_expire_ts = 7\<rparr>],
     arp_cache_lock = False\<rparr>"

definition sample_reply :: net_buf where
  "sample_reply = arp_buf (arp_frame (replicate 6 2) (replicate 6 9) 2 (replicate 6 9) [10, 0, 2, 2] (replicate 6 2) [10, 0, 2, 4])"

lemma sample_reply_accepted:
  "(case arp_process 6 [sample_nif] sample_reply waiting_cache of Inr (r, _, _, _, w) \<Rightarrow> r = 0 \<and> w = Some 0 | Inl _ \<Rightarrow> False)"
  by code_simp

lemma arp_only_asked_answers_witness:
  "\<exists>r buf' s' fs w j. arp_process 6 [sample_nif] sample_reply waiting_cache = Inr (r, buf', s', fs, w) \<and>
    w = Some j \<and> ae_mac (arp_cache s' ! j) = replicate 6 9 \<and> ae_ip (arp_cache s' ! j) = 0x0A000202"
proof -
  obtain r buf' s' fs w where p: "arp_process 6 [sample_nif] sample_reply waiting_cache = Inr (r, buf', s', fs, w)"
    using sample_reply_accepted by (auto split: sum.splits)
  have l: "length (arp_cache waiting_cache) = ARP_CACHE_SIZE" "0 < ARP_CACHE_SIZE"
    by (simp_all add: waiting_cache_def arp_init_def ARP_CACHE_SIZE_def)
  have e: "arp_cache waiting_cache ! 0 = \<lparr>ae_ip = 0x0A000202, ae_mac = zero_mac, ae_status = ARPC_PENDING, ae_expire_ts = 7\<rparr>"
    by (simp add: waiting_cache_def arp_init_def ARP_CACHE_SIZE_def)
  have "says (nb_data sample_reply) 0x0A000202 (replicate 6 9)" "ARP_SIZE \<le> unat (nb_size sample_reply)" "nif_up ([sample_nif] ! nb_nic sample_reply)"
    by (simp_all add: says_def sample_reply_def arp_buf_def arp_frame_def rd32_def ARP_SIZE_def sample_nif_def)
  then obtain j where "w = Some j" "ae_mac (arp_cache s' ! j) = replicate 6 9" "ae_ip (arp_cache s' ! j) = 0x0A000202"
    using conjunct2 [OF arp_only_asked_answers [OF p l]] e by auto
  with p show ?thesis by blast
qed

text \<open>
  \<open>arp_resolve\<close> takes only a positive slot number for a hit: what is known in slot 0 is asked for again.
\<close>

lemma arp_resolve_ignores_slot_0:
  assumes "arp_cache_get_mac now ip s = Inr (0, mac, s')" and "ip \<noteq> 0xFFFFFFFF"
  shows "arp_resolve now nifs mem ip s \<noteq> Inr (Resolved m, s'', fs)"
  using assms by (auto simp: arp_resolve_def bnd_eq_Inr split: if_splits)

end
