(* ===== verification/Sock.thy ===== *)
theory Sock
  imports Klist Bmap Route Ip
begin

text \<open>
  Sockets (\<open>sock.c\<close>): the table of sockets, their addresses and the allocation of ports. A socket is an
  object in memory, named by its address; the table is a list of such addresses. A socket keeps
  the datagrams it has received in a list of its own, whose free function releases the buffers.
  The bitmaps of the ports are those of \<open>Bmap\<close>.
\<close>

record sock_addr =
  sa_ip :: u32
  sa_port :: u16

datatype sock_state = SOCK_CREATED | SOCK_CONNECTED

record sock =
  sk_proto :: u8
  sk_loc_addr :: sock_addr
  sk_rem_addr :: sock_addr
  sk_pid :: int
  sk_node :: nat
  sk_state :: sock_state
  sk_lock :: bool
  sk_bufs :: "net_buf klist"
  sk_netif :: "nat option"

record socks_table =
  stab_lock :: bool
  stab_socks :: "nat klist"
  socks :: "nat \<Rightarrow> sock option"
  udp_ports :: "bmap option"
  tcp_ports :: "bmap option"

definition S_UDP :: u8 where "S_UDP = 0"
definition S_TCP :: u8 where "S_TCP = 1"
definition SOCK_MAX_BUFS :: u32 where "SOCK_MAX_BUFS = 4"
definition MAX_SOCKS :: u32 where "MAX_SOCKS = 32"
definition MIN_PORT :: int where "MIN_PORT = 32768"
definition MAX_PORTS :: nat where "MAX_PORTS = 1024"

definition sget :: "nat \<Rightarrow> socks_table \<Rightarrow> sock kres" where
  "sget p t = (case socks t p of None \<Rightarrow> Inl Fault | Some s \<Rightarrow> Inr s)"

definition sset :: "nat \<Rightarrow> sock \<Rightarrow> socks_table \<Rightarrow> socks_table" where
  "sset p s t = t\<lparr>socks := (socks t)(p := Some s)\<rparr>"

text \<open>
  The macro \<open>forEach\<close> over the table with a \<open>break\<close> at the first socket that satisfies the condition. The
  fuel is the number of nodes.
\<close>

fun each_sock :: "nat \<Rightarrow> (sock \<Rightarrow> bool) \<Rightarrow> nat option \<Rightarrow> socks_table \<Rightarrow> nat option kres" where
  "each_sock fuel P None t = Inr None"
| "each_sock 0 P (Some n) t = Inl Fault"
| "each_sock (Suc fuel) P (Some n) t =
     bnd (load n (stab_socks t)) (\<lambda>c.
     bnd (sget (ldata c) t) (\<lambda>s.
     if P s then Inr (Some (ldata c)) else each_sock fuel P (next_ptr c) t))"

definition for_each_sock :: "(sock \<Rightarrow> bool) \<Rightarrow> socks_table \<Rightarrow> nat option kres" where
  "for_each_sock P t = each_sock (unat (num_items (stab_socks t))) P (l_head (stab_socks t)) t"

section \<open>Operations\<close>

text \<open>
  \<open>m\<close> and \<open>a\<close> are what \<open>calloc\<close> returns for the socket and \<open>malloc\<close> for the node of the table; \<open>pid\<close> is the
  result of \<open>getpid\<close>.
\<close>

definition sock_alloc :: "nat option \<Rightarrow> nat option \<Rightarrow> int \<Rightarrow> u8 \<Rightarrow> socks_table \<Rightarrow> (nat option \<times> socks_table) kres" where
  "sock_alloc m a pid proto t =
     (if num_items (stab_socks t) = MAX_SOCKS then Inr (None, t)
      else case m of
        None \<Rightarrow> Inr (None, t)
      | Some p \<Rightarrow>
          if stab_lock t then Inl Deadlock
          else
            bnd (list_add a p (stab_socks t)) (\<lambda>(n, l).
            Inr (Some p, (sset p \<lparr>sk_proto = proto, sk_loc_addr = \<lparr>sa_ip = 0, sa_port = 0\<rparr>,
              sk_rem_addr = \<lparr>sa_ip = 0, sa_port = 0\<rparr>, sk_pid = pid, sk_node = n, sk_state = SOCK_CREATED,
              sk_lock = False, sk_bufs = list_open, sk_netif = None\<rparr> t)\<lparr>stab_socks := l\<rparr>)))"

text \<open>\<open>net_buf_free\<close> only frees memory.\<close>

definition net_buf_free :: "net_buf \<Rightarrow> unit kres" where
  "net_buf_free buf = Inr ()"

definition sock_free :: "nat \<Rightarrow> socks_table \<Rightarrow> socks_table kres" where
  "sock_free p t =
     bnd (sget p t) (\<lambda>s.
     kassert (\<not> sk_lock s) ''sock->lock == 0''
      (if stab_lock t then Inl Deadlock
       else
         bnd (list_del None (sk_node s) (stab_socks t)) (\<lambda>l.
         bnd (list_close (Some net_buf_free) (sk_bufs s)) (\<lambda>_.
         Inr (t\<lparr>stab_socks := l, socks := (socks t)(p := None)\<rparr>)))))"

definition sock_set_loc_addr :: "nat \<Rightarrow> sock_addr \<Rightarrow> socks_table \<Rightarrow> (int \<times> socks_table) kres" where
  "sock_set_loc_addr p addr t =
     bnd (sget p t) (\<lambda>sk.
     if stab_lock t then Inl Deadlock
     else
       bnd (for_each_sock (\<lambda>s. sk_proto s = sk_proto sk \<and> sa_port (sk_loc_addr s) = sa_port addr \<and>
         (sa_ip (sk_loc_addr s) = sa_ip addr \<or> sa_ip (sk_loc_addr s) = 0)) t) (\<lambda>nod.
       if nod \<noteq> None then Inr (- 1, t)
       else if sk_lock sk then Inl Deadlock
       else Inr (0, sset p (sk\<lparr>sk_loc_addr := addr\<rparr>) t)))"

definition sock_set_netif :: "nat \<Rightarrow> nat option \<Rightarrow> socks_table \<Rightarrow> socks_table kres" where
  "sock_set_netif p nif t =
     bnd (sget p t) (\<lambda>sk. if sk_lock sk then Inl Deadlock else Inr (sset p (sk\<lparr>sk_netif := nif\<rparr>) t))"

definition sock_set_rem_addr :: "nat \<Rightarrow> sock_addr \<Rightarrow> route_table \<Rightarrow> socks_table \<Rightarrow> (int \<times> socks_table) kres" where
  "sock_set_rem_addr p addr rt t =
     bnd (sget p t) (\<lambda>sk.
     bnd (if sk_netif sk = None then route_find (sa_ip addr) rt else Inr None) (\<lambda>r.
     if sk_netif sk = None \<and> r = None then Inr (- 1, t)
     else if sk_lock sk then Inl Deadlock
     else Inr (0, sset p (sk\<lparr>sk_rem_addr := addr,
       sk_netif := (if sk_netif sk = None then map_option rt_netif r else sk_netif sk)\<rparr>) t)))"

text \<open>The bitmap a pointer points to; the pointer is NULL when \<open>bmap_alloc\<close> found no memory.\<close>

definition ports :: "bmap option \<Rightarrow> bmap kres" where
  "ports m = (case m of None \<Rightarrow> Inl Fault | Some bm \<Rightarrow> Inr bm)"

definition port_alloc :: "int \<Rightarrow> socks_table \<Rightarrow> (int \<times> socks_table) kres" where
  "port_alloc proto t =
     bnd (if proto = uint S_UDP then
            bnd (ports (udp_ports t)) (\<lambda>bm. bnd (bmap_get_free bm) (\<lambda>(r, bm). Inr (r, t\<lparr>udp_ports := Some bm\<rparr>)))
          else if proto = uint S_TCP then
            bnd (ports (tcp_ports t)) (\<lambda>bm. bnd (bmap_get_free bm) (\<lambda>(r, bm). Inr (r, t\<lparr>tcp_ports := Some bm\<rparr>)))
          else Inr (- 1, t)) (\<lambda>(port, t).
     Inr (if port \<ge> 0 then port + MIN_PORT else port, t))"

definition port_free :: "int \<Rightarrow> int \<Rightarrow> socks_table \<Rightarrow> socks_table kres" where
  "port_free proto port t =
     (let port = port - MIN_PORT in
      if proto = uint S_UDP then
        bnd (ports (udp_ports t)) (\<lambda>bm. bnd (bmap_free bm port) (\<lambda>(_, bm). Inr (t\<lparr>udp_ports := Some bm\<rparr>)))
      else if proto = uint S_TCP then
        bnd (ports (tcp_ports t)) (\<lambda>bm. bnd (bmap_free bm port) (\<lambda>(_, bm). Inr (t\<lparr>tcp_ports := Some bm\<rparr>)))
      else Inr t)"

text \<open>\<open>addr\<close> is also an output: the caller sees the port that was chosen.\<close>

definition sock_bind :: "nat \<Rightarrow> sock_addr \<Rightarrow> socks_table \<Rightarrow> (int \<times> sock_addr \<times> socks_table) kres" where
  "sock_bind p addr t =
     bnd (sget p t) (\<lambda>sk.
     bnd (if sa_port addr = 0 then port_alloc (uint (sk_proto sk)) t else Inr (0, t)) (\<lambda>(port, t).
     if port < 0 then Inr (- 1, addr, t)
     else
       let addr = (if sa_port addr = 0 then addr\<lparr>sa_port := word_of_int port\<rparr> else addr) in
       bnd (sock_set_loc_addr p addr t) (\<lambda>(r, t). Inr (if r < 0 then - 1 else 0, addr, t))))"

text \<open>\<open>m\<close>, \<open>m1\<close>, \<open>m2\<close>: whether \<open>calloc\<close> and the two calls of \<open>bmap_alloc\<close> find memory.\<close>

definition sock_init :: "bool \<Rightarrow> bool \<Rightarrow> bool \<Rightarrow> int \<times> socks_table option" where
  "sock_init m m1 m2 =
     (if \<not> m then (- 1, None)
      else (0, Some \<lparr>stab_lock = False, stab_socks = list_open, socks = (\<lambda>_. None),
        udp_ports = bmap_alloc m1 MAX_PORTS, tcp_ports = bmap_alloc m2 MAX_PORTS\<rparr>))"

section \<open>The table as a set of sockets\<close>

abbreviation table :: "socks_table \<Rightarrow> nat list \<Rightarrow> nat list" where
  "table t ns \<equiv> items (stab_socks t) ns"

definition the_sock :: "socks_table \<Rightarrow> nat \<Rightarrow> sock" where
  "the_sock t p = the (socks t p)"

lemma each_sock_seg:
  assumes "seg (l_mem (stab_socks t)) a ns None" and "length ns \<le> fuel" and "\<forall>p\<in>set (table t ns). socks t p \<noteq> None"
  shows "each_sock fuel P (first ns None) t = Inr (find (\<lambda>p. P (the_sock t p)) (table t ns))"
  using assms
proof (induction ns arbitrary: a fuel)
  case (Cons n ns)
  then obtain d m where n: "l_mem (stab_socks t) n = Some \<lparr>prev = a, next_ptr = first ns None, ldata = d\<rparr>"
    and s: "seg (l_mem (stab_socks t)) (Some n) ns None" and m: "fuel = Suc m" "length ns \<le> m"
    by (cases fuel) (auto simp: seg_Cons)
  obtain sk where sk: "socks t d = Some sk" using Cons.prems(3) n by (auto simp: items_Cons)
  have "each_sock m P (first ns None) t = Inr (find (\<lambda>p. P (the_sock t p)) (table t ns))"
    using Cons.IH [OF s m(2)] Cons.prems(3) by (simp add: items_Cons)
  with n sk m(1) show ?case by (simp add: items_Cons sget_def the_sock_def)
qed simp

lemma for_each_sock_find:
  assumes "repr (stab_socks t) ns" and "\<forall>p\<in>set (table t ns). socks t p \<noteq> None"
  shows "for_each_sock P t = Inr (find (\<lambda>p. P (the_sock t p)) (table t ns))"
  using each_sock_seg [of t None ns "length ns" P] assms repr_fuel [OF assms(1)]
  by (simp add: for_each_sock_def repr_def)

text \<open>
  The invariant: the table is a proper list of different sockets, each of which knows its node; the
  queue of a socket is a proper list of at most \<open>SOCK_MAX_BUFS\<close> datagrams; no two sockets of a
  protocol are bound to the same address.
\<close>

definition sock_ok :: "sock \<Rightarrow> bool" where
  "sock_ok s \<longleftrightarrow> (\<exists>qs. repr (sk_bufs s) qs \<and> length qs \<le> 4)"

definition conflict :: "sock \<Rightarrow> sock \<Rightarrow> bool" where
  "conflict s s' \<longleftrightarrow> sk_proto s = sk_proto s' \<and> sk_loc_addr s = sk_loc_addr s' \<and> sa_port (sk_loc_addr s) \<noteq> 0"

definition socks_ok :: "socks_table \<Rightarrow> nat list \<Rightarrow> bool" where
  "socks_ok t ns \<longleftrightarrow> repr (stab_socks t) ns \<and> length ns \<le> 32 \<and> distinct (table t ns) \<and>
     (\<forall>i<length ns. \<exists>s. socks t (table t ns ! i) = Some s \<and> sk_node s = ns ! i \<and> sock_ok s) \<and>
     (\<forall>p\<in>set (table t ns). \<forall>q\<in>set (table t ns). p \<noteq> q \<longrightarrow> \<not> conflict (the_sock t p) (the_sock t q))"

lemma socks_ok_mapped: "socks_ok t ns \<Longrightarrow> p \<in> set (table t ns) \<Longrightarrow> \<exists>s. socks t p = Some s \<and> sock_ok s"
  unfolding socks_ok_def by (metis in_set_conv_nth length_items)

lemma socks_ok_find: "socks_ok t ns \<Longrightarrow> for_each_sock P t = Inr (find (\<lambda>p. P (the_sock t p)) (table t ns))"
  by (rule for_each_sock_find) (simp add: socks_ok_def, blast dest: socks_ok_mapped)

text \<open>Changing a socket without changing its node keeps the invariant when its new address is free.\<close>

lemma socks_ok_sset:
  assumes "socks_ok t ns" and "socks t p = Some s" and "sk_node s' = sk_node s" and "sock_ok s \<Longrightarrow> sock_ok s'"
    and "\<And>q. q \<in> set (table t ns) \<Longrightarrow> q \<noteq> p \<Longrightarrow> \<not> conflict s' (the_sock t q)"
  shows "socks_ok (sset p s' t) ns"
proof -
  have tab: "table (sset p s' t) ns = table t ns" by (simp add: sset_def)
  have c: "conflict x y \<longleftrightarrow> conflict y x" for x y by (auto simp: conflict_def)
  have "\<exists>x. socks (sset p s' t) (table t ns ! i) = Some x \<and> sk_node x = ns ! i \<and> sock_ok x" if "i < length ns" for i
    using assms(1-4) that by (cases "table t ns ! i = p") (auto simp: socks_ok_def sset_def)
  moreover have "\<not> conflict (the_sock (sset p s' t) x) (the_sock (sset p s' t) y)"
    if "x \<in> set (table t ns)" "y \<in> set (table t ns)" "x \<noteq> y" for x y
    using assms(1,5) that c by (auto simp: socks_ok_def sset_def the_sock_def)
  ultimately show ?thesis using assms(1) unfolding socks_ok_def tab by (auto simp: sset_def)
qed

lemma sget_eq_Inr [kres_simps]: "sget p t = Inr s \<longleftrightarrow> socks t p = Some s"
  by (simp add: sget_def split: option.splits)

lemma socks_ok_alloc:
  assumes "socks_ok t ns" and "socks t p = None" and "l_mem (stab_socks t) a = None"
    and "sock_alloc (Some p) (Some a) pid proto t = Inr (r, t')"
  shows "\<exists>ns'. socks_ok t' ns'"
proof (cases "num_items (stab_socks t) = MAX_SOCKS")
  case True
  with assms(1,4) show ?thesis by (auto simp: sock_alloc_def)
next
  case False
  have rep: "repr (stab_socks t) ns" and len: "length ns \<le> 32" and dist: "distinct (table t ns)"
    and mapped: "\<And>i. i < length ns \<Longrightarrow> \<exists>s. socks t (table t ns ! i) = Some s \<and> sk_node s = ns ! i \<and> sock_ok s"
    and conf: "\<And>x y. x \<in> set (table t ns) \<Longrightarrow> y \<in> set (table t ns) \<Longrightarrow> x \<noteq> y \<Longrightarrow> \<not> conflict (the_sock t x) (the_sock t y)"
    using assms(1) by (auto simp: socks_ok_def)
  have "length ns \<noteq> 32" using False rep by (auto simp: MAX_SOCKS_def repr_def)
  then have short: "length ns < 32" using len by simp
  obtain l where l: "list_add (Some a) p (stab_socks t) = Inr (a, l)" "repr l (ns @ [a])" "items l (ns @ [a]) = table t ns @ [p]"
    using insert_end [OF rep assms(3), of p] short by auto
  define s where "s = \<lparr>sk_proto = proto, sk_loc_addr = \<lparr>sa_ip = 0, sa_port = 0\<rparr>, sk_rem_addr = \<lparr>sa_ip = 0, sa_port = 0\<rparr>,
    sk_pid = pid, sk_node = a, sk_state = SOCK_CREATED, sk_lock = False, sk_bufs = list_open, sk_netif = None\<rparr>"
  have t': "t' = (sset p s t)\<lparr>stab_socks := l\<rparr>"
    using assms(4) False l(1) by (auto simp: sock_alloc_def s_def split: if_splits)
  have new: "p \<notin> set (table t ns)" using socks_ok_mapped [OF assms(1), of p] assms(2) by auto
  have ok: "sock_ok s" unfolding sock_ok_def s_def by (rule exI [of _ "[]"]) (simp add: repr_def list_open_def)
  have nc: "\<not> conflict s x" "\<not> conflict x s" for x by (auto simp: conflict_def s_def)
  have tab: "table t' (ns @ [a]) = table t ns @ [p]" using l(3) t' by simp
  have sk: "socks t' q = (if q = p then Some s else socks t q)" for q using t' by (simp add: sset_def)
  have "\<exists>x. socks t' ((table t ns @ [p]) ! i) = Some x \<and> sk_node x = (ns @ [a]) ! i \<and> sock_ok x" if "i < length (ns @ [a])" for i
  proof (cases "i < length ns")
    case True
    have "table t ns ! i \<noteq> p" using True new by (metis nth_mem length_items)
    with True mapped [OF True] show ?thesis by (simp add: sk nth_append)
  next
    case False
    then have "i = length ns" using that by simp
    then show ?thesis using ok by (simp add: sk nth_append s_def)
  qed
  moreover have "\<not> conflict (the_sock t' x) (the_sock t' y)" if "x \<in> set (table t ns @ [p])" "y \<in> set (table t ns @ [p])" "x \<noteq> y" for x y
    using that conf [of x y] nc by (cases "x = p"; cases "y = p") (auto simp: the_sock_def sk)
  ultimately have "socks_ok t' (ns @ [a])"
    unfolding socks_ok_def tab using l(2) t' short dist new by auto
  then show ?thesis by blast
qed

lemma socks_ok_free:
  assumes "socks_ok t ns" and "p \<in> set (table t ns)" and "sock_free p t = Inr t'"
  shows "\<exists>ns'. socks_ok t' ns'"
proof -
  obtain i where i: "i < length ns" "table t ns ! i = p" using assms(2) by (metis in_set_conv_nth length_items)
  obtain s where s: "socks t p = Some s" "sk_node s = ns ! i" using assms(1) i by (auto simp: socks_ok_def)
  define xs ys where "xs = take i ns" and "ys = drop (Suc i) ns"
  have ns: "ns = xs @ ns ! i # ys" using i(1) by (simp add: xs_def ys_def id_take_nth_drop)
  have rep: "repr (stab_socks t) (xs @ ns ! i # ys)" using assms(1) ns by (simp add: socks_ok_def)
  obtain l where l: "list_del None (ns ! i) (stab_socks t) = Inr l" "repr l (xs @ ys)" "items l (xs @ ys) = table t xs @ table t ys"
    using delete_middle [OF rep, of None] by auto
  have t': "t' = t\<lparr>stab_socks := l, socks := (socks t)(p := None)\<rparr>"
    using assms(3) s l(1) by (auto simp: sock_free_def bnd_eq_Inr kassert_eq_Inr sget_eq_Inr split: if_splits)
  have tab: "table t ns = table t xs @ p # table t ys"
    using i arg_cong [OF ns, of "table t"] by (simp add: items_def)
  have dist: "distinct (table t xs @ p # table t ys)" using assms(1) tab by (simp add: socks_ok_def)
  have "\<exists>x. socks t' ((table t xs @ table t ys) ! j) = Some x \<and> sk_node x = (xs @ ys) ! j \<and> sock_ok x" if "j < length (xs @ ys)" for j
  proof -
    define k where "k = (if j < length xs then j else Suc j)"
    have k: "k < length ns" "table t ns ! k = (table t xs @ table t ys) ! j" "ns ! k = (xs @ ys) ! j"
      using that ns tab by (auto simp: k_def nth_append items_def nth_Cons' xs_def ys_def split: if_splits)
    have "(table t xs @ table t ys) ! j \<in> set (table t xs @ table t ys)" using that by (intro nth_mem) (simp add: items_def)
    then have "(table t xs @ table t ys) ! j \<noteq> p" using dist by auto
    moreover obtain x where "socks t (table t ns ! k) = Some x" "sk_node x = ns ! k" "sock_ok x"
      using assms(1) k(1) by (auto simp: socks_ok_def)
    ultimately show ?thesis using k by (simp add: t')
  qed
  moreover have "\<not> conflict (the_sock t' x) (the_sock t' y)" if "x \<in> set (table t xs @ table t ys)" "y \<in> set (table t xs @ table t ys)" "x \<noteq> y" for x y
    using that assms(1) dist unfolding socks_ok_def tab by (auto simp: the_sock_def t')
  moreover have "length (xs @ ys) \<le> 32" using assms(1) ns unfolding socks_ok_def by (metis length_append length_Cons add_Suc_right Suc_leD)
  ultimately have "socks_ok t' (xs @ ys)"
    unfolding socks_ok_def using l(2,3) dist by (auto simp: t')
  then show ?thesis by blast
qed

lemma socks_ok_set_loc_addr:
  assumes "socks_ok t ns" and "sock_set_loc_addr p addr t = Inr (r, t')"
  shows "socks_ok t' ns"
proof -
  obtain s where s: "socks t p = Some s" using assms(2) by (auto simp: sock_set_loc_addr_def bnd_eq_Inr sget_eq_Inr)
  let ?P = "\<lambda>x. sk_proto x = sk_proto s \<and> sa_port (sk_loc_addr x) = sa_port addr \<and>
    (sa_ip (sk_loc_addr x) = sa_ip addr \<or> sa_ip (sk_loc_addr x) = 0)"
  consider "t' = t" | "find (\<lambda>p. ?P (the_sock t p)) (table t ns) = None" "t' = sset p (s\<lparr>sk_loc_addr := addr\<rparr>) t"
    using assms(2) s by (auto simp: sock_set_loc_addr_def bnd_eq_Inr sget_eq_Inr socks_ok_find [OF assms(1)] split: if_splits)
  then show ?thesis
  proof cases
    case 2
    then have "\<not> conflict (s\<lparr>sk_loc_addr := addr\<rparr>) (the_sock t q)" if "q \<in> set (table t ns)" for q
      using that by (auto simp: find_None_iff conflict_def)
    then show ?thesis unfolding 2(2) by (intro socks_ok_sset [OF assms(1) s]) (simp_all add: sock_ok_def)
  qed (use assms(1) in simp)
qed

text \<open>Updates of a socket that keep its protocol and its local address.\<close>

lemma socks_ok_same_addr:
  assumes "socks_ok t ns" and "p \<in> set (table t ns)" and "socks t p = Some s" and "sk_node s' = sk_node s"
    and "sk_proto s' = sk_proto s" and "sk_loc_addr s' = sk_loc_addr s" and "sock_ok s \<Longrightarrow> sock_ok s'"
  shows "socks_ok (sset p s' t) ns"
proof (rule socks_ok_sset [OF assms(1,3,4,7)])
  fix q
  assume q: "q \<in> set (table t ns)" "q \<noteq> p"
  then have "\<not> conflict (the_sock t p) (the_sock t q)" using assms(1,2) by (auto simp: socks_ok_def)
  then show "\<not> conflict s' (the_sock t q)" using assms(3,5,6) by (auto simp: conflict_def the_sock_def)
qed

lemma socks_ok_ports: "socks_ok (t\<lparr>udp_ports := u\<rparr>) ns = socks_ok t ns" "socks_ok (t\<lparr>tcp_ports := u\<rparr>) ns = socks_ok t ns"
  by (simp_all add: socks_ok_def the_sock_def)

lemma socks_ok_port_alloc:
  assumes "socks_ok t ns" and "port_alloc proto t = Inr (r, t')"
  shows "socks_ok t' ns \<and> socks t' = socks t \<and> stab_socks t' = stab_socks t"
  using assms by (auto simp: port_alloc_def bnd_eq_Inr socks_ok_ports split: if_splits)

lemma socks_ok_bind:
  assumes "socks_ok t ns" and "sock_bind p addr t = Inr (r, addr', t')"
  shows "socks_ok t' ns"
  using assms socks_ok_port_alloc [OF assms(1)] socks_ok_set_loc_addr
  by (fastforce simp: sock_bind_def bnd_eq_Inr Let_def split: if_splits)

lemma socks_ok_set_rem_addr:
  assumes "socks_ok t ns" and "p \<in> set (table t ns)" and "sock_set_rem_addr p addr rt t = Inr (r, t')"
  shows "socks_ok t' ns \<and> stab_socks t' = stab_socks t"
proof -
  obtain s where s: "socks t p = Some s" using assms(3) by (auto simp: sock_set_rem_addr_def bnd_eq_Inr sget_eq_Inr)
  consider "t' = t" | nif where "t' = sset p (s\<lparr>sk_rem_addr := addr, sk_netif := nif\<rparr>) t"
    using assms(3) s by (auto simp: sock_set_rem_addr_def bnd_eq_Inr sget_eq_Inr split: if_splits)
  then show ?thesis
  proof cases
    case 2
    then show ?thesis using socks_ok_same_addr [OF assms(1,2) s] by (auto simp: sset_def sock_ok_def)
  qed (use assms(1) in simp)
qed

end
