(* ===== verification/Udp.thy ===== *)
theory Udp
  imports Sock Arp Task
begin

text \<open>
  UDP (\<open>udp.c\<close>): the checksum over the pseudo header, the delivery of a datagram to a socket, reading
  and writing. A header in the frame is in host format while it is worked on; the offsets are
  those of the frame, the IP header at \<open>ETH_SIZE\<close>. Calls that can sleep (\<open>udp_read\<close>, \<open>udp_write\<close>) are
  modelled up to the sleep and from it on.
\<close>

definition UDP_SIZE :: nat where "UDP_SIZE = 8"
definition IP_P_UDP :: u8 where "IP_P_UDP = 17"
definition IPV4 :: u8 where "IPV4 = 4"
definition ETH_P_IP :: u16 where "ETH_P_IP = 0x0800"

definition buf2udp :: "u8 list \<Rightarrow> nat \<Rightarrow> u8 list kres" where
  "buf2udp b u = need (u + UDP_SIZE) b (Inr (conv16 (u + 6) (conv16 (u + 4) (conv16 (u + 2) (conv16 u b)))))"

definition udp2buf :: "u8 list \<Rightarrow> nat \<Rightarrow> u8 list kres" where
  "udp2buf b u = need (u + UDP_SIZE) b (Inr (conv16 (u + 6) (conv16 (u + 4) (conv16 (u + 2) (conv16 u b)))))"

section \<open>The checksum\<close>

text \<open>\<open>ptr[0] + ptr[1]\<close> for the halves of a 32-bit number in memory.\<close>

definition halves :: "u32 \<Rightarrow> u32" where
  "halves w = ucast (ucast w :: u16) + ucast (ucast (drop_bit 16 w) :: u16)"

text \<open>The loop over the words of the datagram; the first four are the header, in host format.\<close>

fun udp_words :: "u32 \<Rightarrow> u8 list \<Rightarrow> nat \<Rightarrow> nat \<Rightarrow> nat \<Rightarrow> u32" where
  "udp_words acc b u i 0 = acc"
| "udp_words acc b u i (Suc n) =
     udp_words (acc + ucast (if i < UDP_SIZE div 2 then htons (rd16 b (u + 2 * i)) else rd16 b (u + 2 * i))) b u (Suc i) n"

definition udp_csum :: "u8 list \<Rightarrow> nat \<Rightarrow> u16 kres" where
  "udp_csum b u =
     (let len = rd16 b (u + 4); n = unat len;
          acc = halves (htonl (rd32 b (ETH_SIZE + 12)));
          acc = acc + halves (htonl (rd32 b (ETH_SIZE + 16)));
          acc = acc + ucast (htons (ucast (b ! (ETH_SIZE + 9))));
          acc = acc + ucast (htons len) in
      need (u + n) b
       (let acc = udp_words acc b u 0 (n div 2);
            acc = (if n mod 2 \<noteq> 0 then acc + ucast (b ! (u + 2 * (n div 2))) else acc);
            acc = (acc AND 0xFFFF) + drop_bit 16 acc in
        Inr (NOT (ucast acc))))"

section \<open>Receiving\<close>

definition sock_matches :: "u8 list \<Rightarrow> nat \<Rightarrow> sock \<Rightarrow> bool" where
  "sock_matches b u s \<longleftrightarrow> sk_proto s = S_UDP \<and> sa_port (sk_loc_addr s) = rd16 b (u + 2) \<and>
     (sa_ip (sk_loc_addr s) = 0 \<or> sa_ip (sk_loc_addr s) = rd32 b (ETH_SIZE + 16)) \<and>
     (sa_port (sk_rem_addr s) = 0 \<or> sa_port (sk_rem_addr s) = rd16 b u) \<and>
     (sa_ip (sk_rem_addr s) = 0 \<or> sa_ip (sk_rem_addr s) = 0xFFFFFFFF \<or> sa_ip (sk_rem_addr s) = rd32 b (ETH_SIZE + 12))"

text \<open>
  The result: the return value, the buffer, the table, and the socket whose readers are woken. \<open>a\<close> is
  what \<open>malloc\<close> returns for the node of the queue.
\<close>

definition udp_process :: "nat option \<Rightarrow> net_buf \<Rightarrow> socks_table \<Rightarrow> (int \<times> net_buf \<times> socks_table \<times> nat option) kres" where
  "udp_process a buf t =
     (let u = ip_data (nb_data buf) ETH_SIZE in
      bnd (buf2udp (nb_data buf) u) (\<lambda>b.
      let buf = buf\<lparr>nb_data := b\<rparr> in
      bnd (if rd16 b (u + 6) \<noteq> 0 then udp_csum b u else Inr 0) (\<lambda>csum.
      if csum \<noteq> 0 then Inr (- 1, buf, t, None)
      else if stab_lock t then Inl Deadlock
      else
        bnd (for_each_sock (sock_matches b u) t) (\<lambda>r. case r of
          None \<Rightarrow> Inr (0, buf, t, None)
        | Some p \<Rightarrow>
            bnd (sget p t) (\<lambda>s.
            if sk_lock s then Inl Deadlock
            else if num_items (sk_bufs s) < SOCK_MAX_BUFS then
              let buf = buf\<lparr>nb_captured := True, nb_udata := u + UDP_SIZE, nb_ulen := ucast (rd16 b (u + 4)) - of_nat UDP_SIZE\<rparr> in
              bnd (list_add a buf (sk_bufs s)) (\<lambda>(_, q).
              Inr (0, buf, sset p (s\<lparr>sk_bufs := q\<rparr>) t, Some p))
            else Inr (0, buf, t, None))))))"

text \<open>
  \<open>udp_read\<close> sleeps when nothing has arrived and the task is running; \<open>udp_read_end\<close> is the rest, which
  copies from the first datagram and removes it. \<open>udp_read_end\<close> also returns what it has copied.
\<close>

definition udp_read_end :: "nat \<Rightarrow> u32 \<Rightarrow> socks_table \<Rightarrow> (int \<times> u8 list \<times> socks_table) kres" where
  "udp_read_end p sz t =
     bnd (sget p t) (\<lambda>s.
     if sk_lock s then Inl Deadlock
     else case l_head (sk_bufs s) of
       None \<Rightarrow> Inl Fault
     | Some n \<Rightarrow>
         bnd (load n (sk_bufs s)) (\<lambda>c.
         let nbuf = ldata c; sz = (if nb_ulen nbuf < sz then nb_ulen nbuf else sz) in
         if length (nb_data nbuf) < nb_udata nbuf + unat sz then Inl Fault
         else
           bnd (list_del (Some net_buf_free) n (sk_bufs s)) (\<lambda>q.
           Inr (uint sz, take (unat sz) (drop (nb_udata nbuf) (nb_data nbuf)), sset p (s\<lparr>sk_bufs := q\<rparr>) t))))"

datatype read_result = Read int "u8 list" | Read_sleeps

definition udp_read :: "task_state \<Rightarrow> nat \<Rightarrow> u32 \<Rightarrow> socks_table \<Rightarrow> (read_result \<times> socks_table) kres" where
  "udp_read st p sz t =
     bnd (sget p t) (\<lambda>s.
     if num_items (sk_bufs s) = 0 \<and> st = TASK_EXITING then Inr (Read (- 1) [], t)
     else if num_items (sk_bufs s) = 0 \<and> st = TASK_RUNNING then Inr (Read_sleeps, t)
     else bnd (udp_read_end p sz t) (\<lambda>(n, bs, t). Inr (Read n bs, t)))"

section \<open>Sending\<close>

definition udp_connect :: "nat \<Rightarrow> sock_addr \<Rightarrow> route_table \<Rightarrow> socks_table \<Rightarrow> (int \<times> socks_table) kres" where
  "udp_connect p addr rt t =
     bnd (sget p t) (\<lambda>s.
     bnd (if sa_port (sk_loc_addr s) = 0 then
            bnd (port_alloc (uint S_UDP) t) (\<lambda>(port, t). sock_set_loc_addr p \<lparr>sa_ip = 0, sa_port = word_of_int port\<rparr> t)
          else Inr (0, t)) (\<lambda>(r, t).
     if r < 0 then Inr (- 1, t)
     else
       bnd (sock_set_rem_addr p addr rt t) (\<lambda>(_, t).
       bnd (sget p t) (\<lambda>s. Inr (0, sset p (s\<lparr>sk_state := SOCK_CONNECTED\<rparr>) t)))))"

definition eth_set_dmac :: "u32 \<Rightarrow> netif list \<Rightarrow> bool \<Rightarrow> u32 \<Rightarrow> route_table \<Rightarrow> arp_state \<Rightarrow>
    (resolve \<times> arp_state \<times> frame list) kres" where
  "eth_set_dmac now nifs mem dest_ip rt s =
     (if dest_ip = 0xFFFFFFFF then Inr (Resolved zero_mac, s, [])
      else
        bnd (route_find dest_ip rt) (\<lambda>r. case r of
          None \<Rightarrow> Inr (Failed, s, [])
        | Some r \<Rightarrow>
            if rt_base r = 0 then arp_resolve now nifs mem (rt_gateway r) s
            else arp_resolve now nifs mem dest_ip s))"

text \<open>The IP header that \<open>udp_write\<close> builds, in host format, at offset \<open>ETH_SIZE\<close>.\<close>

definition udp_ip_header :: "nat \<Rightarrow> u32 \<Rightarrow> u32 \<Rightarrow> u8 list \<Rightarrow> u8 list" where
  "udp_ip_header len saddr daddr b =
     (let b = set_first b ETH_SIZE IPV4 (of_nat (IP_SIZE div 4));
          b = b[ETH_SIZE + 1 := 0];
          b = wr16 b (ETH_SIZE + 2) (of_nat (IP_SIZE + UDP_SIZE + len));
          b = wr16 b (ETH_SIZE + 4) 0;
          b = wr16 b (ETH_SIZE + 6) 2;
          b = b[ETH_SIZE + 8 := 64, ETH_SIZE + 9 := IP_P_UDP];
          b = wr16 b (ETH_SIZE + 10) 0;
          b = wr32 b (ETH_SIZE + 12) saddr in
      wr32 b (ETH_SIZE + 16) daddr)"

definition udp_header :: "nat \<Rightarrow> u16 \<Rightarrow> u16 \<Rightarrow> nat \<Rightarrow> u8 list \<Rightarrow> u8 list" where
  "udp_header u sport dport len b =
     (let b = wr16 b u sport; b = wr16 b (u + 2) dport; b = wr16 b (u + 4) (of_nat (UDP_SIZE + len)) in
      wr16 b (u + 6) 0)"

text \<open>
  \<open>udp_write\<close> from the point where the hardware address is known: \<open>data\<close> is what is sent, already cut to
  what fits a frame, and \<open>b\<close> the zeroed buffer of \<open>net_buf_alloc\<close>.
\<close>

definition udp_frame :: "netif \<Rightarrow> sock \<Rightarrow> u8 list \<Rightarrow> u8 list \<Rightarrow> u8 list kres" where
  "udp_frame nif s dmac data =
     (let b = replicate (ETH_SIZE + IP_SIZE + UDP_SIZE + length data) 0;
          b = splice b 0 (take MAC_SIZE dmac);
          b = splice b MAC_SIZE (take MAC_SIZE (nif_mac nif));
          b = wr16 b 12 ETH_P_IP in
      bnd (eth2buf b) (\<lambda>b.
      let saddr = (if sa_ip (sk_loc_addr s) \<noteq> 0 then sa_ip (sk_loc_addr s) else nif_ips nif ! 0);
          b = udp_ip_header (length data) saddr (sa_ip (sk_rem_addr s)) b;
          u = ip_data b ETH_SIZE;
          b = splice b (u + UDP_SIZE) data;
          b = udp_header u (sa_port (sk_loc_addr s)) (sa_port (sk_rem_addr s)) (length data) b in
      bnd (udp_csum b u) (\<lambda>csum.
      bnd (udp2buf b u) (\<lambda>b.
      let b = wr16 b (u + 6) csum in
      bnd (ipv42buf b ETH_SIZE) (\<lambda>b.
      bnd (iphlen b ETH_SIZE) (\<lambda>n.
      bnd (ip_csum b ETH_SIZE n) (\<lambda>csum.
      Inr (wr16 b (ETH_SIZE + 10) csum))))))))"

definition udp_write_end :: "netif \<Rightarrow> sock \<Rightarrow> u8 list \<Rightarrow> u8 list \<Rightarrow> (int \<times> frame list) kres" where
  "udp_write_end nif s dmac data =
     bnd (udp_frame nif s dmac data) (\<lambda>b.
     bnd (netif_send nif b (length b)) (\<lambda>f. Inr (int (length data), [f])))"

text \<open>
  The first half: cut the data to what fits an Ethernet frame, allocate the buffer (\<open>mem\<close>) and look
  the hardware address up. The second component of \<open>Write_waits\<close> is the slot of the ARP cache the caller
  sleeps on.
\<close>

datatype write_result = Wrote int | Write_waits nat "u8 list"

definition udp_write :: "u32 \<Rightarrow> netif list \<Rightarrow> bool \<Rightarrow> bool \<Rightarrow> nat \<Rightarrow> u8 list \<Rightarrow> route_table \<Rightarrow> arp_state \<Rightarrow> socks_table \<Rightarrow>
    (write_result \<times> arp_state \<times> frame list) kres" where
  "udp_write now nifs mem mem' p buf rt ar t =
     bnd (sget p t) (\<lambda>s.
     case sk_netif s of None \<Rightarrow> Inl Fault
     | Some k \<Rightarrow>
         bnd (aget nifs k) (\<lambda>nif.
         let data = take (1500 - (ETH_SIZE + IP_SIZE + UDP_SIZE)) buf in
         if \<not> mem then Inr (Wrote (- 1), ar, [])
         else
           bnd (eth_set_dmac now nifs mem' (sa_ip (sk_rem_addr s)) rt ar) (\<lambda>(r, ar, fs). case r of
             Failed \<Rightarrow> Inr (Wrote (- 1), ar, fs)
           | Waits i \<Rightarrow> Inr (Write_waits i data, ar, fs)
           | Resolved mac \<Rightarrow> bnd (udp_write_end nif s mac data) (\<lambda>(n, gs). Inr (Wrote n, ar, fs @ gs)))))"

definition udp_close :: "nat \<Rightarrow> socks_table \<Rightarrow> (int \<times> socks_table) kres" where
  "udp_close p t = bnd (sock_free p t) (\<lambda>t. Inr (0, t))"

section \<open>The state of the sockets\<close>

text \<open>
  What the kernel does to the table: each rule is a call that returns. The addresses of new
  objects are fresh, as \<open>malloc\<close> promises, and the calls on a socket are given one of the table.
\<close>

inductive sock_step :: "socks_table \<Rightarrow> socks_table \<Rightarrow> bool" where
  alloc: "socks t p = None \<Longrightarrow> l_mem (stab_socks t) a = None \<Longrightarrow>
    sock_alloc (Some p) (Some a) pid proto t = Inr (r, t') \<Longrightarrow> sock_step t t'"
| free: "repr (stab_socks t) ns \<Longrightarrow> p \<in> set (table t ns) \<Longrightarrow> sock_free p t = Inr t' \<Longrightarrow> sock_step t t'"
| bind: "sock_bind p addr t = Inr (r, addr', t') \<Longrightarrow> sock_step t t'"
| connect: "repr (stab_socks t) ns \<Longrightarrow> p \<in> set (table t ns) \<Longrightarrow> udp_connect p addr rt t = Inr (r, t') \<Longrightarrow> sock_step t t'"
| deliver: "(\<forall>p s. socks t p = Some s \<longrightarrow> l_mem (sk_bufs s) a = None) \<Longrightarrow>
    udp_process (Some a) buf t = Inr (r, buf', t', w) \<Longrightarrow> sock_step t t'"
| read: "repr (stab_socks t) ns \<Longrightarrow> p \<in> set (table t ns) \<Longrightarrow> udp_read_end p sz t = Inr (r, bs, t') \<Longrightarrow> sock_step t t'"

lemma seg_unique: "seg m a xs None \<Longrightarrow> seg m b ys None \<Longrightarrow> first xs None = first ys None \<Longrightarrow> xs = ys"
proof (induction xs arbitrary: a b ys)
  case (Cons x xs)
  then obtain zs where ys: "ys = x # zs" by (cases ys) (auto simp: first_def)
  from Cons ys show ?case by (force simp: seg_Cons)
qed (auto simp: first_def split: list.splits)

lemma repr_unique: "repr l xs \<Longrightarrow> repr l ys \<Longrightarrow> xs = ys"
  by (auto simp: repr_def intro: seg_unique)

lemma in_table: "socks_ok t ns \<Longrightarrow> repr (stab_socks t) ms \<Longrightarrow> ms = ns"
  by (auto simp: socks_ok_def intro: repr_unique)

lemma deliver_ok:
  assumes "socks_ok t ns" and "\<forall>p s. socks t p = Some s \<longrightarrow> l_mem (sk_bufs s) a = None"
    and "udp_process (Some a) buf t = Inr (r, buf', t', w)"
  shows "socks_ok t' ns"
proof -
  define u where "u = ip_data (nb_data buf) ETH_SIZE"
  obtain b where b: "buf2udp (nb_data buf) u = Inr b" using assms(3) by (auto simp: udp_process_def Let_def u_def bnd_eq_Inr)
  consider "t' = t"
    | p s q buf2 where "find (\<lambda>p. sock_matches b u (the_sock t p)) (table t ns) = Some p" "socks t p = Some s"
      "num_items (sk_bufs s) < SOCK_MAX_BUFS" "list_add (Some a) buf2 (sk_bufs s) = Inr q" "t' = sset p (s\<lparr>sk_bufs := snd q\<rparr>) t"
    using assms(3) b
    by (fastforce simp: udp_process_def Let_def u_def [symmetric] bnd_eq_Inr sget_eq_Inr socks_ok_find [OF assms(1)]
        split: if_splits option.splits)
  then show ?thesis
  proof cases
    case 2
    have p: "p \<in> set (table t ns)" using 2(1) by (auto simp: find_Some_iff)
    have "sock_ok (s\<lparr>sk_bufs := snd q\<rparr>)" if ok: "sock_ok s"
    proof -
      obtain qs where qs: "repr (sk_bufs s) qs" "length qs \<le> 4" using ok by (auto simp: sock_ok_def)
      have fresh: "l_mem (sk_bufs s) a = None" using assms(2) 2(2) by blast
      have "length qs < 4" using 2(3) repr_fuel [OF qs(1)] by (simp add: word_less_nat_alt SOCK_MAX_BUFS_def)
      then show ?thesis
        using insert_end [OF qs(1) fresh, of buf2] 2(4) unfolding sock_ok_def by (intro exI [of _ "qs @ [a]"]) auto
    qed
    then show ?thesis unfolding 2(5) by (intro socks_ok_same_addr [OF assms(1) p 2(2)]) auto
  qed (use assms(1) in simp)
qed

lemma read_ok:
  assumes "socks_ok t ns" and "p \<in> set (table t ns)" and "udp_read_end p sz t = Inr (r, bs, t')"
  shows "socks_ok t' ns"
proof -
  obtain s n q where s: "socks t p = Some s" "l_head (sk_bufs s) = Some n"
    "list_del (Some net_buf_free) n (sk_bufs s) = Inr q" "t' = sset p (s\<lparr>sk_bufs := q\<rparr>) t"
    using assms(3) by (auto simp: udp_read_end_def bnd_eq_Inr sget_eq_Inr Let_def split: if_splits option.splits)
  have "sock_ok (s\<lparr>sk_bufs := q\<rparr>)" if ok: "sock_ok s"
  proof -
    obtain qs where qs: "repr (sk_bufs s) qs" "length qs \<le> 4" using ok by (auto simp: sock_ok_def)
    then obtain qs' where q': "qs = n # qs'" using s(2) by (cases qs) (auto simp: repr_def)
    show ?thesis
      using delete_middle [of "sk_bufs s" "[]" n qs' "Some net_buf_free"] qs q' s(3)
      unfolding sock_ok_def by (intro exI [of _ qs']) (auto simp: net_buf_free_def)
  qed
  then show ?thesis unfolding s(4) by (intro socks_ok_same_addr [OF assms(1,2) s(1)]) auto
qed

lemma connect_ok:
  assumes "socks_ok t ns" and "p \<in> set (table t ns)" and "udp_connect p addr rt t = Inr (r, t')"
  shows "socks_ok t' ns"
proof -
  obtain t1 and r1 :: int where t1: "socks_ok t1 ns" "stab_socks t1 = stab_socks t"
    "r1 < 0 \<and> t' = t1 \<or> (\<exists>r2 t2 s. sock_set_rem_addr p addr rt t1 = Inr (r2, t2) \<and> socks t2 p = Some s \<and>
      t' = sset p (s\<lparr>sk_state := SOCK_CONNECTED\<rparr>) t2)"
  proof -
    obtain s where s: "socks t p = Some s" using assms(3) by (auto simp: udp_connect_def bnd_eq_Inr sget_eq_Inr)
    show ?thesis
    proof (cases "sa_port (sk_loc_addr s) = 0")
      case True
      then obtain port t0 r0 t1 where a: "port_alloc (uint S_UDP) t = Inr (port, t0)"
        "sock_set_loc_addr p \<lparr>sa_ip = 0, sa_port = word_of_int port\<rparr> t0 = Inr (r0, t1)"
        "r0 < 0 \<and> t' = t1 \<or> (\<exists>r2 t2 s. sock_set_rem_addr p addr rt t1 = Inr (r2, t2) \<and> socks t2 p = Some s \<and>
          t' = sset p (s\<lparr>sk_state := SOCK_CONNECTED\<rparr>) t2)"
        using assms(3) s by (fastforce simp: udp_connect_def bnd_eq_Inr sget_eq_Inr split: if_splits)
      have "stab_socks t1 = stab_socks t0"
        using a(2) by (auto simp: sock_set_loc_addr_def bnd_eq_Inr sset_def split: if_splits)
      then show ?thesis
        using socks_ok_port_alloc [OF assms(1) a(1)] socks_ok_set_loc_addr [OF _ a(2)] a(3) by (intro that [of t1 r0]) auto
    next
      case False
      then show ?thesis using assms(1,3) s
        by (intro that [of t 0]) (fastforce simp: udp_connect_def bnd_eq_Inr sget_eq_Inr split: if_splits)+
    qed
  qed
  have p: "p \<in> set (table t1 ns)" using assms(2) t1(2) by simp
  show ?thesis
    using t1(3)
  proof (elim disjE exE conjE)
    fix r2 t2 s
    assume a: "sock_set_rem_addr p addr rt t1 = Inr (r2, t2)" "socks t2 p = Some s" "t' = sset p (s\<lparr>sk_state := SOCK_CONNECTED\<rparr>) t2"
    have "socks_ok t2 ns" "p \<in> set (table t2 ns)" using socks_ok_set_rem_addr [OF t1(1) p a(1)] p by auto
    then show ?thesis unfolding a(3) by (intro socks_ok_same_addr [OF _ _ a(2)]) (auto simp: sock_ok_def)
  qed (use t1(1) in simp)
qed

lemma sock_step_ok: "sock_step t t' \<Longrightarrow> socks_ok t ns \<Longrightarrow> \<exists>ns'. socks_ok t' ns'"
proof (induction rule: sock_step.induct)
  case (alloc t p a pid proto r t')
  then show ?case by (intro socks_ok_alloc)
next
  case (free t ms p t')
  then show ?case using socks_ok_free in_table by blast
next
  case (bind p addr t r addr' t')
  then show ?case using socks_ok_bind by blast
next
  case (connect t ms p addr rt r t')
  then show ?case using connect_ok in_table by blast
next
  case (deliver t a buf r buf' t' w)
  then show ?case using deliver_ok by blast
next
  case (read t ms p sz r bs t')
  then show ?case using read_ok in_table by blast
qed

section \<open>Properties\<close>

inductive sock_reachable :: "socks_table \<Rightarrow> bool" where
  init: "sock_init True m1 m2 = (0, Some t) \<Longrightarrow> sock_reachable t"
| step: "sock_reachable t \<Longrightarrow> sock_step t t' \<Longrightarrow> sock_reachable t'"

lemma reachable_ok: "sock_reachable t \<Longrightarrow> \<exists>ns. socks_ok t ns"
proof (induction rule: sock_reachable.induct)
  case (init m1 m2 t)
  then have "socks_ok t []" by (auto simp: sock_init_def socks_ok_def repr_def list_open_def)
  then show ?case by blast
next
  case (step t t')
  then show ?case using sock_step_ok by blast
qed

text \<open>
  C20. In every state the kernel can reach from \<open>sock_init\<close> by allocating, binding, connecting and freeing
  sockets and by delivering and reading datagrams (\<open>sock.c\<close>, \<open>udp.c\<close>), two different sockets of a
  protocol are never bound to the same address and port, there are at most \<open>MAX_SOCKS\<close> sockets, and
  none has more than \<open>SOCK_MAX_BUFS\<close> datagrams waiting, in a list whose links are intact.
\<close>

theorem sockets_never_share_an_address:
  assumes "sock_reachable t"
  shows "\<exists>ns. repr (stab_socks t) ns \<and> length ns \<le> 32 \<and>
    (\<forall>p\<in>set (table t ns). \<exists>s qs. socks t p = Some s \<and> repr (sk_bufs s) qs \<and> length qs \<le> 4 \<and>
      (\<forall>q\<in>set (table t ns). \<forall>s'. q \<noteq> p \<longrightarrow> socks t q = Some s' \<longrightarrow> sk_proto s' = sk_proto s \<longrightarrow>
        sa_port (sk_loc_addr s) \<noteq> 0 \<longrightarrow> sk_loc_addr s' \<noteq> sk_loc_addr s))"
proof -
  obtain ns where ok: "socks_ok t ns" using reachable_ok [OF assms] by blast
  have "\<exists>s qs. socks t p = Some s \<and> repr (sk_bufs s) qs \<and> length qs \<le> 4 \<and>
      (\<forall>q\<in>set (table t ns). \<forall>s'. q \<noteq> p \<longrightarrow> socks t q = Some s' \<longrightarrow> sk_proto s' = sk_proto s \<longrightarrow>
        sa_port (sk_loc_addr s) \<noteq> 0 \<longrightarrow> sk_loc_addr s' \<noteq> sk_loc_addr s)" if p: "p \<in> set (table t ns)" for p
  proof -
    obtain s qs where s: "socks t p = Some s" "repr (sk_bufs s) qs" "length qs \<le> 4"
      using socks_ok_mapped [OF ok p] by (auto simp: sock_ok_def)
    have "\<not> conflict s s'" if "q \<in> set (table t ns)" "q \<noteq> p" "socks t q = Some s'" for q s'
      using ok p that s(1) unfolding socks_ok_def the_sock_def by (metis option.sel)
    with s show ?thesis by (intro exI [of _ s] exI [of _ qs]) (metis conflict_def)
  qed
  with ok show ?thesis unfolding socks_ok_def by blast
qed

text \<open>A table with one socket, bound to port 53.\<close>

definition one_sock :: "u16 \<Rightarrow> socks_table" where
  "one_sock port = \<lparr>stab_lock = False, stab_socks = \<lparr>l_head = Some 20, l_tail = Some 20, num_items = 1,
       l_mem = [20 \<mapsto> \<lparr>prev = None, next_ptr = None, ldata = 10\<rparr>]\<rparr>,
     socks = [10 \<mapsto> \<lparr>sk_proto = 0, sk_loc_addr = \<lparr>sa_ip = 0, sa_port = port\<rparr>, sk_rem_addr = \<lparr>sa_ip = 0, sa_port = 0\<rparr>, sk_pid = 7,
       sk_node = 20, sk_state = SOCK_CREATED, sk_lock = False, sk_bufs = list_open, sk_netif = None\<rparr>],
     udp_ports = None, tcp_ports = None\<rparr>"

lemma one_sock_reachable: "sock_reachable (one_sock 53)"
proof -
  let ?t0 = "\<lparr>stab_lock = False, stab_socks = list_open, socks = (\<lambda>_. None), udp_ports = None, tcp_ports = None\<rparr>"
  have "sock_reachable ?t0"
    by (rule sock_reachable.init [of False False]) (simp add: sock_init_def bmap_alloc_def)
  moreover have "sock_alloc (Some 10) (Some 20) 7 0 ?t0 = Inr (Some 10, one_sock 0)"
    by (simp add: sock_alloc_def list_open_def list_add_def new_node_def list_add_node_def store_def MAX_SOCKS_def sset_def
        one_sock_def)
  then have "sock_step ?t0 (one_sock 0)" by (rule sock_step.alloc [rotated 2]) (simp_all add: list_open_def)
  moreover have "sock_bind 10 \<lparr>sa_ip = 0, sa_port = 53\<rparr> (one_sock 0) = Inr (0, \<lparr>sa_ip = 0, sa_port = 53\<rparr>, one_sock 53)"
    by (simp add: sock_bind_def sock_set_loc_addr_def sget_def for_each_sock_def load_def one_sock_def sset_def Let_def)
  then have "sock_step (one_sock 0) (one_sock 53)" by (rule sock_step.bind)
  ultimately show ?thesis using sock_reachable.step by blast
qed

lemma sockets_never_share_an_address_witness: "\<exists>ns. repr (stab_socks (one_sock 53)) ns \<and> length ns \<le> 32"
  using sockets_never_share_an_address [OF one_sock_reachable] by blast

section \<open>The carry of the checksum\<close>

text \<open>The sum before the carry is added.\<close>

definition udp_acc :: "u8 list \<Rightarrow> nat \<Rightarrow> u32" where
  "udp_acc b u =
     (let n = unat (rd16 b (u + 4));
          acc = udp_words (halves (htonl (rd32 b (ETH_SIZE + 12))) + halves (htonl (rd32 b (ETH_SIZE + 16))) +
            ucast (htons (ucast (b ! (ETH_SIZE + 9)))) + ucast (htons (rd16 b (u + 4)))) b u 0 (n div 2) in
      if n mod 2 \<noteq> 0 then acc + ucast (b ! (u + 2 * (n div 2))) else acc)"

definition fold_once :: "u32 \<Rightarrow> u32" where
  "fold_once s = (s AND 0xFFFF) + drop_bit 16 s"

lemma udp_csum_acc:
  "u + unat (rd16 b (u + 4)) \<le> length b \<Longrightarrow> udp_csum b u = Inr (NOT (ucast (fold_once (udp_acc b u))))"
  by (simp add: udp_csum_def udp_acc_def fold_once_def need_def Let_def)

lemma unat_add_le: "unat (x + y :: u32) \<le> unat x + unat y"
  by (simp add: unat_word_ariths)

lemma udp_words_le: "unat (udp_words acc b u i n) \<le> unat acc + 65535 * n"
proof (induction n arbitrary: acc i)
  case (Suc n)
  define w where "w = (if i < UDP_SIZE div 2 then htons (rd16 b (u + 2 * i)) else rd16 b (u + 2 * i))"
  have "unat (acc + ucast w) \<le> unat acc + 65535"
    using unat_add_le [of acc "ucast w"] unat16 [of w] by (simp add: unat_ucast16)
  then show ?case using Suc.IH [of "acc + ucast w" "Suc i"] by (simp add: w_def)
qed simp

lemma halves_le: "unat (halves w) \<le> 131070"
proof -
  have "unat (halves w) \<le> unat (ucast w :: u16) + unat (ucast (drop_bit 16 w) :: u16)"
    unfolding halves_def by (rule order_trans [OF unat_add_le]) (simp add: unat_ucast16)
  then show ?thesis using unat16 [of "ucast w"] unat16 [of "ucast (drop_bit 16 w)"] by linarith
qed

lemma udp_acc_le: "unat (udp_acc b u) < 65536 * 32800"
proof -
  define n where "n = unat (rd16 b (u + 4))"
  define h where "h = halves (htonl (rd32 b (ETH_SIZE + 12))) + halves (htonl (rd32 b (ETH_SIZE + 16))) +
    ucast (htons (ucast (b ! (ETH_SIZE + 9)))) + ucast (htons (rd16 b (u + 4)))"
  have h: "unat h \<le> 131070 + 131070 + 65535 + 65535"
    unfolding h_def
    by (intro order_trans [OF unat_add_le] add_mono halves_le) (simp_all add: unat_ucast16 unat16)
  have "n div 2 \<le> 32767" using unat16 [of "rd16 b (u + 4)"] by (simp add: n_def)
  then have w: "unat (udp_words h b u 0 (n div 2)) \<le> 393210 + 65535 * 32767"
    using udp_words_le [of h b u 0 "n div 2"] h by linarith
  have o1: "unat (ucast (x :: u8) :: u32) \<le> 255" for x
  proof -
    have "unat x < 2 ^ LENGTH(8)" by (rule unsigned_less)
    then show ?thesis by (simp add: unat_ucast8)
  qed
  have "unat (udp_acc b u) \<le> unat (udp_words h b u 0 (n div 2)) + 255"
    unfolding udp_acc_def Let_def h_def [symmetric] n_def [symmetric]
    using order_trans [OF unat_add_le add_left_mono [OF o1]] by auto
  with w show ?thesis by linarith
qed

lemma udp_words_add: "udp_words (x + y) b u i n = udp_words x b u i n + y"
proof (induction n arbitrary: x i)
  case (Suc n)
  define w where "w = (if i < UDP_SIZE div 2 then htons (rd16 b (u + 2 * i)) else rd16 b (u + 2 * i))"
  have "x + y + ucast w = x + ucast w + y" by simp
  then show ?case using Suc.IH [of "x + ucast w" "Suc i"] by (simp only: udp_words.simps w_def [symmetric])
qed simp

lemma udp_words_set:
  assumes "u + 2 * (i + n) \<le> length b" and "u + 8 \<le> length b" and "rd16 b (u + 6) = 0"
  shows "udp_words acc (wr16 b (u + 6) w) u i n = udp_words acc b u i n + (if i \<le> 3 \<and> 3 < i + n then ucast (htons w) else 0)"
  using assms(1)
proof (induction n arbitrary: acc i)
  case (Suc n)
  have other: "rd16 (wr16 b (u + 6) w) (u + 2 * i) = rd16 b (u + 2 * i)" if "i \<noteq> 3"
    using that Suc.prems assms(2) by (intro rd16_wr16_other) auto
  have z: "htons 0 = 0" by (simp add: htons_def swap16_def)
  have le: "u + 2 * (Suc i + n) \<le> length b" using Suc.prems by simp
  show ?case
  proof (cases "i = 3")
    case True
    have same: "rd16 (wr16 b (u + 6) w) (u + 6) = w" using assms(2) by (simp add: rd16_wr16_same)
    show ?thesis using Suc.IH [OF le] True assms(3) same z by (simp add: udp_words_add UDP_SIZE_def)
  next
    case False
    then have cond: "(Suc i \<le> 3 \<and> 3 < Suc i + n) = (i \<le> 3 \<and> 3 < i + Suc n)" by auto
    show ?thesis unfolding udp_words.simps other [OF False] Suc.IH [OF le] cond ..
  qed
qed auto

lemma udp_acc_set:
  assumes "u + unat (rd16 b (u + 4)) \<le> length b" and "8 \<le> unat (rd16 b (u + 4))" and "34 \<le> u" and "rd16 b (u + 6) = 0"
  shows "udp_acc (wr16 b (u + 6) (ntohs c)) u = udp_acc b u + ucast c"
proof -
  let ?d = "wr16 b (u + 6) (ntohs c)" and ?n = "unat (rd16 b (u + 4))"
  have len: "u + 8 \<le> length b" using assms(1,2) by simp
  have same: "?d ! k = b ! k" if "k \<noteq> u + 6" "k \<noteq> u + 7" for k using that len by (simp add: wr16_update)
  have r16: "rd16 ?d (u + 4) = rd16 b (u + 4)" using same by (simp add: rd16_def)
  have r32: "rd32 ?d (ETH_SIZE + 12) = rd32 b (ETH_SIZE + 12)" "rd32 ?d (ETH_SIZE + 16) = rd32 b (ETH_SIZE + 16)"
    using same assms(3) by (simp_all add: rd32_def ETH_SIZE_def)
  have p: "?d ! (ETH_SIZE + 9) = b ! (ETH_SIZE + 9)" using same assms(3) by (simp add: ETH_SIZE_def)
  have four: "4 \<le> ?n div 2" using assms(2) by linarith
  then have o1: "?d ! (u + 2 * (?n div 2)) = b ! (u + 2 * (?n div 2))" by (intro same) linarith+
  have sw: "htons (ntohs c) = c" by (simp add: htons_def ntohs_def swap16_swap16)
  have "udp_words x ?d u 0 (?n div 2) = udp_words x b u 0 (?n div 2) + ucast c" for x
    using udp_words_set [of u 0 "?n div 2" b x "ntohs c"] assms(1,4) len sw four by simp
  then show ?thesis
    unfolding udp_acc_def r16 r32 p o1 Let_def by simp
qed

lemma unat_ucast_to16: "unat (ucast (s :: u32) :: u16) = unat s mod 65536"
  by (simp add: unsigned_ucast_eq take_bit_nat_def)

text \<open>The arithmetic of the single fold: \<open>h\<close> and \<open>l\<close> are the halves of the sum.\<close>

lemma fold_once_complement:
  assumes "unat s < 65536 * 32800" and c: "c = NOT (ucast (fold_once s) :: u16)"
  shows "NOT (ucast (fold_once (s + ucast c)) :: u16) = (if unat s mod 65536 + unat s div 65536 < 65536 then 0 else 0xFFFF)"
proof -
  define h l where "h = unat s div 65536" and "l = unat s mod 65536"
  have s: "unat s = 65536 * h + l" and l: "l < 65536" by (simp_all add: h_def l_def)
  have h: "h < 32800" using assms(1) s by linarith
  define r where "r = 65535 - h"
  have r: "r < 65536" "r + h = 65535" using h by (simp_all add: r_def)
  have f: "unat (fold_once x) = unat x mod 65536 + unat x div 65536" for x by (simp add: fold_once_def unat_fold_step)
  have uc: "unat c = 65535 - (l + h) mod 65536" by (simp add: c unat_not16 unat_ucast_to16 f h_def l_def)
  have "unat s + unat c < 2 ^ 32" using assms(1) unat16 [of c] by simp
  then have sum: "unat (s + ucast c) = 65536 * h + l + unat c" by (simp add: unat_word_ariths unat_ucast16 s)
  show ?thesis
  proof (cases "l + h < 65536")
    case True
    then have "unat (s + ucast c) = r + 65536 * h" using uc sum l h by (simp add: r_def)
    then have "unat (fold_once (s + ucast c)) = 65535" using r by (simp add: f)
    then have "unat (NOT (ucast (fold_once (s + ucast c)) :: u16)) = 0" by (simp add: unat_not16 unat_ucast_to16)
    then show ?thesis using True by (simp add: unsigned_eq_0_iff h_def l_def)
  next
    case False
    have "(l + h) mod 65536 = l + h - 65536" using False l h by (simp add: mod_if)
    moreover define k where "k = Suc h"
    ultimately have "unat (s + ucast c) = r + 65536 * k" using uc sum l h False by (simp add: r_def)
    then have "unat (fold_once (s + ucast c)) = r + k" using r(1) by (simp add: f)
    also have "r + k = 65536" using r(2) by (simp add: k_def)
    finally have "unat (fold_once (s + ucast c)) = 65536" .
    then have "unat (NOT (ucast (fold_once (s + ucast c)) :: u16)) = 65535" by (simp add: unat_not16 unat_ucast_to16)
    then have "NOT (ucast (fold_once (s + ucast c)) :: u16) = 0xFFFF" by (simp add: word_unat_eq_iff)
    then show ?thesis using False by (simp add: h_def l_def)
  qed
qed

text \<open>
  \<open>udp_csum\<close> (\<open>udp.c\<close>) adds the carry only once. When that addition does not overflow 16 bits again,
  a datagram with the checksum the code computed verifies at a receiver that runs the same code;
  when it does overflow, the checksum is wrong and the receiver drops the datagram.
\<close>

theorem udp_checksum_single_fold:
  assumes "u + unat (rd16 b (u + 4)) \<le> length b" and "8 \<le> unat (rd16 b (u + 4))" and "34 \<le> u" and "rd16 b (u + 6) = 0"
  shows "\<exists>c. udp_csum b u = Inr c \<and> udp_csum (wr16 b (u + 6) (ntohs c)) u =
    Inr (if unat (udp_acc b u) mod 65536 + unat (udp_acc b u) div 65536 < 65536 then 0 else 0xFFFF)"
proof -
  define c :: u16 where "c = NOT (ucast (fold_once (udp_acc b u)))"
  let ?d = "wr16 b (u + 6) (ntohs c)"
  have len: "u + 8 \<le> length b" using assms(1,2) by simp
  have "rd16 ?d (u + 4) = rd16 b (u + 4)" using len by (simp add: rd16_wr16_other)
  then have "udp_csum ?d u = Inr (NOT (ucast (fold_once (udp_acc b u + ucast c))))"
    using assms len by (simp add: udp_csum_acc udp_acc_set)
  then show ?thesis
    using fold_once_complement [OF udp_acc_le c_def] udp_csum_acc [OF assms(1)] by (simp add: c_def)
qed

lemma udp_checksum_single_fold_witness:
  "\<exists>c. udp_csum (replicate 38 0 @ [8, 0, 0, 0]) 34 = Inr c \<and>
     udp_csum (wr16 (replicate 38 0 @ [8, 0, 0, 0]) (34 + 6) (ntohs c)) 34 = Inr 0"
proof -
  let ?b = "replicate 38 0 @ [8, 0, 0, 0] :: u8 list"
  have l: "rd16 ?b (34 + 4) = 8" "rd16 ?b (34 + 6) = 0" by (simp_all add: rd16_def nth_append)
  have z: "rd32 ?b (ETH_SIZE + 12) = 0" "rd32 ?b (ETH_SIZE + 16) = 0" "?b ! (ETH_SIZE + 9) = 0" "rd16 ?b 34 = 0" "rd16 ?b 36 = 0"
    by (simp_all add: rd32_def rd16_def nth_append ETH_SIZE_def)
  have w: "htonl 0 = 0" "htons 0 = 0" "htons 8 = 0x800" "halves 0 = 0"
    by (simp_all add: htonl_def htons_def swap32_def swap16_def upt4 byte_of_def halves_def)
  have four: "(4 :: nat) = Suc (Suc (Suc (Suc 0)))" by simp
  have "udp_words 0x800 ?b 34 0 4 = 0x1000" unfolding four using l z w by (simp add: UDP_SIZE_def)
  then have "udp_acc ?b 34 = 0x1000" unfolding udp_acc_def l z w Let_def using w by simp
  with udp_checksum_single_fold [of 34 ?b] l show ?thesis by simp
qed

end
