(* ===== verification/Net.thy ===== *)
theory Net
  imports Icmp Udp
begin

text \<open>
  The path of a packet (\<open>net.c\<close> and \<open>ip_process\<close> of \<open>ip.c\<close>): the queue between the driver and the network
  task, and the dispatch by protocol. The state of the network code is its interfaces, the ARP
  cache and the sockets; \<open>now\<close> is the clock, \<open>a\<close> what \<open>malloc\<close> returns for a node of a queue.
\<close>

record net_state =
  netifs :: "netif list"
  ns_arp :: arp_state
  ns_socks :: socks_table

record net_queue =
  nq_list :: "net_buf klist"
  nq_lock :: bool

definition NB_MAX_SIZE :: int where "NB_MAX_SIZE = 2000"
definition NETQ_MAX_ITEMS :: u32 where "NETQ_MAX_ITEMS = 256"
definition IP_P_ICMP :: u8 where "IP_P_ICMP = 1"

section \<open>The queue\<close>

definition net_buf_alloc :: "bool \<Rightarrow> int \<Rightarrow> nat \<Rightarrow> net_queue \<Rightarrow> net_buf option kres" where
  "net_buf_alloc mem sz nic q =
     (if num_items (nq_list q) \<ge> NETQ_MAX_ITEMS then Inr None
      else if sz > NB_MAX_SIZE then Inr None
      else if \<not> mem then Inr None
      else if sz < 0 then Inl Fault
      else Inr (Some \<lparr>nb_nic = nic, nb_size = of_int sz, nb_captured = False, nb_udata = 0, nb_ulen = 0,
        nb_data = replicate (nat sz) 0\<rparr>))"

definition netq_push :: "nat option \<Rightarrow> net_buf \<Rightarrow> net_queue option \<Rightarrow> (nat option \<times> net_queue option) kres" where
  "netq_push a buf netq = (case netq of
      None \<Rightarrow> Inr (None, None)
    | Some q \<Rightarrow>
        if nq_lock q then Inl Deadlock
        else if num_items (nq_list q) \<ge> NETQ_MAX_ITEMS then Inr (None, Some q)
        else bnd (list_add a buf (nq_list q)) (\<lambda>(n, l). Inr (Some n, Some (q\<lparr>nq_list := l\<rparr>))))"

definition netq_shift :: "net_queue \<Rightarrow> (net_buf option \<times> net_queue) kres" where
  "netq_shift q =
     (if nq_lock q then Inl Deadlock
      else if num_items (nq_list q) = 0 then Inr (None, q)
      else case l_head (nq_list q) of
        None \<Rightarrow> Inl Fault
      | Some n \<Rightarrow>
          bnd (load n (nq_list q)) (\<lambda>c.
          bnd (list_del None n (nq_list q)) (\<lambda>l. Inr (Some (ldata c), q\<lparr>nq_list := l\<rparr>))))"

section \<open>Dispatch\<close>

text \<open>The result: return value, buffer, state, frames sent and the socket whose readers are woken.\<close>

definition ip_process :: "nat option \<Rightarrow> net_buf \<Rightarrow> net_state \<Rightarrow>
    (int \<times> net_buf \<times> net_state \<times> frame list \<times> nat option) kres" where
  "ip_process a buf st =
     bnd (buf2eth (nb_data buf)) (\<lambda>b.
     bnd (iphlen b ETH_SIZE) (\<lambda>n.
     bnd (ip_csum b ETH_SIZE n) (\<lambda>csum.
     bnd (buf2ipv4 b ETH_SIZE) (\<lambda>b.
     let buf = buf\<lparr>nb_data := b\<rparr>; drop_it = Inr (- 1, buf, st, [], None); daddr = rd32 b (ETH_SIZE + 16) in
     if ip_version b ETH_SIZE \<noteq> IPV4 then drop_it
     else if ip_ihl b ETH_SIZE < 5 then drop_it
     else if b ! (ETH_SIZE + 8) = 0 then drop_it
     else if csum \<noteq> 0 then drop_it
     else
       bnd (if daddr = 0xFFFFFFFF then Inr True
            else bnd (aget (netifs st) (nb_nic buf)) (\<lambda>nif. Inr (list_ex (\<lambda>k. nif_ips nif ! k = daddr) [0..<IFACE_MAX_IPS]))) (\<lambda>ip_found.
       if \<not> ip_found then drop_it
       else if b ! (ETH_SIZE + 9) = IP_P_ICMP then
         bnd (icmpv4_process (netifs st) buf) (\<lambda>(_, buf, fs). Inr (0, buf, st, fs, None))
       else if b ! (ETH_SIZE + 9) = IP_P_UDP then
         bnd (udp_process a buf (ns_socks st)) (\<lambda>(_, buf, t, w). Inr (0, buf, st\<lparr>ns_socks := t\<rparr>, [], w))
       else Inr (0, buf, st, [], None))))))"

text \<open>
  \<open>net_process\<close> reads the type of the frame before it compares the size. The last component of the
  result is the slot of the ARP cache whose sleepers are woken.
\<close>

definition net_process :: "u32 \<Rightarrow> nat option \<Rightarrow> net_buf \<Rightarrow> net_state \<Rightarrow>
    (int \<times> net_buf \<times> net_state \<times> frame list \<times> nat option \<times> nat option) kres" where
  "net_process now a buf st =
     need ETH_SIZE (nb_data buf)
      (let eth_type = ntohs (rd16 (nb_data buf) 12) in
       if unat (nb_size buf) < ETH_SIZE then Inr (- 1, buf, st, [], None, None)
       else if eth_type = ETH_P_ARP then
         bnd (arp_process now (netifs st) buf (ns_arp st)) (\<lambda>(_, buf, ar, fs, w). Inr (0, buf, st\<lparr>ns_arp := ar\<rparr>, fs, None, w))
       else if eth_type = ETH_P_IP then
         bnd (ip_process a buf st) (\<lambda>(_, buf, st, fs, w). Inr (0, buf, st, fs, w, None))
       else Inr (0, buf, st, [], None, None))"

text \<open>
  One round of the loop of \<open>net_task\<close>: sleep when there is nothing to do, else take the next packet and
  process it. A task that is woken without a packet calls \<open>net_process\<close> with NULL.
\<close>

datatype net_round = Net_sleeps | Net_done "frame list"

definition net_task_round :: "bool \<Rightarrow> u32 \<Rightarrow> nat option \<Rightarrow> net_queue \<Rightarrow> net_state \<Rightarrow> (net_round \<times> net_queue \<times> net_state) kres" where
  "net_task_round woke now a q st =
     (if num_items (nq_list q) = 0 \<and> \<not> woke then Inr (Net_sleeps, q, st)
      else
        bnd (netq_shift q) (\<lambda>(r, q). case r of
          None \<Rightarrow> Inl Fault
        | Some buf \<Rightarrow> bnd (net_process now a buf st) (\<lambda>(_, buf, st, fs, _). Inr (Net_done fs, q, st))))"

definition make_ip :: "u8 \<Rightarrow> u8 \<Rightarrow> u8 \<Rightarrow> u8 \<Rightarrow> u32" where
  "make_ip a b c d = push_bit 24 (ucast a) OR push_bit 16 (ucast b) OR push_bit 8 (ucast c) OR ucast d"

definition iface_add_ip :: "netif \<Rightarrow> u32 \<Rightarrow> (int \<times> netif) kres" where
  "iface_add_ip nif ip =
     (case find (\<lambda>i. nif_ips nif ! i = 0) [0..<IFACE_MAX_IPS] of
        None \<Rightarrow> Inr (- 1, nif)
      | Some i \<Rightarrow> bnd (aset (nif_ips nif) i ip) (\<lambda>ips. Inr (0, nif\<lparr>nif_ips := ips\<rparr>)))"

section \<open>Properties\<close>

definition queue_of :: "net_queue \<Rightarrow> net_buf list \<Rightarrow> bool" where
  "queue_of q bufs \<longleftrightarrow> \<not> nq_lock q \<and> (\<exists>ps. repr (nq_list q) ps \<and> items (nq_list q) ps = bufs \<and> length ps \<le> 256)"

lemma queue_of_num: "queue_of q bufs \<Longrightarrow> unat (num_items (nq_list q)) = length bufs"
  by (auto simp: queue_of_def dest: repr_fuel)

lemma push_appends:
  assumes "queue_of q bufs" and "length bufs < 256" and "l_mem (nq_list q) a = None"
  shows "\<exists>q'. netq_push (Some a) buf (Some q) = Inr (Some a, Some q') \<and> queue_of q' (bufs @ [buf])"
proof -
  obtain ps where ps: "repr (nq_list q) ps" "items (nq_list q) ps = bufs" and nl: "\<not> nq_lock q"
    using assms(1) by (auto simp: queue_of_def)
  have len: "length ps = length bufs" using ps(2) by auto
  obtain l where l: "list_add (Some a) buf (nq_list q) = Inr (a, l)" "repr l (ps @ [a])" "items l (ps @ [a]) = bufs @ [buf]"
    using insert_end [OF ps(1) assms(3), of buf] ps(2) len assms(2) by auto
  have "\<not> num_items (nq_list q) \<ge> NETQ_MAX_ITEMS"
    using queue_of_num [OF assms(1)] assms(2) by (simp add: word_le_nat_alt NETQ_MAX_ITEMS_def)
  then have "netq_push (Some a) buf (Some q) = Inr (Some a, Some (q\<lparr>nq_list := l\<rparr>))" using l(1) nl by (simp add: netq_push_def)
  moreover have "queue_of (q\<lparr>nq_list := l\<rparr>) (bufs @ [buf])"
    using l(2,3) nl len assms(2) unfolding queue_of_def by (intro conjI exI [of _ "ps @ [a]"]) auto
  ultimately show ?thesis by blast
qed

lemma shift_takes_first:
  assumes "queue_of q (buf # bufs)"
  shows "\<exists>q'. netq_shift q = Inr (Some buf, q') \<and> queue_of q' bufs"
proof -
  obtain p ps where ps: "repr (nq_list q) (p # ps)" "items (nq_list q) (p # ps) = buf # bufs" "length (p # ps) \<le> 256"
    and nl: "\<not> nq_lock q"
    using assms by (auto simp: queue_of_def items_def)
  have c: "\<exists>c. l_mem (nq_list q) p = Some c \<and> ldata c = buf" using ps(1,2) by (auto simp: repr_def seg_Cons items_Cons)
  obtain l where l: "list_del None p (nq_list q) = Inr l" "repr l ps" "items l ps = bufs"
    using delete_middle [of "nq_list q" "[]" p ps None] ps by (auto simp: items_Cons)
  have "num_items (nq_list q) \<noteq> 0" using queue_of_num [OF assms] by auto
  then have "netq_shift q = Inr (Some buf, q\<lparr>nq_list := l\<rparr>)"
    using nl c l(1) ps(1) by (auto simp: netq_shift_def repr_def)
  moreover have "queue_of (q\<lparr>nq_list := l\<rparr>) bufs"
    using l(2,3) ps(3) nl unfolding queue_of_def by (intro conjI exI [of _ ps]) auto
  ultimately show ?thesis by blast
qed

text \<open>
  The queue between the driver and the network task (\<open>netq_push\<close>, \<open>netq_shift\<close> in \<open>net.c\<close>) is a first in,
  first out queue of at most 256 packets: a push appends, or leaves a full queue as it is and
  returns NULL; a shift removes the oldest packet, or returns NULL when there is none.
\<close>

theorem netq_is_bounded_fifo:
  assumes "queue_of q bufs" and "l_mem (nq_list q) a = None"
  shows "(if length bufs = 256 then netq_push (Some a) buf (Some q) = Inr (None, Some q)
      else \<exists>q'. netq_push (Some a) buf (Some q) = Inr (Some a, Some q') \<and> queue_of q' (bufs @ [buf])) \<and>
    (case bufs of [] \<Rightarrow> netq_shift q = Inr (None, q) | x # xs \<Rightarrow> \<exists>q'. netq_shift q = Inr (Some x, q') \<and> queue_of q' xs)"
proof -
  have nl: "\<not> nq_lock q" and le: "length bufs \<le> 256" using assms(1) by (auto simp: queue_of_def)
  have n: "unat (num_items (nq_list q)) = length bufs" by (rule queue_of_num [OF assms(1)])
  have full: "netq_push (Some a) buf (Some q) = Inr (None, Some q)" if "length bufs = 256"
    using that n nl by (simp add: netq_push_def NETQ_MAX_ITEMS_def word_le_nat_alt)
  have "case bufs of [] \<Rightarrow> netq_shift q = Inr (None, q) | x # xs \<Rightarrow> \<exists>q'. netq_shift q = Inr (Some x, q') \<and> queue_of q' xs"
  proof (cases bufs)
    case Nil
    then show ?thesis using n nl by (simp add: netq_shift_def unsigned_eq_0_iff)
  next
    case (Cons x xs)
    then show ?thesis using shift_takes_first assms(1) by simp
  qed
  then show ?thesis using full push_appends [OF assms(1) _ assms(2)] le by auto
qed

definition sample_buf :: net_buf where
  "sample_buf = \<lparr>nb_nic = 0, nb_size = 3, nb_captured = False, nb_udata = 0, nb_ulen = 0, nb_data = [1, 2, 3]\<rparr>"

lemma netq_is_bounded_fifo_witness:
  "\<exists>q'. netq_push (Some 5) sample_buf (Some \<lparr>nq_list = list_open, nq_lock = False\<rparr>) = Inr (Some 5, Some q') \<and>
     queue_of q' [sample_buf]"
proof -
  have "queue_of \<lparr>nq_list = list_open, nq_lock = False\<rparr> []"
    unfolding queue_of_def by (auto simp: repr_def list_open_def intro!: exI [of _ "[]"])
  from netq_is_bounded_fifo [OF this, of 5 sample_buf] show ?thesis by (simp add: list_open_def)
qed

text \<open>
  A packet for this host on the wire: the first byte has the version 4 and the number \<open>n\<close> of 32-bit words of the header, at least
  five; the time to live is not 0; the one's complement sum of all \<open>4 n\<close> bytes of the header is 65535, the test of RFC 1071; the destination,
  most significant byte first, is the broadcast address or one of the addresses of the interface the packet came from.
\<close>

definition ip_valid :: "net_state \<Rightarrow> net_buf \<Rightarrow> bool" where
  "ip_valid st buf \<longleftrightarrow> (let b = nb_data buf; n = unat (b ! 14) mod 16; dest = rd32 (rev (take 4 (drop 30 b))) 0 in
     unat (b ! 14) div 16 = 4 \<and> 5 \<le> n \<and> b ! 22 \<noteq> 0 \<and> ones_sum (wsum b 14 (4 * n)) = 65535 \<and>
     (dest = 0xFFFFFFFF \<or> (\<exists>k<IFACE_MAX_IPS. nif_ips (netifs st ! nb_nic buf) ! k = dest)))"

lemma nibbles: "swap_nibbles x AND 0xF = drop_bit 4 x" "drop_bit 4 (swap_nibbles x) = x AND 0xF"
  "unat (drop_bit 4 (x :: u8)) = unat x div 16" "unat (x AND 0xF) = unat x mod 16"
proof -
  have "bit x (4 + n) \<Longrightarrow> n < 4" for n using bit_imp_le_length [of x "4 + n"] by auto
  then show "swap_nibbles x AND 0xF = drop_bit 4 x" "drop_bit 4 (swap_nibbles x) = x AND 0xF"
    unfolding swap_nibbles_def mask4 by (auto intro!: bit_word_eqI simp: bit_simps)
  have "unat x < 2 ^ LENGTH(8)" by (rule unsigned_less)
  then show "unat (drop_bit 4 x) = unat x div 16" by (simp add: unsigned_drop_bit_eq drop_bit_nat_def take_bit_nat_def)
  show "unat (x AND 0xF) = unat x mod 16"
    unfolding mask4 take_bit_eq_mask [symmetric] by (simp add: unsigned_take_bit_eq take_bit_nat_def)
qed

lemma swap32_rev: "30 + 4 \<le> length b \<Longrightarrow> swap32 (rd32 b 30) = rd32 (rev (take 4 (drop 30 b))) 0"
proof -
  assume l: "30 + 4 \<le> length b"
  have "rd32 (conv32 30 b) 30 = swap32 (rd32 b 30)" using l by (simp add: conv32_def ntohl_def rd32_wr32_same)
  moreover have "rd32 (conv32 30 b) 30 = rd32 (rev (take 4 (drop 30 b))) 0"
    using l by (simp add: conv32_swaps take_drop_nth upt_rec rd32_def)
  ultimately show ?thesis by simp
qed

text \<open>
  C19. \<open>ip_process\<close> (\<open>ip.c\<close>) takes exactly the valid packets for this host, for headers of up to seven words: it returns 0 for a
  packet that is valid on the wire and -1 for every other, and when it returns -1 no frame is sent, no socket
  changes and no reader is woken; nor for protocols other than ICMP and UDP. Longer headers are a fault of the code:
  see \<open>long_header_unchecked\<close>. The total length is not part of the test: the code does not look at it.
\<close>

theorem ip_process_acts_on_valid_packets:
  assumes "ip_process a buf st = Inr (r, buf', st', fs, w)" and "unat (nb_data buf ! 14) mod 16 \<le> 7"
  shows "r = (if ip_valid st buf then 0 else - 1) \<and>
    (\<not> ip_valid st buf \<or> nb_data buf ! 23 \<noteq> 1 \<and> nb_data buf ! 23 \<noteq> 17 \<longrightarrow> st' = st \<and> fs = [] \<and> w = None)"
proof -
  let ?b = "nb_data buf"
  obtain b n c d where s: "buf2eth ?b = Inr b" "iphlen b 14 = Inr n" "ip_csum b 14 n = Inr c" "buf2ipv4 b 14 = Inr d"
    using assms(1) unfolding ip_process_def bnd_eq_Inr ETH_SIZE_def by blast
  have b: "b = conv16 12 ?b" "14 \<le> length ?b" using s(1) by (auto simp: buf2eth_def need_def ETH_SIZE_def split: if_splits)
  then have bk: "length b = length ?b" "\<And>k. k < 12 \<or> 14 \<le> k \<Longrightarrow> b ! k = ?b ! k" by (auto simp: conv16_swaps)
  have len: "34 \<le> length ?b" using s(4) bk(1) by (auto simp: buf2ipv4_def need_def IP_SIZE_def split: if_splits)
  have d: "converted 14 b d" using buf2ipv4_converted [of 14 b] s(4) len bk(1) by auto
  have hd: "d ! 22 = ?b ! 22" "d ! 23 = ?b ! 23" "ip_version d 14 = drop_bit 4 (?b ! 14)" "ip_ihl d 14 = ?b ! 14 AND 0xF"
    using d bk(2) [of 22] bk(2) [of 23] bk(2) [of 14] by (simp_all add: converted_def ip_version_def ip_ihl_def nibbles)
  have dest: "rd32 d 30 = rd32 (rev (take 4 (drop 30 ?b))) 0"
  proof -
    have "rd32 b 30 = rd32 ?b 30" using bk(2) by (simp add: rd32_def)
    with d swap32_rev [of ?b] len show ?thesis by (simp add: converted_def)
  qed
  have n: "n = int (4 * (unat (?b ! 14) mod 16))"
  proof -
    have "unat (?b ! 14) mod 16 = unat (?b ! 14) mod 8" using assms(2) mod_mod_cancel [of 8 16 "unat (?b ! 14)"] by simp
    then show ?thesis using iphlen_spec [of 14 b] s(2) bk len by simp
  qed
  have c: "c = 0 \<longleftrightarrow> ones_sum (wsum ?b 14 (4 * (unat (?b ! 14) mod 16))) = 65535"
  proof -
    have eq: "ip_csum ?b 14 n = Inr c" using ip_csum_cong [of b ?b 14 n] bk s(3) by simp
    then have l: "14 + 4 * (unat (?b ! 14) mod 16) \<le> length ?b" by (simp add: ip_csum_def need_def n split: if_splits)
    obtain c' where "ip_csum ?b 14 n = Inr c'" "unat c' = 65535 - ones_sum (wsum ?b 14 (4 * (unat (?b ! 14) mod 16)))"
      using ip_csum_ones [OF l] assms(2) n by auto
    moreover have "ones_sum (wsum ?b 14 (4 * (unat (?b ! 14) mod 16))) \<le> 65535" by (rule ones_sum_le)
    ultimately show ?thesis using eq by (auto simp: unsigned_eq_0_iff)
  qed
  have ver: "ip_version d 14 \<noteq> IPV4 \<longleftrightarrow> unat (?b ! 14) div 16 \<noteq> 4"
    using nibbles(3) [of "?b ! 14"] by (simp add: hd(3) word_unat_eq_iff IPV4_def)
  have ihl: "ip_ihl d 14 < 5 \<longleftrightarrow> unat (?b ! 14) mod 16 < 5" by (simp add: hd(4) word_less_nat_alt nibbles(4))
  note run = assms(1) [unfolded ip_process_def ETH_SIZE_def s(1) bnd_Inr s(2,3,4) Let_def]
  show ?thesis
    using run ver ihl c hd(1,2) dest
    by (auto simp: ip_valid_def Let_def bnd_eq_Inr aget_eq_Inr list_ex_iff IP_P_ICMP_def IP_P_UDP_def split: if_splits)
qed

text \<open>A ping on the wire: an echo request from 10.0.2.2 to 10.0.2.4.\<close>

definition sample_ping :: "u8 list" where
  "sample_ping = [2, 2, 2, 2, 2, 2, 9, 9, 9, 9, 9, 9, 8, 0,
     0x45, 0, 0, 28, 7, 7, 0, 0, 64, 1, 0x5B, 0xD5, 10, 0, 2, 2, 10, 0, 2, 4, 8, 0, 0xF7, 0xFB, 0, 1, 0, 3]"

definition ping_buf :: net_buf where
  "ping_buf = \<lparr>nb_nic = 0, nb_size = 42, nb_captured = False, nb_udata = 0, nb_ulen = 0, nb_data = sample_ping\<rparr>"

definition sample_net :: net_state where
  "sample_net = \<lparr>netifs = [sample_nif], ns_arp = waiting_cache, ns_socks = one_sock 53\<rparr>"

text \<open>
  An echo request on the wire for one of the interface's addresses, complete and with valid
  checksums, and the frame that answers it: from the interface's hardware address to the sender's, with the type, version, header
  length, service, total length, identification, fragment fields and protocol of the request, a time to live
  of 64, the addresses exchanged, type and code 0, the request's data and checksums that verify.
\<close>

definition wire_len :: "u8 list \<Rightarrow> int" where
  "wire_len b = int (unat (ntohs (rd16 b 16))) - 20"

definition wire_echo :: "netif \<Rightarrow> u8 list \<Rightarrow> bool" where
  "wire_echo nif b \<longleftrightarrow> b ! 12 = 8 \<and> b ! 13 = 0 \<and> b ! 14 = 0x45 \<and> b ! 22 \<noteq> 0 \<and> b ! 23 = 1 \<and> ip_csum b 14 20 = Inr 0 \<and>
     (\<exists>k<IFACE_MAX_IPS. nif_ips nif ! k = ntohl (rd32 b 30)) \<and> b ! 34 = 8 \<and>
     4 \<le> wire_len b \<and> 34 + nat (wire_len b) \<le> length b \<and> ip_csum b 34 (wire_len b) = Inr 0"

definition wire_answer :: "u8 list \<Rightarrow> u8 list \<Rightarrow> u8 list \<Rightarrow> bool" where
  "wire_answer mac b f \<longleftrightarrow> length f = length b \<and> take 6 f = take 6 (drop 6 b) \<and> take 6 (drop 6 f) = mac \<and>
     take 10 (drop 12 f) = take 10 (drop 12 b) \<and> f ! 22 = 64 \<and> f ! 23 = b ! 23 \<and>
     rd32 f 26 = rd32 b 30 \<and> rd32 f 30 = rd32 b 26 \<and> ip_csum f 14 20 = Inr 0 \<and>
     f ! 34 = 0 \<and> f ! 35 = 0 \<and> drop 38 f = drop 38 b \<and> ip_csum f 34 (wire_len b) = Inr 0"

lemma nibbles_45: "swap_nibbles 0x45 = 0x54"
  by (simp add: swap_nibbles_def)

lemma ip_answers_echo:
  assumes "wire_echo nif (nb_data buf)" and "nb_nic buf < length (netifs st)" and "nif = netifs st ! nb_nic buf" and "nif_up nif"
    and "length (nif_mac nif) = MAC_SIZE" and "unat (nb_size buf) = length (nb_data buf)"
  shows "\<exists>buf' f. ip_process a buf st = Inr (0, buf', st, [(nif_id nif, f)], None) \<and> wire_answer (nif_mac nif) (nb_data buf) f"
proof -
  let ?b = "nb_data buf"
  have w: "?b ! 14 = 0x45" "?b ! 22 \<noteq> 0" "?b ! 23 = 1" "ip_csum ?b 14 20 = Inr 0" "?b ! 34 = 8" "4 \<le> wire_len ?b"
    "34 + nat (wire_len ?b) \<le> length ?b" "ip_csum ?b 34 (wire_len ?b) = Inr 0"
    "\<exists>k<IFACE_MAX_IPS. nif_ips nif ! k = ntohl (rd32 ?b 30)"
    using assms(1) by (auto simp: wire_echo_def)
  have len: "38 \<le> length ?b" using w(6,7) by simp
  define b1 where "b1 = conv16 12 ?b"
  have b1: "length b1 = length ?b" "\<And>k. k < 12 \<or> 14 \<le> k \<Longrightarrow> b1 ! k = ?b ! k" using len by (auto simp: b1_def conv16_swaps)
  obtain d where d: "buf2ipv4 b1 14 = Inr d" "converted 14 b1 d" using buf2ipv4_converted [of 14 b1] b1(1) len by auto
  have ld: "length d = length ?b" using d(2) b1(1) by (simp add: converted_def)
  have dk: "d ! k = ?b ! k" if "k < 12 \<or> 34 \<le> k" for k using that d(2) b1(2) [of k] by (auto simp: converted_def)
  have first: "d ! 14 = 0x54" using d(2) b1(2) [of 14] w(1) by (simp add: converted_def nibbles_45)
  have dd: "d ! 22 = ?b ! 22" "d ! 23 = ?b ! 23" using d(2) b1(2) [of 22] b1(2) [of 23] by (simp_all add: converted_def)
  have r1: "rd32 b1 26 = rd32 ?b 26" "rd32 b1 30 = rd32 ?b 30" "rd16 b1 16 = rd16 ?b 16" using b1(2) by (simp_all add: rd32_def rd16_def)
  have addr: "rd32 d 26 = ntohl (rd32 ?b 26)" "rd32 d 30 = ntohl (rd32 ?b 30)" "rd16 d 16 = ntohs (rd16 ?b 16)"
    using d(2) r1 by (simp_all add: converted_def ntohl_def ntohs_def)
  have types: "d ! 12 = ?b ! 13" "d ! 13 = ?b ! 12" using d(2) len by (simp_all add: converted_def b1_def conv16_swaps)
  have "d = take 14 b1 @ convert (frag_host \<circ> ntohs) (drop 14 b1)"
    using buf2ipv4_at [of "drop 14 b1" "take 14 b1"] d(1) b1(1) len by simp
  then have "drop 14 d = convert (frag_host \<circ> ntohs) (drop 14 b1)" using b1(1) len by simp
  then have "convert (htons \<circ> frag_net) (drop 14 d) = drop 14 b1" using convert_back [of "drop 14 b1"] b1(1) len by simp
  then have head: "convert (htons \<circ> frag_net) (drop 14 d) ! k = ?b ! (14 + k)" if "k < 8" for k using that b1 len by simp
  have il: "icmp_len d = wire_len ?b" using addr(3) by (simp add: icmp_len_def wire_len_def ETH_SIZE_def IP_SIZE_def)
  have "iphlen b1 14 = Inr 20" using iphlen_spec [of 14 b1] b1 len w(1) by simp
  moreover have "ip_csum b1 14 20 = Inr 0" using ip_csum_cong [of b1 ?b 14 20] b1 w(4) by simp
  moreover have "echo_request d"
    using first ld il w(5-8) dk ip_csum_cong [of d ?b 34 "wire_len ?b"]
    by (simp add: echo_request_def ip_ihl_def ETH_SIZE_def ICMP_T_ECHO_REQUEST_def)
  then obtain buf' f where r: "icmpv4_process (netifs st) (buf\<lparr>nb_data := d\<rparr>) = Inr (0, buf', [(nif_id nif, f)])"
    and f: "echo_answer (nif_mac nif) d f"
    using echo_request_answered [of "buf\<lparr>nb_data := d\<rparr>" "netifs st" nif] assms(2-6) ld by auto
  ultimately have "ip_process a buf st = Inr (0, buf', st, [(nif_id nif, f)], None)"
    using d(1) first dd addr(2) w(2,3,9) assms(2,3) len r
    by (auto simp: ip_process_def buf2eth_def need_def ETH_SIZE_def b1_def [symmetric] Let_def ip_version_def ip_ihl_def IPV4_def
        IP_P_ICMP_def list_ex_iff)
  moreover have "wire_answer (nif_mac nif) ?b f"
  proof -
    have "take 6 (drop 6 d) = take 6 (drop 6 ?b)" using dk ld len by (intro nth_equalityI) auto
    moreover have "drop 38 d = drop 38 ?b" using dk ld by (intro nth_equalityI) auto
    moreover have "htonl (ntohl x) = x" for x by (simp add: htonl_def ntohl_def swap32_swap32)
    moreover have "take 10 (drop 12 f) = take 10 (drop 12 ?b)"
    proof (rule nth_equalityI)
      fix k
      assume "k < length (take 10 (drop 12 f))"
      then consider "k = 0" | "k = 1" | j where "k = Suc (Suc j)" "j < 8" by (cases k) (auto simp: less_Suc_eq_0_disj numeral_eq_Suc)
      then show "take 10 (drop 12 f) ! k = take 10 (drop 12 ?b) ! k"
      proof cases
        case 3
        then show ?thesis using head f ld len by (simp add: echo_answer_def add.commute)
      qed (use f ld len types in \<open>simp_all add: echo_answer_def\<close>)
    qed (use f ld in \<open>simp add: echo_answer_def\<close>)
    ultimately show ?thesis using f addr il ld dd by (simp add: echo_answer_def wire_answer_def ICMP_T_ECHO_REPLAY_def)
  qed
  ultimately show ?thesis by blast
qed

lemma sample_ping_ok: "wire_echo sample_nif sample_ping"
proof -
  have n: "wire_len sample_ping = 8" by (simp add: wire_len_def sample_ping_def rd16_def ntohs_def swap16_def)
  have "ip_csum sample_ping 14 20 = Inr 0" "ip_csum sample_ping 34 8 = Inr 0" by code_simp+
  moreover have "ntohl (rd32 sample_ping 30) = 0x0A000204" by code_simp
  moreover have "nif_ips sample_nif ! 1 = 0x0A000204" by (simp add: sample_nif_def)
  ultimately show ?thesis
    unfolding wire_echo_def n by (auto simp: sample_ping_def IFACE_MAX_IPS_def intro!: exI [of _ 1])
qed

lemma sample_ping_runs:
  "\<exists>buf' f. ip_process None ping_buf sample_net = Inr (0, buf', sample_net, [(0, f)], None)"
  using ip_answers_echo [of sample_nif ping_buf sample_net None] sample_ping_ok
  by (auto simp: ping_buf_def sample_net_def sample_nif_def MAC_SIZE_def sample_ping_def)

lemma ip_process_acts_on_valid_packets_witness:
  "ip_valid sample_net ping_buf \<and> (\<exists>buf' f. ip_process None ping_buf sample_net = Inr (0, buf', sample_net, [(0, f)], None))"
proof -
  obtain buf' f where p: "ip_process None ping_buf sample_net = Inr (0, buf', sample_net, [(0, f)], None)"
    using sample_ping_runs by blast
  moreover have "unat (nb_data ping_buf ! 14) mod 16 \<le> 7" by (simp add: ping_buf_def sample_ping_def)
  ultimately show ?thesis using ip_process_acts_on_valid_packets [OF p] by (auto split: if_splits)
qed

text \<open>
  \<open>iphlen\<close> masks the header length with 7 instead of 15: of a header of 13 words the first 20 bytes are summed and the
  options are not. The packet below is taken although the checksum of its header does not verify.
\<close>

definition long_header :: net_buf where
  "long_header = ping_buf\<lparr>nb_data := [2, 2, 2, 2, 2, 2, 9, 9, 9, 9, 9, 9, 8, 0,
     0x4D, 0, 0, 60, 7, 7, 0, 0, 64, 99, 0x53, 0x53, 10, 0, 2, 2, 10, 0, 2, 4] @ replicate 40 1, nb_size := 74\<rparr>"

lemma long_header_unchecked:
  "\<not> ip_valid sample_net long_header \<and>
   (case ip_process None long_header sample_net of Inl _ \<Rightarrow> False | Inr (r, _, _, _, _) \<Rightarrow> r = 0)"
proof -
  have "ip_csum (nb_data long_header) 14 52 \<noteq> Inr 0" by code_simp
  then have "ones_sum (wsum (nb_data long_header) 14 52) \<noteq> 65535"
    using ip_csum_ones [of 14 52 "nb_data long_header"] by (auto simp: unsigned_eq_0_iff long_header_def)
  moreover have "unat (nb_data long_header ! 14) mod 16 = 13" by (simp add: long_header_def)
  ultimately have "\<not> ip_valid sample_net long_header" by (simp add: ip_valid_def Let_def)
  moreover have "case ip_process None long_header sample_net of Inl _ \<Rightarrow> False | Inr (r, _, _, _, _) \<Rightarrow> r = 0"
  proof -
    define h where "h = nb_data long_header"
    define b where "b = conv16 12 h"
    define d where "d = take 14 b @ convert (frag_host \<circ> ntohs) (drop 14 b)"
    have "buf2eth h = Inr b" by (simp add: buf2eth_def need_def b_def h_def long_header_def ETH_SIZE_def)
    moreover have "iphlen b 14 = Inr 20" "ip_csum b 14 20 = Inr 0" unfolding b_def h_def by code_simp+
    moreover have "length b = 74" by (simp add: b_def h_def long_header_def)
    then have "buf2ipv4 b 14 = Inr d" using buf2ipv4_at [of "drop 14 b" "take 14 b"] by (simp add: d_def)
    moreover have "d ! 14 = 0xD4" "d ! 22 = 64" "d ! 23 = 99" "rd32 d 30 = 0x0A000204" unfolding d_def b_def h_def by code_simp+
    moreover have "nb_nic long_header = 0" "aget (netifs sample_net) 0 = Inr sample_nif"
      by (simp_all add: long_header_def ping_buf_def sample_net_def)
    moreover have "list_ex (\<lambda>k. nif_ips sample_nif ! k = 0x0A000204) [0..<IFACE_MAX_IPS]"
      by (simp add: sample_nif_def IFACE_MAX_IPS_def upt_rec)
    ultimately show ?thesis
      by (simp add: ip_process_def h_def [symmetric] ETH_SIZE_def ip_version_def ip_ihl_def IPV4_def Let_def IP_P_ICMP_def IP_P_UDP_def)
  qed
  ultimately show ?thesis by blast
qed

end
