(* ===== verification/Vsnprintf.thy ===== *)
theory Vsnprintf
  imports Cstring
begin

text \<open>
  Formatted output (\<open>lib/vsnprintf.c\<close>): a state machine over the format that hands characters to \<open>bputc\<close>,
  which stores those that fit and counts all. \<open>fmt_int\<close>, \<open>fmt_chr\<close> and \<open>fmt_str\<close> have no other effect, so
  each is the list of the characters it hands over, in order. The variable arguments are a list;
  taking an argument of another size than the one that was passed, or one too many, is a fault.
  The precision is read and never used.
\<close>

type_synonym u64 = "64 word"

datatype va = Int32 u32 | Int64 u64 | Str "u8 list option"

fun va_int :: "va list \<Rightarrow> (u32 \<times> va list) kres" where
  "va_int (Int32 w # as) = Inr (w, as)"
| "va_int _ = Inl Fault"

fun va_llong :: "va list \<Rightarrow> (u64 \<times> va list) kres" where
  "va_llong (Int64 w # as) = Inr (w, as)"
| "va_llong _ = Inl Fault"

fun va_str :: "va list \<Rightarrow> (u8 list option \<times> va list) kres" where
  "va_str (Str s # as) = Inr (s, as)"
| "va_str _ = Inl Fault"

section \<open>The buffer\<close>

record out =
  o_buf :: "u8 list"
  o_n :: u32

definition bputc :: "u32 \<Rightarrow> u8 \<Rightarrow> out \<Rightarrow> out kres" where
  "bputc mx c s =
     bnd (if o_n s < mx then aset (o_buf s) (unat (o_n s)) c else Inr (o_buf s)) (\<lambda>b.
     Inr \<lparr>o_buf = b, o_n = o_n s + 1\<rparr>)"

fun bputs :: "u32 \<Rightarrow> u8 list \<Rightarrow> out \<Rightarrow> out kres" where
  "bputs mx [] s = Inr s"
| "bputs mx (c # cs) s = bnd (bputc mx c s) (bputs mx cs)"

section \<open>Numbers, characters and strings\<close>

definition F_ALTERNATE :: u32 where "F_ALTERNATE = 1"
definition F_ZEROPAD :: u32 where "F_ZEROPAD = 2"
definition F_LEFT :: u32 where "F_LEFT = 4"
definition F_SPACE :: u32 where "F_SPACE = 8"
definition F_PLUS :: u32 where "F_PLUS = 16"
definition F_SIGNED :: u32 where "F_SIGNED = 32"
definition F_SMALL :: u32 where "F_SMALL = 64"

definition is_digit :: "u8 \<Rightarrow> bool" where
  "is_digit c \<longleftrightarrow> 48 \<le> c \<and> c \<le> 57"

text \<open>\<open>get_atoi\<close> moves the pointer over the digits; a number that does not fit an \<open>int\<close> overflows.\<close>

fun get_atoi :: "int \<Rightarrow> u8 list \<Rightarrow> (int \<times> u8 list) kres" where
  "get_atoi n [] = Inl Fault"
| "get_atoi n (c # s) =
     (if is_digit c
      then if n * 10 + uint c \<le> 2147483647 then get_atoi (n * 10 + uint c - 48) s else Inl Fault
      else Inr (n, c # s))"

text \<open>The loop that fills \<open>nbuf\<close>: the digits of \<open>n\<close>, the last one first.\<close>

definition digit_char :: "bool \<Rightarrow> nat \<Rightarrow> u8" where
  "digit_char small d = of_nat (if d < 10 then 48 + d else if small then 87 + d else 55 + d)"

function digits_loop :: "nat \<Rightarrow> nat \<Rightarrow> nat list" where
  "digits_loop base n = n mod base # (if n div base > 0 \<and> 1 < base then digits_loop base (n div base) else [])"
  by pat_completeness auto
termination
  by (relation "measure (\<lambda>(base, n). n)") (auto intro: div_less_dividend simp: div_greater_zero_iff)

declare digits_loop.simps [simp del]

definition fmt_int :: "u64 \<Rightarrow> int \<Rightarrow> int \<Rightarrow> u32 \<Rightarrow> u8 list" where
  "fmt_int num base width flags =
     (if base < 2 \<or> base > 16 then []
      else
        let small = flags AND F_SMALL \<noteq> 0;
            left = flags AND F_LEFT \<noteq> 0;
            zero = flags AND F_ZEROPAD \<noteq> 0 \<and> \<not> left;
            neg = flags AND F_SIGNED \<noteq> 0 \<and> sint num < 0;
            n = (ucast (if neg then - num else num) :: u32);
            sign = (if neg then [45] else if flags AND F_PLUS \<noteq> 0 then [43] else if flags AND F_SPACE \<noteq> 0 then [32] else []);
            nbuf = map (digit_char small) (digits_loop (nat base) (unat n));
            altb = sign @ (if flags AND F_ALTERNATE \<noteq> 0 \<and> (base = 8 \<or> base = 16)
                           then 48 # (if base = 16 then [if small then 120 else 88] else []) else []);
            i = int (length nbuf); j = int (length altb);
            npad = (if width > i + j then width - i - j else 0);
            front = npad > 0 \<and> \<not> left in
        (if front then (if zero then altb else []) @ replicate (nat npad) (if zero then 48 else 32) else []) @
        (if front \<and> zero then [] else altb) @ rev nbuf @
        (if npad > 0 \<and> left then replicate (nat npad) 32 else []))"

definition fmt_chr :: "u8 \<Rightarrow> int \<Rightarrow> u32 \<Rightarrow> u8 list" where
  "fmt_chr c width flags =
     (let npad = (if width > 0 then width - 1 else 0); left = flags AND F_LEFT \<noteq> 0 in
      (if npad \<noteq> 0 \<and> \<not> left then replicate (nat npad) 32 else []) @ [c] @
      (if npad \<noteq> 0 \<and> left then replicate (nat npad) 32 else []))"

definition fmt_str :: "u8 list \<Rightarrow> int \<Rightarrow> u32 \<Rightarrow> u8 list kres" where
  "fmt_str s width flags =
     bnd (strlen (Some s)) (\<lambda>len.
     let npad = (if width > 0 then width - int len else 0); npad = (if npad < 0 then 0 else npad); left = flags AND F_LEFT \<noteq> 0 in
     Inr ((if npad \<noteq> 0 \<and> \<not> left then replicate (nat npad) 32 else []) @ take len s @
       (if npad \<noteq> 0 \<and> left then replicate (nat npad) 32 else [])))"

section \<open>The format\<close>

datatype pstate = S_DEFAULT | S_FLAGS | S_WIDTH | S_PRECIS | S_LENGTH | S_CONV

definition L_CHAR :: u32 where "L_CHAR = 1"
definition L_SHORT :: u32 where "L_SHORT = 2"
definition L_LONG :: u32 where "L_LONG = 3"
definition L_LLONG :: u32 where "L_LLONG = 4"
definition L_DOUBLE :: u32 where "L_DOUBLE = 5"

record ps =
  ps_state :: pstate
  ps_flags :: u32
  ps_width :: int
  ps_lflags :: u32
  ps_fmt :: "u8 list"
  ps_args :: "va list"
  ps_c :: u8

text \<open>\<open>S_CONV\<close>: the characters the conversion \<open>c\<close> hands to \<open>bputc\<close>, the rest of the arguments, and the new \<open>c\<close>.\<close>

definition conv :: "u8 \<Rightarrow> ps \<Rightarrow> (u8 list \<times> va list \<times> u8) kres" where
  "conv c p =
     (if c \<in> {100, 105, 111, 98, 117, 120, 88} then
        bnd (if ps_lflags p = L_LONG then bnd (va_int (ps_args p)) (\<lambda>(w, as). Inr (scast w, as))
             else if ps_lflags p AND (L_LLONG OR L_DOUBLE) \<noteq> 0 then va_llong (ps_args p)
             else if c = 100 \<or> c = 105 then bnd (va_int (ps_args p)) (\<lambda>(w, as). Inr (scast w, as))
             else bnd (va_int (ps_args p)) (\<lambda>(w, as). Inr (ucast w, as))) (\<lambda>(num, as).
        let flags = (if c = 100 \<or> c = 105 then ps_flags p OR F_SIGNED else if c = 120 then ps_flags p OR F_SMALL else ps_flags p);
            base = (if c = 120 \<or> c = 88 then 16 else if c = 111 then 8 else if c = 98 then 2 else 10) in
        Inr (fmt_int num base (ps_width p) flags, as, c))
      else if c = 112 then
        bnd (va_int (ps_args p)) (\<lambda>(w, as).
        Inr (fmt_int (ucast w) 16 (ps_width p) (ps_flags p OR (F_SMALL OR F_ALTERNATE)), as, c))
      else if c = 115 then
        bnd (va_str (ps_args p)) (\<lambda>(s, as).
        bnd (fmt_str (case s of None \<Rightarrow> [40, 110, 117, 108, 108, 41, 0] | Some s \<Rightarrow> s) (ps_width p) (ps_flags p)) (\<lambda>cs.
        Inr (cs, as, c)))
      else if c = 99 then
        bnd (va_int (ps_args p)) (\<lambda>(w, as). Inr (fmt_chr (ucast w) (ps_width p) (ps_flags p), as, ucast w))
      else if c = 37 then Inr ([c], ps_args p, c)
      else Inr ([37, c], ps_args p, c))"

text \<open>
  One round of the loop: what is handed to \<open>bputc\<close> and the new state. \<open>fmt--\<close> leaves the character for
  the next round.
\<close>

definition vstep :: "ps \<Rightarrow> (u8 list \<times> ps) kres" where
  "vstep p = (case ps_fmt p of
      [] \<Rightarrow> Inl Fault
    | c # r \<Rightarrow>
        let q = p\<lparr>ps_fmt := r, ps_c := c\<rparr>; stay = p\<lparr>ps_c := c\<rparr> in
        (case ps_state p of
           S_DEFAULT \<Rightarrow> if c = 37 then Inr ([], q\<lparr>ps_state := S_FLAGS, ps_flags := 0\<rparr>) else Inr ([c], q)
         | S_FLAGS \<Rightarrow>
             if c = 35 then Inr ([], q\<lparr>ps_flags := ps_flags p OR F_ALTERNATE\<rparr>)
             else if c = 48 then Inr ([], q\<lparr>ps_flags := ps_flags p OR F_ZEROPAD\<rparr>)
             else if c = 45 then Inr ([], q\<lparr>ps_flags := ps_flags p OR F_LEFT\<rparr>)
             else if c = 32 then Inr ([], q\<lparr>ps_flags := ps_flags p OR F_SPACE\<rparr>)
             else if c = 43 then Inr ([], q\<lparr>ps_flags := ps_flags p OR F_PLUS\<rparr>)
             else if c = 39 \<or> c = 73 then Inr ([], q)
             else Inr ([], stay\<lparr>ps_width := 0, ps_state := S_WIDTH\<rparr>)
         | S_WIDTH \<Rightarrow>
             if c = 42 then
               bnd (va_int (ps_args p)) (\<lambda>(w, as).
               if sint w < 0 then
                 if w = 0x80000000 then Inl Fault
                 else Inr ([], q\<lparr>ps_width := - sint w, ps_flags := ps_flags p OR F_LEFT, ps_args := as\<rparr>)
               else Inr ([], q\<lparr>ps_width := sint w, ps_args := as\<rparr>))
             else if is_digit c \<and> c > 48 then
               bnd (get_atoi 0 (c # r)) (\<lambda>(n, r). Inr ([], q\<lparr>ps_width := n, ps_fmt := r\<rparr>))
             else Inr ([], stay\<lparr>ps_state := S_PRECIS\<rparr>)
         | S_PRECIS \<Rightarrow>
             if c = 46 then (case r of
                 [] \<Rightarrow> Inl Fault
               | d # _ \<Rightarrow>
                   if is_digit d then
                     bnd (get_atoi 0 r) (\<lambda>(_, r). Inr ([], q\<lparr>ps_fmt := r, ps_lflags := 0, ps_state := S_LENGTH\<rparr>))
                   else if d = 42 then
                     bnd (va_int (ps_args p)) (\<lambda>(_, as). Inr ([], q\<lparr>ps_args := as, ps_lflags := 0, ps_state := S_LENGTH\<rparr>))
                   else Inr ([], q\<lparr>ps_lflags := 0, ps_state := S_LENGTH\<rparr>))
             else Inr ([], stay\<lparr>ps_lflags := 0, ps_state := S_LENGTH\<rparr>)
         | S_LENGTH \<Rightarrow>
             if c = 104 then Inr ([], q\<lparr>ps_lflags := (if ps_lflags p = L_CHAR then L_SHORT else L_CHAR)\<rparr>)
             else if c = 108 then Inr ([], q\<lparr>ps_lflags := (if ps_lflags p = L_LONG then L_LLONG else L_LONG)\<rparr>)
             else if c = 76 then Inr ([], q\<lparr>ps_lflags := L_DOUBLE\<rparr>)
             else Inr ([], stay\<lparr>ps_state := S_CONV\<rparr>)
         | S_CONV \<Rightarrow>
             bnd (conv c p) (\<lambda>(cs, as, c). Inr (cs, q\<lparr>ps_args := as, ps_c := c, ps_state := S_DEFAULT\<rparr>))))"

section \<open>The loop ends\<close>

text \<open>Every round takes a character of the format or goes on to a later state.\<close>

fun state_rank :: "pstate \<Rightarrow> nat" where
  "state_rank S_DEFAULT = 5" | "state_rank S_FLAGS = 4" | "state_rank S_WIDTH = 3"
| "state_rank S_PRECIS = 2" | "state_rank S_LENGTH = 1" | "state_rank S_CONV = 0"

definition rank :: "ps \<Rightarrow> nat" where
  "rank p = 6 * length (ps_fmt p) + state_rank (ps_state p)"

lemma get_atoi_shorter: "get_atoi n s = Inr (m, r) \<Longrightarrow> length r \<le> length s"
  by (induction n s rule: get_atoi.induct) (auto split: if_splits)

lemma get_atoi_takes: "get_atoi n (c # s) = Inr (m, r) \<Longrightarrow> is_digit c \<Longrightarrow> length r \<le> length s"
  by (auto dest: get_atoi_shorter split: if_splits)

lemma vstep_rank: "vstep p = Inr (cs, q) \<Longrightarrow> rank q < rank p"
proof -
  assume v: "vstep p = Inr (cs, q)"
  then obtain c r where f: "ps_fmt p = c # r" by (auto simp: vstep_def split: list.splits)
  show ?thesis
    using v f
    by (cases "ps_state p")
      (auto simp: vstep_def rank_def Let_def bnd_eq_Inr simp del: get_atoi.simps
        dest!: get_atoi_takes split: if_splits list.splits)
qed

function vloop :: "u32 \<Rightarrow> ps \<Rightarrow> out \<Rightarrow> out kres" where
  "vloop sz p s =
     bnd (vstep p) (\<lambda>(cs, q).
     bnd (bputs sz cs s) (\<lambda>s.
     if ps_c q = 0 then Inr s else vloop sz q s))"
  by pat_completeness auto
termination
  by (relation "measure (\<lambda>(sz, p, s). rank p)") (auto dest: vstep_rank)

declare vloop.simps [simp del]

text \<open>\<open>buf\<close> is None for a NULL pointer. The result is the return value and the buffer.\<close>

definition vsnprintf :: "u8 list option \<Rightarrow> u32 \<Rightarrow> u8 list \<Rightarrow> va list \<Rightarrow> (int \<times> u8 list) kres" where
  "vsnprintf buf size0 fmt ap =
     (let sz = (if buf = None then 0 else size0) in
      bnd (vloop sz \<lparr>ps_state = S_DEFAULT, ps_flags = 0, ps_width = 0, ps_lflags = 0, ps_fmt = fmt, ps_args = ap, ps_c = 0\<rparr>
        \<lparr>o_buf = (case buf of None \<Rightarrow> [] | Some b \<Rightarrow> b), o_n = 0\<rparr>) (\<lambda>s.
      let n = o_n s - 1 in
      bnd (if n < sz then aset (o_buf s) (unat n) 0
           else if sz > 0 then aset (o_buf s) (unat (sz - 1)) 0
           else Inr (o_buf s)) (\<lambda>b.
      Inr (sint n, b))))"

section \<open>The buffer holds a prefix of the text\<close>

text \<open>
  \<open>holds sz b0 tx s\<close>: the characters \<open>tx\<close> have been handed over; those that fit are in the first \<open>sz\<close>
  bytes of the buffer, the rest of which is as it was.
\<close>

definition holds :: "u32 \<Rightarrow> u8 list \<Rightarrow> u8 list \<Rightarrow> out \<Rightarrow> bool" where
  "holds sz b0 tx s \<longleftrightarrow> unat sz \<le> length b0 \<and> o_n s = of_nat (length tx) \<and>
     o_buf s = take (unat sz) tx @ drop (length (take (unat sz) tx)) b0"

lemma bputc_holds:
  assumes "holds sz b0 tx s" and "length tx + 1 < 2 ^ 32"
  shows "\<exists>s'. bputc sz c s = Inr s' \<and> holds sz b0 (tx @ [c]) s'"
proof -
  have n: "unat (o_n s) = length tx" using assms by (simp add: holds_def unat_of_nat)
  show ?thesis
  proof (cases "o_n s < sz")
    case True
    then have lt: "length tx < unat sz" using n by (simp add: word_less_nat_alt)
    then have b: "o_buf s = tx @ drop (length tx) b0" "unat sz \<le> length b0" using assms(1) by (simp_all add: holds_def)
    have "aset (o_buf s) (length tx) c = Inr (tx @ [c] @ drop (Suc (length tx)) b0)"
      using b lt by (simp add: aset_def list_update_append Cons_nth_drop_Suc [symmetric])
    then show ?thesis using True n b lt assms(1) by (simp add: bputc_def holds_def)
  next
    case False
    then have "unat sz \<le> length tx" using n by (simp add: word_less_nat_alt)
    then show ?thesis using False assms(1) by (simp add: bputc_def holds_def)
  qed
qed

lemma bputs_holds:
  "holds sz b0 tx s \<Longrightarrow> length tx + length cs < 2 ^ 32 \<Longrightarrow> \<exists>s'. bputs sz cs s = Inr s' \<and> holds sz b0 (tx @ cs) s'"
proof (induction cs arbitrary: tx s)
  case (Cons c cs)
  obtain s1 where s1: "bputc sz c s = Inr s1" "holds sz b0 (tx @ [c]) s1"
    using bputc_holds [OF Cons.prems(1), of c] Cons.prems(2) by auto
  from Cons.IH [OF s1(2)] Cons.prems(2) s1(1) show ?case by auto
qed auto

text \<open>The text the format produces, without a buffer.\<close>

function text_of :: "ps \<Rightarrow> u8 list kres" where
  "text_of p = bnd (vstep p) (\<lambda>(cs, q). if ps_c q = 0 then Inr cs else bnd (text_of q) (\<lambda>ds. Inr (cs @ ds)))"
  by pat_completeness auto
termination
  by (relation "measure rank") (auto dest: vstep_rank)

declare text_of.simps [simp del]

lemma vloop_text:
  "holds sz b0 tx s \<Longrightarrow> text_of p = Inr cs \<Longrightarrow> length tx + length cs < 2 ^ 32 \<Longrightarrow>
   \<exists>s'. vloop sz p s = Inr s' \<and> holds sz b0 (tx @ cs) s'"
proof (induction sz p s arbitrary: tx cs rule: vloop.induct)
  case (1 sz p s)
  obtain ds q where v: "vstep p = Inr (ds, q)" and cs: "if ps_c q = 0 then cs = ds else \<exists>es. text_of q = Inr es \<and> cs = ds @ es"
    using 1(3) by (auto simp: text_of.simps [of p] bnd_eq_Inr split: if_splits)
  have short: "length tx + length ds < 2 ^ 32" using 1(4) cs by (auto split: if_splits)
  obtain s1 where s1: "bputs sz ds s = Inr s1" "holds sz b0 (tx @ ds) s1" using bputs_holds [OF 1(2) short] by blast
  show ?case
  proof (cases "ps_c q = 0")
    case True
    then show ?thesis using v s1 cs by (simp add: vloop.simps [of sz p])
  next
    case False
    then obtain es where es: "text_of q = Inr es" "cs = ds @ es" using cs by auto
    from 1(1) [OF v refl s1(1) False s1(2) es(1)] 1(4) es(2) obtain s2
      where "vloop sz q s1 = Inr s2" "holds sz b0 ((tx @ ds) @ es) s2" by auto
    then show ?thesis using v s1(1) False es(2) by (simp add: vloop.simps [of sz p])
  qed
qed

abbreviation start :: "u8 list \<Rightarrow> va list \<Rightarrow> ps" where
  "start fmt ap \<equiv> \<lparr>ps_state = S_DEFAULT, ps_flags = 0, ps_width = 0, ps_lflags = 0, ps_fmt = fmt, ps_args = ap, ps_c = 0\<rparr>"

lemma vsnprintf_text:
  assumes "text_of (start fmt ap) = Inr (tx @ [0])" and "length tx < 2 ^ 31" and "0 < sz" and "unat sz \<le> length b"
    and m: "m = min (length tx) (unat sz - 1)"
  shows "vsnprintf (Some b) sz fmt ap = Inr (int (length tx), take m tx @ [0] @ drop (Suc m) b)"
proof -
  have "holds sz b [] \<lparr>o_buf = b, o_n = 0\<rparr>" using assms(4) by (simp add: holds_def)
  from vloop_text [OF this assms(1)] assms(2)
  obtain s where s: "vloop sz (start fmt ap) \<lparr>o_buf = b, o_n = 0\<rparr> = Inr s" "holds sz b (tx @ [0]) s" by auto
  have n: "o_n s - 1 = of_nat (length tx)" using s(2) by (simp add: holds_def)
  have un: "unat (of_nat (length tx) :: u32) = length tx" using assms(2) by (simp add: unat_of_nat)
  have pos: "0 < unat sz" using assms(3) by (simp add: word_less_nat_alt)
  have b: "o_buf s = take (unat sz) (tx @ [0]) @ drop (length (take (unat sz) (tx @ [0]))) b"
    using s(2) by (simp add: holds_def)
  have st: "(if of_nat (length tx) < sz then aset (o_buf s) (length tx) 0
      else if sz > 0 then aset (o_buf s) (unat (sz - 1)) 0 else Inr (o_buf s)) = Inr (take m tx @ [0] @ drop (Suc m) b)"
  proof (cases "length tx < unat sz")
    case True
    then have "m = length tx" using m by simp
    then show ?thesis using True un b assms(4) by (simp add: word_less_nat_alt aset_def list_update_append)
  next
    case False
    have u1: "unat (sz - 1) = unat sz - 1" using pos by (simp add: unat_sub_if' word_less_nat_alt)
    obtain k where k: "unat sz = Suc k" using pos by (cases "unat sz") auto
    have mk: "m = k" using False m k by simp
    have "(take (Suc k) tx @ drop (Suc k) b)[k := 0] = take k tx @ 0 # drop (Suc k) b"
      using False k by (simp add: take_Suc_conv_app_nth list_update_append)
    then show ?thesis using False un b assms(3,4) u1 k mk by (simp add: word_less_nat_alt aset_def)
  qed
  have si: "sint (of_nat (length tx) :: u32) = int (length tx)"
    using assms(2) by (simp add: signed_of_nat signed_take_bit_int_eq_self)
  show ?thesis
    unfolding vsnprintf_def Let_def by (simp only: option.simps if_False s(1) bnd_Inr n un st si)
qed

lemma bputs_frame:
  assumes "bputs sz cs s = Inr s'"
  shows "length (o_buf s') = length (o_buf s) \<and> (\<forall>k. unat sz \<le> k \<longrightarrow> o_buf s' ! k = o_buf s ! k)"
  using assms
proof (induction cs arbitrary: s)
  case (Cons c cs)
  obtain s1 where s1: "bputc sz c s = Inr s1" "bputs sz cs s1 = Inr s'" using Cons.prems by (auto simp: bnd_eq_Inr)
  have "length (o_buf s1) = length (o_buf s) \<and> (\<forall>k. unat sz \<le> k \<longrightarrow> o_buf s1 ! k = o_buf s ! k)"
    using s1(1) by (auto simp: bputc_def bnd_eq_Inr aset_eq_Inr word_less_nat_alt split: if_splits)
  with Cons.IH [OF s1(2)] show ?case by simp
qed simp

lemma vloop_frame:
  "vloop sz p s = Inr s' \<Longrightarrow> length (o_buf s') = length (o_buf s) \<and> (\<forall>k. unat sz \<le> k \<longrightarrow> o_buf s' ! k = o_buf s ! k)"
proof (induction sz p s rule: vloop.induct)
  case (1 sz p s)
  obtain cs q s1 where v: "vstep p = Inr (cs, q)" "bputs sz cs s = Inr s1" "if ps_c q = 0 then s1 = s' else vloop sz q s1 = Inr s'"
    using 1(2) by (auto simp: vloop.simps [of sz p] bnd_eq_Inr split: if_splits)
  show ?case
    using bputs_frame [OF v(2)] v(3) 1(1) [OF v(1) refl v(2)] by (cases "ps_c q = 0") auto
qed

section \<open>Decimal numbers\<close>

abbreviation chars :: "nat list \<Rightarrow> u8 list" where
  "chars ds \<equiv> map (digit_char False) (rev ds)"

lemma sint_digit: "d < 10 \<Longrightarrow> sint (digit_char False d) = 48 + int d"
proof -
  assume "d < 10"
  then have "d = 0 \<or> d = 1 \<or> d = 2 \<or> d = 3 \<or> d = 4 \<or> d = 5 \<or> d = 6 \<or> d = 7 \<or> d = 8 \<or> d = 9" by presburger
  then show ?thesis by (elim disjE) (simp_all add: digit_char_def)
qed

lemma atoi_digits:
  assumes "n \<le> 2147483599"
  shows "atoi_loop (chars (digits_loop 10 n) @ ys) 0 = atoi_loop ys (int n)"
  using assms
proof (induction n arbitrary: ys rule: less_induct)
  case (less n)
  define d where "d = digit_char False (n mod 10)"
  have d: "sint d = 48 + int (n mod 10)" unfolding d_def by (intro sint_digit) simp
  have n: "int (n div 10) * 10 + int (n mod 10) = int n"
    by (metis div_mult_mod_eq of_nat_add of_nat_mult of_nat_numeral)
  have step: "atoi_loop (d # ys) (int (n div 10)) = atoi_loop ys (int n)"
  proof -
    have "int (n div 10) * 10 + sint d \<le> 2147483647" using n d less.prems by linarith
    moreover have "int (n div 10) * 10 + sint d - 48 = int n" using n d by linarith
    moreover have "n mod 10 \<le> 9" by simp
    ultimately show ?thesis using d by simp
  qed
  show ?case
  proof (cases "n div 10 > 0")
    case True
    have "atoi_loop (chars (digits_loop 10 (n div 10)) @ d # ys) 0 = atoi_loop (d # ys) (int (n div 10))"
      using True less.prems by (intro less.IH) (auto simp: div_greater_zero_iff)
    then show ?thesis using True step by (simp add: digits_loop.simps [of 10 n] d_def)
  next
    case False
    then show ?thesis using step by (simp add: digits_loop.simps [of 10 n] d_def)
  qed
qed

lemma length_digits: "n < 10 ^ k \<Longrightarrow> 0 < k \<Longrightarrow> length (digits_loop 10 n) \<le> k"
proof (induction k arbitrary: n)
  case (Suc k)
  show ?case
  proof (cases "n div 10 > 0")
    case True
    then have "0 < k" using Suc.prems(1) by (cases k) auto
    moreover have "n div 10 < 10 ^ k" using Suc.prems(1) by (simp add: div_less_iff_less_mult mult.commute)
    ultimately show ?thesis using Suc.IH by (simp add: digits_loop.simps [of 10 n])
  qed (simp add: digits_loop.simps [of 10 n])
qed simp

lemma fmt_int_plain:
  assumes "0 \<le> sint w"
  shows "fmt_int (scast (w :: u32)) 10 0 F_SIGNED = chars (digits_loop 10 (unat w))"
proof -
  have s: "sint (scast w :: u64) = sint w"
    using sint_greater_eq [of w] sint_less [of w] by (simp add: signed_scast_eq signed_take_bit_int_eq_self)
  have u: "ucast (scast w :: u64) = w" by (rule bit_word_eqI) (simp add: bit_simps)
  show ?thesis
    using assms unfolding fmt_int_def Let_def s
    by (simp add: F_SIGNED_def F_SMALL_def F_LEFT_def F_ZEROPAD_def F_PLUS_def F_SPACE_def F_ALTERNATE_def u rev_map)
qed

lemma text_of_decimal:
  "text_of (start [37, 100, 0] [Int32 w]) = Inr (fmt_int (scast w) 10 0 F_SIGNED @ [0])"
  by (simp add: text_of.simps vstep_def conv_def Let_def is_digit_def L_LONG_def L_LLONG_def L_DOUBLE_def)

section \<open>Properties\<close>

text \<open>
  C21. \<open>vsnprintf\<close> (\<open>lib/vsnprintf.c\<close>) stays within its buffer: for every format and every list of arguments
  it returns from, not one byte outside the first \<open>size\<close> bytes of the buffer has changed, and when
  \<open>size\<close> is not 0 these hold a string that ends with a NUL.
\<close>

theorem vsnprintf_stays_in_buffer:
  assumes "vsnprintf (Some b) sz fmt ap = Inr (n, b')" and "unat sz \<le> length b"
  shows "length b' = length b \<and> (\<forall>k. unat sz \<le> k \<longrightarrow> b' ! k = b ! k) \<and> (0 < sz \<longrightarrow> (\<exists>k<unat sz. b' ! k = 0))"
proof -
  obtain s where s: "vloop sz (start fmt ap) \<lparr>o_buf = b, o_n = 0\<rparr> = Inr s"
    and e: "(if o_n s - 1 < sz then aset (o_buf s) (unat (o_n s - 1)) 0
      else if sz > 0 then aset (o_buf s) (unat (sz - 1)) 0 else Inr (o_buf s)) = Inr b'"
    using assms(1) by (auto simp: vsnprintf_def Let_def bnd_eq_Inr)
  have f: "length (o_buf s) = length b" "\<And>k. unat sz \<le> k \<Longrightarrow> o_buf s ! k = b ! k" using vloop_frame [OF s] by auto
  have "0 < sz \<Longrightarrow> unat (sz - 1) < unat sz" by (simp add: unat_sub_if' word_less_nat_alt)
  then consider k where "k < unat sz" "b' = (o_buf s)[k := 0]" | "sz = 0" "b' = o_buf s"
    using e by (auto simp: aset_eq_Inr word_less_nat_alt unsigned_eq_0_iff split: if_splits)
  then show ?thesis
  proof cases
    case 1
    then have "b' ! k = 0" using assms(2) f(1) by simp
    with 1 f show ?thesis by auto
  qed (use f in auto)
qed

text \<open>
  \<open>vsnprintf\<close> keeps the contract of C99 for truncated output: the return value is the length of the
  whole text the format produces, however small the buffer is, and the buffer holds as much of
  the text as fits together with the final NUL.
\<close>

theorem vsnprintf_truncates:
  assumes "text_of (start fmt ap) = Inr (tx @ [0])" and "length tx < 2 ^ 31" and "0 < sz" and "unat sz \<le> length b"
  shows "vsnprintf (Some b) sz fmt ap =
    Inr (int (length tx), take (min (length tx) (unat sz - 1)) tx @ [0] @ drop (Suc (min (length tx) (unat sz - 1))) b)"
  by (rule vsnprintf_text [OF assms refl])

lemma text_of_sample: "text_of (start [104, 105, 33, 0] []) = Inr ([104, 105, 33] @ [0])"
  by (simp add: text_of.simps vstep_def)

lemma vsnprintf_truncates_witness:
  "vsnprintf (Some [1, 2, 3, 4]) 3 [104, 105, 33, 0] [] = Inr (3, [104, 105, 0, 4])"
  using vsnprintf_truncates [OF text_of_sample, of 3 "[1, 2, 3, 4]"] by simp

lemma vsnprintf_stays_in_buffer_witness:
  "\<exists>n b'. vsnprintf (Some [1, 2, 3, 4]) 3 [104, 105, 33, 0] [] = Inr (n, b') \<and> length b' = 4 \<and> b' ! 3 = [1, 2, 3, 4] ! 3"
proof -
  have v: "vsnprintf (Some [1, 2, 3, 4]) 3 [104, 105, 33, 0] [] = Inr (3, [104, 105, 0, 4])"
    using vsnprintf_text [OF text_of_sample _ _ _ refl, of 3 "[1, 2, 3, 4]"] by simp
  from vsnprintf_stays_in_buffer [OF v] v show ?thesis by simp
qed

text \<open>
  Numbers survive printing and reading: \<open>vsnprintf\<close> with \<open>%d\<close> followed by \<open>atoi\<close> (\<open>lib/atoi.c\<close>) gives the
  number back, for every number from 0 to 2147483599; from there to the largest \<open>int\<close> \<open>atoi\<close> overflows.
\<close>

theorem decimal_roundtrip:
  assumes "0 \<le> sint w" and "sint w \<le> 2147483599" and "11 \<le> unat sz" and "unat sz \<le> length b"
  shows "\<exists>n b'. vsnprintf (Some b) sz [37, 100, 0] [Int32 w] = Inr (n, b') \<and> atoi b' = Inr (sint w)"
proof -
  let ?d = "chars (digits_loop 10 (unat w))"
  have "uint w = sint w"
    using uint_sint [of w] take_bit_int_eq_self [of "sint w" 32] assms(1) sint_less [of w] by simp
  then have si: "sint w = int (unat w)" by simp
  have len: "length ?d \<le> 10" using length_digits [of "unat w" 10] si assms(2) by simp
  have tx: "text_of (start [37, 100, 0] [Int32 w]) = Inr (?d @ [0])"
    using text_of_decimal [of w] fmt_int_plain [OF assms(1)] by simp
  have m: "min (length ?d) (unat sz - 1) = length ?d" using len assms(3) by simp
  have "0 < sz" using assms(3) by (simp add: word_less_nat_alt)
  then have "vsnprintf (Some b) sz [37, 100, 0] [Int32 w] = Inr (int (length ?d), ?d @ [0] @ drop (Suc (length ?d)) b)"
    using vsnprintf_text [OF tx _ _ assms(4) m [symmetric]] len by simp
  moreover have "atoi (?d @ [0] @ drop (Suc (length ?d)) b) = Inr (sint w)"
    using atoi_digits [of "unat w" "[0] @ drop (Suc (length ?d)) b"] si assms(2) by (simp add: atoi_def)
  ultimately show ?thesis by blast
qed

lemma decimal_roundtrip_witness:
  "\<exists>n b'. vsnprintf (Some (replicate 16 0)) 16 [37, 100, 0] [Int32 1234567] = Inr (n, b') \<and> atoi b' = Inr 1234567"
  using decimal_roundtrip [of 1234567 16 "replicate 16 0"] by simp

text \<open>
  The flag of \<open>%hd\<close> shares a bit with those of \<open>long long\<close>, so the conversion takes eight bytes of arguments
  where the caller passed four. And a format that ends inside a conversion loses the last
  character of the text, since the count of the final NUL is taken off although none was added.
\<close>

lemma short_conversion_takes_llong: "vsnprintf (Some b) sz [37, 104, 100, 0] [Int32 w] = Inl Fault"
  by (simp add: vsnprintf_def vloop.simps vstep_def conv_def Let_def is_digit_def L_LONG_def L_LLONG_def L_DOUBLE_def L_CHAR_def)

lemma incomplete_conversion_loses_char:
  "vsnprintf (Some [0, 0, 0, 0]) 4 [97, 98, 37, 0] [] = Inr (1, [97, 0, 0, 0])"
  by (simp add: vsnprintf_def vloop.simps vstep_def bputc_def Let_def aset_def)

end
