(* ===== verification/Mem.thy ===== *)
theory Mem
  imports Prelude
begin

text \<open>
  Physical frames and paging (\<open>mem.c\<close>, \<open>kheap.c\<close>). Physical memory is a map from frame numbers to the 1024
  words of a frame. Every access of the kernel goes through \<open>translate\<close>, the two level page walk of
  the i386 from the directory in \<open>cr3\<close>: the accesses of the code to page tables through the recursive
  entry 1023 of the directory and to arbitrary frames through the reserved page are therefore
  translated like any other. The kernel runs without the write protect bit of \<open>cr0\<close>, so its accesses
  only need the present bit. The translation cache is not modelled; the code invalidates each entry
  it changes.

  First the operations, then the view of a memory as a directory, page tables and a stack of
  free frames (\<open>mem_ok\<close>), under which every operation is an explicit change of physical memory.
\<close>

section \<open>The processor's view\<close>

record memory =
  pm :: "nat \<Rightarrow> nat \<Rightarrow> u32"
  cr3 :: u32
  num_pages :: u32
  total_pages :: u32
  kernel_dir :: u32
  pg_on :: bool
  last_free_page :: u32

definition PAGE_SIZE :: u32 where "PAGE_SIZE = 4096"

definition P_PRESENT :: u16 where "P_PRESENT = 1"

definition P_READ_WRITE :: u16 where "P_READ_WRITE = 2"

definition P_USER :: u16 where "P_USER = 4"

definition RESV_PAGE :: u32 where "RESV_PAGE = 0xFFBFE000"

definition PTABLES_ADDR :: u32 where "PTABLES_ADDR = 0xFFC00000"

definition PDIR_ADDR :: u32 where "PDIR_ADDR = 0xFFFFF000"

definition USER_CODE_START_ADDR :: u32 where "USER_CODE_START_ADDR = 0x10000000"

definition USER_STACK_HI :: u32 where "USER_STACK_HI = USER_CODE_START_ADDR - PAGE_SIZE"

definition USER_STACK_LOW :: u32 where "USER_STACK_LOW = USER_STACK_HI - 10 * PAGE_SIZE"

definition HEAP_START :: u32 where "HEAP_START = 0xD0000000"

definition HEAP_END :: u32 where "HEAP_END = 0xE0000000"

definition fr :: "u32 \<Rightarrow> nat" where "fr a = unat a div 4096"

definition dir_idx :: "u32 \<Rightarrow> nat" where "dir_idx a = unat a div 4096 div 1024"

definition tbl_idx :: "u32 \<Rightarrow> nat" where "tbl_idx a = unat a div 4096 mod 1024"

definition word_idx :: "u32 \<Rightarrow> nat" where "word_idx a = unat a mod 4096 div 4"

definition present :: "u32 \<Rightarrow> bool" where "present e \<longleftrightarrow> e AND ucast P_PRESENT \<noteq> 0"

definition pupd :: "(nat \<Rightarrow> nat \<Rightarrow> u32) \<Rightarrow> nat \<Rightarrow> nat \<Rightarrow> u32 \<Rightarrow> nat \<Rightarrow> nat \<Rightarrow> u32" where
  "pupd p f i v = p(f := (p f)(i := v))"

definition translate :: "u32 \<Rightarrow> memory \<Rightarrow> nat kres" where
  "translate a m =
     (if \<not> pg_on m then Inr (fr a)
      else let pde = pm m (fr (cr3 m)) (dir_idx a) in
        if \<not> present pde then Inl Fault
        else let pte = pm m (fr pde) (tbl_idx a) in
          if \<not> present pte then Inl Fault else Inr (fr pte))"

definition vload :: "u32 \<Rightarrow> memory \<Rightarrow> u32 kres" where
  "vload a m = bnd (translate a m) (\<lambda>f. Inr (pm m f (word_idx a)))"

definition vstore :: "u32 \<Rightarrow> u32 \<Rightarrow> memory \<Rightarrow> memory kres" where
  "vstore a v m = bnd (translate a m) (\<lambda>f. Inr (m\<lparr>pm := pupd (pm m) f (word_idx a) v\<rparr>))"

text \<open>\<open>memset(page, 0, PAGE_SIZE)\<close> and \<open>memcpy(dst, src, PAGE_SIZE)\<close> on whole pages.\<close>

definition vzero :: "u32 \<Rightarrow> memory \<Rightarrow> memory kres" where
  "vzero a m = bnd (translate a m) (\<lambda>f. Inr (m\<lparr>pm := (pm m)(f := (\<lambda>_. 0))\<rparr>))"

definition vcopy :: "u32 \<Rightarrow> u32 \<Rightarrow> memory \<Rightarrow> memory kres" where
  "vcopy dst src m = bnd (translate src m) (\<lambda>s. bnd (translate dst m) (\<lambda>f.
     Inr (m\<lparr>pm := (pm m)(f := pm m s)\<rparr>)))"

section \<open>Mapping pages and allocating frames\<close>

text \<open>
  \<open>map\<close> takes a frame for a missing page table, and \<open>frame_alloc\<close> maps the frame it takes at the
  reserved page to read the link to the next one. \<open>k\<close> is the depth of these calls: when it is used
  up the directory has no table for the reserved page and the calls never end. The test
  \<open>! dir[dir_idx] & P_PRESENT\<close> of the code negates first, so it only holds for an entry that is 0.
\<close>

fun map_k :: "nat \<Rightarrow> u32 \<Rightarrow> u32 \<Rightarrow> u16 \<Rightarrow> memory \<Rightarrow> memory kres"
  and frame_alloc_k :: "nat \<Rightarrow> memory \<Rightarrow> (u32 \<times> memory) kres" where
  "map_k 0 virtual_addr physical_addr flags m = Inl Fault"
| "map_k (Suc k) virtual_addr physical_addr flags m =
     (let d = of_nat (dir_idx virtual_addr); table = PTABLES_ADDR + d * PAGE_SIZE in
      bnd (vload (PDIR_ADDR + 4 * d) m) (\<lambda>e.
      bnd (if e = 0
           then bnd (frame_alloc_k k m) (\<lambda>(f, m).
                bnd (vstore (PDIR_ADDR + 4 * d) (f OR ucast flags) m) (vzero table))
           else Inr m) (\<lambda>m.
      vstore (table + 4 * of_nat (tbl_idx virtual_addr)) (physical_addr OR ucast flags) m)))"
| "frame_alloc_k 0 m = Inl Fault"
| "frame_alloc_k (Suc k) m =
     kassert (last_free_page m \<noteq> 0) ''last_free_page != 0''
     (let addr = last_free_page m in
      bnd (if pg_on m
           then bnd (map_k k RESV_PAGE addr (P_PRESENT OR P_READ_WRITE) m) (\<lambda>m.
                bnd (vload RESV_PAGE m) (\<lambda>n.
                bnd (vstore RESV_PAGE 0 (m\<lparr>last_free_page := n\<rparr>)) (map_k k RESV_PAGE 0 0)))
           else bnd (vload addr m) (\<lambda>n. vstore addr 0 (m\<lparr>last_free_page := n\<rparr>))) (\<lambda>m.
      Inr (addr, m\<lparr>num_pages := num_pages m - 1\<rparr>)))"

declare map_k.simps [simp del] frame_alloc_k.simps [simp del]

definition map_page :: "u32 \<Rightarrow> u32 \<Rightarrow> u16 \<Rightarrow> memory \<Rightarrow> memory kres" where
  "map_page = map_k 4"

definition frame_alloc :: "memory \<Rightarrow> (u32 \<times> memory) kres" where
  "frame_alloc = frame_alloc_k 3"

definition unmap :: "u32 \<Rightarrow> memory \<Rightarrow> memory kres" where
  "unmap virtual_addr = map_page virtual_addr 0 0"

definition temp_map :: "u32 \<Rightarrow> memory \<Rightarrow> memory kres" where
  "temp_map page = map_page RESV_PAGE page (P_PRESENT OR P_READ_WRITE)"

definition temp_unmap :: "memory \<Rightarrow> memory kres" where
  "temp_unmap = unmap RESV_PAGE"

definition frame_calloc :: "memory \<Rightarrow> (u32 \<times> memory) kres" where
  "frame_calloc m =
     bnd (frame_alloc m) (\<lambda>(addr, m).
     bnd (if pg_on m
          then bnd (map_page RESV_PAGE addr (P_PRESENT OR P_READ_WRITE) m) (\<lambda>m.
               bnd (vzero RESV_PAGE m) (unmap RESV_PAGE))
          else vzero addr m) (\<lambda>m.
     Inr (addr, m)))"

definition frame_free :: "u32 \<Rightarrow> memory \<Rightarrow> memory kres" where
  "frame_free addr m =
     kassert (addr AND 0xFFF = 0) ''!(addr & 0xFFF)''
     (bnd (if pg_on m
           then bnd (map_page RESV_PAGE addr (P_PRESENT OR P_READ_WRITE) m) (\<lambda>m.
                bnd (vstore RESV_PAGE (last_free_page m) m) (unmap RESV_PAGE))
           else vstore addr (last_free_page m) m) (\<lambda>m.
      Inr (m\<lparr>last_free_page := addr, num_pages := num_pages m + 1\<rparr>)))"

definition is_mapped :: "u32 \<Rightarrow> memory \<Rightarrow> bool kres" where
  "is_mapped addr m =
     (let d = of_nat (dir_idx addr) in
      bnd (vload (PDIR_ADDR + 4 * d) m) (\<lambda>e.
      if \<not> present e then Inr False
      else bnd (vload (PTABLES_ADDR + d * PAGE_SIZE + 4 * of_nat (tbl_idx addr)) m) (\<lambda>e. Inr (present e))))"

definition virt_to_phys :: "u32 \<Rightarrow> memory \<Rightarrow> u32 kres" where
  "virt_to_phys addr m =
     kassert (addr AND 0xFFF = 0) ''!(addr & 0xFFF)''
     (bnd (is_mapped addr m) (\<lambda>b.
      if \<not> b then Inl (Panic ''is not mapped'')
      else bnd (vload (PTABLES_ADDR + of_nat (dir_idx addr) * PAGE_SIZE + 4 * of_nat (tbl_idx addr)) m)
             (\<lambda>e. Inr (e AND 0xFFFFF000))))"

definition free_page :: "u32 \<Rightarrow> memory \<Rightarrow> (int \<times> memory) kres" where
  "free_page page m =
     bnd (virt_to_phys page m) (\<lambda>frame.
     if frame = 0 then Inr (- 1, m)
     else bnd (vzero page m) (\<lambda>m. bnd (unmap page m) (\<lambda>m. bnd (frame_free frame m) (\<lambda>m. Inr (0, m)))))"

section \<open>Copying and freeing address spaces\<close>

text \<open>\<open>for (i = 0; i < n; i++)\<close> over the entries of a table.\<close>

fun for_idx :: "(nat \<Rightarrow> 's \<Rightarrow> 's kres) \<Rightarrow> nat list \<Rightarrow> 's \<Rightarrow> 's kres" where
  "for_idx f [] m = Inr m"
| "for_idx f (i # is) m = bnd (f i m) (for_idx f is)"

definition recursively_map_page_directory :: "u32 \<Rightarrow> memory \<Rightarrow> memory kres" where
  "recursively_map_page_directory dir m =
     (if pg_on m
      then bnd (map_page RESV_PAGE dir (P_PRESENT OR P_READ_WRITE) m) (\<lambda>m.
           bnd (vstore (RESV_PAGE + 4 * 1023) (dir OR ucast (P_PRESENT OR P_READ_WRITE)) m) (unmap RESV_PAGE))
      else vstore (dir + 4 * 1023) (dir OR ucast (P_PRESENT OR P_READ_WRITE)) m)"

definition link_pde :: "u32 \<Rightarrow> u32 \<Rightarrow> nat \<Rightarrow> memory \<Rightarrow> memory kres" where
  "link_pde new_dir old_dir pd_idx m =
     bnd (temp_map new_dir m) (\<lambda>m.
     bnd (vload (old_dir + 4 * of_nat pd_idx) m) (\<lambda>e.
     bnd (vstore (RESV_PAGE + 4 * of_nat pd_idx) e m) temp_unmap))"

text \<open>One round of the loop of \<open>clone_pde\<close>; \<open>pde\<close> is the frame of the new table.\<close>

definition clone_pte :: "u32 \<Rightarrow> nat \<Rightarrow> nat \<Rightarrow> memory \<Rightarrow> memory kres" where
  "clone_pte pde pd_idx pt_idx m =
     bnd (vload (PTABLES_ADDR + of_nat pd_idx * PAGE_SIZE + 4 * of_nat pt_idx) m) (\<lambda>e.
     if present e
     then bnd (frame_calloc m) (\<lambda>(pte, m).
          bnd (temp_map pte m) (\<lambda>m.
          bnd (vcopy RESV_PAGE (of_nat pd_idx * 1024 * PAGE_SIZE + of_nat pt_idx * PAGE_SIZE) m) (\<lambda>m.
          bnd (temp_unmap m) (\<lambda>m.
          bnd (temp_map pde m) (\<lambda>m.
          bnd (vstore (RESV_PAGE + 4 * of_nat pt_idx) (pte OR (e AND 0xFFF)) m) temp_unmap)))))
     else Inr m)"

definition clone_pde :: "u32 \<Rightarrow> u32 \<Rightarrow> nat \<Rightarrow> memory \<Rightarrow> memory kres" where
  "clone_pde new_dir old_dir pd_idx m =
     bnd (vload (old_dir + 4 * of_nat pd_idx) m) (\<lambda>e.
     bnd (frame_calloc m) (\<lambda>(pde, m).
     bnd (temp_map new_dir m) (\<lambda>m.
     bnd (vstore (RESV_PAGE + 4 * of_nat pd_idx) (pde OR (e AND 0xFFF)) m) (\<lambda>m.
     bnd (temp_unmap m) (for_idx (clone_pte pde pd_idx) [0..<1024])))))"

definition free_pte :: "u32 \<Rightarrow> nat \<Rightarrow> memory \<Rightarrow> memory kres" where
  "free_pte pde pt_idx m =
     bnd (temp_map (pde AND 0xFFFFF000) m) (\<lambda>m.
     bnd (vload (RESV_PAGE + 4 * of_nat pt_idx) m) (\<lambda>pte.
     bnd (temp_unmap m) (\<lambda>m.
     if present pte then frame_free (pte AND 0xFFFFF000) m else Inr m)))"

definition free_pde :: "u32 \<Rightarrow> nat \<Rightarrow> memory \<Rightarrow> memory kres" where
  "free_pde dir pd_idx m =
     bnd (temp_map dir m) (\<lambda>m.
     bnd (vload (RESV_PAGE + 4 * of_nat pd_idx) m) (\<lambda>pde.
     bnd (temp_unmap m) (\<lambda>m.
     if present pde
     then bnd (for_idx (free_pte pde) [0..<1024] m) (frame_free (pde AND 0xFFFFF000))
     else Inr m)))"

text \<open>The entries of the directory that every address space shares: the kernel and its heap.\<close>

definition shared_idx :: "nat \<Rightarrow> bool" where
  "shared_idx pd_idx \<longleftrightarrow> pd_idx < unat USER_STACK_LOW div 1024 div 4096 \<or>
     unat HEAP_START div 1024 div 4096 \<le> pd_idx \<and> pd_idx < unat HEAP_END div 1024 div 4096"

definition clone_dir_entry :: "u32 \<Rightarrow> nat \<Rightarrow> memory \<Rightarrow> memory kres" where
  "clone_dir_entry new_dir pd_idx m =
     bnd (vload (PDIR_ADDR + 4 * of_nat pd_idx) m) (\<lambda>e.
     if present e
     then if shared_idx pd_idx then link_pde new_dir PDIR_ADDR pd_idx m
          else clone_pde new_dir PDIR_ADDR pd_idx m
     else Inr m)"

definition clone_directory :: "memory \<Rightarrow> (u32 \<times> memory) kres" where
  "clone_directory m =
     bnd (frame_calloc m) (\<lambda>(new_dir, m).
     bnd (for_idx (clone_dir_entry new_dir) [0..<1023] m) (\<lambda>m.
     bnd (recursively_map_page_directory new_dir m) (\<lambda>m. Inr (new_dir, m))))"

definition free_directory :: "u32 \<Rightarrow> memory \<Rightarrow> memory kres" where
  "free_directory dir m =
     bnd (virt_to_phys PDIR_ADDR m) (\<lambda>cur.
     kassert (cur \<noteq> dir) ''virt_to_phys(PDIR_ADDR) != dir''
     (bnd (for_idx (\<lambda>pd_idx m. if shared_idx pd_idx then Inr m else free_pde dir pd_idx m) [0..<1023] m)
        (frame_free dir)))"

section \<open>The break of a heap\<close>

record heap =
  start_addr :: u32
  end_addr :: u32
  max_addr :: u32
  supervisor :: bool
  readonly :: bool

definition heap_init :: heap where
  "heap_init = \<lparr>start_addr = HEAP_START, end_addr = HEAP_START, max_addr = HEAP_END, supervisor = True, readonly = False\<rparr>"

text \<open>The two loops of \<open>_sbrk\<close>; \<open>False\<close> is the early exit with the value -1.\<close>

fun sbrk_grow :: "nat \<Rightarrow> heap \<times> memory \<Rightarrow> (bool \<times> heap \<times> memory) kres" where
  "sbrk_grow 0 (h, m) = Inr (True, h, m)"
| "sbrk_grow (Suc n) (h, m) =
     bnd (frame_alloc m) (\<lambda>(frame, m).
     if frame = 0 then Inr (False, h, m)
     else
       bnd (map_page (end_addr h) frame (P_PRESENT OR P_READ_WRITE OR (if supervisor h then 0 else P_USER)) m) (\<lambda>m.
       let h = h\<lparr>end_addr := end_addr h + PAGE_SIZE\<rparr> in
       if max_addr h \<le> end_addr h then Inr (False, h, m) else sbrk_grow n (h, m)))"

fun sbrk_shrink :: "nat \<Rightarrow> heap \<times> memory \<Rightarrow> (bool \<times> heap \<times> memory) kres" where
  "sbrk_shrink 0 (h, m) = Inr (True, h, m)"
| "sbrk_shrink (Suc n) (h, m) =
     (let h = h\<lparr>end_addr := end_addr h - PAGE_SIZE\<rparr> in
      if end_addr h < start_addr h then Inr (False, h, m)
      else
        bnd (virt_to_phys (end_addr h) m) (\<lambda>f.
        bnd (frame_free f m) (\<lambda>m.
        bnd (unmap (end_addr h) m) (\<lambda>m.
        sbrk_shrink n (h, m)))))"

definition sbrk :: "int \<Rightarrow> heap \<times> memory \<Rightarrow> (u32 \<times> heap \<times> memory) kres" where
  "sbrk increment hm =
     (let ret = end_addr (fst hm); n = nat (\<bar>increment\<bar> div 4096 + (if \<bar>increment\<bar> mod 4096 \<noteq> 0 then 1 else 0)) in
      if increment = 0 then Inr (ret, hm)
      else bnd (if increment > 0 then sbrk_grow n hm else sbrk_shrink n hm) (\<lambda>(ok, hm).
           Inr (if ok then ret else - 1, hm)))"

section \<open>Arithmetic of addresses\<close>

lemma unat_of_nat_u32: "n < 4294967296 \<Longrightarrow> unat (of_nat n :: u32) = n"
  by (simp add: unsigned_of_nat take_bit_nat_eq_self)

lemma page_split: "x < 4096 \<Longrightarrow> (x + p * 4096) div 4096 = p" "x < 4096 \<Longrightarrow> (x + p * 4096) mod 4096 = x" for x p :: nat
  by (simp_all add: div_mult_self1 mod_mult_self1)

lemma table_addr:
  assumes "d < 1024" and "t < 1024"
  shows "dir_idx (PTABLES_ADDR + of_nat d * PAGE_SIZE + 4 * of_nat t) = 1023"
    and "tbl_idx (PTABLES_ADDR + of_nat d * PAGE_SIZE + 4 * of_nat t) = d"
    and "word_idx (PTABLES_ADDR + of_nat d * PAGE_SIZE + 4 * of_nat t) = t"
proof -
  have "PTABLES_ADDR + of_nat d * PAGE_SIZE + 4 * of_nat t = (of_nat (4290772992 + d * 4096 + 4 * t) :: u32)"
    by (simp add: PTABLES_ADDR_def PAGE_SIZE_def)
  then have u: "unat (PTABLES_ADDR + of_nat d * PAGE_SIZE + 4 * of_nat t) = 4290772992 + d * 4096 + 4 * t"
    using assms by (simp only: unat_of_nat_u32)
  have x: "4 * t < 4096" using assms by simp
  have s: "4290772992 + d * 4096 + 4 * t = 4 * t + (1047552 + d) * 4096" by simp
  have q: "unat (PTABLES_ADDR + of_nat d * PAGE_SIZE + 4 * of_nat t) div 4096 = 1047552 + d"
    and r: "unat (PTABLES_ADDR + of_nat d * PAGE_SIZE + 4 * of_nat t) mod 4096 = 4 * t"
    unfolding u s using page_split [OF x] by metis+
  have "1047552 + d = d + 1023 * 1024" by simp
  then have "(1047552 + d) div 1024 = 1023" "(1047552 + d) mod 1024 = d"
    using assms by (auto, metis mod_mult_self1 mod_less)
  then show "dir_idx (PTABLES_ADDR + of_nat d * PAGE_SIZE + 4 * of_nat t) = 1023"
    and "tbl_idx (PTABLES_ADDR + of_nat d * PAGE_SIZE + 4 * of_nat t) = d"
    and "word_idx (PTABLES_ADDR + of_nat d * PAGE_SIZE + 4 * of_nat t) = t"
    by (simp_all add: dir_idx_def tbl_idx_def word_idx_def q r)
qed

lemma dir_addr: "PDIR_ADDR + 4 * of_nat d = PTABLES_ADDR + of_nat 1023 * PAGE_SIZE + 4 * of_nat d"
  by (simp add: PTABLES_ADDR_def PAGE_SIZE_def PDIR_ADDR_def)

lemma resv_addr:
  assumes "t < 1024"
  shows "dir_idx (RESV_PAGE + 4 * of_nat t) = 1022" and "tbl_idx (RESV_PAGE + 4 * of_nat t) = 1022"
    and "word_idx (RESV_PAGE + 4 * of_nat t) = t"
proof -
  have "RESV_PAGE + 4 * of_nat t = (of_nat (4290764800 + 4 * t) :: u32)" by (simp add: RESV_PAGE_def)
  then have u: "unat (RESV_PAGE + 4 * of_nat t) = 4290764800 + 4 * t"
    using assms by (simp only: unat_of_nat_u32)
  have x: "4 * t < 4096" using assms by simp
  have s: "4290764800 + 4 * t = 4 * t + 1047550 * 4096" by simp
  have q: "unat (RESV_PAGE + 4 * of_nat t) div 4096 = 1047550" and r: "unat (RESV_PAGE + 4 * of_nat t) mod 4096 = 4 * t"
    unfolding u s using page_split [OF x] by metis+
  show "dir_idx (RESV_PAGE + 4 * of_nat t) = 1022" and "tbl_idx (RESV_PAGE + 4 * of_nat t) = 1022"
    and "word_idx (RESV_PAGE + 4 * of_nat t) = t"
    by (simp_all add: dir_idx_def tbl_idx_def word_idx_def q r)
qed

lemmas resv_addr0 = resv_addr [of 0, simplified]

lemma idx_less [simp]: "dir_idx a < 1024" "tbl_idx a < 1024" "word_idx a < 1024" "fr a < 1048576"
proof -
  have "unat a < 4294967296" using unsigned_less [of a, where ?'a = nat] by simp
  then show "dir_idx a < 1024" "fr a < 1048576" by (auto simp: dir_idx_def fr_def)
qed (auto simp: tbl_idx_def word_idx_def)

lemma present_odd: "present e \<longleftrightarrow> bit e 0"
  by (simp add: present_def P_PRESENT_def and_one_eq bit_0 odd_iff_mod_2_eq_one)

lemma present_0 [simp]: "\<not> present 0"
  by (simp add: present_def)

lemma present_or [simp]: "present (a OR b) \<longleftrightarrow> present a \<or> present b"
  by (simp add: present_odd bit_or_iff)

lemma fr_drop: "fr a = unat (drop_bit 12 a)"
  by (simp add: fr_def drop_bit_eq_div unat_div)

lemma fr_or: "unat b < 4096 \<Longrightarrow> fr (a OR b) = fr a"
proof -
  assume "unat b < 4096"
  then have "drop_bit 12 b = 0"
    by (intro word_unat_eq_iff [THEN iffD2]) (simp add: drop_bit_eq_div unat_div)
  then show ?thesis by (simp add: fr_drop)
qed

lemma fr_or_flags: "unat fl < 4096 \<Longrightarrow> fr (a OR ucast fl) = fr a" for fl :: u16
  by (rule fr_or) (simp add: unsigned_ucast_eq take_bit_nat_eq_self)

lemma frame_addr: "unat (e AND 0xFFFFF000) = 4096 * fr e" for e :: u32
proof -
  have "e AND 0xFFFFF000 = e AND mask (20 + 12) AND NOT (mask 12)" by (simp add: mask_eq_exp_minus_1)
  also have "\<dots> = push_bit 12 (take_bit 20 (drop_bit 12 e))" by (rule slice_eq_mask [symmetric])
  also have "\<dots> = 4096 * drop_bit 12 e"
    by (simp add: push_bit_eq_mult take_bit_drop_bit take_bit_word_eq_self ac_simps)
  also have "unat \<dots> = 4096 * unat (drop_bit 12 e)"
    using idx_less(4) [of e] unfolding fr_drop by (simp add: unat_word_ariths)
  finally show ?thesis by (simp add: fr_drop)
qed

section \<open>The page tables of the current directory\<close>

definition pde :: "memory \<Rightarrow> nat \<Rightarrow> u32" where "pde m d = pm m (fr (cr3 m)) d"

definition ptab :: "memory \<Rightarrow> nat \<Rightarrow> nat" where "ptab m d = fr (pde m d)"

definition tables :: "memory \<Rightarrow> nat set" where "tables m = ptab m ` {d. d < 1024 \<and> pde m d \<noteq> 0}"

text \<open>
  Paging is on, the directory maps itself at entry 1023, there is a table for the reserved page and
  the page is free, an entry of the directory is empty or present, and no two entries share a
  table.
\<close>

definition paging :: "memory \<Rightarrow> bool" where
  "paging m \<longleftrightarrow> pg_on m \<and> (\<forall>d<1024. pde m d = 0 \<or> present (pde m d)) \<and> pde m 1023 \<noteq> 0 \<and> ptab m 1023 = fr (cr3 m) \<and>
     pde m 1022 \<noteq> 0 \<and> inj_on (ptab m) {d. d < 1024 \<and> pde m d \<noteq> 0} \<and> pm m (ptab m 1022) 1022 = 0"

lemma pde_simps [simp]:
  "pde (m\<lparr>num_pages := x\<rparr>) = pde m" "pde (m\<lparr>last_free_page := y\<rparr>) = pde m"
  by (simp_all add: fun_eq_iff pde_def)

lemma ptab_simps [simp]:
  "ptab (m\<lparr>num_pages := x\<rparr>) = ptab m" "ptab (m\<lparr>last_free_page := y\<rparr>) = ptab m"
  by (simp_all add: fun_eq_iff ptab_def)

lemma paging_simps [simp]:
  "tables (m\<lparr>num_pages := x\<rparr>) = tables m" "tables (m\<lparr>last_free_page := y\<rparr>) = tables m"
  "paging (m\<lparr>num_pages := x\<rparr>) = paging m" "paging (m\<lparr>last_free_page := y\<rparr>) = paging m"
  by (simp_all add: tables_def paging_def)

lemma pupd_same [simp]: "pupd p f i v f i = v"
  by (simp add: pupd_def)

lemma pupd_other [simp]: "f' \<noteq> f \<Longrightarrow> pupd p f i v f' = p f'" "i' \<noteq> i \<Longrightarrow> pupd p f i v f i' = p f i'"
  by (simp_all add: pupd_def)

lemma pupd_pupd [simp]: "pupd (pupd p f i v) f i w = pupd p f i w"
  by (simp add: pupd_def)

lemma pupd_idle: "p f i = v \<Longrightarrow> pupd p f i v = p"
  by (auto simp: pupd_def)

lemma pupd_swap: "f \<noteq> g \<Longrightarrow> pupd (pupd p f i v) g j w = pupd (pupd p g j w) f i v"
  by (auto simp: pupd_def fun_upd_twist)

lemma dir_in_tables: "paging m \<Longrightarrow> fr (cr3 m) \<in> tables m"
  by (auto simp: paging_def tables_def intro!: image_eqI [of _ _ 1023])

lemma resv_in_tables: "paging m \<Longrightarrow> ptab m 1022 \<in> tables m"
  by (auto simp: paging_def tables_def)

lemma resv_table_not_dir: "paging m \<Longrightarrow> ptab m 1022 \<noteq> fr (cr3 m)"
  unfolding paging_def by (auto dest!: inj_onD [where x = 1022 and y = 1023])

text \<open>Changes outside the tables keep them.\<close>

lemma paging_frame:
  assumes "paging m" and "\<And>f. f \<in> tables m \<Longrightarrow> p f = pm m f"
  shows "pde (m\<lparr>pm := p\<rparr>) = pde m" and "ptab (m\<lparr>pm := p\<rparr>) = ptab m" and "tables (m\<lparr>pm := p\<rparr>) = tables m"
    and "paging (m\<lparr>pm := p\<rparr>)"
proof -
  show pde: "pde (m\<lparr>pm := p\<rparr>) = pde m" using assms(2) [OF dir_in_tables [OF assms(1)]] by (simp add: fun_eq_iff pde_def)
  then show pt: "ptab (m\<lparr>pm := p\<rparr>) = ptab m" by (simp add: fun_eq_iff ptab_def)
  show "tables (m\<lparr>pm := p\<rparr>) = tables m" by (simp add: tables_def pde pt)
  show "paging (m\<lparr>pm := p\<rparr>)"
    using assms(1) assms(2) [OF resv_in_tables [OF assms(1)]] by (simp add: paging_def pde pt)
qed

text \<open>What the accesses through the recursive entry reach.\<close>

definition recursive :: "memory \<Rightarrow> bool" where
  "recursive m \<longleftrightarrow> pg_on m \<and> present (pde m 1023) \<and> ptab m 1023 = fr (cr3 m)"

lemma paging_present: "paging m \<Longrightarrow> d < 1024 \<Longrightarrow> present (pde m d) \<longleftrightarrow> pde m d \<noteq> 0"
  by (auto simp: paging_def)

lemma paging_recursive: "paging m \<Longrightarrow> recursive m"
  using paging_present [of m 1023] by (simp add: paging_def recursive_def)

lemma table_access:
  assumes "recursive m" and "d < 1024" and "t < 1024" and "present (pde m d)"
  shows "vload (PTABLES_ADDR + of_nat d * PAGE_SIZE + 4 * of_nat t) m = Inr (pm m (ptab m d) t)"
    and "vstore (PTABLES_ADDR + of_nat d * PAGE_SIZE + 4 * of_nat t) v m = Inr (m\<lparr>pm := pupd (pm m) (ptab m d) t v\<rparr>)"
    and "translate (PTABLES_ADDR + of_nat d * PAGE_SIZE + 4 * of_nat t) m = Inr (ptab m d)"
proof -
  have e: "pm m (fr (cr3 m)) 1023 = pde m 1023" "fr (pde m 1023) = fr (cr3 m)" "pm m (fr (cr3 m)) d = pde m d"
    using assms(1) by (auto simp: recursive_def ptab_def pde_def)
  show tr: "translate (PTABLES_ADDR + of_nat d * PAGE_SIZE + 4 * of_nat t) m = Inr (ptab m d)"
    using assms(1,4) by (simp add: translate_def table_addr [OF assms(2,3)] Let_def e recursive_def ptab_def)
  show "vload (PTABLES_ADDR + of_nat d * PAGE_SIZE + 4 * of_nat t) m = Inr (pm m (ptab m d) t)"
    and "vstore (PTABLES_ADDR + of_nat d * PAGE_SIZE + 4 * of_nat t) v m = Inr (m\<lparr>pm := pupd (pm m) (ptab m d) t v\<rparr>)"
    by (simp_all add: vload_def vstore_def tr table_addr [OF assms(2,3)])
qed

lemma dir_access:
  assumes "recursive m" and "d < 1024"
  shows "vload (PDIR_ADDR + 4 * of_nat d) m = Inr (pde m d)"
    and "vstore (PDIR_ADDR + 4 * of_nat d) v m = Inr (m\<lparr>pm := pupd (pm m) (fr (cr3 m)) d v\<rparr>)"
  using table_access [OF assms(1) _ assms(2), of 1023] assms(1)
  by (simp_all only: dir_addr) (simp_all add: recursive_def pde_def)

section \<open>The reserved page as a window on a frame\<close>

definition RW :: u32 where "RW = ucast (P_PRESENT OR P_READ_WRITE)"

definition win :: "u32 \<Rightarrow> memory \<Rightarrow> memory" where
  "win a m = m\<lparr>pm := pupd (pm m) (ptab m 1022) 1022 (a OR RW)\<rparr>"

lemma RW_simps [simp]: "present RW" "unat RW < 4096" "fr (a OR RW) = fr a"
  by (auto simp: RW_def P_PRESENT_def P_READ_WRITE_def present_def intro!: fr_or)

lemma win_simps [simp]:
  "win a (m\<lparr>num_pages := x\<rparr>) = (win a m)\<lparr>num_pages := x\<rparr>"
  "win a (m\<lparr>last_free_page := y\<rparr>) = (win a m)\<lparr>last_free_page := y\<rparr>"
  "pg_on (win a m) = pg_on m" "cr3 (win a m) = cr3 m" "last_free_page (win a m) = last_free_page m"
  "num_pages (win a m) = num_pages m"
  by (simp_all add: win_def)

lemma win_tables:
  assumes "paging m"
  shows "pde (win a m) = pde m" and "ptab (win a m) = ptab m" and "recursive (win a m)"
    and "pm (win a m) f i = (if f = ptab m 1022 \<and> i = 1022 then a OR RW else pm m f i)"
proof -
  show pde: "pde (win a m) = pde m"
    using resv_table_not_dir [OF assms] by (simp add: fun_eq_iff pde_def win_def)
  then show pt: "ptab (win a m) = ptab m" by (simp add: fun_eq_iff ptab_def)
  show "recursive (win a m)" using paging_recursive [OF assms] by (simp add: recursive_def pde pt)
  show "pm (win a m) f i = (if f = ptab m 1022 \<and> i = 1022 then a OR RW else pm m f i)"
    by (simp add: win_def pupd_def)
qed

lemma paging_1022: "paging m \<Longrightarrow> pde m 1022 \<noteq> 0 \<and> present (pde m 1022)"
  using paging_present [of m 1022] by (simp add: paging_def)

lemma map_table:
  assumes "recursive m" and "pde m (dir_idx va) \<noteq> 0" and "present (pde m (dir_idx va))"
  shows "map_k (Suc k) va pa fl m = Inr (m\<lparr>pm := pupd (pm m) (ptab m (dir_idx va)) (tbl_idx va) (pa OR ucast fl)\<rparr>)"
  using assms by (simp add: map_k.simps dir_access table_access Let_def)

lemma win_open:
  assumes "paging m"
  shows "map_k (Suc k) RESV_PAGE a (P_PRESENT OR P_READ_WRITE) m = Inr (win a m)"
  using map_table [OF paging_recursive [OF assms], where va = RESV_PAGE] paging_1022 [OF assms]
  by (simp add: resv_addr0 win_def RW_def)

lemma win_close:
  assumes "paging m"
  shows "map_k (Suc k) RESV_PAGE 0 0 (win a m) = Inr m"
proof -
  have "map_k (Suc k) RESV_PAGE 0 0 (win a m) = Inr ((win a m)\<lparr>pm := pupd (pm (win a m)) (ptab m 1022) 1022 0\<rparr>)"
    using map_table [OF win_tables(3) [OF assms], where va = RESV_PAGE] paging_1022 [OF assms]
    by (simp add: resv_addr0 win_tables [OF assms])
  also have "(win a m)\<lparr>pm := pupd (pm (win a m)) (ptab m 1022) 1022 0\<rparr> = m"
    using assms by (simp add: win_def pupd_idle paging_def)
  finally show ?thesis .
qed

lemma temp_map_win: "paging m \<Longrightarrow> temp_map a m = Inr (win a m)"
  by (simp only: temp_map_def map_page_def numeral_eq_Suc pred_numeral_simps win_open)

lemma temp_unmap_win: "paging m \<Longrightarrow> temp_unmap (win a m) = Inr m"
  by (simp only: temp_unmap_def unmap_def map_page_def numeral_eq_Suc pred_numeral_simps win_close)

lemma win_translate:
  assumes "paging m" and "i < 1024"
  shows "translate (RESV_PAGE + 4 * of_nat i) (win a m) = Inr (fr a)"
proof -
  have "pm (win a m) (fr (cr3 m)) 1022 = pde m 1022" and "fr (pde m 1022) = ptab m 1022"
    using resv_table_not_dir [OF assms(1)] by (auto simp: win_tables [OF assms(1)] pde_def ptab_def)
  then show ?thesis
    using assms(1) paging_1022 [OF assms(1)] win_tables(4) [OF assms(1)]
    by (simp add: translate_def resv_addr [OF assms(2)] paging_def)
qed

lemma win_load:
  assumes "paging m" and "i < 1024" and "fr a \<notin> tables m"
  shows "vload (RESV_PAGE + 4 * of_nat i) (win a m) = Inr (pm m (fr a) i)"
  using resv_in_tables [OF assms(1)] assms(3)
  by (auto simp: vload_def win_translate [OF assms(1,2)] resv_addr [OF assms(2)] win_tables [OF assms(1)])

lemma win_change:
  assumes "paging m" and "fr a \<notin> tables m"
  shows "(win a m)\<lparr>pm := (pm (win a m))(fr a := w)\<rparr> = win a (m\<lparr>pm := (pm m)(fr a := w)\<rparr>)"
proof -
  have "ptab (m\<lparr>pm := (pm m)(fr a := w)\<rparr>) = ptab m" using assms by (intro paging_frame) auto
  moreover have "fr a \<noteq> ptab m 1022" using assms resv_in_tables by auto
  ultimately show ?thesis by (auto simp: win_def pupd_def fun_upd_twist)
qed

lemma win_store:
  assumes "paging m" and "i < 1024" and "fr a \<notin> tables m"
  shows "vstore (RESV_PAGE + 4 * of_nat i) v (win a m) = Inr (win a (m\<lparr>pm := pupd (pm m) (fr a) i v\<rparr>))"
proof -
  have "pm (win a m) (fr a) = pm m (fr a)" using assms resv_in_tables [OF assms(1)] by (auto simp: fun_eq_iff win_tables)
  then show ?thesis
    by (simp add: vstore_def win_translate [OF assms(1,2)] resv_addr [OF assms(2)] pupd_def win_change [OF assms(1,3)])
qed

lemma win_zero:
  assumes "paging m" and "fr a \<notin> tables m"
  shows "vzero RESV_PAGE (win a m) = Inr (win a (m\<lparr>pm := (pm m)(fr a := (\<lambda>_. 0))\<rparr>))"
  using win_translate [OF assms(1), of 0 a] by (simp add: vzero_def win_change [OF assms])

lemmas win_load0 = win_load [where i = 0, simplified]
lemmas win_store0 = win_store [where i = 0, simplified]

lemma paging_change:
  assumes "paging m" and "f \<notin> tables m"
  shows "pde (m\<lparr>pm := (pm m)(f := w)\<rparr>) = pde m" "ptab (m\<lparr>pm := (pm m)(f := w)\<rparr>) = ptab m"
    "tables (m\<lparr>pm := (pm m)(f := w)\<rparr>) = tables m" "paging (m\<lparr>pm := (pm m)(f := w)\<rparr>)"
proof -
  have "g \<in> tables m \<Longrightarrow> ((pm m)(f := w)) g = pm m g" for g using assms(2) by auto
  from paging_frame [OF assms(1) this]
  show "pde (m\<lparr>pm := (pm m)(f := w)\<rparr>) = pde m" "ptab (m\<lparr>pm := (pm m)(f := w)\<rparr>) = ptab m"
    "tables (m\<lparr>pm := (pm m)(f := w)\<rparr>) = tables m" "paging (m\<lparr>pm := (pm m)(f := w)\<rparr>)" by blast+
qed

lemma paging_pupd:
  assumes "paging m" and "f \<notin> tables m"
  shows "pde (m\<lparr>pm := pupd (pm m) f i v\<rparr>) = pde m" "ptab (m\<lparr>pm := pupd (pm m) f i v\<rparr>) = ptab m"
    "tables (m\<lparr>pm := pupd (pm m) f i v\<rparr>) = tables m" "paging (m\<lparr>pm := pupd (pm m) f i v\<rparr>)"
  unfolding pupd_def using paging_change [OF assms] by auto

section \<open>The frames\<close>

text \<open>What \<open>frame_alloc\<close> leaves when it takes the frame at the head of the free list.\<close>

definition took :: "memory \<Rightarrow> memory" where
  "took m = m\<lparr>pm := pupd (pm m) (fr (last_free_page m)) 0 0, last_free_page := pm m (fr (last_free_page m)) 0,
     num_pages := num_pages m - 1\<rparr>"

lemma frame_alloc_k_takes:
  assumes "paging m" and "last_free_page m \<noteq> 0" and "fr (last_free_page m) \<notin> tables m"
  shows "frame_alloc_k (Suc (Suc k)) m = Inr (last_free_page m, took m)"
proof -
  let ?a = "last_free_page m"
  let ?n = "m\<lparr>last_free_page := pm m (fr ?a) 0\<rparr>"
  have p: "paging (?n\<lparr>pm := pupd (pm m) (fr ?a) 0 0\<rparr>)" using paging_pupd(4) [of ?n] assms by simp
  have s: "vstore RESV_PAGE 0 ((win ?a m)\<lparr>last_free_page := pm m (fr ?a) 0\<rparr>) =
      Inr (win ?a (?n\<lparr>pm := pupd (pm m) (fr ?a) 0 0\<rparr>))"
    using win_store0 [of ?n ?a 0] assms by simp
  have on: "pg_on m" using assms(1) by (simp add: paging_def)
  show ?thesis
    unfolding frame_alloc_k.simps Let_def win_open [OF assms(1)] bnd_Inr win_load0 [OF assms(1,3)] s win_close [OF p]
    using assms(2) on by (simp add: took_def)
qed

lemma frame_alloc_takes:
  assumes "paging m" and "last_free_page m \<noteq> 0" and "fr (last_free_page m) \<notin> tables m"
  shows "frame_alloc m = Inr (last_free_page m, took m)"
  using frame_alloc_k_takes [OF assms, of 1] by (simp only: frame_alloc_def numeral_eq_Suc pred_numeral_simps One_nat_def BitM.simps)

lemma took_simps [simp]:
  "pg_on (took m) = pg_on m" "cr3 (took m) = cr3 m" "num_pages (took m) = num_pages m - 1"
  "last_free_page (took m) = pm m (fr (last_free_page m)) 0"
  "pm (took m) = pupd (pm m) (fr (last_free_page m)) 0 0"
  by (simp_all add: took_def)

lemma took_tables:
  assumes "paging m" and "fr (last_free_page m) \<notin> tables m"
  shows "paging (took m)" and "pde (took m) = pde m" and "ptab (took m) = ptab m" and "tables (took m) = tables m"
  using paging_pupd [OF assms, of 0 0] by (simp_all add: took_def)

definition ctook :: "memory \<Rightarrow> memory" where
  "ctook m = m\<lparr>pm := (pm m)(fr (last_free_page m) := (\<lambda>_. 0)), last_free_page := pm m (fr (last_free_page m)) 0,
     num_pages := num_pages m - 1\<rparr>"

lemma ctook_simps [simp]:
  "pg_on (ctook m) = pg_on m" "cr3 (ctook m) = cr3 m" "num_pages (ctook m) = num_pages m - 1"
  "last_free_page (ctook m) = pm m (fr (last_free_page m)) 0"
  "pm (ctook m) = (pm m)(fr (last_free_page m) := (\<lambda>_. 0))"
  by (simp_all add: ctook_def)

lemma ctook_tables:
  assumes "paging m" and "fr (last_free_page m) \<notin> tables m"
  shows "paging (ctook m)" and "pde (ctook m) = pde m" and "ptab (ctook m) = ptab m" and "tables (ctook m) = tables m"
  using paging_change [OF assms, of "\<lambda>_. 0"] by (simp_all add: ctook_def)

lemma frame_calloc_takes:
  assumes "paging m" and "last_free_page m \<noteq> 0" and "fr (last_free_page m) \<notin> tables m"
  shows "frame_calloc m = Inr (last_free_page m, ctook m)"
proof -
  let ?a = "last_free_page m" and ?t = "took m"
  have t: "paging ?t" "fr ?a \<notin> tables ?t" using took_tables [OF assms(1,3)] assms by auto
  have e: "?t\<lparr>pm := (pm ?t)(fr ?a := (\<lambda>_. 0))\<rparr> = ctook m" by (simp add: ctook_def took_def pupd_def)
  have c: "paging (ctook m)" by (rule ctook_tables(1) [OF assms(1,3)])
  have "pg_on m" using assms(1) by (simp add: paging_def)
  then show ?thesis
    using win_zero [OF t, unfolded e] temp_map_win [OF t(1)] temp_unmap_win [OF c] frame_alloc_takes [OF assms]
    by (simp add: frame_calloc_def temp_map_def temp_unmap_def)
qed

definition gave :: "u32 \<Rightarrow> memory \<Rightarrow> memory" where
  "gave a m = m\<lparr>pm := pupd (pm m) (fr a) 0 (last_free_page m), last_free_page := a, num_pages := num_pages m + 1\<rparr>"

lemma frame_free_gives:
  assumes "paging m" and "a AND 0xFFF = 0" and "fr a \<notin> tables m"
  shows "frame_free a m = Inr (gave a m)"
proof -
  have "paging (m\<lparr>pm := pupd (pm m) (fr a) 0 (last_free_page m)\<rparr>)" by (rule paging_pupd(4) [OF assms(1,3)])
  from temp_unmap_win [OF this] show ?thesis
    using temp_map_win [OF assms(1)] win_store0 [OF assms(1,3)] assms(1,2)
    by (simp add: frame_free_def temp_map_def temp_unmap_def gave_def paging_def)
qed

text \<open>Mapping a page whose table is missing takes a frame for the table.\<close>

definition new_table :: "u32 \<Rightarrow> u32 \<Rightarrow> u16 \<Rightarrow> memory \<Rightarrow> memory" where
  "new_table va pa fl m = (took m)\<lparr>pm := (pupd (pm m) (fr (cr3 m)) (dir_idx va) (last_free_page m OR ucast fl))
     (fr (last_free_page m) := (\<lambda>_. 0)(tbl_idx va := pa OR ucast fl))\<rparr>"

lemma map_new_table:
  assumes "paging m" and "last_free_page m \<noteq> 0" and "fr (last_free_page m) \<notin> tables m"
    and "pde m (dir_idx va) = 0" and "present (ucast fl)" and "unat fl < 4096"
  shows "map_k (Suc (Suc (Suc k))) va pa fl m = Inr (new_table va pa fl m)"
proof -
  let ?a = "last_free_page m" and ?c = "fr (cr3 m)" and ?d = "dir_idx va"
  define t where "t = took m"
  define u where "u = t\<lparr>pm := pupd (pm t) ?c ?d (?a OR ucast fl)\<rparr>"
  define w where "w = u\<lparr>pm := (pm u)(fr ?a := (\<lambda>_. 0))\<rparr>"
  have ne: "?d \<noteq> 1023" "?c \<noteq> fr ?a" using assms(1,3,4) dir_in_tables [OF assms(1)] by (auto simp: paging_def)
  have t: "recursive t" using took_tables(1) [OF assms(1,3)] by (simp add: t_def paging_recursive)
  have pu: "pde u d = (if d = ?d then ?a OR ucast fl else pde t d)" for d by (simp add: u_def pde_def t_def)
  have ru: "recursive u" using t ne(1) by (simp add: recursive_def pu ptab_def) (simp add: u_def)
  have pw: "pde w = pde u" using ne(2) by (simp add: w_def pde_def fun_eq_iff u_def t_def)
  have rw: "recursive w" using ru by (simp add: recursive_def pw ptab_def) (simp add: w_def)
  have fa: "ptab u ?d = fr ?a" "ptab w ?d = fr ?a" using assms(6) by (simp_all add: ptab_def pw pu fr_or_flags)
  have pr: "present (pde u ?d)" "present (pde w ?d)" using assms(5) by (simp_all add: pw pu)
  have z: "vzero (PTABLES_ADDR + of_nat ?d * PAGE_SIZE) u = Inr w"
    using table_access(3) [OF ru _ _ pr(1), of 0] by (simp add: vzero_def fa w_def)
  have s: "vstore (PTABLES_ADDR + of_nat ?d * PAGE_SIZE + 4 * of_nat (tbl_idx va)) (pa OR ucast fl) w =
      Inr (w\<lparr>pm := pupd (pm w) (fr ?a) (tbl_idx va) (pa OR ucast fl)\<rparr>)"
    using table_access(2) [OF rw _ _ pr(2)] by (simp add: fa)
  have f: "w\<lparr>pm := pupd (pm w) (fr ?a) (tbl_idx va) (pa OR ucast fl)\<rparr> = new_table va pa fl m"
    using ne(2) by (auto simp: w_def u_def t_def new_table_def pupd_def fun_eq_iff)
  have "vload (PDIR_ADDR + 4 * of_nat ?d) m = Inr 0" using dir_access(1) [OF paging_recursive [OF assms(1)]] assms(4) by simp
  moreover have "vstore (PDIR_ADDR + 4 * of_nat ?d) (?a OR ucast fl) t = Inr u"
    using dir_access(2) [OF t] by (simp add: u_def t_def)
  ultimately show ?thesis
    using z s f frame_alloc_k_takes [OF assms(1-3), of k] by (simp add: map_k.simps(2) Let_def t_def)
qed

section \<open>The free frames are a stack\<close>

fun flist :: "(nat \<Rightarrow> nat \<Rightarrow> u32) \<Rightarrow> u32 \<Rightarrow> nat list \<Rightarrow> bool" where
  "flist p a [] \<longleftrightarrow> a = 0"
| "flist p a (f # fs) \<longleftrightarrow> a \<noteq> 0 \<and> unat a = 4096 * f \<and> flist p (p f 0) fs"

definition mem_ok :: "memory \<Rightarrow> nat list \<Rightarrow> bool" where
  "mem_ok m fs \<longleftrightarrow> paging m \<and> flist (pm m) (last_free_page m) fs \<and> distinct fs \<and> set fs \<inter> tables m = {} \<and>
     num_pages m = of_nat (length fs)"

lemma flist_cong: "flist p a fs \<Longrightarrow> (\<And>f. f \<in> set fs \<Longrightarrow> p' f 0 = p f 0) \<Longrightarrow> flist p' a fs"
  by (induction fs arbitrary: a) auto

lemma flist_nonzero: "flist p a fs \<Longrightarrow> f \<in> set fs \<Longrightarrow> f \<noteq> 0 \<and> f < 1048576"
proof (induction fs arbitrary: a)
  case (Cons g fs)
  have "unat a < 4294967296" using unsigned_less [of a, where 'a = nat] by simp
  with Cons show ?case by (auto simp: unat_eq_0 [symmetric])
qed simp

lemma mem_okD:
  assumes "mem_ok m fs"
  shows "paging m" "flist (pm m) (last_free_page m) fs" "distinct fs" "set fs \<inter> tables m = {}" "num_pages m = of_nat (length fs)"
  using assms by (auto simp: mem_ok_def)

lemma mem_ok_Cons:
  assumes "mem_ok m (f # fs)"
  shows "last_free_page m \<noteq> 0" "fr (last_free_page m) = f" "last_free_page m = of_nat (4096 * f)" "f \<notin> tables m" "f \<notin> set fs"
    "flist (pm m) (pm m f 0) fs" "distinct fs" "set fs \<inter> tables m = {}" "num_pages m - 1 = of_nat (length fs)"
proof -
  have u: "unat (last_free_page m) = 4096 * f" using assms by (simp add: mem_ok_def)
  then show "fr (last_free_page m) = f" by (simp add: fr_def)
  show "last_free_page m = of_nat (4096 * f)" unfolding u [symmetric] by simp
qed (use assms in \<open>auto simp: mem_ok_def\<close>)

text \<open>Changing memory outside the tables and the free frames keeps the invariant.\<close>

lemma mem_ok_frame:
  assumes "mem_ok m fs" and "\<And>g. g \<in> tables m \<union> set fs \<Longrightarrow> p g = pm m g"
  shows "mem_ok (m\<lparr>pm := p\<rparr>) fs"
  using assms paging_frame [of m p] flist_cong [of "pm m" "last_free_page m" fs p] by (auto simp: mem_ok_def)

lemma ctook_ok:
  assumes "mem_ok m (f # fs)"
  shows "mem_ok (ctook m) fs"
proof -
  note c = mem_ok_Cons [OF assms]
  have "fr (last_free_page m) \<notin> tables m" using c by simp
  moreover have l: "flist ((pm m)(f := \<lambda>_. 0)) (pm m f 0) fs" by (rule flist_cong [OF c(6)]) (use c(5) in auto)
  ultimately show ?thesis
    using c ctook_tables [OF mem_okD(1) [OF assms]] by (simp add: mem_ok_def)
qed

lemma frame_calloc_ok: "mem_ok m (f # fs) \<Longrightarrow> frame_calloc m = Inr (of_nat (4096 * f), ctook m)"
  using mem_ok_Cons [of m f fs] frame_calloc_takes [OF mem_okD(1)] by auto

lemma took_ok:
  assumes "mem_ok m (f # fs)"
  shows "mem_ok (took m) fs"
proof -
  note c = mem_ok_Cons [OF assms]
  have "fr (last_free_page m) \<notin> tables m" using c by simp
  moreover have l: "flist (pupd (pm m) f 0 0) (pm m f 0) fs"
    by (rule flist_cong [OF c(6)]) (use c(5) in \<open>metis pupd_other(1)\<close>)
  ultimately show ?thesis
    using c took_tables [OF mem_okD(1) [OF assms]] by (simp add: mem_ok_def)
qed

lemma frame_alloc_ok: "mem_ok m (f # fs) \<Longrightarrow> frame_alloc m = Inr (of_nat (4096 * f), took m)"
  using mem_ok_Cons [of m f fs] frame_alloc_takes [OF mem_okD(1)] by auto

lemma page_aligned: "unat a = 4096 * f \<Longrightarrow> a AND 0xFFF = 0" for a :: u32
proof -
  assume a: "unat a = 4096 * f"
  have "a AND 0xFFF = take_bit 12 a" by (simp add: take_bit_eq_mask mask_eq_exp_minus_1)
  also have "unat (take_bit 12 a) = 0" using a by (simp add: unat_mod take_bit_eq_mod)
  finally show ?thesis by (simp add: unat_eq_0 [symmetric])
qed

lemma gave_ok:
  assumes "mem_ok m fs" and "unat a = 4096 * g" and "g \<noteq> 0" and "g \<notin> set fs" and "g \<notin> tables m"
  shows "frame_free a m = Inr (gave a m)" and "mem_ok (gave a m) (g # fs)"
proof -
  note d = mem_okD [OF assms(1)]
  have g: "fr a = g" using assms(2) by (simp add: fr_def)
  show "frame_free a m = Inr (gave a m)"
    using frame_free_gives [OF d(1) page_aligned [OF assms(2)]] assms(5) g by simp
  have t: "tables (gave a m) = tables m" "paging (gave a m)"
    using paging_pupd [OF d(1) assms(5), of 0 "last_free_page m"] g by (simp_all add: gave_def)
  have "flist (pupd (pm m) g 0 (last_free_page m)) (last_free_page m) fs"
    using flist_cong [OF d(2)] assms(4) by (metis pupd_other(1))
  then show "mem_ok (gave a m) (g # fs)"
    using d assms g by (auto simp: mem_ok_def t) (simp_all add: gave_def)
qed

section \<open>Translation\<close>

definition pte :: "memory \<Rightarrow> u32 \<Rightarrow> u32" where
  "pte m a = (if pde m (dir_idx a) = 0 then 0 else pm m (ptab m (dir_idx a)) (tbl_idx a))"

lemma translate_pte:
  assumes "paging m"
  shows "translate a m = (if present (pte m a) then Inr (fr (pte m a)) else Inl Fault)"
  using assms paging_present [OF assms, of "dir_idx a"]
  by (simp add: translate_def pte_def ptab_def pde_def paging_def Let_def)

lemma is_mapped_pte: "paging m \<Longrightarrow> is_mapped a m = Inr (present (pte m a))"
  using paging_recursive [of m] paging_present [of m "dir_idx a"]
  by (simp add: is_mapped_def dir_access table_access pte_def Let_def)

lemma virt_to_phys_pte:
  assumes "paging m" and "a AND 0xFFF = 0" and "present (pte m a)"
  shows "virt_to_phys a m = Inr (pte m a AND 0xFFFFF000)"
proof -
  have "pde m (dir_idx a) \<noteq> 0" using assms(3) by (auto simp: pte_def split: if_splits)
  then show ?thesis
    using assms paging_recursive [of m] paging_present [of m "dir_idx a"]
    by (simp add: virt_to_phys_def is_mapped_pte table_access) (simp add: pte_def)
qed

text \<open>An ordinary page is neither the reserved page nor one of the page tables.\<close>

definition ordinary :: "u32 \<Rightarrow> bool" where
  "ordinary a \<longleftrightarrow> dir_idx a \<noteq> 1023 \<and> \<not> (dir_idx a = 1022 \<and> tbl_idx a = 1022)"

definition same_page :: "u32 \<Rightarrow> u32 \<Rightarrow> bool" where
  "same_page a b \<longleftrightarrow> dir_idx a = dir_idx b \<and> tbl_idx a = tbl_idx b"

text \<open>
  \<open>m'\<close> is \<open>m\<close> with the page table entry of \<open>va\<close> set to \<open>e\<close>: the entries of all other pages, the
  contents of all frames that are not page tables and the rest of the state are the same.
\<close>

definition entry_set :: "u32 \<Rightarrow> u32 \<Rightarrow> memory \<Rightarrow> memory \<Rightarrow> bool" where
  "entry_set va e m m' \<longleftrightarrow> pte m' va = e \<and> (\<forall>a. dir_idx a \<noteq> 1023 \<and> \<not> same_page a va \<longrightarrow> pte m' a = pte m a) \<and>
     (\<forall>g. g \<notin> tables m' \<longrightarrow> pm m' g = pm m g) \<and> cr3 m' = cr3 m \<and> tables m \<subseteq> tables m'"

lemma map_existing:
  assumes "mem_ok m fs" and "ordinary va" and "pde m (dir_idx va) \<noteq> 0"
  shows "\<exists>m'. map_k (Suc k) va pa fl m = Inr m' \<and> mem_ok m' fs \<and> entry_set va (pa OR ucast fl) m m' \<and> tables m' = tables m"
proof -
  let ?t = "ptab m (dir_idx va)" and ?e = "pa OR ucast fl"
  note d = mem_okD [OF assms(1)]
  define m' where "m' = m\<lparr>pm := pupd (pm m) ?t (tbl_idx va) ?e\<rparr>"
  have run: "map_k (Suc k) va pa fl m = Inr m'"
    using map_table [OF paging_recursive [OF d(1)]] paging_present [OF d(1)] assms(3) by (simp add: m'_def)
  have inj: "ptab m x = ptab m y \<Longrightarrow> x < 1024 \<Longrightarrow> y < 1024 \<Longrightarrow> pde m x \<noteq> 0 \<Longrightarrow> pde m y \<noteq> 0 \<Longrightarrow> x = y" for x y
    using d(1) by (auto simp: paging_def dest: inj_onD)
  have in_t: "?t \<in> tables m" using assms(3) by (auto simp: tables_def)
  have "?t \<noteq> fr (cr3 m)" using inj [of "dir_idx va" 1023] d(1) assms by (auto simp: paging_def ordinary_def)
  then have pd: "pde m' = pde m" by (simp add: fun_eq_iff m'_def pde_def)
  then have pt: "ptab m' = ptab m" by (simp add: fun_eq_iff ptab_def)
  have tb: "tables m' = tables m" by (simp add: tables_def pd pt)
  have "?t \<noteq> ptab m 1022 \<or> tbl_idx va \<noteq> 1022"
    using inj [of "dir_idx va" 1022] paging_1022 [OF d(1)] assms(2,3) unfolding ordinary_def by fastforce
  then have "pm m' (ptab m 1022) 1022 = pm m (ptab m 1022) 1022"
    by (auto simp: m'_def pupd_def)
  then have "paging m'" using d(1) by (simp add: paging_def pd pt) (simp add: m'_def)
  moreover have "flist (pm m') (last_free_page m) fs"
    by (rule flist_cong [OF d(2)]) (use in_t d(4) in \<open>auto simp: m'_def pupd_def\<close>)
  ultimately have "mem_ok m' fs" using d by (simp add: mem_ok_def tb) (simp add: m'_def)
  moreover have "pte m' x = pte m x" if "\<not> same_page x va" for x
    using that assms(3) inj [of "dir_idx x" "dir_idx va"]
    by (auto simp: pte_def pd pt same_page_def) (auto simp: m'_def pupd_def)
  moreover have "pte m' va = ?e" using assms(3) by (simp add: pte_def pd pt) (simp add: m'_def)
  moreover have "pm m' g = pm m g" if "g \<notin> tables m" for g using that in_t by (auto simp: m'_def pupd_def)
  moreover have "cr3 m' = cr3 m" by (simp add: m'_def)
  ultimately show ?thesis using run tb by (auto simp: entry_set_def)
qed

lemma map_creates:
  assumes "mem_ok m (f # fs)" and "ordinary va" and "pde m (dir_idx va) = 0" and "present (ucast fl)" and "unat fl < 4096"
  shows "\<exists>m'. map_k (Suc (Suc (Suc k))) va pa fl m = Inr m' \<and> mem_ok m' fs \<and> entry_set va (pa OR ucast fl) m m' \<and>
    tables m' = insert f (tables m)"
proof -
  let ?d = "dir_idx va" and ?e = "pa OR ucast fl"
  note d = mem_okD [OF assms(1)] and c = mem_ok_Cons [OF assms(1)]
  define a where "a = last_free_page m"
  have a: "fr a = f" "a OR ucast fl \<noteq> 0" "fr (a OR ucast fl) = f" "present (a OR ucast fl)"
    using c assms(4) present_or [of a "ucast fl"] present_0 fr_or_flags [OF assms(5)] by (auto simp: a_def simp del: present_or)
  define m' where "m' = new_table va pa fl m"
  have run: "map_k (Suc (Suc (Suc k))) va pa fl m = Inr m'"
    using map_new_table [OF d(1) c(1) _ assms(3-5)] c by (simp add: m'_def)
  have fd: "f \<noteq> fr (cr3 m)" using dir_in_tables [OF d(1)] c(4) by auto
  have pm': "pm m' = (pupd (pm m) (fr (cr3 m)) ?d (a OR ucast fl))(f := (\<lambda>_. 0)(tbl_idx va := ?e))"
    and oth: "cr3 m' = cr3 m" "pg_on m' = pg_on m" "last_free_page m' = pm m f 0" "num_pages m' = num_pages m - 1"
    using a by (simp_all add: m'_def new_table_def a_def)
  have pd: "pde m' x = (if x = ?d then a OR ucast fl else pde m x)" for x
    using fd by (simp add: pde_def oth pm')
  then have pt: "ptab m' x = (if x = ?d then f else ptab m x)" for x using a by (simp add: ptab_def)
  have dom: "{x. x < 1024 \<and> pde m' x \<noteq> 0} = insert ?d {x. x < 1024 \<and> pde m x \<noteq> 0}" using a by (auto simp: pd)
  have old: "ptab m' ` {x. x < 1024 \<and> pde m x \<noteq> 0} = tables m"
    using assms(3) by (auto simp: tables_def pt intro!: image_cong)
  then have tb: "tables m' = insert f (tables m)" unfolding tables_def [of m'] dom image_insert by (simp only: pt simp_thms if_True)
  have "inj_on (ptab m) {x. x < 1024 \<and> pde m x \<noteq> 0}" using d(1) by (simp add: paging_def)
  then have "inj_on (ptab m') {x. x < 1024 \<and> pde m x \<noteq> 0}" using assms(3) by (auto simp: inj_on_def pt)
  then have inj: "inj_on (ptab m') {x. x < 1024 \<and> pde m' x \<noteq> 0}"
    unfolding dom using c(4) old by (auto simp: inj_on_insert pt)
  have ne: "?d \<noteq> 1022" "?d \<noteq> 1023" using assms(3) d(1) by (auto simp: paging_def)
  have "pm m' (ptab m 1022) 1022 = pm m (ptab m 1022) 1022"
    using resv_in_tables [OF d(1)] resv_table_not_dir [OF d(1)] c(4) by (auto simp: pm')
  then have "paging m'" unfolding paging_def using d(1) inj ne a by (auto simp: paging_def pd pt oth)
  moreover have "flist (pm m') (pm m f 0) fs"
    by (rule flist_cong [OF c(6)]) (use c(5,8) dir_in_tables [OF d(1)] in \<open>auto simp: pm' pupd_def\<close>)
  ultimately have "mem_ok m' fs" using c by (simp add: mem_ok_def tb oth)
  moreover have "pte m' x = pte m x" if "dir_idx x \<noteq> 1023" "\<not> same_page x va" for x
  proof (cases "dir_idx x = ?d")
    case True
    then show ?thesis using that assms(3) a by (auto simp: pte_def pd pt pm' same_page_def)
  next
    case False
    have "ptab m (dir_idx x) \<noteq> fr (cr3 m)" if "pde m (dir_idx x) \<noteq> 0"
      using d(1) that \<open>dir_idx x \<noteq> 1023\<close> by (auto simp: paging_def dest!: inj_onD [where x = "dir_idx x" and y = 1023])
    moreover have "ptab m (dir_idx x) \<noteq> f" if "pde m (dir_idx x) \<noteq> 0" using c(4) that by (auto simp: tables_def)
    ultimately show ?thesis using False by (auto simp: pte_def pd pt pm')
  qed
  then have "entry_set va ?e m m'"
    using a dir_in_tables [OF d(1)] by (auto simp: entry_set_def tb oth) (auto simp: pte_def pd pt pm' pupd_def)
  ultimately show ?thesis using run tb by blast
qed

lemma num_unfold4: "map_page va pa fl m = map_k (Suc 3) va pa fl m" "map_page va pa fl m = map_k (Suc (Suc (Suc 1))) va pa fl m"
  by (simp_all add: map_page_def numeral_eq_Suc)

text \<open>Mapping an ordinary page, with the table created when it is missing.\<close>

lemma map_page_ok:
  assumes "mem_ok m fs" and "ordinary va" and "present (ucast fl)" and "unat fl < 4096"
    and "pde m (dir_idx va) = 0 \<Longrightarrow> fs \<noteq> []"
  shows "\<exists>m' gs. map_page va pa fl m = Inr m' \<and> mem_ok m' gs \<and> entry_set va (pa OR ucast fl) m m' \<and>
    (if pde m (dir_idx va) = 0 then gs = tl fs \<and> tables m' = insert (hd fs) (tables m) else gs = fs \<and> tables m' = tables m)"
proof (cases "pde m (dir_idx va) = 0")
  case True
  then obtain f gs where "fs = f # gs" using assms(5) by (cases fs) auto
  with True map_creates [OF _ assms(2) True assms(3,4), of f gs 1 pa] assms(1) show ?thesis by (auto simp: num_unfold4(2))
next
  case False
  with map_existing [OF assms(1,2) False, of 3 pa fl] show ?thesis by (auto simp: num_unfold4(1))
qed

lemma unmap_ok:
  assumes "mem_ok m fs" and "ordinary va" and "pde m (dir_idx va) \<noteq> 0"
  shows "\<exists>m'. unmap va m = Inr m' \<and> mem_ok m' fs \<and> entry_set va 0 m m' \<and> tables m' = tables m"
  using map_existing [OF assms, of 3 0 0] by (auto simp: unmap_def num_unfold4(1))

text \<open>
  A memory with one user page: the directory in frame 1, the table of the reserved page in frame 2, the
  table of the page at \<open>0x10000000\<close> in frame 3, the page in frame 4 and the frames from 5 to 16 free.
\<close>

definition sample_mem :: memory where
  "sample_mem = \<lparr>pm = (\<lambda>f i. if f = 1 then if i = 1023 then 0x1003 else if i = 1022 then 0x2003 else if i = 64 then 0x3007 else 0
       else if f = 3 then if i = 0 then 0x4007 else 0
       else if f = 4 then of_nat i + 77
       else if i = 0 \<and> 5 \<le> f \<and> f < 16 then of_nat (4096 * (f + 1)) else 0),
     cr3 = 0x1000, num_pages = 12, total_pages = 16, kernel_dir = 0x1000, pg_on = True, last_free_page = 0x5000\<rparr>"

lemma sample_pde: "pde sample_mem d = (if d = 1023 then 0x1003 else if d = 1022 then 0x2003 else if d = 64 then 0x3007 else 0)"
  by (simp add: pde_def sample_mem_def fr_def)

lemma sample_dom: "{d. d < 1024 \<and> pde sample_mem d \<noteq> 0} = {64, 1022, 1023}"
  by (auto simp: sample_pde split: if_splits)

lemma sample_ptab: "ptab sample_mem 64 = 3" "ptab sample_mem 1022 = 2" "ptab sample_mem 1023 = 1"
  by (simp_all add: ptab_def sample_pde fr_def)

lemma sample_tables: "tables sample_mem = {1, 2, 3}"
  unfolding tables_def sample_dom by (auto simp: sample_ptab)

lemma sample_ok: "mem_ok sample_mem [5, 6, 7, 8, 9, 10, 11, 12, 13, 14, 15, 16]"
proof -
  have "paging sample_mem"
    unfolding paging_def sample_dom
    by (auto simp: sample_pde sample_ptab present_def P_PRESENT_def inj_on_def) (simp_all add: sample_mem_def fr_def)
  then show ?thesis
    by (simp add: mem_ok_def sample_tables) (simp add: sample_mem_def)
qed

lemma sample_pte: "pte sample_mem a = (if dir_idx a = 64 \<and> tbl_idx a = 0 then 0x4007 else
    if dir_idx a = 1023 then pm sample_mem 1 (tbl_idx a) else 0)"
  by (auto simp: pte_def sample_pde sample_ptab) (simp_all add: sample_mem_def)

text \<open>
  C23. Mapping a page. In every memory with well formed page tables and a free frame, \<open>map\<close> on an
  ordinary page makes exactly this page translate to the given frame: every other page (the
  window on the page tables themselves apart) translates as before, in particular pages that
  were not mapped still are not, the contents of every frame that is no page table are unchanged, and
  at most one frame is taken, for a missing table. \<open>unmap\<close> afterwards makes the page inaccessible.
\<close>

theorem map_maps_exactly:
  assumes "mem_ok m (f # fs)" and "ordinary va" and "present (ucast fl)" and "unat fl < 4096"
  shows "\<exists>m' gs. map_page va pa fl m = Inr m' \<and> mem_ok m' gs \<and> (gs = f # fs \<or> gs = fs) \<and>
    translate va m' = Inr (fr pa) \<and>
    (\<forall>a. dir_idx a \<noteq> 1023 \<and> \<not> same_page a va \<longrightarrow> translate a m' = translate a m) \<and>
    (\<forall>g. g \<notin> tables m' \<longrightarrow> pm m' g = pm m g) \<and>
    (\<exists>m''. unmap va m' = Inr m'' \<and> mem_ok m'' gs \<and> translate va m'' = Inl Fault)"
proof -
  obtain m' gs where m': "map_page va pa fl m = Inr m'" "mem_ok m' gs" "entry_set va (pa OR ucast fl) m m'" "gs = f # fs \<or> gs = fs"
    using map_page_ok [OF assms(1-4), where pa = pa] by (metis list.sel(3) list.discI)
  have tr: "translate va m' = Inr (fr pa)"
    using m'(3) translate_pte [OF mem_okD(1) [OF m'(2)]] assms(3,4) by (simp add: entry_set_def fr_or_flags)
  have "pte m' va \<noteq> 0" using m'(3) assms(3) present_or [of pa "ucast fl"] present_0 by (auto simp: entry_set_def simp del: present_or)
  then have "pde m' (dir_idx va) \<noteq> 0" by (auto simp: pte_def)
  from unmap_ok [OF m'(2) assms(2) this] obtain m'' where "unmap va m' = Inr m''" "mem_ok m'' gs" "entry_set va 0 m' m''" by blast
  then have "\<exists>m''. unmap va m' = Inr m'' \<and> mem_ok m'' gs \<and> translate va m'' = Inl Fault"
    using translate_pte [OF mem_okD(1)] by (auto simp: entry_set_def)
  then show ?thesis
    using m' tr translate_pte [OF mem_okD(1) [OF m'(2)]] translate_pte [OF mem_okD(1) [OF assms(1)]]
    by (auto simp: entry_set_def)
qed

theorem map_maps_exactly_witness:
  "\<exists>m'. map_page 0x20000000 0x4000 7 sample_mem = Inr m' \<and> translate 0x20000000 m' = Inr 4 \<and>
     translate 0x10000000 m' = Inr 4 \<and> translate 0x20001000 m' = Inl Fault"
proof -
  have t: "translate 0x10000000 sample_mem = Inr 4" "translate 0x20001000 sample_mem = Inl Fault"
    using translate_pte [OF mem_okD(1) [OF sample_ok]]
    by (simp_all add: sample_pte dir_idx_def tbl_idx_def present_def P_PRESENT_def fr_def)
  obtain m' where m': "map_page 0x20000000 0x4000 7 sample_mem = Inr m'" "translate 0x20000000 m' = Inr (fr 0x4000)"
    "\<And>a. dir_idx a \<noteq> 1023 \<and> \<not> same_page a 0x20000000 \<Longrightarrow> translate a m' = translate a sample_mem"
    using map_maps_exactly [OF sample_ok, where va = "0x20000000" and fl = 7 and pa = "0x4000"]
    by (auto simp: ordinary_def dir_idx_def tbl_idx_def present_def P_PRESENT_def)
  have "translate 0x10000000 m' = Inr 4" "translate 0x20001000 m' = Inl Fault"
    using t m'(3) [of "0x10000000"] m'(3) [of "0x20001000"] by (simp_all add: dir_idx_def tbl_idx_def same_page_def)
  with m' show ?thesis by (simp add: fr_def)
qed

text \<open>
  The free frames are a stack: with frames left \<open>frame_alloc\<close> returns the address of the first one
  and leaves the others, with none it stops at its assertion, \<open>frame_free\<close> of a frame that is in use
  puts it first, and nothing but the link in the first word of the frame and the two counters
  changes. Taking a frame and giving it back gives the same stack.
\<close>

theorem frames_are_a_stack:
  assumes "mem_ok m fs"
  shows "(case fs of
      [] \<Rightarrow> frame_alloc m = Inl (Assertion ''last_free_page != 0'')
    | f # gs \<Rightarrow> \<exists>m'. frame_alloc m = Inr (of_nat (4096 * f), m') \<and> mem_ok m' gs \<and>
        (\<forall>g i. (g, i) \<noteq> (f, 0) \<longrightarrow> pm m' g i = pm m g i) \<and>
        (\<exists>m''. frame_free (of_nat (4096 * f)) m' = Inr m'' \<and> mem_ok m'' fs \<and> pm m'' = pm m)) \<and>
    (\<forall>g. 0 < g \<and> g < 2 ^ 20 \<and> g \<notin> set fs \<and> g \<notin> tables m \<longrightarrow>
      (\<exists>m'. frame_free (of_nat (4096 * g)) m = Inr m' \<and> mem_ok m' (g # fs) \<and>
        (\<forall>h i. (h, i) \<noteq> (g, 0) \<longrightarrow> pm m' h i = pm m h i)))"
proof (intro conjI allI impI)
  show "case fs of
      [] \<Rightarrow> frame_alloc m = Inl (Assertion ''last_free_page != 0'')
    | f # gs \<Rightarrow> \<exists>m'. frame_alloc m = Inr (of_nat (4096 * f), m') \<and> mem_ok m' gs \<and>
        (\<forall>g i. (g, i) \<noteq> (f, 0) \<longrightarrow> pm m' g i = pm m g i) \<and>
        (\<exists>m''. frame_free (of_nat (4096 * f)) m' = Inr m'' \<and> mem_ok m'' fs \<and> pm m'' = pm m)"
  proof (cases fs)
    case Nil
    then show ?thesis using assms by (simp add: frame_alloc_def numeral_eq_Suc frame_alloc_k.simps kassert_def mem_ok_def)
  next
    case (Cons f gs)
    note c = mem_ok_Cons [OF assms [unfolded Cons]]
    have u: "unat (last_free_page m) = 4096 * f" using assms Cons by (simp add: mem_ok_def)
    have f: "f \<noteq> 0" using u c(1) by (metis mult_0_right unat_eq_0)
    have t: "f \<notin> tables (took m)" using took_tables [OF mem_okD(1) [OF assms]] c by simp
    note g = gave_ok [OF took_ok [OF assms [unfolded Cons]] u f c(5) t]
    have "pm (gave (last_free_page m) (took m)) = pm m" using c(2) by (simp add: gave_def pupd_idle)
    then show ?thesis
      using Cons frame_alloc_ok [OF assms [unfolded Cons]] took_ok [OF assms [unfolded Cons]] g c(2,3)
      by (auto simp: pupd_def)
  qed
next
  fix g
  assume g: "0 < g \<and> g < 2 ^ 20 \<and> g \<notin> set fs \<and> g \<notin> tables m"
  then have u: "unat (of_nat (4096 * g) :: u32) = 4096 * g" by (intro unat_of_nat_u32) simp
  have "fr (of_nat (4096 * g)) = g" using u by (simp add: fr_def)
  with gave_ok [OF assms u] g
  show "\<exists>m'. frame_free (of_nat (4096 * g)) m = Inr m' \<and> mem_ok m' (g # fs) \<and> (\<forall>h i. (h, i) \<noteq> (g, 0) \<longrightarrow> pm m' h i = pm m h i)"
    by (auto simp: gave_def pupd_def)
qed

theorem frames_are_a_stack_witness:
  "\<exists>m'. frame_alloc sample_mem = Inr (0x5000, m') \<and> mem_ok m' [6, 7, 8, 9, 10, 11, 12, 13, 14, 15, 16]"
  using frames_are_a_stack [OF sample_ok] by auto

end
