(* ===== verification/Mem_Fork.thy ===== *)
theory Mem_Fork
  imports Mem
begin

text \<open>
  Copying an address space (\<open>clone_directory\<close> of \<open>mem.c\<close>, the memory half of \<open>fork\<close>): every entry of the
  current directory is either linked, for the kernel and its heap, or copied table by table and
  page by page through the reserved page.
\<close>

section \<open>One step of each loop\<close>

lemma page_addr:
  assumes "d < 1024" and "i < 1024"
  shows "dir_idx (of_nat d * 1024 * PAGE_SIZE + of_nat i * PAGE_SIZE) = d"
    and "tbl_idx (of_nat d * 1024 * PAGE_SIZE + of_nat i * PAGE_SIZE) = i"
proof -
  have "of_nat d * 1024 * PAGE_SIZE + of_nat i * PAGE_SIZE = (of_nat ((d * 1024 + i) * 4096) :: u32)"
    by (simp add: PAGE_SIZE_def)
  moreover have "(d * 1024 + i) * 4096 < 4294967296" using assms by simp
  ultimately have u: "unat (of_nat d * 1024 * PAGE_SIZE + of_nat i * PAGE_SIZE) = (d * 1024 + i) * 4096"
    by (simp only: unat_of_nat_u32)
  show "dir_idx (of_nat d * 1024 * PAGE_SIZE + of_nat i * PAGE_SIZE) = d"
    and "tbl_idx (of_nat d * 1024 * PAGE_SIZE + of_nat i * PAGE_SIZE) = i"
    unfolding dir_idx_def tbl_idx_def u using assms by simp_all
qed

lemma win_translate_other:
  assumes "paging m" and "ordinary va"
  shows "translate va (win a m) = translate va m"
proof -
  have "pm (win a m) (ptab m (dir_idx va)) (tbl_idx va) = pm m (ptab m (dir_idx va)) (tbl_idx va)" if "pde m (dir_idx va) \<noteq> 0"
    using that assms paging_1022 [OF assms(1)] inj_onD [of "ptab m" "{d. d < 1024 \<and> pde m d \<noteq> 0}" "dir_idx va" 1022]
    by (auto simp: win_tables [OF assms(1)] ordinary_def paging_def)
  moreover have "pm (win a m) (fr (cr3 m)) d = pde m d" for d
    using win_tables(1) [OF assms(1), of a] by (simp add: fun_eq_iff pde_def)
  ultimately show ?thesis
    using paging_present [OF assms(1), of "dir_idx va"] by (auto simp: translate_def Let_def pde_def [symmetric] ptab_def)
qed

text \<open>The memory after the entry of a present page was copied.\<close>

definition copied :: "nat \<Rightarrow> nat \<Rightarrow> u32 \<Rightarrow> memory \<Rightarrow> memory" where
  "copied T i e m = (let f = fr (last_free_page m) in
     (ctook m)\<lparr>pm := pupd ((pm m)(f := pm m (fr e))) T i (of_nat (4096 * f) OR (e AND 0xFFF))\<rparr>)"

lemma clone_pte_copies:
  assumes "mem_ok m (f # fs)" and "d < 1024" and "i < 1024" and "pde m d \<noteq> 0" and "e = pm m (ptab m d) i" and "present e"
    and "d \<noteq> 1023" and "fr e \<notin> tables m" and "fr e \<noteq> f" and "fr T \<notin> tables m" and "fr T \<noteq> f"
  shows "clone_pte T d i m = Inr (copied (fr T) i e m)"
proof -
  note c = mem_ok_Cons [OF assms(1)] and p = mem_okD(1) [OF assms(1)]
  define A where "A = last_free_page m"
  have A: "fr A = f" "A = of_nat (4096 * f)" using c by (simp_all add: A_def)
  define m1 where "m1 = ctook m"
  have t1: "paging m1" "pde m1 = pde m" "ptab m1 = ptab m" "tables m1 = tables m"
    using ctook_tables [OF p] c by (simp_all add: m1_def)
  have pm1: "pm m1 = (pm m)(f := \<lambda>_. 0)" using c(2) by (simp add: m1_def)
  define m2 where "m2 = m1\<lparr>pm := (pm m1)(f := pm m (fr e))\<rparr>"
  have t2: "paging m2" "tables m2 = tables m" using paging_change [OF t1(1), of f] c(4) t1 by (simp_all add: m2_def)
  define src where "src = (of_nat d * 1024 * PAGE_SIZE + of_nat i * PAGE_SIZE :: u32)"
  have src: "dir_idx src = d" "tbl_idx src = i" using page_addr [OF assms(2,3)] by (simp_all add: src_def)
  have "\<not> (d = 1022 \<and> i = 1022)" using p assms(5,6) by (auto simp: paging_def)
  then have ord: "ordinary src" using assms(7) by (auto simp: ordinary_def src)
  have ne: "ptab m d \<noteq> f" using c(4) assms(2,4) by (auto simp: tables_def)
  have "pte m1 src = e" using ne assms(4,5) by (simp add: pte_def src t1 pm1)
  then have ts: "translate src (win A m1) = Inr (fr e)"
    using win_translate_other [OF t1(1) ord] translate_pte [OF t1(1)] assms(6) by simp
  have td: "translate RESV_PAGE (win A m1) = Inr f" using win_translate [OF t1(1), of 0] A by simp
  have "fr e \<noteq> ptab m 1022" using resv_in_tables [OF p] assms(8) by auto
  then have "pm (win A m1) (fr e) = pm m (fr e)"
    using assms(9) by (simp add: fun_eq_iff win_tables [OF t1(1)] t1 pm1)
  then have cp: "vcopy RESV_PAGE src (win A m1) = Inr (win A m2)"
    using win_change [OF t1(1), of A] A(1) c(4) t1(4) by (simp add: vcopy_def ts td m2_def)
  define v where "v = (of_nat (4096 * f) OR (e AND 0xFFF) :: u32)"
  have st: "vstore (RESV_PAGE + 4 * of_nat i) v (win T m2) = Inr (win T (m2\<lparr>pm := pupd (pm m2) (fr T) i v\<rparr>))"
    using win_store [OF t2(1) assms(3)] t2(2) assms(10) by simp
  have un: "temp_unmap (win T (m2\<lparr>pm := pupd (pm m2) (fr T) i v\<rparr>)) = Inr (m2\<lparr>pm := pupd (pm m2) (fr T) i v\<rparr>)"
    using paging_pupd(4) [OF t2(1)] t2(2) assms(10) by (simp add: temp_unmap_win)
  have ld: "vload (PTABLES_ADDR + of_nat d * PAGE_SIZE + 4 * of_nat i) m = Inr e"
    using table_access(1) [OF paging_recursive [OF p] assms(2,3)] paging_present [OF p assms(2)] assms(4,5) by simp
  have fin: "m2\<lparr>pm := pupd (pm m2) (fr T) i v\<rparr> = copied (fr T) i e m"
    using c(2) by (simp add: copied_def m2_def m1_def v_def)
  show ?thesis
    unfolding clone_pte_def ld bnd_Inr frame_calloc_ok [OF assms(1)] prod.case src_def [symmetric] m1_def [symmetric]
      A(2) [symmetric] temp_map_win [OF t1(1)] cp temp_unmap_win [OF t2(1)] temp_map_win [OF t2(1)]
    using st un fin assms(6) by (simp add: v_def A)
qed

lemma link_pde_links:
  assumes "paging m" and "fr N \<notin> tables m" and "d < 1024"
  shows "link_pde N PDIR_ADDR d m = Inr (m\<lparr>pm := pupd (pm m) (fr N) d (pde m d)\<rparr>)"
proof -
  have "vload (PDIR_ADDR + 4 * of_nat d) (win N m) = Inr (pde m d)"
    using dir_access(1) [OF win_tables(3) [OF assms(1)] assms(3)] by (simp add: win_tables [OF assms(1)])
  moreover have "temp_unmap (win N (m\<lparr>pm := pupd (pm m) (fr N) d (pde m d)\<rparr>)) = Inr (m\<lparr>pm := pupd (pm m) (fr N) d (pde m d)\<rparr>)"
    by (rule temp_unmap_win) (rule paging_pupd(4) [OF assms(1,2)])
  ultimately show ?thesis
    using temp_map_win [OF assms(1)] win_store [OF assms(1,3,2)] by (simp add: link_pde_def)
qed

lemma for_idx_rule:
  assumes "\<And>i m. i < n \<Longrightarrow> I i m \<Longrightarrow> \<exists>m'. f i m = Inr m' \<and> I (Suc i) m'" and "I 0 m"
  shows "\<exists>m'. for_idx f [0..<n] m = Inr m' \<and> I n m'"
proof -
  have "k \<le> n \<Longrightarrow> I k m \<Longrightarrow> \<exists>m'. for_idx f [k..<n] m = Inr m' \<and> I n m'" for k m
  proof (induction "n - k" arbitrary: k m)
    case (Suc x)
    then have "k < n" by simp
    with Suc.prems assms(1) obtain m1 where "f k m = Inr m1" "I (Suc k) m1" by blast
    with Suc.hyps(1) [of "Suc k" m1] Suc.hyps(2) \<open>k < n\<close> show ?case by (simp add: upt_conv_Cons)
  qed auto
  with assms(2) show ?thesis by blast
qed

section \<open>Copying a table\<close>

lemma entry_bits:
  assumes "unat A = 4096 * f"
  shows "fr (A OR (e AND 0xFFF)) = f" and "present (A OR (e AND 0xFFF)) \<longleftrightarrow> present e" and "(A OR (e AND 0xFFF)) AND 0xFFF = e AND 0xFFF"
proof -
  have m: "(0xFFF :: u32) = mask 12" by (simp add: mask_eq_exp_minus_1)
  have "unat (e AND 0xFFF) < 4096" unfolding m by (simp add: take_bit_eq_mask [symmetric] take_bit_eq_mod unat_mod)
  then show "fr (A OR (e AND 0xFFF)) = f" using assms by (simp add: fr_or) (simp add: fr_def)
  have A: "A AND mask 12 = 0" using page_aligned [OF assms] by (simp add: m)
  then have "\<not> bit (A AND mask 12) 0" by simp
  then have "\<not> bit A 0" by (simp add: bit_simps)
  then show "present (A OR (e AND 0xFFF)) \<longleftrightarrow> present e" unfolding m by (simp add: present_odd bit_simps)
  show "(A OR (e AND 0xFFF)) AND 0xFFF = e AND 0xFFF"
    unfolding m bit.conj_disj_distrib2 A and.assoc by simp
qed

definition table_copy :: "memory \<Rightarrow> nat \<Rightarrow> nat \<Rightarrow> (nat \<Rightarrow> nat \<Rightarrow> u32) \<Rightarrow> nat set \<Rightarrow> nat \<Rightarrow> bool" where
  "table_copy m0 d T p U n \<longleftrightarrow>
     (\<forall>j<1024. if j < n \<and> present (pm m0 (ptab m0 d) j)
        then present (p T j) \<and> p T j AND 0xFFF = pm m0 (ptab m0 d) j AND 0xFFF \<and> fr (p T j) \<in> U \<and>
          p (fr (p T j)) = pm m0 (fr (pm m0 (ptab m0 d) j))
        else p T j = 0) \<and>
     inj_on (\<lambda>j. fr (p T j)) {j. j < n \<and> present (pm m0 (ptab m0 d) j)} \<and>
     U = (\<lambda>j. fr (p T j)) ` {j. j < n \<and> present (pm m0 (ptab m0 d) j)}"

definition entries :: "memory \<Rightarrow> nat \<Rightarrow> nat \<Rightarrow> nat" where
  "entries m d n = length (filter (\<lambda>j. present (pm m (ptab m d) j)) [0..<n])"

lemma entries_mono: "n \<le> k \<Longrightarrow> entries m d n \<le> entries m d k"
proof -
  assume "n \<le> k"
  then have "[0..<k] = [0..<n] @ [n..<k]" by (metis le_add_diff_inverse upt_add_eq_append zero_le)
  then show ?thesis by (simp add: entries_def)
qed

text \<open>
  What the loop has done: \<open>U\<close> are the frames it took, they and the table \<open>T\<close> are all it changed, and
  the first \<open>n\<close> entries are copied.
\<close>

definition inner :: "memory \<Rightarrow> nat list \<Rightarrow> nat \<Rightarrow> nat \<Rightarrow> nat set \<Rightarrow> nat \<Rightarrow> memory \<Rightarrow> nat list \<Rightarrow> bool" where
  "inner m0 fs0 d T U n m fs \<longleftrightarrow> mem_ok m fs \<and> cr3 m = cr3 m0 \<and> (\<forall>g. g \<notin> insert T U \<longrightarrow> pm m g = pm m0 g) \<and>
     set fs0 = U \<union> set fs \<and> U \<inter> set fs = {} \<and> length fs0 = length fs + entries m0 d n \<and> table_copy m0 d T (pm m) U n"

lemma same_tables:
  assumes "paging m0" and "cr3 m = cr3 m0" and "\<And>g. g \<in> tables m0 \<Longrightarrow> pm m g = pm m0 g"
  shows "pde m = pde m0" and "ptab m = ptab m0" and "tables m = tables m0"
proof -
  show pd: "pde m = pde m0" using assms(3) [OF dir_in_tables [OF assms(1)]] assms(2) by (simp add: fun_eq_iff pde_def)
  then show pt: "ptab m = ptab m0" by (simp add: fun_eq_iff ptab_def)
  show "tables m = tables m0" by (simp add: tables_def pd pt)
qed

lemma table_copy_skip:
  assumes "\<not> present (pm m0 (ptab m0 d) i)"
  shows "table_copy m0 d T p U (Suc i) = table_copy m0 d T p U i"
proof -
  have "j < Suc i \<and> present (pm m0 (ptab m0 d) j) \<longleftrightarrow> j < i \<and> present (pm m0 (ptab m0 d) j)" for j
    using assms by (auto simp: less_Suc_eq)
  then show ?thesis by (simp only: table_copy_def)
qed

lemma table_copy_step:
  assumes tc: "table_copy m0 d T p U i" and "i < 1024" and e: "e = pm m0 (ptab m0 d) i" "present e"
    and T: "T \<notin> U" "f \<notin> U" "T \<noteq> f" and v: "fr v = f" "present v" "v AND 0xFFF = e AND 0xFFF"
  shows "table_copy m0 d T (pupd (p(f := pm m0 (fr e))) T i v) (insert f U) (Suc i)"
proof -
  let ?P = "\<lambda>j. present (pm m0 (ptab m0 d) j)"
  define p' where "p' = pupd (p(f := pm m0 (fr e))) T i v"
  have pT: "p' T j = (if j = i then v else p T j)" for j using T(3) by (simp add: p'_def pupd_def)
  have pU: "p' g = p g" if "g \<in> U" for g using that T by (auto simp: p'_def pupd_def)
  have pf: "p' f = pm m0 (fr e)" using T(3) by (simp add: p'_def)
  have old: "fr (p T j) \<in> U" if "j < i" "?P j" for j using tc that assms(2) by (auto simp: table_copy_def split: if_splits)
  have S: "{j. j < Suc i \<and> ?P j} = insert i {j. j < i \<and> ?P j}" using e by (auto simp: less_Suc_eq)
  have "inj_on (\<lambda>j. fr (p' T j)) {j. j < i \<and> ?P j}"
    using tc by (auto simp: table_copy_def inj_on_def pT)
  then have "inj_on (\<lambda>j. fr (p' T j)) {j. j < Suc i \<and> ?P j}"
    unfolding S inj_on_insert using old T(2) by (auto simp: pT v)
  moreover have "insert f U = (\<lambda>j. fr (p' T j)) ` {j. j < Suc i \<and> ?P j}"
  proof -
    have "(\<lambda>j. fr (p' T j)) ` {j. j < i \<and> ?P j} = (\<lambda>j. fr (p T j)) ` {j. j < i \<and> ?P j}" by (auto simp: pT intro!: image_cong)
    then show ?thesis using tc unfolding S table_copy_def by (simp add: pT v)
  qed
  moreover have "if j < Suc i \<and> ?P j
      then present (p' T j) \<and> p' T j AND 0xFFF = pm m0 (ptab m0 d) j AND 0xFFF \<and> fr (p' T j) \<in> insert f U \<and>
          p' (fr (p' T j)) = pm m0 (fr (pm m0 (ptab m0 d) j))
        else p' T j = 0" if "j < 1024" for j
  proof (cases "j = i")
    case True
    then show ?thesis using e v pf by (simp add: pT)
  next
    case False
    then have "j < Suc i \<longleftrightarrow> j < i" by auto
    with False tc that show ?thesis by (auto simp: table_copy_def pT pU old split: if_splits)
  qed
  ultimately show ?thesis unfolding table_copy_def p'_def [symmetric] by blast
qed

lemma inner_step:
  assumes "inner m0 fs0 d T U i m fs" and "mem_ok m0 fs0" and "d < 1023" and "i < 1024" and "pde m0 d \<noteq> 0" and "fr Ta = T"
    and "T \<notin> tables m0" and "T \<notin> set fs0" and "entries m0 d 1024 \<le> length fs0"
    and data: "\<And>j. j < 1024 \<Longrightarrow> present (pm m0 (ptab m0 d) j) \<Longrightarrow> fr (pm m0 (ptab m0 d) j) \<notin> insert T (tables m0 \<union> set fs0)"
  shows "\<exists>m' U' fs'. clone_pte Ta d i m = Inr m' \<and> inner m0 fs0 d T U' (Suc i) m' fs'"
proof -
  let ?e = "pm m0 (ptab m0 d) i"
  have ok: "mem_ok m fs" and cr: "cr3 m = cr3 m0" and fr0: "\<And>g. g \<notin> insert T U \<Longrightarrow> pm m g = pm m0 g"
    and U: "set fs0 = U \<union> set fs" "U \<inter> set fs = {}" and len: "length fs0 = length fs + entries m0 d i"
    and tc: "table_copy m0 d T (pm m) U i"
    using assms(1) by (auto simp: inner_def)
  note p0 = mem_okD(1) [OF assms(2)]
  have disj: "g \<in> tables m0 \<Longrightarrow> g \<notin> insert T U" for g using mem_okD(4) [OF assms(2)] U assms(7) by auto
  note st = same_tables [OF p0 cr fr0 [OF disj]]
  have d: "d < 1024" "d \<noteq> 1023" "pde m d \<noteq> 0" using assms(3,5) st by auto
  have "ptab m0 d \<in> tables m0" using assms(5) d(1) by (auto simp: tables_def)
  then have e: "pm m (ptab m d) i = ?e" using fr0 [OF disj] st by simp
  show ?thesis
  proof (cases "present ?e")
    case False
    have "clone_pte Ta d i m = Inr m"
      using table_access(1) [OF paging_recursive [OF mem_okD(1) [OF ok]] d(1) assms(4)] paging_present [OF mem_okD(1) [OF ok] d(1)] d(3) e False
      by (simp add: clone_pte_def)
    moreover have "inner m0 fs0 d T U (Suc i) m fs"
      using assms(1) False by (simp add: inner_def table_copy_skip entries_def)
    ultimately show ?thesis by blast
  next
    case True
    have "Suc (entries m0 d i) = entries m0 d (Suc i)" using True by (simp add: entries_def)
    then have "Suc (entries m0 d i) \<le> length fs0" using entries_mono [of "Suc i" 1024 m0 d] assms(4,9) by simp
    with len obtain f fs' where fs: "fs = f # fs'" by (cases fs) auto
    note c = mem_ok_Cons [OF ok [unfolded fs]]
    have u: "unat (of_nat (4096 * f) :: u32) = 4096 * f" using ok fs c(3) by (simp add: mem_ok_def)
    note v = entry_bits [OF u, of ?e]
    define m' where "m' = copied T i ?e m"
    have dat: "fr ?e \<notin> tables m" "fr ?e \<noteq> f" "fr ?e \<noteq> T" "fr ?e \<notin> U" using data [OF assms(4) True] st U fs by auto
    have T: "T \<notin> tables m" "T \<noteq> f" "T \<notin> U" "f \<notin> U" "T \<notin> set fs'" using assms(7,8) st U fs by auto
    have run: "clone_pte Ta d i m = Inr m'"
      unfolding m'_def assms(6) [symmetric]
      by (rule clone_pte_copies [OF ok [unfolded fs] d(1) assms(4) d(3) e [symmetric] True d(2)]) (use dat T assms(6) in auto)
    have pm': "pm m' = pupd ((pm m)(f := pm m0 (fr ?e))) T i (of_nat (4096 * f) OR (?e AND 0xFFF))"
      using c(2) fr0 [of "fr ?e"] dat by (simp add: m'_def copied_def Let_def)
    have "mem_ok ((ctook m)\<lparr>pm := pm m'\<rparr>) fs'"
    proof (rule mem_ok_frame [OF ctook_ok [OF ok [unfolded fs]]])
      fix g
      assume "g \<in> tables (ctook m) \<union> set fs'"
      then have "g \<noteq> f" "g \<noteq> T" using ctook_tables(4) [OF mem_okD(1) [OF ok]] c T by auto
      then show "pm m' g = pm (ctook m) g" using c(2) by (simp add: pm')
    qed
    moreover have "(ctook m)\<lparr>pm := pm m'\<rparr> = m'" by (simp add: m'_def copied_def Let_def)
    ultimately have ok': "mem_ok m' fs'" by simp
    have "table_copy m0 d T (pm m') (insert f U) (Suc i)"
      unfolding pm' by (rule table_copy_step [OF tc assms(4) refl True T(3,4,2)]) (use v True in auto)
    moreover have "cr3 m' = cr3 m0" using cr by (simp add: m'_def copied_def Let_def)
    moreover have "pm m' g = pm m0 g" if "g \<notin> insert T (insert f U)" for g using that fr0 by (simp add: pm')
    moreover have "set fs0 = insert f U \<union> set fs'" "insert f U \<inter> set fs' = {}" using U fs c(5) by auto
    moreover have "length fs0 = length fs' + entries m0 d (Suc i)" using len fs True by (simp add: entries_def)
    ultimately have "inner m0 fs0 d T (insert f U) (Suc i) m' fs'"
      using ok' unfolding inner_def by blast
    then show ?thesis using run by blast
  qed
qed

lemma table_copy_source:
  assumes "pm m1 (ptab m1 d) = pm m0 (ptab m0 d)"
    and "\<And>j. j < 1024 \<Longrightarrow> present (pm m0 (ptab m0 d) j) \<Longrightarrow> pm m1 (fr (pm m0 (ptab m0 d) j)) = pm m0 (fr (pm m0 (ptab m0 d) j))"
  shows "table_copy m1 d T p U n = table_copy m0 d T p U n"
  unfolding table_copy_def assms(1) using assms(2) by (intro arg_cong2 [where f = "(\<and>)"] all_cong refl) auto

lemma table_copy_target:
  assumes "table_copy m0 d T p U 1024" and "\<And>g. g \<in> insert T U \<Longrightarrow> p' g = p g"
  shows "table_copy m0 d T p' U 1024"
proof -
  have "p' T = p T" using assms(2) by simp
  then show ?thesis using assms by (auto simp: table_copy_def split: if_splits)
qed

lemma clone_pde_copies:
  assumes ok: "mem_ok m (T # fs)" and d: "d < 1023" and pd: "pde m d \<noteq> 0" and N: "fr Na = N" "N \<notin> tables m" "N \<notin> set (T # fs)"
    and len: "entries m d 1024 \<le> length fs"
    and data: "\<And>j. j < 1024 \<Longrightarrow> present (pm m (ptab m d) j) \<Longrightarrow> fr (pm m (ptab m d) j) \<notin> insert N (tables m \<union> set (T # fs))"
  shows "\<exists>m' U gs. clone_pde Na PDIR_ADDR d m = Inr m' \<and> mem_ok m' gs \<and> cr3 m' = cr3 m \<and> set fs = U \<union> set gs \<and>
    U \<inter> set gs = {} \<and> length fs = length gs + entries m d 1024 \<and> (\<forall>g. g \<notin> insert N (insert T U) \<longrightarrow> pm m' g = pm m g) \<and>
    pm m' N = (pm m N)(d := of_nat (4096 * T) OR (pde m d AND 0xFFF)) \<and> table_copy m d T (pm m') U 1024"
proof -
  note p = mem_okD(1) [OF ok] and c = mem_ok_Cons [OF ok]
  let ?v = "of_nat (4096 * T) OR (pde m d AND 0xFFF) :: u32"
  define m1 where "m1 = ctook m"
  have t1: "paging m1" "tables m1 = tables m" using ctook_tables [OF p] c by (simp_all add: m1_def)
  define m2 where "m2 = m1\<lparr>pm := pupd (pm m1) N d ?v\<rparr>"
  have pm2: "pm m2 = pupd ((pm m)(T := \<lambda>_. 0)) N d ?v" "cr3 m2 = cr3 m" using c(2) by (simp_all add: m2_def m1_def)
  have ok2: "mem_ok m2 fs"
    unfolding m2_def using ctook_ok [OF ok, folded m1_def]
    by (rule mem_ok_frame) (use t1 N in \<open>auto simp: pupd_def\<close>)
  have same: "pm m2 g = pm m g" if "g \<noteq> N" "g \<noteq> T" for g using that by (simp add: pm2)
  have fr2: "g \<in> tables m \<Longrightarrow> pm m2 g = pm m g" for g by (rule same) (use N(2) c(4) in auto)
  note st = same_tables [OF p pm2(2) fr2]
  have tb: "ptab m d \<in> tables m" using pd d by (auto simp: tables_def)
  have e2: "pm m2 (ptab m2 d) = pm m (ptab m d)" using fr2 [OF tb] st by simp
  have n2: "entries m2 d k = entries m d k" for k by (simp add: entries_def e2)
  have dt: "fr (pm m (ptab m d) j) \<notin> insert T (tables m \<union> set fs) \<and> fr (pm m (ptab m d) j) \<noteq> N"
    if "j < 1024" "present (pm m (ptab m d) j)" for j using data [OF that] by auto
  have A: "fr (of_nat (4096 * T)) = T" using c(2,3) by simp
  have TN: "T \<noteq> N" "T \<notin> tables m2" "T \<notin> set fs" using N(3) c st by auto
  have "inner m2 fs d T {} 0 m2 fs"
    using ok2 TN by (auto simp: inner_def entries_def table_copy_def pm2)
  then have I0: "\<exists>U gs. inner m2 fs d T U 0 m2 gs" by blast
  have "\<exists>m'. for_idx (clone_pte (of_nat (4096 * T)) d) [0..<1024] m2 = Inr m' \<and> (\<exists>U gs. inner m2 fs d T U 1024 m' gs)"
  proof (rule for_idx_rule [where I = "\<lambda>i m'. \<exists>U gs. inner m2 fs d T U i m' gs", OF _ I0])
    fix i m3
    assume i: "i < 1024" and "\<exists>U gs. inner m2 fs d T U i m3 gs"
    then obtain U gs where "inner m2 fs d T U i m3 gs" by blast
    from inner_step [OF this ok2 d i _ A TN(2,3)] pd st len n2 e2 dt
    show "\<exists>m'. clone_pte (of_nat (4096 * T)) d i m3 = Inr m' \<and> (\<exists>U gs. inner m2 fs d T U (Suc i) m' gs)" by fastforce
  qed
  then obtain m' U gs where run: "for_idx (clone_pte (of_nat (4096 * T)) d) [0..<1024] m2 = Inr m'"
    and I: "inner m2 fs d T U 1024 m' gs" by blast
  have ld: "vload (PDIR_ADDR + 4 * of_nat d) m = Inr (pde m d)" using dir_access(1) [OF paging_recursive [OF p]] d by simp
  have w: "vstore (RESV_PAGE + 4 * of_nat d) ?v (win Na m1) = Inr (win Na m2)"
    using win_store [OF t1(1)] t1(2) N d by (simp add: m2_def)
  have "clone_pde Na PDIR_ADDR d m = Inr m'"
    unfolding clone_pde_def ld bnd_Inr frame_calloc_ok [OF ok] prod.case m1_def [symmetric] temp_map_win [OF t1(1)] w
      temp_unmap_win [OF mem_okD(1) [OF ok2]] run ..
  moreover have "table_copy m d T (pm m') U 1024"
    using I table_copy_source [of m2 d m] e2 dt same unfolding inner_def by blast
  moreover have "pm m' N = (pm m N)(d := ?v)"
    using I N(3) TN(1) by (auto simp: inner_def pm2 pupd_def)
  ultimately show ?thesis using I n2 same pm2(2) unfolding inner_def by (intro exI [of _ m'] exI [of _ U] exI [of _ gs]) auto
qed

section \<open>Copying the directory\<close>

text \<open>The frames \<open>clone_pde\<close> takes for an entry, and the copy of an entry, made of the frames \<open>U\<close>.\<close>

definition frames_needed :: "memory \<Rightarrow> nat \<Rightarrow> nat" where
  "frames_needed m d = (if pde m d = 0 \<or> shared_idx d then 0 else Suc (entries m d 1024))"

definition dir_copy :: "memory \<Rightarrow> nat \<Rightarrow> nat \<Rightarrow> (nat \<Rightarrow> nat \<Rightarrow> u32) \<Rightarrow> nat set \<Rightarrow> bool" where
  "dir_copy m0 N d p U \<longleftrightarrow>
     (if pde m0 d = 0 \<or> shared_idx d then p N d = pde m0 d \<and> U = {}
      else present (p N d) \<and> p N d AND 0xFFF = pde m0 d AND 0xFFF \<and>
        (\<exists>V. U = insert (fr (p N d)) V \<and> fr (p N d) \<notin> V \<and> table_copy m0 d (fr (p N d)) p V 1024))"

lemma dir_copy_target:
  assumes "dir_copy m0 N d p U" and "p' N d = p N d" and "\<And>g. g \<in> U \<Longrightarrow> p' g = p g"
  shows "dir_copy m0 N d p' U"
  using assms table_copy_target unfolding dir_copy_def by (auto 0 4 split: if_splits)

definition outer :: "memory \<Rightarrow> nat list \<Rightarrow> nat \<Rightarrow> (nat \<Rightarrow> nat set) \<Rightarrow> nat \<Rightarrow> memory \<Rightarrow> nat list \<Rightarrow> bool" where
  "outer m0 fs0 N U d m gs \<longleftrightarrow> mem_ok m gs \<and> cr3 m = cr3 m0 \<and>
     (\<forall>g. g \<notin> insert N (\<Union>x<d. U x) \<longrightarrow> pm m g = pm m0 g) \<and>
     set fs0 = (\<Union>x<d. U x) \<union> set gs \<and> (\<Union>x<d. U x) \<inter> set gs = {} \<and> (\<forall>x<d. \<forall>y<d. x \<noteq> y \<longrightarrow> U x \<inter> U y = {}) \<and>
     length fs0 = length gs + (\<Sum>x<d. frames_needed m0 x) \<and>
     (\<forall>x<1024. if x < d then dir_copy m0 N x (pm m) (U x) else pm m N x = 0)"

lemma outer_extend:
  assumes O: "outer m0 fs0 N U d m gs" and N: "N \<notin> set fs0"
    and m': "mem_ok m' gs'" "cr3 m' = cr3 m" and W: "set gs = W \<union> set gs'" "W \<inter> set gs' = {}" "length gs = length gs' + frames_needed m0 d"
    and fr': "\<And>g. g \<notin> insert N W \<Longrightarrow> pm m' g = pm m g" and dir: "pm m' N = (pm m N)(d := v)" and dc: "dir_copy m0 N d (pm m') W"
  shows "outer m0 fs0 N (U(d := W)) (Suc d) m' gs'"
proof -
  let ?U = "U(d := W)"
  have o: "set fs0 = (\<Union>x<d. U x) \<union> set gs" "(\<Union>x<d. U x) \<inter> set gs = {}" "\<And>g. g \<notin> insert N (\<Union>x<d. U x) \<Longrightarrow> pm m g = pm m0 g"
      "\<And>x y. x < d \<Longrightarrow> y < d \<Longrightarrow> x \<noteq> y \<Longrightarrow> U x \<inter> U y = {}" "length fs0 = length gs + (\<Sum>x<d. frames_needed m0 x)" "cr3 m = cr3 m0"
    and e: "\<And>x. x < 1024 \<Longrightarrow> if x < d then dir_copy m0 N x (pm m) (U x) else pm m N x = 0"
    using O by (auto simp: outer_def)
  have un: "(\<Union>x<Suc d. ?U x) = (\<Union>x<d. U x) \<union> W" by (auto simp: lessThan_Suc)
  have eq: "(\<Union>x<Suc d. ?U x) \<union> set gs' = set fs0" "(\<Union>x<Suc d. ?U x) \<inter> set gs' = {}"
    unfolding un using o(1,2) W by auto
  have disj: "?U x \<inter> ?U y = {}" if "x < Suc d" "y < Suc d" "x \<noteq> y" for x y
    using that o(2,4) W(1) by (auto simp: less_Suc_eq)
  have ents: "if x < Suc d then dir_copy m0 N x (pm m') (?U x) else pm m' N x = 0" if "x < 1024" for x
  proof (cases "x < d")
    case True
    have "dir_copy m0 N x (pm m') (U x)"
    proof (rule dir_copy_target)
      show "dir_copy m0 N x (pm m) (U x)" using e [OF that] True by simp
      show "pm m' N x = pm m N x" using dir True by simp
      show "pm m' g = pm m g" if "g \<in> U x" for g
        by (rule fr') (use that True o(1,2) W(1) N in auto)
    qed
    then show ?thesis using True by simp
  next
    case False
    then show ?thesis using e [OF that] dc dir by (auto simp: less_Suc_eq)
  qed
  have "pm m' g = pm m0 g" if "g \<notin> insert N (\<Union>x<Suc d. ?U x)" for g
    using that fr' [of g] o(3) [of g] unfolding un by auto
  then show ?thesis
    unfolding outer_def using m' o(5,6) W(3) eq disj ents by (auto simp del: fun_upd_apply)
qed

lemma outer_step:
  assumes O: "outer m0 fs0 N U d m gs" and ok0: "mem_ok m0 fs0" and d: "d < 1023" and N: "fr Na = N" "N \<notin> tables m0" "N \<notin> set fs0"
    and len: "(\<Sum>x<1023. frames_needed m0 x) \<le> length fs0"
    and data: "\<And>x j. x < 1023 \<Longrightarrow> pde m0 x \<noteq> 0 \<Longrightarrow> \<not> shared_idx x \<Longrightarrow> j < 1024 \<Longrightarrow> present (pm m0 (ptab m0 x) j) \<Longrightarrow>
      fr (pm m0 (ptab m0 x) j) \<notin> insert N (tables m0 \<union> set fs0)"
  shows "\<exists>m' U' gs'. clone_dir_entry Na d m = Inr m' \<and> outer m0 fs0 N U' (Suc d) m' gs'"
proof -
  have ok: "mem_ok m gs" and cr: "cr3 m = cr3 m0" and fr0: "\<And>g. g \<notin> insert N (\<Union>x<d. U x) \<Longrightarrow> pm m g = pm m0 g"
    and fs: "set fs0 = (\<Union>x<d. U x) \<union> set gs" and l: "length fs0 = length gs + (\<Sum>x<d. frames_needed m0 x)" and z: "pm m N d = 0"
    using O d by (auto simp: outer_def)
  note p0 = mem_okD(1) [OF ok0] and p = mem_okD(1) [OF ok]
  have out: "g \<in> tables m0 \<Longrightarrow> pm m g = pm m0 g" for g
    by (rule fr0) (use mem_okD(4) [OF ok0] N(2) fs in auto)
  note st = same_tables [OF p0 cr out]
  have Nt: "fr Na \<notin> tables m" using N st by simp
  have d': "d < 1024" using d by simp
  have ld: "vload (PDIR_ADDR + 4 * of_nat d) m = Inr (pde m0 d)" using dir_access(1) [OF paging_recursive [OF p] d'] st by simp
  have pr: "present (pde m0 d) \<longleftrightarrow> pde m0 d \<noteq> 0" by (rule paging_present [OF p0 d'])
  consider "pde m0 d = 0" | "pde m0 d \<noteq> 0" "shared_idx d" | "pde m0 d \<noteq> 0" "\<not> shared_idx d" by blast
  then show ?thesis
  proof cases
    case 1
    then have "outer m0 fs0 N (U(d := {})) (Suc d) m gs"
      using z by (intro outer_extend [OF O N(3) ok, where v = 0]) (auto simp: frames_needed_def dir_copy_def)
    then show ?thesis using 1 ld by (auto simp: clone_dir_entry_def)
  next
    case 2
    define m' where "m' = m\<lparr>pm := pupd (pm m) N d (pde m0 d)\<rparr>"
    have "clone_dir_entry Na d m = Inr m'"
      using 2 ld pr link_pde_links [OF p Nt d'] st N(1) by (simp add: clone_dir_entry_def m'_def)
    moreover have "mem_ok m' gs"
      unfolding m'_def by (rule mem_ok_frame [OF ok]) (use Nt N fs in \<open>auto simp: pupd_def\<close>)
    then have "outer m0 fs0 N (U(d := {})) (Suc d) m' gs"
      using 2 by (intro outer_extend [OF O N(3), where v = "pde m0 d"]) (auto simp: frames_needed_def dir_copy_def m'_def pupd_def)
    ultimately show ?thesis by blast
  next
    case 3
    have "(\<Sum>x<Suc d. frames_needed m0 x) \<le> (\<Sum>x<1023. frames_needed m0 x)" using d by (intro sum_mono2) auto
    with len l 3 obtain T hs where gs: "gs = T # hs" and le: "entries m0 d 1024 \<le> length hs"
      by (cases gs) (auto simp: frames_needed_def)
    have "ptab m0 d \<in> tables m0" using 3 d' by (auto simp: tables_def)
    from out [OF this] have tb: "pm m (ptab m d) = pm m0 (ptab m0 d)" using st by simp
    have en: "entries m d k = entries m0 d k" for k by (simp add: entries_def tb)
    have dt: "fr (pm m (ptab m d) j) \<notin> insert N (tables m \<union> set (T # hs))" "fr (pm m0 (ptab m0 d) j) \<notin> insert N (\<Union>x<d. U x)"
      if "j < 1024" "present (pm m (ptab m d) j)" for j
      using data [OF d 3] that tb st fs gs by auto
    obtain m' V hs' where run: "clone_pde Na PDIR_ADDR d m = Inr m'" and m': "mem_ok m' hs'" "cr3 m' = cr3 m"
      and V: "set hs = V \<union> set hs'" "V \<inter> set hs' = {}" "length hs = length hs' + entries m0 d 1024"
      and fr': "\<And>g. g \<notin> insert N (insert T V) \<Longrightarrow> pm m' g = pm m g"
      and N': "pm m' N = (pm m N)(d := of_nat (4096 * T) OR (pde m0 d AND 0xFFF))" and tc: "table_copy m d T (pm m') V 1024"
      using clone_pde_copies [OF ok [unfolded gs] d _ N(1) _ _ _ dt(1)] 3 Nt N fs gs en le st by auto
    have T: "T \<notin> V" "T \<notin> set hs'" using mem_ok_Cons(5) [OF ok [unfolded gs]] V by auto
    have u: "unat (of_nat (4096 * T) :: u32) = 4096 * T" using mem_okD(2) [OF ok] mem_ok_Cons(3) [OF ok [unfolded gs]] by (simp add: gs)
    have "table_copy m0 d T (pm m') V 1024"
      using tc table_copy_source [of m d m0] tb dt(2) fr0 by simp
    then have "dir_copy m0 N d (pm m') (insert T V)"
      using 3 pr T(1) entry_bits [OF u, of "pde m0 d"] by (auto simp: dir_copy_def N')
    then have "outer m0 fs0 N (U(d := insert T V)) (Suc d) m' hs'"
      using 3 gs V T fr' N' m' by (intro outer_extend [OF O N(3)]) (auto simp: frames_needed_def)
    then show ?thesis using 3 ld pr run by (auto simp: clone_dir_entry_def)
  qed
qed

text \<open>The pages a process does not share belong to it: their frames are neither free nor page tables.\<close>

definition private_page :: "u32 \<Rightarrow> bool" where
  "private_page a \<longleftrightarrow> dir_idx a \<noteq> 1023 \<and> \<not> shared_idx (dir_idx a)"

definition owned :: "memory \<Rightarrow> nat list \<Rightarrow> bool" where
  "owned m fs \<longleftrightarrow> (\<forall>a. private_page a \<and> present (pte m a) \<longrightarrow> fr (pte m a) \<notin> tables m \<union> set fs)"

lemma owned_entry:
  assumes "owned m fs" and "x < 1023" and "pde m x \<noteq> 0" and "\<not> shared_idx x" and "j < 1024" and "present (pm m (ptab m x) j)"
  shows "fr (pm m (ptab m x) j) \<notin> tables m \<union> set fs"
proof -
  define a where "a = (of_nat x * 1024 * PAGE_SIZE + of_nat j * PAGE_SIZE :: u32)"
  have "dir_idx a = x" "tbl_idx a = j" using page_addr [of x j] assms(2,5) by (simp_all add: a_def)
  then have "private_page a" "pte m a = pm m (ptab m x) j" using assms by (auto simp: private_page_def pte_def)
  then show ?thesis using assms(1,6) by (auto simp: owned_def)
qed

lemma frames_needed_ctook:
  assumes "mem_ok m (N # fs)" and "x < 1023"
  shows "frames_needed (ctook m) x = frames_needed m x"
proof -
  note c = mem_ok_Cons [OF assms(1)]
  have "ptab (ctook m) = ptab m" "pde (ctook m) = pde m" using ctook_tables [OF mem_okD(1) [OF assms(1)]] c by simp_all
  moreover have "pde m x \<noteq> 0 \<Longrightarrow> ptab m x \<noteq> N" using c(4) assms(2) by (auto simp: tables_def)
  ultimately show ?thesis using c(2) by (simp add: frames_needed_def entries_def)
qed

lemma clone_directory_runs:
  assumes ok: "mem_ok m (N # fs)" and own: "owned m (N # fs)" and len: "(\<Sum>x<1023. frames_needed m x) \<le> length fs"
  shows "\<exists>m1 U gs. outer (ctook m) fs N U 1023 m1 gs \<and>
    clone_directory m = Inr (of_nat (4096 * N), m1\<lparr>pm := pupd (pm m1) N 1023 (of_nat (4096 * N) OR RW)\<rparr>)"
proof -
  note p = mem_okD(1) [OF ok] and c = mem_ok_Cons [OF ok]
  define m0 where "m0 = ctook m"
  have t0: "paging m0" "pde m0 = pde m" "ptab m0 = ptab m" "tables m0 = tables m" using ctook_tables [OF p] c by (simp_all add: m0_def)
  have pm0: "pm m0 = (pm m)(N := \<lambda>_. 0)" using c(2) by (simp add: m0_def)
  have ok0: "mem_ok m0 fs" using ctook_ok [OF ok] by (simp add: m0_def)
  have tb: "pm m0 (ptab m0 x) = pm m (ptab m x)" if "x < 1024" "pde m x \<noteq> 0" for x
    using that c(4) t0 by (auto simp: pm0 tables_def)
  have nd: "frames_needed m0 x = frames_needed m x" if "x < 1023" for x using frames_needed_ctook [OF ok that] by (simp add: m0_def)
  have Na: "fr (of_nat (4096 * N)) = N" using c(2,3) by simp
  have data: "fr (pm m0 (ptab m0 x) j) \<notin> insert N (tables m0 \<union> set fs)"
    if "x < 1023" "pde m0 x \<noteq> 0" "\<not> shared_idx x" "j < 1024" "present (pm m0 (ptab m0 x) j)" for x j
    using owned_entry [OF own] that t0 tb [of x] by auto
  have "outer m0 fs N (\<lambda>_. {}) 0 m0 fs" using ok0 by (auto simp: outer_def pm0)
  then have I0: "\<exists>U gs. outer m0 fs N U 0 m0 gs" by blast
  have "\<exists>m1. for_idx (clone_dir_entry (of_nat (4096 * N))) [0..<1023] m0 = Inr m1 \<and> (\<exists>U gs. outer m0 fs N U 1023 m1 gs)"
  proof (rule for_idx_rule [where I = "\<lambda>d m'. \<exists>U gs. outer m0 fs N U d m' gs", OF _ I0])
    fix d m1
    assume d: "d < 1023" and "\<exists>U gs. outer m0 fs N U d m1 gs"
    then obtain U gs where O: "outer m0 fs N U d m1 gs" by blast
    have "(\<Sum>x<1023. frames_needed m0 x) \<le> length fs" using len nd by simp
    from outer_step [OF O ok0 d Na _ c(5) this data] t0(4) c(4)
    show "\<exists>m'. clone_dir_entry (of_nat (4096 * N)) d m1 = Inr m' \<and> (\<exists>U gs. outer m0 fs N U (Suc d) m' gs)" by fastforce
  qed
  then obtain m1 U gs where run: "for_idx (clone_dir_entry (of_nat (4096 * N))) [0..<1023] m0 = Inr m1" and O: "outer m0 fs N U 1023 m1 gs"
    by blast
  have o: "g \<notin> insert N (\<Union>x<1023. U x) \<Longrightarrow> pm m1 g = pm m0 g" "set fs = (\<Union>x<1023. U x) \<union> set gs" for g
    using O by (simp_all add: outer_def)
  have out: "g \<in> tables m0 \<Longrightarrow> pm m1 g = pm m0 g" for g
    by (rule o(1)) (use o(2) t0(4) c(4,8) in auto)
  have p1: "paging m1" "N \<notin> tables m1" using O c(4) t0 same_tables [OF t0(1) _ out] mem_okD(1) by (auto simp: outer_def)
  have "recursively_map_page_directory (of_nat (4096 * N)) m1 = Inr (m1\<lparr>pm := pupd (pm m1) N 1023 (of_nat (4096 * N) OR RW)\<rparr>)"
  proof -
    let ?A = "of_nat (4096 * N) :: u32" and ?m = "m1\<lparr>pm := pupd (pm m1) N 1023 (of_nat (4096 * N) OR RW)\<rparr>"
    have "vstore (RESV_PAGE + 4 * 1023) (?A OR RW) (win ?A m1) = Inr (win ?A ?m)"
      using win_store [OF p1(1), of 1023 ?A] p1(2) unfolding Na by simp
    moreover have "unmap RESV_PAGE (win ?A ?m) = Inr ?m"
      using temp_unmap_win [OF paging_pupd(4) [OF p1]] by (simp add: temp_unmap_def)
    moreover have "pg_on m1" using p1(1) by (simp add: paging_def)
    ultimately show ?thesis
      using temp_map_win [OF p1(1), of ?A]
      by (simp add: recursively_map_page_directory_def temp_map_def RW_def [symmetric] del: of_nat_mult)
  qed
  then show ?thesis
    using O run by (auto simp: clone_directory_def frame_calloc_ok [OF ok] m0_def)
qed

section \<open>The copied address space\<close>

text \<open>\<open>c\<close> is a memory whose directory \<open>N\<close> is a copy of the directory of \<open>m\<close>, made of the frames \<open>F\<close>.\<close>

definition child :: "memory \<Rightarrow> nat set \<Rightarrow> nat \<Rightarrow> (nat \<Rightarrow> nat set) \<Rightarrow> memory \<Rightarrow> bool" where
  "child m F N U c \<longleftrightarrow> paging m \<and> pg_on c \<and> fr (cr3 c) = N \<and> (\<forall>x<1023. dir_copy m N x (pm c) (U x) \<and> U x \<subseteq> F) \<and>
     (\<forall>x<1023. \<forall>y<1023. x \<noteq> y \<longrightarrow> U x \<inter> U y = {}) \<and> present (pm c N 1023) \<and> fr (pm c N 1023) = N \<and>
     N \<notin> F \<and> N \<notin> tables m \<and> F \<inter> tables m = {} \<and> (\<forall>g\<in>tables m. pm c g = pm m g)"

lemma childD:
  assumes "child m F N U c"
  shows "paging m" "pg_on c" "fr (cr3 c) = N" "present (pde c 1023)" "ptab c 1023 = N" "N \<notin> F" "N \<notin> tables m" "F \<inter> tables m = {}"
    "\<And>x. pm c N x = pde c x" "\<And>g. g \<in> tables m \<Longrightarrow> pm c g = pm m g"
    "\<And>x y. x < 1023 \<Longrightarrow> y < 1023 \<Longrightarrow> x \<noteq> y \<Longrightarrow> U x \<inter> U y = {}" "\<And>x. x < 1023 \<Longrightarrow> U x \<subseteq> F"
  using assms by (auto simp: child_def pde_def ptab_def)

lemma dir_idx_1023: "dir_idx a \<noteq> 1023 \<longleftrightarrow> dir_idx a < 1023"
proof -
  have "dir_idx a < 1024" by simp
  then show ?thesis by linarith
qed

lemma child_shared:
  assumes "child m F N U c" and "x < 1023" and "pde m x = 0 \<or> shared_idx x"
  shows "pde c x = pde m x"
  using assms by (auto simp: child_def dir_copy_def pde_def)

lemma child_private:
  assumes "child m F N U c" and "x < 1023" and "pde m x \<noteq> 0" and "\<not> shared_idx x"
  shows "present (pde c x)" and "ptab c x \<in> U x"
    and "\<exists>V. V \<subseteq> U x \<and> ptab c x \<notin> V \<and> table_copy m x (ptab c x) (pm c) V 1024"
proof -
  have "dir_copy m N x (pm c) (U x)" using assms(1,2) by (simp add: child_def)
  then obtain V where "present (pde c x)" "U x = insert (ptab c x) V" "ptab c x \<notin> V" "table_copy m x (ptab c x) (pm c) V 1024"
    using assms(3,4) childD(9) [OF assms(1)] by (auto simp: dir_copy_def ptab_def)
  then show "present (pde c x)" and "ptab c x \<in> U x"
    and "\<exists>V. V \<subseteq> U x \<and> ptab c x \<notin> V \<and> table_copy m x (ptab c x) (pm c) V 1024" by auto
qed

lemma child_table:
  assumes "child m F N U c" and "x < 1024" and "pde c x \<noteq> 0"
  shows "x = 1023 \<and> ptab c x = N \<or> x < 1023 \<and> shared_idx x \<and> ptab c x = ptab m x \<and> pde m x \<noteq> 0 \<and> ptab m x \<in> tables m \<or>
    x < 1023 \<and> \<not> shared_idx x \<and> pde m x \<noteq> 0 \<and> ptab c x \<in> U x"
proof (cases "x = 1023")
  case False
  then have x: "x < 1023" using assms(2) by simp
  then show ?thesis
    using child_shared [OF assms(1) x] child_private [OF assms(1) x] assms(2,3) by (cases "shared_idx x") (auto simp: ptab_def tables_def)
qed (use childD(5) [OF assms(1)] in simp)

lemma shared_1022: "\<not> shared_idx 1022"
  by (simp add: shared_idx_def USER_STACK_LOW_def USER_STACK_HI_def USER_CODE_START_ADDR_def PAGE_SIZE_def HEAP_START_def HEAP_END_def)

lemma child_tables:
  assumes "child m F N U c"
  shows "tables c \<subseteq> insert N (tables m \<union> F)"
  using child_table [OF assms] childD(12) [OF assms] unfolding tables_def [of c] by fastforce

lemma child_paging:
  assumes "child m F N U c"
  shows "paging c"
proof -
  note D = childD [OF assms]
  have p22: "pde m 1022 \<noteq> 0" "pm m (ptab m 1022) 1022 = 0" using D(1) by (auto simp: paging_def)
  note c22 = child_private [OF assms _ p22(1) shared_1022]
  have all: "pde c x = 0 \<or> present (pde c x)" if "x < 1024" for x
  proof (cases "x = 1023 \<or> pde m x \<noteq> 0 \<and> \<not> shared_idx x")
    case True
    then show ?thesis using child_private(1) [OF assms, of x] D(4) that by (cases "x = 1023") auto
  next
    case False
    then have "pde c x = pde m x" using child_shared [OF assms, of x] that by auto
    then show ?thesis using D(1) that by (auto simp: paging_def)
  qed
  have U: "x < 1023 \<Longrightarrow> y < 1023 \<Longrightarrow> g \<in> U x \<Longrightarrow> g \<in> U y \<Longrightarrow> x = y" "x < 1023 \<Longrightarrow> g \<in> U x \<Longrightarrow> g \<notin> tables m \<and> g \<noteq> N" for x y g
    using D(6,8) D(11) [of x y] D(12) [of x] by blast+
  have M: "ptab m x = ptab m y \<Longrightarrow> x < 1023 \<Longrightarrow> y < 1023 \<Longrightarrow> pde m x \<noteq> 0 \<Longrightarrow> pde m y \<noteq> 0 \<Longrightarrow> x = y" for x y
    using D(1) by (auto simp: paging_def dest: inj_onD)
  have "x = y" if "x < 1024" "y < 1024" "pde c x \<noteq> 0" "pde c y \<noteq> 0" "ptab c x = ptab c y" for x y
    using child_table [OF assms that(1,3)] child_table [OF assms that(2,4)] that(5) U M D(7) by metis
  then have "inj_on (ptab c) {d. d < 1024 \<and> pde c d \<noteq> 0}" by (auto intro!: inj_onI)
  moreover have "pm c (ptab c 1022) 1022 = 0" using c22(3) p22(2) by (auto simp: table_copy_def)
  moreover have "pde c 1023 \<noteq> 0" "pde c 1022 \<noteq> 0" using D(4) c22(1) by auto
  ultimately show ?thesis using D(2,3,5) all by (simp add: paging_def)
qed

lemma child_pte_shared:
  assumes "child m F N U c" and "dir_idx a \<noteq> 1023" and "shared_idx (dir_idx a)"
  shows "pte c a = pte m a"
proof -
  have x: "dir_idx a < 1023" using assms(2) by (simp add: dir_idx_1023)
  have "pde c (dir_idx a) = pde m (dir_idx a)" using child_shared [OF assms(1) x] assms(3) by simp
  moreover have "pde m (dir_idx a) \<noteq> 0 \<Longrightarrow> ptab m (dir_idx a) \<in> tables m" by (auto simp: tables_def)
  ultimately show ?thesis using childD(10) [OF assms(1)] by (auto simp: pte_def ptab_def)
qed

lemma child_pte_private:
  assumes "child m F N U c" and "private_page a"
  shows "if present (pte m a)
    then present (pte c a) \<and> fr (pte c a) \<in> U (dir_idx a) \<and> pm c (fr (pte c a)) = pm m (fr (pte m a))
    else \<not> present (pte c a)"
proof -
  have x: "dir_idx a < 1023" "\<not> shared_idx (dir_idx a)" using assms(2) by (auto simp: private_page_def dir_idx_1023)
  show ?thesis
  proof (cases "pde m (dir_idx a) = 0")
    case True
    then show ?thesis using child_shared [OF assms(1) x(1)] by (simp add: pte_def)
  next
    case False
    from child_private [OF assms(1) x(1) False x(2)] obtain V where V: "present (pde c (dir_idx a))" "V \<subseteq> U (dir_idx a)"
      "table_copy m (dir_idx a) (ptab c (dir_idx a)) (pm c) V 1024" by blast
    then have "pde c (dir_idx a) \<noteq> 0" by auto
    then show ?thesis using V False unfolding table_copy_def by (auto simp: pte_def split: if_splits)
  qed
qed

lemma child_pte_inj:
  assumes "child m F N U c" and "private_page a" and "private_page b" and "present (pte c a)" and "present (pte c b)"
    and "fr (pte c a) = fr (pte c b)"
  shows "same_page a b"
proof -
  have P: "present (pte m a)" "present (pte m b)"
    using child_pte_private [OF assms(1,2)] child_pte_private [OF assms(1,3)] assms(4,5) by (auto split: if_splits)
  then have U: "fr (pte c a) \<in> U (dir_idx a)" "fr (pte c a) \<in> U (dir_idx b)"
    using child_pte_private [OF assms(1,2)] child_pte_private [OF assms(1,3)] assms(6) by auto
  have x: "dir_idx a < 1023" "dir_idx b < 1023" "\<not> shared_idx (dir_idx a)"
    using assms(2,3) by (auto simp: private_page_def dir_idx_1023)
  have d: "dir_idx b = dir_idx a" using childD(11) [OF assms(1) x(1,2)] U by (metis disjoint_iff)
  have z: "pde m (dir_idx a) \<noteq> 0" "pde c (dir_idx a) \<noteq> 0" using P(1) assms(4) by (auto simp: pte_def split: if_splits)
  from child_private(3) [OF assms(1) x(1) z(1) x(3)] obtain V where "table_copy m (dir_idx a) (ptab c (dir_idx a)) (pm c) V 1024" by blast
  then have "inj_on (\<lambda>j. fr (pm c (ptab c (dir_idx a)) j)) {j. j < 1024 \<and> present (pm m (ptab m (dir_idx a)) j)}"
    unfolding table_copy_def by blast
  then have "tbl_idx a = tbl_idx b"
    by (rule inj_onD) (use P z assms(6) d in \<open>auto simp: pte_def\<close>)
  with d show ?thesis by (simp add: same_page_def)
qed

lemma outer_child:
  assumes ok: "mem_ok m (N # fs)" and own: "owned m (N # fs)" and O: "outer (ctook m) fs N U 1023 m1 gs"
    and m': "m' = m1\<lparr>pm := pupd (pm m1) N 1023 (of_nat (4096 * N) OR RW)\<rparr>"
  shows "child m (set fs - set gs) N U (m'\<lparr>cr3 := of_nat (4096 * N)\<rparr>)"
    and "mem_ok m' gs" and "set gs \<subseteq> set fs" and "\<And>g. g \<notin> set (N # fs) \<Longrightarrow> pm m' g = pm m g" and "cr3 m' = cr3 m"
proof -
  note p = mem_okD(1) [OF ok] and c = mem_ok_Cons [OF ok]
  have t0: "pde (ctook m) = pde m" "ptab (ctook m) = ptab m" "tables (ctook m) = tables m" "paging (ctook m)"
    using ctook_tables [OF p] c by simp_all
  have pm0: "pm (ctook m) = (pm m)(N := \<lambda>_. 0)" "cr3 (ctook m) = cr3 m" using c(2) by simp_all
  have o: "mem_ok m1 gs" "cr3 m1 = cr3 m" "\<And>g. g \<notin> insert N (\<Union>x<1023. U x) \<Longrightarrow> pm m1 g = pm (ctook m) g"
      "set fs = (\<Union>x<1023. U x) \<union> set gs" "(\<Union>x<1023. U x) \<inter> set gs = {}" "\<And>x y. x < 1023 \<Longrightarrow> y < 1023 \<Longrightarrow> x \<noteq> y \<Longrightarrow> U x \<inter> U y = {}"
    and e: "\<And>x. x < 1023 \<Longrightarrow> dir_copy (ctook m) N x (pm m1) (U x)"
    using O pm0(2) by (simp_all add: outer_def)
  have pm': "pm m' = pupd (pm m1) N 1023 (of_nat (4096 * N) OR RW)" by (simp add: m')
  show cr: "cr3 m' = cr3 m" using o(2) by (simp add: m')
  show gs: "set gs \<subseteq> set fs" using o(4) by auto
  show frame: "pm m' g = pm m g" if "g \<notin> set (N # fs)" for g using that o(3) [of g] o(4) by (auto simp: pm' pm0 simp del: ctook_simps)
  have ft: "pm m' g = pm m g" if "g \<in> tables m" for g by (rule frame) (use that mem_okD(4) [OF ok] in auto)
  have "tables m1 = tables m"
    by (rule same_tables(3) [OF p o(2)]) (use ft pm' c(4) in \<open>metis pupd_other(1)\<close>)
  then show ok': "mem_ok m' gs"
    unfolding m' by (intro mem_ok_frame [OF o(1)]) (use c(4,5) gs in \<open>auto simp: pupd_def\<close>)
  have tb: "pm (ctook m) (ptab m x) = pm m (ptab m x)" if "x < 1023" "pde m x \<noteq> 0" for x
    using that c(4) by (auto simp: pm0 tables_def simp del: ctook_simps)
  have dc: "dir_copy m N x (pm m') (U x)" if x: "x < 1023" for x
  proof -
    have "table_copy (ctook m) x T q V 1024 = table_copy m x T q V 1024" if "pde m x \<noteq> 0" "\<not> shared_idx x" for T q V
      using table_copy_source [of "ctook m" x m] tb [OF x that(1)] t0 owned_entry [OF own x that] by (simp add: pm0 del: ctook_simps)
    then have "dir_copy m N x (pm m1) (U x)" using e [OF x] t0 by (auto simp: dir_copy_def)
    then show ?thesis
      by (rule dir_copy_target) (use x o(4) c(5) in \<open>auto simp: pm' pupd_def\<close>)
  qed
  have "fr (of_nat (4096 * N)) = N" using c(2,3) by simp
  moreover have "pg_on m'" using ok' by (simp add: mem_ok_def paging_def)
  ultimately show "child m (set fs - set gs) N U (m'\<lparr>cr3 := of_nat (4096 * N)\<rparr>)"
    using p dc o(4-6) c(4,5,8) ft by (auto simp: child_def pm' simp del: of_nat_mult)
qed

text \<open>
  C22. Forking an address space. When there are as many free frames as the copy needs, \<open>clone_directory\<close>
  returns a directory that can be switched to, with these properties: the caller's own address space
  and the contents of every frame that was not free are unchanged; the kernel's part and the kernel
  heap translate to the same frames in both; every other page is mapped in the new address space
  exactly when it is in the old, to a frame taken from the free ones with the same contents, and no
  two of these pages share a frame. So a write to such a page in one address space is never seen in
  the other. The number of frames taken is exact, and the page tables of both are well formed.
\<close>

theorem fork_isolates:
  assumes "mem_ok m (N # fs)" and "owned m (N # fs)" and "(\<Sum>x<1023. frames_needed m x) \<le> length fs"
  shows "\<exists>dir m' gs. clone_directory m = Inr (dir, m') \<and> mem_ok m' gs \<and> mem_ok (m'\<lparr>cr3 := dir\<rparr>) gs \<and>
    length fs = length gs + (\<Sum>x<1023. frames_needed m x) \<and>
    (\<forall>a. translate a m' = translate a m) \<and> (\<forall>g. g \<notin> set (N # fs) \<longrightarrow> pm m' g = pm m g) \<and>
    (\<forall>a. dir_idx a \<noteq> 1023 \<and> shared_idx (dir_idx a) \<longrightarrow> translate a (m'\<lparr>cr3 := dir\<rparr>) = translate a m) \<and>
    (\<forall>a. private_page a \<longrightarrow> (case translate a m of
        Inl _ \<Rightarrow> translate a (m'\<lparr>cr3 := dir\<rparr>) = Inl Fault
      | Inr g \<Rightarrow> \<exists>g' \<in> set fs - set gs. translate a (m'\<lparr>cr3 := dir\<rparr>) = Inr g' \<and> pm m' g' = pm m g)) \<and>
    (\<forall>a b g. private_page a \<and> private_page b \<and> translate a (m'\<lparr>cr3 := dir\<rparr>) = Inr g \<and> translate b (m'\<lparr>cr3 := dir\<rparr>) = Inr g \<longrightarrow> same_page a b)"
proof -
  obtain m1 U gs where O: "outer (ctook m) fs N U 1023 m1 gs"
    and run: "clone_directory m = Inr (of_nat (4096 * N), m1\<lparr>pm := pupd (pm m1) N 1023 (of_nat (4096 * N) OR RW)\<rparr>)"
    using clone_directory_runs [OF assms] by blast
  define m' c where "m' = m1\<lparr>pm := pupd (pm m1) N 1023 (of_nat (4096 * N) OR RW)\<rparr>" and "c = m'\<lparr>cr3 := of_nat (4096 * N)\<rparr>"
  note r = outer_child [OF assms(1,2) O m'_def, folded c_def]
  note p = mem_okD(1) [OF assms(1)] and p' = mem_okD(1) [OF r(2)] and pc = child_paging [OF r(1)]
  have ft: "pm m' g = pm m g" if "g \<in> tables m" for g by (rule r(4)) (use that mem_okD(4) [OF assms(1)] in auto)
  have "pte m' = pte m"
    using same_tables [OF p r(5) ft] ft by (auto simp: fun_eq_iff pte_def tables_def)
  then have t': "translate a m' = translate a m" for a by (simp add: translate_pte [OF p] translate_pte [OF p'])
  have okc: "mem_ok c gs"
    using mem_okD [OF r(2)] pc child_tables [OF r(1)] mem_ok_Cons(5,8) [OF assms(1)] r(3) by (auto simp: mem_ok_def c_def)
  have pmc: "pm c = pm m'" by (simp add: c_def)
  have len: "length fs = length gs + (\<Sum>x<1023. frames_needed m x)"
    using O frames_needed_ctook [OF assms(1)] by (simp add: outer_def)
  have sh: "translate a c = translate a m" if "dir_idx a \<noteq> 1023" "shared_idx (dir_idx a)" for a
    using child_pte_shared [OF r(1) that] by (simp add: translate_pte [OF p] translate_pte [OF pc])
  have pr: "case translate a m of Inl _ \<Rightarrow> translate a c = Inl Fault
      | Inr g \<Rightarrow> \<exists>g' \<in> set fs - set gs. translate a c = Inr g' \<and> pm m' g' = pm m g" if "private_page a" for a
  proof -
    have "dir_idx a < 1023" using that by (simp add: private_page_def dir_idx_1023)
    then show ?thesis
      using child_pte_private [OF r(1) that] childD(12) [OF r(1), of "dir_idx a"]
      by (auto simp: translate_pte [OF p] translate_pte [OF pc] pmc)
  qed
  have inj: "same_page a b" if "private_page a" "private_page b" "translate a c = Inr g" "translate b c = Inr g" for a b g
    using child_pte_inj [OF r(1) that(1,2)] that(3,4) by (auto simp: translate_pte [OF pc] split: if_splits)
  show ?thesis
    unfolding run m'_def [symmetric] c_def [symmetric]
    by (intro exI [of _ "of_nat (4096 * N)"] exI [of _ m'] exI [of _ gs] conjI allI impI)
      (use r(2,4) okc len t' sh pr inj c_def in \<open>auto simp del: of_nat_mult\<close>)
qed

lemma sample_owned: "owned sample_mem [5, 6, 7, 8, 9, 10, 11, 12, 13, 14, 15, 16]"
  by (auto simp: owned_def private_page_def sample_pte sample_tables fr_def split: if_splits)

lemma sample_entries: "entries sample_mem 64 1024 = 1" "entries sample_mem 1022 1024 = 0"
proof -
  have "{j. j < 1024 \<and> present (pm sample_mem 3 ([0..<1024] ! j))} = {0}"
    by (auto simp: sample_mem_def present_def P_PRESENT_def split: if_splits)
  then show "entries sample_mem 64 1024 = 1" by (simp add: entries_def sample_ptab length_filter_conv_card)
  have "pm sample_mem 2 j = 0" for j by (simp add: sample_mem_def)
  then show "entries sample_mem 1022 1024 = 0" by (simp add: entries_def sample_ptab)
qed

lemma sample_frames_needed: "(\<Sum>x<1023. frames_needed sample_mem x) = 3"
proof -
  have s: "\<not> shared_idx 64" "\<not> shared_idx 1022"
    by (simp_all add: shared_idx_def USER_STACK_LOW_def USER_STACK_HI_def USER_CODE_START_ADDR_def PAGE_SIZE_def HEAP_START_def HEAP_END_def)
  have "(\<Sum>x<1023. frames_needed sample_mem x) = (\<Sum>x\<in>{64, 1022}. frames_needed sample_mem x)"
    by (rule sum.mono_neutral_right) (auto simp: frames_needed_def sample_pde split: if_splits)
  also have "\<dots> = 3" using s by (simp add: frames_needed_def sample_pde sample_entries)
  finally show ?thesis .
qed

theorem fork_isolates_witness:
  "\<exists>dir m' g. clone_directory sample_mem = Inr (dir, m') \<and> translate 0x10000000 sample_mem = Inr 4 \<and>
     translate 0x10000000 (m'\<lparr>cr3 := dir\<rparr>) = Inr g \<and> g \<in> {6..16} \<and> pm m' g 3 = 80"
proof -
  have p: "private_page 0x10000000"
    by (simp add: private_page_def dir_idx_def shared_idx_def USER_STACK_LOW_def USER_STACK_HI_def USER_CODE_START_ADDR_def
        PAGE_SIZE_def HEAP_START_def HEAP_END_def)
  have t: "translate 0x10000000 sample_mem = Inr 4"
    using translate_pte [OF mem_okD(1) [OF sample_ok]]
    by (simp add: sample_pte dir_idx_def tbl_idx_def present_def P_PRESENT_def fr_def)
  have "(\<Sum>x<1023. frames_needed sample_mem x) \<le> length [6, 7, 8, 9, 10, 11, 12, 13, 14, 15, 16::nat]" by (simp add: sample_frames_needed)
  from fork_isolates [OF sample_ok sample_owned this] show ?thesis
  proof (elim exE conjE)
    fix dir m' gs
    assume c: "clone_directory sample_mem = Inr (dir, m')"
      and pr: "\<forall>a. private_page a \<longrightarrow> (case translate a sample_mem of Inl _ \<Rightarrow> translate a (m'\<lparr>cr3 := dir\<rparr>) = Inl Fault
        | Inr g \<Rightarrow> \<exists>g' \<in> set [6, 7, 8, 9, 10, 11, 12, 13, 14, 15, 16] - set gs. translate a (m'\<lparr>cr3 := dir\<rparr>) = Inr g' \<and> pm m' g' = pm sample_mem g)"
    from pr [rule_format, OF p] t obtain g where g: "g \<in> set [6, 7, 8, 9, 10, 11, 12, 13, 14, 15, 16]"
      "translate 0x10000000 (m'\<lparr>cr3 := dir\<rparr>) = Inr g" "pm m' g = pm sample_mem 4" by auto
    have "pm m' g 3 = 80" unfolding g(3) by (simp add: sample_mem_def)
    then show ?thesis using c t g(1,2) by (intro exI [of _ dir] exI [of _ m'] exI [of _ g]) auto
  qed
qed

end
