(* ===== verification/Sbrk.thy ===== *)
theory Sbrk
  imports Mem
begin

text \<open>
  Moving the break of a heap (\<open>_sbrk\<close> of \<open>mem.c\<close>): what growing and shrinking do to the page tables and
  the free frames.
\<close>

section \<open>Growing\<close>

lemma same_page_fr: "same_page a b \<longleftrightarrow> fr a = fr b"
proof -
  have e: "fr x = dir_idx x * 1024 + tbl_idx x" for x by (simp add: fr_def dir_idx_def tbl_idx_def)
  show ?thesis unfolding same_page_def
  proof
    assume "dir_idx a = dir_idx b \<and> tbl_idx a = tbl_idx b"
    then show "fr a = fr b" by (simp only: e)
  next
    assume "fr a = fr b"
    then show "dir_idx a = dir_idx b \<and> tbl_idx a = tbl_idx b" by (simp add: dir_idx_def tbl_idx_def fr_def)
  qed
qed

lemma fr_of_page: "P < 1048576 \<Longrightarrow> fr (of_nat (4096 * P)) = P"
  using unat_of_nat_u32 [of "4096 * P"] by (simp add: fr_def)

lemma pte_cong: "fr a = fr b \<Longrightarrow> pte m a = pte m b"
  using same_page_fr [of a b] by (simp add: same_page_def pte_def)

lemma pte_took:
  assumes "mem_ok m (f # fs)"
  shows "pte (took m) = pte m"
proof -
  note c = mem_ok_Cons [OF assms]
  have "ptab (took m) = ptab m" "pde (took m) = pde m" using took_tables [OF mem_okD(1) [OF assms]] c by simp_all
  moreover have "pde m (dir_idx a) \<noteq> 0 \<Longrightarrow> ptab m (dir_idx a) \<noteq> f" for a using c(4) by (auto simp: tables_def)
  ultimately show ?thesis using c(2) by (simp add: fun_eq_iff pte_def)
qed

text \<open>
  What growing by the pages from \<open>P\<close> up to \<open>Q\<close> promises: these pages are mapped to frames taken from the
  free ones, no two to the same, every other page and every frame in use is as before.
\<close>

definition grown :: "nat \<Rightarrow> nat \<Rightarrow> memory \<Rightarrow> nat list \<Rightarrow> memory \<Rightarrow> nat list \<Rightarrow> bool" where
  "grown P Q m fs m' gs \<longleftrightarrow> mem_ok m' gs \<and> cr3 m' = cr3 m \<and> set gs \<subseteq> set fs \<and> length fs \<le> length gs + 2 * (Q - P) \<and>
     tables m \<subseteq> tables m' \<and> tables m' \<subseteq> tables m \<union> (set fs - set gs) \<and>
     (\<forall>a. dir_idx a \<noteq> 1023 \<and> \<not> (P \<le> fr a \<and> fr a < Q) \<longrightarrow> pte m' a = pte m a) \<and>
     (\<forall>a. P \<le> fr a \<and> fr a < Q \<longrightarrow> present (pte m' a) \<and> fr (pte m' a) \<in> set fs - set gs - tables m') \<and>
     (\<forall>a b. P \<le> fr a \<and> fr a < Q \<and> P \<le> fr b \<and> fr b < Q \<and> fr (pte m' a) = fr (pte m' b) \<longrightarrow> fr a = fr b) \<and>
     (\<forall>g. g \<notin> set fs \<union> tables m \<longrightarrow> pm m' g = pm m g)"

definition heap_flags :: "heap \<Rightarrow> u16" where
  "heap_flags h = P_PRESENT OR P_READ_WRITE OR (if supervisor h then 0 else P_USER)"

lemma heap_flags_ok: "present (ucast (heap_flags h))" "unat (heap_flags h) < 4096"
  by (auto simp: heap_flags_def P_PRESENT_def P_READ_WRITE_def P_USER_def present_def)

lemma grow_one:
  assumes "mem_ok m (f # fs)" and "fs \<noteq> []" and "P < 1046528"
  shows "\<exists>m' gs. map_page (of_nat (4096 * P)) (of_nat (4096 * f)) (heap_flags h) (took m) = Inr m' \<and> grown P (Suc P) m (f # fs) m' gs"
proof -
  let ?e = "of_nat (4096 * P) :: u32"
  note c = mem_ok_Cons [OF assms(1)] and k = took_tables [OF mem_okD(1) [OF assms(1)]] and t = took_ok [OF assms(1)]
  have e: "fr ?e = P" using fr_of_page assms(3) by simp
  then have "dir_idx ?e < 1022" using assms(3) by (simp add: dir_idx_def fr_def)
  then have "ordinary ?e" by (simp add: ordinary_def)
  from map_page_ok [OF t this heap_flags_ok(1) [of h] heap_flags_ok(2) [of h], where pa = "of_nat (4096 * f)"] assms(2)
  obtain m' gs where m': "map_page ?e (of_nat (4096 * f)) (heap_flags h) (took m) = Inr m'" "mem_ok m' gs"
    "entry_set ?e (of_nat (4096 * f) OR ucast (heap_flags h)) (took m) m'"
    and gs: "gs = tl fs \<and> tables m' = insert (hd fs) (tables m) \<or> gs = fs \<and> tables m' = tables m"
    using k c by (cases "pde m (dir_idx ?e) = 0") auto
  have fr': "fr (of_nat (4096 * f) OR ucast (heap_flags h)) = f" using fr_or_flags [OF heap_flags_ok(2)] c(2,3) by simp
  have pe: "pte m' a = of_nat (4096 * f) OR ucast (heap_flags h)" if "fr a = P" for a
  proof -
    have "pte m' a = pte m' ?e" by (rule pte_cong) (simp only: that e)
    also have "\<dots> = of_nat (4096 * f) OR ucast (heap_flags h)" by (rule m'(3) [unfolded entry_set_def, THEN conjunct1])
    finally show ?thesis .
  qed
  have hd: "hd fs \<in> set fs" "set (tl fs) \<subseteq> set fs" "hd fs \<notin> set (tl fs)" using assms(2) c(7) by (auto simp: neq_Nil_conv)
  have fin: "f \<notin> set gs" "f \<notin> tables m'" using gs hd c by auto
  have "grown P (Suc P) m (f # fs) m' gs"
    unfolding grown_def
  proof (intro conjI allI impI)
    fix a
    assume a: "dir_idx a \<noteq> 1023 \<and> \<not> (P \<le> fr a \<and> fr a < Suc P)"
    then have "\<not> same_page a ?e" using e by (auto simp: same_page_fr)
    then show "pte m' a = pte m a" using m'(3) a pte_took [OF assms(1)] by (simp add: entry_set_def)
  next
    fix a
    assume "P \<le> fr a \<and> fr a < Suc P"
    then have "fr a = P" by simp
    from pe [OF this] show "present (pte m' a)" "fr (pte m' a) \<in> set (f # fs) - set gs - tables m'"
      using fr' fin heap_flags_ok(1) by auto
  next
    fix g
    assume g: "g \<notin> set (f # fs) \<union> tables m"
    then have "g \<notin> tables m'" using gs hd by auto
    then have "pm m' g = pm (took m) g" using m'(3) unfolding entry_set_def by blast
    then show "pm m' g = pm m g" using g c(2) by (auto simp: pupd_def)
  qed (use m' gs hd c k in \<open>auto simp: entry_set_def Suc_diff_Suc length_tl split: if_splits\<close>)
  with m'(1) show ?thesis by blast
qed

lemma grown_conjuncts:
  assumes "grown P Q m fs m1 gs"
  shows "mem_ok m1 gs" and "cr3 m1 = cr3 m" and "set gs \<subseteq> set fs" and "length fs \<le> length gs + 2 * (Q - P)"
    and "tables m \<subseteq> tables m1" and "tables m1 \<subseteq> tables m \<union> (set fs - set gs)"
    and "\<forall>a. dir_idx a \<noteq> 1023 \<and> \<not> (P \<le> fr a \<and> fr a < Q) \<longrightarrow> pte m1 a = pte m a"
    and "\<forall>a. P \<le> fr a \<and> fr a < Q \<longrightarrow> present (pte m1 a) \<and> fr (pte m1 a) \<in> set fs - set gs - tables m1"
    and "\<forall>a b. P \<le> fr a \<and> fr a < Q \<and> P \<le> fr b \<and> fr b < Q \<and> fr (pte m1 a) = fr (pte m1 b) \<longrightarrow> fr a = fr b"
    and "\<forall>g. g \<notin> set fs \<union> tables m \<longrightarrow> pm m1 g = pm m g"
  using assms unfolding grown_def by - (elim conjE, assumption)+

lemmas grownD = grown_conjuncts(2-6) grown_conjuncts(7-8) [rule_format, OF _ conjI] grown_conjuncts(9,10) [rule_format] grown_conjuncts(1)

lemma grown_trans:
  assumes a: "grown P Q m fs m1 gs" and b: "grown Q R m1 gs m2 hs" and "P \<le> Q" "Q \<le> R" "R \<le> 1046528" and "set fs \<inter> tables m = {}"
  shows "grown P R m fs m2 hs"
proof -
  note A = grownD [OF a] and B = grownD [OF b]
  have dir: "fr x < R \<Longrightarrow> dir_idx x \<noteq> 1023" for x using assms(5) by (simp add: dir_idx_def fr_def)
  have one: "present (pte m2 x) \<and> fr (pte m2 x) \<in> set fs - set hs - tables m2" if "P \<le> fr x" "fr x < R" for x
  proof (cases "fr x < Q")
    case True
    then have "pte m2 x = pte m1 x" using B(6) dir that by simp
    then show ?thesis using A(7) [OF that(1) True] A(5) B(2,5) by auto
  next
    case False
    then show ?thesis using B(7) [of x] that A(2) by auto
  qed
  have two: "fr x = fr y" if x: "P \<le> fr x" "fr x < R" and y: "P \<le> fr y" "fr y < R" and e: "fr (pte m2 x) = fr (pte m2 y)" for x y
  proof -
    have low: "fr z < Q \<Longrightarrow> P \<le> fr z \<Longrightarrow> pte m2 z = pte m1 z \<and> fr (pte m1 z) \<notin> set gs" for z
      using A(7) B(6) dir assms(4) by auto
    have high: "Q \<le> fr z \<Longrightarrow> fr z < R \<Longrightarrow> fr (pte m2 z) \<in> set gs" for z using B(7) by auto
    show ?thesis
      using A(8) [of x y] B(8) [of x y] x y low [OF _ x(1)] low [OF _ y(1)] high [OF _ x(2)] high [OF _ y(2)] e
      by (metis not_le)
  qed
  show ?thesis
    unfolding grown_def
  proof (intro conjI allI impI)
    show "pte m2 x = pte m x" if "dir_idx x \<noteq> 1023 \<and> \<not> (P \<le> fr x \<and> fr x < R)" for x
      using that A(6) B(6) assms(3,4) by (metis leD le_trans less_le_trans not_le)
    show "pm m2 g = pm m g" if "g \<notin> set fs \<union> tables m" for g
      using that A(2,5,9) B(9) by (metis Diff_iff UnE UnI1 UnI2 subsetD)
    show "mem_ok m2 hs" by (rule B(10))
    show "cr3 m2 = cr3 m" using A(1) B(1) by simp
    show "set hs \<subseteq> set fs" "tables m \<subseteq> tables m2" "tables m2 \<subseteq> tables m \<union> (set fs - set hs)"
      using A(2,4,5) B(2,4,5) by blast+
    show "length fs \<le> length hs + 2 * (R - P)" using A(3) B(3) assms(3,4) by simp
  qed (use one two in blast)+
qed

lemma sbrk_grow_ok:
  assumes "mem_ok m fs" and "end_addr h = of_nat (4096 * P)" and "2 * n \<le> length fs"
    and "4096 * (P + n) < unat (max_addr h)" and "P + n < 1046528"
  shows "\<exists>m' gs. sbrk_grow n (h, m) = Inr (True, h\<lparr>end_addr := of_nat (4096 * (P + n))\<rparr>, m') \<and> grown P (P + n) m fs m' gs"
  using assms
proof (induction n arbitrary: m fs h P)
  case 0
  then show ?case by (auto simp: grown_def)
next
  case (Suc n)
  from Suc.prems(3) obtain f fs' where fs: "fs = f # fs'" "fs' \<noteq> []" by (cases fs; cases "tl fs") auto
  note c = mem_ok_Cons [OF Suc.prems(1) [unfolded fs(1)]]
  obtain m1 gs where m1: "map_page (end_addr h) (of_nat (4096 * f)) (heap_flags h) (took m) = Inr m1" and g: "grown P (Suc P) m fs m1 gs"
    using grow_one [OF Suc.prems(1) [unfolded fs(1)] fs(2), of P h] Suc.prems(2,5) fs(1) by auto
  define h1 where "h1 = h\<lparr>end_addr := of_nat (4096 * Suc P)\<rparr>"
  have h1: "h\<lparr>end_addr := end_addr h + PAGE_SIZE\<rparr> = h1" "end_addr h1 = of_nat (4096 * Suc P)" "max_addr h1 = max_addr h"
    using Suc.prems(2) by (simp_all add: h1_def PAGE_SIZE_def algebra_simps)
  have "unat (end_addr h1) = 4096 * Suc P" unfolding h1(2) using Suc.prems(5) by (intro unat_of_nat_u32) simp
  then have lt: "\<not> max_addr h1 \<le> end_addr h1" using Suc.prems(4) h1(3) by (simp add: word_le_nat_alt)
  have ok1: "mem_ok m1 gs" "2 * n \<le> length gs" using g Suc.prems(3) by (auto simp: grown_def)
  obtain m' hs where m': "sbrk_grow n (h1, m1) = Inr (True, h1\<lparr>end_addr := of_nat (4096 * (Suc P + n))\<rparr>, m')" "grown (Suc P) (Suc P + n) m1 gs m' hs"
    using Suc.IH [OF ok1(1) h1(2) ok1(2)] Suc.prems(4,5) h1(3) by auto
  have "grown P (P + Suc n) m fs m' hs"
    using grown_trans [OF g m'(2)] mem_okD(4) [OF Suc.prems(1)] Suc.prems(5) by simp
  moreover have "sbrk_grow (Suc n) (h, m) = Inr (True, h\<lparr>end_addr := of_nat (4096 * (P + Suc n))\<rparr>, m')"
    using m'(1) m1 lt c(1,3) frame_alloc_ok [OF Suc.prems(1) [unfolded fs(1)]] by (simp add: heap_flags_def [symmetric] h1(1) Let_def) (simp add: h1_def)
  ultimately show ?case by blast
qed

section \<open>Shrinking\<close>

text \<open>
  The pages from \<open>P\<close> up to \<open>Q\<close> are mapped to frames of their own, and what shrinking by them promises: they
  are not mapped any more, their frames are free, and everything else is as before.
\<close>

definition mapped_range :: "nat \<Rightarrow> nat \<Rightarrow> memory \<Rightarrow> nat list \<Rightarrow> bool" where
  "mapped_range P Q m fs \<longleftrightarrow> (\<forall>a. P \<le> fr a \<and> fr a < Q \<longrightarrow>
      present (pte m a) \<and> fr (pte m a) \<noteq> 0 \<and> fr (pte m a) \<notin> set fs \<union> tables m) \<and>
     (\<forall>a b. P \<le> fr a \<and> fr a < Q \<and> P \<le> fr b \<and> fr b < Q \<and> fr (pte m a) = fr (pte m b) \<longrightarrow> fr a = fr b)"

definition shrunk :: "nat \<Rightarrow> nat \<Rightarrow> memory \<Rightarrow> nat list \<Rightarrow> memory \<Rightarrow> nat list \<Rightarrow> bool" where
  "shrunk P Q m fs m' gs \<longleftrightarrow> mem_ok m' gs \<and> cr3 m' = cr3 m \<and> tables m' = tables m \<and> length gs = length fs + (Q - P) \<and>
     set gs = set fs \<union> {fr (pte m a) |a. P \<le> fr a \<and> fr a < Q} \<and>
     (\<forall>a. dir_idx a \<noteq> 1023 \<and> \<not> (P \<le> fr a \<and> fr a < Q) \<longrightarrow> pte m' a = pte m a) \<and>
     (\<forall>a. P \<le> fr a \<and> fr a < Q \<longrightarrow> pte m' a = 0) \<and>
     (\<forall>g. g \<notin> set gs \<union> tables m \<longrightarrow> pm m' g = pm m g)"

lemma pte_gave:
  assumes "paging m" and "fr a \<notin> tables m"
  shows "pte (gave a m) = pte m" and "tables (gave a m) = tables m"
proof -
  have t: "ptab (gave a m) = ptab m" "pde (gave a m) = pde m" "tables (gave a m) = tables m"
    using paging_pupd [OF assms, of 0 "last_free_page m"] by (simp_all add: gave_def)
  moreover have "ptab m (dir_idx b) \<noteq> fr a" if "pde m (dir_idx b) \<noteq> 0" for b
  proof -
    have "ptab m (dir_idx b) \<in> tables m" using that by (auto simp: tables_def)
    then show ?thesis using assms(2) by auto
  qed
  ultimately show "pte (gave a m) = pte m" by (auto simp: fun_eq_iff pte_def gave_def)
  show "tables (gave a m) = tables m" by (rule t(3))
qed

lemma shrink_one:
  assumes ok: "mem_ok m fs" and r: "mapped_range P (Suc P) m fs" and P: "P < 1046528"
  shows "\<exists>m1 m' gs. virt_to_phys (of_nat (4096 * P)) m = Inr (pte m (of_nat (4096 * P)) AND 0xFFFFF000) \<and>
    frame_free (pte m (of_nat (4096 * P)) AND 0xFFFFF000) m = Inr m1 \<and> unmap (of_nat (4096 * P)) m1 = Inr m' \<and>
    shrunk P (Suc P) m fs m' gs"
proof -
  let ?e = "of_nat (4096 * P) :: u32"
  define A where "A = pte m ?e AND 0xFFFFF000"
  have e: "fr ?e = P" using fr_of_page P by simp
  then have d: "dir_idx ?e < 1022" using P by (simp add: dir_idx_def fr_def)
  have u: "unat ?e = 4096 * P" using P by (intro unat_of_nat_u32) simp
  define g where "g = fr (pte m ?e)"
  have pr: "present (pte m ?e)" "g \<noteq> 0" "g \<notin> set fs" "g \<notin> tables m" using r e by (auto simp: mapped_range_def g_def)
  have Ag: "unat A = 4096 * g" by (simp add: A_def g_def frame_addr)
  then have fA: "fr A = g" by (simp add: fr_def)
  note G = gave_ok [OF ok Ag pr(2-4)]
  have pg: "pte (gave A m) = pte m" "tables (gave A m) = tables m" using pte_gave [OF mem_okD(1) [OF ok]] pr(4) fA by auto
  have "pde (gave A m) (dir_idx ?e) \<noteq> 0" using pr(1) pg(1) by (auto simp: pte_def fun_eq_iff split: if_splits)
  from unmap_ok [OF G(2) _ this] d obtain m' where m': "unmap ?e (gave A m) = Inr m'" "mem_ok m' (g # fs)" "entry_set ?e 0 (gave A m) m'"
    "tables m' = tables m" using pg(2) by (auto simp: ordinary_def)
  have v: "virt_to_phys ?e m = Inr A" using virt_to_phys_pte [OF mem_okD(1) [OF ok] page_aligned [OF u] pr(1)] by (simp add: A_def)
  have pe: "pte m a = pte m ?e" "pte m' a = 0" if "fr a = P" for a
  proof -
    have same: "fr a = fr ?e" by (simp only: that e)
    show "pte m a = pte m ?e" by (rule pte_cong [OF same])
    show "pte m' a = 0"
      by (rule trans [OF pte_cong [OF same] m'(3) [unfolded entry_set_def, THEN conjunct1]])
  qed
  have S: "{fr (pte m a) |a. P \<le> fr a \<and> fr a < Suc P} = {g}"
  proof -
    have only: "fr (pte m a) = g" if "P \<le> fr a" "fr a < Suc P" for a
    proof -
      have "fr a = P" using that by simp
      from pe(1) [OF this] show ?thesis unfolding g_def by (rule arg_cong)
    qed
    moreover have "P \<le> fr ?e" "fr ?e < Suc P" unfolding e by simp_all
    ultimately show ?thesis by blast
  qed
  have "shrunk P (Suc P) m fs m' (g # fs)"
    unfolding shrunk_def
  proof (intro conjI allI impI)
    show "set (g # fs) = set fs \<union> {fr (pte m a) |a. P \<le> fr a \<and> fr a < Suc P}" unfolding S by simp
    show "cr3 m' = cr3 m" using m'(3) by (simp add: entry_set_def gave_def)
    show "pte m' a = pte m a" if "dir_idx a \<noteq> 1023 \<and> \<not> (P \<le> fr a \<and> fr a < Suc P)" for a
    proof -
      have "\<not> same_page a ?e" using that unfolding same_page_fr e by auto
      then show ?thesis using m'(3) that pg(1) unfolding entry_set_def by metis
    qed
    show "pte m' a = 0" if "P \<le> fr a \<and> fr a < Suc P" for a by (rule pe) (use that in simp)
    show "pm m' x = pm m x" if "x \<notin> set (g # fs) \<union> tables m" for x
    proof -
      have "pm m' x = pm (gave A m) x" using m'(3,4) that unfolding entry_set_def by auto
      then show ?thesis using that fA by (simp add: gave_def)
    qed
  qed (use m' in auto)
  with v G(1) m'(1) show ?thesis unfolding A_def by blast
qed

lemma shrunk_conjuncts:
  assumes "shrunk P Q m fs m' gs"
  shows "mem_ok m' gs" and "cr3 m' = cr3 m" and "tables m' = tables m" and "length gs = length fs + (Q - P)"
    and "set gs = set fs \<union> {fr (pte m a) |a. P \<le> fr a \<and> fr a < Q}"
    and "\<forall>a. dir_idx a \<noteq> 1023 \<and> \<not> (P \<le> fr a \<and> fr a < Q) \<longrightarrow> pte m' a = pte m a"
    and "\<forall>a. P \<le> fr a \<and> fr a < Q \<longrightarrow> pte m' a = 0"
    and "\<forall>g. g \<notin> set gs \<union> tables m \<longrightarrow> pm m' g = pm m g"
  using assms unfolding shrunk_def by - (elim conjE, assumption)+

lemmas shrunkD = shrunk_conjuncts(1-5) shrunk_conjuncts(6,7) [rule_format, OF _ conjI] shrunk_conjuncts(8) [rule_format]

lemma low_dir: "R \<le> 1046528 \<Longrightarrow> fr x < R \<Longrightarrow> dir_idx x \<noteq> 1023"
  by (simp add: dir_idx_def fr_def)

lemma shrunk_rest:
  assumes s: "shrunk Q R m fs m1 gs" and r: "mapped_range P R m fs" and "P \<le> Q" "Q \<le> R" "R \<le> 1046528"
  shows "mapped_range P Q m1 gs" and "\<And>x. P \<le> fr x \<Longrightarrow> fr x < Q \<Longrightarrow> pte m1 x = pte m x"
proof -
  note S = shrunkD [OF s]
  have R: "\<And>x. P \<le> fr x \<Longrightarrow> fr x < R \<Longrightarrow> present (pte m x) \<and> fr (pte m x) \<noteq> 0 \<and> fr (pte m x) \<notin> set fs \<union> tables m"
    "\<And>x y. P \<le> fr x \<Longrightarrow> fr x < R \<Longrightarrow> P \<le> fr y \<Longrightarrow> fr y < R \<Longrightarrow> fr (pte m x) = fr (pte m y) \<Longrightarrow> fr x = fr y"
    using r unfolding mapped_range_def by blast+
  show same: "pte m1 x = pte m x" if "P \<le> fr x" "fr x < Q" for x
    by (rule S(6)) (use that assms(3-5) low_dir [OF assms(5), of x] in auto)
  have new: "fr (pte m x) \<notin> set gs" if "P \<le> fr x" "fr x < Q" for x
  proof -
    have "fr (pte m x) \<noteq> fr (pte m y)" if "Q \<le> fr y" "fr y < R" for y
      using R(2) [of x y] \<open>P \<le> fr x\<close> \<open>fr x < Q\<close> that assms(3,4) by fastforce
    then show ?thesis using S(5) R(1) [of x] that assms(4) by fastforce
  qed
  show "mapped_range P Q m1 gs"
    unfolding mapped_range_def
  proof (intro conjI allI impI)
    fix a
    assume a: "P \<le> fr a \<and> fr a < Q"
    then have e: "pte m1 a = pte m a" using same by blast
    show "present (pte m1 a)" "fr (pte m1 a) \<noteq> 0" "fr (pte m1 a) \<notin> set gs \<union> tables m1"
      unfolding e S(3) using R(1) [of a] new [of a] a assms(4) by auto
  next
    fix a b
    assume a: "P \<le> fr a \<and> fr a < Q \<and> P \<le> fr b \<and> fr b < Q \<and> fr (pte m1 a) = fr (pte m1 b)"
    then have "fr (pte m a) = fr (pte m b)" using same by metis
    then show "fr a = fr b" using R(2) [of a b] a assms(4) by auto
  qed
qed

lemma shrunk_trans:
  assumes s: "shrunk Q R m fs m1 gs" and t: "shrunk P Q m1 gs m2 hs" and r: "mapped_range P R m fs"
    and le: "P \<le> Q" "Q \<le> R" "R \<le> 1046528"
  shows "shrunk P R m fs m2 hs"
proof -
  note S = shrunkD [OF s] and T = shrunkD [OF t] and same = shrunk_rest(2) [OF s r le]
  have "{fr (pte m1 a) |a. P \<le> fr a \<and> fr a < Q} = {fr (pte m a) |a. P \<le> fr a \<and> fr a < Q}" using same by metis
  moreover have "P \<le> fr a \<and> fr a < R \<longleftrightarrow> P \<le> fr a \<and> fr a < Q \<or> Q \<le> fr a \<and> fr a < R" for a using le by auto
  ultimately have hs: "set hs = set fs \<union> {fr (pte m a) |a. P \<le> fr a \<and> fr a < R}" unfolding T(5) S(5) by auto
  show ?thesis
    unfolding shrunk_def
  proof (intro conjI allI impI)
    show "pte m2 a = pte m a" if "dir_idx a \<noteq> 1023 \<and> \<not> (P \<le> fr a \<and> fr a < R)" for a
      using that S(6) [of a] T(6) [of a] le by (metis leD le_trans less_le_trans not_le)
    show "pte m2 a = 0" if a: "P \<le> fr a \<and> fr a < R" for a
    proof (cases "fr a < Q")
      case True
      then show ?thesis using T(7) a by blast
    next
      case False
      then have "pte m2 a = pte m1 a" by (intro T(6)) (use a low_dir [OF le(3), of a] in auto)
      also have "pte m1 a = 0" by (rule S(7)) (use False a in auto)
      finally show ?thesis .
    qed
    show "pm m2 g = pm m g" if "g \<notin> set hs \<union> tables m" for g
    proof -
      have g: "g \<notin> set hs \<union> tables m1" "g \<notin> set gs \<union> tables m" using that S(3) T(5) by auto
      show ?thesis using T(8) [OF g(1)] S(8) [OF g(2)] by (rule trans)
    qed
    show "length hs = length fs + (R - P)" using S(4) T(4) le by simp
    show "mem_ok m2 hs" "cr3 m2 = cr3 m" "tables m2 = tables m" using S(2,3) T(1-3) by simp_all
  qed (rule hs)
qed

lemma sbrk_shrink_ok:
  assumes "mem_ok m fs" and "end_addr h = of_nat (4096 * (P + n))" and "mapped_range P (P + n) m fs"
    and "unat (start_addr h) \<le> 4096 * P" and "P + n \<le> 1046528"
  shows "\<exists>m' gs. sbrk_shrink n (h, m) = Inr (True, h\<lparr>end_addr := of_nat (4096 * P)\<rparr>, m') \<and> shrunk P (P + n) m fs m' gs"
  using assms
proof (induction n arbitrary: m fs h)
  case 0
  then have "h\<lparr>end_addr := of_nat (4096 * P)\<rparr> = h" by simp
  moreover have "shrunk P (P + 0) m fs m fs" using 0 by (auto simp: shrunk_def)
  ultimately show ?case by (simp del: of_nat_mult) blast
next
  case (Suc n)
  define h1 where "h1 = h\<lparr>end_addr := of_nat (4096 * (P + n))\<rparr>"
  have h1: "h\<lparr>end_addr := end_addr h - PAGE_SIZE\<rparr> = h1" "end_addr h1 = of_nat (4096 * (P + n))" "start_addr h1 = start_addr h"
    using Suc.prems(2) by (simp_all add: h1_def PAGE_SIZE_def algebra_simps)
  have "unat (end_addr h1) = 4096 * (P + n)" unfolding h1(2) using Suc.prems(5) by (intro unat_of_nat_u32) simp
  then have ge: "\<not> end_addr h1 < start_addr h1" using Suc.prems(4) h1(3) by (simp add: word_less_nat_alt)
  have top: "mapped_range (P + n) (Suc (P + n)) m fs" using Suc.prems(3) unfolding mapped_range_def by auto
  obtain m0 m1 gs where m1: "virt_to_phys (end_addr h1) m = Inr (pte m (end_addr h1) AND 0xFFFFF000)"
      "frame_free (pte m (end_addr h1) AND 0xFFFFF000) m = Inr m0" "unmap (end_addr h1) m0 = Inr m1"
    and s: "shrunk (P + n) (Suc (P + n)) m fs m1 gs"
    using shrink_one [OF Suc.prems(1) top] Suc.prems(5) unfolding h1(2) by auto
  have r: "mapped_range P (P + n) m1 gs" using shrunk_rest(1) [OF s, of P] Suc.prems(3,5) by simp
  obtain m' hs where m': "sbrk_shrink n (h1, m1) = Inr (True, h1\<lparr>end_addr := of_nat (4096 * P)\<rparr>, m')" "shrunk P (P + n) m1 gs m' hs"
    using Suc.IH [OF shrunkD(1) [OF s] h1(2) r] Suc.prems(4,5) h1(3) by auto
  have "shrunk P (P + Suc n) m fs m' hs" using shrunk_trans [OF s m'(2)] Suc.prems(3,5) by simp
  moreover have "sbrk_shrink (Suc n) (h, m) = Inr (True, h\<lparr>end_addr := of_nat (4096 * P)\<rparr>, m')"
    unfolding sbrk_shrink.simps Let_def h1(1) using ge m1 m'(1) by (simp add: h1_def)
  ultimately show ?case by blast
qed

section \<open>The system call\<close>

lemma grown_mapped:
  assumes "grown P Q m fs m1 gs" and "mem_ok m fs"
  shows "mapped_range P Q m1 gs"
  unfolding mapped_range_def
proof (intro conjI allI impI)
  fix a
  assume a: "P \<le> fr a \<and> fr a < Q"
  have G: "present (pte m1 a)" "fr (pte m1 a) \<in> set fs" "fr (pte m1 a) \<notin> set gs \<union> tables m1"
    using grownD(7) [OF assms(1), of a] a by auto
  show "present (pte m1 a)" "fr (pte m1 a) \<notin> set gs \<union> tables m1" by (rule G)+
  show "fr (pte m1 a) \<noteq> 0" using flist_nonzero [OF mem_okD(2) [OF assms(2)] G(2)] by blast
qed (use grownD(8) [OF assms(1)] in blast)

text \<open>
  C24. Growing a heap and giving the memory back. With enough free frames and room below the limit of
  the heap, \<open>sbrk\<close> of a positive increment returns the old break, moves it up by whole pages and maps
  each new page to a frame of its own that was free, while every other page translates as before
  and no frame in use changes. \<open>sbrk\<close> of the opposite increment then moves the break back to where it was,
  unmaps exactly these pages and frees their frames, so that the address space is the old one; the
  frames that became page tables, one for each new page at most, stay allocated.
\<close>

theorem sbrk_grow_and_shrink:
  assumes "mem_ok m fs" and "end_addr h = of_nat (4096 * P)" and "unat (start_addr h) \<le> 4096 * P"
    and "0 < inc" and "n = nat (inc div 4096 + (if inc mod 4096 \<noteq> 0 then 1 else 0))" and "2 * n \<le> length fs"
    and "4096 * (P + n) < unat (max_addr h)" and "P + n < 1046528"
    and "\<And>a. P \<le> fr a \<Longrightarrow> fr a < P + n \<Longrightarrow> \<not> present (pte m a)"
  shows "\<exists>h1 m1 gs m2 hs. sbrk inc (h, m) = Inr (end_addr h, h1, m1) \<and> h1 = h\<lparr>end_addr := of_nat (4096 * (P + n))\<rparr> \<and>
    grown P (P + n) m fs m1 gs \<and> sbrk (- inc) (h1, m1) = Inr (end_addr h1, h, m2) \<and> mem_ok m2 hs \<and>
    set hs \<subseteq> set fs \<and> length fs \<le> length hs + n \<and>
    (\<forall>a. dir_idx a \<noteq> 1023 \<longrightarrow> translate a m2 = translate a m) \<and> (\<forall>g. g \<notin> set fs \<union> tables m \<longrightarrow> pm m2 g = pm m g)"
proof -
  obtain m1 gs where g: "sbrk_grow n (h, m) = Inr (True, h\<lparr>end_addr := of_nat (4096 * (P + n))\<rparr>, m1)" "grown P (P + n) m fs m1 gs"
    using sbrk_grow_ok [OF assms(1,2,6-8)] by blast
  define h1 where "h1 = h\<lparr>end_addr := of_nat (4096 * (P + n))\<rparr>"
  have h1: "end_addr h1 = of_nat (4096 * (P + n))" "start_addr h1 = start_addr h" "h1\<lparr>end_addr := of_nat (4096 * P)\<rparr> = h"
    using assms(2) by (simp_all add: h1_def)
  note G = grownD [OF g(2)]
  obtain m2 hs where s: "sbrk_shrink n (h1, m1) = Inr (True, h, m2)" "shrunk P (P + n) m1 gs m2 hs"
    using sbrk_shrink_ok [OF G(10) h1(1) grown_mapped [OF g(2) assms(1)]] assms(3,8) h1(2,3) by auto
  note S = shrunkD [OF s(2)]
  have run: "sbrk inc (h, m) = Inr (end_addr h, h1, m1)" "sbrk (- inc) (h1, m1) = Inr (end_addr h1, h, m2)"
    using assms(4,5) g(1) s(1) by (simp_all add: sbrk_def Let_def h1_def)
  have hs: "set hs \<subseteq> set fs" using S(5) G(2) G(7) by blast
  have len: "length fs \<le> length hs + n" using S(4) G(3) by simp
  have tr: "translate a m2 = translate a m" if d: "dir_idx a \<noteq> 1023" for a
  proof (cases "P \<le> fr a \<and> fr a < P + n")
    case True
    then have "pte m2 a = 0" "\<not> present (pte m a)" using S(7) assms(9) by blast+
    then show ?thesis using translate_pte [OF mem_okD(1) [OF S(1)]] translate_pte [OF mem_okD(1) [OF assms(1)]] by simp
  next
    case False
    have "pte m2 a = pte m1 a" by (rule S(6)) (use d False in auto)
    also have "\<dots> = pte m a" by (rule G(6)) (use d False in auto)
    finally show ?thesis using translate_pte [OF mem_okD(1) [OF S(1)]] translate_pte [OF mem_okD(1) [OF assms(1)]] by simp
  qed
  have fr: "pm m2 g = pm m g" if "g \<notin> set fs \<union> tables m" for g
  proof -
    have "g \<notin> set hs \<union> tables m1" using that hs G(5) by auto
    from S(8) [OF this] G(9) [OF that] show ?thesis by (rule trans)
  qed
  show ?thesis
    using run g(2) S(1) hs len tr fr unfolding h1_def by blast
qed

definition sample_heap :: heap where
  "sample_heap = \<lparr>start_addr = 0x20000000, end_addr = 0x20000000, max_addr = 0x30000000, supervisor = False, readonly = False\<rparr>"

theorem sbrk_grow_and_shrink_witness:
  "\<exists>h1 m1 m2. sbrk 100 (sample_heap, sample_mem) = Inr (0x20000000, h1, m1) \<and> end_addr h1 = 0x20001000 \<and>
     sbrk (- 100) (h1, m1) = Inr (0x20001000, sample_heap, m2) \<and>
     (\<forall>a. dir_idx a \<noteq> 1023 \<longrightarrow> translate a m2 = translate a sample_mem)"
proof -
  have n: "(1::nat) = nat (100 div 4096 + (if 100 mod 4096 \<noteq> (0::int) then 1 else 0))" by simp
  have free: "\<not> present (pte sample_mem a)" if "131072 \<le> fr a" "fr a < 131072 + 1" for a
  proof -
    have "fr a = 131072" using that by simp
    then have "dir_idx a = 128" by (simp add: dir_idx_def fr_def)
    then show ?thesis by (simp add: sample_pte)
  qed
  obtain h1 m1 m2 where "sbrk 100 (sample_heap, sample_mem) = Inr (end_addr sample_heap, h1, m1)"
    "h1 = sample_heap\<lparr>end_addr := of_nat (4096 * (131072 + 1))\<rparr>" "sbrk (- 100) (h1, m1) = Inr (end_addr h1, sample_heap, m2)"
    "\<forall>a. dir_idx a \<noteq> 1023 \<longrightarrow> translate a m2 = translate a sample_mem"
    using sbrk_grow_and_shrink [OF sample_ok, of sample_heap 131072 100 1] n free by (auto simp: sample_heap_def)
  then show ?thesis by (auto simp: sample_heap_def)
qed

section \<open>The contract of the break\<close>

text \<open>
  What an allocator relies on: between \<open>lo\<close> and \<open>hi\<close> the break starts at whole pages, moves up by one page
  as long as there is room, and down by whole pages, which never costs room. \<open>hi - lo\<close> is small enough for
  the difference of two breaks to be a positive \<open>int\<close>.
\<close>

locale brk_area =
  fixes sb :: "int \<Rightarrow> 's \<Rightarrow> (u32 \<times> 's) kres" and brk :: "'s \<Rightarrow> nat" and room :: "'s \<Rightarrow> nat" and ok :: "'s \<Rightarrow> bool"
    and lo :: nat and hi :: nat
  assumes area: "0 < lo" "hi < 4294967296" "hi - lo < 2147483648"
    and ok_brk: "ok s \<Longrightarrow> lo \<le> brk s \<and> brk s + room s \<le> hi \<and> brk s mod 4096 = 0"
    and sb_zero: "ok s \<Longrightarrow> sb 0 s = Inr (of_nat (brk s), s)"
    and sb_grow: "ok s \<Longrightarrow> 4096 \<le> room s \<Longrightarrow>
      \<exists>s'. sb 4096 s = Inr (of_nat (brk s), s') \<and> ok s' \<and> brk s' = brk s + 4096 \<and> room s \<le> room s' + 4096"
    and sb_shrink: "ok s \<Longrightarrow> 0 < n \<Longrightarrow> lo + 4096 * n \<le> brk s \<Longrightarrow>
      \<exists>s'. sb (- int (4096 * n)) s = Inr (of_nat (brk s), s') \<and> ok s' \<and> brk s' = brk s - 4096 * n \<and> room s \<le> room s'"

definition area_ok :: "nat \<Rightarrow> nat \<Rightarrow> heap \<times> memory \<Rightarrow> bool" where
  "area_ok lo hi = (\<lambda>(h, m). unat (start_addr h) = lo \<and> unat (max_addr h) = hi \<and>
     (\<exists>P fs. unat (end_addr h) = 4096 * P \<and> lo \<le> 4096 * P \<and> 4096 * P \<le> hi \<and> mem_ok m fs \<and> mapped_range (lo div 4096) P m fs))"

definition brk_of :: "heap \<times> memory \<Rightarrow> nat" where "brk_of = (\<lambda>(h, m). unat (end_addr h))"

definition room_of :: "heap \<times> memory \<Rightarrow> nat" where
  "room_of = (\<lambda>(h, m). 4096 * min (unat (num_pages m) div 2) ((unat (max_addr h) - unat (end_addr h) - 1) div 4096))"

lemma mem_ok_num_pages:
  assumes "mem_ok m fs"
  shows "unat (num_pages m) = length fs"
proof -
  have "flist p a fs \<Longrightarrow> f \<in> set fs \<Longrightarrow> f < 1048576" for p a f
  proof (induction fs arbitrary: a)
    case (Cons g fs)
    have "unat a < 4294967296" using unsigned_less [of a, where ?'a = nat] by simp
    then have "g < 1048576" using Cons.prems by simp
    then show ?case using Cons by auto
  qed simp
  then have "set fs \<subseteq> {..<1048576}" using mem_okD(2) [OF assms] by auto
  from card_mono [OF _ this] have "length fs \<le> 1048576" using distinct_card [OF mem_okD(3) [OF assms]] by simp
  then show ?thesis unfolding mem_okD(5) [OF assms] by (intro unat_of_nat_u32) simp
qed

lemma mapped_extend:
  assumes r: "mapped_range L P m fs" and g: "grown P Q m fs m1 gs" and ok: "mem_ok m fs" and le: "P \<le> 1046528"
  shows "mapped_range L Q m1 gs"
proof -
  note G = grownD [OF g] and N = grown_mapped [OF g ok]
  have old: "pte m1 a = pte m a" if "L \<le> fr a" "fr a < P" for a
    by (rule G(6)) (use that low_dir [OF le, of a] in auto)
  have R: "present (pte m a) \<and> fr (pte m a) \<noteq> 0 \<and> fr (pte m a) \<notin> set fs \<union> tables m" if "L \<le> fr a" "fr a < P" for a
    using r that unfolding mapped_range_def by blast
  have sep: "fr (pte m1 a) \<noteq> fr (pte m1 b)" if a: "L \<le> fr a" "fr a < P" and b: "P \<le> fr b" "fr b < Q" for a b
    using R [OF a] G(7) [OF b] old [OF a] by auto
  show ?thesis
    unfolding mapped_range_def
  proof (intro conjI allI impI)
    fix a
    assume a: "L \<le> fr a \<and> fr a < Q"
    have "present (pte m1 a) \<and> fr (pte m1 a) \<noteq> 0 \<and> fr (pte m1 a) \<notin> set gs \<union> tables m1"
    proof (cases "fr a < P")
      case True
      then show ?thesis using a old [of a] R [of a] G(2,5) by auto
    next
      case False
      then show ?thesis using N a unfolding mapped_range_def by auto
    qed
    then show "present (pte m1 a)" "fr (pte m1 a) \<noteq> 0" "fr (pte m1 a) \<notin> set gs \<union> tables m1" by auto
  next
    fix a b
    assume ab: "L \<le> fr a \<and> fr a < Q \<and> L \<le> fr b \<and> fr b < Q \<and> fr (pte m1 a) = fr (pte m1 b)"
    consider "fr a < P" "fr b < P" | "P \<le> fr a" "P \<le> fr b" | "fr a < P" "P \<le> fr b" | "P \<le> fr a" "fr b < P" by linarith
    then show "fr a = fr b"
    proof cases
      case 1
      then have "fr (pte m a) = fr (pte m b)" using ab old [of a] old [of b] by simp
      then show ?thesis using r ab 1 unfolding mapped_range_def by blast
    next
      case 2
      then show ?thesis using G(8) [of a b] ab by auto
    qed (use sep [of a b] sep [of b a] ab in auto)
  qed
qed

lemma area_grow:
  assumes a: "area_ok lo hi x" and hi: "hi \<le> 4286578688" and lo: "lo mod 4096 = 0" and r: "4096 \<le> room_of x"
  shows "\<exists>x'. sbrk 4096 x = Inr (of_nat (brk_of x), x') \<and> area_ok lo hi x' \<and> brk_of x' = brk_of x + 4096 \<and> room_of x \<le> room_of x' + 4096"
proof -
  obtain h m where x: "x = (h, m)" by (cases x)
  obtain P fs where h: "unat (start_addr h) = lo" "unat (max_addr h) = hi" and P: "unat (end_addr h) = 4096 * P" "lo \<le> 4096 * P"
    and ok: "mem_ok m fs" and map: "mapped_range (lo div 4096) P m fs"
    using a by (auto simp: area_ok_def x)
  have np: "unat (num_pages m) = length fs" by (rule mem_ok_num_pages [OF ok])
  have "1 \<le> min (length fs div 2) ((hi - 4096 * P - 1) div 4096)"
    using r by (simp add: room_of_def x h P np)
  then have len: "2 * 1 \<le> length fs" and lt: "4096 * (P + 1) < hi" by auto
  have e: "end_addr h = of_nat (4096 * P)" unfolding P(1) [symmetric] by simp
  from sbrk_grow_ok [OF ok e len] obtain m' gs where
    g: "sbrk_grow 1 (h, m) = Inr (True, h\<lparr>end_addr := of_nat (4096 * (P + 1))\<rparr>, m')" "grown P (P + 1) m fs m' gs"
    using lt hi h by auto
  define h' where "h' = h\<lparr>end_addr := of_nat (4096 * (P + 1))\<rparr>"
  have "end_addr h' = of_nat (4096 * (P + 1))" by (simp add: h'_def)
  then have e': "unat (end_addr h') = 4096 * (P + 1)" by (simp only:) (rule unat_of_nat_u32, use lt hi in simp)
  have "mapped_range (lo div 4096) (P + 1) m' gs" by (rule mapped_extend [OF map g(2) ok]) (use lt hi in simp)
  then have "area_ok lo hi (h', m')"
    using h P(2) lt grownD(10) [OF g(2)] e' unfolding area_ok_def prod.case
    by (intro conjI exI [of _ "P + 1"] exI [of _ gs]) (simp_all add: h'_def)
  moreover have "sbrk 4096 x = Inr (of_nat (brk_of x), (h', m'))"
    using g(1) e by (simp add: sbrk_def x brk_of_def h'_def)
  moreover have "room_of x \<le> room_of (h', m') + 4096"
  proof -
    have "unat (num_pages m') = length gs" by (rule mem_ok_num_pages [OF grownD(10) [OF g(2)]])
    moreover have "length fs \<le> length gs + 2" using grownD(3) [OF g(2)] by simp
    then have "length fs div 2 \<le> (length gs + 2) div 2" by (rule div_le_mono)
    then have "length fs div 2 \<le> length gs div 2 + 1" by simp
    moreover have "(hi - 4096 * P - 1) div 4096 = Suc ((hi - 4096 * (P + 1) - 1) div 4096)"
      using lt div_add_self2 [of "4096::nat" "hi - 4096 * (P + 1) - 1"] by simp
    ultimately show ?thesis using h e' P(1) np by (auto simp: room_of_def x h'_def min_def)
  qed
  ultimately show ?thesis using e' P(1) by (intro exI [of _ "(h', m')"]) (simp add: brk_of_def x)
qed

lemma area_shrink:
  assumes a: "area_ok lo hi x" and hi: "hi \<le> 4286578688" and lo: "lo mod 4096 = 0" and n: "0 < n" "lo + 4096 * n \<le> brk_of x"
  shows "\<exists>x'. sbrk (- int (4096 * n)) x = Inr (of_nat (brk_of x), x') \<and> area_ok lo hi x' \<and> brk_of x' = brk_of x - 4096 * n \<and>
    room_of x \<le> room_of x'"
proof -
  obtain h m where x: "x = (h, m)" by (cases x)
  obtain P fs where h: "unat (start_addr h) = lo" "unat (max_addr h) = hi" and P: "unat (end_addr h) = 4096 * P" "4096 * P \<le> hi"
    and ok: "mem_ok m fs" and map: "mapped_range (lo div 4096) P m fs"
    using a by (auto simp: area_ok_def x)
  define Q where "Q = P - n"
  have "4096 * n \<le> 4096 * P" using n(2) P(1) by (simp add: brk_of_def x)
  then have Q: "P = Q + n" "lo \<le> 4096 * Q" using n(2) P(1) by (auto simp: Q_def brk_of_def x)
  have e: "end_addr h = of_nat (4096 * (Q + n))" unfolding Q(1) [symmetric] P(1) [symmetric] by simp
  have L: "lo div 4096 \<le> Q" using Q(2) by (simp add: div_le_mono [of lo "4096 * Q" 4096, simplified])
  have "mapped_range Q (Q + n) m fs" using map L unfolding mapped_range_def Q(1) by auto
  from sbrk_shrink_ok [OF ok e this] obtain m' gs where
    s: "sbrk_shrink n (h, m) = Inr (True, h\<lparr>end_addr := of_nat (4096 * Q)\<rparr>, m')" "shrunk Q (Q + n) m fs m' gs"
    using Q P(2) hi h by auto
  define h' where "h' = h\<lparr>end_addr := of_nat (4096 * Q)\<rparr>"
  have "end_addr h' = of_nat (4096 * Q)" by (simp add: h'_def)
  then have e': "unat (end_addr h') = 4096 * Q" by (simp only:) (rule unat_of_nat_u32, use Q P(2) hi in simp)
  have "mapped_range (lo div 4096) Q m' gs" by (rule shrunk_rest(1) [OF s(2)]) (use map L Q P(2) hi in auto)
  then have "area_ok lo hi (h', m')"
    using h Q P(2) shrunkD(1) [OF s(2)] e' unfolding area_ok_def prod.case
    by (intro conjI exI [of _ Q] exI [of _ gs]) (simp_all add: h'_def)
  moreover have "sbrk (- int (4096 * n)) x = Inr (of_nat (brk_of x), (h', m'))"
    using s(1) n(1) by (simp add: sbrk_def x brk_of_def h'_def)
  moreover have "room_of x \<le> room_of (h', m')"
  proof -
    have "unat (num_pages m') = length gs" "unat (num_pages m) = length fs"
      using mem_ok_num_pages [OF shrunkD(1) [OF s(2)]] mem_ok_num_pages [OF ok] .
    moreover have "length fs \<le> length gs" using shrunkD(4) [OF s(2)] by simp
    moreover have "(hi - 4096 * P - 1) div 4096 \<le> (hi - 4096 * Q - 1) div 4096" using Q by (intro div_le_mono) simp
    moreover have "length fs div 2 \<le> length gs div 2" using calculation(3) by (rule div_le_mono)
    ultimately show ?thesis using h e' P(1) by (auto simp: room_of_def x h'_def min_def)
  qed
  ultimately show ?thesis using e' P(1) Q by (intro exI [of _ "(h', m')"]) (simp add: brk_of_def x)
qed

lemma area_facts:
  assumes "area_ok lo hi x"
  shows "lo \<le> brk_of x \<and> brk_of x + room_of x \<le> hi \<and> brk_of x mod 4096 = 0" and "sbrk 0 x = Inr (of_nat (brk_of x), x)"
proof -
  obtain h m where x: "x = (h, m)" by (cases x)
  have "4096 * ((hi - e - 1) div 4096) \<le> hi - e" for e :: nat by (metis diff_le_self le_trans times_div_less_eq_dividend)
  then have "room_of x \<le> hi - brk_of x" if "unat (max_addr h) = hi"
    using that by (auto simp: room_of_def brk_of_def x min_def le_trans [OF mult_le_mono2])
  then show "lo \<le> brk_of x \<and> brk_of x + room_of x \<le> hi \<and> brk_of x mod 4096 = 0"
    using assms by (auto simp: area_ok_def x brk_of_def)
  show "sbrk 0 x = Inr (of_nat (brk_of x), x)" by (simp add: sbrk_def x brk_of_def)
qed

text \<open>The kernel's heap and the heap of a program.\<close>

definition UHEAP_START :: u32 where "UHEAP_START = 0x20000000"

definition UHEAP_END :: u32 where "UHEAP_END = 0x30000000"

lemma area_contract:
  assumes "0 < lo" and "lo mod 4096 = 0" and "hi \<le> 4286578688" and "hi - lo < 2147483648"
  shows "brk_area sbrk brk_of room_of (area_ok lo hi) lo hi"
proof
  fix x
  assume x: "area_ok lo hi x"
  show "lo \<le> brk_of x \<and> brk_of x + room_of x \<le> hi \<and> brk_of x mod 4096 = 0" "sbrk 0 x = Inr (of_nat (brk_of x), x)"
    by (rule area_facts [OF x])+
  show "\<exists>x'. sbrk 4096 x = Inr (of_nat (brk_of x), x') \<and> area_ok lo hi x' \<and> brk_of x' = brk_of x + 4096 \<and> room_of x \<le> room_of x' + 4096"
    if "4096 \<le> room_of x" by (rule area_grow [OF x assms(3,2) that])
  show "\<exists>x'. sbrk (- int (4096 * n)) x = Inr (of_nat (brk_of x), x') \<and> area_ok lo hi x' \<and> brk_of x' = brk_of x - 4096 * n \<and> room_of x \<le> room_of x'"
    if "0 < n" "lo + 4096 * n \<le> brk_of x" for n by (rule area_shrink [OF x assms(3,2) that])
qed (use assms in auto)

interpretation kbrk: brk_area sbrk brk_of room_of "area_ok (unat HEAP_START) (unat HEAP_END)" "unat HEAP_START" "unat HEAP_END"
  by (rule area_contract) (simp_all add: HEAP_START_def HEAP_END_def)

interpretation ubrk: brk_area sbrk brk_of room_of "area_ok (unat UHEAP_START) (unat UHEAP_END)" "unat UHEAP_START" "unat UHEAP_END"
  by (rule area_contract) (simp_all add: UHEAP_START_def UHEAP_END_def)

end
