(* ===== verification/Malloc.thy ===== *)
theory Malloc
  imports Sbrk
begin

text \<open>
  The allocator of the C library (\<open>lib/malloc.c\<close>), which the kernel and its programs share. It gets memory
  from \<open>sbrk\<close>, which is the kernel's own function in the kernel and a system call in a program: \<open>sb\<close> is
  this function here. The headers of the blocks are kept apart from the bytes of the blocks: \<open>blocks\<close>
  maps the address of a header to its fields, \<open>bytes\<close> holds the rest of memory. A program that
  writes outside its blocks can destroy headers, which is not modelled.

  The loops over the chain of blocks may run for ever, so they are partial functions: \<open>None\<close> means that the
  call does not return, \<open>Some (Inl e)\<close> that it stops with a fault, a failed assertion or \<open>abort\<close>.
\<close>

section \<open>State\<close>

record block_meta =
  magic_head :: u32
  bsize :: u32
  bfree :: bool
  bnext :: u32
  magic_end :: u32

record 's mheap =
  first_block :: u32
  blocks :: "u32 \<Rightarrow> block_meta option"
  bytes :: "u32 \<Rightarrow> u8"
  os :: 's

definition MAGIC_HEAD :: u32 where "MAGIC_HEAD = 0xDEADC0DE"

definition MAGIC_END :: u32 where "MAGIC_END = 0xDEADBABA"

text \<open>\<open>sizeof(block_meta_t)\<close>: five fields of four bytes, the flag padded.\<close>

definition META :: u32 where "META = 20"

definition MIN_HEAP_CONTRACT_SIZE :: u32 where "MIN_HEAP_CONTRACT_SIZE = PAGE_SIZE * 2"

definition hget :: "u32 \<Rightarrow> 's mheap \<Rightarrow> block_meta kres" where
  "hget a s = (if a = 0 then Inl Fault else case blocks s a of None \<Rightarrow> Inl Fault | Some b \<Rightarrow> Inr b)"

definition hput :: "u32 \<Rightarrow> block_meta \<Rightarrow> 's mheap \<Rightarrow> 's mheap" where
  "hput a b s = s\<lparr>blocks := (blocks s)(a \<mapsto> b)\<rparr>"

type_synonym 's brk = "int \<Rightarrow> 's \<Rightarrow> (u32 \<times> 's) kres"

definition sys :: "'s brk \<Rightarrow> int \<Rightarrow> 's mheap \<Rightarrow> (u32 \<times> 's mheap) kres" where
  "sys sb n s = bnd (sb n (os s)) (\<lambda>(r, x). Inr (r, s\<lparr>os := x\<rparr>))"

text \<open>A step of kernel code inside a loop that may not end.\<close>

definition obnd :: "'a kres \<Rightarrow> ('a \<Rightarrow> 'b kres option) \<Rightarrow> 'b kres option" where
  "obnd m f = (case m of Inl e \<Rightarrow> Some (Inl e) | Inr x \<Rightarrow> f x)"

section \<open>Allocation\<close>

definition init_first_block :: "'s brk \<Rightarrow> 's mheap \<Rightarrow> 's mheap kres" where
  "init_first_block sb s =
     bnd (sys sb 4096 s) (\<lambda>(start_addr, s).
     if start_addr = - 1 then Inr s
     else Inr (hput start_addr \<lparr>magic_head = MAGIC_HEAD, bsize = PAGE_SIZE - META, bfree = True, bnext = 0, magic_end = MAGIC_END\<rparr>
       (s\<lparr>first_block := start_addr\<rparr>)))"

definition split_block :: "u32 \<Rightarrow> u32 \<Rightarrow> block_meta \<Rightarrow> 's mheap \<Rightarrow> 's mheap" where
  "split_block nbytes p b s =
     hput (p + META + nbytes) \<lparr>magic_head = MAGIC_HEAD, bsize = bsize b - nbytes - META, bfree = True, bnext = bnext b, magic_end = MAGIC_END\<rparr>
       (hput p (b\<lparr>bsize := nbytes, bfree := False, bnext := p + META + nbytes\<rparr>) s)"

partial_function (option) malloc_loop :: "'s brk \<Rightarrow> u32 \<Rightarrow> u32 \<Rightarrow> 's mheap \<Rightarrow> (u32 \<times> 's mheap) kres option" where
  "malloc_loop sb nbytes p s =
     (if p = 0 then Some (Inr (0, s))
      else case hget p s of
        Inl e \<Rightarrow> Some (Inl e)
      | Inr b \<Rightarrow>
          if \<not> bfree b then malloc_loop sb nbytes (bnext b) s
          else if bnext b = 0 \<and> bsize b < nbytes + META then
            (case sys sb 4096 s of
              Inl e \<Rightarrow> Some (Inl e)
            | Inr r \<Rightarrow> malloc_loop sb nbytes p (hput p (b\<lparr>bsize := bsize b + PAGE_SIZE\<rparr>) (snd r)))
          else if bsize b \<ge> nbytes + META then
            Some (kassert (bsize b \<ge> nbytes + META) ''p->size >= size + sizeof(block_meta_t)''
              (Inr (p + META, split_block nbytes p b s)))
          else malloc_loop sb nbytes (bnext b) s)"

definition align4 :: "u32 \<Rightarrow> u32" where
  "align4 nbytes = (if nbytes mod 4 \<noteq> 0 then (nbytes div 4 + 1) * 4 else nbytes)"

definition malloc :: "'s brk \<Rightarrow> u32 \<Rightarrow> 's mheap \<Rightarrow> (u32 \<times> 's mheap) kres option" where
  "malloc sb nbytes s =
     (let nbytes = align4 nbytes in
      obnd (if first_block s = 0 then init_first_block sb s else Inr s) (\<lambda>s.
      obnd (hget (first_block s) s) (\<lambda>b.
      obnd (kassert (magic_head b = MAGIC_HEAD) ''first_block->magic_head == MAGIC_HEAD'' (Inr ())) (\<lambda>_.
      malloc_loop sb nbytes (first_block s) s))))"

section \<open>Freeing\<close>

partial_function (option) last_block :: "u32 \<Rightarrow> 's mheap \<Rightarrow> (u32 \<times> block_meta) kres option" where
  "last_block p s =
     (case hget p s of
        Inl e \<Rightarrow> Some (Inl e)
      | Inr b \<Rightarrow> if bnext b \<noteq> 0 then last_block (bnext b) s else Some (Inr (p, b)))"

definition heap_contract :: "'s brk \<Rightarrow> 's mheap \<Rightarrow> 's mheap kres option" where
  "heap_contract sb s =
     (case last_block (first_block s) s of
        None \<Rightarrow> None
      | Some r \<Rightarrow> obnd r (\<lambda>(p, b).
          if bsize b > PAGE_SIZE then
            obnd (sys sb 0 s) (\<lambda>(end_addr, s).
            Some (kassert (p + META + bsize b = end_addr) ''(p + 1) + p->size == end_addr''
              (let new_end = ((p + META) AND 0xFFFFF000) + MIN_HEAP_CONTRACT_SIZE in
               bnd (sys sb (sint (new_end - end_addr)) (hput p (b\<lparr>bsize := new_end - (p + META)\<rparr>) s)) (\<lambda>(_, s). Inr s))))
          else Some (Inr s)))"

text \<open>The block \<open>p\<close> is found: it is merged with its successor and then into its predecessor.\<close>

definition release_next :: "u32 \<Rightarrow> block_meta \<Rightarrow> 's mheap \<Rightarrow> (block_meta \<times> 's mheap) kres" where
  "release_next p b s =
     (let b = b\<lparr>bfree := True\<rparr> in
      bnd (if bnext b \<noteq> 0 then bnd (hget (bnext b) s) (\<lambda>n.
             if bfree n then Inr (b\<lparr>bsize := bsize b + (bsize n + META), bnext := bnext n\<rparr>) else Inr b)
           else Inr b) (\<lambda>b.
      Inr (b, hput p b s)))"

definition release_prev :: "u32 \<Rightarrow> block_meta \<Rightarrow> 's mheap \<Rightarrow> 's mheap kres" where
  "release_prev prev b s =
     (if prev = 0 then Inr s
      else bnd (hget prev s) (\<lambda>q.
        if bfree q then Inr (hput prev (q\<lparr>bsize := bsize q + (bsize b + META), bnext := bnext b\<rparr>) s) else Inr s))"

partial_function (option) free_loop :: "u32 \<Rightarrow> u32 \<Rightarrow> u32 \<Rightarrow> 's mheap \<Rightarrow> 's mheap kres option" where
  "free_loop ptr prev p s =
     (if p + META = ptr then
        Some (bnd (hget p s) (\<lambda>b.
          kassert (magic_head b = MAGIC_HEAD) ''p->magic_head == MAGIC_HEAD''
          (kassert (magic_end b = MAGIC_END) ''p->magic_end == MAGIC_END''
          (bnd (release_next p b s) (\<lambda>(b, s). release_prev prev b s)))))
      else case hget p s of
        Inl e \<Rightarrow> Some (Inl e)
      | Inr b \<Rightarrow>
          if bnext b = 0 \<and> bfree b \<and> magic_head b = MAGIC_HEAD \<and> magic_end b = MAGIC_END \<and> bsize b > 0
          then Some (Inl (Panic ''Double free or corruption''))
          else free_loop ptr p (bnext b) s)"

definition free :: "'s brk \<Rightarrow> u32 \<Rightarrow> 's mheap \<Rightarrow> 's mheap kres option" where
  "free sb ptr s =
     (if ptr = 0 then Some (Inr s)
      else case free_loop ptr 0 (first_block s) s of
        None \<Rightarrow> None
      | Some r \<Rightarrow> obnd r (heap_contract sb))"

section \<open>Zeroed and resized blocks\<close>

text \<open>\<open>memset\<close> and \<open>memcpy\<close> on the bytes of memory; address 0 is not mapped.\<close>

definition fill :: "u32 \<Rightarrow> nat \<Rightarrow> 's mheap \<Rightarrow> 's mheap kres" where
  "fill a n s = (if a = 0 \<and> n \<noteq> 0 then Inl Fault
     else Inr (s\<lparr>bytes := (\<lambda>x. if unat (x - a) < n then 0 else bytes s x)\<rparr>))"

definition copy :: "u32 \<Rightarrow> u32 \<Rightarrow> nat \<Rightarrow> 's mheap \<Rightarrow> 's mheap kres" where
  "copy d a n s = (if (d = 0 \<or> a = 0) \<and> n \<noteq> 0 then Inl Fault
     else Inr (s\<lparr>bytes := (\<lambda>x. if unat (x - d) < n then bytes s (a + (x - d)) else bytes s x)\<rparr>))"

definition calloc :: "'s brk \<Rightarrow> u32 \<Rightarrow> u32 \<Rightarrow> 's mheap \<Rightarrow> (u32 \<times> 's mheap) kres option" where
  "calloc sb nmemb nbytes s =
     (case malloc sb (nmemb * nbytes) s of
        None \<Rightarrow> None
      | Some r \<Rightarrow> obnd r (\<lambda>(p, s). Some (bnd (fill p (unat (nmemb * nbytes)) s) (\<lambda>s. Inr (p, s)))))"

definition realloc :: "'s brk \<Rightarrow> u32 \<Rightarrow> u32 \<Rightarrow> 's mheap \<Rightarrow> (u32 \<times> 's mheap) kres option" where
  "realloc sb ptr nbytes s =
     (if ptr = 0 then malloc sb nbytes s
      else case (if nbytes = 0 then free sb ptr s else Some (Inr s)) of
        None \<Rightarrow> None
      | Some r \<Rightarrow> obnd r (\<lambda>s.
          obnd (hget (ptr - META) s) (\<lambda>p.
          obnd (kassert (magic_head p = MAGIC_HEAD) ''p->magic_head == MAGIC_HEAD''
            (kassert (magic_end p = MAGIC_END) ''p->magic_end == MAGIC_END'' (Inr ()))) (\<lambda>_.
          case malloc sb nbytes s of
            None \<Rightarrow> None
          | Some r \<Rightarrow> obnd r (\<lambda>(n, s).
              obnd (hget (ptr - META) s) (\<lambda>p.
              obnd (copy n ptr (unat (if nbytes < bsize p then nbytes else bsize p)) s) (\<lambda>s.
              case free sb ptr s of
                None \<Rightarrow> None
              | Some r \<Rightarrow> obnd r (\<lambda>s. Some (Inr (n, s))))))))))"

section \<open>The chain of blocks\<close>

text \<open>
  A heap is described by the address of its first header and the list of its blocks, each with its
  size and whether it is free. The blocks lie one behind the other: \<open>bseg B a xs z\<close> says that the headers
  of \<open>xs\<close> are in memory from address \<open>a\<close> on, each linked to the next and the last one to \<open>z\<close>.
\<close>

definition blk :: "nat \<Rightarrow> bool \<Rightarrow> u32 \<Rightarrow> block_meta" where
  "blk n f z = \<lparr>magic_head = MAGIC_HEAD, bsize = of_nat n, bfree = f, bnext = z, magic_end = MAGIC_END\<rparr>"

lemma blk_simps [simp]:
  "magic_head (blk n f z) = MAGIC_HEAD" "bsize (blk n f z) = of_nat n" "bfree (blk n f z) = f" "bnext (blk n f z) = z"
  "magic_end (blk n f z) = MAGIC_END"
  by (simp_all add: blk_def)

fun span :: "(nat \<times> bool) list \<Rightarrow> nat" where
  "span [] = 0"
| "span ((n, f) # xs) = 20 + n + span xs"

fun bseg :: "(u32 \<Rightarrow> block_meta option) \<Rightarrow> nat \<Rightarrow> (nat \<times> bool) list \<Rightarrow> u32 \<Rightarrow> bool" where
  "bseg B a [] z \<longleftrightarrow> True"
| "bseg B a ((n, f) # xs) z \<longleftrightarrow>
     B (of_nat a) = Some (blk n f (if xs = [] then z else of_nat (a + 20 + n))) \<and> bseg B (a + 20 + n) xs z"

fun allocs :: "nat \<Rightarrow> (nat \<times> bool) list \<Rightarrow> (nat \<times> nat) set" where
  "allocs a [] = {}"
| "allocs a ((n, f) # xs) = (if f then {} else {(a + 20, n)}) \<union> allocs (a + 20 + n) xs"

lemma span_append [simp]: "span (xs @ ys) = span xs + span ys"
  by (induction xs) auto

lemma span_ge: "xs \<noteq> [] \<Longrightarrow> 20 \<le> span xs"
  by (cases xs) auto

lemma allocs_append: "allocs a (xs @ ys) = allocs a xs \<union> allocs (a + span xs) ys"
  by (induction xs arbitrary: a) (auto simp: algebra_simps)

lemma bseg_append:
  "bseg B a (xs @ ys) z \<longleftrightarrow> bseg B a xs (if ys = [] then z else of_nat (a + span xs)) \<and> bseg B (a + span xs) ys z"
  by (induction xs arbitrary: a) (auto simp: algebra_simps)

lemma bseg_cong:
  assumes "bseg B a xs z" and "\<And>x. a \<le> x \<Longrightarrow> x < a + span xs \<Longrightarrow> C (of_nat x) = B (of_nat x)"
  shows "bseg C a xs z"
  using assms
proof (induction xs arbitrary: a)
  case (Cons x xs)
  obtain n f where x: "x = (n, f)" by (cases x)
  have "bseg C (a + 20 + n) xs z" by (rule Cons.IH) (use Cons.prems x in auto)
  then show ?case using Cons.prems(1) Cons.prems(2) [of a] by (simp add: x)
qed simp

lemma addr_inj: "x < 4294967296 \<Longrightarrow> y < 4294967296 \<Longrightarrow> (of_nat x :: u32) = of_nat y \<Longrightarrow> x = y"
  by (metis unat_of_nat_u32)

lemma bseg_upd:
  assumes "bseg B a xs z" and "w < a \<or> a + span xs \<le> w" and "w < 4294967296" and "a + span xs \<le> 4294967296"
  shows "bseg (B(of_nat w \<mapsto> b)) a xs z"
proof (rule bseg_cong [OF assms(1)])
  fix x
  assume x: "a \<le> x" "x < a + span xs"
  then have "x \<noteq> w" "x < 4294967296" using assms(2,4) by auto
  then have "(of_nat x :: u32) \<noteq> of_nat w" using addr_inj [OF _ assms(3)] by blast
  then show "(B(of_nat w \<mapsto> b)) (of_nat x) = B (of_nat x)" by simp
qed

text \<open>Two allocated blocks and the header in front of each do not overlap.\<close>

lemma allocs_range: "(p, n) \<in> allocs a xs \<Longrightarrow> a + 20 \<le> p \<and> p + n \<le> a + span xs"
  by (induction xs arbitrary: a) (auto split: if_splits, fastforce+)

lemma allocs_disjoint:
  "(p, n) \<in> allocs a xs \<Longrightarrow> (q, k) \<in> allocs a xs \<Longrightarrow> (p, n) = (q, k) \<or> p + n + 20 \<le> q \<or> q + k + 20 \<le> p"
proof (induction xs arbitrary: a)
  case (Cons x xs)
  obtain m f where "x = (m, f)" by (cases x)
  with Cons allocs_range [of p n "a + 20 + m" xs] allocs_range [of q k "a + 20 + m" xs] show ?case
    by (auto split: if_splits)
qed simp

section \<open>Searching the chain\<close>

lemma hget_bseg:
  assumes "bseg (blocks s) a ((n, f) # xs) z" and "0 < a" and "a < 4294967296"
  shows "hget (of_nat a) s = Inr (blk n f (if xs = [] then z else of_nat (a + 20 + n)))" and "(of_nat a :: u32) \<noteq> 0"
proof -
  show "(of_nat a :: u32) \<noteq> 0" using addr_inj [of a 0] assms(2,3) by auto
  then show "hget (of_nat a) s = Inr (blk n f (if xs = [] then z else of_nat (a + 20 + n)))"
    using assms(1) by (simp add: hget_def)
qed

text \<open>Blocks in front of the last one that are taken or too small are passed.\<close>

lemma malloc_loop_skip:
  assumes "bseg (blocks s) a (pre @ xs) z" and "xs \<noteq> []" and "\<forall>(n, f) \<in> set pre. f \<longrightarrow> n < k + 20"
    and "0 < a" and "a + span pre + 20 \<le> 4294967296" and "k + 20 < 4294967296"
  shows "malloc_loop sb (of_nat k) (of_nat a) s = malloc_loop sb (of_nat k) (of_nat (a + span pre)) s"
  using assms
proof (induction pre arbitrary: a)
  case (Cons x pre)
  obtain n f where x: "x = (n, f)" by (cases x)
  have a: "a < 4294967296" "a + 20 + n < 4294967296" "n < 4294967296" using Cons.prems(5) by (auto simp: x)
  have g: "hget (of_nat a) s = Inr (blk n f (of_nat (a + 20 + n)))" "(of_nat a :: u32) \<noteq> 0"
    using hget_bseg [of s a n f "pre @ xs" z] Cons.prems(1,2,4) a(1) by (auto simp: x)
  have nz: "(of_nat (a + 20 + n) :: u32) \<noteq> 0" using addr_inj [of "a + 20 + n" 0] a(2) Cons.prems(4) by auto
  have small: "\<not> of_nat k + META \<le> (of_nat n :: u32)" if f
  proof -
    have "unat (of_nat n :: u32) = n" by (rule unat_of_nat_u32) (rule a(3))
    moreover have "of_nat k + META = (of_nat (k + 20) :: u32)" by (simp add: META_def)
    moreover have "unat (of_nat (k + 20) :: u32) = k + 20" by (rule unat_of_nat_u32) (rule Cons.prems(6))
    ultimately show ?thesis using Cons.prems(3) that by (auto simp: x word_le_nat_alt)
  qed
  have "malloc_loop sb (of_nat k) (of_nat a) s = malloc_loop sb (of_nat k) (of_nat (a + 20 + n)) s"
    using g nz small by (subst malloc_loop.simps) (auto simp del: of_nat_add)
  also have "\<dots> = malloc_loop sb (of_nat k) (of_nat (a + 20 + n + span pre)) s"
    by (rule Cons.IH) (use Cons.prems in \<open>auto simp: x\<close>)
  finally show ?case by (simp add: x algebra_simps)
qed simp

text \<open>A free block that is large enough is split.\<close>

lemma malloc_loop_split:
  assumes "bseg (blocks s) a ((n, True) # xs) z" and "k + 20 \<le> n" and "0 < a" and "a + 20 + n + span xs \<le> 4294967296"
  shows "\<exists>s'. malloc_loop sb (of_nat k) (of_nat a) s = Some (Inr (of_nat (a + 20), s')) \<and>
    bseg (blocks s') a ((k, False) # (n - k - 20, True) # xs) z \<and> first_block s' = first_block s \<and> bytes s' = bytes s \<and> os s' = os s \<and>
    (\<forall>x. x < a \<longrightarrow> blocks s' (of_nat x) = blocks s (of_nat x))"
proof -
  let ?b = "blk n True (if xs = [] then z else of_nat (a + 20 + n))"
  have a: "a < 4294967296" "n < 4294967296" "k + 20 < 4294967296" "a + 20 + k < 4294967296" using assms(2,4) by auto
  have u: "unat (of_nat n :: u32) = n" "of_nat k + META = (of_nat (k + 20) :: u32)" "unat (of_nat (k + 20) :: u32) = k + 20"
    using unat_of_nat_u32 [OF a(2)] unat_of_nat_u32 [OF a(3)] by (simp_all add: META_def)
  then have fits: "of_nat k + META \<le> (of_nat n :: u32)" "\<not> (of_nat n :: u32) < of_nat k + META"
    using assms(2) by (auto simp: word_le_nat_alt word_less_nat_alt)
  define s' where "s' = split_block (of_nat k) (of_nat a) ?b s"
  have run: "malloc_loop sb (of_nat k) (of_nat a) s = Some (Inr (of_nat (a + 20), s'))"
    using hget_bseg [OF assms(1,3) a(1)] fits by (subst malloc_loop.simps) (simp add: s'_def META_def)
  have w: "of_nat a + META + of_nat k = (of_nat (a + 20 + k) :: u32)" by (simp add: META_def)
  have rest: "(of_nat n :: u32) - of_nat k - META = of_nat (n - k - 20)" using assms(2) by (simp add: META_def of_nat_diff)
  have B: "blocks s' = (blocks s)(of_nat a \<mapsto> blk k False (of_nat (a + 20 + k)),
      of_nat (a + 20 + k) \<mapsto> blk (n - k - 20) True (if xs = [] then z else of_nat (a + 20 + n)))"
    unfolding s'_def split_block_def hput_def w by (simp add: rest) (simp add: blk_def)
  have ne: "(of_nat a :: u32) \<noteq> of_nat (a + 20 + k)" using addr_inj [OF a(1,4)] by auto
  have e: "a + 20 + k + 20 + (n - k - 20) = a + 20 + n" using assms(2) by simp
  have "bseg (blocks s) (a + 20 + n) xs z" using assms(1) by simp
  then have "bseg (blocks s') (a + 20 + n) xs z"
    unfolding B by (intro bseg_upd) (use assms(2,4) a in auto)
  then have "bseg (blocks s') a ((k, False) # (n - k - 20, True) # xs) z"
    using ne unfolding bseg.simps e by (simp add: B)
  moreover have "blocks s' (of_nat x) = blocks s (of_nat x)" if "x < a" for x
    using that addr_inj [of x a] addr_inj [of x "a + 20 + k"] a by (auto simp: B)
  ultimately show ?thesis using run by (auto simp: s'_def split_block_def hput_def)
qed

section \<open>Allocation over a break that can grow\<close>

text \<open>
  The whole heap: the chain starts above \<open>lo\<close>, fills the memory up to the break, and its last block is
  free, so that the search always ends there at the latest.
\<close>

definition heap_ok :: "('s \<Rightarrow> bool) \<Rightarrow> ('s \<Rightarrow> nat) \<Rightarrow> nat \<Rightarrow> 's mheap \<Rightarrow> nat \<Rightarrow> (nat \<times> bool) list \<Rightarrow> bool" where
  "heap_ok ok brk lo s a xs \<longleftrightarrow> first_block s = of_nat a \<and> lo \<le> a \<and> xs \<noteq> [] \<and> snd (last xs) \<and> bseg (blocks s) a xs 0 \<and>
     a + span xs = brk (os s) \<and> ok (os s)"

context brk_area
begin

lemma heap_okD:
  assumes "heap_ok ok brk lo s a xs"
  shows "first_block s = of_nat a" "lo \<le> a" "0 < a" "xs \<noteq> []" "snd (last xs)" "bseg (blocks s) a xs 0" "a + span xs = brk (os s)" "ok (os s)"
    "a + span xs \<le> hi" "a + span xs < 4294967296" "a < 4294967296"
  using assms area ok_brk [of "os s"] by (auto simp: heap_ok_def)

lemma malloc_loop_grow:
  assumes "heap_ok ok brk lo s a (ys @ [(n, True)])" and "n < k + 20" and "k + 20 \<le> n + 4096 * m" and "4096 * m \<le> room (os s)"
  shows "\<exists>s' n'. malloc_loop sb (of_nat k) (of_nat (a + span ys)) s = malloc_loop sb (of_nat k) (of_nat (a + span ys)) s' \<and>
    heap_ok ok brk lo s' a (ys @ [(n', True)]) \<and> k + 20 \<le> n' \<and> bytes s' = bytes s \<and> room (os s) \<le> room (os s') + 4096 * m"
  using assms
proof (induction m arbitrary: n s)
  case (Suc m)
  note D = heap_okD [OF Suc.prems(1)]
  let ?p = "a + span ys"
  have sg: "bseg (blocks s) a ys (of_nat ?p)" "bseg (blocks s) ?p [(n, True)] 0" using D(6) by (auto simp: bseg_append)
  have p: "0 < ?p" "?p < 4294967296" "n < 4294967296" using D(3,10) by auto
  obtain o' where o': "sb 4096 (os s) = Inr (of_nat (brk (os s)), o')" "ok o'" "brk o' = brk (os s) + 4096" "room (os s) \<le> room o' + 4096"
    using sb_grow [OF D(8)] Suc.prems(4) by auto
  define s1 where "s1 = hput (of_nat ?p) (blk (n + 4096) True 0) (s\<lparr>os := o'\<rparr>)"
  have k: "k + 20 < 4294967296"
    using Suc.prems(3,4) ok_brk [OF D(8)] D(7) area by auto
  have "unat (of_nat n :: u32) = n" "of_nat k + META = (of_nat (k + 20) :: u32)" "unat (of_nat (k + 20) :: u32) = k + 20"
    using unat_of_nat_u32 [OF p(3)] unat_of_nat_u32 [OF k] by (simp_all add: META_def)
  then have small: "(of_nat n :: u32) < of_nat k + META" using Suc.prems(2) by (simp add: word_less_nat_alt)
  have "(of_nat n + 4096 :: u32) = of_nat (n + 4096)" by simp
  then have "malloc_loop sb (of_nat k) (of_nat ?p) s = malloc_loop sb (of_nat k) (of_nat ?p) s1"
    using hget_bseg [OF sg(2) p(1,2)] small o'(1)
    by (subst malloc_loop.simps) (simp add: s1_def sys_def PAGE_SIZE_def blk_def del: of_nat_add)
  moreover have "bseg (blocks s1) a ys (of_nat ?p)"
    unfolding s1_def hput_def using bseg_upd [OF sg(1), of ?p] p(2) D(10) by simp
  then have ok1: "heap_ok ok brk lo s1 a (ys @ [(n + 4096, True)])"
    using D o' by (simp add: heap_ok_def bseg_append) (simp add: s1_def hput_def)
  moreover have "bytes s1 = bytes s" "os s1 = o'" by (simp_all add: s1_def hput_def)
  ultimately show ?case
  proof (cases "n + 4096 < k + 20")
    case True
    have "4096 * m \<le> room (os s1)" using Suc.prems(4) o'(4) \<open>os s1 = o'\<close> by simp
    from Suc.IH [OF ok1 True _ this] Suc.prems(3) obtain s' n' where
      "malloc_loop sb (of_nat k) (of_nat ?p) s1 = malloc_loop sb (of_nat k) (of_nat ?p) s'" "heap_ok ok brk lo s' a (ys @ [(n', True)])"
      "k + 20 \<le> n'" "bytes s' = bytes s1" "room (os s1) \<le> room (os s') + 4096 * m" by auto
    with \<open>malloc_loop sb (of_nat k) (of_nat ?p) s = _\<close> \<open>bytes s1 = bytes s\<close> \<open>os s1 = o'\<close> o'(4) show ?thesis
      by (intro exI [of _ s'] exI [of _ n']) (simp del: of_nat_add)
  next
    case False
    with \<open>malloc_loop sb (of_nat k) (of_nat ?p) s = _\<close> \<open>bytes s1 = bytes s\<close> \<open>os s1 = o'\<close> o'(4) ok1 show ?thesis
      by (intro exI [of _ s1] exI [of _ "n + 4096"]) (simp del: of_nat_add)
  qed
qed simp

lemma split_at:
  assumes "heap_ok ok brk lo s a (ys @ (n, True) # zs)" and "k + 20 \<le> n"
  shows "\<exists>s'. malloc_loop sb (of_nat k) (of_nat (a + span ys)) s = Some (Inr (of_nat (a + span ys + 20), s')) \<and>
    heap_ok ok brk lo s' a (ys @ (k, False) # (n - k - 20, True) # zs) \<and> bytes s' = bytes s \<and> os s' = os s"
proof -
  note D = heap_okD [OF assms(1)]
  have sg: "bseg (blocks s) a ys (of_nat (a + span ys))" "bseg (blocks s) (a + span ys) ((n, True) # zs) 0"
    using D(6) unfolding bseg_append by auto
  obtain s' where s': "malloc_loop sb (of_nat k) (of_nat (a + span ys)) s = Some (Inr (of_nat (a + span ys + 20), s'))"
    "bseg (blocks s') (a + span ys) ((k, False) # (n - k - 20, True) # zs) 0" "first_block s' = first_block s" "bytes s' = bytes s" "os s' = os s"
    "\<And>x. x < a + span ys \<Longrightarrow> blocks s' (of_nat x) = blocks s (of_nat x)"
    using malloc_loop_split [OF sg(2) assms(2)] D(3,10) by auto
  have "bseg (blocks s') a ys (of_nat (a + span ys))" by (rule bseg_cong [OF sg(1)]) (use s'(6) in auto)
  moreover have "snd (last ((n - k - 20, True) # zs))" using D(5) by (cases zs) auto
  ultimately have "heap_ok ok brk lo s' a (ys @ (k, False) # (n - k - 20, True) # zs)"
    unfolding heap_ok_def bseg_append using D(1,2,7,8) s'(2,3,5) assms(2) by (auto simp del: of_nat_add)
  with s'(1,4,5) show ?thesis by blast
qed

lemma alloc_new:
  assumes "xs = ys @ (n, True) # zs" and "k + 20 \<le> n"
  shows "allocs a (ys @ (k, False) # (n - k - 20, True) # zs) = insert (a + span ys + 20, k) (allocs a xs)"
    and "a + span ys + 20 \<notin> fst ` allocs a xs"
proof -
  have e: "a + span ys + 20 + k + 20 + (n - k - 20) = a + span ys + 20 + n" using assms(2) by simp
  show "allocs a (ys @ (k, False) # (n - k - 20, True) # zs) = insert (a + span ys + 20, k) (allocs a xs)"
    by (simp only: assms(1) allocs_append allocs.simps e if_True if_False) blast
  show "a + span ys + 20 \<notin> fst ` allocs a xs"
    using allocs_range [of _ _ a ys] allocs_range [of _ _ "a + span ys + 20 + n" zs] by (fastforce simp: assms(1) allocs_append)
qed

lemma malloc_loop_ok:
  assumes "heap_ok ok brk lo s a xs" and "k + 4116 \<le> room (os s)"
  shows "\<exists>s' ys zs. malloc_loop sb (of_nat k) (first_block s) s = Some (Inr (of_nat (a + span ys + 20), s')) \<and>
    heap_ok ok brk lo s' a (ys @ (k, False) # zs) \<and> allocs a (ys @ (k, False) # zs) = insert (a + span ys + 20, k) (allocs a xs) \<and>
    a + span ys + 20 \<notin> fst ` allocs a xs \<and> bytes s' = bytes s \<and> room (os s) \<le> room (os s') + (k + 4116)"
proof -
  note D = heap_okD [OF assms(1)]
  have k: "k + 20 < 4294967296" using assms(2) ok_brk [OF D(8)] area by auto
  show ?thesis
  proof (cases "\<exists>x\<in>set xs. snd x \<and> k + 20 \<le> fst x")
    case True
    then obtain ys x zs where xs: "xs = ys @ x # zs" "snd x" "k + 20 \<le> fst x" "\<forall>y\<in>set ys. \<not> (snd y \<and> k + 20 \<le> fst y)"
      using split_list_first_propE [of xs "\<lambda>x. snd x \<and> k + 20 \<le> fst x"] by metis
    obtain n where x: "x = (n, True)" using xs(2) by (cases x) auto
    have ok': "heap_ok ok brk lo s a (ys @ (n, True) # zs)" using assms(1) xs(1) x by simp
    have "malloc_loop sb (of_nat k) (of_nat a) s = malloc_loop sb (of_nat k) (of_nat (a + span ys)) s"
      using D(3,6,10) k xs(4) x by (intro malloc_loop_skip [where xs = "x # zs" and z = 0]) (auto simp: xs(1))
    moreover obtain s' where "malloc_loop sb (of_nat k) (of_nat (a + span ys)) s = Some (Inr (of_nat (a + span ys + 20), s'))"
      "heap_ok ok brk lo s' a (ys @ (k, False) # (n - k - 20, True) # zs)" "bytes s' = bytes s" "os s' = os s"
      using split_at [OF ok', of k] xs(3) x by (auto simp del: of_nat_add)
    ultimately show ?thesis
      using alloc_new [of xs ys n zs k a] xs(1,3) x D(1)
      by (intro exI [of _ s'] exI [of _ ys] exI [of _ "(n - k - 20, True) # zs"]) (simp del: of_nat_add)
  next
    case False
    obtain ys n where xs: "xs = ys @ [(n, True)]" using D(4,5) by (metis append_butlast_last_id prod.collapse)
    then have n: "n < k + 20" "\<forall>(m, f) \<in> set ys. f \<longrightarrow> m < k + 20" using False by auto
    define m where "m = (k + 20 - n + 4095) div 4096"
    have m: "k + 20 \<le> n + 4096 * m" "4096 * m \<le> k + 4116" using n(1) unfolding m_def by auto
    obtain s1 n' where s1: "malloc_loop sb (of_nat k) (of_nat (a + span ys)) s = malloc_loop sb (of_nat k) (of_nat (a + span ys)) s1"
      "heap_ok ok brk lo s1 a (ys @ [(n', True)])" "k + 20 \<le> n'" "bytes s1 = bytes s" "room (os s) \<le> room (os s1) + 4096 * m"
      using malloc_loop_grow [OF assms(1) [unfolded xs] n(1) m(1)] m(2) assms(2) by (auto simp del: of_nat_add)
    have "malloc_loop sb (of_nat k) (of_nat a) s = malloc_loop sb (of_nat k) (of_nat (a + span ys)) s"
      using D(3,6,10) k n(2) by (intro malloc_loop_skip [where xs = "[(n, True)]" and z = 0]) (auto simp: xs)
    moreover have "allocs a (ys @ [(n', True)]) = allocs a xs" by (simp add: xs allocs_append)
    moreover obtain s' where "malloc_loop sb (of_nat k) (of_nat (a + span ys)) s1 = Some (Inr (of_nat (a + span ys + 20), s'))"
      "heap_ok ok brk lo s' a (ys @ [(k, False), (n' - k - 20, True)])" "bytes s' = bytes s1" "os s' = os s1"
      using split_at [OF s1(2,3)] by (auto simp del: of_nat_add)
    ultimately show ?thesis
      using alloc_new [of "ys @ [(n', True)]" ys n' "[]" k a] s1(1,3,4,5) m(2) D(1)
      by (intro exI [of _ s'] exI [of _ ys] exI [of _ "[(n' - k - 20, True)]"]) (simp del: of_nat_add)
  qed
qed

end

section \<open>Releasing blocks\<close>

text \<open>A header written over an old one that fits between the blocks in front of it and behind it.\<close>

lemma bseg_replace:
  assumes "bseg B a us (of_nat p)" and "p = a + span us" and "bseg B (p + 20 + n) zs z" and "p + 20 + n + span zs \<le> 4294967296"
  shows "bseg (B(of_nat p \<mapsto> blk n f (if zs = [] then z else of_nat (p + 20 + n)))) a (us @ (n, f) # zs) z"
proof -
  let ?B = "B(of_nat p \<mapsto> blk n f (if zs = [] then z else of_nat (p + 20 + n)))"
  have "bseg ?B a us (of_nat p)" by (rule bseg_upd [OF assms(1)]) (use assms(2,4) in auto)
  moreover have "bseg ?B (p + 20 + n) zs z" by (rule bseg_upd [OF assms(3)]) (use assms(4) in auto)
  ultimately show ?thesis unfolding bseg_append assms(2) by (simp del: of_nat_add)
qed

lemma bseg_parts:
  assumes "bseg B a (us @ (n, f) # zs) z"
  shows "bseg B a us (of_nat (a + span us))" and "bseg B (a + span us + 20 + n) zs z"
    and "B (of_nat (a + span us)) = Some (blk n f (if zs = [] then z else of_nat (a + span us + 20 + n)))"
  using assms by (simp_all add: bseg_append del: of_nat_add)

text \<open>The addresses of the headers of a chain.\<close>

fun heads :: "nat \<Rightarrow> (nat \<times> bool) list \<Rightarrow> nat set" where
  "heads a [] = {}"
| "heads a ((n, f) # xs) = insert a (heads (a + 20 + n) xs)"

lemma heads_range: "u \<in> heads a xs \<Longrightarrow> a \<le> u \<and> u < a + span xs"
  by (induction xs arbitrary: a) (auto, fastforce+)

lemma heads_append: "heads a (xs @ ys) = heads a xs \<union> heads (a + span xs) ys"
  by (induction xs arbitrary: a) (auto simp: algebra_simps)

lemma free_loop_walk:
  assumes "bseg (blocks s) a (ys @ x # zs) z" and "0 < a" and "a + span ys + 20 \<le> 4294967296"
    and "\<And>u. u \<in> heads a ys \<Longrightarrow> of_nat u + META \<noteq> ptr"
  shows "free_loop ptr prev (of_nat a) s =
    free_loop ptr (if ys = [] then prev else of_nat (a + span (butlast ys))) (of_nat (a + span ys)) s"
  using assms
proof (induction ys arbitrary: a prev)
  case (Cons y ys)
  obtain n f where y: "y = (n, f)" by (cases y)
  have a: "a < 4294967296" "a + 20 + n < 4294967296" using Cons.prems(3) by (auto simp: y)
  have g: "hget (of_nat a) s = Inr (blk n f (of_nat (a + 20 + n)))"
    using hget_bseg [of s a n f "ys @ x # zs" z] Cons.prems(1,2) a(1) by (auto simp: y)
  have nz: "(of_nat (a + 20 + n) :: u32) \<noteq> 0" using addr_inj [of "a + 20 + n" 0] a(2) by auto
  have "of_nat a + META \<noteq> ptr" using Cons.prems(4) [of a] by (simp add: y)
  then have "free_loop ptr prev (of_nat a) s = free_loop ptr (of_nat a) (of_nat (a + 20 + n)) s"
    using g nz by (subst free_loop.simps) (simp del: of_nat_add)
  also have "\<dots> = free_loop ptr (if ys = [] then of_nat a else of_nat (a + 20 + n + span (butlast ys))) (of_nat (a + 20 + n + span ys)) s"
    by (rule Cons.IH) (use Cons.prems in \<open>auto simp: y\<close>)
  finally show ?case by (simp add: y add.assoc del: of_nat_add)
qed simp

lemma release_next_ok:
  assumes "bseg (blocks s) a (ys @ (n, f) # zs) 0" and "zs \<noteq> []" and "0 < a" and "a + span ys + 20 + n + span zs < 4294967296"
    and "p = a + span ys" and "b = blk n f (of_nat (p + 20 + n))"
  shows "\<exists>n' zs' s'. release_next (of_nat p) b s = Inr (blk n' True (if zs' = [] then 0 else of_nat (p + 20 + n')), s') \<and>
    bseg (blocks s') a (ys @ (n', True) # zs') 0 \<and> n' + span zs' = n + span zs \<and>
    allocs (p + 20 + n') zs' = allocs (p + 20 + n) zs \<and> (zs' = [] \<or> snd (last zs') = snd (last zs)) \<and>
    first_block s' = first_block s \<and> bytes s' = bytes s \<and> os s' = os s"
proof -
  obtain m g ws where zs: "zs = (m, g) # ws" using assms(2) by (metis list.exhaust prod.exhaust)
  note P = bseg_parts [OF assms(1), folded assms(5)]
  have b0: "p + 20 + n < 4294967296" "0 < p + 20 + n" using assms(4,5) by auto
  then have nz: "(of_nat (p + 20 + n) :: u32) \<noteq> 0" using addr_inj [of "p + 20 + n" 0] by auto
  have h: "hget (of_nat (p + 20 + n)) s = Inr (blk m g (if ws = [] then 0 else of_nat (p + 20 + n + 20 + m)))"
    using hget_bseg [OF P(2) [unfolded zs]] b0 by simp
  show ?thesis
  proof (cases g)
    case False
    define s' where "s' = hput (of_nat p) (blk n True (of_nat (p + 20 + n))) s"
    have "release_next (of_nat p) b s = Inr (blk n True (of_nat (p + 20 + n)), s')"
      using nz h False by (simp add: release_next_def assms(6) s'_def Let_def del: of_nat_add) (simp add: blk_def)
    moreover have "bseg (blocks s') a (ys @ (n, True) # zs) 0"
      using bseg_replace [OF P(1) assms(5) P(2), of True] assms(4,5) zs by (simp add: s'_def hput_def del: of_nat_add)
    ultimately show ?thesis using zs
      by (intro exI [of _ n] exI [of _ zs] exI [of _ s']) (simp add: s'_def hput_def del: of_nat_add)
  next
    case True
    define n' where "n' = n + 20 + m"
    have e: "p + 20 + n' = p + 20 + n + 20 + m" by (simp add: n'_def)
    let ?z = "if ws = [] then 0 else of_nat (p + 20 + n')"
    define s' where "s' = hput (of_nat p) (blk n' True ?z) s"
    have "(of_nat n + (of_nat m + META) :: u32) = of_nat n'" by (simp add: n'_def META_def)
    then have "release_next (of_nat p) b s = Inr (blk n' True ?z, s')"
      using nz h True by (simp add: release_next_def assms(6) s'_def e Let_def del: of_nat_add) (simp add: blk_def)
    moreover have "bseg (blocks s) (p + 20 + n') ws 0" using P(2) unfolding zs e by simp
    then have "bseg (blocks s') a (ys @ (n', True) # ws) 0"
      using bseg_replace [OF P(1) assms(5), of n' ws 0 True] assms(4,5) zs by (simp add: s'_def hput_def n'_def del: of_nat_add)
    moreover have "allocs (p + 20 + n') ws = allocs (p + 20 + n) zs" unfolding zs e using True by simp
    ultimately show ?thesis using zs
      by (intro exI [of _ n'] exI [of _ ws] exI [of _ s']) (simp add: s'_def hput_def n'_def del: of_nat_add)
  qed
qed

lemma release_prev_ok:
  assumes "bseg (blocks s) a (ys @ (n, True) # zs) 0" and "0 < a" and "a + span ys + 20 + n + span zs < 4294967296"
    and "b = blk n True (if zs = [] then 0 else of_nat (a + span ys + 20 + n))"
  shows "\<exists>s' xs. release_prev (if ys = [] then 0 else of_nat (a + span (butlast ys))) b s = Inr s' \<and> bseg (blocks s') a xs 0 \<and>
    xs \<noteq> [] \<and> span xs = span (ys @ (n, True) # zs) \<and> allocs a xs = allocs a (ys @ (n, True) # zs) \<and>
    snd (last xs) = snd (last (ys @ (n, True) # zs)) \<and> first_block s' = first_block s \<and> bytes s' = bytes s \<and> os s' = os s"
proof (cases "ys = []")
  case True
  then show ?thesis using assms(1) by (intro exI [of _ s] exI [of _ "(n, True) # zs"]) (simp add: release_prev_def)
next
  case False
  then obtain us m g where ys: "ys = us @ [(m, g)]" by (metis append_butlast_last_id prod.exhaust)
  define q where "q = a + span us"
  have e: "a + span ys = q + 20 + m" "butlast ys = us" by (simp_all add: ys q_def)
  have sg: "bseg (blocks s) a (us @ (m, g) # (n, True) # zs) 0" using assms(1) by (simp add: ys)
  note P = bseg_parts [OF sg, folded q_def]
  have q: "0 < q" "q < 4294967296" using assms(2,3) by (auto simp: ys q_def)
  then have nz: "(of_nat q :: u32) \<noteq> 0" using addr_inj [of q 0] by auto
  have h: "hget (of_nat q) s = Inr (blk m g (of_nat (q + 20 + m)))" using P(3) nz by (simp add: hget_def del: of_nat_add)
  show ?thesis
  proof (cases g)
    case False
    then have "release_prev (of_nat q) b s = Inr s" using nz h by (simp add: release_prev_def del: of_nat_add)
    then show ?thesis using assms(1) \<open>ys \<noteq> []\<close> e
      by (intro exI [of _ s] exI [of _ "ys @ (n, True) # zs"]) (simp add: q_def del: of_nat_add)
  next
    case True
    define n' where "n' = m + 20 + n"
    have e': "q + 20 + n' = q + 20 + m + 20 + n" by (simp add: n'_def)
    let ?z = "if zs = [] then 0 else of_nat (q + 20 + n')"
    define s' where "s' = hput (of_nat q) (blk n' True ?z) s"
    have "(of_nat m + (of_nat n + META) :: u32) = of_nat n'" by (simp add: n'_def META_def)
    moreover have "bnext b = ?z" unfolding assms(4) e(1) e' by simp
    ultimately have "release_prev (of_nat q) b s = Inr s'"
      using nz h True assms(4) by (simp add: release_prev_def s'_def del: of_nat_add) (simp add: blk_def)
    moreover have "bseg (blocks s) (q + 20 + n') zs 0" using P(2) unfolding e' by simp
    then have "bseg (blocks s') a (us @ (n', True) # zs) 0"
      using bseg_replace [OF P(1) q_def, of n' zs 0 True] assms(3) by (simp add: s'_def hput_def e e' del: of_nat_add)
    moreover have "allocs a (us @ (n', True) # zs) = allocs a (ys @ (n, True) # zs)"
      using True by (simp add: allocs_append ys q_def n'_def algebra_simps)
    ultimately show ?thesis using e \<open>ys \<noteq> []\<close>
      by (intro exI [of _ s'] exI [of _ "us @ (n', True) # zs"]) (simp add: s'_def hput_def q_def n'_def ys del: of_nat_add)
  qed
qed

lemma last_block_ok:
  assumes "bseg (blocks s) a (ys @ [(n, f)]) 0" and "0 < a" and "a + span ys + 20 \<le> 4294967296"
  shows "last_block (of_nat a) s = Some (Inr (of_nat (a + span ys), blk n f 0))"
  using assms
proof (induction ys arbitrary: a)
  case Nil
  then show ?case using hget_bseg [of s a n f "[]" 0] by (subst last_block.simps) simp
next
  case (Cons y ys)
  obtain m g where y: "y = (m, g)" by (cases y)
  have a: "a < 4294967296" "a + 20 + m < 4294967296" using Cons.prems(3) by (auto simp: y)
  have h: "hget (of_nat a) s = Inr (blk m g (of_nat (a + 20 + m)))"
    using hget_bseg [of s a m g "ys @ [(n, f)]" 0] Cons.prems(1,2) a(1) by (auto simp: y)
  have nz: "(of_nat (a + 20 + m) :: u32) \<noteq> 0" using addr_inj [of "a + 20 + m" 0] a(2) by auto
  have "last_block (of_nat (a + 20 + m)) s = Some (Inr (of_nat (a + 20 + m + span ys), blk n f 0))"
    by (rule Cons.IH) (use Cons.prems in \<open>auto simp: y\<close>)
  then show ?case using h nz by (subst last_block.simps) (simp add: y add.assoc del: of_nat_add)
qed

lemma sint_minus: "d < 2147483648 \<Longrightarrow> sint (- of_nat d :: u32) = - int d"
proof -
  assume d: "d < 2147483648"
  have "sint (- of_nat d :: u32) = signed_take_bit 31 (- int d)"
    using signed_of_int [of "- int d", where ?'a = int and ?'b = 32] by simp
  also have "\<dots> = - int d" by (rule signed_take_bit_int_eq_self) (use d in auto)
  finally show ?thesis .
qed

context brk_area
begin

lemma free_loop_ok:
  assumes "heap_ok ok brk lo s a xs" and "xs = ys @ (n, False) # zs"
  shows "\<exists>s' xs'. free_loop (of_nat (a + span ys + 20)) 0 (first_block s) s = Some (Inr s') \<and> heap_ok ok brk lo s' a xs' \<and>
    allocs a xs' = allocs a xs - {(a + span ys + 20, n)} \<and> bytes s' = bytes s \<and> os s' = os s"
proof -
  note D = heap_okD [OF assms(1)]
  let ?p = "a + span ys" and ?prev = "if ys = [] then 0 else of_nat (a + span (butlast ys))"
  have zs: "zs \<noteq> []" using D(5) by (auto simp: assms(2))
  have b: "?p + 20 + n + span zs < 4294967296" using D(10) by (simp add: assms(2))
  have META: "of_nat u + META = of_nat (u + 20)" for u :: nat by (simp add: META_def)
  have "of_nat u + META \<noteq> of_nat (?p + 20)" if "u < ?p" for u
    unfolding META using addr_inj [of "u + 20" "?p + 20"] that b by auto
  then have walk: "free_loop (of_nat (?p + 20)) 0 (of_nat a) s = free_loop (of_nat (?p + 20)) ?prev (of_nat ?p) s"
    by (intro free_loop_walk [where x = "(n, False)" and zs = zs and z = 0]) (use D(3,6) b assms(2) heads_range in \<open>auto simp del: of_nat_add\<close>)
  have sg: "bseg (blocks s) a (ys @ (n, False) # zs) 0" using D(6) by (simp add: assms(2))
  have h: "hget (of_nat ?p) s = Inr (blk n False (of_nat (?p + 20 + n)))"
    using bseg_parts(3) [OF sg] addr_inj [of ?p 0] b D(3) zs by (auto simp: hget_def simp del: of_nat_add)
  obtain n' zs' s1 where r1: "release_next (of_nat ?p) (blk n False (of_nat (?p + 20 + n))) s = Inr (blk n' True (if zs' = [] then 0 else of_nat (?p + 20 + n')), s1)"
    and s1: "bseg (blocks s1) a (ys @ (n', True) # zs') 0" "n' + span zs' = n + span zs" "allocs (?p + 20 + n') zs' = allocs (?p + 20 + n) zs"
      "zs' = [] \<or> snd (last zs') = snd (last zs)" "first_block s1 = first_block s" "bytes s1 = bytes s" "os s1 = os s"
    using release_next_ok [OF sg zs D(3) b refl refl] by blast
  obtain s2 xs' where r2: "release_prev ?prev (blk n' True (if zs' = [] then 0 else of_nat (?p + 20 + n'))) s1 = Inr s2"
    and s2: "bseg (blocks s2) a xs' 0" "xs' \<noteq> []" "span xs' = span (ys @ (n', True) # zs')" "allocs a xs' = allocs a (ys @ (n', True) # zs')"
      "snd (last xs') = snd (last (ys @ (n', True) # zs'))" "first_block s2 = first_block s1" "bytes s2 = bytes s1" "os s2 = os s1"
    using release_prev_ok [OF s1(1) D(3) _ refl] s1(2) b by auto
  have "free_loop (of_nat (?p + 20)) ?prev (of_nat ?p) s = Some (Inr s2)"
    using h r1 r2 by (subst free_loop.simps) (simp add: META del: of_nat_add)
  moreover have "heap_ok ok brk lo s2 a xs'"
    using D s1 s2 zs assms(2) by (auto simp: heap_ok_def)
  moreover have "allocs a xs' = allocs a xs - {(?p + 20, n)}"
  proof -
    have "(?p + 20, n) \<notin> allocs a ys \<union> allocs (?p + 20 + n) zs"
      using allocs_range [of "?p + 20" n a ys] allocs_range [of "?p + 20" n "?p + 20 + n" zs] by auto
    then show ?thesis unfolding s2(4) assms(2) allocs_append allocs.simps s1(3) by auto
  qed
  ultimately show ?thesis using walk s1(6,7) s2(7,8) D(1) by auto
qed

lemma heap_contract_ok:
  assumes "heap_ok ok brk lo s a xs"
  shows "\<exists>s' xs'. heap_contract sb s = Some (Inr s') \<and> heap_ok ok brk lo s' a xs' \<and> allocs a xs' = allocs a xs \<and>
    bytes s' = bytes s \<and> room (os s) \<le> room (os s')"
proof -
  note D = heap_okD [OF assms]
  obtain ys n where xs: "xs = ys @ [(n, True)]" using D(4,5) by (metis append_butlast_last_id prod.collapse)
  define u where "u = a + span ys + 20"
  have lb: "last_block (first_block s) s = Some (Inr (of_nat (a + span ys), blk n True 0))"
    using last_block_ok [of s a ys n True] D(1,3,6,10) by (simp add: xs del: of_nat_add)
  have un: "u + n = brk (os s)" "u + n < 4294967296" "u + n \<le> hi" using D(7,9,10) by (simp_all add: xs u_def)
  have uM: "of_nat (a + span ys) + META = of_nat u" by (simp add: u_def META_def)
  have nu: "unat (of_nat n :: u32) = n" by (rule unat_of_nat_u32) (use un in simp)
  show ?thesis
  proof (cases "n \<le> 4096")
    case True
    then have "\<not> PAGE_SIZE < (of_nat n :: u32)" using nu by (simp add: PAGE_SIZE_def word_less_nat_alt)
    then have "heap_contract sb s = Some (Inr s)" by (simp add: heap_contract_def lb obnd_def)
    then show ?thesis using assms by blast
  next
    case False
    define b v where "b = (u + n) div 4096" and "v = u div 4096"
    have bv: "u + n = 4096 * b" "v + 2 \<le> b" "u < 4096 * (v + 1)" "4096 * v \<le> u"
    proof -
      have "(u + n) mod 4096 = 0" using ok_brk [OF D(8)] un(1) by simp
      then show *: "u + n = 4096 * b" unfolding b_def by (metis mult_div_mod_eq add_0_right)
      obtain r where e: "u = 4096 * v + r" "r < 4096"
        by (metis v_def mult_div_mod_eq mod_less_divisor zero_less_numeral)
      show "u < 4096 * (v + 1)" using e by simp
      show "4096 * v \<le> u" using e by simp
      then show "v + 2 \<le> b" using * False by linarith
    qed
    define N where "N = 4096 * (v + 2)"
    have N: "N \<le> u + n" "u < N" "u + n - N = 4096 * (b - v - 2)" "N < 4294967296" using bv un(2) by (auto simp: N_def)
    have "unat (of_nat u AND 0xFFFFF000 :: u32) = 4096 * v"
      using frame_addr [of "of_nat u"] unat_of_nat_u32 [of u] un(2) by (simp add: fr_def v_def)
    moreover have "unat (of_nat (4096 * v) :: u32) = 4096 * v" by (rule unat_of_nat_u32) (use bv(4) un(2) in simp)
    ultimately have "(of_nat u AND 0xFFFFF000 :: u32) = of_nat (4096 * v)" by (simp only: word_unat_eq_iff)
    then have ne: "(of_nat u AND 0xFFFFF000) + MIN_HEAP_CONTRACT_SIZE = (of_nat N :: u32)"
      by (simp add: MIN_HEAP_CONTRACT_SIZE_def PAGE_SIZE_def N_def)
    have big: "PAGE_SIZE < (of_nat n :: u32)" using nu False by (simp add: PAGE_SIZE_def word_less_nat_alt)
    have "of_nat N - of_nat (u + n) = (- of_nat (u + n - N) :: u32)" using N(1) by (simp add: of_nat_diff)
    moreover have "lo \<le> u" using D(2) by (simp add: u_def)
    then have "u + n - N < 2147483648" using un(3) N(2) area(3) by linarith
    ultimately have sd: "sint (of_nat N - of_nat (u + n) :: u32) = - int (4096 * (b - v - 2))"
      using sint_minus [of "u + n - N"] N(3) by simp
    have sz: "of_nat N - of_nat u = (of_nat (N - u) :: u32)" using N(2) by (simp add: of_nat_diff)
    obtain o' where o': "sb (- int (4096 * (b - v - 2))) (os s) = Inr (of_nat (brk (os s)), o')" "ok o'" "brk o' = N" "room (os s) \<le> room o'"
    proof (cases "b - v - 2 = 0")
      case True
      then show ?thesis using that [of "os s"] sb_zero [OF D(8)] D(8) N(1,3) un(1) by simp
    next
      case F: False
      have "lo + 4096 * (b - v - 2) \<le> brk (os s)" using N un(1) D(2) by (simp add: u_def)
      from sb_shrink [OF D(8) _ this] F obtain o' where "sb (- int (4096 * (b - v - 2))) (os s) = Inr (of_nat (brk (os s)), o')" "ok o'"
        "brk o' = brk (os s) - 4096 * (b - v - 2)" "room (os s) \<le> room o'" by auto
      then show ?thesis using that [of o'] N(1,3) un(1) by simp
    qed
    define s' where "s' = (hput (of_nat (a + span ys)) (blk (N - u) True 0) s)\<lparr>os := o'\<rparr>"
    have "sb (sint (of_nat N - of_nat (brk (os s)) :: u32)) (os s) = Inr (of_nat (brk (os s)), o')"
      unfolding un(1) [symmetric] sd using o'(1) un(1) by simp
    then have "heap_contract sb s = Some (Inr s')"
      using lb big sb_zero [OF D(8)] un(1)
      by (simp add: heap_contract_def obnd_def sys_def uM ne sz Let_def s'_def hput_def flip: of_nat_add) (simp add: blk_def)
    moreover have "bseg (blocks s') a (ys @ [(N - u, True)]) 0"
      using bseg_replace [of "blocks s" a ys "a + span ys" "N - u" "[]" 0 True] bseg_parts(1) [of "blocks s" a ys n True "[]" 0] D(6) N un
      by (simp add: s'_def hput_def xs u_def del: of_nat_add)
    then have "heap_ok ok brk lo s' a (ys @ [(N - u, True)])"
      using D o' N(2) by (simp add: heap_ok_def s'_def hput_def u_def)
    moreover have "allocs a (ys @ [(N - u, True)]) = allocs a xs" by (simp add: xs allocs_append)
    ultimately show ?thesis using o'(4) by (intro exI [of _ s'] exI [of _ "ys @ [(N - u, True)]"]) (simp add: s'_def hput_def)
  qed
qed

end

section \<open>The allocator as a set of blocks\<close>

text \<open>
  The abstract view of a heap: the set of the allocated blocks, each given by its address and size.
  Before the first call of \<open>malloc\<close> there is no chain yet.
\<close>

definition heap_inv :: "('s \<Rightarrow> bool) \<Rightarrow> ('s \<Rightarrow> nat) \<Rightarrow> nat \<Rightarrow> 's mheap \<Rightarrow> (nat \<times> nat) set \<Rightarrow> bool" where
  "heap_inv ok brk lo s A \<longleftrightarrow> first_block s = 0 \<and> ok (os s) \<and> A = {} \<or> (\<exists>a xs. heap_ok ok brk lo s a xs \<and> A = allocs a xs)"

definition round4 :: "nat \<Rightarrow> nat" where "round4 n = 4 * ((n + 3) div 4)"

lemma align4_round:
  assumes "unat n \<le> 4294967292"
  shows "align4 n = of_nat (round4 (unat n))"
proof -
  have m: "unat (n mod 4) = unat n mod 4" "unat (n div 4) = unat n div 4" by (simp_all add: unat_mod unat_div)
  have n: "n = of_nat (unat n)" by simp
  show ?thesis
  proof (cases "unat n mod 4 = 0")
    case True
    then have "n mod 4 = 0" using m(1) by (simp add: word_unat_eq_iff)
    moreover obtain q where q: "unat n = 4 * q" using True by auto
    then have "round4 (unat n) = unat n" by (simp add: round4_def)
    ultimately show ?thesis by (simp add: align4_def)
  next
    case False
    then have "n mod 4 \<noteq> 0" using m(1) by (simp add: word_unat_eq_iff)
    moreover have "round4 (unat n) = (unat n div 4 + 1) * 4"
    proof -
      obtain q r where qr: "unat n = 4 * q + r" "0 < r" "r < 4"
        using False by (metis mult_div_mod_eq mod_less_divisor zero_less_numeral gr0I)
      then have "(4 * q + r + 3) div 4 = q + 1" by presburger
      with qr show ?thesis by (simp add: round4_def)
    qed
    moreover have "(n div 4 + 1) * 4 = (of_nat ((unat n div 4 + 1) * 4) :: u32)"
    proof -
      have "n div 4 = of_nat (unat n div 4)" unfolding m(2) [symmetric] by simp
      then show ?thesis by simp
    qed
    ultimately show ?thesis by (simp only: align4_def if_True not_False_eq_True)
  qed
qed

lemma round4_bounds: "n \<le> round4 n" "round4 n \<le> n + 3"
  unfolding round4_def by auto

context brk_area
begin

lemma malloc_ok:
  assumes "heap_inv ok brk lo s A" and "unat nbytes + 8216 \<le> room (os s)"
  shows "\<exists>p s'. malloc sb nbytes s = Some (Inr (of_nat p, s')) \<and> heap_inv ok brk lo s' (insert (p, round4 (unat nbytes)) A) \<and>
    p \<notin> fst ` A \<and> lo < p \<and> p + round4 (unat nbytes) \<le> brk (os s') \<and> bytes s' = bytes s \<and>
    room (os s) \<le> room (os s') + (unat nbytes + 8216)"
proof -
  let ?k = "round4 (unat nbytes)"
  have oks: "ok (os s)" using assms(1) by (auto simp: heap_inv_def heap_ok_def)
  have al: "align4 nbytes = of_nat ?k" using align4_round [of nbytes] assms(2) ok_brk [OF oks] area by auto
  define s0 where "s0 = (if first_block s = 0 then init_first_block sb s else Inr s)"
  obtain s1 a xs where s1: "s0 = Inr s1" "heap_ok ok brk lo s1 a xs" "A = allocs a xs" "bytes s1 = bytes s" "?k + 4116 \<le> room (os s1)"
    "room (os s) \<le> room (os s1) + 4096"
  proof (cases "first_block s = 0")
    case True
    have "\<not> heap_ok ok brk lo s a xs" for a xs
      using heap_okD(1,3,11) [of s a xs] addr_inj [of a 0] True by auto
    then have A: "A = {}" using assms(1) by (auto simp: heap_inv_def)
    obtain o' where o': "sb 4096 (os s) = Inr (of_nat (brk (os s)), o')" "ok o'" "brk o' = brk (os s) + 4096" "room (os s) \<le> room o' + 4096"
      using sb_grow [OF oks] assms(2) by auto
    let ?a = "brk (os s)"
    have b: "?a + 4096 < 4294967296" "lo \<le> ?a" using ok_brk [OF oks] area assms(2) by auto
    have "unat (- 1 :: u32) = 4294967295" by (simp add: unsigned_minus_1_eq_mask mask_eq_exp_minus_1)
    then have "(of_nat ?a :: u32) \<noteq> - 1" using unat_of_nat_u32 [of ?a] b(1) by auto
    then have run: "s0 = Inr (hput (of_nat ?a) (blk 4076 True 0) (s\<lparr>os := o', first_block := of_nat ?a\<rparr>))"
      using True o'(1) by (simp add: s0_def init_first_block_def sys_def PAGE_SIZE_def META_def blk_def)
    show ?thesis
      by (rule that [OF run, of ?a "[(4076, True)]"])
        (use b o' A assms(2) round4_bounds(2) [of "unat nbytes"] in \<open>auto simp: heap_ok_def hput_def\<close>)
  next
    case False
    then obtain a xs where "heap_ok ok brk lo s a xs" "A = allocs a xs" using assms(1) by (auto simp: heap_inv_def)
    then show ?thesis using False assms(2) round4_bounds(2) [of "unat nbytes"] by (intro that [of s a xs]) (auto simp: s0_def)
  qed
  note D = heap_okD [OF s1(2)]
  obtain s' ys zs where s': "malloc_loop sb (of_nat ?k) (first_block s1) s1 = Some (Inr (of_nat (a + span ys + 20), s'))"
    "heap_ok ok brk lo s' a (ys @ (?k, False) # zs)" "allocs a (ys @ (?k, False) # zs) = insert (a + span ys + 20, ?k) (allocs a xs)"
    "a + span ys + 20 \<notin> fst ` allocs a xs" "bytes s' = bytes s1" "room (os s1) \<le> room (os s') + (?k + 4116)"
    using malloc_loop_ok [OF s1(2,5)] by auto
  obtain n f xs' where xs: "xs = (n, f) # xs'" using D(4) by (metis list.exhaust prod.exhaust)
  have "hget (first_block s1) s1 = Inr (blk n f (if xs' = [] then 0 else of_nat (a + 20 + n)))"
    using hget_bseg [OF D(6) [unfolded xs] D(3,11)] D(1) by simp
  then have "malloc sb nbytes s = Some (Inr (of_nat (a + span ys + 20), s'))"
    using s'(1) s1(1) by (simp add: malloc_def al s0_def [symmetric] obnd_def kassert_def Let_def del: of_nat_add)
  moreover have "heap_inv ok brk lo s' (insert (a + span ys + 20, ?k) A)" using s'(2,3) s1(3) by (auto simp: heap_inv_def)
  moreover have "a + span ys + 20 + ?k \<le> brk (os s')" using heap_okD(7) [OF s'(2)] by simp
  ultimately show ?thesis
    using s'(4-6) s1(3,4,6) D(2) round4_bounds(2) [of "unat nbytes"] by (intro exI [of _ "a + span ys + 20"] exI [of _ s']) (simp del: of_nat_add)
qed

lemma heap_inv_alloc:
  assumes "heap_inv ok brk lo s A" and "(p, n) \<in> A"
  obtains a ys zs where "heap_ok ok brk lo s a (ys @ (n, False) # zs)" "p = a + span ys + 20" "A = allocs a (ys @ (n, False) # zs)"
proof -
  from assms obtain a xs where h: "heap_ok ok brk lo s a xs" "A = allocs a xs" by (auto simp: heap_inv_def)
  have "(p, n) \<in> allocs a xs \<Longrightarrow> \<exists>ys zs. xs = ys @ (n, False) # zs \<and> p = a + span ys + 20" for a
  proof (induction xs arbitrary: a)
    case (Cons x xs)
    obtain m f where x: "x = (m, f)" by (cases x)
    show ?case
    proof (cases "\<not> f \<and> (p, n) = (a + 20, m)")
      case True
      then show ?thesis by (intro exI [of _ "[]"] exI [of _ xs]) (auto simp: x)
    next
      case False
      then have "(p, n) \<in> allocs (a + 20 + m) xs" using Cons.prems by (auto simp: x split: if_splits)
      from Cons.IH [OF this] obtain ys zs where "xs = ys @ (n, False) # zs" "p = a + 20 + m + span ys + 20" by blast
      then show ?thesis by (intro exI [of _ "x # ys"] exI [of _ zs]) (auto simp: x)
    qed
  qed simp
  with h assms(2) that show ?thesis by blast
qed

lemma free_ok:
  assumes "heap_inv ok brk lo s A" and "(p, n) \<in> A"
  shows "\<exists>s'. free sb (of_nat p) s = Some (Inr s') \<and> heap_inv ok brk lo s' (A - {(p, n)}) \<and> bytes s' = bytes s \<and> room (os s) \<le> room (os s')"
proof -
  obtain a ys zs where h: "heap_ok ok brk lo s a (ys @ (n, False) # zs)" and p: "p = a + span ys + 20" and A: "A = allocs a (ys @ (n, False) # zs)"
    using heap_inv_alloc [OF assms] by blast
  obtain s1 xs1 where s1: "free_loop (of_nat p) 0 (first_block s) s = Some (Inr s1)" "heap_ok ok brk lo s1 a xs1"
    "allocs a xs1 = A - {(p, n)}" "bytes s1 = bytes s" "os s1 = os s"
    using free_loop_ok [OF h refl] p A by auto
  obtain s2 xs2 where s2: "heap_contract sb s1 = Some (Inr s2)" "heap_ok ok brk lo s2 a xs2" "allocs a xs2 = allocs a xs1" "bytes s2 = bytes s1"
    "room (os s1) \<le> room (os s2)"
    using heap_contract_ok [OF s1(2)] by blast
  have "(of_nat p :: u32) \<noteq> 0" using addr_inj [of p 0] heap_okD(10) [OF h] p by auto
  then have "free sb (of_nat p) s = Some (Inr s2)" using s1(1) s2(1) by (simp add: free_def obnd_def)
  moreover have "heap_inv ok brk lo s2 (A - {(p, n)})" using s1(3) s2(2,3) unfolding heap_inv_def by metis
  ultimately show ?thesis using s1(4,5) s2(4,5) by simp
qed

lemma heap_inv_disjoint:
  assumes "heap_inv ok brk lo s A" and "(p, n) \<in> A" and "(q, k) \<in> A"
  shows "(p, n) = (q, k) \<or> p + n + 20 \<le> q \<or> q + k + 20 \<le> p" and "lo + 20 \<le> p" and "p + n \<le> brk (os s)"
proof -
  from assms obtain a xs where h: "heap_ok ok brk lo s a xs" "A = allocs a xs" by (auto simp: heap_inv_def)
  show "(p, n) = (q, k) \<or> p + n + 20 \<le> q \<or> q + k + 20 \<le> p" using allocs_disjoint assms(2,3) h(2) by blast
  show "lo + 20 \<le> p" "p + n \<le> brk (os s)" using allocs_range [of p n a xs] assms(2) h(2) heap_okD(2,7) [OF h(1)] by auto
qed

lemma heap_inv_bytes: "heap_inv ok brk lo (s\<lparr>bytes := f\<rparr>) A \<longleftrightarrow> heap_inv ok brk lo s A"
  by (simp add: heap_inv_def heap_ok_def)

lemma heap_inv_header:
  assumes "heap_inv ok brk lo s A" and "(p, n) \<in> A"
  shows "\<exists>z. hget (of_nat p - META) s = Inr (blk n False z)" and "0 < p" and "p + n < 4294967296"
proof -
  obtain a ys zs where h: "heap_ok ok brk lo s a (ys @ (n, False) # zs)" and p: "p = a + span ys + 20"
    and "A = allocs a (ys @ (n, False) # zs)"
    using heap_inv_alloc [OF assms] by blast
  note D = heap_okD [OF h]
  have e: "of_nat p - META = (of_nat (a + span ys) :: u32)" by (simp add: p META_def)
  have nz: "(of_nat (a + span ys) :: u32) \<noteq> 0" using addr_inj [of "a + span ys" 0] D(3,10) by auto
  show "\<exists>z. hget (of_nat p - META) s = Inr (blk n False z)"
    unfolding e hget_def bseg_parts(3) [OF D(6)] if_not_P [OF nz] option.case by blast
  show "0 < p" "p + n < 4294967296" using D(10) p by auto
qed

lemma offset_in: "i < n \<Longrightarrow> q + n < 4294967296 \<Longrightarrow> unat ((of_nat (q + i) :: u32) - of_nat q) = i"
  using unat_of_nat_u32 [of i] by simp

lemma offset_out:
  assumes "x < 4294967296" and "q + n < 4294967296" and "x < q \<or> q + n \<le> x"
  shows "\<not> unat ((of_nat x :: u32) - of_nat q) < n"
proof (cases "x < q")
  case True
  define d where "d = 4294967296 - (q - x)"
  have d: "d + q = x + 4294967296" "d < 4294967296" "n < d" using True assms(2) by (auto simp: d_def)
  have "(of_nat 4294967296 :: u32) = 0" by (rule word_of_nat_eq_0_iff [THEN iffD2]) simp
  then have "of_nat d + of_nat q = (of_nat x :: u32)" by (metis d(1) of_nat_add add_0_right)
  then have "(of_nat x :: u32) - of_nat q = of_nat d" by (metis add_diff_cancel_right')
  then show ?thesis using unat_of_nat_u32 [OF d(2)] d(3) by simp
next
  case False
  then have "(of_nat x :: u32) - of_nat q = of_nat (x - q)" by (simp add: of_nat_diff)
  then show ?thesis using unat_of_nat_u32 [of "x - q"] False assms by simp
qed

lemma calloc_ok:
  assumes "heap_inv ok brk lo s A" and "unat nmemb * unat nbytes + 8216 \<le> room (os s)"
  shows "\<exists>p s'. calloc sb nmemb nbytes s = Some (Inr (of_nat p, s')) \<and>
    heap_inv ok brk lo s' (insert (p, round4 (unat nmemb * unat nbytes)) A) \<and> p \<notin> fst ` A \<and>
    (\<forall>i < unat nmemb * unat nbytes. bytes s' (of_nat (p + i)) = 0) \<and>
    (\<forall>(q, k) \<in> A. \<forall>i < k. bytes s' (of_nat (q + i)) = bytes s (of_nat (q + i)))"
proof -
  let ?n = "unat nmemb * unat nbytes"
  have oks: "ok (os s)" using assms(1) by (auto simp: heap_inv_def heap_ok_def)
  have u: "unat (nmemb * nbytes) = ?n" using assms(2) ok_brk [OF oks] area by (simp add: unat_word_ariths)
  obtain p s1 where m: "malloc sb (nmemb * nbytes) s = Some (Inr (of_nat p, s1))" "heap_inv ok brk lo s1 (insert (p, round4 ?n) A)"
    "p \<notin> fst ` A" "bytes s1 = bytes s"
    using malloc_ok [OF assms(1), of "nmemb * nbytes"] assms(2) u by auto
  have P: "0 < p" "p + round4 ?n < 4294967296" using heap_inv_header(2,3) [OF m(2), of p "round4 ?n"] by auto
  then have b: "p + ?n < 4294967296" using round4_bounds(1) [of ?n] by simp
  define s' where "s' = s1\<lparr>bytes := (\<lambda>x. if unat (x - of_nat p) < ?n then 0 else bytes s1 x)\<rparr>"
  have "(of_nat p :: u32) \<noteq> 0" using addr_inj [of p 0] P by auto
  then have "calloc sb nmemb nbytes s = Some (Inr (of_nat p, s'))"
    by (simp add: calloc_def m(1) obnd_def fill_def u s'_def)
  moreover have "bytes s' (of_nat (p + i)) = 0" if "i < ?n" for i using offset_in [OF that b] that by (simp add: s'_def del: of_nat_add)
  moreover have "bytes s' (of_nat (q + i)) = bytes s (of_nat (q + i))" if q: "(q, k) \<in> A" "i < k" for q k i
  proof -
    have "q \<noteq> p" using m(3) q(1) by force
    then have "p + round4 ?n \<le> q + i \<or> q + i < p"
      using heap_inv_disjoint(1) [OF m(2), of p "round4 ?n" q k] q by auto
    moreover have "q + i < 4294967296" using heap_inv_header(3) [OF m(2), of q k] q by simp
    ultimately show ?thesis using offset_out [of "q + i" p ?n] b round4_bounds(1) [of ?n] m(4) by (auto simp: s'_def simp del: of_nat_add)
  qed
  moreover have "heap_inv ok brk lo s' (insert (p, round4 ?n) A)" using m(2) by (simp add: s'_def heap_inv_bytes)
  ultimately show ?thesis using m(3) by (intro exI [of _ p] exI [of _ s']) (auto simp del: of_nat_add)
qed

lemma realloc_ok:
  assumes "heap_inv ok brk lo s A" and "(p, n) \<in> A" and "nbytes \<noteq> 0" and "unat nbytes + 8216 \<le> room (os s)"
  shows "\<exists>q s'. realloc sb (of_nat p) nbytes s = Some (Inr (of_nat q, s')) \<and>
    heap_inv ok brk lo s' (insert (q, round4 (unat nbytes)) (A - {(p, n)})) \<and> q \<notin> fst ` A \<and>
    (\<forall>i. i < n \<and> i < unat nbytes \<longrightarrow> bytes s' (of_nat (q + i)) = bytes s (of_nat (p + i))) \<and>
    (\<forall>(r, k) \<in> A. \<forall>i < k. bytes s' (of_nat (r + i)) = bytes s (of_nat (r + i)))"
proof -
  let ?k = "round4 (unat nbytes)"
  obtain q s1 where m: "malloc sb nbytes s = Some (Inr (of_nat q, s1))" "heap_inv ok brk lo s1 (insert (q, ?k) A)" "q \<notin> fst ` A" "bytes s1 = bytes s"
    using malloc_ok [OF assms(1,4)] by auto
  obtain z z' where h: "hget (of_nat p - META) s = Inr (blk n False z)" "hget (of_nat p - META) s1 = Inr (blk n False z')"
    using heap_inv_header(1) [OF assms(1,2)] heap_inv_header(1) [OF m(2), of p n] assms(2) by auto
  have p: "0 < p" "p + n < 4294967296" by (rule heap_inv_header [OF assms(1,2)])+
  have q: "0 < q" "q + ?k < 4294967296" using heap_inv_header(2,3) [OF m(2), of q ?k] by auto
  have nz: "(of_nat p :: u32) \<noteq> 0" "(of_nat q :: u32) \<noteq> 0" using addr_inj [of p 0] addr_inj [of q 0] p q by auto
  define c where "c = min (unat nbytes) n"
  have cu: "unat (if nbytes < of_nat n then nbytes else of_nat n) = c"
    using unat_of_nat_u32 [of n] p(2) by (simp add: c_def min_def word_less_nat_alt)
  have cb: "c \<le> ?k" "q + c < 4294967296" using round4_bounds(1) [of "unat nbytes"] q(2) by (auto simp: c_def)
  define s2 where "s2 = s1\<lparr>bytes := (\<lambda>x. if unat (x - of_nat q) < c then bytes s1 (of_nat p + (x - of_nat q)) else bytes s1 x)\<rparr>"
  have cp: "copy (of_nat q) (of_nat p) c s1 = Inr s2" using nz by (simp add: copy_def s2_def)
  have i2: "heap_inv ok brk lo s2 (insert (q, ?k) A)" using m(2) by (simp add: s2_def heap_inv_bytes)
  obtain s3 where f: "free sb (of_nat p) s2 = Some (Inr s3)" "heap_inv ok brk lo s3 (insert (q, ?k) A - {(p, n)})" "bytes s3 = bytes s2"
    using free_ok [OF i2, of p n] assms(2) by auto
  have "(q, ?k) \<noteq> (p, n)" using m(3) assms(2) by force
  then have "insert (q, ?k) A - {(p, n)} = insert (q, ?k) (A - {(p, n)})" by auto
  then have i3: "heap_inv ok brk lo s3 (insert (q, ?k) (A - {(p, n)}))" using f(2) by (simp only:)
  have run: "realloc sb (of_nat p) nbytes s = Some (Inr (of_nat q, s3))"
    using nz assms(3) h m(1) f(1) cp cu by (cases "nbytes < of_nat n") (simp_all add: realloc_def obnd_def kassert_def)
  have "bytes s3 (of_nat (q + i)) = bytes s (of_nat (p + i))" if "i < n" "i < unat nbytes" for i
  proof -
    have i: "i < c" using that by (simp add: c_def)
    then have "unat ((of_nat (q + i) :: u32) - of_nat q) < c" using offset_in [OF i cb(2)] by (simp del: of_nat_add)
    moreover have "of_nat p + ((of_nat (q + i) :: u32) - of_nat q) = of_nat (p + i)" by simp
    ultimately show ?thesis using f(3) m(4) by (simp add: s2_def del: of_nat_add)
  qed
  moreover have "bytes s3 (of_nat (r + i)) = bytes s (of_nat (r + i))" if r: "(r, k) \<in> A" "i < k" for r k i
  proof -
    have "r \<noteq> q" using m(3) r(1) by force
    then have "q + ?k \<le> r + i \<or> r + i < q" using heap_inv_disjoint(1) [OF m(2), of q ?k r k] r by auto
    moreover have "r + i < 4294967296" using heap_inv_header(3) [OF m(2), of r k] r by simp
    ultimately show ?thesis using offset_out [of "r + i" q c] cb m(4) f(3) by (auto simp: s2_def simp del: of_nat_add)
  qed
  ultimately show ?thesis using run i3 m(3) by (intro exI [of _ q] exI [of _ s3]) (auto simp del: of_nat_add)
qed

lemma free_wild:
  assumes "heap_ok ok brk lo s a xs" and "ptr \<noteq> 0" and "\<And>u. u \<in> heads a xs \<Longrightarrow> of_nat u + META \<noteq> ptr" and nometa: "ptr \<noteq> META"
  shows "free sb ptr s = Some (Inl (if 0 < fst (last xs) then Panic ''Double free or corruption'' else Fault))"
proof -
  note D = heap_okD [OF assms(1)]
  obtain ys n where xs: "xs = ys @ [(n, True)]" using D(4,5) by (metis append_butlast_last_id prod.collapse)
  let ?p = "a + span ys"
  have hd: "of_nat ?p + META \<noteq> ptr" "\<And>u. u \<in> heads a ys \<Longrightarrow> of_nat u + META \<noteq> ptr"
    using assms(3) [of ?p] assms(3) by (simp_all add: xs heads_append del: of_nat_add)
  have b: "?p + 20 + n < 4294967296" using D(10) by (simp add: xs)
  have sg: "bseg (blocks s) a (ys @ (n, True) # []) 0" using D(6) by (simp add: xs)
  define prev where "prev = (if ys = [] then 0 else of_nat (a + span (butlast ys)) :: u32)"
  have walk: "free_loop ptr 0 (first_block s) s = free_loop ptr prev (of_nat ?p) s"
    unfolding D(1) prev_def by (rule free_loop_walk [OF sg D(3) _ hd(2)]) (use b in simp)
  have h: "hget (of_nat ?p) s = Inr (blk n True 0)"
    using bseg_parts(3) [OF sg] addr_inj [of ?p 0] b D(3) by (auto simp: hget_def simp del: of_nat_add)
  have z: "free_loop ptr q 0 s = Some (Inl Fault)" for q
    using nometa by (subst free_loop.simps) (simp add: hget_def)
  have n: "0 < (of_nat n :: u32) \<longleftrightarrow> 0 < n" using addr_inj [of n 0] b by (cases "n = 0") (auto simp: word_gt_0)
  have "free_loop ptr prev (of_nat ?p) s = Some (Inl (if 0 < n then Panic ''Double free or corruption'' else Fault))"
    using hd(1) h z n by (subst free_loop.simps) (simp del: of_nat_add)
  with walk assms(2) show ?thesis by (simp add: free_def obnd_def xs)
qed

end

section \<open>The heap of a program\<close>

abbreviation user_heap :: "(heap \<times> memory) mheap \<Rightarrow> (nat \<times> nat) set \<Rightarrow> bool" where
  "user_heap \<equiv> heap_inv (area_ok (unat UHEAP_START) (unat UHEAP_END)) brk_of (unat UHEAP_START)"

text \<open>A program before its first allocation.\<close>

definition sample_prog :: "(heap \<times> memory) mheap" where
  "sample_prog = \<lparr>first_block = 0, blocks = (\<lambda>_. None), bytes = (\<lambda>_. 7), os = (sample_heap, sample_mem)\<rparr>"

lemma sample_prog_ok: "user_heap sample_prog {}" "room_of (os sample_prog) = 24576"
proof -
  have "mapped_range 131072 131072 sample_mem fs" for fs by (simp add: mapped_range_def)
  then have "area_ok (unat UHEAP_START) (unat UHEAP_END) (sample_heap, sample_mem)"
    using sample_ok by (auto simp: area_ok_def sample_heap_def UHEAP_START_def UHEAP_END_def intro!: exI [of _ 131072])
  then show "user_heap sample_prog {}" by (simp add: heap_inv_def sample_prog_def)
  show "room_of (os sample_prog) = 24576" by (simp add: room_of_def sample_prog_def sample_heap_def sample_mem_def)
qed

text \<open>
  C25. \<open>malloc\<close> returns, and with a new block: in a program's heap, for every request for which \<open>sbrk\<close> can still
  get memory, the search through the chain ends, the pointer is not 0, the block has the requested
  size rounded up to four bytes, lies between the start of the heap and its break and does not
  overlap any block allocated before, nor the header in front of one. Exactly this block is added to the
  allocated ones and no byte of memory outside the headers changes.
\<close>

theorem malloc_returns_fresh_block:
  assumes "user_heap s A" and "unat nbytes + 8216 \<le> room_of (os s)"
  shows "\<exists>p s'. malloc sbrk nbytes s = Some (Inr (of_nat p, s')) \<and> user_heap s' (insert (p, round4 (unat nbytes)) A) \<and>
    unat UHEAP_START < p \<and> p + round4 (unat nbytes) \<le> brk_of (os s') \<and> unat nbytes \<le> round4 (unat nbytes) \<and>
    (\<forall>(q, k) \<in> A. p + round4 (unat nbytes) + 20 \<le> q \<or> q + k + 20 \<le> p) \<and> bytes s' = bytes s"
proof -
  obtain p s' where m: "malloc sbrk nbytes s = Some (Inr (of_nat p, s'))" "user_heap s' (insert (p, round4 (unat nbytes)) A)"
    "p \<notin> fst ` A" "unat UHEAP_START < p" "p + round4 (unat nbytes) \<le> brk_of (os s')" "bytes s' = bytes s"
    using ubrk.malloc_ok [OF assms] by blast
  have "p + round4 (unat nbytes) + 20 \<le> q \<or> q + k + 20 \<le> p" if "(q, k) \<in> A" for q k
  proof -
    have "p \<noteq> q" using m(3) that by force
    then show ?thesis using ubrk.heap_inv_disjoint(1) [OF m(2), of p "round4 (unat nbytes)" q k] that by auto
  qed
  then show ?thesis using m round4_bounds(1) by (intro exI [of _ p] exI [of _ s']) auto
qed

theorem malloc_returns_fresh_block_witness:
  "\<exists>p s'. malloc sbrk 100 sample_prog = Some (Inr (of_nat p, s')) \<and> user_heap s' {(p, 100)}"
  using malloc_returns_fresh_block [OF sample_prog_ok(1), of 100] sample_prog_ok(2) by (auto simp: round4_def)

text \<open>
  C26. \<open>free\<close> of an allocated block returns and releases exactly this block: all the others stay where they
  are, with their size and their contents, whatever blocks are merged and also when the end of the heap is given
  back to the system, and the memory that can still be allocated does not shrink.
\<close>

theorem free_releases_exactly:
  assumes "user_heap s A" and "(p, n) \<in> A"
  shows "\<exists>s'. free sbrk (of_nat p) s = Some (Inr s') \<and> user_heap s' (A - {(p, n)}) \<and> bytes s' = bytes s \<and>
    room_of (os s) \<le> room_of (os s')"
  by (rule ubrk.free_ok [OF assms])

theorem free_releases_exactly_witness:
  "\<exists>p s1 s2. malloc sbrk 100 sample_prog = Some (Inr (of_nat p, s1)) \<and> free sbrk (of_nat p) s1 = Some (Inr s2) \<and> user_heap s2 {}"
proof -
  obtain p s1 where m: "malloc sbrk 100 sample_prog = Some (Inr (of_nat p, s1))" "user_heap s1 {(p, 100)}"
    using ubrk.malloc_ok [OF sample_prog_ok(1), of 100] sample_prog_ok(2) by (auto simp: round4_def)
  from free_releases_exactly [OF m(2), of p 100] m(1) show ?thesis by auto
qed

text \<open>
  \<open>realloc\<close> of an allocated block to a size other than 0 returns a new block that begins with the contents of
  the old one, as far as both reach. The old block is released, and the contents of all other blocks are
  unchanged.
\<close>

theorem realloc_keeps_contents:
  assumes "user_heap s A" and "(p, n) \<in> A" and "nbytes \<noteq> 0" and "unat nbytes + 8216 \<le> room_of (os s)"
  shows "\<exists>q s'. realloc sbrk (of_nat p) nbytes s = Some (Inr (of_nat q, s')) \<and>
    user_heap s' (insert (q, round4 (unat nbytes)) (A - {(p, n)})) \<and> q \<notin> fst ` A \<and>
    (\<forall>i. i < n \<and> i < unat nbytes \<longrightarrow> bytes s' (of_nat (q + i)) = bytes s (of_nat (p + i))) \<and>
    (\<forall>(r, k) \<in> A. \<forall>i < k. bytes s' (of_nat (r + i)) = bytes s (of_nat (r + i)))"
  by (rule ubrk.realloc_ok [OF assms])

theorem realloc_keeps_contents_witness:
  "\<exists>p s1 q s2. malloc sbrk 100 sample_prog = Some (Inr (of_nat p, s1)) \<and> realloc sbrk (of_nat p) 200 s1 = Some (Inr (of_nat q, s2)) \<and>
     user_heap s2 {(q, 200)} \<and> bytes s2 (of_nat (q + 99)) = 7"
proof -
  obtain p s1 where m: "malloc sbrk 100 sample_prog = Some (Inr (of_nat p, s1))" "user_heap s1 {(p, 100)}" "bytes s1 = (\<lambda>_. 7)"
    "8416 \<le> room_of (os s1)"
    using ubrk.malloc_ok [OF sample_prog_ok(1), of 100] sample_prog_ok(2) by (auto simp: round4_def sample_prog_def)
  have "(200 :: u32) \<noteq> 0" "unat (200 :: u32) + 8216 \<le> room_of (os s1)" using m(4) by auto
  from realloc_keeps_contents [OF m(2) _ this, of p 100] m(3) obtain q s2 where
    "realloc sbrk (of_nat p) 200 s1 = Some (Inr (of_nat q, s2))" "user_heap s2 {(q, 200)}"
    "\<forall>i. i < 100 \<and> i < 200 \<longrightarrow> bytes s2 (of_nat (q + i)) = 7"
    by (auto simp: round4_def simp del: of_nat_add)
  with m(1) show ?thesis by (intro exI [of _ p] exI [of _ s1] exI [of _ q] exI [of _ s2]) (simp del: of_nat_add)
qed

text \<open>
  C27. \<open>free\<close> releases nothing for a pointer that is not the start of a block's data: for every pointer other than 0 that no
  header of the chain lies in front of, among them every address inside a block, it searches the whole chain, and
  at the last block, which is always free, it stops the program: with the message of a double free when this block has
  a size, else it follows the NULL behind it. (A block of the chain that is free is found, so freeing it again is not noticed. The pointer \<open>META\<close> is
  left out: there the code takes NULL for the header.)
\<close>

theorem wild_free_stops:
  assumes "heap_ok (area_ok (unat UHEAP_START) (unat UHEAP_END)) brk_of (unat UHEAP_START) s a xs" and "ptr \<noteq> 0" and "ptr \<noteq> META"
    and "\<And>u. u \<in> heads a xs \<Longrightarrow> of_nat u + META \<noteq> ptr"
  shows "free sbrk ptr s = Some (Inl (if 0 < fst (last xs) then Panic ''Double free or corruption'' else Fault))"
  by (rule ubrk.free_wild [OF assms(1,2,4,3)])

theorem wild_free_stops_witness:
  "\<exists>p s1 xs. malloc sbrk 100 sample_prog = Some (Inr (of_nat p, s1)) \<and>
     free sbrk 2 s1 = Some (Inl (if 0 < fst (last (xs :: (nat \<times> bool) list)) then Panic ''Double free or corruption'' else Fault))"
proof -
  obtain p s1 where m: "malloc sbrk 100 sample_prog = Some (Inr (of_nat p, s1))" "user_heap s1 {(p, 100)}"
    using ubrk.malloc_ok [OF sample_prog_ok(1), of 100] sample_prog_ok(2) by (auto simp: round4_def)
  then obtain a xs where h: "heap_ok (area_ok (unat UHEAP_START) (unat UHEAP_END)) brk_of (unat UHEAP_START) s1 a xs"
    by (auto simp: heap_inv_def)
  note D = ubrk.heap_okD [OF h]
  have "of_nat u + META \<noteq> (2 :: u32)" if "u \<in> heads a xs" for u
  proof -
    have u: "536870912 \<le> u" "u + 20 < 4294967296"
      using heads_range [OF that] D(2,9) by (auto simp: UHEAP_START_def UHEAP_END_def)
    have "of_nat u + META = (of_nat (u + 20) :: u32)" by (simp add: META_def)
    moreover have "(of_nat (u + 20) :: u32) \<noteq> of_nat 2" using addr_inj [OF u(2), of 2] u(1) by auto
    ultimately show ?thesis by simp
  qed
  from wild_free_stops [OF h _ _ this] m(1) show ?thesis by (auto simp: META_def)
qed

text \<open>The product of \<open>calloc\<close> wraps: a request for \<open>2 ^ 32\<close> bytes gets an empty block.\<close>

lemma calloc_overflow:
  assumes "user_heap s A" and "8216 \<le> room_of (os s)"
  shows "\<exists>p s'. calloc sbrk 0x10000 0x10000 s = Some (Inr (of_nat p, s')) \<and> user_heap s' (insert (p, 0) A)"
proof -
  have z: "(0x10000 :: u32) * 0x10000 = 0" by simp
  obtain p s' where "malloc sbrk 0 s = Some (Inr (of_nat p, s'))" "user_heap s' (insert (p, 0) A)"
    using ubrk.malloc_ok [OF assms(1), of 0] assms(2) by (auto simp: round4_def)
  then show ?thesis
    unfolding calloc_def z by (intro exI [of _ p] exI [of _ s']) (simp add: obnd_def fill_def)
qed

end
