(* ===== verification/Ansi.thy ===== *)
theory Ansi
  imports Prelude
begin

text \<open>
  The recogniser of ANSI escape sequences (\<open>ansi.c\<close>), fed one character at a time by the screen
  driver. Every call returns the new state of the machine; \<open>ANSI_NONE\<close> means that the character is
  not part of a sequence and has to be shown.
\<close>

datatype ansi_stat_t = ANSI_NONE | ANSI_IN_ESC | ANSI_IN_BRA | ANSI_IN_NUM1 | ANSI_IN_NUM2 | ANSI_IN_FIN

record ansi_stat =
  a_stat :: ansi_stat_t
  a_n1 :: u32
  a_n2 :: u32
  a_c1 :: u8
  a_c2 :: u8
  a_cnt :: u8

definition ANSI_ESC :: u8 where "ANSI_ESC = 27"
definition ANSI_BRA :: u8 where "ANSI_BRA = 91"
definition ANSI_MAX_CHARS :: u8 where "ANSI_MAX_CHARS = 10"

definition zero_ansi :: ansi_stat where
  "zero_ansi = \<lparr>a_stat = ANSI_NONE, a_n1 = 0, a_n2 = 0, a_c1 = 0, a_c2 = 0, a_cnt = 0\<rparr>"

text \<open>
  The comparisons of the code are on a signed \<open>char\<close>; on the ranges it asks for, all below 128, they
  agree with the comparisons of bytes here.
\<close>

definition is_num :: "u8 \<Rightarrow> bool" where
  "is_num c \<longleftrightarrow> 48 \<le> c \<and> c \<le> 57"

definition is_final :: "u8 \<Rightarrow> bool" where
  "is_final c \<longleftrightarrow> 65 \<le> c \<and> c \<le> 90 \<or> 97 \<le> c \<and> c \<le> 122 \<or> c = 126"

definition ansi_stat_switch :: "u8 \<Rightarrow> ansi_stat \<Rightarrow> ansi_stat" where
  "ansi_stat_switch c st =
     (let st = st\<lparr>a_cnt := a_cnt st + 1\<rparr>;
          st = (if a_stat st = ANSI_IN_FIN \<or> a_cnt st > ANSI_MAX_CHARS then zero_ansi else st) in
      if a_stat st = ANSI_NONE \<and> c = ANSI_ESC then st\<lparr>a_stat := ANSI_IN_ESC\<rparr>
      else if a_stat st = ANSI_IN_ESC \<and> (c = ANSI_BRA \<or> c = 79 \<or> c = 99) then
        (if c = 79 then st\<lparr>a_c2 := 79, a_stat := ANSI_IN_BRA\<rparr>
         else if c = 99 then st\<lparr>a_c1 := c, a_stat := ANSI_IN_FIN\<rparr>
         else st\<lparr>a_stat := ANSI_IN_BRA\<rparr>)
      else if a_stat st = ANSI_IN_BRA \<and> is_num c then st\<lparr>a_n1 := ucast c - 48, a_stat := ANSI_IN_NUM1\<rparr>
      else if a_stat st = ANSI_IN_BRA \<and> c = 63 then st\<lparr>a_c2 := 63, a_stat := ANSI_IN_NUM1\<rparr>
      else if a_stat st = ANSI_IN_NUM1 \<and> is_num c then st\<lparr>a_n1 := a_n1 st * 10 + ucast c - 48\<rparr>
      else if a_stat st = ANSI_IN_NUM1 \<and> c = 59 then st\<lparr>a_n2 := 0, a_stat := ANSI_IN_NUM2\<rparr>
      else if a_stat st = ANSI_IN_NUM2 \<and> is_num c then st\<lparr>a_n2 := a_n2 st * 10 + ucast c - 48\<rparr>
      else if a_stat st \<in> {ANSI_IN_BRA, ANSI_IN_NUM1, ANSI_IN_NUM2} \<and> is_final c
        then st\<lparr>a_c1 := c, a_stat := ANSI_IN_FIN\<rparr>
      else st\<lparr>a_cnt := 0, a_stat := ANSI_NONE\<rparr>)"

section \<open>Sequences with two numbers\<close>

text \<open>The machine between two sequences.\<close>

definition ansi_idle :: "ansi_stat \<Rightarrow> bool" where
  "ansi_idle st \<longleftrightarrow> a_stat st = ANSI_NONE \<and> a_cnt st = 0 \<or> a_stat st = ANSI_IN_FIN"

definition digit_of :: "nat \<Rightarrow> u8" where
  "digit_of d = of_nat (48 + d)"

definition dec :: "nat list \<Rightarrow> nat" where
  "dec ds = foldl (\<lambda>n d. 10 * n + d) 0 ds"

text \<open>The states a string of characters takes the machine through.\<close>

fun ansi_states :: "ansi_stat \<Rightarrow> u8 list \<Rightarrow> ansi_stat list" where
  "ansi_states st [] = []"
| "ansi_states st (c # cs) = ansi_stat_switch c st # ansi_states (ansi_stat_switch c st) cs"

definition ansi_run :: "u8 list \<Rightarrow> ansi_stat \<Rightarrow> ansi_stat" where
  "ansi_run cs st = fold ansi_stat_switch cs st"

lemma ansi_states_append: "ansi_states st (cs @ ds) = ansi_states st cs @ ansi_states (ansi_run cs st) ds"
  by (induction cs arbitrary: st) (simp_all add: ansi_run_def)

lemma ansi_run_append: "ansi_run (cs @ ds) st = ansi_run ds (ansi_run cs st)"
  by (simp add: ansi_run_def)

lemma digit_of_num:
  assumes "d < 10"
  shows "is_num (digit_of d) \<and> ucast (digit_of d) - 48 = (of_nat d :: u32) \<and> digit_of d \<noteq> ANSI_ESC \<and> digit_of d \<noteq> 63 \<and> digit_of d \<noteq> 59"
proof -
  have "d \<in> {0, 1, 2, 3, 4, 5, 6, 7, 8, 9}" using assms by auto
  then show ?thesis by (auto simp: digit_of_def is_num_def ANSI_ESC_def)
qed

lemma num_add: "ucast c - 48 = v \<Longrightarrow> n * 10 + ucast c - 48 = 10 * n + (v :: u32)"
  by (simp add: algebra_simps)

lemma final_not_num: "is_final c \<Longrightarrow> \<not> is_num c \<and> c \<noteq> 59 \<and> c \<noteq> 63"
  by (auto simp: is_final_def is_num_def word_le_nat_alt)

lemma cnt_step:
  fixes n :: u8
  assumes "unat n < 10"
  shows "\<not> ANSI_MAX_CHARS < n + 1" and "unat (n + 1) = unat n + 1"
proof -
  show "unat (n + 1) = unat n + 1" using unat_add_small [of n 1] assms by simp
  then show "\<not> ANSI_MAX_CHARS < n + 1" using assms by (simp add: ANSI_MAX_CHARS_def word_less_nat_alt)
qed

text \<open>One character of a sequence, in each state of the machine.\<close>

lemma ansi_idle_esc:
  assumes "ansi_idle st"
  shows "a_stat (ansi_stat_switch ANSI_ESC st) = ANSI_IN_ESC" and "unat (a_cnt (ansi_stat_switch ANSI_ESC st)) \<le> 1"
proof -
  have "a_stat (ansi_stat_switch ANSI_ESC st) = ANSI_IN_ESC \<and> unat (a_cnt (ansi_stat_switch ANSI_ESC st)) \<le> 1"
  proof (cases "a_stat st = ANSI_IN_FIN")
    case True
    then show ?thesis by (simp add: ansi_stat_switch_def zero_ansi_def)
  next
    case False
    then have "a_stat st = ANSI_NONE" "a_cnt st = 0" using assms by (simp_all add: ansi_idle_def)
    then show ?thesis by (simp add: ansi_stat_switch_def ANSI_MAX_CHARS_def)
  qed
  then show "a_stat (ansi_stat_switch ANSI_ESC st) = ANSI_IN_ESC" and "unat (a_cnt (ansi_stat_switch ANSI_ESC st)) \<le> 1" by auto
qed

lemma ansi_bracket:
  assumes "a_stat st = ANSI_IN_ESC" and "unat (a_cnt st) < 10"
  shows "ansi_stat_switch ANSI_BRA st = st\<lparr>a_stat := ANSI_IN_BRA, a_cnt := a_cnt st + 1\<rparr>"
  using assms cnt_step(1) [OF assms(2)] by (simp add: ansi_stat_switch_def Let_def ANSI_BRA_def)

lemma ansi_first_digit:
  assumes "a_stat st = ANSI_IN_BRA" and "unat (a_cnt st) < 10" and "d < 10"
  shows "ansi_stat_switch (digit_of d) st = st\<lparr>a_stat := ANSI_IN_NUM1, a_n1 := of_nat d, a_cnt := a_cnt st + 1\<rparr>"
  using assms cnt_step(1) [OF assms(2)] digit_of_num [OF assms(3)] by (simp add: ansi_stat_switch_def Let_def)

lemma ansi_digit:
  assumes "unat (a_cnt st) < 10" and "d < 10"
  shows "a_stat st = ANSI_IN_NUM1 \<Longrightarrow> ansi_stat_switch (digit_of d) st = st\<lparr>a_n1 := 10 * a_n1 st + of_nat d, a_cnt := a_cnt st + 1\<rparr>"
    and "a_stat st = ANSI_IN_NUM2 \<Longrightarrow> ansi_stat_switch (digit_of d) st = st\<lparr>a_n2 := 10 * a_n2 st + of_nat d, a_cnt := a_cnt st + 1\<rparr>"
  using cnt_step(1) [OF assms(1)] digit_of_num [OF assms(2)] num_add [of "digit_of d" "of_nat d"]
  by (simp_all add: ansi_stat_switch_def Let_def)

lemma ansi_semicolon:
  assumes "a_stat st = ANSI_IN_NUM1" and "unat (a_cnt st) < 10"
  shows "ansi_stat_switch 59 st = st\<lparr>a_stat := ANSI_IN_NUM2, a_n2 := 0, a_cnt := a_cnt st + 1\<rparr>"
  using assms cnt_step(1) [OF assms(2)] by (simp add: ansi_stat_switch_def Let_def is_num_def ANSI_ESC_def)

lemma ansi_final:
  assumes "a_stat st \<in> {ANSI_IN_BRA, ANSI_IN_NUM1, ANSI_IN_NUM2}" and "unat (a_cnt st) < 10" and "is_final c"
  shows "ansi_stat_switch c st = st\<lparr>a_stat := ANSI_IN_FIN, a_c1 := c, a_cnt := a_cnt st + 1\<rparr>"
  using assms cnt_step(1) [OF assms(2)] final_not_num [OF assms(3)] by (auto simp: ansi_stat_switch_def Let_def)

lemma ansi_idle_other: "ansi_idle st \<Longrightarrow> c \<noteq> ANSI_ESC \<Longrightarrow> a_stat (ansi_stat_switch c st) = ANSI_NONE"
  by (cases "a_stat st = ANSI_IN_FIN") (simp_all add: ansi_idle_def ansi_stat_switch_def zero_ansi_def)

text \<open>Digits extend the number that is being read, as long as the counter allows.\<close>

definition more :: "u32 \<Rightarrow> nat list \<Rightarrow> u32" where
  "more n ds = foldl (\<lambda>n d. 10 * n + of_nat d) n ds"

lemma more_dec: "more (of_nat n) ds = of_nat (foldl (\<lambda>n d. 10 * n + d) n ds)"
proof (induction ds arbitrary: n)
  case (Cons d ds)
  then show ?case using Cons.IH [of "10 * n + d"] by (simp add: more_def)
qed (simp add: more_def)

lemma ansi_digits1:
  assumes "a_stat st = ANSI_IN_NUM1" and "unat (a_cnt st) + length ds \<le> 10" and "\<forall>d\<in>set ds. d < 10"
  shows "ansi_run (map digit_of ds) st = st\<lparr>a_n1 := more (a_n1 st) ds, a_cnt := a_cnt st + of_nat (length ds)\<rparr> \<and>
    (\<forall>s\<in>set (ansi_states st (map digit_of ds)). a_stat s \<noteq> ANSI_NONE)"
  using assms
proof (induction ds arbitrary: st)
  case (Cons d ds)
  then have c: "unat (a_cnt st) < 10" "d < 10" by auto
  note s = ansi_digit(1) [OF c Cons.prems(1)]
  let ?s = "st\<lparr>a_n1 := 10 * a_n1 st + of_nat d, a_cnt := a_cnt st + 1\<rparr>"
  have "unat (a_cnt ?s) + length ds \<le> 10" using Cons.prems(2) cnt_step(2) [OF c(1)] by simp
  with Cons.IH [of ?s] Cons.prems(1,3) s show ?case by (simp add: ansi_run_def more_def algebra_simps)
qed (simp add: ansi_run_def more_def)

lemma ansi_digits2:
  assumes "a_stat st = ANSI_IN_NUM2" and "unat (a_cnt st) + length ds \<le> 10" and "\<forall>d\<in>set ds. d < 10"
  shows "ansi_run (map digit_of ds) st = st\<lparr>a_n2 := more (a_n2 st) ds, a_cnt := a_cnt st + of_nat (length ds)\<rparr> \<and>
    (\<forall>s\<in>set (ansi_states st (map digit_of ds)). a_stat s \<noteq> ANSI_NONE)"
  using assms
proof (induction ds arbitrary: st)
  case (Cons d ds)
  then have c: "unat (a_cnt st) < 10" "d < 10" by auto
  note s = ansi_digit(2) [OF c Cons.prems(1)]
  let ?s = "st\<lparr>a_n2 := 10 * a_n2 st + of_nat d, a_cnt := a_cnt st + 1\<rparr>"
  have "unat (a_cnt ?s) + length ds \<le> 10" using Cons.prems(2) cnt_step(2) [OF c(1)] by simp
  with Cons.IH [of ?s] Cons.prems(1,3) s show ?case by (simp add: ansi_run_def more_def algebra_simps)
qed (simp add: ansi_run_def more_def)

text \<open>
  The escape sequences with two numbers. From an idle machine, the characters \<open>ESC [\<close>, the decimal
  digits of a first number, a semicolon, the digits of a second one and a letter (or \<open>~\<close>) leave the
  machine finished with exactly these numbers (modulo \<open>2^32\<close>) and this letter, whatever an earlier
  sequence has left in it, as long as the sequence is no longer than ten characters; and not one of
  its characters is taken for text. Any other character than \<open>ESC\<close> is text for an idle machine.
\<close>

theorem ansi_two_numbers:
  assumes "ansi_idle st" and "ds \<noteq> []" and "\<forall>d\<in>set (ds @ es). d < 10" and "is_final c" and "length ds + length es \<le> 6"
  shows "(let cs = [ANSI_ESC, ANSI_BRA] @ map digit_of ds @ [59] @ map digit_of es @ [c];
              st' = ansi_run cs st in
     a_stat st' = ANSI_IN_FIN \<and> a_n1 st' = of_nat (dec ds) \<and> a_n2 st' = of_nat (dec es) \<and> a_c1 st' = c \<and>
     (\<forall>s\<in>set (ansi_states st cs). a_stat s \<noteq> ANSI_NONE)) \<and>
     (\<forall>k. k \<noteq> ANSI_ESC \<longrightarrow> a_stat (ansi_stat_switch k st) = ANSI_NONE)"
proof -
  obtain d ds' where ds: "ds = d # ds'" "d < 10" "\<forall>d\<in>set ds'. d < 10" "\<forall>d\<in>set es. d < 10"
    using assms(2,3) by (cases ds) auto
  define s1 where "s1 = ansi_stat_switch ANSI_ESC st"
  have s1: "a_stat s1 = ANSI_IN_ESC" "unat (a_cnt s1) \<le> 1" using ansi_idle_esc [OF assms(1)] by (simp_all add: s1_def)
  define s2 where "s2 = s1\<lparr>a_stat := ANSI_IN_BRA, a_cnt := a_cnt s1 + 1\<rparr>"
  have s2: "ansi_stat_switch ANSI_BRA s1 = s2" "a_stat s2 = ANSI_IN_BRA" "unat (a_cnt s2) \<le> 2"
    using ansi_bracket [of s1] s1 cnt_step(2) [of "a_cnt s1"] by (simp_all add: s2_def)
  define s3 where "s3 = s2\<lparr>a_stat := ANSI_IN_NUM1, a_n1 := of_nat d, a_cnt := a_cnt s2 + 1\<rparr>"
  have s3: "ansi_stat_switch (digit_of d) s2 = s3" "a_stat s3 = ANSI_IN_NUM1" "unat (a_cnt s3) \<le> 3" "a_n1 s3 = of_nat d"
    using ansi_first_digit [of s2 d] s2 ds(2) cnt_step(2) [of "a_cnt s2"] by (simp_all add: s3_def)
  have len: "length ds' + length es \<le> 5" using assms(5) ds(1) by simp
  define s4 where "s4 = ansi_run (map digit_of ds') s3"
  have r4: "s4 = s3\<lparr>a_n1 := more (of_nat d) ds', a_cnt := a_cnt s3 + of_nat (length ds')\<rparr>"
    "\<forall>s\<in>set (ansi_states s3 (map digit_of ds')). a_stat s \<noteq> ANSI_NONE"
    using ansi_digits1 [of s3 ds'] s3 ds(3) len by (simp_all add: s4_def)
  have cnt: "unat (n + of_nat k) = unat n + k" if "unat n + k < 256" for n :: u8 and k
    using that unat_add_small [of n k] by simp
  have s4: "a_stat s4 = ANSI_IN_NUM1" "unat (a_cnt s4) \<le> 3 + length ds'" "a_n1 s4 = of_nat (dec ds)"
    using s3 cnt [of "a_cnt s3" "length ds'"] len by (simp_all add: r4 more_dec dec_def ds(1))
  define s5 where "s5 = s4\<lparr>a_stat := ANSI_IN_NUM2, a_n2 := 0, a_cnt := a_cnt s4 + 1\<rparr>"
  have s5: "ansi_stat_switch 59 s4 = s5" "a_stat s5 = ANSI_IN_NUM2" "unat (a_cnt s5) \<le> 4 + length ds'"
    using ansi_semicolon [of s4] s4 len cnt_step(2) [of "a_cnt s4"] by (simp_all add: s5_def)
  define s6 where "s6 = ansi_run (map digit_of es) s5"
  have r6: "s6 = s5\<lparr>a_n2 := more 0 es, a_cnt := a_cnt s5 + of_nat (length es)\<rparr>"
    "\<forall>s\<in>set (ansi_states s5 (map digit_of es)). a_stat s \<noteq> ANSI_NONE"
    using ansi_digits2 [of s5 es] s5 ds(4) len by (simp_all add: s6_def) (simp_all add: s5_def)
  have s6: "a_stat s6 = ANSI_IN_NUM2" "unat (a_cnt s6) < 10" "a_n1 s6 = of_nat (dec ds)" "a_n2 s6 = of_nat (dec es)"
    using s5 s4 cnt [of "a_cnt s5" "length es"] len more_dec [of 0 es] by (simp_all add: r6 dec_def) (simp add: s5_def)
  define s7 where "s7 = s6\<lparr>a_stat := ANSI_IN_FIN, a_c1 := c, a_cnt := a_cnt s6 + 1\<rparr>"
  have s7: "ansi_stat_switch c s6 = s7" using ansi_final [of s6 c] s6 assms(4) by (simp add: s7_def)
  define cs where "cs = [ANSI_ESC, ANSI_BRA] @ map digit_of ds @ [59] @ map digit_of es @ [c]"
  have cs: "cs = ([ANSI_ESC, ANSI_BRA, digit_of d] @ map digit_of ds') @ [59] @ map digit_of es @ [c]" by (simp add: cs_def ds(1))
  have run: "ansi_run ([ANSI_ESC, ANSI_BRA, digit_of d] @ map digit_of ds') st = s4"
    by (simp add: ansi_run_def s1_def [symmetric] s2(1) s3(1) s4_def)
  have "ansi_run cs st = s7"
    unfolding cs ansi_run_append [of "[ANSI_ESC, ANSI_BRA, digit_of d] @ map digit_of ds'"] run using s5(1) s6_def s7 by (simp add: ansi_run_def)
  moreover have "a_stat s \<noteq> ANSI_NONE" if "s \<in> set (ansi_states st cs)" for s
    using that r4(2) r6(2) s1(1) s2 s3 s5(1,2) s7 unfolding cs ansi_states_append [of st "[ANSI_ESC, ANSI_BRA, digit_of d] @ map digit_of ds'"] run
    by (auto simp: s1_def [symmetric] ansi_states_append s6_def [symmetric] s7_def)
  moreover have "a_stat s7 = ANSI_IN_FIN" "a_n1 s7 = of_nat (dec ds)" "a_n2 s7 = of_nat (dec es)" "a_c1 s7 = c"
    using s6 by (simp_all add: s7_def)
  ultimately show ?thesis using ansi_idle_other [OF assms(1)] by (simp add: cs_def Let_def)
qed

text \<open>The sequence that puts the cursor at row 12, column 40.\<close>

theorem ansi_two_numbers_witness:
  "(let st' = ansi_run [27, 91, 49, 50, 59, 52, 48, 72] zero_ansi in
     a_stat st' = ANSI_IN_FIN \<and> a_n1 st' = 12 \<and> a_n2 st' = 40 \<and> a_c1 st' = 72)"
proof -
  have "ansi_idle zero_ansi" by (simp add: ansi_idle_def zero_ansi_def)
  moreover have "is_final 72" by (simp add: is_final_def)
  ultimately show ?thesis
    using ansi_two_numbers [of zero_ansi "[1, 2]" "[4, 0]" 72]
    by (simp add: Let_def digit_of_def ANSI_ESC_def ANSI_BRA_def dec_def)
qed

text \<open>A sequence that is broken off leaves its number behind, and the next one without a number uses it.\<close>

lemma ansi_stale_number:
  "(let st' = ansi_run [27, 91, 53, 33, 27, 91, 65] zero_ansi in a_stat st' = ANSI_IN_FIN \<and> a_c1 st' = 65 \<and> a_n1 st' = 5)"
  by (simp add: ansi_run_def ansi_stat_switch_def zero_ansi_def ANSI_ESC_def ANSI_BRA_def ANSI_MAX_CHARS_def is_num_def is_final_def)

end
