(* ===== verification/Crt.thy ===== *)
theory Crt
  imports Ansi Cstring
begin

text \<open>
  The text screen (\<open>crt.c\<close>): characters and attributes in the video memory, the position of the
  cursor, the escape sequences. The video memory is the list of the cells from \<open>CRT_ADDR\<close> up to
  \<open>CRT_END_ADDR\<close>; a store behind it is a fault. The display controller is its register file and the
  register selected by the last write to \<open>CRTC_PORT\<close>.
\<close>

definition TAB_SPACES :: u16 where "TAB_SPACES = 8"
definition CRT_COLS :: u16 where "CRT_COLS = 80"
definition CRT_ROWS :: u16 where "CRT_ROWS = 25"
definition CRT_MAX_ROWS :: u16 where "CRT_MAX_ROWS = CRT_ROWS"
definition CRT_DEF_ATTR :: u16 where "CRT_DEF_ATTR = 0x700"
definition VIDEO_CELLS :: nat where "VIDEO_CELLS = (0xC0000 - 0xB8000) div 2"

record crt =
  c_buf :: "u16 list"
  c_attr :: u16
  c_cols :: u16
  c_rows :: u16
  c_x :: u16
  c_y :: u16
  c_scroll :: u16
  c_astat :: ansi_stat
  crtc_reg :: "u8 \<Rightarrow> u8"
  port_3e0 :: u8

definition ansi_to_col :: "u8 list" where
  "ansi_to_col = [0, 4, 2, 6, 1, 5, 3, 7]"

definition crt_out :: "u8 \<Rightarrow> u8 \<Rightarrow> crt \<Rightarrow> crt" where
  "crt_out r v s = s\<lparr>crtc_reg := (crtc_reg s)(r := v)\<rparr>"

definition CRT_POS :: "crt \<Rightarrow> nat" where
  "CRT_POS s = unat (c_cols s) * unat (c_y s) + unat (c_x s)"

definition crt_get_cursor :: "crt \<Rightarrow> nat" where
  "crt_get_cursor s = unat (crtc_reg s 0x0E) * 256 + unat (crtc_reg s 0x0F)"

definition crt_set_cursor :: "nat \<Rightarrow> crt \<Rightarrow> crt" where
  "crt_set_cursor pos s = crt_out 0x0F (of_nat pos) (crt_out 0x0E (of_nat (pos div 256)) s)"

definition crt_cursor_on :: "crt \<Rightarrow> crt" where
  "crt_cursor_on s = crt_out 0x0B ((port_3e0 s AND 0xE0) OR 0x0E) (crt_out 0x0A (crtc_reg s 0x0A AND 0xC0) s)"

definition crt_cursor_off :: "crt \<Rightarrow> crt" where
  "crt_cursor_off s = crt_out 0x0A 0x20 s"

definition crt_set_cursor_xy :: "u16 \<Rightarrow> u16 \<Rightarrow> crt \<Rightarrow> crt kres" where
  "crt_set_cursor_xy x y s =
     kassert (y < CRT_MAX_ROWS) ''y < CRT_MAX_ROWS''
     (kassert (x < c_cols s) ''x < crt.cols''
      (let s = s\<lparr>c_x := x, c_y := y\<rparr> in Inr (crt_set_cursor (CRT_POS s) s)))"

definition crt_scroll_to_line :: "int \<Rightarrow> crt \<Rightarrow> crt" where
  "crt_scroll_to_line line s =
     (let line = (if line < uint (c_rows s) then uint (c_rows s) else line);
          line = (if line > uint (c_y s) then uint (c_y s) else line);
          offs = (if line > uint (c_rows s) then (line - uint (c_rows s)) * uint (c_cols s) else 0) in
      crt_out 0x0D (of_int offs) (crt_out 0x0C (of_int (offs div 256)) (s\<lparr>c_scroll := of_int line\<rparr>)))"

text \<open>\<open>n\<close> stores of a blank with the current attribute, from cell \<open>i\<close> on.\<close>

fun blank :: "nat \<Rightarrow> nat \<Rightarrow> crt \<Rightarrow> crt kres" where
  "blank i 0 s = Inr s"
| "blank i (Suc n) s = bnd (aset (c_buf s) i (32 OR c_attr s)) (\<lambda>b. blank (Suc i) n (s\<lparr>c_buf := b\<rparr>))"

definition crt_reset :: "crt \<Rightarrow> crt kres" where
  "crt_reset s =
     bnd (blank 0 (unat (c_cols s) * unat CRT_MAX_ROWS) (s\<lparr>c_x := 0, c_y := 0, c_attr := CRT_DEF_ATTR\<rparr>)) (\<lambda>s.
     Inr (crt_scroll_to_line 0 (crt_set_cursor 0 s)))"

definition crt_init :: "crt \<Rightarrow> crt" where
  "crt_init s =
     (let s = s\<lparr>c_attr := CRT_DEF_ATTR, c_cols := CRT_COLS, c_rows := CRT_ROWS\<rparr>;
          pos = crt_get_cursor s;
          pos = (if pos div unat (c_cols s) > unat (c_rows s) - 1 then 0 else pos) in
      crt_cursor_on (s\<lparr>c_x := of_nat (pos mod unat (c_cols s)), c_y := of_nat (pos div unat (c_cols s))\<rparr>))"

definition crt_set_color :: "u8 \<Rightarrow> u8 \<Rightarrow> crt \<Rightarrow> crt" where
  "crt_set_color color bright s =
     (let bg = drop_bit 8 (c_attr s) AND 0xF0;
          color = (if bright \<noteq> 0 then color + 8 else color) AND 0x0F in
      s\<lparr>c_attr := push_bit 8 (bg OR ucast color)\<rparr>)"

definition crt_set_background :: "u8 \<Rightarrow> u8 \<Rightarrow> crt \<Rightarrow> crt" where
  "crt_set_background bg bright s =
     (let color = drop_bit 8 (c_attr s) AND 0x0F;
          bg = push_bit 4 ((if bright \<noteq> 0 then bg + 8 else bg) AND 0x0F) in
      s\<lparr>c_attr := push_bit 8 (ucast bg OR color)\<rparr>)"

definition crt_reverse_video :: "crt \<Rightarrow> crt" where
  "crt_reverse_video s =
     (let bg = ucast (c_attr s AND 0x0F); fg = ucast (drop_bit 8 (c_attr s) AND 0x0F) in
      crt_set_background fg 0 (crt_set_color bg 0 s))"

text \<open>The macro \<open>MIN_ONE(crt, n)\<close>: it asks for the first number of the sequence whichever number it is given.\<close>

definition MIN_ONE :: "crt \<Rightarrow> u32 \<Rightarrow> u32" where
  "MIN_ONE s n = (if a_n1 (c_astat s) = 0 then 1 else n)"

definition set_attr :: "u32 \<Rightarrow> u32 \<Rightarrow> crt \<Rightarrow> crt" where
  "set_attr n1 n2 s =
     (if n1 = 0 then s\<lparr>c_attr := CRT_DEF_ATTR\<rparr>
      else if 30 \<le> sint n1 \<and> sint n1 \<le> 37 then crt_set_color (ansi_to_col ! nat (sint n1 - 30)) (ucast n2) s
      else if 40 \<le> sint n1 \<and> sint n1 \<le> 47 then crt_set_background (ansi_to_col ! nat (sint n1 - 40)) (ucast n2) s
      else if n1 = 7 then crt_reverse_video s
      else if n1 = 39 then crt_set_background (ucast (CRT_DEF_ATTR AND 0x0F)) 0 s
      else s)"

definition erase_in_line :: "u32 \<Rightarrow> crt \<Rightarrow> crt kres" where
  "erase_in_line n1 s =
     (let row = unat (c_y s) * unat (c_cols s) in
      if n1 = 1 then blank row (unat (c_x s)) s
      else if n1 = 2 then blank row (unat (c_cols s)) s
      else blank (row + unat (c_x s)) (unat (c_cols s) - unat (c_x s)) s)"

definition crt_handle_ansi :: "u8 \<Rightarrow> crt \<Rightarrow> crt kres" where
  "crt_handle_ansi c s =
     (let n1 = a_n1 (c_astat s); n2 = a_n2 (c_astat s) in
      if c = 99 then crt_reset s
      else if c = 109 then Inr (set_attr n1 n2 s)
      else if c = 65 then crt_set_cursor_xy (c_x s) (c_y s - ucast (MIN_ONE s n1)) s
      else if c = 66 then crt_set_cursor_xy (c_x s) (c_y s + ucast (MIN_ONE s n1)) s
      else if c = 67 then crt_set_cursor_xy (c_x s + ucast (MIN_ONE s n1)) (c_y s) s
      else if c = 68 then crt_set_cursor_xy (c_x s - ucast (MIN_ONE s n1)) (c_y s) s
      else if c = 75 then erase_in_line n1 s
      else if n1 = 25 \<and> a_c2 (c_astat s) = 63 then
        Inr (if c = 104 then crt_cursor_on s else if c = 108 then crt_cursor_off s else s)
      else if c = 72 then crt_set_cursor_xy (ucast (MIN_ONE s n2) - 1) (ucast (MIN_ONE s n1) - 1) s
      else Inr s)"

definition crt_scroll_up :: "crt \<Rightarrow> crt" where
  "crt_scroll_up s = crt_scroll_to_line (uint (c_scroll s) - 10) s"

definition crt_scroll_down :: "crt \<Rightarrow> crt" where
  "crt_scroll_down s = crt_scroll_to_line (uint (c_scroll s) + 10) s"

definition crt_lf :: "crt \<Rightarrow> crt kres" where
  "crt_lf s =
     (let y = c_y s - 1 in
      bnd (memcpy (c_buf s) 0 (unat (c_cols s)) (unat (c_cols s) * unat y)) (\<lambda>b.
      blank (unat y * unat (c_cols s)) (unat (c_cols s)) (s\<lparr>c_y := y, c_buf := b\<rparr>)))"

text \<open>\<open>y++\<close>, and scrolling when the cursor has left the screen.\<close>

definition next_row :: "crt \<Rightarrow> crt kres" where
  "next_row s =
     (let s = s\<lparr>c_y := c_y s + 1\<rparr> in
      if CRT_POS s \<ge> unat (c_rows s) * unat (c_cols s) then crt_lf s else Inr s)"

definition crt_char :: "u8 \<Rightarrow> crt \<Rightarrow> crt kres" where
  "crt_char c s =
     (if c = 10 then next_row s
      else if c = 13 then Inr (s\<lparr>c_x := 0\<rparr>)
      else if c = 8 then
        (let s = (if c_x s = 0 \<and> c_y s > 0 then s\<lparr>c_x := c_cols s, c_y := c_y s - 1\<rparr> else s) in
         Inr (s\<lparr>c_x := c_x s - 1\<rparr>))
      else if c = 9 then Inr (s\<lparr>c_x := (c_x s + TAB_SPACES) AND NOT (TAB_SPACES - 1)\<rparr>)
      else bnd (aset (c_buf s) (CRT_POS s) (scast c OR c_attr s)) (\<lambda>b. Inr (s\<lparr>c_buf := b, c_x := c_x s + 1\<rparr>)))"

definition crt_putc :: "u8 \<Rightarrow> crt \<Rightarrow> crt kres" where
  "crt_putc c s =
     (let s = s\<lparr>c_astat := ansi_stat_switch c (c_astat s)\<rparr> in
      if a_stat (c_astat s) \<noteq> ANSI_NONE then
        (if a_stat (c_astat s) = ANSI_IN_FIN then crt_handle_ansi c s else Inr s)
      else
        bnd (if c_x s > c_cols s then next_row (s\<lparr>c_x := c_x s mod c_cols s\<rparr>) else Inr s) (\<lambda>s.
        bnd (crt_char c s) (\<lambda>s. Inr (crt_set_cursor (CRT_POS s) s))))"

section \<open>The cursor and the video memory\<close>

text \<open>
  The cursor may stand right of the last column: the line is broken when the next character comes.
\<close>

definition crt_ok :: "crt \<Rightarrow> bool" where
  "crt_ok s \<longleftrightarrow> length (c_buf s) = VIDEO_CELLS \<and> c_cols s = 80 \<and> c_rows s = 25 \<and> unat (c_y s) < 25 \<and> unat (c_x s) \<le> 88"

text \<open>\<open>s'\<close> has the same screen as \<open>s\<close>, except for cells in front of \<open>n\<close>.\<close>

definition screen_upd :: "nat \<Rightarrow> crt \<Rightarrow> crt \<Rightarrow> bool" where
  "screen_upd n s s' \<longleftrightarrow> crt_ok s' \<and> (\<forall>k. n \<le> k \<longrightarrow> k < VIDEO_CELLS \<longrightarrow> c_buf s' ! k = c_buf s ! k)"

lemma crt_out_simps [simp]:
  "c_buf (crt_out r v s) = c_buf s" "c_attr (crt_out r v s) = c_attr s" "c_cols (crt_out r v s) = c_cols s" "c_rows (crt_out r v s) = c_rows s"
  "c_x (crt_out r v s) = c_x s" "c_y (crt_out r v s) = c_y s" "c_astat (crt_out r v s) = c_astat s" "crt_ok (crt_out r v s) = crt_ok s"
  by (simp_all add: crt_out_def crt_ok_def)

lemma crt_set_cursor_simps [simp]:
  "c_buf (crt_set_cursor p s) = c_buf s" "c_attr (crt_set_cursor p s) = c_attr s" "c_cols (crt_set_cursor p s) = c_cols s"
  "c_rows (crt_set_cursor p s) = c_rows s" "c_x (crt_set_cursor p s) = c_x s" "c_y (crt_set_cursor p s) = c_y s"
  "c_astat (crt_set_cursor p s) = c_astat s" "crt_ok (crt_set_cursor p s) = crt_ok s"
  by (simp_all add: crt_set_cursor_def)

lemma crt_ok_simps [simp]:
  "crt_ok (s\<lparr>c_attr := a\<rparr>) = crt_ok s" "crt_ok (s\<lparr>c_astat := st\<rparr>) = crt_ok s" "crt_ok (s\<lparr>c_scroll := l\<rparr>) = crt_ok s"
  by (simp_all add: crt_ok_def)

lemma blank_ok:
  assumes "i + n \<le> length (c_buf s)"
  shows "\<exists>b. blank i n s = Inr (s\<lparr>c_buf := b\<rparr>) \<and> length b = length (c_buf s) \<and>
    (\<forall>k. b ! k = (if i \<le> k \<and> k < i + n then 32 OR c_attr s else c_buf s ! k))"
  using assms
proof (induction n arbitrary: i s)
  case 0
  then show ?case by (auto intro: exI [of _ "c_buf s"])
next
  case (Suc n)
  let ?s = "s\<lparr>c_buf := (c_buf s)[i := 32 OR c_attr s]\<rparr>"
  have i: "i < length (c_buf s)" using Suc.prems by simp
  from Suc.IH [of "Suc i" ?s] Suc.prems obtain b where b: "blank (Suc i) n ?s = Inr (?s\<lparr>c_buf := b\<rparr>)" "length b = length (c_buf s)"
    "\<forall>k. b ! k = (if Suc i \<le> k \<and> k < Suc i + n then 32 OR c_attr s else c_buf ?s ! k)" by auto
  have "b ! k = (if i \<le> k \<and> k < i + Suc n then 32 OR c_attr s else c_buf s ! k)" for k
    using b(3) i by (auto simp: nth_list_update)
  with b i show ?case by auto
qed

lemma blank_upd:
  assumes "crt_ok s" and "i + n \<le> 2008"
  shows "\<exists>s'. blank i n s = Inr s' \<and> screen_upd 2008 s s'"
proof -
  have "i + n \<le> length (c_buf s)" using assms by (simp add: crt_ok_def VIDEO_CELLS_def)
  from blank_ok [OF this] obtain b where "blank i n s = Inr (s\<lparr>c_buf := b\<rparr>)" "length b = length (c_buf s)"
    "\<forall>k. b ! k = (if i \<le> k \<and> k < i + n then 32 OR c_attr s else c_buf s ! k)" by blast
  then show ?thesis using assms by (auto simp: screen_upd_def crt_ok_def)
qed

lemma cursor_xy_upd:
  assumes "crt_ok s"
  shows "(\<exists>m. crt_set_cursor_xy x y s = Inl (Assertion m)) \<or> (\<exists>s'. crt_set_cursor_xy x y s = Inr s' \<and> screen_upd 2008 s s')"
proof (cases "y < CRT_MAX_ROWS \<and> x < c_cols s")
  case True
  then have "unat y < 25" "unat x < 80" using assms by (simp_all add: crt_ok_def CRT_MAX_ROWS_def CRT_ROWS_def word_less_nat_alt)
  then have "crt_ok (s\<lparr>c_x := x, c_y := y\<rparr>)" using assms by (simp add: crt_ok_def)
  then show ?thesis using True by (simp add: crt_set_cursor_xy_def screen_upd_def Let_def)
qed (auto simp: crt_set_cursor_xy_def kassert_def)

lemma set_attr_fields: "\<exists>a. set_attr n1 n2 s = s\<lparr>c_attr := a\<rparr>"
  by (auto simp: set_attr_def crt_set_color_def crt_set_background_def crt_reverse_video_def Let_def)
     (metis crt.surjective crt.update_convs(2))+

lemma scroll_to_line_upd: "crt_ok (crt_scroll_to_line l s) = crt_ok s" "c_buf (crt_scroll_to_line l s) = c_buf s"
  by (simp_all add: crt_scroll_to_line_def Let_def)

lemma screen_upd_refl: "crt_ok s \<Longrightarrow> screen_upd n s s"
  by (simp add: screen_upd_def)

lemma handle_ansi_upd:
  assumes "crt_ok s"
  shows "(\<exists>m. crt_handle_ansi c s = Inl (Assertion m)) \<or> (\<exists>s'. crt_handle_ansi c s = Inr s' \<and> screen_upd 2008 s s')"
proof -
  have y: "unat (c_y s) < 25" "unat (c_x s) \<le> 88" "c_cols s = 80" using assms by (simp_all add: crt_ok_def)
  have K: "\<exists>s'. erase_in_line n s = Inr s' \<and> screen_upd 2008 s s'" for n
    using blank_upd [OF assms] y by (simp add: erase_in_line_def Let_def)
  have R: "\<exists>s'. crt_reset s = Inr s' \<and> screen_upd 2008 s s'"
  proof -
    let ?s = "s\<lparr>c_x := 0, c_y := 0, c_attr := CRT_DEF_ATTR\<rparr>"
    have "crt_ok ?s" using assms by (simp add: crt_ok_def)
    from blank_upd [OF this, of 0 2000] obtain s' where "blank 0 2000 ?s = Inr s'" "screen_upd 2008 ?s s'" by auto
    then show ?thesis using y by (simp add: crt_reset_def CRT_MAX_ROWS_def CRT_ROWS_def screen_upd_def scroll_to_line_upd)
  qed
  have A: "screen_upd 2008 s (set_attr n m s)" for n m
    using set_attr_fields [of n m s] assms by (auto simp: screen_upd_def)
  have C: "screen_upd 2008 s (crt_cursor_on s)" "screen_upd 2008 s (crt_cursor_off s)"
    using assms by (simp_all add: screen_upd_def crt_cursor_on_def crt_cursor_off_def)
  show ?thesis
    unfolding crt_handle_ansi_def Let_def
    using K R A C cursor_xy_upd [OF assms] screen_upd_refl [OF assms] by (simp split: if_split)
qed

lemma succ16:
  fixes w :: u16
  assumes "unat w < 65535"
  shows "unat (w + 1) = unat w + 1"
  using unat_add_small [of w 1] assms by simp

text \<open>Scrolling: every row moves up by one, the last one becomes blank.\<close>

lemma crt_lf_ok:
  assumes "length (c_buf s) = VIDEO_CELLS" and "c_cols s = 80" and "unat (c_y s) \<le> 25" and "c_y s \<noteq> 0"
  shows "\<exists>b. crt_lf s = Inr (s\<lparr>c_y := c_y s - 1, c_buf := b\<rparr>) \<and> length b = VIDEO_CELLS \<and>
    (\<forall>k. k < VIDEO_CELLS \<longrightarrow> b ! k = (if k < 80 * (unat (c_y s) - 1) then c_buf s ! (k + 80)
       else if k < 80 * unat (c_y s) then 32 OR c_attr s else c_buf s ! k))"
proof -
  define y where "y = unat (c_y s) - 1"
  have y: "unat (c_y s - 1) = y" "y < 25" "unat (c_y s) = y + 1"
    using assms(3,4) unat_gt_0 [of "c_y s"] by (simp_all add: y_def unat_minus_one)
  have l: "80 * y + 80 \<le> length (c_buf s)" using assms(1) y by (simp add: VIDEO_CELLS_def)
  define m where "m = moved (c_buf s) 0 80 (80 * y)"
  have cp: "memcpy (c_buf s) 0 80 (80 * y) = Inr m" using memcpy_up_ok [of 0 "80 * y" "c_buf s" 80] l by (simp add: memcpy_def m_def)
  have m: "length m = VIDEO_CELLS" "k < VIDEO_CELLS \<Longrightarrow> m ! k = (if k < 80 * y then c_buf s ! (k + 80) else c_buf s ! k)" for k
    using l assms(1) by (auto simp: m_def moved_nth add.commute)
  have "y * 80 + 80 \<le> length (c_buf (s\<lparr>c_y := c_y s - 1, c_buf := m\<rparr>))" using l m(1) assms(1) by simp
  from blank_ok [OF this] obtain b where "blank (y * 80) 80 (s\<lparr>c_y := c_y s - 1, c_buf := m\<rparr>) = Inr (s\<lparr>c_y := c_y s - 1, c_buf := b\<rparr>)"
    "length b = VIDEO_CELLS" "\<And>k. b ! k = (if y * 80 \<le> k \<and> k < y * 80 + 80 then 32 OR c_attr s else m ! k)"
    using m(1) by auto
  then show ?thesis using cp m(2) y assms(2) by (auto simp: crt_lf_def Let_def)
qed

lemma next_row_upd:
  assumes "crt_ok s"
  shows "\<exists>s'. next_row s = Inr s' \<and> screen_upd 2008 s s' \<and> c_x s' = c_x s \<and> c_astat s' = c_astat s \<and> c_attr s' = c_attr s"
proof -
  have y: "unat (c_y s + 1) = unat (c_y s) + 1" using succ16 [of "c_y s"] assms by (simp add: crt_ok_def)
  show ?thesis
  proof (cases "CRT_POS (s\<lparr>c_y := c_y s + 1\<rparr>) \<ge> unat (c_rows s) * unat (c_cols s)")
    case True
    have "c_y s + 1 \<noteq> 0" using y by (metis unat_0 add_is_0 one_neq_zero)
    then obtain b where b: "crt_lf (s\<lparr>c_y := c_y s + 1\<rparr>) = Inr (s\<lparr>c_y := c_y s, c_buf := b\<rparr>)" "length b = VIDEO_CELLS"
      "\<And>k. k < VIDEO_CELLS \<Longrightarrow> b ! k = (if k < 80 * unat (c_y s) then c_buf s ! (k + 80) else if k < 80 * unat (c_y s) + 80 then 32 OR c_attr s else c_buf s ! k)"
      using crt_lf_ok [of "s\<lparr>c_y := c_y s + 1\<rparr>"] assms y by (auto simp: crt_ok_def)
    then have "screen_upd 2008 s (s\<lparr>c_y := c_y s, c_buf := b\<rparr>)" using assms by (simp add: screen_upd_def crt_ok_def)
    then show ?thesis using True b(1) by (simp add: next_row_def)
  next
    case False
    then have "unat (c_y s) + 1 < 25" using assms y by (simp add: crt_ok_def CRT_POS_def)
    then have "screen_upd 2008 s (s\<lparr>c_y := c_y s + 1\<rparr>)" using assms y by (simp add: screen_upd_def crt_ok_def)
    then show ?thesis using False by (simp add: next_row_def)
  qed
qed

lemma tab_stop:
  fixes x :: u16
  assumes "unat x \<le> 80"
  shows "unat ((x + 8) AND NOT 7) \<le> 88"
proof -
  have "(x + 8) AND NOT 7 \<le> x + 8" by (rule word_and_le2)
  moreover have "unat (x + 8) = unat x + 8" using unat_add_small [of x 8] assms by simp
  ultimately show ?thesis using assms by (simp add: word_le_nat_alt)
qed

lemma crt_char_upd:
  assumes "crt_ok s" and "unat (c_x s) \<le> 80" and "\<not> (c = 8 \<and> c_x s = 0 \<and> c_y s = 0)"
  shows "\<exists>s'. crt_char c s = Inr s' \<and> screen_upd 2008 s s'"
proof -
  have pos: "CRT_POS s < 2008" "CRT_POS s < length (c_buf s)" using assms by (simp_all add: crt_ok_def CRT_POS_def VIDEO_CELLS_def)
  have x: "unat (c_x s + 1) = unat (c_x s) + 1" using succ16 [of "c_x s"] assms(2) by simp
  have put: "screen_upd 2008 s (s\<lparr>c_buf := (c_buf s)[CRT_POS s := v], c_x := c_x s + 1\<rparr>)" for v
    using assms(1,2) pos x by (auto simp: screen_upd_def crt_ok_def)
  have bs: "screen_upd 2008 s (s\<lparr>c_y := c_y s - 1, c_x := 79\<rparr>)" if "c_y s > 0"
    using that assms(1) unat_minus_one [of "c_y s"] by (auto simp: screen_upd_def crt_ok_def)
  have bx: "screen_upd 2008 s (s\<lparr>c_x := c_x s - 1\<rparr>)" if "c_x s \<noteq> 0"
    using that assms(1) unat_minus_one [of "c_x s"] by (auto simp: screen_upd_def crt_ok_def)
  have tb: "screen_upd 2008 s (s\<lparr>c_x := (c_x s + 8) AND NOT 7\<rparr>)" "screen_upd 2008 s (s\<lparr>c_x := 0\<rparr>)"
    using tab_stop [OF assms(2)] assms(1) by (auto simp: screen_upd_def crt_ok_def)
  have y: "c_y s \<noteq> 0 \<longleftrightarrow> c_y s > 0" by (simp add: word_neq_0_conv)
  show ?thesis
    using next_row_upd [OF assms(1)] put bs bx tb assms(1,3) pos(2) y
    by (auto simp: crt_char_def TAB_SPACES_def crt_ok_def Let_def)
qed

text \<open>
  One byte, ordinary, control or part of any escape sequence: the driver either stops on an assertion or returns with the cursor on one of
  the 25 rows. It changes cells of the 25 rows and the eight cells behind them only: the cursor may stand up to
  eight columns right of the last one.
\<close>

lemma crt_putc_safe:
  assumes "crt_ok s" and "\<not> (c = 8 \<and> c_x s = 0 \<and> c_y s = 0)"
  shows "case crt_putc c s of Inl e \<Rightarrow> \<exists>m. e = Assertion m
    | Inr s' \<Rightarrow> crt_ok s' \<and> (\<forall>k. 2008 \<le> k \<longrightarrow> k < VIDEO_CELLS \<longrightarrow> c_buf s' ! k = c_buf s ! k)"
proof -
  define s1 where "s1 = s\<lparr>c_astat := ansi_stat_switch c (c_astat s)\<rparr>"
  have ok: "crt_ok s1" and buf: "c_buf s1 = c_buf s" and xy: "c_x s1 = c_x s" "c_y s1 = c_y s" using assms(1) by (simp_all add: s1_def)
  show ?thesis
  proof (cases "a_stat (c_astat s1) = ANSI_NONE")
    case False
    then show ?thesis
      using handle_ansi_upd [OF ok, of c] ok buf by (auto simp: crt_putc_def Let_def s1_def [symmetric] screen_upd_def)
  next
    case True
    define s2 where "s2 = s1\<lparr>c_x := c_x s1 mod c_cols s1\<rparr>"
    have cols: "c_cols s1 = 80" using ok by (simp add: crt_ok_def)
    have ok2: "crt_ok s2" using ok unat_mod [of "c_x s1" 80] by (simp add: crt_ok_def s2_def)
    have x2: "unat (c_x s2) < 80" using cols unat_mod [of "c_x s1" 80] by (simp add: s2_def)
    have "\<exists>s3. (if c_x s1 > c_cols s1 then next_row s2 else Inr s1) = Inr s3 \<and> screen_upd 2008 s1 s3 \<and> unat (c_x s3) \<le> 80 \<and>
      \<not> (c = 8 \<and> c_x s3 = 0 \<and> c_y s3 = 0)"
    proof (cases "c_x s1 > c_cols s1")
      case True
      from next_row_upd [OF ok2] obtain s3 where n: "next_row s2 = Inr s3" "screen_upd 2008 s2 s3" "c_x s3 = c_x s2" by blast
      have "\<not> (c_x s2 = 0 \<and> c_y s3 = 0)"
      proof
        assume z: "c_x s2 = 0 \<and> c_y s3 = 0"
        have "unat (c_x s1) mod 80 = unat (c_x s2)" using cols unat_mod [of "c_x s1" 80] by (simp add: s2_def)
        then have "unat (c_x s1) mod 80 = 0" using z by simp
        moreover have "80 < unat (c_x s1)" "unat (c_x s1) \<le> 88" using True cols ok by (simp_all add: word_less_nat_alt crt_ok_def)
        ultimately show False by presburger
      qed
      then show ?thesis using True n x2 by (auto simp: screen_upd_def s2_def)
    next
      case False
      then have "unat (c_x s1) \<le> 80" using cols by (simp add: word_le_nat_alt not_less)
      with False show ?thesis using ok assms(2) xy by (auto simp: screen_upd_def)
    qed
    then obtain s3 where s3: "(if c_x s1 > c_cols s1 then next_row s2 else Inr s1) = Inr s3" "screen_upd 2008 s1 s3" "unat (c_x s3) \<le> 80"
      "\<not> (c = 8 \<and> c_x s3 = 0 \<and> c_y s3 = 0)" by blast
    from crt_char_upd [OF _ s3(3,4)] s3(2) obtain s4 where s4: "crt_char c s3 = Inr s4" "screen_upd 2008 s3 s4" by (auto simp: screen_upd_def)
    have "crt_putc c s = Inr (crt_set_cursor (CRT_POS s4) s4)"
      unfolding crt_putc_def Let_def s1_def [symmetric] s2_def [symmetric] s3(1) bnd_Inr s4(1) using True by simp
    then show ?thesis using s3(2) s4(2) buf by (simp add: screen_upd_def)
  qed
qed

definition sample_crt :: crt where
  "sample_crt = \<lparr>c_buf = replicate VIDEO_CELLS 0, c_attr = CRT_DEF_ATTR, c_cols = 80, c_rows = 25, c_x = 79, c_y = 24, c_scroll = 0,
     c_astat = zero_ansi, crtc_reg = (\<lambda>_. 0), port_3e0 = 0\<rparr>"

lemma sample_crt_ok: "crt_ok sample_crt"
  by (simp add: crt_ok_def sample_crt_def)

text \<open>A stream of bytes, and that it has no backspace where it would be written in the upper left corner.\<close>

fun crt_puts :: "u8 list \<Rightarrow> crt \<Rightarrow> crt kres" where
  "crt_puts [] s = Inr s"
| "crt_puts (c # cs) s = bnd (crt_putc c s) (crt_puts cs)"

fun no_corner_bs :: "u8 list \<Rightarrow> crt \<Rightarrow> bool" where
  "no_corner_bs [] s = True"
| "no_corner_bs (c # cs) s = (\<not> (c = 8 \<and> c_x s = 0 \<and> c_y s = 0) \<and> (case crt_putc c s of Inl _ \<Rightarrow> True | Inr s' \<Rightarrow> no_corner_bs cs s'))"

text \<open>
  C30. The screen driver stays in the memory of its card, for every stream of bytes without a backspace at the upper left
  corner: whatever text, control characters and escape sequences, complete, malformed or cut, are written one after the other, the
  driver reads and writes no address outside the card's memory, and it stops on an assertion of its own or ends
  with the cursor on one of the 25 rows; of the card's cells, those of the 25 rows and the eight behind them are the only ones
  that change. (The eight cells are reached when a line is broken late, see \<open>wrapped_character_lost\<close>. A backspace at the
  corner wraps the column around, see \<open>corner_backspace\<close>, and is excluded.)
\<close>

theorem crt_stays_in_memory:
  assumes "crt_ok s" and "no_corner_bs cs s"
  shows "case crt_puts cs s of Inl e \<Rightarrow> \<exists>m. e = Assertion m
    | Inr s' \<Rightarrow> crt_ok s' \<and> (\<forall>k. 2008 \<le> k \<longrightarrow> k < VIDEO_CELLS \<longrightarrow> c_buf s' ! k = c_buf s ! k)"
  using assms
proof (induction cs arbitrary: s)
  case (Cons c cs)
  show ?case
  proof (cases "crt_putc c s")
    case (Inl e)
    then show ?thesis using crt_putc_safe [OF Cons.prems(1), of c] Cons.prems(2) by auto
  next
    case (Inr t)
    then have t: "crt_ok t" "\<forall>k. 2008 \<le> k \<longrightarrow> k < VIDEO_CELLS \<longrightarrow> c_buf t ! k = c_buf s ! k"
      using crt_putc_safe [OF Cons.prems(1), of c] Cons.prems(2) by auto
    have "no_corner_bs cs t" using Cons.prems(2) Inr by simp
    from Cons.IH [OF t(1) this] Inr t(2) show ?thesis by (auto split: sum.splits)
  qed
qed simp

text \<open>A character in the last column of the last row and a backspace.\<close>

theorem crt_stays_in_memory_witness:
  "\<exists>s'. crt_puts [65, 8] sample_crt = Inr s' \<and> crt_ok s' \<and> c_buf s' ! 2008 = 0"
proof -
  have run: "case crt_puts [65, 8] sample_crt of Inl _ \<Rightarrow> False | Inr _ \<Rightarrow> True" and bs: "no_corner_bs [65, 8] sample_crt"
    by (simp_all add: crt_putc_def crt_char_def sample_crt_def ansi_stat_switch_def zero_ansi_def ANSI_ESC_def CRT_POS_def VIDEO_CELLS_def
        crt_set_cursor_def crt_out_def)
  then show ?thesis
    using crt_stays_in_memory [OF sample_crt_ok bs]
    by (cases "crt_puts [65, 8] sample_crt") (auto simp: sample_crt_def VIDEO_CELLS_def)
qed

text \<open>A backspace in the upper left corner leaves the column 65535.\<close>

lemma corner_backspace:
  assumes "crt_ok s" and "ansi_idle (c_astat s)" and "c_x s = 0" and "c_y s = 0"
  shows "\<exists>s'. crt_putc 8 s = Inr s' \<and> c_x s' = 65535 \<and> \<not> crt_ok s'"
proof -
  have "a_stat (ansi_stat_switch 8 (c_astat s)) = ANSI_NONE"
    by (rule ansi_idle_other [OF assms(2)]) (simp add: ANSI_ESC_def)
  moreover have "unat (- 1 :: u16) = 65535" by (simp add: unsigned_minus_1_eq_mask mask_eq_exp_minus_1)
  ultimately show ?thesis
    using assms by (simp add: crt_putc_def crt_char_def Let_def) (simp add: crt_ok_def)
qed

section \<open>Text on the screen\<close>

definition plain :: "u8 \<Rightarrow> bool" where
  "plain c \<longleftrightarrow> 32 \<le> c \<and> c < 127"

text \<open>The cells after \<open>cs\<close> was written at the cursor.\<close>

definition cells_with :: "u8 list \<Rightarrow> crt \<Rightarrow> nat \<Rightarrow> u16" where
  "cells_with cs s k = (if CRT_POS s \<le> k \<and> k < CRT_POS s + length cs then ucast (cs ! (k - CRT_POS s)) OR c_attr s else c_buf s ! k)"

lemma plain_simps:
  assumes "plain c"
  shows "c \<noteq> ANSI_ESC" "c \<noteq> 10" "c \<noteq> 13" "c \<noteq> 8" "c \<noteq> 9" "scast c = (ucast c :: u16)"
proof -
  show "c \<noteq> ANSI_ESC" "c \<noteq> 10" "c \<noteq> 13" "c \<noteq> 8" "c \<noteq> 9" using assms by (auto simp: plain_def ANSI_ESC_def)
  have "\<not> bit c 7"
  proof
    assume "bit c 7"
    then have "bit (unat c) 7" by (simp add: bit_simps)
    then have "odd (unat c div 128)" by (simp add: bit_iff_odd)
    moreover have "unat c < 127" using assms by (simp add: plain_def word_less_nat_alt)
    ultimately show False by simp
  qed
  then have low: "bit c n \<Longrightarrow> n < 7" for n using bit_imp_le_length [of c n] by (cases "n = 7") auto
  then show "scast c = (ucast c :: u16)" by (intro bit_word_eqI) (auto simp: bit_simps min_def \<open>\<not> bit c 7\<close> dest!: low)
qed

lemma crt_putc_plain:
  assumes "crt_ok s" and "ansi_idle (c_astat s)" and "plain c" and "unat (c_x s) < 80"
  shows "crt_putc c s = Inr (let s' = s\<lparr>c_astat := ansi_stat_switch c (c_astat s), c_buf := (c_buf s)[CRT_POS s := ucast c OR c_attr s],
      c_x := c_x s + 1\<rparr> in crt_set_cursor (CRT_POS s') s')"
proof -
  have st: "a_stat (ansi_stat_switch c (c_astat s)) = ANSI_NONE" by (rule ansi_idle_other [OF assms(2) plain_simps(1) [OF assms(3)]])
  have x: "\<not> c_cols s < c_x s" using assms(1,4) by (simp add: crt_ok_def word_less_nat_alt)
  have p: "CRT_POS (s\<lparr>c_astat := a\<rparr>) = CRT_POS s" for a by (simp add: CRT_POS_def)
  have l: "CRT_POS s < length (c_buf s)" using assms(1,4) by (simp add: crt_ok_def CRT_POS_def VIDEO_CELLS_def)
  show ?thesis using st x p l plain_simps [OF assms(3)] by (simp add: crt_putc_def crt_char_def Let_def)
qed

lemma ansi_none_idle: "ansi_idle st \<Longrightarrow> c \<noteq> ANSI_ESC \<Longrightarrow> ansi_idle (ansi_stat_switch c st)"
  by (cases "a_stat st = ANSI_IN_FIN") (simp_all add: ansi_idle_def ansi_stat_switch_def zero_ansi_def)

lemma crt_puts_plain:
  assumes "crt_ok s" and "ansi_idle (c_astat s)" and "\<forall>c\<in>set cs. plain c" and "unat (c_x s) + length cs \<le> 80"
  shows "\<exists>s'. crt_puts cs s = Inr s' \<and> crt_ok s' \<and> ansi_idle (c_astat s') \<and> c_attr s' = c_attr s \<and> c_y s' = c_y s \<and>
    unat (c_x s') = unat (c_x s) + length cs \<and> (\<forall>k<VIDEO_CELLS. c_buf s' ! k = cells_with cs s k)"
  using assms
proof (induction cs arbitrary: s)
  case Nil
  then show ?case by (auto simp: cells_with_def)
next
  case (Cons c cs)
  have c: "plain c" "unat (c_x s) < 80" using Cons.prems by auto
  define s1 where "s1 = (let s' = s\<lparr>c_astat := ansi_stat_switch c (c_astat s), c_buf := (c_buf s)[CRT_POS s := ucast c OR c_attr s],
      c_x := c_x s + 1\<rparr> in crt_set_cursor (CRT_POS s') s')"
  have run: "crt_putc c s = Inr s1" using crt_putc_plain [OF Cons.prems(1,2) c] by (simp add: s1_def)
  have x: "unat (c_x s1) = unat (c_x s) + 1" using c(2) succ16 [of "c_x s"] by (simp add: s1_def Let_def)
  have s1: "c_attr s1 = c_attr s" "c_y s1 = c_y s" "c_cols s1 = c_cols s" "c_buf s1 = (c_buf s)[CRT_POS s := ucast c OR c_attr s]"
      "c_rows s1 = c_rows s" "ansi_idle (c_astat s1)"
    using ansi_none_idle [OF Cons.prems(2) plain_simps(1) [OF c(1)]] by (simp_all add: s1_def Let_def)
  have ok: "crt_ok s1" using Cons.prems(1) c(2) s1 x by (simp add: crt_ok_def)
  have pos: "CRT_POS s1 = CRT_POS s + 1" using s1 x by (simp add: CRT_POS_def)
  have l: "CRT_POS s < length (c_buf s)" using Cons.prems(1) c(2) by (simp add: crt_ok_def CRT_POS_def VIDEO_CELLS_def)
  have cell: "cells_with cs s1 k = cells_with (c # cs) s k" for k
    using l by (auto simp: cells_with_def pos s1 nth_list_update nth_Cons')
  have "unat (c_x s1) + length cs \<le> 80" using Cons.prems(4) x by simp
  from Cons.IH [OF ok s1(6) _ this] Cons.prems(3) obtain s' where s': "crt_puts cs s1 = Inr s'" "crt_ok s'" "ansi_idle (c_astat s')"
    "c_attr s' = c_attr s1" "c_y s' = c_y s1" "unat (c_x s') = unat (c_x s1) + length cs" "\<forall>k<VIDEO_CELLS. c_buf s' ! k = cells_with cs s1 k"
    by auto
  then show ?case using run s1 x cell by (intro exI [of _ s']) simp
qed

lemma crt_putc_cr:
  assumes "crt_ok s" and "ansi_idle (c_astat s)" and "unat (c_x s) \<le> 80"
  shows "\<exists>s'. crt_putc 13 s = Inr s' \<and> crt_ok s' \<and> ansi_idle (c_astat s') \<and> c_x s' = 0 \<and> c_y s' = c_y s \<and> c_attr s' = c_attr s \<and> c_buf s' = c_buf s"
proof -
  have st: "a_stat (ansi_stat_switch 13 (c_astat s)) = ANSI_NONE" "ansi_idle (ansi_stat_switch 13 (c_astat s))"
    using ansi_idle_other [OF assms(2)] ansi_none_idle [OF assms(2)] by (simp_all add: ANSI_ESC_def)
  have x: "\<not> c_cols s < c_x s" using assms(1,3) by (simp add: crt_ok_def word_less_nat_alt)
  show ?thesis using st x assms(1) by (simp add: crt_putc_def crt_char_def Let_def) (simp add: crt_ok_def)
qed

lemma crt_putc_lf:
  assumes "crt_ok s" and "ansi_idle (c_astat s)" and "c_x s = 0"
  shows "\<exists>s'. crt_putc 10 s = Inr s' \<and> crt_ok s' \<and> ansi_idle (c_astat s') \<and> c_x s' = 0 \<and> c_attr s' = c_attr s \<and>
    (if c_y s < 24 then c_y s' = c_y s + 1 \<and> c_buf s' = c_buf s
     else c_y s' = 24 \<and> (\<forall>k<2000. c_buf s' ! k = (if k < 1920 then c_buf s ! (k + 80) else 32 OR c_attr s)))"
proof -
  define s1 where "s1 = s\<lparr>c_astat := ansi_stat_switch 10 (c_astat s)\<rparr>"
  have st: "a_stat (c_astat s1) = ANSI_NONE" "ansi_idle (c_astat s1)" "crt_ok s1"
    using ansi_idle_other [OF assms(2)] ansi_none_idle [OF assms(2)] assms(1) by (simp_all add: ANSI_ESC_def s1_def)
  have x: "\<not> c_cols s1 < c_x s1" "c_x s1 = 0" "c_buf s1 = c_buf s" "c_attr s1 = c_attr s" "c_y s1 = c_y s" "c_cols s1 = 80" "c_rows s1 = 25"
    using assms(1,3) by (simp_all add: crt_ok_def s1_def)
  have put: "crt_putc 10 s = bnd (next_row s1) (\<lambda>s. Inr (crt_set_cursor (CRT_POS s) s))"
    unfolding crt_putc_def Let_def s1_def [symmetric] using st(1) x(1) by (simp add: crt_char_def)
  have y: "unat (c_y s) < 25" "unat (c_y s + 1) = unat (c_y s) + 1" using assms(1) succ16 [of "c_y s"] by (simp_all add: crt_ok_def)
  show ?thesis
  proof (cases "unat (c_y s) < 24")
    case True
    then have "next_row s1 = Inr (s1\<lparr>c_y := c_y s + 1\<rparr>)" using x y by (simp add: next_row_def CRT_POS_def)
    moreover have "crt_ok (s1\<lparr>c_y := c_y s + 1\<rparr>)" using st(3) y True by (simp add: crt_ok_def)
    moreover have "c_y s < 24" using True by (simp add: word_less_nat_alt)
    ultimately show ?thesis using put st x by simp
  next
    case False
    then have y24: "unat (c_y s) = 24" using y(1) by simp
    then have c24: "c_y s = 24" by (simp add: word_unat_eq_iff)
    let ?s = "s1\<lparr>c_y := 25\<rparr>"
    have "length (c_buf ?s) = VIDEO_CELLS" "c_cols ?s = 80" "unat (c_y ?s) \<le> 25" "c_y ?s \<noteq> 0" using st(3) by (simp_all add: crt_ok_def)
    from crt_lf_ok [OF this] obtain b where b: "crt_lf ?s = Inr (s1\<lparr>c_y := 24, c_buf := b\<rparr>)" "length b = VIDEO_CELLS"
      "\<forall>k<VIDEO_CELLS. b ! k = (if k < 1920 then c_buf s ! (k + 80) else if k < 2000 then 32 OR c_attr s else c_buf s ! k)"
      using x by auto
    have "next_row s1 = Inr (s1\<lparr>c_y := 24, c_buf := b\<rparr>)" using b(1) x y y24 c24 by (simp add: next_row_def CRT_POS_def)
    moreover have "crt_ok (s1\<lparr>c_y := 24, c_buf := b\<rparr>)" using st(3) b(2) by (simp add: crt_ok_def)
    ultimately show ?thesis using put st x b(3) c24 by (simp add: VIDEO_CELLS_def)
  qed
qed

text \<open>
  Lines of text on the screen. A line of at most 80 printable characters, written from the first
  column of the row with the cursor and ended by carriage return and line feed, appears in this row
  with the current colours. On a row that is not the last one the cursor goes to the next row and
  nothing else changes; on the last row every row moves up by one, so that the line ends up on the
  row above, and the last row is blank.
\<close>

theorem crt_shows_line:
  assumes "crt_ok s" and "ansi_idle (c_astat s)" and "\<forall>c\<in>set cs. plain c" and "length cs \<le> 80" and "c_x s = 0"
  shows "\<exists>s'. crt_puts (cs @ [13, 10]) s = Inr s' \<and> crt_ok s' \<and> ansi_idle (c_astat s') \<and> c_x s' = 0 \<and>
    (if c_y s < 24 then c_y s' = c_y s + 1 \<and> (\<forall>k<VIDEO_CELLS. c_buf s' ! k = cells_with cs s k)
     else c_y s' = 24 \<and> (\<forall>k<2000. c_buf s' ! k = (if k < 1920 then cells_with cs s (k + 80) else 32 OR c_attr s)))"
proof -
  have puts: "crt_puts (as @ bs) s = bnd (crt_puts as s) (crt_puts bs)" for as bs s
    by (induction as arbitrary: s) (auto simp: bnd_assoc intro!: bnd_cong)
  from crt_puts_plain [OF assms(1-3)] assms(4,5) obtain s1 where s1: "crt_puts cs s = Inr s1" "crt_ok s1" "ansi_idle (c_astat s1)"
    "c_attr s1 = c_attr s" "c_y s1 = c_y s" "unat (c_x s1) \<le> 80" "\<forall>k<VIDEO_CELLS. c_buf s1 ! k = cells_with cs s k" by auto
  from crt_putc_cr [OF s1(2,3,6)] obtain s2 where s2: "crt_putc 13 s1 = Inr s2" "crt_ok s2" "ansi_idle (c_astat s2)" "c_x s2 = 0"
    "c_y s2 = c_y s1" "c_attr s2 = c_attr s1" "c_buf s2 = c_buf s1" by blast
  from crt_putc_lf [OF s2(2,3,4)] obtain s3 where s3: "crt_putc 10 s2 = Inr s3" "crt_ok s3" "ansi_idle (c_astat s3)" "c_x s3 = 0"
    "if c_y s2 < 24 then c_y s3 = c_y s2 + 1 \<and> c_buf s3 = c_buf s2
     else c_y s3 = 24 \<and> (\<forall>k<2000. c_buf s3 ! k = (if k < 1920 then c_buf s2 ! (k + 80) else 32 OR c_attr s2))" by blast
  have "crt_puts (cs @ [13, 10]) s = Inr s3" using s1(1) s2(1) s3(1) by (simp add: puts)
  then show ?thesis using s1 s2 s3 by (auto simp: VIDEO_CELLS_def split: if_splits)
qed

theorem crt_shows_line_witness:
  "\<exists>s'. crt_puts [72, 105, 13, 10] (sample_crt\<lparr>c_x := 0\<rparr>) = Inr s' \<and> c_y s' = 24 \<and> c_buf s' ! 1840 = 0x748 \<and> c_buf s' ! 1841 = 0x769 \<and>
     c_buf s' ! 1842 = 0 \<and> c_buf s' ! 1920 = 0x720"
proof -
  have "crt_ok (sample_crt\<lparr>c_x := 0\<rparr>)" using sample_crt_ok by (simp add: crt_ok_def)
  moreover have "ansi_idle (c_astat (sample_crt\<lparr>c_x := 0\<rparr>))" by (simp add: sample_crt_def ansi_idle_def zero_ansi_def)
  ultimately have "\<exists>s'. crt_puts ([72, 105] @ [13, 10]) (sample_crt\<lparr>c_x := 0\<rparr>) = Inr s' \<and> c_y s' = 24 \<and>
    (\<forall>k<2000. c_buf s' ! k = (if k < 1920 then cells_with [72, 105] (sample_crt\<lparr>c_x := 0\<rparr>) (k + 80) else 32 OR c_attr (sample_crt\<lparr>c_x := 0\<rparr>)))"
    using crt_shows_line [of "sample_crt\<lparr>c_x := 0\<rparr>" "[72, 105]"] by (auto simp: plain_def sample_crt_def)
  then obtain s' where "crt_puts [72, 105, 13, 10] (sample_crt\<lparr>c_x := 0\<rparr>) = Inr s'" "c_y s' = 24"
    and b: "\<And>k. k < 2000 \<Longrightarrow> c_buf s' ! k = (if k < 1920 then cells_with [72, 105] (sample_crt\<lparr>c_x := 0\<rparr>) (k + 80) else 32 OR c_attr (sample_crt\<lparr>c_x := 0\<rparr>))"
    by auto
  then show ?thesis
    by (intro exI [of _ s']) (simp add: b cells_with_def CRT_POS_def sample_crt_def CRT_DEF_ATTR_def VIDEO_CELLS_def)
qed

text \<open>Output that stops the kernel: a move of the cursor above the first row, or to a row without a column.\<close>

lemma cursor_up_halts:
  assumes "a_n1 (c_astat s) = 0" and "c_y s = 0"
  shows "crt_handle_ansi 65 s = Inl (Assertion ''y < CRT_MAX_ROWS'')"
  using assms by (simp add: crt_handle_ansi_def crt_set_cursor_xy_def MIN_ONE_def kassert_def CRT_MAX_ROWS_def CRT_ROWS_def)

lemma cursor_row_only_halts:
  assumes "a_n1 (c_astat s) = 5" and "a_n2 (c_astat s) = 0" and "c_cols s = 80"
  shows "crt_handle_ansi 72 s = Inl (Assertion ''x < crt.cols'')"
  using assms by (simp add: crt_handle_ansi_def crt_set_cursor_xy_def MIN_ONE_def kassert_def CRT_MAX_ROWS_def CRT_ROWS_def)

text \<open>The character in column 81 of the last row is written behind the screen and lost.\<close>

lemma wrapped_character_lost:
  assumes "crt_ok s" and "ansi_idle (c_astat s)" and "plain c" and "c_x s = 80" and "c_y s = 24"
  shows "\<exists>s'. crt_char c s = Inr s' \<and> (\<forall>k<2000. c_buf s' ! k = c_buf s ! k)"
  using assms plain_simps [OF assms(3)] by (simp add: crt_char_def crt_ok_def CRT_POS_def VIDEO_CELLS_def)

end
