(* ===== verification/Tty.thy ===== *)
theory Tty
  imports Ring_Buf Fs_Node Task Crt Mem
begin

text \<open>
  The terminals (\<open>tty.c\<close>): the line editor that collects what is typed, the queue of input a task
  reads from, the output processing, and the device operations of the nodes under \<open>/dev\<close>.

  What leaves the driver is a list of events: the characters given to the screen or the serial
  line, the calls that wake up or signal tasks. In \<open>tty_iput\<close> the driver gives up the processor; what
  the other tasks do until it goes on is the argument \<open>sw\<close>, which may change the terminal (a task
  reads from it) and the rest \<open>env\<close> of the system. In the same way \<open>slp\<close> is what happens while a
  reader sleeps.
\<close>

section \<open>Data\<close>

definition NTTY :: u32 where "NTTY = 1"
definition NTTYS :: u32 where "NTTYS = 4"
definition TTY_MAJOR :: u32 where "TTY_MAJOR = 4"
definition TTY_IN_BUF_SIZE :: u32 where "TTY_IN_BUF_SIZE = 128"
definition TTY_OUT_BUF_SIZE :: u32 where "TTY_OUT_BUF_SIZE = 128"
definition TTY_LN_BUF_SIZE :: nat where "TTY_LN_BUF_SIZE = 512"

definition CTRL :: "u8 \<Rightarrow> u8" where "CTRL key = key - 64"

definition NCCS :: nat where "NCCS = 32"
definition VINTR :: nat where "VINTR = 0"
definition VQUIT :: nat where "VQUIT = 1"
definition VERASE :: nat where "VERASE = 2"
definition VKILL :: nat where "VKILL = 3"
definition VEOF :: nat where "VEOF = 4"
definition VTIME :: nat where "VTIME = 5"
definition VMIN :: nat where "VMIN = 6"
definition VSTART :: nat where "VSTART = 8"
definition VSTOP :: nat where "VSTOP = 9"
definition VSUSP :: nat where "VSUSP = 10"
definition VEOL :: nat where "VEOL = 11"
definition VREPRINT :: nat where "VREPRINT = 12"
definition VWERASE :: nat where "VWERASE = 14"
definition VLNEXT :: nat where "VLNEXT = 15"
definition VEOL2 :: nat where "VEOL2 = 16"

definition BRKINT :: u32 where "BRKINT = 1"
definition ICRNL :: u32 where "ICRNL = 2"
definition IGNCR :: u32 where "IGNCR = 8"
definition INLCR :: u32 where "INLCR = 32"
definition ISTRIP :: u32 where "ISTRIP = 128"
definition OPOST :: u32 where "OPOST = 1"
definition ONLCR :: u32 where "ONLCR = 2"
definition CREAD :: u32 where "CREAD = 128"
definition ISIG :: u32 where "ISIG = 1"
definition ICANON :: u32 where "ICANON = 2"
definition ECHO :: u32 where "ECHO = 8"
definition ECHOE :: u32 where "ECHOE = 16"
definition ECHOK :: u32 where "ECHOK = 32"
definition IEXTEN :: u32 where "IEXTEN = 512"

definition TCGETS :: u32 where "TCGETS = 0x5401"
definition TCSETS :: u32 where "TCSETS = 0x5402"
definition TIOCGPGRP :: u32 where "TIOCGPGRP = 0x540F"
definition TIOCSPGRP :: u32 where "TIOCSPGRP = 0x5410"
definition TIOCGWINSZ :: u32 where "TIOCGWINSZ = 0x5413"
definition TIOCSWINSZ :: u32 where "TIOCSWINSZ = 0x5414"

definition SIGINT :: int where "SIGINT = 2"
definition SIGQUIT :: int where "SIGQUIT = 3"
definition SIGCONT :: int where "SIGCONT = 18"
definition SIGTSTP :: int where "SIGTSTP = 20"

record termios =
  c_iflag :: u32
  c_oflag :: u32
  c_cflag :: u32
  c_lflag :: u32
  c_cc :: "u8 list"

record winsize =
  ws_row :: u16
  ws_col :: u16
  ws_xpixel :: u16
  ws_ypixel :: u16

text \<open>\<open>ed\<close> and \<open>len\<close> are only decremented when \<open>ed\<close> is not 0, and always together.\<close>

record tty_line =
  ln_buf :: "u8 list"
  ln_ed :: nat
  ln_len :: nat

datatype putc_t = No_putc | Crt_putc | Serial_putc

record tty =
  tt_winsize :: winsize
  tt_termios :: termios
  tt_cin :: ring_buf
  tt_cout :: ring_buf
  tt_line :: tty_line
  tt_putc :: putc_t
  tt_minor :: u32
  tt_ctrl_pid :: int
  tt_fg_pid :: int

datatype tty_event = Putc u8 | Wakeup | Killed int int | Segv | Ps | Show_pid | Dump_cache

record 'w tstate =
  dev :: tty
  events :: "tty_event list"
  env :: 'w

type_synonym 'w task_env = "'w tstate \<Rightarrow> 'w tstate kres"

definition flag :: "u32 \<Rightarrow> u32 \<Rightarrow> bool" where
  "flag f m \<longleftrightarrow> f AND m \<noteq> 0"

definition emit :: "tty_event \<Rightarrow> 'w tstate \<Rightarrow> 'w tstate" where
  "emit e s = s\<lparr>events := events s @ [e]\<rparr>"

definition set_cin :: "ring_buf \<Rightarrow> 'w tstate \<Rightarrow> 'w tstate" where
  "set_cin rb s = s\<lparr>dev := (dev s)\<lparr>tt_cin := rb\<rparr>\<rparr>"

definition set_line :: "tty_line \<Rightarrow> 'w tstate \<Rightarrow> 'w tstate" where
  "set_line l s = s\<lparr>dev := (dev s)\<lparr>tt_line := l\<rparr>\<rparr>"

section \<open>Output\<close>

definition tty_oput :: "u8 \<Rightarrow> 'w tstate \<Rightarrow> 'w tstate" where
  "tty_oput c s =
     (let o_fl = c_oflag (tt_termios (dev s)) in
      emit (Putc c) (if flag o_fl OPOST \<and> c = 10 \<and> flag o_fl ONLCR then emit (Putc 13) s else s))"

definition tty_oputs :: "u8 list \<Rightarrow> 'w tstate \<Rightarrow> 'w tstate" where
  "tty_oputs cs s = fold tty_oput cs s"

text \<open>\<open>c >= ' '\<close> compares a signed character.\<close>

definition tty_echo :: "u8 \<Rightarrow> 'w tstate \<Rightarrow> 'w tstate" where
  "tty_echo c s = (if sint c \<ge> 32 \<or> c = 10 then tty_oput c s else tty_oput (c + 64) (tty_oput 94 s))"

section \<open>Input\<close>

definition tty_iput :: "'w task_env \<Rightarrow> u8 \<Rightarrow> 'w tstate \<Rightarrow> 'w tstate kres" where
  "tty_iput sw c s =
     bnd (rb_putc (tt_cin (dev s)) c) (\<lambda>rb.
     let s = set_cin rb s in
     if rb_is_full rb \<or> c = 10 \<or> \<not> flag (c_lflag (tt_termios (dev s))) ICANON then sw (emit Wakeup s) else Inr s)"

text \<open>The loop that hands over the edited line. The length is read again in every round.\<close>

fun tty_iputs :: "'w task_env \<Rightarrow> nat \<Rightarrow> nat \<Rightarrow> 'w tstate \<Rightarrow> 'w tstate kres" where
  "tty_iputs sw 0 i s = (if i < ln_len (tt_line (dev s)) then Inl Fault else Inr s)"
| "tty_iputs sw (Suc n) i s =
     (if i < ln_len (tt_line (dev s)) then
        bnd (aget (ln_buf (tt_line (dev s))) i) (\<lambda>c. bnd (tty_iput sw c s) (tty_iputs sw n (Suc i)))
      else Inr s)"

definition tty_set_defaults :: "tty \<Rightarrow> tty kres" where
  "tty_set_defaults t =
     (let cc = c_cc (tt_termios t);
          cc = fold (\<lambda>(i, c) cc. cc[i := c])
            [(VINTR, CTRL 88), (VQUIT, CTRL 92), (VERASE, 8), (VKILL, CTRL 85), (VEOF, CTRL 68), (VTIME, 0), (VMIN, 1),
             (VSTART, CTRL 81), (VSTOP, CTRL 83), (VSUSP, CTRL 90), (VEOL, 10), (VREPRINT, CTRL 82), (VWERASE, CTRL 87), (VLNEXT, CTRL 86)] cc in
      Inr (t\<lparr>tt_termios := \<lparr>c_iflag = ICRNL OR BRKINT, c_oflag = ONLCR OR OPOST, c_cflag = CREAD,
          c_lflag = ECHO OR ECHOE OR ECHOK OR ISIG OR IEXTEN OR ICANON, c_cc = cc\<rparr>,
        tt_cin := rb_reset (tt_cin t), tt_cout := rb_reset (tt_cout t)\<rparr>))"

text \<open>\<open>ln->ed = ln->len = ln->buf[0] = 0\<close>\<close>

definition clear_line :: "'w tstate \<Rightarrow> 'w tstate kres" where
  "clear_line s = bnd (aset (ln_buf (tt_line (dev s))) 0 0) (\<lambda>b. Inr (set_line \<lparr>ln_buf = b, ln_ed = 0, ln_len = 0\<rparr> s))"

text \<open>\<open>kill(tty->fg_pid, sig)\<close>, if there is a foreground process.\<close>

definition kill_fg :: "int \<Rightarrow> 'w tstate \<Rightarrow> 'w tstate" where
  "kill_fg sig s = (if tt_fg_pid (dev s) \<noteq> 0 then emit (Killed (tt_fg_pid (dev s)) sig) s else s)"

text \<open>\<open>c == cc[i]\<close> compares a signed character with an unsigned one.\<close>

definition is_cc :: "u8 \<Rightarrow> nat \<Rightarrow> tty \<Rightarrow> bool" where
  "is_cc c i t \<longleftrightarrow> sint c = uint (c_cc (tt_termios t) ! i)"

definition erase_char :: "'w tstate \<Rightarrow> 'w tstate kres" where
  "erase_char s =
     (let l = tt_line (dev s) in
      if ln_ed l = 0 then Inr s
      else
        bnd (memmove (ln_buf l) (ln_ed l - 1) (ln_ed l) (int (ln_len l) - int (ln_ed l) + 1)) (\<lambda>b.
        let l = \<lparr>ln_buf = b, ln_ed = ln_ed l - 1, ln_len = ln_len l - 1\<rparr>; s = set_line l s in
        Inr (if flag (c_lflag (tt_termios (dev s))) ECHO then
               if ln_ed l = ln_len l then tty_oputs [8, 32, 8] s
               else tty_oputs [27, 91, 117] (tty_oput 32
                      (fold tty_echo (drop (ln_ed l) (take (ln_len l) b)) (tty_oputs [27, 91, 115] (tty_oputs [27, 91, 49, 68] s))))
             else s)))"

definition insert_char :: "u8 \<Rightarrow> 'w tstate \<Rightarrow> 'w tstate kres" where
  "insert_char c s =
     (let l = tt_line (dev s) in
      bnd (if ln_ed l = ln_len l then Inr (ln_buf l)
           else memmove (ln_buf l) (ln_ed l + 1) (ln_ed l) (int (ln_len l) - int (ln_ed l))) (\<lambda>b.
      bnd (aset b (ln_ed l) c) (\<lambda>b. Inr (set_line \<lparr>ln_buf = b, ln_ed = ln_ed l + 1, ln_len = ln_len l + 1\<rparr> s))))"

text \<open>The line goes to the queue, the line is empty then (lines 135, 136 and 174, 175).\<close>

definition flush_line :: "'w task_env \<Rightarrow> 'w tstate \<Rightarrow> 'w tstate kres" where
  "flush_line sw s = tty_iputs sw (ln_len (tt_line (dev s))) 0 s"

text \<open>The branches of the editor that end with the echo of the character return \<open>(True, s)\<close>.\<close>

definition tty_edit :: "'w task_env \<Rightarrow> u8 \<Rightarrow> 'w tstate \<Rightarrow> (bool \<times> 'w tstate) kres" where
  "tty_edit sw c s =
     (let t = dev s; ln = tt_line t; echo = flag (c_lflag (tt_termios t)) ECHO in
      if is_cc c VEOL t \<or> is_cc c VEOL2 t \<or> c = 10 \<or> ln_len ln \<ge> TTY_LN_BUF_SIZE - 1 then
        bnd (flush_line sw (if echo then tty_oput c s else s)) (\<lambda>s.
        bnd (tty_iput sw c s) (\<lambda>s. bnd (clear_line s) (\<lambda>s. Inr (False, s))))
      else if is_cc c VERASE t then bnd (erase_char s) (\<lambda>s. Inr (False, s))
      else if is_cc c VKILL t then
        bnd (clear_line s) (\<lambda>s. Inr (False, if echo then tty_oputs [27, 91, 71, 27, 91, 50, 75] s else s))
      else if is_cc c VINTR t then bnd (clear_line s) (\<lambda>s. Inr (True, kill_fg SIGINT s))
      else if is_cc c VQUIT t then bnd (clear_line s) (\<lambda>s. Inr (True, kill_fg SIGQUIT s))
      else if is_cc c VEOF t then
        bnd (if ln_len ln \<noteq> 0 then bnd (flush_line sw s) clear_line else Inr s) (\<lambda>s. Inr (True, emit Wakeup s))
      else if is_cc c VSUSP t then Inr (True, kill_fg SIGTSTP s)
      else if is_cc c VSTART t then Inr (True, kill_fg SIGCONT s)
      else if c = CTRL 76 then bnd (tty_set_defaults t) (\<lambda>t. Inr (True, tty_oputs [27, 99] (s\<lparr>dev := t\<rparr>)))
      else if c = CTRL 80 then Inr (False, emit Ps s)
      else if c = CTRL 70 then Inr (False, emit Show_pid s)
      else if c = CTRL 79 then Inr (False, emit Dump_cache s)
      else bnd (insert_char c s) (\<lambda>s. Inr (True, s)))"

definition tty_editor :: "'w task_env \<Rightarrow> u8 \<Rightarrow> 'w tstate \<Rightarrow> 'w tstate kres" where
  "tty_editor sw c s =
     bnd (tty_edit sw c s) (\<lambda>(e, s').
     Inr (if e \<and> flag (c_lflag (tt_termios (dev s))) ECHO then tty_echo c s' else s'))"

text \<open>The translation of the character in front of the editor; \<open>None\<close>: it is ignored.\<close>

definition tty_translate :: "u8 \<Rightarrow> tty \<Rightarrow> u8 option" where
  "tty_translate c t =
     (let ifl = c_iflag (tt_termios t) in
      if c = 13 \<and> flag ifl IGNCR then None
      else
        let c = (if c = 10 then if flag ifl INLCR then 13 else c else if c = 13 \<and> flag ifl ICRNL then 10 else c) in
        Some (if flag ifl ISTRIP then c AND 0x7F else c))"

definition tty_in :: "'w task_env \<Rightarrow> u8 \<Rightarrow> 'w tstate \<Rightarrow> 'w tstate kres" where
  "tty_in sw c s = (case tty_translate c (dev s) of
     None \<Rightarrow> Inr s
   | Some c \<Rightarrow>
       let loc = c_lflag (tt_termios (dev s)) in
       if flag loc ICANON then tty_editor sw c s
       else tty_iput sw c (if flag loc ECHO then tty_echo c s else s))"

section \<open>Reading\<close>

text \<open>The bytes stored to the buffer of the caller and the value that is returned.\<close>

fun tty_read_loop :: "('w \<Rightarrow> task_state) \<Rightarrow> 'w task_env \<Rightarrow> nat \<Rightarrow> u8 list \<Rightarrow> 'w tstate \<Rightarrow> (u32 \<times> u8 list \<times> 'w tstate) kres" where
  "tty_read_loop cur slp 0 acc s = Inr (of_nat (length acc), acc, s)"
| "tty_read_loop cur slp (Suc n) acc s =
     (if rb_is_empty (tt_cin (dev s)) \<and> cur (env s) = TASK_EXITING then Inr (- 1, acc, s)
      else
        bnd (if rb_is_empty (tt_cin (dev s)) \<and> cur (env s) = TASK_RUNNING then slp s else Inr s) (\<lambda>s.
        if rb_is_empty (tt_cin (dev s)) then Inr (of_nat (length acc), acc, s)
        else
          bnd (rb_getc (tt_cin (dev s))) (\<lambda>(c, rb).
          let s = set_cin rb s; acc = acc @ [c] in
          if c = 10 \<or> \<not> flag (c_lflag (tt_termios (dev s))) ICANON then Inr (of_nat (length acc), acc, s)
          else tty_read_loop cur slp n acc s)))"

section \<open>The device operations\<close>

text \<open>\<open>tty_devs\<close> and the rest of the system.\<close>

record 'w ttys =
  tty_devs :: "tty option list"
  t_events :: "tty_event list"
  t_env :: 'w

definition on_tty :: "fs_node \<Rightarrow> 'a \<Rightarrow> ('w tstate \<Rightarrow> ('a \<times> 'w tstate) kres) \<Rightarrow> 'w ttys \<Rightarrow> ('a \<times> 'w ttys) kres" where
  "on_tty node none f d =
     bnd (aget (tty_devs d) (unat (n_minor node))) (\<lambda>t. case t of
       None \<Rightarrow> Inr (none, d)
     | Some t \<Rightarrow>
         kassert (n_major node = TTY_MAJOR) ''node->major == TTY_MAJOR''
          (bnd (f \<lparr>dev = t, events = t_events d, env = t_env d\<rparr>) (\<lambda>(r, s).
           Inr (r, \<lparr>tty_devs = (tty_devs d)[unat (n_minor node) := Some (dev s)], t_events = events s, t_env = env s\<rparr>))))"

definition tty_write :: "fs_node \<Rightarrow> u8 list \<Rightarrow> 'w ttys \<Rightarrow> (u32 \<times> 'w ttys) kres" where
  "tty_write node buf d = on_tty node (- 1) (\<lambda>s. Inr (of_nat (length buf), fold tty_oput buf s)) d"

definition tty_read :: "('w \<Rightarrow> task_state) \<Rightarrow> 'w task_env \<Rightarrow> fs_node \<Rightarrow> u32 \<Rightarrow> 'w ttys \<Rightarrow> ((u32 \<times> u8 list) \<times> 'w ttys) kres" where
  "tty_read cur slp node n d =
     on_tty node (- 1, []) (\<lambda>s. bnd (tty_read_loop cur slp (unat n) [] s) (\<lambda>(r, cs, s). Inr ((r, cs), s))) d"

text \<open>
  \<open>ioctl\<close>: what the object at \<open>argp\<close> holds, read with the type the request asks for, and what is
  stored there. \<open>validate_usr_ptr\<close> (\<open>syscall.c\<close>) signals the task and gives up the processor; if the
  task runs again, the call goes on.
\<close>

record usr_obj =
  u_termios :: termios
  u_winsize :: winsize
  u_pid :: int

definition validate_usr_ptr :: "'w task_env \<Rightarrow> u32 \<Rightarrow> 'w tstate \<Rightarrow> 'w tstate kres" where
  "validate_usr_ptr sw p s = (if p < USER_STACK_LOW then sw (emit Segv s) else Inr s)"

definition ioctl_do :: "u32 \<Rightarrow> usr_obj \<Rightarrow> tty \<Rightarrow> usr_obj \<times> tty" where
  "ioctl_do request u t =
     (if request = TCGETS then (u\<lparr>u_termios := tt_termios t\<rparr>, t)
      else if request = TCSETS then (u, t\<lparr>tt_termios := u_termios u\<rparr>)
      else if request = TIOCGWINSZ then (u\<lparr>u_winsize := tt_winsize t\<rparr>, t)
      else if request = TIOCSWINSZ then (u, t\<lparr>tt_winsize := u_winsize u\<rparr>)
      else if request = TIOCGPGRP then (u\<lparr>u_pid := tt_fg_pid t\<rparr>, t)
      else (u, t\<lparr>tt_fg_pid := u_pid u\<rparr>))"

definition tty_ioctl :: "'w task_env \<Rightarrow> fs_node \<Rightarrow> u32 \<Rightarrow> u32 \<Rightarrow> usr_obj \<Rightarrow> 'w ttys \<Rightarrow> ((int \<times> usr_obj) \<times> 'w ttys) kres" where
  "tty_ioctl sw node request argp u d =
     on_tty node (- 1, u) (\<lambda>s.
       if request \<in> {TCGETS, TCSETS, TIOCGWINSZ, TIOCSWINSZ, TIOCGPGRP, TIOCSPGRP} \<and> argp \<noteq> 0 then
         bnd (validate_usr_ptr sw argp s) (\<lambda>s. let (u, t) = ioctl_do request u (dev s) in Inr ((0, u), s\<lparr>dev := t\<rparr>))
       else Inr ((- 1, u), s)) d"

definition tty_close :: "fs_node \<Rightarrow> 'w ttys \<Rightarrow> (fs_node \<times> 'w ttys) kres" where
  "tty_close node d =
     bnd (aget (tty_devs d) (unat (n_minor node))) (\<lambda>t.
     kassert (n_major node = TTY_MAJOR) ''node->major == TTY_MAJOR''
     (let node = node\<lparr>n_lock := False, n_ref_count := n_ref_count node - 1\<rparr> in
      Inr (node, if t \<noteq> None \<and> n_ref_count node = 0 then d\<lparr>tty_devs := (tty_devs d)[unat (n_minor node) := None]\<rparr> else d)))"

text \<open>
  \<open>tty_open\<close>: whether \<open>calloc\<close> gave memory for the terminal, what \<open>malloc\<close> gave for the two queues, the
  session and the pid of the current task. Without memory the node is left as it is.
\<close>

definition zero_tty :: "ring_buf \<Rightarrow> ring_buf \<Rightarrow> tty" where
  "zero_tty cin cout = \<lparr>tt_winsize = \<lparr>ws_row = 0, ws_col = 0, ws_xpixel = 0, ws_ypixel = 0\<rparr>,
     tt_termios = \<lparr>c_iflag = 0, c_oflag = 0, c_cflag = 0, c_lflag = 0, c_cc = replicate NCCS 0\<rparr>, tt_cin = cin, tt_cout = cout,
     tt_line = \<lparr>ln_buf = replicate TTY_LN_BUF_SIZE 0, ln_ed = 0, ln_len = 0\<rparr>, tt_putc = No_putc, tt_minor = 0, tt_ctrl_pid = 0, tt_fg_pid = 0\<rparr>"

definition tty_new :: "ring_buf \<Rightarrow> ring_buf \<Rightarrow> int \<Rightarrow> int \<Rightarrow> u32 \<Rightarrow> tty kres" where
  "tty_new cin cout sid pid mn =
     (let t = (zero_tty cin cout)\<lparr>tt_ctrl_pid := sid, tt_fg_pid := pid, tt_minor := mn\<rparr>;
          t = (if mn < NTTY then t\<lparr>tt_putc := Crt_putc, tt_winsize := (tt_winsize t)\<lparr>ws_col := CRT_COLS, ws_row := CRT_ROWS\<rparr>\<rparr>
               else t\<lparr>tt_putc := Serial_putc\<rparr>) in
      tty_set_defaults t)"

definition tty_open :: "bool \<Rightarrow> bool \<times> u8 list option \<Rightarrow> bool \<times> u8 list option \<Rightarrow> int \<Rightarrow> int \<Rightarrow> fs_node \<Rightarrow> 'w ttys \<Rightarrow> (fs_node \<times> 'w ttys) kres" where
  "tty_open mem im om sid pid node d =
     kassert (n_major node = TTY_MAJOR) ''node->major == TTY_MAJOR''
     (bnd (aget (tty_devs d) (unat (n_minor node))) (\<lambda>t.
      if t \<noteq> None then Inr (node\<lparr>n_ops := Dev_ops\<rparr>, d)
      else if \<not> mem then Inr (node, d)
      else case rb_new (fst im) (snd im) TTY_IN_BUF_SIZE of
        None \<Rightarrow> Inr (node, d)
      | Some cin \<Rightarrow> (case rb_new (fst om) (snd om) TTY_OUT_BUF_SIZE of
          None \<Rightarrow> Inr (node, d)
        | Some cout \<Rightarrow>
            bnd (tty_new cin cout sid pid (n_minor node)) (\<lambda>t.
            Inr (node\<lparr>n_ops := Dev_ops\<rparr>, d\<lparr>tty_devs := (tty_devs d)[unat (n_minor node) := Some t]\<rparr>)))))"

section \<open>What the operations leave alone\<close>

named_theorems tty_simps \<open>fields the output operations do not change\<close>

lemma emit_simps [simp, tty_simps]: "dev (emit e s) = dev s" "env (emit e s) = env s"
  by (simp_all add: emit_def)

lemma tty_oput_simps [simp, tty_simps]: "dev (tty_oput c s) = dev s" "env (tty_oput c s) = env s"
  by (simp_all add: tty_oput_def Let_def)

lemma tty_oputs_simps [simp, tty_simps]: "dev (tty_oputs cs s) = dev s" "env (tty_oputs cs s) = env s"
  by (induction cs arbitrary: s) (simp_all add: tty_oputs_def)

lemma tty_echo_simps [simp, tty_simps]: "dev (tty_echo c s) = dev s" "env (tty_echo c s) = env s"
  by (simp_all add: tty_echo_def)

lemma tty_echos_simps [simp, tty_simps]: "dev (fold tty_echo cs s) = dev s" "env (fold tty_echo cs s) = env s"
  by (induction cs arbitrary: s) simp_all

lemma kill_fg_simps [simp, tty_simps]: "dev (kill_fg sig s) = dev s" "env (kill_fg sig s) = env s"
  by (simp_all add: kill_fg_def)

lemma set_simps [simp, tty_simps]:
  "dev (set_cin rb s) = (dev s)\<lparr>tt_cin := rb\<rparr>" "env (set_cin rb s) = env s"
  "dev (set_line l s) = (dev s)\<lparr>tt_line := l\<rparr>" "env (set_line l s) = env s"
  by (simp_all add: set_cin_def set_line_def)

section \<open>The terminal as a line and a stream\<close>

text \<open>
  \<open>tty_ok\<close> is the invariant between two calls of the driver, \<open>input_ok\<close> the same with a queue that may be
  full: the moment when the driver gives up the processor.
\<close>

definition line_ok :: "tty_line \<Rightarrow> bool" where
  "line_ok l \<longleftrightarrow> length (ln_buf l) = TTY_LN_BUF_SIZE \<and> ln_ed l = ln_len l \<and> ln_len l < TTY_LN_BUF_SIZE"

definition input_ok :: "tty \<Rightarrow> bool" where
  "input_ok t \<longleftrightarrow> rb_ok (tt_cin t) \<and> rb_size (tt_cin t) = TTY_IN_BUF_SIZE \<and> line_ok (tt_line t)"

definition tty_ok :: "tty \<Rightarrow> bool" where
  "tty_ok t \<longleftrightarrow> input_ok t \<and> \<not> rb_is_full (tt_cin t)"

definition cur_line :: "tty \<Rightarrow> u8 list" where
  "cur_line t = take (ln_len (tt_line t)) (ln_buf (tt_line t))"

text \<open>What a key does to the line and to the stream of characters the readers get.\<close>

definition type_key :: "tty \<Rightarrow> u8 \<Rightarrow> u8 list \<times> u8 list \<Rightarrow> u8 list \<times> u8 list" where
  "type_key t c = (\<lambda>(line, st).
     if is_cc c VEOL t \<or> is_cc c VEOL2 t \<or> c = 10 \<or> length line \<ge> TTY_LN_BUF_SIZE - 1 then ([], st @ line @ [c])
     else if is_cc c VERASE t then (butlast line, st)
     else if is_cc c VKILL t \<or> is_cc c VINTR t \<or> is_cc c VQUIT t then ([], st)
     else if is_cc c VEOF t then ([], st @ line)
     else if is_cc c VSUSP t \<or> is_cc c VSTART t \<or> c \<in> {CTRL 76, CTRL 80, CTRL 70, CTRL 79} then (line, st)
     else (line @ [c], st))"

lemma length_cur_line: "line_ok (tt_line t) \<Longrightarrow> length (cur_line t) = ln_len (tt_line t)"
  by (simp add: cur_line_def line_ok_def)

lemma clear_line_ok:
  assumes "tty_ok (dev s)"
  shows "\<exists>l. clear_line s = Inr (set_line l s) \<and> line_ok l \<and> ln_len l = 0"
  using assms by (auto simp: clear_line_def tty_ok_def input_ok_def line_ok_def TTY_LN_BUF_SIZE_def)

lemma insert_char_ok:
  assumes "tty_ok (dev s)" and "ln_len (tt_line (dev s)) < 511"
  shows "\<exists>l. insert_char c s = Inr (set_line l s) \<and> line_ok l \<and> take (ln_len l) (ln_buf l) = cur_line (dev s) @ [c]"
proof -
  let ?l = "tt_line (dev s)"
  have l: "length (ln_buf ?l) = 512" "ln_ed ?l = ln_len ?l" using assms(1) by (simp_all add: tty_ok_def input_ok_def line_ok_def TTY_LN_BUF_SIZE_def)
  then have "take (Suc (ln_len ?l)) ((ln_buf ?l)[ln_len ?l := c]) = take (ln_len ?l) (ln_buf ?l) @ [c]"
    using assms(2) by (simp add: take_Suc_conv_app_nth)
  then show ?thesis
    using l assms(2)
    by (auto simp: insert_char_def Let_def line_ok_def TTY_LN_BUF_SIZE_def cur_line_def
        intro!: exI [of _ "\<lparr>ln_buf = (ln_buf ?l)[ln_len ?l := c], ln_ed = Suc (ln_len ?l), ln_len = Suc (ln_len ?l)\<rparr>"])
qed

lemma erase_char_ok:
  assumes "tty_ok (dev s)"
  shows "\<exists>s' l. erase_char s = Inr s' \<and> dev s' = (dev s)\<lparr>tt_line := l\<rparr> \<and> env s' = env s \<and> line_ok l \<and>
    take (ln_len l) (ln_buf l) = butlast (cur_line (dev s))"
proof -
  let ?l = "tt_line (dev s)"
  have l: "length (ln_buf ?l) = 512" "ln_ed ?l = ln_len ?l" "ln_len ?l < 512"
    using assms by (simp_all add: tty_ok_def input_ok_def line_ok_def TTY_LN_BUF_SIZE_def)
  show ?thesis
  proof (cases "ln_len ?l = 0")
    case True
    then show ?thesis using l by (auto simp: erase_char_def cur_line_def line_ok_def TTY_LN_BUF_SIZE_def intro!: exI [of _ ?l])
  next
    case False
    define b where "b = moved (ln_buf ?l) (ln_len ?l - 1) (ln_len ?l) 1"
    have mv: "memmove (ln_buf ?l) (ln_len ?l - 1) (ln_len ?l) 1 = Inr b"
      using False l memcpy_up_ok [of "ln_len ?l - 1" 1 "ln_buf ?l" "ln_len ?l"] by (simp add: memmove_def b_def)
    have b: "length b = 512" "take (ln_len ?l - 1) b = butlast (cur_line (dev s))"
      using False l by (simp_all add: b_def moved_def cur_line_def butlast_take)
    show ?thesis
      using False l mv b
      by (auto simp: erase_char_def Let_def line_ok_def TTY_LN_BUF_SIZE_def intro!: exI [of _ "\<lparr>ln_buf = b, ln_ed = ln_len ?l - 1, ln_len = ln_len ?l - 1\<rparr>"])
  qed
qed

lemma type_key_cong: "tt_termios t = tt_termios t' \<Longrightarrow> type_key t = type_key t'"
  by (simp add: type_key_def is_cc_def fun_eq_iff)

lemma translate_cong: "tt_termios t = tt_termios t' \<Longrightarrow> tty_translate c t = tty_translate c t'"
  by (simp add: tty_translate_def)

text \<open>A sequence of keys, and the characters they are after the translation.\<close>

fun tty_ins :: "'w task_env \<Rightarrow> u8 list \<Rightarrow> 'w tstate \<Rightarrow> 'w tstate kres" where
  "tty_ins sw [] s = Inr s"
| "tty_ins sw (c # cs) s = bnd (tty_in sw c s) (tty_ins sw cs)"

definition keys_of :: "tty \<Rightarrow> u8 list \<Rightarrow> u8 list" where
  "keys_of t cs = List.map_filter (\<lambda>c. tty_translate c t) cs"

section \<open>What the driver relies on and what it gives\<close>

text \<open>
  The readers: when the driver gives up the processor they may take characters from the front of the
  queue, and must take some when it is full. \<open>got\<close> is what they have taken so far.
\<close>

locale tty_readers =
  fixes sw :: "'w task_env" and got :: "'w \<Rightarrow> u8 list"
  assumes switch: "input_ok (dev s) \<Longrightarrow> \<exists>s' rb. sw s = Inr s' \<and> dev s' = (dev s)\<lparr>tt_cin := rb\<rparr> \<and> tty_ok (dev s') \<and>
      got (env s') @ rb_items rb = got (env s) @ rb_items (tt_cin (dev s))"
begin

definition stream :: "'w tstate \<Rightarrow> u8 list" where
  "stream s = got (env s) @ rb_items (tt_cin (dev s))"

lemma iput_ok:
  assumes "tty_ok (dev s)"
  shows "\<exists>s' rb. tty_iput sw c s = Inr s' \<and> dev s' = (dev s)\<lparr>tt_cin := rb\<rparr> \<and> tty_ok (dev s') \<and> stream s' = stream s @ [c]"
proof -
  have r: "rb_ok (tt_cin (dev s))" "rb_size (tt_cin (dev s)) = TTY_IN_BUF_SIZE" using assms by (simp_all add: tty_ok_def input_ok_def)
  then have "length (rb_items (tt_cin (dev s))) < unat (rb_size (tt_cin (dev s)))"
    using assms rbq.is_full_spec [OF r(1)] rbq.items_cap [OF r(1)] by (simp add: tty_ok_def)
  from rb_putc_spec [OF r(1) this] obtain rb where rb: "rb_putc (tt_cin (dev s)) c = Inr rb" "rb_ok rb"
    "rb_items rb = rb_items (tt_cin (dev s)) @ [c]" "rb_size rb = TTY_IN_BUF_SIZE" using r(2) by auto
  define s1 where "s1 = set_cin rb s"
  have q: "input_ok (dev (emit Wakeup s1))" using assms rb by (simp add: s1_def tty_ok_def input_ok_def)
  show ?thesis
  proof (cases "rb_is_full rb \<or> c = 10 \<or> \<not> flag (c_lflag (tt_termios (dev s1))) ICANON")
    case True
    from switch [OF q] obtain s' rb' where "sw (emit Wakeup s1) = Inr s'" "dev s' = (dev s1)\<lparr>tt_cin := rb'\<rparr>" "tty_ok (dev s')"
      "got (env s') @ rb_items rb' = got (env s1) @ rb_items rb" by (auto simp: s1_def)
    then show ?thesis using True rb by (auto simp: tty_iput_def s1_def stream_def)
  next
    case False
    then show ?thesis using rb q by (auto simp: tty_iput_def s1_def stream_def tty_ok_def)
  qed
qed

lemma iputs_ok:
  assumes "tty_ok (dev s)" and "i + n = ln_len (tt_line (dev s))"
  shows "\<exists>s' rb. tty_iputs sw n i s = Inr s' \<and> dev s' = (dev s)\<lparr>tt_cin := rb\<rparr> \<and> tty_ok (dev s') \<and> stream s' = stream s @ drop i (cur_line (dev s))"
  using assms
proof (induction n arbitrary: i s)
  case 0
  then have "length (cur_line (dev s)) = i" by (simp add: tty_ok_def input_ok_def length_cur_line)
  then show ?case using 0 by (auto intro!: exI [of _ "tt_cin (dev s)"])
next
  case (Suc n)
  let ?c = "ln_buf (tt_line (dev s)) ! i"
  have l: "line_ok (tt_line (dev s))" "i < ln_len (tt_line (dev s))" using Suc.prems by (simp_all add: tty_ok_def input_ok_def)
  then have i: "i < length (ln_buf (tt_line (dev s)))" "i < length (cur_line (dev s))" by (simp_all add: line_ok_def length_cur_line)
  from iput_ok [OF Suc.prems(1), of ?c] obtain s1 rb where s1: "tty_iput sw ?c s = Inr s1" "dev s1 = (dev s)\<lparr>tt_cin := rb\<rparr>" "tty_ok (dev s1)"
    "stream s1 = stream s @ [?c]" by blast
  from Suc.IH [OF s1(3), of "Suc i"] Suc.prems(2) s1(2) obtain s' rb' where s': "tty_iputs sw n (Suc i) s1 = Inr s'"
    "dev s' = (dev s)\<lparr>tt_cin := rb'\<rparr>" "tty_ok (dev s')" "stream s' = stream s1 @ drop (Suc i) (cur_line (dev s))" by (auto simp: cur_line_def)
  have "drop i (cur_line (dev s)) = ?c # drop (Suc i) (cur_line (dev s))"
    using i(2) l(2) by (simp add: Cons_nth_drop_Suc [symmetric] cur_line_def)
  then show ?case using s1 s' l(2) i(1) by auto
qed

lemma flush_ok:
  assumes "tty_ok (dev s)"
  shows "\<exists>s' rb. flush_line sw s = Inr s' \<and> dev s' = (dev s)\<lparr>tt_cin := rb\<rparr> \<and> tty_ok (dev s') \<and> stream s' = stream s @ cur_line (dev s)"
  using iputs_ok [OF assms, of 0] by (simp add: flush_line_def)

text \<open>The state after a key, but for the queue: only the line changes.\<close>

definition typed :: "u8 \<Rightarrow> 'w tstate \<Rightarrow> 'w tstate \<Rightarrow> bool" where
  "typed c s s' \<longleftrightarrow> tty_ok (dev s') \<and> tt_termios (dev s') = tt_termios (dev s) \<and>
     (cur_line (dev s'), stream s') = type_key (dev s) c (cur_line (dev s), stream s)"

lemma stream_simps [simp]:
  "stream (emit e s) = stream s" "stream (tty_oput k s) = stream s" "stream (tty_oputs ks s) = stream s" "stream (tty_echo k s) = stream s"
  "stream (kill_fg sig s) = stream s" "stream (set_line l s) = stream s"
  by (simp_all add: stream_def)

lemma tty_ok_line: "tty_ok (dev s) \<Longrightarrow> line_ok l \<Longrightarrow> tty_ok ((dev s)\<lparr>tt_line := l\<rparr>)"
  by (simp add: tty_ok_def input_ok_def)

lemma cleared:
  assumes "tty_ok (dev s)"
  shows "\<exists>s' l. clear_line s = Inr s' \<and> dev s' = (dev s)\<lparr>tt_line := l\<rparr> \<and> tty_ok (dev s') \<and> cur_line (dev s') = [] \<and> stream s' = stream s"
proof -
  from clear_line_ok [OF assms] obtain l where "clear_line s = Inr (set_line l s)" "line_ok l" "ln_len l = 0" by blast
  then show ?thesis using tty_ok_line [OF assms] by (intro exI [of _ "set_line l s"] exI [of _ l]) (simp add: cur_line_def)
qed

lemma eol_ok:
  assumes "tty_ok (dev s)" and "tty_ok (dev s1)" and "dev s1 = dev s" and "stream s1 = stream s"
  shows "\<exists>s'. bnd (flush_line sw s1) (\<lambda>s. bnd (tty_iput sw c s) clear_line) = Inr s' \<and> tty_ok (dev s') \<and> tt_termios (dev s') = tt_termios (dev s) \<and>
    cur_line (dev s') = [] \<and> stream s' = stream s @ cur_line (dev s) @ [c]"
proof -
  from flush_ok [OF assms(2)] obtain s2 rb where s2: "flush_line sw s1 = Inr s2" "dev s2 = (dev s1)\<lparr>tt_cin := rb\<rparr>" "tty_ok (dev s2)"
    "stream s2 = stream s1 @ cur_line (dev s1)" by blast
  from iput_ok [OF s2(3), of c] obtain s3 rb' where s3: "tty_iput sw c s2 = Inr s3" "dev s3 = (dev s2)\<lparr>tt_cin := rb'\<rparr>" "tty_ok (dev s3)"
    "stream s3 = stream s2 @ [c]" by blast
  from cleared [OF s3(3)] obtain s4 l where "clear_line s3 = Inr s4" "dev s4 = (dev s3)\<lparr>tt_line := l\<rparr>" "tty_ok (dev s4)" "cur_line (dev s4) = []"
    "stream s4 = stream s3" by blast
  then show ?thesis using s2 s3 assms(3,4) by auto
qed

lemma edit_ok:
  assumes ok: "tty_ok (dev s)" and c: "c \<noteq> CTRL 76"
  shows "\<exists>e s'. tty_edit sw c s = Inr (e, s') \<and> typed c s s'"
proof -
  let ?t = "dev s" and ?echo = "flag (c_lflag (tt_termios (dev s))) ECHO"
  have len: "length (cur_line ?t) = ln_len (tt_line ?t)" using ok by (simp add: tty_ok_def input_ok_def length_cur_line)
  consider (eol) "is_cc c VEOL ?t \<or> is_cc c VEOL2 ?t \<or> c = 10 \<or> ln_len (tt_line ?t) \<ge> TTY_LN_BUF_SIZE - 1"
    | (erase) "\<not> (is_cc c VEOL ?t \<or> is_cc c VEOL2 ?t \<or> c = 10 \<or> ln_len (tt_line ?t) \<ge> TTY_LN_BUF_SIZE - 1)" "is_cc c VERASE ?t"
    | (clear) "\<not> (is_cc c VEOL ?t \<or> is_cc c VEOL2 ?t \<or> c = 10 \<or> ln_len (tt_line ?t) \<ge> TTY_LN_BUF_SIZE - 1)" "\<not> is_cc c VERASE ?t"
        "is_cc c VKILL ?t \<or> is_cc c VINTR ?t \<or> is_cc c VQUIT ?t"
    | (eof) "\<not> (is_cc c VEOL ?t \<or> is_cc c VEOL2 ?t \<or> c = 10 \<or> ln_len (tt_line ?t) \<ge> TTY_LN_BUF_SIZE - 1)" "\<not> is_cc c VERASE ?t"
        "\<not> (is_cc c VKILL ?t \<or> is_cc c VINTR ?t \<or> is_cc c VQUIT ?t)" "is_cc c VEOF ?t"
    | (other) "\<not> (is_cc c VEOL ?t \<or> is_cc c VEOL2 ?t \<or> c = 10 \<or> ln_len (tt_line ?t) \<ge> TTY_LN_BUF_SIZE - 1)" "\<not> is_cc c VERASE ?t"
        "\<not> (is_cc c VKILL ?t \<or> is_cc c VINTR ?t \<or> is_cc c VQUIT ?t)" "\<not> is_cc c VEOF ?t"
    by blast
  then show ?thesis
  proof cases
    case eol
    define s1 where "s1 = (if ?echo then tty_oput c s else s)"
    have s1: "tty_ok (dev s1)" "dev s1 = dev s" "stream s1 = stream s" using ok by (simp_all add: s1_def)
    from eol_ok [OF ok s1, of c] obtain s' where s': "bnd (flush_line sw s1) (\<lambda>s. bnd (tty_iput sw c s) clear_line) = Inr s'" "tty_ok (dev s')"
      "tt_termios (dev s') = tt_termios (dev s)" "cur_line (dev s') = []" "stream s' = stream s @ cur_line (dev s) @ [c]" by blast
    have "tty_edit sw c s = Inr (False, s')"
      using eol s'(1) unfolding tty_edit_def Let_def s1_def [symmetric] by (auto simp: bnd_eq_Inr)
    moreover have "typed c s s'" using s' eol len by (simp add: typed_def type_key_def)
    ultimately show ?thesis by blast
  next
    case erase
    from erase_char_ok [OF ok] obtain s' l where s': "erase_char s = Inr s'" "dev s' = (dev s)\<lparr>tt_line := l\<rparr>" "env s' = env s" "line_ok l"
      "take (ln_len l) (ln_buf l) = butlast (cur_line (dev s))" by blast
    then have "typed c s s'" using erase len tty_ok_line [OF ok] by (simp add: typed_def type_key_def cur_line_def stream_def)
    moreover have "tty_edit sw c s = Inr (False, s')" using erase s'(1) by (simp add: tty_edit_def Let_def)
    ultimately show ?thesis by blast
  next
    case clear
    from cleared [OF ok] obtain s1 l where s1: "clear_line s = Inr s1" "dev s1 = (dev s)\<lparr>tt_line := l\<rparr>" "tty_ok (dev s1)" "cur_line (dev s1) = []"
      "stream s1 = stream s" by blast
    then have "typed c s s1" using clear len by (simp add: typed_def type_key_def)
    then have "typed c s (tty_oputs ks s1)" "typed c s (kill_fg sig s1)" for ks sig by (simp_all add: typed_def)
    moreover have "tty_edit sw c s \<in> {Inr (False, tty_oputs [27, 91, 71, 27, 91, 50, 75] s1), Inr (False, s1),
        Inr (True, kill_fg SIGINT s1), Inr (True, kill_fg SIGQUIT s1)}"
      using clear s1(1) by (cases "is_cc c VKILL ?t"; cases "is_cc c VINTR ?t") (simp_all add: tty_edit_def Let_def)
    ultimately show ?thesis using \<open>typed c s s1\<close> by (elim insertE emptyE) blast+
  next
    case eof
    have "\<exists>s1. (if ln_len (tt_line ?t) \<noteq> 0 then bnd (flush_line sw s) clear_line else Inr s) = Inr s1 \<and> typed c s s1"
    proof (cases "ln_len (tt_line ?t) = 0")
      case True
      then have "cur_line ?t = []" by (simp add: cur_line_def)
      then show ?thesis using True eof len ok by (simp add: typed_def type_key_def)
    next
      case False
      from flush_ok [OF ok] obtain s2 rb where s2: "flush_line sw s = Inr s2" "dev s2 = (dev s)\<lparr>tt_cin := rb\<rparr>" "tty_ok (dev s2)"
        "stream s2 = stream s @ cur_line (dev s)" by blast
      from cleared [OF s2(3)] obtain s4 l where "clear_line s2 = Inr s4" "dev s4 = (dev s2)\<lparr>tt_line := l\<rparr>" "tty_ok (dev s4)" "cur_line (dev s4) = []"
        "stream s4 = stream s2" by blast
      then show ?thesis using False s2 eof len by (auto simp: typed_def type_key_def)
    qed
    then obtain s1 where s1: "(if ln_len (tt_line ?t) \<noteq> 0 then bnd (flush_line sw s) clear_line else Inr s) = Inr s1" "typed c s s1" by blast
    then have "typed c s (emit Wakeup s1)" by (simp add: typed_def)
    moreover have "tty_edit sw c s = Inr (True, emit Wakeup s1)"
      unfolding tty_edit_def Let_def s1(1) using eof by simp
    ultimately show ?thesis by blast
  next
    case other
    show ?thesis
    proof (cases "is_cc c VSUSP ?t \<or> is_cc c VSTART ?t \<or> c \<in> {CTRL 80, CTRL 70, CTRL 79}")
      case True
      then have "typed c s s" using other len ok by (auto simp: typed_def type_key_def)
      then have "typed c s (kill_fg sig s)" "typed c s (emit e s)" for sig e by (simp_all add: typed_def)
      moreover have "tty_edit sw c s \<in> {Inr (True, kill_fg SIGTSTP s), Inr (True, kill_fg SIGCONT s), Inr (False, emit Ps s),
          Inr (False, emit Show_pid s), Inr (False, emit Dump_cache s)}"
        using True other c
        by (cases "is_cc c VSUSP ?t"; cases "is_cc c VSTART ?t"; cases "c = CTRL 80"; cases "c = CTRL 70") (simp_all add: tty_edit_def Let_def)
      ultimately show ?thesis by (elim insertE emptyE) blast+
    next
      case False
      have "ln_len (tt_line ?t) < 511" using other by (simp add: TTY_LN_BUF_SIZE_def)
      from insert_char_ok [OF ok this] obtain l where l: "insert_char c s = Inr (set_line l s)" "line_ok l"
        "take (ln_len l) (ln_buf l) = cur_line (dev s) @ [c]" by blast
      then have "typed c s (set_line l s)" using False other c len tty_ok_line [OF ok]
        by (simp add: typed_def type_key_def cur_line_def)
      moreover have "tty_edit sw c s = Inr (True, set_line l s)" using False other c l(1) by (simp add: tty_edit_def Let_def)
      ultimately show ?thesis by blast
    qed
  qed
qed

lemma editor_ok:
  assumes "tty_ok (dev s)" and "c \<noteq> CTRL 76"
  shows "\<exists>s'. tty_editor sw c s = Inr s' \<and> typed c s s'"
proof -
  from edit_ok [OF assms] obtain e s' where "tty_edit sw c s = Inr (e, s')" "typed c s s'" by blast
  moreover from this have "typed c s (tty_echo c s')" by (simp add: typed_def)
  ultimately show ?thesis by (simp add: tty_editor_def)
qed

lemma key_ok:
  assumes "tty_ok (dev s)" and "flag (c_lflag (tt_termios (dev s))) ICANON" and "tty_translate c (dev s) \<noteq> Some (CTRL 76)"
  shows "\<exists>s'. tty_in sw c s = Inr s' \<and> tty_ok (dev s') \<and> tt_termios (dev s') = tt_termios (dev s) \<and>
    (cur_line (dev s'), stream s') = fold (type_key (dev s)) (keys_of (dev s) [c]) (cur_line (dev s), stream s)"
proof (cases "tty_translate c (dev s)")
  case None
  then show ?thesis using assms(1) by (simp add: tty_in_def keys_of_def List.map_filter_def)
next
  case (Some k)
  then have "k \<noteq> CTRL 76" using assms(3) by simp
  from editor_ok [OF assms(1) this] obtain s' where "tty_editor sw k s = Inr s'" "typed k s s'" by blast
  then show ?thesis using Some assms(2) by (simp add: tty_in_def typed_def keys_of_def List.map_filter_def)
qed

lemma keys_ok:
  assumes "tty_ok (dev s)" and "flag (c_lflag (tt_termios (dev s))) ICANON" and "CTRL 76 \<notin> set (keys_of (dev s) cs)"
  shows "\<exists>s'. tty_ins sw cs s = Inr s' \<and> tty_ok (dev s') \<and> tt_termios (dev s') = tt_termios (dev s) \<and>
    (cur_line (dev s'), stream s') = fold (type_key (dev s)) (keys_of (dev s) cs) (cur_line (dev s), stream s)"
  using assms
proof (induction cs arbitrary: s)
  case Nil
  then show ?case by (simp add: keys_of_def List.map_filter_def)
next
  case (Cons c cs)
  have sp: "keys_of (dev s) (c # cs) = keys_of (dev s) [c] @ keys_of (dev s) cs" by (auto simp: keys_of_def List.map_filter_def)
  have "tty_translate c (dev s) \<noteq> Some (CTRL 76)" using Cons.prems(3) by (auto simp: sp) (auto simp: keys_of_def List.map_filter_def)
  from key_ok [OF Cons.prems(1,2) this] obtain s1 where s1: "tty_in sw c s = Inr s1" "tty_ok (dev s1)" "tt_termios (dev s1) = tt_termios (dev s)"
    "(cur_line (dev s1), stream s1) = fold (type_key (dev s)) (keys_of (dev s) [c]) (cur_line (dev s), stream s)" by blast
  have k: "keys_of (dev s1) cs = keys_of (dev s) cs" using translate_cong [OF s1(3)] by (simp add: keys_of_def)
  have "flag (c_lflag (tt_termios (dev s1))) ICANON" "CTRL 76 \<notin> set (keys_of (dev s1) cs)" using Cons.prems(2,3) s1(3) k sp by auto
  from Cons.IH [OF s1(2) this] obtain s' where s': "tty_ins sw cs s1 = Inr s'" "tty_ok (dev s')" "tt_termios (dev s') = tt_termios (dev s1)"
    "(cur_line (dev s'), stream s') = fold (type_key (dev s1)) (keys_of (dev s1) cs) (cur_line (dev s1), stream s1)" by blast
  then show ?case using s1 k type_key_cong [OF s1(3)] by (simp add: sp)
qed

end

section \<open>A task that reads\<close>

text \<open>
  The reader the terminals are made for: when it runs it calls \<open>tty_read\<close> with a buffer of 128 bytes
  and keeps what it gets.
\<close>

definition read_task :: "u8 list task_env" where
  "read_task s = bnd (tty_read_loop (\<lambda>_. TASK_RUNNING) Inr 128 [] s) (\<lambda>(r, cs, s). Inr (s\<lparr>env := env s @ cs\<rparr>))"

lemma set_cin_simps: "set_cin rb' (set_cin rb s) = set_cin rb' s" "set_cin (tt_cin (dev s)) s = s"
  by (simp_all add: set_cin_def)

lemma read_loop_ok:
  assumes "rb_ok (tt_cin (dev s))"
  shows "\<exists>cs rb. tty_read_loop (\<lambda>_. TASK_RUNNING) Inr n acc s = Inr (of_nat (length (acc @ cs)), acc @ cs, set_cin rb s) \<and>
    rb_ok rb \<and> rb_size rb = rb_size (tt_cin (dev s)) \<and> rb_items (tt_cin (dev s)) = cs @ rb_items rb \<and>
    (rb_items (tt_cin (dev s)) \<noteq> [] \<longrightarrow> 0 < n \<longrightarrow> cs \<noteq> [])"
  using assms
proof (induction n arbitrary: s acc)
  case 0
  then show ?case by (intro exI [of _ "[]"] exI [of _ "tt_cin (dev s)"]) (simp add: set_cin_simps)
next
  case (Suc n)
  show ?case
  proof (cases "rb_items (tt_cin (dev s))")
    case Nil
    then have "rb_is_empty (tt_cin (dev s))" using rbq.is_empty_spec [OF Suc.prems] by simp
    then show ?thesis using Nil Suc.prems by (intro exI [of _ "[]"] exI [of _ "tt_cin (dev s)"]) (simp add: set_cin_simps)
  next
    case (Cons c ks)
    then have ne: "\<not> rb_is_empty (tt_cin (dev s))" using rbq.is_empty_spec [OF Suc.prems] by simp
    from rb_getc_spec [OF Suc.prems Cons] obtain rb where rb: "rb_getc (tt_cin (dev s)) = Inr (c, rb)" "rb_ok rb" "rb_items rb = ks"
      "rb_size rb = rb_size (tt_cin (dev s))" by blast
    show ?thesis
    proof (cases "c = 10 \<or> \<not> flag (c_lflag (tt_termios (dev s))) ICANON")
      case True
      then show ?thesis using ne rb Cons by (intro exI [of _ "[c]"] exI [of _ rb]) auto
    next
      case False
      from Suc.IH [of "set_cin rb s" "acc @ [c]"] rb obtain cs rb' where "tty_read_loop (\<lambda>_. TASK_RUNNING) Inr n (acc @ [c]) (set_cin rb s) =
          Inr (of_nat (length (acc @ [c] @ cs)), acc @ [c] @ cs, set_cin rb' s)" "rb_ok rb'" "rb_size rb' = rb_size rb" "ks = cs @ rb_items rb'"
        by (auto simp: set_cin_simps)
      then show ?thesis using False ne rb Cons by (intro exI [of _ "c # cs"] exI [of _ rb']) auto
    qed
  qed
qed

interpretation reader: tty_readers read_task "\<lambda>w. w"
proof
  fix s :: "u8 list tstate"
  assume q: "input_ok (dev s)"
  then have rb: "rb_ok (tt_cin (dev s))" "rb_size (tt_cin (dev s)) = TTY_IN_BUF_SIZE" by (simp_all add: input_ok_def)
  show "\<exists>s' rb. read_task s = Inr s' \<and> dev s' = (dev s)\<lparr>tt_cin := rb\<rparr> \<and> tty_ok (dev s') \<and>
      env s' @ rb_items rb = env s @ rb_items (tt_cin (dev s))" (is ?thesis)
    using read_loop_ok [OF rb(1), of 128 "[]"]
  proof (elim exE conjE)
    fix cs rb'
    assume l: "tty_read_loop (\<lambda>_. TASK_RUNNING) Inr 128 [] s = Inr (of_nat (length ([] @ cs)), [] @ cs, set_cin rb' s)"
      and r': "rb_ok rb'" "rb_size rb' = rb_size (tt_cin (dev s))" "rb_items (tt_cin (dev s)) = cs @ rb_items rb'"
      "rb_items (tt_cin (dev s)) \<noteq> [] \<longrightarrow> 0 < (128 :: nat) \<longrightarrow> cs \<noteq> []"
    have run: "read_task s = Inr ((set_cin rb' s)\<lparr>env := env s @ cs\<rparr>)"
      unfolding read_task_def l by (simp add: set_cin_def)
    have sz: "rb_size rb' = TTY_IN_BUF_SIZE" using r'(2) rb(2) by simp
    have "\<not> rb_is_full rb'"
    proof
      assume "rb_is_full rb'"
      then have "length (rb_items rb') = 128" using rbq.is_full_spec [OF r'(1)] sz by (simp add: TTY_IN_BUF_SIZE_def)
      moreover have "length (rb_items (tt_cin (dev s))) \<le> 128" using rbq.items_cap [OF rb(1)] rb(2) by (simp add: TTY_IN_BUF_SIZE_def)
      moreover have "length (rb_items (tt_cin (dev s))) = length cs + length (rb_items rb')" using r'(3) by simp
      ultimately show False using r'(4) by (cases cs) auto
    qed
    then show ?thesis
      using run r'(1,3) sz q by (intro exI [of _ "(set_cin rb' s)\<lparr>env := env s @ cs\<rparr>"] exI [of _ rb']) (simp add: tty_ok_def input_ok_def)
  qed
qed

text \<open>
  C28. The line discipline. In canonical mode, with a task that reads from the terminal, any sequence
  of keys (except Control-L, which resets the terminal) does to the line that is being edited and to
  the characters the reader gets, now or later, what \<open>type_key\<close> says, key after key: ordinary
  characters extend the line, erase takes the last one back, kill, interrupt and quit empty it, end
  of file and end of line hand it over, and a line of 511 characters is handed over with the next
  one. Nothing is lost or reordered on the way, however long the lines are, and neither the line nor
  the queue ever runs over.
\<close>

theorem line_discipline:
  assumes "tty_ok (dev s)" and "flag (c_lflag (tt_termios (dev s))) ICANON" and "CTRL 76 \<notin> set (keys_of (dev s) cs)"
  shows "\<exists>s'. tty_ins read_task cs s = Inr s' \<and> tty_ok (dev s') \<and>
    (cur_line (dev s'), env s' @ rb_items (tt_cin (dev s'))) =
      fold (type_key (dev s)) (keys_of (dev s) cs) (cur_line (dev s), env s @ rb_items (tt_cin (dev s)))"
  using reader.keys_ok [OF assms] by (auto simp: reader.stream_def)

definition fresh_tty :: tty where
  "fresh_tty = (case tty_new \<lparr>rb_buf = replicate 128 0, rb_head = 0, rb_tail = 0, rb_size = 128\<rparr>
       \<lparr>rb_buf = replicate 128 0, rb_head = 0, rb_tail = 0, rb_size = 128\<rparr> 1 1 0 of Inr t \<Rightarrow> t)"

lemma fresh_tty_ok: "tty_ok fresh_tty" "flag (c_lflag (tt_termios fresh_tty)) ICANON"
  by (simp_all add: fresh_tty_def tty_new_def zero_tty_def tty_set_defaults_def tty_ok_def input_ok_def rb_ok_def ring_ok_def rb_reset_def
      rb_is_full_def line_ok_def TTY_LN_BUF_SIZE_def TTY_IN_BUF_SIZE_def NTTY_def flag_def
      ECHO_def ECHOE_def ECHOK_def ISIG_def IEXTEN_def ICANON_def)

lemma fresh_tty_cc: "tt_termios fresh_tty = \<lparr>c_iflag = 3, c_oflag = 3, c_cflag = 128, c_lflag = 571,
  c_cc = [24, 28, 8, 21, 4, 0, 1, 0, 17, 19, 26, 10, 18, 0, 23, 22, 0, 0, 0, 0, 0, 0, 0, 0, 0, 0, 0, 0, 0, 0, 0, 0]\<rparr>"
  by (simp add: fresh_tty_def tty_new_def zero_tty_def tty_set_defaults_def NTTY_def NCCS_def CTRL_def ICRNL_def BRKINT_def ONLCR_def OPOST_def CREAD_def
      ECHO_def ECHOE_def ECHOK_def ISIG_def IEXTEN_def ICANON_def VINTR_def VQUIT_def VERASE_def VKILL_def VEOF_def VTIME_def VMIN_def
      VSTART_def VSTOP_def VSUSP_def VEOL_def VREPRINT_def VWERASE_def VLNEXT_def numeral_eq_Suc)

text \<open>Typing \<open>ls\<close>, erasing the last character, \<open>x\<close> and return: the reader gets \<open>lx\<close> and a newline.\<close>

theorem line_discipline_witness:
  "\<exists>s'. tty_ins read_task [108, 115, 8, 120, 13] \<lparr>dev = fresh_tty, events = [], env = []\<rparr> = Inr s' \<and>
     cur_line (dev s') = [] \<and> env s' @ rb_items (tt_cin (dev s')) = [108, 120, 10]"
proof -
  let ?s = "\<lparr>dev = fresh_tty, events = [], env = []\<rparr> :: u8 list tstate"
  have k: "keys_of fresh_tty [108, 115, 8, 120, 13] = [108, 115, 8, 120, 10]"
    by (simp add: keys_of_def List.map_filter_def tty_translate_def fresh_tty_cc flag_def IGNCR_def INLCR_def ICRNL_def ISTRIP_def)
  have z: "cur_line fresh_tty = []" "rb_items (tt_cin fresh_tty) = []"
    by (simp_all add: fresh_tty_def tty_new_def zero_tty_def tty_set_defaults_def cur_line_def rb_items_def ring_items_def rb_reset_def NTTY_def)
  have f: "fold (type_key fresh_tty) [108, 115, 8, 120, 10] ([], []) = ([], [108, 120, 10])"
    by (simp add: type_key_def is_cc_def fresh_tty_cc TTY_LN_BUF_SIZE_def CTRL_def
        VINTR_def VQUIT_def VERASE_def VKILL_def VEOF_def VSTART_def VSUSP_def VEOL_def VEOL2_def)
  have "CTRL 76 \<notin> set (keys_of (dev ?s) [108, 115, 8, 120, 13])" using k by (simp add: CTRL_def)
  from line_discipline [of ?s, OF _ _ this] show ?thesis using fresh_tty_ok k z f by auto
qed

text \<open>
  The contract of the readers is needed: when nobody takes the characters of a full queue, the next one
  overwrites the oldest, and the queue holds more characters than it has room for.
\<close>

lemma queue_overrun:
  assumes "rb_ok (tt_cin (dev s))" and "rb_size (tt_cin (dev s)) = TTY_IN_BUF_SIZE" and "length (rb_items (tt_cin (dev s))) = 128"
  shows "\<exists>s'. tty_iput Inr c s = Inr s' \<and> unat (rb_num_chars (tt_cin (dev s'))) = 129"
proof -
  let ?rb = "tt_cin (dev s)"
  have "unat (rb_head ?rb - rb_tail ?rb) = 128" using assms(3) by (simp add: rb_items_def)
  moreover have e: "rb_head ?rb + 1 - rb_tail ?rb = rb_head ?rb - rb_tail ?rb + 1" by simp
  ultimately have n: "unat (rb_head ?rb + 1 - rb_tail ?rb) = 129" unfolding e using unat_add_small [of "rb_head ?rb - rb_tail ?rb" 1] by simp
  have l: "length (rb_buf ?rb) = 128" using assms(1,2) by (simp add: rb_ok_def ring_ok_def TTY_IN_BUF_SIZE_def)
  have "unat (rb_head ?rb mod 128) < 128" by (simp add: unat_mod)
  then obtain rb where "rb_putc ?rb c = Inr rb" "unat (rb_num_chars rb) = 129"
    using n l assms(2) by (simp add: rb_putc_def TTY_IN_BUF_SIZE_def rb_num_chars_def)
  then show ?thesis by (auto simp: tty_iput_def Let_def)
qed

text \<open>No key moves the cursor inside the line, so the branches that edit in the middle are never taken.\<close>

lemma cursor_at_end: "tty_ok t \<Longrightarrow> ln_ed (tt_line t) = ln_len (tt_line t)"
  by (simp add: tty_ok_def input_ok_def line_ok_def)

end
