(* ===== verification/Kbd.thy ===== *)
theory Kbd
  imports Tty
begin

text \<open>
  The keyboard driver (\<open>kbd.c\<close>): it turns the scan codes of the controller into characters, keeps the
  state of the modifier keys, and sends the cursor keys as escape sequences through a small buffer.
  The controller is the list of the scan codes it has ready: port \<open>0x64\<close> says whether there is one,
  reading port \<open>0x60\<close> takes it.
\<close>

definition KLC :: u8 where "KLC = 0x1D"
definition KLS :: u8 where "KLS = 0x2A"
definition KRS :: u8 where "KRS = 0x36"
definition KLA :: u8 where "KLA = 0x38"
definition KCL :: u8 where "KCL = 0x3A"
definition KNL :: u8 where "KNL = 0x45"
definition KSL :: u8 where "KSL = 0x46"
definition KUP :: u8 where "KUP = 0x48"
definition KPGUP :: u8 where "KPGUP = 0x49"
definition KLFT :: u8 where "KLFT = 0x4B"
definition KRGT :: u8 where "KRGT = 0x4D"
definition KDWN :: u8 where "KDWN = 0x50"
definition KPGDWN :: u8 where "KPGDWN = 0x51"

definition kbd_map :: "u8 list" where
  "kbd_map =
     [0, 0x1b, 49, 50, 51, 52, 53, 54,
      55, 56, 57, 48, 45, 61, 8, 9,
      113, 119, 101, 114, 116, 121, 117, 105,
      111, 112, 91, 93, 13, 0x1D, 97, 115,
      100, 102, 103, 104, 106, 107, 108, 59,
      39, 96, 0x2A, 92, 122, 120, 99, 118,
      98, 110, 109, 44, 46, 47, 0x36, 42,
      0x38, 32, 0x3A, 0x3B, 0x3C, 0x3D, 0x3E, 0x3F,
      0x40, 0x41, 0x42, 0x43, 0x44, 0x45, 0x46, 0x47,
      0x48, 0x49, 45, 0x4B, 53, 0x4D, 43, 49,
      0x50, 0x51, 48, 46, 0, 0, 0, 0x57,
      0x58, 0, 0, 2] @ replicate 36 0"

definition kbd_map_shift :: "u8 list" where
  "kbd_map_shift =
     [0, 0x1b, 33, 64, 35, 36, 37, 94,
      38, 42, 40, 41, 95, 43, 8, 9,
      81, 87, 69, 82, 84, 89, 85, 73,
      79, 80, 123, 125, 13, 0x1D, 65, 83,
      68, 70, 71, 72, 74, 75, 76, 58,
      34, 126, 0x2A, 124, 90, 88, 67, 86,
      66, 78, 77, 60, 62, 63, 0x36, 42,
      0x38, 32, 0x3A, 0x3B, 0x3C, 0x3D, 0x3E, 0x3F,
      0x40, 0x41, 0x42, 0x43, 0x44, 0x45, 0x46, 55,
      56, 57, 45, 52, 53, 54, 43, 49,
      50, 51, 48, 46, 0, 0, 0, 0x57,
      0x58] @ replicate 39 0"

definition KBD_SHIFT :: u8 where "KBD_SHIFT = 1"
definition KBD_CTRL :: u8 where "KBD_CTRL = 2"
definition KBD_CAPS :: u8 where "KBD_CAPS = 4"
definition KBD_ALT :: u8 where "KBD_ALT = 8"
definition KBD_NUML :: u8 where "KBD_NUML = 16"
definition KBD_SCRLL :: u8 where "KBD_SCRLL = 32"
definition KBD_BUF_OUT_SZ :: nat where "KBD_BUF_OUT_SZ = 30"

record kbd =
  kbd_stat :: u8
  ko_r :: u8
  ko_w :: u8
  ko_buf :: "u8 list"
  scan :: "u8 list"

text \<open>The counters are bytes; their difference is an \<open>int\<close>.\<close>

fun kbd_wbuf :: "u8 list \<Rightarrow> kbd \<Rightarrow> kbd kres" where
  "kbd_wbuf [] k = Inr k"
| "kbd_wbuf (c # cs) k =
     (if uint (ko_w k) - uint (ko_r k) < int KBD_BUF_OUT_SZ then
        bnd (aset (ko_buf k) (unat (ko_w k) mod KBD_BUF_OUT_SZ) c) (\<lambda>b. kbd_wbuf cs (k\<lparr>ko_buf := b, ko_w := ko_w k + 1\<rparr>))
      else Inr k)"

text \<open>A modifier key is pressed or released.\<close>

definition set_mod :: "bool \<Rightarrow> u8 \<Rightarrow> kbd \<Rightarrow> kbd" where
  "set_mod is_p m k = k\<lparr>kbd_stat := if is_p then kbd_stat k OR m else kbd_stat k AND NOT m\<rparr>"

definition toggle_mod :: "bool \<Rightarrow> u8 \<Rightarrow> kbd \<Rightarrow> kbd" where
  "toggle_mod is_p m k = k\<lparr>kbd_stat := if is_p then kbd_stat k XOR m else kbd_stat k\<rparr>"

text \<open>The character of a key that is no modifier and sends no escape sequence (lines 151 to 166).\<close>

definition kbd_char :: "u8 \<Rightarrow> u8 \<Rightarrow> int" where
  "kbd_char st c =
     (if st AND KBD_SHIFT \<noteq> 0 then uint (kbd_map_shift ! unat c)
      else if st AND KBD_CTRL \<noteq> 0 then
        (let c = kbd_map_shift ! unat c in if c < 65 \<or> c > 90 then 0 else uint c - 64)
      else
        (let c = kbd_map ! unat c in
         if st AND KBD_CAPS \<noteq> 0 \<and> 97 \<le> c \<and> c \<le> 122 then uint c - 97 + 65 else uint c))"

definition esc_tail :: "u8 \<Rightarrow> u8 list option" where
  "esc_tail c =
     (if c = KUP then Some [91, 65] else if c = KDWN then Some [91, 66] else if c = KRGT then Some [91, 67]
      else if c = KLFT then Some [91, 68] else if c = KPGUP then Some [91, 53, 126] else if c = KPGDWN then Some [91, 54, 126] else None)"

definition kbd_getc :: "kbd \<Rightarrow> (int \<times> kbd) kres" where
  "kbd_getc k =
     (if ko_r k < ko_w k then
        bnd (aget (ko_buf k) (unat (ko_r k) mod KBD_BUF_OUT_SZ)) (\<lambda>c. Inr (sint c, k\<lparr>ko_r := ko_r k + 1\<rparr>))
      else case scan k of
        [] \<Rightarrow> Inr (- 1, k)
      | c # cs \<Rightarrow>
          let k = k\<lparr>scan := cs\<rparr>; is_p = (c AND 0x80 = 0); c = c AND NOT 0x80 in
          if c = KLC then Inr (0, set_mod is_p KBD_CTRL k)
          else if c = KLS \<or> c = KRS then Inr (0, set_mod is_p KBD_SHIFT k)
          else if c = KLA then Inr (0, set_mod is_p KBD_ALT k)
          else if c = KCL then Inr (- 1, toggle_mod is_p KBD_CAPS k)
          else if c = KNL then Inr (- 1, toggle_mod is_p KBD_NUML k)
          else if c = KSL then Inr (- 1, toggle_mod is_p KBD_SCRLL k)
          else if \<not> is_p then Inr (0, k)
          else case esc_tail c of
            Some cs \<Rightarrow> bnd (kbd_wbuf cs k) (\<lambda>k. Inr (uint ANSI_ESC, k))
          | None \<Rightarrow> Inr (kbd_char (kbd_stat k) c, k))"

section \<open>The interrupt handler\<close>

definition pending :: "kbd \<Rightarrow> nat" where
  "pending k = (if ko_r k < ko_w k then unat (ko_w k) - unat (ko_r k) else 0)"

definition kbd_work :: "kbd \<Rightarrow> nat" where
  "kbd_work k = 4 * length (scan k) + pending k"

lemma kbd_wbuf_work: "kbd_wbuf cs k = Inr k' \<Longrightarrow> scan k' = scan k \<and> pending k' \<le> pending k + length cs"
proof (induction cs arbitrary: k)
  case (Cons c cs)
  show ?case
  proof (cases "uint (ko_w k) - uint (ko_r k) < int KBD_BUF_OUT_SZ")
    case True
    then obtain b where r: "kbd_wbuf cs (k\<lparr>ko_buf := b, ko_w := ko_w k + 1\<rparr>) = Inr k'" using Cons.prems by (auto simp: bnd_eq_Inr)
    have "unat (ko_w k + 1) \<le> unat (ko_w k) + 1" by (simp add: unat_word_ariths)
    then have "pending (k\<lparr>ko_buf := b, ko_w := ko_w k + 1\<rparr>) \<le> pending k + 1"
      by (auto simp: pending_def word_less_nat_alt)
    with Cons.IH [OF r] show ?thesis by simp
  qed (use Cons.prems in simp)
qed simp

lemma kbd_getc_work:
  assumes "kbd_getc k = Inr (c, k')" and "c \<noteq> - 1"
  shows "kbd_work k' < kbd_work k"
proof (cases "ko_r k < ko_w k")
  case True
  then have "k' = k\<lparr>ko_r := ko_r k + 1\<rparr>" using assms(1) by (auto simp: kbd_getc_def bnd_eq_Inr)
  moreover have "unat (ko_r k + 1) = unat (ko_r k) + 1"
  proof -
    have "unat (ko_w k) < 2 ^ 8" using unsigned_less [of "ko_w k"] by simp
    then show ?thesis using unat_add_small [of "ko_r k" 1] True by (simp add: word_less_nat_alt)
  qed
  ultimately show ?thesis using True by (auto simp: kbd_work_def pending_def word_less_nat_alt)
next
  case False
  then obtain sc cs where s: "scan k = sc # cs" using assms by (cases "scan k") (simp_all add: kbd_getc_def)
  define c' where "c' = sc AND NOT 0x80"
  define k1 where "k1 = k\<lparr>scan := cs\<rparr>"
  have g: "kbd_getc k =
         (let is_p = (sc AND 0x80 = 0) in
          if c' = KLC then Inr (0, set_mod is_p KBD_CTRL k1)
          else if c' = KLS \<or> c' = KRS then Inr (0, set_mod is_p KBD_SHIFT k1)
          else if c' = KLA then Inr (0, set_mod is_p KBD_ALT k1)
          else if c' = KCL then Inr (- 1, toggle_mod is_p KBD_CAPS k1)
          else if c' = KNL then Inr (- 1, toggle_mod is_p KBD_NUML k1)
          else if c' = KSL then Inr (- 1, toggle_mod is_p KBD_SCRLL k1)
          else if \<not> is_p then Inr (0, k1)
          else case esc_tail c' of
            Some cs \<Rightarrow> bnd (kbd_wbuf cs k1) (\<lambda>k. Inr (uint ANSI_ESC, k))
          | None \<Rightarrow> Inr (kbd_char (kbd_stat k1) c', k1))"
    using False s unfolding kbd_getc_def Let_def c'_def k1_def by simp
  have same: "kbd_work (set_mod p m k1) < kbd_work k" "kbd_work (toggle_mod p m k1) < kbd_work k" "kbd_work k1 < kbd_work k" for p m
    using s by (simp_all add: kbd_work_def pending_def set_mod_def toggle_mod_def k1_def)
  have tail: "length cs \<le> 3" if "esc_tail c' = Some cs" for cs using that by (auto simp: esc_tail_def split: if_splits)
  have esc: "kbd_work k' < kbd_work k" if "esc_tail c' = Some ds" "kbd_wbuf ds k1 = Inr k'" for ds
  proof -
    have "pending k1 = pending k" "scan k1 = cs" by (simp_all add: pending_def k1_def)
    then show ?thesis using kbd_wbuf_work [OF that(2)] tail [OF that(1)] s by (simp add: kbd_work_def)
  qed
  show ?thesis using assms(1) same esc unfolding g Let_def by (auto simp: bnd_eq_Inr split: if_splits option.splits)
qed

text \<open>\<open>while ((c = kbd_getc()) > 0) tty_in(tty_devs[0], c)\<close> with \<open>char c\<close>; \<open>tin\<close> is \<open>tty_in\<close>.\<close>

function kbd_handler :: "(u8 \<Rightarrow> 'a \<Rightarrow> 'a kres) \<Rightarrow> kbd \<Rightarrow> 'a \<Rightarrow> (kbd \<times> 'a) kres" where
  "kbd_handler tin k a =
     bnd (kbd_getc k) (\<lambda>(c, k).
     if sint (of_int c :: u8) > 0 then bnd (tin (of_int c) a) (kbd_handler tin k) else Inr (k, a))"
  by pat_completeness auto
termination
proof (relation "measure (\<lambda>(tin, k, a). kbd_work k)")
  fix tin :: "u8 \<Rightarrow> 'a \<Rightarrow> 'a kres" and k a r c k' x
  assume "kbd_getc k = Inr r" "(c, k') = r" "0 < sint (of_int c :: u8)"
  moreover from this have "c \<noteq> - 1" by auto
  ultimately show "((tin, k', x), (tin, k, a)) \<in> measure (\<lambda>(tin, k, a). kbd_work k)" using kbd_getc_work [of k c k'] by auto
qed simp

declare kbd_handler.simps [simp del]

section \<open>Typing\<close>

text \<open>An interrupt of the keyboard, and a sequence of them.\<close>

definition kbd_irq :: "(u8 \<Rightarrow> 'a \<Rightarrow> 'a kres) \<Rightarrow> u8 \<Rightarrow> kbd \<times> 'a \<Rightarrow> (kbd \<times> 'a) kres" where
  "kbd_irq tin sc = (\<lambda>(k, a). kbd_handler tin (k\<lparr>scan := scan k @ [sc]\<rparr>) a)"

fun kbd_irqs :: "(u8 \<Rightarrow> 'a \<Rightarrow> 'a kres) \<Rightarrow> u8 list \<Rightarrow> kbd \<times> 'a \<Rightarrow> (kbd \<times> 'a) kres" where
  "kbd_irqs tin [] s = Inr s"
| "kbd_irqs tin (sc # scs) s = bnd (kbd_irq tin sc s) (kbd_irqs tin scs)"

definition plain_key :: "u8 \<Rightarrow> bool" where
  "plain_key c \<longleftrightarrow> c < 128 \<and> c \<notin> {KLC, KLS, KRS, KLA, KCL, KNL, KSL} \<and> esc_tail c = None \<and> kbd_map ! unat c \<noteq> 0"

text \<open>Pressing and releasing keys, one after the other.\<close>

definition strokes :: "u8 list \<Rightarrow> u8 list" where
  "strokes ks = concat (map (\<lambda>c. [c, c OR 0x80]) ks)"

definition kbd_idle :: "kbd \<Rightarrow> bool" where
  "kbd_idle k \<longleftrightarrow> kbd_stat k AND (KBD_SHIFT OR KBD_CTRL OR KBD_CAPS) = 0 \<and> ko_r k = ko_w k \<and> scan k = []"

lemma low_byte:
  fixes c :: u8
  assumes "c < 128"
  shows "c AND 0x80 = 0" "c AND NOT 0x80 = c" "(c OR 0x80) AND 0x80 \<noteq> 0" "(c OR 0x80) AND NOT 0x80 = c"
proof -
  have "(0x80 :: u8) = 2 ^ 7" by simp
  then have h: "bit (0x80 :: u8) n \<longleftrightarrow> n = 7" for n by (simp only: bit_exp_iff possible_bit_word) auto
  have b: "\<not> bit c 7"
  proof
    assume "bit c 7"
    then have "bit (unat c) 7" by (simp add: bit_simps)
    then have "odd (unat c div 128)" by (simp add: bit_iff_odd)
    moreover have "unat c < 128" using assms by (simp add: word_less_nat_alt)
    ultimately show False by simp
  qed
  show e: "c AND 0x80 = 0" by (rule bit_word_eqI) (simp only: bit_and_iff bit_not_iff bit_or_iff bit_0_eq bot_apply h possible_bit_word, use b in auto)
  show "c AND NOT 0x80 = c" by (rule bit_word_eqI) (simp only: bit_and_iff bit_not_iff bit_or_iff bit_0_eq bot_apply h possible_bit_word, use b in auto)
  have "bit ((c OR 0x80) AND 0x80) 7" by (simp only: bit_and_iff bit_or_iff h simp_thms)
  then show "(c OR 0x80) AND 0x80 \<noteq> 0" by auto
  show "(c OR 0x80) AND NOT 0x80 = c" by (rule bit_word_eqI) (simp only: bit_and_iff bit_not_iff bit_or_iff bit_0_eq bot_apply h possible_bit_word, use b in auto)
qed

lemma mod_bits:
  assumes "kbd_idle k"
  shows "kbd_stat k AND KBD_SHIFT = 0" "kbd_stat k AND KBD_CTRL = 0" "kbd_stat k AND KBD_CAPS = 0"
proof -
  have "kbd_stat k AND KBD_SHIFT OR kbd_stat k AND KBD_CTRL OR kbd_stat k AND KBD_CAPS = 0"
    using assms by (simp add: kbd_idle_def bit.conj_disj_distrib)
  then show "kbd_stat k AND KBD_SHIFT = 0" "kbd_stat k AND KBD_CTRL = 0" "kbd_stat k AND KBD_CAPS = 0"
    by (simp_all add: or_eq_0_iff)
qed

lemma kbd_map_low: "\<forall>c\<in>set kbd_map. c < 128"
  by (simp add: kbd_map_def)

lemma key_char:
  assumes "plain_key c"
  shows "0 < sint (kbd_map ! unat c)"
proof -
  let ?m = "kbd_map ! unat c"
  have "unat c < length kbd_map" using assms by (simp add: plain_key_def kbd_map_def word_less_nat_alt)
  then have "?m < 128" "?m \<noteq> 0" using assms kbd_map_low nth_mem by (auto simp: plain_key_def)
  then have "uint ?m < 128" "0 < uint ?m" by (simp_all add: word_less_def uint_lt_0 word_neq_0_conv)
  moreover have "sint ?m = uint ?m"
  proof -
    have "signed_take_bit 7 (uint ?m) = uint ?m"
      by (rule signed_take_bit_int_eq_self) (use \<open>uint ?m < 128\<close> \<open>0 < uint ?m\<close> in simp_all)
    then show ?thesis by (simp add: sint_uint)
  qed
  ultimately show "0 < sint ?m" by simp
qed

lemma press_release:
  assumes "kbd_idle k" and "plain_key c"
  shows "kbd_irq tin c (k, a) = bnd (tin (kbd_map ! unat c) a) (\<lambda>a. Inr (k, a))"
    and "kbd_irq tin (c OR 0x80) (k, a) = Inr (k, a)"
proof -
  note c = low_byte [of c] and m = mod_bits [OF assms(1)] and ch = key_char [OF assms(2)]
  have p: "c < 128" "c \<notin> {KLC, KLS, KRS, KLA, KCL, KNL, KSL}" "esc_tail c = None" using assms(2) by (simp_all add: plain_key_def)
  have i: "\<not> ko_r k < ko_w k" "scan k = []" "k\<lparr>scan := []\<rparr> = k" using assms(1) by (simp_all add: kbd_idle_def)
  have g1: "kbd_getc (k\<lparr>scan := [c]\<rparr>) = Inr (uint (kbd_map ! unat c), k)"
    using c(1,2) p i m by (simp add: kbd_getc_def kbd_char_def)
  have g2: "kbd_getc k = Inr (- 1, k)" using i by (simp add: kbd_getc_def)
  have g3: "kbd_getc (k\<lparr>scan := [c OR 0x80]\<rparr>) = Inr (0, k)"
    using c(3,4) p i by (simp add: kbd_getc_def)
  have s: "kbd_handler tin k = (\<lambda>a. Inr (k, a))" by (rule ext, subst kbd_handler.simps) (simp add: g2)
  have e: "kbd_irq tin x (k, a) = kbd_handler tin (k\<lparr>scan := [x]\<rparr>) a" for x using i(2) by (simp add: kbd_irq_def)
  show "kbd_irq tin c (k, a) = bnd (tin (kbd_map ! unat c) a) (\<lambda>a. Inr (k, a))"
    unfolding e by (subst kbd_handler.simps) (simp add: g1 ch s)
  show "kbd_irq tin (c OR 0x80) (k, a) = Inr (k, a)"
    unfolding e by (subst kbd_handler.simps) (simp add: g3)
qed

text \<open>The keys reach the terminal as the characters of the map, and the driver is idle again.\<close>

fun each :: "(u8 \<Rightarrow> 'a \<Rightarrow> 'a kres) \<Rightarrow> u8 list \<Rightarrow> 'a \<Rightarrow> 'a kres" where
  "each tin [] a = Inr a"
| "each tin (c # cs) a = bnd (tin c a) (each tin cs)"

lemma strokes_each:
  assumes "kbd_idle k" and "\<forall>c\<in>set ks. plain_key c"
  shows "kbd_irqs tin (strokes ks) (k, a) = bnd (each tin (map (\<lambda>c. kbd_map ! unat c) ks) a) (\<lambda>a. Inr (k, a))"
  using assms(2)
proof (induction ks arbitrary: a)
  case (Cons c ks)
  then have "plain_key c" by simp
  note p = press_release [OF assms(1) this, of tin]
  show ?case using Cons by (simp add: strokes_def p bnd_assoc)
qed (simp add: strokes_def)

lemma tty_ins_each: "tty_ins sw cs s = each (tty_in sw) cs s"
  by (induction cs arbitrary: s) (auto intro!: bnd_cong)

text \<open>
  C29. From the keyboard to the reader. Pressing and releasing any keys that are neither modifiers nor
  cursor keys, on a keyboard with no modifier active and a terminal in canonical mode that a task
  reads from, has the effect of typing the characters of \<open>kbd_map\<close> one after the other: the line that
  is being edited and what the reader gets are those of \<open>type_key\<close>, and the driver is left as it was.
  Every interrupt is handled to its end.
\<close>

theorem keyboard_reaches_reader:
  assumes "kbd_idle k" and "\<forall>c\<in>set ks. plain_key c" and "tty_ok (dev s)" and "flag (c_lflag (tt_termios (dev s))) ICANON"
    and "CTRL 76 \<notin> set (keys_of (dev s) (map (\<lambda>c. kbd_map ! unat c) ks))"
  shows "\<exists>s'. kbd_irqs (tty_in read_task) (strokes ks) (k, s) = Inr (k, s') \<and> tty_ok (dev s') \<and>
    (cur_line (dev s'), env s' @ rb_items (tt_cin (dev s'))) =
      fold (type_key (dev s)) (keys_of (dev s) (map (\<lambda>c. kbd_map ! unat c) ks)) (cur_line (dev s), env s @ rb_items (tt_cin (dev s)))"
  using reader.keys_ok [OF assms(3-5)] strokes_each [OF assms(1,2), of "tty_in read_task" s]
  by (auto simp: tty_ins_each reader.stream_def)

definition sample_kbd :: kbd where
  "sample_kbd = \<lparr>kbd_stat = 0, ko_r = 7, ko_w = 7, ko_buf = replicate 30 0, scan = []\<rparr>"

text \<open>The keys \<open>L\<close>, \<open>S\<close> and Enter.\<close>

theorem keyboard_reaches_reader_witness:
  "\<exists>s'. kbd_irqs (tty_in read_task) [0x26, 0xA6, 0x1F, 0x9F, 0x1C, 0x9C] (sample_kbd, \<lparr>dev = fresh_tty, events = [], env = []\<rparr>) = Inr (sample_kbd, s') \<and>
     env s' @ rb_items (tt_cin (dev s')) = [108, 115, 10]"
proof -
  let ?s = "\<lparr>dev = fresh_tty, events = [], env = []\<rparr> :: u8 list tstate" and ?ks = "[0x26, 0x1F, 0x1C] :: u8 list"
  have i: "kbd_idle sample_kbd" by (simp add: kbd_idle_def sample_kbd_def)
  have p: "\<forall>c\<in>set ?ks. plain_key c"
    by (simp add: plain_key_def esc_tail_def kbd_map_def KLC_def KLS_def KRS_def KLA_def KCL_def KNL_def KSL_def
        KUP_def KDWN_def KRGT_def KLFT_def KPGUP_def KPGDWN_def)
  have m: "map (\<lambda>c. kbd_map ! unat c) ?ks = [108, 115, 13]" by (simp add: kbd_map_def)
  have k: "keys_of fresh_tty [108, 115, 13] = [108, 115, 10]"
    by (simp add: keys_of_def List.map_filter_def tty_translate_def fresh_tty_cc flag_def IGNCR_def INLCR_def ICRNL_def ISTRIP_def)
  have z: "cur_line fresh_tty = []" "rb_items (tt_cin fresh_tty) = []"
    by (simp_all add: fresh_tty_def tty_new_def zero_tty_def tty_set_defaults_def cur_line_def rb_items_def ring_items_def rb_reset_def NTTY_def)
  have f: "fold (type_key fresh_tty) [108, 115, 10] ([], []) = ([], [108, 115, 10])"
    by (simp add: type_key_def is_cc_def fresh_tty_cc TTY_LN_BUF_SIZE_def CTRL_def
        VINTR_def VQUIT_def VERASE_def VKILL_def VEOF_def VSTART_def VSUSP_def VEOL_def VEOL2_def)
  have "CTRL 76 \<notin> set (keys_of (dev ?s) (map (\<lambda>c. kbd_map ! unat c) ?ks))" unfolding m using k by (simp add: CTRL_def)
  from keyboard_reaches_reader [OF i p _ _ this] show ?thesis
    using fresh_tty_ok k z f unfolding m by (auto simp: strokes_def)
qed

text \<open>
  The counters of the buffer for escape sequences are bytes: when the writing one wraps around, the
  rest of the sequence of a cursor key is not sent.
\<close>

lemma cursor_key_lost:
  "\<exists>k'. kbd_getc (sample_kbd\<lparr>ko_r := 254, ko_w := 254, scan := [KUP]\<rparr>) = Inr (27, k') \<and> kbd_getc k' = Inr (- 1, k')"
  by (simp add: kbd_getc_def sample_kbd_def esc_tail_def KBD_BUF_OUT_SZ_def ANSI_ESC_def
      KLC_def KLS_def KRS_def KLA_def KCL_def KNL_def KSL_def KUP_def)

end
