(* ===== verification/Vsscanf.thy ===== *)
theory Vsscanf
  imports Vsnprintf Bytes
begin

text \<open>
  Formatted input (\<open>lib/vsscanf.c\<close>). The text and the format are the bytes from the current position on,
  with their terminators; reading behind the last byte is a fault. The variable arguments are the
  objects their pointers refer to, as byte arrays; a store that does not fit is a fault.
\<close>

section \<open>Characters and numbers\<close>

definition sc_isdigit :: "u8 \<Rightarrow> bool" where
  "sc_isdigit c \<longleftrightarrow> 48 \<le> c \<and> c \<le> 57"

definition sc_isspace :: "u8 \<Rightarrow> bool" where
  "sc_isspace c \<longleftrightarrow> c \<in> {32, 12, 10, 13, 9, 11}"

fun skip_space :: "u8 list \<Rightarrow> u8 list kres" where
  "skip_space [] = Inl Fault"
| "skip_space (c # s) = (if sc_isspace c then skip_space s else Inr (c # s))"

definition valid_sint :: "u8 \<Rightarrow> nat \<Rightarrow> bool \<Rightarrow> int" where
  "valid_sint c base sign =
     (if base = 2 \<and> 48 \<le> c \<and> c < 50 then 0
      else if base = 8 \<and> 48 \<le> c \<and> c < 56 then 0
      else if base = 10 \<and> (48 \<le> c \<and> c \<le> 57 \<or> sign \<and> (c = 45 \<or> c = 43)) then 0
      else if base = 16 \<and> (48 \<le> c \<and> c \<le> 57 \<or> 97 \<le> c \<and> c \<le> 102 \<or> 65 \<le> c \<and> c \<le> 70) then 0
      else - 1)"

text \<open>The value of a digit (lines 142 to 154), \<open>None\<close> if the number ends here.\<close>

definition digit_val :: "nat \<Rightarrow> u8 \<Rightarrow> int option" where
  "digit_val base c =
     (let k = (if sint c \<ge> 97 then c - 32 else c) in
      if \<not> sc_isdigit k \<and> (base \<noteq> 16 \<or> sint k < 65 \<or> sint k > 70) then None
      else if base = 2 \<and> sint k > 49 then None
      else if base = 8 \<and> sint k > 55 then None
      else Some (if base = 16 \<and> sint k \<ge> 65 then sint k - 55 else sint k - 48))"

text \<open>The loop of \<open>get_int\<close>. A number beyond the range of \<open>long long\<close> is undefined in C and a fault here.\<close>

fun get_int_loop :: "bool \<Rightarrow> nat \<Rightarrow> bool \<Rightarrow> bool \<Rightarrow> bool \<Rightarrow> int \<Rightarrow> int \<Rightarrow> u8 list \<Rightarrow> (bool \<times> int \<times> u8 list) kres" where
  "get_int_loop w base sign neg xskip width n [] = Inl Fault"
| "get_int_loop w base sign neg xskip width n (c # s) =
     (if c = 0 then Inr (neg, n, c # s)
      else if sign \<and> \<not> neg \<and> base = 10 \<and> c = 45 then
        get_int_loop w base sign True xskip (if w then width - 1 else width) n s
      else if base = 16 \<and> \<not> xskip \<and> (c = 120 \<or> c = 88) then get_int_loop w base sign neg True width 0 s
      else if w \<and> width = 0 then Inr (neg, n, c # s)
      else case digit_val base c of
        None \<Rightarrow> Inr (neg, n, c # s)
      | Some d \<Rightarrow>
          if n * int base + d < 2 ^ 63
          then get_int_loop w base sign neg xskip (if w then width - 1 else width) (n * int base + d) s else Inl Fault)"

definition get_int :: "u8 list \<Rightarrow> int \<Rightarrow> nat \<Rightarrow> bool \<Rightarrow> (int \<times> u8 list) kres" where
  "get_int s width base sign =
     (if base \<notin> {2, 8, 10, 16} then Inr (0, s)
      else bnd (get_int_loop (width > 0) base sign False False width 0 s) (\<lambda>(neg, n, s).
        Inr (if neg \<and> n > 0 then - n else n, s)))"

section \<open>Strings and sets of characters\<close>

text \<open>The characters \<open>get_str\<close> takes and the rest of the text; \<open>cset\<close> is \<open>None\<close> for \<open>%s\<close>.\<close>

fun get_str_loop :: "bool \<Rightarrow> bool list option \<Rightarrow> int \<Rightarrow> u8 list \<Rightarrow> (u8 list \<times> u8 list) kres" where
  "get_str_loop w cset width [] = Inl Fault"
| "get_str_loop w cset width (c # s) =
     (if c = 0 \<or> w \<and> width = 0 \<or> (case cset of None \<Rightarrow> sc_isspace c | Some st \<Rightarrow> \<not> st ! unat c) then Inr ([], c # s)
      else bnd (get_str_loop w cset (if w then width - 1 else width) s) (\<lambda>(cs, r). Inr (c # cs, r)))"

text \<open>The caller stores the characters and a terminator, unless the pointer is NULL.\<close>

definition get_str :: "u8 list \<Rightarrow> bool list option \<Rightarrow> int \<Rightarrow> (u8 list \<times> u8 list) kres" where
  "get_str s cset width = get_str_loop (width > 0) cset width s"

definition set_range :: "nat \<Rightarrow> nat \<Rightarrow> bool \<Rightarrow> bool list \<Rightarrow> bool list" where
  "set_range lo hi v st = fold (\<lambda>i st. st[i := v]) [lo..<Suc hi] st"

fun set_loop :: "bool \<Rightarrow> u8 \<Rightarrow> u8 list \<Rightarrow> bool list \<Rightarrow> (int \<times> bool list \<times> u8 list) kres" where
  "set_loop neg prev [] st = Inl Fault"
| "set_loop neg prev (c # f) st =
     (if c = 0 then Inr (- 1, st, c # f)
      else if c = 45 then
        (case f of [] \<Rightarrow> Inl Fault
         | nx # f' \<Rightarrow> set_loop neg c f
             (if prev = 91 \<or> nx = 93 then st[unat c := \<not> neg] else set_range (unat prev) (unat nx) (\<not> neg) st))
      else if c = 93 then Inr (0, st, c # f)
      else set_loop neg c f (st[unat c := \<not> neg]))"

definition build_set :: "u8 list \<Rightarrow> (int \<times> bool list \<times> u8 list) kres" where
  "build_set fmt =
     bnd (aget fmt 0) (\<lambda>c.
     if c \<noteq> 91 then Inr (- 1, [], tl fmt)
     else
       bnd (aget fmt 1) (\<lambda>d.
       if d = 94 then
         bnd (aget fmt 2) (\<lambda>e.
         if e = 93 then set_loop True 93 (drop 3 fmt) (replicate 256 True)
         else set_loop True 94 (drop 2 fmt) (replicate 256 True))
       else set_loop False 91 (drop 1 fmt) (replicate 256 False)))"

section \<open>The conversions\<close>

datatype sstate = SS_DEFAULT | SS_FLAGS | SS_WIDTH | SS_LENGTH | SS_CONV

record scanner =
  sc_state :: sstate
  sc_skip :: bool
  sc_alloc :: bool
  sc_width :: int
  sc_lflags :: u32
  sc_fmt :: "u8 list"
  sc_str :: "u8 list"
  sc_n :: nat
  sc_args :: "u8 list list"
  sc_done :: "u8 list list"

text \<open>\<open>k\<close> bytes of a number, the lowest first.\<close>

definition le_bytes :: "nat \<Rightarrow> int \<Rightarrow> u8 list" where
  "le_bytes k n = map (\<lambda>i. of_int (n div 256 ^ i)) [0..<k]"

definition num_size :: "u32 \<Rightarrow> nat" where
  "num_size lflags = (if lflags = L_DOUBLE \<or> lflags = L_LLONG then 8 else if lflags = L_LONG then 4 else if lflags = L_SHORT then 2
     else if lflags = L_CHAR then 1 else 4)"

text \<open>\<open>va_arg\<close>, a store to the object, and the count of the items.\<close>

definition put_arg :: "bool \<Rightarrow> u8 list \<Rightarrow> scanner \<Rightarrow> scanner kres" where
  "put_arg counted bs s = (case sc_args s of
     [] \<Rightarrow> Inl Fault
   | b # as \<Rightarrow>
       if length bs \<le> length b then
         Inr (s\<lparr>sc_args := as, sc_done := sc_done s @ [splice b 0 bs], sc_n := if counted then sc_n s + 1 else sc_n s\<rparr>)
       else Inl Fault)"

definition conv_num :: "u8 \<Rightarrow> scanner \<Rightarrow> (bool \<times> scanner) kres" where
  "conv_num f s =
     (let sign = (f = 100 \<or> f = 105);
          base = (if f = 98 then 2 else if f = 111 then 8 else if f = 120 \<or> f = 88 then 16 else 10) in
      bnd (skip_space (sc_str s)) (\<lambda>str.
      bnd (aget str 0) (\<lambda>c.
      if valid_sint c base sign < 0 then Inr (False, s\<lparr>sc_str := str\<rparr>)
      else
        bnd (get_int str (sc_width s) base sign) (\<lambda>(num, str).
        let s = s\<lparr>sc_str := str\<rparr> in
        if sc_skip s then Inr (True, s)
        else bnd (put_arg True (le_bytes (num_size (sc_lflags s)) num) s) (\<lambda>s. Inr (True, s))))))"

definition conv_str :: "bool list option \<Rightarrow> bool \<Rightarrow> scanner \<Rightarrow> (bool \<times> scanner) kres" where
  "conv_str cset counted s =
     bnd (get_str (sc_str s) cset (sc_width s)) (\<lambda>(cs, str).
     let s = s\<lparr>sc_str := str\<rparr> in
     if sc_skip s then Inr (True, s) else bnd (put_arg counted (cs @ [0]) s) (\<lambda>s. Inr (True, s)))"

text \<open>
  The branch \<open>state == S_CONV\<close> for the character \<open>f\<close> of the format. \<open>strchr\<close> also finds the terminator of
  its string, so the end of the format counts as a conversion of a number. \<open>False\<close>: leave the loop.
\<close>

definition conv_char :: "u8 \<Rightarrow> scanner \<Rightarrow> (bool \<times> scanner) kres" where
  "conv_char f s =
     (let s1 = s\<lparr>sc_state := SS_DEFAULT\<rparr> in
      if f \<in> set [100, 111, 117, 105, 120, 88, 98, 0] then conv_num f s1
      else if f = 99 then
        bnd (aget (sc_str s) 0) (\<lambda>c.
        let s1 = s1\<lparr>sc_str := tl (sc_str s)\<rparr> in
        if sc_skip s then Inr (True, s1) else bnd (put_arg True [c] s1) (\<lambda>s. Inr (True, s)))
      else if f = 115 then conv_str None True s1
      else if f = 91 then
        bnd (build_set (sc_fmt s)) (\<lambda>(r, st, fmt).
        if r < 0 then Inr (False, s1\<lparr>sc_fmt := fmt\<rparr>) else conv_str (Some st) False (s1\<lparr>sc_fmt := fmt\<rparr>))
      else if f = 37 then
        bnd (aget (sc_str s) 0) (\<lambda>c. if c \<noteq> 37 then Inr (False, s1) else Inr (True, s1\<lparr>sc_str := tl (sc_str s)\<rparr>))
      else Inr (False, s))"

definition len_state :: "u8 \<Rightarrow> scanner \<Rightarrow> scanner" where
  "len_state f s =
     (if f = 104 then s\<lparr>sc_lflags := if sc_lflags s = L_CHAR then L_SHORT else L_CHAR\<rparr>
      else if f = 108 then s\<lparr>sc_lflags := if sc_lflags s = L_LONG then L_LLONG else L_LONG\<rparr>
      else if f = 76 then s\<lparr>sc_lflags := L_DOUBLE\<rparr>
      else s\<lparr>sc_state := SS_CONV\<rparr>)"

definition flags_state :: "u8 \<Rightarrow> scanner \<Rightarrow> scanner" where
  "flags_state f s =
     (if f = 42 then s\<lparr>sc_skip := True, sc_alloc := False\<rparr>
      else if f = 109 then if sc_skip s then s else s\<lparr>sc_alloc := True\<rparr>
      else s\<lparr>sc_width := 0, sc_state := SS_WIDTH\<rparr>)"

definition width_state :: "u8 \<Rightarrow> scanner \<Rightarrow> scanner kres" where
  "width_state f s =
     bnd (if sc_isdigit f \<and> f > 48 then get_int (sc_fmt s) 0 10 False else Inr (sc_width s, sc_fmt s)) (\<lambda>(wd, fmt).
     Inr (s\<lparr>sc_width := sint (of_int wd :: u32), sc_fmt := fmt, sc_lflags := 0, sc_state := SS_LENGTH\<rparr>))"

text \<open>One round of the loop; the states fall through to the next one.\<close>

definition scan_step :: "scanner \<Rightarrow> (bool \<times> scanner) kres" where
  "scan_step s =
     bnd (aget (sc_fmt s) 0) (\<lambda>f.
     if sc_state s = SS_DEFAULT then
       (if f = 37 then Inr (True, s\<lparr>sc_skip := False, sc_alloc := False, sc_state := SS_FLAGS\<rparr>)
        else if sc_isspace f then bnd (skip_space (sc_str s)) (\<lambda>str. Inr (True, s\<lparr>sc_str := str\<rparr>))
        else bnd (aget (sc_str s) 0) (\<lambda>c. Inr (f = c, s\<lparr>sc_str := tl (sc_str s)\<rparr>)))
     else
       let s = (if sc_state s = SS_FLAGS then flags_state f s else s) in
       bnd (if sc_state s = SS_WIDTH then width_state f s else Inr s) (\<lambda>s.
       bnd (aget (sc_fmt s) 0) (\<lambda>f.
       let s = (if sc_state s = SS_LENGTH then len_state f s else s) in
       if sc_state s = SS_CONV then conv_char f s else Inr (True, s))))"

section \<open>The loop\<close>

lemma get_int_loop_shorter: "get_int_loop w base sign neg xskip width n s = Inr (neg', m, r) \<Longrightarrow> length r \<le> length s"
  by (induction w base sign neg xskip width n s rule: get_int_loop.induct) (auto split: if_splits option.splits)

lemma get_int_shorter: "get_int s width base sign = Inr (m, r) \<Longrightarrow> length r \<le> length s"
  using get_int_loop_shorter by (auto simp: get_int_def bnd_eq_Inr split: if_splits)

lemma set_loop_shorter: "set_loop neg prev f st = Inr (r, st', f') \<Longrightarrow> length f' \<le> length f"
proof (induction neg prev f st rule: set_loop.induct)
  case (2 neg prev c f st)
  then show ?case by (auto split: if_splits list.splits)
qed simp

lemma build_set_shorter: "build_set f = Inr (r, st, f') \<Longrightarrow> length f' \<le> length f"
  by (auto simp: build_set_def bnd_eq_Inr split: if_splits dest!: set_loop_shorter)

lemma put_arg_fmt: "put_arg b bs s = Inr s' \<Longrightarrow> sc_fmt s' = sc_fmt s"
  by (auto simp: put_arg_def split: list.splits if_splits)

lemma conv_num_fmt: "conv_num f s = Inr (b, s') \<Longrightarrow> sc_fmt s' = sc_fmt s"
  by (auto simp: conv_num_def Let_def bnd_eq_Inr split: if_splits dest!: put_arg_fmt)

lemma conv_str_fmt: "conv_str cset b s = Inr (g, s') \<Longrightarrow> sc_fmt s' = sc_fmt s"
  by (auto simp: conv_str_def Let_def bnd_eq_Inr split: if_splits dest!: put_arg_fmt)

lemma conv_char_shorter: "conv_char f s = Inr (b, s') \<Longrightarrow> length (sc_fmt s') \<le> length (sc_fmt s)"
proof -
  assume a: "conv_char f s = Inr (b, s')"
  consider (num) "f \<in> set [100, 111, 117, 105, 120, 88, 98, 0]" | (set) "f = 91" | (other) "f \<notin> set [100, 111, 117, 105, 120, 88, 98, 0]" "f \<noteq> 91" by blast
  then show ?thesis
  proof cases
    case num
    then have "conv_num f (s\<lparr>sc_state := SS_DEFAULT\<rparr>) = Inr (b, s')" using a unfolding conv_char_def Let_def by (simp only: if_True)
    from conv_num_fmt [OF this] show ?thesis by simp
  next
    case set
    then obtain r st fmt where "build_set (sc_fmt s) = Inr (r, st, fmt)"
      "(if r < 0 then Inr (False, s\<lparr>sc_state := SS_DEFAULT, sc_fmt := fmt\<rparr>) else conv_str (Some st) False (s\<lparr>sc_state := SS_DEFAULT, sc_fmt := fmt\<rparr>)) = Inr (b, s')"
      using a by (auto simp: conv_char_def bnd_eq_Inr Let_def)
    then show ?thesis using build_set_shorter conv_str_fmt by (fastforce split: if_splits)
  next
    case other
    then have "sc_fmt s' = sc_fmt s"
      using a unfolding conv_char_def Let_def
      by (auto simp: bnd_eq_Inr split: if_splits dest!: conv_str_fmt put_arg_fmt)
    then show ?thesis by simp
  qed
qed

lemma flags_state_fmt [simp]: "sc_fmt (flags_state f s) = sc_fmt s"
  by (simp add: flags_state_def)

lemma len_state_fmt [simp]: "sc_fmt (len_state f s) = sc_fmt s"
  by (simp add: len_state_def)

lemma width_state_shorter: "width_state f s = Inr s' \<Longrightarrow> length (sc_fmt s') \<le> length (sc_fmt s)"
  by (auto simp: width_state_def bnd_eq_Inr split: if_splits dest!: get_int_shorter)

lemma scan_step_shorter:
  assumes "scan_step s = Inr (b, s')"
  shows "length (sc_fmt s') \<le> length (sc_fmt s)"
proof (cases "sc_state s = SS_DEFAULT")
  case True
  then show ?thesis using assms by (auto simp: scan_step_def bnd_eq_Inr split: if_splits)
next
  case False
  obtain f where f: "aget (sc_fmt s) 0 = Inr f" using assms by (auto simp: scan_step_def bnd_eq_Inr)
  define s1 where "s1 = (if sc_state s = SS_FLAGS then flags_state f s else s)"
  obtain s2 g where s2: "(if sc_state s1 = SS_WIDTH then width_state f s1 else Inr s1) = Inr s2" and g: "aget (sc_fmt s2) 0 = Inr g"
    and r: "(let s = (if sc_state s2 = SS_LENGTH then len_state g s2 else s2) in if sc_state s = SS_CONV then conv_char g s else Inr (True, s)) = Inr (b, s')"
    using assms False f unfolding scan_step_def s1_def by (auto simp: bnd_eq_Inr Let_def)
  define s3 where "s3 = (if sc_state s2 = SS_LENGTH then len_state g s2 else s2)"
  have "(if sc_state s3 = SS_CONV then conv_char g s3 else Inr (True, s3)) = Inr (b, s')" using r unfolding s3_def Let_def .
  then have "length (sc_fmt s') \<le> length (sc_fmt s3)" using conv_char_shorter by (auto split: if_splits)
  also have "sc_fmt s3 = sc_fmt s2" by (simp add: s3_def)
  also have "length (sc_fmt s2) \<le> length (sc_fmt s1)" using s2 width_state_shorter by (auto split: if_splits)
  finally show ?thesis by (simp add: s1_def split: if_splits)
qed

function scan_loop :: "scanner \<Rightarrow> scanner kres" where
  "scan_loop s =
     bnd (aget (sc_fmt s) 0) (\<lambda>f.
     if f = 0 then Inr s
     else
       bnd (aget (sc_str s) 0) (\<lambda>c.
       if c = 0 then Inr s
       else
         bnd (scan_step s) (\<lambda>(go, s).
         if go then if sc_fmt s = [] then Inl Fault else scan_loop (s\<lparr>sc_fmt := tl (sc_fmt s)\<rparr>) else Inr s)))"
  by pat_completeness auto
termination
proof (relation "measure (\<lambda>s. length (sc_fmt s))")
  fix s f c r go s'
  assume "scan_step s = Inr r" "(go, s') = r" "sc_fmt s' \<noteq> []"
  moreover from this have "length (sc_fmt s') \<le> length (sc_fmt s)" using scan_step_shorter by metis
  moreover have "length (sc_fmt s') > 0" using \<open>sc_fmt s' \<noteq> []\<close> by simp
  ultimately show "(s'\<lparr>sc_fmt := tl (sc_fmt s')\<rparr>, s) \<in> measure (\<lambda>s. length (sc_fmt s))" by (cases "sc_fmt s'") auto
qed simp

declare scan_loop.simps [simp del]

definition scan_start :: "u8 list \<Rightarrow> u8 list \<Rightarrow> u8 list list \<Rightarrow> scanner" where
  "scan_start str fmt args = \<lparr>sc_state = SS_DEFAULT, sc_skip = False, sc_alloc = False, sc_width = 0, sc_lflags = 0, sc_fmt = fmt,
     sc_str = str, sc_n = 0, sc_args = args, sc_done = []\<rparr>"

text \<open>The number of items and the objects as they are afterwards.\<close>

definition vsscanf :: "u8 list \<Rightarrow> u8 list option \<Rightarrow> u8 list list \<Rightarrow> (nat \<times> u8 list list) kres" where
  "vsscanf str fmt args = (case fmt of
     None \<Rightarrow> Inr (0, args)
   | Some fmt \<Rightarrow> bnd (scan_loop (scan_start str fmt args)) (\<lambda>s. Inr (sc_n s, sc_done s @ sc_args s)))"

section \<open>Reading back what was printed\<close>

lemma digit_char_cases: "d < 10 \<Longrightarrow> P (digit_char False d) \<longleftrightarrow> P (48 + of_nat d)"
  by (simp add: digit_char_def)

lemma digit_val_digit:
  assumes "d < 10"
  shows "digit_val 10 (digit_char False d) = Some (int d)" "digit_char False d \<noteq> 0" "digit_char False d \<noteq> 45" "\<not> sc_isspace (digit_char False d)"
    "valid_sint (digit_char False d) 10 True = 0"
proof -
  have "d \<in> {0, 1, 2, 3, 4, 5, 6, 7, 8, 9}" using assms by auto
  then show "digit_val 10 (digit_char False d) = Some (int d)" "digit_char False d \<noteq> 0" "digit_char False d \<noteq> 45" "\<not> sc_isspace (digit_char False d)"
    "valid_sint (digit_char False d) 10 True = 0"
    by (auto simp: digit_val_def digit_char_def sc_isdigit_def sc_isspace_def valid_sint_def)
qed

lemma get_int_digits:
  assumes "n < 2 ^ 63"
  shows "get_int_loop False 10 True neg False 0 0 (chars (digits_loop 10 n) @ ys) = get_int_loop False 10 True neg False 0 (int n) ys"
  using assms
proof (induction n arbitrary: ys rule: less_induct)
  case (less n)
  define d where "d = digit_char False (n mod 10)"
  note v = digit_val_digit [of "n mod 10", folded d_def, simplified]
  have n: "int (n div 10) * 10 + int (n mod 10) = int n"
    by (metis div_mult_mod_eq of_nat_add of_nat_mult of_nat_numeral)
  have "int n < 2 ^ 63" using less.prems by simp
  then have step: "get_int_loop False 10 True neg False 0 (int (n div 10)) (d # ys) = get_int_loop False 10 True neg False 0 (int n) ys"
    using v(1-3) n by simp
  show ?case
  proof (cases "n div 10 > 0")
    case True
    have "get_int_loop False 10 True neg False 0 0 (chars (digits_loop 10 (n div 10)) @ d # ys) =
      get_int_loop False 10 True neg False 0 (int (n div 10)) (d # ys)"
      using True less.prems by (intro less.IH) (auto simp: div_greater_zero_iff)
    then show ?thesis using True step by (simp add: digits_loop.simps [of 10 n] d_def)
  next
    case False
    then show ?thesis using step by (simp add: digits_loop.simps [of 10 n] d_def)
  qed
qed

lemma first_digit: "\<exists>d ds. d < 10 \<and> chars (digits_loop 10 n) = digit_char False d # ds"
proof (induction n rule: less_induct)
  case (less n)
  show ?case
  proof (cases "n div 10 > 0")
    case True
    with less.IH [of "n div 10"] obtain d ds where "d < 10" "chars (digits_loop 10 (n div 10)) = digit_char False d # ds"
      by (auto simp: div_greater_zero_iff)
    then show ?thesis using True by (auto simp: digits_loop.simps [of 10 n])
  next
    case False
    have "n mod 10 < 10" by simp
    then show ?thesis using False by (auto simp: digits_loop.simps [of 10 n])
  qed
qed

text \<open>The text of a number printed with \<open>%d\<close>.\<close>

definition decimal :: "int \<Rightarrow> u8 list" where
  "decimal i = (if i < 0 then [45] else []) @ chars (digits_loop 10 (nat \<bar>i\<bar>))"

lemma fmt_int_decimal: "fmt_int (scast (w :: u32)) 10 0 F_SIGNED = decimal (sint w)"
proof (cases "0 \<le> sint w")
  case True
  have "uint w = sint w"
    using uint_sint [of w] take_bit_int_eq_self [of "sint w" 32] True sint_less [of w] by simp
  then have "nat \<bar>sint w\<bar> = unat w" by (metis True abs_of_nonneg nat_uint_eq)
  then show ?thesis using True fmt_int_plain [OF True] by (simp add: decimal_def)
next
  case False
  have s: "sint (scast w :: u64) = sint w"
    using sint_greater_eq [of w] sint_less [of w] by (simp add: signed_scast_eq signed_take_bit_int_eq_self)
  have m: "ucast (- (scast w :: u64)) = - w"
  proof -
    have "scast w = (of_int (sint w) :: u64)" by simp
    then have "- (scast w :: u64) = of_int (- sint w)" by simp
    moreover have "ucast (of_int k :: u64) = (of_int k :: u32)" for k by (rule bit_word_eqI) (simp add: bit_simps)
    ultimately have "ucast (- (scast w :: u64)) = (of_int (- sint w) :: u32)" by (simp only:)
    then show ?thesis by simp
  qed
  have u: "unat (- w) = nat (- sint w)"
  proof -
    have "- w = of_int (- sint w)" by simp
    moreover have "0 \<le> - sint w" "- sint w < 2 ^ 32" using False sint_greater_eq [of w] by simp_all
    ultimately have "uint (- w) = - sint w" by (simp only: unsigned_of_int) (simp add: take_bit_int_eq_self)
    then show ?thesis by (metis nat_uint_eq)
  qed
  show ?thesis
    using False m u unfolding fmt_int_def Let_def s
    by (simp add: F_SIGNED_def F_SMALL_def F_LEFT_def F_ZEROPAD_def F_PLUS_def F_SPACE_def F_ALTERNATE_def rev_map decimal_def abs_if)
qed

lemma get_int_decimal:
  assumes "- (2 ^ 62) < i" and "i < 2 ^ 62"
  shows "get_int (decimal i @ 0 # ys) 0 10 True = Inr (i, 0 # ys)"
proof -
  have n: "nat \<bar>i\<bar> < 2 ^ 63" using assms by (auto simp: nat_less_iff)
  have "get_int_loop False 10 True (i < 0) False 0 0 (chars (digits_loop 10 (nat \<bar>i\<bar>)) @ 0 # ys) = Inr (i < 0, \<bar>i\<bar>, 0 # ys)"
    using get_int_digits [OF n, of "i < 0" "0 # ys"] by simp
  then show ?thesis by (cases "i < 0") (simp_all add: get_int_def decimal_def)
qed

lemma first_decimal:
  "\<exists>c cs. decimal i = c # cs \<and> c \<noteq> 0 \<and> \<not> sc_isspace c \<and> valid_sint c 10 True = 0"
proof (cases "i < 0")
  case True
  then show ?thesis by (simp add: decimal_def sc_isspace_def valid_sint_def)
next
  case False
  obtain d and ds :: "u8 list" where "d < 10" "chars (digits_loop 10 (nat \<bar>i\<bar>)) = digit_char False d # ds"
    using first_digit [of "nat \<bar>i\<bar>"] by auto
  then show ?thesis using False digit_val_digit [of d] by (simp add: decimal_def)
qed

lemma length_decimal: "\<bar>i\<bar> < 10 ^ 10 \<Longrightarrow> length (decimal i) \<le> 11"
  using length_digits [of "nat \<bar>i\<bar>" 10] by (auto simp: decimal_def nat_less_iff)

lemma le_bytes_le32: "le_bytes 4 (sint w) = le32 w"
proof -
  have "of_int (sint w div 2 ^ m) = (ucast (drop_bit m w) :: u8)" if "m \<le> 24" for m
  proof (rule bit_word_eqI)
    fix n
    assume "n < LENGTH(8)"
    then have "m + n = 31 \<or> m + n < 31" using that by auto
    then show "bit (of_int (sint w div 2 ^ m) :: u8) n = bit (ucast (drop_bit m w) :: u8) n"
      using \<open>n < LENGTH(8)\<close> by (auto simp: bit_simps drop_bit_eq_div [symmetric] min_def)
  qed
  from this [of 0] this [of 8] this [of 16] this [of 24] show ?thesis by (simp add: le_bytes_def le32_def numeral_eq_Suc)
qed

text \<open>Scanning a decimal number with \<open>%d\<close>.\<close>

lemma vsscanf_decimal:
  assumes "4 \<le> length dst"
  shows "vsscanf (decimal (sint w) @ 0 # ys) (Some [37, 100, 0]) [dst] = Inr (1, [splice dst 0 (le32 w)])"
proof -
  obtain c cs where d: "decimal (sint w) = c # cs" "c \<noteq> 0" "\<not> sc_isspace c" "valid_sint c 10 True = 0" using first_decimal by blast
  have g: "get_int (c # cs @ 0 # ys) 0 10 True = Inr (sint w, 0 # ys)"
    using get_int_decimal [of "sint w" ys] sint_greater_eq [of w] sint_less [of w] d(1) by simp
  define s1 where "s1 = (scan_start (c # cs @ 0 # ys) [37, 100, 0] [dst])\<lparr>sc_fmt := [100, 0], sc_state := SS_FLAGS\<rparr>"
  have "scan_loop (scan_start (c # cs @ 0 # ys) [37, 100, 0] [dst]) = scan_loop s1"
    using d(2) by (subst scan_loop.simps) (simp add: scan_step_def scan_start_def s1_def aget_def)
  also have "scan_step s1 = Inr (True, s1\<lparr>sc_width := 0, sc_lflags := 0, sc_state := SS_DEFAULT, sc_str := 0 # ys, sc_args := [],
      sc_done := [splice dst 0 (le32 w)], sc_n := 1\<rparr>)"
    using d g assms le_bytes_le32 [of w]
    by (simp add: scan_step_def s1_def scan_start_def aget_def flags_state_def width_state_def len_state_def conv_char_def conv_num_def put_arg_def
        sc_isdigit_def num_size_def L_DOUBLE_def L_LLONG_def L_LONG_def L_SHORT_def L_CHAR_def Let_def)
  then have "scan_loop s1 = Inr (s1\<lparr>sc_fmt := [0], sc_width := 0, sc_lflags := 0, sc_state := SS_DEFAULT, sc_str := 0 # ys, sc_args := [],
      sc_done := [splice dst 0 (le32 w)], sc_n := 1\<rparr>)"
    using d(2) by (subst scan_loop.simps, subst scan_loop.simps) (simp add: s1_def scan_start_def aget_def)
  finally show ?thesis using d(1) by (simp add: vsscanf_def s1_def scan_start_def)
qed

text \<open>
  C31. What \<open>vsnprintf\<close> prints with \<open>%d\<close>, \<open>vsscanf\<close> reads back with \<open>%d\<close>: for every one of the \<open>2^32\<close> values of an
  \<open>int\<close>, negative ones and the smallest one included, the scanner returns 1 and stores exactly the four
  bytes of the number, when the buffer has room for the twelve bytes a number may take.
\<close>

theorem printf_scanf_roundtrip:
  assumes "12 \<le> unat sz" and "unat sz \<le> length b" and "4 \<le> length dst"
  shows "\<exists>n b'. vsnprintf (Some b) sz [37, 100, 0] [Int32 w] = Inr (n, b') \<and>
    vsscanf b' (Some [37, 100, 0]) [dst] = Inr (1, [splice dst 0 (le32 w)])"
proof -
  let ?d = "decimal (sint w)"
  have len: "length ?d \<le> 11" using length_decimal [of "sint w"] sint_greater_eq [of w] sint_less [of w] by simp
  have tx: "text_of (start [37, 100, 0] [Int32 w]) = Inr (?d @ [0])"
    using text_of_decimal [of w] fmt_int_decimal [of w] by simp
  have m: "min (length ?d) (unat sz - 1) = length ?d" using len assms(1) by simp
  have "0 < sz" using assms(1) by (simp add: word_less_nat_alt)
  then have "vsnprintf (Some b) sz [37, 100, 0] [Int32 w] = Inr (int (length ?d), ?d @ [0] @ drop (Suc (length ?d)) b)"
    using vsnprintf_text [OF tx _ _ assms(2) m [symmetric]] len by simp
  then show ?thesis using vsscanf_decimal [OF assms(3)] by simp
qed

theorem printf_scanf_roundtrip_witness:
  "\<exists>n b'. vsnprintf (Some (replicate 12 0)) 12 [37, 100, 0] [Int32 0x80000000] = Inr (n, b') \<and>
     vsscanf b' (Some [37, 100, 0]) [[1, 2, 3, 4, 5]] = Inr (1, [[0, 0, 0, 0x80, 5]])"
proof -
  have "splice [1, 2, 3, 4, 5] 0 (le32 0x80000000) = [0, 0, 0, 0x80, 5]" by code_simp
  then show ?thesis
    using printf_scanf_roundtrip [where sz = 12 and b = "replicate 12 0" and dst = "[1, 2, 3, 4, 5]" and w = "0x80000000"] by simp
qed

text \<open>
  The lengths \<open>h\<close> and \<open>hh\<close> are exchanged, a minus sign is accepted inside a number, a plus sign makes the
  number 0, a set of characters does not count as an item, and a format that ends after a width is
  read behind its end.
\<close>

lemma hh_stores_two_bytes: "num_size (sc_lflags (len_state 104 (len_state 104 s))) = 2" if "sc_lflags s = 0"
  using that by (simp add: num_size_def len_state_def L_DOUBLE_def L_LLONG_def L_LONG_def L_SHORT_def L_CHAR_def)

lemma minus_inside_number: "get_int [49, 45, 50, 0] 0 10 True = Inr (- 12, [0])"
  by (simp add: get_int_def digit_val_def sc_isdigit_def)

lemma plus_reads_zero: "valid_sint 43 10 True = 0 \<and> get_int [43, 53, 0] 0 10 True = Inr (0, [43, 53, 0])"
  by (simp add: valid_sint_def get_int_def digit_val_def sc_isdigit_def)

lemma width_at_end_overreads: "vsscanf [55, 0] (Some [37, 53, 0]) [[0, 0, 0, 0]] = Inl Fault"
  by code_simp

end
