(* ===== verification/Dns.thy ===== *)
theory Dns
  imports Udp
begin

text \<open>
  The DNS client (\<open>dns.c\<close>): names in the format of the messages, the query that is sent, and the parser of
  the response. A message is the array \<open>buf\<close> of 512 bytes on the stack of \<open>dns_send\<close> or \<open>dns_recv\<close>; the
  header is at offset 0, in network format when it is sent or received and in host format in between.

  A loop over a name in a message may not end. Such code gives an \<open>option\<close>: \<open>None\<close> says that it does not
  return. What \<open>malloc\<close> returns is a parameter \<open>alloc\<close> (the bytes of the new object, or \<open>None\<close>).
\<close>

definition dbnd :: "'a kres option \<Rightarrow> ('a \<Rightarrow> 'b kres option) \<Rightarrow> 'b kres option" where
  "dbnd m f = (case m of None \<Rightarrow> None | Some (Inl e) \<Rightarrow> Some (Inl e) | Some (Inr x) \<Rightarrow> f x)"

lemma dbnd_simps [simp]: "dbnd None f = None" "dbnd (Some (Inl e)) f = Some (Inl e)" "dbnd (Some (Inr x)) f = f x"
  by (simp_all add: dbnd_def)

definition DNS_T_A :: u16 where "DNS_T_A = 1"
definition DNS_T_NS :: u16 where "DNS_T_NS = 2"
definition DNS_T_CNAME :: u16 where "DNS_T_CNAME = 5"
definition DNS_T_MX :: u16 where "DNS_T_MX = 15"
definition DNS_T_TXT :: u16 where "DNS_T_TXT = 16"
definition DNS_RC_OK :: u16 where "DNS_RC_OK = 0"
definition DNS_C_IN :: u16 where "DNS_C_IN = 1"
definition DNS_SRV_PORT :: u16 where "DNS_SRV_PORT = 53"
definition MAX_DNS_SERVERS :: nat where "MAX_DNS_SERVERS = 4"
definition DNS_SIZE :: nat where "DNS_SIZE = 12"

section \<open>The servers\<close>

fun dns_add_loop :: "u32 \<Rightarrow> nat \<Rightarrow> u32 list \<Rightarrow> (int \<times> u32 list) kres" where
  "dns_add_loop ip 0 srv = Inr (- 1, srv)"
| "dns_add_loop ip (Suc k) srv =
     bnd (aget srv (MAX_DNS_SERVERS - Suc k)) (\<lambda>s.
     if s = 0 then Inr (0, srv[MAX_DNS_SERVERS - Suc k := ip]) else dns_add_loop ip k srv)"

definition dns_add :: "u32 \<Rightarrow> u32 list \<Rightarrow> (int \<times> u32 list) kres" where
  "dns_add ip srv = dns_add_loop ip MAX_DNS_SERVERS srv"

section \<open>Names\<close>

text \<open>
  \<open>host2dns_name\<close>: \<open>p\<close> is where \<open>buf\<close> points to in the object \<open>b\<close>, \<open>i\<close> the length of the label so far; the length
  is written in front of the label when the label ends.
\<close>

fun h2d_loop :: "u8 list \<Rightarrow> nat \<Rightarrow> nat \<Rightarrow> nat \<Rightarrow> u8 list \<Rightarrow> (nat \<times> nat \<times> u8 list) kres" where
  "h2d_loop [] p i sz b = (if sz > 2 then Inl Fault else Inr (p, sz, b))"
| "h2d_loop (c # host) p i sz b =
     (if sz > 2 then
        if c = 46 \<or> c = 0 then
          bnd (aset b (p - (i + 1)) (of_nat i)) (\<lambda>b.
          if c = 0 then Inr (p, sz, b) else h2d_loop host (p + 1) 0 (sz - 1) b)
        else bnd (aset b p c) (\<lambda>b. h2d_loop host (p + 1) (i + 1) (sz - 1) b)
      else Inr (p, sz, b))"

definition host2dns_name :: "u8 list \<Rightarrow> nat \<Rightarrow> nat \<Rightarrow> u8 list \<Rightarrow> (int \<times> u8 list) kres" where
  "host2dns_name host p sz b =
     bnd (strlen (Some host)) (\<lambda>n.
     if sz \<le> n + 2 then Inr (- 1, b)
     else
       bnd (h2d_loop host (p + 1) 0 sz b) (\<lambda>(p, sz, b).
       bnd (aset b p 0) (\<lambda>b. Inr (int sz - 2, b))))"

text \<open>
  \<open>dns2host_name\<close>: \<open>s\<close> is an offset in the message. A \<open>char\<close> is signed on this target, so the offset in a
  compression pointer may be negative.
\<close>

definition mget :: "u8 list \<Rightarrow> int \<Rightarrow> u8 kres" where
  "mget b s = (if 0 \<le> s \<and> s < int (length b) then Inr (b ! nat s) else Inl Fault)"

fun copy_label :: "u8 list \<Rightarrow> nat \<Rightarrow> int \<Rightarrow> nat \<Rightarrow> u8 list \<Rightarrow> (int \<times> nat \<times> u8 list) kres" where
  "copy_label b 0 s i buf = Inr (s, i, buf)"
| "copy_label b (Suc k) s i buf =
     (if i < length buf then bnd (mget b s) (\<lambda>c. bnd (aset buf i c) (\<lambda>buf. copy_label b k (s + 1) (i + 1) buf))
      else Inr (s, i, buf))"

text \<open>\<open>realloc\<close> keeps what was in the object.\<close>

definition enlarge :: "(nat \<Rightarrow> u8 list option) \<Rightarrow> nat \<Rightarrow> nat \<Rightarrow> u8 list \<Rightarrow> u8 list option" where
  "enlarge alloc n i buf =
     (if int n \<ge> int (length buf) - int i - 1
      then map_option (\<lambda>f. buf @ drop (length buf) f) (alloc (2 * length buf)) else Some buf)"

definition put_dot :: "nat \<Rightarrow> nat \<Rightarrow> u8 list \<Rightarrow> (nat \<times> u8 list) kres" where
  "put_dot n i buf = (if n > 0 then bnd (aset buf i 46) (\<lambda>buf. Inr (i + 1, buf)) else Inr (i, buf))"

partial_function (option) d2h_loop ::
    "(nat \<Rightarrow> u8 list option) \<Rightarrow> u8 list \<Rightarrow> int \<Rightarrow> int \<Rightarrow> nat \<Rightarrow> nat \<Rightarrow> u8 list \<Rightarrow> u8 list option kres option" where
  [code]: "d2h_loop alloc b e s n i buf =
     (case mget b s of
        Inl x \<Rightarrow> Some (Inl x)
      | Inr c \<Rightarrow>
          if c = 0 \<or> \<not> s < e then Some (bnd (aset buf i 0) (\<lambda>buf. Inr (Some buf)))
          else
            (case put_dot n i buf of
               Inl x \<Rightarrow> Some (Inl x)
             | Inr r \<Rightarrow>
                 if c = 0xC0 then
                   (case mget b (s + 1) of Inl x \<Rightarrow> Some (Inl x) | Inr d \<Rightarrow> d2h_loop alloc b e (sint d) 0 (fst r) (snd r))
                 else
                   (case enlarge alloc (unat c) (fst r) (snd r) of
                      None \<Rightarrow> Some (Inr None)
                    | Some buf \<Rightarrow>
                        (case copy_label b (unat c) (s + 1) (fst r) buf of
                           Inl x \<Rightarrow> Some (Inl x)
                         | Inr q \<Rightarrow> d2h_loop alloc b e (fst q) (unat c) (fst (snd q)) (snd (snd q))))))"

definition dns2host_name :: "(nat \<Rightarrow> u8 list option) \<Rightarrow> u8 list \<Rightarrow> nat \<Rightarrow> int \<Rightarrow> u8 list option kres option" where
  "dns2host_name alloc b len s =
     (case alloc 32 of None \<Rightarrow> Some (Inr None) | Some buf \<Rightarrow> d2h_loop alloc b (int len) s 0 0 buf)"

section \<open>The header\<close>

text \<open>
  The bit fields of \<open>struct dns_hdr\<close> fill a 16-bit unit from its lowest bit: \<open>qr\<close> (bit 0), \<open>opcode\<close> (1 to 4), \<open>aa\<close>,
  \<open>tc\<close>, \<open>rd\<close>, \<open>ra\<close>, \<open>z\<close>, \<open>ad\<close>, \<open>cd\<close> and \<open>rcode\<close> (12 to 15).
\<close>

definition bf :: "u16 \<Rightarrow> nat \<Rightarrow> nat \<Rightarrow> u16" where
  "bf w lo n = take_bit n (drop_bit lo w)"

definition flags_of_fields :: "u16 \<Rightarrow> u16" where
  "flags_of_fields w = push_bit 15 (bf w 0 1) OR push_bit 11 (bf w 1 4) OR push_bit 10 (bf w 5 1) OR push_bit 9 (bf w 6 1) OR
     push_bit 8 (bf w 7 1) OR push_bit 7 (bf w 8 1) OR push_bit 6 (bf w 9 1) OR push_bit 5 (bf w 10 1) OR
     push_bit 4 (bf w 11 1) OR bf w 12 4"

definition fields_of_flags :: "u16 \<Rightarrow> u16" where
  "fields_of_flags f = drop_bit 15 (f AND 0x8000) OR push_bit 1 (drop_bit 11 (f AND 0x7800)) OR push_bit 5 (drop_bit 10 (f AND 0x400)) OR
     push_bit 6 (drop_bit 9 (f AND 0x200)) OR push_bit 7 (drop_bit 8 (f AND 0x100)) OR push_bit 8 (drop_bit 7 (f AND 0x80)) OR
     push_bit 9 (drop_bit 6 (f AND 0x40)) OR push_bit 10 (drop_bit 5 (f AND 0x20)) OR push_bit 11 (drop_bit 4 (f AND 0x10)) OR
     push_bit 12 (f AND 0xF)"

definition dns2buf :: "u8 list \<Rightarrow> u8 list kres" where
  "dns2buf b = need DNS_SIZE b
     (let b = conv16 10 (conv16 8 (conv16 6 (conv16 4 (conv16 0 b)))) in Inr (wr16 b 2 (htons (flags_of_fields (rd16 b 2)))))"

definition buf2dns :: "u8 list \<Rightarrow> u8 list kres" where
  "buf2dns b = need DNS_SIZE b
     (let b = conv16 10 (conv16 8 (conv16 6 (conv16 4 (conv16 0 b)))) in Inr (wr16 b 2 (fields_of_flags (ntohs (rd16 b 2)))))"

definition buf2query :: "u8 list \<Rightarrow> nat \<Rightarrow> u8 list kres" where
  "buf2query b p = need (p + 4) b (Inr (conv16 p (conv16 (p + 2) b)))"

section \<open>The response\<close>

datatype rdata = R_none | R_ip u32 | R_name "u8 list option"

record dns_answer =
  da_name :: "u8 list option"
  da_type :: u16
  da_class :: u16
  da_ttl :: u32
  da_prio :: u16
  da_r :: rdata

record dns_res =
  dr_len :: u8
  dr_size :: u8
  dr_answers :: "dns_answer list"

definition dns_res_new :: "bool \<Rightarrow> nat \<Rightarrow> dns_res option" where
  "dns_res_new mem num_answers =
     (if mem then Some \<lparr>dr_len = 0, dr_size = of_nat num_answers,
        dr_answers = replicate num_answers \<lparr>da_name = None, da_type = 0, da_class = 0, da_ttl = 0, da_prio = 0, da_r = R_none\<rparr>\<rparr>
      else None)"

text \<open>One round of the loop of \<open>dns_parse_response\<close>: the answer at offset \<open>p\<close> and the offset behind it.\<close>

definition parse_answer :: "(nat \<Rightarrow> u8 list option) \<Rightarrow> u8 list \<Rightarrow> nat \<Rightarrow> nat \<Rightarrow> (dns_answer \<times> nat) kres option" where
  "parse_answer alloc b len p =
     dbnd (dns2host_name alloc b len (int p)) (\<lambda>name.
     if length b < p + 12 then Some (Inl Fault)
     else
       let ty = ntohs (rd16 b (p + 2)); dlen = ntohs (rd16 b (p + 10));
           ans = \<lparr>da_name = name, da_type = ty, da_class = ntohs (rd16 b (p + 4)), da_ttl = ntohl (rd32 b (p + 6)), da_prio = 0, da_r = R_none\<rparr> in
       if ty = DNS_T_A then
         Some (need (p + 16) b (Inr (ans\<lparr>da_r := R_ip (ntohl (rd32 b (p + 12)))\<rparr>, p + 12 + unat dlen)))
       else if ty = DNS_T_MX then
         if length b < p + 14 then Some (Inl Fault)
         else
           dbnd (dns2host_name alloc b len (int (p + 14))) (\<lambda>r.
           Some (Inr (ans\<lparr>da_prio := ntohs (rd16 b (p + 12)), da_r := R_name r\<rparr>, p + 14 + unat (dlen - 2))))
       else if ty \<in> {DNS_T_NS, DNS_T_CNAME, DNS_T_TXT} then
         dbnd (dns2host_name alloc b len (int (p + 12))) (\<lambda>r. Some (Inr (ans\<lparr>da_r := R_name r\<rparr>, p + 12 + unat dlen)))
       else Some (Inr (ans, p + 12 + unat dlen)))"

fun parse_answers :: "(nat \<Rightarrow> u8 list option) \<Rightarrow> u8 list \<Rightarrow> nat \<Rightarrow> nat \<Rightarrow> nat \<Rightarrow> nat \<Rightarrow> dns_res \<Rightarrow> dns_res kres option" where
  "parse_answers alloc b len 0 i p res = Some (Inr res)"
| "parse_answers alloc b len (Suc k) i p res =
     dbnd (parse_answer alloc b len p) (\<lambda>(ans, p).
     parse_answers alloc b len k (i + 1) p (res\<lparr>dr_len := dr_len res + 1, dr_answers := (dr_answers res)[i := ans]\<rparr>))"

definition dns_parse_response :: "(nat \<Rightarrow> u8 list option) \<Rightarrow> bool \<Rightarrow> u8 list \<Rightarrow> nat \<Rightarrow> nat \<Rightarrow> dns_res option kres option" where
  "dns_parse_response alloc mem b len s =
     (let n = unat (rd16 b 6) in
      case dns_res_new mem n of
        None \<Rightarrow> Some (if n = 0 then Inr None else Inl Fault)
      | Some res \<Rightarrow> dbnd (parse_answers alloc b len n 0 s res) (\<lambda>res. Some (Inr (Some res))))"

function qname_end :: "u8 list \<Rightarrow> nat \<Rightarrow> nat \<Rightarrow> nat kres" where
  "qname_end b len p = bnd (aget b p) (\<lambda>c. if c \<noteq> 0 \<and> p < len then qname_end b len (p + 1) else Inr p)"
  by pat_completeness auto
termination
  by (relation "measure (\<lambda>(b, len, p). len - p)") auto

declare qname_end.simps [simp del]

text \<open>
  \<open>dns_recv\<close> after \<open>udp_read\<close>, which returned \<open>n\<close>; \<open>b\<close> is the contents of \<open>buf\<close> then. \<open>mem\<close>: whether \<open>calloc\<close> finds
  memory for the result.
\<close>

definition dns_recv :: "(nat \<Rightarrow> u8 list option) \<Rightarrow> bool \<Rightarrow> int \<Rightarrow> u8 list \<Rightarrow> u16 \<Rightarrow> u16 \<Rightarrow> dns_res option kres option" where
  "dns_recv alloc mem n b dns_id ty =
     (let len = unat (word_of_int n :: u16) in
      if len < DNS_SIZE then Some (Inr None)
      else
        dbnd (Some (buf2dns b)) (\<lambda>b.
        if rd16 b 0 \<noteq> dns_id then Some (Inr None)
        else if bf (rd16 b 2) 12 4 \<noteq> DNS_RC_OK then Some (Inr None)
        else if rd16 b 4 \<noteq> 1 then Some (Inr None)
        else
          dbnd (Some (qname_end b len DNS_SIZE)) (\<lambda>p.
          if b ! p \<noteq> 0 then Some (Inr None)
          else
            dbnd (Some (buf2query b (p + 1))) (\<lambda>b.
            if rd16 b (p + 3) \<noteq> DNS_C_IN then Some (Inr None)
            else if rd16 b (p + 1) \<noteq> ty then Some (Inr None)
            else if unat (rd16 b 6) > 20 then Some (Inr None)
            else dns_parse_response alloc mem b len (p + 5)))))"

section \<open>The query\<close>

text \<open>
  The message \<open>dns_send\<close> builds: \<open>None\<close> when the name does not fit, otherwise the array and how many
  bytes of it are sent.
\<close>

definition dns_message :: "u8 list \<Rightarrow> u16 \<Rightarrow> u16 \<Rightarrow> (u8 list \<times> u16) option kres" where
  "dns_message host dns_id ty =
     (let b = wr16 (wr16 (wr16 (replicate 512 0) 0 dns_id) 2 (push_bit 7 1)) 4 1 in
      bnd (dns2buf b) (\<lambda>b.
      bnd (host2dns_name host DNS_SIZE (512 - DNS_SIZE) b) (\<lambda>(l, b).
      let left = word_of_int l :: u16 in
      if left < 4 then Inr None
      else
        let len = 512 - left; q = unat len in
        need (q + 4) b (Inr (Some (wr16 (wr16 b q (htons ty)) (q + 2) (htons DNS_C_IN), len + 4))))))"

text \<open>\<open>dns_send\<close> keeps the result of \<open>udp_write\<close> in a \<open>uint16_t\<close>, so -1 becomes 65535.\<close>

datatype send_result = Sent int | Send_waits nat "u8 list"

definition dns_send :: "u32 \<Rightarrow> netif list \<Rightarrow> bool \<Rightarrow> bool \<Rightarrow> nat \<Rightarrow> u8 list \<Rightarrow> u16 \<Rightarrow> u16 \<Rightarrow> route_table \<Rightarrow> arp_state \<Rightarrow> socks_table \<Rightarrow>
    (send_result \<times> arp_state \<times> frame list) kres" where
  "dns_send now nifs mem mem' p host dns_id ty rt ar t =
     bnd (dns_message host dns_id ty) (\<lambda>r. case r of
       None \<Rightarrow> Inr (Sent (- 1), ar, [])
     | Some (b, len) \<Rightarrow>
         bnd (udp_write now nifs mem mem' p (take (unat len) b) rt ar t) (\<lambda>(r, ar, fs).
         Inr (case r of Wrote n \<Rightarrow> Sent (uint (word_of_int n :: u16)) | Write_waits i d \<Rightarrow> Send_waits i d, ar, fs)))"

text \<open>
  \<open>dns_query\<close> up to the point where the query is sent or the task sleeps for the hardware address, and
  from the point where the response was read. \<open>m\<close> and \<open>a\<close> are the addresses of the new socket and its
  node.
\<close>

datatype query_result = Query_failed | Query_sent nat | Query_waits nat nat "u8 list"

definition dns_query_start :: "u32 list \<Rightarrow> u32 \<Rightarrow> netif list \<Rightarrow> bool \<Rightarrow> bool \<Rightarrow> nat option \<Rightarrow> nat option \<Rightarrow> int \<Rightarrow> u8 list \<Rightarrow> u16 \<Rightarrow>
    route_table \<Rightarrow> arp_state \<Rightarrow> socks_table \<Rightarrow> (query_result \<times> socks_table \<times> arp_state \<times> frame list) kres" where
  "dns_query_start srv now nifs mem mem' m a pid host ty rt ar t =
     bnd (aget srv 0) (\<lambda>ip.
     if ip = 0 then Inr (Query_failed, t, ar, [])
     else
       bnd (strlen (Some host)) (\<lambda>n.
       if n > 255 then Inr (Query_failed, t, ar, [])
       else
         bnd (sock_alloc m a pid S_UDP t) (\<lambda>(s, t). case s of
           None \<Rightarrow> Inl Fault
         | Some p \<Rightarrow>
             bnd (udp_connect p \<lparr>sa_ip = ip, sa_port = DNS_SRV_PORT\<rparr> rt t) (\<lambda>(_, t).
             bnd (dns_send now nifs mem mem' p host (word_of_int pid) ty rt ar t) (\<lambda>(r, ar, fs).
             Inr (case r of Sent n \<Rightarrow> if n < 0 then Query_failed else Query_sent p | Send_waits i d \<Rightarrow> Query_waits p i d, t, ar, fs))))))"

definition dns_query_end :: "(nat \<Rightarrow> u8 list option) \<Rightarrow> bool \<Rightarrow> int \<Rightarrow> u8 list \<Rightarrow> int \<Rightarrow> u16 \<Rightarrow> nat \<Rightarrow> socks_table \<Rightarrow>
    (dns_res option \<times> socks_table) kres option" where
  "dns_query_end alloc mem n b pid ty p t =
     dbnd (dns_recv alloc mem n b (word_of_int pid) ty) (\<lambda>res.
     Some (bnd (udp_close p t) (\<lambda>(_, t). Inr (res, t))))"

text \<open>\<open>dns_hostbyname\<close> after the query; \<open>ip0\<close> is what the variable \<open>ip\<close> holds when no answer has an address.\<close>

fun first_address :: "u32 \<Rightarrow> dns_answer list \<Rightarrow> u32" where
  "first_address ip0 [] = ip0"
| "first_address ip0 (a # as) = (if da_type a = DNS_T_A then (case da_r a of R_ip ip \<Rightarrow> ip | _ \<Rightarrow> 0) else first_address ip0 as)"

definition dns_hostbyname_end :: "u32 \<Rightarrow> dns_res option \<Rightarrow> u32" where
  "dns_hostbyname_end ip0 r = (case r of None \<Rightarrow> - 1 | Some res \<Rightarrow> first_address ip0 (take (unat (dr_len res)) (dr_answers res)))"

section \<open>Names in a message\<close>

text \<open>
  The format of names: labels with their lengths in front, closed by a zero byte, where a pointer may
  stand for the rest of the name. \<open>K\<close> are the bytes the name may use, \<open>e\<close> is the length of the message. This is the part of the
  format that \<open>dns2host_name\<close> can read, and less than the protocol allows: labels have at most 31 bytes (the protocol allows 63) and
  none of them is 0, and pointers lead to an offset below 128 (the protocol allows 16383). Outside of it the code
  fails: \<open>long_label_overflows\<close> and \<open>high_pointer_faults\<close> below.
\<close>

inductive wire_name :: "nat set \<Rightarrow> u8 list \<Rightarrow> nat \<Rightarrow> nat \<Rightarrow> u8 list list \<Rightarrow> bool" for K b e where
  root: "p \<in> K \<Longrightarrow> p < length b \<Longrightarrow> b ! p = 0 \<Longrightarrow> wire_name K b e p []"
| label: "{p..p + length l} \<subseteq> K \<Longrightarrow> p < e \<Longrightarrow> p + length l < length b \<Longrightarrow> b ! p = of_nat (length l) \<Longrightarrow> l \<noteq> [] \<Longrightarrow> length l \<le> 31 \<Longrightarrow>
    0 \<notin> set l \<Longrightarrow> take (length l) (drop (p + 1) b) = l \<Longrightarrow> wire_name K b e (p + 1 + length l) ls \<Longrightarrow> wire_name K b e p (l # ls)"
| pointer: "p \<in> K \<Longrightarrow> p + 1 \<in> K \<Longrightarrow> p < e \<Longrightarrow> p + 1 < length b \<Longrightarrow> b ! p = 0xC0 \<Longrightarrow> b ! (p + 1) < 0x80 \<Longrightarrow> ls \<noteq> [] \<Longrightarrow>
    wire_name K b e (unat (b ! (p + 1))) ls \<Longrightarrow> wire_name K b e p ls"

fun dotted :: "u8 list list \<Rightarrow> u8 list" where
  "dotted [] = []"
| "dotted [l] = l"
| "dotted (l # ls) = l @ 46 # dotted ls"

lemma dotted_Cons: "dotted (l # ls) = l @ (if ls = [] then [] else 46 # dotted ls)"
  by (cases ls) simp_all

lemma wire_name_cong:
  assumes "wire_name K b e p ls" and "length b' = length b" and "\<And>k. k \<in> K \<Longrightarrow> k < length b \<Longrightarrow> b' ! k = b ! k"
  shows "wire_name K b' e p ls"
  using assms(1)
proof induction
  case (label p l ls)
  have "take (length l) (drop (p + 1) b') = take (length l) (drop (p + 1) b)"
    using label.hyps(1,3) assms(2,3) by (intro nth_equalityI) (auto simp: subset_iff)
  with label show ?case using assms(2,3) by (intro wire_name.label) (auto simp: subset_iff)
qed (auto intro: wire_name.intros simp: assms(2,3))

lemma mget_nat [simp]: "p < length b \<Longrightarrow> mget b (int p) = Inr (b ! p)"
  by (simp add: mget_def)

lemma mget_Suc [simp]: "p + 1 < length b \<Longrightarrow> mget b (int p + 1) = Inr (b ! (p + 1))"
  by (simp add: mget_def nat_add_distrib)

lemma copy_label_ok:
  "s + k \<le> length b \<Longrightarrow> i + k \<le> length buf \<Longrightarrow>
   copy_label b k (int s) i buf = Inr (int (s + k), i + k, take i buf @ take k (drop s b) @ drop (i + k) buf)"
proof (induction k arbitrary: s i buf)
  case (Suc k)
  have t: "take (Suc k) (drop s b) = b ! s # take k (drop (s + 1) b)"
    using Suc.prems(1) by (simp add: Cons_nth_drop_Suc [symmetric])
  have "take (i + 1) (buf[i := b ! s]) = take i buf @ [b ! s]"
    using Suc.prems(2) by (simp add: take_Suc_conv_app_nth)
  moreover have "copy_label b k (int (s + 1)) (i + 1) (buf[i := b ! s]) = Inr (int (s + 1 + k), i + 1 + k,
      take (i + 1) (buf[i := b ! s]) @ take k (drop (s + 1) b) @ drop (i + 1 + k) (buf[i := b ! s]))"
    using Suc.prems by (intro Suc.IH) simp_all
  ultimately show ?case using Suc.prems t by (simp add: add.commute)
qed simp

lemma enlarge_ok:
  assumes "plenty alloc" and "n \<le> 31" and "32 \<le> length buf" and "i \<le> length buf"
  shows "\<exists>buf'. enlarge alloc n i buf = Some buf' \<and> i + n < length buf' \<and> length buf \<le> length buf' \<and> take i buf' = take i buf"
proof -
  obtain f where "alloc (2 * length buf) = Some f" "length f = 2 * length buf" using assms(1) unfolding plenty_def by blast
  with assms show ?thesis by (auto simp: enlarge_def)
qed

lemma sint_small: "sint w = int (unat w)" if "w < 0x80" for w :: u8
proof -
  have "uint w < 128" using that by (simp add: word_less_def)
  moreover have "- 128 \<le> uint w" using uint_ge_0 [of w] by linarith
  ultimately have "signed_take_bit 7 (uint w) = uint w" by (intro signed_take_bit_int_eq_self) auto
  then show ?thesis by (simp add: sint_uint)
qed

lemma label_length:
  assumes "length l \<le> 31" and "l \<noteq> []"
  shows "unat (of_nat (length l) :: u8) = length l" "of_nat (length l) \<noteq> (0 :: u8)" "of_nat (length l) \<noteq> (0xC0 :: u8)"
proof -
  show u: "unat (of_nat (length l) :: u8) = length l" using assms(1) by (simp add: unat_of_nat take_bit_nat_eq_self)
  show "of_nat (length l) \<noteq> (0 :: u8)" using u assms(2) by (metis length_0_conv unat_0)
  show "of_nat (length l) \<noteq> (0xC0 :: u8)"
  proof
    assume "of_nat (length l) = (0xC0 :: u8)"
    then have "unat (of_nat (length l) :: u8) = 0xC0" by simp
    with u assms(1) show False by simp
  qed
qed

text \<open>The loop reads a name to its end, whatever was in the buffer.\<close>

lemma d2h_loop_name:
  assumes "plenty alloc" and "wire_name K b e p ls"
  shows "32 \<le> length buf \<Longrightarrow> i \<le> length buf \<Longrightarrow> (n > 0 \<or> ls = [] \<Longrightarrow> i < length buf) \<Longrightarrow>
    \<exists>rest. d2h_loop alloc b (int e) (int p) n i buf =
      Some (Inr (Some (take i buf @ (if n > 0 \<and> ls \<noteq> [] then [46] else []) @ dotted ls @ 0 # rest)))"
  using assms(2)
proof (induction arbitrary: n i buf)
  case (root p)
  then have "take i buf @ 0 # drop (i + 1) buf = buf[i := 0]" by (simp add: upd_conv_take_nth_drop)
  with root show ?case by (subst d2h_loop.simps) (auto intro!: exI [of _ "drop (i + 1) buf"])
next
  case (pointer p ls)
  obtain j buf' where d: "put_dot n i buf = Inr (j, buf')" "length buf' = length buf" "j \<le> length buf"
      "take j buf' = take i buf @ (if n > 0 then [46] else [])"
    using pointer.prems by (cases "n > 0") (auto simp: put_dot_def take_Suc_conv_app_nth)
  have "sint (b ! (p + 1)) = int (unat (b ! (p + 1)))"
    using pointer.hyps(6) by (rule sint_small)
  moreover obtain rest where "d2h_loop alloc b (int e) (int (unat (b ! (p + 1)))) 0 j buf' = Some (Inr (Some (take j buf' @ dotted ls @ 0 # rest)))"
    using pointer.IH [of buf' j 0] pointer.prems d pointer.hyps by auto
  ultimately show ?case
    using pointer.hyps d by (subst d2h_loop.simps) auto
next
  case (label p l ls)
  obtain j buf1 where d: "put_dot n i buf = Inr (j, buf1)" "length buf1 = length buf" "j \<le> length buf"
      "take j buf1 = take i buf @ (if n > 0 then [46] else [])"
    using label.prems by (cases "n > 0") (auto simp: put_dot_def take_Suc_conv_app_nth)
  have u: "unat (b ! p) = length l" "b ! p \<noteq> 0" "b ! p \<noteq> 0xC0"
    using label_length [OF label.hyps(6,5)] label.hyps(4) by auto
  obtain buf2 where g: "enlarge alloc (length l) j buf1 = Some buf2" "j + length l < length buf2" "length buf \<le> length buf2" "take j buf2 = take j buf1"
    using enlarge_ok [OF assms(1) label.hyps(6), of buf1 j] d label.prems by auto
  define buf3 where "buf3 = take j buf2 @ l @ drop (j + length l) buf2"
  have c: "copy_label b (length l) (int p + 1) j buf2 = Inr (int (p + 1 + length l), j + length l, buf3)"
    using copy_label_ok [of "p + 1" "length l" b j buf2] label.hyps g by (simp add: buf3_def add.commute)
  have t3: "take (j + length l) buf3 = take j buf1 @ l" and l3: "length buf3 = length buf2" using g d(2,3) by (simp_all add: buf3_def)
  obtain rest where r: "d2h_loop alloc b (int e) (int (p + 1 + length l)) (length l) (j + length l) buf3 = Some (Inr (Some
      (take j buf1 @ l @ (if ls \<noteq> [] then [46] else []) @ dotted ls @ 0 # rest)))"
    using label.IH [of buf3 "j + length l" "length l"] g(2,3) t3 l3 label.prems(1) label.hyps(5) by auto
  have "d2h_loop alloc b (int e) (int p) n i buf = d2h_loop alloc b (int e) (int (p + 1 + length l)) (length l) (j + length l) buf3"
    using label.hyps(2,3) d(1) u g(1) c by (subst d2h_loop.simps) simp
  then show ?case using r d(4) by (auto simp: dotted_Cons)
qed

lemma wire_name_no_zero: "wire_name K b e p ls \<Longrightarrow> 0 \<notin> set (dotted ls)"
  by (induction rule: wire_name.induct) (auto simp: dotted_Cons)

lemma dns2host_name_ok:
  assumes "plenty alloc" and "wire_name K b e p ls"
  shows "\<exists>s. dns2host_name alloc b e (int p) = Some (Inr (Some s)) \<and> cstr (dotted ls) s"
proof -
  obtain buf where "alloc 32 = Some buf" "length buf = 32" using assms(1) unfolding plenty_def by blast
  with d2h_loop_name [OF assms, of buf 0 0] wire_name_no_zero [OF assms(2)] show ?thesis
    by (auto simp: dns2host_name_def cstr_def)
qed

section \<open>Headers\<close>

abbreviation be16 :: "u8 list \<Rightarrow> nat \<Rightarrow> u16" where
  "be16 b i \<equiv> ntohs (rd16 b i)"


lemma below_16: "n < LENGTH(16) \<Longrightarrow> n \<in> {0, 1, 2, 3, 4, 5, 6, 7, 8, 9, 10, 11, 12, 13, 14, 15}"
  by (simp, presburger)


lemma fields_flags_inverse: "fields_of_flags (flags_of_fields w) = w"
proof (rule bit_word_eqI)
  fix n
  assume "n < LENGTH(16)"
  then show "bit (fields_of_flags (flags_of_fields w)) n = bit w n"
    using below_16 [OF \<open>n < LENGTH(16)\<close>]
    unfolding flags_of_fields_def bf_def fields_of_flags_def bit_or_iff bit_push_bit_iff bit_take_bit_iff bit_drop_bit_eq bit_and_iff o_def possible_bit_word
    by (elim insertE emptyE) (simp_all add: eval_nat_numeral)
qed



section \<open>Answers\<close>














section \<open>The message that is sent\<close>

lemma dns2buf_ok:
  assumes "12 \<le> length b"
  shows "\<exists>b'. dns2buf b = Inr b' \<and> length b' = length b \<and> rd16 b' 0 = htons (rd16 b 0) \<and> rd16 b' 2 = htons (flags_of_fields (rd16 b 2)) \<and>
    rd16 b' 4 = htons (rd16 b 4) \<and> rd16 b' 6 = htons (rd16 b 6) \<and> rd16 b' 8 = htons (rd16 b 8) \<and> rd16 b' 10 = htons (rd16 b 10) \<and>
    (\<forall>k\<ge>12. k < length b \<longrightarrow> b' ! k = b ! k)"
  using assms by (simp add: dns2buf_def need_def DNS_SIZE_def Let_def conv16_def byte_simps nth_wr16 htons_def ntohs_def)

text \<open>The labels of a host name in the format of a message.\<close>

fun enc :: "u8 list list \<Rightarrow> u8 list" where
  "enc [] = []"
| "enc (l # ls) = of_nat (length l) # l @ enc ls"

definition host_labels :: "u8 list list \<Rightarrow> bool" where
  "host_labels ls \<longleftrightarrow> ls \<noteq> [] \<and> (\<forall>l\<in>set ls. l \<noteq> [] \<and> length l \<le> 31 \<and> 0 \<notin> set l \<and> 46 \<notin> set l)"

lemma length_enc: "ls \<noteq> [] \<Longrightarrow> length (enc ls) = Suc (length (dotted ls))"
proof (induction ls)
  case (Cons l ls)
  then show ?case by (cases ls) auto
qed simp

lemma h2d_label:
  "0 \<notin> set l \<Longrightarrow> 46 \<notin> set l \<Longrightarrow> length l \<le> length rest \<Longrightarrow> length l + 2 < sz \<Longrightarrow>
   h2d_loop (l @ host) (length pre) i sz (pre @ rest) =
   h2d_loop host (length pre + length l) (i + length l) (sz - length l) (pre @ l @ drop (length l) rest)"
proof (induction l arbitrary: pre i sz rest)
  case (Cons c l)
  then obtain y rest' where r: "rest = y # rest'" by (cases rest) auto
  have "h2d_loop (l @ host) (length (pre @ [c])) (i + 1) (sz - 1) ((pre @ [c]) @ rest') =
      h2d_loop host (length (pre @ [c]) + length l) (i + 1 + length l) (sz - 1 - length l) ((pre @ [c]) @ l @ drop (length l) rest')"
    using Cons.prems r by (intro Cons.IH) auto
  then show ?case using Cons.prems r by simp
qed simp

lemma h2d_labels:
  "host_labels ls \<Longrightarrow> length (dotted ls) \<le> length rest \<Longrightarrow> length (dotted ls) + 2 < sz \<Longrightarrow>
   h2d_loop (dotted ls @ 0 # z) (length pre + 1) 0 sz (pre @ x # rest) =
   Inr (length pre + 1 + length (dotted ls), sz - length (dotted ls), pre @ enc ls @ drop (length (dotted ls)) rest)"
proof (induction ls arbitrary: pre x rest sz)
  case (Cons l ls)
  have l: "0 \<notin> set l" "46 \<notin> set l" using Cons.prems(1) by (auto simp: host_labels_def)
  have n: "length l \<le> length rest" "length l + 2 < sz" using Cons.prems(2,3) by (auto simp: dotted_Cons split: if_splits)
  let ?host = "(if ls = [] then [] else 46 # dotted ls) @ 0 # z"
  have "h2d_loop (dotted (l # ls) @ 0 # z) (length pre + 1) 0 sz (pre @ x # rest) =
      h2d_loop ?host (length pre + 1 + length l) (length l) (sz - length l) (pre @ x # l @ drop (length l) rest)"
    using h2d_label [OF l n, of ?host "pre @ [x]" 0] by (simp add: dotted_Cons)
  moreover have "(pre @ x # l @ r)[length pre := v] = pre @ v # l @ r" for r v by (simp add: list_update_append)
  ultimately have step: "h2d_loop (dotted (l # ls) @ 0 # z) (length pre + 1) 0 sz (pre @ x # rest) =
      (if ls = [] then Inr (length pre + 1 + length l, sz - length l, pre @ of_nat (length l) # l @ drop (length l) rest)
       else h2d_loop (dotted ls @ 0 # z) (length pre + 1 + length l + 1) 0 (sz - length l - 1) (pre @ of_nat (length l) # l @ drop (length l) rest))"
    using n by auto
  show ?case
  proof (cases "ls = []")
    case False
    then obtain y rest' where r: "drop (length l) rest = y # rest'"
      using Cons.prems(2) by (cases "drop (length l) rest") (auto simp: dotted_Cons)
    have "length rest' = length rest - length l - 1" using arg_cong [OF r, of length] by simp
    then have "h2d_loop (dotted ls @ 0 # z) (length (pre @ of_nat (length l) # l) + 1) 0 (sz - length l - 1) ((pre @ of_nat (length l) # l) @ y # rest') =
       Inr (length (pre @ of_nat (length l) # l) + 1 + length (dotted ls), sz - length l - 1 - length (dotted ls),
         (pre @ of_nat (length l) # l) @ enc ls @ drop (length (dotted ls)) rest')"
      using Cons.prems False by (intro Cons.IH) (auto simp: dotted_Cons host_labels_def)
    moreover have "drop (length (dotted ls)) rest' = drop (length l + 1 + length (dotted ls)) rest"
      using arg_cong [OF r, of "drop (Suc (length (dotted ls)))"] by (simp add: add.commute)
    ultimately show ?thesis using step False r by (simp add: dotted_Cons)
  qed (use step in simp)
qed (simp add: host_labels_def)

lemma enc_wire:
  "host_labels ls \<or> ls = [] \<Longrightarrow> {length pre..length pre + length (enc ls)} \<subseteq> K \<Longrightarrow> length pre + length (enc ls) \<le> e \<Longrightarrow>
   wire_name K (pre @ enc ls @ 0 # rest) e (length pre) ls"
proof (induction ls arbitrary: pre)
  case Nil
  then show ?case by (intro wire_name.root) auto
next
  case (Cons l ls)
  let ?pre = "pre @ of_nat (length l) # l"
  have "wire_name K (?pre @ enc ls @ 0 # rest) e (length ?pre) ls"
    using Cons.prems by (intro Cons.IH) (auto simp: host_labels_def)
  then show ?case
    using Cons.prems by (intro wire_name.label) (auto simp: host_labels_def)
qed

lemma host2dns_name_ok:
  assumes "host_labels ls" and "length h = 12" and "length (dotted ls) \<le> 255" and "0 \<notin> set (dotted ls)"
  shows "host2dns_name (dotted ls @ 0 # z) 12 500 (h @ replicate 500 0) =
    Inr (498 - int (length (dotted ls)), h @ enc ls @ 0 # replicate (498 - length (dotted ls)) 0)"
proof -
  let ?n = "length (dotted ls)"
  have "strlen (Some (dotted ls @ 0 # z)) = Inr ?n"
    using strlen_body_cstr [of "dotted ls" "dotted ls @ 0 # z"] assms(4) by (simp add: strlen_def cstr_def)
  moreover have "h2d_loop (dotted ls @ 0 # z) (12 + 1) 0 500 (h @ 0 # replicate 499 0) = Inr (13 + ?n, 500 - ?n, h @ enc ls @ replicate (499 - ?n) 0)"
    using h2d_labels [OF assms(1), of "replicate 499 0" 500 z h 0] assms(2,3) by simp
  moreover have "replicate 500 (0 :: u8) = 0 # replicate 499 0" "replicate (499 - ?n) (0 :: u8) = 0 # replicate (498 - ?n) 0"
    using assms(3) by (simp_all add: replicate_Suc [symmetric] Suc_diff_le del: replicate_Suc)
  moreover have "aset (h @ enc ls @ 0 # r) (13 + ?n) 0 = Inr (h @ enc ls @ 0 # r)" for r
    using assms(1,2) by (simp add: aset_def list_update_append length_enc host_labels_def)
  ultimately show ?thesis using assms(3) by (simp add: host2dns_name_def)
qed

lemma dns_header_ok:
  "\<exists>h. dns2buf (wr16 (wr16 (wr16 (replicate 512 0) 0 i) 2 (push_bit 7 1)) 4 1) = Inr (h @ replicate 500 0) \<and> length h = 12 \<and>
     be16 h 0 = i \<and> be16 h 2 = 0x100 \<and> be16 h 4 = 1 \<and> be16 h 6 = 0 \<and> be16 h 8 = 0 \<and> be16 h 10 = 0"
proof -
  let ?b = "wr16 (wr16 (wr16 (replicate 512 0) 0 i) 2 (push_bit 7 1)) 4 1 :: u8 list"
  have r: "rd16 ?b 0 = i" "rd16 ?b 2 = push_bit 7 1" "rd16 ?b 4 = 1" "rd16 ?b 6 = 0" "rd16 ?b 8 = 0" "rd16 ?b 10 = 0"
    by (simp_all add: byte_simps) (simp_all add: rd16_def)
  have f: "flags_of_fields (push_bit 7 1) = 0x100" by code_simp
  obtain b' where b': "dns2buf ?b = Inr b'" "length b' = 512" "be16 b' 0 = i" "be16 b' 2 = 0x100" "be16 b' 4 = 1" "be16 b' 6 = 0"
      "be16 b' 8 = 0" "be16 b' 10 = 0" "\<forall>k\<ge>12. k < 512 \<longrightarrow> b' ! k = ?b ! k"
    using dns2buf_ok [of ?b] unfolding r f by (auto simp: htons_def ntohs_def swap16_swap16)
  have "drop 12 b' = replicate 500 0" using b'(2,9) by (intro nth_equalityI) (simp_all add: nth_wr16)
  then have "b' = take 12 b' @ replicate 500 0" by (metis append_take_drop_id)
  moreover have "rd16 (take 12 b') k = rd16 b' k" if "k < 11" for k using that by (simp add: rd16_def)
  ultimately show ?thesis using b' by (intro exI [of _ "take 12 b'"]) simp
qed

text \<open>
  C33. For a host name of up to 255 bytes whose labels have 1 to 31 bytes, \<open>dns_send\<close> builds a proper
  query: the header carries the transaction, asks for recursion and announces one question, the name
  stands behind it in the format of DNS with one length per label, and the type and class follow. What
  the client's own parser reads from the message is the host name again.
\<close>

theorem dns_query_roundtrip:
  assumes "host_labels ls" and "length (dotted ls) \<le> 255" and "plenty alloc"
  shows "\<exists>b len s. dns_message (dotted ls @ [0]) dns_id ty = Inr (Some (b, len)) \<and> unat len = 18 + length (dotted ls) \<and>
    be16 b 0 = dns_id \<and> be16 b 2 = 0x100 \<and> be16 b 4 = 1 \<and> be16 b 6 = 0 \<and> be16 b 8 = 0 \<and> be16 b 10 = 0 \<and>
    be16 b (unat len - 4) = ty \<and> be16 b (unat len - 2) = DNS_C_IN \<and>
    dns2host_name alloc b (unat len) 12 = Some (Inr (Some s)) \<and> cstr (dotted ls) s"
proof -
  let ?n = "length (dotted ls)"
  obtain h where h: "dns2buf (wr16 (wr16 (wr16 (replicate 512 0) 0 dns_id) 2 (push_bit 7 1)) 4 1) = Inr (h @ replicate 500 0)" "length h = 12"
      "be16 h 0 = dns_id" "be16 h 2 = 0x100" "be16 h 4 = 1" "be16 h 6 = 0" "be16 h 8 = 0" "be16 h 10 = 0"
    using dns_header_ok by blast
  define b where "b = h @ enc ls @ 0 # replicate (498 - ?n) 0"
  have ls: "ls \<noteq> []" using assms(1) by (simp add: host_labels_def)
  have lb: "length b = 512" using h(2) assms(2) ls by (simp add: b_def length_enc)
  let ?w = "word_of_int (498 - int ?n) :: u16"
  have left: "\<not> ?w < 4" "unat (512 - ?w) = 14 + ?n" "unat (512 - ?w + 4) = 18 + ?n"
  proof -
    define w where "w = ?w"
    have "?w = word_of_int (int (498 - ?n))" using assms(2) by simp
    then have u: "unat w = 498 - ?n" unfolding w_def by (simp only: of_int_of_nat_eq) (simp add: unat_of_nat take_bit_nat_eq_self)
    show "\<not> ?w < 4" using u assms(2) unfolding w_def [symmetric] by (simp add: word_less_nat_alt)
    show "unat (512 - ?w) = 14 + ?n" unfolding w_def [symmetric] using u assms(2) by (simp add: unat_sub word_le_nat_alt)
    then show "unat (512 - ?w + 4) = 18 + ?n" using unat_add_small [of "512 - ?w" 4] assms(2) unfolding w_def [symmetric] by simp
  qed
  let ?b = "wr16 (wr16 b (14 + ?n) (htons ty)) (14 + ?n + 2) (htons DNS_C_IN)"
  have w: "wire_name {12..<14 + ?n} b (18 + ?n) 12 ls"
    using enc_wire [of ls h "{12..<14 + ?n}" "18 + ?n" "replicate (498 - ?n) 0"] assms(1) ls h(2) by (simp add: b_def length_enc subset_iff)
  then have zs: "0 \<notin> set (dotted ls)" by (rule wire_name_no_zero)
  have "host2dns_name (dotted ls @ [0]) 12 500 (h @ replicate 500 0) = Inr (498 - int ?n, b)"
    using host2dns_name_ok [OF assms(1) h(2) assms(2) zs, of "[]"] by (simp add: b_def)
  then have m: "dns_message (dotted ls @ [0]) dns_id ty = Inr (Some (?b, 512 - ?w + 4))"
    using h(1) left lb assms(2) by (simp add: dns_message_def need_def DNS_SIZE_def Let_def)
  have r: "rd16 ?b k = rd16 h k" if "k < 11" for k
    using that h(2) lb assms(2) by (simp add: rd16_wr16_other) (simp add: b_def rd16_def nth_append)
  have q: "be16 ?b (14 + ?n) = ty" "be16 ?b (14 + ?n + 2) = DNS_C_IN"
    using lb assms(2) by (simp_all add: byte_simps htons_def ntohs_def swap16_swap16)
  have "wire_name {12..<14 + ?n} ?b (18 + ?n) 12 ls"
    using lb assms(2) by (intro wire_name_cong [OF w]) (simp_all add: nth_wr16)
  from dns2host_name_ok [OF assms(3) this] obtain s where "dns2host_name alloc ?b (18 + ?n) 12 = Some (Inr (Some s))" "cstr (dotted ls) s" by auto
  then show ?thesis
    using m left r h q by (intro exI [of _ ?b] exI [of _ "512 - ?w + 4"] exI [of _ s]) (simp add: add.commute)
qed

lemma plenty_zero: "plenty (\<lambda>n. Some (replicate n 0))"
  by (simp add: plenty_def)

theorem dns_query_roundtrip_witness:
  "\<exists>b len s. dns_message ([109, 120, 46, 100, 101] @ [0]) 7 15 = Inr (Some (b, len)) \<and> unat len = 23 \<and> be16 b 0 = 7 \<and>
     be16 b (unat len - 4) = 15 \<and> dns2host_name (\<lambda>n. Some (replicate n 0)) b (unat len) 12 = Some (Inr (Some s)) \<and> cstr [109, 120, 46, 100, 101] s"
proof -
  have "host_labels [[109, 120], [100, 101]]" by (simp add: host_labels_def)
  from dns_query_roundtrip [OF this _ plenty_zero, of 7 15] show ?thesis by auto
qed





text \<open>
  A pointer that points to itself keeps the client in the loop for ever; a pointer to the upper half of
  the first 256 bytes reads in front of the message; a label of more than 31 bytes can run over the
  buffer; and a failed \<open>udp_write\<close> is not noticed.
\<close>

lemma self_pointer_hangs:
  assumes "b ! p = 0xC0" and "b ! (p + 1) = of_nat p" and "p < 128" and "p < e" and "p + 1 < length b"
  shows "d2h_loop alloc b (int e) (int p) 0 i buf = None"
proof -
  have "sint (of_nat p :: u8) = int p"
    using assms(3) sint_small [of "of_nat p"] by (simp add: word_less_nat_alt unat_of_nat take_bit_nat_eq_self)
  then have "False" if "d2h_loop alloc b (int e) (int p) 0 i buf = Some y" for y
    using assms d2h_loop.raw_induct [where P = "\<lambda>_ b' e' s n _ _ _. \<not> (b' = b \<and> e' = int e \<and> s = int p \<and> n = 0)", OF _ that]
    by (fastforce simp: put_dot_def)
  then show ?thesis by (cases "d2h_loop alloc b (int e) (int p) 0 i buf") auto
qed

lemma high_pointer_faults:
  assumes "b ! p = 0xC0" and "0x80 \<le> b ! (p + 1)" and "p < e" and "p + 1 < length b"
  shows "d2h_loop alloc b (int e) (int p) 0 i buf = Some (Inl Fault)"
proof -
  have "128 \<le> uint (b ! (p + 1))" "uint (b ! (p + 1)) < 256"
    using assms(2) uint_bounded [of "b ! (p + 1)"] by (simp_all add: word_le_def)
  then have "uint (b ! (p + 1)) div 128 = 1" by presburger
  then have "bit (uint (b ! (p + 1))) 7" by (simp add: bit_iff_odd)
  then have "sint (b ! (p + 1)) = take_bit 8 (uint (b ! (p + 1))) - 256"
    by (simp add: sint_uint signed_take_bit_eq_take_bit_minus)
  moreover have "take_bit 8 (uint (b ! (p + 1))) < 256" using take_bit_int_less_exp [of 8] by simp
  ultimately have "sint (b ! (p + 1)) < 0" by simp
  then have "mget b (sint (b ! (p + 1))) = Inl Fault" by (simp add: mget_def)
  then have "d2h_loop alloc b (int e) (sint (b ! (p + 1))) 0 i buf = Some (Inl Fault)" by (subst d2h_loop.simps) simp
  with assms show ?thesis by (subst d2h_loop.simps) (simp add: put_dot_def)
qed

lemma long_label_overflows:
  "dns2host_name (\<lambda>n. Some (replicate n 0)) (28 # replicate 28 97 @ 40 # replicate 40 98 @ [0]) 71 0 = Some (Inl Fault)"
  by code_simp

lemma send_failure_unnoticed:
  assumes "dns_message host dns_id ty = Inr (Some (b, len))" and "udp_write now nifs mem mem' p (take (unat len) b) rt ar t = Inr (Wrote (- 1), ar', fs)"
  shows "dns_send now nifs mem mem' p host dns_id ty rt ar t = Inr (Sent 65535, ar', fs)"
proof -
  have "uint (- 1 :: u16) = 65535" by code_simp
  then show ?thesis using assms by (simp add: dns_send_def)
qed

end
