(* ===== verification/Dhcp.thy ===== *)
theory Dhcp
  imports Dns
begin

text \<open>
  The DHCP client (\<open>dhcp.c\<close>), which gives an interface its address: the messages it sends, the parser
  of the options, and the exchange of offer, request and acknowledgement. \<open>struct dhcp_hdr\<close> is not packed:
  the compiler puts two bytes in front of \<open>cookie\<close>, which is therefore at offset 236, and the options
  start at 240.
\<close>

definition DHCP_CLI_PORT :: u16 where "DHCP_CLI_PORT = 68"
definition DHCP_SRV_PORT :: u16 where "DHCP_SRV_PORT = 67"
definition COSIRIS_XID_BASE :: u32 where "COSIRIS_XID_BASE = 0xC0510000"
definition MAGIC_COOKIE :: u32 where "MAGIC_COOKIE = 0x63825363"
definition OPT_SUBNET_MASK :: u8 where "OPT_SUBNET_MASK = 1"
definition OPT_ROUTER :: u8 where "OPT_ROUTER = 3"
definition OPT_DNS :: u8 where "OPT_DNS = 6"
definition OPT_HOST_NAME :: u8 where "OPT_HOST_NAME = 12"
definition OPT_REQUESTED_IP_ADDR :: u8 where "OPT_REQUESTED_IP_ADDR = 50"
definition OPT_LEASE_TIME :: u8 where "OPT_LEASE_TIME = 51"
definition OPT_MESSAGE_TYPE :: u8 where "OPT_MESSAGE_TYPE = 53"
definition OPT_SERVER_ID :: u8 where "OPT_SERVER_ID = 54"
definition OPT_PARAMETER_REQUEST_LIST :: u8 where "OPT_PARAMETER_REQUEST_LIST = 55"
definition OPT_END :: u8 where "OPT_END = 255"
definition DHCP_DISCOVER :: u8 where "DHCP_DISCOVER = 1"
definition DHCP_OFFER :: u8 where "DHCP_OFFER = 2"
definition DHCP_REQUEST :: u8 where "DHCP_REQUEST = 3"
definition DHCP_ACK :: u8 where "DHCP_ACK = 5"
definition DHCP_HDR_SIZE :: nat where "DHCP_HDR_SIZE = 240"

lemmas dhcp_consts = OPT_SUBNET_MASK_def OPT_ROUTER_def OPT_DNS_def OPT_HOST_NAME_def OPT_REQUESTED_IP_ADDR_def OPT_LEASE_TIME_def
  OPT_MESSAGE_TYPE_def OPT_SERVER_ID_def OPT_PARAMETER_REQUEST_LIST_def OPT_END_def DHCP_HDR_SIZE_def

record dhcp_opts =
  do_type :: u8
  do_subnet_mask :: u32
  do_routers :: "u32 list"
  do_num_routers :: u8
  do_dns :: "u32 list"
  do_num_dns :: u8
  do_lease_time :: u32
  do_server_id :: u32

definition zero_opts :: dhcp_opts where
  "zero_opts = \<lparr>do_type = 0, do_subnet_mask = 0, do_routers = replicate 4 0, do_num_routers = 0, do_dns = replicate 4 0,
     do_num_dns = 0, do_lease_time = 0, do_server_id = 0\<rparr>"

section \<open>The messages that are sent\<close>

definition dhcp_build_hdr :: "u32 \<Rightarrow> u8 list \<Rightarrow> u8 list \<Rightarrow> u8 list" where
  "dhcp_build_hdr xid mac b =
     (let b = b[0 := 1, 1 := 1, 2 := of_nat MAC_SIZE, 3 := 0]; b = wr32 b 4 (htonl xid); b = wr16 b 8 0; b = wr16 b 10 (htons 0x8000);
          b = wr32 b 24 0; b = wr32 b 20 0; b = wr32 b 16 0; b = wr32 b 12 0; b = splice b 28 (take MAC_SIZE mac) in
      wr32 b 236 (htonl MAGIC_COOKIE))"

text \<open>\<open>*ptr++ = x\<close> and \<open>memcpy(ptr, ...); ptr += n\<close>: the bytes \<open>bs\<close> are stored at \<open>ptr\<close>, which moves behind them.\<close>

definition put :: "u8 list \<Rightarrow> u8 list \<times> nat \<Rightarrow> u8 list \<times> nat" where
  "put bs = (\<lambda>(b, p). (splice b p bs, p + length bs))"

text \<open>\<open>strcpy(ptr, s); ptr += strlen(s)\<close>: the terminator is stored too.\<close>

definition put_str :: "u8 list \<Rightarrow> u8 list \<times> nat \<Rightarrow> u8 list \<times> nat" where
  "put_str s = (\<lambda>(b, p). (splice b p (s @ [0]), p + length s))"

definition dhcp_xid :: "int \<Rightarrow> u32" where
  "dhcp_xid pid = COSIRIS_XID_BASE + (word_of_int pid AND 0xFFFF)"

text \<open>What \<open>dhcp_discover\<close> and \<open>dhcp_request\<close> give to \<open>udp_write\<close>.\<close>

definition dhcp_discover :: "int \<Rightarrow> u8 list \<Rightarrow> u8 list" where
  "dhcp_discover pid smac =
     (let b = dhcp_build_hdr (dhcp_xid pid) smac (replicate 512 0);
          (b, p) = put [OPT_END] (put [OPT_PARAMETER_REQUEST_LIST, 3, OPT_SUBNET_MASK, OPT_ROUTER, OPT_DNS]
            (put [OPT_MESSAGE_TYPE, 1, DHCP_DISCOVER] (b, DHCP_HDR_SIZE))) in
      take p b)"

definition dhcp_request :: "int \<Rightarrow> u8 list \<Rightarrow> dhcp_opts \<Rightarrow> u8 list" where
  "dhcp_request pid dhcp opts =
     (let b = dhcp_build_hdr (dhcp_xid pid) (drop 28 dhcp) (replicate 512 0);
          s = put [OPT_MESSAGE_TYPE, 1, DHCP_REQUEST] (b, DHCP_HDR_SIZE);
          s = put (le32 (htonl (do_server_id opts))) (put [OPT_SERVER_ID, 4] s);
          s = put (take 4 (drop 16 dhcp)) (put [OPT_REQUESTED_IP_ADDR, 4] s);
          s = put_str [99, 79, 83, 105, 114, 105, 115] (put [OPT_HOST_NAME, 7] s);
          (b, p) = put [OPT_END] (put [OPT_SUBNET_MASK, OPT_ROUTER, OPT_DNS] (put [OPT_PARAMETER_REQUEST_LIST, 3] s)) in
      take p b)"

section \<open>The options\<close>

text \<open>
  The loop over the addresses of a router or name server option: at most four are stored. \<open>len\<close> is a
  byte and wraps when it is no multiple of four.
\<close>

fun addr_loop :: "u8 list \<Rightarrow> nat \<Rightarrow> nat \<Rightarrow> u8 \<Rightarrow> nat \<Rightarrow> u32 list \<Rightarrow> u8 \<Rightarrow> (u32 list \<times> u8 \<times> nat \<times> u8) kres" where
  "addr_loop b 0 i len p arr n = Inr (arr, n, p, len)"
| "addr_loop b (Suc k) i len p arr n =
     (if len > 0 then need (p + 4) b (addr_loop b k (i + 1) (len - 4) (p + 4) (arr[i := ntohl (rd32 b p)]) (n + 1))
      else Inr (arr, n, p, len))"

text \<open>One option with code \<open>op\<close>, its data of \<open>len\<close> bytes at \<open>p\<close>: the new options and the place to go on.\<close>

definition parse_opt :: "u8 list \<Rightarrow> u8 \<Rightarrow> u8 \<Rightarrow> nat \<Rightarrow> dhcp_opts \<Rightarrow> (dhcp_opts \<times> nat) kres" where
  "parse_opt b op len p opts =
     (if op = OPT_MESSAGE_TYPE then bnd (aget b p) (\<lambda>c. Inr (opts\<lparr>do_type := c\<rparr>, p + unat len))
      else if op = OPT_SUBNET_MASK then need (p + 4) b (Inr (opts\<lparr>do_subnet_mask := ntohl (rd32 b p)\<rparr>, p + unat len))
      else if op = OPT_ROUTER then
        bnd (addr_loop b 4 0 len p (do_routers opts) (do_num_routers opts)) (\<lambda>(arr, n, p, len).
        Inr (opts\<lparr>do_routers := arr, do_num_routers := n\<rparr>, p + unat len))
      else if op = OPT_DNS then
        bnd (addr_loop b 4 0 len p (do_dns opts) (do_num_dns opts)) (\<lambda>(arr, n, p, len).
        Inr (opts\<lparr>do_dns := arr, do_num_dns := n\<rparr>, p + unat len))
      else if op = OPT_LEASE_TIME then need (p + 4) b (Inr (opts\<lparr>do_lease_time := ntohl (rd32 b p)\<rparr>, p + unat len))
      else if op = OPT_SERVER_ID then need (p + 4) b (Inr (opts\<lparr>do_server_id := ntohl (rd32 b p)\<rparr>, p + unat len))
      else bnd (aget b p) (\<lambda>_. Inr (opts, p + unat len)))"

lemma addr_loop_ge: "addr_loop b k i len p arr n = Inr (arr', n', p', len') \<Longrightarrow> p \<le> p'"
proof (induction k arbitrary: i len p arr n)
  case (Suc k)
  then show ?case by (auto simp: need_def split: if_splits) (meson le_add1 order_trans)
qed simp

lemma parse_opt_ge: "parse_opt b op len p opts = Inr (opts', p') \<Longrightarrow> p \<le> p'"
  by (auto simp: parse_opt_def need_def kres_simps split: if_splits dest!: addr_loop_ge)

function opts_loop :: "u8 list \<Rightarrow> nat \<Rightarrow> nat \<Rightarrow> dhcp_opts \<Rightarrow> dhcp_opts kres" where
  "opts_loop b len p opts =
     (if p < len then
        bnd (aget b p) (\<lambda>op.
        if op = OPT_END then Inr opts
        else
          bnd (aget b (p + 1)) (\<lambda>l.
          bnd (parse_opt b op l (p + 2) opts) (\<lambda>r. opts_loop b len (snd r) (fst r))))
      else Inr opts)"
  by pat_completeness auto
termination
proof (relation "measure (\<lambda>(b, len, p, opts). len - p)")
  fix b :: "u8 list" and len p :: nat and opts op l r
  assume "p < len" "parse_opt b op l (p + 2) opts = Inr r"
  with parse_opt_ge [of b op l "p + 2" opts "fst r" "snd r"]
  show "((b, len, snd r, fst r), b, len, p, opts) \<in> measure (\<lambda>(b, len, p, opts). len - p)" by auto
qed simp

declare opts_loop.simps [simp del]

definition dhcp_parse_opts :: "u8 list \<Rightarrow> u32 \<Rightarrow> dhcp_opts option kres" where
  "dhcp_parse_opts b len = need DHCP_HDR_SIZE b
     (if ntohl (rd32 b 236) \<noteq> MAGIC_COOKIE then Inr None
      else bnd (opts_loop b (unat len) DHCP_HDR_SIZE zero_opts) (\<lambda>opts. Inr (Some opts)))"

section \<open>The exchange\<close>

record dhcp_state =
  ds_nif :: netif
  ds_rt :: route_table
  ds_dns :: "u32 list"

text \<open>Memory for the two routes: whether there is some for the route, and the address of its node.\<close>

type_synonym route_mem = "(bool \<times> nat option) \<times> (bool \<times> nat option)"

fun dns_add_all :: "u32 list \<Rightarrow> nat \<Rightarrow> nat \<Rightarrow> u32 list \<Rightarrow> u32 list kres" where
  "dns_add_all dns i 0 srv = Inr srv"
| "dns_add_all dns i (Suc k) srv = bnd (aget dns i) (\<lambda>ip. bnd (dns_add ip srv) (\<lambda>(_, srv). dns_add_all dns (i + 1) k srv))"

definition dhcp_set_netif :: "route_mem \<Rightarrow> u8 list \<Rightarrow> dhcp_opts \<Rightarrow> dhcp_state \<Rightarrow> dhcp_state kres" where
  "dhcp_set_netif rm dhcp opts s =
     (let ip = ntohl (rd32 dhcp 16); nif = (ds_nif s)\<lparr>nif_ips := (nif_ips (ds_nif s))[0 := ip]\<rparr> in
      bnd (if do_num_routers opts > 0 then route_add (fst (fst rm)) (snd (fst rm)) 0 0 (do_routers opts ! 0) (nif_id nif) (ds_rt s)
           else Inr (0, ds_rt s)) (\<lambda>(_, rt).
      bnd (if do_subnet_mask opts \<noteq> 0
           then route_add (fst (snd rm)) (snd (snd rm)) (ip AND do_subnet_mask opts) (do_subnet_mask opts) 0 (nif_id nif) rt
           else Inr (0, rt)) (\<lambda>(_, rt).
      bnd (dns_add_all (do_dns opts) 0 (unat (do_num_dns opts)) (ds_dns s)) (\<lambda>srv.
      Inr (s\<lparr>ds_nif := nif, ds_rt := rt, ds_dns := srv\<rparr>)))))"

text \<open>
  \<open>dhcp_recv\<close> on the datagrams that arrive at the socket, in order: each is what \<open>udp_read\<close> returned and
  the array \<open>buf\<close> of 640 bytes afterwards. The result is the return value, or that the task waits for
  more, with the messages given to \<open>udp_write\<close>. For an offer the function calls itself for the answer to
  its request and ignores what that call returns.
\<close>

datatype dhcp_result = Dhcp_ret int | Dhcp_waits

fun dhcp_recv :: "int \<Rightarrow> route_mem \<Rightarrow> (int \<times> u8 list) list \<Rightarrow> dhcp_state \<Rightarrow> (dhcp_result \<times> u8 list list \<times> dhcp_state) kres" where
  "dhcp_recv pid rm [] s = Inr (Dhcp_waits, [], s)"
| "dhcp_recv pid rm ((n, b) # rest) s =
     need DHCP_HDR_SIZE b
      (if ntohl (rd32 b 4) \<noteq> dhcp_xid pid then Inr (Dhcp_ret (- 1), [], s)
       else
         bnd (dhcp_parse_opts b (word_of_int n)) (\<lambda>r. case r of
           None \<Rightarrow> Inr (Dhcp_ret (- 1), [], s)
         | Some opts \<Rightarrow>
             if do_type opts = DHCP_OFFER then
               bnd (dhcp_recv pid rm rest s) (\<lambda>(r, ms, s).
               Inr (case r of Dhcp_waits \<Rightarrow> Dhcp_waits | Dhcp_ret _ \<Rightarrow> Dhcp_ret 0, dhcp_request pid b opts # ms, s))
             else if do_type opts = DHCP_ACK then bnd (dhcp_set_netif rm b opts s) (\<lambda>s. Inr (Dhcp_ret 0, [], s))
             else Inr (Dhcp_ret (- 1), [], s)))"

text \<open>
  \<open>dhcp_init\<close> up to the discovery message, which it gives to \<open>udp_write\<close>, for the interface with index \<open>k\<close>;
  \<open>up\<close>: whether the interface has a driver. The last component is the interface with its address
  cleared. At the end the socket is closed.
\<close>

definition dhcp_init_start :: "bool \<Rightarrow> nat option \<Rightarrow> nat option \<Rightarrow> int \<Rightarrow> nat \<Rightarrow> netif \<Rightarrow> route_table \<Rightarrow> socks_table \<Rightarrow>
    ((nat \<times> u8 list) option \<times> socks_table \<times> netif) kres" where
  "dhcp_init_start up m a pid k nif rt t =
     (if \<not> up then Inr (None, t, nif)
      else
        let nif = nif\<lparr>nif_ips := (nif_ips nif)[0 := 0]\<rparr> in
        bnd (sock_alloc m a pid S_UDP t) (\<lambda>(r, t). case r of
          None \<Rightarrow> Inl Fault
        | Some p \<Rightarrow>
            bnd (sock_set_netif p (Some k) t) (\<lambda>t.
            bnd (sock_bind p \<lparr>sa_ip = 0, sa_port = DHCP_CLI_PORT\<rparr> t) (\<lambda>(_, _, t).
            bnd (udp_connect p \<lparr>sa_ip = 0xFFFFFFFF, sa_port = DHCP_SRV_PORT\<rparr> rt t) (\<lambda>(_, t).
            Inr (Some (p, dhcp_discover pid (nif_mac nif)), t, nif))))))"

definition dhcp_init_end :: "nat \<Rightarrow> socks_table \<Rightarrow> socks_table kres" where
  "dhcp_init_end p t = bnd (udp_close p t) (\<lambda>(_, t). Inr t)"

section \<open>Options on the wire\<close>

text \<open>
  An option of a message, its encoding (code, length, data) and what the client keeps of it: the last
  value of a number, and of addresses the first four.
\<close>

datatype dopt = Dtype u8 | Dmask u32 | Drouters "u32 list" | Ddns "u32 list" | Dlease u32 | Dserver u32 | Dother u8 "u8 list"

definition addrs :: "u32 list \<Rightarrow> u8 list" where
  "addrs ips = concat (map (le32 \<circ> htonl) ips)"

fun enc_opt :: "dopt \<Rightarrow> u8 list" where
  "enc_opt (Dtype t) = [53, 1, t]"
| "enc_opt (Dmask m) = [1, 4] @ le32 (htonl m)"
| "enc_opt (Drouters rs) = [3, of_nat (4 * length rs)] @ addrs rs"
| "enc_opt (Ddns ds) = [6, of_nat (4 * length ds)] @ addrs ds"
| "enc_opt (Dlease l) = [51, 4] @ le32 (htonl l)"
| "enc_opt (Dserver i) = [54, 4] @ le32 (htonl i)"
| "enc_opt (Dother op d) = [op, of_nat (length d)] @ d"

fun opt_ok :: "dopt \<Rightarrow> bool" where
  "opt_ok (Drouters rs) \<longleftrightarrow> length rs < 64"
| "opt_ok (Ddns ds) \<longleftrightarrow> length ds < 64"
| "opt_ok (Dother op d) \<longleftrightarrow> op \<notin> {1, 3, 6, 51, 53, 54, 255} \<and> length d < 256"
| "opt_ok _ \<longleftrightarrow> True"

definition overlay :: "u32 list \<Rightarrow> u32 list \<Rightarrow> u32 list" where
  "overlay xs arr = take 4 xs @ drop (min 4 (length xs)) arr"

fun sem_opt :: "dopt \<Rightarrow> dhcp_opts \<Rightarrow> dhcp_opts" where
  "sem_opt (Dtype t) s = s\<lparr>do_type := t\<rparr>"
| "sem_opt (Dmask m) s = s\<lparr>do_subnet_mask := m\<rparr>"
| "sem_opt (Drouters rs) s = s\<lparr>do_routers := overlay rs (do_routers s), do_num_routers := do_num_routers s + of_nat (min 4 (length rs))\<rparr>"
| "sem_opt (Ddns ds) s = s\<lparr>do_dns := overlay ds (do_dns s), do_num_dns := do_num_dns s + of_nat (min 4 (length ds))\<rparr>"
| "sem_opt (Dlease l) s = s\<lparr>do_lease_time := l\<rparr>"
| "sem_opt (Dserver i) s = s\<lparr>do_server_id := i\<rparr>"
| "sem_opt (Dother op d) s = s"

definition enc_opts :: "dopt list \<Rightarrow> u8 list" where
  "enc_opts os = concat (map enc_opt os)"

definition sem_opts :: "dopt list \<Rightarrow> dhcp_opts \<Rightarrow> dhcp_opts" where
  "sem_opts os s = fold sem_opt os s"

lemma ntohl_htonl [simp]: "ntohl (htonl w) = w"
  by (simp add: ntohl_def htonl_def swap32_swap32)

lemma rd32_be: "rd32 (pre @ le32 w @ post) (length pre) = w"
  using rd32_append [of pre "le32 w @ post" 0] rd32_le32 [of w post] by simp

lemma addrs_Cons: "addrs (ip # ips) = le32 (htonl ip) @ addrs ips"
  by (simp add: addrs_def)

lemma length_addrs [simp]: "length (addrs ips) = 4 * length ips"
  by (induction ips) (simp_all add: addrs_def)

lemma u8_of_nat: "n < 256 \<Longrightarrow> unat (of_nat n :: u8) = n"
  by (simp add: unat_of_nat take_bit_nat_eq_self)

lemma addr_loop_ok:
  "length rs < 64 \<Longrightarrow> i + k = length arr \<Longrightarrow>
   addr_loop (pre @ addrs rs @ post) k i (of_nat (4 * length rs)) (length pre) arr n =
   Inr (take i arr @ take k rs @ drop (i + min k (length rs)) arr, n + of_nat (min k (length rs)),
     length pre + 4 * min k (length rs), of_nat (4 * (length rs - min k (length rs))))"
proof (induction k arbitrary: i rs pre arr n)
  case (Suc k)
  show ?case
  proof (cases rs)
    case (Cons r rs')
    have "addr_loop ((pre @ le32 (htonl r)) @ addrs rs' @ post) k (i + 1) (of_nat (4 * length rs')) (length (pre @ le32 (htonl r))) (arr[i := r]) (n + 1) =
       Inr (take (i + 1) (arr[i := r]) @ take k rs' @ drop (i + 1 + min k (length rs')) (arr[i := r]), n + 1 + of_nat (min k (length rs')),
         length (pre @ le32 (htonl r)) + 4 * min k (length rs'), of_nat (4 * (length rs' - min k (length rs'))))"
      using Suc.prems Cons by (intro Suc.IH) auto
    moreover have "take (Suc i) (arr[i := r]) = take i arr @ [r]" using Suc.prems by (simp add: take_Suc_conv_app_nth)
    moreover have "(0 :: u8) < of_nat (4 * length rs)"
      using u8_of_nat [of "4 * length rs"] Suc.prems(1) Cons by (simp only: word_less_nat_alt) simp
    moreover have "(of_nat (4 * length rs) :: u8) - 4 = of_nat (4 * length rs')" using Cons by simp
    moreover have "ntohl (rd32 (pre @ addrs rs @ post) (length pre)) = r"
      using rd32_be [of pre "htonl r" "addrs rs' @ post"] Cons by (simp add: addrs_Cons)
    ultimately show ?thesis using Cons by (simp add: need_def addrs_Cons del: of_nat_mult)
  qed (simp add: addrs_def)
qed (simp add: addrs_def)

lemma overlay_addr_loop:
  assumes "length rs < 64" and "length arr = 4"
  shows "addr_loop (pre @ addrs rs @ post) 4 0 (of_nat (4 * length rs)) (length pre) arr n =
    Inr (overlay rs arr, n + of_nat (min 4 (length rs)), length pre + 4 * min 4 (length rs), of_nat (4 * (length rs - min 4 (length rs))))"
    "length pre + 4 * min 4 (length rs) + unat (of_nat (4 * (length rs - min 4 (length rs))) :: u8) = length pre + 4 * length rs"
  using addr_loop_ok [of rs 0 4 arr pre post n] u8_of_nat [of "4 * (length rs - min 4 (length rs))"] assms
  by (simp_all add: overlay_def del: of_nat_mult)

lemma parse_opt_ok:
  assumes "opt_ok x" and "length (do_routers s) = 4" and "length (do_dns s) = 4" and "post \<noteq> []"
    and b: "b = pre @ enc_opt x @ post"
  shows "parse_opt b (b ! length pre) (b ! (length pre + 1)) (length pre + 2) s = Inr (sem_opt x s, length pre + length (enc_opt x))"
    "b ! length pre \<noteq> OPT_END"
proof -
  have n: "b ! length pre = enc_opt x ! 0" "b ! (length pre + 1) = enc_opt x ! 1" by (cases x; simp add: b nth_append)+
  have rd: "rd32 (pre @ o1 # o2 # le32 w @ post) (length pre + 2) = w" for o1 o2 w
    using rd32_be [of "pre @ [o1, o2]" w post] by simp
  have loop: "bnd (addr_loop (pre @ o1 # o2 # addrs rs @ post) 4 0 (of_nat (4 * length rs)) (length pre + 2) arr n)
        (\<lambda>(arr, n, p, len). Inr (f arr n, p + unat len)) =
      Inr (f (overlay rs arr) (n + of_nat (min 4 (length rs))), length pre + (2 + 4 * length rs))"
    if "length rs < 64" "length arr = 4" for rs arr o1 o2 n and f :: "u32 list \<Rightarrow> u8 \<Rightarrow> dhcp_opts"
    using overlay_addr_loop [OF that, of "pre @ [o1, o2]"] by (simp del: of_nat_mult)
  show "parse_opt b (b ! length pre) (b ! (length pre + 1)) (length pre + 2) s = Inr (sem_opt x s, length pre + length (enc_opt x))"
  proof (cases x)
    case (Drouters rs)
    then show ?thesis using assms(1,2) loop [where rs = rs and arr = "do_routers s" and f = "\<lambda>arr n. s\<lparr>do_routers := arr, do_num_routers := n\<rparr>"]
      unfolding n by (simp add: parse_opt_def b dhcp_consts del: of_nat_mult)
  next
    case (Ddns ds)
    then show ?thesis using assms(1,3) loop [where rs = ds and arr = "do_dns s" and f = "\<lambda>arr n. s\<lparr>do_dns := arr, do_num_dns := n\<rparr>"]
      unfolding n by (simp add: parse_opt_def b dhcp_consts del: of_nat_mult)
  next
    case (Dother op d)
    then show ?thesis using assms(1,4) u8_of_nat [of "length d"] unfolding n by (simp add: parse_opt_def b dhcp_consts aget_def)
  qed (use rd n in \<open>simp_all add: parse_opt_def b dhcp_consts need_def nth_append\<close>)
  show "b ! length pre \<noteq> OPT_END" unfolding n using assms(1) by (cases x) (auto simp: dhcp_consts)
qed

lemma sem_opt_lengths: "length (do_routers s) = 4 \<Longrightarrow> length (do_dns s) = 4 \<Longrightarrow>
    length (do_routers (sem_opt x s)) = 4 \<and> length (do_dns (sem_opt x s)) = 4"
  by (cases x) (auto simp: overlay_def)

lemma length_enc_opt: "2 \<le> length (enc_opt x)"
  by (cases x) simp_all

lemma opts_loop_ok:
  "list_all opt_ok os \<Longrightarrow> length (do_routers s) = 4 \<Longrightarrow> length (do_dns s) = 4 \<Longrightarrow> length pre + length (enc_opts os) < len \<Longrightarrow>
   opts_loop (pre @ enc_opts os @ OPT_END # post) len (length pre) s = Inr (sem_opts os s)"
proof (induction os arbitrary: pre s)
  case Nil
  then show ?case by (subst opts_loop.simps) (simp add: enc_opts_def sem_opts_def)
next
  case (Cons x os)
  let ?b = "pre @ enc_opts (x # os) @ OPT_END # post"
  have b: "?b = pre @ enc_opt x @ enc_opts os @ OPT_END # post" by (simp add: enc_opts_def)
  have len: "length pre + 1 < length ?b" using length_enc_opt [of x] unfolding b length_append by linarith
  have "opts_loop ?b len (length pre) s = opts_loop ?b len (length pre + length (enc_opt x)) (sem_opt x s)"
    using parse_opt_ok [OF _ Cons.prems(2,3) _ b] Cons.prems(1,4) len by (subst opts_loop.simps) simp
  also have "\<dots> = Inr (sem_opts os (sem_opt x s))"
    using Cons.IH [of "sem_opt x s" "pre @ enc_opt x"] Cons.prems sem_opt_lengths [of s x] by (simp add: enc_opts_def)
  finally show ?case by (simp add: sem_opts_def)
qed

section \<open>Messages\<close>

text \<open>\<open>emitted pre s\<close>: the bytes before \<open>ptr\<close> are \<open>pre\<close>.\<close>

definition emitted :: "u8 list \<Rightarrow> u8 list \<times> nat \<Rightarrow> bool" where
  "emitted pre s \<longleftrightarrow> length (fst s) = 512 \<and> snd s = length pre \<and> length pre \<le> 512 \<and> take (length pre) (fst s) = pre"

lemma emitted_put: "emitted pre s \<Longrightarrow> length pre + length bs \<le> 512 \<Longrightarrow> emitted (pre @ bs) (put bs s)"
  by (cases s) (auto simp: emitted_def put_def splice_def)

lemma emitted_put_str: "emitted pre s \<Longrightarrow> length pre + length bs < 512 \<Longrightarrow> emitted (pre @ bs) (put_str bs s)"
  by (cases s) (auto simp: emitted_def put_str_def splice_def)

lemma emitted_take: "emitted pre s \<Longrightarrow> (case s of (b, p) \<Rightarrow> take p b) = pre"
  by (cases s) (simp add: emitted_def)

lemma build_hdr_length [simp]: "length (dhcp_build_hdr xid mac (replicate 512 0)) = 512"
  by (simp add: dhcp_build_hdr_def Let_def MAC_SIZE_def)

lemma build_hdr_fields:
  "rd32 (dhcp_build_hdr xid mac (replicate 512 0)) 4 = htonl xid" "rd32 (dhcp_build_hdr xid mac (replicate 512 0)) 236 = htonl MAGIC_COOKIE"
proof -
  have n: "(dhcp_build_hdr xid mac (replicate 512 0)) ! k = (le32 (htonl xid) @ []) ! (k - 4)" if "k \<in> {4, 5, 6, 7}" for k
    using that by (auto simp: dhcp_build_hdr_def Let_def MAC_SIZE_def wr32_def wr16_def nth_splice)
  then have "rd32 (dhcp_build_hdr xid mac (replicate 512 0)) 4 = rd32 (le32 (htonl xid) @ []) 0"
    by (intro rd32_nths) (simp_all add: n numeral_2_eq_2)
  then show "rd32 (dhcp_build_hdr xid mac (replicate 512 0)) 4 = htonl xid" by (simp only: rd32_le32)
  show "rd32 (dhcp_build_hdr xid mac (replicate 512 0)) 236 = htonl MAGIC_COOKIE"
    by (simp add: dhcp_build_hdr_def Let_def MAC_SIZE_def byte_simps)
qed

definition request_opts :: "u32 \<Rightarrow> u8 list \<Rightarrow> dopt list" where
  "request_opts server ip = [Dtype DHCP_REQUEST, Dserver server, Dother 50 ip, Dother 12 [99, 79, 83, 105, 114, 105, 115], Dother 55 [1, 3, 6]]"

lemma dhcp_request_layout:
  assumes "20 \<le> length b"
  shows "\<exists>h. dhcp_request pid b opts = h @ enc_opts (request_opts (do_server_id opts) (take 4 (drop 16 b))) @ [OPT_END] \<and> length h = 240 \<and>
    ntohl (rd32 h 4) = dhcp_xid pid \<and> ntohl (rd32 h 236) = MAGIC_COOKIE"
proof -
  define hb where "hb = dhcp_build_hdr (dhcp_xid pid) (drop 28 b) (replicate 512 0)"
  let ?h = "take 240 hb"
  have l: "length hb = 512" "length ?h = 240" by (simp_all add: hb_def)
  have r: "rd32 ?h 4 = rd32 hb 4" "rd32 ?h 236 = rd32 hb 236" using l by (simp_all add: rd32_def)
  have e0: "emitted ?h (hb, DHCP_HDR_SIZE)" using l by (simp add: emitted_def DHCP_HDR_SIZE_def)
  have "length (take 4 (drop 16 b)) = 4" using assms by simp
  then show ?thesis
    using emitted_take [OF emitted_put [OF emitted_put [OF emitted_put [OF emitted_put_str [OF emitted_put [OF emitted_put [OF emitted_put
      [OF emitted_put [OF emitted_put [OF emitted_put [OF e0, of "[OPT_MESSAGE_TYPE, 1, DHCP_REQUEST]"], of "[OPT_SERVER_ID, 4]"],
        of "le32 (htonl (do_server_id opts))"], of "[OPT_REQUESTED_IP_ADDR, 4]"], of "take 4 (drop 16 b)"], of "[OPT_HOST_NAME, 7]"],
        of "[99, 79, 83, 105, 114, 105, 115]"], of "[OPT_PARAMETER_REQUEST_LIST, 3]"], of "[OPT_SUBNET_MASK, OPT_ROUTER, OPT_DNS]"], of "[OPT_END]"]] l r
    build_hdr_fields [of "dhcp_xid pid" "drop 28 b"]
    by (intro exI [of _ ?h]) (simp add: dhcp_request_def Let_def hb_def [symmetric] enc_opts_def request_opts_def dhcp_consts)
qed

text \<open>A message with the options \<open>os\<close> for the client with process number \<open>pid\<close>, \<open>e\<close> bytes long.\<close>

definition dhcp_msg :: "int \<Rightarrow> nat \<Rightarrow> u32 \<Rightarrow> dopt list \<Rightarrow> u8 list \<Rightarrow> bool" where
  "dhcp_msg pid e yip os b \<longleftrightarrow> (\<exists>h post. length h = 240 \<and> b = h @ enc_opts os @ OPT_END # post) \<and> list_all opt_ok os \<and>
     240 + length (enc_opts os) < e \<and> e < 2 ^ 32 \<and> ntohl (rd32 b 4) = dhcp_xid pid \<and> ntohl (rd32 b 236) = MAGIC_COOKIE \<and>
     ntohl (rd32 b 16) = yip"

lemma dhcp_msg_parsed:
  assumes "dhcp_msg pid e yip os b"
  shows "dhcp_parse_opts b (word_of_int (int e)) = Inr (Some (sem_opts os zero_opts))" "240 \<le> length b"
proof -
  obtain h post where h: "length h = 240" "b = h @ enc_opts os @ OPT_END # post" and m: "list_all opt_ok os" "240 + length (enc_opts os) < e" "e < 2 ^ 32"
      "ntohl (rd32 b 236) = MAGIC_COOKIE"
    using assms unfolding dhcp_msg_def by blast
  have "unat (word_of_int (int e) :: u32) = e" using m(3) by (simp add: unat_of_nat take_bit_nat_eq_self)
  moreover have "opts_loop b e 240 zero_opts = Inr (sem_opts os zero_opts)"
    using opts_loop_ok [of os zero_opts h e post] h m by (simp add: zero_opts_def)
  ultimately show "dhcp_parse_opts b (word_of_int (int e)) = Inr (Some (sem_opts os zero_opts))"
    using h m by (simp add: dhcp_parse_opts_def need_def DHCP_HDR_SIZE_def)
  show "240 \<le> length b" using h by simp
qed

text \<open>
  The parser of DHCP options is correct for messages with any options in any order, unknown ones
  included: it stops at the end option and returns the values of the options, of the routers and name
  servers the first four each.
\<close>

theorem dhcp_options_parsed:
  assumes "list_all opt_ok os" and "length h = 240" and "ntohl (rd32 (h @ enc_opts os @ OPT_END # post) 236) = MAGIC_COOKIE"
    and "240 + length (enc_opts os) < unat len"
  shows "dhcp_parse_opts (h @ enc_opts os @ OPT_END # post) len = Inr (Some (sem_opts os zero_opts))"
proof -
  have "opts_loop (h @ enc_opts os @ OPT_END # post) (unat len) (length h) zero_opts = Inr (sem_opts os zero_opts)"
    using assms by (intro opts_loop_ok) (simp_all add: zero_opts_def)
  then show ?thesis using assms by (simp add: dhcp_parse_opts_def need_def DHCP_HDR_SIZE_def)
qed

lemma cookie_bytes: "le32 (htonl MAGIC_COOKIE) = [0x63, 0x82, 0x53, 0x63]"
  by code_simp

theorem dhcp_options_parsed_witness:
  "\<exists>opts. dhcp_parse_opts (replicate 236 0 @ [0x63, 0x82, 0x53, 0x63] @ enc_opts [Dtype 2, Dother 12 [65], Drouters [1, 2, 3, 4, 5]] @ [OPT_END]) 600 =
      Inr (Some opts) \<and> do_type opts = 2 \<and> do_routers opts = [1, 2, 3, 4] \<and> do_num_routers opts = 4"
proof -
  let ?h = "replicate 236 0 @ [0x63, 0x82, 0x53, 0x63] :: u8 list"
  let ?os = "[Dtype 2, Dother 12 [65], Drouters [1, 2, 3, 4, 5]]"
  have "ntohl (rd32 (?h @ enc_opts ?os @ OPT_END # []) 236) = MAGIC_COOKIE"
    using rd32_be [of "replicate 236 0" "htonl MAGIC_COOKIE" "enc_opts ?os @ [OPT_END]"] by (simp add: cookie_bytes)
  from dhcp_options_parsed [OF _ _ this, of 600]
  show ?thesis by (simp add: enc_opts_def sem_opts_def overlay_def zero_opts_def)
qed

section \<open>The lease\<close>

lemma dns_add_loop_ok:
  "length srv = 4 \<Longrightarrow> i < 4 \<Longrightarrow> k \<le> 4 \<Longrightarrow> 4 - k \<le> i \<Longrightarrow> srv ! i = 0 \<Longrightarrow> (\<forall>j<i. srv ! j \<noteq> 0) \<Longrightarrow> dns_add_loop ip k srv = Inr (0, srv[i := ip])"
proof (induction k)
  case (Suc k)
  show ?case
  proof (cases "4 - Suc k = i")
    case False
    then have "srv ! (4 - Suc k) \<noteq> 0" "dns_add_loop ip k srv = Inr (0, srv[i := ip])" using Suc by auto
    then show ?thesis using Suc.prems by (simp add: MAX_DNS_SERVERS_def)
  qed (use Suc.prems in \<open>simp add: MAX_DNS_SERVERS_def\<close>)
qed simp

lemma dns_add_all_ok:
  "length dns = 4 \<Longrightarrow> i + k \<le> 4 \<Longrightarrow> (\<forall>j<i + k. dns ! j \<noteq> 0) \<Longrightarrow>
   dns_add_all dns i k (take i dns @ replicate (4 - i) 0) = Inr (take (i + k) dns @ replicate (4 - (i + k)) 0)"
proof (induction k arbitrary: i)
  case (Suc k)
  let ?srv = "take i dns @ replicate (4 - i) 0"
  have "replicate (4 - i) (0 :: u32) = 0 # replicate (4 - (i + 1)) 0" using Suc.prems(2) by (simp add: replicate_Suc [symmetric] Suc_diff_Suc del: replicate_Suc)
  then have "?srv[i := dns ! i] = take (i + 1) dns @ replicate (4 - (i + 1)) 0"
    using Suc.prems by (simp add: list_update_append take_Suc_conv_app_nth)
  moreover have "dns_add (dns ! i) ?srv = Inr (0, ?srv[i := dns ! i])"
    using Suc.prems unfolding dns_add_def by (intro dns_add_loop_ok) (auto simp: nth_append MAX_DNS_SERVERS_def)
  moreover have "dns_add_all dns (i + 1) k (take (i + 1) dns @ replicate (4 - (i + 1)) 0) = Inr (take (i + 1 + k) dns @ replicate (4 - (i + 1 + k)) 0)"
    using Suc.prems by (intro Suc.IH) auto
  ultimately show ?case using Suc.prems by simp
qed simp

lemma sem_opts_lengths: "length (do_dns (sem_opts os zero_opts)) = 4" "length (do_routers (sem_opts os zero_opts)) = 4"
proof -
  have "length (do_routers s) = 4 \<and> length (do_dns s) = 4 \<Longrightarrow> length (do_routers (sem_opts os s)) = 4 \<and> length (do_dns (sem_opts os s)) = 4" for s
    unfolding sem_opts_def by (induction os arbitrary: s) (simp_all add: sem_opt_lengths)
  then show "length (do_dns (sem_opts os zero_opts)) = 4" "length (do_routers (sem_opts os zero_opts)) = 4" by (simp_all add: zero_opts_def)
qed

text \<open>The routes of a lease: the default route through the router, and the network of the interface.\<close>

definition lease_routes :: "nat \<Rightarrow> u32 \<Rightarrow> dhcp_opts \<Rightarrow> route set" where
  "lease_routes k ip opts = {\<lparr>rt_base = 0, rt_mask = 0, rt_gateway = do_routers opts ! 0, rt_netif = k\<rparr>,
     \<lparr>rt_base = ip AND do_subnet_mask opts, rt_mask = do_subnet_mask opts, rt_gateway = 0, rt_netif = k\<rparr>}"

definition lease_new :: "u32 \<Rightarrow> u32 \<Rightarrow> route set \<Rightarrow> bool" where
  "lease_new ip msk rs \<longleftrightarrow> (\<forall>r\<in>rs. rt_mask r \<noteq> 0 \<and> \<not> (rt_base r = ip AND msk \<and> rt_mask r = msk))"

lemma set_netif_ok:
  assumes t: "table_ok (ds_rt s) ps" "length ps + 2 < 2 ^ 32" "l_mem (rt_routes (ds_rt s)) a1 = None" "l_mem (rt_routes (ds_rt s)) a2 = None" "a1 \<noteq> a2"
    and new: "lease_new (ntohl (rd32 b 16)) (do_subnet_mask opts) (set (routes (ds_rt s) ps))"
    and o: "0 < do_num_routers opts" "do_subnet_mask opts \<noteq> 0" "length (do_dns opts) = 4" "unat (do_num_dns opts) \<le> 4"
      "\<forall>j<unat (do_num_dns opts). do_dns opts ! j \<noteq> 0"
    and dns: "ds_dns s = replicate 4 0"
  shows "\<exists>rt ps'. dhcp_set_netif ((True, Some a1), (True, Some a2)) b opts s = Inr (s\<lparr>ds_nif := (ds_nif s)\<lparr>nif_ips := (nif_ips (ds_nif s))[0 := ntohl (rd32 b 16)]\<rparr>,
      ds_rt := rt, ds_dns := take (unat (do_num_dns opts)) (do_dns opts) @ replicate (4 - unat (do_num_dns opts)) 0\<rparr>) \<and>
    table_ok rt ps' \<and> set (routes rt ps') = lease_routes (nif_id (ds_nif s)) (ntohl (rd32 b 16)) opts \<union> set (routes (ds_rt s) ps)"
proof -
  let ?ip = "ntohl (rd32 b 16)" and ?m = "do_subnet_mask opts" and ?k = "nif_id (ds_nif s)"
  let ?r1 = "\<lparr>rt_base = 0 AND 0, rt_mask = 0, rt_gateway = do_routers opts ! 0, rt_netif = ?k\<rparr>"
  have n1: "\<not> (\<exists>x\<in>set (routes (ds_rt s) ps). rt_base x = 0 AND 0 \<and> rt_mask x = 0)" using new by (auto simp: lease_new_def)
  have l1: "length ps + 1 < 2 ^ 32" using t(2) by simp
  obtain t1 ps1 where t1: "route_add True (Some a1) 0 0 (do_routers opts ! 0) ?k (ds_rt s) = Inr (0, t1)" "table_ok t1 ps1"
      "set (routes t1 ps1) = insert ?r1 (set (routes (ds_rt s) ps))"
    using route_add_spec [OF t(1,3) l1 refl n1] by blast
  have n2: "\<not> (\<exists>x\<in>set (routes t1 ps1). rt_base x = (?ip AND ?m) AND ?m \<and> rt_mask x = ?m)"
    using new o(2) by (auto simp: t1(3) lease_new_def and.assoc)
  have f2: "l_mem (rt_routes t1) a2 = None" using route_add_fresh [OF t1(1) t(4)] t(5) by simp
  have l2: "length ps1 + 1 < 2 ^ 32" using table_ok_length [OF t(1) t1(2,3)] t(2) by simp
  obtain t2 ps2 where t2: "route_add True (Some a2) (?ip AND ?m) ?m 0 ?k t1 = Inr (0, t2)" "table_ok t2 ps2"
      "set (routes t2 ps2) = insert \<lparr>rt_base = (?ip AND ?m) AND ?m, rt_mask = ?m, rt_gateway = 0, rt_netif = ?k\<rparr> (set (routes t1 ps1))"
    using route_add_spec [OF t1(2) f2 l2 refl n2] by blast
  have "dns_add_all (do_dns opts) 0 (unat (do_num_dns opts)) (replicate 4 0) =
      Inr (take (unat (do_num_dns opts)) (do_dns opts) @ replicate (4 - unat (do_num_dns opts)) 0)"
    using dns_add_all_ok [of "do_dns opts" 0 "unat (do_num_dns opts)"] o by simp
  then show ?thesis
    using t1 t2 o dns by (intro exI [of _ t2] exI [of _ ps2]) (auto simp: dhcp_set_netif_def Let_def lease_routes_def and.assoc)
qed

text \<open>
  C34. The exchange with a DHCP server configures the interface: for an offer and an acknowledgement
  that carry the client's transaction number, the client answers the offer with one request that names
  the server and the address that was offered, and the acknowledgement gives the interface its
  address, adds exactly the default route and the route of the network, in the order of the table, and
  records the name servers.
\<close>

theorem dhcp_configures:
  assumes offer: "dhcp_msg pid e1 yip os1 b1" "do_type (sem_opts os1 zero_opts) = DHCP_OFFER"
    and ack: "dhcp_msg pid e2 ip os2 b2" "opts = sem_opts os2 zero_opts" "do_type opts = DHCP_ACK"
    and o: "0 < do_num_routers opts" "do_subnet_mask opts \<noteq> 0" "unat (do_num_dns opts) \<le> 4" "\<forall>j<unat (do_num_dns opts). do_dns opts ! j \<noteq> 0"
    and t: "table_ok (ds_rt s) ps" "length ps + 2 < 2 ^ 32" "l_mem (rt_routes (ds_rt s)) a1 = None" "l_mem (rt_routes (ds_rt s)) a2 = None" "a1 \<noteq> a2"
    and new: "lease_new ip (do_subnet_mask opts) (set (routes (ds_rt s) ps))"
    and dns: "ds_dns s = replicate 4 0"
  shows "\<exists>h s' ps'. dhcp_recv pid ((True, Some a1), (True, Some a2)) [(int e1, b1), (int e2, b2)] s =
      Inr (Dhcp_ret 0, [h @ enc_opts (request_opts (do_server_id (sem_opts os1 zero_opts)) (take 4 (drop 16 b1))) @ [OPT_END]], s') \<and>
    length h = 240 \<and> ntohl (rd32 h 4) = dhcp_xid pid \<and> ntohl (rd32 h 236) = MAGIC_COOKIE \<and>
    nif_ips (ds_nif s') = (nif_ips (ds_nif s))[0 := ip] \<and> table_ok (ds_rt s') ps' \<and>
    set (routes (ds_rt s') ps') = lease_routes (nif_id (ds_nif s)) ip opts \<union> set (routes (ds_rt s) ps) \<and>
    ds_dns s' = take (unat (do_num_dns opts)) (do_dns opts) @ replicate (4 - unat (do_num_dns opts)) 0"
proof -
  note P1 = dhcp_msg_parsed [OF offer(1)] and P2 = dhcp_msg_parsed [OF ack(1)]
  have x: "ntohl (rd32 b1 4) = dhcp_xid pid" "ntohl (rd32 b2 4) = dhcp_xid pid" "ntohl (rd32 b2 16) = ip"
    using offer(1) ack(1) by (auto simp: dhcp_msg_def)
  have "20 \<le> length b1" using P1(2) by simp
  from dhcp_request_layout [OF this, of pid "sem_opts os1 zero_opts"] obtain h where
    h: "dhcp_request pid b1 (sem_opts os1 zero_opts) = h @ enc_opts (request_opts (do_server_id (sem_opts os1 zero_opts)) (take 4 (drop 16 b1))) @ [OPT_END]"
      "length h = 240" "ntohl (rd32 h 4) = dhcp_xid pid" "ntohl (rd32 h 236) = MAGIC_COOKIE" by blast
  have l4: "length (do_dns opts) = 4" using sem_opts_lengths ack(2) by simp
  have new': "lease_new (ntohl (rd32 b2 16)) (do_subnet_mask opts) (set (routes (ds_rt s) ps))" using new x by simp
  obtain rt ps' where N: "dhcp_set_netif ((True, Some a1), (True, Some a2)) b2 opts s = Inr (s\<lparr>ds_nif := (ds_nif s)\<lparr>nif_ips := (nif_ips (ds_nif s))[0 := ip]\<rparr>,
      ds_rt := rt, ds_dns := take (unat (do_num_dns opts)) (do_dns opts) @ replicate (4 - unat (do_num_dns opts)) 0\<rparr>)"
      "table_ok rt ps'" "set (routes rt ps') = lease_routes (nif_id (ds_nif s)) ip opts \<union> set (routes (ds_rt s) ps)"
    using set_netif_ok [OF t new' o(1,2) l4 o(3,4) dns] unfolding x(3) by blast
  show ?thesis
    using P1 P2 x offer(2) ack(2,3) h N
    by (intro exI [of _ h] exI [of _ "s\<lparr>ds_nif := (ds_nif s)\<lparr>nif_ips := (nif_ips (ds_nif s))[0 := ip]\<rparr>,
      ds_rt := rt, ds_dns := take (unat (do_num_dns opts)) (do_dns opts) @ replicate (4 - unat (do_num_dns opts)) 0\<rparr>"] exI [of _ ps'])
      (simp add: need_def DHCP_HDR_SIZE_def DHCP_OFFER_def DHCP_ACK_def)
qed

text \<open>An offer and an acknowledgement of 10.0.2.15 from the server 10.0.2.2.\<close>

definition sample_header :: "u8 list" where
  "sample_header = [2, 1, 6, 0, 0xC0, 0x51, 0, 7] @ replicate 8 0 @ [10, 0, 2, 15] @ replicate 216 0 @ [0x63, 0x82, 0x53, 0x63]"

definition sample_offer :: "dopt list" where
  "sample_offer = [Dtype 2, Dserver 0x0A000202]"

definition sample_ack :: "dopt list" where
  "sample_ack = [Dtype 5, Dmask 0xFFFFFF00, Drouters [0x0A000202], Ddns [0x0A000203], Dother 15 [120, 46, 121]]"

definition sample_dhcp :: dhcp_state where
  "sample_dhcp = \<lparr>ds_nif = \<lparr>nif_id = 0, nif_mac = replicate 6 2, nif_ips = [0], nif_up = True\<rparr>, ds_rt = \<lparr>rt_routes = list_open, rt_lock = False\<rparr>,
     ds_dns = replicate 4 0\<rparr>"

lemma sample_msg:
  assumes "list_all opt_ok os" and "length (enc_opts os) \<le> 100"
  shows "dhcp_msg 7 400 0x0A00020F os (sample_header @ enc_opts os @ OPT_END # [])"
proof -
  have n: "ntohl (rd32 sample_header 4) = dhcp_xid 7" "ntohl (rd32 sample_header 16) = 0x0A00020F" "ntohl (rd32 sample_header 236) = MAGIC_COOKIE"
    by code_simp+
  have l: "length sample_header = 240" by (simp add: sample_header_def)
  have "rd32 (sample_header @ r) k = rd32 sample_header k" if "k \<le> 236" for r k using that l by (simp add: rd32_def nth_append)
  moreover have "\<exists>h post. length h = 240 \<and> sample_header @ enc_opts os @ OPT_END # [] = h @ enc_opts os @ OPT_END # post" using l by blast
  ultimately show ?thesis unfolding dhcp_msg_def using n l assms by simp
qed

theorem dhcp_configures_witness:
  "\<exists>h s'. dhcp_recv 7 ((True, Some 1), (True, Some 2))
      [(400, sample_header @ enc_opts sample_offer @ OPT_END # []), (400, sample_header @ enc_opts sample_ack @ OPT_END # [])] sample_dhcp =
      Inr (Dhcp_ret 0, [h @ enc_opts (request_opts 0x0A000202 [10, 0, 2, 15]) @ [OPT_END]], s') \<and>
    nif_ips (ds_nif s') = [0x0A00020F] \<and> ds_dns s' = [0x0A000203, 0, 0, 0]"
proof -
  have a: "list_all opt_ok sample_offer" "list_all opt_ok sample_ack" "length (enc_opts sample_offer) \<le> 100" "length (enc_opts sample_ack) \<le> 100"
    by (simp_all add: sample_offer_def sample_ack_def enc_opts_def)
  have s: "sem_opts sample_offer zero_opts = zero_opts\<lparr>do_type := 2, do_server_id := 0x0A000202\<rparr>"
    "sem_opts sample_ack zero_opts = zero_opts\<lparr>do_type := 5, do_subnet_mask := 0xFFFFFF00, do_routers := [0x0A000202, 0, 0, 0], do_num_routers := 1,
      do_dns := [0x0A000203, 0, 0, 0], do_num_dns := 1\<rparr>"
    by (simp_all add: sem_opts_def sample_offer_def sample_ack_def overlay_def zero_opts_def numeral_eq_Suc)
  have t: "table_ok (ds_rt sample_dhcp) []" by (simp add: table_ok_def sample_dhcp_def repr_def list_open_def)
  have d: "take 4 (drop 16 (sample_header @ r)) = [10, 0, 2, 15]" for r by (simp add: sample_header_def)
  define opts where "opts = sem_opts sample_ack zero_opts"
  have o: "do_type opts = DHCP_ACK" "0 < do_num_routers opts" "do_subnet_mask opts \<noteq> 0" "unat (do_num_dns opts) \<le> 4"
      "\<forall>j<unat (do_num_dns opts). do_dns opts ! j \<noteq> 0"
    unfolding opts_def s by (simp_all add: DHCP_ACK_def)
  have f: "length ([] :: nat list) + 2 < 2 ^ 32" "l_mem (rt_routes (ds_rt sample_dhcp)) 1 = None" "l_mem (rt_routes (ds_rt sample_dhcp)) 2 = None"
      "(1 :: nat) \<noteq> 2" "lease_new 0x0A00020F (do_subnet_mask opts) (set (routes (ds_rt sample_dhcp) []))" "ds_dns sample_dhcp = replicate 4 0"
    by (simp_all add: sample_dhcp_def list_open_def lease_new_def)
  have "do_type (sem_opts sample_offer zero_opts) = DHCP_OFFER" by (simp add: s DHCP_OFFER_def)
  from dhcp_configures [OF sample_msg [OF a(1,3)] this sample_msg [OF a(2,4)] opts_def o t f]
  obtain h s' where "dhcp_recv 7 ((True, Some 1), (True, Some 2))
      [(int 400, sample_header @ enc_opts sample_offer @ OPT_END # []), (int 400, sample_header @ enc_opts sample_ack @ OPT_END # [])] sample_dhcp =
      Inr (Dhcp_ret 0, [h @ enc_opts (request_opts 0x0A000202 [10, 0, 2, 15]) @ [OPT_END]], s')"
    "nif_ips (ds_nif s') = (nif_ips (ds_nif sample_dhcp))[0 := 0x0A00020F]"
    "ds_dns s' = take (unat (do_num_dns opts)) (do_dns opts) @ replicate (4 - unat (do_num_dns opts)) 0"
    unfolding d s(1) by auto
  moreover have "take (unat (do_num_dns opts)) (do_dns opts) @ replicate (4 - unat (do_num_dns opts)) 0 = [0x0A000203, 0, 0, 0]"
    by (simp add: opts_def s numeral_eq_Suc)
  moreover have "(nif_ips (ds_nif sample_dhcp))[0 := 0x0A00020F] = [0x0A00020F]" by (simp add: sample_dhcp_def)
  ultimately show ?thesis by auto
qed

text \<open>
  A refusal that follows an offer is reported as success: the result of the recursive call is ignored,
  and the interface stays without an address. Padding is taken for an option with a length.
\<close>

lemma refusal_reported_as_success:
  assumes "dhcp_msg pid e1 yip os1 b1" "do_type (sem_opts os1 zero_opts) = DHCP_OFFER"
    and "dhcp_msg pid e2 yip2 os2 b2" "do_type (sem_opts os2 zero_opts) = 6"
  shows "\<exists>m. dhcp_recv pid rm [(int e1, b1), (int e2, b2)] s = Inr (Dhcp_ret 0, [m], s)"
  using assms dhcp_msg_parsed [OF assms(1)] dhcp_msg_parsed [OF assms(3)]
  by (auto simp: need_def DHCP_HDR_SIZE_def DHCP_OFFER_def DHCP_ACK_def dhcp_msg_def)

lemma padding_swallows_option:
  "opts_loop ([0] @ enc_opts [Dtype 2] @ [OPT_END]) 5 0 zero_opts = Inr zero_opts"
  by (simp add: opts_loop.simps enc_opts_def parse_opt_def dhcp_consts aget_def)

end
