(* ===== verification/Stdio.thy ===== *)
theory Stdio
  imports Pipe Sysfile Vsnprintf
begin

text \<open>
  Buffered files of user programs (\<open>lib/file.c\<close>, \<open>lib/printf.c\<close>, \<open>lib/fprintf.c\<close>). A program reaches the
  kernel through system calls; they are the record \<open>os_ops\<close>, over an arbitrary state, and two instances
  are given: the kernel's calls on files, and the two ends of a pipe. \<open>head\<close> and \<open>tail\<close> count the bytes put
  into and taken from a buffer; they are \<open>int\<close> here and in the code.
\<close>

section \<open>Files\<close>

definition EOF :: int where "EOF = - 1"
definition BUF_SIZE :: int where "BUF_SIZE = 512"
definition OPEN_MAX :: nat where "OPEN_MAX = 10"
definition GETLINE_INIT_SIZE :: nat where "GETLINE_INIT_SIZE = 16"
definition IOB_INIT_NUMSLOTS :: nat where "IOB_INIT_NUMSLOTS = 16"
definition F_RDONLY :: u32 where "F_RDONLY = 1"
definition F_WRONLY :: u32 where "F_WRONLY = 2"
definition F_RDWR :: u32 where "F_RDWR = 4"
definition F_UNBUF :: u32 where "F_UNBUF = 8"
definition F_EOF :: u32 where "F_EOF = 16"
definition F_ERR :: u32 where "F_ERR = 32"

lemmas f_consts = F_RDONLY_def F_WRONLY_def F_RDWR_def F_UNBUF_def F_EOF_def F_ERR_def EOF_def

record FILE =
  io_buf :: "u8 list option"
  io_head :: int
  io_tail :: int
  io_size :: int
  io_flags :: u32
  io_fd :: int

definition zero_FILE :: FILE where
  "zero_FILE = \<lparr>io_buf = None, io_head = 0, io_tail = 0, io_size = 0, io_flags = 0, io_fd = 0\<rparr>"

record 's os_ops =
  os_read :: "int \<Rightarrow> nat \<Rightarrow> 's \<Rightarrow> ((int \<times> u8 list) \<times> 's) kres"
  os_write :: "int \<Rightarrow> u8 list \<Rightarrow> 's \<Rightarrow> (int \<times> 's) kres"
  os_open :: "u8 list \<Rightarrow> u32 \<Rightarrow> u32 \<Rightarrow> 's \<Rightarrow> (int \<times> 's) kres"
  os_close :: "int \<Rightarrow> 's \<Rightarrow> (int \<times> 's) kres"

definition IOB_EMPTY :: "FILE \<Rightarrow> bool" where
  "IOB_EMPTY f \<longleftrightarrow> io_tail f = io_head f"

definition IOB_FULL :: "FILE \<Rightarrow> bool" where
  "IOB_FULL f \<longleftrightarrow> io_head f - io_tail f \<ge> io_size f"

text \<open>\<open>alloc\<close> is what \<open>malloc\<close> returns; \<open>realloc\<close> keeps what fits of the old object.\<close>

definition realloc_bytes :: "(nat \<Rightarrow> u8 list option) \<Rightarrow> u8 list option \<Rightarrow> nat \<Rightarrow> u8 list option" where
  "realloc_bytes alloc old n = map_option (\<lambda>f. case old of None \<Rightarrow> f | Some b \<Rightarrow> take n b @ drop (length b) f) (alloc n)"

definition alloc_buf :: "(nat \<Rightarrow> u8 list option) \<Rightarrow> FILE \<Rightarrow> int \<Rightarrow> FILE" where
  "alloc_buf alloc f sz =
     (let bsize = (if io_flags f AND F_UNBUF \<noteq> 0 \<and> sz > 0 then 1 else sz) in
      case realloc_bytes alloc (io_buf f) (nat bsize) of
        None \<Rightarrow> f\<lparr>io_buf := None\<rparr>
      | Some b \<Rightarrow> f\<lparr>io_buf := Some b, io_size := bsize\<rparr>)"

text \<open>The object a buffer points to, and an index modulo the size; dividing by 0 is a fault.\<close>

definition the_buf :: "FILE \<Rightarrow> (u8 list \<Rightarrow> 'r kres) \<Rightarrow> 'r kres" where
  "the_buf f k = (case io_buf f of None \<Rightarrow> Inl Fault | Some b \<Rightarrow> if io_size f = 0 then Inl Fault else k b)"

definition fill_buf :: "'s os_ops \<Rightarrow> FILE \<Rightarrow> 's \<Rightarrow> (int \<times> FILE \<times> 's) kres" where
  "fill_buf ops f s =
     (if io_flags f AND (F_EOF OR F_ERR OR F_WRONLY) \<noteq> 0 then Inr (EOF, f, s)
      else
        kassert (io_buf f \<noteq> None) ''fp->buf'' (the_buf f (\<lambda>b.
        let rel_pos = nat (io_head f mod io_size f) in
        bnd (os_read ops (io_fd f) (nat (io_size f) - rel_pos) s) (\<lambda>((num_bytes, bs), s).
        need (rel_pos + length bs) b
         (let f = f\<lparr>io_buf := Some (splice b rel_pos bs)\<rparr> in
          if num_bytes = 0 then Inr (EOF, f\<lparr>io_flags := io_flags f OR F_EOF\<rparr>, s)
          else if num_bytes < 0 then Inr (EOF, f\<lparr>io_flags := io_flags f OR F_ERR\<rparr>, s)
          else Inr (num_bytes, f\<lparr>io_head := io_head f + num_bytes\<rparr>, s))))))"

text \<open>\<open>write(fp->fd, fp->buf + rel_pos, size)\<close> reads behind the buffer when the data do not lie in one piece.\<close>

definition flush_buf :: "'s os_ops \<Rightarrow> FILE \<Rightarrow> 's \<Rightarrow> (int \<times> FILE \<times> 's) kres" where
  "flush_buf ops f s =
     (if io_flags f AND (F_EOF OR F_ERR OR F_RDONLY) \<noteq> 0 then Inr (EOF, f, s)
      else
        kassert (io_buf f \<noteq> None) ''fp->buf'' (the_buf f (\<lambda>b.
        let sz = io_head f - io_tail f; sz = (if sz \<noteq> 0 \<and> io_flags f AND F_UNBUF \<noteq> 0 then 1 else sz);
            rel_pos = nat (io_tail f mod io_size f) in
        need (rel_pos + nat sz) b
         (bnd (os_write ops (io_fd f) (take (nat sz) (drop rel_pos b)) s) (\<lambda>(num_bytes, s).
          if num_bytes \<le> 0 then Inr (EOF, f\<lparr>io_flags := io_flags f OR F_ERR\<rparr>, s)
          else Inr (num_bytes, f\<lparr>io_tail := io_tail f + num_bytes\<rparr>, s))))))"

definition feof :: "FILE \<Rightarrow> u32" where
  "feof f = io_flags f AND F_EOF"

section \<open>Characters\<close>

text \<open>\<open>fgetc\<close> returns a \<open>char\<close>, which is signed, as an \<open>int\<close>.\<close>

definition take_char :: "FILE \<Rightarrow> (u8 \<times> FILE) kres" where
  "take_char f = the_buf f (\<lambda>b. bnd (aget b (nat (io_tail f mod io_size f))) (\<lambda>c. Inr (c, f\<lparr>io_tail := io_tail f + 1\<rparr>)))"

definition put_char :: "u8 \<Rightarrow> FILE \<Rightarrow> FILE kres" where
  "put_char c f = the_buf f (\<lambda>b. bnd (aset b (nat (io_head f mod io_size f)) c) (\<lambda>b. Inr (f\<lparr>io_buf := Some b, io_head := io_head f + 1\<rparr>)))"

definition fgetc :: "'s os_ops \<Rightarrow> FILE \<Rightarrow> 's \<Rightarrow> (int \<times> FILE \<times> 's) kres" where
  "fgetc ops f s =
     bnd (if IOB_EMPTY f then fill_buf ops f s else Inr (0, f, s)) (\<lambda>(r, f, s).
     if r < 0 then Inr (EOF, f, s) else bnd (take_char f) (\<lambda>(c, f). Inr (sint c, f, s)))"

definition fputc :: "'s os_ops \<Rightarrow> int \<Rightarrow> FILE \<Rightarrow> 's \<Rightarrow> (int \<times> FILE \<times> 's) kres" where
  "fputc ops c f s =
     bnd (put_char (word_of_int c) f) (\<lambda>f.
     if IOB_FULL f \<or> io_flags f AND F_UNBUF \<noteq> 0 then
       bnd (flush_buf ops f s) (\<lambda>(r, f, s). Inr (if r < 0 then EOF else c, f, s))
     else Inr (c, f, s))"

section \<open>Strings and blocks\<close>

text \<open>
  \<open>fgets\<close> reads a character before it tests for room. \<open>k\<close> is how much room is left; the array \<open>dst\<close> is the
  caller's. A \<open>char\<close> is compared with \<open>EOF\<close>.
\<close>

fun fgets_loop :: "'s os_ops \<Rightarrow> nat \<Rightarrow> u8 list \<Rightarrow> nat \<Rightarrow> FILE \<Rightarrow> 's \<Rightarrow> (u8 list \<times> nat \<times> FILE \<times> 's) kres" where
  "fgets_loop ops 0 dst i f s = bnd (fgetc ops f s) (\<lambda>(_, f, s). Inr (dst, i, f, s))"
| "fgets_loop ops (Suc k) dst i f s =
     bnd (fgetc ops f s) (\<lambda>(c, f, s).
     if c = EOF then Inr (dst, i, f, s)
     else bnd (aset dst i (word_of_int c)) (\<lambda>dst. if c = 10 then Inr (dst, i + 1, f, s) else fgets_loop ops k dst (i + 1) f s))"

definition fgets :: "'s os_ops \<Rightarrow> u8 list \<Rightarrow> int \<Rightarrow> FILE \<Rightarrow> 's \<Rightarrow> (bool \<times> u8 list \<times> FILE \<times> 's) kres" where
  "fgets ops dst sz f s =
     bnd (fgets_loop ops (nat (sz - 1)) dst 0 f s) (\<lambda>(dst, i, f, s).
     bnd (aset dst i 0) (\<lambda>dst. Inr (i \<noteq> 0, dst, f, s)))"

text \<open>\<open>getline\<close>: the line so far is \<open>lp\<close>, an object of \<open>n\<close> bytes or NULL; \<open>None\<close> says that the loop does not end.\<close>

partial_function (option) getline_loop ::
    "'s os_ops \<Rightarrow> (nat \<Rightarrow> u8 list option) \<Rightarrow> u8 list option \<Rightarrow> nat \<Rightarrow> nat \<Rightarrow> FILE \<Rightarrow> 's \<Rightarrow> (u8 list \<times> nat \<times> nat \<times> FILE \<times> 's) kres option" where
  "getline_loop ops alloc lp n i f s =
     (let n' = (if n = 0 then GETLINE_INIT_SIZE else 2 * n) in
      case (if lp = None \<or> i + 1 \<ge> n then (realloc_bytes alloc lp n', n') else (lp, n)) of
        (None, n) \<Rightarrow> Some (Inl Fault)
      | (Some b, n) \<Rightarrow>
          (case fgetc ops f s of
             Inl e \<Rightarrow> Some (Inl e)
           | Inr r \<Rightarrow>
               if fst r = EOF then Some (Inr (b, n, i, fst (snd r), snd (snd r)))
               else
                 (case aset b i (word_of_int (fst r)) of
                    Inl e \<Rightarrow> Some (Inl e)
                  | Inr b \<Rightarrow>
                      if fst r = 10 then Some (Inr (b, n, i + 1, fst (snd r), snd (snd r)))
                      else getline_loop ops alloc (Some b) n (i + 1) (fst (snd r)) (snd (snd r)))))"

definition getline :: "'s os_ops \<Rightarrow> (nat \<Rightarrow> u8 list option) \<Rightarrow> u8 list option \<Rightarrow> nat \<Rightarrow> FILE \<Rightarrow> 's \<Rightarrow>
    (int \<times> u8 list \<times> nat \<times> FILE \<times> 's) kres option" where
  "getline ops alloc lp n f s =
     (case getline_loop ops alloc lp n 0 f s of
        None \<Rightarrow> None
      | Some r \<Rightarrow> Some (bnd r (\<lambda>(b, n, i, f, s). bnd (aset b i 0) (\<lambda>b.
          Inr (if io_flags f AND (F_EOF OR F_ERR) \<noteq> 0 then EOF else int i, b, n, f, s)))))"

fun fputs :: "'s os_ops \<Rightarrow> u8 list \<Rightarrow> FILE \<Rightarrow> 's \<Rightarrow> (int \<times> FILE \<times> 's) kres" where
  "fputs ops [] f s = Inl Fault"
| "fputs ops (c # str) f s =
     (if c = 0 then Inr (0, f, s)
      else bnd (fputc ops (sint c) f s) (\<lambda>(r, f, s). if r < 0 then Inr (EOF, f, s) else fputs ops str f s))"

text \<open>The loops of \<open>fread\<close> and \<open>fwrite\<close>: \<open>k\<close> bytes are left of \<open>nmemb * size\<close>, \<open>i\<close> is the index, \<open>j\<close> counts members.\<close>

fun fread_loop :: "'s os_ops \<Rightarrow> nat \<Rightarrow> nat \<Rightarrow> nat \<Rightarrow> nat \<Rightarrow> u8 list \<Rightarrow> FILE \<Rightarrow> 's \<Rightarrow> (nat \<times> u8 list \<times> FILE \<times> 's) kres" where
  "fread_loop ops sz 0 i j dst f s = Inr (j, dst, f, s)"
| "fread_loop ops sz (Suc k) i j dst f s =
     bnd (if IOB_EMPTY f then fill_buf ops f s else Inr (0, f, s)) (\<lambda>(r, f, s).
     if r < 0 then Inr (j, dst, f, s)
     else bnd (take_char f) (\<lambda>(c, f). bnd (aset dst i c) (\<lambda>dst.
       fread_loop ops sz k (i + 1) (if (i + 1) mod sz = 0 then j + 1 else j) dst f s)))"

definition fread :: "'s os_ops \<Rightarrow> u8 list \<Rightarrow> u32 \<Rightarrow> u32 \<Rightarrow> FILE \<Rightarrow> 's \<Rightarrow> (nat \<times> u8 list \<times> FILE \<times> 's) kres" where
  "fread ops dst sz nmemb f s = fread_loop ops (unat sz) (unat (nmemb * sz)) 0 0 dst f s"

fun fwrite_loop :: "'s os_ops \<Rightarrow> nat \<Rightarrow> nat \<Rightarrow> nat \<Rightarrow> nat \<Rightarrow> u8 list \<Rightarrow> FILE \<Rightarrow> 's \<Rightarrow> (nat \<times> FILE \<times> 's) kres" where
  "fwrite_loop ops sz 0 i j src f s = Inr (j, f, s)"
| "fwrite_loop ops sz (Suc k) i j src f s =
     bnd (aget src i) (\<lambda>c. bnd (put_char c f) (\<lambda>f.
     bnd (if IOB_FULL f then flush_buf ops f s else Inr (0, f, s)) (\<lambda>(r, f, s).
     if r < 0 then Inr (j, f, s)
     else fwrite_loop ops sz k (i + 1) (if (i + 1) mod sz = 0 then j + 1 else j) src f s)))"

definition fwrite :: "'s os_ops \<Rightarrow> u8 list \<Rightarrow> u32 \<Rightarrow> u32 \<Rightarrow> FILE \<Rightarrow> 's \<Rightarrow> (nat \<times> FILE \<times> 's) kres" where
  "fwrite ops src sz nmemb f s = fwrite_loop ops (unat sz) (unat (nmemb * sz)) 0 0 src f s"

text \<open>\<open>fflush\<close> tests the flags of the file for \<open>O_RDONLY\<close>, which is 0, so the first branch is never taken.\<close>

definition fflush :: "'s os_ops \<Rightarrow> FILE \<Rightarrow> 's \<Rightarrow> (int \<times> FILE \<times> 's) kres" where
  "fflush ops f s =
     (if io_flags f AND ucast O_RDONLY \<noteq> 0 then Inr (0, f\<lparr>io_tail := io_head f\<rparr>, s)
      else bnd (flush_buf ops f s) (\<lambda>(r, f, s). Inr (if r < 0 then EOF else 0, f, s)))"

definition fclose :: "'s os_ops \<Rightarrow> FILE \<Rightarrow> 's \<Rightarrow> (int \<times> FILE \<times> 's) kres" where
  "fclose ops f s =
     bnd (fflush ops f s) (\<lambda>(_, f, s).
     bnd (os_close ops (io_fd f) s) (\<lambda>(ret, s). Inr (ret, zero_FILE, s)))"

section \<open>The table of files\<close>

definition iob_files :: "(nat \<Rightarrow> u8 list option) \<Rightarrow> FILE list" where
  "iob_files alloc =
     (let files = replicate IOB_INIT_NUMSLOTS zero_FILE;
          files = files[0 := alloc_buf alloc (zero_FILE\<lparr>io_fd := 0, io_flags := F_RDONLY\<rparr>) BUF_SIZE];
          files = files[1 := alloc_buf alloc (zero_FILE\<lparr>io_fd := 1, io_flags := F_WRONLY\<rparr>) BUF_SIZE] in
      files[2 := alloc_buf alloc (zero_FILE\<lparr>io_fd := 2, io_flags := F_WRONLY OR F_UNBUF\<rparr>) 1])"

text \<open>
  \<open>_iob_init\<close>: \<open>old\<close> is the table \<open>_iob\<close> points to; \<open>m1\<close> and \<open>m2\<close> say whether there is memory for its head and for the
  files. Without the latter the table is left without files.
\<close>

definition iob_init :: "bool \<Rightarrow> bool \<Rightarrow> (nat \<Rightarrow> u8 list option) \<Rightarrow> FILE list option \<Rightarrow> int \<times> FILE list option" where
  "iob_init m1 m2 alloc old =
     (if old \<noteq> None then (- 1, old)
      else if \<not> m1 then (- 1, None)
      else if \<not> m2 then (- 1, Some [])
      else (0, Some (iob_files alloc)))"

fun free_file :: "FILE list \<Rightarrow> nat" where
  "free_file [] = 0"
| "free_file (f # fs) = (if io_flags f = 0 then 0 else Suc (free_file fs))"

text \<open>\<open>mem\<close>: whether \<open>realloc\<close> finds memory for twice as many slots.\<close>

definition alloc_file :: "bool \<Rightarrow> FILE list \<Rightarrow> nat option \<times> FILE list" where
  "alloc_file mem files =
     (let i = free_file files in
      if i = length files then
        if length files \<ge> OPEN_MAX then (None, files)
        else if mem then (Some i, files @ replicate (length files) zero_FILE)
        else (None, files)
      else (Some i, files))"

definition open_flags :: "u8 \<Rightarrow> u8 \<Rightarrow> u32" where
  "open_flags m0 m1 =
     (let flags = (if m0 = 119 then O_CREAT OR O_TRUNC else if m0 = 97 then O_CREAT OR O_APPEND else 0) in
      if m1 = 43 then flags OR O_RDWR else flags OR (if m0 = 114 then ucast O_RDONLY else ucast O_WRONLY))"

definition fopen :: "'s os_ops \<Rightarrow> (nat \<Rightarrow> u8 list option) \<Rightarrow> bool \<Rightarrow> u8 list \<Rightarrow> u8 list \<Rightarrow> FILE list \<Rightarrow> 's \<Rightarrow> (nat option \<times> FILE list \<times> 's) kres" where
  "fopen ops alloc mem path mode files s =
     bnd (aget mode 0) (\<lambda>m0.
     if m0 \<notin> {114, 119, 97} then Inr (None, files, s)
     else case alloc_file mem files of
       (None, files) \<Rightarrow> Inr (None, files, s)
     | (Some i, files) \<Rightarrow>
         bnd (aget mode 1) (\<lambda>m1.
         let flags = open_flags m0 m1 in
         bnd (os_open ops path flags (if m0 = 114 then 0 else 438) s) (\<lambda>(fd, s).
         let f = (files ! i)\<lparr>io_fd := fd\<rparr> in
         if fd < 0 then Inr (None, files[i := f], s)
         else
           let fl = (if flags AND ucast O_RDONLY \<noteq> 0 then F_RDONLY else if flags AND ucast O_WRONLY \<noteq> 0 then F_WRONLY else F_RDWR);
               f = alloc_buf alloc (f\<lparr>io_flags := fl\<rparr>) BUF_SIZE in
           Inr (Some i, files[i := f\<lparr>io_head := 0, io_tail := 0\<rparr>], s))))"

text \<open>\<open>fflush(NULL)\<close>, and \<open>_iob_destroy\<close> at the end of the program.\<close>

fun fflush_all :: "'s os_ops \<Rightarrow> nat \<Rightarrow> int \<Rightarrow> FILE list \<Rightarrow> 's \<Rightarrow> (int \<times> FILE list \<times> 's) kres" where
  "fflush_all ops 0 ret files s = Inr (ret, files, s)"
| "fflush_all ops (Suc k) ret files s =
     (let i = length files - Suc k in
      if io_flags (files ! i) AND (F_RDWR OR F_WRONLY) \<noteq> 0 then
        bnd (fflush ops (files ! i) s) (\<lambda>(r, f, s). fflush_all ops k (if r = - 1 then - 1 else ret) (files[i := f]) s)
      else fflush_all ops k ret files s)"

fun iob_destroy :: "'s os_ops \<Rightarrow> FILE list \<Rightarrow> 's \<Rightarrow> 's kres" where
  "iob_destroy ops [] s = Inr s"
| "iob_destroy ops (f # fs) s =
     (if sint (io_flags f) > 0 then bnd (fclose ops f s) (\<lambda>(_, _, s). iob_destroy ops fs s) else iob_destroy ops fs s)"

text \<open>\<open>printf\<close> writes without the buffer; \<open>fprintf\<close> goes through it. \<open>buf\<close> is the array on the stack.\<close>

definition printf :: "'s os_ops \<Rightarrow> u8 list \<Rightarrow> u8 list \<Rightarrow> va list \<Rightarrow> 's \<Rightarrow> (int \<times> 's) kres" where
  "printf ops buf fmt args s =
     bnd (vsnprintf (Some buf) 512 fmt args) (\<lambda>(n, buf).
     let k = (if n < 512 then n else 511) in
     if k < 0 then Inl Fault else need (nat k) buf (os_write ops 1 (take (nat k) buf) s))"

definition fprintf :: "'s os_ops \<Rightarrow> u8 list \<Rightarrow> u8 list \<Rightarrow> va list \<Rightarrow> FILE \<Rightarrow> 's \<Rightarrow> (int \<times> FILE \<times> 's) kres" where
  "fprintf ops buf fmt args f s =
     bnd (vsnprintf (Some buf) 1024 fmt args) (\<lambda>(n, buf).
     if n < 0 then Inr (- 1, f, s)
     else bnd (fwrite ops buf 1 (if n < 1024 then word_of_int n else 1023) f s) (\<lambda>(k, f, s). Inr (int k, f, s)))"

section \<open>Files over a channel\<close>

text \<open>
  \<open>wfile f pend\<close>: the file \<open>f\<close> is open for writing and holds the bytes \<open>pend\<close> that were not written yet; they
  start at the beginning of the buffer. \<open>rfile f pend\<close>: \<open>f\<close> is open for reading and holds the bytes \<open>pend\<close>
  that were not fetched yet, in one piece.
\<close>

definition wfile :: "FILE \<Rightarrow> u8 list \<Rightarrow> bool" where
  "wfile f pend \<longleftrightarrow> (\<exists>b. io_buf f = Some b \<and> int (length b) = io_size f \<and> io_tail f mod io_size f = 0 \<and>
     io_head f = io_tail f + int (length pend) \<and> length pend < length b \<and> take (length pend) b = pend) \<and>
     io_flags f AND (F_EOF OR F_ERR OR F_RDONLY) = 0 \<and> (io_flags f AND F_UNBUF \<noteq> 0 \<longrightarrow> io_size f = 1)"

definition rfile :: "FILE \<Rightarrow> u8 list \<Rightarrow> bool" where
  "rfile f pend \<longleftrightarrow> (\<exists>b. io_buf f = Some b \<and> int (length b) = io_size f \<and> 0 < length b \<and>
     io_head f = io_tail f + int (length pend) \<and> nat (io_tail f mod io_size f) + length pend \<le> length b \<and>
     take (length pend) (drop (nat (io_tail f mod io_size f)) b) = pend) \<and>
     io_flags f AND (F_EOF OR F_ERR OR F_WRONLY) = 0"

lemma mod_add_less: "(a :: int) mod m = 0 \<Longrightarrow> 0 \<le> k \<Longrightarrow> k < m \<Longrightarrow> (a + k) mod m = k"
  by (metis add_0 mod_add_left_eq mod_pos_pos_trivial)

lemma put_char_wfile:
  assumes "wfile f pend"
  shows "\<exists>b. put_char c f = Inr (f\<lparr>io_buf := Some b, io_head := io_head f + 1\<rparr>) \<and> int (length b) = io_size f \<and>
    take (Suc (length pend)) b = pend @ [c]"
proof -
  obtain b where b: "io_buf f = Some b" "int (length b) = io_size f" "io_tail f mod io_size f = 0" "io_head f = io_tail f + int (length pend)"
      "length pend < length b" "take (length pend) b = pend"
    using assms by (auto simp: wfile_def)
  have "nat (io_head f mod io_size f) = length pend" using b mod_add_less [of "io_tail f" "io_size f" "int (length pend)"] by simp
  then show ?thesis using b by (auto simp: put_char_def the_buf_def take_Suc_conv_app_nth)
qed

lemma take_char_rfile:
  assumes "rfile f (c # cs)"
  shows "\<exists>f'. take_char f = Inr (c, f') \<and> rfile f' cs \<and> io_fd f' = io_fd f"
proof -
  obtain b where b: "io_buf f = Some b" "int (length b) = io_size f" "io_head f = io_tail f + int (Suc (length cs))"
      "nat (io_tail f mod io_size f) + Suc (length cs) \<le> length b" "take (Suc (length cs)) (drop (nat (io_tail f mod io_size f)) b) = c # cs"
    using assms by (auto simp: rfile_def)
  let ?i = "nat (io_tail f mod io_size f)"
  have pos: "0 < io_size f" using b by linarith
  have i: "?i < length b" "drop ?i b = b ! ?i # drop (Suc ?i) b" using b(4) by (simp_all add: Cons_nth_drop_Suc)
  then have c: "b ! ?i = c" "take (length cs) (drop (Suc ?i) b) = cs" using b(5) by simp_all
  have "nat ((io_tail f + 1) mod io_size f) = (if Suc ?i = length b then 0 else Suc ?i)"
  proof -
    have "(io_tail f + 1) mod io_size f = (io_tail f mod io_size f + 1) mod io_size f" by (simp add: mod_simps)
    moreover have "0 \<le> io_tail f mod io_size f" "io_tail f mod io_size f < io_size f" using pos by simp_all
    moreover have "Suc ?i = length b \<longleftrightarrow> io_tail f mod io_size f + 1 = io_size f" using b(2) calculation(2) by linarith
    ultimately show ?thesis by (auto simp: nat_add_distrib mod_pos_pos_trivial)
  qed
  moreover have "cs = []" if "Suc ?i = length b"
  proof -
    have "length cs = 0" using b(4) that by linarith
    then show ?thesis by simp
  qed
  ultimately show ?thesis
    using b c i assms pos by (auto simp: take_char_def the_buf_def rfile_def)
qed

text \<open>
  A sink takes all bytes it has room for; a source gives some of the bytes it has. \<open>content\<close> are the bytes
  on the way.
\<close>

locale byte_sink =
  fixes wr :: "u8 list \<Rightarrow> 's \<Rightarrow> (int \<times> 's) kres" and content :: "'s \<Rightarrow> u8 list" and room :: "'s \<Rightarrow> nat" and ok :: "'s \<Rightarrow> bool"
  assumes write_all: "ok s \<Longrightarrow> length bs \<le> room s \<Longrightarrow>
    \<exists>s'. wr bs s = Inr (int (length bs), s') \<and> ok s' \<and> content s' = content s @ bs \<and> room s' = room s - length bs"
begin

lemma flush_written:
  assumes "os_write ops (io_fd f) = wr" and "ok s" and "length pend \<le> room s"
    and f: "io_buf f = Some b" "int (length b) = io_size f" "io_tail f mod io_size f = 0" "io_head f = io_tail f + int (length pend)"
      "length pend \<le> length b" "b \<noteq> []" "take (length pend) b = pend" "io_flags f AND (F_EOF OR F_ERR OR F_RDONLY) = 0"
      "io_flags f AND F_UNBUF \<noteq> 0 \<longrightarrow> io_size f = 1"
  shows "\<exists>s'. flush_buf ops f s = Inr (if pend = [] then EOF else int (length pend),
      if pend = [] then f\<lparr>io_flags := io_flags f OR F_ERR\<rparr> else f\<lparr>io_tail := io_head f\<rparr>, s') \<and>
    ok s' \<and> content s' = content s @ pend \<and> room s' = room s - length pend"
proof -
  obtain s' where s': "wr pend s = Inr (int (length pend), s')" "ok s'" "content s' = content s @ pend" "room s' = room s - length pend"
    using write_all [OF assms(2,3)] by blast
  have z: "io_size f \<noteq> 0" using f(2,6) by auto
  have "(if io_head f - io_tail f \<noteq> 0 \<and> io_flags f AND F_UNBUF \<noteq> 0 then 1 else io_head f - io_tail f) = int (length pend)"
    using f by (auto simp: le_Suc_eq)
  then show ?thesis using s' f z assms(1) by (auto simp: flush_buf_def the_buf_def need_def Let_def)
qed

lemma put_step:
  assumes "os_write ops (io_fd f) = wr" and "ok s" and "wfile f pend" and "length pend < room s"
  shows "\<exists>f1 r f2 s2 pend2. put_char c f = Inr f1 \<and> io_flags f1 = io_flags f \<and>
    (IOB_FULL f1 \<or> io_flags f1 AND F_UNBUF \<noteq> 0 \<longleftrightarrow> IOB_FULL f1) \<and>
    (if IOB_FULL f1 then flush_buf ops f1 s else Inr (0, f1, s)) = Inr (r, f2, s2) \<and> 0 \<le> r \<and> ok s2 \<and> wfile f2 pend2 \<and>
    io_fd f2 = io_fd f \<and> content s2 @ pend2 = content s @ pend @ [c] \<and> (\<forall>k. length pend + Suc k \<le> room s \<longrightarrow> length pend2 + k \<le> room s2)"
proof -
  obtain b0 where b0: "io_buf f = Some b0" "int (length b0) = io_size f" "io_tail f mod io_size f = 0"
      "io_head f = io_tail f + int (length pend)" "length pend < length b0"
    and fl: "io_flags f AND (F_EOF OR F_ERR OR F_RDONLY) = 0" "io_flags f AND F_UNBUF \<noteq> 0 \<longrightarrow> io_size f = 1"
    using assms(3) by (auto simp: wfile_def)
  obtain b where b: "put_char c f = Inr (f\<lparr>io_buf := Some b, io_head := io_head f + 1\<rparr>)" "int (length b) = io_size f" "take (Suc (length pend)) b = pend @ [c]"
    using put_char_wfile [OF assms(3)] by blast
  define f1 where "f1 = f\<lparr>io_buf := Some b, io_head := io_head f + 1\<rparr>"
  have len: "length b = length b0" using b(2) b0(2) by simp
  have full: "IOB_FULL f1 \<longleftrightarrow> Suc (length pend) = length b" using b0 len by (auto simp: IOB_FULL_def f1_def)
  have un: "IOB_FULL f1" if "io_flags f1 AND F_UNBUF \<noteq> 0" using that fl(2) b0 by (simp add: IOB_FULL_def f1_def)
  show ?thesis
  proof (cases "IOB_FULL f1")
    case True
    have "\<exists>s'. flush_buf ops f1 s = Inr (if pend @ [c] = [] then EOF else int (length (pend @ [c])),
      if pend @ [c] = [] then f1\<lparr>io_flags := io_flags f1 OR F_ERR\<rparr> else f1\<lparr>io_tail := io_head f1\<rparr>, s') \<and>
      ok s' \<and> content s' = content s @ pend @ [c] \<and> room s' = room s - length (pend @ [c])"
      using assms b b0 fl True full len by (intro flush_written [where b = b]) (auto simp: f1_def)
    then obtain s' where s': "flush_buf ops f1 s = Inr (int (length (pend @ [c])), f1\<lparr>io_tail := io_head f1\<rparr>, s')" "ok s'"
        "content s' = content s @ pend @ [c]" "room s' = room s - length (pend @ [c])" by auto
    have "io_head f1 = io_tail f + io_size f" using True full b(2) b0(4) by (simp add: f1_def)
    then have "io_head f1 mod io_size f = 0" using b0(3) by simp
    then have "wfile (f1\<lparr>io_tail := io_head f1\<rparr>) []" using b(2) b0(5) fl len by (auto simp: wfile_def f1_def)
    then show ?thesis using s' b(1) True by (intro exI [of _ f1] exI [of _ "int (length (pend @ [c]))"] exI [of _ "f1\<lparr>io_tail := io_head f1\<rparr>"] exI [of _ s'] exI [of _ "[]"])
      (auto simp: f1_def)
  next
    case False
    then have "wfile f1 (pend @ [c])" using b b0 fl full len by (auto simp: wfile_def f1_def)
    then show ?thesis using assms False un b(1) by (intro exI [of _ f1] exI [of _ 0] exI [of _ f1] exI [of _ s] exI [of _ "pend @ [c]"]) (auto simp: f1_def)
  qed
qed

lemma fwrite_loop_done:
  "os_write ops (io_fd f) = wr \<Longrightarrow> ok s \<Longrightarrow> wfile f pend \<Longrightarrow> length pend + k \<le> room s \<Longrightarrow> i + k \<le> length src \<Longrightarrow> 0 < sz \<Longrightarrow>
   \<exists>f' s' pend'. fwrite_loop ops sz k i (i div sz) src f s = Inr ((i + k) div sz, f', s') \<and> ok s' \<and> wfile f' pend' \<and> io_fd f' = io_fd f \<and>
     content s' @ pend' = content s @ pend @ take k (drop i src) \<and> length pend' \<le> room s'"
proof (induction k arbitrary: i f s pend)
  case (Suc k)
  have "length pend < room s" using Suc.prems(4) by simp
  from put_step [OF Suc.prems(1-3) this, of "src ! i"] obtain f1 r f2 s2 pend2 where
    st: "put_char (src ! i) f = Inr f1" "(if IOB_FULL f1 then flush_buf ops f1 s else Inr (0, f1, s)) = Inr (r, f2, s2)" "0 \<le> r" "ok s2" "wfile f2 pend2"
      "io_fd f2 = io_fd f" "content s2 @ pend2 = content s @ pend @ [src ! i]" "length pend2 + k \<le> room s2"
    using Suc.prems(4) by (elim exE conjE) blast
  have d: "(if (i + 1) mod sz = 0 then i div sz + 1 else i div sz) = (i + 1) div sz" by (simp add: div_Suc)
  obtain f' s' pend' where r: "fwrite_loop ops sz k (i + 1) ((i + 1) div sz) src f2 s2 = Inr ((i + 1 + k) div sz, f', s')" "ok s'" "wfile f' pend'"
      "io_fd f' = io_fd f2" "content s' @ pend' = content s2 @ pend2 @ take k (drop (i + 1) src)" "length pend' \<le> room s'"
    using Suc.IH [of f2 s2 pend2 "i + 1"] Suc.prems st by (auto simp: add.assoc)
  have "take (Suc k) (drop i src) = src ! i # take k (drop (i + 1) src)" using Suc.prems(5) by (simp add: Cons_nth_drop_Suc [symmetric])
  moreover have "content s' @ pend' = content s @ pend @ src ! i # take k (drop (i + 1) src)"
    using r(5) st(7) by (metis append.assoc append_Cons append_Nil)
  moreover have "fwrite_loop ops sz (Suc k) i (i div sz) src f s = fwrite_loop ops sz k (i + 1) ((i + 1) div sz) src f2 s2"
    using st(1-3) Suc.prems(5) d by (simp del: One_nat_def)
  ultimately show ?case using r st(6) by auto
qed auto

lemma fflush_done:
  assumes "os_write ops (io_fd f) = wr" and "ok s" and "wfile f pend" and "length pend \<le> room s"
  shows "\<exists>r f' s'. fflush ops f s = Inr (r, f', s') \<and> ok s' \<and> content s' = content s @ pend"
proof -
  obtain b where b: "io_buf f = Some b" "int (length b) = io_size f" "io_tail f mod io_size f = 0" "io_head f = io_tail f + int (length pend)"
      "length pend < length b" "take (length pend) b = pend" "io_flags f AND (F_EOF OR F_ERR OR F_RDONLY) = 0"
      "io_flags f AND F_UNBUF \<noteq> 0 \<longrightarrow> io_size f = 1"
    using assms(3) by (auto simp: wfile_def)
  then have "length pend \<le> length b" "b \<noteq> []" by auto
  from flush_written [OF assms(1,2,4) b(1-4) this b(6-8)] show ?thesis by (auto simp: fflush_def O_RDONLY_def)
qed

end

locale byte_source =
  fixes rd :: "nat \<Rightarrow> 's \<Rightarrow> ((int \<times> u8 list) \<times> 's) kres" and content :: "'s \<Rightarrow> u8 list" and ok :: "'s \<Rightarrow> bool"
  assumes read_some: "ok s \<Longrightarrow> content s \<noteq> [] \<Longrightarrow> 0 < n \<Longrightarrow>
    \<exists>k s'. 0 < k \<and> k \<le> n \<and> k \<le> length (content s) \<and> rd n s = Inr ((int k, take k (content s)), s') \<and> ok s' \<and> content s' = drop k (content s)"
begin

lemma fill_step:
  assumes "os_read ops (io_fd f) = rd" and "ok s" and "rfile f []" and "content s \<noteq> []"
  shows "\<exists>r f' s' pend. fill_buf ops f s = Inr (r, f', s') \<and> 0 < r \<and> ok s' \<and> rfile f' pend \<and> pend \<noteq> [] \<and> io_fd f' = io_fd f \<and>
    pend @ content s' = content s"
proof -
  obtain b where b: "io_buf f = Some b" "int (length b) = io_size f" "0 < length b" "io_head f = io_tail f"
    and fl: "io_flags f AND (F_EOF OR F_ERR OR F_WRONLY) = 0" using assms(3) by (auto simp: rfile_def)
  let ?i = "nat (io_tail f mod io_size f)"
  have i: "?i < length b" using b(2,3) by (metis nat_less_iff pos_mod_bound pos_mod_sign of_nat_0_less_iff)
  obtain k s' where k: "0 < k" "k \<le> length b - ?i" "k \<le> length (content s)" "rd (length b - ?i) s = Inr ((int k, take k (content s)), s')" "ok s'"
      "content s' = drop k (content s)"
    using read_some [OF assms(2,4), of "length b - ?i"] i by auto
  let ?f = "f\<lparr>io_buf := Some (splice b ?i (take k (content s))), io_head := io_head f + int k\<rparr>"
  have "fill_buf ops f s = Inr (int k, ?f, s')"
  proof -
    have "nat (io_size f) = length b" "io_size f \<noteq> 0" using b(2,3) by linarith+
    then show ?thesis using k i by (simp add: fill_buf_def the_buf_def need_def Let_def b(1,4) fl assms(1))
  qed
  moreover have "rfile ?f (take k (content s))"
    using k b fl i by (auto simp: rfile_def splice_def min_absorb1 min_absorb2)
  ultimately show ?thesis using k by (intro exI [of _ "int k"] exI [of _ ?f] exI [of _ s'] exI [of _ "take k (content s)"]) auto
qed

lemma fread_loop_done:
  "os_read ops (io_fd f) = rd \<Longrightarrow> ok s \<Longrightarrow> rfile f pend \<Longrightarrow> k \<le> length (pend @ content s) \<Longrightarrow> i + k \<le> length dst \<Longrightarrow> 0 < sz \<Longrightarrow>
   \<exists>f' s' pend'. fread_loop ops sz k i (i div sz) dst f s = Inr ((i + k) div sz, splice dst i (take k (pend @ content s)), f', s') \<and> ok s' \<and>
     rfile f' pend' \<and> io_fd f' = io_fd f \<and> pend' @ content s' = drop k (pend @ content s)"
proof (induction k arbitrary: i f s pend dst)
  case (Suc k)
  obtain r f1 s1 c cs where
    st: "(if IOB_EMPTY f then fill_buf ops f s else Inr (0, f, s)) = Inr (r, f1, s1)" "0 \<le> r" "ok s1" "rfile f1 (c # cs)" "io_fd f1 = io_fd f"
      "(c # cs) @ content s1 = pend @ content s"
  proof (cases pend)
    case Nil
    then have "IOB_EMPTY f" "content s \<noteq> []" using Suc.prems(3,4) by (auto simp: IOB_EMPTY_def rfile_def)
    from fill_step [OF Suc.prems(1,2) Suc.prems(3) [unfolded Nil] this(2)] obtain r f' s' p where
      p: "fill_buf ops f s = Inr (r, f', s')" "0 < r" "ok s'" "rfile f' p" "p \<noteq> []" "io_fd f' = io_fd f" "p @ content s' = content s" by blast
    then obtain c cs where "p = c # cs" by (cases p) auto
    with p \<open>IOB_EMPTY f\<close> Nil show thesis by (intro that [of r f' s' c cs]) simp_all
  next
    case (Cons c cs)
    then have "\<not> IOB_EMPTY f" using Suc.prems(3) by (auto simp: IOB_EMPTY_def rfile_def)
    with Cons Suc.prems show thesis by (intro that [of 0 f s c cs]) simp_all
  qed
  obtain f2 where f2: "take_char f1 = Inr (c, f2)" "rfile f2 cs" "io_fd f2 = io_fd f1" using take_char_rfile [OF st(4)] by blast
  have d: "(if (i + 1) mod sz = 0 then i div sz + 1 else i div sz) = (i + 1) div sz" by (simp add: div_Suc)
  have all: "pend @ content s = c # cs @ content s1" using st(6) by simp
  obtain f' s' pend' where r: "fread_loop ops sz k (i + 1) ((i + 1) div sz) (dst[i := c]) f2 s1 =
        Inr ((i + 1 + k) div sz, splice (dst[i := c]) (i + 1) (take k (cs @ content s1)), f', s')" "ok s'" "rfile f' pend'"
      "io_fd f' = io_fd f2" "pend' @ content s' = drop k (cs @ content s1)"
    using Suc.IH [of f2 s1 cs "i + 1" "dst[i := c]"] Suc.prems st f2 all by auto
  have "splice (dst[i := c]) (i + 1) (take k (cs @ content s1)) = splice dst i (c # take k (cs @ content s1))"
    using Suc.prems(5) by (simp add: splice_def take_Suc_conv_app_nth)
  moreover have "fread_loop ops sz (Suc k) i (i div sz) dst f s = fread_loop ops sz k (i + 1) ((i + 1) div sz) (dst[i := c]) f2 s1"
    using st(1,2) f2(1) Suc.prems(5) d by (simp del: One_nat_def)
  ultimately show ?case using r st(5) f2(3) unfolding all by auto
qed (auto simp: splice_def)

end

locale byte_channel = byte_sink wr content room ok + byte_source rd content ok
  for wr :: "u8 list \<Rightarrow> 's \<Rightarrow> (int \<times> 's) kres" and rd content room ok
begin

lemma write_flush_read:
  assumes "os_write ops (io_fd fw) = wr" and "os_read ops (io_fd fr) = rd" and "ok s" and "content s = []"
    and "wfile fw []" and "rfile fr []" and "unat nmemb * unat sz = length src" and "length src < 2 ^ 32" and "length src \<le> room s" and "0 < sz"
    and "length src = length dst"
  shows "\<exists>fw1 s1 r fw2 s2 fr' s3. fwrite ops src sz nmemb fw s = Inr (unat nmemb, fw1, s1) \<and> fflush ops fw1 s1 = Inr (r, fw2, s2) \<and>
    fread ops dst sz nmemb fr s2 = Inr (unat nmemb, src, fr', s3)"
proof -
  have u: "unat (nmemb * sz) = length src" using assms(7,8) by (simp add: unat_word_ariths)
  have z: "0 < unat sz" using assms(10) by (simp add: word_less_nat_alt)
  have d: "length src div unat sz = unat nmemb" using assms(7) z by (metis nonzero_mult_div_cancel_right less_numeral_extra(3))
  obtain fw1 s1 pend where w: "fwrite ops src sz nmemb fw s = Inr (unat nmemb, fw1, s1)" "ok s1" "wfile fw1 pend" "io_fd fw1 = io_fd fw"
      "content s1 @ pend = src" "length pend \<le> room s1"
    using fwrite_loop_done [OF assms(1,3,5), of "length src" 0 src "unat sz"] assms(4,9) u z d by (auto simp: fwrite_def)
  obtain r fw2 s2 where f: "fflush ops fw1 s1 = Inr (r, fw2, s2)" "ok s2" "content s2 = src"
    using fflush_done [of ops fw1 s1 pend] assms(1) w by auto
  obtain fr' s3 where "fread ops dst sz nmemb fr s2 = Inr (unat nmemb, splice dst 0 src, fr', s3)"
    using fread_loop_done [OF assms(2) f(2) assms(6), of "length src" 0 dst "unat sz"] assms(11) f(3) u z d by (auto simp: fread_def)
  moreover have "splice dst 0 src = src" using assms(11) by (simp add: splice_def)
  ultimately show ?thesis using w(1) f(1) by auto
qed

end

section \<open>The kernel's calls and the ends of a pipe\<close>

text \<open>\<open>bin/syscalls.c\<close>: the calls reach the kernel with their arguments.\<close>

definition kernel_os :: "(nat \<Rightarrow> u32 \<Rightarrow> 'a files_scheme \<Rightarrow> 'a files_scheme kres) \<Rightarrow> 'a files_scheme os_ops" where
  "kernel_os dev_open = \<lparr>os_read = (\<lambda>fd n. sys_read fd (of_nat n)), os_write = (\<lambda>fd bs. sys_write fd bs (of_nat (length bs))),
     os_open = sys_open dev_open, os_close = sys_close\<rparr>"

text \<open>
  The descriptors 0 and 1 as the two ends of a pipe. While one process runs alone, a call that sleeps
  never returns.
\<close>

definition end_r :: fs_node where "end_r = zero_node\<lparr>n_flags := O_RDONLY\<rparr>"
definition end_w :: fs_node where "end_w = zero_node\<lparr>n_flags := O_WRONLY\<rparr>"

definition pipe_os :: "vfs_pipe os_ops" where
  "pipe_os = \<lparr>os_read = (\<lambda>fd n p. bnd (pipe_read end_r n p) (\<lambda>(r, p). case r of Returned bs \<Rightarrow> Inr ((int (length bs), bs), p) | Sleeping _ \<Rightarrow> Inl Deadlock)),
     os_write = (\<lambda>fd bs p. bnd (pipe_write end_w bs p) (\<lambda>(r, p). case r of
       Returned b \<Rightarrow> Inr (if b then int (length bs) else 0, p) | Sleeping _ \<Rightarrow> Inl Deadlock)),
     os_open = (\<lambda>_ _ _ p. Inr (- 1, p)), os_close = (\<lambda>_ p. Inr (0, p))\<rparr>"

interpretation pipe_io: byte_channel "os_write pipe_os fd" "os_read pipe_os fd'" pipe_items "\<lambda>p. unat (p_size p) - length (pipe_items p)" pipe_ok
proof unfold_locales
  fix s and bs :: "u8 list"
  assume ok: "pipe_ok s" and room: "length bs \<le> unat (p_size s) - length (pipe_items s)"
  have "\<not> p_lock s" using ok by (simp add: pipe_ok_def)
  with pipe_write_loop_ok [OF ok, of bs] room
  show "\<exists>s'. os_write pipe_os fd bs s = Inr (int (length bs), s') \<and> pipe_ok s' \<and> pipe_items s' = pipe_items s @ bs \<and>
      unat (p_size s') - length (pipe_items s') = unat (p_size s) - length (pipe_items s) - length bs"
    by (auto simp: pipe_os_def pipe_write_def end_w_def min_absorb1)
next
  fix s and n :: nat
  assume ok: "pipe_ok s" and ne: "pipe_items s \<noteq> []" and n: "0 < n"
  have "\<not> p_lock s" "\<not> pipe_empty s" using ok ne pipeq.is_empty_spec by (auto simp: pipe_ok_def)
  with pipe_read_loop_ok [OF ok, of n] obtain p' where p': "os_read pipe_os fd' n s = Inr ((int (length (take n (pipe_items s))), take n (pipe_items s)), p')"
      "pipe_ok p'" "pipe_items p' = drop n (pipe_items s)"
    by (auto simp: pipe_os_def pipe_read_def end_r_def)
  let ?k = "min n (length (pipe_items s))"
  have "take ?k (pipe_items s) = take n (pipe_items s)" "drop ?k (pipe_items s) = drop n (pipe_items s)" by (auto simp: min_def)
  then show "\<exists>k s'. 0 < k \<and> k \<le> n \<and> k \<le> length (pipe_items s) \<and> os_read pipe_os fd' n s = Inr ((int k, take k (pipe_items s)), s') \<and>
      pipe_ok s' \<and> pipe_items s' = drop k (pipe_items s)"
    using p' ne n by (intro exI [of _ ?k] exI [of _ p']) (auto simp: min.commute)
qed

text \<open>A file of the table after \<open>_iob_init\<close>.\<close>

lemma fresh_files:
  assumes "plenty alloc"
  shows "rfile (iob_files alloc ! 0) []" "wfile (iob_files alloc ! 1) []" "wfile (iob_files alloc ! 2) []"
proof -
  obtain b c where "alloc 512 = Some b" "length b = 512" "alloc 1 = Some c" "length c = 1" using assms unfolding plenty_def by metis
  moreover from this(2,4) have "b \<noteq> []" "c \<noteq> []" by auto
  moreover have "F_RDONLY AND (F_EOF OR F_ERR OR F_WRONLY) = 0" "F_WRONLY AND (F_EOF OR F_ERR OR F_RDONLY) = 0" "F_RDONLY AND F_UNBUF = 0" "F_WRONLY AND F_UNBUF = 0"
      "(F_WRONLY OR F_UNBUF) AND (F_EOF OR F_ERR OR F_RDONLY) = 0" "(F_WRONLY OR F_UNBUF) AND F_UNBUF \<noteq> 0"
    by (simp_all add: f_consts)
  ultimately show "rfile (iob_files alloc ! 0) []" "wfile (iob_files alloc ! 1) []" "wfile (iob_files alloc ! 2) []"
    by (simp_all add: iob_files_def Let_def alloc_buf_def realloc_bytes_def zero_FILE_def rfile_def wfile_def BUF_SIZE_def IOB_INIT_NUMSLOTS_def
        numeral_2_eq_2)
qed

text \<open>
  C35. Two programs that are connected by a pipe and use the buffered files of the library exchange
  their data exactly: what the first writes to its standard output with \<open>fwrite\<close> and flushes, in
  elements of any size, the second reads from its standard input with \<open>fread\<close>, and both calls report
  all elements, as long as the data fit the pipe.
\<close>

theorem stdio_over_pipe:
  assumes "plenty alloc" and "pipe_ok p" and "pipe_items p = []" and "unat nmemb * unat sz = length src" and "length src \<le> unat (p_size p)"
    and "0 < sz" and "length src = length dst"
  shows "\<exists>out p1 r out' p2 inp p3. fwrite pipe_os src sz nmemb (iob_files alloc ! 1) p = Inr (unat nmemb, out, p1) \<and>
    fflush pipe_os out p1 = Inr (r, out', p2) \<and> fread pipe_os dst sz nmemb (iob_files alloc ! 0) p2 = Inr (unat nmemb, src, inp, p3)"
proof -
  have "length src < 2 ^ 32" using assms(5) unsigned_less [of "p_size p", where 'a = nat] by simp
  then show ?thesis
    using pipe_io.write_flush_read [OF refl refl assms(2,3) fresh_files(2) [OF assms(1)] fresh_files(1) [OF assms(1)] assms(4) _ _ assms(6,7)] assms(3,5)
    by simp
qed

theorem stdio_over_pipe_witness:
  "\<exists>out p1 r out' p2 inp p3. fwrite pipe_os [104, 105] 1 2 (iob_files (\<lambda>n. Some (replicate n 0)) ! 1) sample_pipe = Inr (2, out, p1) \<and>
     fflush pipe_os out p1 = Inr (r, out', p2) \<and> fread pipe_os [0, 0] 1 2 (iob_files (\<lambda>n. Some (replicate n 0)) ! 0) p2 = Inr (2, [104, 105], inp, p3)"
proof -
  have "plenty (\<lambda>n. Some (replicate n 0))" by (simp add: plenty_def)
  from stdio_over_pipe [OF this sample_pipe_ok(1,2), of 2 1 "[104, 105]" "[0, 0]"] show ?thesis by (simp add: sample_pipe_def)
qed

section \<open>What goes wrong\<close>

text \<open>
  Flushing an empty buffer makes the file unusable: \<open>write\<close> returns 0, which is taken for an error, and
  no later call writes anything.
\<close>

lemma flush_empty_breaks:
  assumes "wfile f []" and "os_write ops (io_fd f) [] s = Inr (0, s)"
  shows "\<exists>f'. fflush ops f s = Inr (EOF, f', s) \<and> (\<forall>s'. flush_buf ops f' s' = Inr (EOF, f', s'))"
proof -
  obtain b where b: "io_buf f = Some b" "int (length b) = io_size f" "0 < length b" "io_head f = io_tail f" "io_tail f mod io_size f = 0"
    and fl: "io_flags f AND (F_EOF OR F_ERR OR F_RDONLY) = 0" using assms(1) by (auto simp: wfile_def)
  have "(io_flags f OR F_ERR) AND (F_EOF OR F_ERR OR F_RDONLY) \<noteq> 0"
  proof
    assume a: "(io_flags f OR F_ERR) AND (F_EOF OR F_ERR OR F_RDONLY) = 0"
    have "bit ((io_flags f OR F_ERR) AND (F_EOF OR F_ERR OR F_RDONLY)) 5" by (simp add: bit_simps f_consts)
    then show False unfolding a by simp
  qed
  then show ?thesis
    using b fl assms(2) by (auto simp: fflush_def flush_buf_def the_buf_def need_def O_RDONLY_def EOF_def)
qed

text \<open>
  After a flush in the middle of the buffer the next full buffer does not lie in one piece, and bytes
  behind the buffer are written.
\<close>

lemma flush_overreads:
  assumes "io_buf f = Some b" and "int (length b) = io_size f" and "0 < io_tail f mod io_size f" and "io_head f = io_tail f + io_size f"
    and "io_flags f AND (F_EOF OR F_ERR OR F_RDONLY) = 0" and "io_flags f AND F_UNBUF = 0"
  shows "flush_buf ops f s = Inl Fault"
proof -
  have "0 \<le> io_size f" using assms(2) by linarith
  moreover have "\<not> nat (io_tail f mod io_size f) + nat (io_size f) \<le> length b" using assms(2,3) by linarith
  ultimately show ?thesis using assms by (simp add: flush_buf_def the_buf_def need_def Let_def)
qed

text \<open>
  \<open>O_RDONLY\<close> is 0, so a file opened for reading is marked \<open>F_RDWR\<close>, and closing it writes the bytes that
  were fetched and not read back to the file.
\<close>

lemma opened_for_reading: "open_flags 114 0 AND ucast O_RDONLY = 0 \<and> open_flags 114 0 AND ucast O_WRONLY = 0"
  by (simp add: open_flags_def O_RDONLY_def)

lemma close_writes_unread:
  assumes "rfile f pend" and "io_flags f = F_RDWR" and "pend \<noteq> []"
  shows "fclose ops f s = bnd (os_write ops (io_fd f) pend s) (\<lambda>(n, s). bnd (os_close ops (io_fd f) s) (\<lambda>(ret, s). Inr (ret, zero_FILE, s)))"
proof -
  obtain b where b: "io_buf f = Some b" "int (length b) = io_size f" "0 < length b" "io_head f = io_tail f + int (length pend)"
      "nat (io_tail f mod io_size f) + length pend \<le> length b" "take (length pend) (drop (nat (io_tail f mod io_size f)) b) = pend"
    using assms(1) by (auto simp: rfile_def)
  have z: "io_size f \<noteq> 0" using b(2,3) by auto
  have fl: "F_RDWR AND (F_EOF OR F_ERR OR F_RDONLY) = 0" "F_RDWR AND F_UNBUF = 0" by (simp_all add: f_consts)
  show ?thesis
    using b z fl assms(2) by (auto simp: fclose_def fflush_def flush_buf_def the_buf_def need_def Let_def O_RDONLY_def bnd_def split: sum.splits)
qed

end
