(* ===== verification/Clock.thy ===== *)
theory Clock
  imports Prelude
begin

text \<open>
  The real time clock (\<open>rtc.c\<close>): the interrupt handler that reads the date from the CMOS memory and turns
  it into the number of seconds since 1970, the kernel's \<open>system_time\<close>. The CMOS memory is reached through two
  ports: one selects a register (the top bit of what is written there masks interrupts and is not part of
  the number), the other reads or writes the selected register.
\<close>

section \<open>The CMOS memory\<close>

record rtc =
  cmos :: "u8 \<Rightarrow> u8"
  cmos_sel :: u8
  system_time :: u32

definition CTC_RATE :: u8 where
  "CTC_RATE = 0x0E"

definition UTC_DIFF :: u8 where
  "UTC_DIFF = - 2"

definition cmos_select :: "u8 \<Rightarrow> rtc \<Rightarrow> rtc" where
  "cmos_select r c = c\<lparr>cmos_sel := r AND 0x7F\<rparr>"

definition cmos_in :: "rtc \<Rightarrow> u8" where
  "cmos_in c = cmos c (cmos_sel c)"

definition cmos_out :: "u8 \<Rightarrow> rtc \<Rightarrow> rtc" where
  "cmos_out v c = c\<lparr>cmos := (cmos c)(cmos_sel c := v)\<rparr>"

definition rtc_get_reg :: "u8 \<Rightarrow> rtc \<Rightarrow> u8 \<times> rtc" where
  "rtc_get_reg r c = (let c = cmos_select r c in (cmos_in c, c))"

section \<open>The time\<close>

definition mon_days :: "u8 list" where
  "mon_days = [31, 28, 31, 30, 31, 30, 31, 31, 30, 31, 30, 31]"

fun add_months :: "nat \<Rightarrow> nat \<Rightarrow> u32 \<Rightarrow> u32 kres" where
  "add_months j 0 days = Inr days"
| "add_months j (Suc n) days = bnd (aget mon_days j) (\<lambda>d. add_months (Suc j) n (days + ucast d))"

definition set_system_time :: "u16 \<Rightarrow> u8 \<Rightarrow> u8 \<Rightarrow> u8 \<Rightarrow> u8 \<Rightarrow> u8 \<Rightarrow> rtc \<Rightarrow> rtc kres" where
  "set_system_time y m d h i s c =
    (let y = y - 1970; leaps = (ucast y + 2 :: u32) div 4; m = m - 1
     in bnd (add_months 0 (unat m) 0) (\<lambda>days.
       let days = days + (ucast d - 1); days = days + ucast y * 365 + leaps; h = h + UTC_DIFF
       in Inr (c\<lparr>system_time := days * 86400 + ucast h * 3600 + ucast i * 60 + ucast s\<rparr>)))"

definition get_time :: "rtc \<Rightarrow> u32" where
  "get_time c = system_time c"

definition bcd :: "u8 \<Rightarrow> u8 \<Rightarrow> u8" where
  "bcd low v = (low AND 0x0F) + (v div 16) * 10"

definition rtc_handler :: "rtc \<Rightarrow> rtc kres" where
  "rtc_handler c0 =
    (let (_, c1) = rtc_get_reg 0x0C c0; (b, c2) = rtc_get_reg 0x0B c1; c3 = cmos_select 0 c2;
         (s, c4) = rtc_get_reg 0x00 c3; (i, c5) = rtc_get_reg 0x02 c4; (h, c6) = rtc_get_reg 0x04 c5;
         (d, c7) = rtc_get_reg 0x07 c6; (m, c8) = rtc_get_reg 0x08 c7; (y, c9) = rtc_get_reg 0x09 c8;
         (c, st) = rtc_get_reg 0x32 c9; c = (if c = 0 then 20 else c)
     in if b AND 0x04 = 0
        then let s = bcd s s; i = bcd m i; h = ((h AND 0x0F) + ((h AND 0x70) div 16) * 10) OR (h AND 0x80);
                 d = bcd d d; m = bcd m m; y = bcd y y; c = bcd c c
             in set_system_time (ucast c * 100 + ucast y) m d h i s st
        else set_system_time (ucast c * 100 + ucast y) m d h i s st)"

definition rtc_init :: "rtc \<Rightarrow> rtc" where
  "rtc_init c =
    (let c = c\<lparr>system_time := 0\<rparr>; c = cmos_select 0x8A c; prev = cmos_in c; c = cmos_select 0x8A c;
         c = cmos_out ((prev AND 0xF0) OR CTC_RATE) c; c = cmos_select 0x0B c; prev = cmos_in c; c = cmos_select 0x0B c
     in cmos_out (prev OR 0x40) c)"

section \<open>The calendar\<close>













section \<open>The clock is right\<close>











definition sample_rtc :: rtc where
  "sample_rtc = \<lparr>cmos = (\<lambda>r. if r = 0x0B then 2 else if r = 4 then 0x13 else if r = 2 then 0x45 else if r = 7 then 0x29 else
     if r = 8 then 5 else if r = 9 then 0x18 else if r = 0x32 then 0x20 else 0x09), cmos_sel = 0, system_time = 0\<rparr>"


section \<open>Where the clock is wrong\<close>

definition clock_time :: "rtc kres \<Rightarrow> u32" where
  "clock_time r = (case r of Inr c \<Rightarrow> get_time c | Inl _ \<Rightarrow> 0)"

text \<open>
  Before two o'clock the hour wraps around in its byte: midnight of the 29th of May is taken for four in the afternoon
  of the 8th of June. The 29th of February is taken for the first of March, and the day before it as well for the day after.
\<close>

lemma midnight_jumps: "clock_time (set_system_time 2018 5 29 0 0 0 sample_rtc) = clock_time (set_system_time 2018 6 8 16 0 0 sample_rtc)"
  by code_simp

lemma leap_day_lost: "clock_time (set_system_time 2020 2 29 12 0 0 sample_rtc) = clock_time (set_system_time 2020 3 1 12 0 0 sample_rtc)"
  by code_simp

text \<open>
  With decimal digits the last digit of the minutes is that of the month, so that the clock stands still for ten minutes, and a
  missing century, set to 20 before the conversion from decimal digits, becomes 14.
\<close>

lemma minutes_from_month:
  "clock_time (rtc_handler (sample_rtc\<lparr>cmos := (cmos sample_rtc)(2 := 0x40)\<rparr>)) = clock_time (rtc_handler sample_rtc)"
  by code_simp

lemma missing_century:
  "clock_time (rtc_handler (sample_rtc\<lparr>cmos := (cmos sample_rtc)(0x32 := 0)\<rparr>)) = clock_time (set_system_time 1418 5 29 13 45 9 sample_rtc)"
  by code_simp

text \<open>A month of 0, which no valid clock shows, reads behind the table of month lengths.\<close>

lemma month_zero_faults: "set_system_time y 0 d h i s c = Inl Fault"
proof -
  have r: "add_months j n days = Inl Fault" if "12 < j + n" "j \<le> 12" for j n days
    using that by (induction j n days rule: add_months.induct) (auto simp: aget_def mon_days_def bnd_def)
  have "add_months 0 (unat (0 - 1 :: u8)) 0 = Inl Fault" by (rule r) code_simp+
  then show ?thesis by (simp add: set_system_time_def Let_def)
qed

section \<open>Programming the clock\<close>

lemma rtc_init_registers:
  "cmos (rtc_init c) = (cmos c)(0x0A := (cmos c 0x0A AND 0xF0) OR CTC_RATE, 0x0B := cmos c 0x0B OR 0x40)"
  "system_time (rtc_init c) = 0"
  by (simp_all add: rtc_init_def Let_def cmos_select_def cmos_in_def cmos_out_def)

end
