(* ===== verification/Intr.thy ===== *)
theory Intr
  imports Task
begin

text \<open>
  Interrupts: the descriptor tables of the processor (\<open>gdt.c\<close>, \<open>idt.c\<close>), the interrupt controllers
  (\<open>irq.c\<close>), the table of handlers and the way from an interrupt to its handler (\<open>int.c\<close>), the timer (\<open>timer.c\<close>), the
  page fault handler's decisions (\<open>mem.c\<close>) and the dispatch of system calls (\<open>syscall.c\<close>).

  A handler is a function on the saved registers and the state of the rest of the kernel. What the devices see is
  the sequence of port writes. The two interrupt controllers and the reading of a descriptor by the processor are
  modelled from their documentation; the entry points \<open>isr0\<close> to \<open>isr31\<close>, \<open>isr128\<close> and \<open>irq0\<close> to \<open>irq15\<close> of \<open>i386.asm\<close> push
  their number and call \<open>int_handler\<close>.
\<close>

section \<open>Segments\<close>

record gdt_entry =
  limit_low :: u16
  base_low :: u16
  base_middle :: u8
  g_access :: u8
  granularity :: u8
  base_high :: u8

definition gdt_gate :: "u32 \<Rightarrow> u32 \<Rightarrow> u8 \<Rightarrow> u8 \<Rightarrow> gdt_entry" where
  "gdt_gate b limit acc gran =
     \<lparr>limit_low = ucast (limit AND 0xFFFF), base_low = ucast (b AND 0xFFFF), base_middle = ucast (drop_bit 16 b AND 0xFF),
      g_access = acc, granularity = (ucast (drop_bit 16 limit AND 0x0F)) OR (gran AND 0xF0), base_high = ucast (drop_bit 24 b AND 0xFF)\<rparr>"

definition gdt_set_gate :: "nat \<Rightarrow> u32 \<Rightarrow> u32 \<Rightarrow> u8 \<Rightarrow> u8 \<Rightarrow> gdt_entry list \<Rightarrow> gdt_entry list kres" where
  "gdt_set_gate num b limit acc gran gdt = aset gdt num (gdt_gate b limit acc gran)"

record tss_entry_struct =
  esp0 :: u32
  ss0 :: u32
  tss_cs :: u32
  tss_segs :: "u32 list"

definition TSS_SIZE :: u32 where
  "TSS_SIZE = 104"

text \<open>The other fields are zero, and never read. \<open>addr\<close> is the address of the structure.\<close>

definition write_tss :: "u32 \<Rightarrow> nat \<Rightarrow> u32 \<Rightarrow> u32 \<Rightarrow> gdt_entry list \<Rightarrow> (gdt_entry list \<times> tss_entry_struct) kres" where
  "write_tss addr num s e gdt =
     bnd (gdt_set_gate num addr (addr + TSS_SIZE) 0xE9 0 gdt) (\<lambda>gdt.
     Inr (gdt, \<lparr>esp0 = e, ss0 = s, tss_cs = 0x0b, tss_segs = [0x13, 0x13, 0x13, 0x13, 0x13]\<rparr>))"

definition gdt_init :: "gdt_entry list \<Rightarrow> gdt_entry list kres" where
  "gdt_init gdt =
     bnd (gdt_set_gate 0 0 0 0 0 gdt) (\<lambda>gdt.
     bnd (gdt_set_gate 1 0 0xFFFFFFFF 0x9A 0xCF gdt) (\<lambda>gdt.
     bnd (gdt_set_gate 2 0 0xFFFFFFFF 0x92 0xCF gdt) (\<lambda>gdt.
     bnd (gdt_set_gate 3 0 0xFFFFFFFF 0xFA 0xCF gdt) (\<lambda>gdt.
     gdt_set_gate 4 0 0xFFFFFFFF 0xF2 0xCF gdt))))"

section \<open>Gates\<close>

record idt_entry =
  base_lo :: u16
  g_sel :: u16
  always0 :: u8
  g_flags :: u8
  base_hi :: u16

definition idt_gate :: "u32 \<Rightarrow> u16 \<Rightarrow> u8 \<Rightarrow> idt_entry" where
  "idt_gate b sel flags = \<lparr>base_lo = ucast (b AND 0xFFFF), g_sel = sel, always0 = 0, g_flags = flags, base_hi = ucast (drop_bit 16 b AND 0xFFFF)\<rparr>"

definition idt_set_gate :: "u8 \<Rightarrow> u32 \<Rightarrow> u16 \<Rightarrow> u8 \<Rightarrow> idt_entry list \<Rightarrow> idt_entry list kres" where
  "idt_set_gate num b sel flags idt = aset idt (unat num) (idt_gate b sel flags)"

definition idt_init :: "idt_entry list" where
  "idt_init = replicate 256 \<lparr>base_lo = 0, g_sel = 0, always0 = 0, g_flags = 0, base_hi = 0\<rparr>"

section \<open>Registers, handlers and the state\<close>

record iregs =
  r_gs :: u32
  r_fs :: u32
  r_es :: u32
  r_ds :: u32
  r_edi :: u32
  r_esi :: u32
  r_ebp :: u32
  r_esp :: u32
  r_ebx :: u32
  r_edx :: u32
  r_ecx :: u32
  r_eax :: u32
  r_int_no :: u32
  r_err_code :: u32
  r_eip :: u32
  r_cs :: u32
  r_eflags :: u32
  r_useresp :: u32
  r_ss :: u32

type_synonym 's handler = "iregs \<Rightarrow> 's \<Rightarrow> (u32 \<times> iregs \<times> 's) kres"

record 's intr =
  int_routines :: "'s handler option list"
  idt :: "idt_entry list"
  port_log :: "(u16 \<times> u8) list"
  irqs_on :: bool
  cur_regs :: "iregs option"
  kernel :: 's

definition outb :: "u16 \<Rightarrow> u8 \<Rightarrow> 's intr \<Rightarrow> 's intr" where
  "outb p v st = st\<lparr>port_log := port_log st @ [(p, v)]\<rparr>"

definition run_handler :: "'s handler \<Rightarrow> iregs \<Rightarrow> 's intr \<Rightarrow> (u32 \<times> iregs \<times> 's intr) kres" where
  "run_handler h r st = bnd (h r (kernel st)) (\<lambda>(ret, r, k). Inr (ret, r, st\<lparr>kernel := k\<rparr>))"

definition int_install_handler :: "u8 \<Rightarrow> 's handler \<Rightarrow> 's intr \<Rightarrow> 's intr kres" where
  "int_install_handler n h st = bnd (aset (int_routines st) (unat n) (Some h)) (\<lambda>t. Inr (st\<lparr>int_routines := t\<rparr>))"

definition int_uninstall_handler :: "u8 \<Rightarrow> 's intr \<Rightarrow> 's intr kres" where
  "int_uninstall_handler n st = bnd (aset (int_routines st) (unat n) None) (\<lambda>t. Inr (st\<lparr>int_routines := t\<rparr>))"

definition irq_install_handler :: "u8 \<Rightarrow> 's handler \<Rightarrow> 's intr \<Rightarrow> 's intr kres" where
  "irq_install_handler irq h st = bnd (aset (int_routines st) (unat irq + 32) (Some h)) (\<lambda>t. Inr (st\<lparr>int_routines := t\<rparr>))"

definition irq_uninstall_handler :: "u8 \<Rightarrow> 's intr \<Rightarrow> 's intr kres" where
  "irq_uninstall_handler irq st = bnd (aset (int_routines st) (unat irq + 32) None) (\<lambda>t. Inr (st\<lparr>int_routines := t\<rparr>))"

section \<open>Setting up\<close>

text \<open>The entry points, with the number each pushes; \<open>entry\<close> is the address the linker gives it.\<close>

datatype stub = Isr nat | Irq nat

fun stub_no :: "stub \<Rightarrow> u32" where
  "stub_no (Isr n) = of_nat n"
| "stub_no (Irq n) = of_nat n + 32"

fun set_gates :: "(stub \<Rightarrow> u32) \<Rightarrow> (u8 \<times> stub \<times> u8) list \<Rightarrow> 's intr \<Rightarrow> 's intr kres" where
  "set_gates entry [] st = Inr st"
| "set_gates entry ((n, s, fl) # gs) st =
     bnd (idt_set_gate n (entry s) 0x08 fl (idt st)) (\<lambda>t. set_gates entry gs (st\<lparr>idt := t\<rparr>))"

definition int_gates :: "(u8 \<times> stub \<times> u8) list" where
  "int_gates = map (\<lambda>n. (of_nat n, Isr n, if n = 3 then 0xEE else 0x8E)) [0..<32] @ [(128, Isr 128, 0xEE)]"

definition int_init :: "(stub \<Rightarrow> u32) \<Rightarrow> 's intr \<Rightarrow> 's intr kres" where
  "int_init entry st = bnd (set_gates entry int_gates st) (\<lambda>st. Inr (st\<lparr>int_routines := replicate (length (int_routines st)) None\<rparr>))"

definition port_8259M :: u16 where
  "port_8259M = 0x20"

definition port_8259S :: u16 where
  "port_8259S = 0xA0"

definition irq_remap :: "'s intr \<Rightarrow> 's intr" where
  "irq_remap st =
     fold (\<lambda>(p, v). outb p v) [(port_8259M, 0x11), (port_8259S, 0x11), (port_8259M + 1, 0x20), (port_8259S + 1, 0x28),
       (port_8259M + 1, 0x04), (port_8259S + 1, 0x02), (port_8259M + 1, 0x01), (port_8259S + 1, 0x01),
       (port_8259M + 1, 0), (port_8259S + 1, 0)] st"

definition irq_gates :: "(u8 \<times> stub \<times> u8) list" where
  "irq_gates = map (\<lambda>n. (of_nat (32 + n), Irq n, 0x8E)) [0..<16]"

definition irq_install :: "(stub \<Rightarrow> u32) \<Rightarrow> 's intr \<Rightarrow> 's intr kres" where
  "irq_install entry st = set_gates entry irq_gates (irq_remap st)"

section \<open>From an interrupt to its handler\<close>

definition irq_handler :: "iregs \<Rightarrow> 's intr \<Rightarrow> (iregs \<times> 's intr) kres" where
  "irq_handler r st =
     (let st = (if 0x28 \<le> r_int_no r then outb port_8259S 0x20 st else st); st = outb port_8259M 0x20 st in
      bnd (aget (int_routines st) (unat (r_int_no r))) (\<lambda>h.
      case h of None \<Rightarrow> Inr (r, st) | Some h \<Rightarrow> bnd (run_handler h r st) (\<lambda>(_, r, st). Inr (r, st))))"

text \<open>
  \<open>pf\<close> is the page fault handler, whose result says whether the fault was dealt with. \<open>halt\<close> stops the kernel.
\<close>

definition fault_handler :: "'s handler \<Rightarrow> iregs \<Rightarrow> 's intr \<Rightarrow> (iregs \<times> 's intr) kres" where
  "fault_handler pf r st =
     (if r_int_no r < 32 then
        if r_int_no r = 14
        then bnd (run_handler pf r st) (\<lambda>(ret, r, st). if ret \<noteq> 0 then Inr (r, st) else Inl (Panic ''halt''))
        else if r_int_no r = 3 then Inr (r, st) else Inl (Panic ''halt'')
      else Inr (r, st))"

definition isr_handler :: "'s handler \<Rightarrow> iregs \<Rightarrow> 's intr \<Rightarrow> (u32 \<times> iregs \<times> 's intr) kres" where
  "isr_handler pf r st =
     (let int_no = ucast (0xFF AND r_int_no r) :: u8; st = (if int_no = 128 then st\<lparr>irqs_on := True\<rparr> else st) in
      bnd (aget (int_routines st) (unat int_no)) (\<lambda>h.
      case h of Some h \<Rightarrow> run_handler h r st
      | None \<Rightarrow> bnd (fault_handler pf r st) (\<lambda>(r, st). Inr (0, r, st))))"

definition save_regs :: "iregs \<Rightarrow> 's intr \<Rightarrow> 's intr" where
  "save_regs r st = (case cur_regs st of None \<Rightarrow> st
     | Some old \<Rightarrow> st\<lparr>cur_regs := Some (r\<lparr>r_useresp := if r_useresp r = 0 then r_useresp old else r_useresp r\<rparr>)\<rparr>)"

definition int_handler :: "'s handler \<Rightarrow> iregs \<Rightarrow> 's intr \<Rightarrow> (u32 \<times> iregs \<times> 's intr) kres" where
  "int_handler pf r st =
     (let int_no = ucast (r_int_no r) :: u8; st = save_regs r st in
      if 31 < int_no \<and> int_no < 48 then bnd (irq_handler r st) (\<lambda>(r, st). Inr (0, r, st)) else isr_handler pf r st)"

section \<open>The timer\<close>

definition pit_data1 :: u16 where
  "pit_data1 = 0x40"

definition pit_cmmnd :: u16 where
  "pit_cmmnd = 0x43"

definition set_timer_phase :: "nat \<Rightarrow> 's intr \<Rightarrow> 's intr kres" where
  "set_timer_phase hz st =
     (if hz = 0 then Inl Fault
      else let divisor = 1193180 div hz in
        Inr (outb pit_data1 (of_nat (divisor div 256)) (outb pit_data1 (of_nat (divisor mod 256)) (outb pit_cmmnd 0x36 st))))"

text \<open>
  \<open>current_task\<close> is null only until the scheduler starts. The switch of registers that ends \<open>task_switch_int\<close> is
  assembler; the signals of the chosen task are handled by \<open>process_signals\<close> of \<open>Task\<close>.
\<close>

definition timer_handler :: "bool \<Rightarrow> sched \<Rightarrow> sched kres" where
  "timer_handler started s =
     (let s = s\<lparr>timer_ticks := timer_ticks s + 1\<rparr> in if started then task_switch_inner s else Inr s)"

definition timer_install :: "'s handler \<Rightarrow> ('s \<Rightarrow> 's) \<Rightarrow> 's intr \<Rightarrow> 's intr kres" where
  "timer_install h reset st =
     bnd (irq_install_handler 0 h (st\<lparr>kernel := reset (kernel st)\<rparr>)) (\<lambda>st. set_timer_phase (1000 div unat MS_PER_TICK) st)"

section \<open>Page faults\<close>

text \<open>
  What \<open>page_fault\<close> decides from the address and the static counter of faults; the messages it prints are left out.
\<close>

datatype fault_result = Signal_return | Exit_task int | Unhandled

definition page_fault :: "u32 \<Rightarrow> bool \<Rightarrow> int \<Rightarrow> (fault_result \<times> int) kres" where
  "page_fault addr started fault_counter =
     (let fault_counter = fault_counter + 1 in
      if 10 < fault_counter then Inl (Panic ''Too many faults'')
      else if addr = 0xC0DEDAC0 then Inr (Signal_return, fault_counter)
      else if started then Inr (Exit_task (128 + 9), fault_counter) else Inr (Unhandled, fault_counter))"

section \<open>System calls\<close>

datatype sysname = Sys_fork_int | Sys_task_wait | Sys_task_exit | Sys_getpid | Sys_exec | Sys_ps | Sys_sbrk | Sys_open
  | Sys_close | Sys_stat | Sys_fstat | Sys_read | Sys_write | Sys_chdir | Sys_chroot | Sys_chmod | Sys_chown | Sys_mkdir
  | Sys_cofs_dump_cache | Sys_isatty | Sys_lseek | Sys_opendir | Sys_closedir | Sys_readdir | Sys_lstat | Sys_readlink
  | Sys_getcwd | Sys_unlink | Sys_dup | Sys_pipe | Sys_link | Sys_rename | Sys_kill | Sys_signal | Sys_ioctl | Sys_setsid
  | Sys_time | Sys_ftruncate

definition syscalls :: "sysname option list" where
  "syscalls = [None, Some Sys_fork_int, Some Sys_task_wait, Some Sys_task_exit, Some Sys_getpid, Some Sys_exec, Some Sys_ps,
     Some Sys_sbrk, Some Sys_open, Some Sys_close, Some Sys_stat, Some Sys_fstat, Some Sys_read, Some Sys_write,
     Some Sys_chdir, Some Sys_chroot, Some Sys_chmod, Some Sys_chown, Some Sys_mkdir, Some Sys_cofs_dump_cache,
     Some Sys_isatty, Some Sys_lseek, Some Sys_opendir, Some Sys_closedir, Some Sys_readdir, Some Sys_lstat,
     Some Sys_readlink, Some Sys_getcwd, Some Sys_unlink, Some Sys_dup, Some Sys_pipe, None, Some Sys_link, Some Sys_rename,
     Some Sys_kill, Some Sys_signal, Some Sys_ioctl, Some Sys_setsid, Some Sys_time, Some Sys_ftruncate]"

text \<open>\<open>call_sys\<close> runs the chosen function with the five argument registers; calling a null pointer is a fault.\<close>

definition syscall_handler :: "(sysname \<Rightarrow> u32 list \<Rightarrow> 's \<Rightarrow> (u32 \<times> 's) kres) \<Rightarrow> 's handler" where
  "syscall_handler call r k =
     (if of_nat (length syscalls) \<le> r_eax r then Inr (0, r\<lparr>r_eax := 0\<rparr>, k)
      else case syscalls ! unat (r_eax r) of None \<Rightarrow> Inl Fault
        | Some f \<Rightarrow> bnd (call f [r_ebx r, r_ecx r, r_edx r, r_esi r, r_edi r] k) (\<lambda>(v, k). Inr (v, r\<lparr>r_eax := v\<rparr>, k)))"

definition syscall_init :: "(sysname \<Rightarrow> u32 list \<Rightarrow> 's \<Rightarrow> (u32 \<times> 's) kres) \<Rightarrow> 's intr \<Rightarrow> 's intr kres" where
  "syscall_init call st = int_install_handler 0x80 (syscall_handler call) st"

section \<open>The hardware\<close>

text \<open>
  An 8259 interrupt controller: a command with bit 4 set starts its initialisation, after which three values on its data
  port are the number of its first vector (ICW2), its place in the cascade (ICW3: for the master the set of lines that have a slave,
  for a slave the number of its line) and its mode (ICW4, bit 0: the 8086); later ones are the mask.
\<close>

record pic =
  pic_stage :: nat
  pic_base :: u8
  pic_cascade :: u8
  pic_mode :: u8
  pic_mask :: u8

definition pic_cmd :: "u8 \<Rightarrow> pic \<Rightarrow> pic" where
  "pic_cmd v p = (if bit v 4 then p\<lparr>pic_stage := 1, pic_mask := 0\<rparr> else p)"

definition pic_data :: "u8 \<Rightarrow> pic \<Rightarrow> pic" where
  "pic_data v p = (if pic_stage p = 0 then p\<lparr>pic_mask := v\<rparr>
     else if pic_stage p = 1 then p\<lparr>pic_stage := 2, pic_base := v\<rparr>
     else if pic_stage p = 2 then p\<lparr>pic_stage := 3, pic_cascade := v\<rparr> else p\<lparr>pic_stage := 0, pic_mode := v\<rparr>)"

definition pic_out :: "u16 \<times> u8 \<Rightarrow> pic \<times> pic \<Rightarrow> pic \<times> pic" where
  "pic_out pv ms = (case (pv, ms) of ((p, v), (m, s)) \<Rightarrow>
     if p = 0x20 then (pic_cmd v m, s) else if p = 0x21 then (pic_data v m, s)
     else if p = 0xA0 then (m, pic_cmd v s) else if p = 0xA1 then (m, pic_data v s) else (m, s))"

text \<open>
  The vector an interrupt line raises: the controllers are initialised and in the mode of the 8086, the line is not masked, and
  a line of the slave, which is on line 2 of the master, goes through the cascade, where both controllers must know it. A line of the
  master that has a slave raises no vector of its own.
\<close>

definition pic_ready :: "pic \<Rightarrow> bool" where
  "pic_ready p \<longleftrightarrow> pic_stage p = 0 \<and> bit (pic_mode p) 0"

definition pic_vector :: "nat \<Rightarrow> pic \<times> pic \<Rightarrow> u8 option" where
  "pic_vector n ms = (case ms of (m, s) \<Rightarrow>
     if \<not> pic_ready m \<or> \<not> pic_ready s then None
     else if n < 8 then if bit (pic_mask m) n \<or> bit (pic_cascade m) n then None else Some (pic_base m + of_nat n)
     else if bit (pic_mask s) (n - 8) \<or> bit (pic_mask m) 2 \<or> \<not> bit (pic_cascade m) 2 \<or> pic_cascade s \<noteq> 2 then None
     else Some (pic_base s + of_nat (n - 8)))"

text \<open>The address the processor takes from a gate and from a segment descriptor, and the segment's limit.\<close>

definition gate_target :: "idt_entry \<Rightarrow> u32" where
  "gate_target g = ucast (base_lo g) OR push_bit 16 (ucast (base_hi g))"

definition seg_base :: "gdt_entry \<Rightarrow> u32" where
  "seg_base g = ucast (base_low g) OR push_bit 16 (ucast (base_middle g)) OR push_bit 24 (ucast (base_high g))"

definition seg_limit :: "gdt_entry \<Rightarrow> u32" where
  "seg_limit g = ucast (limit_low g) OR push_bit 16 (ucast (granularity g) AND 0x0F)"

text \<open>
  Where an interrupt takes the processor through a gate: nowhere, unless the gate is present (bit 7) and an interrupt gate of 32 bits (type \<open>0xE\<close>), and
  its selector names a present code segment of the table with privilege level 0; else to the offset of the gate in this segment.
\<close>

definition gate_enters :: "gdt_entry list \<Rightarrow> idt_entry \<Rightarrow> u32 option" where
  "gate_enters gdt g =
     (let i = unat (g_sel g) div 8 in
      if bit (g_flags g) 7 \<and> g_flags g AND 0x1F = 0x0E \<and> always0 g = 0 \<and> g_sel g AND 7 = 0 \<and> i \<noteq> 0 \<and> i < length gdt \<and>
         g_access (gdt ! i) AND 0xF8 = 0x98
      then Some (seg_base (gdt ! i) + gate_target g) else None)"

section \<open>Descriptors\<close>

lemma masks: "(0xFFFF :: u32) = mask 16" "(0xFF :: u32) = mask 8" "(0x0F :: u32) = mask 4" "(0xFFFFF :: u32) = mask 20" "(0xF0 :: u8) = push_bit 4 (mask 4)"
  by (simp_all add: mask_eq_exp_minus_1)

lemmas descr_bits = bit_or_iff bit_and_iff bit_push_bit_iff bit_drop_bit_eq bit_unsigned_iff bit_mask_iff o_def possible_bit_word

lemma idt_gate_target [simp]: "gate_target (idt_gate b sel fl) = b"
  by (rule bit_word_eqI) (auto simp: gate_target_def idt_gate_def masks descr_bits)

lemma gdt_gate_base: "seg_base (gdt_gate b l a g) = b"
proof (rule bit_word_eqI)
  fix n
  assume "n < LENGTH(32)"
  then show "bit (seg_base (gdt_gate b l a g)) n = bit b n"
    by (cases "n < 24") (auto simp: seg_base_def gdt_gate_def masks descr_bits)
qed

lemma gdt_gate_limit: "seg_limit (gdt_gate b l a g) = l AND 0xFFFFF"
  by (rule bit_word_eqI) (auto simp: seg_limit_def gdt_gate_def masks descr_bits)

text \<open>The limit of the task state segment is meant to be its size, but is its end: the address is added to it.\<close>

lemma tss_limit_wrong:
  "write_tss 0x00105000 5 0x10 0x2000 (replicate 6 (gdt_gate 0 0 0 0)) = Inr (gdt, tss) \<Longrightarrow> seg_limit (gdt ! 5) = 0x5068 \<and> seg_base (gdt ! 5) = 0x00105000"
  by (auto simp: write_tss_def gdt_set_gate_def gdt_gate_base gdt_gate_limit TSS_SIZE_def)

lemma gdt_init_flat:
  assumes "length gdt = 6"
  shows "\<exists>g. gdt_init gdt = Inr g \<and> length g = 6 \<and> g ! 5 = gdt ! 5 \<and>
    (\<forall>i\<in>{1, 2, 3, 4}. seg_base (g ! i) = 0 \<and> seg_limit (g ! i) = 0xFFFFF \<and> granularity (g ! i) = 0xCF) \<and> g_access (g ! 1) = 0x9A"
  using assms by (simp add: gdt_init_def gdt_set_gate_def gdt_gate_base gdt_gate_limit) (simp add: gdt_gate_def)

section \<open>Routing\<close>

lemma unat_neq: "m \<noteq> n \<Longrightarrow> unat (n :: u8) \<noteq> unat m"
  using unsigned_word_eqI [of n m, where 'a = nat] by auto

lemma set_gates_ok:
  assumes "length (idt st) = 256"
  shows "\<exists>t. set_gates entry gs st = Inr (st\<lparr>idt := t\<rparr>) \<and> length t = 256 \<and>
    (\<forall>n. (case map_of (rev gs) n of None \<Rightarrow> t ! unat n = idt st ! unat n
      | Some (s, fl) \<Rightarrow> t ! unat n = idt_gate (entry s) 0x08 fl))"
  using assms
proof (induction gs arbitrary: st)
  case (Cons g gs)
  obtain n s fl where g: "g = (n, s, fl)" by (cases g)
  have n: "unat n < 256" using unsigned_less [of n, where 'a = nat] by simp
  let ?st = "st\<lparr>idt := (idt st)[unat n := idt_gate (entry s) 8 fl]\<rparr>"
  from Cons.IH [of ?st] Cons.prems obtain t where t: "set_gates entry gs ?st = Inr (?st\<lparr>idt := t\<rparr>)" "length t = 256"
    "\<And>m. case map_of (rev gs) m of None \<Rightarrow> t ! unat m = idt ?st ! unat m
      | Some (s, fl) \<Rightarrow> t ! unat m = idt_gate (entry s) 0x08 fl" by auto
  have "case map_of (rev (g # gs)) m of None \<Rightarrow> t ! unat m = idt st ! unat m
      | Some (s, fl) \<Rightarrow> t ! unat m = idt_gate (entry s) 0x08 fl" for m
  proof (cases "map_of (rev gs) m")
    case None
    then have "t ! unat m = (idt st)[unat n := idt_gate (entry s) 8 fl] ! unat m" using t(3) [of m] by simp
    also have "\<dots> = (if m = n then idt_gate (entry s) 8 fl else idt st ! unat m)"
      using n Cons.prems by (cases "m = n") (simp_all add: nth_list_update_neq [OF unat_neq])
    finally show ?thesis using None by (cases "m = n") (simp_all add: g map_add_def)
  next
    case (Some a)
    then show ?thesis using t(3) [of m] by (simp add: g map_add_def)
  qed
  with t(1,2) show ?case using Cons.prems n by (auto simp: g idt_set_gate_def intro!: exI [of _ t])
qed (auto intro!: exI [of _ "idt _"])

lemma irq_gate_find: "n < 16 \<Longrightarrow> map_of (rev irq_gates) (of_nat (32 + n)) = Some (Irq n, 0x8E)"
proof -
  have "\<forall>n\<in>set [0..<16]. map_of (rev irq_gates) (of_nat (32 + n)) = Some (Irq n, 0x8E)" by code_simp
  then show "n < 16 \<Longrightarrow> ?thesis" by simp
qed

lemma remap_pics: "fold pic_out [(0x20, 0x11), (0xA0, 0x11), (0x21, 0x20), (0xA1, 0x28), (0x21, 0x04), (0xA1, 0x02), (0x21, 0x01), (0xA1, 0x01), (0x21, 0), (0xA1, 0)]
    (m, s) = (m\<lparr>pic_stage := 0, pic_base := 0x20, pic_cascade := 4, pic_mode := 1, pic_mask := 0\<rparr>,
      s\<lparr>pic_stage := 0, pic_base := 0x28, pic_cascade := 2, pic_mode := 1, pic_mask := 0\<rparr>)"
  by (simp add: pic_out_def pic_cmd_def pic_data_def)

definition set_up :: "(stub \<Rightarrow> u32) \<Rightarrow> 's intr \<Rightarrow> 's intr kres" where
  "set_up entry st = bnd (int_init entry st) (irq_install entry)"

lemma set_up_ok:
  assumes "length (idt st) = 256" and "length (int_routines st) = 256"
  shows "\<exists>t. set_up entry st = Inr (st\<lparr>idt := t, int_routines := replicate 256 None, port_log := port_log st @
      [(0x20, 0x11), (0xA0, 0x11), (0x21, 0x20), (0xA1, 0x28), (0x21, 0x04), (0xA1, 0x02), (0x21, 0x01), (0xA1, 0x01), (0x21, 0), (0xA1, 0)]\<rparr>) \<and>
    length t = 256 \<and> (\<forall>n < 16. t ! (32 + n) = idt_gate (entry (Irq n)) 8 0x8E)"
proof -
  obtain t0 where t0: "set_gates entry int_gates st = Inr (st\<lparr>idt := t0\<rparr>)" "length t0 = 256" using set_gates_ok [OF assms(1)] by blast
  define st1 where "st1 = st\<lparr>idt := t0, int_routines := replicate 256 None\<rparr>"
  have i: "int_init entry st = Inr st1" using t0 assms(2) by (simp add: int_init_def st1_def)
  have rm: "irq_remap st1 = st1\<lparr>port_log := port_log st @ [(0x20, 0x11), (0xA0, 0x11), (0x21, 0x20), (0xA1, 0x28), (0x21, 0x04), (0xA1, 0x02),
      (0x21, 0x01), (0xA1, 0x01), (0x21, 0), (0xA1, 0)]\<rparr>"
    by (simp add: irq_remap_def outb_def port_8259M_def port_8259S_def st1_def)
  have l1: "length (idt (irq_remap st1)) = 256" using t0(2) by (simp add: rm) (simp add: st1_def)
  obtain t where t: "set_gates entry irq_gates (irq_remap st1) = Inr ((irq_remap st1)\<lparr>idt := t\<rparr>)" "length t = 256"
    "\<And>n. case map_of (rev irq_gates) n of None \<Rightarrow> t ! unat n = idt (irq_remap st1) ! unat n | Some (s, fl) \<Rightarrow> t ! unat n = idt_gate (entry s) 0x08 fl"
    using set_gates_ok [OF l1] by blast
  have "t ! (32 + n) = idt_gate (entry (Irq n)) 8 0x8E" if "n < 16" for n
  proof -
    have "unat (of_nat (32 + n) :: u8) = 32 + n" using that by (subst unat_of_nat) simp
    with t(3) [of "of_nat (32 + n)"] show ?thesis by (simp only: irq_gate_find [OF that]) simp
  qed
  moreover have "set_up entry st = Inr ((irq_remap st1)\<lparr>idt := t\<rparr>)" using i t(1) by (simp add: set_up_def irq_install_def)
  ultimately show ?thesis using t(2) unfolding rm by (intro exI [of _ t]) (simp add: st1_def)
qed

lemma irq_install_ok:
  assumes "length (int_routines st) = 256" and "n < 16"
  shows "irq_install_handler (of_nat n) h st = Inr (st\<lparr>int_routines := (int_routines st)[32 + n := Some h]\<rparr>)"
proof -
  have "unat (of_nat n :: u8) = n" using assms(2) by (simp add: unat_of_nat)
  then show ?thesis using assms by (simp add: irq_install_handler_def add.commute)
qed

lemma irq_dispatch:
  assumes "r_int_no r = of_nat (32 + n)" and "n < 16" and "length (int_routines st) = 256" and "int_routines st ! (32 + n) = Some h"
  shows "int_handler pf r st = bnd (h r (kernel st)) (\<lambda>(_, r', k). Inr (0, r', (save_regs r st)\<lparr>port_log := port_log st @
    (if 8 \<le> n then [(0xA0, 0x20)] else []) @ [(0x20, 0x20)], kernel := k\<rparr>))"
proof -
  have u: "unat (r_int_no r) = 32 + n" unfolding assms(1) using assms(2) by (subst unat_of_nat) simp
  have c: "ucast (r_int_no r) = (of_nat (32 + n) :: u8)" unfolding assms(1) using assms(2)
    by (simp only: unsigned_of_nat) (simp add: take_bit_nat_eq_self)
  have uc: "unat (of_nat (32 + n) :: u8) = 32 + n" using assms(2) by (subst unat_of_nat) simp
  have range: "31 < (ucast (r_int_no r) :: u8)" "(ucast (r_int_no r) :: u8) < 48" unfolding c word_less_nat_alt uc using assms(2) by simp_all
  have slave: "0x28 \<le> r_int_no r \<longleftrightarrow> 8 \<le> n" unfolding word_le_nat_alt u by simp
  have same: "int_routines (save_regs r st) = int_routines st" "port_log (save_regs r st) = port_log st" "kernel (save_regs r st) = kernel st"
    by (simp_all add: save_regs_def split: option.split)
  show ?thesis
    using range u slave assms(3,4) assms(2)
    by (simp add: int_handler_def Let_def irq_handler_def outb_def same run_handler_def port_8259M_def port_8259S_def bnd_assoc case_prod_unfold)
qed

lemma irq_gate_enters:
  assumes "length gdt0 = 6" and "gdt_init gdt0 = Inr gdt"
  shows "gate_enters gdt (idt_gate a 8 0x8E) = Some a"
proof -
  have "length gdt = 6" "seg_base (gdt ! 1) = 0" "g_access (gdt ! 1) = 0x9A" using gdt_init_flat [OF assms(1)] assms(2) by auto
  then show ?thesis by (simp add: gate_enters_def Let_def) (simp add: idt_gate_def)
qed

text \<open>
  C37. Hardware interrupts reach their handlers (\<open>gdt_init\<close> of \<open>gdt.c\<close>, \<open>int_init\<close> of \<open>int.c\<close>, \<open>idt_set_gate\<close> of \<open>idt.c\<close>, \<open>irq_install\<close>, \<open>irq_install_handler\<close> and
  \<open>irq_handler\<close> of \<open>irq.c\<close>): after the set-up, the controllers, whatever their state was before, raise for every line \<open>n\<close> but the
  cascade (line 2) the vector \<open>32 + n\<close>, through the cascade for the lines of the slave; its gate is present, an interrupt gate, and takes
  the processor in the kernel's code segment to exactly \<open>irq n\<close>; and \<open>int_handler\<close>, called with the number that entry point pushes, acknowledges the
  interrupt at the master, and at the slave exactly for the lines behind it, and runs the handler installed
  for the line, on the registers it was given. The other lines have no handler.
\<close>

theorem irq_reaches_handler:
  assumes "length (idt st) = 256" and "length (int_routines st) = 256" and "n < 16" and "n \<noteq> 2"
    and "length gdt0 = 6" and "gdt_init gdt0 = Inr gdt"
  shows "\<exists>st1 st2. set_up entry st = Inr st1 \<and> irq_install_handler (of_nat n) h st1 = Inr st2 \<and>
    pic_vector n (fold pic_out (drop (length (port_log st)) (port_log st2)) pics) = Some (of_nat (32 + n)) \<and>
    gate_enters gdt (idt st2 ! (32 + n)) = Some (entry (Irq n)) \<and>
    (\<forall>r. r_int_no r = stub_no (Irq n) \<longrightarrow> int_handler pf r st2 =
       bnd (h r (kernel st)) (\<lambda>(_, r', k). Inr (0, r', (save_regs r st2)\<lparr>port_log := port_log st2 @
         (if 8 \<le> n then [(0xA0, 0x20)] else []) @ [(0x20, 0x20)], kernel := k\<rparr>))) \<and>
    (\<forall>m < 256. m \<noteq> 32 + n \<longrightarrow> int_routines st2 ! m = None)"
proof -
  obtain t where t: "set_up entry st = Inr (st\<lparr>idt := t, int_routines := replicate 256 None, port_log := port_log st @
      [(0x20, 0x11), (0xA0, 0x11), (0x21, 0x20), (0xA1, 0x28), (0x21, 0x04), (0xA1, 0x02), (0x21, 0x01), (0xA1, 0x01), (0x21, 0), (0xA1, 0)]\<rparr>)"
    "\<And>n. n < 16 \<Longrightarrow> t ! (32 + n) = idt_gate (entry (Irq n)) 8 0x8E"
    using set_up_ok [OF assms(1,2)] by blast
  define st1 where "st1 = st\<lparr>idt := t, int_routines := replicate 256 None, port_log := port_log st @
      [(0x20, 0x11), (0xA0, 0x11), (0x21, 0x20), (0xA1, 0x28), (0x21, 0x04), (0xA1, 0x02), (0x21, 0x01), (0xA1, 0x01), (0x21, 0), (0xA1, 0)]\<rparr>"
  define st2 where "st2 = st1\<lparr>int_routines := (int_routines st1)[32 + n := Some h]\<rparr>"
  have i: "irq_install_handler (of_nat n) h st1 = Inr st2"
    using irq_install_ok [of st1 n h] assms(3) by (simp add: st1_def st2_def)
  obtain m s where p: "pics = (m, s)" by (cases pics)
  have v: "pic_vector n (fold pic_out (drop (length (port_log st)) (port_log st2)) pics) = Some (of_nat (32 + n))"
  proof -
    have "drop (length (port_log st)) (port_log st2) =
      [(0x20, 0x11), (0xA0, 0x11), (0x21, 0x20), (0xA1, 0x28), (0x21, 0x04), (0xA1, 0x02), (0x21, 0x01), (0xA1, 0x01), (0x21, 0), (0xA1, 0)]"
      by (simp add: st2_def st1_def)
    moreover have "\<not> bit (4 :: u8) n" using assms(4) bit_push_bit_iff [of 2 "1 :: u8" n] by (auto simp: bit_1_iff)
    moreover have "bit (4 :: u8) 2" "bit (1 :: u8) 0" by simp_all
    ultimately show ?thesis unfolding p by (simp only: remap_pics) (simp add: pic_vector_def pic_ready_def of_nat_diff)
  qed
  have disp: "int_handler pf r st2 = bnd (h r (kernel st)) (\<lambda>(_, r', k). Inr (0, r', (save_regs r st2)\<lparr>port_log := port_log st2 @
      (if 8 \<le> n then [(0xA0, 0x20)] else []) @ [(0x20, 0x20)], kernel := k\<rparr>))" if "r_int_no r = stub_no (Irq n)" for r
  proof -
    have "kernel st2 = kernel st" by (simp add: st2_def st1_def)
    then show ?thesis using irq_dispatch [of r n st2 h pf] that assms(3) by (simp add: st2_def st1_def add.commute)
  qed
  have "int_routines st2 ! m = None" if "m < 256" "m \<noteq> 32 + n" for m using that by (simp add: st2_def st1_def)
  moreover have "idt st2 ! (32 + n) = idt_gate (entry (Irq n)) 8 0x8E" using t(2) assms(3) by (simp add: st2_def st1_def)
  ultimately show ?thesis using t(1) i v disp irq_gate_enters [OF assms(5,6)] by (intro exI [of _ st1] exI [of _ st2]) (simp add: st1_def)
qed

definition sample_intr :: "nat intr" where
  "sample_intr = \<lparr>int_routines = replicate 256 None, idt = idt_init, port_log = [], irqs_on = False, cur_regs = None, kernel = 0\<rparr>"

definition count_handler :: "nat handler" where
  "count_handler r k = Inr (0, r, k + 1)"

lemma irq_reaches_handler_witness:
  "\<exists>st1 st2 gdt. set_up (\<lambda>s. stub_no s * 16) sample_intr = Inr st1 \<and> irq_install_handler 8 count_handler st1 = Inr st2 \<and>
     gdt_init (replicate 6 (gdt_gate 0 0 0 0)) = Inr gdt \<and> gate_enters gdt (idt st2 ! 40) = Some 640 \<and> int_routines st2 ! 33 = None \<and>
     (\<exists>r. r_int_no r = 40 \<and> map_sum id (\<lambda>(_, _, st). (port_log st, kernel st)) (int_handler count_handler r st2) =
       Inr (port_log st2 @ [(0xA0, 0x20), (0x20, 0x20)], 1))"
proof -
  have l: "length (idt sample_intr) = 256" "length (int_routines sample_intr) = 256" "(8 :: nat) < 16" "(8 :: nat) \<noteq> 2"
    "length (replicate 6 (gdt_gate 0 0 0 0)) = 6"
    by (simp_all add: sample_intr_def idt_init_def)
  obtain gdt where g: "gdt_init (replicate 6 (gdt_gate 0 0 0 0)) = Inr gdt" using gdt_init_flat [OF l(5)] by blast
  obtain r :: iregs where r: "r_int_no r = 40" by (metis iregs.select_convs(13))
  from irq_reaches_handler [OF l g, of "\<lambda>s. stub_no s * 16" count_handler] obtain st1 st2 where
    s: "set_up (\<lambda>s. stub_no s * 16) sample_intr = Inr st1" "irq_install_handler 8 count_handler st1 = Inr st2"
      "gate_enters gdt (idt st2 ! 40) = Some 640" "\<forall>r. r_int_no r = 40 \<longrightarrow> int_handler count_handler r st2 =
       bnd (count_handler r (kernel sample_intr)) (\<lambda>(_, r', k). Inr (0, r', (save_regs r st2)\<lparr>port_log := port_log st2 @ [(0xA0, 0x20), (0x20, 0x20)], kernel := k\<rparr>))"
      "\<forall>m < 256. m \<noteq> 40 \<longrightarrow> int_routines st2 ! m = None" by fastforce
  have "map_sum id (\<lambda>(_, _, st). (port_log st, kernel st)) (int_handler count_handler r st2) = Inr (port_log st2 @ [(0xA0, 0x20), (0x20, 0x20)], 1)"
    using s(4) r by (simp add: count_handler_def sample_intr_def)
  with s(1,2,3,5) r g show ?thesis by (intro exI [of _ st1] exI [of _ st2] exI [of _ gdt] conjI exI [of _ r]) simp_all
qed

section \<open>Timer, faults and system calls\<close>

lemma timer_phase_100: "set_timer_phase 100 st = Inr (st\<lparr>port_log := port_log st @ [(0x43, 0x36), (0x40, 0x9B), (0x40, 0x2E)]\<rparr>)"
  by (simp add: set_timer_phase_def outb_def pit_data1_def pit_cmmnd_def)

text \<open>The counter of faults is never reset: the eleventh fault of any program since the start stops the kernel.\<close>

fun faults :: "nat \<Rightarrow> int \<Rightarrow> int kres" where
  "faults 0 c = Inr c"
| "faults (Suc n) c = bnd (page_fault 0x1000 True c) (\<lambda>(_, c). faults n c)"

lemma eleventh_fault_panics: "faults 10 0 = Inr 10" "faults 11 0 = Inl (Panic ''Too many faults'')"
  by code_simp+

text \<open>The numbers 0 and 31 are below the limit but have no function: a program that calls them makes the kernel call address 0.\<close>

lemma null_syscall: "r_eax r \<in> {0, 31} \<Longrightarrow> syscall_handler call r k = Inl Fault"
  by (auto simp: syscall_handler_def syscalls_def)

lemma unknown_syscall: "40 \<le> r_eax r \<Longrightarrow> syscall_handler call r k = Inr (0, r\<lparr>r_eax := 0\<rparr>, k)"
  by (simp add: syscall_handler_def syscalls_def)

lemma syscall_dispatch:
  assumes "r_int_no r = stub_no (Isr 128)" and "length (int_routines st) = 256"
    and "unat (r_eax r) < length syscalls" and "syscalls ! unat (r_eax r) = Some f"
  shows "bnd (syscall_init call st) (int_handler pf r) =
    bnd (call f [r_ebx r, r_ecx r, r_edx r, r_esi r, r_edi r] (kernel st)) (\<lambda>(v, k).
      Inr (v, r\<lparr>r_eax := v\<rparr>, (save_regs r (st\<lparr>int_routines := (int_routines st)[128 := Some (syscall_handler call)]\<rparr>))\<lparr>irqs_on := True, kernel := k\<rparr>))"
proof -
  have n: "r_int_no r = 128" using assms(1) by simp
  let ?st = "st\<lparr>int_routines := (int_routines st)[128 := Some (syscall_handler call)]\<rparr>"
  have i: "syscall_init call st = Inr ?st" using assms(2) by (simp add: syscall_init_def int_install_handler_def)
  have same: "int_routines (save_regs r ?st) = int_routines ?st" "kernel (save_regs r ?st) = kernel st"
    by (simp_all add: save_regs_def split: option.split)
  have "\<not> of_nat (length syscalls) \<le> r_eax r" using assms(3) by (simp add: word_le_nat_alt syscalls_def)
  then have s: "syscall_handler call r (kernel st) = bnd (call f [r_ebx r, r_ecx r, r_edx r, r_esi r, r_edi r] (kernel st)) (\<lambda>(v, k). Inr (v, r\<lparr>r_eax := v\<rparr>, k))"
    using assms(4) by (simp add: syscall_handler_def)
  show ?thesis using assms(2) by (simp add: i int_handler_def isr_handler_def n same run_handler_def s bnd_assoc case_prod_unfold)
qed

end
