(* ===== verification/Cosh.thy ===== *)
theory Cosh
  imports Cstring
begin

text \<open>
  The shell (\<open>bin/cosh.c\<close>): the tokens of a line, the parser that turns them into commands, and the execution of
  the commands. A line is the bytes from the current position to the end of the buffer, so that what follows the
  terminating zero byte, left over from an earlier line, is part of it; reading behind the buffer is a
  fault. Memory for tokens and commands is taken to be available.
\<close>

section \<open>Commands\<close>

definition MAX_ARGV :: nat where
  "MAX_ARGV = 16"

definition MAX_TOKEN_SZ :: nat where
  "MAX_TOKEN_SZ = 512"

record cmd =
  argv :: "u8 list list"
  outfile :: "u8 list option"
  infile :: "u8 list option"
  fdin :: int
  fdout :: int
  append :: bool
  do_pipe :: bool
  pid :: int

definition cmd_new :: cmd where
  "cmd_new = \<lparr>argv = [], outfile = None, infile = None, fdin = - 1, fdout = - 1, append = False, do_pipe = False, pid = 0\<rparr>"

section \<open>Tokens\<close>

definition is_space :: "u8 \<Rightarrow> bool" where
  "is_space p \<longleftrightarrow> p = 32 \<or> p = 9 \<or> p = 13 \<or> p = 10"

definition is_symbol :: "u8 \<Rightarrow> bool" where
  "is_symbol p \<longleftrightarrow> p = 60 \<or> p = 62 \<or> p = 124 \<or> p = 59 \<or> p = 34"

fun skip_spaces :: "u8 list \<Rightarrow> u8 list kres" where
  "skip_spaces [] = Inl Fault"
| "skip_spaces (c # p) = (if c \<noteq> 0 \<and> is_space c then skip_spaces p else Inr (c # p))"

text \<open>The loops that copy a token return \<open>None\<close> when it does not fit.\<close>

fun quoted :: "u8 list \<Rightarrow> u8 list \<Rightarrow> (u8 list \<times> u8 list) option kres" where
  "quoted tok [] = Inl Fault"
| "quoted tok (c # p) =
     (if c \<noteq> 0 \<and> c \<noteq> 34 then if length tok = MAX_TOKEN_SZ then Inr None else quoted (tok @ [c]) p
      else if length tok = MAX_TOKEN_SZ then Inr None else Inr (Some (tok, p)))"

fun plain_tok :: "u8 list \<Rightarrow> u8 list \<Rightarrow> (u8 list \<times> u8 list) option kres" where
  "plain_tok tok [] = Inl Fault"
| "plain_tok tok (c # p) =
     (if c \<noteq> 0 \<and> \<not> is_space c \<and> \<not> is_symbol c
      then if length tok + 1 = MAX_TOKEN_SZ then Inr None else plain_tok (tok @ [c]) p
      else Inr (Some (tok, c # p)))"

definition symbol :: "u8 list \<Rightarrow> (u8 list \<times> u8 list) option kres" where
  "symbol p =
     (if hd p = 62 then bnd (aget p 1) (\<lambda>c. if c = 62 then Inr (Some ([62, 62], drop 2 p)) else Inr (Some ([62], drop 1 p)))
      else if hd p = 34 then quoted [] (tl p)
      else Inr (Some ([hd p], tl p)))"

definition get_token :: "u8 list \<Rightarrow> (int \<times> u8 list \<times> u8 list) kres" where
  "get_token buf =
     bnd (skip_spaces buf) (\<lambda>p.
     if hd p = 0 then Inr (- 1, [], buf)
     else
       bnd (if is_symbol (hd p) then symbol p else plain_tok [] p) (\<lambda>t.
       case t of None \<Rightarrow> Inr (- 1, [], buf)
       | Some (tok, p) \<Rightarrow> bnd (aget p 0) (\<lambda>c. Inr (if c \<noteq> 0 then 0 else - 1, tok, p))))"

lemma skip_spaces_length: "skip_spaces b = Inr p \<Longrightarrow> length p \<le> length b \<and> p \<noteq> []"
  by (induction b) (auto split: if_splits)

lemma quoted_length: "quoted tok p = Inr (Some (t, r)) \<Longrightarrow> length r < length p"
  by (induction tok p rule: quoted.induct) (auto split: if_splits)

lemma plain_length: "plain_tok tok p = Inr (Some (t, r)) \<Longrightarrow> length t + length r = length tok + length p"
  by (induction tok p rule: plain_tok.induct) (auto split: if_splits)

lemma plain_first: "plain_tok [] p = Inr (Some (t, r)) \<Longrightarrow> p \<noteq> [] \<Longrightarrow> hd p \<noteq> 0 \<Longrightarrow> \<not> is_space (hd p) \<Longrightarrow> \<not> is_symbol (hd p) \<Longrightarrow> length r < length p"
proof (cases p)
  case (Cons c q)
  assume a: "plain_tok [] p = Inr (Some (t, r))" "hd p \<noteq> 0" "\<not> is_space (hd p)" "\<not> is_symbol (hd p)"
  have "length u + length r = length tok + length q \<and> length tok \<le> length u" if "plain_tok tok q = Inr (Some (u, r))" for tok q u
    using that by (induction tok q rule: plain_tok.induct) (auto split: if_splits)
  from this [of "[c]" q t] a Cons show ?thesis by (auto split: if_splits)
qed simp

lemma skip_spaces_first: "skip_spaces b = Inr p \<Longrightarrow> hd p = 0 \<or> \<not> is_space (hd p)"
  by (induction b) (auto split: if_splits)

lemma get_token_length: "get_token b = Inr (0, t, r) \<Longrightarrow> length r < length b"
proof -
  assume a: "get_token b = Inr (0, t, r)"
  then obtain p where p: "skip_spaces b = Inr p" "hd p \<noteq> 0" and
    k: "(if is_symbol (hd p) then symbol p else plain_tok [] p) = Inr (Some (t, r))"
    by (auto simp: get_token_def kres_simps split: if_splits option.splits)
  have "length p \<le> length b" "p \<noteq> []" "\<not> is_space (hd p)" using skip_spaces_length [OF p(1)] skip_spaces_first [OF p(1)] p(2) by auto
  moreover have "length r < length p"
    using k quoted_length [of "[]" "tl p" t r] plain_first [of p t r] \<open>p \<noteq> []\<close> \<open>\<not> is_space (hd p)\<close> p(2)
    by (cases p) (auto simp: symbol_def kres_simps split: if_splits)
  ultimately show ?thesis by simp
qed

section \<open>Parsing\<close>

definition upd_last :: "(cmd \<Rightarrow> cmd) \<Rightarrow> cmd list \<Rightarrow> cmd list" where
  "upd_last f cmds = butlast cmds @ [f (last cmds)]"

definition tok_is :: "u8 list \<Rightarrow> nat \<Rightarrow> u8 \<Rightarrow> bool" where
  "tok_is tok i c \<longleftrightarrow> i < length tok \<and> tok ! i = c"

function parse :: "u8 list \<Rightarrow> cmd list \<Rightarrow> (int \<times> cmd list) kres" where
  "parse p cmds =
     bnd (get_token p) (\<lambda>(r, tok, p1).
     if r \<noteq> 0 then Inr (0, cmds)
     else if tok \<noteq> [] \<and> is_symbol (hd tok) then
       if cmds = [] then Inr (- 1, cmds)
       else if tok_is tok 0 62 then
         (let cmds = (if tok_is tok 1 62 then upd_last (\<lambda>c. c\<lparr>append := True\<rparr>) cmds else cmds) in
          bnd (get_token p1) (\<lambda>(r, tok, p2). if r \<noteq> 0 then Inr (- 1, cmds) else parse p2 (upd_last (\<lambda>c. c\<lparr>outfile := Some tok\<rparr>) cmds)))
       else if tok_is tok 0 60 then
         bnd (get_token p1) (\<lambda>(r, tok, p2). if r \<noteq> 0 then Inr (- 1, cmds) else parse p2 (upd_last (\<lambda>c. c\<lparr>infile := Some tok\<rparr>) cmds))
       else if tok_is tok 0 124 then
         bnd (get_token p1) (\<lambda>(r, _, _). if r \<noteq> 0 then Inr (- 1, cmds) else parse p1 (upd_last (\<lambda>c. c\<lparr>do_pipe := True\<rparr>) cmds @ [cmd_new]))
       else parse p1 (cmds @ [cmd_new])
     else
       (let cmds = (if cmds = [] then [cmd_new] else cmds) in
        if MAX_ARGV \<le> length (argv (last cmds)) + 1 then Inr (- 1, cmds)
        else parse p1 (upd_last (\<lambda>c. c\<lparr>argv := argv c @ [tok]\<rparr>) cmds)))"
  by pat_completeness auto

termination
  by (relation "measure (length \<circ> fst)")
    (auto dest!: get_token_length split: if_splits)

declare parse.simps [simp del]

section \<open>Lines and commands\<close>

text \<open>A word is a token without spaces and symbols that fits. A line writes each token with a space behind it.\<close>

definition word_ok :: "u8 list \<Rightarrow> bool" where
  "word_ok t \<longleftrightarrow> t \<noteq> [] \<and> length t < MAX_TOKEN_SZ \<and> (\<forall>c\<in>set t. c \<noteq> 0 \<and> \<not> is_space c \<and> \<not> is_symbol c)"

definition line_of :: "u8 list list \<Rightarrow> u8 list" where
  "line_of toks = concat (map (\<lambda>t. t @ [32]) toks)"

definition redirects :: "cmd \<Rightarrow> u8 list list" where
  "redirects c = (case infile c of None \<Rightarrow> [] | Some f \<Rightarrow> [[60], f]) @
     (case outfile c of None \<Rightarrow> [] | Some f \<Rightarrow> [if append c then [62, 62] else [62], f])"

fun tokens_of :: "cmd list \<Rightarrow> u8 list list" where
  "tokens_of [] = []"
| "tokens_of [c] = argv c @ redirects c"
| "tokens_of (c # d # cs) = argv c @ redirects c @ [if do_pipe c then [124] else [59]] @ tokens_of (d # cs)"

fun name_ok :: "u8 list option \<Rightarrow> bool" where
  "name_ok None = True"
| "name_ok (Some f) = word_ok f"

definition cmd_ok :: "cmd \<Rightarrow> bool" where
  "cmd_ok c \<longleftrightarrow> argv c \<noteq> [] \<and> length (argv c) < MAX_ARGV \<and> list_all word_ok (argv c) \<and> name_ok (infile c) \<and>
     name_ok (outfile c) \<and> (append c \<longrightarrow> outfile c \<noteq> None) \<and> fdin c = - 1 \<and> fdout c = - 1 \<and> pid c = 0"

definition cmds_ok :: "cmd list \<Rightarrow> bool" where
  "cmds_ok cs \<longleftrightarrow> cs \<noteq> [] \<and> list_all cmd_ok cs \<and> \<not> do_pipe (last cs)"

definition sym_tok :: "u8 list \<Rightarrow> bool" where
  "sym_tok t \<longleftrightarrow> t \<in> {[60], [62], [62, 62], [124], [59]}"

lemma plain_word:
  assumes "\<forall>c\<in>set t. c \<noteq> 0 \<and> \<not> is_space c \<and> \<not> is_symbol c" and "length acc + length t < MAX_TOKEN_SZ" and "d = 0 \<or> is_space d"
  shows "plain_tok acc (t @ d # r) = Inr (Some (acc @ t, d # r))"
  using assms by (induction t arbitrary: acc) (auto simp: is_space_def)

lemma get_word:
  assumes "word_ok t"
  shows "get_token (t @ 32 # r) = Inr (0, t, 32 # r)" and "get_token (32 # t @ 32 # r) = Inr (0, t, 32 # r)"
proof -
  obtain c u where t: "t = c # u" "c \<noteq> 0" "\<not> is_space c" "\<not> is_symbol c" using assms by (cases t) (auto simp: word_ok_def)
  have "plain_tok [] (t @ 32 # r) = Inr (Some (t, 32 # r))"
    using plain_word [of t "[]" 32 r] assms by (auto simp: word_ok_def is_space_def)
  then show "get_token (t @ 32 # r) = Inr (0, t, 32 # r)" "get_token (32 # t @ 32 # r) = Inr (0, t, 32 # r)"
    using t by (simp_all add: get_token_def is_space_def)
qed

lemma get_sym:
  assumes "sym_tok t"
  shows "get_token (32 # t @ 32 # r) = Inr (0, t, 32 # r)"
  using assms by (auto simp: sym_tok_def get_token_def is_space_def is_symbol_def symbol_def)

lemma get_end: "get_token (32 # 10 # 0 # r) = Inr (- 1, [], 32 # 10 # 0 # r)"
  by (simp add: get_token_def is_space_def)

text \<open>The state of the line: what is left starts with the space behind the token read last.\<close>

definition left :: "u8 list list \<Rightarrow> u8 list \<Rightarrow> u8 list" where
  "left toks r = 32 # line_of toks @ 10 # 0 # r"

lemma left_Cons: "left (t # toks) r = 32 # t @ left toks r"
  by (simp add: left_def line_of_def)

lemma left_get: "word_ok t \<or> sym_tok t \<Longrightarrow> get_token (left (t # toks) r) = Inr (0, t, left toks r)"
  using get_word(2) [of t] get_sym [of t] by (auto simp: left_def line_of_def)

lemma left_end: "get_token (left [] r) = Inr (- 1, [], left [] r)"
  by (simp add: left_def line_of_def get_end)

lemma word_not_symbol: "word_ok t \<Longrightarrow> t \<noteq> [] \<and> \<not> is_symbol (hd t)"
  by (cases t) (auto simp: word_ok_def)

lemma upd_last_snoc [simp]: "upd_last f (cs @ [c]) = cs @ [f c]"
  by (simp add: upd_last_def)

lemma parse_words:
  "list_all word_ok ws \<Longrightarrow> length (argv c) + length ws < MAX_ARGV \<Longrightarrow>
   parse (left (ws @ toks) r) (cs @ [c]) = parse (left toks r) (cs @ [c\<lparr>argv := argv c @ ws\<rparr>])"
proof (induction ws arbitrary: c)
  case (Cons w ws)
  have "parse (left ((w # ws) @ toks) r) (cs @ [c]) = parse (left (ws @ toks) r) (cs @ [c\<lparr>argv := argv c @ [w]\<rparr>])"
    using Cons.prems left_get [of w "ws @ toks" r] word_not_symbol [of w] by (subst parse.simps) (simp add: Let_def)
  with Cons.IH [of "c\<lparr>argv := argv c @ [w]\<rparr>"] Cons.prems show ?case by simp
qed simp

lemma parse_end: "parse (left [] r) cs = Inr (0, cs)"
  by (subst parse.simps) (simp add: left_end)

lemma parse_in:
  assumes "word_ok f"
  shows "parse (left ([60] # f # toks) r) (cs @ [c]) = parse (left toks r) (cs @ [c\<lparr>infile := Some f\<rparr>])"
  using assms by (subst parse.simps) (simp add: left_get sym_tok_def is_symbol_def tok_is_def)

lemma cmd_same: "\<not> append c \<Longrightarrow> c\<lparr>append := False\<rparr> = c" "do_pipe c = b \<Longrightarrow> c\<lparr>do_pipe := b\<rparr> = c"
  by (cases c, simp)+

lemma parse_out:
  assumes "word_ok f" and "append c \<longrightarrow> a"
  shows "parse (left ((if a then [62, 62] else [62]) # f # toks) r) (cs @ [c]) =
    parse (left toks r) (cs @ [c\<lparr>append := a, outfile := Some f\<rparr>])"
proof (cases a)
  case True
  then show ?thesis using assms by (subst parse.simps) (simp add: left_get sym_tok_def is_symbol_def tok_is_def)
next
  case False
  then show ?thesis using assms by (subst parse.simps) (simp add: cmd_same left_get sym_tok_def is_symbol_def tok_is_def)
qed

lemma parse_sep:
  assumes "word_ok w"
  shows "parse (left ([if p then 124 else 59] # w # toks) r) (cs @ [c]) = parse (left (w # toks) r) (cs @ [if p then c\<lparr>do_pipe := True\<rparr> else c] @ [cmd_new])"
  using assms by (subst parse.simps) (simp add: left_get sym_tok_def is_symbol_def tok_is_def)

lemma parse_cmd:
  assumes "cmd_ok c"
  shows "parse (left (argv c @ redirects c @ toks) r) (cs @ [cmd_new]) = parse (left toks r) (cs @ [c\<lparr>do_pipe := False\<rparr>])"
proof -
  let ?c1 = "cmd_new\<lparr>argv := argv c\<rparr>"
  have "parse (left (argv c @ redirects c @ toks) r) (cs @ [cmd_new]) = parse (left (redirects c @ toks) r) (cs @ [?c1])"
    using parse_words [of "argv c" cmd_new] assms by (simp add: cmd_ok_def cmd_new_def)
  also have "\<dots> = parse (left ((case outfile c of None \<Rightarrow> [] | Some f \<Rightarrow> [if append c then [62, 62] else [62], f]) @ toks) r) (cs @ [?c1\<lparr>infile := infile c\<rparr>])"
  proof (cases "infile c")
    case None
    then show ?thesis by (simp add: redirects_def cmd_new_def)
  next
    case (Some f)
    then show ?thesis using parse_in [of f] assms by (simp add: redirects_def cmd_ok_def)
  qed
  also have "\<dots> = parse (left toks r) (cs @ [c\<lparr>do_pipe := False\<rparr>])"
  proof (cases "outfile c")
    case None
    then have "?c1\<lparr>infile := infile c\<rparr> = c\<lparr>do_pipe := False\<rparr>" using assms by (simp add: cmd_ok_def cmd_new_def)
    with None show ?thesis by simp
  next
    case (Some f)
    have "?c1\<lparr>infile := infile c, append := append c, outfile := Some f\<rparr> = c\<lparr>do_pipe := False\<rparr>"
      using Some assms by (simp add: cmd_ok_def cmd_new_def)
    with Some show ?thesis using parse_out [of f "?c1\<lparr>infile := infile c\<rparr>" "append c" toks r cs] assms
      by (simp add: cmd_ok_def cmd_new_def)
  qed
  finally show ?thesis .
qed

lemma tokens_first: "cmds_ok (c # cs) \<Longrightarrow> \<exists>w toks. tokens_of (c # cs) = w # toks \<and> word_ok w"
  by (cases cs; cases "argv c") (auto simp: cmds_ok_def cmd_ok_def)

lemma parse_cmds:
  "cmds_ok cs \<Longrightarrow> parse (left (tokens_of cs) r) (ds @ [cmd_new]) = Inr (0, ds @ cs)"
proof (induction cs arbitrary: ds rule: tokens_of.induct)
  case (2 c)
  then have "c\<lparr>do_pipe := False\<rparr> = c" by (simp add: cmds_ok_def)
  with 2 show ?case using parse_cmd [of c "[]" r ds] by (simp add: cmds_ok_def parse_end)
next
  case (3 c d cs)
  from 3(2) have ok: "cmd_ok c" "cmds_ok (d # cs)" by (auto simp: cmds_ok_def)
  obtain w toks where w: "tokens_of (d # cs) = w # toks" "word_ok w" using tokens_first [OF ok(2)] by blast
  from parse_cmd [OF ok(1), of "[if do_pipe c then 124 else 59] # tokens_of (d # cs)" r ds]
    parse_sep [OF w(2), of "do_pipe c" toks r ds "c\<lparr>do_pipe := False\<rparr>"] 3(1) [OF ok(2), of "ds @ [c]"]
  show ?case by (cases "do_pipe c") (simp_all add: w(1) cmd_same)
qed (simp add: cmds_ok_def)

lemma parse_line:
  assumes "cmds_ok cs"
  shows "parse (line_of (tokens_of cs) @ [10, 0] @ stale) [] = Inr (0, cs)"
proof -
  obtain c ds where c: "cs = c # ds" using assms by (cases cs) (auto simp: cmds_ok_def)
  obtain w toks where w: "tokens_of cs = w # toks" "word_ok w" using tokens_first assms c by blast
  have l: "line_of (tokens_of cs) @ [10, 0] @ stale = w @ 32 # line_of toks @ 10 # 0 # stale" by (simp add: w(1) line_of_def)
  have "parse (w @ 32 # line_of toks @ 10 # 0 # stale) [] = parse (left (w # toks) stale) ([] @ [cmd_new])"
    using word_not_symbol [OF w(2)] left_get [of w toks stale] w(2)
    by (subst parse.simps, subst (2) parse.simps) (simp add: get_word(1) left_def)
  also have "\<dots> = Inr (0, cs)" using parse_cmds [OF assms, of stale "[]"] w(1) by simp
  finally show ?thesis by (simp only: l)
qed

text \<open>
  C38. The shell's parser (\<open>parse\<close>, \<open>get_token\<close> of \<open>bin/cosh.c\<close>) reads back every list of commands from its line:
  arguments, redirections of input and output, also in append mode, pipes and sequences. The commands may have up to
  15 arguments, the words up to 511 bytes, and whatever follows the end of the line in the buffer has no
  influence.
\<close>

theorem parse_reads_back:
  assumes "cmds_ok cs"
  shows "parse (line_of (tokens_of cs) @ [10, 0] @ stale) [] = Inr (0, cs)"
  by (rule parse_line [OF assms])

definition ascii :: "string \<Rightarrow> u8 list" where
  "ascii s = map of_char s"

definition sample_cmds :: "cmd list" where
  "sample_cmds = [cmd_new\<lparr>argv := [ascii ''cat''], infile := Some (ascii ''in''), do_pipe := True\<rparr>,
     cmd_new\<lparr>argv := [ascii ''ls'', ascii ''/''], outfile := Some (ascii ''log''), append := True\<rparr>]"

lemma parse_reads_back_witness:
  "line_of (tokens_of sample_cmds) = ascii ''cat < in | ls / >> log '' \<and> parse (ascii ''cat < in | ls / >> log '' @ [10, 0] @ []) [] = Inr (0, sample_cmds)"
proof -
  have "cmds_ok sample_cmds" "line_of (tokens_of sample_cmds) = ascii ''cat < in | ls / >> log ''" by code_simp+
  with parse_reads_back [of sample_cmds "[]"] show ?thesis by simp
qed

section \<open>Lines that are not read back\<close>

text \<open>
  Without a character behind it the last word of a line is lost: \<open>get_token\<close> reports the end although it has a token. A quoted
  word that starts with a symbol is taken for the symbol. A word in quotes that are never closed swallows the end of the
  line, and the shell goes on with what an earlier, longer line left in the buffer.
\<close>

lemma last_word_lost: "parse (ascii ''ls /'' @ [0]) [] = Inr (0, [cmd_new\<lparr>argv := [ascii ''ls'']\<rparr>])"
  by code_simp

lemma quoted_symbol: "parse (ascii ''echo \"|\" x'' @ [10, 0]) [] = parse (ascii ''echo | x'' @ [10, 0]) []"
  by code_simp

lemma open_quote_runs_on:
  "parse (ascii ''echo \"a'' @ [10, 0] @ ascii ''m -r /'' @ [10, 0]) [] =
     Inr (0, [cmd_new\<lparr>argv := [ascii ''echo'', ascii ''a'' @ [10], ascii ''m'', ascii ''-r'', ascii ''/'']\<rparr>])"
  by code_simp

section \<open>Reading a line and cleaning up\<close>

text \<open>
  \<open>data\<close> is what \<open>read\<close> delivers, \<open>None\<close> when it fails with -1. The zero byte goes behind it, which is outside of the buffer
  when the buffer is full or nothing could be read.
\<close>

definition read_line :: "u8 list option \<Rightarrow> u8 list \<Rightarrow> (int \<times> u8 list) kres" where
  "read_line data buf = (case data of None \<Rightarrow> Inl Fault
     | Some d \<Rightarrow> let d = take (length buf) d in
         bnd (aset (d @ drop (length d) buf) (length d) 0) (\<lambda>buf. Inr (int (length d), buf)))"

lemma full_line_faults: "length buf \<le> length d \<Longrightarrow> read_line (Some d) buf = Inl Fault"
  by (simp add: read_line_def aset_def)

section \<open>Running the commands\<close>

text \<open>
  The system calls of the shell, on a state \<open>'s\<close>. \<open>so_fork\<close> is the parent's side; the child starts with a copy of the
  parent's state. \<open>so_foreground\<close> is \<open>tcsetpgrp(1, getpid())\<close>.
\<close>

record 's sh_os =
  so_chdir :: "u8 list \<Rightarrow> 's \<Rightarrow> int \<times> 's"
  so_pipe :: "'s \<Rightarrow> (int \<times> int) \<times> 's"
  so_open :: "u8 list \<Rightarrow> int \<Rightarrow> 's \<Rightarrow> int \<times> 's"
  so_fork :: "'s \<Rightarrow> int \<times> 's"
  so_close :: "int \<Rightarrow> 's \<Rightarrow> 's"
  so_dup :: "int \<Rightarrow> 's \<Rightarrow> int \<times> 's"
  so_foreground :: "'s \<Rightarrow> 's"

definition cd :: "'s sh_os \<Rightarrow> u8 list option \<Rightarrow> 's \<Rightarrow> int \<times> 's" where
  "cd os dir s = (case dir of Some d \<Rightarrow> so_chdir os d s | None \<Rightarrow> so_chdir os [47] s)"

definition out_flags :: "cmd \<Rightarrow> int" where
  "out_flags c = (if append c then 0x401 else 0x241)"

text \<open>What the child does before it becomes the program; \<open>r\<close> is the reading end of its pipe.\<close>

definition exec_child :: "'s sh_os \<Rightarrow> cmd \<Rightarrow> int \<Rightarrow> 's \<Rightarrow> 's" where
  "exec_child os c r s =
     (let s = (if do_pipe c then so_close os r s else s);
          s = (if fdout c > 0 then snd (so_dup os (fdout c) (so_close os 1 s)) else so_foreground os s)
      in if fdin c > 0 then snd (so_dup os (fdin c) (so_close os 0 s)) else s)"

definition open_out :: "'s sh_os \<Rightarrow> cmd \<Rightarrow> int \<times> 's \<Rightarrow> cmd \<times> int \<times> 's" where
  "open_out os c rs = (case rs of (r, s) \<Rightarrow>
     if do_pipe c then (case so_pipe os s of ((r, w), s) \<Rightarrow> (c\<lparr>fdout := w\<rparr>, r, s))
     else case outfile c of None \<Rightarrow> (c, r, s) | Some f \<Rightarrow> (case so_open os f (out_flags c) s of (fd, s) \<Rightarrow> (c\<lparr>fdout := fd\<rparr>, r, s)))"

definition open_in :: "'s sh_os \<Rightarrow> cmd \<times> int \<times> 's \<Rightarrow> cmd \<times> int \<times> 's" where
  "open_in os crs = (case crs of (c, r, s) \<Rightarrow>
     case infile c of None \<Rightarrow> (c, r, s) | Some f \<Rightarrow> (case so_open os f 0 s of (fd, s) \<Rightarrow> (c\<lparr>fdin := fd\<rparr>, r, s)))"

text \<open>
  The loop over the commands: the commands with their descriptors and pids, the children (arguments and state at
  \<open>execvp\<close>) and the shell's state. A command without arguments makes \<open>strcmp\<close> read from a null pointer.
\<close>

fun exec_loop :: "'s sh_os \<Rightarrow> cmd list \<Rightarrow> int \<times> 's \<Rightarrow> (cmd list \<times> (u8 list list \<times> 's) list \<times> 's) kres" where
  "exec_loop os [] (r, s) = Inr ([], [], s)"
| "exec_loop os (c # cs) (r, s) =
     (if argv c = [] then Inl Fault
      else if hd (argv c) = [99, 100] then
        bnd (exec_loop os cs (r, snd (cd os (if length (argv c) > 1 then Some (argv c ! 1) else None) s))) (\<lambda>(cs, ch, s). Inr (c # cs, ch, s))
      else
        (case open_in os (open_out os c (r, s)) of (c, r, s) \<Rightarrow>
         case so_fork os s of (p, s') \<Rightarrow>
         let child = (if p < 0 then [] else [(argv c, exec_child os c r s)]) in
         if do_pipe c \<and> cs = [] then Inl Fault
         else
           let cs = (if do_pipe c then (hd cs)\<lparr>fdin := r\<rparr> # tl cs else cs); s' = (if do_pipe c then so_close os (fdout c) s' else s') in
           bnd (exec_loop os cs (r, s')) (\<lambda>(cs, ch, s). Inr (c\<lparr>pid := p\<rparr> # cs, child @ ch, s))))"

text \<open>\<open>exits\<close> are the results of \<open>wait\<close> until it fails: pids and exit statuses.\<close>

definition exec_commands :: "'s sh_os \<Rightarrow> cmd list \<Rightarrow> (int \<times> int) list \<Rightarrow> 's \<Rightarrow> (int \<times> cmd list \<times> (u8 list list \<times> 's) list \<times> 's) kres" where
  "exec_commands os cs exits s =
     bnd (exec_loop os cs (0, s)) (\<lambda>(cs, ch, s).
     Inr (int (length (filter (\<lambda>(p, c). p = pid c) (List.product (map fst (filter (\<lambda>(p, st). st \<noteq> 0) exits)) cs))),
          cs, ch, so_foreground os s))"

fun close_cmds :: "'s sh_os \<Rightarrow> cmd list \<Rightarrow> 's \<Rightarrow> 's" where
  "close_cmds os [] s = s"
| "close_cmds os (c # cs) s =
     (let s = (if fdin c > - 1 then so_close os (fdin c) s else s); s = (if fdout c > - 1 then so_close os (fdout c) s else s)
      in close_cmds os cs s)"

text \<open>A round of the main loop after the line has been read.\<close>

definition run_line :: "'s sh_os \<Rightarrow> u8 list \<Rightarrow> (int \<times> int) list \<Rightarrow> 's \<Rightarrow> ((u8 list list \<times> 's) list \<times> 's) kres" where
  "run_line os line exits s =
     bnd (parse line []) (\<lambda>(r, cs).
     if r < 0 then Inr ([], close_cmds os cs s)
     else bnd (exec_commands os cs exits s) (\<lambda>(_, cs, ch, s). Inr (ch, close_cmds os cs s)))"

section \<open>Faults in running a line\<close>

text \<open>A semicolon at the end of a line adds a command without arguments, and the shell faults on it.\<close>

lemma trailing_semicolon: "run_line os (ascii ''ls ;'' @ [10, 0]) exits s = Inl Fault"
proof -
  have "parse (ascii ''ls ;'' @ [10, 0]) [] = Inr (0, [cmd_new\<lparr>argv := [ascii ''ls'']\<rparr>, cmd_new])" by code_simp
  moreover have "hd (argv (cmd_new\<lparr>argv := [ascii ''ls'']\<rparr>)) \<noteq> [99, 100]" by code_simp
  ultimately show ?thesis by (simp add: run_line_def exec_commands_def open_in_def open_out_def cmd_new_def split: prod.split)
qed

text \<open>Appending does not create the file: \<open>O_CREAT\<close> is missing.\<close>

lemma append_without_create: "append c \<Longrightarrow> \<not> bit (out_flags c) 6" "\<not> append c \<Longrightarrow> bit (out_flags c) 6"
  by (simp_all add: out_flags_def)

end
