(* ===== verification/Boot.thy ===== *)
theory Boot
  imports Mem_Fork
begin

text \<open>
  Setting up memory at the start of the kernel: what the boot loader says about the memory of the machine
  (\<open>get_kernel_info\<close> of \<open>kinfo.c\<close>), the list of free frames, the first page directory with the kernel mapped to its own
  addresses, the switch to paging and the new stack (\<open>mem_init\<close> of \<open>mem.c\<close>). Until paging is on, addresses are
  physical. The result is a memory in which the invariant \<open>mem_ok\<close> of the memory manager holds.

  The loader's memory map is a list of entries. \<open>Deadlock\<close> is the result of a loop that never ends.
\<close>

section \<open>What the boot loader says\<close>

record minfo =
  mi_base :: "64 word"
  mi_length :: "64 word"
  mi_type :: u8

record kinfo =
  k_end :: u32
  k_stack_size :: u32
  k_minfo :: "minfo list"

record memory_map =
  base_addr_low :: u32
  base_addr_high :: u32
  length_low :: u32
  length_high :: u32
  mm_type :: u32

definition MBOOT_MAGIC :: u32 where "MBOOT_MAGIC = 0x2BADB002"

definition MEM_USABLE :: u32 where "MEM_USABLE = 1"

definition MEM_ACPI :: u32 where "MEM_ACPI = 3"

definition MEM_ACPI_NVS :: u32 where "MEM_ACPI_NVS = 4"

definition zero_minfo :: minfo where
  "zero_minfo = \<lparr>mi_base = 0, mi_length = 0, mi_type = 0\<rparr>"

definition to_minfo :: "memory_map \<Rightarrow> minfo" where
  "to_minfo mm = \<lparr>mi_base = ucast (push_bit 16 (base_addr_high mm) + base_addr_low mm),
     mi_length = ucast (push_bit 16 (length_high mm) + length_low mm), mi_type = ucast (mm_type mm)\<rparr>"

text \<open>
  The loop over the map. \<open>continue\<close> does not advance, so an entry of another type is looked at for ever. The test for too many
  entries comes after the entry has been stored.
\<close>

fun save_map :: "memory_map list \<Rightarrow> nat \<Rightarrow> minfo list \<Rightarrow> minfo list kres" where
  "save_map [] i mi = Inr mi"
| "save_map (mm # mms) i mi =
     (if mm_type mm AND (MEM_USABLE OR MEM_ACPI OR MEM_ACPI_NVS) = 0 then Inl Deadlock
      else bnd (aset mi i (to_minfo mm)) (\<lambda>mi.
        if i + 1 > 32 then Inl (Panic ''get_kernel_info: Please increase minfo elements'') else save_map mms (i + 1) mi))"

text \<open>
  \<open>k\<close> is what \<open>get_kinfo\<close> fills in, the table of blocks is zero. \<open>flags && (1 << MBOOTF_MMAP)\<close> only tests whether there is any flag, so the
  map is used whenever the other value would be. Without a single entry the loop body reads what is not there.
\<close>

definition get_kernel_info :: "u32 \<Rightarrow> u32 \<Rightarrow> memory_map list \<Rightarrow> kinfo \<Rightarrow> kinfo kres" where
  "get_kernel_info magic flags mms k =
     (if magic \<noteq> MBOOT_MAGIC then Inl (Panic ''Invalid multiboot magic'')
      else if flags \<noteq> 0 then if mms = [] then Inl Fault else bnd (save_map mms 0 (k_minfo k)) (\<lambda>mi. Inr (k\<lparr>k_minfo := mi\<rparr>))
      else Inl (Panic ''Unable to detect memory''))"

section \<open>Free frames\<close>

definition CRT_ADDR :: u32 where "CRT_ADDR = 0xB8000"

definition reserve_frame :: "u32 \<Rightarrow> u32 \<Rightarrow> u32 \<Rightarrow> memory \<Rightarrow> memory kres" where
  "reserve_frame kend addr ptr m =
     (if ptr = 0 then vstore addr 0 m
      else if CRT_ADDR \<le> ptr \<and> ptr \<le> kend then Inr m
      else frame_free ptr m)"

text \<open>Round \<open>i\<close> of the loop, in which \<open>ptr - addr\<close> is \<open>4096 * i\<close>. After \<open>2 ^ 20\<close> rounds the pointer is back at \<open>addr\<close>.\<close>

function region_loop :: "u32 \<Rightarrow> u32 \<Rightarrow> u32 \<Rightarrow> nat \<Rightarrow> memory \<Rightarrow> memory kres" where
  "region_loop kend addr len i m =
     (if 1048576 \<le> i then Inl Deadlock
      else let ptr = addr + of_nat i * PAGE_SIZE in
        if ptr - addr < len then bnd (reserve_frame kend addr ptr m) (region_loop kend addr len (Suc i)) else Inr m)"
  by pat_completeness auto

termination
  by (relation "measure (\<lambda>(_, _, _, i, _). 1048576 - i)") auto

declare region_loop.simps [simp del]

definition reserve_region :: "u32 \<Rightarrow> u32 \<Rightarrow> u32 \<Rightarrow> memory \<Rightarrow> memory kres" where
  "reserve_region kend addr len m = region_loop kend addr len 0 m"

fun reserve_memory :: "u32 \<Rightarrow> minfo list \<Rightarrow> memory \<Rightarrow> memory kres" where
  "reserve_memory kend [] m = Inr m"
| "reserve_memory kend (x # xs) m =
     bnd (if mi_type x = ucast MEM_USABLE then reserve_region kend (ucast (mi_base x)) (ucast (mi_length x)) m else Inr m)
       (reserve_memory kend xs)"

section \<open>The first directory\<close>

definition identity_map_page :: "u32 \<Rightarrow> u32 \<Rightarrow> memory \<Rightarrow> memory kres" where
  "identity_map_page dir addr m =
     (let d = of_nat (dir_idx addr) in
      bnd (vload (dir + 4 * d) m) (\<lambda>e.
      bnd (if \<not> present e then bnd (frame_calloc m) (\<lambda>(f, m). vstore (dir + 4 * d) (f OR ucast (P_PRESENT OR P_READ_WRITE)) m) else Inr m) (\<lambda>m.
      bnd (vload (dir + 4 * d) m) (\<lambda>e.
      vstore ((e AND 0xFFFFF000) + 4 * of_nat (tbl_idx addr)) (addr OR ucast (P_PRESENT OR P_READ_WRITE)) m))))"

text \<open>The pages from \<open>CRT_ADDR\<close> to the end of the kernel; the loop ends because the kernel does not reach the last page.\<close>

definition kernel_pages :: "u32 \<Rightarrow> nat" where
  "kernel_pages kend = (if kend < CRT_ADDR then 0 else (unat kend - unat CRT_ADDR) div 4096 + 1)"

definition identity_map_kernel :: "u32 \<Rightarrow> u32 \<Rightarrow> memory \<Rightarrow> memory kres" where
  "identity_map_kernel kend dir m =
     (if 0xFFFFF000 \<le> kend then Inl Deadlock
      else bnd (for_idx (\<lambda>i. identity_map_page dir (CRT_ADDR + of_nat i * PAGE_SIZE)) [0..<kernel_pages kend] m) (\<lambda>m.
        bnd (frame_calloc m) (\<lambda>(f, m). vstore (dir + 4 * of_nat (dir_idx RESV_PAGE)) (f OR ucast (P_PRESENT OR P_READ_WRITE)) m)))"

definition KERNEL_STACK_HI :: u32 where "KERNEL_STACK_HI = 0xFF118000"

text \<open>\<open>patch_stack\<close>, in assembler, copies the stack and moves the stack pointer.\<close>

fun stack_loop :: "nat \<Rightarrow> memory \<Rightarrow> memory kres" where
  "stack_loop 0 m = Inr m"
| "stack_loop (Suc i) m =
     bnd (frame_calloc m) (\<lambda>(f, m).
     bnd (map_page (KERNEL_STACK_HI - PAGE_SIZE * of_nat (Suc i)) f (P_PRESENT OR P_READ_WRITE) m) (stack_loop i))"

definition move_stack_up :: "u32 \<Rightarrow> memory \<Rightarrow> memory kres" where
  "move_stack_up stack_size m = kassert (pg_on m) ''pg_on'' (stack_loop (unat (stack_size div PAGE_SIZE)) m)"

definition mem_init :: "kinfo \<Rightarrow> memory \<Rightarrow> memory kres" where
  "mem_init k m =
     bnd (reserve_memory (k_end k) (k_minfo k) (m\<lparr>num_pages := 0, total_pages := 0, kernel_dir := 0, pg_on := False, last_free_page := 0\<rparr>)) (\<lambda>m.
     bnd (frame_calloc (m\<lparr>total_pages := num_pages m\<rparr>)) (\<lambda>(dir, m).
     bnd (identity_map_kernel (k_end k) dir (m\<lparr>kernel_dir := dir\<rparr>)) (\<lambda>m.
     bnd (recursively_map_page_directory dir m) (\<lambda>m.
     bnd (move_stack_up (k_stack_size k) (m\<lparr>cr3 := dir, pg_on := True\<rparr>)) (\<lambda>m.
     bnd (virt_to_phys PDIR_ADDR m) (\<lambda>_. Inr m))))))"

section \<open>The free list before paging\<close>

definition phys_ok :: "memory \<Rightarrow> nat list \<Rightarrow> bool" where
  "phys_ok m fs \<longleftrightarrow> \<not> pg_on m \<and> flist (pm m) (last_free_page m) fs \<and> distinct fs \<and> num_pages m = of_nat (length fs)"

lemma phys_translate: "\<not> pg_on m \<Longrightarrow> translate a m = Inr (fr a)"
  by (simp add: translate_def)

lemma page_word: "unat a = 4096 * f \<Longrightarrow> word_idx a = 0 \<and> fr a = f"
  by (simp add: word_idx_def fr_def)

lemma phys_free:
  assumes "phys_ok m fs" and "unat a = 4096 * g" and "g \<noteq> 0" and "g \<notin> set fs"
  shows "frame_free a m = Inr (gave a m)" and "phys_ok (gave a m) (g # fs)"
proof -
  note w = page_word [OF assms(2)]
  have off: "\<not> pg_on m" using assms(1) by (simp add: phys_ok_def)
  show "frame_free a m = Inr (gave a m)"
    using page_aligned [OF assms(2)] w off by (simp add: frame_free_def vstore_def phys_translate gave_def)
  have "flist (pupd (pm m) g 0 (last_free_page m)) (last_free_page m) fs"
    using flist_cong [of "pm m" "last_free_page m" fs] assms(1,4) unfolding phys_ok_def by (metis pupd_other(1))
  then show "phys_ok (gave a m) (g # fs)"
    using assms w unat_eq_0 [of a] by (auto simp: phys_ok_def gave_def)
qed

lemma phys_calloc:
  assumes "phys_ok m (f # fs)"
  shows "frame_calloc m = Inr (of_nat (4096 * f), m\<lparr>pm := (pm m)(f := \<lambda>_. 0), last_free_page := pm m f 0, num_pages := num_pages m - 1\<rparr>)"
    and "phys_ok (m\<lparr>pm := (pm m)(f := \<lambda>_. 0), last_free_page := pm m f 0, num_pages := num_pages m - 1\<rparr>) fs"
proof -
  define a where "a = last_free_page m"
  have u: "unat a = 4096 * f" "a \<noteq> 0" "flist (pm m) (pm m f 0) fs" "f \<notin> set fs" "distinct fs" "\<not> pg_on m" "num_pages m = of_nat (length (f # fs))"
    using assms by (auto simp: phys_ok_def a_def)
  note w = page_word [OF u(1)]
  have e: "a = of_nat (4096 * f)" unfolding u(1) [symmetric] by simp
  have "(pupd (pm m) f 0 0)(f := \<lambda>_. 0) = (pm m)(f := \<lambda>_. 0)" by (auto simp: pupd_def)
  then have "frame_calloc m = Inr (a, m\<lparr>pm := (pm m)(f := \<lambda>_. 0), last_free_page := pm m f 0, num_pages := num_pages m - 1\<rparr>)"
    using u w by (simp add: frame_calloc_def frame_alloc_def numeral_3_eq_3 frame_alloc_k.simps(2) a_def [symmetric] vload_def vstore_def vzero_def phys_translate)
  then show "frame_calloc m = Inr (of_nat (4096 * f), m\<lparr>pm := (pm m)(f := \<lambda>_. 0), last_free_page := pm m f 0, num_pages := num_pages m - 1\<rparr>)"
    by (simp only: e)
  have "flist ((pm m)(f := \<lambda>_. 0)) (pm m f 0) fs" by (rule flist_cong [OF u(3)]) (use u(4) in auto)
  then show "phys_ok (m\<lparr>pm := (pm m)(f := \<lambda>_. 0), last_free_page := pm m f 0, num_pages := num_pages m - 1\<rparr>) fs"
    using u by (simp add: phys_ok_def)
qed

text \<open>The frames that are handed out: not the first, and none between the video memory and the end of the kernel.\<close>

definition avail :: "u32 \<Rightarrow> nat \<Rightarrow> bool" where
  "avail kend f \<longleftrightarrow> f \<noteq> 0 \<and> \<not> (0xB8 \<le> f \<and> 4096 * f \<le> unat kend)"

lemma reserve_frame_ok:
  assumes "phys_ok m fs" and "unat ptr = 4096 * f" and "f \<notin> set fs" and "f = 0 \<Longrightarrow> addr = 0"
  shows "\<exists>m'. reserve_frame kend addr ptr m = Inr m' \<and> phys_ok m' (if avail kend f then f # fs else fs)"
proof (cases "f = 0")
  case True
  then have "flist (pupd (pm m) 0 0 0) (last_free_page m) fs"
    using flist_cong [of "pm m" "last_free_page m" fs] assms(1) flist_nonzero unfolding phys_ok_def by (metis pupd_other(1))
  moreover have "ptr = 0" using True assms(2) by (simp add: unat_eq_0 [symmetric])
  ultimately show ?thesis using True assms(1,4) by (simp add: reserve_frame_def vstore_def phys_translate phys_ok_def avail_def fr_def word_idx_def)
next
  case False
  have "ptr \<noteq> 0" using False assms(2) by (auto simp: unat_eq_0 [symmetric])
  moreover have "CRT_ADDR \<le> ptr \<and> ptr \<le> kend \<longleftrightarrow> 0xB8 \<le> f \<and> 4096 * f \<le> unat kend"
    using assms(2) by (auto simp: word_le_nat_alt CRT_ADDR_def)
  ultimately show ?thesis using False assms(1) phys_free [OF assms(1,2) False assms(3)] by (auto simp: reserve_frame_def avail_def)
qed

lemma region_loop_ok:
  assumes "unat addr = 4096 * a" and "4096 * a + unat len \<le> 4294967296" and "unat len \<le> 4294963200"
    and "phys_ok m fs" and "i \<le> (unat len + 4095) div 4096" and "\<forall>f\<in>set fs. \<not> (a + i \<le> f \<and> f < a + (unat len + 4095) div 4096)"
  shows "\<exists>m' gs. region_loop kend addr len i m = Inr m' \<and> phys_ok m' gs \<and>
    set gs = set fs \<union> {f. avail kend f \<and> a + i \<le> f \<and> f < a + (unat len + 4095) div 4096}"
  using assms(4-6)
proof (induction "(unat len + 4095) div 4096 - i" arbitrary: i m fs)
  case 0
  then have i: "i = (unat len + 4095) div 4096" by simp
  have lim: "i < 1048576" using assms(3) unfolding i by auto
  have u: "unat (of_nat i * PAGE_SIZE) = 4096 * i"
    using lim by (simp add: PAGE_SIZE_def unat_word_ariths unat_of_nat)
  have "\<not> of_nat i * PAGE_SIZE < len" unfolding word_less_nat_alt u using i by linarith
  then have "region_loop kend addr len i m = Inr m" using lim by (subst region_loop.simps) (simp add: Let_def)
  then show ?case using 0(2) i by auto
next
  case (Suc n)
  let ?N = "(unat len + 4095) div 4096"
  have iN: "i < ?N" using Suc.hyps(2) by simp
  have lim: "i < 1048576" using assms(3) iN by linarith
  have u: "unat (of_nat i * PAGE_SIZE) = 4096 * i"
    using lim by (simp add: PAGE_SIZE_def unat_word_ariths unat_of_nat)
  have less: "of_nat i * PAGE_SIZE < len" unfolding word_less_nat_alt u using iN by linarith
  have in_mem: "4096 * (a + i) < 4294967296" using less assms(2) distrib_left [of 4096 a i] unfolding word_less_nat_alt u by linarith
  have p: "unat (addr + of_nat i * PAGE_SIZE) = 4096 * (a + i)"
  proof -
    have "unat (addr + of_nat i * PAGE_SIZE) = (unat addr + unat (of_nat i * PAGE_SIZE :: u32)) mod 2 ^ LENGTH(32)" by (rule unat_word_ariths(1))
    then show ?thesis using in_mem unfolding u assms(1) by (simp add: distrib_left)
  qed
  have "a + i = 0 \<Longrightarrow> addr = 0" using assms(1) by (simp add: unat_eq_0 [symmetric])
  moreover have "a + i \<notin> set fs" using Suc.prems(3) iN by auto
  ultimately obtain m1 where m1: "reserve_frame kend addr (addr + of_nat i * PAGE_SIZE) m = Inr m1"
    "phys_ok m1 (if avail kend (a + i) then (a + i) # fs else fs)"
    using reserve_frame_ok [OF Suc.prems(1) p] by blast
  let ?fs = "if avail kend (a + i) then (a + i) # fs else fs"
  have "\<forall>f\<in>set ?fs. \<not> (a + Suc i \<le> f \<and> f < a + ?N)" using Suc.prems(3) by auto
  moreover have "n = ?N - Suc i" "Suc i \<le> ?N" using Suc.hyps(2) by linarith+
  ultimately obtain m' gs where
    r: "region_loop kend addr len (Suc i) m1 = Inr m'" "phys_ok m' gs" "set gs = set ?fs \<union> {f. avail kend f \<and> a + Suc i \<le> f \<and> f < a + ?N}"
    using Suc.hyps(1) [OF _ m1(2)] by blast
  have "a + i \<le> f \<longleftrightarrow> f = a + i \<or> a + Suc i \<le> f" for f by auto
  then have "set gs = set fs \<union> {f. avail kend f \<and> a + i \<le> f \<and> f < a + ?N}"
    unfolding r(3) using iN by (cases "avail kend (a + i)") auto
  moreover have "region_loop kend addr len i m = Inr m'" using lim less m1(1) r(1) by (subst region_loop.simps) (simp add: Let_def)
  ultimately show ?case using r(2) by blast
qed

text \<open>
  The usable frames of a map, and maps the code can deal with: blocks start on a page, end below 4 GB, do not cover
  all of it and do not overlap.
\<close>

definition block_frames :: "minfo \<Rightarrow> nat set" where
  "block_frames x = (if mi_type x = 1 then {f. unat (mi_base x) div 4096 \<le> f \<and> f < unat (mi_base x) div 4096 + (unat (mi_length x) + 4095) div 4096} else {})"

definition block_ok :: "minfo \<Rightarrow> bool" where
  "block_ok x \<longleftrightarrow> (mi_type x = 1 \<longrightarrow> unat (mi_base x) mod 4096 = 0 \<and> unat (mi_base x) + unat (mi_length x) \<le> 4294967296 \<and> unat (mi_length x) \<le> 4294963200 \<and>
     unat (mi_base x) < 4294967296)"

fun disjoint_blocks :: "minfo list \<Rightarrow> bool" where
  "disjoint_blocks [] = True"
| "disjoint_blocks (x # xs) = ((\<forall>y\<in>set xs. block_frames x \<inter> block_frames y = {}) \<and> disjoint_blocks xs)"

definition usable :: "u32 \<Rightarrow> minfo list \<Rightarrow> nat set" where
  "usable kend xs = {f. avail kend f \<and> (\<exists>x\<in>set xs. f \<in> block_frames x)}"

lemma unat_ucast_64: "unat w < 4294967296 \<Longrightarrow> unat (ucast w :: u32) = unat w" for w :: "64 word"
  by (simp add: unsigned_ucast_eq take_bit_nat_eq_self)

lemma reserve_memory_ok:
  assumes "\<forall>x\<in>set xs. block_ok x" and "disjoint_blocks xs" and "phys_ok m fs" and "\<forall>x\<in>set xs. block_frames x \<inter> set fs = {}"
  shows "\<exists>m' gs. reserve_memory kend xs m = Inr m' \<and> phys_ok m' gs \<and> set gs = set fs \<union> usable kend xs"
  using assms
proof (induction xs arbitrary: m fs)
  case (Cons x xs)
  have "\<exists>m1 fs1. (if mi_type x = 1 then reserve_region kend (ucast (mi_base x)) (ucast (mi_length x)) m else Inr m) = Inr m1 \<and>
    phys_ok m1 fs1 \<and> set fs1 = set fs \<union> {f. avail kend f \<and> f \<in> block_frames x}"
  proof (cases "mi_type x = 1")
    case True
    define a where "a = unat (mi_base x) div 4096"
    have ok: "unat (mi_base x) = 4096 * a" "unat (mi_base x) + unat (mi_length x) \<le> 4294967296" "unat (mi_length x) \<le> 4294963200" "unat (mi_base x) < 4294967296"
      using True Cons.prems(1) by (auto simp: block_ok_def a_def)
    have ub: "unat (ucast (mi_base x) :: u32) = 4096 * a" "unat (ucast (mi_length x) :: u32) = unat (mi_length x)"
      using ok unat_ucast_64 [of "mi_base x"] unat_ucast_64 [of "mi_length x"] by auto
    have fr: "\<forall>f\<in>set fs. \<not> (a + 0 \<le> f \<and> f < a + (unat (ucast (mi_length x) :: u32) + 4095) div 4096)"
      using Cons.prems(4) True by (auto simp: block_frames_def a_def ub(2))
    have "\<exists>m' gs. region_loop kend (ucast (mi_base x)) (ucast (mi_length x)) 0 m = Inr m' \<and> phys_ok m' gs \<and>
      set gs = set fs \<union> {f. avail kend f \<and> a + 0 \<le> f \<and> f < a + (unat (ucast (mi_length x) :: u32) + 4095) div 4096}"
      by (rule region_loop_ok [OF ub(1) _ _ Cons.prems(3) _ fr]) (use ok ub(2) in simp_all)
    then show ?thesis using True unfolding reserve_region_def block_frames_def a_def [symmetric] ub(2) by simp
  next
    case False
    then show ?thesis using Cons.prems(3) by (auto simp: block_frames_def)
  qed
  then obtain m1 fs1 where r: "(if mi_type x = 1 then reserve_region kend (ucast (mi_base x)) (ucast (mi_length x)) m else Inr m) = Inr m1"
    "phys_ok m1 fs1" "set fs1 = set fs \<union> {f. avail kend f \<and> f \<in> block_frames x}" by blast
  have "\<forall>y\<in>set xs. block_frames y \<inter> set fs1 = {}" using Cons.prems(2,4) unfolding r(3) by auto
  from Cons.IH [OF _ _ r(2) this] Cons.prems(1,2) obtain m' gs where
    "reserve_memory kend xs m1 = Inr m'" "phys_ok m' gs" "set gs = set fs1 \<union> usable kend xs" by auto
  moreover have "set fs1 \<union> usable kend xs = set fs \<union> usable kend (x # xs)" unfolding r(3) by (auto simp: usable_def)
  ultimately show ?case using r(1) by (auto simp: MEM_USABLE_def)
qed (auto simp: usable_def)

section \<open>Building the directory\<close>

text \<open>\<open>D\<close> is the frame of a directory under construction: its entries are empty or lead to tables of their own, outside of the free frames.\<close>

definition pdir_ok :: "memory \<Rightarrow> nat \<Rightarrow> nat list \<Rightarrow> bool" where
  "pdir_ok m D fs \<longleftrightarrow> phys_ok m fs \<and> D \<notin> set fs \<and> D \<noteq> 0 \<and> D < 1048576 \<and> (\<forall>d<1024. pm m D d = 0 \<or> present (pm m D d)) \<and>
     inj_on (\<lambda>d. fr (pm m D d)) {d. d < 1024 \<and> pm m D d \<noteq> 0} \<and> (\<forall>d<1024. pm m D d \<noteq> 0 \<longrightarrow> fr (pm m D d) \<notin> insert D (set fs))"

definition id_pte :: "memory \<Rightarrow> nat \<Rightarrow> nat \<Rightarrow> u32" where
  "id_pte m D p = (if pm m D (p div 1024) = 0 then 0 else pm m (fr (pm m D (p div 1024))) (p mod 1024))"

lemma pdir_okD:
  assumes "pdir_ok m D fs"
  shows "phys_ok m fs" "D \<notin> set fs" "D \<noteq> 0" "D < 1048576" "\<And>d. d < 1024 \<Longrightarrow> pm m D d = 0 \<or> present (pm m D d)"
    "inj_on (\<lambda>d. fr (pm m D d)) {d. d < 1024 \<and> pm m D d \<noteq> 0}" "\<And>d. d < 1024 \<Longrightarrow> pm m D d \<noteq> 0 \<Longrightarrow> fr (pm m D d) \<notin> insert D (set fs)" "\<not> pg_on m"
  using assms by (auto simp: pdir_ok_def phys_ok_def)

lemma phys_addr:
  assumes "f < 1048576" and "t < 1024"
  shows "fr (of_nat (4096 * f) + 4 * of_nat t) = f" and "word_idx (of_nat (4096 * f) + 4 * of_nat t) = t" and "fr (of_nat (4096 * f) OR RW) = f"
proof -
  have "of_nat (4096 * f) + 4 * of_nat t = (of_nat (4096 * f + 4 * t) :: u32)" by simp
  then have u: "unat (of_nat (4096 * f) + 4 * of_nat t :: u32) = 4 * t + f * 4096" using assms by (simp only: unat_of_nat_u32)
  have x: "4 * t < 4096" using assms by simp
  show "fr (of_nat (4096 * f) + 4 * of_nat t) = f" "word_idx (of_nat (4096 * f) + 4 * of_nat t) = t"
    unfolding fr_def word_idx_def u page_split [OF x] by simp_all
  have "unat (of_nat (4096 * f) :: u32) = 4096 * f" using assms(1) by (intro unat_of_nat_u32) simp
  then show "fr (of_nat (4096 * f) OR RW) = f" unfolding RW_simps(3) by (simp add: fr_def del: of_nat_mult)
qed

lemma phys_store:
  assumes "\<not> pg_on m" and "f < 1048576" and "t < 1024"
  shows "vstore (of_nat (4096 * f) + 4 * of_nat t) v m = Inr (m\<lparr>pm := pupd (pm m) f t v\<rparr>)"
    and "vload (of_nat (4096 * f) + 4 * of_nat t) m = Inr (pm m f t)"
  using phys_addr [OF assms(2,3)] by (simp_all only: vstore_def vload_def phys_translate [OF assms(1)] bnd_Inr)

lemma RW_nonzero: "a OR RW \<noteq> 0" "present (a OR RW)"
proof -
  show "present (a OR RW)" by simp
  then show "a OR RW \<noteq> 0" using present_0 by metis
qed

text \<open>Entering a new table: the frame is taken from the free list, cleared and put into the directory.\<close>

definition add_table :: "nat \<Rightarrow> nat \<Rightarrow> nat \<Rightarrow> memory \<Rightarrow> memory" where
  "add_table D d f m = m\<lparr>pm := pupd ((pm m)(f := \<lambda>_. 0)) D d (of_nat (4096 * f) OR RW), last_free_page := pm m f 0, num_pages := num_pages m - 1\<rparr>"

lemma add_table_ok:
  assumes "pdir_ok m D (f # fs)" and "d < 1024" and "pm m D d = 0"
  shows "bnd (frame_calloc m) (\<lambda>(f, m). vstore (of_nat (4096 * D) + 4 * of_nat d) (f OR RW) m) = Inr (add_table D d f m)"
    and "pdir_ok (add_table D d f m) D fs" and "pm (add_table D d f m) D = (pm m D)(d := of_nat (4096 * f) OR RW)"
    and "pm (add_table D d f m) f = (\<lambda>_. 0)" and "\<And>g. g \<noteq> D \<Longrightarrow> g \<noteq> f \<Longrightarrow> pm (add_table D d f m) g = pm m g"
proof -
  note k = pdir_okD [OF assms(1)] and c = phys_calloc [OF pdir_okD(1) [OF assms(1)]]
  have f: "f < 1048576" "f \<noteq> D" using flist_nonzero [of "pm m" "last_free_page m" "f # fs" f] k(1,2) by (auto simp: phys_ok_def)
  show run: "bnd (frame_calloc m) (\<lambda>(f, m). vstore (of_nat (4096 * D) + 4 * of_nat d) (f OR RW) m) = Inr (add_table D d f m)"
    unfolding c(1) bnd_Inr prod.case using phys_store(1) [OF _ k(4) assms(2)] k(8) by (simp add: add_table_def del: of_nat_mult)
  show pD: "pm (add_table D d f m) D = (pm m D)(d := of_nat (4096 * f) OR RW)" using f(2) by (simp add: add_table_def pupd_def)
  show "pm (add_table D d f m) f = (\<lambda>_. 0)" using f(2) by (simp add: add_table_def)
  show oth: "pm (add_table D d f m) g = pm m g" if "g \<noteq> D" "g \<noteq> f" for g using that by (simp add: add_table_def)
  have "phys_ok (add_table D d f m) fs"
  proof -
    have "flist (pm (add_table D d f m)) (pm m f 0) fs"
      by (rule flist_cong [of "(pm m)(f := \<lambda>_. 0)"]) (use c(2) k(2) f in \<open>auto simp: phys_ok_def add_table_def pupd_def\<close>)
    then show ?thesis using c(2) by (simp add: phys_ok_def) (simp add: add_table_def)
  qed
  moreover have "fr (of_nat (4096 * f) OR RW) = f" by (rule phys_addr(3) [OF f(1), of 0]) simp
  moreover have "f \<notin> set fs" using k(1) by (simp add: phys_ok_def)
  moreover have "inj_on (\<lambda>x. fr (((pm m D)(d := of_nat (4096 * f) OR RW)) x)) {x. x < 1024 \<and> ((pm m D)(d := of_nat (4096 * f) OR RW)) x \<noteq> 0}"
  proof (rule inj_onI)
    fix x y
    assume a: "x \<in> {x. x < 1024 \<and> ((pm m D)(d := of_nat (4096 * f) OR RW)) x \<noteq> 0}" "y \<in> {x. x < 1024 \<and> ((pm m D)(d := of_nat (4096 * f) OR RW)) x \<noteq> 0}"
      "fr (((pm m D)(d := of_nat (4096 * f) OR RW)) x) = fr (((pm m D)(d := of_nat (4096 * f) OR RW)) y)"
    show "x = y" using a inj_onD [OF k(6), of x y] k(7) [of x] k(7) [of y] \<open>fr (of_nat (4096 * f) OR RW) = f\<close>
      by (cases "x = d"; cases "y = d") auto
  qed
  ultimately show "pdir_ok (add_table D d f m) D fs"
    using k(2-5,7) f RW_nonzero by (auto simp: pdir_ok_def pD)
qed

lemma add_table_pte:
  assumes "pdir_ok m D (f # fs)" and "d < 1024" and "pm m D d = 0" and "q < 1048576"
  shows "id_pte (add_table D d f m) D q = id_pte m D q"
proof -
  note a = add_table_ok [OF assms(1-3)] and k = pdir_okD [OF assms(1)]
  have f: "f < 1048576" using flist_nonzero [of "pm m" "last_free_page m" "f # fs" f] k(1) by (auto simp: phys_ok_def)
  have "fr (of_nat (4096 * f) OR RW) = f" by (rule phys_addr(3) [OF f, of 0]) simp
  moreover have "pm m D (q div 1024) \<noteq> 0 \<Longrightarrow> fr (pm m D (q div 1024)) \<noteq> D \<and> fr (pm m D (q div 1024)) \<noteq> f"
    using k(7) [of "q div 1024"] assms(4) by (auto simp: less_mult_imp_div_less)
  ultimately show ?thesis using a(3-5) assms(3) RW_nonzero by (auto simp: id_pte_def)
qed

lemma set_entry_ok:
  assumes "pdir_ok m D fs" and "p < 1048576" and "pm m D (p div 1024) \<noteq> 0"
    and m'_def: "m' = m\<lparr>pm := pupd (pm m) (fr (pm m D (p div 1024))) (p mod 1024) v\<rparr>"
  shows "pdir_ok m' D fs" and "pm m' D = pm m D" and "id_pte m' D p = v" and "\<And>q. q < 1048576 \<Longrightarrow> q \<noteq> p \<Longrightarrow> id_pte m' D q = id_pte m D q"
proof -
  note k = pdir_okD [OF assms(1)]
  have d: "p div 1024 < 1024" using assms(2) by (simp add: less_mult_imp_div_less)
  have T: "fr (pm m D (p div 1024)) \<noteq> D" "fr (pm m D (p div 1024)) \<notin> set fs" using k(7) [OF d assms(3)] by auto
  show pD: "pm m' D = pm m D" using T(1) by (simp add: m'_def)
  have "flist (pm m') (last_free_page m) fs"
    by (rule flist_cong [of "pm m"]) (use k(1) T(2) in \<open>auto simp: phys_ok_def m'_def pupd_def\<close>)
  then have "phys_ok m' fs" using k(1) by (simp add: phys_ok_def m'_def)
  then show "pdir_ok m' D fs" using assms(1) by (simp add: pdir_ok_def pD)
  show "id_pte m' D p = v" using assms(3) by (simp add: id_pte_def pD) (simp add: m'_def)
  show "id_pte m' D q = id_pte m D q" if "q < 1048576" "q \<noteq> p" for q
  proof (cases "pm m D (q div 1024) = 0 \<or> fr (pm m D (q div 1024)) \<noteq> fr (pm m D (p div 1024))")
    case True
    then show ?thesis by (auto simp: id_pte_def pD) (auto simp: m'_def)
  next
    case False
    moreover have "q div 1024 < 1024" using that(1) by (simp add: less_mult_imp_div_less)
    ultimately have "q div 1024 = p div 1024" using inj_onD [OF k(6), of "q div 1024" "p div 1024"] d assms(3) by auto
    then have "q mod 1024 \<noteq> p mod 1024" using that(2) by (metis div_mult_mod_eq)
    with \<open>q div 1024 = p div 1024\<close> show ?thesis by (simp add: id_pte_def pD) (simp add: m'_def)
  qed
qed

lemma identity_page_ok:
  assumes "pdir_ok m D fs" and "p < 1048576" and "fs \<noteq> []"
  shows "\<exists>m' gs. identity_map_page (of_nat (4096 * D)) (of_nat (4096 * p)) m = Inr m' \<and> pdir_ok m' D gs \<and> set gs \<subseteq> set fs \<and> length fs \<le> Suc (length gs) \<and>
    id_pte m' D p = of_nat (4096 * p) OR RW \<and> (\<forall>q<1048576. q \<noteq> p \<longrightarrow> id_pte m' D q = id_pte m D q) \<and> (\<forall>d. d \<noteq> p div 1024 \<longrightarrow> pm m' D d = pm m D d)"
proof -
  let ?d = "p div 1024" and ?v = "of_nat (4096 * p) OR RW" and ?a = "of_nat (4096 * p) :: u32"
  have up: "unat ?a = 4096 * p" using assms(2) by (intro unat_of_nat_u32) simp
  have ix: "dir_idx ?a = ?d" "tbl_idx ?a = p mod 1024" unfolding dir_idx_def tbl_idx_def up by simp_all
  have d: "?d < 1024" "p mod 1024 < 1024" using assms(2) by (simp_all add: less_mult_imp_div_less)
  note k = pdir_okD [OF assms(1)]
  obtain m1 gs where m1: "(if \<not> present (pm m D ?d) then bnd (frame_calloc m) (\<lambda>(f, m). vstore (of_nat (4096 * D) + 4 * of_nat ?d) (f OR RW) m) else Inr m) = Inr m1"
    "pdir_ok m1 D gs" "set gs \<subseteq> set fs" "length fs \<le> Suc (length gs)" "pm m1 D ?d \<noteq> 0" "\<forall>q<1048576. id_pte m1 D q = id_pte m D q" "\<forall>d. d \<noteq> ?d \<longrightarrow> pm m1 D d = pm m D d"
  proof (cases "pm m D ?d = 0")
    case True
    obtain f gs where fs: "fs = f # gs" using assms(3) by (cases fs) auto
    note a = add_table_ok [OF assms(1) [unfolded fs] d(1) True]
    show ?thesis
    proof (rule that [of "add_table D ?d f m" gs])
      show "\<forall>q<1048576. id_pte (add_table D ?d f m) D q = id_pte m D q" using add_table_pte [OF assms(1) [unfolded fs] d(1) True] by blast
    qed (use a True fs RW_nonzero in auto)
  next
    case False
    then show ?thesis using that [of m fs] assms(1) k(5) [OF d(1)] by auto
  qed
  note k1 = pdir_okD [OF m1(2)]
  define T where "T = fr (pm m1 D ?d)"
  have T: "T < 1048576" by (simp add: T_def)
  have e: "pm m1 D ?d AND 0xFFFFF000 = of_nat (4096 * T)" unfolding T_def frame_addr [symmetric] by simp
  note S = set_entry_ok [OF m1(2) assms(2) m1(5) refl, where v = ?v]
  have "identity_map_page (of_nat (4096 * D)) ?a m = Inr (m1\<lparr>pm := pupd (pm m1) T (p mod 1024) ?v\<rparr>)"
    unfolding identity_map_page_def Let_def ix RW_def [symmetric] phys_store(2) [OF k(8,4) d(1)] bnd_Inr m1(1) phys_store(2) [OF k1(8,4) d(1)] e
      phys_store(1) [OF k1(8) T d(2)] ..
  with S m1(3,4,6,7) show ?thesis unfolding T_def by (intro exI [of _ "m1\<lparr>pm := pupd (pm m1) (fr (pm m1 D ?d)) (p mod 1024) ?v\<rparr>"] exI [of _ gs]) auto
qed

lemma identity_kernel_ok:
  assumes ok: "pdir_ok m D fs" and zero: "pm m D = (\<lambda>_. 0)" and room: "kernel_pages kend < length fs" and kend: "unat kend < 0xD0000000"
  shows "\<exists>m' gs. identity_map_kernel kend (of_nat (4096 * D)) m = Inr m' \<and> pdir_ok m' D gs \<and> set gs \<subseteq> set fs \<and> length fs \<le> length gs + kernel_pages kend + 1 \<and>
    (\<forall>j<kernel_pages kend. id_pte m' D (184 + j) = of_nat (4096 * (184 + j)) OR RW) \<and> (\<forall>d. 1022 < d \<longrightarrow> pm m' D d = 0) \<and>
    pm m' D 1022 \<noteq> 0 \<and> pm m' (fr (pm m' D 1022)) = (\<lambda>_. 0)"
proof -
  let ?n = "kernel_pages kend" and ?f = "\<lambda>i. identity_map_page (of_nat (4096 * D)) (CRT_ADDR + of_nat i * PAGE_SIZE)"
  have n: "184 + ?n \<le> 851968" using kend by (auto simp: kernel_pages_def CRT_ADDR_def)
  let ?I = "\<lambda>i m'. \<exists>gs. pdir_ok m' D gs \<and> set gs \<subseteq> set fs \<and> length fs \<le> length gs + i \<and>
    (\<forall>j<i. id_pte m' D (184 + j) = of_nat (4096 * (184 + j)) OR RW) \<and> (\<forall>d. 1021 < d \<longrightarrow> pm m' D d = 0)"
  have "\<exists>m'. for_idx ?f [0..<?n] m = Inr m' \<and> ?I ?n m'"
  proof (rule for_idx_rule)
    fix i m1
    assume i: "i < ?n" and "?I i m1"
    then obtain gs where g: "pdir_ok m1 D gs" "set gs \<subseteq> set fs" "length fs \<le> length gs + i"
      "\<forall>j<i. id_pte m1 D (184 + j) = of_nat (4096 * (184 + j)) OR RW" "\<forall>d. 1021 < d \<longrightarrow> pm m1 D d = 0" by blast
    have a: "CRT_ADDR + of_nat i * PAGE_SIZE = of_nat (4096 * (184 + i))" by (simp add: CRT_ADDR_def PAGE_SIZE_def)
    have ne: "gs \<noteq> []" using g(3) room i by auto
    have p: "184 + i < 1048576" using n i by linarith
    obtain m2 hs where m2: "identity_map_page (of_nat (4096 * D)) (of_nat (4096 * (184 + i))) m1 = Inr m2" "pdir_ok m2 D hs" "set hs \<subseteq> set gs"
      "length gs \<le> Suc (length hs)" "id_pte m2 D (184 + i) = of_nat (4096 * (184 + i)) OR RW"
      "\<forall>q<1048576. q \<noteq> 184 + i \<longrightarrow> id_pte m2 D q = id_pte m1 D q" "\<forall>d. d \<noteq> (184 + i) div 1024 \<longrightarrow> pm m2 D d = pm m1 D d"
      using identity_page_ok [OF g(1) p ne] by (elim exE conjE)
    have "id_pte m2 D (184 + j) = of_nat (4096 * (184 + j)) OR RW" if "j < Suc i" for j
      using m2(5,6) g(4) that p by (cases "j = i") auto
    moreover have "pm m2 D d = 0" if "1021 < d" for d
    proof -
      have "(184 + i) div 1024 \<noteq> d" using n i that by linarith
      then show ?thesis using m2(7) g(5) that by auto
    qed
    moreover have "set hs \<subseteq> set fs" "length fs \<le> length hs + Suc i" using m2(3,4) g(2,3) by auto
    ultimately show "\<exists>m'. ?f i m1 = Inr m' \<and> ?I (Suc i) m'" unfolding a using m2(1,2) by blast
  qed (use ok zero in auto)
  then obtain m1 gs where l: "for_idx ?f [0..<?n] m = Inr m1" "pdir_ok m1 D gs" "set gs \<subseteq> set fs" "length fs \<le> length gs + ?n"
    "\<forall>j<?n. id_pte m1 D (184 + j) = of_nat (4096 * (184 + j)) OR RW" "\<forall>d. 1021 < d \<longrightarrow> pm m1 D d = 0" by blast
  obtain f hs where gs: "gs = f # hs" using l(4) room by (cases gs) auto
  have e: "pm m1 D 1022 = 0" using l(6) by simp
  note A = add_table_ok [OF l(2) [unfolded gs] _ e]
  let ?m = "add_table D 1022 f m1"
  have f: "f < 1048576" using flist_nonzero [of "pm m1" "last_free_page m1" gs f] pdir_okD(1) [OF l(2)] gs by (auto simp: phys_ok_def)
  have F: "fr (pm ?m D 1022) = f" unfolding A(3) [of, simplified] using phys_addr(3) [OF f, of 0] by simp
  have kk: "\<not> 0xFFFFF000 \<le> kend" using kend by (simp add: word_le_nat_alt)
  have "identity_map_kernel kend (of_nat (4096 * D)) m = Inr ?m"
    unfolding identity_map_kernel_def resv_addr0 RW_def [symmetric] l(1) bnd_Inr using A(1) kk by simp
  moreover have "id_pte ?m D (184 + j) = of_nat (4096 * (184 + j)) OR RW" if "j < ?n" for j
    using add_table_pte [OF l(2) [unfolded gs] _ e, of "184 + j"] l(5) that n by simp
  moreover have "pm ?m D d = 0" if "1022 < d" for d using A(3) l(6) that by simp
  moreover have "pm ?m D 1022 \<noteq> 0" using A(3) RW_nonzero by simp
  ultimately show ?thesis using A(2,4) l(3,4) F gs by (intro exI [of _ ?m] exI [of _ hs]) auto
qed

section \<open>Switching to paging\<close>

lemma start_paging:
  assumes ok: "pdir_ok m D fs" and r: "pm m D 1022 \<noteq> 0" "pm m (fr (pm m D 1022)) = (\<lambda>_. 0)" and z: "pm m D 1023 = 0"
    and m'_def: "m' = m\<lparr>pm := pupd (pm m) D 1023 (of_nat (4096 * D) OR RW), cr3 := of_nat (4096 * D), pg_on := True\<rparr>"
  shows "mem_ok m' fs" and "\<And>a. dir_idx a \<noteq> 1023 \<Longrightarrow> pte m' a = id_pte m D (fr a)"
proof -
  note k = pdir_okD [OF ok]
  have uD: "unat (of_nat (4096 * D) :: u32) = 4096 * D" using k(4) by (intro unat_of_nat_u32) simp
  have cD: "fr (cr3 m') = D" by (simp add: m'_def fr_def uD del: of_nat_mult)
  have fD: "fr (of_nat (4096 * D) OR RW) = D" by (rule phys_addr(3) [OF k(4), of 0]) simp
  have pd: "pde m' d = (if d = 1023 then of_nat (4096 * D) OR RW else pm m D d)" for d
    unfolding pde_def cD by (simp add: m'_def pupd_def)
  have pt: "ptab m' d = (if d = 1023 then D else fr (pm m D d))" for d by (simp add: ptab_def pd fD del: of_nat_mult RW_simps(3))
  have nz: "(of_nat (4096 * D) OR RW :: u32) \<noteq> 0" by (rule RW_nonzero)
  have dom: "{d. d < 1024 \<and> pde m' d \<noteq> 0} = insert 1023 {d. d < 1024 \<and> pm m D d \<noteq> 0}" using nz z by (auto simp: pd)
  have inj: "inj_on (ptab m') {d. d < 1024 \<and> pde m' d \<noteq> 0}"
  proof (rule inj_onI)
    fix x y
    assume a: "x \<in> {d. d < 1024 \<and> pde m' d \<noteq> 0}" "y \<in> {d. d < 1024 \<and> pde m' d \<noteq> 0}" "ptab m' x = ptab m' y"
    show "x = y" using a inj_onD [OF k(6), of x y] k(7) [of x] k(7) [of y] unfolding pt pd by (cases "x = 1023"; cases "y = 1023") auto
  qed
  have "fr (pm m D 1022) \<noteq> D" using k(7) [of 1022] r(1) by simp
  then have res: "pm m' (ptab m' 1022) 1022 = 0" using r(2) by (simp add: pt) (simp add: m'_def)
  have "paging m'"
    unfolding paging_def using inj res k(5) r(1) nz RW_nonzero by (auto simp: pd pt cD) (simp_all add: m'_def)
  moreover have tb: "tables m' = insert D ((\<lambda>d. fr (pm m D d)) ` {d. d < 1024 \<and> pm m D d \<noteq> 0})"
    unfolding tables_def dom using z by (auto simp: pt)
  moreover have "flist (pm m') (last_free_page m) fs"
    by (rule flist_cong [of "pm m"]) (use k(1,2) in \<open>auto simp: phys_ok_def m'_def pupd_def\<close>)
  moreover have "set fs \<inter> tables m' = {}" using k(2,7) unfolding tb by auto
  ultimately show "mem_ok m' fs" using k(1) by (simp add: mem_ok_def phys_ok_def) (simp add: m'_def)
  show "pte m' a = id_pte m D (fr a)" if "dir_idx a \<noteq> 1023" for a
  proof -
    have i: "fr a div 1024 = dir_idx a" "fr a mod 1024 = tbl_idx a" by (simp_all add: fr_def dir_idx_def tbl_idx_def)
    have "pm m D (dir_idx a) \<noteq> 0 \<Longrightarrow> fr (pm m D (dir_idx a)) \<noteq> D" using k(7) [of "dir_idx a"] by simp
    then show ?thesis unfolding pte_def id_pte_def i using that by (auto simp: pd pt) (auto simp: m'_def)
  qed
qed

section \<open>The new stack\<close>

lemma ctook_pte:
  assumes "mem_ok m (f # fs)" and "dir_idx a \<noteq> 1023"
  shows "pte (ctook m) a = pte m a"
proof -
  note c = mem_ok_Cons [OF assms(1)] and d = mem_okD [OF assms(1)]
  have t: "pde (ctook m) = pde m" "ptab (ctook m) = ptab m" using ctook_tables [OF d(1)] c(2,4) by auto
  have "pde m (dir_idx a) \<noteq> 0 \<Longrightarrow> ptab m (dir_idx a) \<noteq> f" using c(4) by (auto simp: tables_def)
  then show ?thesis using c(2) by (auto simp: pte_def t)
qed

lemma stack_page:
  assumes "i \<le> 4096"
  shows "dir_idx (KERNEL_STACK_HI - PAGE_SIZE * of_nat i) < 1022" and "1016 \<le> dir_idx (KERNEL_STACK_HI - PAGE_SIZE * of_nat i)"
proof -
  have "KERNEL_STACK_HI - PAGE_SIZE * of_nat i = (of_nat (4279336960 - 4096 * i) :: u32)"
    using assms by (simp add: KERNEL_STACK_HI_def PAGE_SIZE_def of_nat_diff)
  then have u: "unat (KERNEL_STACK_HI - PAGE_SIZE * of_nat i) = 4279336960 - 4096 * i" by (simp only: unat_of_nat_u32)
  have "1044760 - 4096 \<le> (4279336960 - 4096 * i) div 4096" "(4279336960 - 4096 * i) div 4096 \<le> 1044760" using assms by linarith+
  then show "dir_idx (KERNEL_STACK_HI - PAGE_SIZE * of_nat i) < 1022" "1016 \<le> dir_idx (KERNEL_STACK_HI - PAGE_SIZE * of_nat i)"
    unfolding dir_idx_def u by linarith+
qed

lemma stack_loop_ok:
  assumes "mem_ok m fs" and "n \<le> 4096" and "2 * n \<le> length fs"
  shows "\<exists>m' gs. stack_loop n m = Inr m' \<and> mem_ok m' gs \<and> set gs \<subseteq> set fs \<and>
    (\<forall>a. dir_idx a < 1016 \<longrightarrow> pte m' a = pte m a)"
  using assms
proof (induction n arbitrary: m fs)
  case (Suc n)
  obtain f gs where fs: "fs = f # gs" using Suc.prems(3) by (cases fs) auto
  note c = frame_calloc_ok [OF Suc.prems(1) [unfolded fs]] ctook_ok [OF Suc.prems(1) [unfolded fs]]
  let ?va = "KERNEL_STACK_HI - PAGE_SIZE * of_nat (Suc n)"
  have o: "ordinary ?va" using stack_page [of "Suc n"] Suc.prems(2) by (simp add: ordinary_def)
  have "gs \<noteq> []" using Suc.prems(3) fs by auto
  then obtain m1 hs where m1: "map_page ?va (of_nat (4096 * f)) (P_PRESENT OR P_READ_WRITE) (ctook m) = Inr m1" "mem_ok m1 hs"
    "entry_set ?va (of_nat (4096 * f) OR ucast (P_PRESENT OR P_READ_WRITE)) (ctook m) m1" "hs = gs \<or> hs = tl gs"
    using map_page_ok [OF c(2) o, of "P_PRESENT OR P_READ_WRITE" "of_nat (4096 * f)"]
    by (auto simp: P_PRESENT_def P_READ_WRITE_def present_def split: if_splits)
  have "2 * n \<le> length hs" "set hs \<subseteq> set fs" using m1(4) Suc.prems(3) fs by (cases gs; auto)+
  with Suc.IH [OF m1(2)] Suc.prems(2) obtain m' ks where r: "stack_loop n m1 = Inr m'" "mem_ok m' ks" "set ks \<subseteq> set hs"
    "\<forall>a. dir_idx a < 1016 \<longrightarrow> pte m' a = pte m1 a" by auto
  have "pte m1 a = pte m a" if "dir_idx a < 1016" for a
  proof -
    have "dir_idx a \<noteq> 1023" "\<not> same_page a ?va" using that stack_page(2) [of "Suc n"] Suc.prems(2) by (auto simp: same_page_def)
    then show ?thesis using m1(3) ctook_pte [OF Suc.prems(1) [unfolded fs], of a] by (simp add: entry_set_def)
  qed
  with r m1(1) c(1) \<open>set hs \<subseteq> set fs\<close> show ?case by auto
qed auto

lemma paging_dir_phys:
  assumes "paging m"
  shows "\<exists>v. virt_to_phys PDIR_ADDR m = Inr v"
proof -
  have ix: "dir_idx PDIR_ADDR = 1023" "tbl_idx PDIR_ADDR = 1023" by (simp_all add: dir_idx_def tbl_idx_def PDIR_ADDR_def)
  have "pte m PDIR_ADDR = pde m 1023" using assms by (auto simp: pte_def ix paging_def pde_def)
  then have "present (pte m PDIR_ADDR)" using assms paging_present [OF assms, of 1023] by (simp add: paging_def)
  from virt_to_phys_pte [OF assms _ this] show ?thesis by (simp add: PDIR_ADDR_def)
qed

lemma identity_translate:
  assumes "paging m" and "CRT_ADDR \<le> a" and "a \<le> kend" and "unat kend < 0xD0000000"
    and "\<forall>j<kernel_pages kend. id_pte m' D (184 + j) = of_nat (4096 * (184 + j)) OR RW"
    and "dir_idx a < 1016 \<Longrightarrow> pte m a = id_pte m' D (fr a)"
  shows "translate a m = Inr (fr a)"
proof -
  have u: "0xB8000 \<le> unat a" "unat a \<le> unat kend" using assms(2,3) by (simp_all add: word_le_nat_alt CRT_ADDR_def)
  have d: "dir_idx a < 1016" using u assms(4) unfolding dir_idx_def by linarith
  have j: "fr a - 184 < kernel_pages kend" "184 + (fr a - 184) = fr a"
    using u assms(2,3) by (auto simp: kernel_pages_def fr_def CRT_ADDR_def word_le_nat_alt word_less_nat_alt)
  have "pte m a = id_pte m' D (fr a)" by (rule assms(6) [OF d])
  also have "\<dots> = of_nat (4096 * fr a) OR RW" using assms(5) j by metis
  finally have p: "pte m a = of_nat (4096 * fr a) OR RW" .
  have "fr (of_nat (4096 * fr a) OR RW) = fr a" by (rule phys_addr(3) [of _ 0]) simp_all
  then show ?thesis unfolding translate_pte [OF assms(1)] p using RW_nonzero(2) by (simp only: if_True)
qed

text \<open>
  C39. The kernel starts with a sound memory (\<open>mem_init\<close> of \<open>mem.c\<close> with everything it calls). When the memory blocks the loader
  reports are page aligned, below 4 GB and do not overlap, and there is memory enough, \<open>mem_init\<close> returns, with paging on and
  the invariant of the memory manager established: self-mapped directory, separate tables, and a list of free frames that
  holds only usable frames, none of them a table, nor frame 0, nor one between the video memory and the end of the kernel. Every
  address in this range is mapped to itself, so the code that runs goes on running.
\<close>

theorem mem_init_sound:
  assumes "\<forall>x\<in>set (k_minfo k). block_ok x" and "disjoint_blocks (k_minfo k)" and "unat (k_end k) < 0xD0000000" and "unat (k_stack_size k) \<le> 0x1000000"
    and "kernel_pages (k_end k) + 2 * (unat (k_stack_size k) div 4096) + 2 \<le> card (usable (k_end k) (k_minfo k))"
  shows "\<exists>m' fs. mem_init k m = Inr m' \<and> mem_ok m' fs \<and> set fs \<subseteq> usable (k_end k) (k_minfo k) \<and>
    (\<forall>a. CRT_ADDR \<le> a \<and> a \<le> k_end k \<longrightarrow> translate a m' = Inr (fr a))"
proof -
  let ?U = "usable (k_end k) (k_minfo k)" and ?n = "kernel_pages (k_end k)"
  define m0 where "m0 = m\<lparr>num_pages := 0, total_pages := 0, kernel_dir := 0, pg_on := False, last_free_page := 0\<rparr>"
  have "phys_ok m0 []" by (simp add: phys_ok_def m0_def)
  from reserve_memory_ok [OF assms(1,2) this, of "k_end k"] obtain m1 fs where
    r: "reserve_memory (k_end k) (k_minfo k) m0 = Inr m1" "phys_ok m1 fs" "set fs = ?U" by auto
  have len: "?n + 2 * (unat (k_stack_size k) div 4096) + 2 \<le> length fs"
    using assms(5) r(2,3) distinct_card [of fs] by (simp add: phys_ok_def)
  then obtain D gs where fs: "fs = D # gs" by (cases fs) auto
  define m2 where "m2 = m1\<lparr>total_pages := num_pages m1\<rparr>"
  have p2: "phys_ok m2 (D # gs)" using r(2) fs by (simp add: phys_ok_def m2_def)
  define m3 where "m3 = m2\<lparr>pm := (pm m2)(D := \<lambda>_. 0), last_free_page := pm m2 D 0, num_pages := num_pages m2 - 1\<rparr>"
  have c: "frame_calloc m2 = Inr (of_nat (4096 * D), m3)" "phys_ok m3 gs" using phys_calloc [OF p2] unfolding m3_def by blast+
  define m4 where "m4 = m3\<lparr>kernel_dir := of_nat (4096 * D)\<rparr>"
  have D: "D \<noteq> 0" "D < 1048576" "D \<notin> set gs"
    using flist_nonzero [of "pm m2" "last_free_page m2" "D # gs" D] p2 by (auto simp: phys_ok_def)
  have z: "pm m4 D = (\<lambda>_. 0)" by (simp add: m4_def m3_def)
  have d4: "pdir_ok m4 D gs" using c(2) D z by (simp add: pdir_ok_def phys_ok_def) (simp add: m4_def)
  have "?n < length gs" using len fs by simp
  from identity_kernel_ok [OF d4 z this assms(3)] obtain m5 hs where
    i: "identity_map_kernel (k_end k) (of_nat (4096 * D)) m4 = Inr m5" "pdir_ok m5 D hs" "set hs \<subseteq> set gs" "length gs \<le> length hs + ?n + 1"
      "\<forall>j<?n. id_pte m5 D (184 + j) = of_nat (4096 * (184 + j)) OR RW" "\<forall>d. 1022 < d \<longrightarrow> pm m5 D d = 0"
      "pm m5 D 1022 \<noteq> 0" "pm m5 (fr (pm m5 D 1022)) = (\<lambda>_. 0)" by (elim exE conjE)
  have z3: "pm m5 D 1023 = 0" using i(6) by simp
  define m6 where "m6 = m5\<lparr>pm := pupd (pm m5) D 1023 (of_nat (4096 * D) OR RW), cr3 := of_nat (4096 * D), pg_on := True\<rparr>"
  note P = start_paging [OF i(2,7,8) z3 m6_def]
  have rec: "recursively_map_page_directory (of_nat (4096 * D)) m5 = Inr (m5\<lparr>pm := pupd (pm m5) D 1023 (of_nat (4096 * D) OR RW)\<rparr>)"
    using phys_store(1) [OF pdir_okD(8) [OF i(2)] D(2), of 1023] pdir_okD(8) [OF i(2)]
    by (simp add: recursively_map_page_directory_def RW_def [symmetric] del: of_nat_mult)
  have us: "unat (k_stack_size k div PAGE_SIZE) = unat (k_stack_size k) div 4096" by (simp add: unat_div PAGE_SIZE_def)
  have "unat (k_stack_size k) div 4096 \<le> 4096" "2 * (unat (k_stack_size k) div 4096) \<le> length hs" using assms(4) len fs i(4) by auto
  from stack_loop_ok [OF P(1) this] obtain m7 ks where s: "stack_loop (unat (k_stack_size k) div 4096) m6 = Inr m7" "mem_ok m7 ks"
    "set ks \<subseteq> set hs" "\<forall>a. dir_idx a < 1016 \<longrightarrow> pte m7 a = pte m6 a" by blast
  have st: "move_stack_up (k_stack_size k) m6 = Inr m7" using s(1) by (simp add: move_stack_up_def us) (simp add: m6_def)
  have pg: "paging m7" by (rule mem_okD(1) [OF s(2)])
  have run: "mem_init k m = Inr m7"
    unfolding mem_init_def m0_def [symmetric] r(1) bnd_Inr m2_def [symmetric] c(1) prod.case m4_def [symmetric] i(1) rec
    using st paging_dir_phys [OF pg] by (auto simp: m6_def)
  have tr: "translate a m7 = Inr (fr a)" if "CRT_ADDR \<le> a" "a \<le> k_end k" for a
    using identity_translate [OF pg that assms(3) i(5)] s(4) P(2) by simp
  have "set ks \<subseteq> ?U" using s(3) i(3) r(3) fs by auto
  with run s(2) tr show ?thesis by blast
qed

text \<open>A machine with 16 MB: 640 KB below the video memory and the rest from 1 MB on.\<close>

definition sample_map :: "memory_map list" where
  "sample_map = [\<lparr>base_addr_low = 0, base_addr_high = 0, length_low = 0x9F000, length_high = 0, mm_type = 1\<rparr>,
     \<lparr>base_addr_low = 0xF0000, base_addr_high = 0, length_low = 0x10000, length_high = 0, mm_type = 2\<rparr>,
     \<lparr>base_addr_low = 0x100000, base_addr_high = 0, length_low = 0xF00000, length_high = 0, mm_type = 1\<rparr>]"

definition sample_kinfo :: kinfo where
  "sample_kinfo = \<lparr>k_end = 0x140000, k_stack_size = 0x4000, k_minfo = replicate 32 zero_minfo\<rparr>"

lemma sample_info: "get_kernel_info MBOOT_MAGIC 0x40 sample_map sample_kinfo = Inr (sample_kinfo\<lparr>k_minfo := map to_minfo sample_map @ replicate 29 zero_minfo\<rparr>)"
  by code_simp

lemma sample_blocks:
  "block_frames (map to_minfo sample_map ! 0) = {f. f < 0x9F}" "block_frames (map to_minfo sample_map ! 1) = {}"
  "block_frames (map to_minfo sample_map ! 2) = {f. 0x100 \<le> f \<and> f < 0x1000}" "block_frames zero_minfo = {}"
  by (simp_all add: block_frames_def to_minfo_def sample_map_def zero_minfo_def)

lemma sample_minfo: "map to_minfo sample_map @ replicate 29 zero_minfo =
    (map to_minfo sample_map ! 0) # (map to_minfo sample_map ! 1) # (map to_minfo sample_map ! 2) # replicate 29 zero_minfo"
  by (simp add: sample_map_def)

lemma empty_blocks: "(\<forall>x\<in>set xs. block_frames x = {}) \<Longrightarrow> disjoint_blocks xs"
  by (induction xs) auto

lemma mem_init_sound_witness:
  "\<exists>k m' fs. get_kernel_info MBOOT_MAGIC 0x40 sample_map sample_kinfo = Inr k \<and> mem_init k sample_mem = Inr m' \<and> mem_ok m' fs \<and> translate 0x123456 m' = Inr 0x123"
proof -
  let ?k = "sample_kinfo\<lparr>k_minfo := map to_minfo sample_map @ replicate 29 zero_minfo\<rparr>"
  have ok: "\<forall>x\<in>set (k_minfo ?k). block_ok x" by (simp add: sample_minfo) (simp add: block_ok_def to_minfo_def sample_map_def zero_minfo_def)
  have dj: "disjoint_blocks (k_minfo ?k)"
    unfolding sample_minfo by (simp add: sample_blocks [unfolded One_nat_def] empty_blocks sample_minfo) auto
  have U: "usable (k_end ?k) (k_minfo ?k) = {f. avail 0x140000 f \<and> (f < 0x9F \<or> 0x100 \<le> f \<and> f < 0x1000)}"
    unfolding usable_def by (simp add: sample_minfo sample_kinfo_def) (auto simp: sample_blocks [unfolded One_nat_def])
  have "{0x141..<0x1000} \<subseteq> usable (k_end ?k) (k_minfo ?k)" unfolding U by (auto simp: avail_def)
  moreover have "finite (usable (k_end ?k) (k_minfo ?k))" unfolding U by (rule finite_subset [of _ "{..<0x1000}"]) auto
  ultimately have "card {0x141..<0x1000 :: nat} \<le> card (usable (k_end ?k) (k_minfo ?k))" by (rule card_mono [rotated])
  then have room: "kernel_pages (k_end ?k) + 2 * (unat (k_stack_size ?k) div 4096) + 2 \<le> card (usable (k_end ?k) (k_minfo ?k))"
    by (simp add: kernel_pages_def sample_kinfo_def CRT_ADDR_def)
  from mem_init_sound [OF ok dj _ _ room, of sample_mem] obtain m' fs where
    r: "mem_init ?k sample_mem = Inr m'" "mem_ok m' fs" "\<forall>a. CRT_ADDR \<le> a \<and> a \<le> k_end ?k \<longrightarrow> translate a m' = Inr (fr a)"
    by (auto simp: sample_kinfo_def)
  from r(3) have "translate 0x123456 m' = Inr 0x123" by (auto simp: sample_kinfo_def CRT_ADDR_def fr_def dest!: spec [of _ "0x123456"])
  with r(1,2) sample_info show ?thesis by blast
qed

section \<open>Maps that are misread\<close>

text \<open>An entry whose type has none of the three lowest bits set stops the kernel in an endless loop.\<close>

lemma unknown_type_hangs: "mm_type mm = 8 \<Longrightarrow> get_kernel_info MBOOT_MAGIC 0x40 (mm # mms) k = Inl Deadlock"
  by (simp add: get_kernel_info_def MBOOT_MAGIC_def MEM_USABLE_def MEM_ACPI_def MEM_ACPI_NVS_def)

text \<open>The upper half of an address is shifted by 16 instead of 32: memory above 4 GB is taken for memory at 64 KB.\<close>

lemma high_memory_aliases: "base_addr_high mm = 1 \<Longrightarrow> base_addr_low mm = 0 \<Longrightarrow> mi_base (to_minfo mm) = 0x10000"
  by (simp add: to_minfo_def)

text \<open>The 33rd entry is stored behind the table before the number of entries is tested.\<close>

lemma too_many_entries: "get_kernel_info MBOOT_MAGIC 0x40 (replicate 33 (sample_map ! 0)) sample_kinfo = Inl Fault"
  by code_simp

text \<open>A block that ends inside a page hands out the whole page: of the memory up to 639 KB, the page with the BIOS data area.\<close>

lemma partial_page_used: "mi_type x = 1 \<Longrightarrow> mi_base x = 0 \<Longrightarrow> mi_length x = 0x9FC00 \<Longrightarrow> 0x9F \<in> usable 0x140000 [x]"
  by (simp add: usable_def avail_def block_frames_def)

text \<open>A block that does not start on a page stops the kernel at an assertion.\<close>

lemma unaligned_block_stops: "reserve_frame kend 0x200400 0x200400 m = (if 0x200400 \<le> kend then Inr m else Inl (Assertion ''!(addr & 0xFFF)''))"
  by (simp add: reserve_frame_def frame_free_def CRT_ADDR_def kassert_def)

end
