(* ===== verification/Mem_Exit.thy ===== *)
theory Mem_Exit
  imports Mem_Fork
begin

text \<open>
  Freeing an address space (\<open>free_directory\<close> of \<open>mem.c\<close>, what is left of a task when it exits): the pages and
  tables that \<open>clone_directory\<close> copied go back to the free frames, the shared ones stay.
\<close>

section \<open>Freeing a table\<close>

lemma free_pte_step:
  assumes ok: "mem_ok m gs" and T: "fr e = T" "T \<notin> tables m" and j: "j < 1024"
    and g: "g = fr (pm m T j)" and free: "present (pm m T j) \<Longrightarrow> g \<noteq> 0 \<and> g \<notin> set gs \<and> g \<notin> tables m"
  shows "free_pte e j m = Inr (if present (pm m T j) then gave (pm m T j AND 0xFFFFF000) m else m)"
    and "present (pm m T j) \<Longrightarrow> mem_ok (gave (pm m T j AND 0xFFFFF000) m) (g # gs)"
proof -
  note p = mem_okD(1) [OF ok]
  have fT: "fr (e AND 0xFFFFF000) = T" using frame_addr [of e] T(1) by (simp add: fr_def)
  have ld: "vload (RESV_PAGE + 4 * of_nat j) (win (e AND 0xFFFFF000) m) = Inr (pm m T j)"
    using win_load [OF p j, of "e AND 0xFFFFF000"] fT T(2) by simp
  have u: "unat (pm m T j AND 0xFFFFF000) = 4096 * g" by (simp add: frame_addr g)
  have G: "frame_free (pm m T j AND 0xFFFFF000) m = Inr (gave (pm m T j AND 0xFFFFF000) m)"
    "mem_ok (gave (pm m T j AND 0xFFFFF000) m) (g # gs)" if "present (pm m T j)"
    using gave_ok [OF ok u] free [OF that] by auto
  show "free_pte e j m = Inr (if present (pm m T j) then gave (pm m T j AND 0xFFFFF000) m else m)"
    using G(1) by (simp add: free_pte_def temp_map_win [OF p] ld temp_unmap_win [OF p])
  show "mem_ok (gave (pm m T j AND 0xFFFFF000) m) (g # gs)" if "present (pm m T j)" by (rule G(2) [OF that])
qed

lemma gave_fields:
  "cr3 (gave a m) = cr3 m" "x \<noteq> fr a \<Longrightarrow> pm (gave a m) x = pm m x"
  by (simp_all add: gave_def)

text \<open>What a loop has freed: the frames \<open>D\<close>, and nothing else has changed.\<close>

definition freed :: "memory \<Rightarrow> nat list \<Rightarrow> nat set \<Rightarrow> memory \<Rightarrow> nat list \<Rightarrow> bool" where
  "freed m gs D m' hs \<longleftrightarrow> mem_ok m' hs \<and> cr3 m' = cr3 m \<and> set hs = set gs \<union> D \<and> (\<forall>g. g \<notin> D \<longrightarrow> pm m' g = pm m g)"

lemma freed_tables:
  assumes "freed m gs D m' hs" and "mem_ok m gs" and "D \<inter> tables m = {}"
  shows "tables m' = tables m" and "pde m' = pde m" and "ptab m' = ptab m"
  using same_tables [OF mem_okD(1) [OF assms(2)], of m'] assms by (auto simp: freed_def)

lemma freed_trans: "freed m gs D m1 hs \<Longrightarrow> freed m1 hs E m2 is \<Longrightarrow> freed m gs (D \<union> E) m2 is"
  by (auto simp: freed_def)

lemma freed_gave:
  assumes "mem_ok m gs" and "unat a = 4096 * g" and "g \<noteq> 0" and "g \<notin> set gs" and "g \<notin> tables m"
  shows "frame_free a m = Inr (gave a m)" and "freed m gs {g} (gave a m) (g # gs)"
proof -
  have "fr a = g" using assms(2) by (simp add: fr_def)
  then show "freed m gs {g} (gave a m) (g # gs)" using gave_ok(2) [OF assms] by (auto simp: freed_def gave_fields)
  show "frame_free a m = Inr (gave a m)" by (rule gave_ok(1) [OF assms])
qed

lemma free_table:
  assumes ok: "mem_ok m gs" and T: "fr e = T" "T \<notin> tables m"
    and D: "\<And>j. j < 1024 \<Longrightarrow> present (pm m T j) \<Longrightarrow> fr (pm m T j) \<noteq> 0 \<and> fr (pm m T j) \<notin> insert T (set gs \<union> tables m)"
    and inj: "inj_on (\<lambda>j. fr (pm m T j)) {j. j < 1024 \<and> present (pm m T j)}"
  shows "\<exists>m' hs. for_idx (free_pte e) [0..<1024] m = Inr m' \<and>
    freed m gs ((\<lambda>j. fr (pm m T j)) ` {j. j < 1024 \<and> present (pm m T j)}) m' hs"
proof -
  let ?D = "\<lambda>i. (\<lambda>j. fr (pm m T j)) ` {j. j < i \<and> present (pm m T j)}"
  have "\<exists>m'. for_idx (free_pte e) [0..<1024] m = Inr m' \<and> (\<exists>hs. freed m gs (?D 1024) m' hs)"
  proof (rule for_idx_rule [where I = "\<lambda>i m'. \<exists>hs. freed m gs (?D i) m' hs"])
    show "\<exists>hs. freed m gs (?D 0) m hs" using ok by (auto simp: freed_def)
  next
    fix i m1
    assume i: "i < 1024" and "\<exists>hs. freed m gs (?D i) m1 hs"
    then obtain hs where F: "freed m gs (?D i) m1 hs" by blast
    have away: "fr (pm m T j) \<notin> insert T (set gs \<union> tables m)" if "j < i" "present (pm m T j)" for j using D [of j] that i by simp
    then have out: "?D i \<inter> tables m = {}" by auto
    have outT: "T \<notin> ?D i"
    proof
      assume "T \<in> ?D i"
      then obtain j where "T = fr (pm m T j)" "j < i" "present (pm m T j)" by blast
      with away [of j] show False by simp
    qed
    note tb = freed_tables [OF F ok out]
    have ok1: "mem_ok m1 hs" and T1: "pm m1 T = pm m T" using F outT by (auto simp: freed_def)
    have new: "fr (pm m T i) \<notin> ?D i" if "present (pm m T i)"
      using inj_onD [OF inj, of i] that i by fastforce
    have free: "fr (pm m1 T i) \<noteq> 0 \<and> fr (pm m1 T i) \<notin> set hs \<and> fr (pm m1 T i) \<notin> tables m1" if "present (pm m1 T i)"
      using D [OF i] that T1 F new tb(1) by (auto simp: freed_def)
    have T': "T \<notin> tables m1" using T(2) tb(1) by simp
    note S = free_pte_step [OF ok1 T(1) T' i refl free]
    show "\<exists>m'. free_pte e i m1 = Inr m' \<and> (\<exists>hs. freed m gs (?D (Suc i)) m' hs)"
    proof (cases "present (pm m T i)")
      case False
      then have "{j. j < Suc i \<and> present (pm m T j)} = {j. j < i \<and> present (pm m T j)}" by (auto simp: less_Suc_eq)
      then have "?D (Suc i) = ?D i" by (simp only:)
      with S(1) T1 False F show ?thesis by auto
    next
      case True
      define a where "a = pm m T i AND 0xFFFFF000"
      have fa: "fr a = fr (pm m T i)" using frame_addr [of "pm m T i"] by (simp add: fr_def a_def)
      have "{j. j < Suc i \<and> present (pm m T j)} = insert i {j. j < i \<and> present (pm m T j)}" using True by (auto simp: less_Suc_eq)
      then have Ds: "?D (Suc i) = ?D i \<union> {fr (pm m T i)}" by simp
      have "mem_ok (gave a m1) (fr (pm m T i) # hs)" using S(2) True T1 by (simp add: a_def)
      then have "freed m1 hs {fr (pm m T i)} (gave a m1) (fr (pm m T i) # hs)" using fa by (auto simp: freed_def gave_fields)
      from freed_trans [OF F this] have "freed m gs (?D (Suc i)) (gave a m1) (fr (pm m T i) # hs)" by (simp only: Ds)
      moreover have "free_pte e i m1 = Inr (gave a m1)" using S(1) True T1 by (simp add: a_def)
      ultimately show ?thesis by blast
    qed
  qed
  then show ?thesis by blast
qed

section \<open>Freeing a directory\<close>

text \<open>
  The frames of an entry of the directory in frame \<open>N\<close>: its table and the pages in it. A directory can be freed when the frames of its private
  entries are separate from each other, from the current tables and from the free frames.
\<close>

definition table_frames :: "(nat \<Rightarrow> nat \<Rightarrow> u32) \<Rightarrow> nat \<Rightarrow> nat set" where
  "table_frames p T = (\<lambda>j. fr (p T j)) ` {j. j < 1024 \<and> present (p T j)}"

definition entry_frames :: "(nat \<Rightarrow> nat \<Rightarrow> u32) \<Rightarrow> nat \<Rightarrow> nat \<Rightarrow> nat set" where
  "entry_frames p N x = (if present (p N x) \<and> \<not> shared_idx x then insert (fr (p N x)) (table_frames p (fr (p N x))) else {})"

definition space_ok :: "memory \<Rightarrow> nat list \<Rightarrow> nat \<Rightarrow> bool" where
  "space_ok m gs N \<longleftrightarrow> N \<noteq> 0 \<and> N < 1048576 \<and> N \<notin> set gs \<union> tables m \<and>
     (\<forall>x<1023. entry_frames (pm m) N x \<inter> ({0, N} \<union> set gs \<union> tables m) = {} \<and>
       (present (pm m N x) \<and> \<not> shared_idx x \<longrightarrow> fr (pm m N x) \<notin> table_frames (pm m) (fr (pm m N x)) \<and>
          inj_on (\<lambda>j. fr (pm m (fr (pm m N x)) j)) {j. j < 1024 \<and> present (pm m (fr (pm m N x)) j)}) \<and>
       (\<forall>y<1023. x \<noteq> y \<longrightarrow> entry_frames (pm m) N x \<inter> entry_frames (pm m) N y = {}))"

lemma free_entry_ok:
  assumes ok: "mem_ok m gs" and N: "unat a = 4096 * N" "N \<notin> tables m" and x: "x < 1023" "\<not> shared_idx x" and T: "T = fr (pm m N x)"
    and sep: "entry_frames (pm m) N x \<inter> ({0, N} \<union> set gs \<union> tables m) = {}"
    and own: "present (pm m N x) \<Longrightarrow> T \<notin> table_frames (pm m) T \<and> inj_on (\<lambda>j. fr (pm m T j)) {j. j < 1024 \<and> present (pm m T j)}"
  shows "\<exists>m' hs. free_pde a x m = Inr m' \<and> freed m gs (entry_frames (pm m) N x) m' hs"
proof -
  note p = mem_okD(1) [OF ok]
  have fN: "fr a = N" using N(1) by (simp add: fr_def)
  define e where "e = pm m N x"
  have ld: "vload (RESV_PAGE + 4 * of_nat x) (win a m) = Inr e"
    using win_load [OF p, of x a] fN N(2) x(1) by (simp add: e_def)
  show ?thesis
  proof (cases "present e")
    case False
    then have "free_pde a x m = Inr m" by (simp add: free_pde_def temp_map_win [OF p] ld temp_unmap_win [OF p])
    moreover have "entry_frames (pm m) N x = {}" using False by (simp add: entry_frames_def e_def)
    ultimately show ?thesis using ok by (auto simp: freed_def)
  next
    case True
    have ef: "entry_frames (pm m) N x = insert T (table_frames (pm m) T)" using True x(2) by (simp add: entry_frames_def e_def T)
    have Tn: "T \<noteq> 0" "T \<notin> set gs" "T \<notin> tables m" "fr e = T" using sep unfolding ef by (auto simp: e_def T)
    have D: "fr (pm m T j) \<noteq> 0 \<and> fr (pm m T j) \<notin> insert T (set gs \<union> tables m)" if "j < 1024" "present (pm m T j)" for j
    proof -
      have "fr (pm m T j) \<in> table_frames (pm m) T" using that by (auto simp: table_frames_def)
      then show ?thesis using sep own True unfolding ef e_def by auto
    qed
    from free_table [OF ok Tn(4,3) D] own True obtain m1 hs where
      r: "for_idx (free_pte e) [0..<1024] m = Inr m1" "freed m gs (table_frames (pm m) T) m1 hs" by (auto simp: table_frames_def e_def)
    have tb: "tables m1 = tables m" by (rule freed_tables [OF r(2) ok]) (use sep ef in auto)
    have ok1: "mem_ok m1 hs" "T \<notin> set hs" using r(2) Tn own True by (auto simp: freed_def e_def)
    have u: "unat (e AND 0xFFFFF000) = 4096 * T" by (simp add: frame_addr Tn(4))
    note g = freed_gave [OF ok1(1) u Tn(1) ok1(2)]
    have "free_pde a x m = Inr (gave (e AND 0xFFFFF000) m1)"
      using True r(1) g(1) Tn(3) tb by (simp add: free_pde_def temp_map_win [OF p] ld temp_unmap_win [OF p])
    moreover have "freed m gs (entry_frames (pm m) N x) (gave (e AND 0xFFFFF000) m1) (T # hs)"
      using freed_trans [OF r(2) g(2)] Tn(3) tb unfolding ef by (simp add: Un_commute)
    ultimately show ?thesis by blast
  qed
qed

lemma entry_frames_cong:
  assumes "p' N = p N" and "\<And>T. T = fr (p N x) \<Longrightarrow> present (p N x) \<Longrightarrow> \<not> shared_idx x \<Longrightarrow> p' T = p T"
  shows "entry_frames p' N x = entry_frames p N x"
  using assms by (auto simp: entry_frames_def table_frames_def)

lemma current_dir:
  assumes "paging m"
  shows "virt_to_phys PDIR_ADDR m = Inr (of_nat (4096 * fr (cr3 m)))"
proof -
  have ix: "dir_idx PDIR_ADDR = 1023" "tbl_idx PDIR_ADDR = 1023" by (simp_all add: dir_idx_def tbl_idx_def PDIR_ADDR_def)
  have e: "pte m PDIR_ADDR = pde m 1023" using assms by (auto simp: pte_def ix paging_def pde_def)
  have "present (pte m PDIR_ADDR)" using assms paging_present [OF assms, of 1023] by (simp add: e paging_def)
  moreover have "pde m 1023 AND 0xFFFFF000 = of_nat (4096 * fr (cr3 m))"
  proof -
    have "pde m 1023 AND 0xFFFFF000 = of_nat (4096 * fr (pde m 1023))" unfolding frame_addr [symmetric] by simp
    moreover have "fr (pde m 1023) = fr (cr3 m)" using assms by (simp add: paging_def ptab_def)
    ultimately show ?thesis by (simp only:)
  qed
  ultimately show ?thesis using virt_to_phys_pte [OF assms] e by (simp add: PDIR_ADDR_def)
qed

lemma free_directory_ok:
  assumes ok: "mem_ok m gs" and sp: "space_ok m gs N"
  shows "\<exists>m' hs. free_directory (of_nat (4096 * N)) m = Inr m' \<and> freed m gs (insert N (\<Union>x<1023. entry_frames (pm m) N x)) m' hs"
proof -
  let ?a = "of_nat (4096 * N) :: u32" and ?F = "\<lambda>i. \<Union>x<i. entry_frames (pm m) N x"
  let ?step = "\<lambda>x m. if shared_idx x then Inr m else free_pde ?a x m"
  have N: "N \<noteq> 0" "N < 1048576" "N \<notin> set gs" "N \<notin> tables m" using sp by (auto simp: space_ok_def)
  have u: "unat ?a = 4096 * N" using N(2) by (intro unat_of_nat_u32) simp
  have S: "entry_frames (pm m) N x \<inter> ({0, N} \<union> set gs \<union> tables m) = {}"
    "present (pm m N x) \<Longrightarrow> \<not> shared_idx x \<Longrightarrow> fr (pm m N x) \<notin> table_frames (pm m) (fr (pm m N x)) \<and>
       inj_on (\<lambda>j. fr (pm m (fr (pm m N x)) j)) {j. j < 1024 \<and> present (pm m (fr (pm m N x)) j)}"
    "\<And>y. y < 1023 \<Longrightarrow> x \<noteq> y \<Longrightarrow> entry_frames (pm m) N x \<inter> entry_frames (pm m) N y = {}" if "x < 1023" for x
    using sp that by (simp_all add: space_ok_def)
  have "\<exists>m'. for_idx ?step [0..<1023] m = Inr m' \<and> (\<exists>hs. freed m gs (?F 1023) m' hs)"
  proof (rule for_idx_rule [where I = "\<lambda>i m'. \<exists>hs. freed m gs (?F i) m' hs"])
    show "\<exists>hs. freed m gs (?F 0) m hs" using ok by (auto simp: freed_def)
  next
    fix i m1
    assume i: "i < 1023" and "\<exists>hs. freed m gs (?F i) m1 hs"
    then obtain hs where F: "freed m gs (?F i) m1 hs" by blast
    have x: "entry_frames (pm m) N x \<inter> ({0, N} \<union> set gs \<union> tables m) = {}" "entry_frames (pm m) N x \<inter> entry_frames (pm m) N i = {}" if "x < i" for x
      using S(1) [of x] S(3) [of x i] that i by auto
    have out: "?F i \<inter> ({0, N} \<union> set gs \<union> tables m) = {}" "?F i \<inter> entry_frames (pm m) N i = {}" using x by blast+
    have ok1: "mem_ok m1 hs" and same: "\<And>g. g \<notin> ?F i \<Longrightarrow> pm m1 g = pm m g" and hs: "set hs = set gs \<union> ?F i" using F by (auto simp: freed_def)
    have tb: "tables m1 = tables m" by (rule freed_tables [OF F ok]) (use out in auto)
    have N1: "pm m1 N = pm m N" using same [of N] out(1) by auto
    have T1: "pm m1 T = pm m T" if "T = fr (pm m N i)" "present (pm m N i)" "\<not> shared_idx i" for T
      by (rule same) (use out(2) that in \<open>auto simp: entry_frames_def\<close>)
    have ef: "entry_frames (pm m1) N i = entry_frames (pm m) N i" by (rule entry_frames_cong) (use N1 T1 in auto)
    show "\<exists>m'. ?step i m1 = Inr m' \<and> (\<exists>hs. freed m gs (?F (Suc i)) m' hs)"
    proof (cases "shared_idx i")
      case True
      then have "?F (Suc i) = ?F i" by (auto simp: lessThan_Suc entry_frames_def)
      with True F show ?thesis by auto
    next
      case False
      have sep: "entry_frames (pm m1) N i \<inter> ({0, N} \<union> set hs \<union> tables m1) = {}" unfolding ef hs tb using S(1) [OF i] out(2) by auto
      have own: "fr (pm m1 N i) \<notin> table_frames (pm m1) (fr (pm m1 N i)) \<and> inj_on (\<lambda>j. fr (pm m1 (fr (pm m1 N i)) j)) {j. j < 1024 \<and> present (pm m1 (fr (pm m1 N i)) j)}"
        if "present (pm m1 N i)" using S(2) [OF i _ False] T1 [OF refl _ False] that unfolding N1 table_frames_def by simp
      from free_entry_ok [OF ok1 u _ i False refl sep own] N(4) tb obtain m2 ks where
        r: "free_pde ?a i m1 = Inr m2" "freed m1 hs (entry_frames (pm m) N i) m2 ks" unfolding ef by auto
      have "?F (Suc i) = ?F i \<union> entry_frames (pm m) N i" by (auto simp: lessThan_Suc)
      then have "freed m gs (?F (Suc i)) m2 ks" using freed_trans [OF F r(2)] by (simp only:)
      with r(1) False show ?thesis by auto
    qed
  qed
  then obtain m1 hs where r: "for_idx ?step [0..<1023] m = Inr m1" "freed m gs (?F 1023) m1 hs" by blast
  have out: "?F 1023 \<inter> ({0, N} \<union> set gs \<union> tables m) = {}" using S(1) by blast
  have tb: "tables m1 = tables m" by (rule freed_tables [OF r(2) ok]) (use out in auto)
  have ok1: "mem_ok m1 hs" "N \<notin> set hs" using r(2) out N(3) by (auto simp: freed_def)
  note g = freed_gave [OF ok1(1) u N(1) ok1(2)]
  have "fr (cr3 m) \<noteq> N" using dir_in_tables [OF mem_okD(1) [OF ok]] N(4) by auto
  then have "of_nat (4096 * fr (cr3 m)) \<noteq> ?a"
  proof -
    have "unat (of_nat (4096 * fr (cr3 m)) :: u32) = 4096 * fr (cr3 m)" by (intro unat_of_nat_u32) (use idx_less(4) [of "cr3 m"] in linarith)
    with \<open>fr (cr3 m) \<noteq> N\<close> u show ?thesis by force
  qed
  then have "free_directory ?a m = Inr (gave ?a m1)"
    unfolding free_directory_def current_dir [OF mem_okD(1) [OF ok]] bnd_Inr using r(1) g(1) N(4) tb by (simp add: kassert_def del: of_nat_mult)
  moreover have "freed m gs (insert N (?F 1023)) (gave ?a m1) (N # hs)"
    using freed_trans [OF r(2) g(2)] N(4) tb by (simp add: Un_commute)
  ultimately show ?thesis by blast
qed

section \<open>Fork and exit\<close>

lemma table_copy_frames:
  assumes "table_copy m0 d T p V 1024"
  shows "table_frames p T = V" and "inj_on (\<lambda>j. fr (p T j)) {j. j < 1024 \<and> present (p T j)}"
proof -
  have "{j. j < 1024 \<and> present (p T j)} = {j. j < 1024 \<and> present (pm m0 (ptab m0 d) j)}"
    using assms unfolding table_copy_def by (auto split: if_splits)
  then show "table_frames p T = V" "inj_on (\<lambda>j. fr (p T j)) {j. j < 1024 \<and> present (p T j)}"
    using assms unfolding table_copy_def table_frames_def by simp_all
qed

lemma dir_copy_frames:
  assumes "dir_copy m0 N x p U" and "pde m0 x = 0 \<or> present (pde m0 x)"
  shows "entry_frames p N x = U"
    and "present (p N x) \<Longrightarrow> \<not> shared_idx x \<Longrightarrow> fr (p N x) \<notin> table_frames p (fr (p N x)) \<and>
       inj_on (\<lambda>j. fr (p (fr (p N x)) j)) {j. j < 1024 \<and> present (p (fr (p N x)) j)}"
proof -
  show "entry_frames p N x = U"
  proof (cases "pde m0 x = 0 \<or> shared_idx x")
    case True
    then show ?thesis using assms(1) by (auto simp: dir_copy_def entry_frames_def)
  next
    case False
    then obtain V where "present (p N x)" "U = insert (fr (p N x)) V" "table_copy m0 x (fr (p N x)) p V 1024"
      using assms(1) unfolding dir_copy_def by auto
    then show ?thesis using False table_copy_frames(1) by (simp add: entry_frames_def)
  qed
  assume "present (p N x)" "\<not> shared_idx x"
  then have "pde m0 x \<noteq> 0" using assms(1) by (auto simp: dir_copy_def)
  then obtain V where "fr (p N x) \<notin> V" "table_copy m0 x (fr (p N x)) p V 1024"
    using assms(1) \<open>\<not> shared_idx x\<close> unfolding dir_copy_def by auto
  then show "fr (p N x) \<notin> table_frames p (fr (p N x)) \<and> inj_on (\<lambda>j. fr (p (fr (p N x)) j)) {j. j < 1024 \<and> present (p (fr (p N x)) j)}"
    using table_copy_frames by auto
qed

text \<open>
  C40. What a fork takes, the exit gives back (\<open>clone_directory\<close>, \<open>free_directory\<close> of \<open>mem.c\<close>): freeing the directory that \<open>clone_directory\<close>
  has made returns, and afterwards the free frames are exactly those of before the fork, no page of the parent translates
  differently, and no frame that was in use has changed.
\<close>

theorem fork_then_exit:
  assumes "mem_ok m (N # fs)" and "owned m (N # fs)" and "(\<Sum>x<1023. frames_needed m x) \<le> length fs"
  shows "\<exists>dir m' m'' hs. clone_directory m = Inr (dir, m') \<and> free_directory dir m' = Inr m'' \<and> mem_ok m'' hs \<and> set hs = set (N # fs) \<and>
    (\<forall>a. translate a m'' = translate a m) \<and> (\<forall>g. g \<notin> set (N # fs) \<longrightarrow> pm m'' g = pm m g)"
proof -
  obtain m1 U gs where O: "outer (ctook m) fs N U 1023 m1 gs"
    and run: "clone_directory m = Inr (of_nat (4096 * N), m1\<lparr>pm := pupd (pm m1) N 1023 (of_nat (4096 * N) OR RW)\<rparr>)"
    using clone_directory_runs [OF assms] by blast
  define m' where "m' = m1\<lparr>pm := pupd (pm m1) N 1023 (of_nat (4096 * N) OR RW)\<rparr>"
  note r = outer_child [OF assms(1,2) O m'_def] and c = mem_ok_Cons [OF assms(1)]
  note p = mem_okD(1) [OF assms(1)] and D = childD [OF r(1)]
  have U: "set fs = (\<Union>x<1023. U x) \<union> set gs" "(\<Union>x<1023. U x) \<inter> set gs = {}" using O by (auto simp: outer_def)
  have ft: "pm m' g = pm m g" if "g \<in> tables m" for g by (rule r(4)) (use that mem_okD(4) [OF assms(1)] in auto)
  have tb: "tables m' = tables m" by (rule same_tables(3) [OF p r(5) ft])
  have dc: "dir_copy m N x (pm m') (U x)" if "x < 1023" for x using r(1) that by (simp add: child_def)
  have pr: "pde m x = 0 \<or> present (pde m x)" if "x < 1023" for x using p that by (auto simp: paging_def)
  have ef: "entry_frames (pm m') N x = U x" if "x < 1023" for x by (rule dir_copy_frames(1) [OF dc pr]) (use that in auto)
  have "N \<noteq> 0 \<and> N < 1048576" using c(1,3) idx_less(4) [of "last_free_page m"] unfolding c(2) by (cases "N = 0") auto
  moreover have z: "0 \<notin> set fs" using flist_nonzero [OF c(6)] by auto
  have Ux: "U x \<inter> ({0, N} \<union> set gs \<union> tables m) = {}" if "x < 1023" for x
  proof -
    have "U x \<subseteq> set fs" "U x \<inter> set gs = {}" using U that by auto
    then show ?thesis using z c(5,8) by auto
  qed
  have "\<forall>x<1023. entry_frames (pm m') N x \<inter> ({0, N} \<union> set gs \<union> tables m') = {} \<and>
       (present (pm m' N x) \<and> \<not> shared_idx x \<longrightarrow> fr (pm m' N x) \<notin> table_frames (pm m') (fr (pm m' N x)) \<and>
          inj_on (\<lambda>j. fr (pm m' (fr (pm m' N x)) j)) {j. j < 1024 \<and> present (pm m' (fr (pm m' N x)) j)}) \<and>
       (\<forall>y<1023. x \<noteq> y \<longrightarrow> entry_frames (pm m') N x \<inter> entry_frames (pm m') N y = {})"
    unfolding tb using ef Ux D(11) dir_copy_frames(2) [OF dc pr] by simp
  moreover have "N \<notin> set gs \<union> tables m'" unfolding tb using r(3) c(4,5) by auto
  ultimately have "space_ok m' gs N" by (simp add: space_ok_def)
  from free_directory_ok [OF r(2) this] obtain m'' hs where
    f: "free_directory (of_nat (4096 * N)) m' = Inr m''" "freed m' gs (insert N (\<Union>x<1023. entry_frames (pm m') N x)) m'' hs" by blast
  have all: "(\<Union>x<1023. entry_frames (pm m') N x) = (\<Union>x<1023. U x)" using ef by auto
  have hs: "mem_ok m'' hs" "set hs = set (N # fs)" "cr3 m'' = cr3 m" using f(2) U r(5) unfolding freed_def all by auto
  have same: "pm m'' g = pm m g" if "g \<notin> set (N # fs)" for g
    using f(2) U r(4) [OF that] that unfolding freed_def all by auto
  have ft2: "pm m'' g = pm m g" if "g \<in> tables m" for g by (rule same) (use that mem_okD(4) [OF assms(1)] in auto)
  have "pte m'' = pte m" using same_tables [OF p hs(3) ft2] ft2 by (auto simp: fun_eq_iff pte_def tables_def)
  then have "translate a m'' = translate a m" for a by (simp add: translate_pte [OF p] translate_pte [OF mem_okD(1) [OF hs(1)]])
  then show ?thesis using run f(1) hs(1,2) same unfolding m'_def by blast
qed

lemma fork_then_exit_witness:
  "\<exists>dir m' m'' hs. clone_directory sample_mem = Inr (dir, m') \<and> free_directory dir m' = Inr m'' \<and> mem_ok m'' hs \<and>
     set hs = {5, 6, 7, 8, 9, 10, 11, 12, 13, 14, 15, 16}"
proof -
  have "(\<Sum>x<1023. frames_needed sample_mem x) \<le> length [6, 7, 8, 9, 10, 11, 12, 13, 14, 15, 16::nat]" by (simp add: sample_frames_needed)
  from fork_then_exit [OF sample_ok sample_owned this] show ?thesis by (elim exE conjE) (intro exI conjI, assumption+, simp)
qed

end
