(* ===== verification/File_Tree.thy ===== *)
theory File_Tree
  imports Cofs
begin

text \<open>
  The tree of blocks of a COFS file, as \<open>cofs.c\<close> and \<open>util/mkcofs.c\<close> build it: the nine addresses of the
  inode, one index block for the blocks from the seventh on, and one index block of index
  blocks. A slot is a place where a block of the file can hang; \<open>tree_ok v a S\<close> says that with the
  addresses \<open>a\<close> and the disk \<open>v\<close> exactly the slots \<open>S\<close> are filled, with different blocks. Filling a
  free slot with a fresh block of zeros is the one step with which both programs grow a file;
  here it is proved once that this keeps the tree.
\<close>

section \<open>Slots\<close>

datatype slot = Dat nat | Sind | Dind | Mid nat

datatype place = Addr nat | Entry slot nat

definition MAX_BLOCKS :: nat where
  "MAX_BLOCKS = NUM_DIRECT + NUM_SIND + NUM_DIND"

fun place_of :: "slot \<Rightarrow> place" where
  "place_of Sind = Addr SIND_IDX"
| "place_of Dind = Addr DIND_IDX"
| "place_of (Mid m) = Entry Dind m"
| "place_of (Dat f) =
     (if f < NUM_DIRECT then Addr f
      else if f < NUM_DIRECT + NUM_SIND then Entry Sind (f - NUM_DIRECT)
      else Entry (Mid (mid_idx f)) (sub_idx f))"

fun in_tree :: "slot \<Rightarrow> bool" where
  "in_tree (Dat f) = (f < MAX_BLOCKS)"
| "in_tree (Mid m) = (m < NUM_SIND)"
| "in_tree s = True"

fun slot_blk :: "(u32 \<Rightarrow> u8 list) \<Rightarrow> u32 list \<Rightarrow> slot \<Rightarrow> u32" where
  "slot_blk v a Sind = a ! SIND_IDX"
| "slot_blk v a Dind = a ! DIND_IDX"
| "slot_blk v a (Mid m) = ind_entry v (a ! DIND_IDX) m"
| "slot_blk v a (Dat f) = file_addr v a f"

fun slot_rank :: "slot \<Rightarrow> nat" where
  "slot_rank (Dat f) = 2"
| "slot_rank (Mid m) = 1"
| "slot_rank s = 0"

definition attached :: "slot set \<Rightarrow> slot \<Rightarrow> bool" where
  "attached S s \<longleftrightarrow> (case place_of s of Addr i \<Rightarrow> True | Entry p k \<Rightarrow> p \<in> S)"

definition zero_blk :: "u8 list" where
  "zero_blk = replicate BLOCK_SIZE 0"

definition tree_ok :: "(u32 \<Rightarrow> u8 list) \<Rightarrow> u32 list \<Rightarrow> slot set \<Rightarrow> bool" where
  "tree_ok v a S \<longleftrightarrow> length a = 9 \<and> (\<forall>s\<in>S. in_tree s \<and> attached S s) \<and>
     (\<forall>s. in_tree s \<and> attached S s \<longrightarrow> (slot_blk v a s \<noteq> 0 \<longleftrightarrow> s \<in> S)) \<and>
     inj_on (slot_blk v a) S \<and> (\<forall>s\<in>S. length (v (slot_blk v a s)) = BLOCK_SIZE)"

lemma tree_okD:
  assumes "tree_ok v a S"
  shows "length a = 9" "s \<in> S \<Longrightarrow> in_tree s" "s \<in> S \<Longrightarrow> attached S s" "s \<in> S \<Longrightarrow> slot_blk v a s \<noteq> 0"
    "in_tree s \<Longrightarrow> attached S s \<Longrightarrow> slot_blk v a s \<noteq> 0 \<longleftrightarrow> s \<in> S"
    "s \<in> S \<Longrightarrow> t \<in> S \<Longrightarrow> slot_blk v a s = slot_blk v a t \<longleftrightarrow> s = t"
    "s \<in> S \<Longrightarrow> length (v (slot_blk v a s)) = BLOCK_SIZE"
  using assms unfolding tree_ok_def by (blast dest: inj_onD)+

lemma attached_mono: "attached S s \<Longrightarrow> S \<subseteq> T \<Longrightarrow> attached T s"
  by (auto simp: attached_def split: place.splits)

lemma slot_blk_place:
  "slot_blk v a s = (case place_of s of Addr i \<Rightarrow> a ! i | Entry p k \<Rightarrow> ind_entry v (slot_blk v a p) k)"
  by (cases s) (simp_all add: file_addr_def)

lemma idx_bounds: "f < MAX_BLOCKS \<Longrightarrow> mid_idx f < NUM_SIND" "sub_idx f < NUM_SIND"
  by (simp_all add: mid_idx_def sub_idx_def MAX_BLOCKS_def idx_defs less_mult_imp_div_less)

lemma place_bounds:
  assumes "in_tree s"
  shows "place_of s = Addr i \<Longrightarrow> i < 8" "place_of s = Entry p k \<Longrightarrow> k < NUM_SIND \<and> in_tree p \<and> slot_rank p < slot_rank s"
  using assms idx_bounds by (cases s; auto simp: idx_defs split: if_splits)+

lemma place_inj:
  assumes "in_tree s" "in_tree t" "place_of s = place_of t"
  shows "s = t"
proof -
  have "f = g" if "mid_idx f = mid_idx g" "sub_idx f = sub_idx g" "\<not> f < NUM_DIRECT + NUM_SIND" "\<not> g < NUM_DIRECT + NUM_SIND" for f g
  proof -
    have "f - NUM_DIRECT - NUM_SIND = g - NUM_DIRECT - NUM_SIND"
      using that(1,2) unfolding mid_idx_def sub_idx_def by (metis div_mult_mod_eq)
    with that(3,4) show ?thesis by simp
  qed
  with assms show ?thesis by (cases s; cases t) (auto simp: idx_defs split: if_splits)
qed

section \<open>Filling a slot\<close>

text \<open>
  \<open>grafted\<close>: the pointer of the slot is set, in the inode or in the index block that holds it, the
  new block is all zeros, and no other block of the tree has changed.
\<close>

definition grafted :: "slot set \<Rightarrow> slot \<Rightarrow> u32 \<Rightarrow> (u32 \<Rightarrow> u8 list) \<Rightarrow> u32 list \<Rightarrow> (u32 \<Rightarrow> u8 list) \<Rightarrow> u32 list \<Rightarrow> bool" where
  "grafted S s b v a v' a' \<longleftrightarrow> v' b = zero_blk \<and>
     (case place_of s of
        Addr i \<Rightarrow> a' = a[i := b] \<and> (\<forall>t\<in>S. v' (slot_blk v a t) = v (slot_blk v a t))
      | Entry p k \<Rightarrow> a' = a \<and> v' (slot_blk v a p) = wr32 (v (slot_blk v a p)) (4 * k) b \<and>
          (\<forall>t\<in>S. t \<noteq> p \<longrightarrow> v' (slot_blk v a t) = v (slot_blk v a t)))"

lemma entry_wr32:
  "length d = 512 \<Longrightarrow> k < 128 \<Longrightarrow> j < 128 \<Longrightarrow> rd32 (wr32 d (4 * j) b) (4 * k) = (if k = j then b else rd32 d (4 * k))"
  by (auto intro!: rd32_wr32_same rd32_wr32_other)

lemma graft_blk:
  assumes t: "tree_ok v a S" and s: "in_tree s" "s \<notin> S" and b: "b \<notin> slot_blk v a ` S" and g: "grafted S s b v a v' a'"
    and "in_tree u" "attached S u"
  shows "slot_blk v' a' u = (if u = s then b else slot_blk v a u)"
  using assms(6,7)
proof (induction u rule: measure_induct_rule [of slot_rank])
  case (less u)
  show ?case
  proof (cases "place_of u")
    case (Addr i)
    then have i: "i < 8" using place_bounds(1) [OF less.prems(1)] by blast
    have "u = s \<longleftrightarrow> place_of u = place_of s" using place_inj [OF less.prems(1) s(1)] by blast
    with Addr i g tree_okD(1) [OF t] show ?thesis
      by (auto simp: slot_blk_place [of _ _ u] grafted_def split: place.splits)
  next
    case (Entry p k)
    have p: "p \<in> S" using less.prems(2) Entry by (simp add: attached_def)
    note pb = place_bounds(2) [OF less.prems(1) Entry]
    have "slot_blk v' a' p = slot_blk v a p"
      using less.IH [of p] pb tree_okD(2,3) [OF t p] p s(2) by auto
    moreover have "v' (slot_blk v a p) = (case place_of s of Addr i \<Rightarrow> v (slot_blk v a p)
        | Entry p' k' \<Rightarrow> if p' = p then wr32 (v (slot_blk v a p)) (4 * k') b else v (slot_blk v a p))"
      using g p by (auto simp: grafted_def split: place.splits)
    moreover have "length (v (slot_blk v a p)) = 512" using tree_okD(7) [OF t p] by (simp add: BLOCK_SIZE_def)
    moreover have "k' < NUM_SIND" if "place_of s = Entry p k'" for k' using place_bounds(2) [OF s(1) that] by blast
    moreover have "u = s \<longleftrightarrow> place_of u = place_of s" using place_inj [OF less.prems(1) s(1)] by blast
    ultimately show ?thesis
      using pb Entry by (cases "place_of s") (auto simp: slot_blk_place [of _ _ u] ind_entry_def entry_wr32 idx_defs)
  qed
qed

lemma ind_entry_zero: "k < NUM_SIND \<Longrightarrow> v b = zero_blk \<Longrightarrow> ind_entry v b k = 0"
  by (simp add: ind_entry_def zero_blk_def rd32_def BLOCK_SIZE_def idx_defs)

lemma graft:
  assumes t: "tree_ok v a S" and s: "in_tree s" "attached S s" "s \<notin> S" and b: "b \<noteq> 0" "b \<notin> slot_blk v a ` S"
    and g: "grafted S s b v a v' a'"
  shows "tree_ok v' a' (insert s S)" "slot_blk v' a' s = b" "\<forall>t\<in>S. slot_blk v' a' t = slot_blk v a t"
proof -
  note blk = graft_blk [OF t s(1,3) b(2) g]
  show sb: "slot_blk v' a' s = b" using blk [OF s(1,2)] by simp
  show old: "\<forall>t\<in>S. slot_blk v' a' t = slot_blk v a t"
    using blk tree_okD(2,3) [OF t] s(3) by (metis (full_types))
  have "attached (insert s S) u" if "u \<in> insert s S" for u
    using that attached_mono [OF _ subset_insertI] tree_okD(3) [OF t] s(2) by auto
  moreover have "slot_blk v' a' u \<noteq> 0 \<longleftrightarrow> u \<in> insert s S" if u: "in_tree u" "attached (insert s S) u" for u
  proof (cases "attached S u")
    case True
    then show ?thesis using blk [OF u(1)] tree_okD(5) [OF t u(1)] b(1) by simp
  next
    case False
    with u(2) obtain k where k: "place_of u = Entry s k" by (auto simp: attached_def split: place.splits)
    then have "slot_blk v' a' u = ind_entry v' b k" by (simp add: slot_blk_place [of _ _ u] sb)
    moreover have "v' b = zero_blk" using g by (simp add: grafted_def)
    ultimately have "slot_blk v' a' u = 0" using place_bounds(2) [OF u(1) k] by (simp add: ind_entry_zero)
    moreover have "u \<noteq> s" "u \<notin> S" using place_bounds(2) [OF u(1) k] False tree_okD(3) [OF t, of u] by auto
    ultimately show ?thesis by simp
  qed
  moreover have "inj_on (slot_blk v' a') (insert s S)"
    unfolding inj_on_insert using tree_okD(6) [OF t] b(2) old sb by (auto intro!: inj_onI)
  moreover have "length (v' (slot_blk v' a' u)) = BLOCK_SIZE" if "u \<in> insert s S" for u
  proof (cases "u = s")
    case True
    with g sb show ?thesis by (simp add: grafted_def zero_blk_def)
  next
    case False
    then have u: "u \<in> S" using that by simp
    have k: "k < NUM_SIND" if "place_of s = Entry p k" for p k using place_bounds(2) [OF s(1) that] by blast
    have "v' (slot_blk v a u) = v (slot_blk v a u) \<or> (\<exists>k. k < NUM_SIND \<and> v' (slot_blk v a u) = wr32 (v (slot_blk v a u)) (4 * k) b)"
      using g u k by (cases "place_of s") (auto simp: grafted_def)
    then show ?thesis using old u tree_okD(7) [OF t u] by (auto simp: BLOCK_SIZE_def idx_defs)
  qed
  moreover have "length a' = 9" using g tree_okD(1) [OF t] by (auto simp: grafted_def split: place.splits)
  ultimately show "tree_ok v' a' (insert s S)"
    using tree_okD(2) [OF t] s(1) unfolding tree_ok_def by blast
qed

section \<open>The content of a file\<close>

lemma parent_index: "place_of u = Entry p k \<Longrightarrow> p \<noteq> Dat f"
  by (cases u) (auto split: if_splits)

text \<open>Writing to data blocks keeps the tree.\<close>

lemma tree_cong:
  assumes t: "tree_ok v a S" and same: "\<forall>t\<in>S. (\<forall>f. t \<noteq> Dat f) \<longrightarrow> v' (slot_blk v a t) = v (slot_blk v a t)"
    and len: "\<forall>t\<in>S. length (v' (slot_blk v a t)) = BLOCK_SIZE"
  shows "tree_ok v' a S" "in_tree u \<Longrightarrow> attached S u \<Longrightarrow> slot_blk v' a u = slot_blk v a u"
    "u \<in> S \<Longrightarrow> slot_blk v' a u = slot_blk v a u"
proof -
  have blk: "slot_blk v' a u = slot_blk v a u" if "in_tree u" "attached S u" for u
    using that
  proof (induction u rule: measure_induct_rule [of slot_rank])
    case (less u)
    show ?case
    proof (cases "place_of u")
      case (Entry p k)
      have p: "p \<in> S" using less.prems(2) Entry by (simp add: attached_def)
      have "slot_blk v' a p = slot_blk v a p"
        using less.IH [of p] place_bounds(2) [OF less.prems(1) Entry] tree_okD(3) [OF t p] by blast
      with same p parent_index [OF Entry] Entry show ?thesis by (simp add: slot_blk_place [of _ _ u] ind_entry_def)
    qed (simp add: slot_blk_place [of _ _ u])
  qed
  then show "in_tree u \<Longrightarrow> attached S u \<Longrightarrow> slot_blk v' a u = slot_blk v a u" .
  show old: "u \<in> S \<Longrightarrow> slot_blk v' a u = slot_blk v a u" for u using blk tree_okD(2,3) [OF t] by blast
  have "inj_on (slot_blk v' a) S" using tree_okD(6) [OF t] old by (auto intro!: inj_onI)
  then show "tree_ok v' a S" using t blk len old unfolding tree_ok_def by simp
qed

lemma tree_data:
  assumes "tree_ok v a S" and "Dat f \<in> S" and "length d = BLOCK_SIZE"
  shows "tree_ok (v(slot_blk v a (Dat f) := d)) a S" "u \<in> S \<Longrightarrow> slot_blk (v(slot_blk v a (Dat f) := d)) a u = slot_blk v a u"
proof -
  have "\<forall>t\<in>S. (\<forall>f. t \<noteq> Dat f) \<longrightarrow> (v(slot_blk v a (Dat f) := d)) (slot_blk v a t) = v (slot_blk v a t)"
    using tree_okD(6) [OF assms(1) _ assms(2)] by auto
  moreover have "\<forall>t\<in>S. length ((v(slot_blk v a (Dat f) := d)) (slot_blk v a t)) = BLOCK_SIZE"
    using tree_okD(7) [OF assms(1)] assms(3) by auto
  ultimately show "tree_ok (v(slot_blk v a (Dat f) := d)) a S"
    "u \<in> S \<Longrightarrow> slot_blk (v(slot_blk v a (Dat f) := d)) a u = slot_blk v a u"
    using tree_cong(1,3) [OF assms(1)] by blast+
qed

lemma tree_empty: "tree_ok v (replicate 9 0) {}"
proof -
  have "slot_blk v (replicate 9 0) s = 0" if "in_tree s" "attached {} s" for s
    using that place_bounds(1) [OF that(1)] by (cases "place_of s") (auto simp: slot_blk_place attached_def)
  then show ?thesis unfolding tree_ok_def by auto
qed

lemma tree_unique:
  assumes "tree_ok v a S" "tree_ok v a T"
  shows "S = T"
proof -
  have "s \<in> T'" if "tree_ok v a S'" "tree_ok v a T'" "s \<in> S'" for s S' T'
    using that(3)
  proof (induction s rule: measure_induct_rule [of slot_rank])
    case (less s)
    have "attached T' s"
    proof (cases "place_of s")
      case (Entry p k)
      then have "p \<in> S'" using tree_okD(3) [OF that(1) less.prems] by (simp add: attached_def)
      with less.IH [of p] place_bounds(2) [OF tree_okD(2) [OF that(1) less.prems] Entry] Entry show ?thesis by (simp add: attached_def)
    qed (simp add: attached_def)
    with tree_okD(5) [OF that(2)] tree_okD(2,4) [OF that(1) less.prems] show ?case by blast
  qed
  with assms show ?thesis by blast
qed

text \<open>The first \<open>n\<close> bytes of the file, and the tree covers them.\<close>

definition contents :: "(u32 \<Rightarrow> u8 list) \<Rightarrow> u32 list \<Rightarrow> nat \<Rightarrow> u8 list" where
  "contents v a n = map (file_byte v a) [0..<n]"

definition covers :: "slot set \<Rightarrow> nat \<Rightarrow> bool" where
  "covers S n \<longleftrightarrow> (\<forall>p<n. Dat (p div BLOCK_SIZE) \<in> S)"

lemma file_byte_slot: "file_byte v a p = v (slot_blk v a (Dat (p div BLOCK_SIZE))) ! (p mod BLOCK_SIZE)"
  by (simp add: file_byte_def)

lemma length_contents [simp]: "length (contents v a n) = n"
  by (simp add: contents_def)

text \<open>The blocks on the way to a data block of the tree are in the tree.\<close>

lemma path_slots:
  assumes "tree_ok v a S" "Dat f \<in> S" "b \<in> set (file_addr v a f # index_path v a f)"
  shows "\<exists>s\<in>S. b = slot_blk v a s"
proof -
  have at: "attached S (Dat f)" using tree_okD(3) [OF assms(1,2)] .
  then have "\<not> f < NUM_DIRECT + NUM_SIND \<Longrightarrow> attached S (Mid (mid_idx f))"
    using tree_okD(3) [OF assms(1), of "Mid (mid_idx f)"] by (simp add: attached_def)
  with at assms(2,3) show ?thesis
    by (auto simp: index_path_def attached_def split: if_splits
      intro: bexI [of _ "Dat f"] bexI [of _ Sind] bexI [of _ Dind] bexI [of _ "Mid (mid_idx f)"])
qed

text \<open>The file blocks that a range of bytes touches.\<close>

definition touched :: "nat \<Rightarrow> nat \<Rightarrow> nat set" where
  "touched p n = (\<lambda>p. p div BLOCK_SIZE) ` {p..<p + n}"

lemma touched_step:
  assumes "0 < n" and "k = min n (BLOCK_SIZE - p mod BLOCK_SIZE)"
  shows "touched p n = insert (p div BLOCK_SIZE) (touched (p + k) (n - k))" "p div BLOCK_SIZE \<notin> touched (p + k) (n - k)"
proof -
  have B: "0 < BLOCK_SIZE" by (simp add: BLOCK_SIZE_def)
  have m: "p mod BLOCK_SIZE < BLOCK_SIZE" by (simp add: BLOCK_SIZE_def)
  have k: "0 < k" "k \<le> n" "p mod BLOCK_SIZE + k \<le> BLOCK_SIZE" using assms m by auto
  have here: "(p + i) div BLOCK_SIZE = p div BLOCK_SIZE" if "i < k" for i
    using div_mod_add_small(1) [of p BLOCK_SIZE i] that k(3) by simp
  have "{p..<p + n} = (\<lambda>i. p + i) ` {0..<k} \<union> {p + k..<p + k + (n - k)}" using k(2) by (auto simp: image_iff)
  then have "touched p n = (\<lambda>i. (p + i) div BLOCK_SIZE) ` {0..<k} \<union> touched (p + k) (n - k)"
    unfolding touched_def by (simp only: image_Un image_image)
  moreover have "(\<lambda>i. (p + i) div BLOCK_SIZE) ` {0..<k} = {p div BLOCK_SIZE}" using here k(1) by force
  ultimately show "touched p n = insert (p div BLOCK_SIZE) (touched (p + k) (n - k))" by simp
  show "p div BLOCK_SIZE \<notin> touched (p + k) (n - k)"
  proof
    assume "p div BLOCK_SIZE \<in> touched (p + k) (n - k)"
    then obtain x where x: "p + k \<le> x" "x < p + n" "x div BLOCK_SIZE = p div BLOCK_SIZE" using k(2) by (auto simp: touched_def)
    then have "k < n" by linarith
    then have "p mod BLOCK_SIZE + k = BLOCK_SIZE" using assms(2) m by simp
    then have "BLOCK_SIZE * (p div BLOCK_SIZE) + BLOCK_SIZE \<le> x" using x(1) mult_div_mod_eq [of BLOCK_SIZE p] by linarith
    with x(3) show False using mult_div_mod_eq [of BLOCK_SIZE x] mod_less_divisor [OF B, of x] by (metis add_less_cancel_left linorder_not_less)
  qed
qed

lemma finite_touched [simp]: "finite (touched p n)"
  by (simp add: touched_def)

section \<open>Files that grow and are written\<close>

text \<open>
  \<open>vgrown\<close>: the file has got the slots \<open>S'\<close>; its old blocks stay where they are, with their data, and new data
  blocks are zeros.
\<close>

definition vgrown :: "(u32 \<Rightarrow> u8 list) \<Rightarrow> u32 list \<Rightarrow> slot set \<Rightarrow> (u32 \<Rightarrow> u8 list) \<Rightarrow> u32 list \<Rightarrow> slot set \<Rightarrow> bool" where
  "vgrown v a S v' a' S' \<longleftrightarrow> tree_ok v' a' S' \<and> S \<subseteq> S' \<and> (\<forall>t\<in>S. slot_blk v' a' t = slot_blk v a t) \<and>
     (\<forall>f. Dat f \<in> S \<longrightarrow> v' (slot_blk v a (Dat f)) = v (slot_blk v a (Dat f))) \<and>
     (\<forall>f. Dat f \<in> S' - S \<longrightarrow> v' (slot_blk v' a' (Dat f)) = zero_blk)"

lemma vgrownD:
  assumes "vgrown v a S v' a' S'"
  shows "tree_ok v' a' S'" "S \<subseteq> S'" "t \<in> S \<Longrightarrow> slot_blk v' a' t = slot_blk v a t"
    "Dat f \<in> S \<Longrightarrow> v' (slot_blk v a (Dat f)) = v (slot_blk v a (Dat f))"
    "Dat f \<in> S' \<Longrightarrow> Dat f \<notin> S \<Longrightarrow> v' (slot_blk v' a' (Dat f)) = zero_blk"
  using assms unfolding vgrown_def by blast+

lemma vgrown_refl: "tree_ok v a S \<Longrightarrow> vgrown v a S v a S"
  by (simp add: vgrown_def)

lemma vgrown_trans:
  assumes "vgrown v a S v1 a1 S1" and "vgrown v1 a1 S1 v2 a2 S2"
  shows "vgrown v a S v2 a2 S2"
  unfolding vgrown_def
proof (intro conjI ballI allI impI)
  note G = vgrownD [OF assms(1)] and H = vgrownD [OF assms(2)]
  show "tree_ok v2 a2 S2" "S \<subseteq> S2" using G(2) H(1,2) by auto
  show "slot_blk v2 a2 t = slot_blk v a t" if "t \<in> S" for t using G(2,3) H(3) that by auto
  show "v2 (slot_blk v a (Dat f)) = v (slot_blk v a (Dat f))" if "Dat f \<in> S" for f
    using G(2) G(3,4) [OF that] H(4) [of f] that by auto
  show "v2 (slot_blk v2 a2 (Dat f)) = zero_blk" if "Dat f \<in> S2 - S" for f
    using that G(5) [of f] H(3) [of "Dat f"] H(4) [of f] H(5) [of f] by (cases "Dat f \<in> S1") auto
qed

lemma vgrown_graft:
  assumes t: "tree_ok v a S" and s: "in_tree s" "attached S s" "s \<notin> S" and b: "b \<noteq> 0" "b \<notin> slot_blk v a ` S"
    and g: "grafted S s b v a v' a'"
  shows "vgrown v a S v' a' (insert s S)" "slot_blk v' a' s = b"
proof -
  note G = graft [OF t s b g]
  show "slot_blk v' a' s = b" by (rule G(2))
  have "v' (slot_blk v a (Dat f)) = v (slot_blk v a (Dat f))" if "Dat f \<in> S" for f
    using g that by (cases "place_of s") (auto simp: grafted_def dest: parent_index)
  moreover have "v' b = zero_blk" using g by (simp add: grafted_def)
  ultimately show "vgrown v a S v' a' (insert s S)" using G by (auto simp: vgrown_def)
qed

text \<open>
  \<open>vwritten\<close>: the bytes \<open>xs\<close> are in the file from position \<open>p\<close> on. The other bytes are as they were; bytes of
  new blocks outside the range are zeros.
\<close>

definition vwritten :: "(u32 \<Rightarrow> u8 list) \<Rightarrow> u32 list \<Rightarrow> slot set \<Rightarrow> nat \<Rightarrow> u8 list \<Rightarrow> (u32 \<Rightarrow> u8 list) \<Rightarrow> u32 list \<Rightarrow> slot set \<Rightarrow> bool" where
  "vwritten v a S p xs v' a' S' \<longleftrightarrow> tree_ok v' a' S' \<and> S \<subseteq> S' \<and> (\<forall>t\<in>S. slot_blk v' a' t = slot_blk v a t) \<and>
     (\<forall>i<length xs. Dat ((p + i) div BLOCK_SIZE) \<in> S') \<and>
     (\<forall>x. Dat (x div BLOCK_SIZE) \<in> S' \<longrightarrow> file_byte v' a' x =
        (if p \<le> x \<and> x < p + length xs then xs ! (x - p)
         else if Dat (x div BLOCK_SIZE) \<in> S then file_byte v a x else 0))"

lemma vwrittenD:
  assumes "vwritten v a S p xs v' a' S'"
  shows "tree_ok v' a' S'" "S \<subseteq> S'" "t \<in> S \<Longrightarrow> slot_blk v' a' t = slot_blk v a t"
    "i < length xs \<Longrightarrow> Dat ((p + i) div BLOCK_SIZE) \<in> S'"
    "Dat (x div BLOCK_SIZE) \<in> S' \<Longrightarrow> file_byte v' a' x =
      (if p \<le> x \<and> x < p + length xs then xs ! (x - p) else if Dat (x div BLOCK_SIZE) \<in> S then file_byte v a x else 0)"
  using assms unfolding vwritten_def by blast+

lemma vwritten_nil: "tree_ok v a S \<Longrightarrow> vwritten v a S p [] v a S"
  by (auto simp: vwritten_def)

lemma vwritten_trans:
  assumes "vwritten v a S p xs v1 a1 S1" and "vwritten v1 a1 S1 (p + length xs) ys v2 a2 S2"
  shows "vwritten v a S p (xs @ ys) v2 a2 S2"
  unfolding vwritten_def
proof (intro conjI ballI allI impI)
  note G = vwrittenD [OF assms(1)] and H = vwrittenD [OF assms(2)]
  show "tree_ok v2 a2 S2" "S \<subseteq> S2" using G(2) H(1,2) by auto
  show "slot_blk v2 a2 t = slot_blk v a t" if "t \<in> S" for t using that G(2,3) H(3) by auto
  show "Dat ((p + i) div BLOCK_SIZE) \<in> S2" if "i < length (xs @ ys)" for i
  proof (cases "i < length xs")
    case True
    with G(4) H(2) show ?thesis by blast
  next
    case False
    with that H(4) [of "i - length xs"] show ?thesis by simp
  qed
  show "file_byte v2 a2 x = (if p \<le> x \<and> x < p + length (xs @ ys) then (xs @ ys) ! (x - p)
      else if Dat (x div BLOCK_SIZE) \<in> S then file_byte v a x else 0)" if x: "Dat (x div BLOCK_SIZE) \<in> S2" for x
  proof (cases "p + length xs \<le> x \<and> x < p + length xs + length ys")
    case True
    then have "x - p = length xs + (x - (p + length xs))" by linarith
    with True H(5) [OF x] show ?thesis by (auto simp: nth_append)
  next
    case False
    note e = H(5) [OF x] this
    show ?thesis
    proof (cases "p \<le> x \<and> x < p + length xs")
      case True
      then have "Dat (x div BLOCK_SIZE) \<in> S1" using G(4) [of "x - p"] by (simp add: less_diff_conv2)
      with e True G(5) [of x] show ?thesis by (auto simp: nth_append)
    next
      case False
      with e G(2) G(5) [of x] show ?thesis by auto
    qed
  qed
qed

lemma vwritten_data:
  assumes g: "vgrown v a S v1 a1 S1" and f: "Dat f \<in> S1" and p: "p div BLOCK_SIZE = f" "p mod BLOCK_SIZE + length xs \<le> BLOCK_SIZE"
    and v2: "v2 = v1(slot_blk v1 a1 (Dat f) := splice (v1 (slot_blk v1 a1 (Dat f))) (p mod BLOCK_SIZE) xs)"
  shows "vwritten v a S p xs v2 a1 S1" "\<forall>t\<in>S1. slot_blk v2 a1 t = slot_blk v1 a1 t"
proof -
  let ?b = "slot_blk v1 a1 (Dat f)"
  let ?d = "splice (v1 ?b) (p mod BLOCK_SIZE) xs"
  note T = vgrownD(1) [OF g]
  have lb: "length (v1 ?b) = BLOCK_SIZE" using tree_okD(7) [OF T f] .
  then have ld: "length ?d = BLOCK_SIZE" using p(2) by simp
  note U = tree_data [OF T f ld, folded v2]
  show "\<forall>t\<in>S1. slot_blk v2 a1 t = slot_blk v1 a1 t" using U(2) by blast
  have "file_byte v2 a1 x = (if p \<le> x \<and> x < p + length xs then xs ! (x - p)
      else if Dat (x div BLOCK_SIZE) \<in> S then file_byte v a x else 0)" if x: "Dat (x div BLOCK_SIZE) \<in> S1" for x
  proof -
    have m: "x mod BLOCK_SIZE < BLOCK_SIZE" by (simp add: BLOCK_SIZE_def)
    have before: "file_byte v1 a1 x = (if Dat (x div BLOCK_SIZE) \<in> S then file_byte v a x else 0)"
      using x m vgrownD(3) [OF g, of "Dat (x div BLOCK_SIZE)"] vgrownD(4) [OF g, of "x div BLOCK_SIZE"] vgrownD(5) [OF g, of "x div BLOCK_SIZE"]
      by (auto simp: file_byte_def zero_blk_def)
    show ?thesis
    proof (cases "x div BLOCK_SIZE = f")
      case True
      then have "file_byte v2 a1 x = ?d ! (x mod BLOCK_SIZE)" using U(2) [OF f] v2 by (simp add: file_byte_slot)
      also have "\<dots> = (if p \<le> x \<and> x < p + length xs then xs ! (x - p) else v1 ?b ! (x mod BLOCK_SIZE))"
        using block_neq [of x p "length xs"] True p m lb by (auto simp: nth_splice)
      also have "v1 ?b ! (x mod BLOCK_SIZE) = file_byte v1 a1 x" using True by (simp add: file_byte_slot)
      finally show ?thesis by (simp only: before)
    next
      case False
      then have "\<not> (p \<le> x \<and> x < p + length xs)" using p div_mod_add_small(1) [of p BLOCK_SIZE "x - p"] by force
      moreover have "file_byte v2 a1 x = file_byte v1 a1 x"
        using False U(2) [OF x] tree_okD(6) [OF T x f] v2 by (simp add: file_byte_slot)
      ultimately show ?thesis using before by auto
    qed
  qed
  moreover have "Dat ((p + i) div BLOCK_SIZE) \<in> S1" if "i < length xs" for i
    using f p div_mod_add_small(1) [of p BLOCK_SIZE i] that by simp
  moreover have "slot_blk v2 a1 t = slot_blk v a t" if "t \<in> S" for t
    using that U(2) [of t] vgrownD(2,3) [OF g] by auto
  ultimately show "vwritten v a S p xs v2 a1 S1" using U(1) vgrownD(2) [OF g] unfolding vwritten_def by blast
qed

lemma contents_vwritten:
  assumes "vwritten v a S p xs v' a' S'" "covers S m" "p \<le> m"
  shows "covers S' (max m (p + length xs))" "contents v' a' (max m (p + length xs)) = splice (contents v a m) p xs"
proof -
  note W = vwrittenD [OF assms(1)]
  show cv: "covers S' (max m (p + length xs))"
    unfolding covers_def
  proof (intro allI impI)
    fix x assume x: "x < max m (p + length xs)"
    show "Dat (x div BLOCK_SIZE) \<in> S'"
    proof (cases "x < m")
      case True
      with assms(2) W(2) show ?thesis by (auto simp: covers_def)
    next
      case False
      with x assms(3) W(4) [of "x - p"] show ?thesis by (simp add: less_diff_conv2)
    qed
  qed
  show "contents v' a' (max m (p + length xs)) = splice (contents v a m) p xs" (is "?l = ?r")
  proof (rule nth_equalityI)
    show "length ?l = length ?r" using assms(3) by (simp add: splice_def max_def)
    fix x assume "x < length ?l"
    then have x: "x < max m (p + length xs)" by simp
    then have b: "?l ! x = (if p \<le> x \<and> x < p + length xs then xs ! (x - p) else if Dat (x div BLOCK_SIZE) \<in> S then file_byte v a x else 0)"
      using W(5) [of x] cv by (simp add: contents_def covers_def)
    have "?r ! x = (if p \<le> x \<and> x < p + length xs then xs ! (x - p) else contents v a m ! x)"
      using assms(3) x by (auto simp: splice_def nth_append min_absorb2)
    moreover have "contents v a m ! x = file_byte v a x" "Dat (x div BLOCK_SIZE) \<in> S" if "\<not> (p \<le> x \<and> x < p + length xs)"
      using that x assms(2,3) by (auto simp: contents_def covers_def)
    ultimately show "?l ! x = ?r ! x" using b by auto
  qed
qed

lemma contents_cong: "(\<And>p. p < m \<Longrightarrow> file_byte v a p = file_byte v' a p) \<Longrightarrow> contents v a m = contents v' a m"
  by (simp add: contents_def)

text \<open>A change of the disk that leaves the blocks of the file alone.\<close>

lemma tree_frame:
  assumes t: "tree_ok v a S" and same: "\<And>s. s \<in> S \<Longrightarrow> v' (slot_blk v a s) = v (slot_blk v a s)"
  shows "tree_ok v' a S" "s \<in> S \<Longrightarrow> slot_blk v' a s = slot_blk v a s"
    "Dat (p div BLOCK_SIZE) \<in> S \<Longrightarrow> file_byte v' a p = file_byte v a p" "covers S n \<Longrightarrow> contents v' a n = contents v a n"
proof -
  have C: "tree_ok v' a S" "s \<in> S \<Longrightarrow> slot_blk v' a s = slot_blk v a s" for s
    using tree_cong(1,3) [OF t, of v'] same tree_okD(7) [OF t] by auto
  then show "tree_ok v' a S" "s \<in> S \<Longrightarrow> slot_blk v' a s = slot_blk v a s" by blast+
  have B: "Dat (p div BLOCK_SIZE) \<in> S \<Longrightarrow> file_byte v' a p = file_byte v a p" for p
    using same C(2) by (simp add: file_byte_slot del: slot_blk.simps)
  then show "Dat (p div BLOCK_SIZE) \<in> S \<Longrightarrow> file_byte v' a p = file_byte v a p" .
  show "covers S n \<Longrightarrow> contents v' a n = contents v a n" using B by (auto simp: covers_def intro!: contents_cong)
qed

end
