(* ===== verification/Cofs_Grow.thy ===== *)
theory Cofs_Grow
  imports File_Tree
begin

text \<open>
  Files that grow (\<open>block_map\<close>, \<open>cofs_write\<close>, \<open>cofs_read\<close> of \<open>cofs.c\<close>). A write at the end of a file, or across
  it, makes \<open>block_map\<close> allocate the data block and, where they are missing, the index blocks that
  lead to it. On top of the tree of \<open>File_Tree\<close> and the bitmap of \<open>Cofs_Disk\<close> this theory shows that
  a COFS file is an array of bytes: the contract is the locale \<open>byte_file\<close>.
\<close>

section \<open>The disk under a file\<close>

definition is_bm :: "cofs_superblock \<Rightarrow> u32 \<Rightarrow> bool" where
  "is_bm sb x \<longleftrightarrow> (\<exists>c<bm_count sb * BITS_PER_BLOCK. x = bm_block sb c)"

definition bitmap_ok :: "cofs_superblock \<Rightarrow> buf_queue \<Rightarrow> bool" where
  "bitmap_ok sb q \<longleftrightarrow> alloc_ok sb q {} \<and> unat (sb_size sb) \<le> 2 ^ 28 \<and> blk_used (view q) sb 0 \<and>
     (\<forall>c<bm_count sb * BITS_PER_BLOCK. unat (bm_block sb c) < bm_count sb * BITS_PER_BLOCK \<and> blk_used (view q) sb (unat (bm_block sb c)))"

text \<open>A block that is in use and not part of the bitmap.\<close>

definition owned_blk :: "cofs_superblock \<Rightarrow> buf_queue \<Rightarrow> u32 \<Rightarrow> bool" where
  "owned_blk sb q x \<longleftrightarrow> unat x < bm_count sb * BITS_PER_BLOCK \<and> blk_used (view q) sb (unat x) \<and> valid_blk q x \<and> \<not> is_bm sb x"

definition tree_on :: "cofs_superblock \<Rightarrow> buf_queue \<Rightarrow> u32 list \<Rightarrow> slot set \<Rightarrow> bool" where
  "tree_on sb q a S \<longleftrightarrow> bitmap_ok sb q \<and> tree_ok (view q) a S \<and> (\<forall>s\<in>S. owned_blk sb q (slot_blk (view q) a s))"

lemma tree_onD:
  assumes "tree_on sb q a S"
  shows "bitmap_ok sb q" "tree_ok (view q) a S" "s \<in> S \<Longrightarrow> owned_blk sb q (slot_blk (view q) a s)"
  using assms by (auto simp: tree_on_def)

lemma bitmap_okD:
  assumes "bitmap_ok sb q"
  shows "alloc_ok sb q {}" "hq_ok q {}" "unat (sb_size sb) \<le> 2 ^ 28" "blk_used (view q) sb 0"
    "\<forall>c<bm_count sb * BITS_PER_BLOCK. blk_used (view q) sb (unat (bm_block sb c))"
    "c < bm_count sb * BITS_PER_BLOCK \<Longrightarrow> unat (bm_block sb c) < bm_count sb * BITS_PER_BLOCK"
  using assms by (auto simp: bitmap_ok_def alloc_ok_def)

text \<open>
  \<open>fgrown\<close>: the file has grown to the slots \<open>S'\<close>. Its new blocks were free, blocks in use by others keep their
  content, and at most \<open>k\<close> blocks were taken.
\<close>

definition fgrown :: "cofs_superblock \<Rightarrow> buf_queue \<Rightarrow> u32 list \<Rightarrow> slot set \<Rightarrow> nat \<Rightarrow> buf_queue \<Rightarrow> u32 list \<Rightarrow> slot set \<Rightarrow> bool" where
  "fgrown sb q a S k q' a' S' \<longleftrightarrow> tree_on sb q' a' S' \<and> vgrown (view q) a S (view q') a' S' \<and> valid_blk q' = valid_blk q \<and>
     (\<forall>t\<in>S' - S. \<not> blk_used (view q) sb (unat (slot_blk (view q') a' t))) \<and>
     card (free_blks sb (view q)) \<le> card (free_blks sb (view q')) + k \<and>
     (\<forall>x<bm_count sb * BITS_PER_BLOCK. blk_used (view q) sb x \<longrightarrow> blk_used (view q') sb x) \<and>
     (\<forall>x. owned_blk sb q x \<and> x \<notin> slot_blk (view q) a ` S \<longrightarrow> view q' x = view q x)"

lemma fgrownD:
  assumes "fgrown sb q a S k q' a' S'"
  shows "tree_on sb q' a' S'" "vgrown (view q) a S (view q') a' S'" "valid_blk q' = valid_blk q"
    "t \<in> S' \<Longrightarrow> t \<notin> S \<Longrightarrow> \<not> blk_used (view q) sb (unat (slot_blk (view q') a' t))"
    "card (free_blks sb (view q)) \<le> card (free_blks sb (view q')) + k"
    "x < bm_count sb * BITS_PER_BLOCK \<Longrightarrow> blk_used (view q) sb x \<Longrightarrow> blk_used (view q') sb x"
    "owned_blk sb q y \<Longrightarrow> y \<notin> slot_blk (view q) a ` S \<Longrightarrow> view q' y = view q y"
  using assms unfolding fgrown_def by blast+

lemma fgrown_owned: "fgrown sb q a S k q' a' S' \<Longrightarrow> owned_blk sb q x \<Longrightarrow> owned_blk sb q' x"
  using fgrownD(3,6) [of sb q a S k q' a' S'] by (simp add: owned_blk_def)

lemma fgrown_foreign:
  assumes "fgrown sb q a S k q' a' S'" "owned_blk sb q x" "x \<notin> slot_blk (view q) a ` S"
  shows "x \<notin> slot_blk (view q') a' ` S'"
proof
  assume "x \<in> slot_blk (view q') a' ` S'"
  then obtain t where t: "t \<in> S'" "x = slot_blk (view q') a' t" by blast
  show False
  proof (cases "t \<in> S")
    case True
    with t(2) vgrownD(3) [OF fgrownD(2) [OF assms(1)]] assms(3) show False by auto
  next
    case False
    from fgrownD(4) [OF assms(1) t(1) False] t(2) assms(2) show False by (simp add: owned_blk_def)
  qed
qed

lemma fgrown_trans:
  assumes "fgrown sb q a S k q1 a1 S1" and "fgrown sb q1 a1 S1 l q2 a2 S2"
  shows "fgrown sb q a S (k + l) q2 a2 S2"
  unfolding fgrown_def
proof (intro conjI ballI allI impI)
  note G = fgrownD [OF assms(1)] and H = fgrownD [OF assms(2)]
  show "tree_on sb q2 a2 S2" "vgrown (view q) a S (view q2) a2 S2" "valid_blk q2 = valid_blk q"
    using G(3) H(1,3) vgrown_trans [OF G(2) H(2)] by auto
  show "\<not> blk_used (view q) sb (unat (slot_blk (view q2) a2 t))" if "t \<in> S2 - S" for t
  proof (cases "t \<in> S1")
    case True
    with that G(4) [of t] vgrownD(3) [OF H(2), of t] show ?thesis by auto
  next
    case False
    have "unat (slot_blk (view q2) a2 t) < bm_count sb * BITS_PER_BLOCK"
      using tree_onD(3) [OF H(1)] that by (simp add: owned_blk_def)
    with that False H(4) [of t] G(6) show ?thesis by blast
  qed
  show "card (free_blks sb (view q)) \<le> card (free_blks sb (view q2)) + (k + l)" using G(5) H(5) by simp
  show "blk_used (view q2) sb x" if "x < bm_count sb * BITS_PER_BLOCK" "blk_used (view q) sb x" for x using G(6) H(6) that by blast
  show "view q2 x = view q x" if "owned_blk sb q x \<and> x \<notin> slot_blk (view q) a ` S" for x
    using that G(7) H(7) fgrown_owned [OF assms(1)] fgrown_foreign [OF assms(1)] by auto
qed

lemma fgrown_weaken: "fgrown sb q a S k q' a' S' \<Longrightarrow> k \<le> l \<Longrightarrow> fgrown sb q a S l q' a' S'"
  by (simp add: fgrown_def)

lemma tree_on_same_disk:
  assumes "same_disk q q'" "tree_on sb q a S"
  shows "tree_on sb q' a S"
proof -
  have e: "view q' = view q" "valid_blk q' = valid_blk q" "hq_ok q' {}" using assms(1) by (auto simp: same_disk_def)
  with assms(2) show ?thesis by (simp add: tree_on_def bitmap_ok_def alloc_ok_def owned_blk_def)
qed

lemma fgrown_same_disk:
  assumes "same_disk q q'" "tree_on sb q a S"
  shows "fgrown sb q a S 0 q' a S"
  using tree_on_same_disk [OF assms] assms(1) vgrown_refl [OF tree_onD(2) [OF assms(2)]] by (simp add: fgrown_def same_disk_def)

section \<open>Taking a block\<close>

lemma card_free_take:
  assumes "b \<in> free_blks sb v" and "\<forall>c<bm_count sb * BITS_PER_BLOCK. blk_used v' sb c \<longleftrightarrow> c = b \<or> blk_used v sb c"
  shows "card (free_blks sb v) \<le> card (free_blks sb v') + 1"
proof -
  have "free_blks sb v = insert b (free_blks sb v')" using assms by (auto simp: free_blks_def)
  moreover have "finite (free_blks sb v')" by (simp add: free_blks_def)
  ultimately show ?thesis by (simp add: card_insert_le_m1 card_insert_if)
qed

text \<open>
  One step of growth: the block \<open>b\<close> has been taken from the bitmap and its number stored in the inode or in
  an index block of the file.
\<close>

lemma take_step:
  assumes t: "tree_on sb q a S" and s: "in_tree s" "attached S s" "s \<notin> S" and b: "b \<in> free_blks sb (view q)"
    and q': "hq_ok q' {}" "valid_blk q' = valid_blk q"
    and g: "case place_of s of Addr i \<Rightarrow> a' = a[i := of_nat b] \<and> view q' = allocated sb b (view q)
      | Entry p k \<Rightarrow> a' = a \<and> view q' = (allocated sb b (view q))(slot_blk (view q) a p := wr32 (view q (slot_blk (view q) a p)) (4 * k) (of_nat b))"
  shows "fgrown sb q a S 1 q' a' (insert s S)" "slot_blk (view q') a' s = of_nat b"
proof -
  let ?lim = "bm_count sb * BITS_PER_BLOCK" and ?v = "view q" and ?v' = "view q'"
  note B = bitmap_okD [OF tree_onD(1) [OF t]] and T = tree_onD(2) [OF t]
  have bl: "b < ?lim" "\<not> blk_used ?v sb b" using b by (simp_all add: free_blks_def)
  have ub: "unat (of_nat b :: u32) = b" using blocks_small(2) [OF B(3) bl(1)] .
  have len: "length (?v (bm_block sb b)) = BLOCK_SIZE" using hq_ok_view_length [OF B(2) alloc_okD(1) [OF B(1) bl(1)]] .
  note A = allocated_used [OF B(3,5) b len]
  have nb: "x \<noteq> of_nat b" "x \<noteq> bm_block sb c" if "owned_blk sb q x" "c < ?lim" for x c
    using that bl ub by (auto simp: owned_blk_def is_bm_def)
  have own: "owned_blk sb q (slot_blk ?v a t)" if "t \<in> S" for t using tree_onD(3) [OF t that] .
  have P: "p \<in> S" if "place_of s = Entry p k" for p k using s(2) that by (simp add: attached_def)
  have same: "?v' x = ?v x" if "owned_blk sb q x" "\<forall>p k. place_of s = Entry p k \<longrightarrow> x \<noteq> slot_blk ?v a p" for x
    using g that nb(1) [OF that(1) bl(1)] nb(2) [OF that(1) bl(1)] by (cases "place_of s") (auto simp: allocated_other)
  have bm: "?v' (bm_block sb c) = allocated sb b ?v (bm_block sb c)" if "c < ?lim" for c
    using g nb(2) [OF own [OF P] that] by (cases "place_of s") (auto simp: fun_upd_other)
  have used: "blk_used ?v' sb c \<longleftrightarrow> c = b \<or> blk_used ?v sb c" if "c < ?lim" for c
    using A(2) [OF that] bm [OF that] by (simp add: blk_used_def)
  have z: "?v' (of_nat b) = zero_blk"
    using g nb(1) [OF own [OF P] bl(1)] by (cases "place_of s") (force simp: allocated_other zero_blk_def)+
  have data: "?v' (slot_blk ?v a t) = ?v (slot_blk ?v a t)" if "t \<in> S" "\<forall>p k. place_of s = Entry p k \<longrightarrow> t \<noteq> p" for t
    by (rule same [OF own [OF that(1)]]) (use that P tree_okD(6) [OF T] in auto)
  have "grafted S s (of_nat b) ?v a ?v' a'"
  proof (cases "place_of s")
    case (Addr i)
    with g z data show ?thesis by (auto simp: grafted_def)
  next
    case (Entry p k)
    then have "?v' (slot_blk ?v a p) = wr32 (?v (slot_blk ?v a p)) (4 * k) (of_nat b)" using g by simp
    with Entry g z data show ?thesis by (auto simp: grafted_def)
  qed
  moreover have "(of_nat b :: u32) \<noteq> 0"
  proof
    assume z0: "(of_nat b :: u32) = 0"
    from ub [unfolded z0] have "b = 0" by simp
    with bl(2) B(4) show False by simp
  qed
  moreover have "of_nat b \<notin> slot_blk ?v a ` S"
  proof (rule notI, elim imageE)
    fix t assume "of_nat b = slot_blk ?v a t" "t \<in> S"
    with nb(1) [OF own [OF this(2)] bl(1)] show False by simp
  qed
  ultimately have vg: "vgrown ?v a S ?v' a' (insert s S)" and G2: "slot_blk ?v' a' s = of_nat b" using vgrown_graft [OF T s] by blast+
  have G: "tree_ok ?v' a' (insert s S)" "slot_blk ?v' a' s = of_nat b" "\<forall>t\<in>S. slot_blk ?v' a' t = slot_blk ?v a t"
    using vgrownD(1,3) [OF vg] G2 by blast+
  show "slot_blk ?v' a' s = of_nat b" by (rule G(2))
  have own': "owned_blk sb q' x" if "owned_blk sb q x" for x using that used q'(2) by (simp add: owned_blk_def)
  have "owned_blk sb q' (of_nat b)"
    using ub bl(1) used [OF bl(1)] A(1) alloc_okD(3) [OF B(1) bl] q'(2) by (auto simp: owned_blk_def is_bm_def)
  then have "\<forall>t\<in>insert s S. owned_blk sb q' (slot_blk ?v' a' t)" using own own' G(2,3) by auto
  moreover have "bitmap_ok sb q'"
  proof -
    have "alloc_ok sb q' {}" using B(1) q' used by (auto simp: alloc_ok_def)
    moreover have "0 < ?lim" using bl(1) by linarith
    ultimately show ?thesis using B used by (simp add: bitmap_ok_def)
  qed
  ultimately have "tree_on sb q' a' (insert s S)" using G(1) by (simp add: tree_on_def)
  moreover have "card (free_blks sb ?v) \<le> card (free_blks sb ?v') + 1" using card_free_take [OF b] used by blast
  moreover have "?v' x = ?v x" if "owned_blk sb q x" "x \<notin> slot_blk ?v a ` S" for x
    by (rule same [OF that(1)]) (use that(2) P in auto)
  ultimately show "fgrown sb q a S 1 q' a' (insert s S)"
    using vg G(2) q'(2) used bl(2) ub s(3) by (auto simp: fgrown_def)
qed

lemma alloc_take:
  assumes "bitmap_ok sb q" and "free_blks sb (view q) \<noteq> {}"
  shows "\<exists>b q'. b \<in> free_blks sb (view q) \<and> block_alloc sb q = Inr (of_nat b, q') \<and> hq_ok q' {} \<and>
    view q' = allocated sb b (view q) \<and> valid_blk q' = valid_blk q"
proof -
  have "\<exists>b<bm_count sb * BITS_PER_BLOCK. \<not> blk_used (view q) sb b" using assms(2) by (auto simp: free_blks_def)
  from block_alloc_ok [OF bitmap_okD(1) [OF assms(1)] this] show ?thesis by (auto simp: free_blks_def)
qed

text \<open>An index block is held while \<open>block_alloc\<close> runs.\<close>

lemma map_entry_take:
  assumes B: "bitmap_ok sb q" and o: "owned_blk sb q blk" and e: "ind_entry (view q) blk k = 0" "k < NUM_SIND"
    and f: "free_blks sb (view q) \<noteq> {}"
  shows "\<exists>b q'. b \<in> free_blks sb (view q) \<and> map_entry sb blk k q = Inr (of_nat b, q') \<and> hq_ok q' {} \<and>
    view q' = (allocated sb b (view q))(blk := wr32 (view q blk) (4 * k) (of_nat b)) \<and> valid_blk q' = valid_blk q"
proof -
  note D = bitmap_okD [OF B]
  have vb: "valid_blk q blk" "unat blk < bm_count sb * BITS_PER_BLOCK" "blk_used (view q) sb (unat blk)" "\<not> is_bm sb blk"
    using o by (simp_all add: owned_blk_def)
  from hdc.fetch_law [OF D(2) vb(1)] obtain h q1 where
    q1: "get_hd_buf blk q = Inr (h, q1)" "hq_ok q1 {blk}" "holds q1 h blk" "view q1 = view q" "valid_blk q1 = valid_blk q"
    by (auto simp: MAX_HD_BUFS_def)
  have c1: "hcontent q1 h = view q blk" using hdc.content_law [OF q1(2) _ q1(3)] q1(4) by simp
  have "alloc_ok sb q1 {blk}"
    unfolding alloc_ok_def
  proof (intro conjI allI impI)
    fix b assume b: "b < bm_count sb * BITS_PER_BLOCK"
    show "valid_blk q1 (bm_block sb b)" "bm_block sb b \<notin> {blk}"
      using alloc_okD(1) [OF D(1) b] q1(5) vb(4) b by (auto simp: is_bm_def)
    assume u: "\<not> blk_used (view q1) sb b"
    then show "valid_blk q1 (of_nat b)" using alloc_okD(3) [OF D(1) b] q1(4,5) by simp
    show "of_nat b \<notin> {blk}" using u vb(3) blocks_small(2) [OF D(3) b] q1(4) by auto
  qed (use q1(2) in \<open>simp_all add: MAX_HD_BUFS_def\<close>)
  moreover have "\<exists>b<bm_count sb * BITS_PER_BLOCK. \<not> blk_used (view q1) sb b" using f q1(4) by (auto simp: free_blks_def)
  ultimately obtain b q2 where b: "b < bm_count sb * BITS_PER_BLOCK" "\<not> blk_used (view q) sb b" "block_alloc sb q1 = Inr (of_nat b, q2)"
    "hq_ok q2 {blk}" "view q2 = allocated sb b (view q)" "valid_blk q2 = valid_blk q" "holds q2 h blk"
    using block_alloc_ok [of sb q1 "{blk}"] q1(3,4,5) by auto
  have nb: "of_nat b \<noteq> blk" using b(2) vb(3) blocks_small(2) [OF D(3) b(1)] by metis
  have nm: "blk \<noteq> bm_block sb b" using vb(4) b(1) by (auto simp: is_bm_def)
  have v2: "view q2 blk = view q blk" using b(5) nb nm by (simp add: allocated_other)
  have len: "length (view q blk) = 512" using hq_ok_view_length [OF D(2) vb(1)] by (simp add: BLOCK_SIZE_def)
  let ?w = "\<lambda>d. wr32 d (4 * k) (of_nat b)"
  let ?q3 = "hwrite h ?w q2"
  have "length (?w (view q2 blk)) = BLOCK_SIZE" using len v2 e(2) by (simp add: idx_defs BLOCK_SIZE_def)
  from hdc.modify_law [OF b(4) _ b(7), of ?w] this have m: "hq_ok ?q3 {blk}" "view ?q3 = (view q2)(blk := ?w (view q blk))"
    "valid_blk ?q3 = valid_blk q2" "holds ?q3 h blk" using b(7) v2 by auto
  have c3: "hcontent ?q3 h = ?w (view q blk)" using hdc.content_law [OF m(1) _ m(4)] m(2) by simp
  from hdc.release_law [OF m(1) _ m(4)] obtain q4 where
    r: "put_hd_buf h ?q3 = Inr q4" "hq_ok q4 {}" "view q4 = view ?q3" "valid_blk q4 = valid_blk ?q3" by auto
  have "rd32 (?w (view q blk)) (4 * k) = of_nat b" using len e(2) by (simp add: entry_wr32 idx_defs)
  then have "map_entry sb blk k q = Inr (of_nat b, q4)"
    using q1(1) c1 b(3) e(1) c3 r(1) by (simp add: map_entry_def ind_entry_def Let_def)
  with b r m show ?thesis by (intro exI [of _ b] exI [of _ q4]) (simp add: free_blks_def)
qed

section \<open>Growing through \<open>block_map\<close>\<close>

text \<open>The state after the file's node and the cache of blocks have changed.\<close>

definition put_tree :: "nat \<Rightarrow> buf_queue \<Rightarrow> u32 list \<Rightarrow> cofs \<Rightarrow> cofs" where
  "put_tree n q a c = nset n (n_addrs_update (\<lambda>_. Some a)) (c\<lparr>hq := q\<rparr>)"

definition file_on :: "cofs \<Rightarrow> nat \<Rightarrow> u32 list \<Rightarrow> slot set \<Rightarrow> bool" where
  "file_on c n a S \<longleftrightarrow> n < length (cache c) \<and> n_addrs (nd c n) = Some a \<and> tree_on (superb c) (hq c) a S"

lemma put_tree_simps [simp]:
  "superb (put_tree n q a c) = superb c" "hq (put_tree n q a c) = q" "length (cache (put_tree n q a c)) = length (cache c)"
  "n < length (cache c) \<Longrightarrow> nd (put_tree n q a c) n = (nd c n)\<lparr>n_addrs := Some a\<rparr>"
  by (simp_all add: put_tree_def nset_def nd_def)

lemma put_tree_put [simp]: "put_tree n q' a' (put_tree n q a c) = put_tree n q' a' c"
  by (cases "n < length (cache c)") (simp_all add: put_tree_def nset_def list_update_beyond)

lemma put_tree_hq [simp]: "(put_tree n q a c)\<lparr>hq := q'\<rparr> = put_tree n q' a c"
  by (cases c) (simp add: put_tree_def nset_def)

lemma put_tree_same: "n < length (cache c) \<Longrightarrow> n_addrs (nd c n) = Some a \<Longrightarrow> put_tree n q a c = c\<lparr>hq := q\<rparr>"
  by (cases c; cases "nd c n") (simp add: put_tree_def nset_def nd_def list_update_same_conv)

lemma file_on_put: "file_on c n a S \<Longrightarrow> fgrown (superb c) (hq c) a S k q' a' S' \<Longrightarrow> file_on (put_tree n q' a' c) n a' S'"
  by (simp add: file_on_def fgrownD(1))

lemma direct_grows:
  assumes c: "file_on c n a S" and s: "in_tree s" "place_of s = Addr i" and f: "free_blks (superb c) (view (hq c)) \<noteq> {}"
  shows "\<exists>q' a'. map_direct n i c = Inr (slot_blk (view q') a' s, put_tree n q' a' c) \<and>
    fgrown (superb c) (hq c) a S 1 q' a' (insert s S)"
proof -
  let ?sb = "superb c" and ?q = "hq c"
  have T: "tree_on ?sb ?q a S" and n: "n < length (cache c)" "n_addrs (nd c n) = Some a" using c by (simp_all add: file_on_def)
  have l: "length a = 9" using tree_okD(1) [OF tree_onD(2) [OF T]] .
  have i: "i < 9" using place_bounds(1) [OF s] by simp
  have at: "attached S s" using s(2) by (simp add: attached_def)
  have ai: "slot_blk v a' s = a' ! i" for v a' using s(2) by (simp add: slot_blk_place)
  show ?thesis
  proof (cases "s \<in> S")
    case True
    then have "a ! i \<noteq> 0" using tree_okD(4) [OF tree_onD(2) [OF T] True] ai by simp
    then have "map_direct n i c = Inr (a ! i, c)" using n i l by (simp add: map_direct_def)
    moreover have "fgrown ?sb ?q a S 1 ?q a (insert s S)"
      using fgrown_weaken [OF fgrown_same_disk [OF _ T], of ?q 1] bitmap_okD(2) [OF tree_onD(1) [OF T]] True
      by (simp add: same_disk_def insert_absorb)
    moreover have "put_tree n ?q a c = c" using put_tree_same [OF n] by simp
    ultimately show ?thesis using ai by (intro exI [of _ ?q] exI [of _ a]) simp
  next
    case False
    then have "a ! i = 0" using tree_okD(5) [OF tree_onD(2) [OF T] s(1) at] ai by metis
    moreover obtain b q' where b: "b \<in> free_blks ?sb (view ?q)" "block_alloc ?sb ?q = Inr (of_nat b, q')" "hq_ok q' {}"
      "view q' = allocated ?sb b (view ?q)" "valid_blk q' = valid_blk ?q" using alloc_take [OF tree_onD(1) [OF T] f] by blast
    ultimately have "map_direct n i c = Inr (of_nat b, put_tree n q' (a[i := of_nat b]) c)"
      using n i l by (simp add: map_direct_def with_hq_def put_tree_def nd_def)
    with take_step [OF T s(1) at False b(1,3,5)] s(2) b(4) show ?thesis
      by (intro exI [of _ q'] exI [of _ "a[i := of_nat b]"]) simp
  qed
qed

lemma entry_grows:
  assumes T: "tree_on sb q a S" and s: "in_tree s" "place_of s = Entry p k" and p: "p \<in> S" and f: "free_blks sb (view q) \<noteq> {}"
  shows "\<exists>q'. map_entry sb (slot_blk (view q) a p) k q = Inr (slot_blk (view q') a s, q') \<and> fgrown sb q a S 1 q' a (insert s S)"
proof -
  have at: "attached S s" using s(2) p by (simp add: attached_def)
  have e: "slot_blk v a s = ind_entry v (slot_blk v a p) k" for v using s(2) by (simp add: slot_blk_place)
  show ?thesis
  proof (cases "s \<in> S")
    case True
    then have "ind_entry (view q) (slot_blk (view q) a p) k \<noteq> 0" using tree_okD(4) [OF tree_onD(2) [OF T] True] e by simp
    from map_entry_mapped [OF bitmap_okD(2) [OF tree_onD(1) [OF T]] _ this] tree_onD(3) [OF T p]
    obtain q' where q': "map_entry sb (slot_blk (view q) a p) k q = Inr (slot_blk (view q) a s, q')" "same_disk q q'"
      unfolding owned_blk_def e by blast
    with fgrown_weaken [OF fgrown_same_disk [OF q'(2) T], of 1] True show ?thesis
      by (intro exI [of _ q']) (simp add: same_disk_def insert_absorb)
  next
    case False
    then have "ind_entry (view q) (slot_blk (view q) a p) k = 0" using tree_okD(5) [OF tree_onD(2) [OF T] s(1) at] e by metis
    from map_entry_take [OF tree_onD(1) [OF T] tree_onD(3) [OF T p] this _ f] place_bounds(2) [OF s]
    obtain b q' where b: "b \<in> free_blks sb (view q)" "map_entry sb (slot_blk (view q) a p) k q = Inr (of_nat b, q')" "hq_ok q' {}"
      "view q' = (allocated sb b (view q))(slot_blk (view q) a p := wr32 (view q (slot_blk (view q) a p)) (4 * k) (of_nat b))"
      "valid_blk q' = valid_blk q" by blast
    with take_step [OF T s(1) at False b(1,3,5)] s(2) show ?thesis by (intro exI [of _ q']) simp
  qed
qed

lemma fgrown_free: "fgrown sb q a S k q' a' S' \<Longrightarrow> k + j < card (free_blks sb (view q)) \<Longrightarrow> j < card (free_blks sb (view q'))"
  using fgrownD(5) [of sb q a S k q' a' S'] by linarith

lemma card_free_pos: "j < card (free_blks sb v) \<Longrightarrow> free_blks sb v \<noteq> {}"
  by auto

lemma block_map_grows:
  assumes c: "file_on c n a S" and fbn: "fbn < MAX_BLOCKS" and f: "3 \<le> card (free_blks (superb c) (view (hq c)))"
  shows "\<exists>q' a' S'. block_map n fbn c = Inr (slot_blk (view q') a' (Dat fbn), put_tree n q' a' c) \<and>
    fgrown (superb c) (hq c) a S 3 q' a' S' \<and> Dat fbn \<in> S'"
proof -
  let ?sb = "superb c"
  have s: "in_tree (Dat fbn)" using fbn by simp
  have f0: "0 < card (free_blks ?sb (view (hq c)))" "1 + 0 < card (free_blks ?sb (view (hq c)))" "1 + 1 < card (free_blks ?sb (view (hq c)))"
    using f by simp_all
  consider (d) "fbn < NUM_DIRECT" | (i) "NUM_DIRECT \<le> fbn" "fbn < NUM_DIRECT + NUM_SIND" | (dd) "NUM_DIRECT + NUM_SIND \<le> fbn" by fastforce
  then show ?thesis
  proof cases
    case d
    with direct_grows [OF c s _ card_free_pos [OF f0(1)], of fbn] obtain q' a' where
      g: "map_direct n fbn c = Inr (slot_blk (view q') a' (Dat fbn), put_tree n q' a' c)" "fgrown ?sb (hq c) a S 1 q' a' (insert (Dat fbn) S)"
      by auto
    with d fgrown_weaken [OF g(2), of 3] show ?thesis by (intro exI [of _ q'] exI [of _ a'] exI [of _ "insert (Dat fbn) S"]) (simp add: block_map_def)
  next
    case i
    from direct_grows [OF c _ _ card_free_pos [OF f0(1)], of Sind SIND_IDX] obtain q1 a1 where
      g1: "map_direct n SIND_IDX c = Inr (slot_blk (view q1) a1 Sind, put_tree n q1 a1 c)" "fgrown ?sb (hq c) a S 1 q1 a1 (insert Sind S)"
      by auto
    from entry_grows [OF fgrownD(1) [OF g1(2)] s _ _ card_free_pos [OF fgrown_free [OF g1(2) f0(2)]], of Sind "fbn - NUM_DIRECT"] i obtain q2 where
      g2: "map_entry ?sb (slot_blk (view q1) a1 Sind) (fbn - NUM_DIRECT) q1 = Inr (slot_blk (view q2) a1 (Dat fbn), q2)"
        "fgrown ?sb q1 a1 (insert Sind S) 1 q2 a1 (insert (Dat fbn) (insert Sind S))" by auto
    have "block_map n fbn c = Inr (slot_blk (view q2) a1 (Dat fbn), put_tree n q2 a1 c)"
      using i g1(1) g2(1) by (simp add: block_map_def with_hq_def put_tree_def nset_def)
    with fgrown_weaken [OF fgrown_trans [OF g1(2) g2(2)], of 3] show ?thesis
      by (intro exI [of _ q2] exI [of _ a1] exI [of _ "insert (Dat fbn) (insert Sind S)"]) simp
  next
    case dd
    let ?m = "mid_idx fbn" and ?k = "sub_idx fbn"
    from direct_grows [OF c _ _ card_free_pos [OF f0(1)], of Dind DIND_IDX] obtain q1 a1 where
      g1: "map_direct n DIND_IDX c = Inr (slot_blk (view q1) a1 Dind, put_tree n q1 a1 c)" "fgrown ?sb (hq c) a S 1 q1 a1 (insert Dind S)"
      by auto
    from entry_grows [OF fgrownD(1) [OF g1(2)] _ _ _ card_free_pos [OF fgrown_free [OF g1(2) f0(2)]], of "Mid ?m" Dind ?m] idx_bounds(1) [OF fbn] obtain q2 where
      g2: "map_entry ?sb (slot_blk (view q1) a1 Dind) ?m q1 = Inr (slot_blk (view q2) a1 (Mid ?m), q2)"
        "fgrown ?sb q1 a1 (insert Dind S) 1 q2 a1 (insert (Mid ?m) (insert Dind S))" by auto
    have f2: "0 < card (free_blks ?sb (view q2))" using fgrown_free [OF g2(2), of 0] fgrown_free [OF g1(2) f0(3)] by simp
    from entry_grows [OF fgrownD(1) [OF g2(2)] s _ _ card_free_pos [OF f2], of "Mid ?m" ?k] dd obtain q3 where
      g3: "map_entry ?sb (slot_blk (view q2) a1 (Mid ?m)) ?k q2 = Inr (slot_blk (view q3) a1 (Dat fbn), q3)"
        "fgrown ?sb q2 a1 (insert (Mid ?m) (insert Dind S)) 1 q3 a1 (insert (Dat fbn) (insert (Mid ?m) (insert Dind S)))" by (auto simp: NUM_DIRECT_def)
    have "block_map n fbn c = Inr (slot_blk (view q3) a1 (Dat fbn), put_tree n q3 a1 c)"
      using dd fbn g1(1) g2(1) g3(1)
      by (simp add: block_map_def with_hq_def put_tree_def nset_def Let_def mid_idx_def sub_idx_def MAX_BLOCKS_def)
    with fgrown_trans [OF fgrown_trans [OF g1(2) g2(2)] g3(2)] show ?thesis
      by (intro exI [of _ q3] exI [of _ a1] exI [of _ "insert (Dat fbn) (insert (Mid ?m) (insert Dind S))"]) (simp add: numeral_3_eq_3)
  qed
qed

section \<open>Writing\<close>

text \<open>
  \<open>written\<close>: the bytes \<open>xs\<close> are in the file from position \<open>p\<close> on. Blocks in use by others have not changed, are
  still in use and have not become part of the file.
\<close>

definition written :: "cofs_superblock \<Rightarrow> buf_queue \<Rightarrow> u32 list \<Rightarrow> slot set \<Rightarrow> nat \<Rightarrow> nat \<Rightarrow> u8 list \<Rightarrow> buf_queue \<Rightarrow> u32 list \<Rightarrow> slot set \<Rightarrow> bool" where
  "written sb q a S k p xs q' a' S' \<longleftrightarrow> tree_on sb q' a' S' \<and> vwritten (view q) a S p xs (view q') a' S' \<and>
     card (free_blks sb (view q)) \<le> card (free_blks sb (view q')) + k \<and>
     (\<forall>x. owned_blk sb q x \<and> x \<notin> slot_blk (view q) a ` S \<longrightarrow>
        owned_blk sb q' x \<and> x \<notin> slot_blk (view q') a' ` S' \<and> view q' x = view q x)"

lemma writtenD:
  assumes "written sb q a S k p xs q' a' S'"
  shows "tree_on sb q' a' S'" "vwritten (view q) a S p xs (view q') a' S'"
    "card (free_blks sb (view q)) \<le> card (free_blks sb (view q')) + k"
    "owned_blk sb q y \<Longrightarrow> y \<notin> slot_blk (view q) a ` S \<Longrightarrow> owned_blk sb q' y \<and> y \<notin> slot_blk (view q') a' ` S' \<and> view q' y = view q y"
  using assms unfolding written_def by blast+

lemma written_nil: "tree_on sb q a S \<Longrightarrow> written sb q a S 0 p [] q a S"
  using vwritten_nil tree_onD(2) by (auto simp: written_def)

lemma written_trans:
  assumes "written sb q a S k p xs q1 a1 S1" and "written sb q1 a1 S1 l (p + length xs) ys q2 a2 S2"
  shows "written sb q a S (k + l) p (xs @ ys) q2 a2 S2"
  using assms vwritten_trans [OF writtenD(2) [OF assms(1)] writtenD(2) [OF assms(2)]] by (auto simp: written_def)

lemma owned_upd:
  assumes B: "bitmap_ok sb q" and x: "owned_blk sb q x" and q': "hq_ok q' {}" "valid_blk q' = valid_blk q" "view q' = (view q)(x := d)"
  shows "bitmap_ok sb q'" "owned_blk sb q' = owned_blk sb q" "free_blks sb (view q') = free_blks sb (view q)"
proof -
  have lim: "0 < bm_count sb * BITS_PER_BLOCK" using x unfolding owned_blk_def by linarith
  have used: "blk_used (view q') sb c = blk_used (view q) sb c" if "c < bm_count sb * BITS_PER_BLOCK" for c
  proof -
    have "x \<noteq> bm_block sb c" using x that by (auto simp: owned_blk_def is_bm_def)
    then show ?thesis using q'(3) by (simp add: blk_used_def)
  qed
  show "owned_blk sb q' = owned_blk sb q" using used q'(2) by (auto simp: owned_blk_def fun_eq_iff)
  show "free_blks sb (view q') = free_blks sb (view q)" using used by (auto simp: free_blks_def)
  show "bitmap_ok sb q'" using B used used [OF lim] q'(1,2) by (auto simp: bitmap_ok_def alloc_ok_def)
qed

text \<open>Writing to a block outside the file.\<close>

lemma tree_on_upd:
  assumes T: "tree_on sb q a S" and x: "owned_blk sb q x" "x \<notin> slot_blk (view q) a ` S"
    and q': "hq_ok q' {}" "valid_blk q' = valid_blk q" "view q' = (view q)(x := d)"
  shows "tree_on sb q' a S" "s \<in> S \<Longrightarrow> slot_blk (view q') a s = slot_blk (view q) a s"
    "Dat (p div BLOCK_SIZE) \<in> S \<Longrightarrow> file_byte (view q') a p = file_byte (view q) a p"
proof -
  note U = owned_upd [OF tree_onD(1) [OF T] x(1) q']
  have "view q' (slot_blk (view q) a t) = view q (slot_blk (view q) a t)" if "t \<in> S" for t using q'(3) x(2) that by auto
  note F = tree_frame [OF tree_onD(2) [OF T] this]
  show "tree_on sb q' a S" using F(1,2) U(1,2) tree_onD(3) [OF T] by (simp add: tree_on_def)
  show "s \<in> S \<Longrightarrow> slot_blk (view q') a s = slot_blk (view q) a s"
    "Dat (p div BLOCK_SIZE) \<in> S \<Longrightarrow> file_byte (view q') a p = file_byte (view q) a p" by (rule F, assumption+)+
qed

text \<open>Writing into a data block of a file that has just grown.\<close>

lemma write_data:
  assumes g: "fgrown sb q a S k q1 a1 S1" and f: "Dat f \<in> S1" and p: "p div BLOCK_SIZE = f" "p mod BLOCK_SIZE + length xs \<le> BLOCK_SIZE"
    and q2: "hq_ok q2 {}" "valid_blk q2 = valid_blk q1"
      "view q2 = (view q1)(slot_blk (view q1) a1 (Dat f) := splice (view q1 (slot_blk (view q1) a1 (Dat f))) (p mod BLOCK_SIZE) xs)"
  shows "written sb q a S k p xs q2 a1 S1"
proof -
  let ?v = "view q1" and ?b = "slot_blk (view q1) a1 (Dat f)"
  note T = tree_onD [OF fgrownD(1) [OF g]] and D = vwritten_data [OF fgrownD(2) [OF g] f p q2(3)]
  note W = owned_upd [OF T(1) T(3) [OF f] q2]
  have on: "tree_on sb q2 a1 S1" using vwrittenD(1) [OF D(1)] D(2) T(3) W(1,2) by (simp add: tree_on_def)
  have "owned_blk sb q2 x \<and> x \<notin> slot_blk (view q2) a1 ` S1 \<and> view q2 x = view q x"
    if x: "owned_blk sb q x" "x \<notin> slot_blk (view q) a ` S" for x
  proof -
    have n: "x \<notin> slot_blk ?v a1 ` S1" using fgrown_foreign [OF g x] .
    then have "x \<noteq> ?b" using f by blast
    moreover have "slot_blk (view q2) a1 ` S1 = slot_blk ?v a1 ` S1" using D(2) by (intro image_cong) auto
    ultimately show ?thesis using n x fgrown_owned [OF g x(1)] W(2) fgrownD(7) [OF g x] q2(3) by simp
  qed
  then show ?thesis using on D(1) fgrownD(5) [OF g] W(3) by (simp add: written_def)
qed

lemma write_loop_grows:
  assumes "file_on c n a S" and "unat offs + length buf \<le> MAX_BLOCKS * BLOCK_SIZE"
    and "3 * card (touched (unat offs) (length buf)) \<le> card (free_blks (superb c) (view (hq c)))"
  shows "\<exists>q' a' S'. write_loop n offs buf c = Inr (offs + of_nat (length buf), put_tree n q' a' c) \<and>
    written (superb c) (hq c) a S (3 * card (touched (unat offs) (length buf))) (unat offs) buf q' a' S'"
  using assms
proof (induction "length buf" arbitrary: offs buf c a S rule: less_induct)
  case less
  let ?p = "unat offs" and ?sb = "superb c"
  have T: "tree_on ?sb (hq c) a S" and n: "n < length (cache c)" "n_addrs (nd c n) = Some a" using less.prems(1) by (simp_all add: file_on_def)
  show ?case
  proof (cases "buf = []")
    case True
    with written_nil [OF T] put_tree_same [OF n, of "hq c"] show ?thesis
      by (intro exI [of _ "hq c"] exI [of _ a] exI [of _ S]) (simp add: write_loop.simps touched_def)
  next
    case False
    let ?k = "min (length buf) (BLOCK_SIZE - ?p mod BLOCK_SIZE)" and ?f = "?p div BLOCK_SIZE"
    have k: "0 < ?k" "?k \<le> length buf" "?p mod BLOCK_SIZE + ?k \<le> BLOCK_SIZE" using False by (auto simp: BLOCK_SIZE_def min_def)
    note tch = touched_step [of "length buf" ?k ?p, OF _ refl]
    have card: "card (touched ?p (length buf)) = Suc (card (touched (?p + ?k) (length buf - ?k)))"
      using tch False card_insert_disjoint [OF finite_touched tch(2)] by simp
    have lim: "MAX_BLOCKS * BLOCK_SIZE < 2 ^ 32" by (simp add: MAX_BLOCKS_def idx_defs BLOCK_SIZE_def)
    have fb: "?f < MAX_BLOCKS" using less.prems(2) False by (intro less_mult_imp_div_less) (cases buf; simp)
    from block_map_grows [OF less.prems(1) fb] less.prems(3) card obtain q1 a1 S1 where
      g: "block_map n ?f c = Inr (slot_blk (view q1) a1 (Dat ?f), put_tree n q1 a1 c)" "fgrown ?sb (hq c) a S 3 q1 a1 S1" "Dat ?f \<in> S1" by auto
    let ?b = "slot_blk (view q1) a1 (Dat ?f)" and ?s = "\<lambda>d. splice d (?p mod BLOCK_SIZE) (take ?k buf)"
    note T1 = tree_onD [OF fgrownD(1) [OF g(2)]]
    have "length (?s (view q1 ?b)) = BLOCK_SIZE" using tree_okD(7) [OF T1(2) g(3)] k by simp
    moreover have "valid_blk q1 ?b" using T1(3) [OF g(3)] by (simp add: owned_blk_def)
    ultimately obtain h q2 q3 where q3: "get_hd_buf ?b q1 = Inr (h, q2)" "put_hd_buf h (hwrite h ?s q2) = Inr q3" "hq_ok q3 {}"
        "view q3 = (view q1)(?b := ?s (view q1 ?b))" "valid_blk q3 = valid_blk q1"
      using fetch_modify_release_empty [OF bitmap_okD(2) [OF T1(1)], where f = ?s] by blast
    have w: "written ?sb (hq c) a S 3 ?p (take ?k buf) q3 a1 S1"
      by (rule write_data [OF g(2,3) refl _ q3(3,5,4)]) (use k in simp)
    let ?c = "put_tree n q3 a1 c"
    have st: "write_loop n offs buf c = write_loop n (offs + of_nat ?k) (drop ?k buf) ?c"
      using False g(1) q3(1,2) by (simp add: write_loop.simps [of n offs buf c] with_hq_def on_hq_def Let_def)
    have p': "unat (offs + of_nat ?k) = ?p + ?k" using less.prems(2) k(2) lim by (simp add: unat_word_ariths unat_of_nat)
    have c': "file_on ?c n a1 S1" using n writtenD(1) [OF w] by (simp add: file_on_def)
    have free: "3 * card (touched (?p + ?k) (length buf - ?k)) \<le> card (free_blks ?sb (view q3))"
      using writtenD(3) [OF w] less.prems(3) card by simp
    have short: "length (drop ?k buf) < length buf" using k by simp
    have bound: "unat (offs + of_nat ?k) + length (drop ?k buf) \<le> MAX_BLOCKS * BLOCK_SIZE" using p' k less.prems(2) by simp
    have fr: "3 * card (touched (unat (offs + of_nat ?k)) (length (drop ?k buf))) \<le> card (free_blks (superb ?c) (view (hq ?c)))"
      using free unfolding p' by simp
    from less.hyps [OF short c' bound fr] obtain q4 a4 S4 where
      r: "write_loop n (offs + of_nat ?k) (drop ?k buf) ?c = Inr (offs + of_nat ?k + of_nat (length (drop ?k buf)), put_tree n q4 a4 c)"
        "written ?sb q3 a1 S1 (3 * card (touched (?p + ?k) (length buf - ?k))) (?p + ?k) (drop ?k buf) q4 a4 S4"
      unfolding p' by auto
    have "length (take ?k buf) = ?k" by simp
    with written_trans [OF w, of "3 * card (touched (?p + ?k) (length buf - ?k))" "drop ?k buf" q4 a4 S4] r(2)
    have "written ?sb (hq c) a S (3 + 3 * card (touched (?p + ?k) (length buf - ?k))) ?p (take ?k buf @ drop ?k buf) q4 a4 S4" by simp
    moreover have "offs + of_nat ?k + of_nat (length (drop ?k buf)) = offs + of_nat (length buf)"
      using k(2) by (simp add: add.assoc flip: of_nat_add)
    ultimately show ?thesis using st r(1) card by (intro exI [of _ q4] exI [of _ a4] exI [of _ S4]) simp
  qed
qed

section \<open>A file is an array of bytes\<close>

text \<open>
  What a client expects of a file: reading gives the bytes at a position, as many as there are; writing
  replaces bytes and extends the file, if there is room; neither touches what does not belong to the file.
\<close>

locale byte_file =
  fixes ok :: "'s \<Rightarrow> bool"
    and content :: "'s \<Rightarrow> 'b list"
    and foreign :: "'s \<Rightarrow> 'x \<Rightarrow> bool"
    and outside :: "'s \<Rightarrow> 'x \<Rightarrow> 'd"
    and room :: "'s \<Rightarrow> nat \<Rightarrow> nat \<Rightarrow> bool"
    and limit :: nat
    and get :: "nat \<Rightarrow> nat \<Rightarrow> 's \<Rightarrow> ('b list \<times> 's) kres"
    and put :: "nat \<Rightarrow> 'b list \<Rightarrow> 's \<Rightarrow> (nat \<times> 's) kres"
  assumes size_law: "ok s \<Longrightarrow> length (content s) \<le> limit"
    and read_law: "ok s \<Longrightarrow> p \<le> length (content s) \<Longrightarrow> p + k \<le> limit \<Longrightarrow>
      \<exists>s'. get p k s = Inr (take k (drop p (content s)), s') \<and> ok s' \<and> content s' = content s \<and>
        (\<forall>x. foreign s x \<longrightarrow> foreign s' x \<and> outside s' x = outside s x)"
    and write_law: "ok s \<Longrightarrow> p \<le> length (content s) \<Longrightarrow> room s p (length xs) \<Longrightarrow>
      \<exists>s'. put p xs s = Inr (length xs, s') \<and> ok s' \<and> content s' = splice (content s) p xs \<and>
        (\<forall>x. foreign s x \<longrightarrow> foreign s' x \<and> outside s' x = outside s x)"
begin

text \<open>What is written is read, within the file or across its end.\<close>

lemma write_read:
  assumes "ok s" "p \<le> length (content s)" "room s p (length xs)"
  shows "\<exists>s1 s2. put p xs s = Inr (length xs, s1) \<and> ok s1 \<and> content s1 = splice (content s) p xs \<and>
    get p (length xs) s1 = Inr (xs, s2) \<and> ok s2 \<and> content s2 = content s1 \<and>
    (\<forall>x. foreign s x \<longrightarrow> foreign s2 x \<and> outside s2 x = outside s x)"
proof -
  from write_law [OF assms] obtain s1 where w: "put p xs s = Inr (length xs, s1)" "ok s1" "content s1 = splice (content s) p xs"
    "\<forall>x. foreign s x \<longrightarrow> foreign s1 x \<and> outside s1 x = outside s x" by blast
  have l: "p + length xs \<le> length (content s1)" using w(3) assms(2) by (simp add: splice_def)
  with size_law [OF w(2)] read_law [OF w(2), of p "length xs"] obtain s2 where
    r: "get p (length xs) s1 = Inr (take (length xs) (drop p (content s1)), s2)" "ok s2" "content s2 = content s1"
    "\<forall>x. foreign s1 x \<longrightarrow> foreign s2 x \<and> outside s2 x = outside s1 x" by auto
  have "take (length xs) (drop p (content s1)) = xs" using w(3) assms(2) by (simp add: splice_def)
  with w r show ?thesis by (intro exI [of _ s1] exI [of _ s2]) simp
qed

text \<open>A write at the end appends.\<close>

lemma append_read:
  assumes "ok s" "room s (length (content s)) (length xs)"
  shows "\<exists>s1 s2. put (length (content s)) xs s = Inr (length xs, s1) \<and> ok s1 \<and> content s1 = content s @ xs \<and>
    get 0 (length (content s) + length xs) s1 = Inr (content s @ xs, s2)"
proof -
  from write_law [OF assms(1) order_refl assms(2)] obtain s1 where
    w: "put (length (content s)) xs s = Inr (length xs, s1)" "ok s1" "content s1 = content s @ xs" by (auto simp: splice_def)
  with size_law [OF w(2)] read_law [OF w(2), of 0 "length (content s) + length xs"] show ?thesis by auto
qed

end

definition ino_blk :: "nat \<Rightarrow> cofs \<Rightarrow> u32" where
  "ino_blk n c = INO_BLK (n_inode (nd c n)) (superb c)"

definition file_tree :: "nat \<Rightarrow> cofs \<Rightarrow> u32 list \<Rightarrow> slot set \<Rightarrow> bool" where
  "file_tree n c a S \<longleftrightarrow> file_on c n a S \<and> covers S (unat (n_size (nd c n))) \<and> unat (n_size (nd c n)) \<le> MAX_BLOCKS * BLOCK_SIZE \<and>
     owned_blk (superb c) (hq c) (ino_blk n c) \<and> ino_blk n c \<notin> slot_blk (view (hq c)) a ` S"

text \<open>
  \<open>cofs_file\<close>: the node \<open>n\<close> is a file whose blocks are in place. \<open>file_content\<close>: its bytes. \<open>foreign\<close>: a block that is
  in use and is neither one of the file nor the one that holds its inode. \<open>file_room\<close>: there are enough free
  blocks for a write, three for each block it touches.
\<close>

definition cofs_file :: "nat \<Rightarrow> cofs \<Rightarrow> bool" where
  "cofs_file n c \<longleftrightarrow> (\<exists>a S. file_tree n c a S)"

definition file_content :: "nat \<Rightarrow> cofs \<Rightarrow> u8 list" where
  "file_content n c = contents (view (hq c)) (the (n_addrs (nd c n))) (unat (n_size (nd c n)))"

definition foreign_blk :: "nat \<Rightarrow> cofs \<Rightarrow> u32 \<Rightarrow> bool" where
  "foreign_blk n c x \<longleftrightarrow> owned_blk (superb c) (hq c) x \<and> x \<noteq> ino_blk n c \<and>
     (\<forall>a S. file_on c n a S \<longrightarrow> x \<notin> slot_blk (view (hq c)) a ` S)"

definition file_room :: "cofs \<Rightarrow> nat \<Rightarrow> nat \<Rightarrow> bool" where
  "file_room c p k \<longleftrightarrow> p + k \<le> MAX_WRITE \<and> 3 * card (touched p k) \<le> card (free_blks (superb c) (view (hq c)))"

definition blk_outside :: "cofs \<Rightarrow> u32 \<Rightarrow> u8 list" where
  "blk_outside c = view (hq c)"

lemma file_on_unique: "file_on c n a S \<Longrightarrow> file_on c n b T \<Longrightarrow> a = b \<and> S = T"
  using tree_unique by (auto simp: file_on_def tree_on_def)

lemma foreign_file_on: "file_on c n a S \<Longrightarrow> foreign_blk n c x \<longleftrightarrow> owned_blk (superb c) (hq c) x \<and> x \<noteq> ino_blk n c \<and> x \<notin> slot_blk (view (hq c)) a ` S"
proof -
  assume f: "file_on c n a S"
  then have "file_on c n b T \<longleftrightarrow> b = a \<and> T = S" for b T using file_on_unique [OF f] by blast
  then show ?thesis by (auto simp: foreign_blk_def)
qed

lemma file_content_eq: "file_on c n a S \<Longrightarrow> file_content n c = contents (view (hq c)) a (unat (n_size (nd c n)))"
  by (simp add: file_content_def file_on_def)

lemma tree_mapped:
  assumes "file_on c n a S" "Dat f \<in> S"
  shows "mapped (hq c) a f"
proof -
  have T: "tree_on (superb c) (hq c) a S" using assms(1) by (simp add: file_on_def)
  note O = tree_onD(2,3) [OF T]
  have "b \<noteq> 0 \<and> valid_blk (hq c) b" if "b \<in> set (file_addr (view (hq c)) a f # index_path (view (hq c)) a f)" for b
    using path_slots [OF O(1) assms(2) that] tree_okD(4) [OF O(1)] O(2) by (auto simp: owned_blk_def)
  with tree_okD(2) [OF O(1) assms(2)] show ?thesis by (simp add: mapped_def MAX_BLOCKS_def)
qed

lemma take_drop_contents: "take k (drop p (contents v a m)) = map (file_byte v a) [p..<min m (p + k)]"
  by (simp add: contents_def drop_map take_map min_def)

lemma cofs_read_file:
  assumes c: "file_tree n c a S" and p: "p \<le> unat (n_size (nd c n))" "p + k \<le> MAX_BLOCKS * BLOCK_SIZE"
  shows "\<exists>q'. cofs_read n (of_nat p) (of_nat k) c = Inr (take k (drop p (file_content n c)), c\<lparr>hq := q'\<rparr>) \<and> same_disk (hq c) q'"
proof -
  let ?m = "unat (n_size (nd c n))" and ?v = "view (hq c)"
  have F: "file_on c n a S" "covers S ?m" using c by (simp_all add: file_tree_def)
  have lim: "MAX_BLOCKS * BLOCK_SIZE < 2 ^ 32" by (simp add: MAX_BLOCKS_def idx_defs BLOCK_SIZE_def)
  have up: "unat (of_nat p :: u32) = p" "unat (of_nat k :: u32) = k" "unat (of_nat p + of_nat k :: u32) = p + k"
    using p lim by (simp_all add: unat_of_nat unat_word_ariths)
  have fo: "file_ok c n a"
    using F(1) tree_okD(1) [OF tree_onD(2)] bitmap_okD(2) [OF tree_onD(1)] by (auto simp: file_ok_def file_on_def)
  let ?l = "unat (if n_size (nd c n) < of_nat p + of_nat k then n_size (nd c n) - of_nat p else of_nat k)"
  have l: "?l = min ?m (p + k) - p"
    using p(1) up by (auto simp: word_less_nat_alt unat_sub word_le_nat_alt)
  have "\<forall>x. p \<le> x \<and> x < p + ?l \<longrightarrow> mapped (hq c) a (x div BLOCK_SIZE)"
    unfolding l using F tree_mapped [OF F(1)] by (auto simp: covers_def)
  moreover have "unat (of_nat p :: u32) + ?l < 2 ^ 32" unfolding l using up(1) p lim by simp
  ultimately obtain q' where "read_loop n (of_nat p) ?l c = Inr (map (file_byte ?v a) [p..<p + ?l], c\<lparr>hq := q'\<rparr>)" "same_disk (hq c) q'"
    using read_loop_mapped [OF fo, of "of_nat p" ?l] unfolding up(1) by blast
  moreover have "p + ?l = min ?m (p + k)" unfolding l using p(1) by simp
  moreover have "\<not> n_size (nd c n) < of_nat p" using p(1) up(1) by (simp add: word_less_nat_alt)
  ultimately show ?thesis by (intro exI [of _ q']) (simp add: cofs_read_def file_content_eq [OF F(1)] take_drop_contents)
qed

lemma MAX_WRITE_blocks: "MAX_WRITE \<le> MAX_BLOCKS * BLOCK_SIZE" "MAX_BLOCKS * BLOCK_SIZE < 2 ^ 32"
  by (simp_all add: MAX_WRITE_def MAX_BLOCKS_def idx_defs BLOCK_SIZE_def)

text \<open>The size of a file that has grown goes to its inode on disk.\<close>

lemma resize_ok:
  assumes n: "n < length (cache c)" and T: "tree_on (superb c) q a S" and cv: "covers S m" "m \<le> MAX_BLOCKS * BLOCK_SIZE"
    and ino: "owned_blk (superb c) q (ino_blk n c)" "ino_blk n c \<notin> slot_blk (view q) a ` S"
  defines "c2 \<equiv> nset n (n_size_update (\<lambda>_. of_nat m)) (put_tree n q a c)"
  shows "\<exists>c3. cofs_update_node n c2 = Inr c3 \<and> file_tree n c3 a S \<and> nd c3 n = (nd c n)\<lparr>n_addrs := Some a, n_size := of_nat m\<rparr> \<and>
    file_content n c3 = contents (view q) a m \<and> superb c3 = superb c \<and> owned_blk (superb c) (hq c3) = owned_blk (superb c) q \<and>
    slot_blk (view (hq c3)) a ` S = slot_blk (view q) a ` S \<and> (\<forall>x. x \<noteq> ino_blk n c \<longrightarrow> view (hq c3) x = view q x) \<and>
    inode_at (n_inode (nd c n)) (view (hq c3) (ino_blk n c)) = node_inode (nd c3 n) a"
proof -
  have l9: "length a = 9" and ok: "hq_ok q {}" using tree_okD(1) [OF tree_onD(2) [OF T]] bitmap_okD(2) [OF tree_onD(1) [OF T]] by blast+
  have um: "unat (of_nat m :: u32) = m" using cv(2) MAX_WRITE_blocks(2) by (simp add: unat_of_nat)
  have n2: "nd c2 n = (nd c n)\<lparr>n_addrs := Some a, n_size := of_nat m\<rparr>" "superb c2 = superb c" "hq c2 = q" "n < length (cache c2)"
    using n put_tree_simps(4) [OF n] by (simp_all add: c2_def nset_def nd_def)
  have ib: "INO_BLK (n_inode (nd c2 n)) (superb c2) = ino_blk n c" using n2 by (simp add: ino_blk_def)
  have "file_ok c2 n a" using n2 l9 ok by (simp add: file_ok_def)
  from update_node_ok [OF this, unfolded ib n2(3)] ino(1) obtain q3 where
    q3: "cofs_update_node n c2 = Inr (c2\<lparr>hq := q3\<rparr>)" "hq_ok q3 {}" "valid_blk q3 = valid_blk q"
      "view q3 = (view q)(ino_blk n c := set_inode_at (n_inode (nd c n)) (node_inode (nd c2 n) a) (view q (ino_blk n c)))"
    unfolding n2(1) by (auto simp: owned_blk_def)
  let ?c3 = "c2\<lparr>hq := q3\<rparr>"
  have n3: "nd ?c3 n = nd c2 n" "superb ?c3 = superb c" "hq ?c3 = q3" "n < length (cache ?c3)" using n2 by (simp_all add: nd_def)
  note V = tree_on_upd [OF T ino q3(2,3,4)] and O = owned_upd(2) [OF tree_onD(1) [OF T] ino(1) q3(2,3,4)]
  have img: "slot_blk (view q3) a ` S = slot_blk (view q) a ` S" using V(2) by (intro image_cong) auto
  have on: "file_on ?c3 n a S" using n3 n2(1) V(1) by (simp add: file_on_def)
  moreover have "file_tree n ?c3 a S" using on cv um n2(1) n3 ino O img by (simp add: file_tree_def ino_blk_def)
  moreover have "file_content n ?c3 = contents (view q) a m"
    unfolding file_content_eq [OF on] using cv(1) V(3) um n2(1) n3 by (auto simp: covers_def intro!: contents_cong)
  moreover have "inode_at (n_inode (nd c n)) (view q3 (ino_blk n c)) = node_inode (nd c2 n) a"
    unfolding q3(4) fun_upd_same
    using inode_at_same l9 hq_ok_view_length [OF ok] ino(1) by (simp add: node_inode_def owned_blk_def BLOCK_SIZE_def)
  ultimately show ?thesis
    using q3(1,4) n2(1) n3 O img by (intro exI [of _ ?c3]) simp
qed

text \<open>The state after a write: within the file only blocks change, beyond its end the size and the inode on disk too.\<close>

lemma cofs_write_file:
  assumes c: "file_tree n c a S" and p: "p \<le> unat (n_size (nd c n))" and r: "file_room c p (length xs)"
  defines "m \<equiv> max (unat (n_size (nd c n))) (p + length xs)"
  shows "\<exists>c' a' S'. cofs_write n (of_nat p) (of_nat (length xs)) xs c = Inr (of_nat (length xs), c') \<and> file_tree n c' a' S' \<and>
    file_content n c' = splice (file_content n c) p xs \<and> nd c' n = (nd c n)\<lparr>n_addrs := Some a', n_size := of_nat m\<rparr> \<and>
    (\<forall>x. foreign_blk n c x \<longrightarrow> foreign_blk n c' x \<and> blk_outside c' x = blk_outside c x) \<and>
    (unat (n_size (nd c n)) < m \<longrightarrow> inode_at (n_inode (nd c n)) (view (hq c') (ino_blk n c)) = node_inode (nd c' n) a')"
proof -
  let ?sb = "superb c" and ?z = "n_size (nd c n)" and ?l = "of_nat (length xs) :: u32" and ?o = "of_nat p :: u32"
  have F: "file_on c n a S" "covers S (unat ?z)" "owned_blk ?sb (hq c) (ino_blk n c)" "ino_blk n c \<notin> slot_blk (view (hq c)) a ` S"
    "unat ?z \<le> MAX_BLOCKS * BLOCK_SIZE" using c by (simp_all add: file_tree_def)
  have n: "n < length (cache c)" "n_addrs (nd c n) = Some a" using F(1) by (simp_all add: file_on_def)
  have lim: "p + length xs \<le> MAX_WRITE" "p + length xs \<le> MAX_BLOCKS * BLOCK_SIZE" "p + length xs < 2 ^ 32" "m \<le> MAX_BLOCKS * BLOCK_SIZE" "m < 2 ^ 32"
    using r MAX_WRITE_blocks F(5) by (auto simp: file_room_def m_def)
  have u: "unat ?o = p" "unat ?l = length xs" "unat (?o + ?l) = p + length xs" "unat (of_nat m :: u32) = m"
    using lim(3,5) by (simp_all add: unat_of_nat unat_word_ariths)
  from write_loop_grows [OF F(1), of ?o xs] lim(2) r obtain q1 a1 S1 k where
    w: "write_loop n ?o xs c = Inr (?o + ?l, put_tree n q1 a1 c)" "written ?sb (hq c) a S k p xs q1 a1 S1"
    unfolding u file_room_def by blast
  note W = writtenD [OF w(2)] and C = contents_vwritten [OF writtenD(2) [OF w(2)] F(2) p, folded m_def]
  let ?c1 = "put_tree n q1 a1 c"
  have ino: "owned_blk ?sb q1 (ino_blk n c)" "ino_blk n c \<notin> slot_blk (view q1) a1 ` S1" using W(4) [OF F(3,4)] by blast+
  have fo: "foreign_blk n c x \<longleftrightarrow> owned_blk ?sb (hq c) x \<and> x \<noteq> ino_blk n c \<and> x \<notin> slot_blk (view (hq c)) a ` S" for x
    by (rule foreign_file_on [OF F(1)])
  have fc: "splice (file_content n c) p xs = contents (view q1) a1 m" using C(2) file_content_eq [OF F(1)] by simp
  show ?thesis
  proof (cases "unat ?z < m")
    case False
    then have m: "m = unat ?z" "\<not> ?z < ?o + ?l" by (simp_all add: m_def word_less_nat_alt u)
    have nd1: "nd ?c1 n = (nd c n)\<lparr>n_addrs := Some a1, n_size := of_nat m\<rparr>" using put_tree_simps(4) [OF n(1)] m(1) by simp
    have "cofs_write n ?o ?l xs c = Inr (?l, ?c1)"
      using w(1) m(2) p lim(1) u n(1) by (simp add: cofs_write_def word_less_nat_alt)
    moreover have on: "file_on ?c1 n a1 S1" using n W(1) by (simp add: file_on_def)
    moreover have "file_tree n ?c1 a1 S1" using on C(1) lim(4) ino u(4) nd1 by (simp add: file_tree_def ino_blk_def)
    ultimately show ?thesis
      using False nd1 fc u(4) W(4) foreign_file_on [OF on] fo ino_blk_def
      by (intro exI [of _ ?c1] exI [of _ a1] exI [of _ S1]) (simp add: file_content_eq [OF on] ino_blk_def blk_outside_def)
  next
    case True
    then have m: "of_nat m = ?o + ?l" "?z < ?o + ?l" "0 < ?l"
      using p u by (auto simp: m_def word_less_nat_alt max_def split: if_splits)
    from resize_ok [OF n(1) W(1) C(1) lim(4) ino] obtain c3 where
      q3: "cofs_update_node n (nset n (n_size_update (\<lambda>_. of_nat m)) ?c1) = Inr c3" "file_tree n c3 a1 S1"
        "nd c3 n = (nd c n)\<lparr>n_addrs := Some a1, n_size := of_nat m\<rparr>" "file_content n c3 = contents (view q1) a1 m" "superb c3 = ?sb"
        "owned_blk ?sb (hq c3) = owned_blk ?sb q1" "slot_blk (view (hq c3)) a1 ` S1 = slot_blk (view q1) a1 ` S1"
        "\<forall>x. x \<noteq> ino_blk n c \<longrightarrow> view (hq c3) x = view q1 x"
        "inode_at (n_inode (nd c n)) (view (hq c3) (ino_blk n c)) = node_inode (nd c3 n) a1" by blast
    have on: "file_on c3 n a1 S1" using q3(2) by (simp add: file_tree_def)
    have "cofs_write n ?o ?l xs c = Inr (?l, c3)"
      using w(1) m p lim(1) u n(1) q3(1) by (simp add: cofs_write_def word_less_nat_alt)
    moreover have "foreign_blk n c3 x \<and> view (hq c3) x = view (hq c) x" if "foreign_blk n c x" for x
      using that W(4) [of x] q3 unfolding foreign_file_on [OF on] fo by (simp add: ino_blk_def)
    ultimately show ?thesis using q3 fc by (intro exI [of _ c3] exI [of _ a1] exI [of _ S1]) (simp add: blk_outside_def)
  qed
qed

section \<open>The files of COFS keep the contract\<close>

definition file_get :: "nat \<Rightarrow> nat \<Rightarrow> nat \<Rightarrow> cofs \<Rightarrow> (u8 list \<times> cofs) kres" where
  "file_get n p k c = cofs_read n (of_nat p) (of_nat k) c"

definition file_put :: "nat \<Rightarrow> nat \<Rightarrow> u8 list \<Rightarrow> cofs \<Rightarrow> (nat \<times> cofs) kres" where
  "file_put n p xs c = bnd (cofs_write n (of_nat p) (of_nat (length xs)) xs c) (\<lambda>(r, c). Inr (unat r, c))"

lemma file_tree_same_disk:
  assumes "file_tree n c a S" "same_disk (hq c) q'"
  shows "file_tree n (c\<lparr>hq := q'\<rparr>) a S" "file_content n (c\<lparr>hq := q'\<rparr>) = file_content n c"
    "foreign_blk n c x \<Longrightarrow> foreign_blk n (c\<lparr>hq := q'\<rparr>) x \<and> blk_outside (c\<lparr>hq := q'\<rparr>) x = blk_outside c x"
proof -
  have e: "view q' = view (hq c)" "valid_blk q' = valid_blk (hq c)" using assms(2) by (auto simp: same_disk_def)
  have on: "file_on c n a S" using assms(1) by (simp add: file_tree_def)
  then have on': "file_on (c\<lparr>hq := q'\<rparr>) n a S" using tree_on_same_disk [OF assms(2)] by (simp add: file_on_def nd_def)
  show "file_tree n (c\<lparr>hq := q'\<rparr>) a S" using assms(1) on' e by (simp add: file_tree_def nd_def ino_blk_def owned_blk_def)
  show "file_content n (c\<lparr>hq := q'\<rparr>) = file_content n c" using e by (simp add: file_content_def nd_def)
  show "foreign_blk n c x \<Longrightarrow> foreign_blk n (c\<lparr>hq := q'\<rparr>) x \<and> blk_outside (c\<lparr>hq := q'\<rparr>) x = blk_outside c x"
    unfolding foreign_file_on [OF on] foreign_file_on [OF on'] using e by (simp add: nd_def ino_blk_def owned_blk_def blk_outside_def)
qed

lemma length_file_content: "length (file_content n c) = unat (n_size (nd c n))"
  by (simp add: file_content_def)

interpretation cofs_bytes: byte_file "cofs_file n" "file_content n" "foreign_blk n" blk_outside file_room
  "MAX_BLOCKS * BLOCK_SIZE" "file_get n" "file_put n" for n
proof
  fix s p k
  assume "cofs_file n s"
  then obtain a S where t: "file_tree n s a S" by (auto simp: cofs_file_def)
  then show "length (file_content n s) \<le> MAX_BLOCKS * BLOCK_SIZE" by (simp add: file_tree_def length_file_content)
  assume "p \<le> length (file_content n s)" "p + k \<le> MAX_BLOCKS * BLOCK_SIZE"
  then obtain q' where "cofs_read n (of_nat p) (of_nat k) s = Inr (take k (drop p (file_content n s)), s\<lparr>hq := q'\<rparr>)" "same_disk (hq s) q'"
    using cofs_read_file [OF t] by (auto simp: length_file_content)
  with file_tree_same_disk [OF t] show "\<exists>s'. file_get n p k s = Inr (take k (drop p (file_content n s)), s') \<and> cofs_file n s' \<and>
      file_content n s' = file_content n s \<and> (\<forall>x. foreign_blk n s x \<longrightarrow> foreign_blk n s' x \<and> blk_outside s' x = blk_outside s x)"
    by (intro exI [of _ "s\<lparr>hq := q'\<rparr>"]) (auto simp: file_get_def cofs_file_def)
next
  fix s p and xs :: "u8 list"
  assume "cofs_file n s" and p: "p \<le> length (file_content n s)" and r: "file_room s p (length xs)"
  then obtain a S where t: "file_tree n s a S" by (auto simp: cofs_file_def)
  have "unat (of_nat (length xs) :: u32) = length xs"
    using r MAX_WRITE_blocks by (simp add: file_room_def unat_of_nat)
  with cofs_write_file [OF t p [unfolded length_file_content] r] show "\<exists>s'. file_put n p xs s = Inr (length xs, s') \<and> cofs_file n s' \<and>
      file_content n s' = splice (file_content n s) p xs \<and> (\<forall>x. foreign_blk n s x \<longrightarrow> foreign_blk n s' x \<and> blk_outside s' x = blk_outside s x)"
    by (force simp: file_put_def cofs_file_def)
qed

text \<open>
  C1. A COFS file is an array of bytes that grows (\<open>cofs_write\<close>, \<open>cofs_read\<close>, \<open>block_map\<close>, \<open>block_alloc\<close>). Take a file whose blocks
  are in place and a position up to its end, and let there be enough free blocks. Writing \<open>xs\<close> there takes
  all bytes and turns the content into the old one with \<open>xs\<close> spliced in, longer if \<open>xs\<close> reaches beyond the end,
  with whatever data and index blocks that takes; reading the range gives \<open>xs\<close>. The file is again one whose
  blocks are in place, so this can go on; no block in use by anything else has changed or become part of it.
\<close>

theorem cofs_file_grows:
  assumes "cofs_file n c" and "p \<le> length (file_content n c)" and "file_room c p (length xs)"
  shows "\<exists>c1 c2. cofs_write n (of_nat p) (of_nat (length xs)) xs c = Inr (of_nat (length xs), c1) \<and> cofs_file n c1 \<and>
    file_content n c1 = splice (file_content n c) p xs \<and>
    cofs_read n (of_nat p) (of_nat (length xs)) c1 = Inr (xs, c2) \<and> cofs_file n c2 \<and> file_content n c2 = file_content n c1 \<and>
    (\<forall>x. foreign_blk n c x \<longrightarrow> foreign_blk n c2 x \<and> view (hq c2) x = view (hq c) x)"
proof -
  from cofs_bytes.write_read [OF assms] obtain c1 c2 where w: "file_put n p xs c = Inr (length xs, c1)" "cofs_file n c1"
    "file_content n c1 = splice (file_content n c) p xs" "file_get n p (length xs) c1 = Inr (xs, c2)" "cofs_file n c2"
    "file_content n c2 = file_content n c1" "\<forall>x. foreign_blk n c x \<longrightarrow> foreign_blk n c2 x \<and> blk_outside c2 x = blk_outside c x" by blast
  have "unat (of_nat (length xs) :: u32) = length xs" using assms(3) MAX_WRITE_blocks by (simp add: file_room_def unat_of_nat)
  with w(1) have "cofs_write n (of_nat p) (of_nat (length xs)) xs c = Inr (of_nat (length xs), c1)"
    by (auto simp: file_put_def bnd_eq_Inr word_unat_eq_iff)
  with w show ?thesis by (intro exI [of _ c1] exI [of _ c2]) (simp add: file_get_def blk_outside_def)
qed

text \<open>
  A file of 600 bytes in blocks 20 and 21 of a disk of 4096 blocks, on which the blocks 0 to 3 and these two
  are in use.
\<close>

definition grow_disk :: "u32 \<Rightarrow> u8 list" where
  "grow_disk b = (if b = 2 then [0x0F, 0, 0x30] @ replicate 509 0 else replicate 512 0)"

definition grow_hdq :: buf_queue where
  "grow_hdq = hd_queue_init 0 grow_disk (Some \<lparr>block_no = 0, is_dirty = False, ref_count = 0, hb_lock = False, hb_data = []\<rparr>)"

definition grow_fs :: cofs where
  "grow_fs = sample_fs\<lparr>hq := grow_hdq\<rparr>"

lemma grow_hq: "hq_ok (hq grow_fs) {}" "valid_blk (hq grow_fs) b \<longleftrightarrow> unat b < 2 ^ 28" "unat b < 2 ^ 28 \<Longrightarrow> view (hq grow_fs) b = grow_disk b"
proof -
  have q: "hq grow_fs = grow_hdq" by (simp add: grow_fs_def)
  show "hq_ok (hq grow_fs) {}" unfolding q grow_hdq_def by (rule hd_queue_init_ok) (simp add: grow_disk_def BLOCK_SIZE_def)
  show "valid_blk (hq grow_fs) b \<longleftrightarrow> unat b < 2 ^ 28" by (simp add: q grow_hdq_def hd_queue_init_def valid_blk_def)
  show "unat b < 2 ^ 28 \<Longrightarrow> view (hq grow_fs) b = grow_disk b" unfolding q grow_hdq_def by (rule init_view)
qed

lemma grow_used:
  assumes "b < 4096"
  shows "blk_used (view (hq grow_fs)) sample_sb b \<longleftrightarrow> b < 4 \<or> b = 20 \<or> b = 21"
proof -
  have "blk_used (view (hq grow_fs)) sample_sb b \<longleftrightarrow> bit (([0x0F, 0, 0x30] @ replicate 509 0 :: u8 list) ! (b div 8)) (b mod 8)"
    using assms by (simp add: blk_used_def sample_bm grow_hq grow_disk_def bit_clear_bit BITS_PER_BLOCK_def BLOCK_SIZE_def)
  also have "\<dots> \<longleftrightarrow> b < 4 \<or> b = 20 \<or> b = 21"
  proof (cases "b < 24")
    case True
    then have "b \<in> set [0..<24]" by simp
    moreover have "\<forall>b\<in>set [0..<24]. bit (([0x0F, 0, 0x30] @ replicate 509 0 :: u8 list) ! (b div 8)) (b mod 8) \<longleftrightarrow> b < 4 \<or> b = 20 \<or> b = 21"
      by code_simp
    ultimately show ?thesis by blast
  next
    case False
    then have "([0x0F, 0, 0x30] @ replicate 509 0 :: u8 list) ! (b div 8) = 0"
      using assms by (simp add: nth_append less_mult_imp_div_less)
    with False show ?thesis by simp
  qed
  finally show ?thesis .
qed

lemma grow_sb: "superb grow_fs = sample_sb" "bm_count sample_sb * BITS_PER_BLOCK = 4096" "c < 4096 \<Longrightarrow> bm_block sample_sb c = 2"
  using sample_bm by (simp_all add: grow_fs_def sample_fs_def BITS_PER_BLOCK_def BLOCK_SIZE_def)

lemma grow_node:
  "nd grow_fs 0 = zero_node\<lparr>n_inode := 5, n_ref_count := 1, n_type := FS_FILE, n_num_links := 1, n_size := 600, n_addrs := Some sample_addrs\<rparr>"
  "length (cache grow_fs) = 1"
  by (simp_all add: grow_fs_def sample_fs_def nd_def)

lemma grow_file: "cofs_file 0 grow_fs"
proof -
  let ?q = "hq grow_fs" and ?S = "{Dat 0, Dat (Suc 0)}"
  note sb = grow_sb and node = grow_node
  have small: "unat (of_nat b :: u32) = b" if "b < 4096" for b using that by (simp add: unat_of_nat)
  have bm: "bitmap_ok sample_sb ?q"
    unfolding bitmap_ok_def alloc_ok_def sb using grow_hq(1) grow_used [of 0] grow_used [of 2]
    by (simp add: sb(3) grow_hq(2) small MAX_HD_BUFS_def sample_sb_def [THEN arg_cong, of sb_size])
  have blk: "slot_blk (view ?q) sample_addrs (Dat 0) = 20" "slot_blk (view ?q) sample_addrs (Dat (Suc 0)) = 21"
    by (simp_all add: sample_file_addr)
  have own: "owned_blk sample_sb ?q b" if "b = 3 \<or> b = 20 \<or> b = 21" for b
    using that grow_used [of 3] grow_used [of 20] grow_used [of 21] sb(3) by (auto simp: owned_blk_def sb(2) grow_hq(2) is_bm_def)
  have "slot_blk (view ?q) sample_addrs s \<noteq> 0 \<longleftrightarrow> s \<in> ?S" if s: "in_tree s" "attached ?S s" for s
  proof (cases "place_of s")
    case (Addr i)
    then have "i < 8" "slot_blk (view ?q) sample_addrs s = sample_addrs ! i" using place_bounds(1) [OF s(1)] by (auto simp: slot_blk_place)
    moreover have "s \<in> ?S \<longleftrightarrow> i < 2"
      using place_inj [OF s(1), of "Dat 0"] place_inj [OF s(1), of "Dat (Suc 0)"] Addr by (auto simp: idx_defs MAX_BLOCKS_def less_2_cases_iff)
    moreover have "\<forall>i\<in>set [0..<8]. sample_addrs ! i \<noteq> 0 \<longleftrightarrow> i < 2" by code_simp
    ultimately show ?thesis by simp
  qed (use s(2) parent_index in \<open>auto simp: attached_def\<close>)
  then have tree: "tree_ok (view ?q) sample_addrs ?S"
    unfolding tree_ok_def using blk
    by (simp add: sample_addrs_def [THEN arg_cong, of length] inj_on_def attached_def idx_defs MAX_BLOCKS_def grow_hq grow_disk_def BLOCK_SIZE_def)
  have "covers ?S 600"
    unfolding covers_def BLOCK_SIZE_def by (auto simp: less_2_cases_iff [symmetric] less_mult_imp_div_less)
  then have "file_tree 0 grow_fs sample_addrs ?S"
    using bm tree own [of 20] own [of 21] own [of 3] blk node
    by (simp add: file_tree_def file_on_def tree_on_def sb ino_blk_def INO_BLK_def NUM_INOPB_def sample_sb_def [THEN arg_cong, of inode_start] MAX_BLOCKS_def idx_defs BLOCK_SIZE_def)
  then show ?thesis by (auto simp: cofs_file_def)
qed

lemma grow_room: "file_room grow_fs 600 1000" "length (file_content 0 grow_fs) = 600"
proof -
  note sb = grow_sb and node = grow_node
  have "touched 600 1000 \<subseteq> {1, 2, 3}"
  proof
    fix f assume "f \<in> touched 600 1000"
    then obtain p where "600 \<le> p" "p < 1600" "f = p div 512" by (auto simp: touched_def BLOCK_SIZE_def)
    then have "1 \<le> f" "f < 4" by auto
    then show "f \<in> {1, 2, 3}" by auto
  qed
  then have "card (touched 600 1000) \<le> 3" using card_mono [of "{1, 2, 3 :: nat}" "touched 600 1000"] by simp
  moreover have "{30..<39} \<subseteq> free_blks sample_sb (view (hq grow_fs))" using grow_used by (auto simp: free_blks_def sb)
  then have "card {30..<39 :: nat} \<le> card (free_blks sample_sb (view (hq grow_fs)))" by (intro card_mono) (simp_all add: free_blks_def)
  ultimately show "file_room grow_fs 600 1000" by (simp add: file_room_def sb MAX_WRITE_def idx_defs BLOCK_SIZE_def)
  show "length (file_content 0 grow_fs) = 600" using node by (simp add: length_file_content)
qed

lemma cofs_file_grows_witness:
  "\<exists>c1 c2. cofs_write 0 600 1000 (replicate 1000 7) grow_fs = Inr (1000, c1) \<and> length (file_content 0 c1) = 1600 \<and>
    cofs_read 0 600 1000 c1 = Inr (replicate 1000 7, c2)"
proof -
  have "600 \<le> length (file_content 0 grow_fs)" "file_room grow_fs 600 (length (replicate 1000 (7 :: u8)))" using grow_room by simp_all
  from cofs_file_grows [OF grow_file this] show ?thesis using grow_room(2) by (auto simp: splice_def)
qed

end
