(* ===== verification/Mkcofs.thy ===== *)
theory Mkcofs
  imports Cofs_Grow Cofs_Dir
begin

text \<open>
  The program that makes a file system (\<open>util/mkcofs.c\<close>), run on the developer's machine: it lays out
  superblock, bitmap and inodes in an image of the disk, makes the root directory and copies files into
  it. \<open>mkcofs_runs\<close> at the end gives the image it leaves; \<open>Mkcofs_Mount\<close> mounts this image with the kernel's own
  definitions.

  The image is its sectors; those behind the end of the image file read as zeros once something behind them has
  been written. \<open>host_ok\<close>: reading and writing the image works. Where the program prints a message and
  exits, the model stops with \<open>Panic\<close>. Local buffers are byte lists; the program runs where \<open>int\<close> has 32 bits.
\<close>

section \<open>State and sectors\<close>

record mkfs =
  img :: "nat \<Rightarrow> u8 list"
  secs :: nat
  host_ok :: bool
  m_superb :: cofs_superblock
  free_inode :: u32
  free_block :: u32

definition PARTITION_OFFSET :: u32 where
  "PARTITION_OFFSET = 204801"

text \<open>\<open>sector += PARTITION_OFFSET; lseek(fsfd, sector * BLOCK_SIZE, 0)\<close>, in 32 bits.\<close>

definition sector_pos :: "u32 \<Rightarrow> nat" where
  "sector_pos sector = unat ((sector + PARTITION_OFFSET) * of_nat BLOCK_SIZE) div BLOCK_SIZE"

definition write_sector :: "u32 \<Rightarrow> u8 list \<Rightarrow> mkfs \<Rightarrow> mkfs kres" where
  "write_sector sector buf m =
     (if \<not> host_ok m then Inl (Panic ''write'')
      else Inr (m\<lparr>img := (img m)(sector_pos sector := buf), secs := max (secs m) (Suc (sector_pos sector))\<rparr>))"

definition read_sector :: "u32 \<Rightarrow> mkfs \<Rightarrow> u8 list kres" where
  "read_sector sector m =
     (if \<not> host_ok m \<or> secs m \<le> sector_pos sector then Inl (Panic ''read_sector'') else Inr (img m (sector_pos sector)))"

section \<open>Inodes\<close>

definition mk_write_inode :: "u32 \<Rightarrow> cofs_inode \<Rightarrow> mkfs \<Rightarrow> mkfs kres" where
  "mk_write_inode inum ino m =
     bnd (read_sector (INO_BLK inum (m_superb m)) m) (\<lambda>buffer.
     write_sector (INO_BLK inum (m_superb m)) (set_inode_at inum ino buffer) m)"

definition mk_read_inode :: "u32 \<Rightarrow> mkfs \<Rightarrow> cofs_inode kres" where
  "mk_read_inode inum m = bnd (read_sector (INO_BLK inum (m_superb m)) m) (\<lambda>buffer. Inr (inode_at inum buffer))"

definition zero_inode :: "u16 \<Rightarrow> cofs_inode" where
  "zero_inode ty = \<lparr>i_type = ty, i_major = 0, i_minor = 0, i_uid = 0, i_gid = 0, i_num_links = 1,
     i_atime = 0, i_mtime = 0, i_ctime = 0, i_size = 0, i_addrs = replicate 9 0\<rparr>"

definition mk_inode_alloc :: "u16 \<Rightarrow> mkfs \<Rightarrow> (u32 \<times> mkfs) kres" where
  "mk_inode_alloc ty m =
     (let inum = free_inode m in
      bnd (mk_write_inode inum (zero_inode ty) (m\<lparr>free_inode := inum + 1\<rparr>)) (\<lambda>m. Inr (inum, m)))"

text \<open>\<open>block_alloc\<close> of \<open>mkcofs.c\<close>: marks the first \<open>used\<close> blocks, an \<open>int\<close>, in the first block of the bitmap.\<close>

definition mk_block_alloc :: "u32 \<Rightarrow> mkfs \<Rightarrow> mkfs kres" where
  "mk_block_alloc used m =
     (if sint used > int (BLOCK_SIZE * 8) then Inl (Panic ''USED > BLOCK_SIZE'')
      else write_sector (bitmap_start (m_superb m)) (fold mark_bit [0..<nat (sint used)] (replicate BLOCK_SIZE 0)) m)"

section \<open>Appending to a file\<close>

text \<open>\<open>if (ino.addrs[k] == 0) ino.addrs[k] = free_block++;\<close>\<close>

definition mk_addr :: "nat \<Rightarrow> u32 list \<Rightarrow> mkfs \<Rightarrow> u32 \<times> u32 list \<times> mkfs" where
  "mk_addr k addrs m =
     (if addrs ! k = 0 then (free_block m, addrs[k := free_block m], m\<lparr>free_block := free_block m + 1\<rparr>)
      else (addrs ! k, addrs, m))"

text \<open>The entry \<open>k\<close> of the index block \<open>blk\<close>, read into a buffer of 128 numbers, allocated if it is 0.\<close>

definition mk_entry :: "u32 \<Rightarrow> nat \<Rightarrow> mkfs \<Rightarrow> (u32 \<times> mkfs) kres" where
  "mk_entry blk k m =
     bnd (read_sector blk m) (\<lambda>buf.
     if k \<ge> NUM_SIND then Inl Fault
     else if rd32 buf (4 * k) = 0 then
       bnd (write_sector blk (wr32 buf (4 * k) (free_block m)) (m\<lparr>free_block := free_block m + 1\<rparr>)) (\<lambda>m'.
       Inr (free_block m, m'))
     else Inr (rd32 buf (4 * k), m))"

text \<open>The sector \<open>csect\<close> of a file block, with the addresses of the inode and the state it leaves.\<close>

definition append_sect :: "nat \<Rightarrow> u32 list \<Rightarrow> mkfs \<Rightarrow> (u32 \<times> u32 list \<times> mkfs) kres" where
  "append_sect fbn addrs m =
     (if fbn > NUM_DIRECT + NUM_SIND + NUM_DIND then Inl (Panic ''File too large'')
      else if fbn < NUM_DIRECT then Inr (mk_addr fbn addrs m)
      else if fbn < NUM_DIRECT + NUM_SIND then
        (case mk_addr SIND_IDX addrs m of (blk, addrs, m) \<Rightarrow>
         bnd (mk_entry blk (fbn - NUM_DIRECT) m) (\<lambda>(csect, m). Inr (csect, addrs, m)))
      else
        (case mk_addr DIND_IDX addrs m of (blk, addrs, m) \<Rightarrow>
         bnd (mk_entry blk ((fbn - NUM_DIRECT - NUM_SIND) div NUM_SIND) m) (\<lambda>(mblk, m).
         bnd (mk_entry mblk ((fbn - NUM_DIRECT - NUM_SIND) mod NUM_SIND) m) (\<lambda>(csect, m). Inr (csect, addrs, m)))))"

function append_loop :: "u32 \<Rightarrow> u8 list \<Rightarrow> u32 list \<Rightarrow> mkfs \<Rightarrow> (u32 \<times> u32 list \<times> mkfs) kres" where
  "append_loop offs p addrs m =
     (if p \<noteq> [] then
        bnd (append_sect (unat offs div BLOCK_SIZE) addrs m) (\<lambda>(csect, addrs, m).
        let n = min (length p) (BLOCK_SIZE - unat offs mod BLOCK_SIZE) in
        bnd (read_sector csect m) (\<lambda>buf.
        bnd (write_sector csect (splice buf (unat offs mod BLOCK_SIZE) (take n p)) m) (\<lambda>m.
        append_loop (offs + of_nat n) (drop n p) addrs m)))
      else Inr (offs, addrs, m))"
  by pat_completeness auto
termination
  by (relation "measure (\<lambda>(offs, p, addrs, m). length p)") (auto simp: BLOCK_SIZE_def)

declare append_loop.simps [simp del]

definition inode_append :: "u32 \<Rightarrow> u8 list \<Rightarrow> mkfs \<Rightarrow> mkfs kres" where
  "inode_append inum p m =
     bnd (mk_read_inode inum m) (\<lambda>ino.
     bnd (append_loop (i_size ino) p (i_addrs ino) m) (\<lambda>(offs, addrs, m).
     mk_write_inode inum (ino\<lparr>i_size := offs, i_addrs := addrs\<rparr>) m))"

section \<open>The program\<close>

text \<open>The functions of the host's library: \<open>basename\<close> of POSIX, on the characters of a path.\<close>

definition mk_basename :: "u8 list \<Rightarrow> u8 list" where
  "mk_basename path =
     (if path = [] then [46]
      else let p = rev (dropWhile (\<lambda>c. c = 47) (rev path)) in
        if p = [] then [47] else rev (takeWhile (\<lambda>c. c \<noteq> 47) (rev p)))"

definition superb_bytes :: "cofs_superblock \<Rightarrow> u8 list" where
  "superb_bytes sb = le32 (magic sb) @ le32 (sb_size sb) @ le32 (num_blocks sb) @ le32 (num_inodes sb) @
     le32 (bitmap_start sb) @ le32 (inode_start sb) @ le32 (data_block sb)"

text \<open>The numbers of \<open>main\<close> for an image of \<open>st_size\<close> bytes: the superblock and the first free block.\<close>

definition mk_layout :: "nat \<Rightarrow> cofs_superblock \<times> u32" where
  "mk_layout st_size =
     (let cofs_size = of_nat (st_size div BLOCK_SIZE) - PARTITION_OFFSET :: u32;
          num = (cofs_size * of_nat BLOCK_SIZE) div 4096;
          bitmap_size = cofs_size div of_nat (BLOCK_SIZE * 8) + 1;
          inodes_size = num div of_nat NUM_INOPB + 1;
          num_meta_blocks = 2 + inodes_size + bitmap_size
      in (\<lparr>magic = COFS_MAGIC, sb_size = cofs_size, num_blocks = cofs_size - num_meta_blocks, num_inodes = num,
           bitmap_start = 2, inode_start = 2 + bitmap_size, data_block = 0\<rparr>, num_meta_blocks))"

fun zero_loop :: "nat list \<Rightarrow> mkfs \<Rightarrow> mkfs kres" where
  "zero_loop [] m = Inr m"
| "zero_loop (i # is) m = bnd (write_sector (of_nat i) (replicate BLOCK_SIZE 0) m) (\<lambda>m. zero_loop is m)"

text \<open>The entries \<open>.\<close> and \<open>..\<close> of the root directory, set with \<open>strcpy\<close>.\<close>

definition dot_entry :: "u32 \<Rightarrow> u8 list \<Rightarrow> mkfs \<Rightarrow> mkfs kres" where
  "dot_entry root name m =
     bnd (strcpy (replicate DIRSIZE 0) name) (\<lambda>nm. inode_append root (le32 root @ nm) m)"

text \<open>\<open>while ((num_bytes = read(fd, buf, sizeof(buf))) > 0) inode_append(inode_num, buf, num_bytes);\<close>\<close>

function copy_loop :: "u32 \<Rightarrow> u8 list \<Rightarrow> mkfs \<Rightarrow> mkfs kres" where
  "copy_loop inum data m =
     (if data = [] then Inr m
      else bnd (inode_append inum (take BLOCK_SIZE data) m) (\<lambda>m. copy_loop inum (drop BLOCK_SIZE data) m))"
  by pat_completeness auto
termination
  by (relation "measure (\<lambda>(inum, data, m). length data)") (auto simp: BLOCK_SIZE_def)

declare copy_loop.simps [simp del]

text \<open>A file of the command line: its path and, if it can be opened, its content.\<close>

fun files_loop :: "u32 \<Rightarrow> (u8 list \<times> u8 list option) list \<Rightarrow> mkfs \<Rightarrow> mkfs kres" where
  "files_loop root [] m = Inr m"
| "files_loop root ((path, None) # files) m = Inl (Panic ''open'')"
| "files_loop root ((path, Some data) # files) m =
     bnd (mk_inode_alloc FS_FILE m) (\<lambda>(inode_num, m).
     bnd (strncpy (replicate DIRSIZE 0) (mk_basename path @ [0]) DIRSIZE) (\<lambda>nm.
     bnd (inode_append root (le32 inode_num @ nm) m) (\<lambda>m.
     bnd (copy_loop inode_num data m) (\<lambda>m.
     files_loop root files m))))"

text \<open>\<open>main\<close>; \<open>st_size\<close> is the size of the image, None when it cannot be found or opened. The size
  of the root is an \<open>int\<close> there; \<open>append_sect\<close> keeps it far below \<open>2 ^ 31\<close>.\<close>

definition mkcofs :: "nat option \<Rightarrow> (u8 list \<times> u8 list option) list \<Rightarrow> mkfs \<Rightarrow> mkfs kres" where
  "mkcofs st_size files m =
     (if files = [] then Inl (Panic ''usage'')
      else case st_size of None \<Rightarrow> Inl (Panic ''Cannot stat'')
      | Some st_size \<Rightarrow>
      (case mk_layout st_size of (sb, first) \<Rightarrow>
      let m = m\<lparr>m_superb := sb, free_inode := 1, free_block := first\<rparr> in
      bnd (read_sector 1 m) (\<lambda>_.
      bnd (zero_loop [0..<unat (sb_size sb)] m) (\<lambda>m.
      bnd (write_sector 1 (superb_bytes sb @ replicate (BLOCK_SIZE - 28) 0) m) (\<lambda>m.
      bnd (mk_inode_alloc FS_DIRECTORY m) (\<lambda>(root, m).
      if root \<noteq> 1 then Inl (Panic ''Invalid root inode - expected 1'')
      else
        bnd (dot_entry root [46, 0] m) (\<lambda>m.
        bnd (dot_entry root [46, 46, 0] m) (\<lambda>m.
        bnd (files_loop root files m) (\<lambda>m.
        bnd (mk_read_inode root m) (\<lambda>ino.
        bnd (mk_write_inode root (ino\<lparr>i_size := (i_size ino div of_nat BLOCK_SIZE + 1) * of_nat BLOCK_SIZE\<rparr>) m) (\<lambda>m.
        mk_block_alloc (free_block m) m)))))))))))"

section \<open>The image as a disk\<close>

text \<open>
  \<open>mview\<close>: the blocks of the partition, as far as 32 bit offsets reach. \<open>mk_base N\<close>: a partition of \<open>N\<close> blocks
  lies inside the image and within this reach.
\<close>

definition in_img :: "u32 \<Rightarrow> bool" where
  "in_img b \<longleftrightarrow> unat b + 204801 < 2 ^ 23"

definition mview :: "mkfs \<Rightarrow> u32 \<Rightarrow> u8 list" where
  "mview m b = (if in_img b then img m (unat b + 204801) else zero_blk)"

definition mk_base :: "nat \<Rightarrow> mkfs \<Rightarrow> bool" where
  "mk_base N m \<longleftrightarrow> host_ok m \<and> 204801 + N \<le> secs m \<and> 204801 + N \<le> 2 ^ 23 \<and> (\<forall>s. length (img m s) = BLOCK_SIZE)"

definition put_sec :: "u32 \<Rightarrow> u8 list \<Rightarrow> mkfs \<Rightarrow> mkfs" where
  "put_sec b d m = m\<lparr>img := (img m)(unat b + 204801 := d), secs := max (secs m) (Suc (unat b + 204801))\<rparr>"

lemma sector_pos_eq: "in_img b \<Longrightarrow> sector_pos b = unat b + 204801"
proof -
  assume b: "in_img b"
  then have s: "unat (b + PARTITION_OFFSET) = unat b + 204801"
    by (simp add: in_img_def PARTITION_OFFSET_def unat_word_ariths)
  have "unat ((b + PARTITION_OFFSET) * of_nat BLOCK_SIZE) = (unat b + 204801) * 512 mod 2 ^ 32"
    unfolding unat_word_ariths(2) s by (simp add: BLOCK_SIZE_def)
  moreover have "(unat b + 204801) * 512 < 2 ^ 32" using b by (simp add: in_img_def)
  ultimately show ?thesis by (simp add: sector_pos_def BLOCK_SIZE_def)
qed

lemma put_sec_simps [simp]:
  "host_ok (put_sec b d m) = host_ok m" "m_superb (put_sec b d m) = m_superb m" "free_inode (put_sec b d m) = free_inode m"
  "free_block (put_sec b d m) = free_block m" "secs m \<le> secs (put_sec b d m)"
  by (simp_all add: put_sec_def)

lemma mview_put_sec [simp]: "in_img b \<Longrightarrow> mview (put_sec b d m) = (mview m)(b := d)"
  by (rule ext) (auto simp: mview_def put_sec_def word_unat_eq_iff in_img_def)

lemma mview_counters [simp]: "mview (m\<lparr>free_block := x\<rparr>) = mview m" "mview (m\<lparr>free_inode := y\<rparr>) = mview m"
  by (auto simp: mview_def)

lemma base_len: "mk_base N m \<Longrightarrow> length (mview m b) = BLOCK_SIZE"
  by (simp add: mk_base_def mview_def zero_blk_def)

lemma in_img_less: "mk_base N m \<Longrightarrow> unat b < N \<Longrightarrow> in_img b"
  by (simp add: mk_base_def in_img_def)

lemma sect_write: "mk_base N m \<Longrightarrow> unat b < N \<Longrightarrow> write_sector b d m = Inr (put_sec b d m)"
  using in_img_less [of N m b] sector_pos_eq [of b] by (simp add: write_sector_def put_sec_def mk_base_def)

lemma sect_read: "mk_base N m \<Longrightarrow> unat b < N \<Longrightarrow> read_sector b m = Inr (mview m b)"
  using in_img_less [of N m b] sector_pos_eq [of b] by (simp add: read_sector_def mview_def mk_base_def)

lemma base_put: "mk_base N m \<Longrightarrow> unat b < N \<Longrightarrow> length d = BLOCK_SIZE \<Longrightarrow> mk_base N (put_sec b d m)"
  by (auto simp: mk_base_def put_sec_def)

lemma base_counters [simp]: "mk_base N (m\<lparr>free_block := x\<rparr>) = mk_base N m" "mk_base N (m\<lparr>free_inode := y\<rparr>) = mk_base N m"
  by (simp_all add: mk_base_def)

section \<open>Growing a file in the image\<close>

text \<open>
  Blocks from \<open>free_block\<close> on are zeros and belong to nobody. \<open>mk_grown\<close>: as for the kernel, but the new blocks
  are those the counter has passed, as many as there are new slots.
\<close>

abbreviation fb :: "mkfs \<Rightarrow> nat" where
  "fb m \<equiv> unat (free_block m)"

definition mk_tree :: "nat \<Rightarrow> mkfs \<Rightarrow> u32 list \<Rightarrow> slot set \<Rightarrow> bool" where
  "mk_tree N m a S \<longleftrightarrow> mk_base N m \<and> tree_ok (mview m) a S \<and> (\<forall>s\<in>S. unat (slot_blk (mview m) a s) < fb m) \<and>
     0 < fb m \<and> fb m \<le> N \<and> finite S \<and> (\<forall>x. fb m \<le> unat x \<and> unat x < N \<longrightarrow> mview m x = zero_blk)"

definition mk_frame :: "nat \<Rightarrow> mkfs \<Rightarrow> u32 list \<Rightarrow> slot set \<Rightarrow> mkfs \<Rightarrow> u32 list \<Rightarrow> slot set \<Rightarrow> bool" where
  "mk_frame N m a S m' a' S' \<longleftrightarrow> mk_tree N m' a' S' \<and> S \<subseteq> S' \<and> (\<forall>t\<in>S. slot_blk (mview m') a' t = slot_blk (mview m) a t) \<and>
     m_superb m' = m_superb m \<and> free_inode m' = free_inode m \<and> fb m' = fb m + card (S' - S) \<and>
     (\<forall>t\<in>S' - S. fb m \<le> unat (slot_blk (mview m') a' t)) \<and>
     (\<forall>x. x \<notin> slot_blk (mview m) a ` S \<and> \<not> (fb m \<le> unat x \<and> unat x < fb m') \<longrightarrow> mview m' x = mview m x)"

lemma mk_treeD:
  assumes "mk_tree N m a S"
  shows "mk_base N m" "tree_ok (mview m) a S" "s \<in> S \<Longrightarrow> unat (slot_blk (mview m) a s) < fb m" "0 < fb m" "fb m \<le> N" "finite S"
    "fb m \<le> unat x \<Longrightarrow> unat x < N \<Longrightarrow> mview m x = zero_blk"
  using assms by (auto simp: mk_tree_def)

lemma mk_frameD:
  assumes "mk_frame N m a S m' a' S'"
  shows "mk_tree N m' a' S'" "S \<subseteq> S'" "t \<in> S \<Longrightarrow> slot_blk (mview m') a' t = slot_blk (mview m) a t"
    "m_superb m' = m_superb m" "free_inode m' = free_inode m"
    "fb m' = fb m + card (S' - S)" "t \<in> S' \<Longrightarrow> t \<notin> S \<Longrightarrow> fb m \<le> unat (slot_blk (mview m') a' t)"
    "x \<notin> slot_blk (mview m) a ` S \<Longrightarrow> unat x < fb m \<or> fb m' \<le> unat x \<Longrightarrow> mview m' x = mview m x"
  using assms by (auto simp: mk_frame_def)

lemma mk_frame_refl: "mk_tree N m a S \<Longrightarrow> mk_frame N m a S m a S"
  by (auto simp: mk_frame_def)

lemma mk_frame_foreign:
  assumes "mk_frame N m a S m' a' S'" "x \<notin> slot_blk (mview m) a ` S" "unat x < fb m \<or> fb m' \<le> unat x"
  shows "x \<notin> slot_blk (mview m') a' ` S'"
proof (rule notI, elim imageE)
  note G = mk_frameD [OF assms(1)]
  fix t assume t: "x = slot_blk (mview m') a' t" "t \<in> S'"
  show False
  proof (cases "t \<in> S")
    case True
    with t G(3) [of t] assms(2) show False by auto
  next
    case False
    with t G(7) [of t] mk_treeD(3) [OF G(1) t(2)] assms(3) show False by auto
  qed
qed

lemma mk_frame_trans:
  assumes "mk_frame N m a S m1 a1 S1" and "mk_frame N m1 a1 S1 m2 a2 S2"
  shows "mk_frame N m a S m2 a2 S2"
  unfolding mk_frame_def
proof (intro conjI ballI allI impI)
  note G = mk_frameD [OF assms(1)] and H = mk_frameD [OF assms(2)]
  show "mk_tree N m2 a2 S2" "S \<subseteq> S2" "m_superb m2 = m_superb m" "free_inode m2 = free_inode m" using G(2,4,5) H(1,2,4,5) by auto
  show "slot_blk (mview m2) a2 t = slot_blk (mview m) a t" if "t \<in> S" for t using that G(2,3) H(3) by auto
  have "S2 - S = (S1 - S) \<union> (S2 - S1)" "(S1 - S) \<inter> (S2 - S1) = {}" using G(2) H(2) by auto
  then have "card (S2 - S) = card (S1 - S) + card (S2 - S1)"
    using mk_treeD(6) [OF G(1)] mk_treeD(6) [OF H(1)] by (simp add: card_Un_disjoint)
  then show "fb m2 = fb m + card (S2 - S)" using G(6) H(6) by simp
  show "fb m \<le> unat (slot_blk (mview m2) a2 t)" if "t \<in> S2 - S" for t
    using that G(6) G(7) [of t] H(7) [of t] H(3) [of t] by (cases "t \<in> S1") auto
  show "mview m2 x = mview m x" if x: "x \<notin> slot_blk (mview m) a ` S \<and> \<not> (fb m \<le> unat x \<and> unat x < fb m2)" for x
    using x mk_frame_foreign [OF assms(1)] G(6) G(8) [of x] H(6) H(8) [of x] by auto
qed

definition mk_grown :: "nat \<Rightarrow> mkfs \<Rightarrow> u32 list \<Rightarrow> slot set \<Rightarrow> mkfs \<Rightarrow> u32 list \<Rightarrow> slot set \<Rightarrow> bool" where
  "mk_grown N m a S m' a' S' \<longleftrightarrow> mk_frame N m a S m' a' S' \<and> vgrown (mview m) a S (mview m') a' S'"

definition mk_written :: "nat \<Rightarrow> mkfs \<Rightarrow> u32 list \<Rightarrow> slot set \<Rightarrow> nat \<Rightarrow> u8 list \<Rightarrow> mkfs \<Rightarrow> u32 list \<Rightarrow> slot set \<Rightarrow> bool" where
  "mk_written N m a S p xs m' a' S' \<longleftrightarrow> mk_frame N m a S m' a' S' \<and> vwritten (mview m) a S p xs (mview m') a' S'"

lemma mk_grown_refl: "mk_tree N m a S \<Longrightarrow> mk_grown N m a S m a S"
  using vgrown_refl mk_treeD(2) mk_frame_refl by (auto simp: mk_grown_def)

lemma mk_grown_trans: "mk_grown N m a S m1 a1 S1 \<Longrightarrow> mk_grown N m1 a1 S1 m2 a2 S2 \<Longrightarrow> mk_grown N m a S m2 a2 S2"
  unfolding mk_grown_def using mk_frame_trans vgrown_trans by blast

lemma mk_written_trans:
  "mk_written N m a S p xs m1 a1 S1 \<Longrightarrow> mk_written N m1 a1 S1 (p + length xs) ys m2 a2 S2 \<Longrightarrow> mk_written N m a S p (xs @ ys) m2 a2 S2"
  unfolding mk_written_def by (auto intro: mk_frame_trans vwritten_trans)

lemma mk_take:
  assumes T: "mk_tree N m a S" and s: "in_tree s" "attached S s" "s \<notin> S" and n: "fb m < N"
    and m': "m_superb m' = m_superb m" "free_inode m' = free_inode m" "free_block m' = free_block m + 1" "mk_base N m'"
    and g: "case place_of s of Addr i \<Rightarrow> a' = a[i := free_block m] \<and> mview m' = mview m
      | Entry p k \<Rightarrow> a' = a \<and> mview m' = (mview m)(slot_blk (mview m) a p := wr32 (mview m (slot_blk (mview m) a p)) (4 * k) (free_block m))"
  shows "mk_grown N m a S m' a' (insert s S)" "slot_blk (mview m') a' s = free_block m"
proof -
  let ?v = "mview m" and ?v' = "mview m'" and ?b = "free_block m"
  note D = mk_treeD [OF T]
  have N: "N < 2 ^ 32" using D(1) by (simp add: mk_base_def)
  then have f: "fb m' = Suc (fb m)" unfolding m'(3) using n by (subst unat_word_ariths(1)) simp
  have low: "unat (slot_blk ?v a t) < fb m" if "t \<in> S" for t by (rule D(3) [OF that])
  have P: "p \<in> S" if "place_of s = Entry p k" for p k using s(2) that by (simp add: attached_def)
  have same: "?v' x = ?v x" if "\<forall>p k. place_of s = Entry p k \<longrightarrow> x \<noteq> slot_blk ?v a p" for x
    using g that by (cases "place_of s") auto
  have up: "?v' x = ?v x" if "fb m \<le> unat x" for x
    using same [of x] low [OF P] that by fastforce
  have data: "?v' (slot_blk ?v a t) = ?v (slot_blk ?v a t)" if "t \<in> S" "\<forall>p k. place_of s = Entry p k \<longrightarrow> t \<noteq> p" for t
    by (rule same) (use that P tree_okD(6) [OF D(2)] in auto)
  have z: "?v' ?b = zero_blk" using up [of ?b] D(7) [of ?b] n by simp
  have "grafted S s ?b ?v a ?v' a'"
    using g z data by (cases "place_of s") (auto simp: grafted_def)
  moreover have "?b \<noteq> 0" using D(4) by auto
  moreover have "?b \<notin> slot_blk ?v a ` S" using low by fastforce
  ultimately have vg: "vgrown ?v a S ?v' a' (insert s S)" and sb: "slot_blk ?v' a' s = ?b" using vgrown_graft [OF D(2) s] by blast+
  show "slot_blk ?v' a' s = ?b" by (rule sb)
  have "unat (slot_blk ?v' a' t) < fb m'" if "t \<in> insert s S" for t
    using that sb f low [of t] vgrownD(3) [OF vg, of t] by (cases "t = s") auto
  then have "mk_tree N m' a' (insert s S)"
    using D(6) D(7) up m'(4) vgrownD(1) [OF vg] f n by (simp add: mk_tree_def)
  moreover have "card (insert s S - S) = 1" using s(3) by (simp add: insert_Diff_if)
  moreover have "?v' x = ?v x" if "x \<notin> slot_blk ?v a ` S" for x
    by (rule same) (use that P in auto)
  ultimately show "mk_grown N m a S m' a' (insert s S)"
    using vg vgrownD(3) [OF vg] m'(1,2) f sb s(3) by (auto simp: mk_grown_def mk_frame_def)
qed

lemma mk_addr_ok:
  assumes T: "mk_tree N m a S" and s: "in_tree s" "place_of s = Addr i" and n: "s \<notin> S \<Longrightarrow> fb m < N"
  shows "\<exists>m' a'. mk_addr i a m = (slot_blk (mview m') a' s, a', m') \<and> mk_grown N m a S m' a' (insert s S)"
proof (cases "s \<in> S")
  case True
  then have "a ! i \<noteq> 0" using tree_okD(4) [OF mk_treeD(2) [OF T] True] s(2) by (simp add: slot_blk_place)
  with mk_grown_refl [OF T] True s(2) show ?thesis
    by (intro exI [of _ m] exI [of _ a]) (simp add: mk_addr_def slot_blk_place insert_absorb)
next
  case False
  have at: "attached S s" using s(2) by (simp add: attached_def)
  have "a ! i = 0" using tree_okD(5) [OF mk_treeD(2) [OF T] s(1) at] False s(2) by (simp add: slot_blk_place)
  with mk_take [OF T s(1) at False n [OF False], of "m\<lparr>free_block := free_block m + 1\<rparr>" "a[i := free_block m]"] s(2) mk_treeD(1) [OF T]
  show ?thesis by (intro exI [of _ "m\<lparr>free_block := free_block m + 1\<rparr>"] exI [of _ "a[i := free_block m]"]) (simp add: mk_addr_def)
qed

lemma mk_entry_ok:
  assumes T: "mk_tree N m a S" and s: "in_tree s" "place_of s = Entry p k" "p \<in> S" and n: "s \<notin> S \<Longrightarrow> fb m < N"
  shows "\<exists>m'. mk_entry (slot_blk (mview m) a p) k m = Inr (slot_blk (mview m') a s, m') \<and> mk_grown N m a S m' a (insert s S)"
proof -
  note D = mk_treeD [OF T]
  let ?b = "slot_blk (mview m) a p"
  have b: "unat ?b < N" using D(3) [OF s(3)] D(5) by simp
  have k: "\<not> NUM_SIND \<le> k" using place_bounds(2) [OF s(1,2)] by simp
  have len: "length (mview m ?b) = 512" using base_len [OF D(1)] by (simp add: BLOCK_SIZE_def)
  have e: "slot_blk v a s = rd32 (v (slot_blk v a p)) (4 * k)" for v using s(2) by (simp add: slot_blk_place [of _ _ s] ind_entry_def)
  have at: "attached S s" using s(2,3) by (simp add: attached_def)
  show ?thesis
  proof (cases "s \<in> S")
    case True
    then have "rd32 (mview m ?b) (4 * k) \<noteq> 0" using tree_okD(4) [OF D(2) True] e by simp
    with mk_grown_refl [OF T] True sect_read [OF D(1) b] k e show ?thesis
      by (intro exI [of _ m]) (simp add: mk_entry_def insert_absorb)
  next
    case False
    let ?d = "wr32 (mview m ?b) (4 * k) (free_block m)"
    let ?m1 = "m\<lparr>free_block := free_block m + 1\<rparr>"
    have ld: "length ?d = BLOCK_SIZE" using len k by (simp add: idx_defs BLOCK_SIZE_def)
    have "rd32 (mview m ?b) (4 * k) = 0" using tree_okD(5) [OF D(2) s(1) at] False e by metis
    then have r: "mk_entry ?b k m = Inr (free_block m, put_sec ?b ?d ?m1)"
      using sect_read [OF D(1) b] k sect_write [of N ?m1 ?b] D(1) b by (simp add: mk_entry_def)
    have mv: "mview (put_sec ?b ?d ?m1) = (mview m)(?b := ?d)" using in_img_less [OF D(1) b] by simp
    have "mk_base N (put_sec ?b ?d ?m1)" using base_put [of N ?m1 ?b ?d] D(1) b ld by simp
    with mk_take [OF T s(1) at False n [OF False], of "put_sec ?b ?d ?m1" a] mv s(2) r show ?thesis
      by (intro exI [of _ "put_sec ?b ?d ?m1"]) simp
  qed
qed

text \<open>The slots on the way to a file block, and to a set of file blocks.\<close>

definition path_of :: "nat \<Rightarrow> slot set" where
  "path_of f = insert (Dat f) (if f < NUM_DIRECT then {} else if f < NUM_DIRECT + NUM_SIND then {Sind} else {Dind, Mid (mid_idx f)})"

definition paths :: "nat set \<Rightarrow> slot set" where
  "paths F = (\<Union>f\<in>F. path_of f)"

lemma finite_path [simp]: "finite (path_of f)"
  by (simp add: path_of_def)

lemma finite_paths [simp]: "finite F \<Longrightarrow> finite (paths F)"
  by (simp add: paths_def)

lemma paths_insert: "paths (insert f F) = path_of f \<union> paths F"
  by (simp add: paths_def)

lemma card_Diff_Un:
  assumes "finite A" "finite B"
  shows "card (A \<union> B - S) = card (A - S) + card (B - (S \<union> A))"
proof -
  have "A \<union> B - S = (A - S) \<union> (B - (S \<union> A))" "(A - S) \<inter> (B - (S \<union> A)) = {}" by auto
  with assms show ?thesis by (simp add: card_Un_disjoint)
qed

text \<open>As long as slots of \<open>P\<close> are missing, the counter is below the end.\<close>

lemma mk_room:
  assumes "mk_grown N m a S m1 a1 S1" "s \<notin> S1" "S1 \<subseteq> S \<union> P" "s \<in> P" "finite P" "fb m + card (P - S) \<le> N"
  shows "fb m1 < N"
proof -
  have G: "S \<subseteq> S1" "fb m1 = fb m + card (S1 - S)" using mk_frameD(2,6) [of N m a S m1 a1 S1] assms(1) by (simp_all add: mk_grown_def)
  have "finite (P - S)" using assms(5) by simp
  moreover have "insert s (S1 - S) \<subseteq> P - S" using assms(2-4) G(1) by auto
  ultimately have "card (insert s (S1 - S)) \<le> card (P - S)" by (rule card_mono)
  moreover have "finite (S1 - S)" using assms(3,5) by (meson Diff_subset_conv finite_subset)
  ultimately show ?thesis using assms(2,6) G(2) by simp
qed

lemma append_sect_ok:
  assumes T: "mk_tree N m a S" and f: "f < MAX_BLOCKS" and n: "fb m + card (path_of f - S) \<le> N"
  shows "\<exists>m' a'. append_sect f a m = Inr (slot_blk (mview m') a' (Dat f), a', m') \<and> mk_grown N m a S m' a' (S \<union> path_of f)"
proof -
  note room = mk_room [where P = "path_of f", OF _ _ _ _ finite_path n]
  have s: "in_tree (Dat f)" "\<not> f > NUM_DIRECT + NUM_SIND + NUM_DIND" using f by (simp_all add: MAX_BLOCKS_def)
  consider (d) "f < NUM_DIRECT" | (i) "\<not> f < NUM_DIRECT" "f < NUM_DIRECT + NUM_SIND" | (dd) "\<not> f < NUM_DIRECT + NUM_SIND" by fastforce
  then show ?thesis
  proof cases
    case d
    have "fb m < N" if "Dat f \<notin> S" by (rule room [OF mk_grown_refl [OF T] that]) (auto simp: path_of_def)
    from mk_addr_ok [OF T s(1) _ this] d obtain m' a' where
      g: "mk_addr f a m = (slot_blk (mview m') a' (Dat f), a', m')" "mk_grown N m a S m' a' (insert (Dat f) S)" by auto
    with d s(2) show ?thesis by (intro exI [of _ m'] exI [of _ a']) (simp add: append_sect_def path_of_def)
  next
    case i
    have "fb m < N" if "Sind \<notin> S" by (rule room [OF mk_grown_refl [OF T] that]) (use i in \<open>auto simp: path_of_def\<close>)
    from mk_addr_ok [OF T, of Sind SIND_IDX, OF _ _ this] obtain m1 a1 where
      g1: "mk_addr SIND_IDX a m = (slot_blk (mview m1) a1 Sind, a1, m1)" "mk_grown N m a S m1 a1 (insert Sind S)" by auto
    have T1: "mk_tree N m1 a1 (insert Sind S)" using g1(2) mk_frameD(1) by (auto simp: mk_grown_def)
    have "fb m1 < N" if "Dat f \<notin> insert Sind S" by (rule room [OF g1(2) that]) (use i in \<open>auto simp: path_of_def\<close>)
    from mk_entry_ok [OF T1 s(1), of Sind "f - NUM_DIRECT", OF _ _ this] i obtain m2 where
      g2: "mk_entry (slot_blk (mview m1) a1 Sind) (f - NUM_DIRECT) m1 = Inr (slot_blk (mview m2) a1 (Dat f), m2)"
        "mk_grown N m1 a1 (insert Sind S) m2 a1 (insert (Dat f) (insert Sind S))" by auto
    have "insert (Dat f) (insert Sind S) = S \<union> path_of f" using i by (auto simp: path_of_def)
    with mk_grown_trans [OF g1(2) g2(2)] have "mk_grown N m a S m2 a1 (S \<union> path_of f)" by (simp only:)
    moreover have "append_sect f a m = Inr (slot_blk (mview m2) a1 (Dat f), a1, m2)"
      using i s(2) g1(1) g2(1) by (simp add: append_sect_def)
    ultimately show ?thesis by blast
  next
    case dd
    let ?m = "mid_idx f" and ?k = "sub_idx f"
    have "fb m < N" if "Dind \<notin> S" by (rule room [OF mk_grown_refl [OF T] that]) (use dd in \<open>auto simp: path_of_def\<close>)
    from mk_addr_ok [OF T, of Dind DIND_IDX, OF _ _ this] obtain m1 a1 where
      g1: "mk_addr DIND_IDX a m = (slot_blk (mview m1) a1 Dind, a1, m1)" "mk_grown N m a S m1 a1 (insert Dind S)" by auto
    have T1: "mk_tree N m1 a1 (insert Dind S)" using g1(2) mk_frameD(1) by (auto simp: mk_grown_def)
    have "fb m1 < N" if "Mid ?m \<notin> insert Dind S" by (rule room [OF g1(2) that]) (use dd in \<open>auto simp: path_of_def\<close>)
    from mk_entry_ok [OF T1, of "Mid ?m" Dind ?m, OF _ _ _ this] idx_bounds(1) [OF f] obtain m2 where
      g2: "mk_entry (slot_blk (mview m1) a1 Dind) ?m m1 = Inr (slot_blk (mview m2) a1 (Mid ?m), m2)"
        "mk_grown N m1 a1 (insert Dind S) m2 a1 (insert (Mid ?m) (insert Dind S))" by auto
    note g12 = mk_grown_trans [OF g1(2) g2(2)]
    have T2: "mk_tree N m2 a1 (insert (Mid ?m) (insert Dind S))" using g2(2) mk_frameD(1) by (auto simp: mk_grown_def)
    have "fb m2 < N" if "Dat f \<notin> insert (Mid ?m) (insert Dind S)" by (rule room [OF g12 that]) (use dd in \<open>auto simp: path_of_def\<close>)
    from mk_entry_ok [OF T2 s(1), of "Mid ?m" ?k, OF _ _ this] dd obtain m3 where
      g3: "mk_entry (slot_blk (mview m2) a1 (Mid ?m)) ?k m2 = Inr (slot_blk (mview m3) a1 (Dat f), m3)"
        "mk_grown N m2 a1 (insert (Mid ?m) (insert Dind S)) m3 a1 (insert (Dat f) (insert (Mid ?m) (insert Dind S)))" by (auto simp: NUM_DIRECT_def)
    have "insert (Dat f) (insert (Mid ?m) (insert Dind S)) = S \<union> path_of f" using dd by (auto simp: path_of_def)
    with mk_grown_trans [OF g12 g3(2)] have "mk_grown N m a S m3 a1 (S \<union> path_of f)" by (simp only:)
    moreover have "append_sect f a m = Inr (slot_blk (mview m3) a1 (Dat f), a1, m3)"
      using dd s(2) g1(1) g2(1) g3(1) by (simp add: append_sect_def mid_idx_def sub_idx_def)
    ultimately show ?thesis by blast
  qed
qed

text \<open>Writing the data.\<close>

lemma mk_data:
  assumes g: "mk_grown N m a S m1 a1 S1" and f: "Dat f \<in> S1" and p: "p div BLOCK_SIZE = f" "p mod BLOCK_SIZE + length xs \<le> BLOCK_SIZE"
  defines "b \<equiv> slot_blk (mview m1) a1 (Dat f)"
  shows "mk_written N m a S p xs (put_sec b (splice (mview m1 b) (p mod BLOCK_SIZE) xs) m1) a1 S1"
proof -
  let ?d = "splice (mview m1 b) (p mod BLOCK_SIZE) xs"
  let ?m2 = "put_sec b ?d m1"
  have F: "mk_frame N m a S m1 a1 S1" "vgrown (mview m) a S (mview m1) a1 S1" using g by (simp_all add: mk_grown_def)
  note G = mk_frameD [OF F(1)]
  note D = mk_treeD [OF G(1)]
  have b: "unat b < fb m1" "unat b < N" using D(3) [OF f] D(5) by (simp_all add: b_def)
  have mv: "mview ?m2 = (mview m1)(b := ?d)" using in_img_less [OF D(1) b(2)] by simp
  have len: "length ?d = BLOCK_SIZE" using tree_okD(7) [OF D(2) f] p(2) by (simp add: b_def)
  note W = vwritten_data [OF F(2) f p mv [unfolded b_def], folded b_def]
  have img: "slot_blk (mview ?m2) a1 t = slot_blk (mview m1) a1 t" if "t \<in> S1" for t using W(2) that by blast
  have "mk_tree N ?m2 a1 S1"
    using vwrittenD(1) [OF W(1)] base_put [OF D(1) b(2) len] D(3-7) b(1) img mv by (auto simp: mk_tree_def)
  moreover have "mview ?m2 x = mview m x" if "x \<notin> slot_blk (mview m) a ` S" "\<not> (fb m \<le> unat x \<and> unat x < fb m1)" for x
  proof -
    have "b \<in> slot_blk (mview m1) a1 ` S1" unfolding b_def using f by (rule imageI)
    then have "x \<noteq> b" using mk_frame_foreign [OF F(1) that(1)] that(2) by auto
    then show ?thesis using G(8) [OF that(1)] that(2) mv by auto
  qed
  ultimately have "mk_frame N m a S ?m2 a1 S1" using G(2-7) img by (auto simp: mk_frame_def)
  with W(1) show ?thesis by (simp add: mk_written_def)
qed

lemma append_loop_ok:
  assumes "mk_tree N m a S" and "unat offs + length p \<le> MAX_BLOCKS * BLOCK_SIZE"
    and "fb m + card (paths (touched (unat offs) (length p)) - S) \<le> N"
  shows "\<exists>m' a'. append_loop offs p a m = Inr (offs + of_nat (length p), a', m') \<and>
    mk_written N m a S (unat offs) p m' a' (S \<union> paths (touched (unat offs) (length p)))"
  using assms
proof (induction "length p" arbitrary: offs p m a S rule: less_induct)
  case less
  let ?p = "unat offs"
  show ?case
  proof (cases "p = []")
    case True
    with mk_frame_refl [OF less.prems(1)] vwritten_nil [OF mk_treeD(2) [OF less.prems(1)]] show ?thesis
      by (simp add: append_loop.simps touched_def paths_def mk_written_def)
  next
    case False
    let ?k = "min (length p) (BLOCK_SIZE - ?p mod BLOCK_SIZE)" and ?f = "?p div BLOCK_SIZE"
    let ?R = "paths (touched (?p + ?k) (length p - ?k))"
    have k: "0 < ?k" "?k \<le> length p" "?p mod BLOCK_SIZE + ?k \<le> BLOCK_SIZE" using False by (auto simp: BLOCK_SIZE_def min_def)
    have P: "paths (touched ?p (length p)) = path_of ?f \<union> ?R"
      using touched_step(1) [of "length p" ?k ?p, OF _ refl] False by (simp add: paths_insert)
    have split: "card (path_of ?f \<union> ?R - S) = card (path_of ?f - S) + card (?R - (S \<union> path_of ?f))" by (rule card_Diff_Un) simp_all
    have fb: "?f < MAX_BLOCKS" using less.prems(2) False by (intro less_mult_imp_div_less) (cases p; simp)
    have "fb m + card (path_of ?f - S) \<le> N" using less.prems(3) P split by simp
    from append_sect_ok [OF less.prems(1) fb this] obtain m1 a1 where
      g: "append_sect ?f a m = Inr (slot_blk (mview m1) a1 (Dat ?f), a1, m1)" "mk_grown N m a S m1 a1 (S \<union> path_of ?f)" by blast
    let ?b = "slot_blk (mview m1) a1 (Dat ?f)"
    let ?m2 = "put_sec ?b (splice (mview m1 ?b) (?p mod BLOCK_SIZE) (take ?k p)) m1"
    have in1: "Dat ?f \<in> S \<union> path_of ?f" by (simp add: path_of_def)
    have G: "mk_tree N m1 a1 (S \<union> path_of ?f)" using g(2) mk_frameD(1) by (auto simp: mk_grown_def)
    note D = mk_treeD [OF G]
    have b: "unat ?b < N" using D(3) [OF in1] D(5) by simp
    have w: "mk_written N m a S ?p (take ?k p) ?m2 a1 (S \<union> path_of ?f)" by (rule mk_data [OF g(2) in1 refl]) (use k in simp)
    then have F: "mk_frame N m a S ?m2 a1 (S \<union> path_of ?f)" by (simp add: mk_written_def)
    have st: "append_loop offs p a m = append_loop (offs + of_nat ?k) (drop ?k p) a1 ?m2"
      using False g(1) sect_read [OF D(1) b] sect_write [OF D(1) b] by (simp add: append_loop.simps [of offs p a m] Let_def)
    have p': "unat (offs + of_nat ?k) = ?p + ?k" using less.prems(2) k(2) MAX_WRITE_blocks(2) by (simp add: unat_word_ariths unat_of_nat)
    have "S \<union> path_of ?f - S = path_of ?f - S" by auto
    then have "fb ?m2 = fb m + card (path_of ?f - S)" using mk_frameD(6) [OF F] by (simp only:)
    with less.prems(3) [unfolded P split] have fr: "fb ?m2 + card (?R - (S \<union> path_of ?f)) \<le> N" by linarith
    have short: "length (drop ?k p) < length p" and bound: "unat (offs + of_nat ?k) + length (drop ?k p) \<le> MAX_BLOCKS * BLOCK_SIZE"
      using k p' less.prems(2) by simp_all
    have eqR: "paths (touched (unat (offs + of_nat ?k)) (length (drop ?k p))) = ?R" unfolding p' by simp
    from less.hyps [OF short mk_frameD(1) [OF F] bound fr [folded eqR], unfolded p'] obtain m3 a3 where
      r: "append_loop (offs + of_nat ?k) (drop ?k p) a1 ?m2 = Inr (offs + of_nat ?k + of_nat (length (drop ?k p)), a3, m3)"
        "mk_written N ?m2 a1 (S \<union> path_of ?f) (?p + ?k) (drop ?k p) m3 a3 (S \<union> path_of ?f \<union> ?R)" by auto
    have "mk_written N ?m2 a1 (S \<union> path_of ?f) (?p + length (take ?k p)) (drop ?k p) m3 a3 (S \<union> path_of ?f \<union> ?R)" using r(2) by simp
    from mk_written_trans [OF w this] have "mk_written N m a S ?p p m3 a3 (S \<union> paths (touched ?p (length p)))" unfolding P by (simp add: Un_assoc)
    moreover have "offs + of_nat ?k + of_nat (length (drop ?k p)) = offs + of_nat (length p)"
      using k(2) by (simp add: add.assoc flip: of_nat_add)
    ultimately show ?thesis using st r(1) by (intro exI [of _ m3] exI [of _ a3]) (simp only: simp_thms)
  qed
qed

section \<open>The file system in the image\<close>

text \<open>The slots of a file of \<open>n\<close> bytes that was written from its start.\<close>

definition slots_for :: "nat \<Rightarrow> slot set" where
  "slots_for n = paths {f. f * BLOCK_SIZE < n}"

lemma finite_below: "finite {f. f * BLOCK_SIZE < n}"
  by (rule finite_subset [of _ "{..n}"]) (auto simp: BLOCK_SIZE_def)

lemma finite_slots [simp]: "finite (slots_for n)"
  by (simp add: slots_for_def finite_below)

lemma slots_touched: "slots_for p \<union> paths (touched p n) = slots_for (p + n)"
proof -
  have "{f. f * BLOCK_SIZE < p} \<union> touched p n = {f. f * BLOCK_SIZE < p + n}"
  proof (intro equalityI subsetI)
    fix f assume "f \<in> {f. f * BLOCK_SIZE < p} \<union> touched p n"
    then show "f \<in> {f. f * BLOCK_SIZE < p + n}" by (auto simp: touched_def BLOCK_SIZE_def)
  next
    fix f assume f: "f \<in> {f. f * BLOCK_SIZE < p + n}"
    show "f \<in> {f. f * BLOCK_SIZE < p} \<union> touched p n"
    proof (cases "f * BLOCK_SIZE < p")
      case False
      with f have "f * BLOCK_SIZE \<in> {p..<p + n}" "f = f * BLOCK_SIZE div BLOCK_SIZE" by (auto simp: BLOCK_SIZE_def)
      then have "f \<in> touched p n" unfolding touched_def by blast
      then show ?thesis by blast
    qed simp
  qed
  then show ?thesis unfolding slots_for_def by (auto simp: paths_def)
qed

lemma slots_covers: "covers (slots_for n) n"
  by (auto simp: covers_def slots_for_def paths_def path_of_def BLOCK_SIZE_def)

text \<open>The layout for \<open>N\<close> blocks: superblock, bitmap, inodes; \<open>meta N\<close> is the first block for data.\<close>

definition ino_start :: "nat \<Rightarrow> nat" where
  "ino_start N = 3 + N div 4096"

definition meta :: "nat \<Rightarrow> nat" where
  "meta N = ino_start N + N div 64 + 1"

definition layout_sb :: "nat \<Rightarrow> cofs_superblock" where
  "layout_sb N = \<lparr>magic = COFS_MAGIC, sb_size = of_nat N, num_blocks = of_nat N - of_nat (meta N), num_inodes = of_nat (N div 8),
     bitmap_start = 2, inode_start = of_nat (ino_start N), data_block = 0\<rparr>"

lemma mk_layout_eq:
  assumes "st div BLOCK_SIZE = 204801 + N" "204801 + N \<le> 2 ^ 23"
  shows "mk_layout st = (layout_sb N, of_nat (meta N))"
proof -
  have c: "of_nat (st div BLOCK_SIZE) - PARTITION_OFFSET = (of_nat N :: u32)" by (simp add: assms(1) PARTITION_OFFSET_def)
  have "unat (of_nat N * of_nat BLOCK_SIZE div 4096 :: u32) = N div 8"
    using assms(2) by (simp add: unat_div unat_word_ariths unat_of_nat BLOCK_SIZE_def)
  then have n: "of_nat N * of_nat BLOCK_SIZE div 4096 = (of_nat (N div 8) :: u32)"
    using assms(2) by (simp add: word_unat_eq_iff unat_of_nat)
  have "unat (of_nat N div of_nat (BLOCK_SIZE * 8) :: u32) = N div 4096"
    using assms(2) by (simp add: unat_div unat_of_nat BLOCK_SIZE_def)
  then have b: "of_nat N div of_nat (BLOCK_SIZE * 8) = (of_nat (N div 4096) :: u32)"
    using assms(2) by (simp add: word_unat_eq_iff unat_of_nat)
  have "unat (of_nat (N div 8) div of_nat NUM_INOPB :: u32) = N div 64"
    using assms(2) by (simp add: unat_div unat_of_nat NUM_INOPB_def div_mult2_eq [symmetric])
  then have i: "of_nat (N div 8) div of_nat NUM_INOPB = (of_nat (N div 64) :: u32)"
    using assms(2) by (simp add: word_unat_eq_iff unat_of_nat)
  show ?thesis unfolding mk_layout_def c Let_def n b i by (simp add: layout_sb_def meta_def ino_start_def)
qed

text \<open>The block that holds inode \<open>Suc j\<close>, and this inode.\<close>

definition iblk :: "nat \<Rightarrow> nat \<Rightarrow> u32" where
  "iblk N j = INO_BLK (of_nat (Suc j)) (layout_sb N)"

definition mk_ino :: "nat \<Rightarrow> mkfs \<Rightarrow> nat \<Rightarrow> cofs_inode" where
  "mk_ino N m j = inode_at (of_nat (Suc j)) (mview m (iblk N j))"

lemma iblk_unat:
  assumes "j < N div 8" "204801 + N \<le> 2 ^ 23"
  shows "unat (of_nat (Suc j) :: u32) = Suc j" "unat (iblk N j) = Suc j div 8 + ino_start N" "unat (iblk N j) < meta N" "2 < unat (iblk N j)"
proof -
  have j: "Suc j < 2 ^ 32" using assms by simp
  then show u: "unat (of_nat (Suc j) :: u32) = Suc j" by (simp add: unat_of_nat del: of_nat_Suc)
  have s: "Suc j div 8 + ino_start N < 2 ^ 32" using assms by (simp add: ino_start_def)
  have "iblk N j = of_nat (Suc j div 8 + ino_start N)"
    unfolding iblk_def INO_BLK_def u by (simp add: layout_sb_def NUM_INOPB_def)
  then show e: "unat (iblk N j) = Suc j div 8 + ino_start N" using s by (simp add: unat_of_nat del: of_nat_add)
  have "Suc j div 8 \<le> N div 8 div 8" using assms(1) by (intro div_le_mono) simp
  then have "Suc j div 8 \<le> N div 64" by (simp add: div_mult2_eq [symmetric])
  then show "unat (iblk N j) < meta N" "2 < unat (iblk N j)" unfolding e by (simp_all add: meta_def ino_start_def)
qed

text \<open>
  \<open>holds_file\<close>: inode \<open>Suc j\<close> is a file with this type and content; behind its end its last block is zeros.
\<close>

definition tail_zero :: "(u32 \<Rightarrow> u8 list) \<Rightarrow> u32 list \<Rightarrow> nat \<Rightarrow> bool" where
  "tail_zero v a n \<longleftrightarrow> (\<forall>p\<ge>n. Dat (p div BLOCK_SIZE) \<in> slots_for n \<longrightarrow> file_byte v a p = 0)"

definition file_blks :: "nat \<Rightarrow> mkfs \<Rightarrow> u8 list \<Rightarrow> nat \<Rightarrow> u32 set" where
  "file_blks N m xs j = slot_blk (mview m) (i_addrs (mk_ino N m j)) ` slots_for (length xs)"

definition holds_file :: "nat \<Rightarrow> mkfs \<Rightarrow> u16 \<Rightarrow> u8 list \<Rightarrow> nat \<Rightarrow> bool" where
  "holds_file N m ty xs j \<longleftrightarrow>
     mk_ino N m j = (zero_inode ty)\<lparr>i_size := of_nat (length xs), i_addrs := i_addrs (mk_ino N m j)\<rparr> \<and>
     tree_ok (mview m) (i_addrs (mk_ino N m j)) (slots_for (length xs)) \<and>
     contents (mview m) (i_addrs (mk_ino N m j)) (length xs) = xs \<and> length xs \<le> MAX_BLOCKS * BLOCK_SIZE \<and>
     tail_zero (mview m) (i_addrs (mk_ino N m j)) (length xs) \<and> (\<forall>x\<in>file_blks N m xs j. meta N \<le> unat x \<and> unat x < fb m)"

definition blocks_of :: "(u16 \<times> u8 list) list \<Rightarrow> nat" where
  "blocks_of fs = sum_list (map (\<lambda>(ty, xs). card (slots_for (length xs))) fs)"

text \<open>The blocks in front of the inodes before the bitmap is written: the superblock and zeros.\<close>

definition head_blk :: "nat \<Rightarrow> u32 \<Rightarrow> u8 list" where
  "head_blk N x = (if x = 1 then superb_bytes (layout_sb N) @ replicate (BLOCK_SIZE - 28) 0 else zero_blk)"

text \<open>\<open>mk_inv N m fs\<close>: the image holds the files \<open>fs\<close>, in the order of their inodes, on blocks of their own.\<close>

definition mk_inv :: "nat \<Rightarrow> mkfs \<Rightarrow> (u16 \<times> u8 list) list \<Rightarrow> bool" where
  "mk_inv N m fs \<longleftrightarrow> mk_base N m \<and> m_superb m = layout_sb N \<and> free_inode m = of_nat (Suc (length fs)) \<and> length fs < N div 8 \<and>
     fb m = meta N + blocks_of fs \<and> fb m \<le> N \<and> (\<forall>x. fb m \<le> unat x \<and> unat x < N \<longrightarrow> mview m x = zero_blk) \<and>
     (\<forall>x. unat x < ino_start N \<longrightarrow> mview m x = head_blk N x) \<and>
     (\<forall>j<length fs. holds_file N m (fst (fs ! j)) (snd (fs ! j)) j) \<and>
     (\<forall>j<length fs. \<forall>k<length fs. j \<noteq> k \<longrightarrow> file_blks N m (snd (fs ! j)) j \<inter> file_blks N m (snd (fs ! k)) k = {})"

lemma mk_invD:
  assumes "mk_inv N m fs"
  shows "mk_base N m" "m_superb m = layout_sb N" "free_inode m = of_nat (Suc (length fs))" "length fs < N div 8"
    "fb m = meta N + blocks_of fs" "fb m \<le> N" "fb m \<le> unat x \<Longrightarrow> unat x < N \<Longrightarrow> mview m x = zero_blk"
    "j < length fs \<Longrightarrow> holds_file N m (fst (fs ! j)) (snd (fs ! j)) j"
    "j < length fs \<Longrightarrow> k < length fs \<Longrightarrow> j \<noteq> k \<Longrightarrow> file_blks N m (snd (fs ! j)) j \<inter> file_blks N m (snd (fs ! k)) k = {}"
    "204801 + N \<le> 2 ^ 23" "unat x < ino_start N \<Longrightarrow> mview m x = head_blk N x"
  using assms by (auto simp: mk_inv_def mk_base_def)

lemma holds_fileD:
  assumes "holds_file N m ty xs j"
  shows "mk_ino N m j = (zero_inode ty)\<lparr>i_size := of_nat (length xs), i_addrs := i_addrs (mk_ino N m j)\<rparr>"
    "tree_ok (mview m) (i_addrs (mk_ino N m j)) (slots_for (length xs))" "contents (mview m) (i_addrs (mk_ino N m j)) (length xs) = xs"
    "length xs \<le> MAX_BLOCKS * BLOCK_SIZE" "x \<in> file_blks N m xs j \<Longrightarrow> meta N \<le> unat x" "x \<in> file_blks N m xs j \<Longrightarrow> unat x < fb m"
    "i_size (mk_ino N m j) = of_nat (length xs)" "tail_zero (mview m) (i_addrs (mk_ino N m j)) (length xs)"
proof -
  show e: "mk_ino N m j = (zero_inode ty)\<lparr>i_size := of_nat (length xs), i_addrs := i_addrs (mk_ino N m j)\<rparr>"
    using assms by (simp add: holds_file_def)
  show "i_size (mk_ino N m j) = of_nat (length xs)" using arg_cong [OF e, of i_size] by simp
qed (use assms in \<open>auto simp: holds_file_def\<close>)

text \<open>Setting the inode \<open>Suc j\<close> of a state \<open>m1\<close>, and what this does to inodes and files.\<close>

definition with_ino :: "nat \<Rightarrow> nat \<Rightarrow> cofs_inode \<Rightarrow> mkfs \<Rightarrow> mkfs" where
  "with_ino N j ino m = put_sec (iblk N j) (set_inode_at (of_nat (Suc j)) ino (mview m (iblk N j))) m"

lemma with_ino_ok:
  assumes b: "mk_base N m" "m_superb m = layout_sb N" "j < N div 8" "meta N \<le> N" and i: "length (i_addrs ino) = 9"
  shows "mk_write_inode (of_nat (Suc j)) ino m = Inr (with_ino N j ino m)" "mk_read_inode (of_nat (Suc j)) m = Inr (mk_ino N m j)"
    "mview (with_ino N j ino m) = (mview m)(iblk N j := set_inode_at (of_nat (Suc j)) ino (mview m (iblk N j)))"
    "mk_base N (with_ino N j ino m)" "mk_ino N (with_ino N j ino m) j = ino"
    "k < N div 8 \<Longrightarrow> k \<noteq> j \<Longrightarrow> mk_ino N (with_ino N j ino m) k = mk_ino N m k"
proof -
  have lim: "204801 + N \<le> 2 ^ 23" using b(1) by (simp add: mk_base_def)
  note I = iblk_unat [OF b(3) lim]
  have n: "unat (iblk N j) < N" using I(3) b(4) by simp
  have len: "length (mview m x) = 512" for x using base_len [OF b(1)] by (simp add: BLOCK_SIZE_def)
  have blk: "INO_BLK (of_nat (Suc j)) (m_superb m) = iblk N j" by (simp add: iblk_def b(2))
  show "mk_write_inode (of_nat (Suc j)) ino m = Inr (with_ino N j ino m)" "mk_read_inode (of_nat (Suc j)) m = Inr (mk_ino N m j)"
    unfolding mk_write_inode_def mk_read_inode_def blk using sect_read [OF b(1) n] sect_write [OF b(1) n] by (simp_all add: with_ino_def mk_ino_def)
  show v: "mview (with_ino N j ino m) = (mview m)(iblk N j := set_inode_at (of_nat (Suc j)) ino (mview m (iblk N j)))"
    unfolding with_ino_def by (rule mview_put_sec [OF in_img_less [OF b(1) n]])
  show "mk_base N (with_ino N j ino m)" unfolding with_ino_def by (rule base_put [OF b(1) n]) (use len i in \<open>simp add: BLOCK_SIZE_def\<close>)
  show "mk_ino N (with_ino N j ino m) j = ino" unfolding mk_ino_def v using inode_at_same [OF i len] by simp
  show "mk_ino N (with_ino N j ino m) k = mk_ino N m k" if k: "k < N div 8" "k \<noteq> j"
  proof (cases "iblk N k = iblk N j")
    case True
    note K = iblk_unat [OF k(1) lim]
    have "Suc k div 8 = Suc j div 8" using True K(2) I(2) by simp
    then have "Suc j mod 8 \<noteq> Suc k mod 8" using k(2) by (metis div_mult_mod_eq Suc_inject)
    then have "unat (of_nat (Suc j) :: u32) mod NUM_INOPB \<noteq> unat (of_nat (Suc k) :: u32) mod NUM_INOPB" unfolding I(1) K(1) NUM_INOPB_def .
    from inode_at_other [OF i len this] True show ?thesis unfolding mk_ino_def v by simp
  next
    case False
    then show ?thesis unfolding mk_ino_def v by simp
  qed
qed

lemma with_ino_simps [simp]:
  "m_superb (with_ino N j ino m) = m_superb m" "free_inode (with_ino N j ino m) = free_inode m" "free_block (with_ino N j ino m) = free_block m"
  by (simp_all add: with_ino_def)

text \<open>A file whose inode and blocks keep their content is still there.\<close>

lemma file_kept:
  assumes h: "holds_file N m ty xs k" and i: "mk_ino N m' k = mk_ino N m k" and f: "fb m \<le> fb m'"
    and s: "\<And>x. x \<in> file_blks N m xs k \<Longrightarrow> mview m' x = mview m x"
  shows "holds_file N m' ty xs k" "file_blks N m' xs k = file_blks N m xs k"
proof -
  note H = holds_fileD [OF h]
  have "mview m' (slot_blk (mview m) (i_addrs (mk_ino N m k)) t) = mview m (slot_blk (mview m) (i_addrs (mk_ino N m k)) t)"
    if "t \<in> slots_for (length xs)" for t using s that by (simp add: file_blks_def)
  note F = tree_frame [OF H(2) this]
  show b: "file_blks N m' xs k = file_blks N m xs k" unfolding file_blks_def i using F(2) by (intro image_cong) auto
  show "holds_file N m' ty xs k"
    unfolding holds_file_def b unfolding i using H(1,3-6) H(8) F(1,4) F(3) slots_covers f by (auto simp: tail_zero_def) fastforce?
qed

lemma length_zero_inode [simp]: "length (i_addrs (zero_inode ty)) = 9"
  by (simp add: zero_inode_def)

lemma mk_inv_alloc:
  assumes inv: "mk_inv N m fs" and n: "Suc (length fs) < N div 8"
  shows "\<exists>m'. mk_inode_alloc ty m = Inr (of_nat (Suc (length fs)), m') \<and> mk_inv N m' (fs @ [(ty, [])])"
proof -
  note I = mk_invD [OF inv]
  let ?j = "length fs" and ?m1 = "m\<lparr>free_inode := free_inode m + 1\<rparr>"
  let ?m2 = "with_ino N ?j (zero_inode ty) ?m1"
  have mN: "meta N \<le> N" using I(5,6) by simp
  have W: "mk_write_inode (of_nat (Suc ?j)) (zero_inode ty) ?m1 = Inr ?m2" "mview ?m2 = (mview m)(iblk N ?j := set_inode_at (of_nat (Suc ?j)) (zero_inode ty) (mview m (iblk N ?j)))"
    "mk_base N ?m2" "mk_ino N ?m2 ?j = zero_inode ty" "k < N div 8 \<Longrightarrow> k \<noteq> ?j \<Longrightarrow> mk_ino N ?m2 k = mk_ino N m k" for k
    using with_ino_ok [of N ?m1 ?j "zero_inode ty"] I(1,2,4) mN by (simp_all add: mk_ino_def del: of_nat_Suc)
  have ib: "unat (iblk N ?j) < meta N" using iblk_unat(3) [OF I(4,10)] .
  have low: "mview ?m2 x = mview m x" if "meta N \<le> unat x" for x using W(2) ib that by auto
  have keep: "holds_file N ?m2 (fst (fs ! k)) (snd (fs ! k)) k" "file_blks N ?m2 (snd (fs ! k)) k = file_blks N m (snd (fs ! k)) k" if "k < ?j" for k
    using file_kept [OF I(8) [OF that], of ?m2] W(5) [of k] that I(4) low holds_fileD(5) [OF I(8) [OF that]] by simp_all
  have em: "slots_for 0 = {}" by (simp add: slots_for_def paths_def)
  have new: "holds_file N ?m2 ty [] ?j" "file_blks N ?m2 [] ?j = {}"
    using W(4) tree_empty by (simp_all add: holds_file_def file_blks_def em contents_def tail_zero_def) (simp_all add: zero_inode_def)
  have "mk_inv N ?m2 (fs @ [(ty, [])])"
    unfolding mk_inv_def
  proof (intro conjI allI impI)
    show "mk_base N ?m2" by (rule W(3))
    show "m_superb ?m2 = layout_sb N" "free_inode ?m2 = of_nat (Suc (length (fs @ [(ty, [])])))" "length (fs @ [(ty, [])]) < N div 8"
      using I(2,3) n by simp_all
    show "fb ?m2 = meta N + blocks_of (fs @ [(ty, [])])" using I(5) em by (simp add: blocks_of_def)
    show "fb ?m2 \<le> N" using I(6) by simp
    show "mview ?m2 x = zero_blk" if "fb ?m2 \<le> unat x \<and> unat x < N" for x using I(7) [of x] low [of x] that I(5) by simp
    show "mview ?m2 x = head_blk N x" if "unat x < ino_start N" for x
      using I(11) [OF that] W(2) iblk_unat(2) [OF I(4,10)] that by auto
    show "holds_file N ?m2 (fst ((fs @ [(ty, [])]) ! k)) (snd ((fs @ [(ty, [])]) ! k)) k" if "k < length (fs @ [(ty, [])])" for k
      using that keep(1) new(1) by (cases "k < ?j") (auto simp: nth_append not_less less_Suc_eq)
    show "file_blks N ?m2 (snd ((fs @ [(ty, [])]) ! i)) i \<inter> file_blks N ?m2 (snd ((fs @ [(ty, [])]) ! k)) k = {}"
      if "i < length (fs @ [(ty, [])])" "k < length (fs @ [(ty, [])])" "i \<noteq> k" for i k
      using that keep(2) new(2) I(9) by (auto simp: nth_append not_less less_Suc_eq)
  qed
  moreover have "mk_inode_alloc ty m = Inr (of_nat (Suc ?j), ?m2)" using W(1) I(3) by (simp add: mk_inode_alloc_def Let_def)
  ultimately show ?thesis by blast
qed

text \<open>Changing the file of inode \<open>Suc j\<close>: its blocks, blocks that were free, and at the end its inode.\<close>

lemma mk_inv_set:
  assumes inv: "mk_inv N m fs" and j: "j < length fs" "fs ! j = (ty, xs)"
    and m1: "mk_base N m1" "m_superb m1 = m_superb m" "free_inode m1 = free_inode m" "fb m1 = meta N + blocks_of (fs[j := (ty, ys)])"
      "fb m \<le> fb m1" "fb m1 \<le> N" "\<And>x. fb m1 \<le> unat x \<Longrightarrow> unat x < N \<Longrightarrow> mview m1 x = zero_blk"
    and fr: "\<And>x. x \<notin> file_blks N m xs j \<Longrightarrow> unat x < fb m \<Longrightarrow> mview m1 x = mview m x"
    and t: "tree_ok (mview m1) a1 (slots_for (length ys))" "contents (mview m1) a1 (length ys) = ys" "length ys \<le> MAX_BLOCKS * BLOCK_SIZE" "tail_zero (mview m1) a1 (length ys)"
      "\<And>t. t \<in> slots_for (length ys) \<Longrightarrow> slot_blk (mview m1) a1 t \<in> file_blks N m xs j \<or> fb m \<le> unat (slot_blk (mview m1) a1 t)"
      "\<And>t. t \<in> slots_for (length ys) \<Longrightarrow> unat (slot_blk (mview m1) a1 t) < fb m1"
  shows "mk_inv N (with_ino N j ((zero_inode ty)\<lparr>i_size := of_nat (length ys), i_addrs := a1\<rparr>) m1) (fs[j := (ty, ys)])"
    (is "mk_inv N (with_ino N j ?i m1) ?fs")
proof -
  note I = mk_invD [OF inv]
  let ?m2 = "with_ino N j ?i m1"
  have jN: "k < N div 8" if "k < length fs" for k using that I(4) by simp
  have mN: "meta N \<le> N" "meta N \<le> fb m" using I(5,6) by simp_all
  have l9: "length (i_addrs ?i) = 9" using tree_okD(1) [OF t(1)] by simp
  have sb: "m_superb m1 = layout_sb N" using m1(2) I(2) by simp
  note W = with_ino_ok [OF m1(1) sb jN [OF j(1)] mN(1) l9]
  have ib: "unat (iblk N k) < meta N" if "k < length fs" for k using iblk_unat(3) [OF jN [OF that] I(10)] .
  have low: "mview ?m2 x = mview m1 x" if "meta N \<le> unat x" for x using W(3) ib [OF j(1)] that by auto
  have Hj: "holds_file N m ty xs j" using I(8) [OF j(1)] j(2) by simp
  have keep: "holds_file N ?m2 (fst (fs ! k)) (snd (fs ! k)) k" "file_blks N ?m2 (snd (fs ! k)) k = file_blks N m (snd (fs ! k)) k"
    if k: "k < length fs" "k \<noteq> j" for k
  proof -
    note H = holds_fileD [OF I(8) [OF k(1)]]
    have "iblk N k \<notin> file_blks N m xs j" using holds_fileD(5) [OF Hj] ib [OF k(1)] by fastforce
    then have "mview m1 (iblk N k) = mview m (iblk N k)" using fr ib [OF k(1)] mN(2) by simp
    then have "mk_ino N ?m2 k = mk_ino N m k" using W(6) [OF jN [OF k(1)] k(2)] by (simp add: mk_ino_def)
    moreover have "mview ?m2 x = mview m x" if x: "x \<in> file_blks N m (snd (fs ! k)) k" for x
      using x low [OF H(5) [OF x]] fr [of x] H(6) [OF x] I(9) [OF k(1) j(1) k(2)] j(2) by auto
    moreover have "fb m \<le> fb ?m2" using m1(5) by simp
    ultimately show "holds_file N ?m2 (fst (fs ! k)) (snd (fs ! k)) k" "file_blks N ?m2 (snd (fs ! k)) k = file_blks N m (snd (fs ! k)) k"
      using file_kept [OF I(8) [OF k(1)]] by blast+
  qed
  have hi: "meta N \<le> unat (slot_blk (mview m1) a1 t)" if "t \<in> slots_for (length ys)" for t
    using t(5) [OF that] holds_fileD(5) [OF Hj] mN(2) by fastforce
  have "mview ?m2 (slot_blk (mview m1) a1 t) = mview m1 (slot_blk (mview m1) a1 t)" if "t \<in> slots_for (length ys)" for t
    by (rule low [OF hi [OF that]])
  note F = tree_frame [OF t(1) this]
  have bj: "file_blks N ?m2 ys j = slot_blk (mview m1) a1 ` slots_for (length ys)"
    unfolding file_blks_def W(5) using F(2) by (auto intro!: image_cong)
  have new: "holds_file N ?m2 ty ys j"
    unfolding holds_file_def bj unfolding W(5) using F(1) F(4) [OF _ slots_covers] t(2,3,4,6) F(3) hi by (auto simp: tail_zero_def)
  have dj: "file_blks N ?m2 ys j \<inter> file_blks N m (snd (fs ! k)) k = {}" if k: "k < length fs" "k \<noteq> j" for k
    unfolding bj using t(5) I(9) [OF j(1) k(1)] k(2) j(2) holds_fileD(6) [OF I(8) [OF k(1)]] by fastforce
  show ?thesis
    unfolding mk_inv_def
  proof (intro conjI allI impI)
    show "mk_base N ?m2" by (rule W(4))
    show "m_superb ?m2 = layout_sb N" "free_inode ?m2 = of_nat (Suc (length ?fs))" "length ?fs < N div 8" using sb m1(3) I(3,4) by simp_all
    show "fb ?m2 = meta N + blocks_of ?fs" "fb ?m2 \<le> N" using m1(4,6) by simp_all
    show "mview ?m2 x = zero_blk" if "fb ?m2 \<le> unat x \<and> unat x < N" for x using m1(5) m1(7) [of x] low [of x] that mN(2) by simp
    show "mview ?m2 x = head_blk N x" if x: "unat x < ino_start N" for x
    proof -
      have xm: "unat x < meta N" "unat x < fb m" using x mN(2) by (simp_all add: meta_def)
      then have "x \<notin> file_blks N m xs j" using holds_fileD(5) [OF Hj, of x] by auto
      moreover have "x \<noteq> iblk N j" using x iblk_unat(2) [OF jN [OF j(1)] I(10)] by auto
      ultimately show ?thesis using fr [of x] xm(2) I(11) [OF x] W(3) by simp
    qed
    show "holds_file N ?m2 (fst (?fs ! k)) (snd (?fs ! k)) k" if "k < length ?fs" for k
      using that keep(1) new j(1) by (cases "k = j") auto
    show "file_blks N ?m2 (snd (?fs ! i)) i \<inter> file_blks N ?m2 (snd (?fs ! k)) k = {}" if "i < length ?fs" "k < length ?fs" "i \<noteq> k" for i k
      using that keep(2) dj j(1) I(9) by (cases "i = j"; cases "k = j") (auto simp: Int_commute)
  qed
qed

lemma blocks_of_update:
  assumes "j < length fs" "fs ! j = (ty, xs)"
  shows "blocks_of (fs[j := (ty, ys)]) + card (slots_for (length xs)) = blocks_of fs + card (slots_for (length ys))"
proof -
  let ?f = "\<lambda>(ty :: u16, xs :: u8 list). card (slots_for (length xs))"
  have "blocks_of (fs[j := (ty, ys)]) = sum_list (map ?f fs) + card (slots_for (length ys)) - card (slots_for (length xs))"
    using sum_list_update [of j "map ?f fs" "card (slots_for (length ys))"] assms by (simp add: blocks_of_def map_update)
  moreover have "card (slots_for (length xs)) \<le> sum_list (map ?f fs)"
    using elem_le_sum_list [of j "map ?f fs"] assms by simp
  ultimately show ?thesis by (simp add: blocks_of_def)
qed

lemma inode_append_ok:
  assumes inv: "mk_inv N m fs" and j: "j < length fs" "fs ! j = (ty, xs)" and l: "length xs + length p \<le> MAX_BLOCKS * BLOCK_SIZE"
    and n: "meta N + blocks_of (fs[j := (ty, xs @ p)]) \<le> N"
  shows "\<exists>m'. inode_append (of_nat (Suc j)) p m = Inr m' \<and> mk_inv N m' (fs[j := (ty, xs @ p)])"
proof -
  note I = mk_invD [OF inv]
  have H: "holds_file N m ty xs j" using I(8) [OF j(1)] j(2) by simp
  note h = holds_fileD [OF H]
  let ?a = "i_addrs (mk_ino N m j)" and ?S = "slots_for (length xs)" and ?o = "of_nat (length xs) :: u32"
  let ?P = "paths (touched (length xs) (length p))"
  have mN: "meta N \<le> N" "j < N div 8" using I(4-6) j(1) by simp_all
  have o: "unat ?o = length xs" using l MAX_WRITE_blocks(2) by (simp add: unat_of_nat)
  have S': "?S \<union> ?P = slots_for (length (xs @ p))" by (simp add: slots_touched)
  have "card ((?S \<union> ?P) - {}) = card (?S - {}) + card (?P - ({} \<union> ?S))" by (rule card_Diff_Un) simp_all
  then have card: "card (slots_for (length (xs @ p))) = card ?S + card (?P - ?S)" unfolding S' by simp
  have sum: "fb m + card (?P - ?S) = meta N + blocks_of (fs[j := (ty, xs @ p)])" using blocks_of_update [OF j, of "xs @ p"] I(5) card by simp
  have T: "mk_tree N m ?a ?S"
    unfolding mk_tree_def using I(1,5,6,7) h(2,6) by (auto simp: file_blks_def meta_def)
  from append_loop_ok [OF T, of ?o p] l sum n obtain m1 a1 where
    r: "append_loop ?o p ?a m = Inr (?o + of_nat (length p), a1, m1)" "mk_written N m ?a ?S (length xs) p m1 a1 (slots_for (length (xs @ p)))"
    unfolding o S' by auto
  have F: "mk_frame N m ?a ?S m1 a1 (slots_for (length (xs @ p)))" and V: "vwritten (mview m) ?a ?S (length xs) p (mview m1) a1 (slots_for (length (xs @ p)))"
    using r(2) by (simp_all add: mk_written_def)
  note f = mk_frameD [OF F] and d = mk_treeD [OF mk_frameD(1) [OF F]]
  have "slots_for (length (xs @ p)) - ?S = ?P - ?S" using S' by auto
  then have fb1: "fb m1 = meta N + blocks_of (fs[j := (ty, xs @ p)])" using f(6) sum by simp
  have c: "contents (mview m1) a1 (length (xs @ p)) = xs @ p"
    using contents_vwritten(2) [OF V slots_covers order_refl] h(3) by (simp add: splice_def)
  let ?i = "(zero_inode ty)\<lparr>i_size := of_nat (length (xs @ p)), i_addrs := a1\<rparr>"
  have "mk_inv N (with_ino N j ?i m1) (fs[j := (ty, xs @ p)])"
  proof (rule mk_inv_set [OF inv j d(1) f(4,5) fb1 _ d(5) d(7) _ d(2) c])
    show "fb m \<le> fb m1" using f(6) by simp
    show "mview m1 x = mview m x" if "x \<notin> file_blks N m xs j" "unat x < fb m" for x using f(8) [of x] that by (simp add: file_blks_def)
    show "length (xs @ p) \<le> MAX_BLOCKS * BLOCK_SIZE" using l by simp
    show "tail_zero (mview m1) a1 (length (xs @ p))"
      using vwrittenD(5) [OF V] h(8) by (auto simp: tail_zero_def)
    show "slot_blk (mview m1) a1 t \<in> file_blks N m xs j \<or> fb m \<le> unat (slot_blk (mview m1) a1 t)" if "t \<in> slots_for (length (xs @ p))" for t
      using f(3) [of t] f(7) [OF that] unfolding file_blks_def by (cases "t \<in> ?S") auto
    show "unat (slot_blk (mview m1) a1 t) < fb m1" if "t \<in> slots_for (length (xs @ p))" for t by (rule d(3) [OF that])
  qed
  moreover have "mk_ino N m j\<lparr>i_size := ?o + of_nat (length p), i_addrs := a1\<rparr> = ?i" by (subst h(1)) simp
  moreover have "length (i_addrs ?i) = 9" using tree_okD(1) [OF d(2)] by simp
  moreover have "m_superb m1 = layout_sb N" using f(4) I(2) by simp
  ultimately show ?thesis
    using with_ino_ok(1) [of N m1 j ?i] d(1) mN h(7) r(1)
      with_ino_ok(2) [OF I(1,2) mN(2,1), of "zero_inode ty"]
    by (intro exI [of _ "with_ino N j ?i m1"]) (simp add: inode_append_def del: of_nat_Suc)
qed

section \<open>The files of the command line\<close>

lemma card_slots_mono: "k \<le> n \<Longrightarrow> card (slots_for k) \<le> card (slots_for n)"
  by (rule card_mono) (simp, auto simp: slots_for_def paths_def intro!: exI elim!: less_le_trans)

lemma blocks_of_simps [simp]:
  "blocks_of [] = 0" "blocks_of ((ty, xs) # fs) = card (slots_for (length xs)) + blocks_of fs" "blocks_of (fs @ gs) = blocks_of fs + blocks_of gs"
  by (simp_all add: blocks_of_def)

lemma blocks_of_mono:
  assumes "j < length fs" "length xs \<le> length ys"
  shows "blocks_of (fs[j := (ty, xs)]) \<le> blocks_of (fs[j := (ty, ys)])"
  using blocks_of_update [of j "fs[j := (ty, xs)]" ty xs ys] card_slots_mono [OF assms(2)] assms(1) by simp

lemma copy_loop_ok:
  assumes "mk_inv N m fs" "j < length fs" "fs ! j = (ty, xs)" "length xs + length data \<le> MAX_BLOCKS * BLOCK_SIZE"
    and "meta N + blocks_of (fs[j := (ty, xs @ data)]) \<le> N"
  shows "\<exists>m'. copy_loop (of_nat (Suc j)) data m = Inr m' \<and> mk_inv N m' (fs[j := (ty, xs @ data)])"
  using assms
proof (induction "length data" arbitrary: data xs m fs rule: less_induct)
  case less
  show ?case
  proof (cases "data = []")
    case True
    moreover have "fs[j := (ty, xs)] = fs" using less.prems(3) by (metis list_update_id)
    ultimately show ?thesis using less.prems(1) by (simp add: copy_loop.simps)
  next
    case False
    let ?d = "take BLOCK_SIZE data" and ?r = "drop BLOCK_SIZE data"
    have "meta N + blocks_of (fs[j := (ty, xs @ ?d)]) \<le> N"
      using blocks_of_mono [OF less.prems(2), of "xs @ ?d" "xs @ data" ty] less.prems(5) by simp
    moreover have "length xs + length ?d \<le> MAX_BLOCKS * BLOCK_SIZE" using less.prems(4) by simp
    ultimately obtain m1 where
      m1: "inode_append (of_nat (Suc j)) ?d m = Inr m1" "mk_inv N m1 (fs[j := (ty, xs @ ?d)])"
      using inode_append_ok [OF less.prems(1-3)] by blast
    have "length ?r < length data" using False by (simp add: BLOCK_SIZE_def)
    moreover have "length (xs @ ?d) + length ?r \<le> MAX_BLOCKS * BLOCK_SIZE"
      using less.prems(4) arg_cong [OF append_take_drop_id [of BLOCK_SIZE data], of length] by simp
    ultimately obtain m2 where
      "copy_loop (of_nat (Suc j)) ?r m1 = Inr m2" "mk_inv N m2 (fs[j := (ty, xs @ data)])"
      using less.hyps [OF _ m1(2), of ?r "xs @ ?d"] less.prems(2,5) by (auto simp del: of_nat_Suc)
    with m1(1) False show ?thesis by (simp add: copy_loop.simps [of _ data m] del: of_nat_Suc)
  qed
qed

definition dirent_bytes :: "u32 \<Rightarrow> u8 list \<Rightarrow> u8 list" where
  "dirent_bytes inum name = le32 inum @ take DIRSIZE name @ replicate (DIRSIZE - length name) 0"

lemma length_dirent [simp]: "length (dirent_bytes inum name) = 32"
  by (simp add: dirent_bytes_def DIRSIZE_def min_def)

lemma set_basename: "0 \<notin> set path \<Longrightarrow> 0 \<notin> set (mk_basename path)"
  by (auto simp: mk_basename_def Let_def dest!: set_takeWhileD set_dropWhileD)

lemma dot_entry_eq: "0 \<notin> set name \<Longrightarrow> length name < DIRSIZE \<Longrightarrow>
    dot_entry root (name @ [0]) m = inode_append root (dirent_bytes root name) m"
proof -
  assume n: "0 \<notin> set name" "length name < DIRSIZE"
  have "strcpy (replicate DIRSIZE 0) (name @ [0]) = Inr (name @ 0 # drop (Suc (length name)) (replicate DIRSIZE 0))"
    using strcpy_cstr [of name "name @ [0]" "replicate DIRSIZE 0"] n by (auto simp: cstr_def)
  also have "name @ 0 # drop (Suc (length name)) (replicate DIRSIZE 0) = take DIRSIZE name @ replicate (DIRSIZE - length name) 0"
    using n(2) by (simp add: replicate_Suc [symmetric] Suc_diff_Suc del: replicate_Suc)
  finally show ?thesis by (simp add: dot_entry_def dirent_bytes_def)
qed

lemma file_entry_eq: "0 \<notin> set name \<Longrightarrow>
    strncpy (replicate DIRSIZE 0) (name @ [0]) DIRSIZE = Inr (take DIRSIZE name @ replicate (DIRSIZE - length name) 0)"
  using strncpy_cstr [of name "name @ [0]" DIRSIZE "replicate DIRSIZE 0"] by (auto simp: cstr_def)

text \<open>What the loop over the command line adds to the directory and to the files.\<close>

fun new_entries :: "nat \<Rightarrow> (u8 list \<times> u8 list) list \<Rightarrow> u8 list" where
  "new_entries i [] = []"
| "new_entries i ((path, data) # files) = dirent_bytes (of_nat i) (mk_basename path) @ new_entries (Suc i) files"

definition args :: "(u8 list \<times> u8 list) list \<Rightarrow> (u8 list \<times> u8 list option) list" where
  "args files = map (\<lambda>(path, data). (path, Some data)) files"

definition file_list :: "(u8 list \<times> u8 list) list \<Rightarrow> (u16 \<times> u8 list) list" where
  "file_list files = map (\<lambda>(path, data). (FS_FILE, data)) files"

lemma files_loop_ok:
  assumes "mk_inv N m ((FS_DIRECTORY, dir) # rest)" and "\<forall>(path, data)\<in>set files. 0 \<notin> set path \<and> length data \<le> MAX_BLOCKS * BLOCK_SIZE"
    and "length dir + 32 * length files \<le> MAX_BLOCKS * BLOCK_SIZE" and "Suc (length rest) + length files < N div 8"
    and "meta N + blocks_of ((FS_DIRECTORY, dir @ new_entries (length rest + 2) files) # rest @ file_list files) \<le> N"
  shows "\<exists>m'. files_loop 1 (args files) m = Inr m' \<and>
    mk_inv N m' ((FS_DIRECTORY, dir @ new_entries (length rest + 2) files) # rest @ file_list files)"
  using assms
proof (induction files arbitrary: dir rest m)
  case Nil
  then show ?case by (simp add: args_def file_list_def)
next
  case (Cons f files)
  obtain path data where f: "f = (path, data)" by (cases f)
  let ?i = "length rest + 2" and ?e = "dirent_bytes (of_nat (length rest + 2)) (mk_basename path)"
  let ?D = "(FS_DIRECTORY, dir)" and ?D' = "(FS_DIRECTORY, dir @ ?e)"
  have p: "0 \<notin> set (mk_basename path)" "length data \<le> MAX_BLOCKS * BLOCK_SIZE" using Cons.prems(2) set_basename f by auto
  have tot: "card (slots_for (length dir + 32)) + blocks_of rest + card (slots_for (length data)) + meta N \<le> N"
    using Cons.prems(5) card_slots_mono [of "length dir + 32" "length dir + (32 + length (new_entries (Suc ?i) files))"] f by (simp add: file_list_def)
  have n: "Suc (length (?D # rest)) < N div 8" using Cons.prems(4) by simp
  from mk_inv_alloc [OF Cons.prems(1) n, of FS_FILE] obtain m1 where
    m1: "mk_inode_alloc FS_FILE m = Inr (of_nat ?i, m1)" "mk_inv N m1 (?D # rest @ [(FS_FILE, [])])" by auto
  have "meta N + blocks_of ((?D # rest @ [(FS_FILE, [])])[0 := (FS_DIRECTORY, dir @ ?e)]) \<le> N"
    using tot card_slots_mono [of 0 "length data"] by simp
  from inode_append_ok [OF m1(2) _ _ _ this] Cons.prems(3) obtain m2 where
    m2: "inode_append 1 ?e m1 = Inr m2" "mk_inv N m2 (?D' # rest @ [(FS_FILE, [])])" by auto
  let ?j = "Suc (length rest)"
  have at: "?j < length (?D' # rest @ [(FS_FILE, [])])" "(?D' # rest @ [(FS_FILE, [])]) ! ?j = (FS_FILE, [])" by (simp_all add: nth_append)
  have upd: "(?D' # rest @ [(FS_FILE, [])])[?j := (FS_FILE, [] @ data)] = ?D' # rest @ [(FS_FILE, data)]" by (simp add: list_update_append)
  have "meta N + blocks_of ((?D' # rest @ [(FS_FILE, [])])[?j := (FS_FILE, [] @ data)]) \<le> N" unfolding upd using tot by simp
  from copy_loop_ok [OF m2(2) at _ this] p(2) obtain m3 where
    m3: "copy_loop (of_nat ?i) data m2 = Inr m3" "mk_inv N m3 (?D' # rest @ [(FS_FILE, data)])" unfolding upd by auto
  have "\<exists>m'. files_loop 1 (args files) m3 = Inr m' \<and>
      mk_inv N m' ((FS_DIRECTORY, (dir @ ?e) @ new_entries (length (rest @ [(FS_FILE, data)]) + 2) files) # (rest @ [(FS_FILE, data)]) @ file_list files)"
    using Cons.prems(2-5) f by (intro Cons.IH [OF m3(2)]) (auto simp: file_list_def)
  then obtain m4 where m4: "files_loop 1 (args files) m3 = Inr m4"
    "mk_inv N m4 ((FS_DIRECTORY, (dir @ ?e) @ new_entries (length (rest @ [(FS_FILE, data)]) + 2) files) # (rest @ [(FS_FILE, data)]) @ file_list files)" by blast
  have "files_loop 1 (args (f # files)) m = Inr m4"
    using f m1(1) m2(1) m3(1) m4(1) file_entry_eq [OF p(1)] by (simp add: args_def dirent_bytes_def)
  with m4(2) f show ?case by (simp add: file_list_def)
qed

section \<open>The whole program\<close>

lemma zero_loop_ok:
  assumes "mk_base N m" "\<forall>i\<in>set is. i < N"
  shows "\<exists>m'. zero_loop is m = Inr m' \<and> mk_base N m' \<and> m_superb m' = m_superb m \<and> free_inode m' = free_inode m \<and>
    free_block m' = free_block m \<and> (\<forall>x. mview m' x = (if unat x \<in> set is then zero_blk else mview m x))"
  using assms
proof (induction "is" arbitrary: m)
  case (Cons i "is")
  have N: "N \<le> 2 ^ 23" using Cons.prems(1) by (simp add: mk_base_def)
  then have u: "unat (of_nat i :: u32) = i" using Cons.prems(2) by (simp add: unat_of_nat)
  let ?m1 = "put_sec (of_nat i) (replicate BLOCK_SIZE 0) m"
  have i: "unat (of_nat i :: u32) < N" using u Cons.prems(2) by simp
  have "mk_base N ?m1" by (rule base_put [OF Cons.prems(1) i]) simp
  from Cons.IH [OF this] Cons.prems(2) obtain m' where
    m': "zero_loop is ?m1 = Inr m'" "mk_base N m'" "m_superb m' = m_superb m" "free_inode m' = free_inode m" "free_block m' = free_block m"
      "\<forall>x. mview m' x = (if unat x \<in> set is then zero_blk else mview ?m1 x)" by auto
  have v: "mview ?m1 = (mview m)(of_nat i := zero_blk)" using in_img_less [OF Cons.prems(1) i] by (simp add: zero_blk_def)
  have "(x = of_nat i) = (unat x = i)" for x :: u32 using u by (auto simp: word_unat_eq_iff)
  with m' v sect_write [OF Cons.prems(1) i] show ?case by (intro exI [of _ m']) (auto simp: zero_blk_def)
qed simp

definition bitmap_bytes :: "nat \<Rightarrow> u8 list" where
  "bitmap_bytes u = fold mark_bit [0..<u] (replicate BLOCK_SIZE 0)"

lemma bitmap_bits: "u \<le> 4096 \<Longrightarrow> length (bitmap_bytes u) = 512 \<and> (\<forall>i<4096. bit_clear (bitmap_bytes u) i \<longleftrightarrow> u \<le> i)"
proof (induction u)
  case 0
  then show ?case by (auto simp: bitmap_bytes_def bit_clear_bit BLOCK_SIZE_def less_mult_imp_div_less)
next
  case (Suc u)
  have e: "bitmap_bytes (Suc u) = mark_bit u (bitmap_bytes u)" by (simp add: bitmap_bytes_def)
  have "u div 8 < length (bitmap_bytes u)" using Suc by (simp add: less_mult_imp_div_less)
  with Suc show ?case unfolding e by (auto simp: bit_clear_mark)
qed

lemma sint_int: "unat w < 2 ^ 31 \<Longrightarrow> sint w = int (unat w)" for w :: u32
proof -
  assume w: "unat w < 2 ^ 31"
  have u: "uint w = int (unat w)" by (rule uint_nat)
  have "unat w < 2147483648" using w by simp
  then have "uint w < 2147483648" using u by linarith
  moreover have "- 2147483648 \<le> uint w" using uint_ge_0 [of w] by linarith
  ultimately have "signed_take_bit 31 (uint w) = uint w" by (intro signed_take_bit_int_eq_self) auto
  then have "sint w = uint w" by (simp add: sint_uint)
  with u show ?thesis by (rule trans [rotated])
qed

text \<open>The files the image ends up with, and the root's inode as the program leaves it.\<close>

definition root_dir :: "(u8 list \<times> u8 list) list \<Rightarrow> u8 list" where
  "root_dir files = dirent_bytes 1 [46] @ dirent_bytes 1 [46, 46] @ new_entries 2 files"

definition all_files :: "(u8 list \<times> u8 list) list \<Rightarrow> (u16 \<times> u8 list) list" where
  "all_files files = (FS_DIRECTORY, root_dir files) # file_list files"

definition root_size :: "nat \<Rightarrow> nat" where
  "root_size n = (n div BLOCK_SIZE + 1) * BLOCK_SIZE"

text \<open>
  \<open>fits N files\<close>: there are inodes for the files, none is too large, and with the blocks that are reserved they take
  at most the \<open>N\<close> blocks of the partition and the 4096 blocks of which the program can mark some as used.
\<close>

definition fits :: "nat \<Rightarrow> (u8 list \<times> u8 list) list \<Rightarrow> bool" where
  "fits N files \<longleftrightarrow> 204801 + N \<le> 2 ^ 23 \<and> files \<noteq> [] \<and> Suc (length files) < N div 8 \<and> 64 + 32 * length files < MAX_BLOCKS * BLOCK_SIZE \<and>
     (\<forall>(path, data)\<in>set files. 0 \<notin> set path \<and> length data \<le> MAX_BLOCKS * BLOCK_SIZE) \<and>
     meta N + blocks_of (all_files files) \<le> min N 4096"

lemma mk_inv_empty:
  assumes "mk_base N m" "m_superb m = layout_sb N" "free_inode m = 1" "free_block m = of_nat (meta N)" "0 < N div 8" "meta N \<le> N"
    and "\<forall>x. unat x < N \<longrightarrow> mview m x = head_blk N x"
  shows "mk_inv N m []"
proof -
  have "fb m = meta N" using assms(1,4,6) by (simp add: mk_base_def unat_of_nat)
  moreover have "mview m x = zero_blk" if "meta N \<le> unat x" "unat x < N" for x
    using assms(7) that by (auto simp: head_blk_def meta_def ino_start_def)
  moreover have "ino_start N \<le> N" using assms(6) by (simp add: meta_def)
  ultimately show ?thesis using assms by (simp add: mk_inv_def)
qed

lemma length_new_entries [simp]: "length (new_entries i files) = 32 * length files"
  by (induction i files rule: new_entries.induct) auto

lemma length_root_dir [simp]: "length (root_dir files) = 64 + 32 * length files"
  by (simp add: root_dir_def)

text \<open>The image before the files: zeros and the superblock.\<close>

lemma mk_formats:
  assumes "mk_base N m" "2 < N" "m_superb m = layout_sb N" "free_inode m = 1" "free_block m = of_nat (meta N)" "0 < N div 8" "meta N \<le> N"
  shows "\<exists>m1 m2. zero_loop [0..<N] m = Inr m1 \<and>
    write_sector 1 (superb_bytes (layout_sb N) @ replicate (BLOCK_SIZE - 28) 0) m1 = Inr m2 \<and> mk_inv N m2 []"
proof -
  obtain m1 where m1: "zero_loop [0..<N] m = Inr m1" "mk_base N m1" "m_superb m1 = layout_sb N" "free_inode m1 = 1"
    "free_block m1 = of_nat (meta N)" "\<forall>x. mview m1 x = (if unat x \<in> set [0..<N] then zero_blk else mview m x)"
    using zero_loop_ok [OF assms(1), of "[0..<N]"] assms(3-5) by auto
  let ?d = "superb_bytes (layout_sb N) @ replicate (BLOCK_SIZE - 28) 0"
  let ?m2 = "put_sec 1 ?d m1"
  have one: "unat (1 :: u32) < N" using assms(2) by simp
  have "mk_base N ?m2" by (rule base_put [OF m1(2) one]) (simp add: superb_bytes_def BLOCK_SIZE_def)
  moreover have "mview ?m2 x = head_blk N x" if "unat x < N" for x
    using m1(6) that mview_put_sec [OF in_img_less [OF m1(2) one]] by (simp add: head_blk_def)
  ultimately have "mk_inv N ?m2 []" using m1(3-5) assms(6,7) by (intro mk_inv_empty) simp_all
  with m1(1) sect_write [OF m1(2) one] show ?thesis by auto
qed

text \<open>The root directory and the files.\<close>

lemma mk_fills:
  assumes inv: "mk_inv N m []" and f: "fits N files"
  shows "\<exists>m1 m2 m3 m4. mk_inode_alloc FS_DIRECTORY m = Inr (1, m1) \<and> dot_entry 1 [46, 0] m1 = Inr m2 \<and>
    dot_entry 1 [46, 46, 0] m2 = Inr m3 \<and> files_loop 1 (args files) m3 = Inr m4 \<and> mk_inv N m4 (all_files files)"
proof -
  have F: "Suc (length files) < N div 8" "64 + 32 * length files < MAX_BLOCKS * BLOCK_SIZE"
    "\<forall>(path, data)\<in>set files. 0 \<notin> set path \<and> length data \<le> MAX_BLOCKS * BLOCK_SIZE" "meta N + blocks_of (all_files files) \<le> N"
    using f by (simp_all add: fits_def)
  have room: "meta N + card (slots_for k) \<le> N" if "k \<le> 64 + 32 * length files" for k
    using F(4) card_slots_mono [OF that] by (simp add: all_files_def)
  from mk_inv_alloc [OF inv, of FS_DIRECTORY] F(1) obtain m1 where
    m1: "mk_inode_alloc FS_DIRECTORY m = Inr (1, m1)" "mk_inv N m1 [(FS_DIRECTORY, [])]" by auto
  let ?d1 = "dirent_bytes 1 [46]" and ?d2 = "dirent_bytes 1 [46, 46]"
  from inode_append_ok [OF m1(2), of 0 FS_DIRECTORY "[]" ?d1] F(2) room [of 32] obtain m2 where
    m2: "inode_append 1 ?d1 m1 = Inr m2" "mk_inv N m2 [(FS_DIRECTORY, ?d1)]" by auto
  from inode_append_ok [OF m2(2), of 0 FS_DIRECTORY ?d1 ?d2] F(2) room [of 64] obtain m3 where
    m3: "inode_append 1 ?d2 m2 = Inr m3" "mk_inv N m3 [(FS_DIRECTORY, ?d1 @ ?d2)]" by auto
  have "\<exists>m4. files_loop 1 (args files) m3 = Inr m4 \<and>
      mk_inv N m4 ((FS_DIRECTORY, (?d1 @ ?d2) @ new_entries (length ([] :: (u16 \<times> u8 list) list) + 2) files) # [] @ file_list files)"
    using F by (intro files_loop_ok [OF m3(2)]) (simp_all add: all_files_def root_dir_def)
  moreover have "dot_entry 1 [46, 0] m1 = Inr m2" "dot_entry 1 [46, 46, 0] m2 = Inr m3"
    using dot_entry_eq [of "[46]" 1 m1] dot_entry_eq [of "[46, 46]" 1 m2] m2(1) m3(1) by (simp_all add: DIRSIZE_def)
  ultimately show ?thesis using m1(1) by (auto simp: all_files_def root_dir_def numeral_2_eq_2)
qed

lemma root_size_word:
  assumes "n < MAX_BLOCKS * BLOCK_SIZE"
  shows "((of_nat n :: u32) div of_nat BLOCK_SIZE + 1) * of_nat BLOCK_SIZE = of_nat (root_size n)" "root_size n \<le> MAX_BLOCKS * BLOCK_SIZE"
proof -
  have "n div BLOCK_SIZE < MAX_BLOCKS" using assms by (rule less_mult_imp_div_less)
  then show le: "root_size n \<le> MAX_BLOCKS * BLOCK_SIZE" by (simp add: root_size_def del: mult_Suc)
  have u: "unat (of_nat n :: u32) = n" using assms MAX_WRITE_blocks(2) by (simp add: unat_of_nat)
  have "unat ((of_nat n :: u32) div of_nat BLOCK_SIZE) = n div BLOCK_SIZE" using u by (simp add: unat_div BLOCK_SIZE_def)
  then have "(of_nat n :: u32) div of_nat BLOCK_SIZE = of_nat (n div BLOCK_SIZE)"
    using assms MAX_WRITE_blocks(2) by (simp add: word_unat_eq_iff unat_of_nat div_less_dividend le_less_trans [OF div_le_dividend])
  then show "((of_nat n :: u32) div of_nat BLOCK_SIZE + 1) * of_nat BLOCK_SIZE = of_nat (root_size n)" by (simp add: root_size_def algebra_simps)
qed

lemma mkcofs_runs:
  assumes f: "fits N files" and st: "st div BLOCK_SIZE = 204801 + N" and m0: "host_ok m0" "secs m0 = st div BLOCK_SIZE" "\<forall>s. length (img m0 s) = BLOCK_SIZE"
  shows "\<exists>m m4. mkcofs (Some st) (args files) m0 = Inr m \<and> mk_inv N m4 (all_files files) \<and> mk_base N m \<and>
    mview m = (mview (with_ino N 0 (mk_ino N m4 0\<lparr>i_size := of_nat (root_size (length (root_dir files)))\<rparr>) m4))(2 := bitmap_bytes (fb m4))"
proof -
  have N: "204801 + N \<le> 2 ^ 23" "files \<noteq> []" "Suc (length files) < N div 8" "meta N + blocks_of (all_files files) \<le> N"
    "meta N + blocks_of (all_files files) \<le> 4096" "length (root_dir files) < MAX_BLOCKS * BLOCK_SIZE" using f by (simp_all add: fits_def)
  let ?m = "m0\<lparr>m_superb := layout_sb N, free_inode := 1, free_block := of_nat (meta N)\<rparr>"
  have b: "mk_base N ?m" using m0 st N(1) by (simp add: mk_base_def)
  have "2 < N" using N(3) by simp
  then obtain m1 m2 where m2: "zero_loop [0..<N] ?m = Inr m1"
    "write_sector 1 (superb_bytes (layout_sb N) @ replicate (BLOCK_SIZE - 28) 0) m1 = Inr m2" "mk_inv N m2 []"
    using mk_formats [OF b] N(3,4) by auto
  from mk_fills [OF m2(3) f] obtain m3 m4 m5 m6 where m6: "mk_inode_alloc FS_DIRECTORY m2 = Inr (1, m3)" "dot_entry 1 [46, 0] m3 = Inr m4"
    "dot_entry 1 [46, 46, 0] m4 = Inr m5" "files_loop 1 (args files) m5 = Inr m6" "mk_inv N m6 (all_files files)" by blast
  note I = mk_invD [OF m6(5)]
  have H: "holds_file N m6 FS_DIRECTORY (root_dir files) 0" using I(8) [of 0] by (simp add: all_files_def)
  let ?i = "mk_ino N m6 0\<lparr>i_size := of_nat (root_size (length (root_dir files)))\<rparr>"
  have l9: "length (i_addrs ?i) = 9" using tree_okD(1) [OF holds_fileD(2) [OF H]] by simp
  have mN: "0 < N div 8" "meta N \<le> N" "meta N \<le> fb m6" "fb m6 \<le> 4096" using N I(5) by simp_all
  note W = with_ino_ok [OF I(1,2) mN(1,2) l9]
  let ?m7 = "with_ino N 0 ?i m6"
  have two: "unat (2 :: u32) < N" using \<open>2 < N\<close> by simp
  have s: "sint (free_block m6) = int (fb m6)" using mN(4) by (intro sint_int) simp
  have "\<not> int (BLOCK_SIZE * 8) < sint (free_block m6)" "nat (sint (free_block m6)) = fb m6"
    unfolding s nat_int of_nat_less_iff using mN(4) by (simp_all add: BLOCK_SIZE_def)
  then have ba: "mk_block_alloc (free_block m6) ?m7 = Inr (put_sec 2 (bitmap_bytes (fb m6)) ?m7)"
    using sect_write [OF W(4) two] I(2) by (simp add: mk_block_alloc_def bitmap_bytes_def layout_sb_def)
  have rs: "mk_ino N m6 0\<lparr>i_size := (i_size (mk_ino N m6 0) div of_nat BLOCK_SIZE + 1) * of_nat BLOCK_SIZE\<rparr> = ?i"
    unfolding holds_fileD(7) [OF H] root_size_word(1) [OF N(6)] by (rule refl)
  have lay: "mk_layout st = (layout_sb N, of_nat (meta N))" by (rule mk_layout_eq [OF st N(1)])
  have sz: "unat (sb_size (layout_sb N)) = N" using N(1) by (simp add: layout_sb_def unat_of_nat)
  have one: "read_sector 1 ?m = Inr (mview ?m 1)" by (rule sect_read [OF b]) (use \<open>2 < N\<close> in simp)
  have ne: "args files \<noteq> []" using N(2) by (simp add: args_def)
  have "mkcofs (Some st) (args files) m0 = Inr (put_sec 2 (bitmap_bytes (fb m6)) ?m7)"
    using ne one m2(1,2) m6(1-4) W(1,2) ba rs by (simp add: mkcofs_def lay sz)
  moreover have "mk_base N (put_sec 2 (bitmap_bytes (fb m6)) ?m7)"
    by (rule base_put [OF W(4) two]) (use bitmap_bits [OF mN(4)] in \<open>simp add: BLOCK_SIZE_def\<close>)
  moreover have "mview (put_sec 2 (bitmap_bytes (fb m6)) ?m7) = (mview ?m7)(2 := bitmap_bytes (fb m6))"
    by (rule mview_put_sec [OF in_img_less [OF W(4) two]])
  ultimately show ?thesis using m6(5) by (intro exI [of _ "put_sec 2 (bitmap_bytes (fb m6)) ?m7"] exI [of _ m6]) simp
qed

section \<open>Where the program goes wrong\<close>

text \<open>
  The bitmap has a block for every 4096 blocks of the partition, but \<open>block_alloc\<close> writes only the first: from about
  126 MB on, superblock, bitmap and inodes alone are more than it can mark, and the program gives up at its end.
\<close>

lemma large_partition_fails:
  assumes "258000 \<le> N" "204801 + N \<le> 2 ^ 23"
  shows "mk_block_alloc (of_nat (meta N)) m = Inl (Panic ''USED > BLOCK_SIZE'')"
proof -
  have "meta N < 2 ^ 31" using assms(2) by (simp add: meta_def ino_start_def)
  then have "sint (of_nat (meta N) :: u32) = int (meta N)" by (subst sint_int) (simp_all add: unat_of_nat)
  moreover have "4031 \<le> N div 64" "62 \<le> N div 4096" using div_le_mono [OF assms(1), of 64] div_le_mono [OF assms(1), of 4096] by simp_all
  then have "4096 < meta N" by (simp add: meta_def ino_start_def)
  ultimately show ?thesis by (simp add: mk_block_alloc_def BLOCK_SIZE_def)
qed

text \<open>The test for the largest file lets one block too many through: the index into the double indirect block is then 128.\<close>

lemma block_too_many:
  assumes "addrs ! DIND_IDX \<noteq> 0" "read_sector (addrs ! DIND_IDX) m = Inr buf"
  shows "append_sect MAX_BLOCKS addrs m = Inl Fault"
  using assms by (simp add: append_sect_def mk_addr_def mk_entry_def MAX_BLOCKS_def idx_defs)

end
