(* ===== verification/Mkcofs_Mount.thy ===== *)
theory Mkcofs_Mount
  imports Mkcofs
begin

text \<open>
  From the file system maker to the kernel: the image \<open>mkcofs\<close> (\<open>util/mkcofs.c\<close>) writes, read back by \<open>cofs_init\<close> and
  \<open>cofs_finddir\<close> of \<open>cofs.c\<close> through the block cache. The kernel's disk is the image, with the partition where
  the program puts it; the two sides share the structures on disk and no code.
\<close>

section \<open>The image as the kernel's disk\<close>

definition disk_of :: "hd_buf \<Rightarrow> mkfs \<Rightarrow> buf_queue" where
  "disk_of b m = hd_queue_init PARTITION_OFFSET (\<lambda>s. img m (unat s)) (Some b)"

lemma disk_of_ok:
  assumes "mk_base N m"
  shows "hq_ok (disk_of b m) {}" "valid_blk (disk_of b m) x \<longleftrightarrow> unat x + 204801 < 2 ^ 28" "unat x < N \<Longrightarrow> view (disk_of b m) x = mview m x"
proof -
  have l: "\<forall>s. length (img m s) = BLOCK_SIZE" "204801 + N \<le> 2 ^ 23" using assms by (simp_all add: mk_base_def)
  have u: "unat PARTITION_OFFSET = 204801" by (simp add: PARTITION_OFFSET_def)
  show "hq_ok (disk_of b m) {}" unfolding disk_of_def using l by (intro hd_queue_init_ok) simp
  show v: "valid_blk (disk_of b m) x \<longleftrightarrow> unat x + 204801 < 2 ^ 28" by (simp add: disk_of_def hd_queue_init_def valid_blk_def u)
  assume x: "unat x < N"
  with l(2) have s: "unat x + unat PARTITION_OFFSET < 2 ^ 28" "in_img x" by (simp_all add: u in_img_def)
  have "lba PARTITION_OFFSET x = x + PARTITION_OFFSET" "unat (x + PARTITION_OFFSET) = unat x + 204801"
    using lba_small [OF s(1)] u by simp_all
  moreover have "valid_blk (disk_of b m) x" unfolding v using s(1) u by simp
  ultimately show "view (disk_of b m) x = mview m x"
    using s(2) by (simp add: view_def mview_def) (simp add: disk_of_def hd_queue_init_def)
qed

lemma get_superblock_ok:
  assumes "hq_ok q {}" "valid_blk q 1" "view q 1 = superb_bytes sb @ r"
  shows "\<exists>q'. get_superblock q = Inr (sb, q') \<and> same_disk q q'"
proof -
  have sb: "\<lparr>magic = rd32 (view q 1) 0, sb_size = rd32 (view q 1) 4, num_blocks = rd32 (view q 1) 8, num_inodes = rd32 (view q 1) 12,
      bitmap_start = rd32 (view q 1) 16, inode_start = rd32 (view q 1) 20, data_block = rd32 (view q 1) 24\<rparr> = sb"
    unfolding assms(3) superb_bytes_def by (simp add: byte_simps)
  from fetch_release_empty [OF assms(1,2)] obtain h q1 q2 where
    r: "get_hd_buf 1 q = Inr (h, q1)" "hcontent q1 h = view q 1" "put_hd_buf h q1 = Inr q2" "same_disk q q2" by blast
  then show ?thesis by (intro exI [of _ q2]) (simp add: get_superblock_def Let_def sb)
qed

text \<open>Locking a node whose inode is not in memory reads it from the disk.\<close>

lemma lock_loads:
  assumes n: "n < length (cache c)" "0 < n_ref_count (nd c n)" "\<not> n_lock (nd c n)" "n_type (nd c n) = 0" and "node_mem c"
    and q: "hq_ok (hq c) {}" "valid_blk (hq c) (ino_blk n c)"
    and ino: "inode_at (n_inode (nd c n)) (view (hq c) (ino_blk n c)) = ino" "i_type ino AND FS_IFMT \<noteq> 0"
  shows "\<exists>q'. cofs_lock (Some n) c = Inr (nset n (\<lambda>node. load_inode ino (node\<lparr>n_lock := True\<rparr>)) (c\<lparr>hq := q'\<rparr>)) \<and> same_disk (hq c) q'"
proof -
  from fetch_release_empty [OF q] obtain h q1 q2 where
    r: "get_hd_buf (ino_blk n c) (hq c) = Inr (h, q1)" "hcontent q1 h = view (hq c) (ino_blk n c)" "put_hd_buf h q1 = Inr q2" "same_disk (hq c) q2"
    by blast
  then show ?thesis
    using assms by (intro exI [of _ q2]) (simp add: cofs_lock_def with_hq_def on_hq_def nset_def nd_def ino_blk_def load_inode_def)
qed

section \<open>What is on the disk\<close>

text \<open>\<open>node_on\<close>: the inode \<open>Suc j\<close> of the disk with this type and size, and \<open>xs\<close> in the blocks of its file, below \<open>u\<close>.\<close>

definition node_on :: "nat \<Rightarrow> (u32 \<Rightarrow> u8 list) \<Rightarrow> nat \<Rightarrow> u16 \<Rightarrow> nat \<Rightarrow> u8 list \<Rightarrow> nat \<Rightarrow> u32 list \<Rightarrow> bool" where
  "node_on N v u ty sz xs j a \<longleftrightarrow> inode_at (of_nat (Suc j)) (v (iblk N j)) = (zero_inode ty)\<lparr>i_size := of_nat sz, i_addrs := a\<rparr> \<and>
     tree_ok v a (slots_for (length xs)) \<and> contents v a (length xs) = xs \<and>
     (\<forall>s\<in>slots_for (length xs). meta N \<le> unat (slot_blk v a s) \<and> unat (slot_blk v a s) < u)"

lemma image_nodes:
  assumes inv: "mk_inv N m fs" and j: "j < length fs" and r: "ino = mk_ino N m 0\<lparr>i_size := of_nat r\<rparr>"
    and v: "\<And>x. unat x < N \<Longrightarrow> v x = ((mview (with_ino N 0 ino m))(2 := d)) x"
  shows "node_on N v (fb m) (fst (fs ! j)) (if j = 0 then r else length (snd (fs ! j))) (snd (fs ! j)) j (i_addrs (mk_ino N m j))"
proof -
  note I = mk_invD [OF inv]
  have jN: "j < N div 8" "0 < N div 8" "meta N \<le> N" using j I(4-6) by simp_all
  note H = holds_fileD [OF I(8) [OF j]] and H0 = holds_fileD [OF I(8) [of 0]]
  have "0 < length fs" using j by linarith
  then have l9: "length (i_addrs ino) = 9" using tree_okD(1) [OF H0(2)] r by simp
  note W = with_ino_ok [OF I(1,2) jN(2,3) l9] and B = iblk_unat [OF jN(1) I(10)] and B0 = iblk_unat [OF jN(2) I(10)]
  have "iblk N j \<noteq> 2" "unat (iblk N j) < N" using B(3,4) jN(3) by auto
  then have "inode_at (of_nat (Suc j)) (v (iblk N j)) = mk_ino N (with_ino N 0 ino m) j" using v [of "iblk N j"] by (simp add: mk_ino_def)
  also have "\<dots> = (zero_inode (fst (fs ! j)))\<lparr>i_size := of_nat (if j = 0 then r else length (snd (fs ! j))), i_addrs := i_addrs (mk_ino N m j)\<rparr>"
  proof (cases "j = 0")
    case True
    have "mk_ino N (with_ino N 0 ino m) j = mk_ino N m j\<lparr>i_size := of_nat r\<rparr>" using W(5) r True by simp
    also have "\<dots> = ((zero_inode (fst (fs ! j)))\<lparr>i_size := of_nat (length (snd (fs ! j))), i_addrs := i_addrs (mk_ino N m j)\<rparr>)\<lparr>i_size := of_nat r\<rparr>"
      using H(1) by simp
    finally show ?thesis using True by simp
  next
    case False
    then show ?thesis using W(6) [OF jN(1)] H(1) by simp
  qed
  finally have ino: "inode_at (of_nat (Suc j)) (v (iblk N j)) =
    (zero_inode (fst (fs ! j)))\<lparr>i_size := of_nat (if j = 0 then r else length (snd (fs ! j))), i_addrs := i_addrs (mk_ino N m j)\<rparr>" .
  have blk: "meta N \<le> unat (slot_blk (mview m) (i_addrs (mk_ino N m j)) s)" "unat (slot_blk (mview m) (i_addrs (mk_ino N m j)) s) < fb m"
    if "s \<in> slots_for (length (snd (fs ! j)))" for s using H(5,6) that by (auto simp: file_blks_def)
  have same: "v (slot_blk (mview m) (i_addrs (mk_ino N m j)) s) = mview m (slot_blk (mview m) (i_addrs (mk_ino N m j)) s)"
    if s: "s \<in> slots_for (length (snd (fs ! j)))" for s
    using blk [OF s] v B0(3,4) I(6) W(3) by (auto simp: fun_upd_def)
  note F = tree_frame [OF H(2) same]
  show ?thesis unfolding node_on_def using ino F(1,2) F(4) [OF _ slots_covers] H(3) blk by simp
qed

text \<open>The bitmap the program leaves, as the kernel sees it: the first \<open>u\<close> blocks are in use.\<close>

lemma mount_bitmap:
  assumes N: "0 < N" "204801 + N \<le> 2 ^ 23" and q: "hq_ok q {}" "\<And>x. unat x + 204801 < 2 ^ 28 \<Longrightarrow> valid_blk q x"
    and u: "view q 2 = bitmap_bytes u" "u \<le> 4096" "ino_start N \<le> u"
    and z: "\<And>x. 2 < unat x \<Longrightarrow> unat x < ino_start N \<Longrightarrow> view q x = zero_blk"
  defines "sb \<equiv> layout_sb N"
  shows "b < bm_count sb * BITS_PER_BLOCK \<Longrightarrow> blk_used (view q) sb b \<longleftrightarrow> b < u" "N \<le> bm_count sb * BITS_PER_BLOCK"
    "c < bm_count sb * BITS_PER_BLOCK \<Longrightarrow> unat (bm_block sb c) < ino_start N" "bitmap_ok sb q"
proof -
  let ?lim = "bm_count sb * BITS_PER_BLOCK"
  have bits: "BITS_PER_BLOCK = 4096" by (simp add: BITS_PER_BLOCK_def BLOCK_SIZE_def)
  have sz: "unat (sb_size sb) = N" using N(2) by (simp add: sb_def layout_sb_def unat_of_nat)
  have cnt: "bm_count sb = (N + 4095) div 4096" by (simp add: bm_count_def sz bits)
  have lim: "?lim \<le> N + 4095" "N \<le> ?lim" unfolding cnt bits by linarith+
  then show "N \<le> ?lim" by simp
  have bm: "unat (bm_block sb b) = b div 4096 + 2" "b div 4096 \<le> N div 4096" if "b < ?lim" for b
  proof -
    have "b div 4096 < bm_count sb" using that bits by (simp add: less_mult_imp_div_less)
    then show le: "b div 4096 \<le> N div 4096" unfolding cnt by linarith
    have e: "bm_block sb b = of_nat (b div 4096 + 2)" by (simp add: bm_block_def bits sb_def layout_sb_def)
    have "N div 4096 \<le> N" by simp
    with le N(2) have "b div 4096 + 2 < 2 ^ 32" by simp
    then show "unat (bm_block sb b) = b div 4096 + 2" unfolding e by (simp add: unat_of_nat del: of_nat_add add_2_eq_Suc' of_nat_Suc)
  qed
  have lo: "unat (bm_block sb b) < ino_start N" if "b < ?lim" for b using bm [OF that] by (simp add: ino_start_def)
  then show "c < ?lim \<Longrightarrow> unat (bm_block sb c) < ino_start N" .
  have used: "blk_used (view q) sb b \<longleftrightarrow> b < u" if b: "b < ?lim" for b
  proof (cases "b < 4096")
    case True
    then have "bm_block sb b = 2" using bm(1) [OF b] by (simp add: word_unat_eq_iff)
    with True bitmap_bits [OF u(2)] u(1) show ?thesis by (auto simp: blk_used_def bits)
  next
    case False
    then have "0 < b div 4096" by (simp add: div_greater_zero_iff)
    then have "view q (bm_block sb b) = zero_blk" using z lo [OF b] bm(1) [OF b] by simp
    with False u(2) show ?thesis
      by (simp add: blk_used_def bits bit_clear_bit zero_blk_def BLOCK_SIZE_def less_mult_imp_div_less)
  qed
  then show "b < ?lim \<Longrightarrow> blk_used (view q) sb b \<longleftrightarrow> b < u" .
  have small: "valid_blk q (of_nat b)" if "b < ?lim" for b
    using q(2) [of "of_nat b"] that lim(1) N(2) by (simp add: unat_of_nat)
  have vb: "valid_blk q (bm_block sb b)" if "b < ?lim" for b
    using q(2) [of "bm_block sb b"] bm [OF that] N(2) by simp
  have bml: "unat (bm_block sb b) < ?lim" if "b < ?lim" for b
  proof -
    have "b div 4096 < bm_count sb" using that bits by (simp add: less_mult_imp_div_less)
    then show ?thesis unfolding bm(1) [OF that] bits by linarith
  qed
  have pos: "0 < ?lim" "0 < u" using N(1) lim(2) u(3) by (linarith, simp add: ino_start_def)
  have bmu: "blk_used (view q) sb (unat (bm_block sb b))" if "b < ?lim" for b
    unfolding used [OF bml [OF that]] using lo [OF that] u(3) by linarith
  have "alloc_ok sb q {}" using q(1) vb small by (simp add: alloc_ok_def MAX_HD_BUFS_def)
  moreover have "unat (sb_size sb) \<le> 2 ^ 28" using N(2) sz by simp
  moreover have "blk_used (view q) sb 0" unfolding used [OF pos(1)] by (rule pos(2))
  ultimately show "bitmap_ok sb q" unfolding bitmap_ok_def using bml bmu by blast
qed

lemma owned_low:
  assumes "bitmap_ok (layout_sb N) q" "ino_start N \<le> unat x" "unat x < u" "u \<le> N" "valid_blk q x"
    and "\<And>b. b < bm_count (layout_sb N) * BITS_PER_BLOCK \<Longrightarrow> blk_used (view q) (layout_sb N) b \<longleftrightarrow> b < u" "N \<le> bm_count (layout_sb N) * BITS_PER_BLOCK"
    "\<And>c. c < bm_count (layout_sb N) * BITS_PER_BLOCK \<Longrightarrow> unat (bm_block (layout_sb N) c) < ino_start N"
  shows "owned_blk (layout_sb N) q x"
  using assms(2-) by (force simp: owned_blk_def is_bm_def)

section \<open>The directory\<close>

definition entry_name :: "(u8 list \<times> u8 list) list \<Rightarrow> nat \<Rightarrow> u8 list" where
  "entry_name files k = (if k = 0 then [46] else if k = 1 then [46, 46] else mk_basename (fst (files ! (k - 2))))"

text \<open>Names that fit with their end mark, that differ from each other and from the entries every directory has.\<close>

definition entries_ok :: "(u8 list \<times> u8 list) list \<Rightarrow> bool" where
  "entries_ok files \<longleftrightarrow> (\<forall>(path, data)\<in>set files. length (mk_basename path) < DIRSIZE) \<and>
     distinct ([46] # [46, 46] # map (\<lambda>(path, data). mk_basename path) files)"

lemma new_entries_chunk:
  "k < length files \<Longrightarrow> take 32 (drop (32 * k) (new_entries i files)) = dirent_bytes (of_nat (i + k)) (mk_basename (fst (files ! k)))"
proof (induction i files arbitrary: k rule: new_entries.induct)
  case (2 i path data files)
  show ?case
  proof (cases k)
    case (Suc k')
    with 2 show ?thesis by (simp del: of_nat_Suc of_nat_add)
  qed simp
qed simp

lemma root_chunk:
  assumes "k < length files + 2"
  shows "take 32 (drop (32 * k) (root_dir files)) = dirent_bytes (if k < 2 then 1 else of_nat k) (entry_name files k)"
proof -
  consider "k = 0" | "k = 1" | "2 \<le> k" by linarith
  then show ?thesis
  proof cases
    case 3
    then have k: "k = (k - 2) + 2" "k - 2 < length files" using assms by simp_all
    have "take 32 (drop (32 * k) (root_dir files)) = take 32 (drop (32 * (k - 2)) (new_entries 2 files))"
      using 3 by (simp add: root_dir_def diff_mult_distrib2)
    also have "\<dots> = dirent_bytes (of_nat (2 + (k - 2))) (mk_basename (fst (files ! (k - 2))))" by (rule new_entries_chunk [OF k(2)])
    finally show ?thesis using 3 by (simp add: entry_name_def del: of_nat_add)
  qed (simp_all add: root_dir_def entry_name_def)
qed

lemma dirent_fields:
  assumes "0 \<notin> set name" "length name < DIRSIZE"
  shows "d_inode (dirent_bytes i name) = i" "cstr name (d_name (dirent_bytes i name))"
proof -
  show "d_inode (dirent_bytes i name) = i" by (simp add: d_inode_def dirent_bytes_def byte_simps)
  have "replicate (DIRSIZE - length name) (0 :: u8) = 0 # replicate (DIRSIZE - length name - 1) 0"
    using assms(2) by (cases "DIRSIZE - length name") simp_all
  then show "cstr name (d_name (dirent_bytes i name))" using assms by (auto simp: d_name_def dirent_bytes_def cstr_def)
qed

lemma dir_entry_chunk:
  "32 * k + 32 \<le> n \<Longrightarrow> dir_entry v a k = take 32 (drop (32 * k) (contents v a n))"
  by (simp add: dir_entry_def contents_def DIRENT_SIZE_eq drop_map take_map)

section \<open>Loading nodes\<close>

definition fresh_node :: "u32 \<Rightarrow> fs_node" where
  "fresh_node inum = zero_node\<lparr>n_inode := inum, n_ref_count := 1, n_ops := Cofs_ops\<rparr>"

text \<open>A node as \<open>cofs_finddir\<close> returns it for an inode that was not in memory, and the root as \<open>cofs_init\<close> leaves it.\<close>

definition found_node :: "u8 list \<Rightarrow> u32 \<Rightarrow> cofs_inode \<Rightarrow> fs_node" where
  "found_node s inum ino = (load_inode ino (fresh_node inum))\<lparr>n_name := take 255 s @ replicate (255 - length s) 0 @ [0]\<rparr>"

definition root_node :: "cofs_inode \<Rightarrow> fs_node" where
  "root_node ino = (load_inode ino (fresh_node 1))\<lparr>n_name := 47 # replicate 255 0\<rparr>"

lemma fresh_simps [simp]:
  "n_inode (fresh_node i) = i" "n_ref_count (fresh_node i) = 1" "n_type (fresh_node i) = 0" "n_lock (fresh_node i) = False"
  "n_name (fresh_node i) = replicate 256 0"
  by (simp_all add: fresh_node_def zero_node_def)

lemma load_simps [simp]:
  "n_inode (load_inode ino node) = n_inode node" "n_ref_count (load_inode ino node) = n_ref_count node" "n_lock (load_inode ino node) = n_lock node"
  "n_name (load_inode ino node) = n_name node" "n_size (load_inode ino node) = i_size ino" "n_addrs (load_inode ino node) = Some (i_addrs ino)"
  "n_type (load_inode ino node) = i_type ino AND FS_IFMT"
  by (simp_all add: load_inode_def)

lemma load_swap:
  "\<not> n_lock node \<Longrightarrow> (load_inode ino (node\<lparr>n_lock := True\<rparr>))\<lparr>n_name := x, n_lock := False\<rparr> = (load_inode ino node)\<lparr>n_name := x\<rparr>"
  by (cases node) (simp add: load_inode_def)

lemma finddir_loads:
  assumes n: "n_type (nd c n) AND FS_DIRECTORY \<noteq> 0" and s: "dir_scan n (name_is name) 0 junk c = Inr ((True, offs, dir), c\<lparr>hq := q1\<rparr>)"
    and i: "d_inode dir = inum" "inum \<noteq> 0" "inum \<noteq> 1" and c: "\<not> cache_lock c" "find_node (cache c) inum = None" "free_node (cache c) 0 None = None"
      "length (cache c) < MAX_CACHED_NODES" "node_mem c"
    and q: "hq_ok q1 {}" "valid_blk q1 (INO_BLK inum (superb c))" and ino: "inode_at inum (view q1 (INO_BLK inum (superb c))) = ino" "i_type ino AND FS_IFMT \<noteq> 0"
    and nm: "cstr t name"
  shows "\<exists>q'. cofs_finddir junk n name c = Inr (Some (length (cache c)), c\<lparr>hq := q', cache := cache c @ [found_node t inum ino]\<rparr>) \<and> same_disk q1 q'"
proof -
  let ?k = "length (cache c)" and ?c1 = "c\<lparr>hq := q1, cache := cache c @ [fresh_node inum]\<rparr>"
  have g: "cofs_get_node inum (c\<lparr>hq := q1\<rparr>) = Inr (Some ?k, ?c1)" using c by (simp add: cofs_get_node_def fresh_node_def)
  have nd1: "nd ?c1 ?k = fresh_node inum" by (simp add: nd_def)
  have b: "ino_blk ?k ?c1 = INO_BLK inum (superb c)" by (simp add: ino_blk_def nd1)
  have "\<exists>q'. cofs_lock (Some ?k) ?c1 = Inr (nset ?k (\<lambda>node. load_inode ino (node\<lparr>n_lock := True\<rparr>)) (?c1\<lparr>hq := q'\<rparr>)) \<and> same_disk (hq ?c1) q'"
    by (rule lock_loads) (use q ino c b nd1 in simp_all)
  then obtain q2 where q2: "cofs_lock (Some ?k) ?c1 = Inr (nset ?k (\<lambda>node. load_inode ino (node\<lparr>n_lock := True\<rparr>)) (?c1\<lparr>hq := q2\<rparr>))" "same_disk q1 q2" by auto
  have e: "nset ?k (\<lambda>node. load_inode ino (node\<lparr>n_lock := True\<rparr>)) (?c1\<lparr>hq := q2\<rparr>) =
      c\<lparr>hq := q2, cache := cache c @ [load_inode ino ((fresh_node inum)\<lparr>n_lock := True\<rparr>)]\<rparr>" by (simp add: nset_def)
  have sn: "strncpy (replicate 256 0) name 255 = Inr (take 255 t @ replicate (255 - length t) 0 @ [0])"
    using strncpy_cstr [OF nm, of 255 "replicate 256 0"] by simp
  have "cofs_finddir junk n name c = Inr (Some ?k, c\<lparr>hq := q2, cache := cache c @ [found_node t inum ino]\<rparr>)"
    using n s i g q2(1)
    by (simp add: cofs_finddir_def e Let_def) (simp add: set_name_def cofs_unlock_def nset_def nd_def sn found_node_def load_swap)
  with q2(2) show ?thesis by blast
qed

lemma init_loads:
  assumes q: "hq_ok q {}" "valid_blk q 1" "view q 1 = superb_bytes sb @ r" "magic sb = COFS_MAGIC" "valid_blk q (INO_BLK 1 sb)"
    and ino: "inode_at 1 (view q (INO_BLK 1 sb)) = ino" "i_type ino = FS_DIRECTORY"
  shows "\<exists>q'. cofs_init True q = Inr (0, \<lparr>hq = q', superb = sb, cache = [root_node ino], cache_lock = False, node_mem = True\<rparr>) \<and> same_disk q q'"
proof -
  from get_superblock_ok [OF q(1-3)] obtain q1 where q1: "get_superblock q = Inr (sb, q1)" "same_disk q q1" by blast
  have d: "view q1 = view q" "valid_blk q1 = valid_blk q" "hq_ok q1 {}" using q1(2) by (simp_all add: same_disk_def)
  let ?c1 = "\<lparr>hq = q1, superb = sb, cache = [fresh_node 1], cache_lock = False, node_mem = True\<rparr>"
  have g: "cofs_get_node COFS_ROOT_INUM \<lparr>hq = q1, superb = sb, cache = [], cache_lock = False, node_mem = True\<rparr> = Inr (Some 0, ?c1)"
    by (simp add: cofs_get_node_def fresh_node_def COFS_ROOT_INUM_def MAX_CACHED_NODES_def)
  have nd1: "nd ?c1 0 = fresh_node 1" by (simp add: nd_def)
  have ty: "FS_DIRECTORY AND FS_IFMT = FS_DIRECTORY" "FS_DIRECTORY \<noteq> 0" by (simp_all add: FS_DIRECTORY_def FS_IFMT_def)
  have b: "ino_blk 0 ?c1 = INO_BLK 1 sb" by (simp add: ino_blk_def nd1)
  have "\<exists>q'. cofs_lock (Some 0) ?c1 = Inr (nset 0 (\<lambda>node. load_inode ino (node\<lparr>n_lock := True\<rparr>)) (?c1\<lparr>hq := q'\<rparr>)) \<and> same_disk (hq ?c1) q'"
    by (rule lock_loads) (use q d ino b nd1 ty in simp_all)
  then obtain q2 where q2: "cofs_lock (Some 0) ?c1 = Inr (nset 0 (\<lambda>node. load_inode ino (node\<lparr>n_lock := True\<rparr>)) (?c1\<lparr>hq := q2\<rparr>))" "same_disk q1 q2" by auto
  have "strcpy (replicate 256 0) [47, 0] = Inr ([47] @ 0 # drop (Suc (length ([47] :: u8 list))) (replicate 256 0))"
    by (rule strcpy_cstr) (auto simp: cstr_def)
  then have sn: "strcpy (replicate 256 0) [47, 0] = Inr (47 # replicate 255 0)" by (simp add: numeral_eq_Suc)
  have "cofs_init True q = Inr (0, \<lparr>hq = q2, superb = sb, cache = [root_node ino], cache_lock = False, node_mem = True\<rparr>)"
    using q1(1) q(4) g q2(1) ty ino(2)
    by (simp add: cofs_init_def nset_def nd_def) (simp add: cofs_unlock_def nset_def nd_def sn root_node_def load_swap)
  with same_disk_trans [OF q1(2) q2(2)] show ?thesis by blast
qed

section \<open>The image and the files in it\<close>

text \<open>\<open>cofs_image\<close>: a disk with the layout for \<open>N\<close> blocks, the first \<open>u\<close> in use, and the root and the files of the command line.\<close>

definition cofs_image :: "nat \<Rightarrow> buf_queue \<Rightarrow> nat \<Rightarrow> (u8 list \<times> u8 list) list \<Rightarrow> bool" where
  "cofs_image N q u files \<longleftrightarrow> fits N files \<and> bitmap_ok (layout_sb N) q \<and> meta N \<le> u \<and> (\<forall>x. unat x < u \<longrightarrow> valid_blk q x) \<and>
     (\<forall>x. ino_start N \<le> unat x \<and> unat x < u \<longrightarrow> owned_blk (layout_sb N) q x) \<and> (\<exists>r. view q 1 = superb_bytes (layout_sb N) @ r) \<and>
     (\<exists>a. node_on N (view q) u FS_DIRECTORY (root_size (length (root_dir files))) (root_dir files) 0 a) \<and>
     (\<forall>i<length files. \<exists>a. node_on N (view q) u FS_FILE (length (snd (files ! i))) (snd (files ! i)) (Suc i) a)"

lemma cofs_imageD:
  assumes "cofs_image N q u files"
  shows "fits N files" "bitmap_ok (layout_sb N) q" "meta N \<le> u" "unat x < u \<Longrightarrow> valid_blk q x"
    "ino_start N \<le> unat x \<Longrightarrow> unat x < u \<Longrightarrow> owned_blk (layout_sb N) q x" "\<exists>r. view q 1 = superb_bytes (layout_sb N) @ r"
    "\<exists>a. node_on N (view q) u FS_DIRECTORY (root_size (length (root_dir files))) (root_dir files) 0 a"
    "i < length files \<Longrightarrow> \<exists>a. node_on N (view q) u FS_FILE (length (snd (files ! i))) (snd (files ! i)) (Suc i) a"
  using assms unfolding cofs_image_def by blast+

lemma cofs_image_same_disk:
  assumes "cofs_image N q u files" "same_disk q q'"
  shows "cofs_image N q' u files"
proof -
  have "view q' = view q" "valid_blk q' = valid_blk q" "hq_ok q' {}" using assms(2) by (simp_all add: same_disk_def)
  with assms(1) show ?thesis by (simp add: cofs_image_def bitmap_ok_def alloc_ok_def owned_blk_def)
qed

lemma node_tree_on:
  assumes "cofs_image N q u files" "node_on N (view q) u ty sz xs j a"
  shows "tree_on (layout_sb N) q a (slots_for (length xs))"
  using assms cofs_imageD(2,5) [OF assms(1)] by (auto simp: tree_on_def node_on_def meta_def)

text \<open>What \<open>mkcofs\<close> leaves is such a disk.\<close>

lemma mkcofs_image:
  assumes f: "fits N files" and st: "st div BLOCK_SIZE = 204801 + N" and m0: "host_ok m0" "secs m0 = st div BLOCK_SIZE" "\<forall>s. length (img m0 s) = BLOCK_SIZE"
  shows "\<exists>m u. mkcofs (Some st) (args files) m0 = Inr m \<and> cofs_image N (disk_of b m) u files"
proof -
  let ?ino = "\<lambda>m4. mk_ino N m4 0\<lparr>i_size := of_nat (root_size (length (root_dir files)))\<rparr>"
  from mkcofs_runs [OF assms] obtain m m4 where m: "mkcofs (Some st) (args files) m0 = Inr m" and inv: "mk_inv N m4 (all_files files)"
    and b: "mk_base N m" and v: "mview m = (mview (with_ino N 0 (?ino m4) m4))(2 := bitmap_bytes (fb m4))" by blast
  note I = mk_invD [OF inv] and D = disk_of_ok [OF b]
  let ?q = "disk_of b m" and ?u = "fb m4"
  have len: "length (all_files files) = Suc (length files)" by (simp add: all_files_def file_list_def)
  have u: "?u \<le> 4096" "meta N \<le> ?u" using I(5) f by (simp_all add: fits_def)
  have N: "2 < N" "0 < N div 8" "ino_start N \<le> N" "meta N \<le> N" using I(4,6) u(2) by (simp_all add: meta_def)
  have l9: "length (i_addrs (?ino m4)) = 9" using tree_okD(1) [OF holds_fileD(2) [OF I(8) [of 0]]] len by simp
  note W = with_ino_ok(3) [OF I(1,2) N(2,4) l9]
  have vq: "view ?q x = ((mview (with_ino N 0 (?ino m4) m4))(2 := bitmap_bytes ?u)) x" if "unat x < N" for x using D(3) [OF that] v by simp
  have low: "view ?q x = head_blk N x" if "unat x < ino_start N" "x \<noteq> 2" for x
  proof -
    have "x \<noteq> iblk N 0" using iblk_unat(2) [OF N(2) I(10)] that(1) by auto
    with that vq [of x] I(11) [OF that(1)] N(3) W show ?thesis by simp
  qed
  have val: "valid_blk ?q x" if "unat x < N" for x unfolding D(2) using that I(10) by simp
  have bmv: "view ?q 2 = bitmap_bytes ?u" using vq [of 2] N(1) by simp
  have ist: "ino_start N \<le> ?u" using u(2) by (simp add: meta_def)
  have zs: "view ?q x = zero_blk" if "2 < unat x" "unat x < ino_start N" for x
  proof -
    have "x \<noteq> 2" "x \<noteq> 1" using that(1) by auto
    with low [OF that(2)] show ?thesis by (simp add: head_blk_def)
  qed
  note B = mount_bitmap [OF _ I(10) D(1) iffD2 [OF D(2)] bmv u(1) ist zs]
  have own: "owned_blk (layout_sb N) ?q x" if "ino_start N \<le> unat x" "unat x < ?u" for x
    using N(1) that I(6) val [of x] B by (intro owned_low [where u = ?u]) simp_all
  have nodes: "node_on N (view ?q) ?u (fst (all_files files ! j)) (if j = 0 then root_size (length (root_dir files)) else length (snd (all_files files ! j)))
      (snd (all_files files ! j)) j (i_addrs (mk_ino N m4 j))" if "j < Suc (length files)" for j
    by (rule image_nodes [OF inv _ refl vq]) (use that len in simp_all)
  have af: "all_files files ! Suc i = (FS_FILE, snd (files ! i))" if "i < length files" for i
    using that by (simp add: all_files_def file_list_def split_beta)
  have "cofs_image N ?q ?u files"
    unfolding cofs_image_def
  proof (intro conjI allI impI)
    show "fits N files" "meta N \<le> ?u" by (fact f, fact u(2))
    show "bitmap_ok (layout_sb N) ?q" using B(4) N(1) by simp
    show "valid_blk ?q x" if "unat x < ?u" for x using that I(6) by (intro val) simp
    show "owned_blk (layout_sb N) ?q x" if "ino_start N \<le> unat x \<and> unat x < ?u" for x using own that by blast
    show "\<exists>r. view ?q 1 = superb_bytes (layout_sb N) @ r" using low [of 1] by (simp add: head_blk_def ino_start_def)
    show "\<exists>a. node_on N (view ?q) ?u FS_DIRECTORY (root_size (length (root_dir files))) (root_dir files) 0 a"
      using nodes [of 0] by (auto simp: all_files_def)
    show "\<exists>a. node_on N (view ?q) ?u FS_FILE (length (snd (files ! i))) (snd (files ! i)) (Suc i) a" if "i < length files" for i
      using nodes [of "Suc i"] that unfolding af [OF that] by auto
  qed
  with m show ?thesis by blast
qed

text \<open>The state \<open>cofs_init\<close> leaves on this disk, and its directory.\<close>

definition root_ino :: "nat \<Rightarrow> u32 list \<Rightarrow> cofs_inode" where
  "root_ino sz a = (zero_inode FS_DIRECTORY)\<lparr>i_size := of_nat sz, i_addrs := a\<rparr>"

definition mount_state :: "nat \<Rightarrow> buf_queue \<Rightarrow> nat \<Rightarrow> u32 list \<Rightarrow> cofs" where
  "mount_state N q sz a = \<lparr>hq = q, superb = layout_sb N, cache = [root_node (root_ino sz a)], cache_lock = False, node_mem = True\<rparr>"

lemma mount_simps [simp]:
  "hq (mount_state N q sz a) = q" "superb (mount_state N q sz a) = layout_sb N" "cache (mount_state N q sz a) = [root_node (root_ino sz a)]"
  "nd (mount_state N q sz a) 0 = root_node (root_ino sz a)" "cache_lock (mount_state N q sz a) = False" "node_mem (mount_state N q sz a) = True"
  by (simp_all add: mount_state_def nd_def)

lemma root_simps [simp]:
  "n_inode (root_node ino) = 1" "n_ref_count (root_node ino) = 1" "n_size (root_node ino) = i_size ino" "n_addrs (root_node ino) = Some (i_addrs ino)"
  "n_type (root_node ino) = i_type ino AND FS_IFMT" "i_size (root_ino sz a) = of_nat sz" "i_addrs (root_ino sz a) = a" "i_type (root_ino sz a) = FS_DIRECTORY"
  by (simp_all add: root_node_def root_ino_def zero_inode_def)

lemma image_mounts:
  assumes im: "cofs_image N q u files" and r: "node_on N (view q) u FS_DIRECTORY sz xs 0 a"
  shows "\<exists>q'. cofs_init True q = Inr (0, mount_state N q' sz a) \<and> same_disk q q'"
proof -
  note M = cofs_imageD [OF im]
  have N: "0 < N div 8" "204801 + N \<le> 2 ^ 23" using M(1) by (simp_all add: fits_def)
  have blk: "INO_BLK 1 (layout_sb N) = iblk N 0" by (simp add: iblk_def)
  have "unat (iblk N 0) < u" "unat (1 :: u32) < u" using iblk_unat(3,4) [OF N] M(3) by simp_all
  then have v: "valid_blk q (iblk N 0)" "valid_blk q 1" using M(4) by blast+
  obtain r' where sb: "view q 1 = superb_bytes (layout_sb N) @ r'" using M(6) by blast
  have ino: "inode_at 1 (view q (iblk N 0)) = root_ino sz a" using r by (simp add: node_on_def root_ino_def)
  have "magic (layout_sb N) = COFS_MAGIC" by (simp add: layout_sb_def)
  from init_loads [OF bitmap_okD(2) [OF M(2)] v(2) sb this v(1) [folded blk] ino [folded blk]] show ?thesis
    by (simp add: mount_state_def)
qed

lemma mounted_dir:
  assumes im: "cofs_image N q u files" and r: "node_on N (view q) u FS_DIRECTORY (root_size (length (root_dir files))) (root_dir files) 0 a"
  shows "dir_part (mount_state N q (root_size (length (root_dir files))) a) 0 a (length files + 2)"
    "k < length files + 2 \<Longrightarrow> dir_entry (view q) a k = dirent_bytes (if k < 2 then 1 else of_nat k) (entry_name files k)"
proof -
  let ?c = "mount_state N q (root_size (length (root_dir files))) a" and ?n = "64 + 32 * length files"
  have lim: "?n < MAX_BLOCKS * BLOCK_SIZE" using cofs_imageD(1) [OF im] by (simp add: fits_def)
  note T = node_tree_on [OF im r]
  have on: "file_on ?c 0 a (slots_for ?n)" using T by (simp add: file_on_def)
  have "root_size ?n < 2 ^ 32" using root_size_word(2) [OF lim] MAX_WRITE_blocks(2) by linarith
  then have rs: "unat (of_nat (root_size ?n) :: u32) = root_size ?n" by (simp add: unat_of_nat)
  have rn: "?n \<le> root_size ?n" by (simp add: root_size_def BLOCK_SIZE_def)
  have "mapped q a (p div BLOCK_SIZE)" if "p < ?n" for p
    using tree_mapped [OF on] slots_covers [of ?n] that by (simp add: covers_def)
  moreover have "?n < 2 ^ 31" using lim by (simp add: MAX_BLOCKS_def idx_defs BLOCK_SIZE_def)
  moreover have "file_ok ?c 0 a" using tree_okD(1) [OF tree_onD(2) [OF T]] bitmap_okD(2) [OF tree_onD(1) [OF T]] by (simp add: file_ok_def)
  ultimately show "dir_part ?c 0 a (length files + 2)" using rs rn by (simp add: dir_part_def DIRENT_SIZE_eq)
  assume k: "k < length files + 2"
  have "dir_entry (view q) a k = take 32 (drop (32 * k) (contents (view q) a (length (root_dir files))))"
    by (rule dir_entry_chunk) (use k in simp)
  with r root_chunk [OF k] show "dir_entry (view q) a k = dirent_bytes (if k < 2 then 1 else of_nat k) (entry_name files k)"
    by (simp add: node_on_def)
qed

lemma entry_names:
  assumes "entries_ok files" "fits N files" "k < length files + 2"
  shows "0 \<notin> set (entry_name files k)" "length (entry_name files k) < DIRSIZE"
    "j < k \<Longrightarrow> entry_name files j \<noteq> entry_name files k"
proof -
  let ?ns = "[46] # [46, 46] # map (\<lambda>(path, data). mk_basename path) files"
  have nth: "entry_name files i = ?ns ! i" if "i < length files + 2" for i
  proof -
    consider "i = 0" | "i = 1" | "2 \<le> i" by linarith
    then show ?thesis
    proof cases
      case 3
      then have l: "i = Suc (Suc (i - 2))" "i - 2 < length files" using that by simp_all
      then have "?ns ! i = map (\<lambda>(path, data). mk_basename path) files ! (i - 2)" by (metis nth_Cons_Suc)
      with l(2) 3 show ?thesis by (simp add: entry_name_def split_beta)
    qed (simp_all add: entry_name_def)
  qed
  have "entry_name files k \<in> set ?ns" unfolding nth [OF assms(3)] by (rule nth_mem) (use assms(3) in simp)
  then show "0 \<notin> set (entry_name files k)" "length (entry_name files k) < DIRSIZE"
    using assms(1,2) set_basename by (auto simp: entries_ok_def fits_def DIRSIZE_def)
  show "entry_name files j \<noteq> entry_name files k" if "j < k"
    using assms(1,3) that nth nth_eq_iff_index_eq [of ?ns j k] by (simp add: entries_ok_def)
qed

definition file_ino :: "u8 list \<Rightarrow> u32 list \<Rightarrow> cofs_inode" where
  "file_ino data a = (zero_inode FS_FILE)\<lparr>i_size := of_nat (length data), i_addrs := a\<rparr>"

lemma file_ino_simps [simp]:
  "i_type (file_ino data a) = FS_FILE" "i_size (file_ino data a) = of_nat (length data)" "i_addrs (file_ino data a) = a"
  "FS_FILE AND FS_IFMT = FS_FILE" "FS_FILE \<noteq> 0"
  by (simp_all add: file_ino_def zero_inode_def FS_FILE_def FS_IFMT_def)

lemma image_finds:
  assumes im: "cofs_image N q u files" and nm: "entries_ok files"
    and r: "node_on N (view q) u FS_DIRECTORY (root_size (length (root_dir files))) (root_dir files) 0 a"
    and i: "i < length files" "node_on N (view q) u FS_FILE (length (snd (files ! i))) (snd (files ! i)) (Suc i) a'"
    and s: "cstr (mk_basename (fst (files ! i))) name" "length junk = DIRENT_SIZE"
  defines "c \<equiv> mount_state N q (root_size (length (root_dir files))) a"
  shows "\<exists>q'. cofs_finddir junk 0 name c = Inr (Some 1, c\<lparr>hq := q',
      cache := cache c @ [found_node (mk_basename (fst (files ! i))) (of_nat (Suc (Suc i))) (file_ino (snd (files ! i)) a')]\<rparr>) \<and> same_disk q q'"
proof -
  note M = cofs_imageD [OF im]
  have N: "Suc i < N div 8" "204801 + N \<le> 2 ^ 23" using M(1) i(1) by (simp_all add: fits_def)
  let ?k = "Suc (Suc i)" and ?t = "mk_basename (fst (files ! i))"
  have k: "?k < length files + 2" "entry_name files ?k = ?t" using i(1) by (simp_all add: entry_name_def)
  note D = mounted_dir [OF im r, folded c_def] and E = entry_names [OF nm M(1)]
  have test: "name_is name (dir_entry (view q) a j) = Inr (entry_name files j = ?t)" if "j < length files + 2" for j
    unfolding D(2) [OF that] by (rule name_is_eq [OF dirent_fields(2) [OF E(1,2) [OF that]] s(1)])
  have "\<exists>q'. dir_scan 0 (name_is name) (of_nat (DIRENT_SIZE * 0)) junk c =
      Inr ((True, of_nat (DIRENT_SIZE * ?k), dir_entry (view (hq c)) a ?k), c\<lparr>hq := q'\<rparr>) \<and> same_disk (hq c) q'"
    by (rule dir_scan_hit [OF D(1) _ k(1) s(2)]) (use test k E(3) [OF k(1)] in \<open>auto simp: c_def\<close>)
  then obtain q1 where q1: "dir_scan 0 (name_is name) 0 junk c = Inr ((True, of_nat (DIRENT_SIZE * ?k), dir_entry (view q) a ?k), c\<lparr>hq := q1\<rparr>)" "same_disk q q1"
    by (auto simp: c_def)
  note u = iblk_unat [OF N]
  have d: "d_inode (dir_entry (view q) a ?k) = of_nat ?k"
    unfolding D(2) [OF k(1)] using dirent_fields(1) [OF E(1,2) [OF k(1)]] by simp
  have ne: "of_nat ?k \<noteq> (0 :: u32)" "of_nat ?k \<noteq> (1 :: u32)" using u(1) by (auto simp del: of_nat_Suc)
  have dk: "view q1 = view q" "valid_blk q1 = valid_blk q" "hq_ok q1 {}" using q1(2) by (simp_all add: same_disk_def)
  have blk: "INO_BLK (of_nat ?k) (superb c) = iblk N (Suc i)" by (simp add: c_def iblk_def del: of_nat_Suc)
  have "\<exists>q'. cofs_finddir junk 0 name c = Inr (Some (length (cache c)), c\<lparr>hq := q', cache := cache c @ [found_node ?t (of_nat ?k) (file_ino (snd (files ! i)) a')]\<rparr>) \<and> same_disk q1 q'"
  proof (rule finddir_loads [OF _ q1(1) d ne _ _ _ _ _ dk(3) _ _ _ s(1)])
    show "n_type (nd c 0) AND FS_DIRECTORY \<noteq> 0" by (simp add: c_def FS_DIRECTORY_def FS_IFMT_def)
    show "valid_blk q1 (INO_BLK (of_nat ?k) (superb c))" unfolding blk dk(2) using u(3) M(3) by (intro M(4)) simp
    show "inode_at (of_nat ?k) (view q1 (INO_BLK (of_nat ?k) (superb c))) = file_ino (snd (files ! i)) a'"
      unfolding blk dk(1) using i(2) by (simp add: node_on_def file_ino_def del: of_nat_Suc)
    show "find_node (cache c) (of_nat ?k) = None" using ne(2) by (simp add: c_def del: of_nat_Suc)
  qed (simp_all add: c_def MAX_CACHED_NODES_def)
  then show ?thesis using same_disk_trans [OF q1(2)] by (auto simp: c_def)
qed

lemma found_file:
  assumes im: "cofs_image N q u files" and x: "node_on N (view q) u FS_FILE (length data) data (Suc i) a" "Suc i < N div 8" "length data \<le> MAX_BLOCKS * BLOCK_SIZE"
    and c: "hq c = q" "superb c = layout_sb N" "n < length (cache c)" "nd c n = found_node nm (of_nat (Suc (Suc i))) (file_ino data a)"
  shows "file_tree n c a (slots_for (length data))" "file_content n c = data"
proof -
  note M = cofs_imageD [OF im]
  have N: "204801 + N \<le> 2 ^ 23" using M(1) by (simp add: fits_def)
  note u = iblk_unat [OF x(2) N]
  have f: "n_addrs (nd c n) = Some a" "n_size (nd c n) = of_nat (length data)" "n_inode (nd c n) = of_nat (Suc (Suc i))"
    unfolding c(4) by (simp_all add: found_node_def del: of_nat_Suc)
  have sz: "unat (n_size (nd c n)) = length data" unfolding f(2) using x(3) MAX_WRITE_blocks(2) by (simp add: unat_of_nat)
  have blk: "ino_blk n c = iblk N (Suc i)" by (simp add: ino_blk_def f(3) c(2) iblk_def)
  have "owned_blk (layout_sb N) q (iblk N (Suc i))" using u(2,3) M(3) by (intro M(5)) simp_all
  moreover have "iblk N (Suc i) \<notin> slot_blk (view q) a ` slots_for (length data)" using x(1) u(3) by (force simp: node_on_def)
  moreover have "file_on c n a (slots_for (length data))" using node_tree_on [OF im x(1)] c(1-3) f(1) by (simp add: file_on_def)
  ultimately show "file_tree n c a (slots_for (length data))" using sz x(3) c(1,2) by (simp add: file_tree_def slots_covers blk)
  show "file_content n c = data" using x(1) by (simp add: file_content_def sz f(1) c(1) node_on_def)
qed

section \<open>Properties\<close>

text \<open>
  C2. The image \<open>mkcofs\<close> makes is one the kernel can use (\<open>main\<close> of \<open>util/mkcofs.c\<close>; \<open>cofs_init\<close>, \<open>cofs_finddir\<close>, \<open>cofs_read\<close> of \<open>cofs.c\<close>).
  Let the image have a partition of \<open>N\<close> blocks, let the files of the command line fit on it and have names that a
  directory entry can hold and that differ. Then the program succeeds whatever the image held before, the kernel
  mounts the result, and a search of the root directory for the base name of any of the files gives a regular
  file whose blocks are in place, whose content is that of the host's file, and which reads as such.
\<close>

theorem mkcofs_mounts:
  assumes "fits N files" and "entries_ok files" and "st div BLOCK_SIZE = 204801 + N"
    and "host_ok m0" and "secs m0 = st div BLOCK_SIZE" and "\<forall>s. length (img m0 s) = BLOCK_SIZE" and "length junk = DIRENT_SIZE"
  shows "\<exists>m root c. mkcofs (Some st) (args files) m0 = Inr m \<and> cofs_init True (disk_of b m) = Inr (root, c) \<and>
    (\<forall>i<length files. \<forall>name. cstr (mk_basename (fst (files ! i))) name \<longrightarrow>
      (\<exists>n c1 c2. cofs_finddir junk root name c = Inr (Some n, c1) \<and> n_type (nd c1 n) = FS_FILE \<and> cofs_file n c1 \<and>
        file_content n c1 = snd (files ! i) \<and> cofs_read n 0 (of_nat (length (snd (files ! i)))) c1 = Inr (snd (files ! i), c2)))"
proof -
  from mkcofs_image [OF assms(1,3-6)] obtain m u where m: "mkcofs (Some st) (args files) m0 = Inr m" and im: "cofs_image N (disk_of b m) u files"
    by blast
  from cofs_imageD(7) [OF im] obtain a where a: "node_on N (view (disk_of b m)) u FS_DIRECTORY (root_size (length (root_dir files))) (root_dir files) 0 a" by blast
  from image_mounts [OF im a] obtain q where q: "cofs_init True (disk_of b m) = Inr (0, mount_state N q (root_size (length (root_dir files))) a)" "same_disk (disk_of b m) q"
    by blast
  let ?c = "mount_state N q (root_size (length (root_dir files))) a"
  have im1: "cofs_image N q u files" and a1: "node_on N (view q) u FS_DIRECTORY (root_size (length (root_dir files))) (root_dir files) 0 a"
    using cofs_image_same_disk [OF im q(2)] a q(2) by (simp_all add: same_disk_def)
  have "\<exists>n c1 c2. cofs_finddir junk 0 name ?c = Inr (Some n, c1) \<and> n_type (nd c1 n) = FS_FILE \<and> cofs_file n c1 \<and>
      file_content n c1 = snd (files ! i) \<and> cofs_read n 0 (of_nat (length (snd (files ! i)))) c1 = Inr (snd (files ! i), c2)"
    if i: "i < length files" "cstr (mk_basename (fst (files ! i))) name" for i name
  proof -
    let ?d = "snd (files ! i)" and ?t = "mk_basename (fst (files ! i))"
    from cofs_imageD(8) [OF im1 i(1)] obtain a' where a': "node_on N (view q) u FS_FILE (length ?d) ?d (Suc i) a'" by blast
    let ?nd = "found_node ?t (of_nat (Suc (Suc i))) (file_ino ?d a')"
    from image_finds [OF im1 assms(2) a1 i(1) a' i(2) assms(7)] obtain q1 where
      q1: "cofs_finddir junk 0 name ?c = Inr (Some 1, ?c\<lparr>hq := q1, cache := cache ?c @ [?nd]\<rparr>)" "same_disk q q1" by blast
    let ?c1 = "?c\<lparr>hq := q1, cache := cache ?c @ [?nd]\<rparr>"
    have "view q1 = view q" using q1(2) by (simp add: same_disk_def)
    then have a2: "node_on N (view q1) u FS_FILE (length ?d) ?d (Suc i) a'" using a' by simp
    have lim: "Suc i < N div 8" "length ?d \<le> MAX_BLOCKS * BLOCK_SIZE" using assms(1) i(1) nth_mem [OF i(1)] by (auto simp: fits_def split_beta)
    have nd1: "nd ?c1 1 = ?nd" by (simp add: nd_def del: of_nat_Suc)
    note F = found_file [OF cofs_image_same_disk [OF im1 q1(2)] a2 lim, of ?c1 1, OF _ _ _ nd1]
    have t: "file_tree 1 ?c1 a' (slots_for (length ?d))" "file_content 1 ?c1 = ?d" using F by (simp_all del: of_nat_Suc)
    from cofs_read_file [OF t(1), of 0 "length ?d"] lim(2) obtain q2 where "cofs_read 1 0 (of_nat (length ?d)) ?c1 = Inr (?d, ?c1\<lparr>hq := q2\<rparr>)"
      unfolding t(2) by auto
    moreover have "n_type (nd ?c1 1) = FS_FILE" unfolding nd1 by (simp add: found_node_def)
    ultimately show ?thesis using q1(1) t unfolding cofs_file_def by blast
  qed
  with m q(1) show ?thesis by blast
qed

text \<open>An empty image with a partition of 128 blocks, and the file \<open>b/a\<close> with the content \<open>hi\<close>.\<close>

definition mk_host :: mkfs where
  "mk_host = \<lparr>img = (\<lambda>_. replicate 512 0), secs = 204929, host_ok = True, m_superb = layout_sb 0, free_inode = 1, free_block = 0\<rparr>"

definition one_file :: "(u8 list \<times> u8 list) list" where
  "one_file = [([98, 47, 97], [104, 105])]"

lemma one_block: "0 < n \<Longrightarrow> n \<le> 512 \<Longrightarrow> card (slots_for n) = 1"
proof -
  assume n: "0 < n" "n \<le> 512"
  then have "{f. f * BLOCK_SIZE < n} = {0}" by (auto simp: BLOCK_SIZE_def)
  then have "slots_for n = {Dat 0}" by (simp add: slots_for_def paths_def path_of_def idx_defs)
  then show ?thesis by simp
qed

lemma one_file_ok: "fits 128 one_file" "entries_ok one_file" "mk_basename (fst (one_file ! 0)) = [97]"
proof -
  have "blocks_of (all_files one_file) = 2" by (simp add: all_files_def file_list_def one_file_def blocks_of_def one_block)
  then show "fits 128 one_file"
    unfolding fits_def by (simp add: one_file_def meta_def ino_start_def MAX_BLOCKS_def idx_defs BLOCK_SIZE_def)
  show "mk_basename (fst (one_file ! 0)) = [97]" by (simp add: one_file_def mk_basename_def)
  then show "entries_ok one_file" by (simp add: entries_ok_def one_file_def DIRSIZE_def)
qed

lemma mkcofs_mounts_witness:
  "\<exists>m root c n c1 c2. mkcofs (Some 104923648) (args one_file) mk_host = Inr m \<and>
    cofs_init True (disk_of \<lparr>block_no = 0, is_dirty = False, ref_count = 0, hb_lock = False, hb_data = []\<rparr> m) = Inr (root, c) \<and>
    cofs_finddir (replicate DIRENT_SIZE 0) root [97, 0] c = Inr (Some n, c1) \<and> cofs_read n 0 2 c1 = Inr ([104, 105], c2)"
proof -
  have "cstr (mk_basename (fst (one_file ! 0))) [97, 0]" unfolding one_file_ok(3) by (simp add: cstr_def)
  moreover have "length one_file = 1" "snd (one_file ! 0) = [104, 105]" by (simp_all add: one_file_def)
  ultimately show ?thesis
    using mkcofs_mounts [OF one_file_ok(1,2), of 104923648 mk_host "replicate DIRENT_SIZE 0" "\<lparr>block_no = 0, is_dirty = False, ref_count = 0, hb_lock = False, hb_data = []\<rparr>"]
    by (fastforce simp: mk_host_def BLOCK_SIZE_def)
qed

end
