(* ===== verification/Spec2Isabelle.thy ===== *)
theory Spec2Isabelle
  imports Prelude Ring_Buf Cstring Path Hd_Queue Cofs_Disk Cofs Cofs_Dir Fs_Node Pipe Vfs Sysfile Klist Bmap Route Task
    Icmp Arp Sock Udp Net Vsnprintf Mem_Fork Malloc Kbd Vsscanf Dhcp Stdio Clock Intr Cosh Boot Mem_Exit Cofs_Grow Mkcofs_Mount
begin

text \<open>
  A model of cOSiris, a small Unix-like operating system for the i386, and the theorems that make its
  parts correct. The sources are C files under \<open>src/\<close>; the definitions keep their names.

  \<^bold>\<open>The program and its parts.\<close> A program in user mode enters the kernel through a system call
  (\<open>syscall.c\<close>, \<open>sysfile.c\<close>, \<open>sysproc.c\<close>). Calls on files go through the table of open files of the
  task to the virtual file system (\<open>vfs.c\<close>), which dispatches to the file system on disk
  (\<open>cofs.c\<close>), to pipes (\<open>pipe.c\<close>) or to the terminals (\<open>tty.c\<close>). COFS reads and writes blocks through the
  block cache (\<open>hd_queue.c\<close>), which calls the disk driver (\<open>hd.c\<close>). Keys come in through the keyboard
  interrupt (\<open>kbd.c\<close>) into the line editor of a terminal and its ring buffer (\<open>ring_buf.c\<close>), and
  output goes through the escape sequences (\<open>ansi.c\<close>) to the screen (\<open>crt.c\<close>). Packets come from the
  card's driver into a queue (\<open>net.c\<close>); the network task takes them out and hands them to ARP (\<open>arp.c\<close>), IP
  (\<open>ip.c\<close>), ICMP (\<open>icmp.c\<close>) and UDP (\<open>udp.c\<close>), which deliver to sockets (\<open>sock.c\<close>, \<open>bmap.c\<close>) and choose
  interfaces by the routing table (\<open>route.c\<close>); DHCP and DNS (\<open>dhcp.c\<close>, \<open>dns.c\<close>) are clients of UDP. Tasks
  (\<open>task.c\<close>, \<open>signal.c\<close>) live in address spaces of the memory manager (\<open>mem.c\<close>), whose break
  (\<open>_sbrk\<close>) feeds the allocator (\<open>lib/malloc.c\<close>). Programs use the C library (\<open>lib/\<close>): strings,
  formatted output and input, buffered files.

  \<^bold>\<open>Conventions.\<close> Machine integers are words of their width (\<open>u8\<close>, \<open>u16\<close>, \<open>u32\<close> of \<open>Prelude\<close>), so that
  wrap-around is the program's. Kernel code that can panic, fail an assertion, wait for ever for
  a lock or touch memory it does not own is a function into \<open>kerr + 'a\<close>; the error says which of these
  happened. State is a record that is passed along. Memory that is shared is an explicit store: the nodes of a
  linked list by their address, inodes by their place in the cache, physical memory by frame. A
  task that sleeps is a value of the result or splits the operation in two halves, so that
  what other tasks do in between is arbitrary. Hardware, code outside the repository and the
  results of memory allocation are arguments of the definitions.

  \<^bold>\<open>The theories\<close>, in the order of their imports:

  \<^item> \<open>Prelude\<close> (words, results, lists) and \<open>Bytes\<close> (little endian integers in byte arrays, runs of bytes in a
    packet) hold what the components share, with the collections of simplification rules.
  \<^item> \<open>Cstring\<close> (\<open>lib/str*.c\<close>, \<open>lib/mem*.c\<close> and others), \<open>Path\<close> (\<open>canonize.c\<close>, \<open>bname.c\<close>), \<open>Vsnprintf\<close>,
    \<open>Vsscanf\<close> and \<open>Stdio\<close> (\<open>lib/file.c\<close>, \<open>printf\<close>, \<open>fprintf\<close>) are the C library. Accesses behind
    the end of an object are faults of the model. What is shown: canonical paths, that formatted output
    stays in its buffer, that what \<open>%d\<close> prints is read back for every integer, and that buffered
    files carry what is written through a pipe to its reader.
  \<^item> \<open>Ring_Buf\<close> and \<open>Pipe\<close> are queues in a ring. The locale \<open>bounded_fifo\<close> states what a bounded queue
    promises; both are interpretations. The pipe's two ends are an inductive step relation: data is
    neither lost nor reordered; with sleeping and waking as steps, a message arrives whole and every run ends, unless
    a process is interrupted between unlocking the pipe and falling asleep (\<open>pipe_lost_wakeup\<close>).
  \<^item> \<open>Hd_Queue\<close> (\<open>hd_queue.c\<close>, \<open>hd_rw\<close> of \<open>hd.c\<close>) is the block cache. Its contract is the locale \<open>block_cache\<close>:
    a fetch shows the content of the block, release of a changed block changes exactly this
    block. \<open>Cofs_Disk\<close> (superblock, bitmap, inodes on disk), \<open>Cofs\<close> (inode cache, block lists at
    three levels, read, write, truncate) and \<open>Cofs_Dir\<close> (directories) are built on its interpretation.
    What is
    shown: allocation, write then read, the uniqueness of cached inodes, look-up of names, persistence.
    \<open>File_Tree\<close> is the tree of index and data blocks of a file, with the one step that grows it; \<open>Cofs_Grow\<close> shows on it
    that a file is an array of bytes that a write extends, the contract stated as the locale \<open>byte_file\<close>.
  \<^item> \<open>Mkcofs\<close> (\<open>util/mkcofs.c\<close>) is the program that makes the file system on the developer's machine, over the sectors of
    the image, with the same tree of blocks. \<open>Mkcofs_Mount\<close> brings it together with the kernel: the image is mounted by
    \<open>cofs_init\<close>, and \<open>cofs_finddir\<close> and \<open>cofs_read\<close> give every file of the command line back. \<open>fits\<close> says which files fit.
  \<^item> \<open>Fs_Node\<close>, \<open>Vfs\<close> (\<open>vfs.c\<close>) and \<open>Sysfile\<close> (\<open>sysfile.c\<close>): nodes, path walks and the system calls on
    files. The calls are an inductive step relation; with the table the first process starts with and the copy of the table in a
    fork (\<open>task_init\<close> and \<open>fork_int\<close> of \<open>task.c\<close>), the states of a process and its descendants have no dangling descriptor.
    \<open>sys_pipe\<close> and threads are not part of this.
  \<^item> \<open>Klist\<close> (\<open>list.c\<close>) is the kernel's linked list on a store of nodes, with the locale
    \<open>linked_sequence\<close>; \<open>Bmap\<close> (\<open>bmap.c\<close>), \<open>Route\<close> (\<open>route.c\<close>) rest on it or beside it: first match in
    the table is the longest prefix.
  \<^item> \<open>Task\<close> (\<open>task.c\<close>, \<open>thread.c\<close>, \<open>signal.c\<close>, parts of \<open>sysproc.c\<close>): the queue of tasks, the scheduler,
    sleeping and waking, waiting, exit and signals. No task that can run starves.
  \<^item> \<open>Ip\<close>, \<open>Icmp\<close>, \<open>Arp\<close>, \<open>Sock\<close>, \<open>Udp\<close>, \<open>Net\<close>, \<open>Dns\<close>, \<open>Dhcp\<close>: packets are byte lists, a frame given to the
    driver is an output. Checksums are those of RFC 1071, headers round trip, requests are answered, only
    valid packets have an effect, sockets never share an address, and the two clients parse
    what the protocols say, the DNS client within the limits \<open>wire_name\<close> states.
  \<^item> \<open>Mem\<close>, \<open>Mem_Fork\<close>, \<open>Sbrk\<close> (\<open>mem.c\<close>, \<open>kheap.c\<close>) run the code on a model of the processor's page walk, the
    recursive mapping of the page directory included. The locale \<open>brk_area\<close> states what a break
    promises, interpreted for the kernel's and the user's heap; \<open>Malloc\<close> is generic in the break and
    instantiated with it.
  \<^item> \<open>Ansi\<close>, \<open>Crt\<close>, \<open>Tty\<close>, \<open>Kbd\<close>: from scan codes to lines and from characters to the video memory. The
    locale \<open>tty_readers\<close> says what the terminal needs of a waiting reader.
  \<^item> \<open>Boot\<close> (\<open>kinfo.c\<close> and the start-up of \<open>mem.c\<close>) runs the start-up on the boot loader's memory map and shows that
    \<open>mem_init\<close> ends with a sound list of free frames and a sound first address space; \<open>Mem_Exit\<close>
    (\<open>free_directory\<close>) that a fork followed by the child's exit gives back all that the fork took.
  \<^item> \<open>Intr\<close> (\<open>gdt.c\<close>, \<open>idt.c\<close>, \<open>int.c\<close>, \<open>irq.c\<close>, \<open>timer.c\<close>, \<open>syscall.c\<close>): the descriptor tables as bytes, the ports
    of the interrupt controllers with their initialisation words, and which handler an interrupt line reaches through a present gate. \<open>Clock\<close> (\<open>rtc.c\<close>) shows that
    the clock's registers become the seconds of the calendar.
  \<^item> \<open>Cosh\<close> (\<open>bin/cosh.c\<close>): the shell's scanner and parser as they walk their buffer, what a printed command
    line is read back as, and the execution of the commands over a record of system calls. Nothing is claimed of a
    pipeline on the kernel's pipes, whose ends are miscounted after \<open>dup\<close> (\<open>Pipe.dup_end_not_counted\<close>).

  \<^bold>\<open>Loops.\<close> Loops with a counter recurse on it and walks of a list on the number of its nodes, which the
  invariants bound. Loops whose end depends on data that can be wrong (the block list of \<open>malloc\<close> and
  \<open>free\<close>, compression pointers of DNS names, \<open>getline\<close>) are partial functions into \<open>option\<close>; the theorems
  about them show that they return, and \<open>Dns.self_pointer_hangs\<close> that one need not. Waiting loops of the
  scheduler and of sleeping tasks are split where they wait.

  \<^bold>\<open>Flaws.\<close> Where the code does not do what it means to, the model follows the code: lemmas with
  concrete inputs show the behaviour (for instance \<open>Stdio.flush_empty_breaks\<close>, \<open>Dhcp.refusal_reported_as_success\<close>,
  \<open>Vsscanf.width_at_end_overreads\<close>), and the theorems carry the hypotheses under which the code is right.

  \<^bold>\<open>Not modelled.\<close> Code whose statements are single accesses to a device or the processor: the network card
  (\<open>ne2000.c\<close>), PCI, serial lines, delays, the switch of stacks and registers in assembler. Printing of
  state (\<open>*_dump\<close>, \<open>console.c\<close>, \<open>kdbg.c\<close>). The RAM disk (\<open>initrd.c\<close>, \<open>zero.c\<close>), which is not built. The table of
  devices (\<open>dev.c\<close>) and the order of initialisation in \<open>kernel.c\<close>. The loader of programs and the
  copy of a task's record in a fork, its table of files apart. The small user programs, the third-party editor \<open>bin/kilo.c\<close> and
  the tools \<open>util/mkinitrd.c\<close> and \<open>util/find_func.c\<close>.
\<close>

section \<open>Properties that span components\<close>

text \<open>
  C18. A ping is answered, from the wire to the wire: when the oldest packet of the queue is a complete
  echo request with valid checksums for one of the addresses of the interface it came from, the
  next round of the network task (\<open>net_task\<close>, \<open>net_process\<close>, \<open>ip_process\<close>, \<open>icmpv4_process\<close>) takes exactly
  this packet from the queue and sends exactly one frame, on the same interface: the echo reply on
  the wire, with the Ethernet type, IP version, lengths, identification and protocol of the request, the addresses
  exchanged, the request's data and checksums that verify (\<open>wire_answer\<close>). Nothing else in the network state changes.
\<close>

theorem ping_answered:
  assumes "queue_of q (buf # later)" and "wire_echo nif (nb_data buf)" and "nb_nic buf < length (netifs st)"
    and "nif = netifs st ! nb_nic buf" and "nif_up nif" and "length (nif_mac nif) = MAC_SIZE"
    and "unat (nb_size buf) = length (nb_data buf)"
  shows "\<exists>q' f. net_task_round woke now a q st = Inr (Net_done [(nif_id nif, f)], q', st) \<and> queue_of q' later \<and>
    wire_answer (nif_mac nif) (nb_data buf) f"
proof -
  let ?b = "nb_data buf"
  obtain q' where q: "netq_shift q = Inr (Some buf, q')" "queue_of q' later" using shift_takes_first [OF assms(1)] by blast
  have len: "14 \<le> length ?b" using assms(2) by (simp add: wire_echo_def)
  have "rd16 ?b 12 = 8" using assms(2) by (simp add: wire_echo_def rd16_def)
  then have ty: "ntohs (rd16 ?b 12) = ETH_P_IP" by (simp add: ntohs_def swap16_def ETH_P_IP_def)
  obtain buf' f where ip: "ip_process a buf st = Inr (0, buf', st, [(nif_id nif, f)], None)" "wire_answer (nif_mac nif) ?b f"
    using ip_answers_echo [OF assms(2-7)] by blast
  have "net_process now a buf st = Inr (0, buf', st, [(nif_id nif, f)], None, None)"
    using ty ip(1) len assms(7) by (simp add: net_process_def need_def ETH_SIZE_def ETH_P_IP_def ETH_P_ARP_def)
  moreover have "num_items (nq_list q) \<noteq> 0" using queue_of_num [OF assms(1)] by auto
  ultimately have "net_task_round woke now a q st = Inr (Net_done [(nif_id nif, f)], q', st)"
    using q(1) by (simp add: net_task_round_def)
  with q(2) ip(2) show ?thesis by blast
qed

lemma ping_answered_witness:
  "\<exists>q q' f. net_task_round False 6 None q sample_net = Inr (Net_done [(0, f)], q', sample_net) \<and>
     wire_answer (replicate 6 2) sample_ping f"
proof -
  let ?e = "\<lparr>nq_list = list_open, nq_lock = False\<rparr>"
  have "queue_of ?e []" unfolding queue_of_def by (auto simp: repr_def list_open_def intro!: exI [of _ "[]"])
  from push_appends [OF this, of 5 ping_buf] obtain q where q: "queue_of q [ping_buf]" by (auto simp: list_open_def)
  show ?thesis
    using ping_answered [OF q, of sample_nif sample_net False 6 None] sample_ping_ok
    by (auto simp: ping_buf_def sample_net_def sample_nif_def MAC_SIZE_def sample_ping_def)
qed

end
